(* ===== verification/Prelude_C.thy ===== *)
theory Prelude_C
  imports Main "HOL-Library.Word" "HOL-Library.Monad_Syntax"
begin

text \<open>
  Shared vocabulary of the development: machine integers, C objects (buffers with a
  bounded extent, NUL-terminated strings), the library's return codes
  (\<^verbatim>\<open>cphidgetconstants.h\<close>) and generic lemmas on them.

  A C operation that may have undefined behaviour (an access outside its object, a
  dereference of a null or dangling pointer) is a function into \<open>'a option\<close>:
  \<open>None\<close> is the undefined behaviour, \<open>Some r\<close> a defined execution with result
  \<open>r\<close>.  So a theorem \<open>op x = Some r\<close> states memory safety and
  termination as well as the result.
\<close>

unbundle bit_operations_syntax

subsection \<open>Machine types\<close>

type_synonym u8 = "8 word"
type_synonym u16 = "16 word"
type_synonym u32 = "32 word"
type_synonym i32 = "32 word"

named_theorems csimps \<open>unfolding of C object accesses\<close>

subsection \<open>Return codes\<close>

text \<open>\<^verbatim>\<open>cphidgetconstants.h\<close>: the error codes, by name, and their numeric values
  (\<^verbatim>\<open>EPHIDGET_TRYAGAIN\<close> is internal, \<^verbatim>\<open>cphidgetconstantsinternal.h\<close>).\<close>

datatype ephidget =
    EPHIDGET_OK | EPHIDGET_NOTFOUND | EPHIDGET_NOMEMORY | EPHIDGET_UNEXPECTED
  | EPHIDGET_INVALIDARG | EPHIDGET_NOTATTACHED | EPHIDGET_INTERRUPTED | EPHIDGET_INVALID
  | EPHIDGET_NETWORK | EPHIDGET_UNKNOWNVAL | EPHIDGET_BADPASSWORD | EPHIDGET_UNSUPPORTED
  | EPHIDGET_DUPLICATE | EPHIDGET_TIMEOUT | EPHIDGET_OUTOFBOUNDS | EPHIDGET_EVENT
  | EPHIDGET_NETWORK_NOTCONNECTED | EPHIDGET_WRONGDEVICE | EPHIDGET_CLOSED
  | EPHIDGET_BADVERSION | EPHIDGET_TRYAGAIN

fun ephidget_code :: "ephidget \<Rightarrow> int" where
  "ephidget_code EPHIDGET_OK = 0"
| "ephidget_code EPHIDGET_NOTFOUND = 1"
| "ephidget_code EPHIDGET_NOMEMORY = 2"
| "ephidget_code EPHIDGET_UNEXPECTED = 3"
| "ephidget_code EPHIDGET_INVALIDARG = 4"
| "ephidget_code EPHIDGET_NOTATTACHED = 5"
| "ephidget_code EPHIDGET_INTERRUPTED = 6"
| "ephidget_code EPHIDGET_INVALID = 7"
| "ephidget_code EPHIDGET_NETWORK = 8"
| "ephidget_code EPHIDGET_UNKNOWNVAL = 9"
| "ephidget_code EPHIDGET_BADPASSWORD = 10"
| "ephidget_code EPHIDGET_UNSUPPORTED = 11"
| "ephidget_code EPHIDGET_DUPLICATE = 12"
| "ephidget_code EPHIDGET_TIMEOUT = 13"
| "ephidget_code EPHIDGET_OUTOFBOUNDS = 14"
| "ephidget_code EPHIDGET_EVENT = 15"
| "ephidget_code EPHIDGET_NETWORK_NOTCONNECTED = 16"
| "ephidget_code EPHIDGET_WRONGDEVICE = 17"
| "ephidget_code EPHIDGET_CLOSED = 18"
| "ephidget_code EPHIDGET_BADVERSION = 19"
| "ephidget_code EPHIDGET_TRYAGAIN = 0x8000"

lemma ephidget_code_inj: "ephidget_code a = ephidget_code b \<Longrightarrow> a = b"
  by (cases a; cases b; simp)

definition PUNK_INT :: int where "PUNK_INT = 0x7FFFFFFF"
definition PUNK_BOOL :: int where "PUNK_BOOL = 2"

subsection \<open>C objects\<close>

text \<open>A buffer is the list of the bytes (or ints) of the object; accesses outside it are undefined.\<close>

definition cread :: "'a list \<Rightarrow> nat \<Rightarrow> 'a option" where
  "cread buf i = (if i < length buf then Some (buf ! i) else None)"

definition cwrite :: "'a list \<Rightarrow> nat \<Rightarrow> 'a \<Rightarrow> 'a list option" where
  "cwrite buf i x = (if i < length buf then Some (buf[i := x]) else None)"

definition blit :: "'a list \<Rightarrow> nat \<Rightarrow> 'a list \<Rightarrow> 'a list option" where
  "blit buf off bs = (if off + length bs \<le> length buf
     then Some (take off buf @ bs @ drop (off + length bs) buf) else None)"

definition strlen :: "u8 list \<Rightarrow> nat option" where
  "strlen buf = (if 0 \<in> set buf then Some (length (takeWhile (\<lambda>c. c \<noteq> 0) buf)) else None)"

definition cstring :: "u8 list \<Rightarrow> u8 list" where
  "cstring buf = takeWhile (\<lambda>c. c \<noteq> 0) buf"

text \<open>Conversion of an \<^verbatim>\<open>int\<close> to a 64-bit \<^verbatim>\<open>size_t\<close>.\<close>

definition size_t_of_int :: "int \<Rightarrow> int" where
  "size_t_of_int x = x mod 2 ^ 64"

lemma takeWhile_nul: "0 \<notin> set s \<Longrightarrow> takeWhile (\<lambda>c. c \<noteq> 0) (s @ 0 # t) = (s :: u8 list)"
  by (induction s) auto

lemma strlen_append_nul [simp]: "0 \<notin> set s \<Longrightarrow> strlen (s @ 0 # t) = Some (length s)"
  by (simp add: strlen_def takeWhile_nul)

lemma cstring_append_nul [simp]: "0 \<notin> set s \<Longrightarrow> cstring (s @ 0 # t) = s"
  by (simp add: cstring_def takeWhile_nul)

lemma strlen_lt: "strlen buf = Some n \<Longrightarrow> n < length buf"
proof -
  assume *: "strlen buf = Some n"
  then obtain s t where "buf = s @ 0 # t" and "0 \<notin> set s"
    by (auto simp: strlen_def split: if_splits dest: split_list_first)
  with * show ?thesis by auto
qed

lemma cread_append_left [csimps]: "i < length xs \<Longrightarrow> cread (xs @ ys) i = Some (xs ! i)"
  by (simp add: cread_def nth_append)

lemma cread_append_mid [csimps]: "cread (xs @ y # ys) (length xs) = Some y"
  by (simp add: cread_def)

lemma cread_append_plus [csimps]: "cread (xs @ ys) (length xs + i) = cread ys i"
  by (simp add: cread_def nth_append)

lemma cread_Cons_0 [csimps]: "cread (x # xs) 0 = Some x"
  by (simp add: cread_def)

lemma cread_Cons_Suc [csimps]: "cread (x # xs) (Suc i) = cread xs i"
  by (simp add: cread_def)

lemma length_blit: "blit buf off bs = Some b' \<Longrightarrow> length b' = length buf"
  by (auto simp: blit_def split: if_splits)

lemma length_cwrite: "cwrite buf i x = Some b' \<Longrightarrow> length b' = length buf"
  by (auto simp: cwrite_def split: if_splits)

subsection \<open>Words\<close>

lemma u8_unat_less: "unat (b :: u8) < 256"
  using unsigned_less [of b, where ?'a = nat] by simp

lemma uint_div_mod_16: "uint (c div 16) * 16 + uint (c mod 16) = uint (c :: u8)"
  by (simp add: uint_div uint_mod)

lemma u8_div_16_less: "(c :: u8) div 16 < 16"
proof -
  have "uint c < 256" using uint_lt2p [of c] by simp
  then show ?thesis by (simp add: word_less_def uint_div)
qed

lemma u8_mod_16_less: "(c :: u8) mod 16 < 16"
  by (simp add: word_less_def uint_mod)

subsection \<open>Counted loops\<close>

text \<open>\<^verbatim>\<open>for (i in xs) s = body(i, s)\<close>, stopping at undefined behaviour.\<close>

fun cfor :: "'i list \<Rightarrow> ('i \<Rightarrow> 's \<Rightarrow> 's option) \<Rightarrow> 's \<Rightarrow> 's option" where
  "cfor [] f s = Some s"
| "cfor (i # is) f s = do { s \<leftarrow> f i s; cfor is f s }"

lemma cfor_append: "cfor (xs @ ys) f s = Option.bind (cfor xs f s) (cfor ys f)"
  by (induction xs arbitrary: s) (auto split: option.split bind_split)

lemma cfor_snoc: "cfor (xs @ [x]) f s = Option.bind (cfor xs f s) (f x)"
  by (induction xs arbitrary: s) (auto split: option.split bind_split)

lemma blit_append:
  "length pre = off \<Longrightarrow> length bs \<le> length suf \<Longrightarrow>
   blit (pre @ suf) off bs = Some (pre @ bs @ drop (length bs) suf)"
  by (simp add: blit_def)

lemma cwrite_append: "length pre = i \<Longrightarrow> cwrite (pre @ y # suf) i x = Some (pre @ x # suf)"
  by (auto simp: cwrite_def)

lemma drop_length_replicate [simp]: "drop n (x # replicate n x) = [x]"
  using drop_replicate [of n "Suc n" x] by (simp del: drop_replicate)

subsection \<open>The contract of a text codec\<close>

text \<open>
  A printer into NUL-terminated text and the parser that reads it back.  Clients (the
  dictionary transport of keys, values and arrays) rely on two laws: the text holds
  no NUL, and parsing the terminated text gives the printed data back whatever lies
  behind the terminator.
\<close>

locale text_codec =
  fixes enc :: "'a \<Rightarrow> u8 list"
    and dec :: "u8 list \<Rightarrow> 'a option"
    and ok :: "'a \<Rightarrow> bool"
  assumes nul_free: "ok x \<Longrightarrow> 0 \<notin> set (enc x)"
    and dec_enc: "ok x \<Longrightarrow> dec (enc x @ 0 # t) = Some x"
begin

lemma enc_inj: "ok x \<Longrightarrow> ok y \<Longrightarrow> enc x = enc y \<Longrightarrow> x = y"
  by (metis dec_enc option.inject)

lemma dec_prefix_free:
  assumes "ok x" and "ok y" and "enc x @ 0 # t = enc y @ 0 # u"
  shows "x = y \<and> t = u"
proof -
  have "x = y" using assms by (metis dec_enc option.inject)
  with assms(3) show ?thesis by simp
qed

lemma cstring_enc: "ok x \<Longrightarrow> cstring (enc x @ 0 # t) = enc x"
  by (simp add: nul_free)

end

end
