(* ===== verification/Utils.thy ===== *)
theory Utils
  imports Prelude_C
begin

text \<open>
  The string codecs of \<^verbatim>\<open>utils/utils.c\<close>: hexadecimal digits, the
  \<^verbatim>\<open>\xHH\<close> escaping of dictionary keys and values, and the hexadecimal
  transport of byte and word arrays.  Every function reads and writes C buffers
  (\<open>Prelude_C\<close>); \<open>None\<close> is an access outside a buffer.
\<close>

subsection \<open>Hexadecimal digits\<close>

definition isdigit :: "u8 \<Rightarrow> bool" where
  "isdigit c \<longleftrightarrow> 48 \<le> c \<and> c \<le> 57"

definition isalpha :: "u8 \<Rightarrow> bool" where
  "isalpha c \<longleftrightarrow> (65 \<le> c \<and> c \<le> 90) \<or> (97 \<le> c \<and> c \<le> 122)"

definition tolower :: "u8 \<Rightarrow> u8" where
  "tolower c = (if 65 \<le> c \<and> c \<le> 90 then c + 32 else c)"

text \<open>\<^verbatim>\<open>int hexval(unsigned char c)\<close>\<close>

definition hexval :: "u8 \<Rightarrow> int" where
  "hexval c =
     (if isdigit c then uint c - 48
      else let c = tolower c in
        if c \<le> 102 \<and> c \<ge> 97 then uint c - 97 + 10 else - 1)"

text \<open>\<^verbatim>\<open>static unsigned char hexchar(unsigned char c)\<close>\<close>

definition hexchar :: "u8 \<Rightarrow> u8" where
  "hexchar c = (if c > 16 then 102 else if c \<ge> 10 then c - 10 + 97 else c + 48)"

lemma hexval_hexchar:
  assumes "h < 16" shows "hexval (hexchar h) = uint h"
proof -
  obtain n where "h = word_of_nat n" and "n \<in> {..<16}"
  proof
    show "h = word_of_nat (unat h)" by simp
    show "unat h \<in> {..<16}" using assms by (simp add: word_less_nat_alt)
  qed
  then show ?thesis
    by (auto simp: lessThan_nat_numeral lessThan_Suc hexval_def hexchar_def isdigit_def tolower_def
        word_le_nat_alt)
qed

lemma hexchar_nonzero: "h < 16 \<Longrightarrow> hexchar h \<noteq> 0"
proof
  assume "h < 16" and "hexchar h = 0"
  then have "hexval 0 = uint h" using hexval_hexchar [of h] by simp
  then show False using uint_ge_0 [of h] by (simp add: hexval_def isdigit_def tolower_def)
qed

lemma hexval_range: "hexval c = -1 \<or> (0 \<le> hexval c \<and> hexval c \<le> 15)"
  by (auto simp: hexval_def isdigit_def tolower_def Let_def word_le_def uint_word_ariths
      mod_pos_pos_trivial)

subsection \<open>Escaping\<close>

text \<open>The macro \<^verbatim>\<open>PASSTHRU\<close>: letters, digits and the four characters \<^verbatim>\<open>. / : %\<close>.\<close>

definition passthru :: "u8 \<Rightarrow> bool" where
  "passthru c \<longleftrightarrow> isalpha c \<or> isdigit c \<or> c = 46 \<or> c = 47 \<or> c = 58 \<or> c = 37"

text \<open>The sizing loop of \<^verbatim>\<open>escape2\<close> (lines 1122--1129).\<close>

fun escape2_size :: "bool \<Rightarrow> u8 list \<Rightarrow> nat" where
  "escape2_size escbacks [] = 0"
| "escape2_size escbacks (c # cs) =
     (if passthru c then 1 else if escbacks then 6 else 4) + escape2_size escbacks cs"

text \<open>The bytes the copying loop stores for one source character (lines 1134--1143).\<close>

definition escape2_char :: "bool \<Rightarrow> u8 \<Rightarrow> u8 list" where
  "escape2_char escbacks c =
     (if \<not> passthru c then
        [92] @ (if escbacks then [92] else []) @ [120, hexchar (c div 16), hexchar (c mod 16)]
      else [c])"

text \<open>The copying loop writes into \<open>dst\<close> at \<open>dlen\<close>; a write past the allocation is \<open>None\<close>.\<close>

fun escape2_copy :: "bool \<Rightarrow> u8 list \<Rightarrow> nat \<Rightarrow> u8 list \<Rightarrow> (nat \<times> u8 list) option" where
  "escape2_copy escbacks [] dlen dst = Some (dlen, dst)"
| "escape2_copy escbacks (c # cs) dlen dst = do {
     dst \<leftarrow> blit dst dlen (escape2_char escbacks c);
     escape2_copy escbacks cs (dlen + length (escape2_char escbacks c)) dst }"

text \<open>
  \<^verbatim>\<open>int escape2(const char *src, unsigned int slen, char **dstp, int escbacks)\<close>.
  \<open>mem\<close> says whether \<^verbatim>\<open>malloc\<close> succeeds; \<open>fill\<close> is the (unspecified)
  content of fresh memory.  The result is the return value and, on success, the
  contents of the allocated object.
\<close>

definition escape2 ::
    "bool \<Rightarrow> u8 \<Rightarrow> u8 list \<Rightarrow> nat \<Rightarrow> bool \<Rightarrow> (int \<times> u8 list) option" where
  "escape2 mem fill src slen escbacks = do {
     slen \<leftarrow> (if slen = 0 then strlen src else Some slen);
     if slen \<le> length src then do {
       let dlen = escape2_size escbacks (take slen src);
       if \<not> mem then Some (0, []) else do {
         (dlen, dst) \<leftarrow> escape2_copy escbacks (take slen src) 0 (replicate (dlen + 1) fill);
         dst \<leftarrow> cwrite dst dlen 0;
         Some (1, dst) } }
     else None }"

definition escape :: "bool \<Rightarrow> u8 \<Rightarrow> u8 list \<Rightarrow> nat \<Rightarrow> (int \<times> u8 list) option" where
  "escape mem fill src slen = escape2 mem fill src slen False"

subsection \<open>Unescaping\<close>

text \<open>The sizing loop of \<^verbatim>\<open>unescape\<close> (lines 1081--1083).\<close>

function unescape_size :: "u8 list \<Rightarrow> nat \<Rightarrow> nat \<Rightarrow> nat option" where
  "unescape_size src slen i =
     (if i < slen then do {
        c \<leftarrow> cread src i;
        n \<leftarrow> unescape_size src slen (if c = 92 then i + 4 else i + 1);
        Some (n + 1) }
      else Some 0)"
  by pat_completeness auto
termination by (relation "measure (\<lambda>(src, slen, i). slen - i)") auto

text \<open>The copying loop (lines 1087--1093).\<close>

function unescape_copy ::
    "u8 list \<Rightarrow> nat \<Rightarrow> nat \<Rightarrow> nat \<Rightarrow> u8 list \<Rightarrow> (nat \<times> u8 list) option" where
  "unescape_copy src slen i dlen dst =
     (if i < slen then do {
        c \<leftarrow> cread src i;
        if c = 92 then do {
          h \<leftarrow> cread src (i + 2);
          l \<leftarrow> cread src (i + 3);
          dst \<leftarrow> cwrite dst dlen (word_of_int (hexval h * 16 + hexval l));
          unescape_copy src slen (i + 4) (dlen + 1) dst }
        else do {
          dst \<leftarrow> cwrite dst dlen c;
          unescape_copy src slen (i + 1) (dlen + 1) dst } }
      else Some (dlen, dst))"
  by pat_completeness auto
termination by (relation "measure (\<lambda>(src, slen, i, dlen, dst). slen - i)") auto

declare unescape_size.simps [simp del] unescape_copy.simps [simp del]

text \<open>
  \<^verbatim>\<open>int unescape(const char *src, char **dstp, unsigned int *dlenp)\<close>: the return
  value, the contents of \<^verbatim>\<open>*dstp\<close> and \<^verbatim>\<open>*dlenp\<close>.
\<close>

definition unescape :: "bool \<Rightarrow> u8 \<Rightarrow> u8 list \<Rightarrow> (int \<times> u8 list \<times> nat) option" where
  "unescape mem fill src = do {
     slen \<leftarrow> strlen src;
     dlen \<leftarrow> unescape_size src slen 0;
     if \<not> mem then Some (0, [], 0) else do {
       (dlen, dst) \<leftarrow> unescape_copy src slen 0 0 (replicate (dlen + 1) fill);
       dst \<leftarrow> cwrite dst dlen 0;
       Some (1, dst, dlen) } }"

subsection \<open>The codec as list functions\<close>

definition escape_chars :: "bool \<Rightarrow> u8 list \<Rightarrow> u8 list" where
  "escape_chars escbacks cs = concat (map (escape2_char escbacks) cs)"

lemma escape_chars_simps [simp]:
  "escape_chars e [] = []"
  "escape_chars e (c # cs) = escape2_char e c @ escape_chars e cs"
  by (simp_all add: escape_chars_def)

lemma length_escape_chars_le: "length (escape_chars e cs) \<le> escape2_size e cs"
  by (induction cs) (auto simp: escape2_char_def)

lemma length_escape_chars: "length (escape_chars False cs) = escape2_size False cs"
  by (induction cs) (auto simp: escape2_char_def)

lemma nul_notin_escape_chars: "0 \<notin> set (escape_chars e cs)"
proof (induction cs)
  case (Cons c cs)
  have "0 \<notin> set (escape2_char e c)"
    using hexchar_nonzero [OF u8_div_16_less, of c] hexchar_nonzero [OF u8_mod_16_less, of c]
    by (auto simp: escape2_char_def passthru_def isalpha_def isdigit_def)
  then show ?case using Cons.IH by simp
qed simp

lemma escape2_copy_eq:
  assumes "length (escape_chars e cs) \<le> length suf"
  shows "escape2_copy e cs (length pre) (pre @ suf) =
    Some (length pre + length (escape_chars e cs),
          pre @ escape_chars e cs @ drop (length (escape_chars e cs)) suf)"
  using assms
proof (induction cs arbitrary: pre suf)
  case (Cons c cs)
  let ?b = "escape2_char e c"
  have "escape2_copy e cs (length (pre @ ?b)) ((pre @ ?b) @ drop (length ?b) suf) =
    Some (length (pre @ ?b) + length (escape_chars e cs),
          (pre @ ?b) @ escape_chars e cs @ drop (length (escape_chars e cs)) (drop (length ?b) suf))"
    using Cons.prems by (intro Cons.IH) simp
  then show ?case using Cons.prems by (simp add: blit_append ac_simps)
qed simp

lemma escape2_eq:
  assumes "cs \<noteq> []"
  shows "escape2 True fill (cs @ rest) (length cs) e =
    Some (1, escape_chars e cs @
      0 # replicate (escape2_size e cs - length (escape_chars e cs)) fill)"
proof -
  have "escape2_copy e cs 0 (replicate (escape2_size e cs + 1) fill) =
    Some (length (escape_chars e cs), escape_chars e cs @
      drop (length (escape_chars e cs)) (replicate (escape2_size e cs + 1) fill))"
    using escape2_copy_eq [of e cs "replicate (escape2_size e cs + 1) fill" "[]"]
      length_escape_chars_le [of e cs] by simp
  moreover have "drop (length (escape_chars e cs)) (replicate (escape2_size e cs + 1) fill) =
      fill # replicate (escape2_size e cs - length (escape_chars e cs)) fill"
    using drop_replicate [of "length (escape_chars e cs)" "escape2_size e cs + 1" fill]
      length_escape_chars_le [of e cs] by (simp add: Suc_diff_le del: drop_replicate)
  ultimately show ?thesis
    using assms by (simp add: escape2_def cwrite_append)
qed

lemma escape2_eq_nul:
  assumes "0 \<notin> set cs" and "cs \<noteq> []"
  shows "escape2 True fill (cs @ 0 # t) 0 e = escape2 True fill (cs @ 0 # t) (length cs) e"
  using assms by (simp add: escape2_def)

lemma unescape_char_step:
  assumes "i = length pre" and "i + length (escape2_char False c) \<le> slen"
    and "dlen = length dpre" and "dst = dpre @ d # dsuf"
  shows "unescape_copy (pre @ escape2_char False c @ post) slen i dlen dst =
     unescape_copy (pre @ escape2_char False c @ post) slen
       (i + length (escape2_char False c)) (dlen + 1) (dpre @ c # dsuf)"
proof (cases "passthru c")
  case True
  then have "c \<noteq> 92" by (auto simp: passthru_def isalpha_def isdigit_def)
  with True assms show ?thesis
    by (subst unescape_copy.simps)
      (simp add: escape2_char_def csimps cwrite_append)
next
  case False
  have "word_of_int (hexval (hexchar (c div 16)) * 16 + hexval (hexchar (c mod 16))) = c"
    by (simp add: hexval_hexchar u8_div_16_less u8_mod_16_less uint_div_mod_16)
  with False assms show ?thesis
    by (subst unescape_copy.simps)
      (simp add: escape2_char_def cread_def nth_append cwrite_append eval_nat_numeral)
qed

lemma unescape_size_step:
  assumes "i = length pre" and "i + length (escape2_char False c) \<le> slen"
  shows "unescape_size (pre @ escape2_char False c @ post) slen i =
     map_option Suc (unescape_size (pre @ escape2_char False c @ post) slen
       (i + length (escape2_char False c)))"
proof (cases "passthru c")
  case True
  then have "c \<noteq> 92" by (auto simp: passthru_def isalpha_def isdigit_def)
  with True assms show ?thesis
    by (subst unescape_size.simps)
      (simp add: escape2_char_def csimps map_option_case split: option.split)
next
  case False
  with assms show ?thesis
    by (subst unescape_size.simps)
      (simp add: escape2_char_def csimps map_option_case eval_nat_numeral split: option.split)
qed

lemma unescape_size_escape:
  assumes "i = length pre" and "slen = length pre + length (escape_chars False cs)"
  shows "unescape_size (pre @ escape_chars False cs @ post) slen i = Some (length cs)"
  using assms
proof (induction cs arbitrary: pre i)
  case Nil
  then show ?case by (subst unescape_size.simps) simp
next
  case (Cons c cs)
  have "unescape_size ((pre @ escape2_char False c) @ escape_chars False cs @ post) slen
      (i + length (escape2_char False c)) = Some (length cs)"
    using Cons.prems by (intro Cons.IH) auto
  then show ?case
    using unescape_size_step [of i pre c slen "escape_chars False cs @ post"] Cons.prems by simp
qed

lemma unescape_copy_escape:
  assumes "i = length pre" and "slen = length pre + length (escape_chars False cs)"
    and "dlen = length dpre" and "length cs \<le> length dsuf"
  shows "unescape_copy (pre @ escape_chars False cs @ post) slen i dlen (dpre @ dsuf) =
    Some (dlen + length cs, dpre @ cs @ drop (length cs) dsuf)"
  using assms
proof (induction cs arbitrary: pre i dpre dlen dsuf)
  case Nil
  then show ?case by (subst unescape_copy.simps) simp
next
  case (Cons c cs)
  then obtain d ds where dsuf: "dsuf = d # ds" by (cases dsuf) auto
  have "unescape_copy ((pre @ escape2_char False c) @ escape_chars False cs @ post) slen
      (i + length (escape2_char False c)) (dlen + 1) ((dpre @ [c]) @ ds) =
     Some (dlen + 1 + length cs, (dpre @ [c]) @ cs @ drop (length cs) ds)"
    using Cons.prems dsuf by (intro Cons.IH) auto
  then show ?case
    using unescape_char_step [of i pre c slen dlen dpre "dpre @ dsuf" d ds "escape_chars False cs @ post"]
      Cons.prems dsuf by simp
qed

lemma unescape_escape_chars:
  "unescape True fill (escape_chars False cs @ 0 # t) = Some (1, cs @ [0], length cs)"
proof -
  have "unescape_size ([] @ escape_chars False cs @ 0 # t) (length (escape_chars False cs)) 0 =
      Some (length cs)"
    by (intro unescape_size_escape) simp_all
  moreover have "unescape_copy ([] @ escape_chars False cs @ 0 # t) (length (escape_chars False cs)) 0 0
      ([] @ replicate (length cs + 1) fill) =
    Some (0 + length cs, [] @ cs @ drop (length cs) (replicate (length cs + 1) fill))"
    by (intro unescape_copy_escape) simp_all
  ultimately show ?thesis
    using nul_notin_escape_chars [of False cs]
    by (simp add: unescape_def cwrite_append)
qed

subsection \<open>Hexadecimal arrays\<close>

text \<open>\<^verbatim>\<open>sprintf\<close> with a \<^verbatim>\<open>%0wx\<close> directive: the hexadecimal digits, zero-padded to width \<open>w\<close>.\<close>

definition hex_digit :: "nat \<Rightarrow> u8" where
  "hex_digit d = word_of_nat (if d < 10 then 48 + d else 87 + d)"

fun hex_digits :: "nat \<Rightarrow> u8 list" where
  "hex_digits n = (if n < 16 then [hex_digit n] else hex_digits (n div 16) @ [hex_digit (n mod 16)])"

declare hex_digits.simps [simp del]

definition sprintf_0x :: "nat \<Rightarrow> nat \<Rightarrow> u8 list" where
  "sprintf_0x w n = replicate (w - length (hex_digits n)) 48 @ hex_digits n"

text \<open>\<^verbatim>\<open>int byteArrayToString(unsigned char *bytes, int length, char *string)\<close>\<close>

definition byteArrayToString ::
    "u8 list \<Rightarrow> int \<Rightarrow> u8 list \<Rightarrow> (ephidget \<times> u8 list) option" where
  "byteArrayToString bytes len string = do {
     string \<leftarrow> cfor [0..<nat len] (\<lambda>i string. do {
       b \<leftarrow> cread bytes i;
       blit string (i * 2) (sprintf_0x 2 (unat b) @ [0]) }) string;
     Some (EPHIDGET_OK, string) }"

text \<open>
  \<^verbatim>\<open>int stringToByteArray(char *string, unsigned char *bytes, int *length)\<close>: the
  loop of lines 1173--1180 returns the code, the bytes and the value of \<open>i\<close>.
\<close>

function stringToByteArray_loop ::
    "u8 list \<Rightarrow> nat \<Rightarrow> int \<Rightarrow> nat \<Rightarrow> u8 list \<Rightarrow> (ephidget \<times> u8 list \<times> nat) option" where
  "stringToByteArray_loop string slen len i bytes =
     (if i < slen then do {
        c \<leftarrow> cread string i;
        if hexval c = - 1 then Some (EPHIDGET_OK, bytes, i)
        else if int (i div 2) > len then Some (EPHIDGET_INVALIDARG, bytes, i)
        else do {
          c' \<leftarrow> cread string (i + 1);
          bytes \<leftarrow> cwrite bytes (i div 2) (word_of_int (hexval c * 16 + hexval c'));
          stringToByteArray_loop string slen len (i + 2) bytes } }
      else Some (EPHIDGET_OK, bytes, i))"
  by pat_completeness auto
termination by (relation "measure (\<lambda>(string, slen, len, i, bytes). slen - i)") auto

declare stringToByteArray_loop.simps [simp del]

definition stringToByteArray ::
    "u8 list \<Rightarrow> u8 list \<Rightarrow> int \<Rightarrow> (ephidget \<times> u8 list \<times> int) option" where
  "stringToByteArray string bytes len = do {
     slen \<leftarrow> strlen string;
     if int slen > size_t_of_int (len * 2) then Some (EPHIDGET_INVALIDARG, bytes, len)
     else do {
       (r, bytes, i) \<leftarrow> stringToByteArray_loop string slen len 0 bytes;
       if r = EPHIDGET_OK then Some (EPHIDGET_OK, bytes, int (i div 2))
       else Some (r, bytes, len) } }"

text \<open>
  \<^verbatim>\<open>int wordArrayToString(int *words, int length, char *string)\<close>; \<^verbatim>\<open>%x\<close> prints
  the int as an unsigned 32-bit value.
\<close>

definition wordArrayToString ::
    "int list \<Rightarrow> int \<Rightarrow> u8 list \<Rightarrow> (ephidget \<times> u8 list) option" where
  "wordArrayToString words len string = do {
     string \<leftarrow> cfor [0..<nat len] (\<lambda>i string. do {
       w \<leftarrow> cread words i;
       if w > 0xFFFFF then blit string (i * 5) (replicate 5 102 @ [0])
       else blit string (i * 5) (sprintf_0x 5 (nat (w mod 2 ^ 32)) @ [0]) }) string;
     Some (EPHIDGET_OK, string) }"

text \<open>\<^verbatim>\<open>int stringToWordArray(char *string, int *words, int *length)\<close>\<close>

function stringToWordArray_loop ::
    "u8 list \<Rightarrow> nat \<Rightarrow> int \<Rightarrow> nat \<Rightarrow> int list \<Rightarrow> (ephidget \<times> int list \<times> nat) option" where
  "stringToWordArray_loop string slen len i words =
     (if i < slen then do {
        c \<leftarrow> cread string i;
        if hexval c = - 1 then Some (EPHIDGET_OK, words, i)
        else if int (i div 5) > len then Some (EPHIDGET_INVALIDARG, words, i)
        else do {
          c1 \<leftarrow> cread string (i + 1);
          c2 \<leftarrow> cread string (i + 2);
          c3 \<leftarrow> cread string (i + 3);
          c4 \<leftarrow> cread string (i + 4);
          let w = hexval c * 65536 + hexval c1 * 4096 + hexval c2 * 256 + hexval c3 * 16 + hexval c4;
          words \<leftarrow> cwrite words (i div 5) (if w = 0xfffff then PUNK_INT else w);
          stringToWordArray_loop string slen len (i + 5) words } }
      else Some (EPHIDGET_OK, words, i))"
  by pat_completeness auto
termination by (relation "measure (\<lambda>(string, slen, len, i, words). slen - i)") auto

declare stringToWordArray_loop.simps [simp del]

definition stringToWordArray ::
    "u8 list \<Rightarrow> int list \<Rightarrow> int \<Rightarrow> (ephidget \<times> int list \<times> int) option" where
  "stringToWordArray string words len = do {
     slen \<leftarrow> strlen string;
     (r, words, i) \<leftarrow> stringToWordArray_loop string slen len 0 words;
     if r = EPHIDGET_OK then Some (EPHIDGET_OK, words, int (i div 5))
     else Some (r, words, len) }"

subsection \<open>Fixed-width groups of hexadecimal digits\<close>

fun hex_fixed :: "nat \<Rightarrow> nat \<Rightarrow> u8 list" where
  "hex_fixed 0 n = []"
| "hex_fixed (Suc w) n = hex_fixed w (n div 16) @ [hex_digit (n mod 16)]"

lemma hex_fixed_2: "n < 256 \<Longrightarrow> hex_fixed 2 n = [hex_digit (n div 16), hex_digit (n mod 16)]"
proof -
  assume "n < 256"
  then have "n div 16 mod 16 = n div 16" by simp
  moreover have "(2 :: nat) = Suc (Suc 0)" by simp
  ultimately show ?thesis by (simp only: hex_fixed.simps append.simps)
qed

lemma hex_fixed_5:
  assumes "n < 1048576"
  shows "hex_fixed 5 n = [hex_digit (n div 65536), hex_digit (n div 4096 mod 16),
    hex_digit (n div 256 mod 16), hex_digit (n div 16 mod 16), hex_digit (n mod 16)]"
proof -
  have "n div 65536 mod 16 = n div 65536" using assms by simp
  moreover have "(5 :: nat) = Suc (Suc (Suc (Suc (Suc 0))))" by simp
  moreover have "n div 16 div 16 = n div 256" "n div 16 div 16 div 16 = n div 4096"
    "n div 16 div 16 div 16 div 16 = n div 65536"
    by (simp_all add: div_mult2_eq [symmetric])
  ultimately show ?thesis by (simp only: hex_fixed.simps append.simps)
qed

lemma div_mod_16_sum:
  "n div 65536 * 65536 + n div 4096 mod 16 * 4096 + n div 256 mod 16 * 256 +
    n div 16 mod 16 * 16 + n mod 16 = (n :: nat)"
proof -
  have "n div 16 div 16 = n div 256" "n div 256 div 16 = n div 4096" "n div 4096 div 16 = n div 65536"
    by (simp_all add: div_mult2_eq [symmetric])
  then show ?thesis
    using div_mult_mod_eq [of n 16] div_mult_mod_eq [of "n div 16" 16]
      div_mult_mod_eq [of "n div 256" 16] div_mult_mod_eq [of "n div 4096" 16] by linarith
qed

lemma hex_fixed_5_digits:
  assumes "n < 1048576"
  obtains a b c d e where "hex_fixed 5 n = map hex_digit [a, b, c, d, e]"
    and "a < 16" and "b < 16" and "c < 16" and "d < 16" and "e < 16"
    and "int a * 65536 + int b * 4096 + int c * 256 + int d * 16 + int e = int n"
proof (rule that)
  show "hex_fixed 5 n = map hex_digit [n div 65536, n div 4096 mod 16, n div 256 mod 16,
      n div 16 mod 16, n mod 16]"
    using assms by (simp add: hex_fixed_5)
  have "int (n div 65536 * 65536 + n div 4096 mod 16 * 4096 + n div 256 mod 16 * 256 +
    n div 16 mod 16 * 16 + n mod 16) = int n" by (simp only: div_mod_16_sum)
  then show "int (n div 65536) * 65536 + int (n div 4096 mod 16) * 4096 +
      int (n div 256 mod 16) * 256 + int (n div 16 mod 16) * 16 + int (n mod 16) = int n"
    by (simp only: of_nat_add of_nat_mult of_nat_numeral)
qed (use assms in auto)

lemma length_hex_fixed [simp]: "length (hex_fixed w n) = w"
  by (induction w arbitrary: n) auto

lemma sprintf_0x_fixed: "n < 16 ^ Suc w \<Longrightarrow> sprintf_0x (Suc w) n = hex_fixed (Suc w) n"
proof (induction w arbitrary: n)
  case 0
  then show ?case by (simp add: sprintf_0x_def hex_digits.simps)
next
  case (Suc w)
  show ?case
  proof (cases "n < 16")
    case True
    have "hex_fixed (Suc w) 0 = sprintf_0x (Suc w) 0" by (rule Suc.IH [symmetric]) simp
    also have "\<dots> = replicate (Suc w) 48"
      by (simp add: sprintf_0x_def hex_digits.simps hex_digit_def replicate_append_same)
    finally show ?thesis using True
      by (simp add: sprintf_0x_def hex_digits.simps)
  next
    case False
    have "sprintf_0x (Suc (Suc w)) n = sprintf_0x (Suc w) (n div 16) @ [hex_digit (n mod 16)]"
      using False by (simp add: sprintf_0x_def hex_digits.simps [of n])
    also have "sprintf_0x (Suc w) (n div 16) = hex_fixed (Suc w) (n div 16)"
      using Suc.prems by (intro Suc.IH) (simp add: less_mult_imp_div_less mult.commute)
    finally show ?thesis by simp
  qed
qed

lemma nat_less_16_cases: "(d :: nat) < 16 \<Longrightarrow> d \<in> {0,1,2,3,4,5,6,7,8,9,10,11,12,13,14,15}"
proof -
  assume "d < 16"
  then have "d \<in> {..<16}" by simp
  then show ?thesis by (simp add: lessThan_nat_numeral lessThan_Suc) blast
qed

lemma hexval_hex_digit [simp]: "d < 16 \<Longrightarrow> hexval (hex_digit d) = int d"
  by (drule nat_less_16_cases)
    (auto simp: hexval_def hex_digit_def isdigit_def tolower_def word_le_nat_alt)

lemma hex_digit_nonzero [simp]: "d < 16 \<Longrightarrow> hex_digit d \<noteq> 0"
proof
  assume "d < 16" and "hex_digit d = 0"
  then have "hexval 0 = int d" by (metis hexval_hex_digit)
  then show False by (simp add: hexval_def isdigit_def tolower_def)
qed

lemma nul_notin_hex_fixed: "0 \<notin> set (hex_fixed w n)"
proof (induction w arbitrary: n)
  case (Suc w)
  have "hex_digit (n mod 16) \<noteq> 0" by simp
  then show ?case using Suc.IH by auto
qed simp

definition hex_groups :: "nat \<Rightarrow> nat list \<Rightarrow> u8 list" where
  "hex_groups w ns = concat (map (hex_fixed w) ns)"

lemma hex_groups_simps [simp]:
  "hex_groups w [] = []"
  "hex_groups w (n # ns) = hex_fixed w n @ hex_groups w ns"
  "hex_groups w (ns @ ms) = hex_groups w ns @ hex_groups w ms"
  by (simp_all add: hex_groups_def)

lemma length_hex_groups [simp]: "length (hex_groups w ns) = length ns * w"
  by (induction ns) auto

lemma nul_notin_hex_groups: "0 \<notin> set (hex_groups w ns)"
  by (induction ns) (auto simp: nul_notin_hex_fixed)

text \<open>
  The printing loops: each round writes one group and a terminator at the group's
  offset, so the terminator of the previous round is overwritten.
\<close>

lemma cfor_hex_groups:
  assumes body: "\<And>i s. i < length ns \<Longrightarrow> f i s = blit s (i * w) (hex_fixed w (ns ! i) @ [0])"
    and room: "length ns * w < length buf" and n: "n \<le> length ns"
  shows "cfor [0..<n] f buf =
    Some (hex_groups w (take n ns) @ (if n = 0 then buf else 0 # drop (Suc (n * w)) buf))"
  using n
proof (induction n)
  case (Suc n)
  define tail where "tail = (if n = 0 then buf else 0 # drop (Suc (n * w)) buf)"
  have len: "length tail = length buf - n * w"
    using Suc.prems room by (auto simp: tail_def) (metis Suc_leI Suc_le_lessD le_trans
      mult_le_mono1 Suc_diff_Suc Suc_leD order_le_less_trans)
  have fits: "w < length tail"
  proof -
    have "Suc n * w \<le> length ns * w" using Suc.prems by (rule mult_le_mono1)
    with room len show ?thesis by simp
  qed
  have "cfor [0..<Suc n] f buf =
      Option.bind (Some (hex_groups w (take n ns) @ tail)) (f n)"
    using Suc.IH Suc.prems by (simp add: cfor_snoc tail_def del: bind.bind_lunit)
  also have "\<dots> = blit (hex_groups w (take n ns) @ tail) (n * w) (hex_fixed w (ns ! n) @ [0])"
    using Suc.prems by (simp add: body)
  also have "\<dots> = Some (hex_groups w (take n ns) @ (hex_fixed w (ns ! n) @ [0]) @ drop (Suc w) tail)"
    using Suc.prems fits by (subst blit_append) auto
  also have "drop (Suc w) tail = drop (Suc (Suc n * w)) buf"
    by (auto simp: tail_def add.commute)
  finally show ?case
    using Suc.prems by (simp add: take_Suc_conv_app_nth)
qed simp

lemma sprintf_0x_2: "n < 256 \<Longrightarrow> sprintf_0x 2 n = hex_fixed 2 n"
proof -
  assume "n < 256"
  then have "n < 16 ^ Suc 1" by simp
  then have "sprintf_0x (Suc 1) n = hex_fixed (Suc 1) n" by (rule sprintf_0x_fixed)
  then show ?thesis by (simp only: Suc_1)
qed

lemma sprintf_0x_5: "n < 1048576 \<Longrightarrow> sprintf_0x 5 n = hex_fixed 5 n"
proof -
  assume "n < 1048576"
  then have "n < 16 ^ Suc 4" by simp
  then have "sprintf_0x (Suc 4) n = hex_fixed (Suc 4) n" by (rule sprintf_0x_fixed)
  moreover have "Suc 4 = 5" by simp
  ultimately show ?thesis by (simp only:)
qed

lemma byteArrayToString_eq:
  assumes "length bs * 2 < length buf"
  shows "byteArrayToString bs (int (length bs)) buf =
    Some (EPHIDGET_OK, hex_groups 2 (map unat bs) @
      (if bs = [] then buf else 0 # drop (Suc (length bs * 2)) buf))"
proof -
  have "sprintf_0x 2 (unat b) = hex_fixed 2 (unat b)" for b :: u8
    by (rule sprintf_0x_2 [OF u8_unat_less])
  then have "cfor [0..<length (map unat bs)] (\<lambda>i string. do {
       b \<leftarrow> cread bs i; blit string (i * 2) (sprintf_0x 2 (unat b) @ [0]) }) buf =
    Some (hex_groups 2 (take (length (map unat bs)) (map unat bs)) @
      (if length (map unat bs) = 0 then buf else 0 # drop (Suc (length (map unat bs) * 2)) buf))"
    using assms by (intro cfor_hex_groups) (simp_all add: cread_def)
  then show ?thesis by (simp add: byteArrayToString_def)
qed

lemma wordArrayToString_eq:
  assumes "length ws * 5 < length buf" and "\<forall>w \<in> set ws. 0 \<le> w"
  shows "wordArrayToString ws (int (length ws)) buf =
    Some (EPHIDGET_OK, hex_groups 5 (map (\<lambda>w. nat (min w 0xFFFFF)) ws) @
      (if ws = [] then buf else 0 # drop (Suc (length ws * 5)) buf))"
proof -
  let ?ns = "map (\<lambda>w. nat (min w 0xFFFFF)) ws"
  have "replicate 5 x = [x, x, x, x, x]" for x :: u8 by (simp add: eval_nat_numeral)
  then have big: "replicate 5 102 = hex_fixed 5 1048575"
    by (simp add: hex_fixed_5 hex_digit_def)
  have small: "sprintf_0x 5 (nat w) = hex_fixed 5 (nat w)" "nat (w mod 2 ^ 32) = nat w"
    if "0 \<le> w" and "w \<le> 0xFFFFF" for w :: int
    using that sprintf_0x_5 [of "nat w"] by (simp_all add: nat_less_iff)
  have "cfor [0..<length ?ns] (\<lambda>i string. do {
       w \<leftarrow> cread ws i;
       if w > 0xFFFFF then blit string (i * 5) (replicate 5 102 @ [0])
       else blit string (i * 5) (sprintf_0x 5 (nat (w mod 2 ^ 32)) @ [0]) }) buf =
    Some (hex_groups 5 (take (length ?ns) ?ns) @
      (if length ?ns = 0 then buf else 0 # drop (Suc (length ?ns * 5)) buf))"
    using assms by (intro cfor_hex_groups) (auto simp: cread_def big small min_def)
  then show ?thesis by (simp add: wordArrayToString_def)
qed

text \<open>The parsing loops consume one group per round.\<close>

lemma stringToByteArray_loop_groups:
  assumes "i = 2 * length dpre" and "length pre = i"
    and "slen = i + length (hex_groups 2 (map unat bs))"
    and "length dpre + length bs \<le> nat len" and "length bs \<le> length dsuf"
  shows "stringToByteArray_loop (pre @ hex_groups 2 (map unat bs) @ post) slen len i (dpre @ dsuf) =
    Some (EPHIDGET_OK, dpre @ bs @ drop (length bs) dsuf, slen)"
  using assms
proof (induction bs arbitrary: i pre dpre dsuf)
  case Nil
  then show ?case by (subst stringToByteArray_loop.simps) simp
next
  case (Cons b bs)
  then obtain d ds where dsuf: "dsuf = d # ds" by (cases dsuf) auto
  have b: "unat b < 256" by (rule u8_unat_less)
  have w: "word_of_int (int (unat b div 16) * 16 + int (unat b mod 16)) = b"
    using uint_div_mod_16 [of b] by (simp add: zdiv_int zmod_int)
  have "stringToByteArray_loop ((pre @ hex_fixed 2 (unat b)) @ hex_groups 2 (map unat bs) @ post)
      slen len (i + 2) ((dpre @ [b]) @ ds) =
    Some (EPHIDGET_OK, (dpre @ [b]) @ bs @ drop (length bs) ds, slen)"
    using Cons.prems dsuf by (intro Cons.IH) auto
  then show ?case
    using Cons.prems dsuf b w
    by (subst stringToByteArray_loop.simps)
      (simp add: hex_fixed_2 cread_def nth_append cwrite_append less_mult_imp_div_less)
qed

text \<open>The value \<^verbatim>\<open>stringToWordArray\<close> stores for a printed group.\<close>

definition word_of_group :: "nat \<Rightarrow> int" where
  "word_of_group n = (if n = 0xFFFFF then PUNK_INT else int n)"

lemma stringToWordArray_loop_step:
  assumes "i = 5 * length dpre" and "length pre = i" and "n < 1048576"
    and "i < slen" and "int (length dpre) \<le> len"
  shows "stringToWordArray_loop (pre @ hex_groups 5 (n # ns) @ post) slen len i (dpre @ d # ds) =
    stringToWordArray_loop (pre @ hex_groups 5 (n # ns) @ post) slen len (i + 5)
      (dpre @ word_of_group n # ds)"
proof -
  obtain a b c e f where digits: "hex_fixed 5 n = map hex_digit [a, b, c, e, f]"
      and small: "a < 16" "b < 16" "c < 16" "e < 16" "f < 16"
      and val: "int a * 65536 + int b * 4096 + int c * 256 + int e * 16 + int f = int n"
    by (rule hex_fixed_5_digits [OF assms(3)])
  let ?src = "pre @ hex_groups 5 (n # ns) @ post"
  have rd: "cread ?src i = Some (hex_digit a)" "cread ?src (Suc i) = Some (hex_digit b)"
      "cread ?src (Suc (Suc i)) = Some (hex_digit c)" "cread ?src (i + 3) = Some (hex_digit e)"
      "cread ?src (i + 4) = Some (hex_digit f)"
    using assms by (simp_all add: digits cread_def nth_append)
  have "i < slen" "int (i div 5) \<le> len" and wr: "\<And>x. cwrite (dpre @ d # ds) (i div 5) x = Some (dpre @ x # ds)"
    using assms by (auto simp: cwrite_append)
  then show ?thesis
    by (subst stringToWordArray_loop.simps)
      (simp add: rd small val wr word_of_group_def Let_def del: hex_groups_simps of_nat_less_iff)
qed

lemma stringToWordArray_loop_groups:
  assumes "i = 5 * length dpre" and "length pre = i"
    and "slen = i + length (hex_groups 5 ns)" and "\<forall>n \<in> set ns. n < 1048576"
    and "length dpre + length ns \<le> nat len" and "length ns \<le> length dsuf"
  shows "stringToWordArray_loop (pre @ hex_groups 5 ns @ post) slen len i (dpre @ dsuf) =
    Some (EPHIDGET_OK, dpre @ map word_of_group ns @ drop (length ns) dsuf, slen)"
  using assms
proof (induction ns arbitrary: i pre dpre dsuf)
  case Nil
  then show ?case by (subst stringToWordArray_loop.simps) simp
next
  case (Cons n ns)
  then obtain d ds where dsuf: "dsuf = d # ds" by (cases dsuf) auto
  have "stringToWordArray_loop ((pre @ hex_fixed 5 n) @ hex_groups 5 ns @ post)
      slen len (i + 5) ((dpre @ [word_of_group n]) @ ds) =
    Some (EPHIDGET_OK, (dpre @ [word_of_group n]) @ map word_of_group ns @ drop (length ns) ds, slen)"
    using Cons.prems dsuf by (intro Cons.IH) auto
  then show ?case
    using stringToWordArray_loop_step [of i dpre pre n slen len ns post d ds] Cons.prems dsuf by auto
qed

lemma stringToByteArray_eq:
  assumes "length bs \<le> nat len" and "len < 2 ^ 31" and "length bs \<le> length buf"
  shows "stringToByteArray (hex_groups 2 (map unat bs) @ 0 # t) buf len =
    Some (EPHIDGET_OK, bs @ drop (length bs) buf, int (length bs))"
proof -
  have "0 \<le> len \<or> bs = []" using assms by (cases bs) auto
  then have "int (length bs * 2) \<le> size_t_of_int (len * 2)"
    using assms by (auto simp: size_t_of_int_def)
  then show ?thesis
    using stringToByteArray_loop_groups [of 0 "[]" "[]" "length bs * 2" bs len buf "0 # t"] assms
    by (simp add: stringToByteArray_def nul_notin_hex_groups)
qed

lemma stringToWordArray_eq:
  assumes "length ns \<le> nat len" and "length ns \<le> length buf" and "\<forall>n \<in> set ns. n < 1048576"
  shows "stringToWordArray (hex_groups 5 ns @ 0 # t) buf len =
    Some (EPHIDGET_OK, map word_of_group ns @ drop (length ns) buf, int (length ns))"
  using stringToWordArray_loop_groups [of 0 "[]" "[]" "length ns * 5" ns len buf "0 # t"] assms
  by (simp add: stringToWordArray_def nul_notin_hex_groups)

subsection \<open>The codecs meet the transport contract\<close>

definition escape_text :: "u8 list \<Rightarrow> u8 list" where
  "escape_text cs = (case escape True 0 cs (length cs) of
     Some (_, dst) \<Rightarrow> cstring dst | None \<Rightarrow> [])"

definition unescape_text :: "u8 list \<Rightarrow> u8 list option" where
  "unescape_text buf = (case unescape True 0 buf of
     Some (_, dst, n) \<Rightarrow> Some (take n dst) | None \<Rightarrow> None)"

lemma escape_text_eq: "cs \<noteq> [] \<Longrightarrow> escape_text cs = escape_chars False cs"
  using escape2_eq [of cs 0 "[]" False]
  by (simp add: escape_text_def escape_def length_escape_chars nul_notin_escape_chars)

lemma unescape_text_eq: "unescape_text (escape_chars False cs @ 0 # t) = Some cs"
  by (simp add: unescape_text_def unescape_escape_chars)

interpretation esc: text_codec escape_text unescape_text "\<lambda>cs. cs \<noteq> []"
  by unfold_locales (simp_all add: escape_text_eq nul_notin_escape_chars unescape_text_eq)

definition bytes_text :: "u8 list \<Rightarrow> u8 list" where
  "bytes_text bs = (case byteArrayToString bs (int (length bs)) (replicate (2 * length bs + 1) 0) of
     Some (_, s) \<Rightarrow> cstring s | None \<Rightarrow> [])"

definition bytes_of_text :: "nat \<Rightarrow> u8 list \<Rightarrow> u8 list option" where
  "bytes_of_text n buf = (case stringToByteArray buf (replicate n 0) (int n) of
     Some (_, bs, k) \<Rightarrow> Some (take (nat k) bs) | None \<Rightarrow> None)"

lemma bytes_text_eq: "bytes_text bs = hex_groups 2 (map unat bs)"
proof (cases "bs = []")
  case True
  then show ?thesis by (simp add: bytes_text_def byteArrayToString_def cstring_def)
next
  case False
  have "drop (Suc (length bs * 2)) (replicate (2 * length bs + 1) (0 :: u8)) = []" by simp
  with False show ?thesis
    by (simp add: bytes_text_def byteArrayToString_eq nul_notin_hex_groups del: drop_replicate replicate.simps)
qed

lemma bytes_of_text_eq:
  "length bs \<le> n \<Longrightarrow> n < 2 ^ 31 \<Longrightarrow>
   bytes_of_text n (hex_groups 2 (map unat bs) @ 0 # t) = Some bs"
  by (simp add: bytes_of_text_def stringToByteArray_eq)

text \<open>The capacity of the receiving array, e.g. the 16 bytes of an IR code.\<close>

interpretation hexbytes: text_codec bytes_text "bytes_of_text 256" "\<lambda>bs. length bs \<le> 256"
  by unfold_locales (simp_all add: bytes_text_eq nul_notin_hex_groups bytes_of_text_eq)

subsection \<open>Properties\<close>

text \<open>C33. Escaping a non-empty byte string (any bytes, NULs included, when the length is
  given) and unescaping the result gives exactly the original bytes, the original length
  and a terminator, and neither routine leaves its buffers.\<close>

theorem escape_unescape_roundtrip:
  assumes "cs \<noteq> []"
  shows "\<exists>d. escape True fill (cs @ rest) (length cs) = Some (1, d) \<and>
    unescape True fill' d = Some (1, cs @ [0], length cs)"
  using assms
  by (simp add: escape_def escape2_eq length_escape_chars unescape_escape_chars)

theorem escape_unescape_roundtrip_witness:
  "\<exists>d. escape True 7 ([65, 0, 32, 255] @ [1]) (length [65, 0, 32, 255 :: u8]) = Some (1, d) \<and>
    unescape True 9 d = Some (1, [65, 0, 32, 255] @ [0], length [65, 0, 32, 255 :: u8])"
  by (rule escape_unescape_roundtrip) simp

text \<open>The sizing pass of \<^verbatim>\<open>escape2\<close> is sufficient in both modes: whenever the
  source holds the bytes it is asked to escape, every write stays inside the allocated
  object (the result is defined), the output is NUL-terminated and its text is the
  escaped source.\<close>

theorem escape2_memory_safe:
  assumes "cs \<noteq> []"
  shows "\<exists>d. escape2 True fill (cs @ rest) (length cs) escbacks = Some (1, d) \<and>
    length d = escape2_size escbacks cs + 1 \<and> cstring d = escape_chars escbacks cs"
  using assms length_escape_chars_le [of escbacks cs]
  by (simp add: escape2_eq nul_notin_escape_chars)

theorem escape2_memory_safe_witness:
  "\<exists>d. escape2 True 7 ([65, 32] @ [0]) (length [65, 32 :: u8]) True = Some (1, d) \<and>
    length d = escape2_size True [65, 32] + 1 \<and> cstring d = escape_chars True [65, 32]"
  by (rule escape2_memory_safe) simp

text \<open>Escaped texts are unambiguous: two escaped, terminated strings that share a
  buffer prefix are the same string, so a key is never mistaken for another key.\<close>

theorem escape_text_unambiguous:
  assumes "x \<noteq> []" and "y \<noteq> []" and "escape_text x @ 0 # t = escape_text y @ 0 # u"
  shows "x = y \<and> t = u"
  using assms by (rule esc.dec_prefix_free)

theorem escape_text_unambiguous_witness:
  "[65, 32] = [65, 32 :: u8] \<and> [1 :: u8] = [1]"
  by (rule escape_text_unambiguous) simp_all

text \<open>Printing a byte array as hexadecimal text and parsing it back is the identity,
  within the buffers' bounds, for every array of bytes.\<close>

theorem byteArray_roundtrip:
  assumes "bs \<noteq> []" and "length bs * 2 < length buf" and "length bs \<le> length out" and "length out < 2 ^ 31"
  shows "\<exists>s. byteArrayToString bs (int (length bs)) buf = Some (EPHIDGET_OK, s) \<and>
    stringToByteArray s out (int (length out)) =
      Some (EPHIDGET_OK, bs @ drop (length bs) out, int (length bs))"
  using assms by (simp add: byteArrayToString_eq stringToByteArray_eq)

theorem byteArray_roundtrip_witness:
  "\<exists>s. byteArrayToString [171, 5] (int (length [171, 5 :: u8])) [9,9,9,9,9,9] = Some (EPHIDGET_OK, s) \<and>
    stringToByteArray s [0, 0, 7] (int (length [0, 0, 7 :: u8])) =
      Some (EPHIDGET_OK, [171, 5] @ drop (length [171, 5 :: u8]) [0, 0, 7], int (length [171, 5 :: u8]))"
  by (rule byteArray_roundtrip) simp_all

text \<open>Printing an array of non-negative words and parsing it back returns every word
  below \<^verbatim>\<open>0xFFFFF\<close> unchanged and turns every larger one (the unknown value
  included) into \<^verbatim>\<open>PUNK_INT\<close>.\<close>

theorem wordArray_roundtrip:
  assumes "ws \<noteq> []" and "\<forall>w \<in> set ws. 0 \<le> w" and "length ws * 5 < length buf"
    and "length ws \<le> length out"
  shows "\<exists>s. wordArrayToString ws (int (length ws)) buf = Some (EPHIDGET_OK, s) \<and>
    stringToWordArray s out (int (length out)) =
      Some (EPHIDGET_OK, map (\<lambda>w. if w < 0xFFFFF then w else PUNK_INT) ws @ drop (length ws) out,
            int (length ws))"
proof -
  let ?ns = "map (\<lambda>w. nat (min w 0xFFFFF)) ws"
  have "map word_of_group ?ns = map (\<lambda>w. if w < 0xFFFFF then w else PUNK_INT) ws"
    using assms(2) by (auto simp: word_of_group_def min_def)
  moreover have "stringToWordArray (hex_groups 5 ?ns @ 0 # drop (Suc (length ws * 5)) buf) out
      (int (length out)) = Some (EPHIDGET_OK, map word_of_group ?ns @ drop (length ?ns) out, int (length ?ns))"
    using assms(4) by (intro stringToWordArray_eq) (auto simp: nat_less_iff min_def)
  ultimately show ?thesis
    using assms wordArrayToString_eq [OF assms(3,2)] by simp
qed

theorem wordArray_roundtrip_witness:
  "\<exists>s. wordArrayToString [500, 0x7FFFFFFF] (int (length [500, 0x7FFFFFFF :: int])) (replicate 11 1) =
      Some (EPHIDGET_OK, s) \<and>
    stringToWordArray s [1, 2] (int (length [1, 2 :: int])) =
      Some (EPHIDGET_OK, map (\<lambda>w. if w < 0xFFFFF then w else PUNK_INT) [500, 0x7FFFFFFF] @
        drop (length [500, 0x7FFFFFFF :: int]) [1, 2], int (length [500, 0x7FFFFFFF :: int]))"
  by (rule wordArray_roundtrip) simp_all

lemma stringToByteArray_loop_safe:
  assumes "strlen string = Some slen" and "slen \<le> 2 * length bytes"
    and "int (length bytes) = len" and "even i"
  shows "stringToByteArray_loop string slen len i bytes \<noteq> None"
  using assms
proof (induction string slen len i bytes rule: stringToByteArray_loop.induct)
  case (1 string slen len i bytes)
  show ?case
  proof (cases "i < slen")
    case False
    then show ?thesis by (subst stringToByteArray_loop.simps) simp
  next
    case True
    from strlen_lt [OF "1.prems"(1)] have slen: "slen < length string" .
    have rd: "cread string i \<noteq> None" "cread string (Suc i) \<noteq> None"
      using True slen by (auto simp: cread_def)
    have j: "i div 2 < length bytes" using True "1.prems" by auto
    show ?thesis
      using rd j "1.IH" "1.prems" True
      by (subst stringToByteArray_loop.simps) (auto simp: cwrite_def)
  qed
qed

text \<open>\<^verbatim>\<open>stringToByteArray\<close> is memory safe: for every NUL-terminated string (of
  any characters, any length, odd lengths included) and an output array of
  \<^verbatim>\<open>*length\<close> bytes, no access leaves its object and the call returns.\<close>

theorem stringToByteArray_memory_safe:
  assumes "0 \<in> set string" and "length bytes < 2 ^ 30"
  shows "\<exists>r. stringToByteArray string bytes (int (length bytes)) = Some r"
proof -
  obtain slen where slen: "strlen string = Some slen" using assms(1) by (simp add: strlen_def)
  have sz: "size_t_of_int (int (length bytes) * 2) = int (length bytes) * 2"
    using assms(2) by (simp add: size_t_of_int_def)
  show ?thesis
  proof (cases "int slen > int (length bytes) * 2")
    case True
    then show ?thesis using slen sz by (simp add: stringToByteArray_def)
  next
    case False
    then obtain r where "stringToByteArray_loop string slen (int (length bytes)) 0 bytes = Some r"
      using stringToByteArray_loop_safe [OF slen _ refl, of bytes 0] by auto
    then show ?thesis using slen sz False
      by (cases r) (simp add: stringToByteArray_def split: if_splits)
  qed
qed

theorem stringToByteArray_memory_safe_witness:
  "\<exists>r. stringToByteArray [65, 66, 67, 0] [0, 0] (int (length [0, 0 :: u8])) = Some r"
  by (rule stringToByteArray_memory_safe) simp_all

text \<open>\<^verbatim>\<open>stringToWordArray\<close> tests the index with \<^verbatim>\<open>>\<close> where the array needs
  \<^verbatim>\<open>>=\<close>: given the text of one word more than the array holds, the store runs past
  the end of the array (undefined behaviour) instead of returning
  \<^verbatim>\<open>EPHIDGET_INVALIDARG\<close>.\<close>

theorem stringToWordArray_overflow:
  assumes "\<forall>n \<in> set ns. n < 1048576" and "length ns = length words + 1"
  shows "stringToWordArray (hex_groups 5 ns @ [0]) words (int (length words)) = None"
proof -
  obtain ms n where ns: "ns = ms @ [n]" using assms(2) by (cases ns rule: rev_cases) auto
  have loop_prefix: "stringToWordArray_loop (pre @ hex_groups 5 (ms @ [n]) @ [0]) slen len i (dpre @ dsuf) = None"
    if "i = 5 * length dpre" "length pre = i" "slen = i + 5 * (length ms + 1)"
      "\<forall>k \<in> set (ms @ [n]). k < 1048576" "length dsuf = length ms"
      "int (length dpre + length ms) = len" for pre slen len i dpre dsuf
    using that
  proof (induction ms arbitrary: i pre dpre dsuf)
    case Nil
    obtain a b c d e where "hex_fixed 5 n = map hex_digit [a, b, c, d, e]" and "a < 16"
      by (rule hex_fixed_5_digits [of n]) (use Nil in auto)
    with Nil show ?case
      by (subst stringToWordArray_loop.simps) (simp add: cread_def nth_append cwrite_def Let_def)
  next
    case (Cons m ms)
    then obtain d ds where dsuf: "dsuf = d # ds" by (cases dsuf) auto
    have "stringToWordArray_loop ((pre @ hex_fixed 5 m) @ hex_groups 5 (ms @ [n]) @ [0]) slen len
        (i + 5) ((dpre @ [word_of_group m]) @ ds) = None"
      using Cons.prems dsuf by (intro Cons.IH) auto
    moreover have "stringToWordArray_loop (pre @ hex_groups 5 (m # ms @ [n]) @ [0]) slen len i (dpre @ d # ds) =
       stringToWordArray_loop (pre @ hex_groups 5 (m # ms @ [n]) @ [0]) slen len
        (i + 5) (dpre @ word_of_group m # ds)"
      using Cons.prems dsuf by (intro stringToWordArray_loop_step) auto
    ultimately show ?case using dsuf by simp
  qed
  have "strlen (hex_groups 5 ns @ [0]) = Some (length ns * 5)"
    using strlen_append_nul [OF nul_notin_hex_groups, of 5 ns "[]"] by simp
  then show ?thesis
    using loop_prefix [of 0 "[]" "[]" "length ns * 5" words "int (length words)"] assms ns
    by (simp add: stringToWordArray_def algebra_simps del: hex_groups_simps)
qed

theorem stringToWordArray_overflow_witness:
  "stringToWordArray (hex_groups 5 [1, 2] @ [0]) [0] (int (length [0 :: int])) = None"
  by (rule stringToWordArray_overflow) simp_all

text \<open>A trailing backslash makes \<^verbatim>\<open>unescape\<close> read behind the terminator.\<close>

lemma unescape_trailing_backslash: "unescape True fill [65, 92, 0] = None"
  by (simp add: unescape_def strlen_def unescape_size.simps unescape_copy.simps cread_def cwrite_def)

end
