(* ===== verification/Netio.thy ===== *)
theory Netio
  imports Utils
begin

text \<open>
  Line and block transfer over sockets, from \<^verbatim>\<open>utils/utils.c\<close>:
  \<^verbatim>\<open>pd_getline\<close> (lines 164--265), \<^verbatim>\<open>getmatchsub\<close>, \<^verbatim>\<open>pu_write\<close>
  and \<^verbatim>\<open>pu_read\<close>.  The reading function of \<^verbatim>\<open>pd_getline\<close> is a
  function pointer of the code, a parameter here; the system calls \<^verbatim>\<open>send\<close> and
  \<^verbatim>\<open>recv\<close> are a list of their results in call order.
\<close>

subsection \<open>\<^verbatim>\<open>strchr\<close> and \<^verbatim>\<open>memchr\<close>\<close>

text \<open>\<open>strchr buf i c\<close>: search from \<open>i\<close> for \<open>c\<close>, up to the first NUL; undefined when the
  object ends first.  The result is the position, if any.\<close>

definition strchr :: "u8 list \<Rightarrow> nat \<Rightarrow> u8 \<Rightarrow> nat option option" where
  "strchr buf i c = (let k = i + length (takeWhile (\<lambda>x. x \<noteq> c \<and> x \<noteq> 0) (drop i buf)) in
     if k < length buf then Some (if buf ! k = c then Some k else None) else None)"

definition memchr :: "u8 list \<Rightarrow> nat \<Rightarrow> u8 \<Rightarrow> nat \<Rightarrow> nat option option" where
  "memchr buf i c n = (if i + n \<le> length buf then
     Some (let k = length (takeWhile (\<lambda>x. x \<noteq> c) (take n (drop i buf))) in
       if k < n then Some (i + k) else None) else None)"

subsection \<open>Reading a line\<close>

text \<open>Lines 213--229: double the line's size until the next \<open>srcsize\<close> bytes fit; \<open>None\<close> when a
  \<^verbatim>\<open>realloc\<close> of that size fails.\<close>

function grow_line :: "(nat \<Rightarrow> bool) \<Rightarrow> nat \<Rightarrow> nat \<Rightarrow> nat \<Rightarrow> nat option" where
  "grow_line mem srcsize linelen linesize =
     (if linesize > 0 \<and> srcsize > linesize - linelen then
        if mem (2 * linesize) then grow_line mem srcsize linelen (2 * linesize) else None
      else Some linesize)"
  by pat_completeness auto
termination
  by (relation "measure (\<lambda>(mem, srcsize, linelen, linesize). srcsize + linelen - linesize)") auto

declare grow_line.simps [simp del]

text \<open>Lines 239--242: cut the finished line at its first carriage return.\<close>

definition cut_cr :: "u8 list \<Rightarrow> u8 list option" where
  "cut_cr line = do {
     r \<leftarrow> strchr line 0 13;
     Some (case r of None \<Rightarrow> line | Some k \<Rightarrow> line[k := 0]) }"

text \<open>
  The loop of \<^verbatim>\<open>pd_getline\<close> from \<^verbatim>\<open>top\<close> on.  \<open>line\<close> holds the
  \<^verbatim>\<open>linelen\<close> bytes copied so far and \<open>linesize\<close> the allocation's size.
  Results: the return value, \<^verbatim>\<open>*line\<close>, \<^verbatim>\<open>buf\<close>,
  \<^verbatim>\<open>*bufcur\<close>, \<^verbatim>\<open>*buflen\<close> and the reader's state.  \<open>readfunc\<close>
  is asked for at most \<^verbatim>\<open>bufsize - 1\<close> bytes and returns its new state and the
  bytes, \<open>[]\<close> for a result \<open>\<le> 0\<close>.
\<close>

partial_function (option) pd_getline_top ::
    "(nat \<Rightarrow> bool) \<Rightarrow> ('s \<Rightarrow> nat \<Rightarrow> 's \<times> u8 list) \<Rightarrow> u8 list \<Rightarrow> nat \<Rightarrow> nat \<Rightarrow> u8 list \<Rightarrow> nat \<Rightarrow> 's \<Rightarrow>
     (int \<times> u8 list \<times> u8 list \<times> nat \<times> nat \<times> 's) option" where
  "pd_getline_top mem readfunc buf bufcur buflen line linesize s =
     (if bufcur < buflen then do {
        nl \<leftarrow> strchr buf bufcur 10;
        eol \<leftarrow> (case nl of Some k \<Rightarrow> Some (Some k)
                | None \<Rightarrow> memchr buf bufcur 0 (buflen - bufcur));
        let srcsize = (case eol of None \<Rightarrow> buflen - bufcur | Some k \<Rightarrow> k - bufcur + 1);
        let buf = (case nl of None \<Rightarrow> buf | Some k \<Rightarrow> buf[k := 0]);
        (case grow_line mem srcsize (length line) linesize of
           None \<Rightarrow> Some (0, [], buf, bufcur, buflen, s)
         | Some linesize \<Rightarrow>
             if length line + srcsize \<le> linesize \<and> bufcur + srcsize \<le> length buf then do {
               let line = line @ take srcsize (drop bufcur buf);
               let bufcur = bufcur + srcsize;
               if eol \<noteq> None then do {
                 line \<leftarrow> cut_cr line;
                 Some (1, line, buf, bufcur, buflen, s) }
               else pd_getline_top mem readfunc buf bufcur buflen line linesize s }
             else None) }
      else (case readfunc s (length buf - 1) of (s, bytes) \<Rightarrow>
        if bytes = [] then Some (0, [], buf, 0, 0, s)
        else do {
          buf \<leftarrow> blit buf 0 bytes;
          buf \<leftarrow> cwrite buf (length bytes) 0;
          pd_getline_top mem readfunc buf 0 (length bytes) line linesize s }))"

definition pd_getline ::
    "(nat \<Rightarrow> bool) \<Rightarrow> ('s \<Rightarrow> nat \<Rightarrow> 's \<times> u8 list) \<Rightarrow> u8 list \<Rightarrow> nat \<Rightarrow> nat \<Rightarrow> 's \<Rightarrow>
     (int \<times> u8 list \<times> u8 list \<times> nat \<times> nat \<times> 's) option" where
  "pd_getline mem readfunc buf bufcur buflen s =
     (if mem 1024 then pd_getline_top mem readfunc buf bufcur buflen [] 1024 s
      else Some (0, [], buf, bufcur, buflen, s))"

subsection \<open>\<^verbatim>\<open>getmatchsub\<close>\<close>

text \<open>The \<^verbatim>\<open>regmatch_t\<close> array is the list of the pairs \<^verbatim>\<open>(rm_so, rm_eo)\<close>; the result is
  the length and the copied substring (\<open>None\<close> the null pointer).\<close>

definition getmatchsub ::
    "bool \<Rightarrow> u8 list \<Rightarrow> (int \<times> int) list \<Rightarrow> nat \<Rightarrow> (int \<times> u8 list option) option" where
  "getmatchsub mem line pmatch n = do {
     (so, eo) \<leftarrow> cread pmatch n;
     let len = (if so \<ge> 0 then eo - so else 0);
     if len = 0 then Some (len, None)
     else if \<not> mem then Some (len, None)
     else if 0 \<le> so \<and> 0 \<le> len \<and> eo \<le> int (length line)
       then Some (len, Some (take (nat len) (drop (nat so) line) @ [0]))
       else None }"

subsection \<open>\<^verbatim>\<open>pu_write\<close> and \<^verbatim>\<open>pu_read\<close>\<close>

text \<open>What one system call reports: bytes transferred, \<^verbatim>\<open>EINTR\<close>/\<^verbatim>\<open>EAGAIN\<close>, or
  another error.\<close>

datatype io_result = Transferred nat | Again | Failed

text \<open>The inner \<^verbatim>\<open>tryagain\<close> loop (lines 816--857): the first result that is not
  \<open>Again\<close>, and the results not yet used.\<close>

fun try_io :: "io_result list \<Rightarrow> (io_result \<times> io_result list) option" where
  "try_io [] = None"
| "try_io (Again # rs) = try_io rs"
| "try_io (r # rs) = Some (r, rs)"

lemma try_io_length: "try_io rs = Some (r, rs') \<Longrightarrow> length rs' < length rs"
  by (induction rs rule: try_io.induct) auto

lemma try_io_not_Again: "try_io rs = Some (r, rs') \<Longrightarrow> r \<noteq> Again"
  by (induction rs rule: try_io.induct) auto

text \<open>
  The \<^verbatim>\<open>do\<close>-\<^verbatim>\<open>while\<close> loop (lines 805--861) on the unsent bytes: \<open>buf\<close> is
  \<^verbatim>\<open>buf[0..len)\<close> and \<open>sent\<close> collects what the socket took.  \<open>None\<close>: the
  listed results are used up while the loop still runs.
\<close>

function pu_write_loop ::
    "nat \<Rightarrow> int \<Rightarrow> u8 list \<Rightarrow> u8 list \<Rightarrow> io_result list \<Rightarrow> (int \<times> u8 list) option" where
  "pu_write_loop olen res buf sent rs =
     (let buf = (if res > 0 then drop (nat res) buf else buf) in
      if buf \<noteq> [] then
        (case try_io rs of
           None \<Rightarrow> None
         | Some (Transferred n, rs') \<Rightarrow>
             pu_write_loop olen (int (min n (length buf))) buf (sent @ take n buf) rs'
         | Some (_, rs') \<Rightarrow> Some (- 1, sent))
      else Some (int olen, sent))"
  by pat_completeness auto
termination
  by (relation "measure (\<lambda>(olen, res, buf, sent, rs). length rs)") (auto dest: try_io_length)

declare pu_write_loop.simps [simp del]

definition pu_write :: "int \<Rightarrow> u8 list \<Rightarrow> io_result list \<Rightarrow> (int \<times> u8 list) option" where
  "pu_write fd buf rs =
     (if fd = - 1 then Some (int (length buf), [])
      else do {
        (res, sent) \<leftarrow> pu_write_loop (length buf) 0 buf [] rs;
        Some (if res \<noteq> int (length buf) then 0 else 1, sent) })"

definition pu_read :: "int \<Rightarrow> io_result list \<Rightarrow> int option" where
  "pu_read fd rs =
     (if fd = - 1 then Some 0
      else do {
        (r, rs) \<leftarrow> try_io rs;
        Some (case r of Transferred n \<Rightarrow> int n | _ \<Rightarrow> 0) })"

subsection \<open>Writing\<close>

lemma pu_write_loop_sent:
  assumes "pu_write_loop olen res buf sent rs = Some (r, out)"
    and "res \<le> int (length buf)" and "olen = length sent + length (drop (nat res) buf)"
  shows "(r = int olen \<and> out = sent @ drop (nat res) buf) \<or>
    (r = - 1 \<and> (\<exists>k < length (drop (nat res) buf). out = sent @ take k (drop (nat res) buf)))"
  using assms
proof (induction olen res buf sent rs rule: pu_write_loop.induct)
  case (1 olen res buf sent rs)
  define b where "b = drop (nat res) buf"
  have b: "(if res > 0 then drop (nat res) buf else buf) = b" by (simp add: b_def)
  show ?case
  proof (cases "b = []")
    case True
    then show ?thesis
      using "1.prems"(1) b by (subst (asm) pu_write_loop.simps) (simp add: b_def [symmetric])
  next
    case False
    then obtain x rs' where x: "try_io rs = Some (x, rs')"
      using "1.prems"(1) b by (subst (asm) pu_write_loop.simps) (auto split: option.splits)
    show ?thesis
    proof (cases x)
      case (Transferred n)
      have eq: "pu_write_loop olen (int (min n (length b))) b (sent @ take n b) rs' = Some (r, out)"
        using "1.prems"(1) b False x Transferred by (subst (asm) pu_write_loop.simps) simp
      define m where "m = min n (length b)"
      have m: "take n b = take m b" "m \<le> length b" by (auto simp: m_def min_def)
      have "(r = int olen \<and> out = (sent @ take n b) @ drop (nat (int m)) b) \<or>
        (r = - 1 \<and> (\<exists>k < length (drop (nat (int m)) b).
           out = (sent @ take n b) @ take k (drop (nat (int m)) b)))"
        unfolding m_def
        using "1.prems"(3) b False x Transferred eq
        by (intro "1.IH") (auto simp: b_def [symmetric])
      then show ?thesis
      proof (elim disjE conjE exE)
        assume "r = int olen" and "out = (sent @ take n b) @ drop (nat (int m)) b"
        then show ?thesis by (simp add: m b_def [symmetric])
      next
        fix k assume "r = - 1" and "k < length (drop (nat (int m)) b)"
          and "out = (sent @ take n b) @ take k (drop (nat (int m)) b)"
        then have "out = sent @ take (m + k) b" and "m + k < length b"
          by (simp_all add: m take_add)
        then show ?thesis using \<open>r = - 1\<close> by (auto simp: b_def [symmetric])
      qed
    next
      case Again
      then show ?thesis using x try_io_not_Again by blast
    next
      case Failed
      then show ?thesis
        using "1.prems"(1) b False x by (subst (asm) pu_write_loop.simps) (auto simp: b_def [symmetric])
    qed
  qed
qed

lemma try_io_Some: "\<exists>r \<in> set rs. r \<noteq> Again \<Longrightarrow> \<exists>r rs'. try_io rs = Some (r, rs')"
  by (induction rs rule: try_io.induct) auto

lemma try_io_Failed: "try_io rs = Some (Transferred n, rs') \<Longrightarrow> Failed \<in> set rs \<Longrightarrow> Failed \<in> set rs'"
  by (induction rs rule: try_io.induct) auto

lemma pu_write_loop_returns:
  assumes "Failed \<in> set rs"
  shows "\<exists>r. pu_write_loop olen res buf sent rs = Some r"
  using assms
proof (induction olen res buf sent rs rule: pu_write_loop.induct)
  case (1 olen res buf sent rs)
  define b where "b = (if res > 0 then drop (nat res) buf else buf)"
  obtain x rs' where x: "try_io rs = Some (x, rs')" using try_io_Some [of rs] "1.prems" by auto
  show ?case
  proof (cases "b \<noteq> [] \<and> (\<exists>n. x = Transferred n)")
    case True
    then obtain n where n: "x = Transferred n" by blast
    have "Failed \<in> set rs'" using try_io_Failed x n "1.prems" by blast
    with "1.IH" [OF b_def _ x refl n] True
    obtain r where "pu_write_loop olen (int (min n (length b))) b (sent @ take n b) rs' = Some r" by blast
    with True x n show ?thesis
      by (subst pu_write_loop.simps) (simp add: b_def [symmetric])
  next
    case False
    then show ?thesis using x
      by (subst pu_write_loop.simps)
        (cases x; auto simp: b_def [symmetric] Let_def split: option.splits)
  qed
qed

text \<open>\<^verbatim>\<open>pu_write\<close> reports success exactly when the socket has taken the whole
  buffer: for every sequence of partial sends, interruptions and errors, the bytes taken
  are a prefix of the buffer, and the return value is 1 if and only if they are all of it.\<close>

theorem pu_write_success_iff_all_sent:
  assumes "pu_write fd buf rs = Some (r, sent)" and "fd \<noteq> - 1"
  shows "(\<exists>k. sent = take k buf) \<and> (r = 1 \<longleftrightarrow> sent = buf) \<and> (r = 0 \<or> r = 1)"
proof -
  obtain res where res: "pu_write_loop (length buf) 0 buf [] rs = Some (res, sent)"
      and r: "r = (if res \<noteq> int (length buf) then 0 else 1)"
    using assms
    by (cases "pu_write_loop (length buf) 0 buf [] rs") (auto simp: pu_write_def)
  have "(res = int (length buf) \<and> sent = buf) \<or> (res = - 1 \<and> (\<exists>k < length buf. sent = take k buf))"
  proof -
    have "drop (nat 0) buf = buf" by simp
    show ?thesis
      by (rule pu_write_loop_sent [OF res, unfolded \<open>drop (nat 0) buf = buf\<close> append_Nil]) simp_all
  qed
  then consider "res = int (length buf)" "sent = buf" | k where "res = - 1" "k < length buf" "sent = take k buf"
    by auto
  then show ?thesis
  proof cases
    case 1
    then show ?thesis using r by (auto intro: exI [of _ "length buf"])
  next
    case 2
    then have "length sent < length buf" by simp
    then have "sent \<noteq> buf" by (metis less_irrefl)
    moreover have "r = 0" using r 2(1) by simp
    ultimately show ?thesis using 2(3) by auto
  qed
qed

theorem pu_write_success_iff_all_sent_witness:
  "(\<exists>k. [1, 2, 3] = take k [1, 2, 3 :: u8]) \<and> ((1 :: int) = 1 \<longleftrightarrow> [1, 2, 3 :: u8] = [1, 2, 3]) \<and>
    ((1 :: int) = 0 \<or> (1 :: int) = 1)"
  by (rule pu_write_success_iff_all_sent [of 5 _ "[Transferred 2, Again, Transferred 1]"])
    (simp_all add: pu_write_def pu_write_loop.simps)

subsection \<open>Reading lines from a stream\<close>

text \<open>
  A reader over a stream that arrives in segments: a socket delivers at most the bytes
  asked for and at least one, keeps the rest of a segment, and reports 0 at the end.
\<close>

definition recv_chunks :: "u8 list list \<Rightarrow> nat \<Rightarrow> u8 list list \<times> u8 list" where
  "recv_chunks cs n = (case cs of [] \<Rightarrow> ([], [])
     | c # cs \<Rightarrow> if length c \<le> n then (cs, c) else (drop n c # cs, take n c))"

lemma recv_chunks_concat:
  "recv_chunks cs n = (cs', bytes) \<Longrightarrow> bytes @ concat cs' = concat cs"
  by (auto simp: recv_chunks_def split: list.splits if_splits)

lemma recv_chunks_props:
  assumes "recv_chunks cs n = (cs', bytes)" and "[] \<notin> set cs" and "0 < n"
  shows "[] \<notin> set cs'" and "length bytes \<le> n" and "bytes = [] \<longleftrightarrow> cs = []"
  using assms by (auto simp: recv_chunks_def split: list.splits if_splits)

text \<open>The buffer as \<^verbatim>\<open>pd_getline\<close> leaves it between calls.\<close>

definition buf_ok :: "u8 list \<Rightarrow> nat \<Rightarrow> nat \<Rightarrow> bool" where
  "buf_ok buf cur len \<longleftrightarrow> 2 \<le> length buf \<and> cur \<le> len \<and> len < length buf \<and> (cur < len \<longrightarrow> buf ! len = 0)"

definition pending :: "u8 list \<Rightarrow> nat \<Rightarrow> nat \<Rightarrow> u8 list" where
  "pending buf cur len = drop cur (take len buf)"

lemma drop_pending:
  assumes "buf_ok buf cur len" and "cur < len"
  shows "\<exists>tl. drop cur buf = pending buf cur len @ 0 # tl"
proof -
  have "drop cur buf = drop cur (take len buf @ drop len buf)" by simp
  also have "\<dots> = drop cur (take len buf) @ drop (cur - length (take len buf)) (drop len buf)"
    by (rule drop_append)
  also have "\<dots> = pending buf cur len @ drop len buf"
    using assms by (simp add: pending_def buf_ok_def min_def)
  also have "drop len buf = 0 # drop (Suc len) buf"
    using assms Cons_nth_drop_Suc [of len buf] by (simp add: buf_ok_def)
  finally show ?thesis by blast
qed

lemma length_pending: "buf_ok buf cur len \<Longrightarrow> length (pending buf cur len) = len - cur"
  by (simp add: pending_def buf_ok_def)

text \<open>The search for the end of line in the pending bytes.\<close>

definition find_eol :: "u8 list \<Rightarrow> nat \<Rightarrow> nat \<Rightarrow> (nat option \<times> nat option) option" where
  "find_eol buf cur len = do {
     nl \<leftarrow> strchr buf cur 10;
     eol \<leftarrow> (case nl of Some k \<Rightarrow> Some (Some k) | None \<Rightarrow> memchr buf cur 0 (len - cur));
     Some (nl, eol) }"

lemma takeWhile_stop: "\<forall>x \<in> set xs. P x \<Longrightarrow> \<not> P y \<Longrightarrow> takeWhile P (xs @ y # ys) = xs"
  by (induction xs) auto

lemma find_eol_none:
  assumes ok: "buf_ok buf cur len" "cur < len" and no: "0 \<notin> set (pending buf cur len)" "10 \<notin> set (pending buf cur len)"
  shows "find_eol buf cur len = Some (None, None)"
proof -
  obtain tl where tl: "drop cur buf = pending buf cur len @ 0 # tl" using drop_pending [OF ok] ..
  have n: "length (pending buf cur len) = len - cur" using ok by (simp add: length_pending)
  have "takeWhile (\<lambda>x. x \<noteq> 10 \<and> x \<noteq> 0) (drop cur buf) = pending buf cur len"
    unfolding tl using no by (intro takeWhile_stop) auto
  moreover have "take (len - cur) (drop cur buf) = pending buf cur len" using tl n by simp
  moreover have "takeWhile (\<lambda>x. x \<noteq> 0) (pending buf cur len) = pending buf cur len"
    using no by (auto simp: takeWhile_eq_all_conv)
  ultimately show ?thesis
    using ok n by (simp add: find_eol_def strchr_def memchr_def buf_ok_def Let_def
        del: takeWhile_eq_all_conv)
qed

lemma find_eol_some:
  assumes ok: "buf_ok buf cur len" "cur < len" and split: "pending buf cur len = l @ t # rest"
    and no: "0 \<notin> set l" "10 \<notin> set l" and t: "t = 0 \<or> t = 10"
  shows "find_eol buf cur len = Some (if t = 10 then Some (cur + length l) else None, Some (cur + length l))"
proof -
  obtain tl where tl: "drop cur buf = pending buf cur len @ 0 # tl" using drop_pending [OF ok] ..
  have n: "length (pending buf cur len) = len - cur" using ok by (simp add: length_pending)
  have "takeWhile (\<lambda>x. x \<noteq> 10 \<and> x \<noteq> 0) (drop cur buf) = l"
    unfolding tl split using no t by (simp, intro takeWhile_stop) auto
  moreover have "buf ! (cur + length l) = t"
    using tl split ok by (metis buf_ok_def append.assoc append_Cons less_imp_le_nat le_trans
        nth_append_length nth_drop)
  moreover have "cur + length l < length buf" using n split ok by (auto simp: buf_ok_def)
  moreover have "take (len - cur) (drop cur buf) = pending buf cur len" using tl n by simp
  moreover have "t = 0 \<Longrightarrow> takeWhile (\<lambda>x. x \<noteq> 0) (pending buf cur len) = l"
    unfolding split using no by (intro takeWhile_stop) auto
  ultimately show ?thesis
    using ok n t split by (auto simp: find_eol_def strchr_def memchr_def buf_ok_def Let_def)
qed

lemma pd_getline_top_find_eol:
  assumes "bufcur < buflen"
  shows "pd_getline_top mem readfunc buf bufcur buflen line linesize s = do {
        (nl, eol) \<leftarrow> find_eol buf bufcur buflen;
        let srcsize = (case eol of None \<Rightarrow> buflen - bufcur | Some k \<Rightarrow> k - bufcur + 1);
        let buf = (case nl of None \<Rightarrow> buf | Some k \<Rightarrow> buf[k := 0]);
        (case grow_line mem srcsize (length line) linesize of
           None \<Rightarrow> Some (0, [], buf, bufcur, buflen, s)
         | Some linesize \<Rightarrow>
             if length line + srcsize \<le> linesize \<and> bufcur + srcsize \<le> length buf then do {
               let line = line @ take srcsize (drop bufcur buf);
               let bufcur = bufcur + srcsize;
               if eol \<noteq> None then do {
                 line \<leftarrow> cut_cr line;
                 Some (1, line, buf, bufcur, buflen, s) }
               else pd_getline_top mem readfunc buf bufcur buflen line linesize s }
             else None) }"
  using assms by (subst pd_getline_top.simps) (simp add: find_eol_def Let_def split: option.split)

lemma grow_line_fits:
  "0 < linesize \<Longrightarrow> linelen \<le> linesize \<Longrightarrow>
   \<exists>ls. grow_line (\<lambda>_. True) srcsize linelen linesize = Some ls \<and> linelen + srcsize \<le> ls \<and> 0 < ls"
proof (induction "\<lambda>_ :: nat. True" srcsize linelen linesize rule: grow_line.induct)
  case (1 srcsize linelen linesize)
  show ?case
  proof (cases "srcsize > linesize - linelen")
    case True
    with 1 show ?thesis by (subst grow_line.simps) auto
  next
    case False
    with 1 show ?thesis by (subst grow_line.simps) auto
  qed
qed

lemma cut_cr_line:
  assumes "0 \<notin> set p"
  shows "\<exists>line. cut_cr (p @ [0]) = Some line \<and> cstring line = takeWhile (\<lambda>x. x \<noteq> 13) p"
proof (cases "13 \<in> set p")
  case True
  then obtain a b where p: "p = a @ 13 # b" and a: "13 \<notin> set a" by (meson split_list_first)
  have "takeWhile (\<lambda>x. x \<noteq> 13 \<and> x \<noteq> 0) (a @ 13 # b @ [0]) = a"
    using a assms p by (intro takeWhile_stop) auto
  moreover have "takeWhile (\<lambda>x. x \<noteq> 13) (a @ 13 # b) = a" using a by (intro takeWhile_stop) auto
  moreover have "cstring (a @ 0 # b @ [0]) = a" using assms p by simp
  ultimately show ?thesis by (simp add: cut_cr_def strchr_def p Let_def nth_append)
next
  case False
  have "takeWhile (\<lambda>x. x \<noteq> 13 \<and> x \<noteq> 0) (p @ 0 # []) = p"
    using assms False by (intro takeWhile_stop) auto
  moreover have "takeWhile (\<lambda>x. x \<noteq> 13) p = p" using False by (auto simp: takeWhile_eq_all_conv)
  ultimately show ?thesis using assms
    by (simp add: cut_cr_def strchr_def Let_def del: takeWhile_eq_all_conv)
qed

lemma getline_none_step:
  assumes ok: "buf_ok buf cur len" "cur < len"
    and no: "0 \<notin> set (pending buf cur len)" "10 \<notin> set (pending buf cur len)"
    and size: "0 < linesize" "length line \<le> linesize"
  obtains ls where "0 < ls" and "length (line @ pending buf cur len) \<le> ls"
    and "pd_getline_top (\<lambda>_. True) rd buf cur len line linesize s =
      pd_getline_top (\<lambda>_. True) rd buf len len (line @ pending buf cur len) ls s"
proof -
  obtain tl where tl: "drop cur buf = pending buf cur len @ 0 # tl" using drop_pending [OF ok] ..
  have n: "length (pending buf cur len) = len - cur" using ok by (simp add: length_pending)
  obtain ls where ls: "grow_line (\<lambda>_. True) (len - cur) (length line) linesize = Some ls"
      "length line + (len - cur) \<le> ls" "0 < ls"
    using grow_line_fits size by blast
  have "pd_getline_top (\<lambda>_. True) rd buf cur len line linesize s =
      pd_getline_top (\<lambda>_. True) rd buf len len (line @ pending buf cur len) ls s"
    using ok n tl ls
    by (subst pd_getline_top_find_eol) (auto simp: find_eol_none [OF ok no] Let_def buf_ok_def)
  then show thesis using that ls n by simp
qed

lemma getline_eol_step:
  assumes ok: "buf_ok buf cur len" "cur < len" and split: "pending buf cur len = l @ t # rest"
    and no: "0 \<notin> set l" "10 \<notin> set l" "0 \<notin> set line" and t: "t = 0 \<or> t = 10"
    and size: "0 < linesize" "length line \<le> linesize"
  shows "\<exists>line' buf' cur'. pd_getline_top (\<lambda>_. True) rd buf cur len line linesize s =
      Some (1, line', buf', cur', len, s) \<and> cstring line' = takeWhile (\<lambda>x. x \<noteq> 13) (line @ l) \<and>
      buf_ok buf' cur' len \<and> pending buf' cur' len = rest"
proof -
  let ?k = "cur + length l"
  define buf' where "buf' = (if t = 10 then buf[?k := 0] else buf)"
  obtain tl where tl: "drop cur buf = pending buf cur len @ 0 # tl" using drop_pending [OF ok] ..
  have n: "len = ?k + Suc (length rest)" using length_pending [OF ok(1)] split ok by simp
  obtain ls where ls: "grow_line (\<lambda>_. True) (Suc (length l)) (length line) linesize = Some ls"
      "length line + Suc (length l) \<le> ls"
    using grow_line_fits size by blast
  have dropb: "drop cur buf' = l @ 0 # rest @ 0 # tl"
    using tl split t ok by (auto simp: buf'_def drop_update_swap list_update_append)
  have "0 \<notin> set (line @ l)" using no by simp
  from cut_cr_line [OF this] obtain line' where line': "cut_cr ((line @ l) @ [0]) = Some line'"
      "cstring line' = takeWhile (\<lambda>x. x \<noteq> 13) (line @ l)" by blast
  have len: "length buf' = length buf" by (simp add: buf'_def)
  have bufeq: "(case (if t = 10 then Some ?k else None) of None \<Rightarrow> buf | Some k \<Rightarrow> buf[k := 0]) = buf'"
    by (simp add: buf'_def)
  have fits: "Suc ?k \<le> length buf" using n ok by (auto simp: buf_ok_def)
  have "pd_getline_top (\<lambda>_. True) rd buf cur len line linesize s =
      Some (1, line', buf', Suc ?k, len, s)"
    using ls fits ok len dropb line'
    by (subst pd_getline_top_find_eol)
      (simp_all add: find_eol_some [OF ok split no(1,2) t] Let_def bufeq)
  moreover have "buf_ok buf' (Suc ?k) len"
    using ok n by (auto simp: buf_ok_def buf'_def)
  moreover have "pending buf' (Suc ?k) len = rest"
  proof -
    have "drop (Suc ?k) buf' = drop (Suc (length l)) (drop cur buf')" by (simp add: add.commute)
    then have "drop (Suc ?k) buf' = rest @ 0 # tl" by (simp add: dropb)
    then show ?thesis using n by (simp add: pending_def drop_take)
  qed
  ultimately show ?thesis using line' by blast
qed

lemma getline_read_step:
  assumes ok: "buf_ok buf cur len" "\<not> cur < len" and chunks: "[] \<notin> set cs" "cs \<noteq> []"
  obtains cs' buf' bytes where "pd_getline_top mem recv_chunks buf cur len line linesize cs =
      pd_getline_top mem recv_chunks buf' 0 (length bytes) line linesize cs'"
    and "buf_ok buf' 0 (length bytes)" and "pending buf' 0 (length bytes) = bytes"
    and "bytes \<noteq> []" and "concat cs = bytes @ concat cs'" and "[] \<notin> set cs'"
proof -
  obtain cs' bytes where r: "recv_chunks cs (length buf - 1) = (cs', bytes)" by force
  have pos: "0 < length buf - 1" using ok by (auto simp: buf_ok_def)
  note p = recv_chunks_props [OF r chunks(1) pos] and c = recv_chunks_concat [OF r]
  have ne: "bytes \<noteq> []" using p chunks by simp
  have fits: "length bytes < length buf" using p pos by linarith
  define buf' where "buf' = bytes @ 0 # drop (Suc (length bytes)) buf"
  have blit: "blit buf 0 bytes = Some (bytes @ drop (length bytes) buf)"
    using fits by (simp add: blit_def)
  have "drop (length bytes) buf = buf ! length bytes # drop (Suc (length bytes)) buf"
    using fits by (simp add: Cons_nth_drop_Suc)
  then have wr: "cwrite (bytes @ drop (length bytes) buf) (length bytes) 0 = Some buf'"
    by (simp add: buf'_def cwrite_append)
  have "pd_getline_top mem recv_chunks buf cur len line linesize cs =
      pd_getline_top mem recv_chunks buf' 0 (length bytes) line linesize cs'"
    using ok ne by (subst pd_getline_top.simps) (simp add: r [unfolded One_nat_def] blit wr)
  moreover have "buf_ok buf' 0 (length bytes)" using fits ok by (auto simp: buf_ok_def buf'_def)
  moreover have "pending buf' 0 (length bytes) = bytes" by (simp add: pending_def buf'_def)
  ultimately show thesis using that ne c p(1) by metis
qed

lemma getline_stream:
  assumes "buf_ok buf cur len" and "[] \<notin> set cs"
    and "pending buf cur len @ concat cs = l @ t # rest"
    and "0 \<notin> set l" and "10 \<notin> set l" and "0 \<notin> set line" and "t = 0 \<or> t = 10"
    and "0 < linesize" and "length line \<le> linesize"
  shows "\<exists>line' buf' cur' len' cs'.
      pd_getline_top (\<lambda>_. True) recv_chunks buf cur len line linesize cs =
        Some (1, line', buf', cur', len', cs') \<and>
      cstring line' = takeWhile (\<lambda>x. x \<noteq> 13) (line @ l) \<and> buf_ok buf' cur' len' \<and>
      [] \<notin> set cs' \<and> pending buf' cur' len' @ concat cs' = rest"
  using assms
proof (induction "2 * length (concat cs) + (if cur < len then 1 else 0)" arbitrary: buf cur len cs l line linesize
    rule: less_induct)
  case less
  note ok = less.prems(1) and stream = less.prems(3)
  show ?case
  proof (cases "cur < len")
    case False
    have "pending buf cur len = []" using False by (simp add: pending_def)
    with stream have "cs \<noteq> []" by auto
    obtain cs' buf' bytes where step: "pd_getline_top (\<lambda>_. True) recv_chunks buf cur len line linesize cs =
        pd_getline_top (\<lambda>_. True) recv_chunks buf' 0 (length bytes) line linesize cs'"
      and buf': "buf_ok buf' 0 (length bytes)" "pending buf' 0 (length bytes) = bytes"
      and bytes: "bytes \<noteq> []" "concat cs = bytes @ concat cs'" "[] \<notin> set cs'"
      by (rule getline_read_step [OF ok False less.prems(2) \<open>cs \<noteq> []\<close>])
    have m: "2 * length (concat cs') + (if 0 < length bytes then 1 else 0) <
        2 * length (concat cs) + (if cur < len then 1 else 0)"
      using bytes by (cases bytes) auto
    have stream': "pending buf' 0 (length bytes) @ concat cs' = l @ t # rest"
      using stream bytes buf' \<open>pending buf cur len = []\<close> by simp
    show ?thesis
      unfolding step by (rule less.hyps [OF m buf'(1) bytes(3) stream' less.prems(4-9)])
  next
    case True
    show ?thesis
    proof (cases "length l < length (pending buf cur len)")
      case True2: True
      from stream obtain us where us: "pending buf cur len = l @ us" "us \<noteq> []" "us @ concat cs = t # rest"
        using True2 by (auto simp: append_eq_append_conv2)
      then obtain w where "pending buf cur len = l @ t # w" and w: "w @ concat cs = rest"
        by (cases us) auto
      from getline_eol_step [OF ok True this(1) less.prems(4-6,7-9), of recv_chunks cs]
      obtain line' buf' cur' where
        "pd_getline_top (\<lambda>_. True) recv_chunks buf cur len line linesize cs = Some (1, line', buf', cur', len, cs)"
        "cstring line' = takeWhile (\<lambda>x. x \<noteq> 13) (line @ l)" "buf_ok buf' cur' len" "pending buf' cur' len = w"
        by blast
      then show ?thesis using w less.prems(2) by blast
    next
      case False
      from stream obtain l' where l: "l = pending buf cur len @ l'" and l': "concat cs = l' @ t # rest"
        using False by (auto simp: append_eq_append_conv2)
      have "0 \<notin> set (pending buf cur len)" "10 \<notin> set (pending buf cur len)"
        using less.prems(4,5) l by auto
      then obtain ls where ls: "0 < ls" "length (line @ pending buf cur len) \<le> ls"
        and step: "pd_getline_top (\<lambda>_. True) recv_chunks buf cur len line linesize cs =
          pd_getline_top (\<lambda>_. True) recv_chunks buf len len (line @ pending buf cur len) ls cs"
        by (rule getline_none_step [OF ok True _ _ less.prems(8,9)])
      have "buf_ok buf len len" using ok by (auto simp: buf_ok_def)
      moreover have "pending buf len len @ concat cs = l' @ t # rest" using l' by (simp add: pending_def)
      ultimately show ?thesis
        unfolding step using less.prems ls True l
        using less.hyps [of cs len len buf l' "line @ pending buf cur len" ls] by auto
    qed
  qed
qed

lemma pd_getline_mem: "mem 1024 \<Longrightarrow> pd_getline mem rd buf cur len s = pd_getline_top mem rd buf cur len [] 1024 s"
  by (simp add: pd_getline_def)

text \<open>Reading a line depends on the byte stream only, not on how the network cuts it
  into segments: if the unread bytes (buffered, then still to arrive) are a line, a
  terminator (newline or NUL) and a rest, \<^verbatim>\<open>pd_getline\<close> returns without touching
  memory outside its buffers, gives the line up to its first carriage return, and leaves
  exactly the rest unread, in a state from which the next line can be read.\<close>

theorem pd_getline_stream:
  assumes "buf_ok buf cur len" and "[] \<notin> set cs"
    and "pending buf cur len @ concat cs = l @ t # rest"
    and "0 \<notin> set l" and "10 \<notin> set l" and "t = 0 \<or> t = 10"
  shows "\<exists>line buf' cur' len' cs'.
      pd_getline (\<lambda>_. True) recv_chunks buf cur len cs = Some (1, line, buf', cur', len', cs') \<and>
      cstring line = takeWhile (\<lambda>x. x \<noteq> 13) l \<and> buf_ok buf' cur' len' \<and>
      [] \<notin> set cs' \<and> pending buf' cur' len' @ concat cs' = rest"
  using getline_stream [OF assms(1-5), of "[]" 1024] assms(6) by (simp add: pd_getline_mem)

theorem pd_getline_stream_witness:
  "\<exists>line buf' cur' len' cs'.
      pd_getline (\<lambda>_. True) recv_chunks [5, 5, 5] 0 0 [[65], [66, 13, 10, 67]] = Some (1, line, buf', cur', len', cs') \<and>
      cstring line = takeWhile (\<lambda>x. x \<noteq> 13) [65, 66, 13] \<and> buf_ok buf' cur' len' \<and>
      [] \<notin> set cs' \<and> pending buf' cur' len' @ concat cs' = [67]"
  by (rule pd_getline_stream [where t = 10]) (simp_all add: buf_ok_def pending_def)

end
