(* ===== verification/Clist.thy ===== *)
theory Clist
  imports Prelude_C
begin

text \<open>
  The singly linked list of \<^verbatim>\<open>cphidgetlist.c\<close> that holds the active devices, the
  attached devices, the matches of a search and the queued error events.  A list is the
  sequence of the \<^verbatim>\<open>element\<close> pointers of its nodes; a pointer is a natural
  number, 0 the null pointer.  The comparison function pointer is a parameter.
\<close>

type_synonym ptr = nat

definition NULL :: ptr where "NULL = 0"

subsection \<open>Operations\<close>

text \<open>The loop of \<^verbatim>\<open>CList_findInList\<close>: the first element that compares equal.\<close>

fun clist_search :: "(ptr \<Rightarrow> ptr \<Rightarrow> bool) \<Rightarrow> ptr \<Rightarrow> ptr list \<Rightarrow> ptr option" where
  "clist_search cmp e [] = None"
| "clist_search cmp e (x # xs) = (if cmp e x then Some x else clist_search cmp e xs)"

definition CList_findInList :: "(ptr \<Rightarrow> ptr \<Rightarrow> bool) \<Rightarrow> ptr list \<Rightarrow> ptr \<Rightarrow> ephidget \<times> ptr option" where
  "CList_findInList cmp list e =
     (if e = NULL then (EPHIDGET_INVALIDARG, None)
      else case clist_search cmp e list of
             Some x \<Rightarrow> (EPHIDGET_OK, Some x) | None \<Rightarrow> (EPHIDGET_NOTFOUND, None))"

text \<open>\<open>list_ok\<close>: the \<^verbatim>\<open>CListHandle *\<close> argument is not null; \<open>mem\<close>: \<^verbatim>\<open>malloc\<close> succeeds.\<close>

definition CList_addToList ::
    "bool \<Rightarrow> (ptr \<Rightarrow> ptr \<Rightarrow> bool) \<Rightarrow> bool \<Rightarrow> ptr list \<Rightarrow> ptr \<Rightarrow> ephidget \<times> ptr list" where
  "CList_addToList mem cmp list_ok list e =
     (if \<not> list_ok \<or> e = NULL then (EPHIDGET_INVALIDARG, list)
      else case fst (CList_findInList cmp list e) of
             EPHIDGET_OK \<Rightarrow> (EPHIDGET_DUPLICATE, list)
           | EPHIDGET_NOTFOUND \<Rightarrow>
               if \<not> mem then (EPHIDGET_NOMEMORY, list) else (EPHIDGET_OK, list @ [e])
           | r \<Rightarrow> (r, list))"

text \<open>
  The removal loop past the head (lines 76--91): matching nodes are unlinked; \<open>freed\<close>
  collects the elements given to \<^verbatim>\<open>free_fptr\<close> and \<open>self\<close> remembers that the
  element itself was found (\<^verbatim>\<open>freeElement\<close>).
\<close>

fun clist_remove_tail ::
    "(ptr \<Rightarrow> ptr \<Rightarrow> bool) \<Rightarrow> ptr \<Rightarrow> bool \<Rightarrow> ptr list \<Rightarrow> ptr list \<times> ptr list \<times> bool" where
  "clist_remove_tail cmp e freeDevice [] = ([], [], False)"
| "clist_remove_tail cmp e freeDevice (x # xs) =
     (case clist_remove_tail cmp e freeDevice xs of (rest, freed, self) \<Rightarrow>
        if cmp e x then
          (rest,
           if freeDevice \<and> x \<noteq> NULL \<and> x \<noteq> e then x # freed else freed,
           if freeDevice \<and> x \<noteq> NULL \<and> x = e then True else self)
        else (x # rest, freed, self))"

text \<open>A match at the head ends the loop (the \<^verbatim>\<open>break\<close> of line 74).\<close>

definition CList_removeFromList ::
    "(ptr \<Rightarrow> ptr \<Rightarrow> bool) \<Rightarrow> bool \<Rightarrow> ptr list \<Rightarrow> ptr \<Rightarrow> bool \<Rightarrow> ephidget \<times> ptr list \<times> ptr list" where
  "CList_removeFromList cmp list_ok list e freeDevice =
     (if \<not> list_ok \<or> e = NULL then (EPHIDGET_INVALIDARG, list, [])
      else
        (case list of
           [] \<Rightarrow> (EPHIDGET_OK, [], [])
         | x # xs \<Rightarrow>
             if cmp e x then (EPHIDGET_OK, xs, if freeDevice \<and> x \<noteq> NULL then [x] else [])
             else (case clist_remove_tail cmp e freeDevice xs of (rest, freed, self) \<Rightarrow>
               (EPHIDGET_OK, x # rest, freed @ (if self then [e] else [])))))"

text \<open>\<^verbatim>\<open>CList_emptyList\<close>: the remaining list and the elements freed.\<close>

definition CList_emptyList :: "bool \<Rightarrow> ptr list \<Rightarrow> bool \<Rightarrow> ephidget \<times> ptr list \<times> ptr list" where
  "CList_emptyList list_ok list freeDevices =
     (if \<not> list_ok then (EPHIDGET_INVALIDARG, list, [])
      else (EPHIDGET_OK, [], if freeDevices then filter (\<lambda>x. x \<noteq> NULL) list else []))"

subsection \<open>Lemmas\<close>

lemma clist_search_find: "clist_search cmp e xs = List.find (cmp e) xs"
  by (induction xs) auto

lemma clist_search_None: "clist_search cmp e xs = None \<longleftrightarrow> (\<forall>x \<in> set xs. \<not> cmp e x)"
  by (induction xs) auto

lemma clist_search_Some: "clist_search cmp e xs = Some x \<Longrightarrow> x \<in> set xs \<and> cmp e x"
  by (induction xs) (auto split: if_splits)

lemma findInList_code:
  "fst (CList_findInList cmp xs e) =
    (if e = NULL then EPHIDGET_INVALIDARG
     else if \<exists>x \<in> set xs. cmp e x then EPHIDGET_OK else EPHIDGET_NOTFOUND)"
  using clist_search_None [of cmp e xs]
  by (auto simp: CList_findInList_def split: option.splits dest: clist_search_Some)

lemma fst_clist_remove_tail: "fst (clist_remove_tail cmp e fr xs) = filter (\<lambda>x. \<not> cmp e x) xs"
  by (induction xs) (auto split: prod.splits)

lemma removeFromList_eq:
  "e \<noteq> NULL \<Longrightarrow> fst (snd (CList_removeFromList cmp True xs e fr)) =
    (case xs of [] \<Rightarrow> [] | y # ys \<Rightarrow> if cmp e y then ys else y # filter (\<lambda>x. \<not> cmp e x) ys)"
  using fst_clist_remove_tail [of cmp e fr "tl xs"]
  by (auto simp: CList_removeFromList_def split: list.splits prod.splits)

subsection \<open>Comparisons as a contract\<close>

text \<open>
  The list's clients pass symmetric comparisons; transitivity is not promised (the device
  comparison is not transitive).  Under symmetry, a list built by insertion holds no two
  matching elements, and on such a list removal removes every match.
\<close>

locale list_matcher =
  fixes cmp :: "ptr \<Rightarrow> ptr \<Rightarrow> bool"
  assumes cmp_sym: "cmp a b = cmp b a"
begin

definition no_matches :: "ptr list \<Rightarrow> bool" where
  "no_matches xs \<longleftrightarrow> (\<forall>i < length xs. \<forall>j < length xs. i \<noteq> j \<longrightarrow> \<not> cmp (xs ! i) (xs ! j))"

lemma no_matches_Cons: "no_matches (x # xs) \<longleftrightarrow> (\<forall>y \<in> set xs. \<not> cmp x y) \<and> no_matches xs"
proof
  assume *: "no_matches (x # xs)"
  have "\<not> cmp x (xs ! i)" if "i < length xs" for i
    using *[unfolded no_matches_def, rule_format, of 0 "Suc i"] that by simp
  moreover have "\<not> cmp (xs ! i) (xs ! j)" if "i < length xs" "j < length xs" "i \<noteq> j" for i j
    using *[unfolded no_matches_def, rule_format, of "Suc i" "Suc j"] that by simp
  ultimately show "(\<forall>y \<in> set xs. \<not> cmp x y) \<and> no_matches xs"
    by (auto simp: no_matches_def in_set_conv_nth)
next
  assume *: "(\<forall>y \<in> set xs. \<not> cmp x y) \<and> no_matches xs"
  then show "no_matches (x # xs)"
    by (auto simp: no_matches_def nth_Cons cmp_sym split: nat.splits)
qed

lemma no_matches_Nil [simp]: "no_matches []"
  by (simp add: no_matches_def)

lemma no_matches_snoc: "no_matches (xs @ [x]) \<longleftrightarrow> no_matches xs \<and> (\<forall>y \<in> set xs. \<not> cmp x y)"
  by (induction xs) (auto simp: no_matches_Cons cmp_sym [of x])

lemma add_no_matches:
  "no_matches xs \<Longrightarrow> no_matches (snd (CList_addToList mem cmp list_ok xs e))"
  using findInList_code [of cmp xs e]
  by (auto simp: CList_addToList_def no_matches_snoc split: if_splits)

lemma no_matches_filter: "no_matches xs \<Longrightarrow> no_matches (filter P xs)"
  by (induction xs) (auto simp: no_matches_Cons)

lemma remove_no_matches:
  "no_matches xs \<Longrightarrow> no_matches (fst (snd (CList_removeFromList cmp True xs e fr)))"
proof (cases "e = NULL")
  case True
  then show "no_matches xs \<Longrightarrow> ?thesis" by (simp add: CList_removeFromList_def)
next
  case False
  then show "no_matches xs \<Longrightarrow> ?thesis"
    by (simp add: removeFromList_eq split: list.splits) (auto simp: no_matches_Cons no_matches_filter)
qed

lemma remove_member:
  assumes "no_matches xs" and "e \<in> set xs" and "e \<noteq> NULL" and "cmp e e"
  shows "fst (snd (CList_removeFromList cmp True xs e fr)) = filter (\<lambda>x. x \<noteq> e) xs"
  using assms
proof (induction xs)
  case (Cons y ys)
  show ?case
  proof (cases "y = e")
    case True
    then have "\<forall>x \<in> set ys. x \<noteq> e" using Cons.prems by (auto simp: no_matches_Cons)
    then have "filter (\<lambda>x. x \<noteq> e) ys = ys" by simp
    then show ?thesis using Cons.prems True by (simp add: removeFromList_eq)
  next
    case False
    then have e: "e \<in> set ys" and ne: "\<not> cmp e y" using Cons.prems by (auto simp: no_matches_Cons cmp_sym)
    have "\<not> cmp e x" if "x \<in> set ys" "x \<noteq> e" for x
    proof -
      have "\<exists>i < length ys. ys ! i = e" "\<exists>j < length ys. ys ! j = x"
        using e that by (simp_all add: in_set_conv_nth)
      moreover have "no_matches ys" using Cons.prems by (simp add: no_matches_Cons)
      ultimately show ?thesis using that(2) by (auto simp: no_matches_def)
    qed
    then have "filter (\<lambda>x. \<not> cmp e x) ys = filter (\<lambda>x. x \<noteq> e) ys"
      using Cons.prems by (intro filter_cong) auto
    then show ?thesis using Cons.prems ne False by (simp add: removeFromList_eq)
  qed
qed simp

end

text \<open>\<^verbatim>\<open>CPhidgetHandle_areEqual\<close>: the same pointer.\<close>

definition CPhidgetHandle_areEqual :: "ptr \<Rightarrow> ptr \<Rightarrow> bool" where
  "CPhidgetHandle_areEqual a b \<longleftrightarrow> a = b"

interpretation handle_list: list_matcher CPhidgetHandle_areEqual
  by unfold_locales (auto simp: CPhidgetHandle_areEqual_def)

lemma handle_no_matches: "handle_list.no_matches xs \<longleftrightarrow> distinct xs"
  by (auto simp: handle_list.no_matches_def CPhidgetHandle_areEqual_def distinct_conv_nth)

subsection \<open>Properties\<close>

text \<open>Insertion and removal keep a list of handles free of duplicates, insertion of
  a listed handle reports \<^verbatim>\<open>EPHIDGET_DUPLICATE\<close> and leaves the list alone, and
  removal of a listed handle takes out exactly that handle.\<close>

theorem handle_list_add_remove:
  assumes "distinct xs" and "e \<noteq> NULL"
  shows "distinct (snd (CList_addToList mem CPhidgetHandle_areEqual True xs e)) \<and>
    (e \<in> set xs \<longrightarrow> CList_addToList mem CPhidgetHandle_areEqual True xs e = (EPHIDGET_DUPLICATE, xs)) \<and>
    (e \<in> set xs \<longrightarrow> fst (snd (CList_removeFromList CPhidgetHandle_areEqual True xs e fr)) = remove1 e xs)"
proof (intro conjI impI)
  show "distinct (snd (CList_addToList mem CPhidgetHandle_areEqual True xs e))"
    using handle_list.add_no_matches assms by (simp add: handle_no_matches)
  show "CList_addToList mem CPhidgetHandle_areEqual True xs e = (EPHIDGET_DUPLICATE, xs)" if "e \<in> set xs"
    using that assms findInList_code [of CPhidgetHandle_areEqual xs e]
    by (auto simp: CList_addToList_def CPhidgetHandle_areEqual_def)
  show "fst (snd (CList_removeFromList CPhidgetHandle_areEqual True xs e fr)) = remove1 e xs" if "e \<in> set xs"
    using that assms handle_list.remove_member [of xs e fr] distinct_remove1_removeAll [of xs e]
    by (simp add: handle_no_matches CPhidgetHandle_areEqual_def removeAll_filter_not_eq eq_commute)
qed

theorem handle_list_add_remove_witness:
  "distinct (snd (CList_addToList True CPhidgetHandle_areEqual True [3, 7] 7)) \<and>
    CList_addToList True CPhidgetHandle_areEqual True [3, 7] 7 = (EPHIDGET_DUPLICATE, [3, 7]) \<and>
    fst (snd (CList_removeFromList CPhidgetHandle_areEqual True [3, 7] 7 False)) = [3]"
proof -
  have "distinct [3 :: ptr, 7]" "(7 :: ptr) \<noteq> NULL" by (simp_all add: NULL_def)
  from handle_list_add_remove [OF this, of True False] show ?thesis by simp
qed

text \<open>The removal loop stops after a match at the head: with a matching head, later
  matches stay in the list, although the routine's comment says that it also removes
  duplicates.\<close>

theorem remove_keeps_duplicates_after_head:
  assumes "cmp e x" and "e \<noteq> NULL"
  shows "CList_removeFromList cmp True (x # xs) e False = (EPHIDGET_OK, xs, [])"
  using assms by (simp add: CList_removeFromList_def)

theorem remove_keeps_duplicates_after_head_witness:
  "CList_removeFromList (\<lambda>_ _. True) True (4 # [4, 4]) 4 False = (EPHIDGET_OK, [4, 4], [])"
  by (rule remove_keeps_duplicates_after_head) (simp_all add: NULL_def)

end
