(* ===== verification/Plist.thy ===== *)
theory Plist
  imports Clist
begin

text \<open>
  The circular doubly linked list of key-value pairs of \<^verbatim>\<open>utils/plist.c\<close>, with its
  pointers: the heap maps the address of a node to its record, every dereference of an
  address outside the heap is undefined (\<open>None\<close>), \<^verbatim>\<open>malloc\<close> is the address it
  returns (0 on failure), \<^verbatim>\<open>free\<close> removes the node.  The loops are partial
  functions, so a defined result also says that the loop ends.
\<close>

subsection \<open>Nodes and operations\<close>

record plist_node =
  pn_key :: ptr
  pn_value :: ptr
  pn_next :: ptr
  pn_prev :: ptr

type_synonym plist_heap = "ptr \<rightharpoonup> plist_node"

text \<open>\<^verbatim>\<open>int plist_add(void *k, void *v, plist_node_t **root)\<close>; \<open>n\<close> is what
  \<^verbatim>\<open>malloc\<close> returns.\<close>

definition plist_add ::
    "ptr \<Rightarrow> ptr \<Rightarrow> ptr \<Rightarrow> ptr \<Rightarrow> plist_heap \<Rightarrow> (int \<times> ptr \<times> plist_heap) option" where
  "plist_add n k v root h =
     (if n = NULL then Some (0, root, h)
      else if root = NULL then
        Some (1, n, h(n \<mapsto> \<lparr>pn_key = k, pn_value = v, pn_next = n, pn_prev = n\<rparr>))
      else do {
        r \<leftarrow> h root;
        let h = h(n \<mapsto> \<lparr>pn_key = k, pn_value = v, pn_next = root, pn_prev = pn_prev r\<rparr>);
        r \<leftarrow> h root;
        p \<leftarrow> h (pn_prev r);
        let h = h(pn_prev r \<mapsto> p\<lparr>pn_next := n\<rparr>);
        r \<leftarrow> h root;
        let h = h(root \<mapsto> r\<lparr>pn_prev := n\<rparr>);
        Some (1, root, h) })"

text \<open>\<^verbatim>\<open>void plist_clear(plist_node_t **root)\<close>\<close>

partial_function (option) plist_clear_loop :: "ptr \<Rightarrow> ptr \<Rightarrow> plist_heap \<Rightarrow> (ptr \<times> plist_heap) option" where
  "plist_clear_loop cur root h =
     (if cur = NULL then Some (root, h)
      else do {
        c \<leftarrow> h cur;
        let h = h(cur := None);
        if pn_next c = root then Some (NULL, h)
        else plist_clear_loop (pn_next c) root h })"

definition plist_clear :: "ptr \<Rightarrow> plist_heap \<Rightarrow> (ptr \<times> plist_heap) option" where
  "plist_clear root h = plist_clear_loop root root h"

text \<open>Lines 87--95: unlink and free \<open>cur\<close>; the new root and heap.\<close>

definition plist_unlink :: "ptr \<Rightarrow> ptr \<Rightarrow> plist_heap \<Rightarrow> (ptr \<times> plist_heap) option" where
  "plist_unlink cur root h = do {
     c \<leftarrow> h cur;
     p \<leftarrow> h (pn_prev c);
     let h = h(pn_prev c \<mapsto> p\<lparr>pn_next := pn_next c\<rparr>);
     c \<leftarrow> h cur;
     q \<leftarrow> h (pn_next c);
     let h = h(pn_next c \<mapsto> q\<lparr>pn_prev := pn_prev c\<rparr>);
     c \<leftarrow> h cur;
     let root = (if pn_next c = cur then NULL else if root = cur then pn_next c else root);
     Some (root, h(cur := None)) }"

text \<open>\<^verbatim>\<open>int plist_remove(void *k, plist_node_t **rootp, void **ov)\<close>: the return value,
  \<^verbatim>\<open>*ov\<close> when it is written, the root and the heap.\<close>

partial_function (option) plist_remove_loop ::
    "ptr \<Rightarrow> ptr \<Rightarrow> ptr \<Rightarrow> plist_heap \<Rightarrow> (int \<times> ptr option \<times> ptr \<times> plist_heap) option" where
  "plist_remove_loop k cur root h =
     (if cur = NULL then Some (0, None, root, h)
      else do {
        c \<leftarrow> h cur;
        if pn_key c = k then do {
          (root', h') \<leftarrow> plist_unlink cur root h;
          Some (1, Some (pn_value c), root', h') }
        else if pn_next c = root then Some (0, None, root, h)
        else plist_remove_loop k (pn_next c) root h })"

definition plist_remove ::
    "ptr \<Rightarrow> ptr \<Rightarrow> plist_heap \<Rightarrow> (int \<times> ptr option \<times> ptr \<times> plist_heap) option" where
  "plist_remove k root h = plist_remove_loop k root root h"

text \<open>\<^verbatim>\<open>int plist_contains(void *k, plist_node_t *root, void **ov)\<close>\<close>

partial_function (option) plist_contains_loop ::
    "ptr \<Rightarrow> ptr \<Rightarrow> ptr \<Rightarrow> plist_heap \<Rightarrow> (int \<times> ptr option) option" where
  "plist_contains_loop k cur root h =
     (if cur = NULL then Some (0, None)
      else do {
        c \<leftarrow> h cur;
        if pn_key c = k then Some (1, Some (pn_value c))
        else if pn_next c = root then Some (0, None)
        else plist_contains_loop k (pn_next c) root h })"

definition plist_contains :: "ptr \<Rightarrow> ptr \<Rightarrow> plist_heap \<Rightarrow> (int \<times> ptr option) option" where
  "plist_contains k root h = plist_contains_loop k root root h"

text \<open>\<^verbatim>\<open>int plist_walk(start, func, arg)\<close>; \<open>func\<close> maps key, value and the state behind
  \<^verbatim>\<open>arg\<close> to its return value and the new state.\<close>

partial_function (option) plist_walk_loop ::
    "ptr \<Rightarrow> ptr \<Rightarrow> (ptr \<Rightarrow> ptr \<Rightarrow> 'a \<Rightarrow> int \<times> 'a) \<Rightarrow> 'a \<Rightarrow> plist_heap \<Rightarrow> (int \<times> 'a) option" where
  "plist_walk_loop cur start func arg h =
     (if cur = NULL then Some (1, arg)
      else do {
        c \<leftarrow> h cur;
        (case func (pn_key c) (pn_value c) arg of (res, arg) \<Rightarrow>
          if res = 0 then Some (res, arg)
          else if pn_next c = start then Some (1, arg)
          else plist_walk_loop (pn_next c) start func arg h) })"

definition plist_walk ::
    "ptr \<Rightarrow> (ptr \<Rightarrow> ptr \<Rightarrow> 'a \<Rightarrow> int \<times> 'a) \<Rightarrow> 'a \<Rightarrow> plist_heap \<Rightarrow> (int \<times> 'a) option" where
  "plist_walk start func arg h = plist_walk_loop start start func arg h"

subsection \<open>Rings in the heap\<close>

text \<open>\<open>dll h p xs q\<close>: the nodes \<open>xs\<close> are linked in order, \<open>p\<close> before and \<open>q\<close> behind them.\<close>

fun dll :: "plist_heap \<Rightarrow> ptr \<Rightarrow> ptr list \<Rightarrow> ptr \<Rightarrow> bool" where
  "dll h p [] q = True"
| "dll h p (x # xs) q =
     (\<exists>c. h x = Some c \<and> pn_prev c = p \<and> pn_next c = hd (xs @ [q]) \<and> dll h x xs q)"

definition ring :: "plist_heap \<Rightarrow> ptr list \<Rightarrow> bool" where
  "ring h xs \<longleftrightarrow> distinct xs \<and> NULL \<notin> set xs \<and> (xs \<noteq> [] \<longrightarrow> dll h (last xs) xs (hd xs))"

definition plist_at :: "plist_heap \<Rightarrow> ptr \<Rightarrow> ptr list \<Rightarrow> bool" where
  "plist_at h root xs \<longleftrightarrow> ring h xs \<and> root = hd (xs @ [NULL])"

definition entry_of :: "plist_heap \<Rightarrow> ptr \<Rightarrow> ptr \<times> ptr" where
  "entry_of h a = (pn_key (the (h a)), pn_value (the (h a)))"

definition entries :: "plist_heap \<Rightarrow> ptr list \<Rightarrow> (ptr \<times> ptr) list" where
  "entries h xs = map (entry_of h) xs"

lemma dll_append: "dll h p (xs @ ys) q \<longleftrightarrow> dll h p xs (hd (ys @ [q])) \<and> dll h (last (p # xs)) ys q"
  by (induction xs arbitrary: p) (auto simp: hd_append)

lemma dll_frame [simp]: "a \<notin> set xs \<Longrightarrow> dll (h(a := c)) p xs q = dll h p xs q"
  by (induction xs arbitrary: p) auto

lemma dll_dom: "dll h p xs q \<Longrightarrow> x \<in> set xs \<Longrightarrow> \<exists>c. h x = Some c"
  by (induction xs arbitrary: p) auto

lemma dll_set_prev:
  "dll h p (y # zs) q \<Longrightarrow> y \<notin> set zs \<Longrightarrow> h y = Some c \<Longrightarrow> dll (h(y \<mapsto> c\<lparr>pn_prev := p'\<rparr>)) p' (y # zs) q"
  by auto

lemma dll_set_next:
  "dll h p (ws @ [l]) q \<Longrightarrow> l \<notin> set ws \<Longrightarrow> h l = Some c \<Longrightarrow>
   dll (h(l \<mapsto> c\<lparr>pn_next := q'\<rparr>)) p (ws @ [l]) q'"
  by (auto simp: dll_append)

lemma entries_frame [simp]: "a \<notin> set xs \<Longrightarrow> entries (h(a := c)) xs = entries h xs"
  by (auto simp: entries_def entry_of_def)

lemma entries_set_links [simp]:
  "h a = Some c \<Longrightarrow> entries (h(a \<mapsto> c\<lparr>pn_next := n\<rparr>)) xs = entries h xs"
  "h a = Some c \<Longrightarrow> entries (h(a \<mapsto> c\<lparr>pn_prev := n\<rparr>)) xs = entries h xs"
  by (auto simp: entries_def entry_of_def)

lemma ring_rotate: "ring h (us @ vs) \<Longrightarrow> ring h (vs @ us)"
  by (cases "us = []"; cases "vs = []") (auto simp: ring_def dll_append)

lemma ring_frame [simp]: "a \<notin> set xs \<Longrightarrow> ring (h(a := c)) xs = ring h xs"
  by (auto simp: ring_def)

lemma dll_head:
  "ring h (x # ys) \<Longrightarrow> \<exists>c. h x = Some c \<and> pn_prev c = last (x # ys) \<and> pn_next c = hd (ys @ [x])"
  by (auto simp: ring_def)

subsection \<open>Each operation on a ring\<close>

lemma plist_add_ring:
  assumes at: "plist_at h root xs" and n: "n \<notin> dom h" "n \<noteq> NULL"
  shows "\<exists>root' h'. plist_add n k v root h = Some (1, root', h') \<and> plist_at h' root' (xs @ [n]) \<and>
    entries h' (xs @ [n]) = entries h xs @ [(k, v)] \<and> (\<forall>a. a \<notin> set (xs @ [n]) \<longrightarrow> h' a = h a)"
proof (cases xs rule: rev_cases)
  case Nil
  then show ?thesis using at n
    by (simp add: plist_at_def plist_add_def ring_def entries_def entry_of_def NULL_def)
next
  case (snoc ws l)
  then obtain x ys where xs: "xs = x # ys" by (metis append_is_Nil_conv list.exhaust not_Cons_self2)
  have ring: "ring h xs" and root: "root = x" using at xs by (auto simp: plist_at_def)
  then have notin: "n \<notin> set xs" using n dll_dom [of h "last xs" xs "hd xs" n] by (auto simp: ring_def xs)
  have "root \<noteq> NULL" using ring root xs by (auto simp: ring_def)
  obtain c where c: "h x = Some c" "pn_prev c = l"
    using dll_head [of h x ys] ring xs snoc by (metis last_snoc)
  define h1 where "h1 = h(n \<mapsto> \<lparr>pn_key = k, pn_value = v, pn_next = x, pn_prev = l\<rparr>)"
  have hl: "hd xs = x" "last xs = l" using xs by simp (simp add: snoc)
  have "dll h (last xs) xs (hd xs)" using ring unfolding ring_def xs by blast
  then have "dll h l xs x" unfolding hl .
  then have dll1: "dll h1 l xs x" using notin by (simp add: h1_def)
  have x1: "h1 x = Some c" using c notin xs by (auto simp: h1_def)
  obtain p where p: "h1 l = Some p" using dll_dom [OF dll1, of l] snoc by auto
  define h2 where "h2 = h1(l \<mapsto> p\<lparr>pn_next := n\<rparr>)"
  have "l \<notin> set ws" using ring snoc by (auto simp: ring_def)
  then have dll2: "dll h2 l xs n" unfolding h2_def snoc using dll1 p snoc by (intro dll_set_next) auto
  obtain r where r: "h2 x = Some r" using dll_dom [OF dll2, of x] xs by auto
  define h3 where "h3 = h2(x \<mapsto> r\<lparr>pn_prev := n\<rparr>)"
  have "x \<notin> set ys" using ring xs by (auto simp: ring_def)
  then have dll3: "dll h3 n xs n" unfolding h3_def xs using dll2 r xs by (intro dll_set_prev) auto
  have nl: "n \<noteq> l" "n \<noteq> x" using notin by (simp add: snoc) (use notin xs in simp)
  have n3: "h3 n = Some \<lparr>pn_key = k, pn_value = v, pn_next = x, pn_prev = l\<rparr>"
    using nl by (simp add: h3_def h2_def h1_def)
  have "plist_add n k v root h = Some (1, root, h3)"
    using n nl c x1 p r \<open>root \<noteq> NULL\<close> unfolding plist_add_def root h3_def h2_def
    by (cases "x = l") (simp_all add: h1_def Let_def)
  moreover have "ring h3 (xs @ [n])"
  proof -
    have "last (n # xs) = l" "hd (xs @ [n]) = x" using snoc by simp (simp add: xs)
    then show ?thesis using ring notin n(2) dll3 n3 by (auto simp: ring_def dll_append)
  qed
  moreover have "entries h3 (xs @ [n]) = entries h xs @ [(k, v)]"
  proof -
    have "entries h3 xs = entries h xs"
      using p r notin by (simp add: h3_def h2_def) (simp add: h1_def)
    then show ?thesis using n3 by (simp add: entries_def entry_of_def)
  qed
  moreover have "\<forall>a. a \<notin> set (xs @ [n]) \<longrightarrow> h3 a = h a"
  proof -
    have "l \<in> set xs" "x \<in> set xs" by (simp add: snoc) (simp add: xs)
    then show ?thesis by (auto simp: h3_def h2_def h1_def)
  qed
  ultimately show ?thesis using root xs by (auto simp: plist_at_def)
qed

lemma plist_unlink_ring:
  assumes "ring h (x # ys)"
  shows "\<exists>h'. plist_unlink x root h =
      Some (if ys = [] then NULL else if root = x then hd ys else root, h') \<and>
    ring h' ys \<and> entries h' ys = entries h ys \<and> h' x = None \<and> (\<forall>a. a \<notin> set (x # ys) \<longrightarrow> h' a = h a)"
proof (cases ys rule: rev_cases)
  case Nil
  then obtain c where "h x = Some c" "pn_prev c = x" "pn_next c = x" using dll_head [OF assms] by auto
  with Nil show ?thesis by (auto simp: plist_unlink_def ring_def entries_def Let_def)
next
  case (snoc ws l)
  then obtain y zs where ys: "ys = y # zs" by (metis append_is_Nil_conv list.exhaust not_Cons_self2)
  have "last (x # ys) = l" "hd (ys @ [x]) = y" using snoc by simp (simp add: ys)
  then obtain c where c: "h x = Some c" "pn_prev c = l" "pn_next c = y" using dll_head [OF assms] by auto
  have d: "distinct (x # ys)" using assms by (simp add: ring_def)
  moreover have "x \<noteq> l" using d snoc by auto
  moreover have "x \<noteq> y" using d ys by auto
  ultimately have dist: "distinct (x # ys)" "x \<noteq> l" "x \<noteq> y" by blast+
  have dll0: "dll h x ys x" using assms by (auto simp: ring_def)
  obtain p where p: "h l = Some p" using dll_dom [OF dll0, of l] snoc by auto
  define h1 where "h1 = h(l \<mapsto> p\<lparr>pn_next := y\<rparr>)"
  have dll1: "dll h1 x ys y" unfolding h1_def snoc using dll0 p snoc dist by (intro dll_set_next) auto
  obtain q where q: "h1 y = Some q" using dll_dom [OF dll1, of y] ys by auto
  define h2 where "h2 = h1(y \<mapsto> q\<lparr>pn_prev := l\<rparr>)"
  have dll2: "dll h2 l ys y" unfolding h2_def ys using dll1 q ys dist by (intro dll_set_prev) auto
  have x1: "h1 x = Some c" and x2: "h2 x = Some c"
    using c dist by (simp_all add: h1_def h2_def)
  have "plist_unlink x root h = Some (if root = x then y else root, h2(x := None))"
    using c p q x1 x2 dist
    by (cases "y = l") (auto simp: plist_unlink_def h1_def h2_def Let_def)
  moreover have "ring (h2(x := None)) ys" 
  proof -
    have "x \<notin> set ys" "last ys = l" using dist snoc by (simp, simp)
    moreover have "hd ys = y" by (simp add: ys)
    ultimately show ?thesis using assms dll2 by (simp add: ring_def)
  qed
  moreover have "entries (h2(x := None)) ys = entries h ys"
    using dist p q by (simp add: h2_def) (simp add: h1_def)
  moreover have "\<forall>a. a \<notin> set (x # ys) \<longrightarrow> (h2(x := None)) a = h a"
  proof -
    have "l \<in> set ys" "y \<in> set ys" by (simp add: snoc) (simp add: ys)
    then show ?thesis by (auto simp: h2_def h1_def)
  qed
  ultimately show ?thesis using ys by auto
qed

text \<open>The routines as functions on the key-value sequence.\<close>

fun del_first :: "'k \<Rightarrow> ('k \<times> 'v) list \<Rightarrow> ('k \<times> 'v) list" where
  "del_first k [] = []"
| "del_first k (e # es) = (if fst e = k then es else e # del_first k es)"

fun walk_entries :: "('k \<Rightarrow> 'v \<Rightarrow> 'a \<Rightarrow> int \<times> 'a) \<Rightarrow> ('k \<times> 'v) list \<Rightarrow> 'a \<Rightarrow> int \<times> 'a" where
  "walk_entries f [] a = (1, a)"
| "walk_entries f ((k, v) # es) a = (case f k v a of (r, a) \<Rightarrow> if r = 0 then (r, a) else walk_entries f es a)"

text \<open>The node a loop stands on, and the one it moves to.\<close>

lemma ring_at:
  assumes "ring h (us @ x # vs)"
  shows "\<exists>c. h x = Some c \<and> entry_of h x = (pn_key c, pn_value c) \<and> x \<noteq> NULL \<and>
    pn_next c = hd (vs @ us @ [x])"
  using assms ring_rotate [OF assms] dll_head [of h x "vs @ us"]
  by (auto simp: ring_def entry_of_def)

lemma ring_hd_eq:
  assumes "ring h (us @ x # vs)"
  shows "hd (vs @ us @ [x]) = hd (us @ [x]) \<longleftrightarrow> vs = []"
  using assms by (cases vs; cases us) (auto simp: ring_def)

lemma plist_contains_loop_ring:
  assumes "ring h (us @ x # vs)" and "root = hd (us @ [x])"
  shows "plist_contains_loop k x root h =
    Some (case map_of (entries h (x # vs)) k of None \<Rightarrow> (0, None) | Some v \<Rightarrow> (1, Some v))"
  using assms
proof (induction vs arbitrary: us x)
  case Nil
  then show ?case using ring_at [OF Nil(1)]
    by (subst plist_contains_loop.simps) (auto simp: entries_def)
next
  case (Cons y vs)
  have "hd (us @ [x]) = hd ((us @ [x]) @ [y])" by (cases us) auto
  then have IH: "plist_contains_loop k y root h =
    Some (case map_of (entries h (y # vs)) k of None \<Rightarrow> (0, None) | Some v \<Rightarrow> (1, Some v))"
    using Cons.prems by (intro Cons.IH [of "us @ [x]"]) auto
  show ?case using ring_at [OF Cons.prems(1)] ring_hd_eq [OF Cons.prems(1)] IH Cons.prems(2)
    by (subst plist_contains_loop.simps) (auto simp: entries_def)
qed

lemma plist_walk_loop_ring:
  assumes "ring h (us @ x # vs)" and "root = hd (us @ [x])"
  shows "plist_walk_loop x root f a h = Some (walk_entries f (entries h (x # vs)) a)"
  using assms
proof (induction vs arbitrary: us x a)
  case Nil
  then show ?case using ring_at [OF Nil(1)]
    by (subst plist_walk_loop.simps) (auto simp: entries_def split: prod.splits)
next
  case (Cons y vs)
  have "hd (us @ [x]) = hd ((us @ [x]) @ [y])" by (cases us) auto
  then have IH: "plist_walk_loop y root f a h = Some (walk_entries f (entries h (y # vs)) a)" for a
    using Cons.prems by (intro Cons.IH [of "us @ [x]"]) auto
  show ?case using ring_at [OF Cons.prems(1)] ring_hd_eq [OF Cons.prems(1)] IH Cons.prems(2)
    by (subst plist_walk_loop.simps) (auto simp: entries_def split: prod.splits)
qed

lemma plist_unlink_at:
  assumes ring: "ring h (us @ x # vs)" and root: "root = hd (us @ [x])"
  shows "\<exists>h'. plist_unlink x root h = Some (hd (us @ vs @ [NULL]), h') \<and>
    plist_at h' (hd (us @ vs @ [NULL])) (us @ vs) \<and> entries h' (us @ vs) = entries h (us @ vs) \<and>
    h' x = None \<and> (\<forall>a. a \<notin> set (us @ x # vs) \<longrightarrow> h' a = h a)"
proof -
  have "ring h (x # vs @ us)" using ring_rotate [OF ring] by simp
  then obtain h' where h': "plist_unlink x root h =
      Some (if vs @ us = [] then NULL else if root = x then hd (vs @ us) else root, h')"
    "ring h' (vs @ us)" "entries h' (vs @ us) = entries h (vs @ us)" "h' x = None"
    "\<forall>a. a \<notin> set (x # vs @ us) \<longrightarrow> h' a = h a"
    using plist_unlink_ring by metis
  have "(if vs @ us = [] then NULL else if root = x then hd (vs @ us) else root) = hd (us @ vs @ [NULL])"
    using root ring by (cases us; cases vs) (auto simp: ring_def)
  moreover have "entries h' (us @ vs) = entries h (us @ vs)"
    using h'(3) by (simp add: entries_def)
  ultimately show ?thesis using h' ring_rotate [OF h'(2)] by (auto simp: plist_at_def)
qed

lemma del_first_append:
  "k \<notin> fst ` set es \<Longrightarrow> del_first k (es @ fs) = es @ del_first k fs"
  by (induction es) auto

lemma plist_remove_loop_at:
  assumes ring: "ring h (us @ x # vs)" and root: "root = hd (us @ [x])"
  shows "plist_remove_loop k x root h =
    (if fst (entry_of h x) = k then do {
       (root', h') \<leftarrow> plist_unlink x root h;
       Some (1, Some (snd (entry_of h x)), root', h') }
     else if vs = [] then Some (0, None, root, h)
     else plist_remove_loop k (hd vs) root h)"
proof -
  obtain c where c: "h x = Some c" "entry_of h x = (pn_key c, pn_value c)" "x \<noteq> NULL"
      "pn_next c = hd (vs @ us @ [x])" using ring_at [OF ring] by blast
  have "pn_next c = root \<longleftrightarrow> vs = []" using c ring_hd_eq [OF ring] root by simp
  moreover have "vs \<noteq> [] \<Longrightarrow> pn_next c = hd vs" using c by simp
  ultimately show ?thesis using c by (subst plist_remove_loop.simps) simp
qed

lemma plist_remove_loop_ring:
  assumes "ring h (us @ x # vs)" and "root = hd (us @ [x])" and "k \<notin> fst ` set (entries h us)"
  shows "\<exists>root' h' xs'. plist_remove_loop k x root h =
      Some (if k \<in> fst ` set (entries h (x # vs)) then 1 else 0, map_of (entries h (x # vs)) k, root', h') \<and>
    plist_at h' root' xs' \<and> set xs' \<subseteq> set (us @ x # vs) \<and>
    entries h' xs' = del_first k (entries h (us @ x # vs)) \<and>
    (\<forall>a. a \<notin> set (us @ x # vs) \<longrightarrow> h' a = h a)"
  using assms
proof (induction vs arbitrary: us x)
  case base: (Nil us x)
  note at = plist_remove_loop_at [OF base(1,2), of k]
  show ?case
  proof (cases "fst (entry_of h x) = k")
    case True
    from plist_unlink_at [OF base(1,2)] obtain h' where h': "plist_unlink x root h = Some (hd (us @ [NULL]), h')"
      "plist_at h' (hd (us @ [NULL])) us" "entries h' us = entries h us"
      "\<forall>a. a \<notin> set (us @ [x]) \<longrightarrow> h' a = h a" by auto
    have "entries h' us = del_first k (entries h (us @ [x]))"
      using True base(3) h'(3) by (simp add: entries_def del_first_append)
    moreover have "map_of (entries h [x]) k = Some (snd (entry_of h x))" "k \<in> fst ` set (entries h [x])"
      using True by (cases "entry_of h x", simp add: entries_def)+
    ultimately show ?thesis unfolding at using True h'
      by (intro exI [of _ "hd (us @ [NULL])"] exI [of _ h'] exI [of _ us]) auto
  next
    case False
    have "plist_at h root (us @ [x])" using base by (auto simp: plist_at_def hd_append)
    moreover have "entries h (us @ [x]) = del_first k (entries h (us @ [x]))"
      using False base(3) by (simp add: entries_def del_first_append)
    moreover have "map_of (entries h [x]) k = None" "k \<notin> fst ` set (entries h [x])"
      using False by (cases "entry_of h x", simp add: entries_def)+
    ultimately show ?thesis unfolding at using False by (intro exI conjI) auto
  qed
next
  case step: (Cons y vs us x)
  note at = plist_remove_loop_at [OF step(2,3), of k]
  show ?case
  proof (cases "fst (entry_of h x) = k")
    case True
    from plist_unlink_at [OF step(2,3)] obtain h' where h':
      "plist_unlink x root h = Some (hd (us @ (y # vs) @ [NULL]), h')"
      "plist_at h' (hd (us @ (y # vs) @ [NULL])) (us @ y # vs)"
      "entries h' (us @ y # vs) = entries h (us @ y # vs)"
      "\<forall>a. a \<notin> set (us @ x # y # vs) \<longrightarrow> h' a = h a" by auto
    have "entries h' (us @ y # vs) = del_first k (entries h (us @ x # y # vs))"
      using True step(4) h'(3) by (simp add: entries_def del_first_append)
    moreover have "map_of (entries h (x # y # vs)) k = Some (snd (entry_of h x))"
      "k \<in> fst ` set (entries h (x # y # vs))"
      using True by (cases "entry_of h x", simp add: entries_def)+
    ultimately show ?thesis unfolding at using True h'
      by (intro exI [of _ "hd (us @ (y # vs) @ [NULL])"] exI [of _ h'] exI [of _ "us @ y # vs"]) auto
  next
    case False
    have "hd (us @ [x]) = hd ((us @ [x]) @ [y])" by (cases us) auto
    with False step(2-4) have "\<exists>root' h' xs'. plist_remove_loop k y root h =
        Some (if k \<in> fst ` set (entries h (y # vs)) then 1 else 0, map_of (entries h (y # vs)) k, root', h') \<and>
      plist_at h' root' xs' \<and> set xs' \<subseteq> set ((us @ [x]) @ y # vs) \<and>
      entries h' xs' = del_first k (entries h ((us @ [x]) @ y # vs)) \<and>
      (\<forall>a. a \<notin> set ((us @ [x]) @ y # vs) \<longrightarrow> h' a = h a)"
      by (intro step(1)) (auto simp: entries_def)
    moreover have "map_of (entries h (x # y # vs)) k = map_of (entries h (y # vs)) k"
      "k \<in> fst ` set (entries h (x # y # vs)) \<longleftrightarrow> k \<in> fst ` set (entries h (y # vs))"
      using False by (cases "entry_of h x", simp add: entries_def)+
    ultimately show ?thesis unfolding at using False by simp
  qed
qed


lemma plist_clear_loop_ring:
  assumes "ring h (us @ x # vs)" and "root = hd (us @ [x])"
  shows "plist_clear_loop x root (h |` (- set us)) = Some (NULL, h |` (- set (us @ x # vs)))"
  using assms
proof (induction vs arbitrary: us x)
  case base: (Nil us x)
  obtain c where c: "h x = Some c" "x \<noteq> NULL" "pn_next c = hd (us @ [x])"
    using ring_at [OF base(1)] by auto
  have "x \<notin> set us" using base(1) by (simp add: ring_def)
  then show ?case using c base(2)
    by (subst plist_clear_loop.simps) (auto simp: Let_def restrict_map_def fun_eq_iff)
next
  case step: (Cons y vs us x)
  obtain c where c: "h x = Some c" "x \<noteq> NULL" "pn_next c = y"
    using ring_at [OF step(2)] by auto
  have x: "x \<notin> set us" using step(2) by (simp add: ring_def)
  have "y \<noteq> root" using ring_hd_eq [OF step(2)] step(3) by simp
  have upd: "(h |` (- set us))(x := None) = h |` (- set (us @ [x]))"
    by (auto simp: restrict_map_def fun_eq_iff)
  have "hd (us @ [x]) = hd ((us @ [x]) @ [y])" by (cases us) auto
  then have "plist_clear_loop y root (h |` (- set (us @ [x]))) =
      Some (NULL, h |` (- set ((us @ [x]) @ y # vs)))"
    using step(2,3) by (intro step(1)) auto
  then show ?case using c x \<open>y \<noteq> root\<close> upd
    by (subst plist_clear_loop.simps) (simp add: Let_def)
qed

subsection \<open>The operations on the sequence of entries\<close>

type_synonym plist_state = "ptr \<times> plist_heap"

definition plist_rep :: "plist_state \<Rightarrow> (ptr \<times> ptr) list \<Rightarrow> bool" where
  "plist_rep s es \<longleftrightarrow> (\<exists>xs. plist_at (snd s) (fst s) xs \<and> entries (snd s) xs = es)"

lemma plist_at_empty [simp]: "plist_at h root [] \<longleftrightarrow> root = NULL"
  by (simp add: plist_at_def ring_def)

lemma plist_at_root: "plist_at h root (x # xs) \<Longrightarrow> root = x \<and> ring h ([] @ x # xs)"
  by (simp add: plist_at_def)

lemma plist_contains_at:
  assumes "plist_at h root xs"
  shows "plist_contains k root h =
    Some (case map_of (entries h xs) k of None \<Rightarrow> (0, None) | Some v \<Rightarrow> (1, Some v))"
proof (cases xs)
  case Nil
  then show ?thesis using assms
    by (simp add: plist_contains_def plist_contains_loop.simps [of k NULL] entries_def)
next
  case (Cons x vs)
  then show ?thesis using plist_at_root [of h root x vs] assms
      plist_contains_loop_ring [of h "[]" x vs root k]
    by (simp add: plist_contains_def)
qed

lemma plist_walk_at:
  assumes "plist_at h root xs"
  shows "plist_walk root f a h = Some (walk_entries f (entries h xs) a)"
proof (cases xs)
  case Nil
  then show ?thesis using assms
    by (simp add: plist_walk_def plist_walk_loop.simps [of NULL] entries_def)
next
  case (Cons x vs)
  then show ?thesis using plist_at_root [of h root x vs] assms plist_walk_loop_ring [of h "[]" x vs root f a]
    by (simp add: plist_walk_def)
qed

lemma plist_remove_at:
  assumes "plist_at h root xs"
  shows "\<exists>root' h' xs'. plist_remove k root h =
      Some (if k \<in> fst ` set (entries h xs) then 1 else 0, map_of (entries h xs) k, root', h') \<and>
    plist_at h' root' xs' \<and> set xs' \<subseteq> set xs \<and> entries h' xs' = del_first k (entries h xs) \<and>
    (\<forall>a. a \<notin> set xs \<longrightarrow> h' a = h a)"
proof (cases xs)
  case Nil
  then show ?thesis using assms
    by (simp add: plist_remove_def plist_remove_loop.simps [of k NULL] entries_def)
next
  case (Cons x vs)
  then show ?thesis using plist_at_root [of h root x vs] assms
      plist_remove_loop_ring [of h "[]" x vs root k]
    by (simp add: plist_remove_def entries_def)
qed

lemma restrict_map_UNIV [simp]: "h |` UNIV = h"
  by (simp add: restrict_map_def)

lemma plist_clear_at:
  assumes "plist_at h root xs"
  shows "plist_clear root h = Some (NULL, h |` (- set xs))"
proof (cases xs)
  case Nil
  then show ?thesis using assms by (simp add: plist_clear_def plist_clear_loop.simps [of NULL])
next
  case (Cons x vs)
  then show ?thesis using plist_at_root [of h root x vs] assms plist_clear_loop_ring [of h "[]" x vs root]
    by (simp add: plist_clear_def)
qed

lemma plist_clear_open_list:
  assumes "h x = Some c" and "x \<noteq> NULL" and "pn_next c = NULL"
  shows "plist_clear x h = Some (x, h(x := None))"
  using assms
  by (simp add: plist_clear_def plist_clear_loop.simps [of x] plist_clear_loop.simps [of NULL] Let_def)

subsection \<open>The contract of a keyed list\<close>

text \<open>
  What the dictionary relies on when it keeps the listeners of an entry, and the
  persistent listeners, in such a list: lookup, insertion at the end and removal of the
  first entry with a key, as operations on the sequence of entries.
\<close>

locale keyed_list =
  fixes rep :: "'s \<Rightarrow> (ptr \<times> ptr) list \<Rightarrow> bool"
    and fresh :: "ptr \<Rightarrow> 's \<Rightarrow> bool"
    and add :: "ptr \<Rightarrow> ptr \<Rightarrow> ptr \<Rightarrow> 's \<Rightarrow> (int \<times> 's) option"
    and remove :: "ptr \<Rightarrow> 's \<Rightarrow> (int \<times> ptr option \<times> 's) option"
    and contains :: "ptr \<Rightarrow> 's \<Rightarrow> (int \<times> ptr option) option"
  assumes add_rep: "rep s es \<Longrightarrow> fresh n s \<Longrightarrow> \<exists>s'. add n k v s = Some (1, s') \<and> rep s' (es @ [(k, v)])"
    and remove_rep: "rep s es \<Longrightarrow> \<exists>s'. remove k s =
      Some (if k \<in> fst ` set es then 1 else 0, map_of es k, s') \<and> rep s' (del_first k es)"
    and contains_rep: "rep s es \<Longrightarrow>
      contains k s = Some (case map_of es k of None \<Rightarrow> (0, None) | Some v \<Rightarrow> (1, Some v))"
begin

lemma add_contains:
  assumes "rep s es" and "fresh n s"
  shows "\<exists>s'. add n k v s = Some (1, s') \<and>
    contains j s' = (if j = k \<and> map_of es k = None then Some (1, Some v) else contains j s)"
proof -
  obtain s' where s': "add n k v s = Some (1, s')" "rep s' (es @ [(k, v)])"
    using add_rep [OF assms] by blast
  then show ?thesis using contains_rep [OF s'(2), of j] contains_rep [OF assms(1), of j]
    by (auto simp: map_add_def split: option.splits)
qed

lemma add_remove_restores:
  assumes "rep s es" and "fresh n s" and "map_of es k = None"
  shows "\<exists>s' s''. add n k v s = Some (1, s') \<and> remove k s' = Some (1, Some v, s'') \<and> rep s'' es"
proof -
  obtain s' where s': "add n k v s = Some (1, s')" "rep s' (es @ [(k, v)])"
    using add_rep [OF assms(1,2)] by blast
  have "k \<notin> fst ` set es" using assms(3) by (simp add: map_of_eq_None_iff)
  then have "del_first k (es @ [(k, v)]) = es" by (simp add: del_first_append)
  with s' remove_rep [OF s'(2), of k] assms(3) show ?thesis by (auto simp: map_add_def)
qed

end

definition plist_add_st :: "ptr \<Rightarrow> ptr \<Rightarrow> ptr \<Rightarrow> plist_state \<Rightarrow> (int \<times> plist_state) option" where
  "plist_add_st n k v s = plist_add n k v (fst s) (snd s)"

definition plist_remove_st :: "ptr \<Rightarrow> plist_state \<Rightarrow> (int \<times> ptr option \<times> plist_state) option" where
  "plist_remove_st k s = plist_remove k (fst s) (snd s)"

definition plist_contains_st :: "ptr \<Rightarrow> plist_state \<Rightarrow> (int \<times> ptr option) option" where
  "plist_contains_st k s = plist_contains k (fst s) (snd s)"

lemmas plist_st_defs = plist_add_st_def plist_remove_st_def plist_contains_st_def plist_rep_def

interpretation pl: keyed_list plist_rep "\<lambda>n s. n \<notin> dom (snd s) \<and> n \<noteq> NULL"
    plist_add_st plist_remove_st plist_contains_st
proof unfold_locales
  fix s :: plist_state and es n k v
  assume rep: "plist_rep s es" and fresh: "n \<notin> dom (snd s) \<and> n \<noteq> NULL"
  then obtain xs where at: "plist_at (snd s) (fst s) xs" and es: "entries (snd s) xs = es"
    by (auto simp: plist_rep_def)
  obtain r h' where "plist_add n k v (fst s) (snd s) = Some (1, r, h')" "plist_at h' r (xs @ [n])"
      "entries h' (xs @ [n]) = es @ [(k, v)]"
    using plist_add_ring [OF at, of n k v] fresh es by blast
  then show "\<exists>s'. plist_add_st n k v s = Some (1, s') \<and> plist_rep s' (es @ [(k, v)])"
    unfolding plist_st_defs by (intro exI [of _ "(r, h')"]) (auto simp del: plist_at_empty)
next
  fix s :: plist_state and es k
  assume "plist_rep s es"
  then obtain xs where at: "plist_at (snd s) (fst s) xs" and es: "entries (snd s) xs = es"
    by (auto simp: plist_rep_def)
  show "plist_contains_st k s = Some (case map_of es k of None \<Rightarrow> (0, None) | Some v \<Rightarrow> (1, Some v))"
    using plist_contains_at [OF at, of k] es by (simp add: plist_contains_st_def)
  obtain r h' xs' where "plist_remove k (fst s) (snd s) =
      Some (if k \<in> fst ` set es then 1 else 0, map_of es k, r, h')" "plist_at h' r xs'"
      "entries h' xs' = del_first k es"
    using plist_remove_at [OF at, of k] unfolding es by blast
  then show "\<exists>s'. plist_remove_st k s = Some (if k \<in> fst ` set es then 1 else 0, map_of es k, s') \<and>
      plist_rep s' (del_first k es)"
    unfolding plist_st_defs by (intro exI [of _ "(r, h')"]) (auto simp del: plist_at_empty)
qed

subsection \<open>Properties\<close>

text \<open>On a well-formed circular list (or the empty one) \<^verbatim>\<open>plist_add\<close> with a fresh
  node appends the pair, leaves a well-formed list and touches nothing else, and a
  lookup in the new list finds the new pair unless the key was listed before;
  \<^verbatim>\<open>plist_remove\<close> of a key that was not listed before the insertion undoes it.\<close>

theorem plist_add_contains_remove:
  assumes "plist_rep (root, h) es" and "n \<notin> dom h" and "n \<noteq> NULL"
  shows "\<exists>root' h'. plist_add n k v root h = Some (1, root', h') \<and>
    plist_rep (root', h') (es @ [(k, v)]) \<and>
    plist_contains j root' h' =
      (if j = k \<and> map_of es k = None then Some (1, Some v) else plist_contains j root h) \<and>
    (map_of es k = None \<longrightarrow> (\<exists>root'' h''. plist_remove k root' h' = Some (1, Some v, root'', h'') \<and>
       plist_rep (root'', h'') es))"
proof -
  have fr: "n \<notin> dom (snd (root, h)) \<and> n \<noteq> NULL" using assms by simp
  obtain s' where s': "plist_add_st n k v (root, h) = Some (1, s')" "plist_rep s' (es @ [(k, v)])"
    using pl.add_rep [OF assms(1) fr] by blast
  then show ?thesis
    using pl.add_contains [OF assms(1) fr, of k v j] pl.add_remove_restores [OF assms(1) fr, of k v]
    by (cases s') (auto simp: plist_add_st_def plist_remove_st_def plist_contains_st_def)
qed

definition one_node :: plist_heap where
  "one_node = [3 \<mapsto> \<lparr>pn_key = 7, pn_value = 8, pn_next = 3, pn_prev = 3\<rparr>]"

theorem plist_add_contains_remove_witness:
  "\<exists>root' h'. plist_add 5 77 88 3 one_node = Some (1, root', h') \<and>
    plist_rep (root', h') [(7, 8), (77, 88)] \<and> plist_contains 77 root' h' = Some (1, Some 88) \<and>
    (\<exists>root'' h''. plist_remove 77 root' h' = Some (1, Some 88, root'', h'') \<and>
       plist_rep (root'', h'') [(7, 8)])"
proof -
  have "plist_rep (3, one_node) [(7, 8)]"
    by (simp add: plist_rep_def plist_at_def ring_def entries_def entry_of_def one_node_def NULL_def
        exI [of _ "[3]"])
  moreover have "(5 :: ptr) \<notin> dom one_node" "(5 :: ptr) \<noteq> NULL" by (simp_all add: one_node_def NULL_def)
  ultimately show ?thesis using plist_add_contains_remove [of 3 one_node "[(7, 8)]" 5 77 88 77] by simp
qed

text \<open>\<^verbatim>\<open>plist_remove\<close> takes out exactly the first entry with the key, hands its
  value out, keeps the list well formed (the root moves on when the first node goes),
  frees no node of another list, and reports 0 without a change when the key is not
  listed; \<^verbatim>\<open>plist_walk\<close> visits the entries in order until the callback returns 0;
  \<^verbatim>\<open>plist_clear\<close> frees exactly the nodes of the list and clears the root.\<close>

theorem plist_remove_walk_clear:
  assumes "plist_at h root xs"
  shows "(\<exists>root' h' xs'. plist_remove k root h =
      Some (if k \<in> fst ` set (entries h xs) then 1 else 0, map_of (entries h xs) k, root', h') \<and>
    plist_at h' root' xs' \<and> set xs' \<subseteq> set xs \<and> entries h' xs' = del_first k (entries h xs) \<and>
    (\<forall>a. a \<notin> set xs \<longrightarrow> h' a = h a)) \<and>
    plist_walk root f a h = Some (walk_entries f (entries h xs) a) \<and>
    plist_clear root h = Some (NULL, h |` (- set xs))"
  by (intro conjI plist_remove_at [OF assms] plist_walk_at [OF assms] plist_clear_at [OF assms])

definition two_nodes :: plist_heap where
  "two_nodes = [3 \<mapsto> \<lparr>pn_key = 7, pn_value = 8, pn_next = 4, pn_prev = 4\<rparr>,
                4 \<mapsto> \<lparr>pn_key = 9, pn_value = 6, pn_next = 3, pn_prev = 3\<rparr>]"

theorem plist_remove_walk_clear_witness:
  "(\<exists>root' h' xs'. plist_remove 7 3 two_nodes =
      Some (if 7 \<in> fst ` set (entries two_nodes [3, 4]) then 1 else 0, map_of (entries two_nodes [3, 4]) 7, root', h') \<and>
    plist_at h' root' xs' \<and> set xs' \<subseteq> set [3, 4] \<and> entries h' xs' = del_first 7 (entries two_nodes [3, 4]) \<and>
    (\<forall>a. a \<notin> set [3, 4] \<longrightarrow> h' a = two_nodes a)) \<and>
    plist_walk 3 (\<lambda>k v n. (1, n + k)) 0 two_nodes =
      Some (walk_entries (\<lambda>k v n. (1, n + k)) (entries two_nodes [3, 4]) 0) \<and>
    plist_clear 3 two_nodes = Some (NULL, two_nodes |` (- set [3, 4]))"
  by (rule plist_remove_walk_clear) (simp add: plist_at_def ring_def two_nodes_def NULL_def)

end
