(* ===== verification/Ptree.thy ===== *)
theory Ptree
  imports Clist "HOL-Library.Tree"
begin

text \<open>
  The binary search tree with parent pointers of \<^verbatim>\<open>utils/ptree.c\<close>, on a heap of nodes.
  A node pointer that the code takes the address of (\<^verbatim>\<open>&node->pn_left\<close>,
  \<^verbatim>\<open>&node->pn_right\<close>, or the caller's variable) is a location.  The loops and the
  recursive walk are partial functions: a defined result says that they end and that no
  pointer outside the heap is followed.  Walk callbacks take and return the heap, so a
  callback may free or unlink the node it visits.
\<close>

subsection \<open>Nodes, locations\<close>

record 'v ptree_node =
  pt_value :: 'v
  pt_parent :: ptr
  pt_left :: ptr
  pt_right :: ptr

type_synonym 'v ptree_heap = "ptr \<rightharpoonup> 'v ptree_node"

datatype loc = Var | LeftOf ptr | RightOf ptr

definition read_loc :: "'v ptree_heap \<Rightarrow> ptr \<Rightarrow> loc \<Rightarrow> ptr option" where
  "read_loc h var l = (case l of
     Var \<Rightarrow> Some var
   | LeftOf a \<Rightarrow> map_option pt_left (h a)
   | RightOf a \<Rightarrow> map_option pt_right (h a))"

definition write_loc :: "loc \<Rightarrow> ptr \<Rightarrow> ptr \<times> 'v ptree_heap \<Rightarrow> (ptr \<times> 'v ptree_heap) option" where
  "write_loc l b s = (case s of (var, h) \<Rightarrow> (case l of
     Var \<Rightarrow> Some (b, h)
   | LeftOf a \<Rightarrow> (case h a of None \<Rightarrow> None | Some n \<Rightarrow> Some (var, h(a \<mapsto> n\<lparr>pt_left := b\<rparr>)))
   | RightOf a \<Rightarrow> (case h a of None \<Rightarrow> None | Some n \<Rightarrow> Some (var, h(a \<mapsto> n\<lparr>pt_right := b\<rparr>)))))"

definition set_parent :: "ptr \<Rightarrow> ptr \<Rightarrow> 'v ptree_heap \<Rightarrow> 'v ptree_heap option" where
  "set_parent a p h = (case h a of None \<Rightarrow> None | Some n \<Rightarrow> Some (h(a \<mapsto> n\<lparr>pt_parent := p\<rparr>)))"

subsection \<open>Operations\<close>

text \<open>\<^verbatim>\<open>static int _walk_to(void *v, struct ptree_node **startp, struct ptree_node ***pp, cmp)\<close>:
  the last comparison, \<^verbatim>\<open>*startp\<close> and \<^verbatim>\<open>*pp\<close> at the end.\<close>

partial_function (option) walk_to_loop ::
    "('v \<Rightarrow> 'v \<Rightarrow> int) \<Rightarrow> 'v \<Rightarrow> 'v ptree_heap \<Rightarrow> loc \<Rightarrow> ptr \<Rightarrow> loc \<Rightarrow> int \<Rightarrow> (int \<times> ptr \<times> loc) option" where
  "walk_to_loop cmp v h nextp start pp c = do {
     nx \<leftarrow> read_loc h start nextp;
     if nx = NULL then Some (c, start, pp)
     else do {
       n \<leftarrow> h nx;
       let c = cmp v (pt_value n);
       let nextp = (if c < 0 then LeftOf nx else RightOf nx);
       if c = 0 then Some (c, nx, pp)
       else walk_to_loop cmp v h nextp nx nextp c } }"

definition walk_to ::
    "('v \<Rightarrow> 'v \<Rightarrow> int) \<Rightarrow> 'v \<Rightarrow> 'v ptree_heap \<Rightarrow> ptr \<Rightarrow> loc \<Rightarrow> (int \<times> ptr \<times> loc) option" where
  "walk_to cmp v h start pp = walk_to_loop cmp v h Var start pp (- 1)"

text \<open>\<^verbatim>\<open>_find_min\<close> and \<^verbatim>\<open>_find_succ\<close>, with the level they keep.\<close>

partial_function (option) find_min :: "'v ptree_heap \<Rightarrow> ptr \<Rightarrow> int \<Rightarrow> (ptr \<times> int) option" where
  "find_min h pn level = do {
     n \<leftarrow> h pn;
     if pt_left n \<noteq> NULL then find_min h (pt_left n) (level + 1) else Some (pn, level) }"

partial_function (option) find_succ_up :: "'v ptree_heap \<Rightarrow> ptr \<Rightarrow> int \<Rightarrow> (ptr \<times> int) option" where
  "find_succ_up h pn level = do {
     n \<leftarrow> h pn;
     if pt_parent n = NULL then Some (NULL, level - 1)
     else do {
       q \<leftarrow> h (pt_parent n);
       if pt_right q = pn then find_succ_up h (pt_parent n) (level - 1)
       else Some (pt_parent n, level - 1) } }"

definition find_succ :: "'v ptree_heap \<Rightarrow> ptr \<Rightarrow> int \<Rightarrow> (ptr \<times> int) option" where
  "find_succ h pn level = do {
     n \<leftarrow> h pn;
     if pt_right n \<noteq> NULL then find_min h (pt_right n) (level + 1) else find_succ_up h pn level }"

text \<open>\<^verbatim>\<open>_walk_int\<close>: the successor is computed before the callback runs.\<close>

datatype walk_res = PTREE_WALK_CONTINUE | PTREE_WALK_STOP

datatype ptree_order = PTREE_PREORDER | PTREE_INORDER | PTREE_POSTORDER

type_synonym ('v, 'a) walk_func =
  "ptr \<Rightarrow> int \<Rightarrow> 'v ptree_heap \<times> 'a \<Rightarrow> (walk_res \<times> 'v ptree_heap \<times> 'a) option"

partial_function (option) walk_inorder ::
    "('v, 'a) walk_func \<Rightarrow> ptr \<Rightarrow> int \<Rightarrow> 'v ptree_heap \<times> 'a \<Rightarrow> (walk_res \<times> 'v ptree_heap \<times> 'a) option" where
  "walk_inorder func pn level s =
     (if pn = NULL then Some (PTREE_WALK_CONTINUE, s)
      else do {
        (nx, nlevel) \<leftarrow> find_succ (fst s) pn level;
        (res, s) \<leftarrow> func pn level s;
        if res \<noteq> PTREE_WALK_CONTINUE then Some (res, s)
        else walk_inorder func nx (if nlevel < 0 then 0 else nlevel) s })"

partial_function (option) walk_int ::
    "('v, 'a) walk_func \<Rightarrow> ptree_order \<Rightarrow> ptr \<Rightarrow> int \<Rightarrow> 'v ptree_heap \<times> 'a \<Rightarrow>
     (walk_res \<times> 'v ptree_heap \<times> 'a) option" where
  "walk_int func order pn level s =
     (if pn = NULL then Some (PTREE_WALK_CONTINUE, s)
      else if order = PTREE_INORDER then do {
        (pn, level) \<leftarrow> find_min (fst s) pn level;
        walk_inorder func pn level s }
      else do {
        (res, s) \<leftarrow> (if order = PTREE_PREORDER then func pn level s else Some (PTREE_WALK_CONTINUE, s));
        if res \<noteq> PTREE_WALK_CONTINUE then Some (res, s)
        else do {
          n \<leftarrow> fst s pn;
          (res, s) \<leftarrow> walk_int func order (pt_left n) (level + 1) s;
          if res \<noteq> PTREE_WALK_CONTINUE then Some (res, s)
          else do {
            n \<leftarrow> fst s pn;
            (res, s) \<leftarrow> walk_int func order (pt_right n) (level + 1) s;
            if res \<noteq> PTREE_WALK_CONTINUE then Some (res, s)
            else if order = PTREE_POSTORDER then func pn level s
            else Some (PTREE_WALK_CONTINUE, s) } } })"

text \<open>\<^verbatim>\<open>_remove_node\<close>: where the node hangs (\<open>pp\<close>), the rightmost node of the left
  subtree, the three cases, and the removed value.\<close>

definition node_loc :: "ptr \<Rightarrow> 'v ptree_heap \<Rightarrow> ptr \<Rightarrow> loc option" where
  "node_loc root h pn = do {
     n \<leftarrow> h pn;
     if pt_parent n = NULL then (if pn = root then Some Var else None)
     else do {
       q \<leftarrow> h (pt_parent n);
       Some (if pt_left q = pn then LeftOf (pt_parent n) else RightOf (pt_parent n)) } }"

partial_function (option) find_pred :: "'v ptree_heap \<Rightarrow> ptr \<Rightarrow> ptr option" where
  "find_pred h pn = do {
     n \<leftarrow> h pn;
     if pt_right n \<noteq> NULL then find_pred h (pt_right n) else Some pn }"

text \<open>Lines 246--257: at most one child.\<close>

definition remove_simple :: "loc \<Rightarrow> ptr \<Rightarrow> ptr \<Rightarrow> ptr \<times> 'v ptree_heap \<Rightarrow> (ptr \<times> 'v ptree_heap) option" where
  "remove_simple pp child parent s = do {
     (root, h) \<leftarrow> write_loc pp child s;
     if child \<noteq> NULL then map_option (Pair root) (set_parent child parent h) else Some (root, h) }"

text \<open>Lines 260--284: two children; the predecessor takes the node's place.\<close>

definition remove_double :: "loc \<Rightarrow> ptr \<Rightarrow> ptr \<times> 'v ptree_heap \<Rightarrow> (ptr \<times> 'v ptree_heap) option" where
  "remove_double pp pn s = do {
     n \<leftarrow> snd s pn;
     pred \<leftarrow> find_pred (snd s) (pt_left n);
     m \<leftarrow> snd s pred;
     q \<leftarrow> snd s (pt_parent m);
     (root, h) \<leftarrow> remove_simple
       (if pt_left q = pred then LeftOf (pt_parent m) else RightOf (pt_parent m)) (pt_left m) (pt_parent m) s;
     (root, h) \<leftarrow> write_loc pp pred (root, h);
     n \<leftarrow> h pn;
     m \<leftarrow> h pred;
     let h = h(pred \<mapsto> m\<lparr>pt_parent := pt_parent n, pt_left := pt_left n, pt_right := pt_right n\<rparr>);
     h \<leftarrow> (if pt_left n \<noteq> NULL then set_parent (pt_left n) pred h else Some h);
     h \<leftarrow> set_parent (pt_right n) pred h;
     Some (root, h) }"

definition remove_node ::
    "ptr \<Rightarrow> ptr \<Rightarrow> 'v ptree_heap \<Rightarrow> ('v \<times> ptr \<times> 'v ptree_heap) option" where
  "remove_node root pn h = do {
     pp \<leftarrow> node_loc root h pn;
     n \<leftarrow> h pn;
     (root, h) \<leftarrow>
       (if pt_left n = NULL then remove_simple pp (pt_right n) (pt_parent n) (root, h)
        else if pt_right n = NULL then remove_simple pp (pt_left n) (pt_parent n) (root, h)
        else remove_double pp pn (root, h));
     n \<leftarrow> h pn;
     Some (pt_value n, root, h(pn := None)) }"

text \<open>\<^verbatim>\<open>ptree_inorder_walk_remove\<close>, \<^verbatim>\<open>ptree_walk\<close>, \<^verbatim>\<open>ptree_clear\<close>\<close>

definition ptree_inorder_walk_remove ::
    "ptr \<Rightarrow> ptr \<Rightarrow> 'v ptree_heap \<Rightarrow> (int \<times> 'v \<times> ptr \<times> 'v ptree_heap) option" where
  "ptree_inorder_walk_remove root pn h =
     (if pn = NULL then None else map_option (Pair 1) (remove_node root pn h))"

definition visit ::
    "('v \<Rightarrow> int \<Rightarrow> ptr \<Rightarrow> 'v ptree_heap \<times> 'a \<Rightarrow> (walk_res \<times> 'v ptree_heap \<times> 'a) option) \<Rightarrow> ('v, 'a) walk_func" where
  "visit func pn level s = (case fst s pn of None \<Rightarrow> None | Some n \<Rightarrow> func (pt_value n) level pn s)"

definition ptree_walk ::
    "ptr \<Rightarrow> ptree_order \<Rightarrow> ('v \<Rightarrow> int \<Rightarrow> ptr \<Rightarrow> 'v ptree_heap \<times> 'a \<Rightarrow> (walk_res \<times> 'v ptree_heap \<times> 'a) option) \<Rightarrow>
     'v ptree_heap \<times> 'a \<Rightarrow> (walk_res \<times> 'v ptree_heap \<times> 'a) option" where
  "ptree_walk start order func s = walk_int (visit func) order start 0 s"

definition ptree_clear_func :: "('v, unit) walk_func" where
  "ptree_clear_func pn level s =
     (if pn \<in> dom (fst s) then Some (PTREE_WALK_CONTINUE, (fst s)(pn := None), ()) else None)"

definition ptree_clear :: "ptr \<Rightarrow> 'v ptree_heap \<Rightarrow> (ptr \<times> 'v ptree_heap) option" where
  "ptree_clear root h = do {
     (res, h, u) \<leftarrow> walk_int ptree_clear_func PTREE_POSTORDER root 0 (h, ());
     Some (NULL, h) }"

text \<open>\<^verbatim>\<open>ptree_remove\<close>: the return value, \<^verbatim>\<open>*oldval\<close> when it is written, the root
  and the heap.\<close>

definition ptree_remove ::
    "('v \<Rightarrow> 'v \<Rightarrow> int) \<Rightarrow> 'v \<Rightarrow> ptr \<Rightarrow> 'v ptree_heap \<Rightarrow> (int \<times> 'v option \<times> ptr \<times> 'v ptree_heap) option" where
  "ptree_remove cmp v root h = do {
     (c, cur, pp) \<leftarrow> walk_to cmp v h root Var;
     if c \<noteq> 0 then Some (0, None, root, h)
     else do {
       (old, root, h) \<leftarrow> remove_node root cur h;
       Some (1, Some old, root, h) } }"

text \<open>\<^verbatim>\<open>ptree_replace\<close>; \<open>n\<close> is what \<^verbatim>\<open>malloc\<close> returns.  \<^verbatim>\<open>*oldval\<close> is
  \<open>Some None\<close> when it is set to the null pointer and \<open>None\<close> when it is not written.\<close>

definition ptree_replace ::
    "('v \<Rightarrow> 'v \<Rightarrow> int) \<Rightarrow> 'v \<Rightarrow> ptr \<Rightarrow> ptr \<Rightarrow> 'v ptree_heap \<Rightarrow>
     (int \<times> 'v option option \<times> ptr \<times> 'v ptree_heap) option" where
  "ptree_replace cmp v n root h = do {
     (c, parentp, parentpp) \<leftarrow> walk_to cmp v h root Var;
     if c = 0 then do {
       m \<leftarrow> h parentp;
       Some (1, Some (Some (pt_value m)), root, h(parentp \<mapsto> m\<lparr>pt_value := v\<rparr>)) }
     else if n = NULL then Some (0, None, root, h)
     else do {
       let h = h(n \<mapsto> \<lparr>pt_value = v, pt_parent = parentp, pt_left = NULL, pt_right = NULL\<rparr>);
       (root, h) \<leftarrow> write_loc parentpp n (root, h);
       Some (1, Some None, root, h) } }"

text \<open>\<^verbatim>\<open>ptree_contains\<close>: the return value and \<^verbatim>\<open>*nodeval\<close>.\<close>

definition ptree_contains ::
    "('v \<Rightarrow> 'v \<Rightarrow> int) \<Rightarrow> 'v \<Rightarrow> ptr \<Rightarrow> 'v ptree_heap \<Rightarrow> (int \<times> 'v option) option" where
  "ptree_contains cmp v parentp h = do {
     (c, cur, pp) \<leftarrow> walk_to cmp v h parentp Var;
     if c = 0 then do { n \<leftarrow> h cur; Some (1, Some (pt_value n)) }
     else Some (0, None) }"


subsection \<open>Trees in the heap, and trees with a hole\<close>

fun root_of :: "ptr tree \<Rightarrow> ptr" where
  "root_of Leaf = NULL"
| "root_of (Node l x r) = x"

text \<open>\<open>tree_at h p t\<close>: the heap holds the tree of addresses \<open>t\<close>, its root's parent is \<open>p\<close>.\<close>

fun tree_at :: "'v ptree_heap \<Rightarrow> ptr \<Rightarrow> ptr tree \<Rightarrow> bool" where
  "tree_at h p Leaf = True"
| "tree_at h p (Node l x r) =
     (x \<noteq> NULL \<and> (\<exists>n. h x = Some n \<and> pt_parent n = p \<and> pt_left n = root_of l \<and> pt_right n = root_of r) \<and>
      tree_at h x l \<and> tree_at h x r)"

text \<open>A tree with a hole: the nodes from the hole up, each with its other subtree.\<close>

datatype crumb = InLeft ptr "ptr tree" | InRight "ptr tree" ptr

fun crumb_node :: "crumb \<Rightarrow> ptr" where
  "crumb_node (InLeft x r) = x"
| "crumb_node (InRight l x) = x"

fun crumb_other :: "crumb \<Rightarrow> ptr tree" where
  "crumb_other (InLeft x r) = r"
| "crumb_other (InRight l x) = l"

fun plug1 :: "crumb \<Rightarrow> ptr tree \<Rightarrow> ptr tree" where
  "plug1 (InLeft x r) t = Node t x r"
| "plug1 (InRight l x) t = Node l x t"

fun plug :: "crumb list \<Rightarrow> ptr tree \<Rightarrow> ptr tree" where
  "plug [] t = t"
| "plug (k # c) t = plug c (plug1 k t)"

fun up :: "crumb list \<Rightarrow> ptr" where
  "up [] = NULL"
| "up (k # c) = crumb_node k"

fun loc_of :: "crumb list \<Rightarrow> loc" where
  "loc_of [] = Var"
| "loc_of (InLeft x r # c) = LeftOf x"
| "loc_of (InRight l x # c) = RightOf x"

fun lefts :: "crumb list \<Rightarrow> ptr list" where
  "lefts [] = []"
| "lefts (InLeft x r # c) = lefts c"
| "lefts (InRight l x # c) = lefts c @ inorder l @ [x]"

fun rights :: "crumb list \<Rightarrow> ptr list" where
  "rights [] = []"
| "rights (InLeft x r # c) = x # inorder r @ rights c"
| "rights (InRight l x # c) = rights c"

definition ctx_nodes :: "crumb list \<Rightarrow> ptr set" where
  "ctx_nodes c = set (lefts c) \<union> set (rights c)"

text \<open>\<open>ctx_at h root c a\<close>: the heap holds the context, with \<open>a\<close> in its hole.\<close>

fun ctx_at :: "'v ptree_heap \<Rightarrow> ptr \<Rightarrow> crumb list \<Rightarrow> ptr \<Rightarrow> bool" where
  "ctx_at h root [] a = (root = a)"
| "ctx_at h root (InLeft x r # c) a =
     (x \<noteq> NULL \<and> (\<exists>n. h x = Some n \<and> pt_parent n = up c \<and> pt_left n = a \<and> pt_right n = root_of r) \<and>
      tree_at h x r \<and> ctx_at h root c x)"
| "ctx_at h root (InRight l x # c) a =
     (x \<noteq> NULL \<and> (\<exists>n. h x = Some n \<and> pt_parent n = up c \<and> pt_left n = root_of l \<and> pt_right n = a) \<and>
      tree_at h x l \<and> ctx_at h root c x)"

definition ptree_at :: "'v ptree_heap \<Rightarrow> ptr \<Rightarrow> ptr tree \<Rightarrow> bool" where
  "ptree_at h root t \<longleftrightarrow> tree_at h NULL t \<and> root = root_of t \<and> distinct (inorder t)"

lemma inorder_plug: "inorder (plug c t) = lefts c @ inorder t @ rights c"
proof (induction c arbitrary: t)
  case (Cons k c)
  then show ?case by (cases k) auto
qed simp

lemma plug_append: "plug (c @ d) t = plug d (plug c t)"
  by (induction c arbitrary: t) auto

lemma lefts_append: "lefts (c @ d) = lefts d @ lefts c"
proof (induction c)
  case (Cons k c)
  then show ?case by (cases k) auto
qed simp

lemma rights_append: "rights (c @ d) = rights c @ rights d"
proof (induction c)
  case (Cons k c)
  then show ?case by (cases k) auto
qed simp

lemma tree_at_plug:
  "tree_at h NULL (plug c t) \<and> root = root_of (plug c t) \<longleftrightarrow>
   tree_at h (up c) t \<and> ctx_at h root c (root_of t)"
proof (induction c arbitrary: t)
  case (Cons k c)
  then show ?case by (cases k) auto
qed auto

lemma ptree_at_plug:
  "ptree_at h root (plug c t) \<longleftrightarrow>
   tree_at h (up c) t \<and> ctx_at h root c (root_of t) \<and> distinct (lefts c @ inorder t @ rights c)"
  using tree_at_plug [of h c t root] by (auto simp: ptree_at_def inorder_plug)

lemma tree_at_frame [simp]: "x \<notin> set_tree t \<Longrightarrow> tree_at (h(x := n)) p t = tree_at h p t"
  by (induction t arbitrary: p) auto

lemma ctx_nodes_simps [simp]:
  "ctx_nodes [] = {}"
  "ctx_nodes (InLeft x r # c) = insert x (set_tree r \<union> ctx_nodes c)"
  "ctx_nodes (InRight l x # c) = insert x (set_tree l \<union> ctx_nodes c)"
  by (auto simp: ctx_nodes_def)

lemma ctx_at_frame [simp]: "x \<notin> ctx_nodes c \<Longrightarrow> ctx_at (h(x := n)) root c a = ctx_at h root c a"
proof (induction c arbitrary: a)
  case (Cons k c)
  then show ?case by (cases k) (simp_all del: fun_upd_apply add: fun_upd_other)
qed simp

lemma tree_at_dom: "tree_at h p t \<Longrightarrow> x \<in> set_tree t \<Longrightarrow> x \<noteq> NULL \<and> x \<in> dom h"
  by (induction t arbitrary: p) auto

lemma root_of_in: "t \<noteq> Leaf \<Longrightarrow> root_of t \<in> set_tree t"
  by (cases t) auto

lemma root_of_NULL: "tree_at h p t \<Longrightarrow> root_of t = NULL \<longleftrightarrow> t = Leaf"
  by (cases t) auto

lemma up_in: "c \<noteq> [] \<Longrightarrow> up c \<in> ctx_nodes c"
proof (cases c)
  case (Cons k c')
  then show ?thesis by (cases k) auto
qed simp

lemma set_parent_tree:
  assumes "tree_at h p t" and "t \<noteq> Leaf" and "distinct (inorder t)"
  shows "\<exists>n. h (root_of t) = Some n \<and> set_parent (root_of t) q h = Some (h(root_of t \<mapsto> n\<lparr>pt_parent := q\<rparr>)) \<and>
    tree_at (h(root_of t \<mapsto> n\<lparr>pt_parent := q\<rparr>)) q t"
  using assms by (cases t) (auto simp: set_parent_def)

text \<open>Writing a child pointer replaces what is in the hole.\<close>

lemma write_loc_ctx:
  assumes "ctx_at h root c a" and "distinct (lefts c @ rights c)"
  shows "\<exists>root' h'. write_loc (loc_of c) b (root, h) = Some (root', h') \<and> ctx_at h' root' c b \<and>
    (\<forall>y. y \<noteq> up c \<longrightarrow> h' y = h y) \<and> (\<forall>y. map_option pt_value (h' y) = map_option pt_value (h y)) \<and>
    (c = [] \<longrightarrow> h' = h)"
proof (cases c)
  case Nil
  then show ?thesis by (simp add: write_loc_def)
next
  case (Cons k d)
  with assms show ?thesis
  proof (cases k)
    case (InLeft x r)
    with Cons assms obtain n where n: "h x = Some n" "pt_parent n = up d" "pt_right n = root_of r" by auto
    have "x \<notin> set_tree r" "x \<notin> ctx_nodes d" using assms Cons InLeft by (auto simp: ctx_nodes_def)
    with n Cons InLeft assms show ?thesis by (auto simp: write_loc_def)
  next
    case (InRight l x)
    with Cons assms obtain n where n: "h x = Some n" "pt_parent n = up d" "pt_left n = root_of l" by auto
    have "x \<notin> set_tree l" "x \<notin> ctx_nodes d" using assms Cons InRight by (auto simp: ctx_nodes_def)
    with n Cons InRight assms show ?thesis by (auto simp: write_loc_def)
  qed
qed

lemma zipper_of:
  assumes "x \<in> set_tree t"
  shows "\<exists>c l r. t = plug c (Node l x r)"
  using assms
proof (induction t)
  case (Node l y r)
  then consider "x = y" | "x \<in> set_tree l" | "x \<in> set_tree r" by auto
  then show ?case
  proof cases
    case 1
    then show ?thesis by (intro exI [of _ "[]"]) auto
  next
    case 2
    with Node obtain c l' r' where "l = plug c (Node l' x r')" by blast
    then have "Node l y r = plug (c @ [InLeft y r]) (Node l' x r')" by (simp add: plug_append)
    then show ?thesis by blast
  next
    case 3
    with Node obtain c l' r' where "r = plug c (Node l' x r')" by blast
    then have "Node l y r = plug (c @ [InRight l y]) (Node l' x r')" by (simp add: plug_append)
    then show ?thesis by blast
  qed
qed simp


subsection \<open>Searching\<close>

fun seek :: "(ptr \<Rightarrow> int) \<Rightarrow> crumb list \<Rightarrow> ptr tree \<Rightarrow> crumb list \<times> ptr tree" where
  "seek f c Leaf = (c, Leaf)"
| "seek f c (Node l x r) =
     (if f x = 0 then (c, Node l x r)
      else if f x < 0 then seek f (InLeft x r # c) l
      else seek f (InRight l x # c) r)"

definition val :: "'v ptree_heap \<Rightarrow> ptr \<Rightarrow> 'v" where
  "val h a = pt_value (the (h a))"

definition start_of :: "ptr \<Rightarrow> crumb list \<Rightarrow> ptr" where
  "start_of root c = (if c = [] then root else up c)"

lemma read_loc_ctx:
  "ctx_at h root c a \<Longrightarrow> read_loc h (start_of root c) (loc_of c) = Some a"
proof (cases c)
  case (Cons k d)
  then show "ctx_at h root c a \<Longrightarrow> ?thesis" by (cases k) (auto simp: read_loc_def)
qed (simp add: read_loc_def start_of_def)

lemma walk_to_loop_seek:
  assumes "ptree_at h root (plug c t)" and "k \<noteq> 0"
  shows "\<exists>k'. walk_to_loop cmp v h (loc_of c) (start_of root c) (loc_of c) k =
    Some (k', if snd (seek (\<lambda>x. cmp v (val h x)) c t) = Leaf then up (fst (seek (\<lambda>x. cmp v (val h x)) c t))
              else root_of (snd (seek (\<lambda>x. cmp v (val h x)) c t)),
          loc_of (fst (seek (\<lambda>x. cmp v (val h x)) c t))) \<and>
    (k' = 0 \<longleftrightarrow> snd (seek (\<lambda>x. cmp v (val h x)) c t) \<noteq> Leaf)"
  using assms
proof (induction t arbitrary: c k)
  case Leaf
  then have "ctx_at h root c NULL" by (simp add: ptree_at_plug)
  moreover from this have "start_of root c = up c" by (auto simp: start_of_def)
  ultimately show ?case using Leaf(2) read_loc_ctx [of h root c NULL]
    by (subst walk_to_loop.simps) simp
next
  case (Node l x r)
  from Node.prems have ctx: "ctx_at h root c x" and x: "x \<noteq> NULL"
    and "\<exists>n. h x = Some n" by (auto simp: ptree_at_plug)
  then obtain n where n: "h x = Some n" by blast
  have v: "val h x = pt_value n" using n by (simp add: val_def)
  have L: "ptree_at h root (plug (InLeft x r # c) l)" "ptree_at h root (plug (InRight l x # c) r)"
    using Node.prems by simp_all
  show ?case
  proof (cases "cmp v (val h x) = 0")
    case True
    then show ?thesis using read_loc_ctx [OF ctx] x n v
      by (subst walk_to_loop.simps) simp
  next
    case False
    show ?thesis
    proof (cases "cmp v (val h x) < 0")
      case True
      have "start_of root (InLeft x r # c) = x" by (simp add: start_of_def)
      then show ?thesis using True Node.IH(1) [OF L(1) False] read_loc_ctx [OF ctx] x n v
        by (subst walk_to_loop.simps) (auto simp: Let_def)
    next
      case nl: False
      have "start_of root (InRight l x # c) = x" by (simp add: start_of_def)
      then show ?thesis using False nl Node.IH(2) [OF L(2) False] read_loc_ctx [OF ctx] x n v
        by (subst walk_to_loop.simps) (auto simp: Let_def)
    qed
  qed
qed

lemma walk_to_seek:
  assumes "ptree_at h root t"
  shows "\<exists>k'. walk_to cmp v h root Var =
    Some (k', if snd (seek (\<lambda>x. cmp v (val h x)) [] t) = Leaf then up (fst (seek (\<lambda>x. cmp v (val h x)) [] t))
              else root_of (snd (seek (\<lambda>x. cmp v (val h x)) [] t)),
          loc_of (fst (seek (\<lambda>x. cmp v (val h x)) [] t))) \<and>
    (k' = 0 \<longleftrightarrow> snd (seek (\<lambda>x. cmp v (val h x)) [] t) \<noteq> Leaf)"
  using walk_to_loop_seek [of h root "[]" t "- 1" cmp v] assms
  by (simp add: walk_to_def start_of_def)

text \<open>Along a sequence the comparison with a key goes from positive to negative.\<close>

definition sign_sorted :: "('a \<Rightarrow> int) \<Rightarrow> 'a list \<Rightarrow> bool" where
  "sign_sorted f xs \<longleftrightarrow> sorted_wrt (\<lambda>x y. f x \<le> 0 \<longrightarrow> f y < 0) xs"

lemma sign_sorted_append:
  "sign_sorted f (xs @ ys) \<longleftrightarrow>
   sign_sorted f xs \<and> sign_sorted f ys \<and> (\<forall>x \<in> set xs. \<forall>y \<in> set ys. f x \<le> 0 \<longrightarrow> f y < 0)"
  by (simp add: sign_sorted_def sorted_wrt_append)

lemma sign_sorted_Cons:
  "sign_sorted f (x # xs) \<longleftrightarrow> (f x \<le> 0 \<longrightarrow> (\<forall>y \<in> set xs. f y < 0)) \<and> sign_sorted f xs"
  by (auto simp: sign_sorted_def)

lemma seek_spec:
  assumes "sign_sorted f (inorder (plug c t))"
    and "\<forall>x \<in> set (lefts c). f x > 0" and "\<forall>x \<in> set (rights c). f x < 0"
    and "seek f c t = (d, u)"
  shows "plug d u = plug c t \<and> (\<forall>x \<in> set (lefts d). f x > 0) \<and> (\<forall>x \<in> set (rights d). f x < 0) \<and>
    (u \<noteq> Leaf \<longrightarrow> f (root_of u) = 0)"
  using assms
proof (induction t arbitrary: c)
  case (Node l x r)
  note prems = Node.prems
  consider "f x = 0" | "f x < 0" | "f x > 0" by linarith
  then show ?case
  proof cases
    case 1
    then show ?thesis using prems by auto
  next
    case 2
    have "\<forall>y \<in> set (x # inorder r). f y < 0"
      using prems(1) 2 by (auto simp: inorder_plug sign_sorted_append sign_sorted_Cons)
    then show ?thesis using Node.IH(1) [of "InLeft x r # c"] prems 2 by (auto simp: inorder_plug)
  next
    case 3
    have "f y > 0" if "y \<in> set (inorder l)" for y
    proof -
      have "f y \<le> 0 \<longrightarrow> f x < 0"
        using prems(1) that by (auto simp: inorder_plug sign_sorted_append)
      with 3 show ?thesis by auto
    qed
    then show ?thesis using Node.IH(2) [of "InRight l x # c"] prems 3 by (auto simp: inorder_plug)
  qed
qed auto


subsection \<open>Unlinking a node\<close>

text \<open>The subtree that takes the place of a node with subtrees \<open>l\<close> and \<open>r\<close>.\<close>

fun split_max :: "ptr tree \<Rightarrow> ptr tree \<times> ptr" where
  "split_max Leaf = (Leaf, NULL)"
| "split_max (Node l x r) = (if r = Leaf then (l, x) else (case split_max r of (r', m) \<Rightarrow> (Node l x r', m)))"

definition join_trees :: "ptr tree \<Rightarrow> ptr tree \<Rightarrow> ptr tree" where
  "join_trees l r =
     (if l = Leaf then r else if r = Leaf then l
      else (case split_max l of (l', m) \<Rightarrow> Node l' m r))"

lemma inorder_split_max: "t \<noteq> Leaf \<Longrightarrow> split_max t = (t', m) \<Longrightarrow> inorder t = inorder t' @ [m]"
  by (induction t arbitrary: t') (auto split: if_splits prod.splits)

lemma inorder_join_trees: "inorder (join_trees l r) = inorder l @ inorder r"
  using inorder_split_max [of l] by (auto simp: join_trees_def split: prod.splits)

text \<open>The maximum sits in a context of right children only.\<close>

lemma split_max_plug:
  assumes "t \<noteq> Leaf"
  shows "\<exists>d pl m. t = plug d (Node pl m Leaf) \<and> rights d = [] \<and> split_max t = (plug d pl, m) \<and>
    (\<forall>k \<in> set d. \<exists>l x. k = InRight l x)"
  using assms
proof (induction t)
  case (Node l x r)
  show ?case
  proof (cases "r = Leaf")
    case True
    then show ?thesis by (intro exI [of _ "[]"]) simp
  next
    case False
    with Node obtain d pl m where d: "r = plug d (Node pl m Leaf)" "rights d = []"
      "split_max r = (plug d pl, m)" "\<forall>k \<in> set d. \<exists>l x. k = InRight l x" by blast
    have "rights (d @ [InRight l x]) = []"
      using d(4) by (induction d) auto
    then show ?thesis using d False
      by (intro exI [of _ "d @ [InRight l x]"]) (auto simp: plug_append)
  qed
qed simp

lemma find_pred_tree:
  assumes "tree_at h p t" and "t \<noteq> Leaf"
  shows "find_pred h (root_of t) = Some (snd (split_max t))"
  using assms
proof (induction t arbitrary: p)
  case (Node l x r)
  then obtain n where n: "h x = Some n" "pt_right n = root_of r" by auto
  show ?case
  proof (cases "r = Leaf")
    case True
    then show ?thesis using n by (subst find_pred.simps) simp
  next
    case False
    then have "root_of r \<noteq> NULL" using Node.prems by (auto simp: root_of_NULL)
    moreover have "find_pred h (root_of r) = Some (snd (split_max r))"
      using False Node.prems by (intro Node.IH(2)) auto
    ultimately show ?thesis using n False by (subst find_pred.simps) (auto split: prod.splits)
  qed
qed simp

lemma node_loc_ctx:
  assumes at: "ptree_at h root (plug c (Node l x r))"
  shows "node_loc root h x = Some (loc_of c)"
proof -
  obtain n where n: "h x = Some n" "pt_parent n = up c" using at by (auto simp: ptree_at_plug)
  have ctx: "ctx_at h root c x" and x: "x \<noteq> NULL" and x_ctx: "x \<notin> ctx_nodes c"
    and dist: "distinct (lefts c @ rights c)"
    using at by (auto simp: ptree_at_plug ctx_nodes_def)
  show ?thesis
  proof (cases c)
    case Nil
    then show ?thesis using n ctx by (simp add: node_loc_def)
  next
    case (Cons k d)
    show ?thesis
    proof (cases k)
      case (InLeft y s)
      then show ?thesis using Cons ctx n by (auto simp: node_loc_def)
    next
      case (InRight s y)
      have "root_of s \<noteq> x"
        using x_ctx x Cons InRight root_of_in [of s] by (cases "s = Leaf") auto
      then show ?thesis using Cons InRight ctx n by (auto simp: node_loc_def)
    qed
  qed
qed

lemma set_parent_value: "set_parent a p h = Some h' \<Longrightarrow> map_option pt_value (h' y) = map_option pt_value (h y)"
  by (auto simp: set_parent_def split: option.splits)

definition same_values :: "'v ptree_heap \<Rightarrow> 'v ptree_heap \<Rightarrow> bool" where
  "same_values h h' \<longleftrightarrow> (\<forall>y. map_option pt_value (h' y) = map_option pt_value (h y))"

lemma same_values_trans: "same_values h h1 \<Longrightarrow> same_values h1 h2 \<Longrightarrow> same_values h h2"
  by (simp add: same_values_def)

lemma same_values_upd:
  "h x = Some n \<Longrightarrow> pt_value m = pt_value n \<Longrightarrow> same_values h (h(x \<mapsto> m))"
  by (simp add: same_values_def)

text \<open>Putting a subtree into the hole and hanging it under the hole's parent.\<close>

lemma remove_simple_ctx:
  assumes ctx: "ctx_at h root c a" and t: "tree_at h p t"
    and dist: "distinct (lefts c @ inorder t @ rights c)"
  shows "\<exists>root' h'. remove_simple (loc_of c) (root_of t) (up c) (root, h) = Some (root', h') \<and>
    ctx_at h' root' c (root_of t) \<and> tree_at h' (up c) t \<and> same_values h h' \<and>
    (\<forall>y. y \<notin> ctx_nodes c \<and> y \<notin> set_tree t \<longrightarrow> h' y = h y)"
proof -
  have d2: "distinct (lefts c @ rights c)" using dist by auto
  obtain root1 h1 where h1: "write_loc (loc_of c) (root_of t) (root, h) = Some (root1, h1)"
    "ctx_at h1 root1 c (root_of t)" "\<forall>y. y \<noteq> up c \<longrightarrow> h1 y = h y" "same_values h h1" "c = [] \<longrightarrow> h1 = h"
    using write_loc_ctx [OF ctx d2, of "root_of t"] by (auto simp: same_values_def)
  have out: "h1 y = h y" if "y \<notin> ctx_nodes c" for y using h1(3,5) that up_in [of c] by metis
  show ?thesis
  proof (cases "t = Leaf")
    case True
    then show ?thesis using h1 out by (auto simp: remove_simple_def)
  next
    case False
    have ups: "c \<noteq> [] \<Longrightarrow> up c \<notin> set_tree t"
      using up_in [of c] dist by (auto simp: ctx_nodes_def)
    have t1: "tree_at h1 p t"
    proof (cases "c = []")
      case False
      have "h1 = h(up c := h1 (up c))" using h1(3) by auto
      then show ?thesis using t ups [OF False] tree_at_frame [of "up c" t h "h1 (up c)" p] by metis
    qed (use h1 t in simp)
    have "distinct (inorder t)" using dist by simp
    from set_parent_tree [OF t1 False this, of "up c"] obtain n where n: "h1 (root_of t) = Some n"
      "set_parent (root_of t) (up c) h1 = Some (h1(root_of t \<mapsto> n\<lparr>pt_parent := up c\<rparr>))"
      "tree_at (h1(root_of t \<mapsto> n\<lparr>pt_parent := up c\<rparr>)) (up c) t" by blast
    have "root_of t \<notin> ctx_nodes c" using dist root_of_in [OF False] by (auto simp: ctx_nodes_def)
    then have "ctx_at (h1(root_of t \<mapsto> n\<lparr>pt_parent := up c\<rparr>)) root1 c (root_of t)" using h1(2) by simp
    moreover have "root_of t \<noteq> NULL" using t False by (simp add: root_of_NULL)
    moreover have "same_values h (h1(root_of t \<mapsto> n\<lparr>pt_parent := up c\<rparr>))"
      using same_values_trans [OF h1(4) same_values_upd, of "root_of t" n] n(1) by simp
    ultimately show ?thesis using h1(1) out n root_of_in [OF False]
      by (intro exI [of _ root1] exI [of _ "h1(root_of t \<mapsto> n\<lparr>pt_parent := up c\<rparr>)"])
        (auto simp: remove_simple_def)
  qed
qed


lemma tree_at_cong:
  "(\<And>y. y \<in> set_tree t \<Longrightarrow> h' y = h y) \<Longrightarrow> tree_at h' p t = tree_at h p t"
  by (induction t arbitrary: p) auto

lemma ctx_at_cong:
  "(\<And>y. y \<in> ctx_nodes c \<Longrightarrow> h' y = h y) \<Longrightarrow> ctx_at h' root c a = ctx_at h root c a"
proof (induction c arbitrary: a)
  case (Cons k c)
  have "tree_at h' p (crumb_other k) = tree_at h p (crumb_other k)" for p
    by (rule tree_at_cong) (use Cons.prems in \<open>cases k; simp\<close>)
  with Cons show ?case by (cases k) auto
qed simp

lemma set_parent_if:
  assumes "tree_at h p t" and "distinct (inorder t)"
  shows "\<exists>h'. (if root_of t \<noteq> NULL then set_parent (root_of t) q h else Some h) = Some h' \<and>
    tree_at h' q t \<and> same_values h h' \<and> (\<forall>y. y \<notin> set_tree t \<longrightarrow> h' y = h y)"
proof (cases "t = Leaf")
  case False
  then obtain n where "h (root_of t) = Some n"
    "set_parent (root_of t) q h = Some (h(root_of t \<mapsto> n\<lparr>pt_parent := q\<rparr>))"
    "tree_at (h(root_of t \<mapsto> n\<lparr>pt_parent := q\<rparr>)) q t"
    using set_parent_tree [OF assms(1) False assms(2), of q] by blast
  moreover have "root_of t \<noteq> NULL" "root_of t \<in> set_tree t"
    using False assms root_of_in [OF False] by (simp_all add: root_of_NULL)
  ultimately show ?thesis
    by (intro exI [of _ "h(root_of t \<mapsto> n\<lparr>pt_parent := q\<rparr>)"]) (auto intro: same_values_upd)
qed (simp add: same_values_def)

text \<open>Lines 268--284: the predecessor \<open>m\<close>, already unlinked, takes the place of \<open>x\<close>.\<close>

lemma take_place:
  assumes at: "ptree_at h root (plug c (Node l x r))" and m: "h m = Some mm" "m \<noteq> NULL"
    and m_out: "m \<notin> set (inorder (plug c (Node l x r)))" and r: "r \<noteq> Leaf"
  shows "\<exists>root' h'. (do {
     (root, h) \<leftarrow> write_loc (loc_of c) m (root, h);
     n \<leftarrow> h x;
     mm \<leftarrow> h m;
     let h = h(m \<mapsto> mm\<lparr>pt_parent := pt_parent n, pt_left := pt_left n, pt_right := pt_right n\<rparr>);
     h \<leftarrow> (if pt_left n \<noteq> NULL then set_parent (pt_left n) m h else Some h);
     h \<leftarrow> set_parent (pt_right n) m h;
     Some (root, h) }) = Some (root', h') \<and>
    ptree_at (h'(x := None)) root' (plug c (Node l m r)) \<and> same_values h h' \<and>
    (\<forall>y. y \<noteq> m \<and> y \<notin> set (inorder (plug c (Node l x r))) \<longrightarrow> h' y = h y)"
proof -
  obtain n where n: "h x = Some n" "pt_parent n = up c" "pt_left n = root_of l" "pt_right n = root_of r"
    using at by (auto simp: ptree_at_plug)
  have t: "tree_at h x l" "tree_at h x r" and ctx: "ctx_at h root c x"
    and dist: "distinct (lefts c @ inorder l @ x # inorder r @ rights c)"
    using at by (auto simp: ptree_at_plug)
  have x: "x \<notin> ctx_nodes c" "x \<notin> set_tree l" "x \<notin> set_tree r" using dist by (auto simp: ctx_nodes_def)
  have mo: "m \<noteq> x" "m \<notin> ctx_nodes c" "m \<notin> set_tree l" "m \<notin> set_tree r"
    using m_out by (auto simp: inorder_plug ctx_nodes_def)
  have "distinct (lefts c @ rights c)" using dist by auto
  then obtain root1 h1 where h1: "write_loc (loc_of c) m (root, h) = Some (root1, h1)"
    "ctx_at h1 root1 c m" "\<forall>y. y \<noteq> up c \<longrightarrow> h1 y = h y" "same_values h h1" "c = [] \<longrightarrow> h1 = h"
    using write_loc_ctx [OF ctx, of m] by (auto simp: same_values_def)
  have out: "h1 y = h y" if "y \<notin> ctx_nodes c" for y
    using h1(3,5) that up_in [of c] by metis
  have disj: "set_tree l \<inter> ctx_nodes c = {}" "set_tree r \<inter> ctx_nodes c = {}" "set_tree l \<inter> set_tree r = {}"
    using dist by (auto simp: ctx_nodes_def)
  define h2 where "h2 = h1(m \<mapsto> mm\<lparr>pt_parent := up c, pt_left := root_of l, pt_right := root_of r\<rparr>)"
  have out2: "h2 y = h y" if "y \<notin> ctx_nodes c" "y \<noteq> m" for y using out that by (simp add: h2_def)
  have "tree_at h2 x l" using t(1) tree_at_cong [of l h2 h x] out2 disj mo by blast
  then obtain h3 where h3: "(if root_of l \<noteq> NULL then set_parent (root_of l) m h2 else Some h2) = Some h3"
    "tree_at h3 m l" "same_values h2 h3" "\<forall>y. y \<notin> set_tree l \<longrightarrow> h3 y = h2 y"
    using set_parent_if [of h2 x l m] dist by auto
  have "tree_at h3 x r" using t(2) tree_at_cong [of r h3 h x] h3(4) out2 disj mo by (metis disjoint_iff)
  then obtain h4 where h4: "(if root_of r \<noteq> NULL then set_parent (root_of r) m h3 else Some h3) = Some h4"
    "tree_at h4 m r" "same_values h3 h4" "\<forall>y. y \<notin> set_tree r \<longrightarrow> h4 y = h3 y"
    using set_parent_if [of h3 x r m] dist by auto
  have r0: "root_of r \<noteq> NULL" using r t by (simp add: root_of_NULL)
  have h12: "h1 x = Some n" "h1 m = Some mm" using out x mo n m by auto
  have eq: "(do {
     (root, h) \<leftarrow> write_loc (loc_of c) m (root, h);
     n \<leftarrow> h x;
     mm \<leftarrow> h m;
     let h = h(m \<mapsto> mm\<lparr>pt_parent := pt_parent n, pt_left := pt_left n, pt_right := pt_right n\<rparr>);
     h \<leftarrow> (if pt_left n \<noteq> NULL then set_parent (pt_left n) m h else Some h);
     h \<leftarrow> set_parent (pt_right n) m h;
     Some (root, h) }) = Some (root1, h4)"
    using h1(1) h12 n(2-4) h3(1) h4(1) r0 by (auto simp: h2_def Let_def split: if_splits)
  have l4: "tree_at h4 m l" using h3(2) tree_at_cong [of l h4 h3 m] h4(4) disj by (metis disjoint_iff)
  have m4: "h4 m = h2 m" using h3(4) h4(4) mo by simp
  have "ctx_at h2 root1 c m" using h1(2) mo by (simp add: h2_def)
  then have c4: "ctx_at h4 root1 c m"
    using ctx_at_cong [of c h4 h2] h3(4) h4(4) disj by (metis disjoint_iff)
  have "tree_at (h4(x := None)) (up c) (Node l m r)"
    using l4 h4(2) m4 m(2) mo x by (simp add: h2_def)
  moreover have "ctx_at (h4(x := None)) root1 c m" using c4 x by simp
  moreover have "distinct (lefts c @ inorder (Node l m r) @ rights c)"
    using dist mo by (auto simp: ctx_nodes_def)
  ultimately have "ptree_at (h4(x := None)) root1 (plug c (Node l m r))" by (simp add: ptree_at_plug)
  moreover have "same_values h h4"
  proof -
    have "same_values h1 h2" unfolding h2_def using h12(2) by (rule same_values_upd) simp
    then show ?thesis using h1(4) h3(3) h4(3) by (auto simp: same_values_def)
  qed
  moreover have "h4 y = h y" if "y \<noteq> m" "y \<notin> set (inorder (plug c (Node l x r)))" for y
    using that h4(4) h3(4) out2 by (auto simp: inorder_plug ctx_nodes_def)
  ultimately show ?thesis unfolding eq by blast
qed


lemma remove_double_plug:
  assumes at: "ptree_at h root (plug c (Node l x r))" and l: "l \<noteq> Leaf" and r: "r \<noteq> Leaf"
  shows "\<exists>root' h'. remove_double (loc_of c) x (root, h) = Some (root', h') \<and>
    ptree_at (h'(x := None)) root' (plug c (join_trees l r)) \<and> same_values h h' \<and>
    (\<forall>y. y \<notin> set (inorder (plug c (Node l x r))) \<longrightarrow> h' y = h y)"
proof -
  from split_max_plug [OF l] obtain d pl m where l_eq: "l = plug d (Node pl m Leaf)"
    and d: "rights d = []" and sm: "split_max l = (plug d pl, m)" by blast
  define e where "e = d @ InLeft x r # c"
  have whole: "plug c (Node l x r) = plug e (Node pl m Leaf)" by (simp add: e_def plug_append l_eq)
  have at_e: "ptree_at h root (plug e (Node pl m Leaf))" using at by (simp add: whole)
  have ue: "up e \<in> set (inorder (plug c (Node l x r)))"
    using up_in [of e] unfolding whole by (auto simp: inorder_plug ctx_nodes_def e_def)
  obtain n where n: "h x = Some n" "pt_left n = root_of l" using at by (auto simp: ptree_at_plug)
  obtain mm where mm: "h m = Some mm" "pt_parent mm = up e" "pt_left mm = root_of pl"
    using at_e by (auto simp: ptree_at_plug)
  have "tree_at h x l" using at by (auto simp: ptree_at_plug)
  then have pred: "find_pred h (root_of l) = Some m" using find_pred_tree l sm by fastforce
  have "up e \<noteq> NULL"
    using ue at tree_at_dom [of h NULL "plug c (Node l x r)" "up e"] by (auto simp: ptree_at_def)
  then obtain q where q: "h (up e) = Some q"
    "(if pt_left q = m then LeftOf (up e) else RightOf (up e)) = loc_of e"
    using node_loc_ctx [OF at_e] mm by (cases "h (up e)") (auto simp: node_loc_def split: if_splits)
  have dist: "distinct (lefts e @ inorder pl @ m # rights e)" using at_e by (simp add: ptree_at_plug)
  have "ctx_at h root e m" "tree_at h m pl" "distinct (lefts e @ inorder pl @ rights e)"
    using at_e dist by (auto simp: ptree_at_plug)
  from remove_simple_ctx [OF this] obtain root1 h1 where h1:
    "remove_simple (loc_of e) (root_of pl) (up e) (root, h) = Some (root1, h1)"
    "ctx_at h1 root1 e (root_of pl)" "tree_at h1 (up e) pl" "same_values h h1"
    "\<forall>y. y \<notin> ctx_nodes e \<and> y \<notin> set_tree pl \<longrightarrow> h1 y = h y" by blast
  have at1: "ptree_at h1 root1 (plug c (Node (plug d pl) x r))"
  proof -
    have "ptree_at h1 root1 (plug e pl)" using h1(2,3) dist by (auto simp: ptree_at_plug)
    then show ?thesis by (simp add: e_def plug_append)
  qed
  have in1: "set (inorder (plug c (Node l x r))) = insert m (set (inorder (plug c (Node (plug d pl) x r))))"
    by (auto simp: l_eq inorder_plug)
  have m_out: "m \<notin> set (inorder (plug c (Node (plug d pl) x r)))"
  proof -
    have "plug c (Node (plug d pl) x r) = plug e pl" by (simp add: e_def plug_append)
    then show ?thesis using dist by (auto simp: inorder_plug)
  qed
  have m1: "h1 m = Some mm" using h1(5) mm dist by (auto simp: ctx_nodes_def)
  have mnz: "m \<noteq> NULL" using at_e by (auto simp: ptree_at_plug)
  from take_place [OF at1 m1 mnz m_out r] obtain root2 h2 where h2:
    "(do {
     (root, h) \<leftarrow> write_loc (loc_of c) m (root1, h1);
     n \<leftarrow> h x;
     mm \<leftarrow> h m;
     let h = h(m \<mapsto> mm\<lparr>pt_parent := pt_parent n, pt_left := pt_left n, pt_right := pt_right n\<rparr>);
     h \<leftarrow> (if pt_left n \<noteq> NULL then set_parent (pt_left n) m h else Some h);
     h \<leftarrow> set_parent (pt_right n) m h;
     Some (root, h) }) = Some (root2, h2)"
    "ptree_at (h2(x := None)) root2 (plug c (Node (plug d pl) m r))" "same_values h1 h2"
    "\<forall>y. y \<noteq> m \<and> y \<notin> set (inorder (plug c (Node (plug d pl) x r))) \<longrightarrow> h2 y = h1 y" by blast
  have rs: "remove_simple (if pt_left q = m then LeftOf (pt_parent mm) else RightOf (pt_parent mm))
      (root_of pl) (up e) (root, h) = Some (root1, h1)" unfolding mm(2) q(2) by (rule h1(1))
  have "remove_double (loc_of c) x (root, h) = Some (root2, h2)"
    unfolding remove_double_def using n pred mm q(1) rs h2(1) by (simp split del: if_split)
  moreover have "join_trees l r = Node (plug d pl) m r" using l r sm by (simp add: join_trees_def)
  moreover have "same_values h h2" using h1(4) h2(3) by (rule same_values_trans)
  moreover have "h2 y = h y" if "y \<notin> set (inorder (plug c (Node l x r)))" for y
  proof -
    have "h1 y = h y" using that h1(5) by (auto simp: l_eq inorder_plug ctx_nodes_def e_def lefts_append rights_append)
    then show ?thesis using h2(4) that in1 by auto
  qed
  ultimately show ?thesis using h2(2) by auto
qed

lemma remove_node_plug:
  assumes at: "ptree_at h root (plug c (Node l x r))"
  shows "\<exists>root' h'. remove_node root x h = Some (val h x, root', h') \<and>
    ptree_at h' root' (plug c (join_trees l r)) \<and> h' x = None \<and>
    (\<forall>y. y \<noteq> x \<longrightarrow> map_option pt_value (h' y) = map_option pt_value (h y)) \<and>
    (\<forall>y. y \<notin> set (inorder (plug c (Node l x r))) \<longrightarrow> h' y = h y)"
proof -
  obtain n where n: "h x = Some n" "pt_parent n = up c" "pt_left n = root_of l" "pt_right n = root_of r"
    using at by (auto simp: ptree_at_plug)
  have ctx: "ctx_at h root c x" and t: "tree_at h x l" "tree_at h x r"
    and dist: "distinct (lefts c @ inorder l @ x # inorder r @ rights c)"
    using at by (auto simp: ptree_at_plug)
  let ?step = "if pt_left n = NULL then remove_simple (loc_of c) (pt_right n) (pt_parent n) (root, h)
        else if pt_right n = NULL then remove_simple (loc_of c) (pt_left n) (pt_parent n) (root, h)
        else remove_double (loc_of c) x (root, h)"
  have simple: "\<exists>root' h'. remove_simple (loc_of c) (root_of s) (up c) (root, h) = Some (root', h') \<and>
      ptree_at (h'(x := None)) root' (plug c s) \<and> same_values h h' \<and>
      (\<forall>y. y \<notin> set (inorder (plug c (Node l x r))) \<longrightarrow> h' y = h y)"
    if s: "s = l \<or> s = r" and leaf: "l = Leaf \<or> r = Leaf" for s
  proof -
    have d: "distinct (lefts c @ inorder s @ rights c)" "x \<notin> set_tree s" "x \<notin> ctx_nodes c"
      using dist s by (auto simp: ctx_nodes_def)
    from remove_simple_ctx [OF ctx _ d(1)] s t obtain root1 h1 where h1:
      "remove_simple (loc_of c) (root_of s) (up c) (root, h) = Some (root1, h1)"
      "ctx_at h1 root1 c (root_of s)" "tree_at h1 (up c) s" "same_values h h1"
      "\<forall>y. y \<notin> ctx_nodes c \<and> y \<notin> set_tree s \<longrightarrow> h1 y = h y" by blast
    have "ptree_at (h1(x := None)) root1 (plug c s)" using h1(2,3) d by (simp add: ptree_at_plug)
    moreover have "h1 y = h y" if y: "y \<notin> set (inorder (plug c (Node l x r)))" for y
      using y s h1(5) by (auto simp: inorder_plug ctx_nodes_def)
    ultimately show ?thesis using h1(1,4) by blast
  qed
  have "\<exists>root' h'. ?step = Some (root', h') \<and>
      ptree_at (h'(x := None)) root' (plug c (join_trees l r)) \<and> same_values h h' \<and>
      (\<forall>y. y \<notin> set (inorder (plug c (Node l x r))) \<longrightarrow> h' y = h y)"
  proof -
    have "root_of l = NULL \<longleftrightarrow> l = Leaf" "root_of r = NULL \<longleftrightarrow> r = Leaf" using t by (auto simp: root_of_NULL)
    then show ?thesis
      using n simple [of r] simple [of l] remove_double_plug [OF at] by (auto simp: join_trees_def)
  qed
  then obtain root1 h1 where h1: "?step = Some (root1, h1)"
    "ptree_at (h1(x := None)) root1 (plug c (join_trees l r))" "same_values h h1"
    "\<forall>y. y \<notin> set (inorder (plug c (Node l x r))) \<longrightarrow> h1 y = h y" by blast
  obtain n1 where n1: "h1 x = Some n1" "pt_value n1 = val h x"
    using h1(3) n(1) by (auto simp: same_values_def val_def dest!: spec [of _ x])
  have "remove_node root x h = Some (val h x, root1, h1(x := None))"
    using node_loc_ctx [OF at] n(1) h1(1) n1 by (simp add: remove_node_def)
  moreover have "\<forall>y. y \<notin> set (inorder (plug c (Node l x r))) \<longrightarrow> (h1(x := None)) y = h y"
    using h1(4) by (auto simp: inorder_plug)
  ultimately show ?thesis using h1(2,3) by (auto simp: same_values_def)
qed


subsection \<open>Walking\<close>

lemma find_min_tree:
  assumes "tree_at h p t" and "t \<noteq> Leaf"
  shows "\<exists>lv. find_min h (root_of t) level = Some (hd (inorder t), lv)"
  using assms
proof (induction t arbitrary: p level)
  case (Node l x r)
  then obtain n where n: "h x = Some n" "pt_left n = root_of l" by auto
  show ?case
  proof (cases "l = Leaf")
    case True
    then show ?thesis using n by (subst find_min.simps) simp
  next
    case False
    then have "root_of l \<noteq> NULL" using Node.prems by (auto simp: root_of_NULL)
    moreover obtain lv where "find_min h (root_of l) (level + 1) = Some (hd (inorder l), lv)"
      using False Node.prems Node.IH(1) [of x "level + 1"] by auto
    moreover have "hd (inorder (Node l x r)) = hd (inorder l)" using False by (cases l) (auto simp: hd_append)
    ultimately show ?thesis using n False by (subst find_min.simps) simp
  qed
qed simp

lemma find_succ_up_tree:
  assumes "ptree_at h root (plug c t)" and "t \<noteq> Leaf"
  shows "\<exists>lv. find_succ_up h (root_of t) level = Some (hd (rights c @ [NULL]), lv)"
  using assms
proof (induction c arbitrary: t level)
  case Nil
  then obtain n where "h (root_of t) = Some n" "pt_parent n = NULL"
    by (cases t) (auto simp: ptree_at_def)
  then show ?case by (subst find_succ_up.simps) simp
next
  case (Cons k c)
  obtain n where n: "h (root_of t) = Some n" "pt_parent n = crumb_node k"
    using Cons.prems by (cases t) (auto simp: ptree_at_plug [of h root "k # c"] simp del: plug.simps)
  have tz: "root_of t \<noteq> NULL" "root_of t \<in> set_tree t"
    using Cons.prems root_of_in [of t]
    by (auto simp: ptree_at_plug [of h root "k # c"] root_of_NULL simp del: plug.simps)
  show ?case
  proof (cases k)
    case (InLeft y s)
    obtain q where q: "h y = Some q" "pt_right q = root_of s" "y \<noteq> NULL"
      using Cons.prems(1) InLeft by (auto simp: ptree_at_plug)
    have "set_tree t \<inter> set_tree s = {}" using Cons.prems(1) InLeft by (auto simp: ptree_at_plug)
    then have "root_of s \<noteq> root_of t" using tz root_of_in [of s] by (cases "s = Leaf") auto
    then show ?thesis using n q InLeft by (subst find_succ_up.simps) simp
  next
    case (InRight s y)
    obtain q where q: "h y = Some q" "pt_right q = root_of t" "y \<noteq> NULL"
      using Cons.prems(1) InRight by (auto simp: ptree_at_plug)
    obtain lv where "find_succ_up h y (level - 1) = Some (hd (rights c @ [NULL]), lv)"
      using Cons.IH [of "Node s y t" "level - 1"] Cons.prems(1) InRight by auto
    then show ?thesis using n q InRight by (subst find_succ_up.simps) simp
  qed
qed

lemma find_succ_tree:
  assumes "ptree_at h root (plug c (Node l x r))"
  shows "\<exists>lv. find_succ h x level = Some (hd (inorder r @ rights c @ [NULL]), lv)"
proof -
  obtain n where n: "h x = Some n" "pt_right n = root_of r" and r: "tree_at h x r"
    using assms by (auto simp: ptree_at_plug)
  show ?thesis
  proof (cases "r = Leaf")
    case True
    then show ?thesis using n find_succ_up_tree [OF assms] by (simp add: find_succ_def)
  next
    case False
    then have "hd (inorder r @ rights c @ [NULL]) = hd (inorder r)" by (cases r) (auto simp: hd_append)
    then show ?thesis using n False r find_min_tree [OF r False] by (simp add: find_succ_def root_of_NULL)
  qed
qed

lemma find_succ_next:
  assumes at: "ptree_at h root t" and io: "inorder t = ws @ x # xs"
  shows "\<exists>lv. find_succ h x level = Some (hd (xs @ [NULL]), lv)"
proof -
  have "x \<in> set_tree t" using io by (metis in_set_conv_decomp set_inorder)
  from zipper_of [OF this] obtain c l r where t: "t = plug c (Node l x r)" by blast
  have d: "distinct (inorder t)" using at by (simp add: ptree_at_def)
  have "ws @ x # xs = (lefts c @ inorder l) @ x # (inorder r @ rights c)"
    using io t by (simp add: inorder_plug)
  moreover have "x \<notin> set ws" "x \<notin> set xs" using d unfolding io by simp_all
  ultimately have "xs = inorder r @ rights c"
    using append_Cons_eq_iff [of x ws xs "lefts c @ inorder l" "inorder r @ rights c"] by blast
  then show ?thesis using find_succ_tree at t by (metis append.assoc)
qed

text \<open>The loop rule of the in-order walk: \<open>I st xs\<close> holds when \<open>xs\<close> are the nodes
  still to visit; the callback may change the tree as long as they stay linked in order.\<close>

lemma walk_inorder_rule:
  assumes inv: "I st xs"
    and linked: "\<And>st x xs. I st (x # xs) \<Longrightarrow>
      x \<noteq> NULL \<and> (\<exists>root t ws. ptree_at (fst st) root t \<and> inorder t = ws @ x # xs)"
    and step: "\<And>st x xs level. I st (x # xs) \<Longrightarrow>
      \<exists>res st'. func x level st = Some (res, st') \<and> (if res = PTREE_WALK_CONTINUE then I st' xs else J st')"
  shows "\<exists>res st'. walk_inorder func (hd (xs @ [NULL])) level st = Some (res, st') \<and>
    (if res = PTREE_WALK_CONTINUE then I st' [] else J st')"
  using inv
proof (induction xs arbitrary: st level)
  case Nil
  then show ?case by (subst walk_inorder.simps) simp
next
  case (Cons x xs)
  from linked [OF Cons.prems] obtain root t ws where x: "x \<noteq> NULL"
    and t: "ptree_at (fst st) root t" "inorder t = ws @ x # xs" by blast
  from find_succ_next [OF t] obtain lv where succ: "find_succ (fst st) x level = Some (hd (xs @ [NULL]), lv)"
    by blast
  from step [OF Cons.prems, of level] obtain res st' where f: "func x level st = Some (res, st')"
    "if res = PTREE_WALK_CONTINUE then I st' xs else J st'" by blast
  show ?case
  proof (cases "res = PTREE_WALK_CONTINUE")
    case True
    then show ?thesis using x succ f Cons.IH [of st' "if lv < 0 then 0 else lv"]
      by (subst walk_inorder.simps) auto
  next
    case False
    then show ?thesis using x succ f by (subst walk_inorder.simps) auto
  qed
qed

lemma walk_int_inorder:
  assumes at: "ptree_at (fst st) root t"
  shows "\<exists>level'. walk_int func PTREE_INORDER root level st =
    walk_inorder func (hd (inorder t @ [NULL])) level' st"
proof (cases "t = Leaf")
  case True
  then show ?thesis using at
    by (subst walk_int.simps, subst walk_inorder.simps) (simp add: ptree_at_def)
next
  case False
  then have "root \<noteq> NULL" "tree_at (fst st) NULL t" "root = root_of t" "hd (inorder t @ [NULL]) = hd (inorder t)"
    using at by (auto simp: ptree_at_def root_of_NULL)
  then show ?thesis using find_min_tree [of "fst st" NULL t level] False
    by (subst walk_int.simps) auto
qed

lemma tree_at_restrict:
  "set_tree t \<inter> A = {} \<Longrightarrow> tree_at (h |` (- A)) p t = tree_at h p t"
  by (rule tree_at_cong) (auto simp: restrict_map_def)

lemma walk_int_clear:
  assumes "tree_at h p t" and "distinct (inorder t)"
  shows "walk_int ptree_clear_func PTREE_POSTORDER (root_of t) level (h, ()) =
    Some (PTREE_WALK_CONTINUE, h |` (- set_tree t), ())"
  using assms
proof (induction t arbitrary: h p level)
  case Leaf
  then show ?case by (subst walk_int.simps) (simp add: restrict_map_def)
next
  case (Node l x r)
  then obtain n where n: "h x = Some n" "pt_left n = root_of l" "pt_right n = root_of r" "x \<noteq> NULL" by auto
  have disj: "set_tree l \<inter> set_tree r = {}" "x \<notin> set_tree l" "x \<notin> set_tree r"
    using Node.prems(2) by auto
  have "walk_int ptree_clear_func PTREE_POSTORDER (root_of l) (level + 1) (h, ()) =
      Some (PTREE_WALK_CONTINUE, h |` (- set_tree l), ())"
    using Node.prems by (intro Node.IH(1) [of h x]) auto
  moreover have "walk_int ptree_clear_func PTREE_POSTORDER (root_of r) (level + 1) (h |` (- set_tree l), ()) =
      Some (PTREE_WALK_CONTINUE, h |` (- set_tree l) |` (- set_tree r), ())"
    using Node.prems disj by (intro Node.IH(2) [of _ x]) (auto simp: tree_at_restrict Int_commute)
  moreover have "(h |` (- set_tree l) |` (- set_tree r))(x := None) = h |` (- set_tree (Node l x r))"
    by (auto simp: restrict_map_def fun_eq_iff)
  ultimately show ?case using n disj
    by (subst walk_int.simps) (simp add: ptree_clear_func_def dom_def restrict_map_def)
qed


subsection \<open>Sorted sequences of values\<close>

text \<open>What the operations do to the in-order sequence of values, for a comparison \<open>f\<close>
  with the key.\<close>

fun sl_get :: "('v \<Rightarrow> int) \<Rightarrow> 'v list \<Rightarrow> 'v option" where
  "sl_get f [] = None"
| "sl_get f (e # es) = (if f e = 0 then Some e else sl_get f es)"

fun sl_put :: "('v \<Rightarrow> int) \<Rightarrow> 'v \<Rightarrow> 'v list \<Rightarrow> 'v list" where
  "sl_put f v [] = [v]"
| "sl_put f v (e # es) = (if f e < 0 then v # e # es else if f e = 0 then v # es else e # sl_put f v es)"

fun sl_del :: "('v \<Rightarrow> int) \<Rightarrow> 'v list \<Rightarrow> 'v list" where
  "sl_del f [] = []"
| "sl_del f (e # es) = (if f e = 0 then es else e # sl_del f es)"

lemma sl_skip:
  assumes "\<forall>e \<in> set as. f e > 0"
  shows "sl_get f (as @ bs) = sl_get f bs" and "sl_put f v (as @ bs) = as @ sl_put f v bs"
    and "sl_del f (as @ bs) = as @ sl_del f bs"
  using assms by (induction as) auto

lemma sl_get_neg: "\<forall>e \<in> set bs. f e < 0 \<Longrightarrow> sl_get f bs = None"
  by (induction bs) auto

lemma sl_put_neg: "\<forall>e \<in> set bs. f e < 0 \<Longrightarrow> sl_put f v bs = v # bs"
  by (cases bs) auto

lemma sl_del_neg: "\<forall>e \<in> set bs. f e < 0 \<Longrightarrow> sl_del f bs = bs"
  by (induction bs) auto

definition ptree_rep :: "ptr \<times> 'v ptree_heap \<Rightarrow> 'v list \<Rightarrow> bool" where
  "ptree_rep s es \<longleftrightarrow> (\<exists>t. ptree_at (snd s) (fst s) t \<and> map (val (snd s)) (inorder t) = es)"

text \<open>Where the search ends, in terms of the sequence.\<close>

lemma seek_cases:
  assumes at: "ptree_at h root t" and ss: "sign_sorted (cmp v) (map (val h) (inorder t))"
  shows "\<exists>d u k. t = plug d u \<and> walk_to cmp v h root Var = Some (k, if u = Leaf then up d else root_of u, loc_of d) \<and>
    (k = 0 \<longleftrightarrow> u \<noteq> Leaf) \<and> (\<forall>x \<in> set (lefts d). cmp v (val h x) > 0) \<and>
    (\<forall>x \<in> set (rights d). cmp v (val h x) < 0) \<and>
    (u \<noteq> Leaf \<longrightarrow> (\<exists>l x r. u = Node l x r \<and> cmp v (val h x) = 0 \<and>
       (\<forall>y \<in> set (inorder l). cmp v (val h y) > 0) \<and> (\<forall>y \<in> set (inorder r). cmp v (val h y) < 0)))"
proof -
  obtain d u where sk: "seek (\<lambda>x. cmp v (val h x)) [] t = (d, u)" by fastforce
  have ss': "sign_sorted (\<lambda>x. cmp v (val h x)) (inorder (plug [] t))"
    using ss by (simp add: sign_sorted_def sorted_wrt_map)
  from seek_spec [OF ss' _ _ sk] have spec: "plug d u = t" "\<forall>x \<in> set (lefts d). cmp v (val h x) > 0"
    "\<forall>x \<in> set (rights d). cmp v (val h x) < 0" "u \<noteq> Leaf \<longrightarrow> cmp v (val h (root_of u)) = 0" by auto
  have "\<exists>l x r. u = Node l x r \<and> cmp v (val h x) = 0 \<and>
       (\<forall>y \<in> set (inorder l). cmp v (val h y) > 0) \<and> (\<forall>y \<in> set (inorder r). cmp v (val h y) < 0)"
    if "u \<noteq> Leaf"
  proof -
    from that obtain l x r where u: "u = Node l x r" by (cases u) auto
    have "sign_sorted (\<lambda>x. cmp v (val h x)) (inorder l @ x # inorder r)"
      using ss' spec(1) u by (auto simp: inorder_plug sign_sorted_append sign_sorted_Cons)
    moreover have x0: "cmp v (val h x) = 0" using spec(4) u by simp
    ultimately have "cmp v (val h y) > 0" if "y \<in> set (inorder l)" for y
      using that by (force simp: sign_sorted_append simp del: set_inorder)
    moreover have "\<forall>y \<in> set (inorder r). cmp v (val h y) < 0"
      using \<open>sign_sorted _ (inorder l @ x # inorder r)\<close> x0 by (auto simp: sign_sorted_append sign_sorted_Cons)
    ultimately show ?thesis using u x0 by blast
  qed
  moreover obtain k where "walk_to cmp v h root Var = Some (k, if u = Leaf then up d else root_of u, loc_of d)"
    "k = 0 \<longleftrightarrow> u \<noteq> Leaf"
    using walk_to_seek [OF at, of cmp v] unfolding sk by auto
  ultimately show ?thesis using spec(1-3) by (intro exI [of _ d] exI [of _ u] exI [of _ k]) auto
qed

lemma val_eqI: "map_option pt_value (h' y) = map_option pt_value (h y) \<Longrightarrow> h y \<noteq> None \<Longrightarrow> val h' y = val h y"
  by (auto simp: val_def)

lemma ptree_contains_rep:
  assumes "ptree_rep (root, h) es" and "sign_sorted (cmp v) es"
  shows "ptree_contains cmp v root h =
    Some (case sl_get (cmp v) es of None \<Rightarrow> (0, None) | Some e \<Rightarrow> (1, Some e))"
proof -
  from assms obtain t where at: "ptree_at h root t" and es: "es = map (val h) (inorder t)"
    by (auto simp: ptree_rep_def)
  from seek_cases [OF at, of cmp v] assms(2) es obtain d u k where t: "t = plug d u"
    and w: "walk_to cmp v h root Var = Some (k, if u = Leaf then up d else root_of u, loc_of d)"
    and k: "k = 0 \<longleftrightarrow> u \<noteq> Leaf" and ls: "\<forall>x \<in> set (lefts d). cmp v (val h x) > 0"
    and rs: "\<forall>x \<in> set (rights d). cmp v (val h x) < 0"
    and u: "u \<noteq> Leaf \<longrightarrow> (\<exists>l x r. u = Node l x r \<and> cmp v (val h x) = 0 \<and>
       (\<forall>y \<in> set (inorder l). cmp v (val h y) > 0) \<and> (\<forall>y \<in> set (inorder r). cmp v (val h y) < 0))" by blast
  show ?thesis
  proof (cases "u = Leaf")
    case True
    then have "sl_get (cmp v) es = None"
      using ls rs by (simp add: es t inorder_plug sl_skip sl_get_neg)
    then show ?thesis using w k True by (simp add: ptree_contains_def)
  next
    case False
    with u obtain l x r where u: "u = Node l x r" "cmp v (val h x) = 0"
      "\<forall>y \<in> set (inorder l). cmp v (val h y) > 0" by blast
    then have "sl_get (cmp v) es = Some (val h x)"
      using ls by (simp add: es t inorder_plug sl_skip del: set_inorder)
    moreover obtain n where "h x = Some n" using at t u by (auto simp: ptree_at_plug)
    ultimately show ?thesis using w k u by (simp add: ptree_contains_def val_def)
  qed
qed

text \<open>One node is unlinked and freed: the others keep their order and their values, and nothing behind the tree is
  written.\<close>

definition unlinked :: "'v ptree_heap \<Rightarrow> ptr tree \<Rightarrow> 'v \<Rightarrow> 'v ptree_heap \<Rightarrow> ptr tree \<Rightarrow> bool" where
  "unlinked h t e h' t' \<longleftrightarrow> (\<exists>x ls rs. inorder t = ls @ x # rs \<and> inorder t' = ls @ rs \<and>
     map_option pt_value (h x) = Some e \<and> h' x = None \<and>
     (\<forall>y. y \<noteq> x \<longrightarrow> map_option pt_value (h' y) = map_option pt_value (h y)) \<and> (\<forall>y. y \<notin> set_tree t \<longrightarrow> h' y = h y))"

lemma ptree_remove_at:
  assumes at: "ptree_at h root t" and es: "es = map (val h) (inorder t)" and ss: "sign_sorted (cmp v) es"
  shows "\<exists>root' h' t'. ptree_remove cmp v root h =
      Some (if sl_get (cmp v) es = None then 0 else 1, sl_get (cmp v) es, root', h') \<and>
    ptree_at h' root' t' \<and> map (val h') (inorder t') = sl_del (cmp v) es \<and>
    (case sl_get (cmp v) es of None \<Rightarrow> root' = root \<and> h' = h \<and> t' = t | Some e \<Rightarrow> unlinked h t e h' t')"
proof -
  from seek_cases [OF at, of cmp v] ss es obtain d u k where t: "t = plug d u"
    and w: "walk_to cmp v h root Var = Some (k, if u = Leaf then up d else root_of u, loc_of d)"
    and k: "k = 0 \<longleftrightarrow> u \<noteq> Leaf" and ls: "\<forall>x \<in> set (lefts d). cmp v (val h x) > 0"
    and rs: "\<forall>x \<in> set (rights d). cmp v (val h x) < 0"
    and u: "u \<noteq> Leaf \<longrightarrow> (\<exists>l x r. u = Node l x r \<and> cmp v (val h x) = 0 \<and>
       (\<forall>y \<in> set (inorder l). cmp v (val h y) > 0) \<and> (\<forall>y \<in> set (inorder r). cmp v (val h y) < 0))" by blast
  show ?thesis
  proof (cases "u = Leaf")
    case True
    then have "sl_get (cmp v) es = None" "sl_del (cmp v) es = es"
      using ls rs by (simp_all add: es t inorder_plug sl_skip sl_get_neg sl_del_neg)
    then show ?thesis using w k True at es by (simp add: ptree_remove_def)
  next
    case False
    with u obtain l x r where u: "u = Node l x r" "cmp v (val h x) = 0"
      "\<forall>y \<in> set (inorder l). cmp v (val h y) > 0" by blast
    have at': "ptree_at h root (plug d (Node l x r))" using at t u by simp
    from remove_node_plug [OF this] obtain root' h' where h':
      "remove_node root x h = Some (val h x, root', h')" "ptree_at h' root' (plug d (join_trees l r))"
      "h' x = None" "\<forall>y. y \<noteq> x \<longrightarrow> map_option pt_value (h' y) = map_option pt_value (h y)"
      "\<forall>y. y \<notin> set (inorder (plug d (Node l x r))) \<longrightarrow> h' y = h y" by blast
    have get: "sl_get (cmp v) es = Some (val h x)"
      using u ls by (simp add: es t inorder_plug sl_skip del: set_inorder)
    have del: "sl_del (cmp v) es = map (val h) (lefts d @ inorder l @ inorder r @ rights d)"
      using u ls by (simp add: es t inorder_plug sl_skip del: set_inorder)
    have io: "inorder (plug d (join_trees l r)) = lefts d @ inorder l @ inorder r @ rights d"
      by (simp add: inorder_plug inorder_join_trees)
    have tr: "tree_at h NULL (plug d (Node l x r))" "distinct (inorder (plug d (Node l x r)))"
      using at' by (simp_all add: ptree_at_def)
    have "map (val h') (lefts d @ inorder l @ inorder r @ rights d) =
        map (val h) (lefts d @ inorder l @ inorder r @ rights d)"
    proof (rule map_cong [OF refl])
      fix y assume y: "y \<in> set (lefts d @ inorder l @ inorder r @ rights d)"
      have "y \<in> set_tree (plug d (Node l x r))"
        using y inorder_plug [of d "Node l x r"] unfolding set_inorder [symmetric] by auto
      then have "y \<in> dom h" using tr(1) tree_at_dom by blast
      moreover have "y \<noteq> x" using y tr(2) by (auto simp: inorder_plug)
      ultimately show "val h' y = val h y" using h'(4) by (intro val_eqI) auto
    qed
    moreover have "unlinked h t (val h x) h' (plug d (join_trees l r))"
    proof -
      have "x \<in> set_tree (plug d (Node l x r))"
        using inorder_plug [of d "Node l x r"] unfolding set_inorder [symmetric] by auto
      then obtain n where "h x = Some n" using tr(1) tree_at_dom by blast
      then have "map_option pt_value (h x) = Some (val h x)" by (simp add: val_def)
      moreover have "inorder t = (lefts d @ inorder l) @ x # inorder r @ rights d" by (simp add: t u inorder_plug)
      moreover have "inorder (plug d (join_trees l r)) = (lefts d @ inorder l) @ inorder r @ rights d" by (simp add: io)
      ultimately show ?thesis unfolding unlinked_def using h'(3-5) t u(1) unfolding set_inorder by blast
    qed
    ultimately show ?thesis using w k u h'(1,2) get del io
      by (intro exI [of _ root'] exI [of _ h'] exI [of _ "plug d (join_trees l r)"]) (simp add: ptree_remove_def)
  qed
qed

lemma ptree_remove_rep:
  assumes "ptree_rep (root, h) es" and "sign_sorted (cmp v) es"
  shows "\<exists>root' h'. ptree_remove cmp v root h =
      Some (if sl_get (cmp v) es = None then 0 else 1, sl_get (cmp v) es, root', h') \<and>
    ptree_rep (root', h') (sl_del (cmp v) es) \<and> dom h' \<subseteq> dom h"
proof -
  from assms obtain t where at: "ptree_at h root t" and es: "es = map (val h) (inorder t)"
    by (auto simp: ptree_rep_def)
  from ptree_remove_at [of h root t es cmp v, OF at es assms(2)] obtain root' h' t' where r: "ptree_remove cmp v root h =
      Some (if sl_get (cmp v) es = None then 0 else 1, sl_get (cmp v) es, root', h')"
    "ptree_at h' root' t'" "map (val h') (inorder t') = sl_del (cmp v) es"
    "case sl_get (cmp v) es of None \<Rightarrow> root' = root \<and> h' = h \<and> t' = t | Some e \<Rightarrow> unlinked h t e h' t'" by blast
  have "dom h' \<subseteq> dom h"
  proof (cases "sl_get (cmp v) es")
    case (Some e)
    then obtain x where "h' x = None" "\<forall>y. y \<noteq> x \<longrightarrow> map_option pt_value (h' y) = map_option pt_value (h y)"
      using r(4) by (auto simp: unlinked_def)
    then show ?thesis by (metis domIff option.map_disc_iff subsetI)
  qed (use r(4) in simp)
  then show ?thesis using r(1-3) by (auto simp: ptree_rep_def)
qed


lemma tree_at_set_value:
  assumes "h a = Some n"
  shows "tree_at (h(a \<mapsto> n\<lparr>pt_value := v\<rparr>)) p t = tree_at h p t"
  using assms by (induction t arbitrary: p) auto

lemma ptree_replace_found:
  assumes at: "ptree_at h root (plug d (Node l x r))" and w: "walk_to cmp v h root Var = Some (0, x, loc_of d)"
  shows "\<exists>h'. ptree_replace cmp v n root h = Some (1, Some (Some (val h x)), root, h') \<and>
    ptree_at h' root (plug d (Node l x r)) \<and> dom h' = dom h \<and>
    map (val h') (inorder (plug d (Node l x r))) =
      map (val h) (lefts d @ inorder l) @ v # map (val h) (inorder r @ rights d)"
proof -
  obtain m where m: "h x = Some m" using at by (auto simp: ptree_at_plug)
  have "ptree_at (h(x \<mapsto> m\<lparr>pt_value := v\<rparr>)) root (plug d (Node l x r))"
    using at m by (simp add: ptree_at_def tree_at_set_value)
  moreover have "distinct (lefts d @ inorder l @ x # inorder r @ rights d)"
    using at by (simp add: ptree_at_plug)
  then have "map (val (h(x \<mapsto> m\<lparr>pt_value := v\<rparr>))) (inorder (plug d (Node l x r))) =
      map (val h) (lefts d @ inorder l) @ v # map (val h) (inorder r @ rights d)"
    by (auto simp: inorder_plug val_def)
  moreover have "val h x = pt_value m" using m by (simp add: val_def)
  ultimately show ?thesis using m w by (auto simp: ptree_replace_def)
qed

lemma ptree_replace_new:
  assumes at: "ptree_at h root (plug d Leaf)" and w: "walk_to cmp v h root Var = Some (k, up d, loc_of d)"
    and k: "k \<noteq> 0" and n: "n \<notin> dom h" "n \<noteq> NULL"
  shows "\<exists>root' h'. ptree_replace cmp v n root h = Some (1, Some None, root', h') \<and>
    ptree_at h' root' (plug d (Node Leaf n Leaf)) \<and> dom h' = insert n (dom h) \<and>
    map (val h') (inorder (plug d (Node Leaf n Leaf))) = map (val h) (lefts d) @ v # map (val h) (rights d)"
proof -
  have ctx: "ctx_at h root d NULL" and dist: "distinct (lefts d @ rights d)"
    using at by (simp_all add: ptree_at_plug)
  have in_dom: "y \<in> dom h" if "y \<in> set (lefts d @ rights d)" for y
  proof -
    have "y \<in> set_tree (plug d Leaf)"
      using that inorder_plug [of d Leaf] unfolding set_inorder [symmetric] by simp
    then show ?thesis using at tree_at_dom by (meson ptree_at_def)
  qed
  then have n_out: "n \<notin> ctx_nodes d" using n by (auto simp: ctx_nodes_def)
  define h1 where "h1 = h(n \<mapsto> \<lparr>pt_value = v, pt_parent = up d, pt_left = NULL, pt_right = NULL\<rparr>)"
  have "ctx_at h1 root d NULL" using ctx n_out by (simp add: h1_def)
  from write_loc_ctx [OF this dist, of n] obtain root' h' where h':
    "write_loc (loc_of d) n (root, h1) = Some (root', h')" "ctx_at h' root' d n"
    "\<forall>y. y \<noteq> up d \<longrightarrow> h' y = h1 y" "\<forall>y. map_option pt_value (h' y) = map_option pt_value (h1 y)"
    "d = [] \<longrightarrow> h' = h1" by blast
  have "n \<noteq> up d" using n_out up_in [of d] n(2) by (cases "d = []") auto
  then have hn: "h' n = Some \<lparr>pt_value = v, pt_parent = up d, pt_left = NULL, pt_right = NULL\<rparr>"
    using h'(3) by (simp add: h1_def)
  have "ptree_at h' root' (plug d (Node Leaf n Leaf))"
    using hn h'(2) n(2) dist n_out by (auto simp: ptree_at_plug ctx_nodes_def)
  moreover have "dom h' = insert n (dom h)"
  proof -
    have "y \<in> dom h' \<longleftrightarrow> y \<in> dom h1" for y
      using h'(4) [rule_format, of y] by (cases "h' y"; cases "h1 y") auto
    then have "dom h' = dom h1" by blast
    then show ?thesis by (simp add: h1_def)
  qed
  moreover have "val h' y = val h y" if "y \<in> set (lefts d @ rights d)" for y
  proof -
    have "y \<noteq> n" using that n_out by (auto simp: ctx_nodes_def)
    then have "map_option pt_value (h' y) = map_option pt_value (h y)" using h'(4) by (simp add: h1_def)
    moreover have "h y \<noteq> None" using in_dom [OF that] by auto
    ultimately show ?thesis by (rule val_eqI)
  qed
  then have "map (val h') (inorder (plug d (Node Leaf n Leaf))) =
      map (val h) (lefts d) @ v # map (val h) (rights d)"
    using hn by (auto simp: inorder_plug val_def)
  moreover have "ptree_replace cmp v n root h = Some (1, Some None, root', h')"
    using w k n(2) h'(1) by (simp add: ptree_replace_def h1_def Let_def)
  ultimately show ?thesis by blast
qed

lemma ptree_replace_rep:
  assumes "ptree_rep (root, h) es" and "sign_sorted (cmp v) es" and n: "n \<notin> dom h" "n \<noteq> NULL"
  shows "\<exists>root' h'. ptree_replace cmp v n root h = Some (1, Some (sl_get (cmp v) es), root', h') \<and>
    ptree_rep (root', h') (sl_put (cmp v) v es) \<and> dom h' \<subseteq> insert n (dom h)"
proof -
  from assms obtain t where at: "ptree_at h root t" and es: "es = map (val h) (inorder t)"
    by (auto simp: ptree_rep_def)
  from seek_cases [OF at, of cmp v] assms(2) es obtain d u k where t: "t = plug d u"
    and w: "walk_to cmp v h root Var = Some (k, if u = Leaf then up d else root_of u, loc_of d)"
    and k: "k = 0 \<longleftrightarrow> u \<noteq> Leaf" and ls: "\<forall>x \<in> set (lefts d). cmp v (val h x) > 0"
    and rs: "\<forall>x \<in> set (rights d). cmp v (val h x) < 0"
    and u: "u \<noteq> Leaf \<longrightarrow> (\<exists>l x r. u = Node l x r \<and> cmp v (val h x) = 0 \<and>
       (\<forall>y \<in> set (inorder l). cmp v (val h y) > 0) \<and> (\<forall>y \<in> set (inorder r). cmp v (val h y) < 0))" by blast
  show ?thesis
  proof (cases "u = Leaf")
    case True
    have "ptree_at h root (plug d Leaf)" "walk_to cmp v h root Var = Some (k, up d, loc_of d)" "k \<noteq> 0"
      using True at t w k by auto
    from ptree_replace_new [OF this n] obtain root' h' where h':
      "ptree_replace cmp v n root h = Some (1, Some None, root', h')"
      "ptree_at h' root' (plug d (Node Leaf n Leaf))" "dom h' = insert n (dom h)"
      "map (val h') (inorder (plug d (Node Leaf n Leaf))) = map (val h) (lefts d) @ v # map (val h) (rights d)"
      by blast
    have "sl_get (cmp v) es = None" "sl_put (cmp v) v es = map (val h) (lefts d) @ v # map (val h) (rights d)"
      using True ls rs by (simp_all add: es t inorder_plug sl_skip sl_get_neg sl_put_neg)
    then show ?thesis using h' by (auto simp: ptree_rep_def)
  next
    case False
    with u obtain l x r where u: "u = Node l x r" "cmp v (val h x) = 0"
      "\<forall>y \<in> set (inorder l). cmp v (val h y) > 0" by blast
    have "ptree_at h root (plug d (Node l x r))" "walk_to cmp v h root Var = Some (0, x, loc_of d)"
      using u at t w k by auto
    from ptree_replace_found [OF this, of n] obtain h' where h':
      "ptree_replace cmp v n root h = Some (1, Some (Some (val h x)), root, h')"
      "ptree_at h' root (plug d (Node l x r))" "dom h' = dom h"
      "map (val h') (inorder (plug d (Node l x r))) =
        map (val h) (lefts d @ inorder l) @ v # map (val h) (inorder r @ rights d)" by blast
    have "sl_get (cmp v) es = Some (val h x)"
      using u ls by (simp add: es t inorder_plug sl_skip del: set_inorder)
    moreover have "sl_put (cmp v) v es = map (val h) (lefts d @ inorder l) @ v # map (val h) (inorder r @ rights d)"
      using u ls by (simp add: es t inorder_plug sl_skip del: set_inorder)
    ultimately show ?thesis using h' by (auto simp: ptree_rep_def)
  qed
qed

lemma ptree_clear_at:
  assumes "ptree_at h root t"
  shows "ptree_clear root h = Some (NULL, h |` (- set_tree t))"
  using assms walk_int_clear [of h NULL t 0] by (simp add: ptree_clear_def ptree_at_def)


subsection \<open>Walking with removal\<close>

text \<open>A walk callback that unlinks the node it stands on when \<open>p\<close> holds of its value,
  through \<^verbatim>\<open>ptree_inorder_walk_remove\<close>; it also logs the values it sees.\<close>

definition removing_walker ::
    "('v \<Rightarrow> bool) \<Rightarrow> 'v \<Rightarrow> int \<Rightarrow> ptr \<Rightarrow> 'v ptree_heap \<times> ptr \<times> 'v list \<Rightarrow>
     (walk_res \<times> 'v ptree_heap \<times> ptr \<times> 'v list) option" where
  "removing_walker p v level pn s = (case s of (h, root, seen) \<Rightarrow>
     if p v then (case ptree_inorder_walk_remove root pn h of
         None \<Rightarrow> None
       | Some (r, old, root, h) \<Rightarrow> Some (PTREE_WALK_CONTINUE, h, root, seen @ [v]))
     else Some (PTREE_WALK_CONTINUE, h, root, seen @ [v]))"

definition removing_inv ::
    "('v \<Rightarrow> bool) \<Rightarrow> 'v list \<Rightarrow> 'v ptree_heap \<times> ptr \<times> 'v list \<Rightarrow> ptr list \<Rightarrow> bool" where
  "removing_inv p es st xs \<longleftrightarrow> (case st of (h, root, seen) \<Rightarrow>
     \<exists>t ws. ptree_at h root t \<and> inorder t = ws @ xs \<and>
       map (val h) ws = filter (\<lambda>v. \<not> p v) seen \<and> seen @ map (val h) xs = es)"

lemma remove_node_at:
  assumes at: "ptree_at h root t" and io: "inorder t = ws @ x # xs"
  shows "\<exists>root' h' t'. remove_node root x h = Some (val h x, root', h') \<and> ptree_at h' root' t' \<and>
    inorder t' = ws @ xs \<and> map (val h') (ws @ xs) = map (val h) (ws @ xs)"
proof -
  have d: "distinct (inorder t)" using at by (simp add: ptree_at_def)
  have "x \<in> set_tree t" using io by (metis in_set_conv_decomp set_inorder)
  from zipper_of [OF this] obtain c l r where t: "t = plug c (Node l x r)" by blast
  have "ws @ x # xs = (lefts c @ inorder l) @ x # (inorder r @ rights c)"
    using io t by (simp add: inorder_plug)
  moreover have x_out: "x \<notin> set ws" "x \<notin> set xs" using d unfolding io by simp_all
  ultimately have eq: "ws = lefts c @ inorder l" "xs = inorder r @ rights c"
    using append_Cons_eq_iff [of x ws xs "lefts c @ inorder l" "inorder r @ rights c"] by blast+
  from at t remove_node_plug obtain root' h' where h':
    "remove_node root x h = Some (val h x, root', h')" "ptree_at h' root' (plug c (join_trees l r))"
    "\<forall>y. y \<noteq> x \<longrightarrow> map_option pt_value (h' y) = map_option pt_value (h y)" by metis
  have "val h' y = val h y" if "y \<in> set (ws @ xs)" for y
  proof (rule val_eqI)
    show "map_option pt_value (h' y) = map_option pt_value (h y)" using that x_out h'(3) by auto
    have "y \<in> set (inorder t)" using that io by auto
    then show "h y \<noteq> None" using at tree_at_dom [of h NULL t y] by (auto simp: ptree_at_def)
  qed
  then have "map (val h') (ws @ xs) = map (val h) (ws @ xs)" by simp
  moreover have "inorder (plug c (join_trees l r)) = ws @ xs"
    by (simp add: eq inorder_plug inorder_join_trees)
  ultimately show ?thesis using h'(1,2) by blast
qed

lemma removing_step:
  assumes "removing_inv p es st (x # xs)"
  shows "\<exists>st'. visit (removing_walker p) x level st = Some (PTREE_WALK_CONTINUE, st') \<and> removing_inv p es st' xs"
proof -
  obtain h root seen where st: "st = (h, root, seen)" by (cases st) auto
  from assms st obtain t ws where at: "ptree_at h root t" and io: "inorder t = ws @ x # xs"
    and ws: "map (val h) ws = filter (\<lambda>v. \<not> p v) seen" and es: "seen @ val h x # map (val h) xs = es"
    by (auto simp: removing_inv_def)
  have "x \<noteq> NULL \<and> x \<in> dom h"
    using at io tree_at_dom [of h NULL t x] set_inorder [of t] by (auto simp: ptree_at_def)
  then obtain n where n: "h x = Some n" "val h x = pt_value n" "x \<noteq> NULL" by (auto simp: val_def)
  show ?thesis
  proof (cases "p (val h x)")
    case True
    from remove_node_at [OF at io] obtain root' h' t' where r:
      "remove_node root x h = Some (val h x, root', h')" "ptree_at h' root' t'" "inorder t' = ws @ xs"
      "map (val h') (ws @ xs) = map (val h) (ws @ xs)" by blast
    have "removing_inv p es (h', root', seen @ [val h x]) xs"
      using r(2-4) ws es True by (auto simp: removing_inv_def)
    then show ?thesis using n r(1) True st
      by (auto simp: visit_def removing_walker_def ptree_inorder_walk_remove_def)
  next
    case False
    have "removing_inv p es (h, root, seen @ [val h x]) xs"
      using at io ws es False unfolding removing_inv_def
      by (auto intro!: exI [of _ t] exI [of _ "ws @ [x]"])
    then show ?thesis using n False st by (auto simp: visit_def removing_walker_def)
  qed
qed

lemma removing_walk_at:
  assumes "ptree_rep (root, h) es"
  shows "\<exists>root' h'. ptree_walk root PTREE_INORDER (removing_walker p) (h, root, []) =
      Some (PTREE_WALK_CONTINUE, h', root', es) \<and> ptree_rep (root', h') (filter (\<lambda>v. \<not> p v) es)"
proof -
  from assms obtain t where at: "ptree_at h root t" and es: "map (val h) (inorder t) = es"
    by (auto simp: ptree_rep_def)
  obtain level where w: "walk_int (visit (removing_walker p)) PTREE_INORDER root 0 (h, root, []) =
      walk_inorder (visit (removing_walker p)) (hd (inorder t @ [NULL])) level (h, root, [])"
    using walk_int_inorder [of "(h, root, [])" root t "visit (removing_walker p)" 0] at by auto
  have "\<exists>res st'. walk_inorder (visit (removing_walker p)) (hd (inorder t @ [NULL])) level (h, root, []) =
      Some (res, st') \<and> (if res = PTREE_WALK_CONTINUE then removing_inv p es st' [] else False)"
  proof (rule walk_inorder_rule [where I = "removing_inv p es" and J = "\<lambda>_. False"])
    show "removing_inv p es (h, root, []) (inorder t)" using at es by (auto simp: removing_inv_def)
  next
    fix st x xs
    assume "removing_inv p es st (x # xs)"
    then obtain t ws root where "ptree_at (fst st) root t" "inorder t = ws @ x # xs"
      by (auto simp: removing_inv_def)
    moreover from this have "x \<noteq> NULL"
      using tree_at_dom [of "fst st" NULL t x] set_inorder [of t] by (auto simp: ptree_at_def)
    ultimately show "x \<noteq> NULL \<and> (\<exists>root t ws. ptree_at (fst st) root t \<and> inorder t = ws @ x # xs)" by blast
  next
    fix st x xs and level :: int
    assume "removing_inv p es st (x # xs)"
    from removing_step [OF this] show "\<exists>res st'. visit (removing_walker p) x level st = Some (res, st') \<and>
      (if res = PTREE_WALK_CONTINUE then removing_inv p es st' xs else False)" by force
  qed
  then obtain h' root' seen where w': "walk_inorder (visit (removing_walker p)) (hd (inorder t @ [NULL])) level
      (h, root, []) = Some (PTREE_WALK_CONTINUE, h', root', seen)"
    "removing_inv p es (h', root', seen) []" by (auto split: if_splits)
  then show ?thesis using w by (auto simp: ptree_walk_def removing_inv_def ptree_rep_def)
qed

subsection \<open>The contract of an ordered store\<close>

text \<open>The laws of a comparison callback.\<close>

locale cmp_order =
  fixes cmp :: "'v \<Rightarrow> 'v \<Rightarrow> int"
  assumes cmp_self: "cmp a a = 0"
    and cmp_flip: "cmp a b < 0 \<longleftrightarrow> cmp b a > 0"
    and cmp_trans: "cmp a b \<le> 0 \<Longrightarrow> cmp b c \<le> 0 \<Longrightarrow> cmp a c \<le> 0"
    and cmp_trans_less: "cmp a b \<le> 0 \<Longrightarrow> cmp b c < 0 \<Longrightarrow> cmp a c < 0"
begin

lemma cmp_zero_flip: "cmp a b = 0 \<longleftrightarrow> cmp b a = 0"
  using cmp_flip [of a b] cmp_flip [of b a] by linarith

lemma cmp_zero_left:
  assumes "cmp a b = 0"
  shows "cmp a c < 0 \<longleftrightarrow> cmp b c < 0" and "cmp a c = 0 \<longleftrightarrow> cmp b c = 0"
proof -
  have ba: "cmp b a = 0" using assms cmp_zero_flip by blast
  show less: "cmp a c < 0 \<longleftrightarrow> cmp b c < 0"
    using cmp_trans_less [of a b c] cmp_trans_less [of b a c] assms ba by auto
  have "cmp a c \<le> 0 \<longleftrightarrow> cmp b c \<le> 0"
    using cmp_trans [of a b c] cmp_trans [of b a c] assms ba by auto
  with less show "cmp a c = 0 \<longleftrightarrow> cmp b c = 0" by linarith
qed

lemma cmp_zero_right: "cmp a b = 0 \<Longrightarrow> cmp c a < 0 \<longleftrightarrow> cmp c b < 0"
  using cmp_zero_left [of a b c] cmp_flip [of c a] cmp_flip [of c b] cmp_zero_flip [of a c] cmp_zero_flip [of b c]
  by linarith

lemma sorted_sign_sorted: "sorted_wrt (\<lambda>a b. cmp a b < 0) es \<Longrightarrow> sign_sorted (cmp v) es"
  unfolding sign_sorted_def by (erule sorted_wrt_mono_rel [rotated]) (auto intro: cmp_trans_less)

lemma set_sl_put: "set (sl_put (cmp v) v es) \<subseteq> insert v (set es)"
  by (induction es) auto

lemma sorted_sl_put:
  "sorted_wrt (\<lambda>a b. cmp a b < 0) es \<Longrightarrow> sorted_wrt (\<lambda>a b. cmp a b < 0) (sl_put (cmp v) v es)"
proof (induction es)
  case (Cons e es)
  consider "cmp v e < 0" | "cmp v e = 0" | "cmp v e > 0" by linarith
  then show ?case
  proof cases
    case 1
    then have "\<forall>x \<in> set es. cmp v x < 0" using Cons.prems cmp_trans_less [of v e] by auto
    with 1 show ?thesis using Cons.prems by simp
  next
    case 2
    then have "\<forall>x \<in> set es. cmp v x < 0" using Cons.prems cmp_trans_less [of v e] by auto
    with 2 show ?thesis using Cons.prems by simp
  next
    case 3
    then have "cmp e v < 0" using cmp_flip by blast
    then show ?thesis using 3 Cons set_sl_put [of v es] by auto
  qed
qed simp

lemma sorted_sl_del:
  "sorted_wrt (\<lambda>a b. cmp a b < 0) es \<Longrightarrow> sorted_wrt (\<lambda>a b. cmp a b < 0) (sl_del f es)"
proof (induction es)
  case (Cons e es)
  have "set (sl_del f es) \<subseteq> set es" by (induction es) auto
  with Cons show ?case by auto
qed simp

lemma sl_get_del: 
  assumes "sorted_wrt (\<lambda>a b. cmp a b < 0) es"
  shows "sl_get (cmp w) (sl_del (cmp v) es) = (if cmp w v = 0 then None else sl_get (cmp w) es)"
  using assms
proof (induction es)
  case (Cons e es)
  show ?case
  proof (cases "cmp v e = 0")
    case True
    have "sl_get (cmp w) es = None" if "cmp w v = 0"
    proof (rule sl_get_neg, rule ballI)
      fix x assume "x \<in> set es"
      then have "cmp e x < 0" using Cons.prems by simp
      then show "cmp w x < 0" using cmp_zero_left [OF True] cmp_zero_left [OF that] by blast
    qed
    moreover have "cmp w e = 0 \<longleftrightarrow> cmp w v = 0"
      using cmp_zero_left(2) [OF True, of w] cmp_zero_flip [of w] by blast
    ultimately show ?thesis using True by simp
  next
    case False
    have "cmp w e \<noteq> 0" if "cmp w v = 0" using cmp_zero_left(2) [OF that] False by blast
    then show ?thesis using False Cons by auto
  qed
qed simp

lemma sl_get_put:
  assumes "sorted_wrt (\<lambda>a b. cmp a b < 0) es"
  shows "sl_get (cmp w) (sl_put (cmp v) v es) = (if cmp w v = 0 then Some v else sl_get (cmp w) es)"
  using assms
proof (induction es)
  case (Cons e es)
  have "cmp w e = 0 \<longleftrightarrow> cmp w v = 0" if "cmp v e = 0"
    using cmp_zero_left(2) [OF that, of w] cmp_zero_flip [of w] by blast
  moreover have "cmp w e \<noteq> 0" if "cmp v e \<noteq> 0" "cmp w v = 0"
    using cmp_zero_left(2) [OF that(2)] that(1) by blast
  ultimately show ?case using Cons by auto
qed simp

end

text \<open>What the dictionary relies on: lookup, insertion or replacement, removal.\<close>

locale ordered_store = cmp_order cmp
  for cmp :: "'v \<Rightarrow> 'v \<Rightarrow> int" +
  fixes rep :: "'s \<Rightarrow> 'v list \<Rightarrow> bool"
    and fresh :: "ptr \<Rightarrow> 's \<Rightarrow> bool"
    and replace :: "'v \<Rightarrow> ptr \<Rightarrow> 's \<Rightarrow> (int \<times> 'v option option \<times> 's) option"
    and remove :: "'v \<Rightarrow> 's \<Rightarrow> (int \<times> 'v option \<times> 's) option"
    and contains :: "'v \<Rightarrow> 's \<Rightarrow> (int \<times> 'v option) option"
  assumes rep_sorted: "rep s es \<Longrightarrow> sorted_wrt (\<lambda>a b. cmp a b < 0) es"
    and replace_rep: "rep s es \<Longrightarrow> fresh n s \<Longrightarrow>
      \<exists>s'. replace v n s = Some (1, Some (sl_get (cmp v) es), s') \<and> rep s' (sl_put (cmp v) v es)"
    and remove_rep: "rep s es \<Longrightarrow> \<exists>s'. remove v s =
      Some (if sl_get (cmp v) es = None then 0 else 1, sl_get (cmp v) es, s') \<and> rep s' (sl_del (cmp v) es)"
    and contains_rep: "rep s es \<Longrightarrow> contains v s =
      Some (case sl_get (cmp v) es of None \<Rightarrow> (0, None) | Some e \<Rightarrow> (1, Some e))"
begin

lemma replace_contains:
  assumes "rep s es" and "fresh n s"
  shows "\<exists>s'. replace v n s = Some (1, Some (sl_get (cmp v) es), s') \<and> rep s' (sl_put (cmp v) v es) \<and>
    contains w s' = (if cmp w v = 0 then Some (1, Some v) else contains w s)"
proof -
  obtain s' where s': "replace v n s = Some (1, Some (sl_get (cmp v) es), s')" "rep s' (sl_put (cmp v) v es)"
    using replace_rep [OF assms] by blast
  then show ?thesis
    using contains_rep [OF s'(2), of w] contains_rep [OF assms(1), of w] sl_get_put [OF rep_sorted [OF assms(1)]]
    by auto
qed

lemma remove_contains:
  assumes "rep s es"
  shows "\<exists>s'. remove v s = Some (if sl_get (cmp v) es = None then 0 else 1, sl_get (cmp v) es, s') \<and>
    rep s' (sl_del (cmp v) es) \<and>
    contains w s' = (if cmp w v = 0 then Some (0, None) else contains w s)"
proof -
  obtain s' where s': "remove v s = Some (if sl_get (cmp v) es = None then 0 else 1, sl_get (cmp v) es, s')"
    "rep s' (sl_del (cmp v) es)"
    using remove_rep [OF assms] by blast
  then show ?thesis
    using contains_rep [OF s'(2), of w] contains_rep [OF assms(1), of w] sl_get_del [OF rep_sorted [OF assms(1)]]
    by auto
qed

end

definition sorted_tree :: "('v \<Rightarrow> 'v \<Rightarrow> int) \<Rightarrow> ptr \<times> 'v ptree_heap \<Rightarrow> 'v list \<Rightarrow> bool" where
  "sorted_tree cmp s es \<longleftrightarrow> ptree_rep s es \<and> sorted_wrt (\<lambda>a b. cmp a b < 0) es"

definition fresh_node :: "ptr \<Rightarrow> ptr \<times> 'v ptree_heap \<Rightarrow> bool" where
  "fresh_node n s \<longleftrightarrow> n \<notin> dom (snd s) \<and> n \<noteq> NULL"

definition tree_replace ::
    "('v \<Rightarrow> 'v \<Rightarrow> int) \<Rightarrow> 'v \<Rightarrow> ptr \<Rightarrow> ptr \<times> 'v ptree_heap \<Rightarrow> (int \<times> 'v option option \<times> ptr \<times> 'v ptree_heap) option" where
  "tree_replace cmp v n s = ptree_replace cmp v n (fst s) (snd s)"

definition tree_remove ::
    "('v \<Rightarrow> 'v \<Rightarrow> int) \<Rightarrow> 'v \<Rightarrow> ptr \<times> 'v ptree_heap \<Rightarrow> (int \<times> 'v option \<times> ptr \<times> 'v ptree_heap) option" where
  "tree_remove cmp v s = ptree_remove cmp v (fst s) (snd s)"

definition tree_contains ::
    "('v \<Rightarrow> 'v \<Rightarrow> int) \<Rightarrow> 'v \<Rightarrow> ptr \<times> 'v ptree_heap \<Rightarrow> (int \<times> 'v option) option" where
  "tree_contains cmp v s = ptree_contains cmp v (fst s) (snd s)"

lemmas tree_defs = sorted_tree_def fresh_node_def tree_replace_def tree_remove_def tree_contains_def

lemma tree_ordered_store:
  assumes cmp: "cmp_order cmp"
  shows "ordered_store cmp (sorted_tree cmp) fresh_node (tree_replace cmp) (tree_remove cmp) (tree_contains cmp)"
proof (intro ordered_store.intro [OF cmp] ordered_store_axioms.intro)
  fix s es n v
  assume s: "sorted_tree cmp s es"
  then show "sorted_wrt (\<lambda>a b. cmp a b < 0) es" by (simp add: tree_defs)
  have rep: "ptree_rep (fst s, snd s) es" and ss: "sign_sorted (cmp v) es"
    using s by (simp_all add: tree_defs cmp_order.sorted_sign_sorted [OF cmp])
  show "tree_contains cmp v s = Some (case sl_get (cmp v) es of None \<Rightarrow> (0, None) | Some e \<Rightarrow> (1, Some e))"
    using ptree_contains_rep [of "fst s" "snd s" es cmp v] rep ss by (simp add: tree_defs)
  obtain root' h' where "ptree_remove cmp v (fst s) (snd s) =
      Some (if sl_get (cmp v) es = None then 0 else 1, sl_get (cmp v) es, root', h')"
    "ptree_rep (root', h') (sl_del (cmp v) es)"
    using ptree_remove_rep [of "fst s" "snd s" es cmp v] rep ss by blast
  then show "\<exists>s'. tree_remove cmp v s =
      Some (if sl_get (cmp v) es = None then 0 else 1, sl_get (cmp v) es, s') \<and>
      sorted_tree cmp s' (sl_del (cmp v) es)"
    using s by (auto simp: tree_defs cmp_order.sorted_sl_del [OF cmp])
  show "\<exists>s'. tree_replace cmp v n s = Some (1, Some (sl_get (cmp v) es), s') \<and>
      sorted_tree cmp s' (sl_put (cmp v) v es)" if "fresh_node n s"
  proof -
    from that have "n \<notin> dom (snd s)" "n \<noteq> NULL" by (simp_all add: tree_defs)
    then obtain root' h' where
      "ptree_replace cmp v n (fst s) (snd s) = Some (1, Some (sl_get (cmp v) es), root', h')"
      "ptree_rep (root', h') (sl_put (cmp v) v es)"
      using ptree_replace_rep [of "fst s" "snd s" es cmp v n] rep ss by blast
    then show ?thesis using s by (auto simp: tree_defs cmp_order.sorted_sl_put [OF cmp])
  qed
qed

sublocale cmp_order \<subseteq> tree: ordered_store cmp "sorted_tree cmp" fresh_node
    "tree_replace cmp" "tree_remove cmp" "tree_contains cmp"
  by (rule tree_ordered_store [OF cmp_order_axioms])

lemma tree_contains_get:
  assumes "cmp_order cmp" and "sorted_tree cmp s es"
  shows "tree_contains cmp v s = Some (if sl_get (cmp v) es = None then 0 else 1, sl_get (cmp v) es)"
  using ordered_store.contains_rep [OF tree_ordered_store [OF assms(1)] assms(2), of v]
  by (auto split: option.splits)

subsection \<open>Properties\<close>

text \<open>C12. The tree is an ordered map: for every lawful comparison, \<^verbatim>\<open>ptree_replace\<close> on a
  well-formed tree (parent pointers consistent, values in ascending order) with a fresh
  node returns 1 and the value it replaces (null when there was none), keeps the tree
  well formed, and a later \<^verbatim>\<open>ptree_contains\<close> of any key finds the new value when the
  key is equal and is unchanged otherwise.\<close>

theorem ptree_replace_map:
  assumes cmp: "cmp_order cmp" and rep: "ptree_rep (root, h) es"
    and sorted: "sorted_wrt (\<lambda>a b. cmp a b < 0) es" and n: "n \<notin> dom h" "n \<noteq> NULL"
  shows "\<exists>root' h' old. ptree_replace cmp v n root h = Some (1, Some old, root', h') \<and>
    ptree_contains cmp v root h = Some (if old = None then 0 else 1, old) \<and>
    (\<exists>es'. ptree_rep (root', h') es' \<and> sorted_wrt (\<lambda>a b. cmp a b < 0) es') \<and>
    ptree_contains cmp w root' h' = (if cmp w v = 0 then Some (1, Some v) else ptree_contains cmp w root h)"
proof -
  have s: "sorted_tree cmp (root, h) es" "fresh_node n (root, h)" using rep sorted n by (simp_all add: tree_defs)
  from ordered_store.replace_contains [OF tree_ordered_store [OF cmp] s, of v w] obtain s' where
    "tree_replace cmp v n (root, h) = Some (1, Some (sl_get (cmp v) es), s')"
    "sorted_tree cmp s' (sl_put (cmp v) v es)"
    "tree_contains cmp w s' = (if cmp w v = 0 then Some (1, Some v) else tree_contains cmp w (root, h))" by blast
  then show ?thesis using tree_contains_get [OF cmp s(1), of v] by (cases s') (auto simp: tree_defs)
qed

definition int_cmp :: "int \<Rightarrow> int \<Rightarrow> int" where
  "int_cmp a b = a - b"

lemma int_cmp_order: "cmp_order int_cmp"
  by unfold_locales (auto simp: int_cmp_def)

text \<open>A tree with the values 3, 5, 8, and its root.\<close>

definition small_tree :: "int ptree_heap" where
  "small_tree =
     [1 \<mapsto> \<lparr>pt_value = 5, pt_parent = 0, pt_left = 2, pt_right = 3\<rparr>,
      2 \<mapsto> \<lparr>pt_value = 3, pt_parent = 1, pt_left = 0, pt_right = 0\<rparr>,
      3 \<mapsto> \<lparr>pt_value = 8, pt_parent = 1, pt_left = 0, pt_right = 0\<rparr>]"

lemma small_tree_at: "ptree_at small_tree 1 (Node (Node Leaf 2 Leaf) 1 (Node Leaf 3 Leaf))"
  by (simp add: ptree_at_def small_tree_def NULL_def)

lemma small_tree_rep: "ptree_rep (1, small_tree) [3, 5, 8]"
  unfolding ptree_rep_def using small_tree_at
  by (intro exI [of _ "Node (Node Leaf 2 Leaf) 1 (Node Leaf 3 Leaf)"]) (simp add: val_def small_tree_def)

lemma small_tree_sorted: "sorted_wrt (\<lambda>a b. int_cmp a b < 0) [3, 5, 8]"
  by (simp add: int_cmp_def)

theorem ptree_replace_map_witness:
  "\<exists>root' h' old. ptree_replace int_cmp 7 9 1 small_tree = Some (1, Some old, root', h') \<and>
    ptree_contains int_cmp 7 1 small_tree = Some (if old = None then 0 else 1, old) \<and>
    (\<exists>es'. ptree_rep (root', h') es' \<and> sorted_wrt (\<lambda>a b. int_cmp a b < 0) es') \<and>
    ptree_contains int_cmp 7 root' h' = Some (1, Some 7)"
proof -
  have "9 \<notin> dom small_tree" "(9 :: ptr) \<noteq> NULL" "int_cmp 7 7 = 0"
    by (simp_all add: small_tree_def NULL_def int_cmp_def)
  with ptree_replace_map [OF int_cmp_order small_tree_rep small_tree_sorted this(1,2), of 7 7]
  show ?thesis by (simp only: simp_thms if_True)
qed

text \<open>C13. \<^verbatim>\<open>ptree_remove\<close>, with its three ways of unlinking a node: on a well-formed
  tree \<open>t\<close> with ascending values it hands out the value of the equal key and returns 1, or returns 0 when there is
  none and then leaves root and heap as they are.  When it returns 1, the tree that is left is well formed and made of the
  same nodes but one, in the same order and with the same values; that one held the value handed out and is freed, and
  nothing behind the tree is written.  In either case the key is not found afterwards, while every other key is found as
  before.\<close>

theorem ptree_remove_map:
  assumes cmp: "cmp_order cmp" and at: "ptree_at h root t"
    and sorted: "sorted_wrt (\<lambda>a b. cmp a b < 0) (map (val h) (inorder t))"
  shows "\<exists>root' h' t' ov. ptree_remove cmp v root h = Some (if ov = None then 0 else 1, ov, root', h') \<and>
    ptree_contains cmp v root h = Some (if ov = None then 0 else 1, ov) \<and>
    (ov = None \<longrightarrow> root' = root \<and> h' = h \<and> t' = t) \<and>
    (\<forall>e. ov = Some e \<longrightarrow> (\<exists>x ls rs. inorder t = ls @ x # rs \<and> inorder t' = ls @ rs \<and>
       map_option pt_value (h x) = Some e \<and> h' x = None \<and>
       (\<forall>y. y \<noteq> x \<longrightarrow> map_option pt_value (h' y) = map_option pt_value (h y)) \<and> (\<forall>y. y \<notin> set_tree t \<longrightarrow> h' y = h y))) \<and>
    ptree_at h' root' t' \<and> sorted_wrt (\<lambda>a b. cmp a b < 0) (map (val h') (inorder t')) \<and>
    ptree_contains cmp w root' h' = (if cmp w v = 0 then Some (0, None) else ptree_contains cmp w root h)"
proof -
  let ?es = "map (val h) (inorder t)"
  have rep: "ptree_rep (root, h) ?es" using at by (auto simp: ptree_rep_def)
  have s: "sorted_tree cmp (root, h) ?es" using rep sorted by (simp add: tree_defs)
  from ptree_remove_at [of h root t ?es cmp v, OF at refl cmp_order.sorted_sign_sorted [OF cmp sorted]] obtain root' h' t' where
    1: "ptree_remove cmp v root h = Some (if sl_get (cmp v) ?es = None then 0 else 1, sl_get (cmp v) ?es, root', h')"
    "ptree_at h' root' t'" "map (val h') (inorder t') = sl_del (cmp v) ?es"
    "case sl_get (cmp v) ?es of None \<Rightarrow> root' = root \<and> h' = h \<and> t' = t | Some e \<Rightarrow> unlinked h t e h' t'" by blast
  from ordered_store.remove_contains [OF tree_ordered_store [OF cmp] s, of v w] 1(1) have
    "sorted_tree cmp (root', h') (sl_del (cmp v) ?es)"
    "tree_contains cmp w (root', h') = (if cmp w v = 0 then Some (0, None) else tree_contains cmp w (root, h))"
    by (auto simp: tree_remove_def)
  then show ?thesis using 1 tree_contains_get [OF cmp s, of v]
    by (intro exI [of _ root'] exI [of _ h'] exI [of _ t'] exI [of _ "sl_get (cmp v) ?es"])
      (auto simp: tree_defs unlinked_def split: option.splits)
qed

theorem ptree_remove_map_witness:
  "(\<exists>root' h' t' x. ptree_remove int_cmp 5 1 small_tree = Some (1, Some 5, root', h') \<and>
      h' x = None \<and> map_option pt_value (small_tree x) = Some 5 \<and> ptree_at h' root' t' \<and> length (inorder t') = 2) \<and>
    (\<exists>root' h'. ptree_remove int_cmp 4 1 small_tree = Some (0, None, root', h') \<and> h' = small_tree \<and> root' = 1)"
proof -
  let ?t = "Node (Node Leaf 2 Leaf) 1 (Node Leaf 3 Leaf) :: ptr tree"
  have v: "map (val small_tree) (inorder ?t) = [3, 5, 8]" by (simp add: val_def small_tree_def)
  have so: "sorted_wrt (\<lambda>a b. int_cmp a b < 0) (map (val small_tree) (inorder ?t))" unfolding v by (simp add: int_cmp_def)
  have c: "ptree_contains int_cmp 5 1 small_tree = Some (1, Some 5)" "ptree_contains int_cmp 4 1 small_tree = Some (0, None)"
    using ptree_contains_rep [OF small_tree_rep, of int_cmp 5] ptree_contains_rep [OF small_tree_rep, of int_cmp 4]
    by (simp_all add: sign_sorted_def int_cmp_def)
  note p = ptree_remove_map [OF int_cmp_order small_tree_at so]
  obtain root1 h1 t1 ov where q: "ptree_remove int_cmp 5 1 small_tree = Some (if ov = None then 0 else 1, ov, root1, h1)"
      "ptree_contains int_cmp 5 1 small_tree = Some (if ov = None then 0 else 1, ov)" "ptree_at h1 root1 t1"
      "\<forall>e. ov = Some e \<longrightarrow> (\<exists>x ls rs. inorder ?t = ls @ x # rs \<and> inorder t1 = ls @ rs \<and>
       map_option pt_value (small_tree x) = Some e \<and> h1 x = None)"
    using p [of 5 5] by blast
  have "ov = Some 5" using q(2) c(1) by (simp split: if_splits)
  then obtain x ls rs where e: "inorder ?t = ls @ x # rs" "inorder t1 = ls @ rs" "map_option pt_value (small_tree x) = Some 5" "h1 x = None"
    using q(4) by blast
  have q1: "ptree_remove int_cmp 5 1 small_tree = Some (1, Some 5, root1, h1)" using q(1) \<open>ov = Some 5\<close> by simp
  have "length (inorder ?t) = 3" by simp
  then have "length (inorder t1) = 2" unfolding e(1,2) by simp
  moreover from p [of 4 5] c(2) have "\<exists>root' h'. ptree_remove int_cmp 4 1 small_tree = Some (0, None, root', h') \<and> h' = small_tree \<and> root' = 1"
    by (auto split: if_splits)
  ultimately show ?thesis using q1 q(3) e(3,4) by blast
qed

text \<open>The in-order walk survives the removal of the node it stands on: a walk whose
  callback unlinks every node whose value satisfies \<open>p\<close> visits each value once, in
  order, follows no dangling pointer, and leaves a well-formed tree of exactly the
  other values.\<close>

theorem walk_remove_filters:
  assumes "ptree_rep (root, h) es"
  shows "\<exists>root' h'. ptree_walk root PTREE_INORDER (removing_walker p) (h, root, []) =
      Some (PTREE_WALK_CONTINUE, h', root', es) \<and> ptree_rep (root', h') (filter (\<lambda>v. \<not> p v) es)"
  by (rule removing_walk_at [OF assms])

theorem walk_remove_filters_witness:
  "\<exists>root' h'. ptree_walk 1 PTREE_INORDER (removing_walker (\<lambda>v. v > 4)) (small_tree, 1, []) =
      Some (PTREE_WALK_CONTINUE, h', root', [3, 5, 8]) \<and> ptree_rep (root', h') [3]"
  using walk_remove_filters [OF small_tree_rep, of "\<lambda>v. v > 4"] by simp

text \<open>\<^verbatim>\<open>ptree_clear\<close> frees every node of the tree exactly once, reads no freed node,
  touches nothing else and clears the root.\<close>

theorem ptree_clear_frees_all:
  assumes "ptree_at h root t"
  shows "ptree_clear root h = Some (NULL, h |` (- set_tree t))"
  by (rule ptree_clear_at [OF assms])

theorem ptree_clear_frees_all_witness:
  "ptree_clear 1 small_tree = Some (NULL, small_tree |` (- {1, 2, 3}))"
  using ptree_clear_frees_all [OF small_tree_at] by (simp add: insert_commute)

end
