(* ===== verification/Pdict.thy ===== *)
theory Pdict
  imports Plist Ptree
begin

text \<open>
  The phidget dictionary of \<^verbatim>\<open>dict/pdict.c\<close>: entries with change listeners, and
  persistent listeners that follow every entry whose key matches a pattern.  The tree of
  entries and the listener lists appear as the sequences that \<^verbatim>\<open>Ptree\<close> and
  \<^verbatim>\<open>Plist\<close> prove them to represent (\<open>sl_get\<close>, \<open>sl_put\<close>, \<open>sl_del\<close>
  under the comparison \<^verbatim>\<open>pdecmp\<close>; append and removal of the first match).  The outcomes
  of the allocations are a list of booleans that every operation consumes (an empty list
  stands for memory that does not run out), the calls of notification functions are a log,
  and the POSIX regular expressions are parameters.
\<close>

subsection \<open>Data\<close>

type_synonym cstr = "u8 list"

datatype pdict_reason = PDR_VALUE_CHANGED | PDR_ENTRY_ADDED | PDR_ENTRY_REMOVING | PDR_CURRENT_VALUE

record pdict_listener =
  pdl_notify :: nat
  pdl_arg :: nat

record pdict_ent =
  pde_key :: cstr
  pde_val :: cstr
  pde_listeners :: "pdict_listener list"

record 'r pdict_persistent_listener =
  pdpl_l :: pdict_listener
  pdpl_regex :: 'r
  pdpl_new :: bool

record 'r pdict =
  pd_ents :: "pdict_ent list"
  pd_persistent_listeners :: "(nat \<times> 'r pdict_persistent_listener) list"

text \<open>A call of a notification function: the function and its argument, key, value (null
  when a copy failed), reason, old value.\<close>

datatype pd_event = Notify pdict_listener "cstr option" "cstr option" pdict_reason "cstr option"

type_synonym mem = "bool list"

fun alloc :: "mem \<Rightarrow> bool \<times> mem" where
  "alloc [] = (True, [])"
| "alloc (b # bs) = (b, bs)"

definition strdup :: "cstr \<Rightarrow> mem \<Rightarrow> cstr option \<times> mem" where
  "strdup s mem = (case alloc mem of (ok, mem) \<Rightarrow> (if ok then Some s else None, mem))"

text \<open>The sign of \<^verbatim>\<open>strcmp\<close> on the contents of two C strings.\<close>

fun strcmp :: "cstr \<Rightarrow> cstr \<Rightarrow> int" where
  "strcmp [] [] = 0"
| "strcmp [] (b # bs) = - 1"
| "strcmp (a # as) [] = 1"
| "strcmp (a # as) (b # bs) = (if a = b then strcmp as bs else if a < b then - 1 else 1)"

definition pdecmp :: "pdict_ent \<Rightarrow> pdict_ent \<Rightarrow> int" where
  "pdecmp s d = strcmp (pde_key s) (pde_key d)"

text \<open>The address of a key, seen as an entry that begins with it.\<close>

definition key_ent :: "cstr \<Rightarrow> pdict_ent" where
  "key_ent k = \<lparr>pde_key = k, pde_val = [], pde_listeners = []\<rparr>"

subsection \<open>Listeners of an entry\<close>

text \<open>\<^verbatim>\<open>_pdict_ent_add_change_listener\<close>: two allocations, the listener and its list node.\<close>

definition ent_add_change_listener ::
    "pdict_ent \<Rightarrow> pdict_listener \<Rightarrow> mem \<Rightarrow> int \<times> pdict_ent \<times> mem" where
  "ent_add_change_listener pde l mem = (case alloc mem of (ok1, mem) \<Rightarrow>
     if \<not> ok1 then (0, pde, mem)
     else case alloc mem of (ok2, mem) \<Rightarrow>
       if \<not> ok2 then (0, pde, mem)
       else (1, pde\<lparr>pde_listeners := pde_listeners pde @ [l]\<rparr>, mem))"

text \<open>\<^verbatim>\<open>_pdict_ent_remove_change_listener\<close>: the walk finds the first listener with the
  same function and argument, which is then removed from the list.\<close>

definition ent_remove_change_listener :: "pdict_ent \<Rightarrow> pdict_listener \<Rightarrow> int \<times> pdict_ent" where
  "ent_remove_change_listener pde l =
     (if l \<in> set (pde_listeners pde) then (1, pde\<lparr>pde_listeners := remove1 l (pde_listeners pde)\<rparr>)
      else (0, pde))"

text \<open>\<^verbatim>\<open>_pdict_ent_listeners_copy\<close>: the walk stops when an allocation fails.\<close>

fun ent_listeners_copy :: "pdict_listener list \<Rightarrow> pdict_ent \<Rightarrow> mem \<Rightarrow> pdict_ent \<times> mem" where
  "ent_listeners_copy [] pde_copy mem = (pde_copy, mem)"
| "ent_listeners_copy (l # ls) pde_copy mem =
     (case ent_add_change_listener pde_copy l mem of (r, pde_copy, mem) \<Rightarrow>
        if r = 0 then (pde_copy, mem) else ent_listeners_copy ls pde_copy mem)"

text \<open>\<^verbatim>\<open>_pdict_ent_notify\<close>\<close>

definition ent_notify ::
    "pdict_listener list \<Rightarrow> cstr option \<Rightarrow> cstr option \<Rightarrow> pdict_reason \<Rightarrow> cstr option \<Rightarrow> pd_event list" where
  "ent_notify ls k v r ov = map (\<lambda>l. Notify l k v r ov) ls"

text \<open>The block that copies an entry and notifies the copy's listeners (lines 110--118,
  144--152).\<close>

definition notify_copy ::
    "pdict_ent \<Rightarrow> pdict_reason \<Rightarrow> cstr option \<Rightarrow> bool \<Rightarrow> mem \<Rightarrow> pd_event list \<times> mem" where
  "notify_copy n reason ov ov_is_copy mem =
     (if pde_listeners n = [] then ([], mem)
      else case strdup (pde_key n) mem of (k, mem) \<Rightarrow>
        case strdup (pde_val n) mem of (v, mem) \<Rightarrow>
        case ent_listeners_copy (pde_listeners n) (key_ent []) mem of (n_copy, mem) \<Rightarrow>
          (ent_notify (pde_listeners n_copy) k v reason (if ov_is_copy then v else ov), mem))"

subsection \<open>Persistent listeners on an entry\<close>

definition REG_NOMATCH :: int where "REG_NOMATCH = 1"

text \<open>\<^verbatim>\<open>_pdict_ent_add_persistent_change_listener\<close>; \<open>rx\<close> is \<^verbatim>\<open>regexec\<close>.\<close>

definition ent_add_persistent ::
    "('r \<Rightarrow> cstr \<Rightarrow> int) \<Rightarrow> pdict_ent \<Rightarrow> 'r pdict_persistent_listener \<Rightarrow> mem \<Rightarrow>
     int \<times> pdict_ent \<times> mem \<times> pd_event list" where
  "ent_add_persistent rx pde pl mem = (let res = rx (pdpl_regex pl) (pde_key pde) in
     if res \<noteq> 0 then (if res = REG_NOMATCH then 1 else 0, pde, mem, [])
     else case ent_add_change_listener pde (pdpl_l pl) mem of (r, pde', mem) \<Rightarrow>
       if r = 0 then (0, pde', mem, [])
       else (1, pde', mem,
         if pdpl_new pl then [Notify (pdpl_l pl) (Some (pde_key pde')) (Some (pde_val pde')) PDR_CURRENT_VALUE None]
         else []))"

text \<open>\<^verbatim>\<open>_pdict_ent_add_persistent_change_listeners\<close> and its undo walk.\<close>

fun ent_add_persistents_walk ::
    "('r \<Rightarrow> cstr \<Rightarrow> int) \<Rightarrow> (nat \<times> 'r pdict_persistent_listener) list \<Rightarrow> pdict_ent \<Rightarrow> mem \<Rightarrow>
     int \<times> pdict_ent \<times> mem \<times> pd_event list" where
  "ent_add_persistents_walk rx [] pde mem = (1, pde, mem, [])"
| "ent_add_persistents_walk rx ((lid, pl) # pls) pde mem =
     (case ent_add_persistent rx pde pl mem of (r, pde, mem, ev) \<Rightarrow>
        if r = 0 then (0, pde, mem, ev)
        else case ent_add_persistents_walk rx pls pde mem of (r, pde, mem, ev') \<Rightarrow> (r, pde, mem, ev @ ev'))"

definition ent_add_persistents ::
    "('r \<Rightarrow> cstr \<Rightarrow> int) \<Rightarrow> 'r pdict \<Rightarrow> pdict_ent \<Rightarrow> mem \<Rightarrow> int \<times> pdict_ent \<times> mem \<times> pd_event list" where
  "ent_add_persistents rx pd pde mem =
     (case ent_add_persistents_walk rx (pd_persistent_listeners pd) pde mem of (r, pde, mem, ev) \<Rightarrow>
        if r = 0 then (0, fold (\<lambda>(lid, pl) pde. snd (ent_remove_change_listener pde (pdpl_l pl)))
                            (pd_persistent_listeners pd) pde, mem, ev)
        else (1, pde, mem, ev))"

subsection \<open>Entries\<close>

definition ents_get :: "cstr \<Rightarrow> pdict_ent list \<Rightarrow> pdict_ent option" where
  "ents_get k = sl_get (pdecmp (key_ent k))"

text \<open>Overwriting an entry of the tree through its pointer.\<close>

definition ents_update :: "cstr \<Rightarrow> (pdict_ent \<Rightarrow> pdict_ent) \<Rightarrow> pdict_ent list \<Rightarrow> pdict_ent list" where
  "ents_update k f = map (\<lambda>e. if pdecmp (key_ent k) e = 0 then f e else e)"

text \<open>\<^verbatim>\<open>pdict_add\<close>: the return value, \<^verbatim>\<open>*ovp\<close> when it is written, the dictionary,
  the allocations left, the notifications.  \<open>ovp\<close> says that the caller passed a pointer; without one the old
  value is freed and the listeners get a null pointer for it.\<close>

definition pdict_add_existing ::
    "bool \<Rightarrow> 'r pdict \<Rightarrow> pdict_ent \<Rightarrow> cstr \<Rightarrow> mem \<Rightarrow> int \<times> cstr option option \<times> 'r pdict \<times> mem \<times> pd_event list" where
  "pdict_add_existing ovp pd n v mem =
     (let ov = (if ovp then Some (pde_val n) else None);
          n' = n\<lparr>pde_val := v\<rparr>;
          pd' = pd\<lparr>pd_ents := ents_update (pde_key n) (\<lambda>e. e\<lparr>pde_val := v\<rparr>) (pd_ents pd)\<rparr>
      in case notify_copy n' PDR_VALUE_CHANGED ov False mem of (ev, mem) \<Rightarrow>
        (1, if ovp then Some ov else None, pd', mem, ev))"

definition pdict_add_new ::
    "('r \<Rightarrow> cstr \<Rightarrow> int) \<Rightarrow> bool \<Rightarrow> 'r pdict \<Rightarrow> cstr \<Rightarrow> cstr \<Rightarrow> mem \<Rightarrow>
     int \<times> cstr option option \<times> 'r pdict \<times> mem \<times> pd_event list" where
  "pdict_add_new rx ovp pd k v mem = (case alloc mem of (ok, mem) \<Rightarrow>
     if \<not> ok then (0, None, pd, mem, [])
     else case ent_add_persistents rx pd \<lparr>pde_key = k, pde_val = v, pde_listeners = []\<rparr> mem of (r, n, mem, ev) \<Rightarrow>
       if r = 0 then (0, None, pd, mem, ev)
       else case alloc mem of (ok, mem) \<Rightarrow>
         if \<not> ok then (0, None, pd, mem, ev)
         else case notify_copy n PDR_ENTRY_ADDED None True mem of (ev', mem) \<Rightarrow>
           (1, if ovp then Some None else None, pd\<lparr>pd_ents := sl_put (pdecmp n) n (pd_ents pd)\<rparr>, mem, ev @ ev'))"

definition pdict_add ::
    "('r \<Rightarrow> cstr \<Rightarrow> int) \<Rightarrow> bool \<Rightarrow> 'r pdict \<Rightarrow> cstr \<Rightarrow> cstr \<Rightarrow> mem \<Rightarrow>
     int \<times> cstr option option \<times> 'r pdict \<times> mem \<times> pd_event list" where
  "pdict_add rx ovp pd k v mem =
     (case strdup k mem of (kd, mem) \<Rightarrow>
        if kd = None then (0, None, pd, mem, [])
        else case strdup v mem of (vd, mem) \<Rightarrow>
          if vd = None then (0, None, pd, mem, [])
          else case ents_get k (pd_ents pd) of
            Some n \<Rightarrow> pdict_add_existing ovp pd n v mem
          | None \<Rightarrow> pdict_add_new rx ovp pd k v mem)"

text \<open>\<^verbatim>\<open>pdict_ent_remove\<close>\<close>

definition pdict_ent_remove :: "'r pdict \<Rightarrow> cstr \<Rightarrow> int \<times> cstr option \<times> 'r pdict \<times> pd_event list" where
  "pdict_ent_remove pd k = (case ents_get k (pd_ents pd) of
     None \<Rightarrow> (0, None, pd, [])
   | Some n \<Rightarrow> (1, Some (pde_val n), pd\<lparr>pd_ents := sl_del (pdecmp (key_ent k)) (pd_ents pd)\<rparr>,
       ent_notify (pde_listeners n) (Some (pde_key n)) (Some (pde_val n)) PDR_ENTRY_REMOVING (Some (pde_val n))))"

text \<open>\<^verbatim>\<open>pdict_ent_lookup\<close>: the return value and the copy of the value.\<close>

definition pdict_ent_lookup :: "'r pdict \<Rightarrow> cstr \<Rightarrow> mem \<Rightarrow> int \<times> cstr option \<times> mem" where
  "pdict_ent_lookup pd k mem = (case ents_get k (pd_ents pd) of
     None \<Rightarrow> (0, None, mem)
   | Some pde \<Rightarrow> (case strdup (pde_val pde) mem of (v, mem) \<Rightarrow> (1, v, mem)))"

definition pdict_ent_add_change_listener :: "'r pdict \<Rightarrow> cstr \<Rightarrow> pdict_listener \<Rightarrow> mem \<Rightarrow> int \<times> 'r pdict \<times> mem" where
  "pdict_ent_add_change_listener pd k l mem = (case ents_get k (pd_ents pd) of
     None \<Rightarrow> (0, pd, mem)
   | Some pde \<Rightarrow> (case ent_add_change_listener pde l mem of (r, pde', mem) \<Rightarrow>
       (r, pd\<lparr>pd_ents := ents_update k (\<lambda>_. pde') (pd_ents pd)\<rparr>, mem)))"

definition pdict_ent_remove_change_listener :: "'r pdict \<Rightarrow> cstr \<Rightarrow> pdict_listener \<Rightarrow> int \<times> 'r pdict" where
  "pdict_ent_remove_change_listener pd k l = (case ents_get k (pd_ents pd) of
     None \<Rightarrow> (0, pd)
   | Some pde \<Rightarrow> (case ent_remove_change_listener pde l of (r, pde') \<Rightarrow>
       (r, pd\<lparr>pd_ents := ents_update k (\<lambda>_. pde') (pd_ents pd)\<rparr>)))"

text \<open>\<^verbatim>\<open>_pdict_walk_int\<close>: the in-order walk with a callback that may change the entry; it
  stops when the callback does not return 1.\<close>

fun walk_ents :: "(pdict_ent \<Rightarrow> 's \<Rightarrow> int \<times> pdict_ent \<times> 's) \<Rightarrow> pdict_ent list \<Rightarrow> 's \<Rightarrow> int \<times> pdict_ent list \<times> 's" where
  "walk_ents w [] s = (1, [], s)"
| "walk_ents w (e # es) s = (case w e s of (r, e, s) \<Rightarrow>
     if r \<noteq> 1 then (r, e # es, s)
     else case walk_ents w es s of (r, es, s) \<Rightarrow> (r, e # es, s))"

text \<open>\<^verbatim>\<open>pdict_walk\<close>\<close>

definition pdict_walk :: "(cstr \<Rightarrow> cstr \<Rightarrow> 's \<Rightarrow> int \<times> 's) \<Rightarrow> 'r pdict \<Rightarrow> 's \<Rightarrow> int \<times> 's" where
  "pdict_walk w pd s =
     (case walk_ents (\<lambda>e s. case w (pde_key e) (pde_val e) s of (r, s) \<Rightarrow> (r, e, s)) (pd_ents pd) s of
        (r, es, s) \<Rightarrow> (r, s))"

subsection \<open>Registering and removing persistent listeners\<close>

definition add_persistent_dcb ::
    "('r \<Rightarrow> cstr \<Rightarrow> int) \<Rightarrow> 'r pdict_persistent_listener \<Rightarrow> pdict_ent \<Rightarrow> mem \<times> pd_event list \<Rightarrow>
     int \<times> pdict_ent \<times> mem \<times> pd_event list" where
  "add_persistent_dcb rx pl pde s = (case s of (mem, evs) \<Rightarrow>
     case ent_add_persistent rx pde pl mem of (r, pde, mem, ev) \<Rightarrow> (r, pde, mem, evs @ ev))"

definition remove_persistent_dcb :: "'r pdict_persistent_listener \<Rightarrow> pdict_ent \<Rightarrow> unit \<Rightarrow> int \<times> pdict_ent \<times> unit" where
  "remove_persistent_dcb pl pde u = (1, snd (ent_remove_change_listener pde (pdpl_l pl)), ())"

definition remove_from_all :: "'r pdict_persistent_listener \<Rightarrow> pdict_ent list \<Rightarrow> pdict_ent list" where
  "remove_from_all pl es = fst (snd (walk_ents (remove_persistent_dcb pl) es ()))"

text \<open>\<^verbatim>\<open>pdict_add_persistent_change_listener\<close>; \<open>rcomp\<close> is \<^verbatim>\<open>regcomp\<close>, \<open>lid\<close> the
  static counter, which is returned with its new value.\<close>

definition pdict_add_persistent_change_listener ::
    "('r \<Rightarrow> cstr \<Rightarrow> int) \<Rightarrow> (cstr \<Rightarrow> 'r option) \<Rightarrow> nat \<Rightarrow> 'r pdict \<Rightarrow> cstr \<Rightarrow> pdict_listener \<Rightarrow> mem \<Rightarrow>
     nat \<times> nat \<times> 'r pdict \<times> mem \<times> pd_event list" where
  "pdict_add_persistent_change_listener rx rcomp lid pd kpat l mem = (case alloc mem of (ok, mem) \<Rightarrow>
     if \<not> ok then (0, lid, pd, mem, [])
     else case rcomp kpat of
       None \<Rightarrow> (0, lid, pd, mem, [])
     | Some re \<Rightarrow> (case alloc mem of (ok, mem) \<Rightarrow>
         let pl = \<lparr>pdpl_l = l, pdpl_regex = re, pdpl_new = True\<rparr>;
             registered = pl\<lparr>pdpl_new := False\<rparr>;
             added = pd_persistent_listeners pd @ (if ok then [(lid, registered)] else [])
         in case walk_ents (add_persistent_dcb rx pl) (pd_ents pd) (mem, []) of (r, es, mem, ev) \<Rightarrow>
           if r = 0 then
             (0, lid, pd\<lparr>pd_ents := remove_from_all pl es,
                         pd_persistent_listeners := del_first lid added\<rparr>, mem, ev)
           else (lid, lid + 1, pd\<lparr>pd_ents := es, pd_persistent_listeners := added\<rparr>, mem, ev)))"

text \<open>\<^verbatim>\<open>pdict_remove_persistent_change_listener\<close>\<close>

definition pdict_remove_persistent_change_listener :: "'r pdict \<Rightarrow> nat \<Rightarrow> int \<times> 'r pdict" where
  "pdict_remove_persistent_change_listener pd lid = (case map_of (pd_persistent_listeners pd) lid of
     None \<Rightarrow> (0, pd)
   | Some pl \<Rightarrow> (1, pd\<lparr>pd_ents := remove_from_all pl (pd_ents pd),
                       pd_persistent_listeners := del_first lid (pd_persistent_listeners pd)\<rparr>))"

subsection \<open>Reasons\<close>

text \<open>\<^verbatim>\<open>pdict_reason_str\<close> and \<^verbatim>\<open>pdict_reason_from_str\<close> (0, no reason, is \<open>None\<close>).\<close>

definition ascii :: "string \<Rightarrow> cstr" where
  "ascii s = map (\<lambda>c. of_char c) s"

fun pdict_reason_str :: "pdict_reason \<Rightarrow> cstr" where
  "pdict_reason_str PDR_VALUE_CHANGED = ascii ''changed''"
| "pdict_reason_str PDR_ENTRY_ADDED = ascii ''added''"
| "pdict_reason_str PDR_ENTRY_REMOVING = ascii ''removing''"
| "pdict_reason_str PDR_CURRENT_VALUE = ascii ''current''"

definition pdict_reason_from_str :: "cstr \<Rightarrow> pdict_reason option" where
  "pdict_reason_from_str s =
     (if strcmp s (ascii ''changed'') = 0 then Some PDR_VALUE_CHANGED
      else if strcmp s (ascii ''current'') = 0 then Some PDR_CURRENT_VALUE
      else if strcmp s (ascii ''added'') = 0 then Some PDR_ENTRY_ADDED
      else if strcmp s (ascii ''removing'') = 0 then Some PDR_ENTRY_REMOVING
      else None)"


subsection \<open>The key order\<close>

lemma strcmp_refl [simp]: "strcmp a a = 0"
  by (induction a) auto

lemma strcmp_eq_0 [simp]: "strcmp a b = 0 \<longleftrightarrow> a = b"
  by (induction a b rule: strcmp.induct) auto

lemma strcmp_flip: "strcmp a b < 0 \<longleftrightarrow> strcmp b a > 0"
  by (induction a b rule: strcmp.induct) auto

lemma strcmp_trans_less: "strcmp a b < 0 \<Longrightarrow> strcmp b c < 0 \<Longrightarrow> strcmp a c < 0"
proof (induction a b arbitrary: c rule: strcmp.induct)
  case (2 b bs)
  then show ?case by (cases c) auto
next
  case (4 a as b bs)
  then show ?case by (cases c) (auto split: if_splits)
qed auto

interpretation key_order: cmp_order pdecmp
proof unfold_locales
  fix a b c :: pdict_ent
  show "pdecmp a a = 0" by (simp add: pdecmp_def)
  show "pdecmp a b < 0 \<longleftrightarrow> pdecmp b a > 0" unfolding pdecmp_def by (rule strcmp_flip)
  show "pdecmp a c < 0" if "pdecmp a b \<le> 0" "pdecmp b c < 0"
  proof (cases "pdecmp a b = 0")
    case True
    then show ?thesis using that by (simp add: pdecmp_def)
  next
    case False
    then show ?thesis using that strcmp_trans_less unfolding pdecmp_def by (metis order_le_less)
  qed
  show "pdecmp a c \<le> 0" if "pdecmp a b \<le> 0" "pdecmp b c \<le> 0"
  proof (cases "pdecmp b c = 0")
    case True
    then show ?thesis using that by (simp add: pdecmp_def)
  next
    case False
    then have "pdecmp b c < 0" using that by simp
    then show ?thesis using \<open>pdecmp a b \<le> 0 \<Longrightarrow> pdecmp b c < 0 \<Longrightarrow> pdecmp a c < 0\<close> that by auto
  qed
qed

lemma pdecmp_eq_0: "pdecmp a b = 0 \<longleftrightarrow> pde_key a = pde_key b"
  by (simp add: pdecmp_def)

lemma pdecmp_key: "pdecmp (key_ent (pde_key n)) = pdecmp n"
  by (simp add: pdecmp_def key_ent_def fun_eq_iff)

definition pd_wf :: "'r pdict \<Rightarrow> bool" where
  "pd_wf pd \<longleftrightarrow> sorted_wrt (\<lambda>a b. pdecmp a b < 0) (pd_ents pd) \<and>
     (\<forall>p \<in> set (pd_persistent_listeners pd). \<not> pdpl_new (snd p))"

lemma ents_get_key: "ents_get k es = Some n \<Longrightarrow> pde_key n = k \<and> n \<in> set es"
  by (induction es) (auto simp: ents_get_def pdecmp_def key_ent_def split: if_splits)

lemma ents_get_None: "ents_get k es = None \<longleftrightarrow> k \<notin> pde_key ` set es"
  by (induction es) (auto simp: ents_get_def pdecmp_def key_ent_def)

lemma ents_get_put:
  assumes "sorted_wrt (\<lambda>a b. pdecmp a b < 0) es"
  shows "ents_get j (sl_put (pdecmp n) n es) = (if j = pde_key n then Some n else ents_get j es)"
  using key_order.sl_get_put [OF assms, of "key_ent j" n]
  by (simp add: ents_get_def pdecmp_eq_0 key_ent_def)

lemma ents_get_del:
  assumes "sorted_wrt (\<lambda>a b. pdecmp a b < 0) es"
  shows "ents_get j (sl_del (pdecmp (key_ent k)) es) = (if j = k then None else ents_get j es)"
  using key_order.sl_get_del [OF assms, of "key_ent j" "key_ent k"]
  by (simp add: ents_get_def pdecmp_eq_0 key_ent_def)

lemma ents_get_update:
  assumes "\<And>e. pde_key (f e) = pde_key e"
  shows "ents_get j (ents_update k f es) = (if j = k then map_option f (ents_get j es) else ents_get j es)"
  using assms by (induction es) (auto simp: ents_get_def ents_update_def pdecmp_def key_ent_def)

lemma sorted_map_key:
  assumes "\<And>e. e \<in> set es \<Longrightarrow> pde_key (f e) = pde_key e"
  shows "sorted_wrt (\<lambda>a b. pdecmp a b < 0) (map f es) \<longleftrightarrow> sorted_wrt (\<lambda>a b. pdecmp a b < 0) es"
  using assms by (induction es) (auto simp: pdecmp_def)

lemma ents_update_sorted:
  assumes "\<And>e. pde_key (f e) = pde_key e"
  shows "sorted_wrt (\<lambda>a b. pdecmp a b < 0) (ents_update k f es) \<longleftrightarrow> sorted_wrt (\<lambda>a b. pdecmp a b < 0) es"
  unfolding ents_update_def by (rule sorted_map_key) (simp add: assms)

subsection \<open>Allocation does not fail\<close>

lemma strdup_Nil [simp]: "strdup s [] = (Some s, [])"
  by (simp add: strdup_def)

lemma ent_add_change_listener_Nil [simp]:
  "ent_add_change_listener e l [] = (1, e\<lparr>pde_listeners := pde_listeners e @ [l]\<rparr>, [])"
  by (simp add: ent_add_change_listener_def)

lemma ent_listeners_copy_Nil:
  "ent_listeners_copy ls e [] = (e\<lparr>pde_listeners := pde_listeners e @ ls\<rparr>, [])"
  by (induction ls arbitrary: e) auto

lemma notify_copy_Nil:
  "notify_copy n r ov c [] =
    (ent_notify (pde_listeners n) (Some (pde_key n)) (Some (pde_val n)) r (if c then Some (pde_val n) else ov), [])"
  by (simp add: notify_copy_def ent_listeners_copy_Nil key_ent_def ent_notify_def)

lemma ent_add_persistent_key:
  "ent_add_persistent rx e pl mem = (r, e', mem', ev) \<Longrightarrow> pde_key e' = pde_key e \<and> pde_val e' = pde_val e"
  by (auto simp: ent_add_persistent_def ent_add_change_listener_def Let_def split: if_splits prod.splits)

lemma ent_add_persistents_key:
  "ent_add_persistents_walk rx pls e mem = (r, e', mem', ev) \<Longrightarrow> pde_key e' = pde_key e \<and> pde_val e' = pde_val e"
  by (induction pls arbitrary: e mem r e' mem' ev)
    (fastforce split: if_splits prod.splits dest: ent_add_persistent_key)+


subsection \<open>Insertion\<close>

lemma ent_add_persistents_silent:
  assumes "ent_add_persistents_walk rx pls e mem = (r, e', mem', ev)" and "\<forall>p \<in> set pls. \<not> pdpl_new (snd p)"
  shows "ev = []"
  using assms
proof (induction pls arbitrary: e mem r e' mem' ev)
  case (Cons p pls)
  obtain lid pl where p: "p = (lid, pl)" by (cases p)
  obtain r1 e1 m1 ev1 where 1: "ent_add_persistent rx e pl mem = (r1, e1, m1, ev1)" by (cases "ent_add_persistent rx e pl mem")
  have ev1: "ev1 = []" using 1 Cons.prems(2) p
    by (auto simp: ent_add_persistent_def Let_def split: if_splits prod.splits)
  obtain r2 e2 m2 ev2 where 2: "ent_add_persistents_walk rx pls e1 m1 = (r2, e2, m2, ev2)"
    by (cases "ent_add_persistents_walk rx pls e1 m1")
  show ?case using Cons.IH [OF 2] Cons.prems 1 2 ev1 p by (auto split: if_splits)
qed simp

lemma ent_add_persistents_props:
  assumes "ent_add_persistents rx pd e mem = (r, e', mem', ev)"
    and "\<forall>p \<in> set (pd_persistent_listeners pd). \<not> pdpl_new (snd p)"
  shows "ev = []" and "r \<noteq> 0 \<Longrightarrow> pde_key e' = pde_key e \<and> pde_val e' = pde_val e"
proof -
  obtain r1 e1 m1 ev1 where 1: "ent_add_persistents_walk rx (pd_persistent_listeners pd) e mem = (r1, e1, m1, ev1)"
    by (cases "ent_add_persistents_walk rx (pd_persistent_listeners pd) e mem")
  show "ev = []" using assms 1 ent_add_persistents_silent [OF 1]
    by (auto simp: ent_add_persistents_def split: if_splits)
  show "pde_key e' = pde_key e \<and> pde_val e' = pde_val e" if "r \<noteq> 0"
    using that assms 1 ent_add_persistents_key [OF 1] by (auto simp: ent_add_persistents_def split: if_splits)
qed

lemma pdict_add_existing_props:
  assumes wf: "pd_wf pd" and n: "ents_get k (pd_ents pd) = Some n"
    and add: "pdict_add_existing ovp pd n v mem = (r, ov, pd', mem', ev)"
  shows "r = 1 \<and> ov = (if ovp then Some (Some (pde_val n)) else None) \<and> pd_wf pd' \<and>
    pd_persistent_listeners pd' = pd_persistent_listeners pd \<and>
    ents_get j (pd_ents pd') = (if j = k then Some (n\<lparr>pde_val := v\<rparr>) else ents_get j (pd_ents pd))"
proof -
  have key: "pde_key n = k" using ents_get_key [OF n] by simp
  have "r = 1 \<and> ov = (if ovp then Some (Some (pde_val n)) else None) \<and>
      pd' = pd\<lparr>pd_ents := ents_update k (\<lambda>e. e\<lparr>pde_val := v\<rparr>) (pd_ents pd)\<rparr>"
    using add key by (auto simp: pdict_add_existing_def Let_def split: prod.splits)
  then show ?thesis using wf n by (simp add: pd_wf_def ents_update_sorted ents_get_update)
qed

lemma pdict_add_new_props:
  assumes wf: "pd_wf pd" and n: "ents_get k (pd_ents pd) = None"
    and add: "pdict_add_new rx ovp pd k v mem = (r, ov, pd', mem', ev)"
  shows "r = 0 \<and> ov = None \<and> pd' = pd \<and> ev = [] \<or>
    r = 1 \<and> ov = (if ovp then Some None else None) \<and> pd_wf pd' \<and> pd_persistent_listeners pd' = pd_persistent_listeners pd \<and>
    (\<exists>ls. \<forall>j. ents_get j (pd_ents pd') =
      (if j = k then Some \<lparr>pde_key = k, pde_val = v, pde_listeners = ls\<rparr> else ents_get j (pd_ents pd)))"
proof -
  obtain ok mem1 where a: "alloc mem = (ok, mem1)" by (cases "alloc mem")
  obtain r1 e1 m1 ev1 where 1: "ent_add_persistents rx pd \<lparr>pde_key = k, pde_val = v, pde_listeners = []\<rparr> mem1 =
      (r1, e1, m1, ev1)" by (cases "ent_add_persistents rx pd \<lparr>pde_key = k, pde_val = v, pde_listeners = []\<rparr> mem1")
  have silent: "\<forall>p \<in> set (pd_persistent_listeners pd). \<not> pdpl_new (snd p)" using wf by (simp add: pd_wf_def)
  note props = ent_add_persistents_props [OF 1 silent]
  obtain ok2 m2 where a2: "alloc m1 = (ok2, m2)" by (cases "alloc m1")
  show ?thesis
  proof (cases "ok \<and> r1 \<noteq> 0 \<and> ok2")
    case False
    then show ?thesis using add a 1 a2 props(1) by (auto simp: pdict_add_new_def split: if_splits)
  next
    case True
    then have e1: "e1 = \<lparr>pde_key = k, pde_val = v, pde_listeners = pde_listeners e1\<rparr>"
      using props(2) by (cases e1) simp
    have res: "r = 1 \<and> ov = (if ovp then Some None else None) \<and> pd' = pd\<lparr>pd_ents := sl_put (pdecmp e1) e1 (pd_ents pd)\<rparr>"
      using add a 1 a2 True by (auto simp: pdict_add_new_def split: prod.splits)
    have sorted: "sorted_wrt (\<lambda>a b. pdecmp a b < 0) (pd_ents pd)" using wf by (simp add: pd_wf_def)
    have "pd_wf pd'" using res wf key_order.sorted_sl_put [OF sorted] by (simp add: pd_wf_def)
    moreover have "ents_get j (pd_ents pd') = (if j = k then Some e1 else ents_get j (pd_ents pd))" for j
      using res ents_get_put [OF sorted, of j e1] props(2) True by simp
    ultimately show ?thesis using res e1 by auto
  qed
qed

subsection \<open>Walks over the entries\<close>

lemma walk_ents_pure:
  assumes "\<And>e. e \<in> set es \<Longrightarrow> w e () = (1, f e, ())"
  shows "walk_ents w es () = (1, map f es, ())"
  using assms by (induction es) auto

lemma remove_from_all_map: "remove_from_all pl es = map (\<lambda>e. snd (ent_remove_change_listener e (pdpl_l pl))) es"
proof -
  have "walk_ents (remove_persistent_dcb pl) es () =
      (1, map (\<lambda>e. snd (ent_remove_change_listener e (pdpl_l pl))) es, ())"
    by (rule walk_ents_pure) (simp add: remove_persistent_dcb_def)
  then show ?thesis by (simp add: remove_from_all_def)
qed

lemma remove_added: "l \<notin> set ls \<Longrightarrow> remove1 l (ls @ [l]) = ls"
  by (simp add: remove1_append)

text \<open>Each step of the registration walk leaves the entry or appends the listener.\<close>

lemma add_persistent_step:
  assumes "add_persistent_dcb rx pl e (mem, evs) = (r, e', mem', evs')" and "pdpl_l pl \<notin> set (pde_listeners e)"
  shows "snd (ent_remove_change_listener e' (pdpl_l pl)) = e"
  using assms
  by (auto simp: add_persistent_dcb_def ent_add_persistent_def ent_add_change_listener_def
      ent_remove_change_listener_def Let_def remove_added split: if_splits prod.splits)

lemma registration_undone:
  assumes "walk_ents (add_persistent_dcb rx pl) es s = (r, es', s')"
    and "\<forall>e \<in> set es. pdpl_l pl \<notin> set (pde_listeners e)"
  shows "remove_from_all pl es' = es"
  using assms
proof (induction es arbitrary: s r es' s')
  case (Cons e es)
  obtain r1 e1 m1 ev1 where 1: "add_persistent_dcb rx pl e s = (r1, e1, m1, ev1)"
    by (cases "add_persistent_dcb rx pl e s")
  then have e: "snd (ent_remove_change_listener e1 (pdpl_l pl)) = e"
    using add_persistent_step [of rx pl e "fst s" "snd s"] Cons.prems(2) by simp
  have rest: "snd (ent_remove_change_listener x (pdpl_l pl)) = x" if "x \<in> set es" for x
    using Cons.prems(2) that by (simp add: ent_remove_change_listener_def)
  show ?case
  proof (cases "r1 = 1")
    case True
    then show ?thesis using Cons 1 e by (auto simp: remove_from_all_map split: prod.splits)
  next
    case False
    then show ?thesis using Cons.prems 1 e rest by (auto simp: remove_from_all_map map_idI)
  qed
qed (simp add: remove_from_all_map)

lemma del_first_snoc: "k \<notin> fst ` set es \<Longrightarrow> del_first k (es @ [(k, v)]) = es"
  by (induction es) auto

lemma del_first_absent: "k \<notin> fst ` set es \<Longrightarrow> del_first k es = es"
  by (induction es) auto


lemma ent_add_persistents_walk_Nil:
  assumes "\<forall>p \<in> set pls. rx (pdpl_regex (snd p)) (pde_key e) \<in> {0, REG_NOMATCH} \<and> \<not> pdpl_new (snd p)"
  shows "ent_add_persistents_walk rx pls e [] =
    (1, e\<lparr>pde_listeners := pde_listeners e @
        map (\<lambda>p. pdpl_l (snd p)) (filter (\<lambda>p. rx (pdpl_regex (snd p)) (pde_key e) = 0) pls)\<rparr>, [], [])"
  using assms
proof (induction pls arbitrary: e)
  case (Cons p pls)
  obtain lid pl where p: "p = (lid, pl)" by (cases p)
  show ?case
    using Cons.prems Cons.IH [of e] Cons.IH [of "e\<lparr>pde_listeners := pde_listeners e @ [pdpl_l pl]\<rparr>"] p
    by (auto simp: ent_add_persistent_def Let_def REG_NOMATCH_def)
qed simp

text \<open>The listeners that the persistent ones leave on a new entry.\<close>

definition matching :: "('r \<Rightarrow> cstr \<Rightarrow> int) \<Rightarrow> 'r pdict \<Rightarrow> cstr \<Rightarrow> pdict_listener list" where
  "matching rx pd k = map (\<lambda>p. pdpl_l (snd p))
     (filter (\<lambda>p. rx (pdpl_regex (snd p)) k = 0) (pd_persistent_listeners pd))"

lemma ent_add_persistents_Nil:
  assumes "\<forall>p \<in> set (pd_persistent_listeners pd). rx (pdpl_regex (snd p)) k \<in> {0, REG_NOMATCH} \<and> \<not> pdpl_new (snd p)"
  shows "ent_add_persistents rx pd \<lparr>pde_key = k, pde_val = v, pde_listeners = []\<rparr> [] =
    (1, \<lparr>pde_key = k, pde_val = v, pde_listeners = matching rx pd k\<rparr>, [], [])"
  using ent_add_persistents_walk_Nil [of "pd_persistent_listeners pd" rx "\<lparr>pde_key = k, pde_val = v, pde_listeners = []\<rparr>"] assms
  by (simp add: ent_add_persistents_def matching_def)

subsection \<open>Properties\<close>

text \<open>C24. \<^verbatim>\<open>pdict_add\<close> is all or nothing and updates a map: whatever allocations fail, it
  either returns 0, notifies nobody and leaves the dictionary as it was, or returns 1,
  hands out the old value (null for a new key) to a caller who asked for it, and from then on the key has the new
  value, every other key and all persistent listeners are untouched, and the entries stay
  in ascending key order.\<close>

theorem pdict_add_map:
  assumes "pd_wf pd" and "pdict_add rx ovp pd k v mem = (r, ov, pd', mem', ev)"
  shows "(if r = 0 then pd' = pd \<and> ov = None \<and> ev = []
    else r = 1 \<and> ov = (if ovp then Some (map_option pde_val (ents_get k (pd_ents pd))) else None) \<and> pd_wf pd' \<and>
      pd_persistent_listeners pd' = pd_persistent_listeners pd \<and>
      pdict_ent_lookup pd' j [] = (if j = k then (1, Some v, []) else pdict_ent_lookup pd j []))"
proof -
  obtain kd m1 where kd: "strdup k mem = (kd, m1)" by (cases "strdup k mem")
  obtain vd m2 where vd: "strdup v m1 = (vd, m2)" by (cases "strdup v m1")
  show ?thesis
  proof (cases "kd = None \<or> vd = None")
    case True
    then have "pdict_add rx ovp pd k v mem = (0, None, pd, if kd = None then m1 else m2, [])"
      using kd vd by (auto simp: pdict_add_def)
    then show ?thesis using assms(2) by simp
  next
    case False
    then obtain k' v' where kv: "kd = Some k'" "vd = Some v'" by auto
    show ?thesis
    proof (cases "ents_get k (pd_ents pd)")
      case (Some n)
      then have "pdict_add_existing ovp pd n v m2 = (r, ov, pd', mem', ev)"
        using assms(2) kd vd by (simp add: pdict_add_def kv)
      from pdict_add_existing_props [OF assms(1) Some this, of j] Some show ?thesis
        by (simp add: pdict_ent_lookup_def)
    next
      case None
      then have "pdict_add_new rx ovp pd k v m2 = (r, ov, pd', mem', ev)"
        using assms(2) kd vd by (simp add: pdict_add_def kv)
      from pdict_add_new_props [OF assms(1) None this] None show ?thesis
        by (auto simp: pdict_ent_lookup_def)
    qed
  qed
qed

definition pd_demo :: "nat pdict" where
  "pd_demo = \<lparr>pd_ents = [\<lparr>pde_key = [97], pde_val = [49], pde_listeners = [\<lparr>pdl_notify = 1, pdl_arg = 2\<rparr>]\<rparr>,
                       \<lparr>pde_key = [98], pde_val = [50], pde_listeners = []\<rparr>],
     pd_persistent_listeners = [(1, \<lparr>pdpl_l = \<lparr>pdl_notify = 1, pdl_arg = 2\<rparr>, pdpl_regex = 0, pdpl_new = False\<rparr>)]\<rparr>"

definition rx_demo :: "nat \<Rightarrow> cstr \<Rightarrow> int" where
  "rx_demo re k = (if length k = 1 + re then 0 else 1)"

lemma pd_demo_wf: "pd_wf pd_demo"
  by (simp add: pd_wf_def pd_demo_def pdecmp_def)

theorem pdict_add_map_witness:
  "\<exists>pd' ev. pdict_add rx_demo True pd_demo [99] [51] [] = (1, Some None, pd', [], ev) \<and> pd_wf pd' \<and>
    pdict_ent_lookup pd' [98] [] = (1, Some [50], [])"
proof -
  obtain r ov pd' mem' ev where add: "pdict_add rx_demo True pd_demo [99] [51] [] = (r, ov, pd', mem', ev)"
    by (cases "pdict_add rx_demo True pd_demo [99] [51] []")
  have "r = 1 \<and> mem' = []"
    using add by (auto simp: pdict_add_def pdict_add_new_def pd_demo_def rx_demo_def ents_get_def pdecmp_def key_ent_def
        ent_add_persistents_def ent_add_persistent_def Let_def notify_copy_Nil split: prod.splits)
  moreover have "ents_get [99] (pd_ents pd_demo) = None" "pdict_ent_lookup pd_demo [98] [] = (1, Some [50], [])"
    by (simp_all add: pd_demo_def ents_get_def pdecmp_def key_ent_def pdict_ent_lookup_def)
  ultimately show ?thesis using add pdict_add_map [OF pd_demo_wf add, of "[98]"] by simp
qed

text \<open>C26. Notifications, when memory does not run out and the patterns compile to proper
  matchers: setting a key calls exactly the listeners of its entry, in the order of
  registration, with the new value, the reason and the old value (a null pointer when the caller of
  \<^verbatim>\<open>pdict_add\<close> did not ask for it); creating a key calls
  exactly the persistent listeners whose pattern matches it, in the order of registration,
  and attaches them to the new entry.\<close>

theorem pdict_add_notifies:
  assumes "pd_wf pd" and "\<forall>p \<in> set (pd_persistent_listeners pd). rx (pdpl_regex (snd p)) k \<in> {0, REG_NOMATCH}"
  shows "\<exists>ov pd'. pdict_add rx ovp pd k v [] = (1, ov, pd', [],
      case ents_get k (pd_ents pd) of
        Some n \<Rightarrow> map (\<lambda>l. Notify l (Some k) (Some v) PDR_VALUE_CHANGED (if ovp then Some (pde_val n) else None)) (pde_listeners n)
      | None \<Rightarrow> map (\<lambda>l. Notify l (Some k) (Some v) PDR_ENTRY_ADDED (Some v)) (matching rx pd k)) \<and>
    map_option pde_listeners (ents_get k (pd_ents pd')) =
      Some (case ents_get k (pd_ents pd) of Some n \<Rightarrow> pde_listeners n | None \<Rightarrow> matching rx pd k)"
proof (cases "ents_get k (pd_ents pd)")
  case (Some n)
  have key: "pde_key n = k" using ents_get_key [OF Some] by simp
  then show ?thesis using Some
    by (cases ovp) (simp_all add: pdict_add_def pdict_add_existing_def Let_def notify_copy_Nil ent_notify_def ents_get_update)
next
  case None
  have p: "\<forall>p \<in> set (pd_persistent_listeners pd). rx (pdpl_regex (snd p)) k \<in> {0, REG_NOMATCH} \<and> \<not> pdpl_new (snd p)"
    using assms by (simp add: pd_wf_def)
  have sorted: "sorted_wrt (\<lambda>a b. pdecmp a b < 0) (pd_ents pd)" using assms by (simp add: pd_wf_def)
  show ?thesis using None ents_get_put [OF sorted]
    by (simp add: pdict_add_def pdict_add_new_def ent_add_persistents_Nil [of pd rx k v, OF p] notify_copy_Nil ent_notify_def)
qed

theorem pdict_add_notifies_witness:
  "\<exists>ov pd'. pdict_add rx_demo True pd_demo [99] [51] [] = (1, ov, pd', [],
      [Notify \<lparr>pdl_notify = 1, pdl_arg = 2\<rparr> (Some [99]) (Some [51]) PDR_ENTRY_ADDED (Some [51])]) \<and>
    map_option pde_listeners (ents_get [99] (pd_ents pd')) = Some [\<lparr>pdl_notify = 1, pdl_arg = 2\<rparr>]"
proof -
  have "\<forall>p \<in> set (pd_persistent_listeners pd_demo). rx_demo (pdpl_regex (snd p)) [99] \<in> {0, REG_NOMATCH}"
    by (simp add: rx_demo_def REG_NOMATCH_def)
  moreover have "ents_get [99] (pd_ents pd_demo) = None"
    "matching rx_demo pd_demo [99] = [\<lparr>pdl_notify = 1, pdl_arg = 2\<rparr>]"
    by (simp_all add: pd_demo_def ents_get_def pdecmp_def key_ent_def matching_def rx_demo_def)
  ultimately show ?thesis using pdict_add_notifies [OF pd_demo_wf, of rx_demo "[99]" True "[51]"] by simp
qed

text \<open>\<^verbatim>\<open>pdict_ent_remove\<close> tells every listener of the entry that it is going, with
  the last value, removes exactly that key, hands its value out, and reports 0 without a
  change when the key is absent.\<close>

theorem pdict_ent_remove_map:
  assumes "pd_wf pd"
  shows "(case ents_get k (pd_ents pd) of
      None \<Rightarrow> pdict_ent_remove pd k = (0, None, pd, [])
    | Some n \<Rightarrow> (\<exists>pd'. pdict_ent_remove pd k = (1, Some (pde_val n), pd',
          map (\<lambda>l. Notify l (Some k) (Some (pde_val n)) PDR_ENTRY_REMOVING (Some (pde_val n))) (pde_listeners n)) \<and>
        pd_wf pd' \<and> pdict_ent_lookup pd' j [] = (if j = k then (0, None, []) else pdict_ent_lookup pd j [])))"
proof -
  have sorted: "sorted_wrt (\<lambda>a b. pdecmp a b < 0) (pd_ents pd)" using assms by (simp add: pd_wf_def)
  show ?thesis
  proof (cases "ents_get k (pd_ents pd)")
    case (Some n)
    then show ?thesis using assms ents_get_key [OF Some] ents_get_del [OF sorted] key_order.sorted_sl_del [OF sorted]
      by (simp add: pdict_ent_remove_def ent_notify_def pd_wf_def pdict_ent_lookup_def)
  qed (simp add: pdict_ent_remove_def)
qed

theorem pdict_ent_remove_map_witness:
  "\<exists>pd'. pdict_ent_remove pd_demo [97] = (1, Some [49], pd',
      [Notify \<lparr>pdl_notify = 1, pdl_arg = 2\<rparr> (Some [97]) (Some [49]) PDR_ENTRY_REMOVING (Some [49])]) \<and>
    pd_wf pd' \<and> pdict_ent_lookup pd' [97] [] = (0, None, [])"
proof -
  have "ents_get [97] (pd_ents pd_demo) =
      Some \<lparr>pde_key = [97], pde_val = [49], pde_listeners = [\<lparr>pdl_notify = 1, pdl_arg = 2\<rparr>]\<rparr>"
    by (simp add: pd_demo_def ents_get_def pdecmp_def key_ent_def)
  then show ?thesis using pdict_ent_remove_map [OF pd_demo_wf, of "[97]" "[97]"] by simp
qed

text \<open>Registering a persistent listener rolls back: whatever allocation fails, when
  \<^verbatim>\<open>pdict_add_persistent_change_listener\<close> returns 0 the dictionary is as it was (for a
  listener that no entry had before), and when it succeeds, removing the listener by the
  returned identifier restores the dictionary.\<close>

theorem persistent_listener_rollback:
  assumes new: "\<forall>e \<in> set (pd_ents pd). l \<notin> set (pde_listeners e)"
    and lid: "lid \<noteq> 0" "lid \<notin> fst ` set (pd_persistent_listeners pd)"
    and add: "pdict_add_persistent_change_listener rx rcomp lid pd kpat l mem = (r, lid', pd', mem', ev)"
  shows "(if r = 0 then pd' = pd \<and> lid' = lid
    else r = lid \<and> lid' = lid + 1 \<and>
      (map_of (pd_persistent_listeners pd') lid \<noteq> None \<longrightarrow>
        pdict_remove_persistent_change_listener pd' lid = (1, pd)))"
proof -
  obtain ok m1 where a: "alloc mem = (ok, m1)" by (cases "alloc mem")
  show ?thesis
  proof (cases "ok \<and> rcomp kpat \<noteq> None")
    case False
    then show ?thesis using add a by (auto simp: pdict_add_persistent_change_listener_def split: option.splits)
  next
    case True
    then obtain re where re: "rcomp kpat = Some re" by blast
    obtain ok2 m2 where a2: "alloc m1 = (ok2, m2)" by (cases "alloc m1")
    define pl where "pl = \<lparr>pdpl_l = l, pdpl_regex = re, pdpl_new = True\<rparr>"
    define added where "added = pd_persistent_listeners pd @ (if ok2 then [(lid, pl\<lparr>pdpl_new := False\<rparr>)] else [])"
    obtain r1 es m3 ev1 where w: "walk_ents (add_persistent_dcb rx pl) (pd_ents pd) (m2, []) = (r1, es, m3, ev1)"
      by (cases "walk_ents (add_persistent_dcb rx pl) (pd_ents pd) (m2, [])")
    have res: "(r, lid', pd', mem', ev) = (if r1 = 0 then
         (0, lid, pd\<lparr>pd_ents := remove_from_all pl es, pd_persistent_listeners := del_first lid added\<rparr>, m3, ev1)
       else (lid, lid + 1, pd\<lparr>pd_ents := es, pd_persistent_listeners := added\<rparr>, m3, ev1))"
    proof -
      have "pdict_add_persistent_change_listener rx rcomp lid pd kpat l mem = (if r1 = 0 then
         (0, lid, pd\<lparr>pd_ents := remove_from_all pl es, pd_persistent_listeners := del_first lid added\<rparr>, m3, ev1)
       else (lid, lid + 1, pd\<lparr>pd_ents := es, pd_persistent_listeners := added\<rparr>, m3, ev1))"
        using True a re a2 w unfolding pl_def added_def
        by (simp add: pdict_add_persistent_change_listener_def Let_def)
      then show ?thesis using add by simp
    qed
    have undo: "remove_from_all pl es = pd_ents pd"
      using registration_undone [OF w] new by (simp add: pl_def)
    then have undo': "remove_from_all (pl\<lparr>pdpl_new := False\<rparr>) es = pd_ents pd"
      by (simp add: remove_from_all_map)
    have del: "del_first lid added = pd_persistent_listeners pd"
      using lid(2) by (simp add: added_def del_first_snoc del_first_absent)
    have map: "map_of added lid = (if ok2 then Some (pl\<lparr>pdpl_new := False\<rparr>) else None)"
      using lid(2) by (simp add: added_def map_of_eq_None_iff [symmetric] map_add_def)
    show ?thesis using res undo undo' del map lid(1)
      by (cases "r1 = 0") (auto simp: pdict_remove_persistent_change_listener_def)
  qed
qed

theorem persistent_listener_rollback_witness:
  "\<exists>pd' ev. pdict_add_persistent_change_listener rx_demo (\<lambda>_. Some 0) 2 pd_demo [46] \<lparr>pdl_notify = 5, pdl_arg = 0\<rparr> [] =
      (2, 3, pd', [], ev) \<and> pdict_remove_persistent_change_listener pd' 2 = (1, pd_demo)"
proof -
  obtain r lid' pd' mem' ev where add: "pdict_add_persistent_change_listener rx_demo (\<lambda>_. Some 0) 2 pd_demo [46]
      \<lparr>pdl_notify = 5, pdl_arg = 0\<rparr> [] = (r, lid', pd', mem', ev)"
    by (cases "pdict_add_persistent_change_listener rx_demo (\<lambda>_. Some 0) 2 pd_demo [46] \<lparr>pdl_notify = 5, pdl_arg = 0\<rparr> []")
  have "r = 2 \<and> lid' = 3 \<and> mem' = [] \<and> map_of (pd_persistent_listeners pd') 2 \<noteq> None"
    using add by (auto simp: pdict_add_persistent_change_listener_def pd_demo_def rx_demo_def Let_def
        add_persistent_dcb_def ent_add_persistent_def)
  moreover have "\<forall>e \<in> set (pd_ents pd_demo). \<lparr>pdl_notify = 5, pdl_arg = 0\<rparr> \<notin> set (pde_listeners e)"
    "(2 :: nat) \<noteq> 0" "2 \<notin> fst ` set (pd_persistent_listeners pd_demo)"
    by (simp_all add: pd_demo_def)
  ultimately show ?thesis using persistent_listener_rollback [OF _ _ _ add] add by simp
qed

text \<open>Removing a persistent listener strips its function and argument from every
  entry, also from entries its own pattern does not match: an entry that had the listener
  through another registration loses it, although that registration stays.\<close>

theorem remove_persistent_strips_others:
  assumes "map_of (pd_persistent_listeners pd) a = Some pa" and "map_of (pd_persistent_listeners pd) b = Some pb"
    and "a \<noteq> b" and "pdpl_l pa = l" and "pdpl_l pb = l"
    and "e \<in> set (pd_ents pd)" and "pde_listeners e = [l]"
    and "rx (pdpl_regex pa) (pde_key e) = REG_NOMATCH" and "rx (pdpl_regex pb) (pde_key e) = 0"
  shows "\<exists>pd'. pdict_remove_persistent_change_listener pd a = (1, pd') \<and>
    map_of (pd_persistent_listeners pd') b = Some pb \<and> e\<lparr>pde_listeners := []\<rparr> \<in> set (pd_ents pd')"
proof -
  have "map_of (del_first a xs) b = map_of xs b" for xs :: "(nat \<times> 'a pdict_persistent_listener) list"
    using assms(3) by (induction xs) auto
  moreover have "snd (ent_remove_change_listener e l) = e\<lparr>pde_listeners := []\<rparr>"
    using assms(7) by (simp add: ent_remove_change_listener_def)
  ultimately show ?thesis using assms
    by (auto simp: pdict_remove_persistent_change_listener_def remove_from_all_map intro: rev_image_eqI)
qed

definition pd_shared :: "nat pdict" where
  "pd_shared = \<lparr>pd_ents = [\<lparr>pde_key = [97], pde_val = [49], pde_listeners = [\<lparr>pdl_notify = 1, pdl_arg = 2\<rparr>]\<rparr>],
     pd_persistent_listeners = [(1, \<lparr>pdpl_l = \<lparr>pdl_notify = 1, pdl_arg = 2\<rparr>, pdpl_regex = 0, pdpl_new = False\<rparr>),
                              (2, \<lparr>pdpl_l = \<lparr>pdl_notify = 1, pdl_arg = 2\<rparr>, pdpl_regex = 7, pdpl_new = False\<rparr>)]\<rparr>"

theorem remove_persistent_strips_others_witness:
  "\<exists>pd'. pdict_remove_persistent_change_listener pd_shared 2 = (1, pd') \<and>
    map_of (pd_persistent_listeners pd') 1 =
      Some \<lparr>pdpl_l = \<lparr>pdl_notify = 1, pdl_arg = 2\<rparr>, pdpl_regex = 0, pdpl_new = False\<rparr> \<and>
    \<lparr>pde_key = [97], pde_val = [49], pde_listeners = []\<rparr> \<in> set (pd_ents pd')"
  using remove_persistent_strips_others [of pd_shared 2
      "\<lparr>pdpl_l = \<lparr>pdl_notify = 1, pdl_arg = 2\<rparr>, pdpl_regex = 7, pdpl_new = False\<rparr>" 1
      "\<lparr>pdpl_l = \<lparr>pdl_notify = 1, pdl_arg = 2\<rparr>, pdpl_regex = 0, pdpl_new = False\<rparr>"
      "\<lparr>pdl_notify = 1, pdl_arg = 2\<rparr>"
      "\<lparr>pde_key = [97], pde_val = [49], pde_listeners = [\<lparr>pdl_notify = 1, pdl_arg = 2\<rparr>]\<rparr>" rx_demo]
  by (simp add: pd_shared_def rx_demo_def REG_NOMATCH_def)

text \<open>The names of the reasons are read back as the reasons.\<close>

theorem pdict_reason_roundtrip: "pdict_reason_from_str (pdict_reason_str r) = Some r"
  by (cases r) (simp_all add: pdict_reason_from_str_def ascii_def)

text \<open>C27. The dictionary on the real tree: whenever a heap tree holds the entries of a
  dictionary, \<^verbatim>\<open>ptree_contains\<close>, \<^verbatim>\<open>ptree_remove\<close> and \<^verbatim>\<open>ptree_replace\<close> under
  \<^verbatim>\<open>pdecmp\<close> compute the lookup, the removal and the insertion of a new entry that the
  dictionary operations use.\<close>

theorem pdict_tree_refinement:
  assumes "sorted_tree pdecmp s (pd_ents pd)" and "fresh_node n s"
  shows "tree_contains pdecmp (key_ent k) s =
      Some (if ents_get k (pd_ents pd) = None then 0 else 1, ents_get k (pd_ents pd)) \<and>
    (\<exists>s'. tree_remove pdecmp (key_ent k) s =
        Some (fst (pdict_ent_remove pd k), ents_get k (pd_ents pd), s') \<and>
      sorted_tree pdecmp s' (pd_ents (fst (snd (snd (pdict_ent_remove pd k)))))) \<and>
    (\<exists>s' old. tree_replace pdecmp e n s = Some (1, old, s') \<and>
      sorted_tree pdecmp s' (sl_put (pdecmp e) e (pd_ents pd)))"
proof (intro conjI)
  show "tree_contains pdecmp (key_ent k) s =
      Some (if ents_get k (pd_ents pd) = None then 0 else 1, ents_get k (pd_ents pd))"
    using key_order.tree.contains_rep [OF assms(1), of "key_ent k"]
    by (auto simp: ents_get_def split: option.splits)
  have absent: "sl_del (pdecmp (key_ent k)) es = es" if "ents_get k es = None" for es
    using that by (induction es) (auto simp: ents_get_def split: if_splits)
  then show "\<exists>s'. tree_remove pdecmp (key_ent k) s = Some (fst (pdict_ent_remove pd k), ents_get k (pd_ents pd), s') \<and>
      sorted_tree pdecmp s' (pd_ents (fst (snd (snd (pdict_ent_remove pd k)))))"
    using key_order.tree.remove_rep [OF assms(1), of "key_ent k"]
    by (cases "ents_get k (pd_ents pd)") (auto simp: ents_get_def pdict_ent_remove_def)
  show "\<exists>s' old. tree_replace pdecmp e n s = Some (1, old, s') \<and>
      sorted_tree pdecmp s' (sl_put (pdecmp e) e (pd_ents pd))"
    using key_order.tree.replace_rep [OF assms, of e] by blast
qed

theorem pdict_tree_refinement_witness:
  "\<exists>s :: ptr \<times> pdict_ent ptree_heap. \<exists>old s'. sorted_tree pdecmp s [] \<and> tree_replace pdecmp (key_ent [97]) 4 s = Some (1, old, s') \<and>
     sorted_tree pdecmp s' [key_ent [97]]"
proof -
  let ?s = "(NULL, Map.empty) :: ptr \<times> pdict_ent ptree_heap"
  let ?pd = "\<lparr>pd_ents = [], pd_persistent_listeners = []\<rparr> :: nat pdict"
  have "ptree_rep ?s []"
    by (simp add: ptree_rep_def ptree_at_def)
  then have s: "sorted_tree pdecmp ?s (pd_ents ?pd)" "sorted_tree pdecmp ?s []" by (simp_all add: sorted_tree_def)
  have "fresh_node 4 ?s" by (simp add: fresh_node_def NULL_def)
  from pdict_tree_refinement [OF s(1) this, of "[]" "key_ent [97]"] obtain s' old where
    "tree_replace pdecmp (key_ent [97]) 4 ?s = Some (1, old, s')" "sorted_tree pdecmp s' [key_ent [97]]" by auto
  with s(2) show ?thesis by blast
qed

end
