(* ===== verification/Handle.thy ===== *)
theory Handle
  imports Clist
begin

text \<open>
  The device handle: its status flags (\<^verbatim>\<open>cphidget.c\<close>), the packet transfers of the
  libusb-1.0 back end (\<^verbatim>\<open>linux/cusblinux-1.0.c\<close>) and the calls that read cached
  attributes.  libusb is not under the sources: the outcome of each transfer is an
  argument, of the kinds that the code distinguishes.
\<close>

subsection \<open>Handles\<close>

text \<open>\<^verbatim>\<open>specificDevice\<close>: how the handle was opened.\<close>

datatype open_mode = PHIDGETOPEN_ANY | PHIDGETOPEN_SERIAL | PHIDGETOPEN_ANY_ATTACHED | PHIDGETOPEN_LABEL

record cphidget =
  status :: u32
  specificDevice :: open_mode
  deviceID :: int
  deviceIDSpec :: int
  deviceUID :: int
  deviceVersion :: int
  serialNumber :: int
  label :: "u8 list"
  deviceHandle :: bool
  CPhidgetFHandle :: "u8 list option"
  pdd_iid :: int
  writeStopFlag :: bool
  outputReportByteLength :: nat
  inputReportByteLength :: nat
  tryAgainCounter :: int
  GPPResponse :: u8

subsection \<open>Status flags\<close>

datatype phid_flag =
    PHIDGET_ATTACHED_FLAG | PHIDGET_DETACHING_FLAG | PHIDGET_USB_ERROR_FLAG | PHIDGET_ATTACHING_FLAG
  | PHIDGET_OPENED_FLAG | PHIDGET_SERVER_CONNECTED_FLAG | PHIDGET_REMOTE_FLAG | PHIDGET_INERROREVENT_FLAG

fun flag_bit :: "phid_flag \<Rightarrow> nat" where
  "flag_bit PHIDGET_ATTACHED_FLAG = 0"
| "flag_bit PHIDGET_DETACHING_FLAG = 1"
| "flag_bit PHIDGET_USB_ERROR_FLAG = 2"
| "flag_bit PHIDGET_ATTACHING_FLAG = 3"
| "flag_bit PHIDGET_OPENED_FLAG = 4"
| "flag_bit PHIDGET_SERVER_CONNECTED_FLAG = 5"
| "flag_bit PHIDGET_REMOTE_FLAG = 6"
| "flag_bit PHIDGET_INERROREVENT_FLAG = 7"

text \<open>The constant of a flag: \<^verbatim>\<open>0x01\<close>, \<^verbatim>\<open>0x02\<close>, ..., \<^verbatim>\<open>0x80\<close>.\<close>

definition flag :: "phid_flag \<Rightarrow> u32" where
  "flag f = push_bit (flag_bit f) 1"

definition CPhidget_statusFlagIsSet :: "u32 \<Rightarrow> phid_flag \<Rightarrow> bool" where
  "CPhidget_statusFlagIsSet st f \<longleftrightarrow> st AND flag f \<noteq> 0"

definition CPhidget_setStatusFlag :: "u32 \<Rightarrow> phid_flag \<Rightarrow> u32" where
  "CPhidget_setStatusFlag st f = st OR flag f"

definition CPhidget_clearStatusFlag :: "u32 \<Rightarrow> phid_flag \<Rightarrow> u32" where
  "CPhidget_clearStatusFlag st f = st AND NOT (flag f)"

abbreviation is_set :: "cphidget \<Rightarrow> phid_flag \<Rightarrow> bool" where
  "is_set p f \<equiv> CPhidget_statusFlagIsSet (status p) f"

definition set_flag :: "phid_flag \<Rightarrow> cphidget \<Rightarrow> cphidget" where
  "set_flag f p = p\<lparr>status := CPhidget_setStatusFlag (status p) f\<rparr>"

definition clear_flag :: "phid_flag \<Rightarrow> cphidget \<Rightarrow> cphidget" where
  "clear_flag f p = p\<lparr>status := CPhidget_clearStatusFlag (status p) f\<rparr>"

lemma flag_bit_inj: "flag_bit f = flag_bit g \<longleftrightarrow> f = g"
  by (cases f; cases g) simp_all

lemma flag_bit_less: "flag_bit f < 32"
  by (cases f) simp_all

lemma bit_flag_iff: "bit (flag f) n \<longleftrightarrow> n = flag_bit f"
  using flag_bit_less [of f] by (auto simp: flag_def bit_exp_iff)

lemma statusFlagIsSet_bit: "CPhidget_statusFlagIsSet st f \<longleftrightarrow> bit st (flag_bit f)"
proof -
  have "st AND flag f \<noteq> 0 \<longleftrightarrow> (\<exists>n. bit (st AND flag f) n)"
    by (metis bit_0_eq bit_eqI bot_apply bot_bool_def)
  then show ?thesis by (auto simp: CPhidget_statusFlagIsSet_def bit_and_iff bit_flag_iff)
qed

lemma bit_flag: "bit (flag f) (flag_bit g) \<longleftrightarrow> f = g"
  by (auto simp: bit_flag_iff flag_bit_inj)

lemma statusFlagIsSet_set [simp]:
  "CPhidget_statusFlagIsSet (CPhidget_setStatusFlag st f) g \<longleftrightarrow> f = g \<or> CPhidget_statusFlagIsSet st g"
  by (auto simp: statusFlagIsSet_bit CPhidget_setStatusFlag_def bit_or_iff bit_flag)

lemma statusFlagIsSet_clear [simp]:
  "CPhidget_statusFlagIsSet (CPhidget_clearStatusFlag st f) g \<longleftrightarrow> f \<noteq> g \<and> CPhidget_statusFlagIsSet st g"
  using flag_bit_less [of g]
  by (auto simp: statusFlagIsSet_bit CPhidget_clearStatusFlag_def bit_and_iff bit_not_iff bit_flag)

lemma is_set_0 [simp]: "\<not> CPhidget_statusFlagIsSet 0 f"
  by (simp add: CPhidget_statusFlagIsSet_def)

lemma set_flag_simps [simp]:
  "is_set (set_flag f p) g \<longleftrightarrow> f = g \<or> is_set p g"
  "is_set (clear_flag f p) g \<longleftrightarrow> f \<noteq> g \<and> is_set p g"
  by (simp_all add: set_flag_def clear_flag_def)

lemma set_flag_fields [simp]:
  "specificDevice (set_flag f p) = specificDevice p" "deviceID (set_flag f p) = deviceID p"
  "deviceIDSpec (set_flag f p) = deviceIDSpec p" "serialNumber (set_flag f p) = serialNumber p"
  "label (set_flag f p) = label p" "deviceHandle (set_flag f p) = deviceHandle p"
  "deviceUID (set_flag f p) = deviceUID p" "writeStopFlag (set_flag f p) = writeStopFlag p"
  "outputReportByteLength (set_flag f p) = outputReportByteLength p"
  "CPhidgetFHandle (set_flag f p) = CPhidgetFHandle p" "pdd_iid (set_flag f p) = pdd_iid p"
  "CPhidgetFHandle (clear_flag f p) = CPhidgetFHandle p" "pdd_iid (clear_flag f p) = pdd_iid p"
  "tryAgainCounter (set_flag f p) = tryAgainCounter p" "GPPResponse (set_flag f p) = GPPResponse p"
  "specificDevice (clear_flag f p) = specificDevice p" "deviceID (clear_flag f p) = deviceID p"
  "deviceIDSpec (clear_flag f p) = deviceIDSpec p" "serialNumber (clear_flag f p) = serialNumber p"
  "label (clear_flag f p) = label p" "deviceHandle (clear_flag f p) = deviceHandle p"
  "deviceUID (clear_flag f p) = deviceUID p" "writeStopFlag (clear_flag f p) = writeStopFlag p"
  "outputReportByteLength (clear_flag f p) = outputReportByteLength p"
  "tryAgainCounter (clear_flag f p) = tryAgainCounter p" "GPPResponse (clear_flag f p) = GPPResponse p"
  by (simp_all add: set_flag_def clear_flag_def)

subsection \<open>Comparing handles\<close>

text \<open>\<^verbatim>\<open>strncmp\<close>: the sign of the comparison; a read outside an object is undefined.\<close>

fun strncmp :: "nat \<Rightarrow> u8 list \<Rightarrow> u8 list \<Rightarrow> int option" where
  "strncmp 0 a b = Some 0"
| "strncmp (Suc n) (x # a) (y # b) =
     (if x \<noteq> y then Some (if x < y then - 1 else 1) else if x = 0 then Some 0 else strncmp n a b)"
| "strncmp (Suc n) a b = None"

lemma strncmp_sym_0: "strncmp n a b = Some 0 \<longleftrightarrow> strncmp n b a = Some 0"
  by (induction n a b rule: strncmp.induct) auto

text \<open>\<^verbatim>\<open>MAX_LABEL_STORAGE\<close>\<close>

definition MAX_LABEL_STORAGE :: nat where "MAX_LABEL_STORAGE = 41"

text \<open>\<^verbatim>\<open>CPhidget_areEqual\<close> and \<^verbatim>\<open>CPhidget_areExtraEqual\<close> on two handles.\<close>

definition CPhidget_areEqual :: "cphidget \<Rightarrow> cphidget \<Rightarrow> bool" where
  "CPhidget_areEqual phid1 phid2 =
     (if deviceID phid2 \<noteq> deviceID phid1 then False
      else if deviceIDSpec phid1 \<noteq> 0 \<and> deviceIDSpec phid2 \<noteq> 0 \<and> deviceIDSpec phid2 \<noteq> deviceIDSpec phid1 then False
      else if specificDevice phid1 \<noteq> PHIDGETOPEN_ANY \<and> specificDevice phid2 \<noteq> PHIDGETOPEN_ANY then
        (if specificDevice phid1 = PHIDGETOPEN_SERIAL \<and> specificDevice phid2 = PHIDGETOPEN_LABEL \<or>
            specificDevice phid1 = PHIDGETOPEN_LABEL \<and> specificDevice phid2 = PHIDGETOPEN_SERIAL then False
         else if (specificDevice phid1 = PHIDGETOPEN_SERIAL \<or> specificDevice phid2 = PHIDGETOPEN_SERIAL) \<and>
            serialNumber phid2 \<noteq> serialNumber phid1 then False
         else if (specificDevice phid1 = PHIDGETOPEN_LABEL \<or> specificDevice phid2 = PHIDGETOPEN_LABEL) \<and>
            strncmp (MAX_LABEL_STORAGE - 1) (label phid1) (label phid2) \<noteq> Some 0 then False
         else True)
      else True)"

definition CPhidget_areExtraEqual :: "cphidget \<Rightarrow> cphidget \<Rightarrow> bool" where
  "CPhidget_areExtraEqual phid1 phid2 \<longleftrightarrow>
     serialNumber phid2 = serialNumber phid1 \<and> deviceIDSpec phid2 = deviceIDSpec phid1 \<and> deviceID phid2 = deviceID phid1"

lemma areEqual_sym: "CPhidget_areEqual a b = CPhidget_areEqual b a"
  using strncmp_sym_0 [of "MAX_LABEL_STORAGE - 1" "label a" "label b"]
  by (auto simp: CPhidget_areEqual_def)

subsection \<open>Transfers\<close>

text \<open>What a libusb transfer returns: the bytes moved, or one of the error codes that the
  code tells apart.\<close>

datatype usb_ret = Bytes nat | LIBUSB_ERROR_TIMEOUT | LIBUSB_ERROR_NO_DEVICE | LIBUSB_ERROR_BUSY | LIBUSB_ERROR_OTHER

text \<open>\<^verbatim>\<open>int CUSBSendPacket(CPhidgetHandle phid, unsigned char *buffer)\<close>\<close>

definition CUSBSendPacket :: "cphidget \<Rightarrow> usb_ret \<Rightarrow> ephidget" where
  "CUSBSendPacket phid ret =
     (if \<not> is_set phid PHIDGET_ATTACHED_FLAG \<and> \<not> is_set phid PHIDGET_ATTACHING_FLAG then EPHIDGET_NOTATTACHED
      else if \<not> deviceHandle phid then EPHIDGET_UNEXPECTED
      else case ret of
        LIBUSB_ERROR_TIMEOUT \<Rightarrow> EPHIDGET_TIMEOUT
      | LIBUSB_ERROR_NO_DEVICE \<Rightarrow> EPHIDGET_NOTATTACHED
      | Bytes n \<Rightarrow> if n \<noteq> outputReportByteLength phid then EPHIDGET_UNEXPECTED else EPHIDGET_OK
      | _ \<Rightarrow> EPHIDGET_UNEXPECTED)"

text \<open>The label at \<^verbatim>\<open>tryagain:\<close> in \<^verbatim>\<open>CUSBReadPacket\<close>.\<close>

definition read_tryagain :: "cphidget \<Rightarrow> ephidget \<times> cphidget" where
  "read_tryagain phid = (let phid = phid\<lparr>tryAgainCounter := tryAgainCounter phid + 1\<rparr> in
     if tryAgainCounter phid > 30 then (EPHIDGET_UNEXPECTED, phid\<lparr>tryAgainCounter := 0\<rparr>)
     else (EPHIDGET_TRYAGAIN, phid))"

text \<open>\<^verbatim>\<open>int CUSBReadPacket(CPhidgetHandle phid, unsigned char *buffer)\<close>\<close>

definition CUSBReadPacket :: "cphidget \<Rightarrow> usb_ret \<Rightarrow> ephidget \<times> cphidget" where
  "CUSBReadPacket phid ret =
     (if \<not> is_set phid PHIDGET_ATTACHED_FLAG \<and> \<not> is_set phid PHIDGET_ATTACHING_FLAG
      then (EPHIDGET_NOTATTACHED, phid)
      else if \<not> deviceHandle phid then (EPHIDGET_UNEXPECTED, phid)
      else case ret of
        LIBUSB_ERROR_TIMEOUT \<Rightarrow> (EPHIDGET_TIMEOUT, phid)
      | LIBUSB_ERROR_BUSY \<Rightarrow> (EPHIDGET_TRYAGAIN, phid)
      | LIBUSB_ERROR_NO_DEVICE \<Rightarrow> (EPHIDGET_NOTATTACHED, phid)
      | LIBUSB_ERROR_OTHER \<Rightarrow> read_tryagain phid
      | Bytes n \<Rightarrow>
          if n \<noteq> inputReportByteLength phid then read_tryagain phid
          else (EPHIDGET_OK, phid\<lparr>tryAgainCounter := 0\<rparr>))"

text \<open>\<^verbatim>\<open>int CUSBCloseHandle(CPhidgetHandle phid)\<close>; \<open>reset_ok\<close> is the outcome of
  \<^verbatim>\<open>libusb_reset_device\<close>.\<close>

definition CUSBCloseHandle :: "cphidget \<Rightarrow> bool \<Rightarrow> ephidget \<times> cphidget" where
  "CUSBCloseHandle phid reset_ok = (let phid = clear_flag PHIDGET_ATTACHED_FLAG phid in
     if \<not> deviceHandle phid then (EPHIDGET_NOTATTACHED, phid)
     else (if is_set phid PHIDGET_USB_ERROR_FLAG \<and> \<not> reset_ok then EPHIDGET_UNEXPECTED else EPHIDGET_OK,
           phid\<lparr>deviceHandle := False\<rparr>))"

text \<open>The version number of a USB device (\<^verbatim>\<open>bcdDevice\<close>).\<close>

definition device_version :: "nat \<Rightarrow> int" where
  "device_version bcd = (if bcd < 0x100 then int bcd * 100 else int (drop_bit 8 bcd) * 100 + int (bcd mod 256))"

text \<open>The loop of \<^verbatim>\<open>CUSBGetDeviceCapabilities\<close> that finds the report lengths in the HID
  report descriptor.\<close>

definition report_step :: "u8 list \<Rightarrow> nat \<Rightarrow> cphidget \<Rightarrow> cphidget option" where
  "report_step buf i phid = do {
     b \<leftarrow> cread buf i;
     b2 \<leftarrow> cread buf (i - 2);
     b4 \<leftarrow> cread buf (i - 4);
     b1 \<leftarrow> cread buf (i - 1);
     b3 \<leftarrow> cread buf (i - 3);
     let phid = (if b = 0x81 \<and> b2 = 0x95 then phid\<lparr>inputReportByteLength := unat b1\<rparr>
                 else if b = 0x81 \<and> b4 = 0x95 then phid\<lparr>inputReportByteLength := unat b3\<rparr> else phid);
     Some (if b = 0x91 \<and> b2 = 0x95 then phid\<lparr>outputReportByteLength := unat b1\<rparr>
           else if b = 0x91 \<and> b4 = 0x95 then phid\<lparr>outputReportByteLength := unat b3\<rparr> else phid) }"

definition report_lengths :: "u8 list \<Rightarrow> nat \<Rightarrow> cphidget \<Rightarrow> (ephidget \<times> cphidget) option" where
  "report_lengths buf len phid =
     (if len \<ge> 10 then map_option (Pair EPHIDGET_OK) (cfor [10..<len] (report_step buf) phid)
      else Some (EPHIDGET_UNEXPECTED, phid))"

subsection \<open>Cached attributes\<close>

text \<open>The guard that \<^verbatim>\<open>CPhidget_getDeviceName\<close>, \<^verbatim>\<open>CPhidget_getSerialNumber\<close>,
  \<^verbatim>\<open>CPhidget_getDeviceVersion\<close>, \<^verbatim>\<open>CPhidget_getDeviceType\<close>,
  \<^verbatim>\<open>CPhidget_getDeviceID\<close>, \<^verbatim>\<open>CPhidget_getDeviceClass\<close> and
  \<^verbatim>\<open>CPhidget_getDeviceLabel\<close> share.\<close>

definition get_cached :: "(cphidget \<Rightarrow> 'a) \<Rightarrow> cphidget \<Rightarrow> ephidget \<times> 'a option" where
  "get_cached field phid =
     (if \<not> is_set phid PHIDGET_ATTACHED_FLAG \<and> \<not> is_set phid PHIDGET_DETACHING_FLAG
      then (EPHIDGET_NOTATTACHED, None) else (EPHIDGET_OK, Some (field phid)))"

definition CPhidget_getSerialNumber :: "cphidget \<Rightarrow> ephidget \<times> int option" where
  "CPhidget_getSerialNumber = get_cached serialNumber"

definition CPhidget_getDeviceVersion :: "cphidget \<Rightarrow> ephidget \<times> int option" where
  "CPhidget_getDeviceVersion = get_cached deviceVersion"

definition CPhidget_getDeviceID :: "cphidget \<Rightarrow> ephidget \<times> int option" where
  "CPhidget_getDeviceID = get_cached deviceIDSpec"

definition CPhidget_getDeviceClass :: "cphidget \<Rightarrow> ephidget \<times> int option" where
  "CPhidget_getDeviceClass = get_cached deviceID"

definition CPhidget_getDeviceLabel :: "cphidget \<Rightarrow> ephidget \<times> u8 list option" where
  "CPhidget_getDeviceLabel = get_cached label"

definition CPhidget_getDeviceStatus :: "cphidget \<Rightarrow> ephidget \<times> bool" where
  "CPhidget_getDeviceStatus phid = (EPHIDGET_OK, is_set phid PHIDGET_ATTACHED_FLAG)"

text \<open>\<^verbatim>\<open>CPhidget_create\<close>: a zeroed handle.\<close>

definition CPhidget_create :: "bool \<Rightarrow> ephidget \<times> cphidget option" where
  "CPhidget_create mem = (if \<not> mem then (EPHIDGET_NOMEMORY, None) else
     (EPHIDGET_OK, Some (clear_flag PHIDGET_ATTACHED_FLAG
        \<lparr>status = 0, specificDevice = PHIDGETOPEN_ANY, deviceID = 0, deviceIDSpec = 0, deviceUID = 0,
         deviceVersion = 0, serialNumber = 0, label = replicate 41 0, deviceHandle = False,
         CPhidgetFHandle = None, pdd_iid = 0,
         writeStopFlag = False, outputReportByteLength = 0, inputReportByteLength = 0,
         tryAgainCounter = 0, GPPResponse = 0\<rparr>)))"


subsection \<open>Properties\<close>

text \<open>The codes of successive reads of a handle.\<close>

fun reads :: "cphidget \<Rightarrow> usb_ret list \<Rightarrow> ephidget list" where
  "reads phid [] = []"
| "reads phid (x # xs) = (case CUSBReadPacket phid x of (r, phid) \<Rightarrow> r # reads phid xs)"

definition unusable :: "cphidget \<Rightarrow> usb_ret \<Rightarrow> bool" where
  "unusable phid x \<longleftrightarrow> x = LIBUSB_ERROR_OTHER \<or> (\<exists>n. x = Bytes n \<and> n \<noteq> inputReportByteLength phid)"

lemma reads_unusable:
  assumes "is_set phid PHIDGET_ATTACHED_FLAG" and "deviceHandle phid" and "\<forall>x \<in> set xs. unusable phid x"
    and "tryAgainCounter phid + int (length xs) \<le> 30"
  shows "reads phid (xs @ ys) = replicate (length xs) EPHIDGET_TRYAGAIN @
    reads (phid\<lparr>tryAgainCounter := tryAgainCounter phid + int (length xs)\<rparr>) ys"
  using assms
proof (induction xs arbitrary: phid)
  case (Cons x xs)
  let ?p = "phid\<lparr>tryAgainCounter := tryAgainCounter phid + 1\<rparr>"
  have "CUSBReadPacket phid x = (EPHIDGET_TRYAGAIN, ?p)"
    using Cons.prems by (auto simp: CUSBReadPacket_def read_tryagain_def unusable_def Let_def split: usb_ret.split)
  moreover have "\<forall>x \<in> set xs. unusable ?p x" using Cons.prems(3) by (simp add: unusable_def)
  then have "reads ?p (xs @ ys) = replicate (length xs) EPHIDGET_TRYAGAIN @
      reads (?p\<lparr>tryAgainCounter := tryAgainCounter ?p + int (length xs)\<rparr>) ys"
    using Cons.prems by (intro Cons.IH) (auto simp: unusable_def)
  ultimately show ?case by (simp add: add.assoc)
qed simp

text \<open>A run of unusable transfers (errors without a code of their own, or short reads) is
  reported as \<^verbatim>\<open>EPHIDGET_TRYAGAIN\<close> thirty times and as \<^verbatim>\<open>EPHIDGET_UNEXPECTED\<close>
  the thirty-first time, with the count starting afresh after it and after every good read.\<close>

theorem read_gives_up:
  assumes "is_set phid PHIDGET_ATTACHED_FLAG" and "deviceHandle phid" and "tryAgainCounter phid = 0"
    and "length xs = 30" and "\<forall>x \<in> set (xs @ [x]). unusable phid x"
  shows "reads phid (xs @ x # ys) = replicate 30 EPHIDGET_TRYAGAIN @ EPHIDGET_UNEXPECTED # reads phid ys \<and>
    reads phid (xs @ Bytes (inputReportByteLength phid) # ys) = replicate 30 EPHIDGET_TRYAGAIN @ EPHIDGET_OK # reads phid ys"
proof -
  let ?p = "phid\<lparr>tryAgainCounter := 30\<rparr>"
  have zero: "?p\<lparr>tryAgainCounter := 0\<rparr> = phid" using assms(3) by simp
  have "unusable ?p x" using assms(5) by (simp add: unusable_def)
  then have "CUSBReadPacket ?p x = (EPHIDGET_UNEXPECTED, phid)"
    using assms(1-3) zero by (auto simp: CUSBReadPacket_def read_tryagain_def unusable_def Let_def split: usb_ret.split)
  moreover have "CUSBReadPacket ?p (Bytes (inputReportByteLength phid)) = (EPHIDGET_OK, phid)"
    using assms(1-3) zero by (simp add: CUSBReadPacket_def)
  moreover have "reads phid (xs @ zs) = replicate 30 EPHIDGET_TRYAGAIN @ reads ?p zs" for zs
    using reads_unusable [of phid xs zs] assms by simp
  ultimately show ?thesis by simp
qed

definition demo_handle :: cphidget where
  "demo_handle = (set_flag PHIDGET_ATTACHED_FLAG (the (snd (CPhidget_create True))))\<lparr>deviceHandle := True, inputReportByteLength := 8\<rparr>"

theorem read_gives_up_witness:
  "reads demo_handle (replicate 30 LIBUSB_ERROR_OTHER @ [Bytes 3]) = replicate 30 EPHIDGET_TRYAGAIN @ [EPHIDGET_UNEXPECTED]"
proof -
  have "is_set demo_handle PHIDGET_ATTACHED_FLAG" "deviceHandle demo_handle" "tryAgainCounter demo_handle = 0"
    "length (replicate 30 LIBUSB_ERROR_OTHER) = 30"
    "\<forall>x \<in> set (replicate 30 LIBUSB_ERROR_OTHER @ [Bytes 3]). unusable demo_handle x"
    by (simp_all add: demo_handle_def CPhidget_create_def unusable_def set_flag_def clear_flag_def CPhidget_setStatusFlag_def
        CPhidget_clearStatusFlag_def CPhidget_statusFlagIsSet_def flag_def)
  from read_gives_up [OF this, of "[]"] show ?thesis by simp
qed

end
