(* ===== verification/Devices.thy ===== *)
theory Devices
  imports Handle
begin

text \<open>
  Hot plugging: the lists of opened handles (\<^verbatim>\<open>ActiveDevices\<close>) and of plugged devices
  (\<^verbatim>\<open>AttachedDevices\<close>), opening and closing (\<^verbatim>\<open>cphidget.c\<close>), the central thread
  (\<^verbatim>\<open>cthread.c\<close>) and the attach and detach handling of the manager
  (\<^verbatim>\<open>cphidgetmanager.c\<close>).  Handles and device records share the type of the code;
  a device record is one that the bus scan made, with a \<^verbatim>\<open>CPhidgetFHandle\<close>.

  Operations run one after the other.  That is more than the locks give: a round of the
  central thread and \<^verbatim>\<open>findActiveDevice\<close> release the locks of the lists between
  their parts, and a call that another thread makes meanwhile is not covered.  An access
  to a record that was freed is undefined (\<open>None\<close>).  The outcomes of USB and of thread creation are
  arguments; calls of user functions are logged and do not call back.
\<close>

subsection \<open>State\<close>

datatype mgr_state = PHIDGETMANAGER_INACTIVE | PHIDGETMANAGER_ACTIVATING | PHIDGETMANAGER_ACTIVE

record manager =
  mgr_status :: u32
  mgr_state :: mgr_state

datatype event =
    AttachEvent ptr | DetachEvent ptr | ErrorEvent ptr ephidget
  | ManagerAttach ptr ptr | ManagerDetach ptr ptr

record world =
  phids :: "ptr \<Rightarrow> cphidget option"
  ActiveDevices :: "ptr list"
  AttachedDevices :: "ptr list"
  managers :: "ptr \<Rightarrow> manager option"
  localPhidgetManagers :: "ptr list"
  ActivePhidgetManagers :: int
  CentralThread :: bool
  events :: "event list"

definition upd :: "ptr \<Rightarrow> (cphidget \<Rightarrow> cphidget) \<Rightarrow> world \<Rightarrow> world" where
  "upd p f w = w\<lparr>phids := (phids w)(p := map_option f (phids w p))\<rparr>"

definition emit :: "event \<Rightarrow> world \<Rightarrow> world" where
  "emit e w = w\<lparr>events := events w @ [e]\<rparr>"

text \<open>The comparisons, on pointers, and the list operations with them.  A comparison reads
  both records; \<open>compared\<close> are the elements that a search looks at.\<close>

definition on_records :: "(cphidget \<Rightarrow> cphidget \<Rightarrow> bool) \<Rightarrow> world \<Rightarrow> ptr \<Rightarrow> ptr \<Rightarrow> bool" where
  "on_records eq w a b = (case (phids w a, phids w b) of (Some p, Some q) \<Rightarrow> eq p q | _ \<Rightarrow> False)"

abbreviation areEqual :: "world \<Rightarrow> ptr \<Rightarrow> ptr \<Rightarrow> bool" where
  "areEqual w \<equiv> on_records CPhidget_areEqual w"

abbreviation areExtraEqual :: "world \<Rightarrow> ptr \<Rightarrow> ptr \<Rightarrow> bool" where
  "areExtraEqual w \<equiv> on_records CPhidget_areExtraEqual w"

definition live :: "world \<Rightarrow> ptr list \<Rightarrow> bool" where
  "live w ps \<longleftrightarrow> list_all (\<lambda>p. phids w p \<noteq> None) ps"

fun compared :: "(ptr \<Rightarrow> bool) \<Rightarrow> ptr list \<Rightarrow> ptr list" where
  "compared P [] = []"
| "compared P (x # xs) = x # (if P x then [] else compared P xs)"

definition find_phid :: "(cphidget \<Rightarrow> cphidget \<Rightarrow> bool) \<Rightarrow> world \<Rightarrow> ptr list \<Rightarrow> ptr \<Rightarrow> (ephidget \<times> ptr option) option" where
  "find_phid eq w xs e = (if live w (e # compared (on_records eq w e) xs)
     then Some (CList_findInList (on_records eq w) xs e) else None)"

definition add_phid ::
    "bool \<Rightarrow> (cphidget \<Rightarrow> cphidget \<Rightarrow> bool) \<Rightarrow> world \<Rightarrow> ptr list \<Rightarrow> ptr \<Rightarrow> (ephidget \<times> ptr list) option" where
  "add_phid mem eq w xs e = (if live w (e # compared (on_records eq w e) xs)
     then Some (CList_addToList mem (on_records eq w) True xs e) else None)"

definition remove_phid :: "(cphidget \<Rightarrow> cphidget \<Rightarrow> bool) \<Rightarrow> world \<Rightarrow> ptr list \<Rightarrow> ptr \<Rightarrow> ptr list option" where
  "remove_phid eq w xs e =
     (if live w (e # (case xs of [] \<Rightarrow> [] | x # _ \<Rightarrow> if on_records eq w e x then [x] else xs))
      then Some (fst (snd (CList_removeFromList (on_records eq w) True xs e False))) else None)"

interpretation phid_list: list_matcher "areEqual w" for w
  by unfold_locales (auto simp: on_records_def areEqual_sym split: option.splits)

subsection \<open>Central thread\<close>

text \<open>\<^verbatim>\<open>StartCentralThread\<close>: start it, or signal it when it runs.\<close>

definition StartCentralThread :: "bool \<Rightarrow> world \<Rightarrow> ephidget \<times> world" where
  "StartCentralThread created w =
     (if CentralThread w then (EPHIDGET_OK, w)
      else if \<not> created then (EPHIDGET_UNEXPECTED, w)
      else (EPHIDGET_OK, w\<lparr>CentralThread := True\<rparr>))"

text \<open>The exit of \<^verbatim>\<open>CentralThreadFunction\<close> frees the device records;
  \<^verbatim>\<open>JoinCentralThread\<close> waits for it, unless it is called on that thread (\<open>mine\<close>).\<close>

definition central_exit :: "world \<Rightarrow> world" where
  "central_exit w = w\<lparr>phids := (\<lambda>p. if p \<in> set (AttachedDevices w) then None else phids w p),
     AttachedDevices := [], CentralThread := False\<rparr>"

definition JoinCentralThread :: "bool \<Rightarrow> world \<Rightarrow> world" where
  "JoinCentralThread mine w = (if CentralThread w \<and> \<not> mine then central_exit w else w)"

text \<open>\<^verbatim>\<open>RegisterLocalDevice\<close>\<close>

definition RegisterLocalDevice :: "bool \<Rightarrow> bool \<Rightarrow> ptr \<Rightarrow> world \<Rightarrow> (ephidget \<times> world) option" where
  "RegisterLocalDevice mem created p w = do {
     phid \<leftarrow> phids w p;
     (r, act) \<leftarrow> (if specificDevice phid = PHIDGETOPEN_SERIAL \<or> specificDevice phid = PHIDGETOPEN_LABEL
        then add_phid mem CPhidget_areEqual w (ActiveDevices w) p
        else Some (CList_addToList mem CPhidgetHandle_areEqual True (ActiveDevices w) p));
     if r \<noteq> EPHIDGET_OK then Some (r, w)
     else Some (StartCentralThread created (w\<lparr>ActiveDevices := act\<rparr>)) }"

subsection \<open>Opening and closing\<close>

definition CPhidget_open :: "bool \<Rightarrow> bool \<Rightarrow> ptr \<Rightarrow> int \<Rightarrow> world \<Rightarrow> (ephidget \<times> world) option" where
  "CPhidget_open mem created p serial w = do {
     phid \<leftarrow> phids w p;
     if serial < - 1 then Some (EPHIDGET_INVALIDARG, w)
     else if is_set phid PHIDGET_OPENED_FLAG then Some (EPHIDGET_OK, w)
     else do {
       let w = upd p (\<lambda>phid. phid\<lparr>specificDevice := if serial = - 1 then PHIDGETOPEN_ANY else PHIDGETOPEN_SERIAL,
                                  serialNumber := serial\<rparr>) w;
       (result, w) \<leftarrow> RegisterLocalDevice mem created p w;
       Some (result, upd p (set_flag PHIDGET_OPENED_FLAG) w) } }"

text \<open>\<^verbatim>\<open>CPhidget_openLabel\<close>; \<open>lab\<close> is \<open>None\<close> for a null label and otherwise the
  text before the terminator, \<open>enc\<close> is the result of \<^verbatim>\<open>encodeLabelString\<close>.\<close>

definition CPhidget_openLabel ::
    "bool \<Rightarrow> bool \<Rightarrow> ephidget \<Rightarrow> ptr \<Rightarrow> u8 list option \<Rightarrow> world \<Rightarrow> (ephidget \<times> world) option" where
  "CPhidget_openLabel mem created enc p lab w = do {
     phid \<leftarrow> phids w p;
     if lab \<noteq> None \<and> enc \<noteq> EPHIDGET_OK then Some (enc, w)
     else if is_set phid PHIDGET_OPENED_FLAG then Some (EPHIDGET_OK, w)
     else do {
       phid \<leftarrow> (case lab of
          None \<Rightarrow> Some (phid\<lparr>specificDevice := PHIDGETOPEN_ANY\<rparr>)
        | Some s \<Rightarrow> do {
            l \<leftarrow> blit (label phid) 0 (s @ [0]);
            Some (phid\<lparr>specificDevice := PHIDGETOPEN_LABEL, label := l\<rparr>) });
       (result, w) \<leftarrow> RegisterLocalDevice mem created p (upd p (\<lambda>_. phid) w);
       Some (result, upd p (set_flag PHIDGET_OPENED_FLAG) w) } }"

text \<open>The mode and serial number of a handle that loses its device.\<close>

definition restore_any :: "cphidget \<Rightarrow> cphidget" where
  "restore_any phid = (if specificDevice phid = PHIDGETOPEN_ANY_ATTACHED
     then phid\<lparr>specificDevice := PHIDGETOPEN_ANY, serialNumber := - 1\<rparr> else phid)"

definition close_usb :: "bool \<Rightarrow> ptr \<Rightarrow> world \<Rightarrow> (ephidget \<times> world) option" where
  "close_usb reset_ok p w = do {
     phid \<leftarrow> phids w p;
     let (r, phid) = CUSBCloseHandle phid reset_ok;
     Some (r, upd p (\<lambda>_. phid) w) }"

text \<open>The part of \<^verbatim>\<open>CPhidget_close\<close> for a local handle.\<close>

definition close_local :: "bool \<Rightarrow> bool \<Rightarrow> ptr \<Rightarrow> world \<Rightarrow> (ephidget \<times> world) option" where
  "close_local reset_ok mine p w = do {
     act \<leftarrow> remove_phid CPhidget_areEqual w (ActiveDevices w) p;
     let w = w\<lparr>ActiveDevices := act\<rparr>;
     phid \<leftarrow> phids w p;
     (result, w) \<leftarrow> (if is_set phid PHIDGET_ATTACHED_FLAG
        then close_usb reset_ok p (upd p (\<lambda>phid. phid\<lparr>writeStopFlag := True\<rparr>) w) else Some (EPHIDGET_OK, w));
     let w = upd p restore_any w;
     Some (result, if ActiveDevices w = [] \<and> ActivePhidgetManagers w = 0 then JoinCentralThread mine w else w) }"

text \<open>\<^verbatim>\<open>CPhidget_close\<close>; \<open>remote\<close> stands for the branch of network handles.\<close>

definition CPhidget_close ::
    "(ptr \<Rightarrow> world \<Rightarrow> (ephidget \<times> world) option) \<Rightarrow> bool \<Rightarrow> bool \<Rightarrow> ptr \<Rightarrow> world \<Rightarrow> (ephidget \<times> world) option" where
  "CPhidget_close remote reset_ok mine p w = do {
     phid \<leftarrow> phids w p;
     if \<not> is_set phid PHIDGET_OPENED_FLAG then Some (EPHIDGET_OK, w)
     else do {
       (result, w) \<leftarrow> (if is_set phid PHIDGET_REMOTE_FLAG then remote p w else close_local reset_ok mine p w);
       Some (result, upd p (clear_flag PHIDGET_OPENED_FLAG) w) } }"

subsection \<open>Attaching a handle to a device\<close>

text \<open>The outcomes of one attempt: \<^verbatim>\<open>CUSBOpenHandle\<close> (with the attributes it reads),
  the device's initialisation, the two threads, a USB reset.  \<open>at_freed\<close>: the product
  string of a device of the handle's class cannot be read, and \<^verbatim>\<open>CUSBOpenHandle\<close>
  frees the handle.\<close>

record attempt =
  at_freed :: bool
  at_open :: ephidget
  at_spec :: int
  at_uid :: int
  at_version :: int
  at_label :: "u8 list"
  at_iid :: int
  at_in :: nat
  at_out :: nat
  at_init :: ephidget
  at_write_thread :: bool
  at_read_thread :: bool
  at_reset_ok :: bool

definition attach_claim :: "attempt \<Rightarrow> cphidget \<Rightarrow> cphidget" where
  "attach_claim a phid = phid\<lparr>deviceHandle := True, deviceIDSpec := at_spec a, deviceUID := at_uid a,
     deviceVersion := at_version a, label := at_label a, pdd_iid := at_iid a,
     inputReportByteLength := at_in a, outputReportByteLength := at_out a\<rparr>"

text \<open>\<^verbatim>\<open>attachActiveDevice\<close>, from the successful \<^verbatim>\<open>CUSBOpenHandle\<close> on.\<close>

definition attach_opened :: "attempt \<Rightarrow> ptr \<Rightarrow> world \<Rightarrow> (ephidget \<times> world) option" where
  "attach_opened a p w = do {
     let w = upd p (set_flag PHIDGET_ATTACHING_FLAG) w;
     if at_init a \<noteq> EPHIDGET_OK then do {
       let w = upd p restore_any (upd p (clear_flag PHIDGET_ATTACHING_FLAG) w);
       let w = (if at_init a = EPHIDGET_BADVERSION then emit (ErrorEvent p EPHIDGET_BADVERSION) w else w);
       (r, w) \<leftarrow> close_usb (at_reset_ok a) p w;
       Some (at_init a, w) }
     else do {
       let w = upd p (\<lambda>phid. set_flag PHIDGET_ATTACHED_FLAG
                  (clear_flag PHIDGET_ATTACHING_FLAG (phid\<lparr>writeStopFlag := False\<rparr>))) w;
       if \<not> at_write_thread a then do {
         (r, w) \<leftarrow> close_usb (at_reset_ok a) p (upd p (clear_flag PHIDGET_ATTACHED_FLAG) w);
         Some (EPHIDGET_UNEXPECTED, upd p restore_any w) }
       else do {
         let w = emit (AttachEvent p) w;
         if \<not> at_read_thread a then do {
           let w = upd p (\<lambda>phid. (clear_flag PHIDGET_ATTACHED_FLAG phid)\<lparr>writeStopFlag := True\<rparr>) w;
           (r, w) \<leftarrow> close_usb (at_reset_ok a) p w;
           Some (EPHIDGET_UNEXPECTED, upd p restore_any w) }
         else Some (EPHIDGET_OK, w) } } }"

definition attachActiveDevice :: "attempt \<Rightarrow> ptr \<Rightarrow> ptr \<Rightarrow> world \<Rightarrow> (ephidget \<times> world) option" where
  "attachActiveDevice a p d w = do {
     phid \<leftarrow> phids w p;
     dev \<leftarrow> phids w d;
     if \<not> is_set phid PHIDGET_OPENED_FLAG then Some (EPHIDGET_UNEXPECTED, w)
     else do {
       let w = upd p (\<lambda>phid. phid\<lparr>specificDevice :=
           if specificDevice phid = PHIDGETOPEN_ANY then PHIDGETOPEN_ANY_ATTACHED else specificDevice phid,
           serialNumber := serialNumber dev\<rparr>) w;
       let w = (if at_freed a then w\<lparr>phids := (phids w)(p := None)\<rparr> else w);
       _ \<leftarrow> phids w p;
       if at_open a \<noteq> EPHIDGET_OK then
         Some (at_open a, upd p (\<lambda>phid. (restore_any phid)\<lparr>deviceIDSpec := 0, deviceUID := 0\<rparr>) w)
       else attach_opened a p (upd p (attach_claim a) w) } }"

text \<open>\<^verbatim>\<open>findActiveDevice\<close>: the candidates, and the attempts until one succeeds.  The list
  of attempts is consumed; when it is empty the device cannot be opened.\<close>

definition specific_match :: "cphidget \<Rightarrow> cphidget \<Rightarrow> bool" where
  "specific_match phid dev \<longleftrightarrow> \<not> is_set phid PHIDGET_ATTACHED_FLAG \<and> deviceID phid = deviceID dev \<and>
     (specificDevice phid = PHIDGETOPEN_SERIAL \<and> serialNumber phid = serialNumber dev \<or>
      specificDevice phid = PHIDGETOPEN_LABEL \<and> strncmp (MAX_LABEL_STORAGE - 1) (label phid) (label dev) = Some 0)"

definition any_match :: "cphidget \<Rightarrow> cphidget \<Rightarrow> bool" where
  "any_match phid dev \<longleftrightarrow> \<not> is_set phid PHIDGET_ATTACHED_FLAG \<and> deviceID phid = deviceID dev \<and>
     specificDevice phid = PHIDGETOPEN_ANY"

definition add_matches ::
    "(cphidget \<Rightarrow> cphidget \<Rightarrow> bool) \<Rightarrow> world \<Rightarrow> ptr \<Rightarrow> ptr list \<Rightarrow> ptr list" where
  "add_matches m w d ms = fold (\<lambda>p ms. if on_records m w p d
     then snd (CList_addToList True CPhidgetHandle_areEqual True ms p) else ms) (ActiveDevices w) ms"

fun try_matches :: "attempt list \<Rightarrow> ptr list \<Rightarrow> ptr \<Rightarrow> world \<Rightarrow> (ephidget \<times> attempt list \<times> world) option" where
  "try_matches as [] d w = Some (EPHIDGET_NOTFOUND, as, w)"
| "try_matches as (p # ps) d w = do {
     let a = (case as of [] \<Rightarrow> \<lparr>at_freed = False, at_open = EPHIDGET_NOTFOUND, at_spec = 0, at_uid = 0, at_version = 0, at_label = [],
        at_iid = 0, at_in = 0, at_out = 0, at_init = EPHIDGET_OK, at_write_thread = False, at_read_thread = False, at_reset_ok = False\<rparr> | a # _ \<Rightarrow> a);
     (r, w) \<leftarrow> attachActiveDevice a p d w;
     if r = EPHIDGET_OK then Some (EPHIDGET_OK, tl as, w) else try_matches (tl as) ps d w }"

definition findActiveDevice :: "attempt list \<Rightarrow> ptr \<Rightarrow> world \<Rightarrow> (ephidget \<times> attempt list \<times> world) option" where
  "findActiveDevice as d w = (if live w (d # ActiveDevices w)
     then try_matches as (add_matches any_match w d (add_matches specific_match w d [])) d w else None)"

text \<open>\<^verbatim>\<open>findActiveDevices\<close> returns the result for the last device.\<close>

fun find_for_all :: "attempt list \<Rightarrow> ptr list \<Rightarrow> ephidget \<Rightarrow> world \<Rightarrow> (ephidget \<times> attempt list \<times> world) option" where
  "find_for_all as [] r w = Some (r, as, w)"
| "find_for_all as (d # ds) r w = do { (r, as, w) \<leftarrow> findActiveDevice as d w; find_for_all as ds r w }"

definition findActiveDevices :: "attempt list \<Rightarrow> world \<Rightarrow> (ephidget \<times> attempt list \<times> world) option" where
  "findActiveDevices as w = find_for_all as (AttachedDevices w) EPHIDGET_OK w"

subsection \<open>Plugging and unplugging\<close>

definition notify_managers :: "(ptr \<Rightarrow> event) \<Rightarrow> world \<Rightarrow> world" where
  "notify_managers ev w = fold (\<lambda>m w. case managers w m of
      Some mg \<Rightarrow> if mgr_state mg = PHIDGETMANAGER_ACTIVE then emit (ev m) w else w
    | None \<Rightarrow> w) (localPhidgetManagers w) w"

definition CPhidgetAttachEvent :: "bool \<Rightarrow> attempt list \<Rightarrow> ptr \<Rightarrow> world \<Rightarrow> (ephidget \<times> attempt list \<times> world) option" where
  "CPhidgetAttachEvent mem as d w = do {
     (r, att) \<leftarrow> add_phid mem CPhidget_areEqual w (AttachedDevices w) d;
     if r = EPHIDGET_DUPLICATE then Some (EPHIDGET_OK, as, w)
     else if r \<noteq> EPHIDGET_OK then Some (r, as, w)
     else findActiveDevice as d (notify_managers (\<lambda>m. ManagerAttach m d) (w\<lparr>AttachedDevices := att\<rparr>)) }"

text \<open>The loop of \<^verbatim>\<open>CPhidgetDetachEvent\<close> over \<open>ActiveDevices\<close>: the handle that
  the detach of \<open>d\<close> concerns is the first that compares equal and is attached, or
  that is \<open>d\<close> itself.\<close>

fun detach_target :: "ptr \<Rightarrow> world \<Rightarrow> ptr list \<Rightarrow> ptr option option" where
  "detach_target d w [] = Some None"
| "detach_target d w (p # ps) = do {
     dev \<leftarrow> phids w d;
     phid \<leftarrow> phids w p;
     if CPhidget_areExtraEqual dev phid \<and> is_set phid PHIDGET_ATTACHED_FLAG \<or> CPhidgetHandle_areEqual d p
     then Some (Some p) else detach_target d w ps }"

definition detach_handle :: "bool \<Rightarrow> ptr \<Rightarrow> world \<Rightarrow> (ephidget \<times> world) option" where
  "detach_handle reset_ok p w = do {
     let w = upd p (\<lambda>phid. (set_flag PHIDGET_DETACHING_FLAG phid)\<lparr>
         specificDevice := if specificDevice phid = PHIDGETOPEN_ANY_ATTACHED then PHIDGETOPEN_ANY
           else specificDevice phid, writeStopFlag := True\<rparr>) w;
     (r, w) \<leftarrow> close_usb reset_ok p w;
     let w = emit (DetachEvent p) w;
     Some (r, upd p (\<lambda>phid. clear_flag PHIDGET_USB_ERROR_FLAG (clear_flag PHIDGET_DETACHING_FLAG
         (phid\<lparr>deviceIDSpec := 0, deviceUID := 0, CPhidgetFHandle := None\<rparr>))) w) }"

definition CPhidgetDetachEvent :: "bool \<Rightarrow> ptr \<Rightarrow> world \<Rightarrow> (ephidget \<times> world) option" where
  "CPhidgetDetachEvent reset_ok d w = do {
     dev \<leftarrow> phids w d;
     let w = upd d (\<lambda>phid. set_flag PHIDGET_DETACHING_FLAG (clear_flag PHIDGET_ATTACHED_FLAG phid)) w;
     att \<leftarrow> remove_phid CPhidget_areExtraEqual w (AttachedDevices w) d;
     let w = upd d (clear_flag PHIDGET_DETACHING_FLAG) (notify_managers (\<lambda>m. ManagerDetach m d) (w\<lparr>AttachedDevices := att\<rparr>));
     target \<leftarrow> detach_target d w (ActiveDevices w);
     (r, w) \<leftarrow> (case target of
         Some p \<Rightarrow> detach_handle reset_ok p w
       | None \<Rightarrow> Some (EPHIDGET_OK, w));
     Some (r, w\<lparr>phids := (phids w)(d := None)\<rparr>) }"

end
