(* ===== verification/Manager.thy ===== *)
theory Manager
  imports Devices
begin

text \<open>
  The device manager (\<^verbatim>\<open>cphidgetmanager.c\<close>): manager objects, the scan of the bus
  (\<^verbatim>\<open>CUSBBuildList\<close>, \<^verbatim>\<open>linux/cusblinux-1.0.c\<close>), the poll that turns
  differences of two scans into attach and detach events, and one round of the central
  thread.  The library as a whole is then a transition system on the calls of the program
  and the rounds of the central thread.
\<close>

subsection \<open>Manager objects\<close>

abbreviation mgr_is_set :: "manager \<Rightarrow> phid_flag \<Rightarrow> bool" where
  "mgr_is_set m f \<equiv> CPhidget_statusFlagIsSet (mgr_status m) f"

definition upd_mgr :: "ptr \<Rightarrow> (manager \<Rightarrow> manager) \<Rightarrow> world \<Rightarrow> world" where
  "upd_mgr m f w = w\<lparr>managers := (managers w)(m := map_option f (managers w m))\<rparr>"

text \<open>\<^verbatim>\<open>CPhidgetManager_areEqual\<close>: the same pointer.\<close>

definition CPhidgetManager_areEqual :: "ptr \<Rightarrow> ptr \<Rightarrow> bool" where
  "CPhidgetManager_areEqual a b \<longleftrightarrow> a = b"

interpretation manager_list: list_matcher CPhidgetManager_areEqual
  by unfold_locales (auto simp: CPhidgetManager_areEqual_def)

text \<open>\<open>m\<close> is the block that \<^verbatim>\<open>malloc\<close> returns, the null pointer when it fails.\<close>

definition CPhidgetManager_create :: "ptr \<Rightarrow> world \<Rightarrow> ephidget \<times> world" where
  "CPhidgetManager_create m w = (if m = NULL then (EPHIDGET_NOMEMORY, w)
     else (EPHIDGET_OK, w\<lparr>managers := (managers w)(m \<mapsto> \<lparr>mgr_status = 0, mgr_state = PHIDGETMANAGER_INACTIVE\<rparr>)\<rparr>))"

definition CPhidgetManager_open :: "bool \<Rightarrow> bool \<Rightarrow> ptr \<Rightarrow> world \<Rightarrow> (ephidget \<times> world) option" where
  "CPhidgetManager_open mem created m w = do {
     mg \<leftarrow> managers w m;
     if mgr_is_set mg PHIDGET_OPENED_FLAG then Some (EPHIDGET_OK, w)
     else do {
       let (result, w) = (if mgr_state mg = PHIDGETMANAGER_INACTIVE
         then StartCentralThread created (upd_mgr m (\<lambda>mg. mg\<lparr>mgr_state := PHIDGETMANAGER_ACTIVATING,
                mgr_status := CPhidget_setStatusFlag (mgr_status mg) PHIDGET_ATTACHED_FLAG\<rparr>)
              (w\<lparr>localPhidgetManagers := snd (CList_addToList mem CPhidgetManager_areEqual True (localPhidgetManagers w) m),
                ActivePhidgetManagers := ActivePhidgetManagers w + 1\<rparr>))
         else (EPHIDGET_OK, w));
       Some (result, upd_mgr m (\<lambda>mg. mg\<lparr>mgr_status := CPhidget_setStatusFlag (mgr_status mg) PHIDGET_OPENED_FLAG\<rparr>) w) } }"

text \<open>\<^verbatim>\<open>CPhidgetManager_close\<close>; \<open>remote\<close> stands for the release of a network manager.\<close>

definition CPhidgetManager_close :: "(ptr \<Rightarrow> world \<Rightarrow> world) \<Rightarrow> bool \<Rightarrow> ptr \<Rightarrow> world \<Rightarrow> (ephidget \<times> world) option" where
  "CPhidgetManager_close remote mine m w = do {
     mg \<leftarrow> managers w m;
     if \<not> mgr_is_set mg PHIDGET_OPENED_FLAG then Some (EPHIDGET_OK, w)
     else do {
       let w = (if mgr_state mg = PHIDGETMANAGER_ACTIVE \<or> mgr_state mg = PHIDGETMANAGER_ACTIVATING then
           (let w = upd_mgr m (\<lambda>mg. mg\<lparr>mgr_state := PHIDGETMANAGER_INACTIVE,
                mgr_status := CPhidget_clearStatusFlag (mgr_status mg) PHIDGET_ATTACHED_FLAG\<rparr>) w in
            if mgr_is_set mg PHIDGET_REMOTE_FLAG then remote m w
            else w\<lparr>ActivePhidgetManagers := ActivePhidgetManagers w - 1,
                   localPhidgetManagers := fst (snd (CList_removeFromList CPhidgetManager_areEqual True (localPhidgetManagers w) m False))\<rparr>)
         else w);
       let w = (if ActiveDevices w = [] \<and> ActivePhidgetManagers w = 0 then JoinCentralThread mine w else w);
       Some (EPHIDGET_OK, upd_mgr m (\<lambda>mg. mg\<lparr>mgr_status := CPhidget_clearStatusFlag (mgr_status mg) PHIDGET_OPENED_FLAG\<rparr>) w) } }"

text \<open>\<^verbatim>\<open>CPhidgetManager_getAttachedDevices\<close>, local: the records with the attached flag;
  the count is written before the allocation.\<close>

definition CPhidgetManager_getAttachedDevices :: "bool \<Rightarrow> world \<Rightarrow> (ephidget \<times> nat \<times> ptr list option) option" where
  "CPhidgetManager_getAttachedDevices mem w =
     (if \<not> live w (AttachedDevices w) then None
      else let ds = filter (\<lambda>d. case phids w d of Some phid \<Rightarrow> is_set phid PHIDGET_ATTACHED_FLAG | None \<Rightarrow> False) (AttachedDevices w) in
        Some (if ds = [] then (EPHIDGET_OK, 0, None)
              else if \<not> mem then (EPHIDGET_NOMEMORY, length ds, None)
              else (EPHIDGET_OK, length ds, Some ds)))"

text \<open>\<^verbatim>\<open>sendInitialEvents\<close>\<close>

definition send_initial :: "ptr \<Rightarrow> world \<Rightarrow> world" where
  "send_initial m w = (case managers w m of
      Some mg \<Rightarrow> if mgr_state mg = PHIDGETMANAGER_ACTIVATING
        then fold (\<lambda>d. emit (ManagerAttach m d)) (AttachedDevices w)
               (upd_mgr m (\<lambda>mg. mg\<lparr>mgr_state := PHIDGETMANAGER_ACTIVE\<rparr>) w)
        else w
    | None \<Rightarrow> w)"

definition sendInitialEvents :: "world \<Rightarrow> world" where
  "sendInitialEvents w = fold send_initial (localPhidgetManagers w) w"

subsection \<open>The scan of the bus\<close>

text \<open>
  What the scan finds for a USB device: its unique name (bus and address) and, for each
  row of the device table with the device's vendor and product, the outcome of making a
  record: no memory (for the record or for its name), a device that cannot be opened,
  an attribute that cannot be read, or the attributes read, with the block that
  \<^verbatim>\<open>malloc\<close> returned.
\<close>

record found_device =
  fd_did :: int
  fd_sdid :: int
  fd_iid :: int
  fd_bcd :: nat
  fd_serial :: int
  fd_label :: "u8 list"
  fd_uid :: int

datatype probe = NoMemory | OpenFailed | ReadFailed | Found ptr found_device

definition new_record :: "u8 list \<Rightarrow> found_device \<Rightarrow> cphidget" where
  "new_record name fd =
     \<lparr>status = CPhidget_setStatusFlag 0 PHIDGET_ATTACHED_FLAG, specificDevice = PHIDGETOPEN_SERIAL,
      deviceID = fd_did fd, deviceIDSpec = fd_sdid fd, deviceUID = fd_uid fd,
      deviceVersion = device_version (fd_bcd fd), serialNumber = fd_serial fd, label = fd_label fd,
      deviceHandle = False, CPhidgetFHandle = Some name, pdd_iid = fd_iid fd,
      writeStopFlag = False, outputReportByteLength = 0, inputReportByteLength = 0,
      tryAgainCounter = 0, GPPResponse = 0\<rparr>"

text \<open>The rows of the table; the flag says that the whole scan stops (\<^verbatim>\<open>goto done\<close>).\<close>

fun probe_rows :: "u8 list \<Rightarrow> probe list \<Rightarrow> ptr list \<Rightarrow> world \<Rightarrow> (bool \<times> ptr list \<times> world) option" where
  "probe_rows name [] cur w = Some (False, cur, w)"
| "probe_rows name (NoMemory # ps) cur w = Some (True, cur, w)"
| "probe_rows name (OpenFailed # ps) cur w = probe_rows name ps cur w"
| "probe_rows name (ReadFailed # ps) cur w = Some (False, cur, w)"
| "probe_rows name (Found d fd # ps) cur w = do {
     let w = w\<lparr>phids := (phids w)(d \<mapsto> new_record name fd)\<rparr>;
     (r, cur) \<leftarrow> add_phid True CPhidget_areEqual w cur d;
     probe_rows name ps cur w }"

text \<open>The records of the last scan with this name.\<close>

fun add_known :: "u8 list \<Rightarrow> ptr list \<Rightarrow> ptr list \<Rightarrow> world \<Rightarrow> (bool \<times> ptr list) option" where
  "add_known name [] cur w = Some (False, cur)"
| "add_known name (d # ds) cur w = do {
     dev \<leftarrow> phids w d;
     n \<leftarrow> CPhidgetFHandle dev;
     (_, cur') \<leftarrow> (if n = name then add_phid True CPhidget_areEqual w cur d else Some (EPHIDGET_OK, cur));
     (f, cur'') \<leftarrow> add_known name ds cur' w;
     Some (n = name \<or> f, cur'') }"

fun scan_loop :: "(u8 list \<times> probe list) list \<Rightarrow> ptr list \<Rightarrow> world \<Rightarrow> (ptr list \<times> world) option" where
  "scan_loop [] cur w = Some (cur, w)"
| "scan_loop ((name, rows) # bus) cur w = do {
     (found, cur) \<leftarrow> add_known name (AttachedDevices w) cur w;
     if found then scan_loop bus cur w
     else do {
       (stop, cur, w) \<leftarrow> probe_rows name rows cur w;
       if stop then Some (cur, w) else scan_loop bus cur w } }"

text \<open>\<^verbatim>\<open>CUSBBuildList\<close>; \<open>bus\<close> is \<open>None\<close> when libusb gives no device list.  The
  poll ignores the return code.\<close>

definition CUSBBuildList :: "(u8 list \<times> probe list) list option \<Rightarrow> world \<Rightarrow> (ptr list \<times> world) option" where
  "CUSBBuildList bus w = (case bus of None \<Rightarrow> Some ([], w) | Some bus \<Rightarrow> scan_loop bus [] w)"

subsection \<open>The poll\<close>

fun collect_gone :: "ptr list \<Rightarrow> ptr list \<Rightarrow> ptr list \<Rightarrow> world \<Rightarrow> ptr list option" where
  "collect_gone cur [] gone w = Some gone"
| "collect_gone cur (d # ds) gone w = do {
     (r, _) \<leftarrow> find_phid CPhidget_areExtraEqual w cur d;
     (_, gone) \<leftarrow> (if r = EPHIDGET_NOTFOUND then add_phid True CPhidget_areEqual w gone d else Some (EPHIDGET_OK, gone));
     collect_gone cur ds gone w }"

text \<open>The other interfaces of a composite device.\<close>

fun add_pair :: "cphidget \<Rightarrow> ptr list \<Rightarrow> ptr list \<Rightarrow> world \<Rightarrow> ptr list option" where
  "add_pair dev [] gone w = Some gone"
| "add_pair dev (d2 # ds) gone w = do {
     dev2 \<leftarrow> phids w d2;
     (_, gone) \<leftarrow> (if serialNumber dev = serialNumber dev2 \<and> pdd_iid dev \<noteq> pdd_iid dev2
        then add_phid True CPhidget_areEqual w gone d2 else Some (EPHIDGET_OK, gone));
     add_pair dev ds gone w }"

definition cycle_errors :: "ptr list \<Rightarrow> ptr \<Rightarrow> ptr list \<Rightarrow> world \<Rightarrow> ptr list option" where
  "cycle_errors cur d gone w = do {
     (r, found) \<leftarrow> find_phid CPhidget_areEqual w (ActiveDevices w) d;
     case found of
       None \<Rightarrow> Some gone
     | Some p \<Rightarrow> do {
         phid \<leftarrow> phids w p;
         if is_set phid PHIDGET_ATTACHED_FLAG \<and> is_set phid PHIDGET_USB_ERROR_FLAG then do {
           (_, gone) \<leftarrow> add_phid True CPhidget_areEqual w gone d;
           dev \<leftarrow> phids w d;
           add_pair dev cur gone w }
         else Some gone } }"

fun attach_new :: "attempt list \<Rightarrow> ptr list \<Rightarrow> ptr list \<Rightarrow> ptr list \<Rightarrow> world \<Rightarrow> (attempt list \<times> ptr list \<times> world) option" where
  "attach_new as cur [] gone w = Some (as, gone, w)"
| "attach_new as cur (d # ds) gone w = do {
     (r, _) \<leftarrow> find_phid CPhidget_areExtraEqual w (AttachedDevices w) d;
     (_, as, w) \<leftarrow> (if r = EPHIDGET_NOTFOUND then CPhidgetAttachEvent True as d w else Some (EPHIDGET_OK, as, w));
     gone \<leftarrow> cycle_errors cur d gone w;
     attach_new as cur ds gone w }"

fun detach_all :: "bool \<Rightarrow> ptr list \<Rightarrow> world \<Rightarrow> world option" where
  "detach_all reset_ok [] w = Some w"
| "detach_all reset_ok (d # ds) w = do { (_, w) \<leftarrow> CPhidgetDetachEvent reset_ok d w; detach_all reset_ok ds w }"

text \<open>The poll and the round are one step each.  The code releases the locks of the lists between the parts of a poll and
  between the choice of the candidates and the attempts, so calls of other threads can fall in between, among them one that
  closes and deletes a candidate; what happens then is not described here.\<close>

definition CPhidgetManager_poll ::
    "(u8 list \<times> probe list) list option \<Rightarrow> attempt list \<Rightarrow> bool \<Rightarrow> world \<Rightarrow> (attempt list \<times> world) option" where
  "CPhidgetManager_poll bus as reset_ok w = do {
     (cur, w) \<leftarrow> CUSBBuildList bus (sendInitialEvents w);
     gone \<leftarrow> collect_gone cur (AttachedDevices w) [] w;
     (as, gone, w) \<leftarrow> attach_new as cur cur gone w;
     w \<leftarrow> detach_all reset_ok gone w;
     Some (as, w) }"

text \<open>One round of \<^verbatim>\<open>CentralThreadFunction\<close>.\<close>

definition CentralThread_round ::
    "(u8 list \<times> probe list) list option \<Rightarrow> attempt list \<Rightarrow> bool \<Rightarrow> world \<Rightarrow> (ephidget \<times> world) option" where
  "CentralThread_round bus as reset_ok w =
     (if ActiveDevices w \<noteq> [] \<or> ActivePhidgetManagers w \<noteq> 0 then do {
        (as, w) \<leftarrow> CPhidgetManager_poll bus as reset_ok w;
        (r, as, w) \<leftarrow> findActiveDevices as w;
        Some (EPHIDGET_OK, w) }
      else if live w (AttachedDevices w) then Some (EPHIDGET_OK, central_exit w) else None)"

end
