(* ===== verification/Hotplug.thy ===== *)
theory Hotplug
  imports Manager
begin

text \<open>
  The library as a transition system: calls of the program on handles and managers, and
  rounds of the central thread, one after the other.  The invariant of its reachable states,
  and what plugging, unplugging, opening and closing do.
\<close>

subsection \<open>Calls\<close>

datatype call =
    Create ptr int
  | Open bool bool ptr int
  | OpenLabel bool bool ephidget ptr "u8 list option"
  | Close bool bool ptr
  | Delete ptr
  | MgrCreate ptr
  | MgrOpen bool bool ptr
  | MgrClose bool ptr
  | ThreadError ptr
  | Round "(u8 list \<times> probe list) list option" "attempt list" bool

text \<open>A device class's create function: \<^verbatim>\<open>CPhidget_create\<close> and the class.\<close>

definition create_handle :: "ptr \<Rightarrow> int \<Rightarrow> world \<Rightarrow> (ephidget \<times> world) option" where
  "create_handle p cls w = (case CPhidget_create (p \<noteq> NULL) of
      (r, None) \<Rightarrow> Some (r, w)
    | (r, Some phid) \<Rightarrow> Some (r, w\<lparr>phids := (phids w)(p \<mapsto> phid\<lparr>deviceID := cls\<rparr>)\<rparr>))"

text \<open>\<^verbatim>\<open>CPhidget_delete\<close>: freeing a dead handle is undefined.\<close>

definition CPhidget_delete :: "ptr \<Rightarrow> world \<Rightarrow> (ephidget \<times> world) option" where
  "CPhidget_delete p w = (if phids w p = None then None
     else Some (EPHIDGET_OK, w\<lparr>phids := (phids w)(p := None)\<rparr>))"

text \<open>\<open>ThreadError\<close>: the read or the write thread of a handle gives up and sets the
  error flag (\<^verbatim>\<open>ReadThreadFunction\<close>, \<^verbatim>\<open>WriteThreadFunction\<close>).\<close>

fun exec :: "call \<Rightarrow> world \<Rightarrow> (ephidget \<times> world) option" where
  "exec (Create p cls) w = create_handle p cls w"
| "exec (Open mem created p serial) w = CPhidget_open mem created p serial w"
| "exec (OpenLabel mem created enc p lab) w = CPhidget_openLabel mem created enc p lab w"
| "exec (Close reset_ok mine p) w = CPhidget_close (\<lambda>_ _. None) reset_ok mine p w"
| "exec (Delete p) w = CPhidget_delete p w"
| "exec (MgrCreate m) w = Some (CPhidgetManager_create m w)"
| "exec (MgrOpen mem created m) w = CPhidgetManager_open mem created m w"
| "exec (MgrClose mine m) w = CPhidgetManager_close (\<lambda>_ w. w) mine m w"
| "exec (ThreadError p) w = Some (EPHIDGET_OK, upd p (set_flag PHIDGET_USB_ERROR_FLAG) w)"
| "exec (Round bus as reset_ok) w = CentralThread_round bus as reset_ok w"

text \<open>A local handle, between operations.\<close>

definition handle_ok :: "cphidget \<Rightarrow> bool" where
  "handle_ok phid \<longleftrightarrow> CPhidgetFHandle phid = None \<and> length (label phid) = MAX_LABEL_STORAGE \<and>
     \<not> is_set phid PHIDGET_REMOTE_FLAG \<and> \<not> is_set phid PHIDGET_ATTACHING_FLAG \<and> \<not> is_set phid PHIDGET_DETACHING_FLAG \<and>
     (is_set phid PHIDGET_ATTACHED_FLAG \<longleftrightarrow> deviceHandle phid) \<and>
     (is_set phid PHIDGET_ATTACHED_FLAG \<longrightarrow> is_set phid PHIDGET_OPENED_FLAG \<and> specificDevice phid \<noteq> PHIDGETOPEN_ANY) \<and>
     (specificDevice phid = PHIDGETOPEN_ANY_ATTACHED \<longrightarrow> is_set phid PHIDGET_ATTACHED_FLAG)"

text \<open>A device record of the bus scan.\<close>

definition device_ok :: "cphidget \<Rightarrow> bool" where
  "device_ok phid \<longleftrightarrow> CPhidgetFHandle phid \<noteq> None \<and> length (label phid) = MAX_LABEL_STORAGE \<and>
     is_set phid PHIDGET_ATTACHED_FLAG \<and> \<not> is_set phid PHIDGET_DETACHING_FLAG \<and>
     specificDevice phid = PHIDGETOPEN_SERIAL \<and> deviceIDSpec phid \<noteq> 0"

definition handle_at :: "world \<Rightarrow> ptr \<Rightarrow> bool" where
  "handle_at w p \<longleftrightarrow> (\<exists>phid. phids w p = Some phid \<and> handle_ok phid)"

definition device_at :: "world \<Rightarrow> ptr \<Rightarrow> bool" where
  "device_at w p \<longleftrightarrow> (\<exists>phid. phids w p = Some phid \<and> device_ok phid)"

definition world_ok :: "world \<Rightarrow> bool" where
  "world_ok w \<longleftrightarrow> phids w NULL = None \<and> (\<forall>p. phids w p \<noteq> None \<longrightarrow> handle_at w p \<or> device_at w p) \<and>
     distinct (ActiveDevices w) \<and> (\<forall>p \<in> set (ActiveDevices w). handle_at w p) \<and>
     (\<forall>d \<in> set (AttachedDevices w). device_at w d) \<and> phid_list.no_matches w (AttachedDevices w)"

text \<open>The outcomes that a round can meet: the blocks of new records are unused, the table
  has no row with identifier 0, labels are stored in the array of the handle, and no
  product string fails to be read while a handle is attached.\<close>

definition attempts_ok :: "attempt list \<Rightarrow> bool" where
  "attempts_ok as \<longleftrightarrow> (\<forall>a \<in> set as. \<not> at_freed a \<and> length (at_label a) = MAX_LABEL_STORAGE)"

fun probe_ptrs :: "probe list \<Rightarrow> ptr list" where
  "probe_ptrs [] = []"
| "probe_ptrs (Found d fd # ps) = d # probe_ptrs ps"
| "probe_ptrs (_ # ps) = probe_ptrs ps"

definition bus_ptrs :: "(u8 list \<times> probe list) list \<Rightarrow> ptr list" where
  "bus_ptrs bus = concat (map (probe_ptrs \<circ> snd) bus)"

definition probe_ok :: "probe \<Rightarrow> bool" where
  "probe_ok p \<longleftrightarrow> (case p of Found d fd \<Rightarrow> fd_sdid fd \<noteq> 0 \<and> length (fd_label fd) = MAX_LABEL_STORAGE | _ \<Rightarrow> True)"

definition bus_ok :: "world \<Rightarrow> (u8 list \<times> probe list) list option \<Rightarrow> bool" where
  "bus_ok w bus \<longleftrightarrow> (case bus of None \<Rightarrow> True | Some bus \<Rightarrow>
     distinct (bus_ptrs bus) \<and> list_all (\<lambda>d. d \<noteq> NULL \<and> phids w d = None) (bus_ptrs bus) \<and>
     list_all (list_all probe_ok \<circ> snd) bus)"

text \<open>The calls that a state allows: on handles and managers that exist; a new
  block is unused; a deleted handle is not in the list of opened handles.  The last condition
  speaks of the library's state; the rules for a program under which it holds are in
  \<open>Reachable\<close> (\<open>proper_call\<close>).\<close>

fun call_ok :: "call \<Rightarrow> world \<Rightarrow> bool" where
  "call_ok (Create p cls) w \<longleftrightarrow> phids w p = None"
| "call_ok (Open mem created p serial) w \<longleftrightarrow> handle_at w p"
| "call_ok (OpenLabel mem created enc p lab) w \<longleftrightarrow> handle_at w p \<and>
     (lab \<noteq> None \<and> enc = EPHIDGET_OK \<longrightarrow> length (the lab) < MAX_LABEL_STORAGE)"
| "call_ok (Close reset_ok mine p) w \<longleftrightarrow> handle_at w p"
| "call_ok (Delete p) w \<longleftrightarrow> handle_at w p \<and> p \<notin> set (ActiveDevices w)"
| "call_ok (MgrCreate m) w \<longleftrightarrow> managers w m = None"
| "call_ok (MgrOpen mem created m) w \<longleftrightarrow> managers w m \<noteq> None"
| "call_ok (MgrClose mine m) w \<longleftrightarrow> managers w m \<noteq> None"
| "call_ok (ThreadError p) w \<longleftrightarrow> handle_at w p"
| "call_ok (Round bus as reset_ok) w \<longleftrightarrow> attempts_ok as \<and> bus_ok w bus"

definition initial :: world where
  "initial = \<lparr>phids = Map.empty, ActiveDevices = [], AttachedDevices = [], managers = Map.empty,
     localPhidgetManagers = [], ActivePhidgetManagers = 0, CentralThread = False, events = []\<rparr>"

inductive reachable :: "world \<Rightarrow> bool" where
  reachable_initial: "reachable initial"
| reachable_step: "reachable w \<Longrightarrow> call_ok c w \<Longrightarrow> exec c w = Some (r, w') \<Longrightarrow> reachable w'"

subsection \<open>Frame lemmas\<close>

lemma upd_eq: "phids w p = Some x \<Longrightarrow> upd p f w = w\<lparr>phids := (phids w)(p \<mapsto> f x)\<rparr>"
  by (simp add: upd_def)

lemma emit_fields [simp]:
  "phids (emit e w) = phids w" "ActiveDevices (emit e w) = ActiveDevices w" "AttachedDevices (emit e w) = AttachedDevices w"
  "managers (emit e w) = managers w" "localPhidgetManagers (emit e w) = localPhidgetManagers w"
  "ActivePhidgetManagers (emit e w) = ActivePhidgetManagers w" "CentralThread (emit e w) = CentralThread w"
  by (simp_all add: emit_def)

lemma upd_fields [simp]:
  "ActiveDevices (upd p f w) = ActiveDevices w" "AttachedDevices (upd p f w) = AttachedDevices w"
  "managers (upd p f w) = managers w" "localPhidgetManagers (upd p f w) = localPhidgetManagers w"
  "ActivePhidgetManagers (upd p f w) = ActivePhidgetManagers w" "CentralThread (upd p f w) = CentralThread w"
  "events (upd p f w) = events w"
  by (simp_all add: upd_def)

lemma phids_upd: "phids (upd p f w) = (phids w)(p := map_option f (phids w p))"
  by (simp add: upd_def)

text \<open>\<open>touched p w w'\<close>: only the record of the handle \<open>p\<close> and the log differ.\<close>

definition touched :: "ptr \<Rightarrow> world \<Rightarrow> world \<Rightarrow> bool" where
  "touched p w w' \<longleftrightarrow> (\<exists>phid. phids w' = (phids w)(p \<mapsto> phid) \<and> handle_ok phid) \<and>
     ActiveDevices w' = ActiveDevices w \<and> AttachedDevices w' = AttachedDevices w \<and> managers w' = managers w \<and>
     localPhidgetManagers w' = localPhidgetManagers w \<and> ActivePhidgetManagers w' = ActivePhidgetManagers w \<and>
     CentralThread w' = CentralThread w"

lemma handle_not_device: "handle_ok phid \<Longrightarrow> \<not> device_ok phid"
  by (simp add: handle_ok_def device_ok_def)

lemma handle_device_distinct: "handle_at w p \<Longrightarrow> device_at w d \<Longrightarrow> p \<noteq> d"
  by (auto simp: handle_at_def device_at_def dest: handle_not_device)

lemma no_matches_cong:
  assumes "\<And>d. d \<in> set ds \<Longrightarrow> phids w' d = phids w d"
  shows "phid_list.no_matches w' ds = phid_list.no_matches w ds"
  using assms by (auto simp: phid_list.no_matches_def on_records_def)

text \<open>\<open>has_error w p\<close>: a thread of the handle has given up.\<close>

definition has_error :: "world \<Rightarrow> ptr \<Rightarrow> bool" where
  "has_error w p \<longleftrightarrow> (\<exists>phid. phids w p = Some phid \<and> is_set phid PHIDGET_USB_ERROR_FLAG)"

text \<open>What the program has said about a handle: its class, whether it is opened, and with which serial number.\<close>

definition trait :: "cphidget \<Rightarrow> bool \<times> int \<times> int option" where
  "trait phid = (is_set phid PHIDGET_OPENED_FLAG, deviceID phid,
     if specificDevice phid = PHIDGETOPEN_SERIAL then Some (serialNumber phid) else None)"

definition traits :: "world \<Rightarrow> ptr \<Rightarrow> (bool \<times> int \<times> int option) option" where
  "traits w p = map_option trait (phids w p)"

text \<open>\<open>frame w w'\<close>: only records of handles, and the log, differ, and error flags and traits stay.\<close>

definition frame :: "world \<Rightarrow> world \<Rightarrow> bool" where
  "frame w w' \<longleftrightarrow> ActiveDevices w' = ActiveDevices w \<and> AttachedDevices w' = AttachedDevices w \<and> managers w' = managers w \<and>
     localPhidgetManagers w' = localPhidgetManagers w \<and> ActivePhidgetManagers w' = ActivePhidgetManagers w \<and>
     CentralThread w' = CentralThread w \<and>
     (\<forall>q. handle_at w' q = handle_at w q) \<and> (\<forall>q. \<not> handle_at w q \<longrightarrow> phids w' q = phids w q) \<and>
     (\<forall>q. has_error w' q = has_error w q) \<and> (\<forall>q. traits w' q = traits w q)"

lemma frame_refl: "frame w w"
  by (simp add: frame_def)

lemma frame_trans: "frame w w' \<Longrightarrow> frame w' w'' \<Longrightarrow> frame w w''"
  by (simp add: frame_def)

lemma frame_lists:
  assumes "frame w w'"
  shows "ActiveDevices w' = ActiveDevices w" "AttachedDevices w' = AttachedDevices w"
    "localPhidgetManagers w' = localPhidgetManagers w" "managers w' = managers w"
    "ActivePhidgetManagers w' = ActivePhidgetManagers w" "CentralThread w' = CentralThread w"
    "handle_at w' q = handle_at w q" "\<not> handle_at w q \<Longrightarrow> phids w' q = phids w q"
    "has_error w' q = has_error w q" "traits w' q = traits w q"
  using assms by (simp_all add: frame_def)

lemma frame_device: "frame w w' \<Longrightarrow> device_at w' d = device_at w d"
  using handle_device_distinct [of w d d] handle_device_distinct [of w' d d] frame_lists(7,8) [of w w' d]
  by (cases "handle_at w d") (auto simp: device_at_def)

lemma frame_alive: "frame w w' \<Longrightarrow> phids w' q = None \<longleftrightarrow> phids w q = None"
  using frame_lists(7,8) [of w w' q] by (cases "handle_at w q") (auto simp: handle_at_def)

lemma frame_ok:
  assumes f: "frame w w'" and ok: "world_ok w"
  shows "world_ok w'"
proof -
  have same: "phids w' d = phids w d" if "d \<in> set (AttachedDevices w)" for d
    using that ok handle_device_distinct [of w d d] by (intro frame_lists(8) [OF f]) (auto simp: world_ok_def)
  have "phid_list.no_matches w' (AttachedDevices w') = phid_list.no_matches w (AttachedDevices w)"
    unfolding frame_lists(2) [OF f] by (rule no_matches_cong) (rule same)
  moreover have "phids w' NULL = None" using ok by (simp add: frame_alive [OF f] world_ok_def)
  ultimately show ?thesis
    using ok unfolding world_ok_def frame_lists(1,2) [OF f]
    by (simp add: frame_alive [OF f] frame_lists(7) [OF f] frame_device [OF f])
qed

lemma touched_lists:
  assumes "touched p w w'"
  shows "ActiveDevices w' = ActiveDevices w" "AttachedDevices w' = AttachedDevices w"
    "q \<noteq> p \<Longrightarrow> phids w' q = phids w q"
  using assms by (auto simp: touched_def)

lemma touched_handle: "touched p w w' \<Longrightarrow> handle_at w' p"
  by (auto simp: touched_def handle_at_def)

lemma touched_frame:
  assumes t: "touched p w w'" and h: "handle_at w p" and e: "has_error w' p = has_error w p" "traits w' p = traits w p"
  shows "frame w w'"
proof -
  have "handle_at w' q = handle_at w q" "\<not> handle_at w q \<Longrightarrow> phids w' q = phids w q" "has_error w' q = has_error w q"
    "traits w' q = traits w q" for q
    using h e touched_handle [OF t] touched_lists(3) [OF t, of q] by (cases "q = p"; auto simp: handle_at_def has_error_def traits_def)+
  then show ?thesis using t unfolding touched_def frame_def by blast
qed

subsection \<open>Attaching and detaching one handle\<close>

lemma restore_any_fields [simp]:
  "status (restore_any p) = status p" "deviceHandle (restore_any p) = deviceHandle p" "label (restore_any p) = label p"
  "CPhidgetFHandle (restore_any p) = CPhidgetFHandle p" "deviceID (restore_any p) = deviceID p"
  "specificDevice (restore_any p) = (if specificDevice p = PHIDGETOPEN_ANY_ATTACHED then PHIDGETOPEN_ANY else specificDevice p)"
  by (simp_all add: restore_any_def)

lemma attach_claim_fields [simp]:
  "status (attach_claim a p) = status p" "deviceHandle (attach_claim a p)" "label (attach_claim a p) = at_label a"
  "CPhidgetFHandle (attach_claim a p) = CPhidgetFHandle p" "deviceID (attach_claim a p) = deviceID p"
  "specificDevice (attach_claim a p) = specificDevice p" "serialNumber (attach_claim a p) = serialNumber p"
  by (simp_all add: attach_claim_def)

lemma CUSBCloseHandle_fields [simp]:
  "snd (CUSBCloseHandle phid b) = (clear_flag PHIDGET_ATTACHED_FLAG phid)\<lparr>deviceHandle := False\<rparr>"
  by (simp add: CUSBCloseHandle_def Let_def)

lemma close_usb_eq: "phids w p = Some phid \<Longrightarrow> close_usb b p w =
   Some (fst (CUSBCloseHandle phid b), upd p (\<lambda>phid. (clear_flag PHIDGET_ATTACHED_FLAG phid)\<lparr>deviceHandle := False\<rparr>) w)"
  by (simp add: close_usb_def upd_eq case_prod_beta)

lemma touchedI:
  assumes "phids w' = (phids w)(p \<mapsto> phid)" "handle_ok phid" "ActiveDevices w' = ActiveDevices w"
    "AttachedDevices w' = AttachedDevices w" "managers w' = managers w"
    "localPhidgetManagers w' = localPhidgetManagers w" "ActivePhidgetManagers w' = ActivePhidgetManagers w"
    "CentralThread w' = CentralThread w"
  shows "touched p w w'"
  using assms by (auto simp: touched_def)

text \<open>\<open>attached w p\<close>: the handle has its attached flag.\<close>

definition attached :: "world \<Rightarrow> ptr \<Rightarrow> bool" where
  "attached w p \<longleftrightarrow> (\<exists>phid. phids w p = Some phid \<and> is_set phid PHIDGET_ATTACHED_FLAG)"

definition mode_at :: "world \<Rightarrow> ptr \<Rightarrow> open_mode option" where
  "mode_at w p = map_option specificDevice (phids w p)"

lemma attach_outcome:
  assumes p: "phids w p = Some phid" "handle_ok phid" "\<not> is_set phid PHIDGET_ATTACHED_FLAG"
    and d: "phids w d = Some dev" and l: "\<not> at_freed a" "length (at_label a) = MAX_LABEL_STORAGE"
  shows "\<exists>r w' phid'. attachActiveDevice a p d w = Some (r, w') \<and> touched p w w' \<and> phids w' p = Some phid' \<and>
    (r = EPHIDGET_OK \<longleftrightarrow> is_set phid' PHIDGET_ATTACHED_FLAG) \<and>
    (r = EPHIDGET_OK \<longrightarrow> serialNumber phid' = serialNumber dev \<and> deviceID phid' = deviceID phid) \<and>
    (r \<noteq> EPHIDGET_OK \<longrightarrow> specificDevice phid' = specificDevice phid) \<and>
    is_set phid' PHIDGET_USB_ERROR_FLAG = is_set phid PHIDGET_USB_ERROR_FLAG \<and>
    ((specificDevice phid = PHIDGETOPEN_SERIAL \<longrightarrow> serialNumber phid = serialNumber dev) \<longrightarrow> trait phid' = trait phid)"
proof (cases "is_set phid PHIDGET_OPENED_FLAG")
  case False
  have "touched p w w" using p by (auto intro!: touchedI [of w w p phid])
  then show ?thesis using False p d by (simp add: attachActiveDevice_def)
next
  case True
  have m: "specificDevice phid \<noteq> PHIDGETOPEN_ANY_ATTACHED" using p by (auto simp: handle_ok_def)
  show ?thesis
  proof (cases "at_open a = EPHIDGET_OK")
    case False
    show ?thesis using p d m l \<open>is_set phid PHIDGET_OPENED_FLAG\<close> False
      by (auto simp: attachActiveDevice_def upd_eq handle_ok_def trait_def restore_any_def intro!: touchedI)
  next
    case True
    then show ?thesis using p d m l \<open>is_set phid PHIDGET_OPENED_FLAG\<close>
      by (auto simp: attachActiveDevice_def attach_opened_def upd_eq close_usb_eq handle_ok_def Let_def trait_def restore_any_def intro!: touchedI)
  qed
qed

lemma detach_handle_outcome:
  assumes "phids w p = Some phid" "handle_ok phid"
  shows "\<exists>r w'. detach_handle reset_ok p w = Some (r, w') \<and> touched p w w' \<and> \<not> attached w' p \<and>
    events w' = events w @ [DetachEvent p] \<and> traits w' p = traits w p"
  using assms
  by (auto simp: detach_handle_def upd_eq close_usb_eq handle_ok_def attached_def emit_def traits_def trait_def intro!: touchedI)


subsection \<open>Searching the opened handles\<close>

lemma add_matches_eq:
  assumes "distinct (ActiveDevices w)" and "NULL \<notin> set (ActiveDevices w)" and "distinct ms"
    and "\<forall>p \<in> set (ActiveDevices w). on_records m w p d \<longrightarrow> p \<notin> set ms"
  shows "add_matches m w d ms = ms @ filter (\<lambda>p. on_records m w p d) (ActiveDevices w)"
proof -
  have "fold (\<lambda>p ms. if on_records m w p d then snd (CList_addToList True CPhidgetHandle_areEqual True ms p) else ms) ps ms =
      ms @ filter (\<lambda>p. on_records m w p d) ps"
    if "distinct ps" "NULL \<notin> set ps" "\<forall>p \<in> set ps. on_records m w p d \<longrightarrow> p \<notin> set ms" for ps ms
    using that
  proof (induction ps arbitrary: ms)
    case (Cons p ps)
    have "snd (CList_addToList True CPhidgetHandle_areEqual True ms p) = ms @ [p]" if "on_records m w p d"
      using that Cons.prems findInList_code [of CPhidgetHandle_areEqual ms p]
      by (auto simp: CList_addToList_def CPhidgetHandle_areEqual_def)
    with Cons.prems Cons.IH [of ms] Cons.IH [of "ms @ [p]"] show ?case by auto
  qed simp
  from this [OF assms(1,2,4)] show ?thesis by (simp add: add_matches_def)
qed

text \<open>The candidates of a device, in the order in which they are tried.\<close>

definition candidates :: "world \<Rightarrow> ptr \<Rightarrow> ptr list" where
  "candidates w d = filter (\<lambda>p. on_records specific_match w p d) (ActiveDevices w) @
     filter (\<lambda>p. on_records any_match w p d) (ActiveDevices w)"

lemma active_not_NULL: "world_ok w \<Longrightarrow> NULL \<notin> set (ActiveDevices w)"
  by (auto simp: world_ok_def handle_at_def)

lemma live_active: "world_ok w \<Longrightarrow> live w (ActiveDevices w)" and live_attached: "world_ok w \<Longrightarrow> live w (AttachedDevices w)"
  by (auto simp: world_ok_def live_def handle_at_def device_at_def list_all_iff)

lemma findActiveDevice_eq:
  assumes "world_ok w" and "phids w d \<noteq> None"
  shows "findActiveDevice as d w = try_matches as (candidates w d) d w"
proof -
  have dis: "distinct (ActiveDevices w)" using assms by (simp add: world_ok_def)
  have excl: "\<not> (on_records specific_match w p d \<and> on_records any_match w p d)" for p
    by (auto simp: on_records_def specific_match_def any_match_def split: option.splits)
  have 1: "add_matches specific_match w d [] = filter (\<lambda>p. on_records specific_match w p d) (ActiveDevices w)"
    using add_matches_eq [OF dis active_not_NULL [OF assms(1)], of "[]"] by simp
  have "add_matches any_match w d (filter (\<lambda>p. on_records specific_match w p d) (ActiveDevices w)) = candidates w d"
    unfolding candidates_def using excl dis
    by (intro add_matches_eq [OF dis active_not_NULL [OF assms(1)]]) auto
  then show ?thesis
    using assms live_active [OF assms(1)] by (simp add: findActiveDevice_def 1 live_def)
qed

lemma match_unattached:
  "on_records specific_match w p d \<Longrightarrow> \<not> attached w p" "on_records any_match w p d \<Longrightarrow> \<not> attached w p"
  "on_records specific_match w p d \<Longrightarrow> \<not> on_records any_match w p d"
  by (auto simp: on_records_def specific_match_def any_match_def attached_def split: option.splits)

lemma candidates_props:
  assumes "world_ok w"
  shows "distinct (candidates w d)" "p \<in> set (candidates w d) \<Longrightarrow> handle_at w p \<and> \<not> attached w p \<and> p \<in> set (ActiveDevices w)"
  using assms match_unattached by (auto simp: candidates_def world_ok_def)

text \<open>A round of attempts: only candidates change, and at most one of them attaches, which
  the result reports.\<close>

definition tried :: "ptr list \<Rightarrow> ptr \<Rightarrow> world \<Rightarrow> ephidget \<Rightarrow> world \<Rightarrow> bool" where
  "tried ps d w r w' \<longleftrightarrow> frame w w' \<and> (\<forall>q. q \<notin> set ps \<longrightarrow> phids w' q = phids w q) \<and>
     (if r = EPHIDGET_OK then \<exists>p us vs. ps = us @ p # vs \<and> attached w' p \<and> (\<forall>q \<in> set us. \<not> attached w' q) \<and>
        (\<forall>q \<in> set vs. phids w' q = phids w q) \<and>
        map_option serialNumber (phids w' p) = map_option serialNumber (phids w d)
      else \<forall>q \<in> set ps. \<not> attached w' q)"

text \<open>A handle that was opened with a serial number is only tried with that device.\<close>

definition asks_for :: "world \<Rightarrow> ptr \<Rightarrow> ptr \<Rightarrow> bool" where
  "asks_for w p d \<longleftrightarrow> (\<forall>phid dev. phids w p = Some phid \<and> phids w d = Some dev \<and> specificDevice phid = PHIDGETOPEN_SERIAL \<longrightarrow>
     serialNumber phid = serialNumber dev)"

lemma candidates_ask: "p \<in> set (candidates w d) \<Longrightarrow> asks_for w p d"
  by (auto simp: candidates_def asks_for_def on_records_def specific_match_def any_match_def)

lemma try_matches_outcome:
  assumes "attempts_ok as" and "distinct ps" and "\<forall>p \<in> set ps. handle_at w p \<and> \<not> attached w p" and "device_at w d"
    and "\<forall>p \<in> set ps. asks_for w p d"
  shows "\<exists>r as' w'. try_matches as ps d w = Some (r, as', w') \<and> attempts_ok as' \<and> tried ps d w r w'"
  using assms
proof (induction ps arbitrary: as w)
  case Nil
  then show ?case by (simp add: tried_def frame_refl)
next
  case (Cons p ps)
  let ?none = "\<lparr>at_freed = False, at_open = EPHIDGET_NOTFOUND, at_spec = 0, at_uid = 0, at_version = 0, at_label = [],
        at_iid = 0, at_in = 0, at_out = 0, at_init = EPHIDGET_OK, at_write_thread = False, at_read_thread = False, at_reset_ok = False\<rparr>"
  let ?a = "case as of [] \<Rightarrow> ?none | a # _ \<Rightarrow> a"
  obtain phid where ph: "phids w p = Some phid" "handle_ok phid" "\<not> is_set phid PHIDGET_ATTACHED_FLAG"
    using Cons.prems(3) by (auto simp: handle_at_def attached_def)
  obtain dev where dev: "phids w d = Some dev" using Cons.prems(4) by (auto simp: device_at_def)
  have ask: "specificDevice phid = PHIDGETOPEN_SERIAL \<longrightarrow> serialNumber phid = serialNumber dev"
    using Cons.prems(5) ph(1) dev by (simp add: asks_for_def)
  have h: "handle_at w p" and dp: "d \<noteq> p" using ph Cons.prems(4) handle_device_distinct [of w p d] by (auto simp: handle_at_def)
  obtain r w1 phid' where a: "attachActiveDevice ?a p d w = Some (r, w1)" and t: "touched p w w1" and p1: "phids w1 p = Some phid'"
    and r: "(r = EPHIDGET_OK) = is_set phid' PHIDGET_ATTACHED_FLAG"
      "r = EPHIDGET_OK \<longrightarrow> serialNumber phid' = serialNumber dev \<and> deviceID phid' = deviceID phid"
      "is_set phid' PHIDGET_USB_ERROR_FLAG = is_set phid PHIDGET_USB_ERROR_FLAG" "trait phid' = trait phid"
  proof (cases as)
    case Nil
    have "touched p w (upd p (\<lambda>phid. (restore_any phid)\<lparr>deviceIDSpec := 0, deviceUID := 0\<rparr>)
        (upd p (\<lambda>phid. phid\<lparr>specificDevice := if specificDevice phid = PHIDGETOPEN_ANY then PHIDGETOPEN_ANY_ATTACHED else specificDevice phid,
           serialNumber := serialNumber dev\<rparr>) w))"
      using ph by (auto simp: upd_eq handle_ok_def intro!: touchedI)
    moreover have "touched p w w" using ph by (auto intro!: touchedI [of w w p phid])
    ultimately show ?thesis
      using that ph dev ask Nil by (cases "is_set phid PHIDGET_OPENED_FLAG") (auto simp: attachActiveDevice_def upd_eq trait_def restore_any_def)
  next
    case (Cons b bs)
    then have "\<not> at_freed ?a" "length (at_label ?a) = MAX_LABEL_STORAGE" using Cons.prems(1) by (simp_all add: attempts_ok_def)
    from attach_outcome [OF ph dev this] that ask show ?thesis by blast
  qed
  have f: "frame w w1" using r(3,4) p1 ph(1) by (intro touched_frame [OF t h]) (simp_all add: has_error_def traits_def)
  have as': "attempts_ok (tl as)" using Cons.prems(1) by (cases as) (auto simp: attempts_ok_def)
  show ?case
  proof (cases "r = EPHIDGET_OK")
    case True
    have "attached w1 p" using r(1) True p1 by (simp add: attached_def)
    moreover have "\<forall>q. q \<noteq> p \<longrightarrow> phids w1 q = phids w q" using touched_lists(3) [OF t] by blast
    moreover have "map_option serialNumber (phids w1 p) = map_option serialNumber (phids w d)"
      using p1 dev r(2) True by simp
    moreover have "\<forall>q \<in> set ps. q \<noteq> p" using Cons.prems(2) by auto
    ultimately have "\<exists>p' us vs. p # ps = us @ p' # vs \<and> attached w1 p' \<and> (\<forall>q \<in> set us. \<not> attached w1 q) \<and>
        (\<forall>q \<in> set vs. phids w1 q = phids w q) \<and> map_option serialNumber (phids w1 p') = map_option serialNumber (phids w d)"
      by (intro exI [of _ p] exI [of _ "[]"] exI [of _ ps]) simp
    then have "tried (p # ps) d w EPHIDGET_OK w1"
      using f touched_lists(3) [OF t] by (simp add: tried_def)
    with a True as' show ?thesis by simp
  next
    case False
    have un: "\<not> attached w1 p" using r(1) False p1 by (simp add: attached_def)
    have prem: "distinct ps" "\<forall>q \<in> set ps. handle_at w1 q \<and> \<not> attached w1 q" "device_at w1 d" "\<forall>q \<in> set ps. asks_for w1 q d"
    proof -
      show "distinct ps" "device_at w1 d" using Cons.prems(2,4) by (simp_all add: frame_device [OF f])
      have same: "phids w1 q = phids w q" if "q \<in> set ps" for q
        using that Cons.prems(2) by (intro touched_lists(3) [OF t]) auto
      then show "\<forall>q \<in> set ps. handle_at w1 q \<and> \<not> attached w1 q"
        using Cons.prems(3) by (simp add: frame_lists(7) [OF f] attached_def)
      show "\<forall>q \<in> set ps. asks_for w1 q d"
        using Cons.prems(5) same touched_lists(3) [OF t dp] unfolding asks_for_def by (metis list.set_intros(2))
    qed
    from Cons.IH [OF as' this] obtain r' as' w' where
      IH: "try_matches (tl as) ps d w1 = Some (r', as', w')" "attempts_ok as'" "tried ps d w1 r' w'" by blast
    have keep: "phids w' q = phids w1 q" if "q \<notin> set ps" for q using IH(3) that by (simp add: tried_def)
    have dd: "phids w1 d = phids w d" using touched_lists(3) [OF t dp] .
    have frm: "frame w w'" "\<forall>q. q \<notin> set (p # ps) \<longrightarrow> phids w' q = phids w q"
      using IH(3) f frame_trans touched_lists(3) [OF t] by (auto simp: tried_def)
    have pp: "\<not> attached w' p" using un keep [of p] Cons.prems(2) by (simp add: attached_def)
    have "tried (p # ps) d w r' w'"
    proof (cases "r' = EPHIDGET_OK")
      case True
      then obtain p' us vs where ps: "ps = us @ p' # vs" "attached w' p'" "\<forall>q \<in> set us. \<not> attached w' q"
        "\<forall>q \<in> set vs. phids w' q = phids w1 q" "map_option serialNumber (phids w' p') = map_option serialNumber (phids w1 d)"
        using IH(3) by (auto simp: tried_def)
      have "\<forall>q \<in> set vs. phids w' q = phids w q" 
      proof
        fix q assume "q \<in> set vs"
        moreover from this have "q \<noteq> p" using ps(1) Cons.prems(2) by auto
        ultimately show "phids w' q = phids w q" using ps(4) touched_lists(3) [OF t] by simp
      qed
      then have "\<exists>p' us vs. p # ps = us @ p' # vs \<and> attached w' p' \<and> (\<forall>q \<in> set us. \<not> attached w' q) \<and>
        (\<forall>q \<in> set vs. phids w' q = phids w q) \<and> map_option serialNumber (phids w' p') = map_option serialNumber (phids w d)"
        using ps pp dd by (intro exI [of _ p'] exI [of _ "p # us"] exI [of _ vs]) simp
      then show ?thesis using True frm by (simp add: tried_def)
    next
      case False
      then show ?thesis using IH(3) frm pp by (simp add: tried_def)
    qed
    with a False IH show ?thesis by auto
  qed
qed


lemma findActiveDevice_outcome:
  assumes "world_ok w" and "attempts_ok as" and "device_at w d"
  shows "\<exists>r as' w'. findActiveDevice as d w = Some (r, as', w') \<and> attempts_ok as' \<and> tried (candidates w d) d w r w'"
proof -
  have "phids w d \<noteq> None" using assms(3) by (auto simp: device_at_def)
  moreover have "\<forall>p \<in> set (candidates w d). handle_at w p \<and> \<not> attached w p" using candidates_props [OF assms(1)] by blast
  ultimately show ?thesis
    using try_matches_outcome [OF assms(2) candidates_props(1) [OF assms(1)] _ assms(3)] findActiveDevice_eq [OF assms(1)]
      candidates_ask by simp
qed

lemma find_for_all_outcome:
  assumes "world_ok w" and "attempts_ok as" and "\<forall>d \<in> set ds. device_at w d"
  shows "\<exists>r' as' w'. find_for_all as ds r w = Some (r', as', w') \<and> frame w w'"
  using assms
proof (induction ds arbitrary: as r w)
  case Nil
  then show ?case by (simp add: frame_refl)
next
  case (Cons d ds)
  then obtain r1 as1 w1 where 1: "findActiveDevice as d w = Some (r1, as1, w1)" "attempts_ok as1" "tried (candidates w d) d w r1 w1"
    using findActiveDevice_outcome [of w as d] by auto
  then have f: "frame w w1" by (simp add: tried_def)
  have "\<forall>d \<in> set ds. device_at w1 d" using Cons.prems(3) frame_device [OF f] by simp
  from Cons.IH [OF frame_ok [OF f Cons.prems(1)] 1(2) this, of r1] 1(1) f frame_trans show ?case by fastforce
qed

subsection \<open>Attach and detach events\<close>

lemma notify_fields [simp]:
  "phids (notify_managers ev w) = phids w" "ActiveDevices (notify_managers ev w) = ActiveDevices w"
  "AttachedDevices (notify_managers ev w) = AttachedDevices w" "managers (notify_managers ev w) = managers w"
  "localPhidgetManagers (notify_managers ev w) = localPhidgetManagers w"
  "ActivePhidgetManagers (notify_managers ev w) = ActivePhidgetManagers w"
  "CentralThread (notify_managers ev w) = CentralThread w"
proof -
  have "phids (fold f ms w) = phids w \<and> ActiveDevices (fold f ms w) = ActiveDevices w \<and>
      AttachedDevices (fold f ms w) = AttachedDevices w \<and> managers (fold f ms w) = managers w \<and>
      localPhidgetManagers (fold f ms w) = localPhidgetManagers w \<and>
      ActivePhidgetManagers (fold f ms w) = ActivePhidgetManagers w \<and> CentralThread (fold f ms w) = CentralThread w"
    if "f = (\<lambda>m w. case managers w m of Some mg \<Rightarrow> if mgr_state mg = PHIDGETMANAGER_ACTIVE then emit (ev m) w else w | None \<Rightarrow> w)"
    for f :: "ptr \<Rightarrow> world \<Rightarrow> world" and ms w
    unfolding that by (induction ms arbitrary: w) (auto split: option.split)
  then show "phids (notify_managers ev w) = phids w" "ActiveDevices (notify_managers ev w) = ActiveDevices w"
    "AttachedDevices (notify_managers ev w) = AttachedDevices w" "managers (notify_managers ev w) = managers w"
    "localPhidgetManagers (notify_managers ev w) = localPhidgetManagers w"
    "ActivePhidgetManagers (notify_managers ev w) = ActivePhidgetManagers w"
    "CentralThread (notify_managers ev w) = CentralThread w"
    by (simp_all add: notify_managers_def)
qed

text \<open>On device records the two comparisons agree.\<close>

lemma device_equal: "device_ok a \<Longrightarrow> device_ok b \<Longrightarrow> CPhidget_areEqual a b = CPhidget_areExtraEqual a b"
  by (auto simp: device_ok_def CPhidget_areEqual_def CPhidget_areExtraEqual_def)

lemma device_at_equal: "device_at w a \<Longrightarrow> device_at w b \<Longrightarrow> areEqual w a b = areExtraEqual w a b"
  by (auto simp: device_at_def on_records_def device_equal)

lemma compared_subset: "set (compared P xs) \<subseteq> set xs"
  by (induction xs) auto

lemma live_compared: "phids w e \<noteq> None \<Longrightarrow> live w xs \<Longrightarrow> live w (e # compared P xs)"
  using compared_subset [of P xs] by (auto simp: live_def list_all_iff)

lemma add_phid_live: "phids w e \<noteq> None \<Longrightarrow> live w xs \<Longrightarrow>
    add_phid mem eq w xs e = Some (CList_addToList mem (on_records eq w) True xs e)"
  unfolding add_phid_def using live_compared [of w e xs "on_records eq w e"] by presburger

lemma find_phid_live: "phids w e \<noteq> None \<Longrightarrow> live w xs \<Longrightarrow>
    find_phid eq w xs e = Some (CList_findInList (on_records eq w) xs e)"
  unfolding find_phid_def using live_compared [of w e xs "on_records eq w e"] by presburger

lemma remove_phid_live: "phids w e \<noteq> None \<Longrightarrow> live w xs \<Longrightarrow>
    remove_phid eq w xs e = Some (fst (snd (CList_removeFromList (on_records eq w) True xs e False)))"
  by (cases xs) (auto simp: remove_phid_def live_def)

lemma notify_on_records [simp]: "on_records eq (notify_managers ev w) = on_records eq w"
  by (simp add: on_records_def fun_eq_iff)

text \<open>A device that is not in the list yet is added, announced and offered to the handles.\<close>

lemma no_matches_attached: "world_ok w \<Longrightarrow> phid_list.no_matches w (AttachedDevices w)"
  by (simp add: world_ok_def)

lemma attach_event_outcome:
  assumes ok: "world_ok w" and as: "attempts_ok as" and d: "device_at w d" and new: "\<forall>e \<in> set (AttachedDevices w). \<not> areEqual w d e"
  shows "\<exists>r as' w'. CPhidgetAttachEvent True as d w = Some (r, as', w') \<and> attempts_ok as' \<and>
    (\<exists>w1. w1 = notify_managers (\<lambda>m. ManagerAttach m d) (w\<lparr>AttachedDevices := AttachedDevices w @ [d]\<rparr>) \<and> world_ok w1 \<and>
      tried (candidates w d) d w1 r w')"
proof -
  let ?w1 = "notify_managers (\<lambda>m. ManagerAttach m d) (w\<lparr>AttachedDevices := AttachedDevices w @ [d]\<rparr>)"
  have nn: "d \<noteq> NULL" "phids w d \<noteq> None" using d ok by (auto simp: device_at_def world_ok_def)
  have add: "add_phid True CPhidget_areEqual w (AttachedDevices w) d = Some (EPHIDGET_OK, AttachedDevices w @ [d])"
    using new nn findInList_code [of "areEqual w" "AttachedDevices w" d]
    by (simp add: add_phid_live live_attached [OF ok] CList_addToList_def)
  have rec: "phids ?w1 = phids w" by simp
  have "phid_list.no_matches ?w1 (AttachedDevices w @ [d])"
    using no_matches_cong [of "AttachedDevices w @ [d]" ?w1 w] rec no_matches_attached [OF ok] new
    by (simp add: phid_list.no_matches_snoc)
  then have w1: "world_ok ?w1"
    using ok d rec by (auto simp: world_ok_def handle_at_def device_at_def)
  have cand: "candidates ?w1 d = candidates w d" by (simp add: candidates_def on_records_def)
  have "device_at ?w1 d" using d rec by (simp add: device_at_def)
  from findActiveDevice_outcome [OF w1 as this] obtain r as' w' where
    "findActiveDevice as d ?w1 = Some (r, as', w')" "attempts_ok as'" "tried (candidates w d) d ?w1 r w'" unfolding cand by blast
  with add w1 show ?thesis by (auto simp: CPhidgetAttachEvent_def)
qed


lemma extra_equal_trans: "areExtraEqual w d x \<Longrightarrow> areExtraEqual w d y \<Longrightarrow> areExtraEqual w x y"
  by (auto simp: on_records_def CPhidget_areExtraEqual_def split: option.splits)

lemma extra_equal_refl: "phids w d \<noteq> None \<Longrightarrow> areExtraEqual w d d"
  by (auto simp: on_records_def CPhidget_areExtraEqual_def)

lemma attached_device: "world_ok w \<Longrightarrow> d \<in> set (AttachedDevices w) \<Longrightarrow> device_at w d"
  by (simp add: world_ok_def)

lemma remove_attached:
  assumes ok: "world_ok w" and "device_at w d" and "d \<noteq> NULL"
  shows "fst (snd (CList_removeFromList (areExtraEqual w) True (AttachedDevices w) d fr)) =
    filter (\<lambda>x. \<not> areExtraEqual w d x) (AttachedDevices w)"
proof (cases "AttachedDevices w")
  case Nil
  then show ?thesis by (simp add: removeFromList_eq assms(3))
next
  case (Cons x xs)
  have "\<not> areExtraEqual w d y" if "areExtraEqual w d x" "y \<in> set xs" for y
  proof
    assume "areExtraEqual w d y"
    then have "areExtraEqual w x y" using extra_equal_trans that(1) by blast
    then have "areEqual w x y" using device_at_equal attached_device [OF ok] Cons that(2) by simp
    then show False using no_matches_attached [OF ok] Cons that(2) by (simp add: phid_list.no_matches_Cons)
  qed
  then have "filter (\<lambda>y. \<not> areExtraEqual w d y) xs = xs" if "areExtraEqual w d x" using that by simp
  then show ?thesis by (simp add: removeFromList_eq assms(3) Cons)
qed

lemma filter_attached:
  assumes ok: "world_ok w" and "d \<in> set (AttachedDevices w)"
  shows "filter (\<lambda>x. \<not> areExtraEqual w d x) (AttachedDevices w) = filter (\<lambda>x. x \<noteq> d) (AttachedDevices w)"
proof (rule filter_cong)
  fix x assume x: "x \<in> set (AttachedDevices w)"
  have d: "device_at w d" using attached_device [OF ok assms(2)] .
  show "(\<not> areExtraEqual w d x) = (x \<noteq> d)"
  proof (cases "x = d")
    case True
    then show ?thesis using d extra_equal_refl by (auto simp: device_at_def)
  next
    case False
    from x assms(2) obtain i j where "i < length (AttachedDevices w)" "j < length (AttachedDevices w)"
      "AttachedDevices w ! i = d" "AttachedDevices w ! j = x" by (auto simp: in_set_conv_nth)
    then have "\<not> areEqual w d x" using no_matches_attached [OF ok] False
      by (auto simp: phid_list.no_matches_def)
    then show ?thesis using False device_at_equal [OF d attached_device [OF ok x]] by simp
  qed
qed simp

lemma detach_target_props:
  assumes "phids w d = Some dev" and "\<forall>p \<in> set ps. \<exists>phid. phids w p = Some phid"
  shows "\<exists>t. detach_target d w ps = Some t \<and> (\<forall>p. t = Some p \<longrightarrow> p \<in> set ps \<and>
     (p \<noteq> d \<longrightarrow> (\<exists>phid. phids w p = Some phid \<and> CPhidget_areExtraEqual dev phid \<and> is_set phid PHIDGET_ATTACHED_FLAG))) \<and>
     (t = None \<longrightarrow> (\<forall>p \<in> set ps. \<forall>phid. phids w p = Some phid \<longrightarrow> \<not> (CPhidget_areExtraEqual dev phid \<and> is_set phid PHIDGET_ATTACHED_FLAG)))"
  using assms(2)
proof (induction ps)
  case (Cons p ps)
  then obtain phid where "phids w p = Some phid" by auto
  with Cons assms(1) show ?case by (auto simp: CPhidgetHandle_areEqual_def)
qed simp

lemma alive_cases: "world_ok w \<Longrightarrow> phids w q \<noteq> None \<Longrightarrow> handle_at w q \<or> device_at w q"
  by (simp add: world_ok_def)

lemma dropped_ok:
  assumes ok: "world_ok w" and d: "device_at w d"
    and lists: "ActiveDevices w' = ActiveDevices w" "AttachedDevices w' = filter P (AttachedDevices w)" "\<not> P d" "phids w' d = None"
    and rest: "\<And>q. q \<noteq> d \<Longrightarrow> handle_at w' q = handle_at w q" "\<And>q. q \<noteq> d \<Longrightarrow> \<not> handle_at w q \<Longrightarrow> phids w' q = phids w q"
  shows "world_ok w'"
proof -
  have dev: "device_at w' q = device_at w q" if "q \<noteq> d" for q
    using rest [OF that] handle_device_distinct [of w q q] handle_device_distinct [of w' q q]
    by (cases "handle_at w q") (auto simp: device_at_def)
  have att: "q \<noteq> d \<and> device_at w q \<and> phids w' q = phids w q" if "q \<in> set (AttachedDevices w')" for q
    using that lists(2,3) rest(2) [of q] attached_device [OF ok, of q] handle_device_distinct [of w q q] by auto
  have "phid_list.no_matches w' (AttachedDevices w') = phid_list.no_matches w (AttachedDevices w')"
    using att by (intro no_matches_cong) simp
  then have nm: "phid_list.no_matches w' (AttachedDevices w')"
    using no_matches_attached [OF ok] lists(2) phid_list.no_matches_filter by simp
  have "handle_at w' q \<or> device_at w' q" if "phids w' q \<noteq> None" for q
  proof -
    have "q \<noteq> d" using that lists(4) by auto
    then show ?thesis using that alive_cases [OF ok, of q] rest [of q] dev [of q] by (cases "handle_at w q") simp_all
  qed
  moreover have "handle_at w' p" if "p \<in> set (ActiveDevices w)" for p
    using that ok rest(1) [of p] handle_device_distinct [of w p d] d by (auto simp: world_ok_def)
  moreover have "phids w' NULL = None"
  proof (cases "NULL = d")
    case False
    then show ?thesis using ok rest(2) [of NULL] by (simp add: world_ok_def handle_at_def)
  qed (use lists(4) in simp)
  moreover have "\<forall>q \<in> set (AttachedDevices w'). device_at w' q" using att dev by blast
  ultimately show ?thesis using ok lists(1) nm by (simp add: world_ok_def)
qed


text \<open>What a detach event does to the world.\<close>

definition detached :: "ptr \<Rightarrow> world \<Rightarrow> world \<Rightarrow> bool" where
  "detached d w w' \<longleftrightarrow> ActiveDevices w' = ActiveDevices w \<and>
     AttachedDevices w' = filter (\<lambda>x. \<not> areExtraEqual w d x) (AttachedDevices w) \<and> phids w' d = None \<and>
     managers w' = managers w \<and> localPhidgetManagers w' = localPhidgetManagers w \<and>
     ActivePhidgetManagers w' = ActivePhidgetManagers w \<and> CentralThread w' = CentralThread w \<and>
     (\<forall>q. q \<noteq> d \<longrightarrow> handle_at w' q = handle_at w q) \<and> (\<forall>q. q \<noteq> d \<longrightarrow> \<not> handle_at w q \<longrightarrow> phids w' q = phids w q) \<and>
     (\<forall>q. handle_at w q \<longrightarrow> traits w' q = traits w q)"

lemma detached_ok:
  assumes "world_ok w" and "device_at w d" and "detached d w w'"
  shows "world_ok w'"
proof (rule dropped_ok [OF assms(1,2), of w' "\<lambda>x. \<not> areExtraEqual w d x"])
  show "\<not> \<not> areExtraEqual w d d" using assms(2) extra_equal_refl [of w d] by (auto simp: device_at_def)
qed (use assms(3) in \<open>simp_all add: detached_def\<close>)

lemma detach_event_outcome:
  assumes ok: "world_ok w" and d: "device_at w d"
  shows "\<exists>r w'. CPhidgetDetachEvent b d w = Some (r, w') \<and> detached d w w' \<and>
    (\<exists>t. (\<forall>q. q \<noteq> d \<and> t \<noteq> Some q \<longrightarrow> phids w' q = phids w q) \<and>
       (\<forall>p. t = Some p \<longrightarrow> p \<in> set (ActiveDevices w) \<and> attached w p \<and> areExtraEqual w d p \<and> \<not> attached w' p) \<and>
       (t = None \<longrightarrow> (\<forall>p \<in> set (ActiveDevices w). attached w p \<longrightarrow> \<not> areExtraEqual w d p)))"
proof -
  obtain dev where dev: "phids w d = Some dev" "device_ok dev" using d by (auto simp: device_at_def)
  have nn: "d \<noteq> NULL" using ok dev by (auto simp: world_ok_def)
  let ?dev1 = "set_flag PHIDGET_DETACHING_FLAG (clear_flag PHIDGET_ATTACHED_FLAG dev)"
  let ?dev2 = "clear_flag PHIDGET_DETACHING_FLAG ?dev1"
  let ?w1 = "upd d (\<lambda>phid. set_flag PHIDGET_DETACHING_FLAG (clear_flag PHIDGET_ATTACHED_FLAG phid)) w"
  let ?att = "filter (\<lambda>x. \<not> areExtraEqual w d x) (AttachedDevices w)"
  let ?w2 = "upd d (clear_flag PHIDGET_DETACHING_FLAG) (notify_managers (\<lambda>m. ManagerDetach m d) (?w1\<lparr>AttachedDevices := ?att\<rparr>))"
  have eq: "areExtraEqual ?w1 = areExtraEqual w"
    using dev by (auto simp: fun_eq_iff on_records_def phids_upd CPhidget_areExtraEqual_def split: option.split)
  have live1: "live ?w1 (AttachedDevices w)" "phids ?w1 d \<noteq> None"
    using live_attached [OF ok] dev by (auto simp: live_def phids_upd list_all_iff)
  have rem: "remove_phid CPhidget_areExtraEqual ?w1 (AttachedDevices ?w1) d = Some ?att"
    using remove_phid_live [OF live1(2,1), of CPhidget_areExtraEqual] remove_attached [OF ok d nn, of False] eq by simp
  have w2: "phids ?w2 = (phids w)(d \<mapsto> ?dev2)" using dev by (simp add: phids_upd)
  have active: "handle_at w p \<and> p \<noteq> d" if "p \<in> set (ActiveDevices w)" for p
    using that ok handle_device_distinct [of w p d] d by (auto simp: world_ok_def)
  have "\<forall>p \<in> set (ActiveDevices w). \<exists>phid. phids ?w2 p = Some phid"
    using active w2 by (auto simp: handle_at_def)
  from detach_target_props [of ?w2 d ?dev2, OF _ this] w2 obtain t where
    t: "detach_target d ?w2 (ActiveDevices w) = Some t"
      "\<forall>p. t = Some p \<longrightarrow> p \<in> set (ActiveDevices w) \<and>
        (p \<noteq> d \<longrightarrow> (\<exists>phid. phids ?w2 p = Some phid \<and> CPhidget_areExtraEqual ?dev2 phid \<and> is_set phid PHIDGET_ATTACHED_FLAG))"
      "t = None \<longrightarrow> (\<forall>p \<in> set (ActiveDevices w). \<forall>phid. phids ?w2 p = Some phid \<longrightarrow>
        \<not> (CPhidget_areExtraEqual ?dev2 phid \<and> is_set phid PHIDGET_ATTACHED_FLAG))" by auto
  have ex: "CPhidget_areExtraEqual ?dev2 phid = CPhidget_areExtraEqual dev phid" for phid
    by (simp add: CPhidget_areExtraEqual_def)
  have hd: "handle_at ?w2 q = handle_at w q" if "q \<noteq> d" for q using that w2 by (simp add: handle_at_def)
  show ?thesis
  proof (cases t)
    case None
    let ?w' = "?w2\<lparr>phids := (phids ?w2)(d := None)\<rparr>"
    have ev: "CPhidgetDetachEvent b d w = Some (EPHIDGET_OK, ?w')"
      using dev rem t(1) None by (simp add: CPhidgetDetachEvent_def Let_def)
    have ph: "phids ?w' = (phids w)(d := None)" using w2 by simp
    then have "detached d w ?w'" using handle_device_distinct [OF _ d] by (auto simp: detached_def handle_at_def traits_def)
    moreover have "\<forall>p \<in> set (ActiveDevices w). attached w p \<longrightarrow> \<not> areExtraEqual w d p"
      using t(3) None w2 dev active ex by (auto simp: attached_def on_records_def)
    ultimately show ?thesis using ev ph by (intro exI [of _ EPHIDGET_OK] exI [of _ ?w'] conjI exI [of _ None]) auto
  next
    case (Some p)
    then have p: "p \<in> set (ActiveDevices w)" "p \<noteq> d" using t(2) active by auto
    obtain phid where ph: "phids w p = Some phid" "CPhidget_areExtraEqual dev phid" "is_set phid PHIDGET_ATTACHED_FLAG"
      using t(2) Some p w2 ex by auto
    have "handle_ok phid" using active [OF p(1)] ph(1) by (simp add: handle_at_def)
    then obtain r w3 where 3: "detach_handle b p ?w2 = Some (r, w3)" "touched p ?w2 w3" "\<not> attached w3 p" "traits w3 p = traits ?w2 p"
      using detach_handle_outcome [of ?w2 p phid b] ph(1) p(2) w2 by auto
    let ?w' = "w3\<lparr>phids := (phids w3)(d := None)\<rparr>"
    have ev: "CPhidgetDetachEvent b d w = Some (r, ?w')"
      using dev rem t(1) Some 3(1) by (simp add: CPhidgetDetachEvent_def Let_def)
    have keep: "phids ?w' q = phids w q" if "q \<noteq> d" "q \<noteq> p" for q
      using that touched_lists(3) [OF 3(2), of q] w2 by simp
    have hp: "handle_at ?w' p" using touched_handle [OF 3(2)] p(2) by (simp add: handle_at_def)
    have hk: "handle_at ?w' q = handle_at w q" if "q \<noteq> d" for q
      using keep [OF that] hp active [OF p(1)] by (cases "q = p") (simp_all add: handle_at_def)
    have "traits ?w' q = traits w q" if "handle_at w q" for q
      using keep [of q] 3(4) p(2) w2 handle_device_distinct [OF that d] by (cases "q = p") (simp_all add: traits_def)
    then have "detached d w ?w'"
      using 3(2) hk keep active [OF p(1)] unfolding detached_def touched_def by auto
    moreover have "attached w p" "areExtraEqual w d p" "\<not> attached ?w' p"
      using ph dev 3(3) p(2) by (auto simp: attached_def on_records_def)
    ultimately show ?thesis using ev keep p(1)
      by (intro exI [of _ r] exI [of _ ?w'] conjI exI [of _ "Some p"]) auto
  qed
qed

end
