(* ===== verification/Reachable.thy ===== *)
theory Reachable
  imports Hotplug
begin

text \<open>
  The reachable states of the library: every call that a state allows is defined and keeps
  the invariant; a program that keeps apart the handles that it opens only makes such calls; a
  poll makes the list of attached devices agree with the scan of the bus; and what happens to
  other programs: a handle that was closed can still be listed, so deleting it makes the
  library read freed memory.
\<close>

subsection \<open>Opening and closing\<close>

lemma world_ok_cong:
  assumes ok: "world_ok w" and "phids w' = phids w" and "AttachedDevices w' = AttachedDevices w"
    and "distinct (ActiveDevices w')" and "\<forall>p \<in> set (ActiveDevices w'). handle_at w p"
  shows "world_ok w'"
proof -
  have "handle_at w' = handle_at w" "device_at w' = device_at w"
    using assms(2) by (simp_all add: handle_at_def device_at_def fun_eq_iff)
  moreover have "phid_list.no_matches w' (AttachedDevices w) = phid_list.no_matches w (AttachedDevices w)"
    by (rule no_matches_cong) (simp add: assms(2))
  ultimately show ?thesis using assms by (simp add: world_ok_def)
qed

lemma touched_ok:
  assumes t: "touched p w w'" and h: "handle_at w p" and ok: "world_ok w"
  shows "world_ok w'"
proof -
  have hk: "handle_at w' q = handle_at w q" "\<not> handle_at w q \<Longrightarrow> phids w' q = phids w q" for q
    using h touched_handle [OF t] touched_lists(3) [OF t, of q] by (cases "q = p"; auto simp: handle_at_def)+
  have dk: "device_at w' q = device_at w q" for q
    using hk [of q] handle_device_distinct [of w q q] handle_device_distinct [of w' q q]
    by (cases "handle_at w q") (auto simp: device_at_def)
  have al: "phids w' q = None \<longleftrightarrow> phids w q = None" for q
    using hk [of q] by (cases "handle_at w q") (auto simp: handle_at_def)
  have "phid_list.no_matches w' (AttachedDevices w) = phid_list.no_matches w (AttachedDevices w)"
    using attached_device [OF ok] handle_device_distinct [of w] hk(2) by (intro no_matches_cong) blast
  then show ?thesis using ok hk(1) dk al unfolding world_ok_def touched_lists(1,2) [OF t] by simp
qed

lemma upd_touched:
  assumes "phids w p = Some phid" and "handle_ok (f phid)"
  shows "touched p w (upd p f w)"
  using assms by (auto simp: phids_upd intro!: touchedI)

lemma upd_handle:
  assumes "handle_at w p" and "\<And>phid. handle_ok phid \<Longrightarrow> handle_ok (f phid)"
  shows "touched p w (upd p f w)"
  using assms by (auto simp: handle_at_def intro: upd_touched)

lemma StartCentralThread_fields [simp]:
  "phids (snd (StartCentralThread b w)) = phids w" "ActiveDevices (snd (StartCentralThread b w)) = ActiveDevices w"
  "AttachedDevices (snd (StartCentralThread b w)) = AttachedDevices w"
  by (simp_all add: StartCentralThread_def)

text \<open>\<open>same_handles w w'\<close>: the same handles, listed and with the traits as before.\<close>

definition same_handles :: "world \<Rightarrow> world \<Rightarrow> bool" where
  "same_handles w w' \<longleftrightarrow> ActiveDevices w' = ActiveDevices w \<and> (\<forall>q. handle_at w' q = handle_at w q) \<and>
     (\<forall>q. handle_at w q \<longrightarrow> traits w' q = traits w q)"

lemma same_handles_refl: "same_handles w w"
  by (simp add: same_handles_def)

lemma same_handles_trans: "same_handles w w' \<Longrightarrow> same_handles w' w'' \<Longrightarrow> same_handles w w''"
  by (simp add: same_handles_def)

lemma phids_same_handles: "phids w' = phids w \<Longrightarrow> ActiveDevices w' = ActiveDevices w \<Longrightarrow> same_handles w w'"
  by (simp add: same_handles_def handle_at_def traits_def)

lemma central_exit_handles:
  assumes ok: "world_ok w" and "ActiveDevices w = []"
  shows "same_handles w (central_exit w)"
proof -
  have "q \<notin> set (AttachedDevices w)" if "handle_at w q" for q
    using that ok handle_device_distinct [of w q q] by (auto simp: world_ok_def)
  then have "handle_at (central_exit w) q = handle_at w q \<and> (handle_at w q \<longrightarrow> traits (central_exit w) q = traits w q)" for q
    by (cases "handle_at w q") (auto simp: central_exit_def handle_at_def traits_def)
  then show ?thesis by (simp add: same_handles_def central_exit_def)
qed

text \<open>\<open>opens p s w w'\<close>: only the handle \<open>p\<close> changes, which becomes an opened one with serial number \<open>s\<close>.\<close>

definition others_kept :: "ptr \<Rightarrow> world \<Rightarrow> world \<Rightarrow> bool" where
  "others_kept p w w' \<longleftrightarrow> (\<forall>q. q \<noteq> p \<longrightarrow> handle_at w' q = handle_at w q \<and> (handle_at w q \<longrightarrow> traits w' q = traits w q))"

definition opens :: "ptr \<Rightarrow> int option \<Rightarrow> world \<Rightarrow> world \<Rightarrow> bool" where
  "opens p s w w' \<longleftrightarrow> others_kept p w w' \<and> set (ActiveDevices w') \<subseteq> insert p (set (ActiveDevices w)) \<and>
     (\<forall>b c s0. traits w p = Some (b, c, s0) \<longrightarrow> traits w' p = Some (True, c, s))"

lemma opensI:
  assumes "phids w' = (phids w)(p \<mapsto> f phid)" and "set (ActiveDevices w') \<subseteq> insert p (set (ActiveDevices w))"
    and "phids w p = Some phid" and "trait (f phid) = (True, deviceID phid, s)"
  shows "opens p s w w'"
  using assms by (auto simp: opens_def others_kept_def handle_at_def traits_def trait_def)

lemma added_list:
  assumes "distinct xs" and "\<forall>p \<in> set xs. P p" and "P e" and "cmp e e"
    and "\<And>x. x \<in> set xs \<Longrightarrow> x = e \<Longrightarrow> cmp e x"
  shows "distinct (snd (CList_addToList mem cmp True xs e)) \<and> (\<forall>p \<in> set (snd (CList_addToList mem cmp True xs e)). P p) \<and>
    set (snd (CList_addToList mem cmp True xs e)) \<subseteq> insert e (set xs)"
  using assms findInList_code [of cmp xs e] by (auto simp: CList_addToList_def split: ephidget.splits)

lemma handle_self_equal:
  assumes "handle_ok phid"
  shows "CPhidget_areEqual phid phid"
proof -
  have "strncmp n l l = Some 0" if "n \<le> length l" for n and l :: "u8 list" using that
  proof (induction n arbitrary: l)
    case (Suc n)
    then show ?case by (cases l) auto
  qed simp
  then have "strncmp (MAX_LABEL_STORAGE - 1) (label phid) (label phid) = Some 0"
    using assms by (simp add: handle_ok_def)
  then show ?thesis by (simp add: CPhidget_areEqual_def)
qed

lemma register_outcome:
  assumes ok: "world_ok w" and h: "handle_at w p"
  shows "\<exists>r w'. RegisterLocalDevice mem created p w = Some (r, w') \<and> world_ok w' \<and> phids w' = phids w \<and>
    set (ActiveDevices w') \<subseteq> insert p (set (ActiveDevices w))"
proof -
  obtain phid where ph: "phids w p = Some phid" "handle_ok phid" using h by (auto simp: handle_at_def)
  have refl: "CPhidget_areEqual phid phid" by (rule handle_self_equal [OF ph(2)])
  have dis: "distinct (ActiveDevices w)" "\<forall>q \<in> set (ActiveDevices w). handle_at w q" using ok by (simp_all add: world_ok_def)
  have add: "distinct (snd (CList_addToList mem cmp True (ActiveDevices w) p)) \<and>
      (\<forall>q \<in> set (snd (CList_addToList mem cmp True (ActiveDevices w) p)). handle_at w q) \<and>
      set (snd (CList_addToList mem cmp True (ActiveDevices w) p)) \<subseteq> insert p (set (ActiveDevices w))" if "cmp p p" for cmp
    by (rule added_list [of "ActiveDevices w" "handle_at w" p cmp mem]) (use dis h that in auto)
  have fin: "world_ok (snd (StartCentralThread created (w\<lparr>ActiveDevices := l\<rparr>)))"
    if "distinct l" "\<forall>q \<in> set l. handle_at w q" for l
    using that by (intro world_ok_cong [OF ok]) simp_all
  have eqp: "areEqual w p p" "CPhidgetHandle_areEqual p p"
    using ph refl by (simp_all add: on_records_def CPhidgetHandle_areEqual_def)
  define cmp where "cmp = (if specificDevice phid = PHIDGETOPEN_SERIAL \<or> specificDevice phid = PHIDGETOPEN_LABEL
    then areEqual w else CPhidgetHandle_areEqual)"
  obtain r act where ra: "CList_addToList mem cmp True (ActiveDevices w) p = (r, act)" by fastforce
  have act: "distinct act" "\<forall>q \<in> set act. handle_at w q" "set act \<subseteq> insert p (set (ActiveDevices w))" using add [of cmp] eqp ra by (auto simp: cmp_def)
  have "add_phid mem CPhidget_areEqual w (ActiveDevices w) p = Some (CList_addToList mem (areEqual w) True (ActiveDevices w) p)"
    by (rule add_phid_live) (simp_all add: ph live_active [OF ok])
  then have "RegisterLocalDevice mem created p w =
      (if r \<noteq> EPHIDGET_OK then Some (r, w) else Some (StartCentralThread created (w\<lparr>ActiveDevices := act\<rparr>)))"
    using ph ra by (auto simp: RegisterLocalDevice_def cmp_def)
  moreover obtain r' w' where "StartCentralThread created (w\<lparr>ActiveDevices := act\<rparr>) = (r', w')" by fastforce
  moreover from this have "w' = snd (StartCentralThread created (w\<lparr>ActiveDevices := act\<rparr>))" by simp
  then have "world_ok w'" "phids w' = phids w" "ActiveDevices w' = act" using fin [OF act(1,2)] by simp_all
  ultimately show ?thesis using ok act(3) by auto
qed

lemma central_exit_ok:
  assumes ok: "world_ok w" and no: "ActiveDevices w = []"
  shows "world_ok (central_exit w) \<and> (handle_at w p \<longrightarrow> phids (central_exit w) p = phids w p)"
proof -
  have ne: "q \<notin> set (AttachedDevices w)" if "handle_at w q" for q
    using that ok handle_device_distinct [of w q q] by (auto simp: world_ok_def)
  have keep: "phids (central_exit w) q = (if q \<in> set (AttachedDevices w) then None else phids w q)" for q
    by (simp add: central_exit_def)
  have "handle_at (central_exit w) q \<or> device_at (central_exit w) q" if "phids (central_exit w) q \<noteq> None" for q
  proof -
    have "q \<notin> set (AttachedDevices w)" "phids w q \<noteq> None" using that keep [of q] by (auto split: if_splits)
    then show ?thesis using alive_cases [OF ok, of q] keep [of q] by (auto simp: handle_at_def device_at_def)
  qed
  moreover have "phids (central_exit w) NULL = None" using ok keep [of NULL] by (simp add: world_ok_def)
  moreover have "ActiveDevices (central_exit w) = []" "AttachedDevices (central_exit w) = []"
    using no by (simp_all add: central_exit_def)
  ultimately have "world_ok (central_exit w)" by (simp add: world_ok_def)
  then show ?thesis using ne [of p] keep [of p] by simp
qed

lemma open_outcome:
  assumes ok: "world_ok w" and h: "handle_at w p"
  shows "\<exists>r w'. CPhidget_open mem created p serial w = Some (r, w') \<and> world_ok w' \<and>
    (if serial < - 1 \<or> (\<exists>x. traits w p = Some (True, x)) then w' = w
     else opens p (if serial = - 1 then None else Some serial) w w')"
proof -
  obtain phid where ph: "phids w p = Some phid" "handle_ok phid" using h by (auto simp: handle_at_def)
  show ?thesis
  proof (cases "serial < - 1 \<or> is_set phid PHIDGET_OPENED_FLAG")
    case True
    then show ?thesis using ph ok by (auto simp: CPhidget_open_def traits_def trait_def)
  next
    case False
    let ?f = "\<lambda>phid. phid\<lparr>specificDevice := if serial = - 1 then PHIDGETOPEN_ANY else PHIDGETOPEN_SERIAL, serialNumber := serial\<rparr>"
    have t: "touched p w (upd p ?f w)"
      using False ph by (intro upd_touched [OF ph(1)]) (auto simp: handle_ok_def)
    have h1: "handle_at (upd p ?f w) p" by (rule touched_handle [OF t])
    obtain r w' where r: "RegisterLocalDevice mem created p (upd p ?f w) = Some (r, w')" "world_ok w'"
      "phids w' = phids (upd p ?f w)" "set (ActiveDevices w') \<subseteq> insert p (set (ActiveDevices w))"
      using register_outcome [OF touched_ok [OF t h ok] h1] by fastforce
    have h2: "handle_at w' p" using h1 r(3) by (simp add: handle_at_def)
    have t2: "touched p w' (upd p (set_flag PHIDGET_OPENED_FLAG) w')"
      by (rule upd_handle [OF h2]) (auto simp: handle_ok_def)
    have "opens p (if serial = - 1 then None else Some serial) w (upd p (set_flag PHIDGET_OPENED_FLAG) w')"
      using r(3,4) ph(1) by (intro opensI [of _ _ _ "set_flag PHIDGET_OPENED_FLAG \<circ> ?f"]) (auto simp: phids_upd trait_def)
    then show ?thesis using False ph r(1) touched_ok [OF t2 h2 r(2)] by (simp add: CPhidget_open_def traits_def trait_def)
  qed
qed

lemma openLabel_outcome:
  assumes ok: "world_ok w" and h: "handle_at w p"
    and lab: "lab \<noteq> None \<and> enc = EPHIDGET_OK \<longrightarrow> length (the lab) < MAX_LABEL_STORAGE"
  shows "\<exists>r w'. CPhidget_openLabel mem created enc p lab w = Some (r, w') \<and> world_ok w' \<and>
    (if lab \<noteq> None \<and> enc \<noteq> EPHIDGET_OK \<or> (\<exists>x. traits w p = Some (True, x)) then w' = w else opens p None w w')"
proof -
  obtain phid where ph: "phids w p = Some phid" "handle_ok phid" using h by (auto simp: handle_at_def)
  show ?thesis
  proof (cases "(lab \<noteq> None \<and> enc \<noteq> EPHIDGET_OK) \<or> is_set phid PHIDGET_OPENED_FLAG")
    case True
    then show ?thesis using ph ok by (auto simp: CPhidget_openLabel_def traits_def trait_def)
  next
    case False
    obtain phid' where new: "(case lab of None \<Rightarrow> Some (phid\<lparr>specificDevice := PHIDGETOPEN_ANY\<rparr>)
        | Some s \<Rightarrow> do { l \<leftarrow> blit (label phid) 0 (s @ [0]);
            Some (phid\<lparr>specificDevice := PHIDGETOPEN_LABEL, label := l\<rparr>) }) = Some phid'" "handle_ok phid'"
        "deviceID phid' = deviceID phid" "specificDevice phid' \<noteq> PHIDGETOPEN_SERIAL"
    proof (cases lab)
      case None
      then show ?thesis using that False ph by (auto simp: handle_ok_def)
    next
      case (Some s)
      then obtain l where "blit (label phid) 0 (s @ [0]) = Some l"
        using lab False ph(2) by (auto simp: blit_def handle_ok_def)
      moreover from this have "length l = length (label phid)" by (rule length_blit)
      ultimately show ?thesis using that Some False ph by (auto simp: handle_ok_def)
    qed
    have t: "touched p w (upd p (\<lambda>_. phid') w)" using ph new by (intro upd_touched)
    have h1: "handle_at (upd p (\<lambda>_. phid') w) p" by (rule touched_handle [OF t])
    obtain r w' where r: "RegisterLocalDevice mem created p (upd p (\<lambda>_. phid') w) = Some (r, w')" "world_ok w'"
      "phids w' = phids (upd p (\<lambda>_. phid') w)" "set (ActiveDevices w') \<subseteq> insert p (set (ActiveDevices w))"
      using register_outcome [OF touched_ok [OF t h ok] h1] by fastforce
    have h2: "handle_at w' p" using h1 r(3) by (simp add: handle_at_def)
    have t2: "touched p w' (upd p (set_flag PHIDGET_OPENED_FLAG) w')"
      by (rule upd_handle [OF h2]) (auto simp: handle_ok_def)
    have "opens p None w (upd p (set_flag PHIDGET_OPENED_FLAG) w')"
      using r(3,4) ph(1) new(3,4) by (intro opensI [of _ _ _ "\<lambda>_. set_flag PHIDGET_OPENED_FLAG phid'"]) (auto simp: phids_upd trait_def)
    then show ?thesis
      using False ph new(1) r(1) touched_ok [OF t2 h2 r(2)] by (auto simp: CPhidget_openLabel_def traits_def trait_def)
  qed
qed

lemma removed_list:
  assumes "distinct xs" and "e \<noteq> NULL"
  shows "distinct (fst (snd (CList_removeFromList cmp True xs e fr))) \<and>
    set (fst (snd (CList_removeFromList cmp True xs e fr))) \<subseteq> set xs"
  using assms by (auto simp: removeFromList_eq split: list.splits)

text \<open>\<open>closes p w w'\<close>: only the handle \<open>p\<close> changes, which becomes a closed one; the list of opened handles is
  the one without the elements that compare equal.\<close>

definition closes :: "ptr \<Rightarrow> world \<Rightarrow> world \<Rightarrow> bool" where
  "closes p w w' \<longleftrightarrow> others_kept p w w' \<and> (\<exists>x. traits w' p = Some (False, x)) \<and>
     ActiveDevices w' = fst (snd (CList_removeFromList (areEqual w) True (ActiveDevices w) p False))"

lemma close_outcome:
  assumes ok: "world_ok w" and h: "handle_at w p"
  shows "\<exists>r w'. CPhidget_close remote b mine p w = Some (r, w') \<and> world_ok w' \<and>
    (if \<exists>x. traits w p = Some (True, x) then closes p w w' else w' = w)"
proof -
  obtain phid where ph: "phids w p = Some phid" "handle_ok phid" using h by (auto simp: handle_at_def)
  have nn: "p \<noteq> NULL" using ok ph by (auto simp: world_ok_def)
  show ?thesis
  proof (cases "is_set phid PHIDGET_OPENED_FLAG")
    case False
    then show ?thesis using ph ok by (simp add: CPhidget_close_def traits_def trait_def)
  next
    case True
    let ?act = "fst (snd (CList_removeFromList (areEqual w) True (ActiveDevices w) p False))"
    let ?w1 = "w\<lparr>ActiveDevices := ?act\<rparr>"
    have rem: "remove_phid CPhidget_areEqual w (ActiveDevices w) p = Some ?act"
      by (rule remove_phid_live) (simp_all add: ph live_active [OF ok])
    have act: "distinct ?act" "set ?act \<subseteq> set (ActiveDevices w)"
      using removed_list [OF _ nn, of "ActiveDevices w"] ok by (simp_all add: world_ok_def)
    then have ok1: "world_ok ?w1" using ok by (intro world_ok_cong [OF ok]) (auto simp: world_ok_def)
    have h1: "handle_at ?w1 p" using h by (simp add: handle_at_def)
    define w2r where "w2r = (if is_set phid PHIDGET_ATTACHED_FLAG
        then close_usb b p (upd p (\<lambda>phid. phid\<lparr>writeStopFlag := True\<rparr>) ?w1) else Some (EPHIDGET_OK, ?w1))"
    have "\<exists>r w2 q. w2r = Some (r, w2) \<and> phids w2 p = Some q \<and> handle_ok (restore_any q) \<and> \<not> is_set q PHIDGET_ATTACHED_FLAG \<and>
        touched p ?w1 (upd p restore_any w2) \<and> ActiveDevices w2 = ?act"
    proof (cases "is_set phid PHIDGET_ATTACHED_FLAG")
      case True
      then show ?thesis using ph
        by (auto simp: w2r_def close_usb_eq upd_eq handle_ok_def intro!: touchedI)
    next
      case False
      then show ?thesis using ph
        by (auto simp: w2r_def upd_eq handle_ok_def intro!: touchedI)
    qed
    then obtain r w2 q where 2: "w2r = Some (r, w2)" "phids w2 p = Some q" "handle_ok (restore_any q)" "\<not> is_set q PHIDGET_ATTACHED_FLAG"
      "touched p ?w1 (upd p restore_any w2)" "ActiveDevices w2 = ?act" by blast
    let ?w3 = "upd p restore_any w2"
    have ok3: "world_ok ?w3" by (rule touched_ok [OF 2(5) h1 ok1])
    have p3: "phids ?w3 p = Some (restore_any q)" using 2(2) by (simp add: phids_upd)
    have h3: "handle_at ?w3 p" using p3 2(3) by (simp add: handle_at_def)
    define w4 where "w4 = (if ActiveDevices ?w3 = [] \<and> ActivePhidgetManagers ?w3 = 0 then JoinCentralThread mine ?w3 else ?w3)"
    have ok4: "world_ok w4" and p4: "phids w4 p = phids ?w3 p"
      using central_exit_ok [OF ok3, of p] ok3 h3 by (auto simp: w4_def JoinCentralThread_def)
    have s4: "same_handles ?w3 w4"
      using central_exit_handles [OF ok3] same_handles_refl by (auto simp: w4_def JoinCentralThread_def)
    have "handle_at ?w3 q = handle_at w q \<and> traits ?w3 q = traits w q" if "q \<noteq> p" for q
      using touched_lists(3) [OF 2(5), of q] that by (simp add: handle_at_def traits_def)
    then have "others_kept p w (upd p (clear_flag PHIDGET_OPENED_FLAG) w4)"
      using s4 by (simp add: others_kept_def same_handles_def handle_at_def traits_def phids_upd)
    moreover have "\<exists>x. traits (upd p (clear_flag PHIDGET_OPENED_FLAG) w4) p = Some (False, x)"
      unfolding traits_def phids_upd [of p _ w4] fun_upd_same p4 p3 by (simp add: trait_def)
    moreover have "ActiveDevices w4 = ?act" using s4 2(6) by (simp add: same_handles_def)
    ultimately have cl: "closes p w (upd p (clear_flag PHIDGET_OPENED_FLAG) w4)" by (simp add: closes_def)
    have local: "close_local b mine p w = Some (r, w4)"
      using rem 2(1) ph by (simp add: close_local_def w2r_def w4_def Let_def)
    have "touched p w4 (upd p (clear_flag PHIDGET_OPENED_FLAG) w4)"
      using 2(3,4) p3 p4 by (intro upd_touched [of w4 p "restore_any q"]) (auto simp: handle_ok_def)
    moreover have "handle_at w4 p" using h3 p4 by (simp add: handle_at_def)
    ultimately have "world_ok (upd p (clear_flag PHIDGET_OPENED_FLAG) w4)" using touched_ok ok4 by blast
    then show ?thesis using True ph local cl by (auto simp: CPhidget_close_def handle_ok_def traits_def trait_def)
  qed
qed


subsection \<open>Scanning the bus\<close>

text \<open>\<open>keeps w w'\<close>: the handles and the device records of \<open>w\<close> are still there, and there is no other handle.\<close>

definition keeps :: "world \<Rightarrow> world \<Rightarrow> bool" where
  "keeps w w' \<longleftrightarrow> ActiveDevices w' = ActiveDevices w \<and> (\<forall>q. handle_at w' q = handle_at w q) \<and>
     (\<forall>q. phids w q \<noteq> None \<and> \<not> handle_at w q \<longrightarrow> phids w' q = phids w q) \<and>
     (\<forall>q. phids w q \<noteq> None \<longrightarrow> has_error w' q = has_error w q \<and> traits w' q = traits w q)"

lemma keeps_refl: "keeps w w"
  by (simp add: keeps_def)

lemma keeps_same:
  assumes "keeps w w'" and "phids w q = Some r" and "\<not> handle_at w q"
  shows "phids w' q = Some r"
  using assms unfolding keeps_def by force

lemma keeps_device:
  assumes "keeps w w'" and "device_at w d"
  shows "phids w' d = phids w d" "device_at w' d"
proof -
  have n: "\<not> handle_at w d" using handle_device_distinct [OF _ assms(2), of d] by blast
  show "phids w' d = phids w d" "device_at w' d"
    using assms(2) keeps_same [OF assms(1) _ n] by (auto simp: device_at_def)
qed

lemma keeps_error:
  assumes "keeps w w'" and q: "phids w q \<noteq> None"
  shows "has_error w' q = has_error w q" "traits w' q = traits w q"
proof -
  have "\<forall>q. phids w q \<noteq> None \<longrightarrow> has_error w' q = has_error w q \<and> traits w' q = traits w q"
    using assms(1) unfolding keeps_def by (elim conjE)
  from this [rule_format, OF q] show "has_error w' q = has_error w q" "traits w' q = traits w q" by simp_all
qed

lemma keeps_trans:
  assumes 1: "keeps w w'" and 2: "keeps w' w''" and ok: "world_ok w"
  shows "keeps w w''"
proof -
  have "phids w'' q = phids w q" if "phids w q \<noteq> None" "\<not> handle_at w q" for q
  proof -
    have "device_at w q" using that alive_cases [OF ok that(1)] by simp
    then show ?thesis using keeps_device [OF 1] keeps_device(1) [OF 2, of q] by simp
  qed
  moreover have "has_error w'' q = has_error w q \<and> traits w'' q = traits w q" if "phids w q \<noteq> None" for q
  proof -
    have "phids w' q \<noteq> None" using alive_cases [OF ok that]
    proof
      assume "handle_at w q"
      then have "handle_at w' q" using 1 by (simp add: keeps_def)
      then show ?thesis by (auto simp: handle_at_def)
    next
      assume "device_at w q"
      then have "device_at w' q" by (rule keeps_device [OF 1])
      then show ?thesis by (auto simp: device_at_def)
    qed
    then show ?thesis using keeps_error [OF 1 that] keeps_error [OF 2, of q] by simp
  qed
  moreover have "ActiveDevices w'' = ActiveDevices w" "\<forall>q. handle_at w'' q = handle_at w q"
    using 1 2 by (simp_all add: keeps_def)
  ultimately show ?thesis unfolding keeps_def by simp
qed

lemma frame_keeps: "frame w w' \<Longrightarrow> keeps w w'"
  by (simp add: frame_def keeps_def)

lemma keeps_same_handles: "keeps w w' \<Longrightarrow> same_handles w w'"
  using keeps_error(2) [of w w'] by (auto simp: keeps_def same_handles_def handle_at_def)

lemma detached_same_handles:
  assumes "detached d w w'" and "device_at w d"
  shows "same_handles w w'"
proof -
  have "handle_at w' q = handle_at w q" for q
    using assms handle_device_distinct [of w q d] by (cases "q = d") (auto simp: detached_def handle_at_def)
  then show ?thesis using assms(1) by (simp add: detached_def same_handles_def)
qed

lemma keeps_no_matches:
  assumes "keeps w w'" and "\<forall>d \<in> set ds. device_at w d"
  shows "phid_list.no_matches w' ds = phid_list.no_matches w ds" "\<forall>d \<in> set ds. device_at w' d"
proof -
  show "phid_list.no_matches w' ds = phid_list.no_matches w ds"
    by (rule no_matches_cong) (simp add: assms(2) keeps_device(1) [OF assms(1)])
  show "\<forall>d \<in> set ds. device_at w' d" using assms(2) keeps_device(2) [OF assms(1)] by blast
qed

text \<open>A list of device records without two that describe the same device.\<close>

definition device_list :: "world \<Rightarrow> ptr list \<Rightarrow> bool" where
  "device_list w ds \<longleftrightarrow> (\<forall>d \<in> set ds. device_at w d) \<and> phid_list.no_matches w ds"

lemma device_list_Nil [simp]: "device_list w []"
  by (simp add: device_list_def)

lemma keeps_device_list: "keeps w w' \<Longrightarrow> device_list w ds \<Longrightarrow> device_list w' ds"
  using keeps_no_matches [of w w' ds] by (simp add: device_list_def)

lemma device_list_live: "device_list w ds \<Longrightarrow> live w ds"
  by (auto simp: device_list_def live_def list_all_iff device_at_def)

lemma device_list_distinct:
  assumes "device_list w ds"
  shows "distinct ds"
proof -
  have "areEqual w d d" if "device_at w d" for d
    using that device_at_equal [OF that that] extra_equal_refl by (auto simp: device_at_def)
  then show ?thesis using assms
    by (fastforce simp: device_list_def phid_list.no_matches_def distinct_conv_nth)
qed

lemma device_list_attached: "world_ok w \<Longrightarrow> device_list w (AttachedDevices w)"
  by (simp add: device_list_def world_ok_def)

lemma add_device:
  assumes "device_list w ds" and "device_at w d" and "d \<noteq> NULL"
  shows "\<exists>r ds'. add_phid True CPhidget_areEqual w ds d = Some (r, ds') \<and> device_list w ds' \<and>
    ds' = (if \<exists>e \<in> set ds. areExtraEqual w d e then ds else ds @ [d])"
proof -
  have eq: "(\<exists>e \<in> set ds. areEqual w d e) = (\<exists>e \<in> set ds. areExtraEqual w d e)"
    using assms(1) device_at_equal [OF assms(2)] by (auto simp: device_list_def)
  have "phids w d \<noteq> None" using assms(2) by (auto simp: device_at_def)
  then have a: "add_phid True CPhidget_areEqual w ds d = Some (CList_addToList True (areEqual w) True ds d)"
    by (rule add_phid_live) (rule device_list_live [OF assms(1)])
  have "snd (CList_addToList True (areEqual w) True ds d) = (if \<exists>e \<in> set ds. areExtraEqual w d e then ds else ds @ [d])"
    using findInList_code [of "areEqual w" ds d] assms(3) unfolding eq by (auto simp: CList_addToList_def)
  moreover have "device_list w (snd (CList_addToList True (areEqual w) True ds d))"
    using phid_list.add_no_matches [of w ds True True d] assms(1,2) calculation by (auto simp: device_list_def split: if_splits)
  ultimately show ?thesis using a by (metis prod.collapse)
qed

lemma add_device_grows:
  assumes "device_list w ds" and "device_at w d" and "d \<noteq> NULL"
  shows "\<exists>r ds'. add_phid True CPhidget_areEqual w ds d = Some (r, ds') \<and> device_list w ds' \<and> set ds \<subseteq> set ds'"
proof -
  from add_device [OF assms] obtain r ds' where "add_phid True CPhidget_areEqual w ds d = Some (r, ds')" "device_list w ds'"
    "ds' = (if \<exists>e \<in> set ds. areExtraEqual w d e then ds else ds @ [d])" by blast
  then show ?thesis by (intro exI [of _ r] exI [of _ ds']) auto
qed

lemma device_at_not_NULL: "world_ok w \<Longrightarrow> device_at w d \<Longrightarrow> d \<noteq> NULL"
  by (auto simp: world_ok_def device_at_def)

lemma new_record_ok: "fd_sdid fd \<noteq> 0 \<Longrightarrow> length (fd_label fd) = MAX_LABEL_STORAGE \<Longrightarrow> device_ok (new_record name fd)"
  by (simp add: new_record_def device_ok_def)

lemma new_record_world:
  assumes ok: "world_ok w" and d: "d \<noteq> NULL" "phids w d = None" and r: "device_ok r"
  shows "world_ok (w\<lparr>phids := (phids w)(d \<mapsto> r)\<rparr>)" "keeps w (w\<lparr>phids := (phids w)(d \<mapsto> r)\<rparr>)"
    "device_at (w\<lparr>phids := (phids w)(d \<mapsto> r)\<rparr>) d"
proof -
  let ?w = "w\<lparr>phids := (phids w)(d \<mapsto> r)\<rparr>"
  have h: "handle_at ?w q = handle_at w q" for q
    using d r handle_not_device by (auto simp: handle_at_def)
  have dv: "device_at ?w q = (q = d \<or> device_at w q)" for q using r d by (auto simp: device_at_def)
  show k: "keeps w ?w" using h d by (auto simp: keeps_def has_error_def traits_def)
  show "device_at ?w d" using dv by simp
  have "phid_list.no_matches ?w (AttachedDevices w)"
    using keeps_no_matches [OF k] ok by (simp add: world_ok_def)
  then show "world_ok ?w" using ok d h dv unfolding world_ok_def by simp
qed

definition fresh_ptrs :: "world \<Rightarrow> ptr list \<Rightarrow> bool" where
  "fresh_ptrs w ds \<longleftrightarrow> distinct ds \<and> (\<forall>d \<in> set ds. d \<noteq> NULL \<and> phids w d = None)"

lemma probe_rows_outcome:
  assumes "world_ok w" and "fresh_ptrs w (probe_ptrs ps @ rest)" and "list_all probe_ok ps" and "device_list w cur"
  shows "\<exists>s cur' w'. probe_rows name ps cur w = Some (s, cur', w') \<and> world_ok w' \<and> keeps w w' \<and>
    AttachedDevices w' = AttachedDevices w \<and> device_list w' cur' \<and> fresh_ptrs w' rest"
  using assms
proof (induction name ps cur w rule: probe_rows.induct)
  case (5 name d fd ps cur w)
  let ?w = "w\<lparr>phids := (phids w)(d \<mapsto> new_record name fd)\<rparr>"
  have d: "d \<noteq> NULL" "phids w d = None" and r: "device_ok (new_record name fd)"
    using 5(3,4) by (auto simp: fresh_ptrs_def probe_ok_def new_record_ok)
  note nw = new_record_world [OF 5(2) d r]
  obtain r1 cur1 where 1: "add_phid True CPhidget_areEqual ?w cur d = Some (r1, cur1)" "device_list ?w cur1"
    using add_device [OF keeps_device_list [OF nw(2) 5(5)] nw(3) d(1)] by blast
  have fr: "fresh_ptrs ?w (probe_ptrs ps @ rest)" using 5(3) by (auto simp: fresh_ptrs_def)
  from 5(1) [OF refl 1(1) refl nw(1) fr _ 1(2)] 5(4) obtain s cur' w' where
    2: "probe_rows name ps cur1 ?w = Some (s, cur', w')" "world_ok w'" "keeps ?w w'"
      "AttachedDevices w' = AttachedDevices ?w" "device_list w' cur'" "fresh_ptrs w' rest" by auto
  show ?case using 1(1) 2 keeps_trans [OF nw(2) 2(3) 5(2)] by simp
qed (auto simp: keeps_refl fresh_ptrs_def probe_ok_def)

lemma add_known_outcome:
  assumes "world_ok w" and "\<forall>d \<in> set ds. device_at w d" and "device_list w cur"
  shows "\<exists>f cur'. add_known name ds cur w = Some (f, cur') \<and> device_list w cur'"
  using assms(2,3)
proof (induction ds arbitrary: cur)
  case (Cons d ds)
  obtain dev n where dev: "phids w d = Some dev" "CPhidgetFHandle dev = Some n"
    using Cons.prems(1) by (auto simp: device_at_def device_ok_def)
  have d: "device_at w d" "d \<noteq> NULL" using Cons.prems(1) device_at_not_NULL [OF assms(1)] by auto
  obtain r1 cur1 where 1: "add_phid True CPhidget_areEqual w cur d = Some (r1, cur1)" "device_list w cur1"
    using add_device [OF Cons.prems(2) d] by blast
  have "\<exists>r2 cur2. (if n = name then add_phid True CPhidget_areEqual w cur d else Some (EPHIDGET_OK, cur)) = Some (r2, cur2) \<and>
      device_list w cur2" using 1 Cons.prems(2) by simp
  then obtain r2 cur2 where 2: "(if n = name then add_phid True CPhidget_areEqual w cur d else Some (EPHIDGET_OK, cur)) = Some (r2, cur2)"
      "device_list w cur2" by blast
  from Cons.IH [OF _ 2(2)] Cons.prems(1) obtain f cur' where "add_known name ds cur2 w = Some (f, cur')" "device_list w cur'" by auto
  with dev 2(1) show ?case by simp
next
  case Nil
  then show ?case by auto
qed

lemma bus_ptrs_Cons: "bus_ptrs ((name, rows) # bus) = probe_ptrs rows @ bus_ptrs bus"
  by (simp add: bus_ptrs_def)

lemma scan_loop_outcome:
  assumes "world_ok w" and "fresh_ptrs w (bus_ptrs bus)" and "list_all (list_all probe_ok \<circ> snd) bus" and "device_list w cur"
  shows "\<exists>cur' w'. scan_loop bus cur w = Some (cur', w') \<and> world_ok w' \<and> keeps w w' \<and>
    AttachedDevices w' = AttachedDevices w \<and> device_list w' cur'"
  using assms
proof (induction bus arbitrary: cur w)
  case Nil
  then show ?case by (simp add: keeps_refl)
next
  case (Cons b bus)
  obtain name rows where b: "b = (name, rows)" by (cases b)
  have rest: "fresh_ptrs w (probe_ptrs rows @ bus_ptrs bus)" "fresh_ptrs w (bus_ptrs bus)"
    using Cons.prems(2) unfolding b bus_ptrs_Cons by (auto simp: fresh_ptrs_def)
  obtain f cur1 where 1: "add_known name (AttachedDevices w) cur w = Some (f, cur1)" "device_list w cur1"
    using add_known_outcome [OF Cons.prems(1) _ Cons.prems(4), of "AttachedDevices w" name] attached_device [OF Cons.prems(1)] by blast
  show ?case
  proof (cases f)
    case True
    then show ?thesis using Cons.IH [OF Cons.prems(1) rest(2) _ 1(2)] Cons.prems(3) 1(1) b by simp
  next
    case False
    obtain s cur2 w2 where 2: "probe_rows name rows cur1 w = Some (s, cur2, w2)" "world_ok w2" "keeps w w2"
      "AttachedDevices w2 = AttachedDevices w" "device_list w2 cur2" "fresh_ptrs w2 (bus_ptrs bus)"
      using probe_rows_outcome [OF Cons.prems(1) rest(1) _ 1(2), of name] Cons.prems(3) b by auto
    show ?thesis
    proof (cases s)
      case True
      then show ?thesis using b False 1(1) 2 by simp
    next
      case False
      from Cons.IH [OF 2(2,6) _ 2(5)] Cons.prems(3) obtain cur' w' where
        3: "scan_loop bus cur2 w2 = Some (cur', w')" "world_ok w'" "keeps w2 w'" "AttachedDevices w' = AttachedDevices w2"
          "device_list w' cur'" by auto
      show ?thesis using b \<open>\<not> f\<close> False 1(1) 2(1,4) 3 keeps_trans [OF 2(3) 3(3) Cons.prems(1)] by simp
    qed
  qed
qed


subsection \<open>The poll\<close>

lemma find_code: "phids w e \<noteq> None \<Longrightarrow> live w xs \<Longrightarrow> e \<noteq> NULL \<Longrightarrow>
  \<exists>f. find_phid eq w xs e = Some (if \<exists>x \<in> set xs. on_records eq w e x then EPHIDGET_OK else EPHIDGET_NOTFOUND, f) \<and>
    (\<forall>p. f = Some p \<longrightarrow> p \<in> set xs)"
  using findInList_code [of "on_records eq w" xs e] clist_search_Some [of "on_records eq w" e xs]
  by (auto simp: find_phid_live CList_findInList_def split: option.splits if_splits)

lemma device_list_append: "device_list w (xs @ [d]) \<longleftrightarrow> device_list w xs \<and> device_at w d \<and> (\<forall>e \<in> set xs. \<not> areExtraEqual w d e)"
proof -
  have "(\<forall>e \<in> set xs. \<not> areEqual w d e) = (\<forall>e \<in> set xs. \<not> areExtraEqual w d e)" if "\<forall>e \<in> set xs. device_at w e" "device_at w d"
    using that device_at_equal [of w d] by simp
  then show ?thesis by (auto simp: device_list_def phid_list.no_matches_snoc)
qed

lemma device_list_Cons: "device_list w (d # ds) \<longleftrightarrow> device_list w ds \<and> device_at w d \<and> (\<forall>e \<in> set ds. \<not> areExtraEqual w d e)"
proof -
  have "(\<forall>e \<in> set ds. \<not> areEqual w d e) = (\<forall>e \<in> set ds. \<not> areExtraEqual w d e)" if "\<forall>e \<in> set ds. device_at w e" "device_at w d"
    using that device_at_equal [of w d] by simp
  then show ?thesis by (auto simp: device_list_def phid_list.no_matches_Cons)
qed

lemma extra_equal_sym: "areExtraEqual w d e = areExtraEqual w e d"
  by (auto simp: on_records_def CPhidget_areExtraEqual_def split: option.split)

lemma collect_gone_eq:
  assumes "world_ok w" and "device_list w cur" and "device_list w ds" and "device_list w gone"
    and "\<forall>d \<in> set ds. \<forall>g \<in> set gone. \<not> areExtraEqual w d g"
  shows "collect_gone cur ds gone w = Some (gone @ filter (\<lambda>d. \<forall>c \<in> set cur. \<not> areExtraEqual w d c) ds) \<and>
    device_list w (gone @ filter (\<lambda>d. \<forall>c \<in> set cur. \<not> areExtraEqual w d c) ds)"
  using assms(3-5)
proof (induction ds arbitrary: gone)
  case (Cons d ds)
  have d: "device_at w d" "d \<noteq> NULL" "phids w d \<noteq> None" using Cons.prems(1) device_at_not_NULL [OF assms(1)]
    by (auto simp: device_list_Cons device_at_def)
  obtain f where f: "find_phid CPhidget_areExtraEqual w cur d =
      Some (if \<exists>x \<in> set cur. areExtraEqual w d x then EPHIDGET_OK else EPHIDGET_NOTFOUND, f)"
    using find_code [OF d(3) device_list_live [OF assms(2)] d(2)] by blast
  show ?case
  proof (cases "\<exists>x \<in> set cur. areExtraEqual w d x")
    case True
    then show ?thesis using Cons.IH [of gone] Cons.prems f by (auto simp: device_list_Cons)
  next
    case False
    obtain r where a: "add_phid True CPhidget_areEqual w gone d = Some (r, gone @ [d])"
      using add_device [OF Cons.prems(2) d(1,2)] Cons.prems(3) by auto
    have "device_list w (gone @ [d])" using Cons.prems d(1) by (auto simp: device_list_append)
    moreover have "\<forall>e \<in> set ds. \<forall>g \<in> set (gone @ [d]). \<not> areExtraEqual w e g"
      using Cons.prems extra_equal_sym [of w] by (auto simp: device_list_Cons)
    ultimately show ?thesis using Cons.IH [of "gone @ [d]"] Cons.prems(1) False f a by (auto simp: device_list_Cons)
  qed
qed simp

lemma add_pair_outcome:
  assumes "world_ok w" and "\<forall>d \<in> set ds. device_at w d" and "device_list w gone"
  shows "\<exists>gone'. add_pair dev ds gone w = Some gone' \<and> device_list w gone' \<and> set gone \<subseteq> set gone'"
  using assms(2,3)
proof (induction ds arbitrary: gone)
  case (Cons d ds)
  obtain dev2 where d: "device_at w d" "d \<noteq> NULL" "phids w d = Some dev2" using Cons.prems(1) device_at_not_NULL [OF assms(1)]
    by (auto simp: device_at_def)
  obtain r g where "add_phid True CPhidget_areEqual w gone d = Some (r, g)" "device_list w g" "set gone \<subseteq> set g"
    using add_device_grows [OF Cons.prems(2) d(1,2)] by blast
  then have "\<exists>r g. (if serialNumber dev = serialNumber dev2 \<and> pdd_iid dev \<noteq> pdd_iid dev2
      then add_phid True CPhidget_areEqual w gone d else Some (EPHIDGET_OK, gone)) = Some (r, g) \<and> device_list w g \<and> set gone \<subseteq> set g"
    using Cons.prems(2) by simp
  then obtain r g where 1: "(if serialNumber dev = serialNumber dev2 \<and> pdd_iid dev \<noteq> pdd_iid dev2
      then add_phid True CPhidget_areEqual w gone d else Some (EPHIDGET_OK, gone)) = Some (r, g)" "device_list w g" "set gone \<subseteq> set g"
    by blast
  obtain gone' where "add_pair dev ds g w = Some gone'" "device_list w gone'" "set g \<subseteq> set gone'"
    using Cons.IH [OF _ 1(2)] Cons.prems(1) by auto
  with d(3) 1 show ?case by auto
qed simp

definition error_free :: "world \<Rightarrow> bool" where
  "error_free w \<longleftrightarrow> (\<forall>p \<in> set (ActiveDevices w). \<not> has_error w p)"

lemma cycle_errors_outcome:
  assumes ok: "world_ok w" and d: "device_at w d" and cur: "\<forall>c \<in> set cur. device_at w c" and gone: "device_list w gone"
  shows "\<exists>gone'. cycle_errors cur d gone w = Some gone' \<and> device_list w gone' \<and> set gone \<subseteq> set gone' \<and>
    (error_free w \<longrightarrow> gone' = gone)"
proof -
  have dn: "d \<noteq> NULL" "phids w d \<noteq> None" using d device_at_not_NULL [OF ok] by (auto simp: device_at_def)
  obtain r f where f: "find_phid CPhidget_areEqual w (ActiveDevices w) d = Some (r, f)" "\<forall>p. f = Some p \<longrightarrow> p \<in> set (ActiveDevices w)"
    using find_code [OF dn(2) live_active [OF ok] dn(1)] by blast
  show ?thesis
  proof (cases f)
    case None
    then show ?thesis using f gone by (simp add: cycle_errors_def)
  next
    case (Some p)
    then have p: "p \<in> set (ActiveDevices w)" using f by simp
    then obtain phid where ph: "phids w p = Some phid" using ok by (auto simp: world_ok_def handle_at_def)
    obtain r1 g where g: "add_phid True CPhidget_areEqual w gone d = Some (r1, g)" "device_list w g" "set gone \<subseteq> set g"
      using add_device_grows [OF gone d dn(1)] by blast
    obtain dev where dev: "phids w d = Some dev" using dn(2) by auto
    obtain g' where "add_pair dev cur g w = Some g'" "device_list w g'" "set g \<subseteq> set g'"
      using add_pair_outcome [OF ok cur g(2)] by blast
    with dev show ?thesis using Some f g gone p ph by (auto simp: cycle_errors_def error_free_def has_error_def)
  qed
qed

lemma tried_keeps: "tried ps d w r w' \<Longrightarrow> frame w w'"
  by (simp add: tried_def)

text \<open>An attach event: the device is listed, and only handles change besides.\<close>

lemma attach_event_keeps:
  assumes ok: "world_ok w" and "attempts_ok as" and d: "device_at w d" and "\<forall>e \<in> set (AttachedDevices w). \<not> areExtraEqual w d e"
  shows "\<exists>r as' w'. CPhidgetAttachEvent True as d w = Some (r, as', w') \<and> attempts_ok as' \<and> world_ok w' \<and> keeps w w' \<and>
    AttachedDevices w' = AttachedDevices w @ [d]"
proof -
  have new: "\<forall>e \<in> set (AttachedDevices w). \<not> areEqual w d e"
    using assms(4) device_at_equal [OF d] attached_device [OF ok] by simp
  obtain r as' w' where 1: "CPhidgetAttachEvent True as d w = Some (r, as', w')" "attempts_ok as'"
    and 2: "world_ok (notify_managers (\<lambda>m. ManagerAttach m d) (w\<lparr>AttachedDevices := AttachedDevices w @ [d]\<rparr>))"
      "tried (candidates w d) d (notify_managers (\<lambda>m. ManagerAttach m d) (w\<lparr>AttachedDevices := AttachedDevices w @ [d]\<rparr>)) r w'"
    using attach_event_outcome [OF ok assms(2) d new] by blast
  let ?w1 = "notify_managers (\<lambda>m. ManagerAttach m d) (w\<lparr>AttachedDevices := AttachedDevices w @ [d]\<rparr>)"
  have f: "frame ?w1 w'" using 2(2) by (rule tried_keeps)
  have "keeps w ?w1" by (simp add: keeps_def handle_at_def has_error_def traits_def)
  then have "keeps w w'" using keeps_trans [OF _ frame_keeps [OF f] ok] by simp
  then show ?thesis using 1 frame_ok [OF f 2(1)] frame_lists(2) [OF f] by simp
qed


lemma keeps_extra:
  assumes "keeps w w'" and "device_at w a" and "device_at w b"
  shows "areExtraEqual w' a b = areExtraEqual w a b"
  using keeps_device(1) [OF assms(1)] assms(2,3) by (simp add: on_records_def)

lemma keeps_error_free: "keeps w w' \<Longrightarrow> world_ok w \<Longrightarrow> error_free w \<Longrightarrow> error_free w'"
proof -
  assume k: "keeps w w'" and ok: "world_ok w" and e: "error_free w"
  have "phids w p \<noteq> None" if "p \<in> set (ActiveDevices w)" for p using that ok by (auto simp: world_ok_def handle_at_def)
  moreover have "ActiveDevices w' = ActiveDevices w" using k by (simp add: keeps_def)
  ultimately show ?thesis using e keeps_error(1) [OF k] by (auto simp: error_free_def)
qed

text \<open>The devices of a list that are not in another one.\<close>

definition missing :: "world \<Rightarrow> ptr list \<Rightarrow> ptr list \<Rightarrow> ptr list" where
  "missing w xs ys = filter (\<lambda>x. \<forall>y \<in> set ys. \<not> areExtraEqual w x y) xs"

lemma missing_keeps:
  assumes "keeps w w'" and "\<forall>d \<in> set xs. device_at w d" and "\<forall>d \<in> set ys. device_at w d"
  shows "missing w' xs ys = missing w xs ys"
  using assms keeps_extra [OF assms(1)] by (auto simp: missing_def intro!: filter_cong)

lemma attach_new_outcome:
  assumes "world_ok w" and "attempts_ok as" and "\<forall>c \<in> set cur. device_at w c" and "device_list w ds" and "device_list w gone"
  shows "\<exists>as' gone' w'. attach_new as cur ds gone w = Some (as', gone', w') \<and> attempts_ok as' \<and> world_ok w' \<and> keeps w w' \<and>
    AttachedDevices w' = AttachedDevices w @ missing w ds (AttachedDevices w) \<and>
    device_list w' gone' \<and> set gone \<subseteq> set gone' \<and> (error_free w \<longrightarrow> gone' = gone)"
  using assms
proof (induction ds arbitrary: as gone w)
  case Nil
  then show ?case by (simp add: keeps_refl missing_def)
next
  case (Cons d ds)
  note ok = Cons.prems(1)
  have d: "device_at w d" "d \<noteq> NULL" "phids w d \<noteq> None" and ds: "device_list w ds" "\<forall>e \<in> set ds. \<not> areExtraEqual w d e"
    using Cons.prems(4) device_at_not_NULL [OF ok] by (auto simp: device_list_Cons device_at_def)
  let ?new = "\<forall>e \<in> set (AttachedDevices w). \<not> areExtraEqual w d e"
  obtain f where f: "find_phid CPhidget_areExtraEqual w (AttachedDevices w) d =
      Some (if ?new then EPHIDGET_NOTFOUND else EPHIDGET_OK, f)"
    using find_code [OF d(3) live_attached [OF ok] d(2), of CPhidget_areExtraEqual] by auto
  obtain r1 as1 w1 where 1: "(if ?new then CPhidgetAttachEvent True as d w else Some (EPHIDGET_OK, as, w)) = Some (r1, as1, w1)"
      "attempts_ok as1" "world_ok w1" "keeps w w1" "AttachedDevices w1 = AttachedDevices w @ (if ?new then [d] else [])"
  proof (cases ?new)
    case True
    from attach_event_keeps [OF ok Cons.prems(2) d(1) True] that True show ?thesis by auto
  next
    case False
    show ?thesis
    proof (rule that)
      show "(if ?new then CPhidgetAttachEvent True as d w else Some (EPHIDGET_OK, as, w)) = Some (EPHIDGET_OK, as, w)"
        "AttachedDevices w = AttachedDevices w @ (if ?new then [d] else [])"
        using False by (simp_all only: if_False append_Nil2)
    qed (simp_all add: ok Cons.prems(2) keeps_refl)
  qed
  have c1: "\<forall>c \<in> set cur. device_at w1 c" "device_at w1 d" using Cons.prems(3) d(1) keeps_device(2) [OF 1(4)] by auto
  obtain gone1 where 2: "cycle_errors cur d gone w1 = Some gone1" "device_list w1 gone1" "set gone \<subseteq> set gone1"
      "error_free w1 \<longrightarrow> gone1 = gone"
    using cycle_errors_outcome [OF 1(3) c1(2,1) keeps_device_list [OF 1(4) Cons.prems(5)]] by blast
  from Cons.IH [OF 1(3,2) c1(1) keeps_device_list [OF 1(4) ds(1)] 2(2)] obtain as' gone' w' where
    3: "attach_new as1 cur ds gone1 w1 = Some (as', gone', w')" "attempts_ok as'" "world_ok w'" "keeps w1 w'"
      "AttachedDevices w' = AttachedDevices w1 @ missing w1 ds (AttachedDevices w1)"
      "device_list w' gone'" "set gone1 \<subseteq> set gone'" "error_free w1 \<longrightarrow> gone' = gone1" by blast
  have dv: "\<forall>e \<in> set (AttachedDevices w1). device_at w e" using 1(5) d(1) attached_device [OF ok] by auto
  have "missing w1 ds (AttachedDevices w1) = missing w ds (AttachedDevices w1)"
    using ds(1) dv by (intro missing_keeps [OF 1(4)]) (simp_all add: device_list_def)
  also have "\<dots> = missing w ds (AttachedDevices w)"
    using 1(5) ds(2) extra_equal_sym [of w d] unfolding missing_def by (intro filter_cong) (auto split: if_splits)
  finally have "AttachedDevices w' = AttachedDevices w @ missing w (d # ds) (AttachedDevices w)"
    using 3(5) 1(5) by (auto simp: missing_def)
  moreover have "keeps w w'" by (rule keeps_trans [OF 1(4) 3(4) ok])
  moreover have "error_free w \<longrightarrow> gone' = gone" using 2(4) 3(8) keeps_error_free [OF 1(4) ok] by simp
  moreover have "set gone \<subseteq> set gone'" using 2(3) 3(7) by simp
  moreover have "attach_new as cur (d # ds) gone w = Some (as', gone', w')"
    using f 1(1) 2(1) 3(1) by (cases ?new) auto
  ultimately show ?case using 3(2,3,6) by blast
qed

lemma detach_all_outcome:
  assumes "world_ok w" and "device_list w ds"
  shows "\<exists>w'. detach_all b ds w = Some w' \<and> world_ok w' \<and> ActiveDevices w' = ActiveDevices w \<and>
    AttachedDevices w' = missing w (AttachedDevices w) ds \<and> (\<forall>d \<in> set (AttachedDevices w'). phids w' d = phids w d) \<and>
    same_handles w w'"
  using assms
proof (induction ds arbitrary: w)
  case Nil
  then show ?case by (simp add: missing_def same_handles_refl)
next
  case (Cons d ds)
  note ok = Cons.prems(1)
  have d: "device_at w d" and ds: "device_list w ds" "\<forall>e \<in> set ds. \<not> areExtraEqual w d e"
    using Cons.prems(2) by (auto simp: device_list_Cons)
  have dd: "areExtraEqual w d d" using d extra_equal_refl by (auto simp: device_at_def)
  obtain r w1 where 1: "CPhidgetDetachEvent b d w = Some (r, w1)" "detached d w w1"
    using detach_event_outcome [OF ok d] by blast
  have same: "phids w1 q = phids w q" if "device_at w q" "q \<noteq> d" for q
    using that 1(2) handle_device_distinct [of w q q] by (auto simp: detached_def)
  have att: "AttachedDevices w1 = filter (\<lambda>x. \<not> areExtraEqual w d x) (AttachedDevices w)" "ActiveDevices w1 = ActiveDevices w"
    using 1(2) by (simp_all add: detached_def)
  have in1: "device_at w q \<and> q \<noteq> d" if "q \<in> set ds \<union> set (AttachedDevices w1)" for q
    using that ds dd att(1) attached_device [OF ok] by (auto simp: device_list_def)
  have "phid_list.no_matches w1 ds = phid_list.no_matches w ds" using in1 same by (intro no_matches_cong) auto
  then have ds1: "device_list w1 ds" using ds(1) in1 same by (auto simp: device_list_def device_at_def)
  from Cons.IH [OF detached_ok [OF ok d 1(2)] ds1] obtain w' where
    2: "detach_all b ds w1 = Some w'" "world_ok w'" "ActiveDevices w' = ActiveDevices w1"
      "AttachedDevices w' = missing w1 (AttachedDevices w1) ds" "\<forall>d \<in> set (AttachedDevices w'). phids w' d = phids w1 d" "same_handles w1 w'" by blast
  have "missing w1 (AttachedDevices w1) ds = filter (\<lambda>x. \<forall>y \<in> set ds. \<not> areExtraEqual w x y) (AttachedDevices w1)"
    unfolding missing_def using in1 same by (intro filter_cong) (auto simp: on_records_def)
  then have "missing w1 (AttachedDevices w1) ds = missing w (AttachedDevices w) (d # ds)"
    using att(1) extra_equal_sym [of w d] by (auto simp: missing_def conj_commute intro!: filter_cong)
  moreover have "\<forall>q \<in> set (AttachedDevices w'). phids w' q = phids w q"
    using 2(4,5) in1 same by (auto simp: missing_def)
  moreover have "same_handles w w'" by (rule same_handles_trans [OF detached_same_handles [OF 1(2) d] 2(6)])
  ultimately show ?case using 1(1) 2 att(2) by simp
qed


lemma upd_mgr_fields [simp]:
  "phids (upd_mgr m f w) = phids w" "ActiveDevices (upd_mgr m f w) = ActiveDevices w" "AttachedDevices (upd_mgr m f w) = AttachedDevices w"
  "ActivePhidgetManagers (upd_mgr m f w) = ActivePhidgetManagers w" "CentralThread (upd_mgr m f w) = CentralThread w"
  by (simp_all add: upd_mgr_def)

lemma fold_emit_fields [simp]:
  "phids (fold (\<lambda>d. emit (ev d)) ds w) = phids w" "ActiveDevices (fold (\<lambda>d. emit (ev d)) ds w) = ActiveDevices w"
  "AttachedDevices (fold (\<lambda>d. emit (ev d)) ds w) = AttachedDevices w"
  by (induction ds arbitrary: w) simp_all

lemma send_initial_fields [simp]:
  "phids (send_initial m w) = phids w" "ActiveDevices (send_initial m w) = ActiveDevices w"
  "AttachedDevices (send_initial m w) = AttachedDevices w"
  by (simp_all add: send_initial_def split: option.split)

lemma sendInitialEvents_fields [simp]:
  "phids (sendInitialEvents w) = phids w" "ActiveDevices (sendInitialEvents w) = ActiveDevices w"
  "AttachedDevices (sendInitialEvents w) = AttachedDevices w"
proof -
  have "phids (fold send_initial ms w) = phids w \<and> ActiveDevices (fold send_initial ms w) = ActiveDevices w \<and>
      AttachedDevices (fold send_initial ms w) = AttachedDevices w" for ms w
    by (induction ms arbitrary: w) simp_all
  then show "phids (sendInitialEvents w) = phids w" "ActiveDevices (sendInitialEvents w) = ActiveDevices w"
    "AttachedDevices (sendInitialEvents w) = AttachedDevices w" by (simp_all add: sendInitialEvents_def)
qed

lemma same_world_ok:
  assumes "world_ok w" and "phids w' = phids w" and "ActiveDevices w' = ActiveDevices w" and "AttachedDevices w' = AttachedDevices w"
  shows "world_ok w'"
  using assms by (intro world_ok_cong [OF assms(1)]) (simp_all add: world_ok_def)

lemma build_list_outcome:
  assumes ok: "world_ok w" and bus: "bus_ok w bus"
  shows "\<exists>cur w1. CUSBBuildList bus (sendInitialEvents w) = Some (cur, w1) \<and> world_ok w1 \<and> keeps w w1 \<and>
    AttachedDevices w1 = AttachedDevices w \<and> device_list w1 cur"
proof -
  let ?w = "sendInitialEvents w"
  have ok1: "world_ok ?w" by (rule same_world_ok [OF ok]) simp_all
  have k: "keeps w ?w" by (simp add: keeps_def handle_at_def has_error_def traits_def)
  show ?thesis
  proof (cases bus)
    case None
    then show ?thesis using ok1 k by (simp add: CUSBBuildList_def)
  next
    case (Some b)
    have "fresh_ptrs ?w (bus_ptrs b)" "list_all (list_all probe_ok \<circ> snd) b"
      using bus Some by (auto simp: bus_ok_def fresh_ptrs_def list_all_iff)
    from scan_loop_outcome [OF ok1 this device_list_Nil] obtain cur w1 where
      "scan_loop b [] ?w = Some (cur, w1)" "world_ok w1" "keeps ?w w1" "AttachedDevices w1 = AttachedDevices ?w" "device_list w1 cur" by blast
    then show ?thesis using Some keeps_trans [OF k _ ok] by (simp add: CUSBBuildList_def)
  qed
qed

lemma missing_attached:
  assumes "device_list w xs" and "ys \<subseteq> set xs"
  shows "filter (\<lambda>x. \<forall>y \<in> ys. \<not> areExtraEqual w x y) xs = filter (\<lambda>x. x \<notin> ys) xs"
proof (rule filter_cong)
  fix x assume x: "x \<in> set xs"
  have "\<not> areExtraEqual w x y" if "y \<in> ys" "x \<noteq> y" for y
  proof -
    from x assms(2) that obtain i j where "i < length xs" "j < length xs" "xs ! i = x" "xs ! j = y"
      by (auto simp: in_set_conv_nth subset_eq)
    then have "\<not> areEqual w x y" using assms(1) that(2) by (auto simp: device_list_def phid_list.no_matches_def)
    moreover have "device_at w x" "device_at w y" using assms x that(1) by (auto simp: device_list_def)
    ultimately show ?thesis using device_at_equal by simp
  qed
  moreover have "areExtraEqual w x x" using assms(1) x extra_equal_refl by (auto simp: device_list_def device_at_def)
  ultimately show "(\<forall>y \<in> ys. \<not> areExtraEqual w x y) = (x \<notin> ys)" by blast
qed simp

lemma poll_outcome:
  assumes ok: "world_ok w" and as: "attempts_ok as" and bus: "bus_ok w bus"
  shows "\<exists>cur w1 as' w'. CUSBBuildList bus (sendInitialEvents w) = Some (cur, w1) \<and>
    CPhidgetManager_poll bus as b w = Some (as', w') \<and> attempts_ok as' \<and> world_ok w' \<and> same_handles w w' \<and>
    (\<forall>d \<in> set (AttachedDevices w'). \<exists>c \<in> set cur. areExtraEqual w1 d c) \<and>
    (error_free w \<longrightarrow> AttachedDevices w' = filter (\<lambda>d. \<exists>c \<in> set cur. areExtraEqual w1 d c) (AttachedDevices w) @
       filter (\<lambda>c. \<forall>d \<in> set (AttachedDevices w). \<not> areExtraEqual w1 c d) cur)"
proof -
  obtain cur w1 where 1: "CUSBBuildList bus (sendInitialEvents w) = Some (cur, w1)" "world_ok w1" "keeps w w1"
      "AttachedDevices w1 = AttachedDevices w" "device_list w1 cur" using build_list_outcome [OF ok bus] by blast
  let ?A = "AttachedDevices w" and ?gone = "missing w1 (AttachedDevices w) cur" and ?new = "missing w1 cur (AttachedDevices w)"
  have dA: "device_list w1 ?A" using device_list_attached [OF 1(2)] 1(4) by simp
  have 2: "collect_gone cur (AttachedDevices w1) [] w1 = Some ?gone" "device_list w1 ?gone"
    using collect_gone_eq [OF 1(2,5) dA device_list_Nil] 1(4) by (simp_all add: missing_def)
  have "\<forall>c \<in> set cur. device_at w1 c" using 1(5) by (simp add: device_list_def)
  from attach_new_outcome [OF 1(2) as this 1(5) 2(2)] obtain as' gone' w2 where
    3: "attach_new as cur cur ?gone w1 = Some (as', gone', w2)" "attempts_ok as'" "world_ok w2" "keeps w1 w2"
      "AttachedDevices w2 = ?A @ ?new" "device_list w2 gone'" "set ?gone \<subseteq> set gone'" "error_free w1 \<longrightarrow> gone' = ?gone"
    unfolding 1(4) by blast
  obtain w' where 4: "detach_all b gone' w2 = Some w'" "world_ok w'" "AttachedDevices w' = missing w2 (?A @ ?new) gone'" "same_handles w2 w'"
    using detach_all_outcome [OF 3(3,6), of b] 3(5) by auto
  have dv: "\<forall>d \<in> set (?A @ ?new). device_at w1 d" using dA 1(5) by (auto simp: device_list_def missing_def)
  have eq2: "areExtraEqual w2 x y = areExtraEqual w1 x y" if "x \<in> set (?A @ ?new)" "y \<in> set ?gone" for x y
    using that dv by (intro keeps_extra [OF 3(4)]) (auto simp: missing_def)
  have gone: "filter (\<lambda>x. \<forall>y \<in> set ?gone. \<not> areExtraEqual w2 x y) ?A = filter (\<lambda>d. \<exists>c \<in> set cur. areExtraEqual w1 d c) ?A"
  proof -
    have "filter (\<lambda>x. \<forall>y \<in> set ?gone. \<not> areExtraEqual w2 x y) ?A = filter (\<lambda>x. \<forall>y \<in> set ?gone. \<not> areExtraEqual w1 x y) ?A"
      using eq2 by (intro filter_cong) auto
    also have "\<dots> = filter (\<lambda>x. x \<notin> set ?gone) ?A"
      by (rule missing_attached [OF dA]) (auto simp: missing_def)
    also have "\<dots> = filter (\<lambda>d. \<exists>c \<in> set cur. areExtraEqual w1 d c) ?A"
      by (intro filter_cong) (auto simp: missing_def)
    finally show ?thesis .
  qed
  have new: "filter (\<lambda>x. \<forall>y \<in> set ?gone. \<not> areExtraEqual w2 x y) ?new = ?new"
    using eq2 by (auto simp: filter_id_conv) (auto simp: missing_def)
  have part: "\<exists>c \<in> set cur. areExtraEqual w1 d c" if "d \<in> set (AttachedDevices w')" for d
  proof (cases "d \<in> set ?A")
    case True
    then have "d \<in> set (filter (\<lambda>x. \<forall>y \<in> set ?gone. \<not> areExtraEqual w2 x y) ?A)"
      using that 4(3) 3(7) by (auto simp: missing_def)
    then show ?thesis unfolding gone by simp
  next
    case False
    then have "d \<in> set cur" using that 4(3) by (auto simp: missing_def)
    moreover from this have "areExtraEqual w1 d d" using 1(5) extra_equal_refl by (auto simp: device_list_def device_at_def)
    ultimately show ?thesis by blast
  qed
  have full: "AttachedDevices w' = filter (\<lambda>d. \<exists>c \<in> set cur. areExtraEqual w1 d c) ?A @ ?new" if "error_free w"
  proof -
    have "gone' = ?gone" using that 3(8) keeps_error_free [OF 1(3) ok] by simp
    then have "AttachedDevices w' = filter (\<lambda>x. \<forall>y \<in> set ?gone. \<not> areExtraEqual w2 x y) (?A @ ?new)"
      using 4(3) by (simp add: missing_def [of w2])
    then show ?thesis using gone new by simp
  qed
  have "CPhidgetManager_poll bus as b w = Some (as', w')"
    using 1(1) 2(1) 3(1) 4(1) by (simp add: CPhidgetManager_poll_def)
  moreover have "same_handles w w'"
    by (rule same_handles_trans [OF same_handles_trans [OF keeps_same_handles [OF 1(3)] keeps_same_handles [OF 3(4)]] 4(4)])
  ultimately show ?thesis using 1(1) 3(2) 4(2) part full
    by (intro exI [of _ cur] exI [of _ w1] exI [of _ as'] exI [of _ w'] conjI impI ballI) (auto simp: missing_def)
qed


lemma round_outcome:
  assumes ok: "world_ok w" and "attempts_ok as" and "bus_ok w bus"
  shows "\<exists>r w'. CentralThread_round bus as b w = Some (r, w') \<and> world_ok w' \<and> same_handles w w'"
proof (cases "ActiveDevices w \<noteq> [] \<or> ActivePhidgetManagers w \<noteq> 0")
  case True
  obtain as1 w1 where 1: "CPhidgetManager_poll bus as b w = Some (as1, w1)" "attempts_ok as1" "world_ok w1" "same_handles w w1"
    using poll_outcome [OF assms, of b] by blast
  obtain r as2 w2 where "find_for_all as1 (AttachedDevices w1) EPHIDGET_OK w1 = Some (r, as2, w2)" "frame w1 w2"
    using find_for_all_outcome [OF 1(3,2), of "AttachedDevices w1" EPHIDGET_OK] attached_device [OF 1(3)] by blast
  moreover from this have "same_handles w w2" using same_handles_trans [OF 1(4)] keeps_same_handles frame_keeps by blast
  ultimately show ?thesis using True 1 frame_ok by (auto simp: CentralThread_round_def findActiveDevices_def)
next
  case False
  then show ?thesis using central_exit_ok [OF ok] central_exit_handles [OF ok] live_attached [OF ok]
    by (auto simp: CentralThread_round_def)
qed

lemma mgr_open_outcome:
  assumes ok: "world_ok w" and m: "managers w m \<noteq> None"
  shows "\<exists>r w'. CPhidgetManager_open mem created m w = Some (r, w') \<and> world_ok w' \<and> same_handles w w'"
proof -
  have "\<exists>r w'. CPhidgetManager_open mem created m w = Some (r, w') \<and> phids w' = phids w \<and>
      ActiveDevices w' = ActiveDevices w \<and> AttachedDevices w' = AttachedDevices w"
    using m by (auto simp: CPhidgetManager_open_def StartCentralThread_def)
  then show ?thesis using same_world_ok [OF ok] phids_same_handles by blast
qed

lemma mgr_close_outcome:
  assumes ok: "world_ok w" and m: "managers w m \<noteq> None"
  shows "\<exists>r w'. CPhidgetManager_close (\<lambda>_ w. w) mine m w = Some (r, w') \<and> world_ok w' \<and> same_handles w w'"
proof -
  obtain mg where mg: "managers w m = Some mg" using m by auto
  define w1 where "w1 = (if mgr_state mg = PHIDGETMANAGER_ACTIVE \<or> mgr_state mg = PHIDGETMANAGER_ACTIVATING then
           (let w = upd_mgr m (\<lambda>mg. mg\<lparr>mgr_state := PHIDGETMANAGER_INACTIVE,
                mgr_status := CPhidget_clearStatusFlag (mgr_status mg) PHIDGET_ATTACHED_FLAG\<rparr>) w in
            if mgr_is_set mg PHIDGET_REMOTE_FLAG then w
            else w\<lparr>ActivePhidgetManagers := ActivePhidgetManagers w - 1,
                   localPhidgetManagers := fst (snd (CList_removeFromList CPhidgetManager_areEqual True (localPhidgetManagers w) m False))\<rparr>)
         else w)"
  have ok1: "world_ok w1" by (rule same_world_ok [OF ok]) (simp_all add: w1_def Let_def)
  define w2 where "w2 = (if ActiveDevices w1 = [] \<and> ActivePhidgetManagers w1 = 0 then JoinCentralThread mine w1 else w1)"
  have ok2: "world_ok w2" using ok1 central_exit_ok [OF ok1] by (simp add: w2_def JoinCentralThread_def)
  have "same_handles w w1" by (rule phids_same_handles) (simp_all add: w1_def Let_def)
  moreover have "same_handles w1 w2"
    using central_exit_handles [OF ok1] same_handles_refl by (simp add: w2_def JoinCentralThread_def)
  moreover have "same_handles w2 (upd_mgr m (\<lambda>mg. mg\<lparr>mgr_status := CPhidget_clearStatusFlag (mgr_status mg) PHIDGET_OPENED_FLAG\<rparr>) w2)"
    by (rule phids_same_handles) simp_all
  ultimately have same: "same_handles w (upd_mgr m (\<lambda>mg. mg\<lparr>mgr_status := CPhidget_clearStatusFlag (mgr_status mg) PHIDGET_OPENED_FLAG\<rparr>) w2)"
    using same_handles_trans by blast
  have "CPhidgetManager_close (\<lambda>_ w. w) mine m w = (if \<not> mgr_is_set mg PHIDGET_OPENED_FLAG then Some (EPHIDGET_OK, w)
     else Some (EPHIDGET_OK, upd_mgr m (\<lambda>mg. mg\<lparr>mgr_status := CPhidget_clearStatusFlag (mgr_status mg) PHIDGET_OPENED_FLAG\<rparr>) w2))"
    unfolding CPhidgetManager_close_def mg Option.bind.simps w1_def [symmetric] Let_def [of w1] w2_def [symmetric] Let_def [of w2]
    by (rule refl)
  moreover have "world_ok (upd_mgr m (\<lambda>mg. mg\<lparr>mgr_status := CPhidget_clearStatusFlag (mgr_status mg) PHIDGET_OPENED_FLAG\<rparr>) w2)"
    by (rule same_world_ok [OF ok2]) simp_all
  ultimately show ?thesis using ok same same_handles_refl by auto
qed

lemma create_outcome:
  assumes ok: "world_ok w" and p: "phids w p = None"
  shows "\<exists>r w'. create_handle p cls w = Some (r, w') \<and> world_ok w'"
proof (cases "p = NULL")
  case True
  then show ?thesis using ok by (simp add: create_handle_def CPhidget_create_def)
next
  case False
  let ?phid = "the (snd (CPhidget_create True))\<lparr>deviceID := cls\<rparr>"
  let ?w = "w\<lparr>phids := (phids w)(p \<mapsto> ?phid)\<rparr>"
  have h: "handle_ok ?phid" by (simp add: CPhidget_create_def handle_ok_def MAX_LABEL_STORAGE_def clear_flag_def)
  have hk: "handle_at ?w q = (q = p \<or> handle_at w q)" for q using h p by (auto simp: handle_at_def)
  have dk: "device_at ?w q = device_at w q" for q using h p handle_not_device by (auto simp: device_at_def)
  have "phid_list.no_matches ?w (AttachedDevices w) = phid_list.no_matches w (AttachedDevices w)"
    using attached_device [OF ok] p by (intro no_matches_cong) (fastforce simp: device_at_def)
  then have "world_ok ?w" using ok hk dk False unfolding world_ok_def by simp
  moreover have "create_handle p cls w = Some (EPHIDGET_OK, ?w)" using False by (simp add: create_handle_def CPhidget_create_def)
  ultimately show ?thesis by blast
qed

lemma delete_outcome:
  assumes ok: "world_ok w" and h: "handle_at w p" and p: "p \<notin> set (ActiveDevices w)"
  shows "\<exists>r w'. CPhidget_delete p w = Some (r, w') \<and> world_ok w'"
proof -
  let ?w = "w\<lparr>phids := (phids w)(p := None)\<rparr>"
  have np: "\<not> device_at w p" using handle_device_distinct [OF h] by blast
  have hk: "handle_at ?w q = (q \<noteq> p \<and> handle_at w q)" for q by (auto simp: handle_at_def)
  have dk: "device_at ?w q = device_at w q" for q using np by (cases "q = p") (auto simp: device_at_def)
  have "phid_list.no_matches ?w (AttachedDevices w) = phid_list.no_matches w (AttachedDevices w)"
    using attached_device [OF ok] np by (intro no_matches_cong) auto
  then have "world_ok ?w" using ok hk dk p unfolding world_ok_def by (auto simp: handle_at_def)
  then show ?thesis using h by (auto simp: CPhidget_delete_def handle_at_def)
qed

lemma exec_outcome:
  assumes ok: "world_ok w" and c: "call_ok c w"
  shows "\<exists>r w'. exec c w = Some (r, w') \<and> world_ok w'"
proof (cases c)
  case (Create p cls)
  then show ?thesis using create_outcome [OF ok] c by simp
next
  case (Open mem created p serial)
  then show ?thesis using open_outcome [OF ok] c by fastforce
next
  case (OpenLabel mem created enc p lab)
  then show ?thesis using openLabel_outcome [OF ok, of p lab enc mem created] c by fastforce
next
  case (Close b mine p)
  then show ?thesis using close_outcome [OF ok] c by fastforce
next
  case (Delete p)
  then show ?thesis using delete_outcome [OF ok] c by simp
next
  case (MgrCreate m)
  have "world_ok (snd (CPhidgetManager_create m w))"
    by (rule same_world_ok [OF ok]) (simp_all add: CPhidgetManager_create_def)
  then show ?thesis using MgrCreate by (metis exec.simps(6) prod.collapse)
next
  case (MgrOpen mem created m)
  then show ?thesis using mgr_open_outcome [OF ok] c by fastforce
next
  case (MgrClose mine m)
  then show ?thesis using mgr_close_outcome [OF ok] c by fastforce
next
  case (ThreadError p)
  have h: "handle_at w p" using c ThreadError by simp
  have "touched p w (upd p (set_flag PHIDGET_USB_ERROR_FLAG) w)" by (rule upd_handle [OF h]) (auto simp: handle_ok_def)
  from touched_ok [OF this h ok] show ?thesis using ThreadError by simp
next
  case (Round bus as b)
  then show ?thesis using round_outcome [OF ok] c by fastforce
qed

lemma initial_ok: "world_ok initial"
  by (simp add: world_ok_def initial_def)

lemma reachable_ok: "reachable w \<Longrightarrow> world_ok w"
proof (induction rule: reachable.induct)
  case reachable_initial
  show ?case by (rule initial_ok)
next
  case (reachable_step w c r w')
  then show ?case using exec_outcome [of w c] by auto
qed


subsection \<open>Sequences of calls\<close>

fun run :: "call list \<Rightarrow> world \<Rightarrow> (ephidget list \<times> world) option" where
  "run [] w = Some ([], w)"
| "run (c # cs) w = do { (r, w) \<leftarrow> exec c w; (rs, w) \<leftarrow> run cs w; Some (r # rs, w) }"

lemma call_reachable: "reachable w \<Longrightarrow> call_ok c w \<Longrightarrow> \<exists>r w'. exec c w = Some (r, w') \<and> reachable w'"
  using exec_outcome [OF reachable_ok] reachable_step by blast

lemma reachable_create: "p \<noteq> NULL \<Longrightarrow> reachable (snd (the (create_handle p cls initial)))"
  using reachable_step [OF reachable_initial, of "Create p cls"]
  by (auto simp: create_handle_def CPhidget_create_def initial_def)

lemmas demo_defs = initial_def create_handle_def CPhidget_create_def CPhidget_open_def RegisterLocalDevice_def
  StartCentralThread_def CList_addToList_def CList_findInList_def CPhidgetHandle_areEqual_def NULL_def upd_def

definition demo_device :: found_device where
  "demo_device = \<lparr>fd_did = 7, fd_sdid = 69, fd_iid = 0, fd_bcd = 300, fd_serial = 1234, fd_label = replicate 41 0, fd_uid = 0\<rparr>"

lemmas run_defs = demo_defs add_phid_def remove_phid_def find_phid_def live_def CList_removeFromList_def CPhidget_areEqual_def
  CPhidget_areExtraEqual_def CentralThread_round_def CPhidgetManager_poll_def CUSBBuildList_def sendInitialEvents_def
  new_record_def demo_device_def on_records_def CPhidgetAttachEvent_def notify_managers_def findActiveDevice_def
  findActiveDevices_def add_matches_def specific_match_def any_match_def attachActiveDevice_def cycle_errors_def
  restore_any_def CPhidget_close_def close_local_def CPhidget_delete_def emit_def

subsection \<open>Properties\<close>

text \<open>The hot-plug state between calls, for all programs that do not delete a listed handle.\<close>

lemma reachable_state:
  assumes "world_ok w"
  shows "(\<forall>p phid. phids w p = Some phid \<and> CPhidgetFHandle phid = None \<longrightarrow>
      (is_set phid PHIDGET_ATTACHED_FLAG \<longleftrightarrow> deviceHandle phid) \<and>
      (is_set phid PHIDGET_ATTACHED_FLAG \<longrightarrow> is_set phid PHIDGET_OPENED_FLAG \<and> specificDevice phid \<noteq> PHIDGETOPEN_ANY) \<and>
      (specificDevice phid = PHIDGETOPEN_ANY_ATTACHED \<longrightarrow> is_set phid PHIDGET_ATTACHED_FLAG) \<and>
      \<not> is_set phid PHIDGET_ATTACHING_FLAG \<and> \<not> is_set phid PHIDGET_DETACHING_FLAG) \<and>
    (\<forall>d \<in> set (AttachedDevices w). \<exists>dev. phids w d = Some dev \<and> CPhidgetFHandle dev \<noteq> None \<and> is_set dev PHIDGET_ATTACHED_FLAG) \<and>
    (\<forall>i < length (AttachedDevices w). \<forall>j < length (AttachedDevices w). i \<noteq> j \<longrightarrow>
      \<not> areEqual w (AttachedDevices w ! i) (AttachedDevices w ! j))"
proof -
  have "handle_ok phid" if "phids w p = Some phid" "CPhidgetFHandle phid = None" for p phid
    using alive_cases [OF assms, of p] that by (auto simp: handle_at_def device_at_def device_ok_def)
  moreover have "\<forall>d \<in> set (AttachedDevices w). \<exists>dev. phids w d = Some dev \<and> CPhidgetFHandle dev \<noteq> None \<and> is_set dev PHIDGET_ATTACHED_FLAG"
    using attached_device [OF assms] by (fastforce simp: device_at_def device_ok_def)
  ultimately show ?thesis
    using no_matches_attached [OF assms] by (auto simp: handle_ok_def phid_list.no_matches_def)
qed

subsection \<open>Programs that keep apart what they open\<close>

text \<open>
  Closing removes from the list whatever compares equal to the handle, so a program can delete a handle that it has
  closed only if it keeps apart the handles that it has open at the same time: they are of different classes, or all
  opened with serial numbers, which differ.  The rules speak of what the program has done with a handle only: created
  it, opened it with or without a serial number, closed it.
\<close>

definition is_handle :: "world \<Rightarrow> ptr \<Rightarrow> bool" where
  "is_handle w p \<longleftrightarrow> (\<exists>phid. phids w p = Some phid \<and> CPhidgetFHandle phid = None)"

definition opened :: "world \<Rightarrow> ptr \<Rightarrow> bool" where
  "opened w p \<longleftrightarrow> is_handle w p \<and> (\<exists>x. traits w p = Some (True, x))"

definition clashes :: "int \<times> int option \<Rightarrow> int \<times> int option \<Rightarrow> bool" where
  "clashes x y \<longleftrightarrow> fst x = fst y \<and> (snd x = None \<or> snd y = None \<or> snd x = snd y)"

definition may_open :: "world \<Rightarrow> ptr \<Rightarrow> int option \<Rightarrow> bool" where
  "may_open w p s \<longleftrightarrow> (\<forall>q b c s0 y. q \<noteq> p \<and> opened w q \<and> traits w p = Some (b, c, s0) \<and> traits w q = Some (True, y) \<longrightarrow>
     \<not> clashes (c, s) y)"

fun proper_call :: "call \<Rightarrow> world \<Rightarrow> bool" where
  "proper_call (Create p cls) w \<longleftrightarrow> phids w p = None"
| "proper_call (Open mem created p serial) w \<longleftrightarrow> is_handle w p \<and>
     (serial < - 1 \<or> opened w p \<or> may_open w p (if serial = - 1 then None else Some serial))"
| "proper_call (OpenLabel mem created enc p lab) w \<longleftrightarrow> is_handle w p \<and>
     (lab \<noteq> None \<and> enc = EPHIDGET_OK \<longrightarrow> length (the lab) < MAX_LABEL_STORAGE) \<and>
     (lab \<noteq> None \<and> enc \<noteq> EPHIDGET_OK \<or> opened w p \<or> may_open w p None)"
| "proper_call (Close reset_ok mine p) w \<longleftrightarrow> is_handle w p"
| "proper_call (Delete p) w \<longleftrightarrow> is_handle w p \<and> \<not> opened w p"
| "proper_call (MgrCreate m) w \<longleftrightarrow> managers w m = None"
| "proper_call (MgrOpen mem created m) w \<longleftrightarrow> managers w m \<noteq> None"
| "proper_call (MgrClose mine m) w \<longleftrightarrow> managers w m \<noteq> None"
| "proper_call (ThreadError p) w \<longleftrightarrow> is_handle w p"
| "proper_call (Round bus as reset_ok) w \<longleftrightarrow> attempts_ok as \<and> bus_ok w bus"

inductive proper :: "world \<Rightarrow> bool" where
  proper_initial: "proper initial"
| proper_step: "proper w \<Longrightarrow> proper_call c w \<Longrightarrow> exec c w = Some (r, w') \<Longrightarrow> proper w'"

text \<open>The invariant: listed handles are opened ones, and opened ones do not clash.\<close>

definition clash_at :: "world \<Rightarrow> ptr \<Rightarrow> ptr \<Rightarrow> bool" where
  "clash_at w p q \<longleftrightarrow> (\<exists>b x b' y. traits w p = Some (b, x) \<and> traits w q = Some (b', y) \<and> clashes x y)"

definition orderly :: "world \<Rightarrow> bool" where
  "orderly w \<longleftrightarrow> (\<forall>p \<in> set (ActiveDevices w). opened w p) \<and>
     (\<forall>p q. opened w p \<and> opened w q \<and> p \<noteq> q \<longrightarrow> \<not> clash_at w p q)"

lemma clash_sym: "clash_at w p q = clash_at w q p"
  by (auto simp: clash_at_def clashes_def)

lemma is_handle_at: "world_ok w \<Longrightarrow> is_handle w p = handle_at w p"
  using alive_cases [of w p] by (auto simp: is_handle_def handle_at_def device_at_def handle_ok_def device_ok_def)

lemma equal_clash:
  assumes "areEqual w p q"
  shows "clash_at w p q"
proof -
  obtain a b where ab: "phids w p = Some a" "phids w q = Some b" "CPhidget_areEqual a b"
    using assms by (auto simp: on_records_def split: option.splits)
  have "clashes (snd (trait a)) (snd (trait b))"
    using ab(3) by (auto simp: CPhidget_areEqual_def clashes_def trait_def split: if_splits)
  then show ?thesis using ab(1,2) unfolding clash_at_def traits_def by (cases "trait a"; cases "trait b") auto
qed

lemma orderly_same:
  assumes ok: "world_ok w" "world_ok w'" and s: "same_handles w w'" and o: "orderly w"
  shows "orderly w'"
proof -
  have h: "handle_at w' q = handle_at w q" "handle_at w q \<Longrightarrow> traits w' q = traits w q" for q
    using s by (simp_all add: same_handles_def)
  then have "opened w' q = opened w q" for q by (cases "handle_at w q") (simp_all add: opened_def is_handle_at ok)
  moreover have "opened w p \<Longrightarrow> opened w q \<Longrightarrow> clash_at w' p q = clash_at w p q" for p q
    using h by (simp add: clash_at_def opened_def is_handle_at ok)
  moreover have "ActiveDevices w' = ActiveDevices w" using s by (simp add: same_handles_def)
  ultimately show ?thesis using o by (simp add: orderly_def)
qed

lemma orderly_change:
  assumes ok: "world_ok w" "world_ok w'" and k: "others_kept p w w'" and o: "orderly w"
    and l: "set (ActiveDevices w') \<subseteq> insert p (set (ActiveDevices w))" "p \<in> set (ActiveDevices w') \<longrightarrow> opened w' p"
    and c: "\<And>q. opened w' p \<Longrightarrow> q \<noteq> p \<Longrightarrow> opened w q \<Longrightarrow> \<not> clash_at w' p q"
  shows "orderly w'"
proof -
  have h: "handle_at w' q = handle_at w q" "handle_at w q \<Longrightarrow> traits w' q = traits w q" if "q \<noteq> p" for q
    using k that by (simp_all add: others_kept_def)
  then have op: "opened w' q = opened w q" if "q \<noteq> p" for q
    using that by (cases "handle_at w q") (simp_all add: opened_def is_handle_at ok)
  have "\<not> clash_at w' a b" if "opened w' a" "opened w' b" "a \<noteq> b" for a b
  proof -
    consider "a = p" | "b = p" | "a \<noteq> p" "b \<noteq> p" by blast
    then show ?thesis
    proof cases
      case 3
      then have "clash_at w' a b = clash_at w a b"
        using h that op by (simp add: clash_at_def opened_def is_handle_at ok)
      then show ?thesis using 3 that op o by (simp add: orderly_def)
    qed (use that c [of a] c [of b] op clash_sym [of w' a b] in auto)
  qed
  moreover have "opened w' q" if "q \<in> set (ActiveDevices w')" for q
    using that l o op by (cases "q = p") (auto simp: orderly_def)
  ultimately show ?thesis by (simp add: orderly_def)
qed

lemma opens_orderly:
  assumes ok: "world_ok w" "world_ok w'" and p: "is_handle w p" and x: "opens p s w w'" and o: "orderly w" and m: "may_open w p s"
  shows "orderly w'"
proof (rule orderly_change [OF ok _ o])
  obtain b c s0 where t: "traits w p = Some (b, c, s0)" using p by (auto simp: is_handle_def traits_def trait_def)
  then have t': "traits w' p = Some (True, c, s)" using x by (simp add: opens_def)
  show "others_kept p w w'" "set (ActiveDevices w') \<subseteq> insert p (set (ActiveDevices w))" using x by (simp_all add: opens_def)
  show "p \<in> set (ActiveDevices w') \<longrightarrow> opened w' p"
    using t' ok(2) is_handle_at [OF ok(2), of p] by (auto simp: world_ok_def opened_def)
  show "\<not> clash_at w' p q" if "q \<noteq> p" and q: "opened w q" for q
  proof -
    have "traits w' q = traits w q" using x that by (simp add: opens_def others_kept_def opened_def is_handle_at ok)
    moreover obtain y where "traits w q = Some (True, y)" using q by (auto simp: opened_def)
    moreover from this have "\<not> clashes (c, s) y" using m that t unfolding may_open_def by blast
    ultimately show ?thesis using t' by (simp add: clash_at_def)
  qed
qed

text \<open>An opened handle that does not clash with the others leaves the list when it is closed.\<close>

lemma closes_orderly:
  assumes ok: "world_ok w" "world_ok w'" and p: "opened w p" and x: "closes p w w'" and o: "orderly w"
  shows "orderly w'" and "p \<notin> set (ActiveDevices w')"
proof -
  let ?act = "fst (snd (CList_removeFromList (areEqual w) True (ActiveDevices w) p False))"
  have h: "handle_at w p" using p by (simp add: opened_def is_handle_at ok)
  then have nn: "p \<noteq> NULL" using ok by (auto simp: world_ok_def handle_at_def)
  have ne: "\<not> areEqual w p q" if "q \<in> set (ActiveDevices w)" "q \<noteq> p" for q
    using that p o equal_clash [of w p q] by (metis orderly_def)
  have "areEqual w p p" if "p \<in> set (ActiveDevices w)"
    using h handle_self_equal by (auto simp: handle_at_def on_records_def)
  then show np: "p \<notin> set (ActiveDevices w')"
    using ne ok(1) x by (auto simp: closes_def removeFromList_eq [OF nn] world_ok_def split: list.splits if_splits)
  have sub: "set ?act \<subseteq> set (ActiveDevices w)" using removed_list [OF _ nn] ok(1) by (simp add: world_ok_def)
  show "orderly w'"
  proof (rule orderly_change [OF ok _ o])
    show "others_kept p w w'" using x by (simp add: closes_def)
    show "set (ActiveDevices w') \<subseteq> insert p (set (ActiveDevices w))" using x sub by (auto simp: closes_def)
    show "p \<in> set (ActiveDevices w') \<longrightarrow> opened w' p" using np by simp
    show "\<not> clash_at w' p q" if "opened w' p" for q using that x by (auto simp: closes_def opened_def)
  qed
qed

lemma create_delete_orderly:
  assumes ok: "world_ok w" "world_ok (w\<lparr>phids := (phids w)(p := x)\<rparr>)" and o: "orderly w"
    and x: "x = None \<or> (\<exists>phid. x = Some phid \<and> \<not> is_set phid PHIDGET_OPENED_FLAG)" and p: "\<not> opened w p"
  shows "orderly (w\<lparr>phids := (phids w)(p := x)\<rparr>)"
proof (rule orderly_change [OF ok _ o])
  have "p \<notin> set (ActiveDevices w)" using p o by (auto simp: orderly_def)
  then show "p \<in> set (ActiveDevices (w\<lparr>phids := (phids w)(p := x)\<rparr>)) \<longrightarrow> opened (w\<lparr>phids := (phids w)(p := x)\<rparr>) p" by simp
  show "\<not> clash_at (w\<lparr>phids := (phids w)(p := x)\<rparr>) p q" if "opened (w\<lparr>phids := (phids w)(p := x)\<rparr>) p" for q
    using that x by (auto simp: opened_def traits_def trait_def)
qed (auto simp: others_kept_def handle_at_def traits_def)

lemma opened_traits: "world_ok w \<Longrightarrow> handle_at w p \<Longrightarrow> opened w p = (\<exists>x. traits w p = Some (True, x))"
  by (simp add: opened_def is_handle_at)

lemma proper_call_outcome:
  assumes ok: "world_ok w" and o: "orderly w" and c: "proper_call c w"
  shows "call_ok c w \<and> (\<forall>r w'. exec c w = Some (r, w') \<longrightarrow> world_ok w' \<longrightarrow> orderly w')"
proof (cases c)
  case (Create p cls)
  have p: "phids w p = None" using c Create by simp
  then have no: "\<not> opened w p" by (simp add: opened_def is_handle_def)
  have "orderly w'" if e: "create_handle p cls w = Some (r, w')" and w': "world_ok w'" for r w'
  proof (cases "p = NULL")
    case False
    let ?x = "Some (the (snd (CPhidget_create True))\<lparr>deviceID := cls\<rparr>)"
    have "w' = w\<lparr>phids := (phids w)(p := ?x)\<rparr>"
      using e False by (auto simp: create_handle_def CPhidget_create_def)
    then show ?thesis using create_delete_orderly [OF ok _ o _ no, of ?x] w' by (simp add: CPhidget_create_def)
  qed (use e o in \<open>simp add: create_handle_def CPhidget_create_def\<close>)
  then show ?thesis using Create p by simp
next
  case (Open mem created p serial)
  have p: "is_handle w p" "handle_at w p" using c Open is_handle_at [OF ok] by simp_all
  show ?thesis using open_outcome [OF ok p(2), of mem created serial] opens_orderly [OF ok _ p(1) _ o] c Open o p(2)
    by (auto simp: opened_traits [OF ok p(2)] split: if_splits)
next
  case (OpenLabel mem created enc p lab)
  have p: "is_handle w p" "handle_at w p" using c OpenLabel is_handle_at [OF ok] by simp_all
  show ?thesis using openLabel_outcome [OF ok p(2), of lab enc mem created] opens_orderly [OF ok _ p(1) _ o] c OpenLabel o p(2)
    by (auto simp: opened_traits [OF ok p(2)] split: if_splits)
next
  case (Close b mine p)
  have p: "handle_at w p" using c Close is_handle_at [OF ok] by simp
  have "orderly w'" if "CPhidget_close (\<lambda>_ _. None) b mine p w = Some (r, w')" and w': "world_ok w'" for r w'
    using close_outcome [OF ok p, of "\<lambda>_ _. None" b mine] that closes_orderly(1) [OF ok w' _ _ o, of p] o
    by (auto simp: opened_traits [OF ok p] split: if_splits)
  then show ?thesis using Close p by simp
next
  case (Delete p)
  have p: "handle_at w p" "\<not> opened w p" using c Delete is_handle_at [OF ok] by simp_all
  then have "p \<notin> set (ActiveDevices w)" using o by (auto simp: orderly_def)
  moreover have "orderly w'" if "CPhidget_delete p w = Some (r, w')" "world_ok w'" for r w'
    using that create_delete_orderly [OF ok _ o _ p(2), of None] by (auto simp: CPhidget_delete_def split: if_splits)
  ultimately show ?thesis using Delete p by simp
next
  case (MgrCreate m)
  have "same_handles w (snd (CPhidgetManager_create m w))" by (rule phids_same_handles) (simp_all add: CPhidgetManager_create_def)
  then show ?thesis using MgrCreate c orderly_same [OF ok _ _ o] by auto
next
  case (MgrOpen mem created m)
  then show ?thesis using mgr_open_outcome [OF ok, of m mem created] c orderly_same [OF ok _ _ o] by auto
next
  case (MgrClose mine m)
  then show ?thesis using mgr_close_outcome [OF ok, of m mine] c orderly_same [OF ok _ _ o] by auto
next
  case (ThreadError p)
  have h: "handle_at w p" using c ThreadError is_handle_at [OF ok] by simp
  have "touched p w (upd p (set_flag PHIDGET_USB_ERROR_FLAG) w)" by (rule upd_handle [OF h]) (auto simp: handle_ok_def)
  then have "handle_at (upd p (set_flag PHIDGET_USB_ERROR_FLAG) w) p" by (rule touched_handle)
  then have "same_handles w (upd p (set_flag PHIDGET_USB_ERROR_FLAG) w)"
    using h by (auto simp: same_handles_def handle_at_def traits_def phids_upd trait_def)
  then show ?thesis using ThreadError h orderly_same [OF ok _ _ o] by auto
next
  case (Round bus as b)
  then show ?thesis using round_outcome [OF ok, of as bus b] c orderly_same [OF ok _ _ o] by auto
qed

lemma proper_ok: "proper w \<Longrightarrow> world_ok w \<and> orderly w \<and> reachable w"
proof (induction rule: proper.induct)
  case proper_initial
  show ?case using initial_ok reachable_initial by (simp add: orderly_def opened_def is_handle_def initial_def)
next
  case (proper_step w c r w')
  have c: "call_ok c w" and o: "\<forall>r w'. exec c w = Some (r, w') \<longrightarrow> world_ok w' \<longrightarrow> orderly w'"
    using proper_call_outcome [of w c] proper_step by simp_all
  have "world_ok w'" using exec_outcome [OF _ c] proper_step by auto
  then show ?case using o reachable_step [OF _ c] proper_step by blast
qed

lemma proper_run: "proper w \<Longrightarrow> proper_call c w \<Longrightarrow> \<exists>r w'. exec c w = Some (r, w') \<and> proper w'"
  using proper_ok [of w] proper_call_outcome [of w c] exec_outcome [of w c] proper_step by blast

text \<open>C1. A program that keeps to the rules has defined behaviour.  The rules: calls are made on handles and managers that
  exist; a handle is opened only while every other opened handle is of another class, or both are opened with a serial
  number and the numbers differ; a handle is deleted only when it is closed or was never opened; and calls, rounds of the
  central thread and the failures of a handle's threads come one after the other, none while another runs.  Then, as long
  as no product string fails to be read while a handle is attached, every further call and every round, with any other
  outcome of the bus scan and of the attempts to attach (new records in unused blocks, with the identifier of a row of the
  device table and labels of the size of their array; labels to open with of at most 40 bytes), runs to completion without touching freed memory, deleting a handle
  that has just been closed included.\<close>

theorem proper_calls_defined:
  assumes "proper w" and "proper_call c w"
  shows "\<exists>r w'. exec c w = Some (r, w') \<and> proper w'"
  using proper_run [OF assms] .

definition two_serials :: "call list" where
  "two_serials = [Create 4 7, Open True True 4 1234, Create 8 7, Open True True 8 5678, Close True False 8]"

definition closed_world :: world where
  "closed_world = snd (the (run two_serials initial))"

lemma closed_world_proper: "proper closed_world \<and> proper_call (Delete 8) closed_world"
proof -
  obtain w1 where 1: "exec (Create 4 7) initial = Some (EPHIDGET_OK, w1)" by (simp add: demo_defs)
  have r1: "proper w1" using proper_step [OF proper_initial _ 1] by (simp add: initial_def)
  note defs = is_handle_def opened_def may_open_def clashes_def traits_def trait_def run_defs clear_flag_def
  have c2: "proper_call (Open True True 4 1234) w1" using 1 by (auto simp: defs)
  obtain w2 where 2: "exec (Open True True 4 1234) w1 = Some (EPHIDGET_OK, w2)" using 1 by (auto simp: run_defs)
  have r2: "proper w2" by (rule proper_step [OF r1 c2 2])
  have c3: "proper_call (Create 8 7) w2" using 1 2 by (auto simp: run_defs)
  obtain w3 where 3: "exec (Create 8 7) w2 = Some (EPHIDGET_OK, w3)" by (simp add: demo_defs)
  have r3: "proper w3" by (rule proper_step [OF r2 c3 3])
  have c4: "proper_call (Open True True 8 5678) w3" using 1 2 3 by (auto simp: defs split: if_splits)
  obtain w4 where 4: "exec (Open True True 8 5678) w3 = Some (EPHIDGET_OK, w4)" using 1 2 3 by (auto simp: run_defs)
  have r4: "proper w4" by (rule proper_step [OF r3 c4 4])
  have c5: "proper_call (Close True False 8) w4" using 1 2 3 4 by (auto simp: defs)
  obtain w5 where 5: "exec (Close True False 8) w4 = Some (EPHIDGET_OK, w5)" using 1 2 3 4 by (auto simp: run_defs)
  have r5: "proper w5" by (rule proper_step [OF r4 c5 5])
  have "proper_call (Delete 8) w5" using 1 2 3 4 5 by (auto simp: defs)
  moreover have "closed_world = w5" unfolding closed_world_def two_serials_def using 1 2 3 4 5 by simp
  ultimately show ?thesis using r5 by simp
qed

theorem proper_calls_defined_witness: "\<exists>r w'. exec (Delete 8) closed_world = Some (r, w') \<and> proper w'"
  using proper_calls_defined closed_world_proper by blast

text \<open>C2. The hot-plug state of a program that keeps to these rules, between calls: the list of opened handles has no
  duplicates, holds live handles only, all with their opened flag, and no two of them compare equal; a local handle has its
  attached flag exactly when it owns an open USB device, only opened handles are attached, a handle opened for
  any device is in the \<^verbatim>\<open>ANY_ATTACHED\<close> mode exactly while attached, no handle is left in
  an intermediate state, and the attached devices are live, marked attached and pairwise different.\<close>

theorem proper_invariant:
  assumes "proper w"
  shows "distinct (ActiveDevices w) \<and>
    (\<forall>p \<in> set (ActiveDevices w). \<exists>phid. phids w p = Some phid \<and> CPhidgetFHandle phid = None \<and> is_set phid PHIDGET_OPENED_FLAG) \<and>
    (\<forall>p \<in> set (ActiveDevices w). \<forall>q \<in> set (ActiveDevices w). p \<noteq> q \<longrightarrow> \<not> areEqual w p q) \<and>
    (\<forall>p phid. phids w p = Some phid \<and> CPhidgetFHandle phid = None \<longrightarrow>
      (is_set phid PHIDGET_ATTACHED_FLAG \<longleftrightarrow> deviceHandle phid) \<and>
      (is_set phid PHIDGET_ATTACHED_FLAG \<longrightarrow> is_set phid PHIDGET_OPENED_FLAG \<and> specificDevice phid \<noteq> PHIDGETOPEN_ANY) \<and>
      (specificDevice phid = PHIDGETOPEN_ANY_ATTACHED \<longrightarrow> is_set phid PHIDGET_ATTACHED_FLAG) \<and>
      \<not> is_set phid PHIDGET_ATTACHING_FLAG \<and> \<not> is_set phid PHIDGET_DETACHING_FLAG) \<and>
    (\<forall>d \<in> set (AttachedDevices w). \<exists>dev. phids w d = Some dev \<and> CPhidgetFHandle dev \<noteq> None \<and> is_set dev PHIDGET_ATTACHED_FLAG) \<and>
    (\<forall>i < length (AttachedDevices w). \<forall>j < length (AttachedDevices w). i \<noteq> j \<longrightarrow>
      \<not> areEqual w (AttachedDevices w ! i) (AttachedDevices w ! j))"
proof -
  have ok: "world_ok w" and o: "orderly w" using proper_ok [OF assms] by simp_all
  have "distinct (ActiveDevices w)" using ok by (simp add: world_ok_def)
  moreover have "\<forall>p \<in> set (ActiveDevices w). \<exists>phid. phids w p = Some phid \<and> CPhidgetFHandle phid = None \<and> is_set phid PHIDGET_OPENED_FLAG"
    using o by (auto simp: orderly_def opened_def is_handle_def traits_def trait_def)
  moreover have "\<forall>p \<in> set (ActiveDevices w). \<forall>q \<in> set (ActiveDevices w). p \<noteq> q \<longrightarrow> \<not> areEqual w p q"
    using o equal_clash by (metis orderly_def)
  ultimately show ?thesis using reachable_state [OF ok] by blast
qed

theorem proper_invariant_witness: "distinct (ActiveDevices closed_world) \<and> 8 \<notin> set (ActiveDevices closed_world) \<and> closed_world \<noteq> initial"
proof -
  have "8 \<notin> set (ActiveDevices closed_world) \<and> phids closed_world 8 \<noteq> None"
    by (simp add: closed_world_def two_serials_def run_defs)
  moreover have "closed_world \<noteq> initial" using calculation by (cases "closed_world = initial") (simp_all add: initial_def)
  moreover note proper_invariant [OF conjunct1 [OF closed_world_proper]]
  ultimately show ?thesis by blast
qed


text \<open>C19. The poll makes the list of attached devices agree with the bus: after it every
  listed device is one that the scan found, and unless a thread of an opened handle has
  reported a USB error the list is the old one without the devices that the scan did not
  find, followed by the newly found ones.  This is for a poll during which no call is made and no
  product string fails to be read while a handle is attached.\<close>

theorem poll_tracks_bus:
  assumes "reachable w" and "attempts_ok as" and "bus_ok w bus"
  shows "\<exists>cur w1 as' w'. CUSBBuildList bus (sendInitialEvents w) = Some (cur, w1) \<and>
    CPhidgetManager_poll bus as b w = Some (as', w') \<and>
    (\<forall>d \<in> set (AttachedDevices w'). \<exists>c \<in> set cur. areExtraEqual w1 d c) \<and>
    ((\<forall>p \<in> set (ActiveDevices w). \<not> has_error w p) \<longrightarrow>
      AttachedDevices w' = filter (\<lambda>d. \<exists>c \<in> set cur. areExtraEqual w1 d c) (AttachedDevices w) @
        filter (\<lambda>c. \<forall>d \<in> set (AttachedDevices w). \<not> areExtraEqual w1 c d) cur)"
  using poll_outcome [OF reachable_ok [OF assms(1)] assms(2,3), of b] unfolding error_free_def by blast

theorem poll_tracks_bus_witness:
  "\<exists>as' w'. CPhidgetManager_poll (Some [([49], [Found 12 demo_device])]) [] True initial = Some (as', w') \<and>
    AttachedDevices w' = [12]"
proof -
  let ?bus = "Some [([49 :: u8], [Found 12 demo_device])]"
  have "attempts_ok []" "bus_ok initial ?bus"
    by (simp_all add: attempts_ok_def bus_ok_def bus_ptrs_def probe_ok_def demo_device_def initial_def NULL_def MAX_LABEL_STORAGE_def)
  from poll_tracks_bus [OF reachable_initial this, of True] obtain cur w1 as' w' where
    *: "CUSBBuildList ?bus (sendInitialEvents initial) = Some (cur, w1)"
      "CPhidgetManager_poll ?bus [] True initial = Some (as', w')" "AttachedDevices w' = cur"
    by (auto simp: initial_def)
  have "cur = [12]" using *(1)
    by (simp add: CUSBBuildList_def sendInitialEvents_def add_phid_def live_def CList_addToList_def CList_findInList_def NULL_def initial_def)
  with * show ?thesis by blast
qed


text \<open>A handle for any device of class 7, and such a device plugged in.\<close>

definition demo_calls :: "call list" where
  "demo_calls = [Create 4 7, Open True True 4 (- 1), Round (Some [([49], [Found 12 demo_device])]) [] True]"

definition demo_world :: world where
  "demo_world = snd (the (run demo_calls initial))"

definition demo_attempt :: attempt where
  "demo_attempt = \<lparr>at_freed = False, at_open = EPHIDGET_OK, at_spec = 69, at_uid = 0, at_version = 300, at_label = replicate 41 0,
     at_iid = 0, at_in = 8, at_out = 8, at_init = EPHIDGET_OK, at_write_thread = True, at_read_thread = True, at_reset_ok = True\<rparr>"

lemma demo_reachable: "reachable demo_world"
proof -
  let ?c1 = "Create 4 7" and ?c2 = "Open True True 4 (- 1)"
  let ?c3 = "Round (Some [([49], [Found 12 demo_device])]) [] True"
  obtain w1 where 1: "exec ?c1 initial = Some (EPHIDGET_OK, w1)" by (simp add: demo_defs)
  have r1: "reachable w1" using reachable_step [OF reachable_initial _ 1] by (simp add: initial_def)
  have h1: "handle_at w1 4" using 1
    by (auto simp: demo_defs handle_at_def handle_ok_def clear_flag_def MAX_LABEL_STORAGE_def)
  obtain w2 where 2: "exec ?c2 w1 = Some (EPHIDGET_OK, w2)" using 1 by (auto simp: run_defs)
  have r2: "reachable w2" using reachable_step [OF r1 _ 2] h1 by simp
  have "bus_ok w2 (Some [([49], [Found 12 demo_device])])" using 1 2
    by (auto simp: run_defs bus_ok_def bus_ptrs_def probe_ok_def MAX_LABEL_STORAGE_def)
  then have c3: "call_ok ?c3 w2" by (simp add: attempts_ok_def)
  from call_reachable [OF r2 this] obtain r w3 where 3: "exec ?c3 w2 = Some (r, w3)" "reachable w3" by blast
  have "demo_world = w3" unfolding demo_world_def demo_calls_def using 1 2 3(1) by simp
  with 3(2) show ?thesis by simp
qed

lemma demo_world_lists: "AttachedDevices demo_world = [12]" "ActiveDevices demo_world = [4]" "candidates demo_world 12 = [4]"
  by (simp_all add: demo_world_def demo_calls_def run_defs candidates_def)

text \<open>C20. Which handle gets a plugged-in device, when no call is made meanwhile and none of the attempts fails to
  read a product string (which frees the handle): the unattached opened handles of its class
  that ask for this serial number or label are tried before those that take any device, in
  the order in which they were opened, until one attaches.  The result is OK exactly when
  one did; then every candidate before it is unattached, every one behind it untouched and
  it has the device's serial number; all other handles and device records are untouched.\<close>

theorem attach_first_match:
  assumes "reachable w" and "attempts_ok as" and "d \<in> set (AttachedDevices w)"
  shows "\<exists>r as' w' ps. findActiveDevice as d w = Some (r, as', w') \<and>
    ps = filter (\<lambda>p. on_records specific_match w p d) (ActiveDevices w) @
      filter (\<lambda>p. on_records any_match w p d) (ActiveDevices w) \<and>
    (\<forall>q. q \<notin> set ps \<longrightarrow> phids w' q = phids w q) \<and>
    (if r = EPHIDGET_OK then \<exists>us p vs. ps = us @ p # vs \<and> attached w' p \<and> (\<forall>q \<in> set us. \<not> attached w' q) \<and>
        (\<forall>q \<in> set vs. phids w' q = phids w q) \<and>
        map_option serialNumber (phids w' p) = map_option serialNumber (phids w d)
     else \<forall>q \<in> set ps. \<not> attached w' q)"
proof -
  have ok: "world_ok w" by (rule reachable_ok [OF assms(1)])
  obtain r as' w' where 1: "findActiveDevice as d w = Some (r, as', w')" "tried (candidates w d) d w r w'"
    using findActiveDevice_outcome [OF ok assms(2) attached_device [OF ok assms(3)]] by blast
  note t = 1(2) [unfolded tried_def]
  show ?thesis
  proof (intro exI conjI)
    show "candidates w d = filter (\<lambda>p. on_records specific_match w p d) (ActiveDevices w) @
      filter (\<lambda>p. on_records any_match w p d) (ActiveDevices w)" by (rule candidates_def)
    show "findActiveDevice as d w = Some (r, as', w')" by (rule 1(1))
    show "\<forall>q. q \<notin> set (candidates w d) \<longrightarrow> phids w' q = phids w q" using t by (elim conjE)
    show "if r = EPHIDGET_OK then \<exists>us p vs. candidates w d = us @ p # vs \<and> attached w' p \<and> (\<forall>q \<in> set us. \<not> attached w' q) \<and>
        (\<forall>q \<in> set vs. phids w' q = phids w q) \<and>
        map_option serialNumber (phids w' p) = map_option serialNumber (phids w d)
     else \<forall>q \<in> set (candidates w d). \<not> attached w' q"
      using t by (cases "r = EPHIDGET_OK") (simp_all, blast)
  qed
qed

theorem attach_first_match_witness:
  "\<exists>r as' w'. findActiveDevice [demo_attempt] 12 demo_world = Some (r, as', w') \<and> phids w' 12 = phids demo_world 12"
proof -
  have "attempts_ok [demo_attempt]" by (simp add: attempts_ok_def demo_attempt_def MAX_LABEL_STORAGE_def)
  from attach_first_match [OF demo_reachable this, of 12] demo_world_lists show ?thesis
    by (auto simp: candidates_def)
qed

text \<open>The failure that these statements exclude: when the product string of a device of the handle's class cannot be
  read, \<^verbatim>\<open>CUSBOpenHandle\<close> frees the program's handle, which is still listed, and
  \<^verbatim>\<open>attachActiveDevice\<close> reads it; so the candidate that is tried first makes the search for the
  handle of a device undefined.\<close>

theorem product_string_failure:
  assumes "reachable w" and "d \<in> set (AttachedDevices w)" and "candidates w d = p # ps" and "opened w p" and "at_freed a"
  shows "findActiveDevice (a # as) d w = None"
proof -
  have ok: "world_ok w" by (rule reachable_ok [OF assms(1)])
  obtain phid dev where "phids w p = Some phid" "is_set phid PHIDGET_OPENED_FLAG" "phids w d = Some dev"
    using assms(4) attached_device [OF ok assms(2)] by (auto simp: opened_def traits_def trait_def device_at_def)
  then have "attachActiveDevice a p d w = None" using assms(5) by (simp add: attachActiveDevice_def upd_eq)
  then show ?thesis using findActiveDevice_eq [OF ok, of d] \<open>phids w d = Some dev\<close> assms(3) by simp
qed

theorem product_string_failure_witness:
  "findActiveDevice [demo_attempt\<lparr>at_freed := True\<rparr>] 12 demo_world = None"
proof -
  have "opened demo_world 4"
    by (simp add: demo_world_def demo_calls_def run_defs opened_def is_handle_def traits_def trait_def clear_flag_def)
  from product_string_failure [OF demo_reachable _ demo_world_lists(3) this] show ?thesis by (simp add: demo_world_lists(1))
qed

text \<open>C34. Unplugging: the device record leaves the list and is freed, and exactly one handle
  changes, the opened one that is attached to a device with the same class, identifier and
  serial number; it loses its attached flag.  When there is none, no handle changes.\<close>

theorem detach_closes_its_handle:
  assumes "reachable w" and "d \<in> set (AttachedDevices w)"
  shows "\<exists>r w' t. CPhidgetDetachEvent b d w = Some (r, w') \<and> ActiveDevices w' = ActiveDevices w \<and>
    AttachedDevices w' = filter (\<lambda>x. x \<noteq> d) (AttachedDevices w) \<and> phids w' d = None \<and>
    (\<forall>q. q \<noteq> d \<and> t \<noteq> Some q \<longrightarrow> phids w' q = phids w q) \<and>
    (\<forall>p. t = Some p \<longrightarrow> p \<in> set (ActiveDevices w) \<and> attached w p \<and> areExtraEqual w d p \<and> \<not> attached w' p) \<and>
    (t = None \<longrightarrow> (\<forall>p \<in> set (ActiveDevices w). attached w p \<longrightarrow> \<not> areExtraEqual w d p))"
proof -
  have ok: "world_ok w" by (rule reachable_ok [OF assms(1)])
  obtain r w' t where 1: "CPhidgetDetachEvent b d w = Some (r, w')" "detached d w w'"
    "(\<forall>q. q \<noteq> d \<and> t \<noteq> Some q \<longrightarrow> phids w' q = phids w q) \<and>
    (\<forall>p. t = Some p \<longrightarrow> p \<in> set (ActiveDevices w) \<and> attached w p \<and> areExtraEqual w d p \<and> \<not> attached w' p) \<and>
    (t = None \<longrightarrow> (\<forall>p \<in> set (ActiveDevices w). attached w p \<longrightarrow> \<not> areExtraEqual w d p))"
    using detach_event_outcome [OF ok attached_device [OF ok assms(2)], of b] by blast
  show ?thesis
    by (intro exI [of _ r] exI [of _ w'] exI [of _ t] conjI)
      (use 1 filter_attached [OF ok assms(2)] in \<open>simp_all add: detached_def\<close>)
qed

theorem detach_closes_its_handle_witness:
  "\<exists>r w'. CPhidgetDetachEvent True 12 demo_world = Some (r, w') \<and> AttachedDevices w' = [] \<and> ActiveDevices w' = [4]"
proof -
  have "12 \<in> set (AttachedDevices demo_world)" by (simp add: demo_world_lists)
  from detach_closes_its_handle [OF demo_reachable this, of True] show ?thesis by (auto simp: demo_world_lists)
qed


text \<open>C35. Closing a handle can take another one out of the list of opened handles: with two
  unattached handles of a class that were opened for any device, closing the second leaves
  the second in the list and drops the first, which stays open but is never attached.  When
  the closed handle is then deleted, the next device that is plugged in makes the library
  read the freed handle.\<close>

theorem close_unlists_other_handle:
  assumes "reachable w" and "ActiveDevices w = [p, q]" and "phids w p = Some a" and "phids w q = Some b"
    and "specificDevice a = PHIDGETOPEN_ANY" and "specificDevice b = PHIDGETOPEN_ANY"
    and "deviceID a = deviceID b" and "deviceIDSpec b = 0" and "is_set b PHIDGET_OPENED_FLAG"
  shows "\<exists>w'. CPhidget_close remote reset_ok mine q w = Some (EPHIDGET_OK, w') \<and> ActiveDevices w' = [q] \<and>
    (\<forall>as d. (\<exists>dev. phids w d = Some dev) \<and> d \<noteq> q \<longrightarrow>
      (\<exists>w'' r. CPhidget_delete q w' = Some (r, w'') \<and> findActiveDevice as d w'' = None))"
proof -
  have ok: "world_ok w" by (rule reachable_ok [OF assms(1)])
  have hb: "handle_ok b" and pq: "p \<noteq> q" and nn: "q \<noteq> NULL"
    using ok assms(2,4) by (auto simp: world_ok_def handle_at_def)
  have un: "\<not> is_set b PHIDGET_ATTACHED_FLAG" using hb assms(6) by (auto simp: handle_ok_def)
  have eq: "areEqual w q p" using assms(3-8) by (simp add: on_records_def CPhidget_areEqual_def)
  then have rem: "remove_phid CPhidget_areEqual w [p, q] q = Some [q]"
    using assms(3,4) nn by (simp add: remove_phid_def live_def CList_removeFromList_def)
  let ?w' = "upd q (clear_flag PHIDGET_OPENED_FLAG) (upd q restore_any (w\<lparr>ActiveDevices := [q]\<rparr>))"
  have "CPhidget_close remote reset_ok mine q w = Some (EPHIDGET_OK, ?w')"
    using assms(2,4,9) rem un hb by (simp add: CPhidget_close_def close_local_def handle_ok_def)
  moreover have "ActiveDevices ?w' = [q]" by simp
  moreover have "\<exists>w'' r. CPhidget_delete q ?w' = Some (r, w'') \<and> findActiveDevice as d w'' = None" for as d
    using assms(4) by (simp add: CPhidget_delete_def phids_upd findActiveDevice_def live_def)
  ultimately show ?thesis by blast
qed

definition two_handles :: world where
  "two_handles = snd (the (run [Create 4 7, Open True True 4 (- 1), Create 8 7, Open True True 8 (- 1)] initial))"

lemma two_handles_reachable: "reachable two_handles"
proof -
  obtain w1 where 1: "exec (Create 4 7) initial = Some (EPHIDGET_OK, w1)" by (simp add: demo_defs)
  have r1: "reachable w1" using reachable_step [OF reachable_initial _ 1] by (simp add: initial_def)
  have "handle_at w1 4" using 1 by (auto simp: demo_defs handle_at_def handle_ok_def clear_flag_def MAX_LABEL_STORAGE_def)
  then have c2: "call_ok (Open True True 4 (- 1)) w1" by simp
  obtain w2 where 2: "exec (Open True True 4 (- 1)) w1 = Some (EPHIDGET_OK, w2)" using 1 by (auto simp: run_defs)
  have r2: "reachable w2" by (rule reachable_step [OF r1 c2 2])
  have c3: "call_ok (Create 8 7) w2" using 1 2 by (auto simp: run_defs)
  obtain w3 where 3: "exec (Create 8 7) w2 = Some (EPHIDGET_OK, w3)" by (simp add: demo_defs)
  have r3: "reachable w3" by (rule reachable_step [OF r2 c3 3])
  have "handle_at w3 8" using 3 by (auto simp: demo_defs handle_at_def handle_ok_def clear_flag_def MAX_LABEL_STORAGE_def)
  then have c4: "call_ok (Open True True 8 (- 1)) w3" by simp
  from call_reachable [OF r3 this] obtain r w4 where 4: "exec (Open True True 8 (- 1)) w3 = Some (r, w4)" "reachable w4" by blast
  have "two_handles = w4" unfolding two_handles_def using 1 2 3 4(1) by simp
  with 4(2) show ?thesis by simp
qed

theorem close_unlists_other_handle_witness:
  "\<exists>w'. CPhidget_close (\<lambda>_ _. None) True False 8 two_handles = Some (EPHIDGET_OK, w') \<and> ActiveDevices w' = [8]"
proof -
  obtain a b where "ActiveDevices two_handles = [4, 8]" "phids two_handles 4 = Some a" "phids two_handles 8 = Some b"
    "specificDevice a = PHIDGETOPEN_ANY" "specificDevice b = PHIDGETOPEN_ANY" "deviceID a = deviceID b"
    "deviceIDSpec b = 0" "is_set b PHIDGET_OPENED_FLAG"
    by (simp add: two_handles_def run_defs)
  from close_unlists_other_handle [OF two_handles_reachable this] show ?thesis by blast
qed

text \<open>A USB error of an attached handle goes unnoticed while an unattached handle of the
  same class, opened before it for any device, is waiting: the poll looks at the first
  handle that compares equal only, so the device is not cycled through a detach.\<close>

theorem usb_error_masked:
  assumes "reachable w" and "ActiveDevices w = p # ps" and "d \<in> set (AttachedDevices w)"
    and "phids w p = Some a" and "phids w d = Some dev" and "specificDevice a = PHIDGETOPEN_ANY"
    and "deviceID a = deviceID dev" and "deviceIDSpec a = 0"
  shows "cycle_errors cur d gone w = Some gone"
proof -
  have ok: "world_ok w" by (rule reachable_ok [OF assms(1)])
  have "handle_ok a" using ok assms(2,4) by (auto simp: world_ok_def handle_at_def)
  then have un: "\<not> is_set a PHIDGET_ATTACHED_FLAG" using assms(6) by (auto simp: handle_ok_def)
  have nn: "d \<noteq> NULL" using device_at_not_NULL [OF ok attached_device [OF ok assms(3)]] .
  have eq: "areEqual w d p" using assms(4-8) by (simp add: on_records_def CPhidget_areEqual_def)
  then have "find_phid CPhidget_areEqual w (ActiveDevices w) d = Some (EPHIDGET_OK, Some p)"
    using nn assms(2,4,5) by (simp add: find_phid_def live_def CList_findInList_def)
  then show ?thesis using assms(4) un by (simp add: cycle_errors_def)
qed

theorem usb_error_masked_witness: "cycle_errors [12] 12 [] demo_world = Some []"
proof -
  obtain a dev where "ActiveDevices demo_world = 4 # []" "12 \<in> set (AttachedDevices demo_world)"
    "phids demo_world 4 = Some a" "phids demo_world 12 = Some dev" "specificDevice a = PHIDGETOPEN_ANY"
    "deviceID a = deviceID dev" "deviceIDSpec a = 0"
    by (simp add: demo_world_lists) (simp add: demo_world_def demo_calls_def run_defs)
  from usb_error_masked [OF demo_reachable this] show ?thesis .
qed

text \<open>Opening a handle with the serial number of an opened one fails, but the handle is
  marked as opened: a second attempt reports success although the handle is not listed and
  will never be attached.\<close>

theorem failed_open_sticks:
  assumes "reachable w" and "handle_at w p" and "p \<notin> set (ActiveDevices w)" and "phids w p = Some a"
    and "\<not> is_set a PHIDGET_OPENED_FLAG" and "q \<in> set (ActiveDevices w)" and "phids w q = Some b"
    and "specificDevice b = PHIDGETOPEN_SERIAL" and "serialNumber b = n" and "n \<noteq> - 1" and "n \<ge> 0"
    and "deviceID b = deviceID a" and "deviceIDSpec a = 0"
  shows "\<exists>w'. CPhidget_open mem created p n w = Some (EPHIDGET_DUPLICATE, w') \<and> ActiveDevices w' = ActiveDevices w \<and>
    CPhidget_open mem created p n w' = Some (EPHIDGET_OK, w')"
proof -
  have ok: "world_ok w" by (rule reachable_ok [OF assms(1)])
  let ?a = "a\<lparr>specificDevice := PHIDGETOPEN_SERIAL, serialNumber := n\<rparr>"
  let ?w1 = "upd p (\<lambda>phid. phid\<lparr>specificDevice := if n = - 1 then PHIDGETOPEN_ANY else PHIDGETOPEN_SERIAL, serialNumber := n\<rparr>) w"
  have w1: "phids ?w1 = (phids w)(p \<mapsto> ?a)" using assms(4,10) by (simp add: phids_upd)
  have pq: "q \<noteq> p" and nn: "p \<noteq> NULL" using assms(3,4,6) ok by (auto simp: world_ok_def)
  have eq: "areEqual ?w1 p q" using assms(7-13) pq unfolding on_records_def w1 by (simp add: CPhidget_areEqual_def)
  have live: "live ?w1 (ActiveDevices w)" using live_active [OF ok] unfolding live_def w1 by (simp add: list_all_iff)
  have "add_phid mem CPhidget_areEqual ?w1 (ActiveDevices w) p = Some (EPHIDGET_DUPLICATE, ActiveDevices w)"
    using add_phid_live [OF _ live, of p mem CPhidget_areEqual] w1 eq assms(6) nn
      findInList_code [of "areEqual ?w1" "ActiveDevices w" p]
    by (auto simp: CList_addToList_def)
  then have reg: "RegisterLocalDevice mem created p ?w1 = Some (EPHIDGET_DUPLICATE, ?w1)"
    using w1 by (simp add: RegisterLocalDevice_def)
  let ?w' = "upd p (set_flag PHIDGET_OPENED_FLAG) ?w1"
  have "CPhidget_open mem created p n w = Some (EPHIDGET_DUPLICATE, ?w')"
    using assms(4,5,11) reg unfolding CPhidget_open_def by simp
  moreover have "phids ?w' p = Some (set_flag PHIDGET_OPENED_FLAG ?a)" unfolding phids_upd [of _ _ ?w1] w1 by simp
  then have "CPhidget_open mem created p n ?w' = Some (EPHIDGET_OK, ?w')"
    using assms(11) unfolding CPhidget_open_def by simp
  moreover have "ActiveDevices ?w' = ActiveDevices w" by simp
  ultimately show ?thesis by blast
qed


definition serial_and_new :: world where
  "serial_and_new = snd (the (run [Create 4 7, Open True True 4 1234, Create 8 7] initial))"

theorem failed_open_sticks_witness:
  "\<exists>w'. CPhidget_open True True 8 1234 serial_and_new = Some (EPHIDGET_DUPLICATE, w') \<and>
    CPhidget_open True True 8 1234 w' = Some (EPHIDGET_OK, w')"
proof -
  obtain w1 where 1: "exec (Create 4 7) initial = Some (EPHIDGET_OK, w1)" by (simp add: demo_defs)
  have r1: "reachable w1" using reachable_step [OF reachable_initial _ 1] by (simp add: initial_def)
  have "handle_at w1 4" using 1 by (auto simp: demo_defs handle_at_def handle_ok_def clear_flag_def MAX_LABEL_STORAGE_def)
  then have c2: "call_ok (Open True True 4 1234) w1" by simp
  obtain w2 where 2: "exec (Open True True 4 1234) w1 = Some (EPHIDGET_OK, w2)" using 1 by (auto simp: run_defs)
  have r2: "reachable w2" by (rule reachable_step [OF r1 c2 2])
  have c3: "call_ok (Create 8 7) w2" using 1 2 by (auto simp: run_defs)
  obtain w3 where 3: "exec (Create 8 7) w2 = Some (EPHIDGET_OK, w3)" by (simp add: demo_defs)
  have r3: "reachable w3" by (rule reachable_step [OF r2 c3 3])
  have h: "handle_at w3 8" using 3 by (auto simp: demo_defs handle_at_def handle_ok_def clear_flag_def MAX_LABEL_STORAGE_def)
  have w3: "serial_and_new = w3" unfolding serial_and_new_def using 1 2 3 by simp
  obtain a b where "8 \<notin> set (ActiveDevices w3)" "phids w3 8 = Some a" "\<not> is_set a PHIDGET_OPENED_FLAG" "4 \<in> set (ActiveDevices w3)"
    "phids w3 4 = Some b" "specificDevice b = PHIDGETOPEN_SERIAL" "serialNumber b = 1234" "(1234 :: int) \<noteq> - 1" "(1234 :: int) \<ge> 0"
    "deviceID b = deviceID a" "deviceIDSpec a = 0"
    unfolding w3 [symmetric] by (simp add: serial_and_new_def run_defs)
  from failed_open_sticks [OF r3 h this, of True True] show ?thesis unfolding w3 by blast
qed

end
