(* ===== verification/Gpp.thy ===== *)
theory Gpp
  imports Handle
begin

text \<open>
  Packets of the newer devices, the general packet protocol (\<^verbatim>\<open>cphidget.c\<close>): reading
  and dispatching one packet, configuration tables and firmware images cut into packets,
  commands, and the calibration commands of the older devices.  The outcome of the
  transfer, and of the allocation, after \<open>k\<close> packets is \<open>out k\<close> and \<open>mem k\<close>; the packets
  handed to libusb are logged.  Responses that the read thread takes in meanwhile are an argument too.
\<close>

subsection \<open>Constants\<close>

definition GENERAL_PACKET_FLAG :: u8 where "GENERAL_PACKET_FLAG = 0x80"
definition GENERAL_PACKET_FAIL :: u8 where "GENERAL_PACKET_FAIL = 0x40"

datatype packet_type =
    IGNORE | REBOOT_FIRMWARE_UPGRADE | REBOOT_ISP | CONTINUATION | ZERO_CONFIG | WRITE_FLASH
  | FIRMWARE_UPGRADE_WRITE_SECTOR | SET_DS_TABLE | SET_DW_TABLE | FIRMWARE_UPGRADE_ERASE | ERASE_CONFIG

fun packet_code :: "packet_type \<Rightarrow> u8" where
  "packet_code IGNORE = 0x00"
| "packet_code REBOOT_FIRMWARE_UPGRADE = 0x01"
| "packet_code REBOOT_ISP = 0x02"
| "packet_code CONTINUATION = 0x03"
| "packet_code ZERO_CONFIG = 0x04"
| "packet_code WRITE_FLASH = 0x05"
| "packet_code FIRMWARE_UPGRADE_WRITE_SECTOR = 0x06"
| "packet_code SET_DS_TABLE = 0x07"
| "packet_code SET_DW_TABLE = 0x08"
| "packet_code FIRMWARE_UPGRADE_ERASE = 0x09"
| "packet_code ERASE_CONFIG = 0x0A"

text \<open>The devices of \<^verbatim>\<open>deviceSupportsGeneralUSBProtocol\<close>: LED 64 advanced M3 (41), RFID
  read-write (50), the spatials 1041, 1043, 1042 and 1044 (58, 59, 62, 63), generic (80)
  and firmware upgrade (81).\<close>

definition deviceSupportsGeneralUSBProtocol :: "cphidget \<Rightarrow> bool" where
  "deviceSupportsGeneralUSBProtocol phid \<longleftrightarrow> deviceUID phid \<in> {58, 59, 62, 63, 41, 50, 81, 80}"

subsection \<open>Sending and receiving\<close>

text \<open>\<^verbatim>\<open>CUSBSendPacket\<close> with its buffer: the report length is read from it.\<close>

definition send_packet ::
    "(nat \<Rightarrow> usb_ret) \<Rightarrow> cphidget \<Rightarrow> u8 list \<Rightarrow> u8 list list \<Rightarrow> (ephidget \<times> u8 list list) option" where
  "send_packet out phid buf log =
     (if (is_set phid PHIDGET_ATTACHED_FLAG \<or> is_set phid PHIDGET_ATTACHING_FLAG) \<and> deviceHandle phid
      then if length buf < outputReportByteLength phid then None
           else Some (CUSBSendPacket phid (out (length log)), log @ [take (outputReportByteLength phid) buf])
      else Some (CUSBSendPacket phid (out (length log)), log))"

definition CPhidgetGPP_dataInput :: "cphidget \<Rightarrow> u8 list \<Rightarrow> (ephidget \<times> cphidget) option" where
  "CPhidgetGPP_dataInput phid buffer = do {
     b \<leftarrow> cread buffer 0;
     Some (EPHIDGET_OK, if b AND 0x3f \<noteq> 0 then phid\<lparr>GPPResponse := b\<rparr> else phid) }"

text \<open>The read thread runs beside a command.  The first bytes of the general packets that it takes in: before the wait
  for a response, from one look of the loop to the next (one list for each sleep of 20 ms), from the last look of the loop to the
  look at the code, and from there to the look at the failure flag.\<close>

record traffic =
  arrived_before :: "u8 list"
  arrived_asleep :: "u8 list list"
  arrived_next :: "u8 list"
  arrived_last :: "u8 list"

definition take_responses :: "u8 list \<Rightarrow> cphidget \<Rightarrow> cphidget" where
  "take_responses = fold (\<lambda>b phid. if b AND 0x3f \<noteq> 0 then phid\<lparr>GPPResponse := b\<rparr> else phid)"

text \<open>The loop of \<^verbatim>\<open>GPP_getResponse\<close>.\<close>

function GPP_wait :: "cphidget \<Rightarrow> packet_type \<Rightarrow> int \<Rightarrow> u8 list list \<Rightarrow> cphidget" where
  "GPP_wait phid ty timeout arrivals =
     (if GPPResponse phid AND 0x3f \<noteq> packet_code ty \<and> timeout > 0
      then GPP_wait (take_responses (case arrivals of [] \<Rightarrow> [] | bs # _ \<Rightarrow> bs) phid) ty (timeout - 20) (tl arrivals)
      else phid)"
  by pat_completeness auto
termination
  by (relation "measure (\<lambda>(phid, ty, timeout, arrivals). nat timeout)") auto

declare GPP_wait.simps [simp del]

definition GPP_getResponse :: "cphidget \<Rightarrow> packet_type \<Rightarrow> int \<Rightarrow> traffic \<Rightarrow> ephidget \<times> cphidget" where
  "GPP_getResponse phid ty timeout tr =
     (let phid = take_responses (arrived_next tr) (GPP_wait phid ty timeout (arrived_asleep tr)) in
      if GPPResponse phid AND 0x3f \<noteq> packet_code ty then (EPHIDGET_TIMEOUT, phid)
      else let phid = take_responses (arrived_last tr) phid in
        (if GPPResponse phid AND GENERAL_PACKET_FAIL \<noteq> 0 then EPHIDGET_UNEXPECTED else EPHIDGET_OK, phid))"

text \<open>\<^verbatim>\<open>CPhidget_read\<close>: \<open>buf\<close> is \<^verbatim>\<open>lastReadPacket\<close> after the transfer,
  \<open>on_data\<close> the device class's handler, if there is one.\<close>

definition CPhidget_read ::
    "(cphidget \<Rightarrow> u8 list \<Rightarrow> ephidget \<times> cphidget) option \<Rightarrow> cphidget \<Rightarrow> usb_ret \<Rightarrow> u8 list \<Rightarrow> (ephidget \<times> cphidget) option" where
  "CPhidget_read on_data phid ret buf =
     (if is_set phid PHIDGET_ATTACHED_FLAG \<or> is_set phid PHIDGET_ATTACHING_FLAG then
        case CUSBReadPacket phid ret of (result, phid) \<Rightarrow>
          if result \<noteq> EPHIDGET_OK then Some (result, phid)
          else do {
            b \<leftarrow> cread buf 0;
            if b AND GENERAL_PACKET_FLAG \<noteq> 0 \<and> deviceSupportsGeneralUSBProtocol phid
            then CPhidgetGPP_dataInput phid buf
            else Some (case on_data of Some f \<Rightarrow> f phid buf | None \<Rightarrow> (EPHIDGET_OK, phid)) }
      else Some (EPHIDGET_NOTATTACHED, phid))"

text \<open>\<^verbatim>\<open>CPhidget_write\<close>: \<open>get_packet\<close> is the device class's function that fills
  the zeroed buffer.\<close>

definition MAX_OUT_PACKET_SIZE :: nat where "MAX_OUT_PACKET_SIZE = 64"

definition CPhidget_write ::
    "(cphidget \<Rightarrow> u8 list \<Rightarrow> ephidget \<times> u8 list \<times> cphidget) \<Rightarrow> (nat \<Rightarrow> usb_ret) \<Rightarrow> cphidget \<Rightarrow> u8 list list \<Rightarrow>
       (ephidget \<times> cphidget \<times> u8 list list) option" where
  "CPhidget_write get_packet out phid log =
     (case get_packet phid (replicate MAX_OUT_PACKET_SIZE 0) of (result, buffer, phid) \<Rightarrow>
        if result \<noteq> EPHIDGET_OK then Some (result, phid, log)
        else do { (result, log) \<leftarrow> send_packet out phid buffer log; Some (result, phid, log) })"

subsection \<open>Configuration tables\<close>

text \<open>The copying loop: \<open>n\<close> is the report length, \<open>len\<close> the end of the data to be
  sent; it returns the data index and the buffer.\<close>

function gpp_fill :: "nat \<Rightarrow> nat \<Rightarrow> u8 list \<Rightarrow> nat \<Rightarrow> nat \<Rightarrow> u8 list \<Rightarrow> (nat \<times> u8 list) option" where
  "gpp_fill n len data i j buf =
     (if i < n \<and> j < len then do {
        b \<leftarrow> cread data j;
        buf \<leftarrow> cwrite buf i b;
        gpp_fill n len data (Suc i) (Suc j) buf }
      else Some (j, buf))"
  by pat_completeness auto
termination
  by (relation "measure (\<lambda>(n, len, data, i, j, buf). n - i)") auto

declare gpp_fill.simps [simp del]

partial_function (option) gpp_continue ::
    "(nat \<Rightarrow> usb_ret) \<Rightarrow> cphidget \<Rightarrow> nat \<Rightarrow> u8 list \<Rightarrow> nat \<Rightarrow> u8 list \<Rightarrow> u8 list list \<Rightarrow>
       (ephidget \<times> nat \<times> u8 list \<times> u8 list list) option" where
  "gpp_continue out phid len data j buf log =
     (if j < len then do {
        buf \<leftarrow> cwrite buf 0 (GENERAL_PACKET_FLAG OR packet_code CONTINUATION);
        (j, buf) \<leftarrow> gpp_fill (outputReportByteLength phid) len data 1 j buf;
        (result, log) \<leftarrow> send_packet out phid buf log;
        if result \<noteq> EPHIDGET_OK then Some (result, j, buf, log)
        else gpp_continue out phid len data j buf log }
      else Some (EPHIDGET_OK, j, buf, log))"

text \<open>The zeroed buffer of a command.  The code does not check the result of \<^verbatim>\<open>malloc\<close>: when it fails, the
  null pointer is written to, which is undefined.\<close>

definition gpp_buffer :: "(nat \<Rightarrow> bool) \<Rightarrow> cphidget \<Rightarrow> u8 list list \<Rightarrow> u8 list option" where
  "gpp_buffer mem phid log = (if mem (length log) then Some (replicate (outputReportByteLength phid) 0) else None)"

definition CPhidgetGPP_setConfigTable ::
    "(nat \<Rightarrow> bool) \<Rightarrow> (nat \<Rightarrow> usb_ret) \<Rightarrow> cphidget \<Rightarrow> u8 list \<Rightarrow> nat \<Rightarrow> u8 \<Rightarrow> packet_type \<Rightarrow> u8 list list \<Rightarrow> (ephidget \<times> u8 list list) option" where
  "CPhidgetGPP_setConfigTable mem out phid data len index ty log =
     (if \<not> is_set phid PHIDGET_ATTACHED_FLAG then Some (EPHIDGET_NOTATTACHED, log)
      else if \<not> deviceSupportsGeneralUSBProtocol phid then Some (EPHIDGET_UNSUPPORTED, log)
      else do {
        buf \<leftarrow> gpp_buffer mem phid log;
        buf \<leftarrow> cwrite buf 0 (GENERAL_PACKET_FLAG OR packet_code ty);
        buf \<leftarrow> cwrite buf 1 index;
        (j, buf) \<leftarrow> gpp_fill (outputReportByteLength phid) len data 2 0 buf;
        (result, log) \<leftarrow> send_packet out phid buf log;
        if result \<noteq> EPHIDGET_OK then Some (result, log)
        else do {
          (result, j, buf, log) \<leftarrow> gpp_continue out phid len data j buf log;
          Some (result, log) } })"

definition CPhidgetGPP_setDeviceSpecificConfigTable ::
    "(nat \<Rightarrow> bool) \<Rightarrow> (nat \<Rightarrow> usb_ret) \<Rightarrow> cphidget \<Rightarrow> u8 list \<Rightarrow> nat \<Rightarrow> u8 \<Rightarrow> u8 list list \<Rightarrow> (ephidget \<times> u8 list list) option" where
  "CPhidgetGPP_setDeviceSpecificConfigTable mem out phid data len index = CPhidgetGPP_setConfigTable mem out phid data len index SET_DS_TABLE"

definition CPhidgetGPP_setDeviceWideConfigTable ::
    "(nat \<Rightarrow> bool) \<Rightarrow> (nat \<Rightarrow> usb_ret) \<Rightarrow> cphidget \<Rightarrow> u8 list \<Rightarrow> nat \<Rightarrow> u8 \<Rightarrow> u8 list list \<Rightarrow> (ephidget \<times> u8 list list) option" where
  "CPhidgetGPP_setDeviceWideConfigTable mem out phid data len index = CPhidgetGPP_setConfigTable mem out phid data len index SET_DW_TABLE"

subsection \<open>Commands\<close>

text \<open>A command without data, in a zeroed buffer of the report length.\<close>

definition gpp_command ::
    "(nat \<Rightarrow> bool) \<Rightarrow> (nat \<Rightarrow> usb_ret) \<Rightarrow> cphidget \<Rightarrow> packet_type \<Rightarrow> u8 list list \<Rightarrow> (ephidget \<times> u8 list list) option" where
  "gpp_command mem out phid ty log = do {
     buf \<leftarrow> gpp_buffer mem phid log;
     buf \<leftarrow> cwrite buf 0 (GENERAL_PACKET_FLAG OR packet_code ty);
     send_packet out phid buf log }"

definition gpp_guard :: "cphidget \<Rightarrow> ephidget" where
  "gpp_guard phid = (if \<not> is_set phid PHIDGET_ATTACHED_FLAG then EPHIDGET_NOTATTACHED
     else if \<not> deviceSupportsGeneralUSBProtocol phid then EPHIDGET_UNSUPPORTED else EPHIDGET_OK)"

text \<open>\<^verbatim>\<open>CPhidgetGPP_eraseFirmware\<close> and \<^verbatim>\<open>CPhidgetGPP_eraseConfig\<close>: send and wait.\<close>

definition gpp_command_wait ::
    "(nat \<Rightarrow> bool) \<Rightarrow> (nat \<Rightarrow> usb_ret) \<Rightarrow> traffic \<Rightarrow> packet_type \<Rightarrow> cphidget \<Rightarrow> u8 list list \<Rightarrow> (ephidget \<times> cphidget \<times> u8 list list) option" where
  "gpp_command_wait mem out tr ty phid log =
     (if gpp_guard phid \<noteq> EPHIDGET_OK then Some (gpp_guard phid, phid, log)
      else do {
        let phid = phid\<lparr>GPPResponse := 0\<rparr>;
        (result, log) \<leftarrow> gpp_command mem out phid ty log;
        let phid = take_responses (arrived_before tr) phid;
        if result = EPHIDGET_OK then (case GPP_getResponse phid ty 200 tr of (result, phid) \<Rightarrow> Some (result, phid, log))
        else Some (result, phid, log) })"

definition CPhidgetGPP_eraseFirmware where
  "CPhidgetGPP_eraseFirmware mem out tr = gpp_command_wait mem out tr FIRMWARE_UPGRADE_ERASE"

definition CPhidgetGPP_eraseConfig where
  "CPhidgetGPP_eraseConfig mem out tr = gpp_command_wait mem out tr ERASE_CONFIG"

definition gpp_command_only ::
    "(nat \<Rightarrow> bool) \<Rightarrow> (nat \<Rightarrow> usb_ret) \<Rightarrow> packet_type \<Rightarrow> cphidget \<Rightarrow> u8 list list \<Rightarrow> (ephidget \<times> u8 list list) option" where
  "gpp_command_only mem out ty phid log =
     (if gpp_guard phid \<noteq> EPHIDGET_OK then Some (gpp_guard phid, log) else gpp_command mem out phid ty log)"

definition CPhidgetGPP_reboot_ISP where "CPhidgetGPP_reboot_ISP mem out = gpp_command_only mem out REBOOT_ISP"
definition CPhidgetGPP_writeFlash where "CPhidgetGPP_writeFlash mem out = gpp_command_only mem out WRITE_FLASH"
definition CPhidgetGPP_zeroConfig where "CPhidgetGPP_zeroConfig mem out = gpp_command_only mem out ZERO_CONFIG"

text \<open>The threads are stopped first: the write thread by its flag, which it resets when it
  exits (if it was \<open>running\<close>), the read thread by the attached flag, which is set again
  for the transfer.\<close>

definition CPhidgetGPP_reboot_firmwareUpgrade ::
    "(nat \<Rightarrow> bool) \<Rightarrow> bool \<Rightarrow> (nat \<Rightarrow> usb_ret) \<Rightarrow> cphidget \<Rightarrow> u8 list list \<Rightarrow> (ephidget \<times> cphidget \<times> u8 list list) option" where
  "CPhidgetGPP_reboot_firmwareUpgrade mem running out phid log =
     (if gpp_guard phid \<noteq> EPHIDGET_OK then Some (gpp_guard phid, phid, log)
      else do {
        buf \<leftarrow> gpp_buffer mem phid log;
        buf \<leftarrow> cwrite buf 0 (GENERAL_PACKET_FLAG OR packet_code REBOOT_FIRMWARE_UPGRADE);
        let phid = phid\<lparr>writeStopFlag := \<not> running\<rparr>;
        let phid = set_flag PHIDGET_ATTACHED_FLAG (clear_flag PHIDGET_ATTACHED_FLAG phid);
        (result, log) \<leftarrow> send_packet out phid buf log;
        Some (result, phid, log) })"

text \<open>\<^verbatim>\<open>CPhidgetGPP_setLabel\<close>: the label descriptor is copied into a table of 26 bytes;
  its first byte, a signed \<^verbatim>\<open>char\<close>, is its length.\<close>

definition CPhidgetGPP_setLabel ::
    "(nat \<Rightarrow> bool) \<Rightarrow> (nat \<Rightarrow> usb_ret) \<Rightarrow> cphidget \<Rightarrow> u8 list \<Rightarrow> u8 list list \<Rightarrow> (ephidget \<times> u8 list list) option" where
  "CPhidgetGPP_setLabel mem out phid lab log =
     (if gpp_guard phid \<noteq> EPHIDGET_OK then Some (gpp_guard phid, log)
      else do {
        n \<leftarrow> cread lab 0;
        if n \<ge> 128 \<or> unat n > length lab then None
        else do {
          buf \<leftarrow> blit ([0x1a, 0x00, 0x10, 0x00] @ replicate 22 0) 4 (take (unat n) lab);
          (result, log) \<leftarrow> CPhidgetGPP_setDeviceWideConfigTable mem out phid buf 26 0 log;
          if result = EPHIDGET_OK then CPhidgetGPP_writeFlash mem out phid log else Some (result, log) } })"

subsection \<open>Firmware images\<close>

text \<open>The loop over sectors, with \<open>index\<close> counting down; a failed send leaves it
  (\<^verbatim>\<open>goto done\<close>).\<close>

fun fw_sectors ::
    "(nat \<Rightarrow> usb_ret) \<Rightarrow> cphidget \<Rightarrow> u8 list \<Rightarrow> nat \<Rightarrow> nat \<Rightarrow> nat \<Rightarrow> nat \<Rightarrow> u8 list \<Rightarrow> u8 list list \<Rightarrow> (ephidget \<times> u8 list list) option" where
  "fw_sectors out phid data len 0 indexEnd j buf log = Some (EPHIDGET_OK, log)"
| "fw_sectors out phid data len (Suc k) indexEnd j buf log = do {
     let secLength = min (int len - int k * 0x1000) 0x1000;
     buf \<leftarrow> cwrite buf 0 (GENERAL_PACKET_FLAG OR packet_code FIRMWARE_UPGRADE_WRITE_SECTOR);
     buf \<leftarrow> cwrite buf 1 (of_nat (Suc k));
     buf \<leftarrow> cwrite buf 2 (word_of_int secLength);
     buf \<leftarrow> cwrite buf 3 (word_of_int (secLength div 256));
     (j, buf) \<leftarrow> gpp_fill (outputReportByteLength phid) indexEnd data 4 j buf;
     (result, log) \<leftarrow> send_packet out phid buf log;
     if result \<noteq> EPHIDGET_OK then Some (result, log)
     else do {
       (result, j, buf, log) \<leftarrow> gpp_continue out phid indexEnd data j buf log;
       if result \<noteq> EPHIDGET_OK then Some (result, log)
       else fw_sectors out phid data len k (indexEnd + 0x1000) j buf log } }"

text \<open>\<^verbatim>\<open>CPhidgetGPP_upgradeFirmware\<close>: after the loop, however it ended, the result is
  that of waiting for the response.\<close>

definition CPhidgetGPP_upgradeFirmware ::
    "(nat \<Rightarrow> bool) \<Rightarrow> (nat \<Rightarrow> usb_ret) \<Rightarrow> traffic \<Rightarrow> cphidget \<Rightarrow> u8 list \<Rightarrow> nat \<Rightarrow> u8 list list \<Rightarrow> (ephidget \<times> cphidget \<times> u8 list list) option" where
  "CPhidgetGPP_upgradeFirmware mem out tr phid data len log =
     (if gpp_guard phid \<noteq> EPHIDGET_OK then Some (gpp_guard phid, phid, log)
      else do {
        buf \<leftarrow> gpp_buffer mem phid log;
        let phid = phid\<lparr>GPPResponse := 0\<rparr>;
        (_, log) \<leftarrow> fw_sectors out phid data len (drop_bit 12 (len AND 0xf000) + 1) (len AND 0xfff) 0 buf log;
        let phid = take_responses (arrived_before tr) phid;
        case GPP_getResponse phid FIRMWARE_UPGRADE_WRITE_SECTOR 200 tr of (result, phid) \<Rightarrow> Some (result, phid, log) })"

subsection \<open>Calibration\<close>

text \<open>The sequence of packets of \<^verbatim>\<open>CPhidget_calibrate_gain2offset\<close> and
  \<^verbatim>\<open>CPhidget_calibrate_gainoffset\<close>: a register number and a byte in an 8-byte buffer.\<close>

fun send_registers ::
    "(nat \<Rightarrow> usb_ret) \<Rightarrow> cphidget \<Rightarrow> u8 \<Rightarrow> int \<Rightarrow> u8 list \<Rightarrow> u8 list list \<Rightarrow> (ephidget \<times> u8 list list) option" where
  "send_registers out phid cmd reg [] log = Some (EPHIDGET_OK, log)"
| "send_registers out phid cmd reg (b # bs) log = do {
     (result, log) \<leftarrow> send_packet out phid [cmd, word_of_int reg, b, 0, 0, 0, 0, 0] log;
     if result \<noteq> EPHIDGET_OK then Some (result, log) else send_registers out phid cmd (reg + 1) bs log }"

definition CPhidget_calibrate ::
    "(nat \<Rightarrow> usb_ret) \<Rightarrow> cphidget \<Rightarrow> u8 \<Rightarrow> u8 list \<Rightarrow> u8 list list \<Rightarrow> (ephidget \<times> u8 list list) option" where
  "CPhidget_calibrate out phid Offset data log =
     (if \<not> is_set phid PHIDGET_ATTACHED_FLAG then Some (EPHIDGET_NOTATTACHED, log)
      else if length data < 6 then None
      else send_packet out phid ([0x74, Offset] @ take 6 data) log)"

definition CPhidget_calibrate_gain2offset ::
    "(nat \<Rightarrow> usb_ret) \<Rightarrow> cphidget \<Rightarrow> int \<Rightarrow> u16 \<Rightarrow> 64 word \<Rightarrow> 64 word \<Rightarrow> u8 list list \<Rightarrow> (ephidget \<times> u8 list list) option" where
  "CPhidget_calibrate_gain2offset out phid Index offset gain1 gain2 log =
     (if \<not> is_set phid PHIDGET_ATTACHED_FLAG then Some (EPHIDGET_NOTATTACHED, log)
      else send_registers out phid 0x73 Index
        [ucast (drop_bit 8 offset), ucast offset,
         ucast (drop_bit 16 gain1), ucast (drop_bit 8 gain1), ucast gain1,
         ucast (drop_bit 16 gain2), ucast (drop_bit 8 gain2), ucast gain2] log)"

definition CPhidget_calibrate_gainoffset ::
    "(nat \<Rightarrow> usb_ret) \<Rightarrow> cphidget \<Rightarrow> int \<Rightarrow> u16 \<Rightarrow> 64 word \<Rightarrow> u8 list list \<Rightarrow> (ephidget \<times> u8 list list) option" where
  "CPhidget_calibrate_gainoffset out phid Index offset gain log =
     (if \<not> is_set phid PHIDGET_ATTACHED_FLAG then Some (EPHIDGET_NOTATTACHED, log)
      else send_registers out phid 0x72 Index
        [ucast (drop_bit 8 offset), ucast offset, ucast (drop_bit 16 gain), ucast (drop_bit 8 gain), ucast gain] log)"


subsection \<open>What the device receives\<close>

text \<open>\<open>gather need ps\<close> takes \<open>need\<close> bytes out of continuation packets and
  \<open>receive h need ps\<close> the same with a first packet that has a header of \<open>h\<close> bytes;
  both return the remaining packets.\<close>

fun gather :: "nat \<Rightarrow> u8 list list \<Rightarrow> u8 list \<times> u8 list list" where
  "gather 0 ps = ([], ps)"
| "gather (Suc k) [] = ([], [])"
| "gather (Suc k) (p # ps) = (if p = [] \<or> hd p \<noteq> 0x83 then ([], p # ps)
     else let b = take (Suc k) (tl p) in case gather (Suc k - length b) ps of (bs, rest) \<Rightarrow> (b @ bs, rest))"

fun receive :: "nat \<Rightarrow> nat \<Rightarrow> u8 list list \<Rightarrow> u8 list \<times> u8 list list" where
  "receive h need [] = ([], [])"
| "receive h need (p # ps) = (let b = take need (drop h p) in
     case gather (need - length b) ps of (bs, rest) \<Rightarrow> (b @ bs, rest))"

text \<open>The sectors of a firmware image: number and bytes, the length being in the header.\<close>

fun sectors :: "nat \<Rightarrow> u8 list list \<Rightarrow> (u8 \<times> u8 list) list" where
  "sectors 0 ps = []"
| "sectors (Suc k) [] = []"
| "sectors (Suc k) (p # ps) = (case receive 4 (unat (p ! 2) + 256 * unat (p ! 3)) (p # ps) of (bs, rest) \<Rightarrow>
     (p ! 1, bs) # sectors k rest)"

subsection \<open>Lemmas\<close>

lemma gpp_fill_eq:
  assumes "len \<le> length data" and "length buf = n" and "i \<le> n"
  shows "gpp_fill n len data i j buf = Some (j + min (n - i) (len - j),
    take i buf @ take (min (n - i) (len - j)) (drop j data) @ drop (i + min (n - i) (len - j)) buf)"
  using assms
proof (induction n len data i j buf rule: gpp_fill.induct)
  case (1 n len data i j buf)
  show ?case
  proof (cases "i < n \<and> j < len")
    case True
    let ?buf = "buf[i := data ! j]" and ?m = "min (n - Suc i) (len - Suc j)"
    have m: "min (n - i) (len - j) = Suc ?m" using True by auto
    have "gpp_fill n len data i j buf = gpp_fill n len data (Suc i) (Suc j) ?buf"
      using True 1(2,3) by (simp add: gpp_fill.simps [of n len data i j buf] cread_def cwrite_def)
    also have "\<dots> = Some (Suc j + ?m, take (Suc i) ?buf @ take ?m (drop (Suc j) data) @ drop (Suc i + ?m) ?buf)"
      using True 1(2-4) by (intro "1.IH" [of "data ! j" ?buf]) (simp_all add: cread_def cwrite_def)
    also have "take (Suc i) ?buf = take i buf @ [data ! j]"
      using True 1(3) by (simp add: take_Suc_conv_app_nth)
    also have "drop (Suc i + ?m) ?buf = drop (Suc i + ?m) buf" by simp
    finally show ?thesis
      using True 1(2) m by (simp add: Cons_nth_drop_Suc [symmetric])
  next
    case False
    then have m: "min (n - i) (len - j) = 0" by auto
    have "gpp_fill n len data i j buf = Some (j, buf)"
      by (subst gpp_fill.simps) (use False in \<open>simp only: if_False\<close>)
    then show ?thesis unfolding m by simp
  qed
qed

definition ready :: "cphidget \<Rightarrow> bool" where
  "ready phid \<longleftrightarrow> is_set phid PHIDGET_ATTACHED_FLAG \<and> deviceHandle phid"

definition all_sent :: "(nat \<Rightarrow> usb_ret) \<Rightarrow> cphidget \<Rightarrow> bool" where
  "all_sent out phid \<longleftrightarrow> (\<forall>k. out k = Bytes (outputReportByteLength phid))"

lemma send_ready:
  assumes "ready phid" and "length buf = outputReportByteLength phid"
  shows "\<exists>r. send_packet out phid buf log = Some (r, log @ [buf]) \<and> (all_sent out phid \<longrightarrow> r = EPHIDGET_OK)"
  using assms by (auto simp: send_packet_def ready_def all_sent_def CUSBSendPacket_def)

lemma cwrite_0: "buf \<noteq> [] \<Longrightarrow> cwrite buf 0 b = Some (b # tl buf)"
  by (cases buf) (auto simp: cwrite_def)

lemma continuation_code: "GENERAL_PACKET_FLAG OR packet_code CONTINUATION = 0x83"
  by (simp add: GENERAL_PACKET_FLAG_def)

lemma gather_Cons:
  assumes "0 < need" and "take need t = b" and "gather (need - length b) ps = (bs, rest)"
  shows "gather need ((0x83 # t) # ps) = (b @ bs, rest)"
  using assms by (cases need) auto

text \<open>The continuation loop ends, never leaves the buffer, and when every transfer succeeds
  the device gathers exactly the rest of the data.\<close>

lemma gpp_continue_outcome:
  assumes "ready phid" and "outputReportByteLength phid = n" and "2 \<le> n" and "len \<le> length data" and "length buf = n"
  shows "\<exists>r j' buf' ps. gpp_continue out phid len data j buf log = Some (r, j', buf', log @ ps) \<and> length buf' = n \<and>
    (\<forall>p \<in> set ps. length p = n) \<and>
    (r = EPHIDGET_OK \<longrightarrow> j' = max j len) \<and>
    (all_sent out phid \<longrightarrow> r = EPHIDGET_OK \<and>
      (\<forall>rest. gather (len - j) (ps @ rest) = (take (len - j) (drop j data), rest)))"
  using assms(5)
proof (induction "len - j" arbitrary: j buf log rule: less_induct)
  case less
  show ?case
  proof (cases "j < len")
    case False
    then show ?thesis using less.prems by (simp add: gpp_continue.simps [of out phid len data j buf log])
  next
    case True
    define m' where "m' = min (n - 1) (len - j)"
    let ?m = m'
    let ?buf = "0x83 # take ?m (drop j data) @ drop ?m (tl buf)"
    have m: "0 < ?m" "?m \<le> len - j" "j + ?m \<le> length data" "?m \<le> n - 1" using True assms(3,4) by (auto simp: m'_def)
    have "length (take ?m (drop j data)) = ?m" using m by simp
    moreover have "length (drop ?m (tl buf)) = n - 1 - ?m" using less.prems by simp
    ultimately have l: "length ?buf = n" using assms(3) m by simp
    have w: "cwrite buf 0 (GENERAL_PACKET_FLAG OR packet_code CONTINUATION) = Some (0x83 # tl buf)"
      unfolding continuation_code using less.prems assms(3) by (intro cwrite_0) auto
    have "length (0x83 # tl buf) = n" using less.prems assms(3) by (cases buf) auto
    from gpp_fill_eq [OF assms(4) this, of 1 j, folded m'_def]
    have f: "gpp_fill n len data 1 j (0x83 # tl buf) = Some (j + ?m, ?buf)" using assms(3) by simp
    obtain r where s: "send_packet out phid ?buf log = Some (r, log @ [?buf])" "all_sent out phid \<longrightarrow> r = EPHIDGET_OK"
      using send_ready [OF assms(1) l [folded assms(2)]] by metis
    have u: "gpp_continue out phid len data j buf log =
        (if r \<noteq> EPHIDGET_OK then Some (r, j + ?m, ?buf, log @ [?buf])
         else gpp_continue out phid len data (j + ?m) ?buf (log @ [?buf]))"
      using True w f s(1) assms(2) by (subst gpp_continue.simps) simp
    show ?thesis
    proof (cases "r = EPHIDGET_OK")
      case False
      then show ?thesis using u s(2) l by (intro exI [of _ r] exI [of _ "j + ?m"] exI [of _ ?buf] exI [of _ "[?buf]"]) auto
    next
      case ok: True
      have "len - (j + ?m) < len - j" using True m by auto
      from less.hyps [OF this l, of "log @ [?buf]"] obtain r' j' buf' ps where
        IH: "gpp_continue out phid len data (j + ?m) ?buf (log @ [?buf]) = Some (r', j', buf', (log @ [?buf]) @ ps)"
          "length buf' = n" "\<forall>p \<in> set ps. length p = n"
          "r' = EPHIDGET_OK \<longrightarrow> j' = max (j + ?m) len" "all_sent out phid \<longrightarrow> r' = EPHIDGET_OK \<and>
            (\<forall>rest. gather (len - (j + ?m)) (ps @ rest) = (take (len - (j + ?m)) (drop (j + ?m) data), rest))" by blast
      have lk: "length (take ?m (drop j data)) = ?m" using m by simp
      have tk: "take (len - j) (take ?m (drop j data) @ drop ?m (tl buf)) = take ?m (drop j data)"
      proof (cases "n - 1 \<le> len - j")
        case True
        then have "?m = n - 1" by (simp add: m'_def)
        then show ?thesis using less.prems True lk by simp
      next
        case False
        then have "?m = len - j" by (simp add: m'_def)
        then show ?thesis using lk by simp
      qed
      have jn: "take ?m (drop j data) @ take (len - (j + ?m)) (drop (j + ?m) data) = take (len - j) (drop j data)"
      proof -
        have "len - j = ?m + (len - (j + ?m))" using m by simp
        then have "take (len - j) (drop j data) = take ?m (drop j data) @ take (len - (j + ?m)) (drop ?m (drop j data))"
          using take_add by metis
        then show ?thesis by (simp add: add.commute)
      qed
      have "gather (len - j) ((?buf # ps) @ rest) = (take (len - j) (drop j data), rest)" if "all_sent out phid" for rest
      proof -
        have g: "gather (len - (j + ?m)) (ps @ rest) = (take (len - (j + ?m)) (drop (j + ?m) data), rest)" using IH(5) that by blast
        have "gather (len - j) ((?buf # ps) @ rest) =
            (take ?m (drop j data) @ take (len - (j + ?m)) (drop (j + ?m) data), rest)"
          unfolding append_Cons by (rule gather_Cons [OF _ tk]) (use True lk g in \<open>simp_all add: diff_diff_left\<close>)
        then show ?thesis unfolding jn .
      qed
      moreover have "max (j + ?m) len = max j len" using m True by auto
      ultimately show ?thesis using u ok IH l
        by (intro exI [of _ r'] exI [of _ j'] exI [of _ buf'] exI [of _ "?buf # ps"]) auto
    qed
  qed
qed

text \<open>A packet with a header of \<open>h\<close> bytes and its continuations.\<close>

lemma gpp_first_outcome:
  assumes "ready phid" and "outputReportByteLength phid = n" and "2 \<le> n" and "len \<le> length data" and "length buf = n"
    and h: "h \<le> n" "1 < h" and j: "j \<le> len"
  shows "\<exists>r buf' m. gpp_fill n len data h j buf = Some (j + m, buf') \<and> length buf' = n \<and> j + m \<le> len \<and>
    take h buf' = take h buf \<and> send_packet out phid buf' log = Some (r, log @ [buf']) \<and> (all_sent out phid \<longrightarrow> r = EPHIDGET_OK) \<and>
    (\<forall>ps rest. (\<forall>rest. gather (len - (j + m)) (ps @ rest) = (take (len - (j + m)) (drop (j + m) data), rest)) \<longrightarrow>
      receive h (len - j) (buf' # ps @ rest) = (take (len - j) (drop j data), rest))"
proof -
  define m where "m = min (n - h) (len - j)"
  define buf' where "buf' = take h buf @ take m (drop j data) @ drop (h + m) buf"
  have m: "m \<le> n - h" "m \<le> len - j" "j + m \<le> len" using j by (auto simp: m_def)
  have lk: "length (take m (drop j data)) = m" using m assms(4) by simp
  have th: "length (take h buf) = h" using h assms(5) by simp
  have l: "length buf' = n" unfolding buf'_def using lk m h assms(5) by (simp only: length_append th) simp
  have f: "gpp_fill n len data h j buf = Some (j + m, buf')"
    using gpp_fill_eq [OF assms(4,5) h(1), of j] by (simp add: m_def buf'_def)
  obtain r where s: "send_packet out phid buf' log = Some (r, log @ [buf'])" "all_sent out phid \<longrightarrow> r = EPHIDGET_OK"
    using send_ready [OF assms(1) l [folded assms(2)]] by metis
  have d: "drop h buf' = take m (drop j data) @ drop (h + m) buf" unfolding buf'_def using th by simp
  have tk: "take (len - j) (drop h buf') = take m (drop j data)"
  proof (cases "n - h \<le> len - j")
    case True
    then have "m = n - h" by (simp add: m_def)
    then show ?thesis unfolding d using True assms(5) h lk by simp
  next
    case False
    then have "m = len - j" by (simp add: m_def)
    then show ?thesis unfolding d using lk by simp
  qed
  have sp: "take (len - j) (drop j data) = take m (drop j data) @ take (len - (j + m)) (drop (j + m) data)"
  proof -
    have "len - j = m + (len - (j + m))" using m by simp
    then have "take (len - j) (drop j data) = take m (drop j data) @ take (len - (j + m)) (drop m (drop j data))"
      using take_add by metis
    then show ?thesis by (simp add: add.commute)
  qed
  have "take h buf' = take h buf" unfolding buf'_def using th by simp
  moreover have "receive h (len - j) (buf' # ps @ rest) = (take (len - j) (drop j data), rest)"
    if "\<forall>rest. gather (len - (j + m)) (ps @ rest) = (take (len - (j + m)) (drop (j + m) data), rest)" for ps rest
  proof -
    have "gather (len - j - length (take m (drop j data))) (ps @ rest) = (take (len - (j + m)) (drop (j + m) data), rest)"
      unfolding lk using that by (simp add: diff_diff_left)
    then show ?thesis by (simp only: receive.simps tk Let_def sp) simp
  qed
  ultimately show ?thesis using f l m(3) s by blast
qed

lemma take_2_hd: "take 2 xs = [a, b] \<Longrightarrow> hd xs = a \<and> xs ! 1 = b"
  by (cases xs; cases "tl xs") auto

lemma config_table_header:
  assumes "2 \<le> n"
  shows "cwrite (replicate n 0) 0 a = Some (a # replicate (n - 1) (0::u8))"
    and "cwrite (a # replicate (n - 1) 0) 1 b = Some (a # b # replicate (n - 2) 0)"
proof -
  obtain m where n: "n = Suc (Suc m)" using assms by (metis add_2_eq_Suc le_Suc_ex)
  show "cwrite (replicate n 0) 0 a = Some (a # replicate (n - 1) 0)"
    and "cwrite (a # replicate (n - 1) 0) 1 b = Some (a # b # replicate (n - 2) 0)"
    by (simp_all add: n cwrite_def)
qed

subsection \<open>A device\<close>

definition demo_gpp :: cphidget where
  "demo_gpp = demo_handle\<lparr>deviceUID := 58, outputReportByteLength := 5\<rparr>"

lemma demo_gpp:
  "ready demo_gpp" "deviceSupportsGeneralUSBProtocol demo_gpp" "outputReportByteLength demo_gpp = 5"
  "all_sent (\<lambda>_. Bytes 5) demo_gpp"
  by (simp_all add: ready_def deviceSupportsGeneralUSBProtocol_def demo_gpp_def demo_handle_def all_sent_def set_flag_def
      CPhidget_setStatusFlag_def CPhidget_statusFlagIsSet_def flag_def)

lemma setConfigTable_outcome:
  assumes "ready phid" and "deviceSupportsGeneralUSBProtocol phid"
    and "outputReportByteLength phid = n" and "2 \<le> n" and "len \<le> length data"
    and "mem (length log)"
  shows "\<exists>r ps. CPhidgetGPP_setConfigTable mem out phid data len index ty log = Some (r, log @ ps) \<and>
    (\<forall>p \<in> set ps. length p = n) \<and>
    (all_sent out phid \<longrightarrow> r = EPHIDGET_OK \<and> hd (hd ps) = GENERAL_PACKET_FLAG OR packet_code ty \<and>
      hd ps ! 1 = index \<and> receive 2 len ps = (take len data, []))"
proof -
  let ?a = "GENERAL_PACKET_FLAG OR packet_code ty"
  let ?buf = "?a # index # replicate (n - 2) 0"
  have l0: "length ?buf = n" using assms(4) by simp
  have h0: "(1::nat) < 2" by simp
  from gpp_first_outcome [OF assms(1,3,4,5) l0 assms(4) h0 le0, of out log]
  obtain r buf' m where
    f: "gpp_fill n len data 2 0 ?buf = Some (m, buf')" and l: "length buf' = n"
    and t: "take 2 buf' = take 2 ?buf"
    and s: "send_packet out phid buf' log = Some (r, log @ [buf'])" and ok: "all_sent out phid \<longrightarrow> r = EPHIDGET_OK"
    and rc: "\<forall>ps rest. (\<forall>rest. gather (len - m) (ps @ rest) = (take (len - m) (drop m data), rest)) \<longrightarrow>
      receive 2 len (buf' # ps @ rest) = (take len data, rest)"
    by (simp only: add_0 diff_zero drop_0) blast
  have h: "hd buf' = ?a \<and> buf' ! 1 = index" by (rule take_2_hd) (simp add: t)
  have att: "is_set phid PHIDGET_ATTACHED_FLAG" using assms(1) by (simp add: ready_def)
  have u: "CPhidgetGPP_setConfigTable mem out phid data len index ty log = (if r \<noteq> EPHIDGET_OK then Some (r, log @ [buf'])
     else map_option (\<lambda>(r, j, buf, log). (r, log)) (gpp_continue out phid len data m buf' (log @ [buf'])))"
    using f s config_table_header [OF assms(4), simplified]
    by (simp add: CPhidgetGPP_setConfigTable_def gpp_buffer_def att assms(2,3,6) map_option_case split: option.split)
  show ?thesis
  proof (cases "r = EPHIDGET_OK")
    case False
    then show ?thesis using u ok l by (intro exI [of _ r] exI [of _ "[buf']"]) auto
  next
    case True
    obtain r' j' b' ps where
      c: "gpp_continue out phid len data m buf' (log @ [buf']) = Some (r', j', b', (log @ [buf']) @ ps)"
      "\<forall>p \<in> set ps. length p = n"
      "all_sent out phid \<longrightarrow> r' = EPHIDGET_OK \<and> (\<forall>rest. gather (len - m) (ps @ rest) = (take (len - m) (drop m data), rest))"
      using gpp_continue_outcome [OF assms(1,3,4,5) l, of out m "log @ [buf']"] by blast
    have "receive 2 len (buf' # ps) = (take len data, [])" if "all_sent out phid"
      using rc [rule_format, of ps "[]"] c(3) that by simp
    then show ?thesis using u c True h l by (intro exI [of _ r'] exI [of _ "buf' # ps"]) auto
  qed
qed

text \<open>C22. Configuration tables arrive: for an attached device that speaks the general packet
  protocol, with reports of at least two bytes, \<^verbatim>\<open>CPhidgetGPP_setConfigTable\<close> returns if its buffer can be
  allocated (when it cannot, the code writes through the null pointer), reads and writes inside its buffers whatever the transfers do, and sends only packets of the report
  length.  If every transfer succeeds, it reports success, the first packet carries the table type
  and the index, and the device that joins the first packet and its continuations gets exactly
  the table, with no packet left over.\<close>

theorem setConfigTable_roundtrip:
  assumes "ready phid" and "deviceSupportsGeneralUSBProtocol phid"
    and "outputReportByteLength phid = n" and "2 \<le> n" and "len \<le> length data"
  shows "if mem (length log) then
    (\<exists>r ps. CPhidgetGPP_setConfigTable mem out phid data len index ty log = Some (r, log @ ps) \<and>
    (\<forall>p \<in> set ps. length p = n) \<and>
    (all_sent out phid \<longrightarrow> r = EPHIDGET_OK \<and> hd (hd ps) = GENERAL_PACKET_FLAG OR packet_code ty \<and>
      hd ps ! 1 = index \<and> receive 2 len ps = (take len data, [])))
    else CPhidgetGPP_setConfigTable mem out phid data len index ty log = None"
proof (cases "mem (length log)")
  case True
  from setConfigTable_outcome [where mem = mem, OF assms True] True show ?thesis by simp
next
  case False
  then show ?thesis using assms(1,2) by (simp add: CPhidgetGPP_setConfigTable_def gpp_buffer_def ready_def)
qed

theorem setConfigTable_roundtrip_witness:
  "\<exists>ps. CPhidgetGPP_setConfigTable (\<lambda>_. True) (\<lambda>_. Bytes 5) demo_gpp [10, 20, 30, 40, 50, 60, 70, 80] 8 9 SET_DS_TABLE [] = Some (EPHIDGET_OK, ps) \<and>
     hd ps ! 1 = 9 \<and> receive 2 8 ps = ([10, 20, 30, 40, 50, 60, 70, 80], [])"
  using setConfigTable_roundtrip [OF demo_gpp(1-3), of 8 "[10, 20, 30, 40, 50, 60, 70, 80]" "\<lambda>_. True" "[]" "\<lambda>_. Bytes 5" 9 SET_DS_TABLE]
    demo_gpp(4) by auto

text \<open>The sectors of an image.\<close>

lemma sector_header:
  assumes "length buf = n" and "4 \<le> n"
  shows "cwrite buf 0 a = Some (a # tl buf)"
    and "cwrite (a # tl buf) 1 b = Some (a # b # drop 2 buf)"
    and "cwrite (a # b # drop 2 buf) 2 c = Some (a # b # c # drop 3 buf)"
    and "cwrite (a # b # c # drop 3 buf) 3 d = Some (a # b # c # d # drop 4 buf)"
proof -
  obtain m where "n = Suc (Suc (Suc (Suc m)))" using assms(2) by (cases n; cases "n - 1"; cases "n - 2"; cases "n - 3") auto
  then obtain x1 x2 x3 x4 xs where "buf = x1 # x2 # x3 # x4 # xs" using assms(1) by (auto simp: length_Suc_conv)
  then show "cwrite buf 0 a = Some (a # tl buf)"
    and "cwrite (a # tl buf) 1 b = Some (a # b # drop 2 buf)"
    and "cwrite (a # b # drop 2 buf) 2 c = Some (a # b # c # drop 3 buf)"
    and "cwrite (a # b # c # drop 3 buf) 3 d = Some (a # b # c # d # drop 4 buf)"
    by (simp_all add: cwrite_def)
qed

lemma sector_length:
  assumes "x \<le> 0x1000"
  shows "unat (word_of_int (int x) :: u8) + 256 * unat (word_of_int (int x div 256) :: u8) = x"
proof -
  have "unat (word_of_int (int x) :: u8) = x mod 256" by (simp add: unat_of_nat)
  moreover have "unat (word_of_int (int x div 256) :: u8) = x div 256"
  proof -
    have "int x div 256 = int (x div 256)" by simp
    moreover have "unat (of_nat (x div 256) :: u8) = x div 256 mod 256" by (simp add: unat_of_nat)
    ultimately show ?thesis using assms by simp
  qed
  ultimately show ?thesis by simp
qed

lemma take_4_nth: "take 4 xs = [a, b, c, d] \<Longrightarrow> xs ! 1 = b \<and> xs ! 2 = c \<and> xs ! 3 = d"
  by (cases xs; cases "tl xs"; cases "tl (tl xs)"; cases "tl (tl (tl xs))") (auto simp: numeral_eq_Suc)

lemma fw_sectors_outcome:
  assumes "ready phid" and "outputReportByteLength phid = n" and "4 \<le> n" and "len \<le> length data"
  shows "length buf = n \<Longrightarrow> k = 0 \<and> j = len \<or> k > 0 \<and> e + 0x1000 * (k - 1) = len \<and> j \<le> e \<and> e - j = min e 0x1000 \<Longrightarrow>
    \<exists>r ps. fw_sectors out phid data len k e j buf log = Some (r, log @ ps) \<and> (\<forall>p \<in> set ps. length p = n) \<and>
    (all_sent out phid \<longrightarrow> r = EPHIDGET_OK \<and>
      map fst (sectors k ps) = map of_nat (rev [1..<Suc k]) \<and>
      (k > 0 \<longrightarrow> map (\<lambda>s. length (snd s)) (sectors k ps) = (e - j) # replicate (k - 1) 0x1000) \<and>
      concat (map snd (sectors k ps)) = drop j (take len data))"
proof (induction k arbitrary: e j buf log)
  case 0
  then show ?case by simp
next
  case (Suc k)
  let ?x = "e - j"
  let ?c = "word_of_int (int ?x) :: u8" and ?d = "word_of_int (int ?x div 256) :: u8"
  let ?a = "GENERAL_PACKET_FLAG OR packet_code FIRMWARE_UPGRADE_WRITE_SECTOR"
  let ?buf = "?a # of_nat (Suc k) # ?c # ?d # drop 4 buf"
  have e: "e + 0x1000 * k = len" "j \<le> e" "?x = min e 0x1000" using Suc.prems(2) by auto
  have x: "?x \<le> 0x1000" using e(3) by simp
  have sec: "min (int len - int k * 0x1000) 0x1000 = int ?x" using e by (simp add: of_nat_min)
  have l0: "length ?buf = n" using Suc.prems(1) assms(3) by simp
  have h0: "(1::nat) < 4" by simp
  have ed: "e \<le> length data" using e(1) assms(4) by simp
  from gpp_first_outcome [OF assms(1,2) _ ed l0 assms(3) h0 e(2), of out log] assms(3)
  obtain r buf' m where
    f: "gpp_fill n e data 4 j ?buf = Some (j + m, buf')" and l: "length buf' = n" and m: "j + m \<le> e"
    and t: "take 4 buf' = take 4 ?buf"
    and s: "send_packet out phid buf' log = Some (r, log @ [buf'])" and ok: "all_sent out phid \<longrightarrow> r = EPHIDGET_OK"
    and rc: "\<forall>ps rest. (\<forall>rest. gather (e - (j + m)) (ps @ rest) = (take (e - (j + m)) (drop (j + m) data), rest)) \<longrightarrow>
      receive 4 ?x (buf' # ps @ rest) = (take ?x (drop j data), rest)" by force
  have h: "buf' ! 1 = of_nat (Suc k) \<and> buf' ! 2 = ?c \<and> buf' ! 3 = ?d" by (rule take_4_nth) (simp add: t)
  obtain r' j' b' ps where
    c: "gpp_continue out phid e data (j + m) buf' (log @ [buf']) = Some (r', j', b', (log @ [buf']) @ ps)"
      "length b' = n" "\<forall>p \<in> set ps. length p = n"
      "r' = EPHIDGET_OK \<longrightarrow> j' = e"
      "all_sent out phid \<longrightarrow> r' = EPHIDGET_OK \<and>
        (\<forall>rest. gather (e - (j + m)) (ps @ rest) = (take (e - (j + m)) (drop (j + m) data), rest))"
    using gpp_continue_outcome [OF assms(1,2) _ ed l, of out "j + m" "log @ [buf']"] assms(3) m by (auto simp: max_absorb2)
  have "\<exists>r'' ps'. fw_sectors out phid data len k (e + 0x1000) e b' ((log @ [buf']) @ ps) = Some (r'', ((log @ [buf']) @ ps) @ ps') \<and>
      (\<forall>p \<in> set ps'. length p = n) \<and>
      (all_sent out phid \<longrightarrow> r'' = EPHIDGET_OK \<and>
        map fst (sectors k ps') = map of_nat (rev [1..<Suc k]) \<and>
        (k > 0 \<longrightarrow> map (\<lambda>s. length (snd s)) (sectors k ps') = (e + 0x1000 - e) # replicate (k - 1) 0x1000) \<and>
        concat (map snd (sectors k ps')) = drop e (take len data))"
    by (rule Suc.IH [OF c(2)]) (use e in \<open>cases k; auto\<close>)
  then obtain r'' ps' where
    IH: "fw_sectors out phid data len k (e + 0x1000) e b' ((log @ [buf']) @ ps) = Some (r'', ((log @ [buf']) @ ps) @ ps')"
      "\<forall>p \<in> set ps'. length p = n"
      "all_sent out phid \<longrightarrow> r'' = EPHIDGET_OK \<and> map fst (sectors k ps') = map of_nat (rev [1..<Suc k]) \<and>
        (k > 0 \<longrightarrow> map (\<lambda>s. length (snd s)) (sectors k ps') = (e + 0x1000 - e) # replicate (k - 1) 0x1000) \<and>
        concat (map snd (sectors k ps')) = drop e (take len data)"
    by (elim exE conjE) (rule that)
  have u: "fw_sectors out phid data len (Suc k) e j buf log =
     (if r \<noteq> EPHIDGET_OK then Some (r, log @ [buf'])
      else if r' \<noteq> EPHIDGET_OK then Some (r', (log @ [buf']) @ ps)
      else fw_sectors out phid data len k (e + 0x1000) e b' ((log @ [buf']) @ ps))"
    using f s c sector_header [OF Suc.prems(1) assms(3), simplified] assms(2)
    by (simp add: sec Let_def del: of_nat_Suc append_assoc)
  have sc: "sectors (Suc k) (buf' # ps @ ps') = (of_nat (Suc k), take ?x (drop j data)) # sectors k ps'" if "all_sent out phid"
  proof -
    have "receive 4 ?x (buf' # ps @ ps') = (take ?x (drop j data), ps')" using rc c(5) that by blast
    then show ?thesis using h by (simp only: sectors.simps sector_length [OF x] prod.case)
  qed
  have cc: "take ?x (drop j data) @ drop e (take len data) = drop j (take len data)"
  proof -
    have "drop j (take len data) = take (len - j) (drop j data)" by (simp add: drop_take)
    moreover have "len - j = ?x + (len - e)" using e(1,2) by linarith
    ultimately have "drop j (take len data) = take (?x + (len - e)) (drop j data)" by (simp only:)
    also have "\<dots> = take ?x (drop j data) @ take (len - e) (drop ?x (drop j data))" by (rule take_add)
    also have "take (len - e) (drop ?x (drop j data)) = drop e (take len data)" using e(1,2) by (simp add: drop_take)
    finally show ?thesis by simp
  qed
  have lx: "length (take ?x (drop j data)) = ?x" using ed by simp
  show ?case
  proof (cases "r = EPHIDGET_OK \<and> r' = EPHIDGET_OK")
    case True
    have "(k > 0 \<longrightarrow> map (\<lambda>s. length (snd s)) (sectors k ps') = replicate k 0x1000)" if "all_sent out phid"
      using IH(3) that by (cases k) auto
    moreover have "k = 0 \<longrightarrow> sectors k ps' = []" by simp
    ultimately show ?thesis using True u IH c(3) l sc cc lx
      by (intro exI [of _ r''] exI [of _ "buf' # ps @ ps'"]) (auto simp del: sectors.simps fw_sectors.simps of_nat_Suc)
  next
    case False
    show ?thesis
    proof (cases "r = EPHIDGET_OK")
      case True
      then have "r' \<noteq> EPHIDGET_OK" using False by simp
      then show ?thesis using u True c l by (intro exI [of _ r'] exI [of _ "buf' # ps"]) (auto simp del: sectors.simps fw_sectors.simps)
    next
      case False
      then show ?thesis using u ok l by (intro exI [of _ r] exI [of _ "[buf']"]) auto
    qed
  qed
qed

lemma and_low: "(len::nat) AND 0xfff = len mod 0x1000"
proof -
  have "(0xfff::nat) = mask 12" by (simp add: mask_eq_exp_minus_1)
  then show ?thesis by (simp only: take_bit_eq_mask [symmetric] take_bit_eq_mod) simp
qed

lemma and_sectors: "drop_bit 12 ((len::nat) AND 0xf000) = len div 0x1000 mod 16"
proof -
  have "drop_bit 12 (len AND 0xf000) = drop_bit 12 len AND drop_bit 12 0xf000" by (rule drop_bit_and)
  also have "drop_bit 12 (0xf000::nat) = mask 4" by (simp add: drop_bit_eq_div mask_eq_exp_minus_1)
  also have "drop_bit 12 len AND mask 4 = take_bit 4 (drop_bit 12 len)" by (simp only: take_bit_eq_mask)
  finally show ?thesis by (simp add: drop_bit_eq_div take_bit_eq_mod)
qed

text \<open>C23. Firmware images arrive: for an image of less than 64 KiB that lies within its buffer,
  \<^verbatim>\<open>CPhidgetGPP_upgradeFirmware\<close> returns if its packet buffer can be allocated (when it cannot, the code writes
  through the null pointer) and sends only packets of the report length; if every
  transfer succeeds, the device gets the sectors numbered downwards to 1, a first one of the length
  modulo 4096 and then full ones, and together they are the image.  Its result is the one of waiting
  for the response, whatever the transfers did: a transfer that failed is not reported.\<close>

theorem upgradeFirmware_roundtrip:
  assumes "ready phid" and "deviceSupportsGeneralUSBProtocol phid"
    and "outputReportByteLength phid = n" and "4 \<le> n" and "len \<le> length data" and "len < 0x10000"
  shows "if mem (length log) then
    (\<exists>ps. CPhidgetGPP_upgradeFirmware mem out tr phid data len log =
      (case GPP_getResponse (take_responses (arrived_before tr) (phid\<lparr>GPPResponse := 0\<rparr>)) FIRMWARE_UPGRADE_WRITE_SECTOR 200 tr of
         (result, phid) \<Rightarrow> Some (result, phid, log @ ps)) \<and>
    (\<forall>p \<in> set ps. length p = n) \<and>
    (all_sent out phid \<longrightarrow>
      map fst (sectors (len div 0x1000 + 1) ps) = map of_nat (rev [1..<len div 0x1000 + 2]) \<and>
      map (\<lambda>s. length (snd s)) (sectors (len div 0x1000 + 1) ps) = len mod 0x1000 # replicate (len div 0x1000) 0x1000 \<and>
      concat (map snd (sectors (len div 0x1000 + 1) ps)) = take len data))
    else CPhidgetGPP_upgradeFirmware mem out tr phid data len log = None"
proof (cases "mem (length log)")
  case mem: True
  let ?p = "phid\<lparr>GPPResponse := 0\<rparr>" and ?k = "len div 0x1000 + 1" and ?e = "len mod 0x1000"
  have k: "drop_bit 12 (len AND 0xf000) + 1 = ?k" using assms(6) by (simp only: and_sectors) simp
  have rdy: "ready ?p" "outputReportByteLength ?p = n" "all_sent out ?p = all_sent out phid"
    using assms(1,3) by (simp_all add: ready_def all_sent_def)
  have inv: "?k = 0 \<and> 0 = len \<or> ?k > 0 \<and> ?e + 0x1000 * (?k - 1) = len \<and> 0 \<le> ?e \<and> ?e - 0 = min ?e 0x1000" by simp
  have l: "length (replicate n (0::u8)) = n" by simp
  from fw_sectors_outcome [OF rdy(1,2) assms(4,5) l inv, of out log]
  obtain r ps where r: "fw_sectors out ?p data len ?k ?e 0 (replicate n 0) log = Some (r, log @ ps)"
    "\<forall>p \<in> set ps. length p = n"
    "all_sent out phid \<longrightarrow> r = EPHIDGET_OK \<and> map fst (sectors ?k ps) = map of_nat (rev [1..<Suc ?k]) \<and>
      (?k > 0 \<longrightarrow> map (\<lambda>s. length (snd s)) (sectors ?k ps) = (?e - 0) # replicate (?k - 1) 0x1000) \<and>
      concat (map snd (sectors ?k ps)) = drop 0 (take len data)"
    unfolding rdy(3) by (elim exE conjE) (rule that)
  have "?k > 0" by simp
  have "gpp_guard phid = EPHIDGET_OK" using assms(1,2) by (simp add: gpp_guard_def ready_def)
  then have u: "CPhidgetGPP_upgradeFirmware mem out tr phid data len log =
      (case GPP_getResponse (take_responses (arrived_before tr) ?p) FIRMWARE_UPGRADE_WRITE_SECTOR 200 tr of
         (result, phid) \<Rightarrow> Some (result, phid, log @ ps))"
    unfolding CPhidgetGPP_upgradeFirmware_def k and_low using r(1) assms(3) mem by (simp add: gpp_buffer_def del: fw_sectors.simps)
  have "Suc ?k = len div 0x1000 + 2" "?k - 1 = len div 0x1000" by simp_all
  with r(2,3) u \<open>?k > 0\<close> show ?thesis unfolding if_P [OF mem]
    by (intro exI [of _ ps]) (auto simp only: diff_zero drop_0 simp_thms list.map)
next
  case False
  then show ?thesis using assms(1,2) by (simp add: CPhidgetGPP_upgradeFirmware_def gpp_buffer_def gpp_guard_def ready_def)
qed

definition quiet :: traffic where
  "quiet = \<lparr>arrived_before = [], arrived_asleep = [], arrived_next = [], arrived_last = []\<rparr>"

theorem upgradeFirmware_roundtrip_witness:
  "\<exists>ps. snd (snd (the (CPhidgetGPP_upgradeFirmware (\<lambda>_. True) (\<lambda>_. Bytes 5) quiet demo_gpp [7, 8, 9, 10, 11, 12] 6 []))) = ps \<and>
     concat (map snd (sectors 1 ps)) = [7, 8, 9, 10, 11, 12]"
proof -
  have "(4::nat) \<le> 5" "6 \<le> length [7, 8, 9, 10, 11, 12 :: u8]" "(6::nat) < 0x10000" by simp_all
  from upgradeFirmware_roundtrip [OF demo_gpp(1-3) this, of "\<lambda>_. True" "[]" "\<lambda>_. Bytes 5" quiet] demo_gpp(4)
  show ?thesis
    by (cases "GPP_getResponse (take_responses (arrived_before quiet) (demo_gpp\<lparr>GPPResponse := 0\<rparr>)) FIRMWARE_UPGRADE_WRITE_SECTOR 200 quiet") auto
qed

text \<open>A firmware image of a multiple of 64 KiB is not sent: the only packet announces sector 1
  with 4096 bytes and carries none of the data, and the result is again the device's response.\<close>

theorem upgradeFirmware_64K_lost:
  assumes "ready phid" and "deviceSupportsGeneralUSBProtocol phid"
    and "outputReportByteLength phid = n" and "4 \<le> n" and "0 < q" and "mem (length log)"
  shows "CPhidgetGPP_upgradeFirmware mem out tr phid data (0x10000 * q) log =
      (case GPP_getResponse (take_responses (arrived_before tr) (phid\<lparr>GPPResponse := 0\<rparr>)) FIRMWARE_UPGRADE_WRITE_SECTOR 200 tr of
         (result, phid) \<Rightarrow> Some (result, phid, log @ [[0x86, 1, 0, 0x10] @ replicate (n - 4) 0]))"
proof -
  let ?p = "phid\<lparr>GPPResponse := 0\<rparr>" and ?len = "0x10000 * q"
  let ?buf = "[0x86, 1, 0, 0x10] @ replicate (n - 4) 0 :: u8 list"
  have k: "drop_bit 12 (?len AND 0xf000) + 1 = 1" 
  proof -
    have "?len div 0x1000 = 16 * q" by simp
    then show ?thesis by (simp only: and_sectors mod_mult_self1_is_0)
  qed
  have e: "?len AND 0xfff = 0" by (simp add: and_low)
  have rdy: "ready ?p" using assms(1) by (simp add: ready_def)
  have "length ?buf = outputReportByteLength ?p" using assms(3,4) by simp
  from send_ready [OF rdy this, of out log] obtain r where
    r: "send_packet out ?p ?buf log = Some (r, log @ [?buf])" by blast
  have h: "GENERAL_PACKET_FLAG OR packet_code FIRMWARE_UPGRADE_WRITE_SECTOR = 0x86" by (simp add: GENERAL_PACKET_FLAG_def)
  have s: "min (65536 * int q) 4096 = 4096" using assms(5) by (simp add: min_def)
  have d: "(0x1000 :: u8) = 0" by transfer simp
  have "fw_sectors out ?p data ?len (Suc 0) 0 0 (replicate n 0) log = Some (r, log @ [?buf])"
    using r sector_header [of "replicate n (0::u8)" n, OF length_replicate assms(4), simplified] assms(3) h
    by (simp add: s d Let_def gpp_fill.simps [of _ 0] gpp_continue.simps [of _ _ 0])
  moreover have "gpp_guard phid = EPHIDGET_OK" using assms(1,2) by (simp add: gpp_guard_def ready_def)
  ultimately show ?thesis unfolding CPhidgetGPP_upgradeFirmware_def k e using assms(3,6) by (simp add: gpp_buffer_def del: fw_sectors.simps)
qed

theorem upgradeFirmware_64K_lost_witness:
  "\<exists>result phid. CPhidgetGPP_upgradeFirmware (\<lambda>_. True) (\<lambda>_. Bytes 5) quiet demo_gpp (replicate 65536 1) (0x10000 * 1) [] =
     Some (result, phid, [[0x86, 1, 0, 0x10, 0]])"
proof -
  have "(4::nat) \<le> 5" "(0::nat) < 1" by simp_all
  from upgradeFirmware_64K_lost [OF demo_gpp(1-3) this, of "\<lambda>_. True" "[]" "\<lambda>_. Bytes 5" quiet "replicate 65536 1"]
  show ?thesis
    by (cases "GPP_getResponse (take_responses (arrived_before quiet) (demo_gpp\<lparr>GPPResponse := 0\<rparr>)) FIRMWARE_UPGRADE_WRITE_SECTOR 200 quiet") simp
qed

subsection \<open>Waiting for a response\<close>

text \<open>The response byte after responses \<open>bs\<close>, and after \<open>k\<close> sleeps.\<close>

definition latest :: "u8 \<Rightarrow> u8 list \<Rightarrow> u8" where
  "latest r bs = last (r # filter (\<lambda>b. b AND 0x3f \<noteq> 0) bs)"

definition response_after :: "u8 \<Rightarrow> u8 list list \<Rightarrow> nat \<Rightarrow> u8" where
  "response_after r arrivals k = latest r (concat (take k arrivals))"

lemma response_after_0 [simp]: "response_after r arrivals 0 = r"
  by (simp add: response_after_def latest_def)

lemma response_after_Suc:
  "response_after r arrivals (Suc k) = response_after (response_after r arrivals 1) (tl arrivals) k"
  by (cases arrivals) (auto simp: response_after_def latest_def last_append)

lemma take_responses_eq: "take_responses bs phid = phid\<lparr>GPPResponse := latest (GPPResponse phid) bs\<rparr>"
  by (induction bs arbitrary: phid) (auto simp: take_responses_def latest_def last_append)

lemma find_upt_Suc: "List.find P [0..<Suc n] = (if P 0 then Some 0 else map_option Suc (List.find (\<lambda>k. P (Suc k)) [0..<n]))"
proof -
  have m: "List.find P (map Suc ks) = map_option Suc (List.find (\<lambda>k. P (Suc k)) ks)" for ks by (induction ks) auto
  have "[0..<Suc n] = 0 # map Suc [0..<n]" by (metis map_Suc_upt upt_conv_Cons zero_less_Suc)
  then show ?thesis by (simp add: m del: upt_Suc)
qed

lemma GPP_wait_unfold:
  "GPP_wait phid ty timeout arrivals =
     (if GPPResponse phid AND 0x3f \<noteq> packet_code ty \<and> timeout > 0
      then GPP_wait (phid\<lparr>GPPResponse := response_after (GPPResponse phid) arrivals 1\<rparr>) ty (timeout - 20) (tl arrivals)
      else phid)"
proof -
  have "take_responses (case arrivals of [] \<Rightarrow> [] | bs # _ \<Rightarrow> bs) phid =
      phid\<lparr>GPPResponse := response_after (GPPResponse phid) arrivals 1\<rparr>"
    by (cases arrivals) (simp_all add: take_responses_eq response_after_def)
  then show ?thesis by (subst GPP_wait.simps) (simp only:)
qed

lemma GPP_wait_eq:
  "timeout = 20 * int n \<Longrightarrow> GPP_wait phid ty timeout arrivals = phid\<lparr>GPPResponse := response_after (GPPResponse phid) arrivals
    (case List.find (\<lambda>k. response_after (GPPResponse phid) arrivals k AND 0x3f = packet_code ty) [0..<Suc n] of
       None \<Rightarrow> n | Some k \<Rightarrow> k)\<rparr>"
proof (induction n arbitrary: phid timeout arrivals)
  case 0
  then show ?case by (subst GPP_wait_unfold) simp
next
  case (Suc n)
  have t: "timeout - 20 = 20 * int n" "timeout > 0" using Suc.prems by auto
  show ?case
    using t(2) Suc.IH [OF t(1), of "phid\<lparr>GPPResponse := response_after (GPPResponse phid) arrivals 1\<rparr>" "tl arrivals"]
    by (subst GPP_wait_unfold, subst find_upt_Suc)
      (auto simp: response_after_Suc [symmetric, unfolded One_nat_def] simp del: upt_Suc split: option.splits)
qed

text \<open>C32. Waiting for a response is the bounded search for it: \<^verbatim>\<open>GPP_getResponse\<close> with a
  timeout of \<open>n\<close> times 20 ms looks at the response byte at most \<open>n\<close> + 1 times, takes the
  first one whose code is that of the packet, whatever arrives later, and tells a failed command from
  a missing response.  The byte is read again after the search: of responses that arrive between these reads the last one
  counts, so another response can hide the one that was found, or lend it its failure flag.\<close>

theorem getResponse_is_search:
  "fst (GPP_getResponse phid ty (20 * int n) \<lparr>arrived_before = early, arrived_asleep = arrivals, arrived_next = [], arrived_last = []\<rparr>) =
     (case List.find (\<lambda>k. response_after (GPPResponse phid) arrivals k AND 0x3f = packet_code ty) [0..<Suc n] of
        None \<Rightarrow> EPHIDGET_TIMEOUT
      | Some k \<Rightarrow> if response_after (GPPResponse phid) arrivals k AND GENERAL_PACKET_FAIL \<noteq> 0
          then EPHIDGET_UNEXPECTED else EPHIDGET_OK) \<and>
   fst (GPP_getResponse phid ty (20 * int n) tr) =
     (let found = response_after (GPPResponse phid) (arrived_asleep tr)
            (case List.find (\<lambda>k. response_after (GPPResponse phid) (arrived_asleep tr) k AND 0x3f = packet_code ty) [0..<Suc n] of
               None \<Rightarrow> n | Some k \<Rightarrow> k);
          second = latest found (arrived_next tr);
          third = latest second (arrived_last tr) in
      if second AND 0x3f \<noteq> packet_code ty then EPHIDGET_TIMEOUT
      else if third AND GENERAL_PACKET_FAIL \<noteq> 0 then EPHIDGET_UNEXPECTED else EPHIDGET_OK)"
proof
  show "fst (GPP_getResponse phid ty (20 * int n) \<lparr>arrived_before = early, arrived_asleep = arrivals, arrived_next = [], arrived_last = []\<rparr>) =
     (case List.find (\<lambda>k. response_after (GPPResponse phid) arrivals k AND 0x3f = packet_code ty) [0..<Suc n] of
        None \<Rightarrow> EPHIDGET_TIMEOUT
      | Some k \<Rightarrow> if response_after (GPPResponse phid) arrivals k AND GENERAL_PACKET_FAIL \<noteq> 0
          then EPHIDGET_UNEXPECTED else EPHIDGET_OK)"
  proof (cases "List.find (\<lambda>k. response_after (GPPResponse phid) arrivals k AND 0x3f = packet_code ty) [0..<Suc n]")
    case None
    then have "response_after (GPPResponse phid) arrivals n AND 0x3f \<noteq> packet_code ty"
      by (simp add: find_None_iff del: upt_Suc)
    then show ?thesis by (simp add: GPP_getResponse_def GPP_wait_eq take_responses_eq latest_def None del: upt_Suc)
  next
    case (Some k)
    then have "response_after (GPPResponse phid) arrivals k AND 0x3f = packet_code ty"
      by (auto simp: find_Some_iff simp del: upt_Suc)
    then show ?thesis by (simp add: GPP_getResponse_def GPP_wait_eq take_responses_eq latest_def Some del: upt_Suc)
  qed
qed (simp add: GPP_getResponse_def GPP_wait_eq take_responses_eq Let_def del: upt_Suc)

end
