(* ===== verification/Label.thy ===== *)
theory Label
  imports Gpp
begin

text \<open>
  Device labels (\<^verbatim>\<open>cphidget.c\<close>, \<^verbatim>\<open>linux/cusblinux-1.0.c\<close>): converting
  a label to the USB string descriptor and back, the wrap-around bug of the older devices, and
  \<^verbatim>\<open>CPhidget_setDeviceLabel\<close>, which writes a label, reads it back and repairs or clears it.
  \<^verbatim>\<open>iconv\<close> is a parameter, a function from the input and the room for the output, and so
  is the device, a function from what was sent to it.
\<close>

subsection \<open>Conversions\<close>

definition MAX_LABEL_SIZE :: nat where "MAX_LABEL_SIZE = 10"

text \<open>What \<^verbatim>\<open>iconv_open\<close> and \<^verbatim>\<open>iconv\<close> do: the output, or an error after a part of it.\<close>

datatype errno = EILSEQ | EINVAL | E2BIG | EOTHER
datatype iconv_ret = Open_failed | Converted "u8 list" | Iconv_failed errno "u8 list"

text \<open>\<^verbatim>\<open>encodeLabelString\<close>: \<open>outLen\<close> is \<open>None\<close> for null pointers, and the second result the
  bytes that are copied to \<^verbatim>\<open>out\<close>.  A conversion that overruns the local array is undefined.\<close>

definition encodeLabelString ::
    "(u8 list \<Rightarrow> nat \<Rightarrow> iconv_ret) \<Rightarrow> u8 list \<Rightarrow> nat option \<Rightarrow> (ephidget \<times> u8 list option) option" where
  "encodeLabelString to16 buffer outLen = do {
     n \<leftarrow> strlen buffer;
     case to16 (take n buffer) (MAX_LABEL_SIZE * 2) of
       Open_failed \<Rightarrow> Some (EPHIDGET_UNEXPECTED, None)
     | Iconv_failed e _ \<Rightarrow> Some (if e = EOTHER then EPHIDGET_UNEXPECTED else EPHIDGET_INVALIDARG, None)
     | Converted bs \<Rightarrow> if length bs > MAX_LABEL_SIZE * 2 then None
         else Some (EPHIDGET_OK, map_option (\<lambda>n. take n bs) outLen) }"

text \<open>\<^verbatim>\<open>UTF16toUTF8\<close>: a negative length becomes a huge \<^verbatim>\<open>size_t\<close>.  When the length
  goes beyond the array, \<^verbatim>\<open>iconv\<close>, which converts one character after the other, may still stop inside
  it: at a malformed character, when the output is full, or because it could not start.  When it gets through the bytes that
  are there, or holds the first bytes of an incomplete character, it reads on behind the array.\<close>

definition UTF16toUTF8 ::
    "(u8 list \<Rightarrow> nat \<Rightarrow> iconv_ret) \<Rightarrow> u8 list \<Rightarrow> int \<Rightarrow> u8 list \<Rightarrow> (ephidget \<times> u8 list) option" where
  "UTF16toUTF8 to8 in16 inLen out =
     (let inBytes = nat (size_t_of_int inLen); beyond = inBytes > length in16 in
      case to8 (take inBytes in16) MAX_LABEL_STORAGE of
        Open_failed \<Rightarrow> Some (EPHIDGET_UNEXPECTED, out)
      | Iconv_failed e bs \<Rightarrow> if beyond \<and> e = EINVAL then None
          else do { out \<leftarrow> blit out 0 bs; Some (EPHIDGET_UNEXPECTED, out) }
      | Converted bs \<Rightarrow> if beyond then None else do { out \<leftarrow> blit out 0 bs; Some (EPHIDGET_OK, out) })"

subsection \<open>The wrap-around bug\<close>

text \<open>\<^verbatim>\<open>"%d"\<close>.\<close>

fun digits :: "nat \<Rightarrow> u8 list" where
  "digits n = (if n < 10 then [0x30 + of_nat n] else digits (n div 10) @ [0x30 + of_nat (n mod 10)])"

declare digits.simps [simp del]

definition int_str :: "int \<Rightarrow> u8 list" where
  "int_str x = (if x < 0 then 0x2d # digits (nat (- x)) else digits (nat x))"

text \<open>The first bytes of the serial number's string descriptor.\<close>

definition error_bytes :: "int \<Rightarrow> u8 list" where
  "error_bytes serial = (let s = take 7 (int_str serial) in
     [of_nat (length s * 2 + 2), 0x03, if length s \<ge> 1 then s ! 0 else 0, 0, if length s \<ge> 2 then s ! 1 else 0, 0])"

fun all_zero :: "u8 list \<Rightarrow> nat list \<Rightarrow> bool option" where
  "all_zero buf [] = Some True"
| "all_zero buf (i # is) = do { b \<leftarrow> cread buf i; if b \<noteq> 0 then Some False else all_zero buf is }"

definition labelHasWrapError :: "int \<Rightarrow> u8 list \<Rightarrow> bool option" where
  "labelHasWrapError serial labelBuf = do {
     b \<leftarrow> cread labelBuf 0;
     if sint b \<le> 16 then Some False
     else do {
       ascii \<leftarrow> all_zero labelBuf [3, 5, 7, 9, 11, 13, 15];
       if \<not> ascii then Some False
       else do {
         r \<leftarrow> strncmp (nat (sint b - 16)) (drop 16 labelBuf) (error_bytes serial);
         Some (r = 0) } } }"

text \<open>\<^verbatim>\<open>decodeLabelString\<close>; \<open>out\<close> is the label array of the handle, \<^verbatim>\<open>labelBuf\<close> a
  local of the caller.  A wrapped label is cut first; then the text is taken from the descriptor.\<close>

definition truncate_wrapped :: "int \<Rightarrow> u8 list \<Rightarrow> u8 list option" where
  "truncate_wrapped serial labelBuf = do {
     wrap \<leftarrow> labelHasWrapError serial labelBuf;
     if wrap then do {
       b \<leftarrow> cread labelBuf 0;
       labelBuf \<leftarrow> cfor [16..<nat (sint b)] (\<lambda>i buf. cwrite buf i 0) labelBuf;
       cwrite labelBuf 0 16 }
     else Some labelBuf }"

definition label_text ::
    "(u8 list \<Rightarrow> nat \<Rightarrow> iconv_ret) \<Rightarrow> u8 list \<Rightarrow> u8 list \<Rightarrow> (ephidget \<times> u8 list) option" where
  "label_text to8 labelBuf out = do {
     b \<leftarrow> cread labelBuf 0;
     utf8 \<leftarrow> (if sint b > 4 then do {
         b2 \<leftarrow> cread labelBuf 2;
         b3 \<leftarrow> cread labelBuf 3;
         Some (b2 = 0xff \<and> b3 = 0xff) }
       else Some False);
     if utf8 then
       if nat (sint b) > length labelBuf then None
       else do {
         out \<leftarrow> blit out 0 (take (nat (sint b) - 4) (drop 4 labelBuf));
         out \<leftarrow> cwrite out (nat (sint b) - 4) 0;
         Some (EPHIDGET_OK, out) }
     else UTF16toUTF8 to8 (drop 2 labelBuf) (sint b - 2) out }"

definition decodeLabelString ::
    "(u8 list \<Rightarrow> nat \<Rightarrow> iconv_ret) \<Rightarrow> u8 list \<Rightarrow> u8 list \<Rightarrow> int \<Rightarrow> (ephidget \<times> u8 list) option" where
  "decodeLabelString to8 labelBuf out serial = do {
     out \<leftarrow> blit out 0 (replicate MAX_LABEL_STORAGE 0);
     labelBuf \<leftarrow> truncate_wrapped serial labelBuf;
     label_text to8 labelBuf out }"

subsection \<open>Setting and reading the label\<close>

text \<open>What was sent to the device: packets, and string descriptors by control transfers.\<close>

record label_io =
  packets :: "u8 list list"
  descriptors :: "u8 list list"

text \<open>\<^verbatim>\<open>CUSBSetLabel\<close>: \<open>ctl\<close> is the value of \<^verbatim>\<open>libusb_control_transfer\<close>.  The
  buffers of the packets can be allocated here.\<close>

definition CUSBSetLabel ::
    "(nat \<Rightarrow> usb_ret) \<Rightarrow> (label_io \<Rightarrow> u8 list \<Rightarrow> int) \<Rightarrow> cphidget \<Rightarrow> u8 list \<Rightarrow> label_io \<Rightarrow> (ephidget \<times> label_io) option" where
  "CUSBSetLabel out ctl phid buffer io =
     (if deviceSupportsGeneralUSBProtocol phid
      then do { (r, ps) \<leftarrow> CPhidgetGPP_setLabel (\<lambda>_. True) out phid buffer (packets io); Some (r, io\<lparr>packets := ps\<rparr>) }
      else do {
        b \<leftarrow> cread buffer 0;
        let size = sint b;
        if size > 22 then Some (EPHIDGET_INVALID, io)
        else if \<not> is_set phid PHIDGET_ATTACHED_FLAG \<and> \<not> is_set phid PHIDGET_ATTACHING_FLAG
        then Some (EPHIDGET_NOTATTACHED, io)
        else if \<not> deviceHandle phid then Some (EPHIDGET_UNEXPECTED, io)
        else if size < 0 \<or> nat size > length buffer then None
        else let n = ctl io (take (nat size) buffer); io = io\<lparr>descriptors := descriptors io @ [take (nat size) buffer]\<rparr> in
          Some (if n < 0 then EPHIDGET_UNSUPPORTED else if n \<noteq> size then EPHIDGET_UNEXPECTED else EPHIDGET_OK, io) })"

text \<open>What libusb answers to \<^verbatim>\<open>getLabelString\<close>: no device descriptor, no string number 3
  for the serial number, no string, or the bytes of the string descriptor.\<close>

datatype label_read = Desc_failed | No_serial_string | String_failed | String "u8 list"

definition getLabelString ::
    "(u8 list \<Rightarrow> nat \<Rightarrow> iconv_ret) \<Rightarrow> label_read \<Rightarrow> cphidget \<Rightarrow> (ephidget \<times> cphidget) option" where
  "getLabelString to8 rd phid =
     (case rd of
        Desc_failed \<Rightarrow> Some (EPHIDGET_UNEXPECTED, phid)
      | String bs \<Rightarrow> do {
          labelBuf \<leftarrow> blit (replicate 22 0) 0 bs;
          (r, l) \<leftarrow> decodeLabelString to8 labelBuf (label phid) (serialNumber phid);
          Some (r, phid\<lparr>label := l\<rparr>) }
      | _ \<Rightarrow> do { l \<leftarrow> cwrite (label phid) 0 0; Some (EPHIDGET_OK, phid\<lparr>label := l\<rparr>) })"

definition CUSBRefreshLabelString ::
    "(u8 list \<Rightarrow> nat \<Rightarrow> iconv_ret) \<Rightarrow> (label_io \<Rightarrow> label_read) \<Rightarrow> label_io \<Rightarrow> cphidget \<Rightarrow> (ephidget \<times> cphidget) option" where
  "CUSBRefreshLabelString to8 rd io phid = getLabelString to8 (rd io) phid"

text \<open>\<^verbatim>\<open>strcmp\<close>\<close>

fun strcmp :: "u8 list \<Rightarrow> u8 list \<Rightarrow> int option" where
  "strcmp (x # a) (y # b) =
     (if x \<noteq> y then Some (if x < y then - 1 else 1) else if x = 0 then Some 0 else strcmp a b)"
| "strcmp a b = None"

text \<open>The label of the record in \<^verbatim>\<open>AttachedDevices\<close>.\<close>

fun attached_set_label :: "cphidget \<Rightarrow> u8 list \<Rightarrow> cphidget list \<Rightarrow> cphidget list option" where
  "attached_set_label phid s [] = Some []"
| "attached_set_label phid s (d # ds) =
     (if CPhidget_areEqual d phid then do { l \<leftarrow> blit (label d) 0 (s @ [0]); Some (d\<lparr>label := l\<rparr> # ds) }
      else map_option ((#) d) (attached_set_label phid s ds))"

definition clear_label ::
    "(nat \<Rightarrow> usb_ret) \<Rightarrow> (label_io \<Rightarrow> u8 list \<Rightarrow> int) \<Rightarrow> cphidget \<Rightarrow> label_io \<Rightarrow> label_io option" where
  "clear_label out ctl phid io = map_option snd (CUSBSetLabel out ctl phid ([2, 3] @ replicate 20 0) io)"

text \<open>From the label \<^verbatim>\<open>refresh\<close> on: the result, the handle, the attached devices and what was sent.\<close>

function label_refresh ::
    "(u8 list \<Rightarrow> nat \<Rightarrow> iconv_ret) \<Rightarrow> (nat \<Rightarrow> usb_ret) \<Rightarrow> (label_io \<Rightarrow> u8 list \<Rightarrow> int) \<Rightarrow> (label_io \<Rightarrow> label_read) \<Rightarrow> u8 list \<Rightarrow>
       bool \<Rightarrow> u8 list \<Rightarrow> cphidget \<Rightarrow> cphidget list \<Rightarrow> label_io \<Rightarrow> (ephidget \<times> cphidget \<times> cphidget list \<times> label_io) option" where
  "label_refresh to8 out ctl rd buffer triedUTF8 buffer2 phid attached io = do {
     (ret, phid) \<leftarrow> CUSBRefreshLabelString to8 rd io phid;
     if ret \<noteq> EPHIDGET_OK then do { io \<leftarrow> clear_label out ctl phid io; Some (ret, phid, attached, io) }
     else do {
       cmp \<leftarrow> strcmp buffer (label phid);
       if cmp = 0 then do {
         n \<leftarrow> strlen buffer;
         attached \<leftarrow> attached_set_label phid (take n buffer) attached;
         Some (EPHIDGET_OK, phid, attached, io) }
       else do {
         b \<leftarrow> cread buffer2 0;
         cmp7 \<leftarrow> strncmp 7 buffer (label phid);
         n \<leftarrow> strlen buffer;
         if sint b > 16 \<and> cmp7 = 0 \<and> \<not> triedUTF8 then
           if n \<le> 12 then do {
             buffer2 \<leftarrow> blit buffer2 4 (take n buffer @ [0]);
             buffer2 \<leftarrow> cwrite buffer2 0 (of_nat (n + 4));
             buffer2 \<leftarrow> cwrite buffer2 2 0xff;
             buffer2 \<leftarrow> cwrite buffer2 3 0xff;
             (ret, io) \<leftarrow> CUSBSetLabel out ctl phid buffer2 io;
             if ret = EPHIDGET_OK then label_refresh to8 out ctl rd buffer True buffer2 phid attached io
             else do { io \<leftarrow> clear_label out ctl phid io; Some (ret, phid, attached, io) } }
           else do { io \<leftarrow> clear_label out ctl phid io; Some (EPHIDGET_INVALIDARG, phid, attached, io) }
         else do { io \<leftarrow> clear_label out ctl phid io; Some (EPHIDGET_UNEXPECTED, phid, attached, io) } } } }"
  by pat_completeness auto
termination
  by (relation "measure (\<lambda>(to8, out, ctl, rd, buffer, tried, _). if tried then 0 else 1)") auto

declare label_refresh.simps [simp del]

text \<open>\<^verbatim>\<open>CPhidget_setDeviceLabel\<close> for a device on this machine.\<close>

definition CPhidget_setDeviceLabel ::
    "(u8 list \<Rightarrow> nat \<Rightarrow> iconv_ret) \<Rightarrow> (u8 list \<Rightarrow> nat \<Rightarrow> iconv_ret) \<Rightarrow> (nat \<Rightarrow> usb_ret) \<Rightarrow>
       (label_io \<Rightarrow> u8 list \<Rightarrow> int) \<Rightarrow> (label_io \<Rightarrow> label_read) \<Rightarrow> cphidget \<Rightarrow> u8 list \<Rightarrow> cphidget list \<Rightarrow> label_io \<Rightarrow>
       (ephidget \<times> cphidget \<times> cphidget list \<times> label_io) option" where
  "CPhidget_setDeviceLabel to16 to8 out ctl rd phid buffer attached io =
     (if \<not> is_set phid PHIDGET_ATTACHED_FLAG then Some (EPHIDGET_NOTATTACHED, phid, attached, io)
      else do {
        (ret, bs) \<leftarrow> encodeLabelString to16 buffer (Some (MAX_LABEL_SIZE * 2));
        case bs of
          None \<Rightarrow> Some (ret, phid, attached, io)
        | Some bs \<Rightarrow> do {
            buffer2 \<leftarrow> blit (replicate (MAX_LABEL_SIZE * 2 + 2) 0) 2 bs;
            buffer2 \<leftarrow> cwrite buffer2 0 (of_nat (length bs + 2));
            buffer2 \<leftarrow> cwrite buffer2 1 3;
            wrap \<leftarrow> labelHasWrapError (serialNumber phid) buffer2;
            if wrap then Some (EPHIDGET_INVALIDARG, phid, attached, io)
            else do {
              (ret, io) \<leftarrow> CUSBSetLabel out ctl phid buffer2 io;
              if ret \<noteq> EPHIDGET_OK then Some (ret, phid, attached, io)
              else label_refresh to8 out ctl rd buffer False buffer2 phid attached io } } })"

subsection \<open>Lemmas\<close>

lemma strcmp_eq_iff: "0 \<in> set a \<Longrightarrow> 0 \<in> set b \<Longrightarrow> \<exists>r. strcmp a b = Some r \<and> (r = 0 \<longleftrightarrow> cstring a = cstring b)"
  by (induction a b rule: strcmp.induct) (auto simp: cstring_def)

lemma strncmp_defined: "n \<le> length a \<Longrightarrow> n \<le> length b \<Longrightarrow> \<exists>r. strncmp n a b = Some r"
  by (induction n a b rule: strncmp.induct) auto

lemma strncmp_defined_nul: "0 \<in> set a \<Longrightarrow> 0 \<in> set b \<Longrightarrow> \<exists>r. strncmp n a b = Some r"
  by (induction n a b rule: strncmp.induct) auto

lemma strncmp_refl: "n \<le> length a \<Longrightarrow> strncmp n a (a @ b) = Some 0"
  by (induction n a "a @ b" rule: strncmp.induct) auto

lemma length_error_bytes [simp]: "length (error_bytes serial) = 6"
  by (simp add: error_bytes_def Let_def)

lemma all_zero_defined: "\<forall>i \<in> set is. i < length buf \<Longrightarrow> \<exists>r. all_zero buf is = Some r"
  by (induction "is") (auto simp: cread_def)

lemma all_zero_True: "all_zero buf is = Some True \<longleftrightarrow> (\<forall>i \<in> set is. i < length buf \<and> buf ! i = 0)"
  by (induction "is") (auto simp: cread_def)

lemma wrap_defined:
  assumes "length buf = 22" and "sint (hd buf) \<le> 22"
  shows "\<exists>r. labelHasWrapError serial buf = Some r"
proof -
  obtain a where a: "all_zero buf [3, 5, 7, 9, 11, 13, 15] = Some a" 
    using all_zero_defined [of "[3, 5, 7, 9, 11, 13, 15]" buf] assms by auto
  obtain r where r: "strncmp (nat (sint (hd buf) - 16)) (drop 16 buf) (error_bytes serial) = Some r"
    using strncmp_defined [of "nat (sint (hd buf) - 16)" "drop 16 buf" "error_bytes serial"] assms
    by (simp add: nat_le_iff) blast
  have "cread buf 0 = Some (hd buf)" using assms by (cases buf) (auto simp: cread_def)
  then show ?thesis using a r by (cases a) (auto simp: labelHasWrapError_def)
qed

lemma wrap_short: "buf \<noteq> [] \<Longrightarrow> sint (hd buf) \<le> 16 \<Longrightarrow> labelHasWrapError serial buf = Some False"
  by (cases buf) (auto simp: labelHasWrapError_def cread_def)

lemma zero_tail:
  "b \<le> length buf \<Longrightarrow> a \<le> b \<Longrightarrow> cfor [a..<b] (\<lambda>i buf. cwrite buf i 0) buf = Some (take a buf @ replicate (b - a) (0::u8) @ drop b buf)"
proof (induction b)
  case (Suc b)
  show ?case
  proof (cases "a = Suc b")
    case False
    then have ab: "a \<le> b" using Suc.prems by simp
    have b: "b < length buf" using Suc.prems by simp
    have "replicate (Suc b - a) (0::u8) = replicate (b - a) 0 @ [0]" using ab by (simp add: Suc_diff_le replicate_append_same)
    moreover have "drop b buf = buf ! b # drop (Suc b) buf" using b by (simp add: Cons_nth_drop_Suc)
    moreover have "length (take a buf @ replicate (b - a) 0) = b" using ab b by simp
    ultimately have "cwrite (take a buf @ replicate (b - a) 0 @ drop b buf) b 0 = Some (take a buf @ replicate (Suc b - a) 0 @ drop (Suc b) buf)"
      using cwrite_append [of "take a buf @ replicate (b - a) 0" b "buf ! b" "drop (Suc b) buf" 0] by simp
    then show ?thesis using Suc ab by (simp add: cfor_snoc)
  qed simp
qed simp

text \<open>What the code relies on in \<^verbatim>\<open>iconv\<close>: it stays within the output buffer, and a
  UTF-16 unit of two bytes gives at most three bytes of UTF-8.\<close>

definition iconv16_ok :: "(u8 list \<Rightarrow> nat \<Rightarrow> iconv_ret) \<Rightarrow> bool" where
  "iconv16_ok to16 \<longleftrightarrow> (\<forall>s n bs. to16 s n = Converted bs \<longrightarrow> length bs \<le> n)"

definition iconv8_ok :: "(u8 list \<Rightarrow> nat \<Rightarrow> iconv_ret) \<Rightarrow> bool" where
  "iconv8_ok to8 \<longleftrightarrow> (\<forall>s n bs. to8 s n = Converted bs \<or> (\<exists>e. to8 s n = Iconv_failed e bs) \<longrightarrow>
     length bs \<le> n \<and> 2 * length bs \<le> 3 * length s)"

lemma UTF16toUTF8_outcome:
  assumes "iconv8_ok to8" and "length in16 = 20" and "0 \<le> inLen" and "inLen \<le> 20"
  shows "\<exists>r l. UTF16toUTF8 to8 in16 inLen (replicate 41 0) = Some (r, l) \<and> length l = 41 \<and> 0 \<in> set l"
proof -
  have s: "size_t_of_int inLen = inLen" using assms by (simp add: size_t_of_int_def)
  have b: "\<exists>l. blit (replicate 41 0) 0 bs = Some l \<and> length l = 41 \<and> 0 \<in> set l"
    if "to8 (take (nat (size_t_of_int inLen)) in16) MAX_LABEL_STORAGE = Converted bs \<or>
      to8 (take (nat (size_t_of_int inLen)) in16) MAX_LABEL_STORAGE = Iconv_failed e bs" for bs e
  proof -
    have "2 * length bs \<le> 3 * length (take (nat (size_t_of_int inLen)) in16)" using assms(1) that unfolding iconv8_ok_def by blast
    then have "length bs \<le> 30" using assms s by simp
    then show ?thesis by (auto simp: blit_def)
  qed
  show ?thesis
  proof (cases "to8 (take (nat (size_t_of_int inLen)) in16) MAX_LABEL_STORAGE")
    case (Iconv_failed e bs)
    then show ?thesis using b [of bs e] s assms by (auto simp: UTF16toUTF8_def Let_def)
  next
    case (Converted bs)
    then show ?thesis using b [of bs] s assms by (auto simp: UTF16toUTF8_def Let_def)
  qed (use s assms in \<open>auto simp: UTF16toUTF8_def Let_def\<close>)
qed

lemma cread_hd: "buf \<noteq> [] \<Longrightarrow> cread buf 0 = Some (hd buf)"
  by (cases buf) (auto simp: cread_def)

lemma truncate_outcome:
  assumes "length buf = 22" and "2 \<le> sint (hd buf)" and "sint (hd buf) \<le> 22"
  shows "\<exists>b. truncate_wrapped serial buf = Some b \<and> length b = 22 \<and> 2 \<le> sint (hd b) \<and> sint (hd b) \<le> 22 \<and>
    (labelHasWrapError serial buf = Some True \<longrightarrow> b = 16 # tl (take 16 buf) @ replicate (nat (sint (hd buf)) - 16) 0 @ drop (nat (sint (hd buf))) buf) \<and>
    (labelHasWrapError serial buf = Some False \<longrightarrow> b = buf)"
proof -
  have ne: "buf \<noteq> []" using assms(1) by auto
  obtain w where w: "labelHasWrapError serial buf = Some w" using wrap_defined assms by blast
  show ?thesis
  proof (cases w)
    case False
    then show ?thesis using w assms by (simp add: truncate_wrapped_def)
  next
    case True
    have b: "sint (hd buf) > 16" using wrap_short [OF ne] w True by (metis not_le option.inject)
    let ?b = "take 16 buf @ replicate (nat (sint (hd buf)) - 16) 0 @ drop (nat (sint (hd buf))) buf"
    have z: "cfor [16..<nat (sint (hd buf))] (\<lambda>i buf. cwrite buf i 0) buf = Some ?b"
      using zero_tail [of "nat (sint (hd buf))" buf 16] assms b by simp
    have c: "cwrite ?b 0 16 = Some (16 # tl ?b)" using ne by (intro cwrite_0) auto
    have "tl ?b = tl (take 16 buf) @ replicate (nat (sint (hd buf)) - 16) 0 @ drop (nat (sint (hd buf))) buf"
      using ne by (cases buf) auto
    then show ?thesis using w True z c assms b by (simp add: truncate_wrapped_def cread_hd [OF ne])
  qed
qed

lemma label_text_outcome:
  assumes "iconv8_ok to8" and "length buf = 22" and "2 \<le> sint (hd buf)" and "sint (hd buf) \<le> 22"
  shows "\<exists>r l. label_text to8 buf (replicate 41 0) = Some (r, l) \<and> length l = 41 \<and> 0 \<in> set l"
proof -
  have ne: "buf \<noteq> []" using assms(2) by auto
  have u: "\<exists>r l. UTF16toUTF8 to8 (drop 2 buf) (sint (hd buf) - 2) (replicate 41 0) = Some (r, l) \<and> length l = 41 \<and> 0 \<in> set l"
    using assms by (intro UTF16toUTF8_outcome) auto
  have "\<exists>l. blit (replicate 41 0) 0 (take (nat (sint (hd buf)) - 4) (drop 4 buf)) = Some l \<and> length l = 41"
    using assms by (simp add: blit_def)
  then obtain l where l: "blit (replicate 41 0) 0 (take (nat (sint (hd buf)) - 4) (drop 4 buf)) = Some l" "length l = 41" by blast
  have c: "cwrite l (nat (sint (hd buf)) - 4) 0 = Some (l[nat (sint (hd buf)) - 4 := 0])"
    "0 \<in> set (l[nat (sint (hd buf)) - 4 := 0])"
    using assms l by (auto simp: cwrite_def set_update_memI)
  have "cread buf 2 = Some (buf ! 2)" "cread buf 3 = Some (buf ! 3)" using assms(2) by (simp_all add: cread_def)
  then show ?thesis using u l c assms by (auto simp: label_text_def cread_hd [OF ne])
qed

lemma decode_outcome:
  assumes "iconv8_ok to8" and "length buf = 22" and "2 \<le> sint (hd buf)" and "sint (hd buf) \<le> 22" and "length out = 41"
  shows "\<exists>r l. decodeLabelString to8 buf out serial = Some (r, l) \<and> length l = 41 \<and> 0 \<in> set l"
proof -
  obtain b where b: "truncate_wrapped serial buf = Some b" "length b = 22" "2 \<le> sint (hd b)" "sint (hd b) \<le> 22"
    using truncate_outcome [OF assms(2-4), of serial] by blast
  have "blit out 0 (replicate MAX_LABEL_STORAGE 0) = Some (replicate 41 0)"
    using assms(5) by (simp add: blit_def MAX_LABEL_STORAGE_def)
  then show ?thesis using label_text_outcome [OF assms(1) b(2-4)] b(1) by (simp add: decodeLabelString_def)
qed

lemma zero_tail_overrun: "a \<le> length buf \<Longrightarrow> length buf < b \<Longrightarrow> cfor [a..<b] (\<lambda>i buf. cwrite buf i (0::u8)) buf = None"
proof -
  assume ab: "a \<le> length buf" "length buf < b"
  then obtain k where "b = length buf + Suc k" using less_natE by auto
  then have "[a..<b] = [a..<length buf] @ length buf # [Suc (length buf)..<b]"
    using ab upt_add_eq_append [of a "length buf" "Suc k"] by (simp add: upt_conv_Cons)
  then show ?thesis using zero_tail [of "length buf" buf a] ab by (simp add: cfor_append cwrite_def)
qed

text \<open>\<^verbatim>\<open>iconv\<close> finds no malformed character in these bytes and has room for them.\<close>

definition goes_through :: "iconv_ret \<Rightarrow> bool" where
  "goes_through r \<longleftrightarrow> (case r of Converted bs \<Rightarrow> True | Iconv_failed e bs \<Rightarrow> e = EINVAL | Open_failed \<Rightarrow> False)"

lemma truncate_undefined:
  assumes "length buf = 22" and "sint (hd buf) < 2 \<or> 22 < sint (hd buf)"
  shows "truncate_wrapped serial buf = None \<or> truncate_wrapped serial buf = Some buf"
proof (cases "labelHasWrapError serial buf")
  case (Some w)
  have ne: "buf \<noteq> []" using assms(1) by auto
  show ?thesis
  proof (cases w)
    case True
    then have "\<not> sint (hd buf) \<le> 16" using wrap_short [OF ne] Some by (metis option.inject)
    then have "22 < sint (hd buf)" using assms(2) by simp
    then have "cfor [16..<nat (sint (hd buf))] (\<lambda>i buf. cwrite buf i 0) buf = None"
      using assms(1) by (intro zero_tail_overrun) auto
    then show ?thesis using Some True by (simp add: truncate_wrapped_def cread_hd [OF ne])
  qed (use Some in \<open>simp add: truncate_wrapped_def\<close>)
qed (simp add: truncate_wrapped_def)

lemma UTF16_beyond:
  assumes "length in16 = 20" and "inLen < 0 \<or> 20 < inLen" and "- 130 \<le> inLen" and "inLen < 128"
  shows "UTF16toUTF8 to8 in16 inLen out = None \<or> (\<exists>l. UTF16toUTF8 to8 in16 inLen out = Some (EPHIDGET_UNEXPECTED, l))"
    and "goes_through (to8 in16 MAX_LABEL_STORAGE) \<Longrightarrow> UTF16toUTF8 to8 in16 inLen out = None"
proof -
  have "20 < size_t_of_int inLen"
  proof (cases "inLen < 0")
    case True
    have "inLen mod 2 ^ 64 = (inLen + 2 ^ 64) mod 2 ^ 64" by (simp only: mod_add_self2)
    also have "\<dots> = inLen + 2 ^ 64" by (rule mod_pos_pos_trivial) (use True assms(3) in auto)
    finally show ?thesis using assms(3) unfolding size_t_of_int_def by simp
  next
    case False
    then show ?thesis using assms(2,4) by (simp add: size_t_of_int_def)
  qed
  then have b: "20 < nat (size_t_of_int inLen)" by simp
  then have t: "take (nat (size_t_of_int inLen)) in16 = in16" using assms(1) by simp
  show "UTF16toUTF8 to8 in16 inLen out = None \<or> (\<exists>l. UTF16toUTF8 to8 in16 inLen out = Some (EPHIDGET_UNEXPECTED, l))"
    using b assms(1) by (cases "to8 in16 MAX_LABEL_STORAGE") (auto simp: UTF16toUTF8_def t Let_def split: bind_splits)
  show "UTF16toUTF8 to8 in16 inLen out = None" if "goes_through (to8 in16 MAX_LABEL_STORAGE)"
    using b assms(1) that by (cases "to8 in16 MAX_LABEL_STORAGE") (auto simp: UTF16toUTF8_def t Let_def goes_through_def)
qed

lemma decode_beyond:
  assumes "length buf = 22" and "sint (hd buf) < 2 \<or> 22 < sint (hd buf)" and "length out = 41"
  shows "decodeLabelString to8 buf out serial = None \<or> (\<exists>l. decodeLabelString to8 buf out serial = Some (EPHIDGET_UNEXPECTED, l))"
    and "goes_through (to8 (drop 2 buf) MAX_LABEL_STORAGE) \<Longrightarrow> decodeLabelString to8 buf out serial = None"
proof -
  have ne: "buf \<noteq> []" using assms(1) by auto
  have b2: "cread buf 2 = Some (buf ! 2)" "cread buf 3 = Some (buf ! 3)" using assms(1) by (simp_all add: cread_def)
  have s: "- 128 \<le> sint (hd buf)" "sint (hd buf) < 128" using sint_ge [of "hd buf"] sint_less [of "hd buf"] by simp_all
  note u = UTF16_beyond [of "drop 2 buf" "sint (hd buf) - 2" to8]
  have lt: "label_text to8 buf o' = None \<or> label_text to8 buf o' = UTF16toUTF8 to8 (drop 2 buf) (sint (hd buf) - 2) o'" for o'
    using assms(1,2) by (auto simp: label_text_def cread_hd [OF ne] b2)
  have r: "sint (hd buf) - 2 < 0 \<or> 20 < sint (hd buf) - 2" "length (drop 2 buf) = 20" using assms(1,2) by auto
  have l1: "label_text to8 buf o' = None \<or> (\<exists>l. label_text to8 buf o' = Some (EPHIDGET_UNEXPECTED, l))" for o'
    using lt [of o'] u(1) [OF r(2,1), of o'] s by auto
  have l2: "label_text to8 buf o' = None" if "goes_through (to8 (drop 2 buf) MAX_LABEL_STORAGE)" for o'
    using lt [of o'] u(2) [OF r(2,1) _ _ that, of o'] s by auto
  note t = truncate_undefined [OF assms(1,2), of serial]
  have z: "blit out 0 (replicate MAX_LABEL_STORAGE 0) = Some (replicate 41 0)"
    using assms(3) by (simp add: blit_def MAX_LABEL_STORAGE_def)
  show "decodeLabelString to8 buf out serial = None \<or> (\<exists>l. decodeLabelString to8 buf out serial = Some (EPHIDGET_UNEXPECTED, l))"
    using t l1 [of "replicate 41 0"] z by (auto simp: decodeLabelString_def)
  show "decodeLabelString to8 buf out serial = None" if "goes_through (to8 (drop 2 buf) MAX_LABEL_STORAGE)"
    using t l2 [OF that] z by (auto simp: decodeLabelString_def)
qed

text \<open>C40. Decoding a label descriptor trusts the descriptor's own length byte, which comes from the device.  When it
  is between 2 and 22, decoding stays inside its three arrays and leaves a terminated text of the size of the label
  array.  With any other length byte it never succeeds: it reads or writes out of bounds, unless the conversion gives up
  with an error inside the array; in particular it goes out of bounds whenever the 20 bytes that are there hold no
  malformed character.\<close>

theorem decodeLabelString_bounds:
  assumes "iconv8_ok to8" and "length labelBuf = 22" and "length out = MAX_LABEL_STORAGE"
  shows "if 2 \<le> sint (hd labelBuf) \<and> sint (hd labelBuf) \<le> 22
    then \<exists>r l. decodeLabelString to8 labelBuf out serial = Some (r, l) \<and> length l = MAX_LABEL_STORAGE \<and> 0 \<in> set l
    else (\<forall>l. decodeLabelString to8 labelBuf out serial \<noteq> Some (EPHIDGET_OK, l)) \<and>
      (goes_through (to8 (drop 2 labelBuf) MAX_LABEL_STORAGE) \<longrightarrow> decodeLabelString to8 labelBuf out serial = None)"
proof (cases "2 \<le> sint (hd labelBuf) \<and> sint (hd labelBuf) \<le> 22")
  case True
  then show ?thesis using decode_outcome [OF assms(1,2), of out serial] assms(3) unfolding MAX_LABEL_STORAGE_def by simp
next
  case False
  then have f: "sint (hd labelBuf) < 2 \<or> 22 < sint (hd labelBuf)" by auto
  have o: "length out = 41" using assms(3) by (simp add: MAX_LABEL_STORAGE_def)
  show ?thesis using decode_beyond [OF assms(2) f o, of to8 serial] False by auto
qed

text \<open>An \<^verbatim>\<open>iconv\<close> for ASCII texts.\<close>

fun widen :: "u8 list \<Rightarrow> u8 list" where
  "widen [] = []"
| "widen (c # s) = c # 0 # widen s"

fun narrow :: "u8 list \<Rightarrow> u8 list option" where
  "narrow [] = Some []"
| "narrow (c # d # s) = (if d = 0 then map_option ((#) c) (narrow s) else None)"
| "narrow [c] = None"

definition ascii16 :: "u8 list \<Rightarrow> nat \<Rightarrow> iconv_ret" where
  "ascii16 s n = (if list_all (\<lambda>c. c < 0x80) s then if 2 * length s \<le> n then Converted (widen s) else Iconv_failed E2BIG []
     else Iconv_failed EILSEQ [])"

definition ascii8 :: "u8 list \<Rightarrow> nat \<Rightarrow> iconv_ret" where
  "ascii8 s n = (case narrow s of Some t \<Rightarrow> if length t \<le> n then Converted t else Iconv_failed E2BIG [] | None \<Rightarrow> Iconv_failed EILSEQ [])"

lemma length_widen [simp]: "length (widen s) = 2 * length s"
  by (induction s) auto

lemma narrow_widen [simp]: "narrow (widen s) = Some s"
  by (induction s) auto

lemma narrow_length: "narrow s = Some t \<Longrightarrow> length s = 2 * length t"
  by (induction s arbitrary: t rule: narrow.induct) (auto split: if_splits)

lemma ascii_ok: "iconv16_ok ascii16" "iconv8_ok ascii8"
proof -
  show "iconv16_ok ascii16" by (auto simp: iconv16_ok_def ascii16_def split: if_splits)
  show "iconv8_ok ascii8"
    by (auto simp: iconv8_ok_def ascii8_def split: option.splits if_splits dest!: narrow_length)
qed

theorem decodeLabelString_bounds_witness:
  "(\<exists>r l. decodeLabelString ascii8 (6 # 3 # widen [0x41, 0x42] @ replicate 16 0) (replicate MAX_LABEL_STORAGE 1) 12345 = Some (r, l) \<and>
     length l = MAX_LABEL_STORAGE \<and> 0 \<in> set l) \<and>
   decodeLabelString ascii8 (24 # 3 # widen [0x41, 0x42] @ replicate 16 0) (replicate MAX_LABEL_STORAGE 1) 12345 = None"
proof -
  have g: "goes_through (ascii8 (drop 2 (24 # 3 # widen [0x41, 0x42] @ replicate 16 0)) MAX_LABEL_STORAGE)" by code_simp
  show ?thesis
    using decodeLabelString_bounds [OF ascii_ok(2), of "6 # 3 # widen [0x41, 0x42] @ replicate 16 0" "replicate MAX_LABEL_STORAGE 1" 12345]
      decodeLabelString_bounds [OF ascii_ok(2), of "24 # 3 # widen [0x41, 0x42] @ replicate 16 0" "replicate MAX_LABEL_STORAGE 1" 12345] g
    by simp
qed

subsection \<open>Setting a label\<close>

lemma sint_u8: "sint (b :: u8) = (uint b + 128) mod 256 - 128"
  by (simp add: sint_uint signed_take_bit_eq_take_bit_shift take_bit_eq_mod)

lemma sint_u8_nonneg: "0 \<le> sint (b :: u8) \<longleftrightarrow> uint b < 128" "0 \<le> sint b \<Longrightarrow> sint b = uint b"
proof -
  have u: "uint b < 256" "0 \<le> uint b" using uint_lt2p [of b] by auto
  have "sint b = (if uint b < 128 then uint b else uint b - 256)"
  proof (cases "uint b < 128")
    case True
    then show ?thesis using u(2) by (simp add: sint_u8 mod_pos_pos_trivial)
  next
    case False
    have "uint b + 128 = uint b - 128 + 256" by simp
    then have "(uint b + 128) mod 256 = (uint b - 128) mod 256" by (simp only: mod_add_self2)
    also have "\<dots> = uint b - 128" using False u by (intro mod_pos_pos_trivial) simp_all
    finally show ?thesis using False by (simp only: sint_u8 if_False)
  qed
  then show "0 \<le> sint b \<longleftrightarrow> uint b < 128" and "0 \<le> sint b \<Longrightarrow> sint b = uint b" using u by (auto split: if_splits)
qed

lemma sint_of_nat_u8: "k < 128 \<Longrightarrow> sint (of_nat k :: u8) = int k"
proof -
  assume k: "k < 128"
  then have "uint (of_nat k :: u8) = int k" by (simp add: unsigned_of_nat take_bit_nat_eq_self)
  then show ?thesis using k by (simp add: sint_u8)
qed

lemma gpp_setLabel_outcome:
  assumes "ready phid" and "deviceSupportsGeneralUSBProtocol phid" and "2 \<le> outputReportByteLength phid"
    and "length buf = 22" and "2 \<le> sint (hd buf)" and "sint (hd buf) \<le> 22"
  shows "\<exists>r ps. CPhidgetGPP_setLabel (\<lambda>_. True) out phid buf log = Some (r, ps)"
proof -
  have g: "gpp_guard phid = EPHIDGET_OK" using assms(1,2) by (simp add: gpp_guard_def ready_def)
  have ne: "buf \<noteq> []" using assms(4) by auto
  have u: "uint (hd buf) = sint (hd buf)" using assms(5) sint_u8_nonneg(2) [of "hd buf"] by simp
  then have n: "unat (hd buf) \<le> 22" "hd buf < 0x80"
    using assms(5,6) by (simp_all add: word_less_def flip: of_nat_le_iff [where 'a = int])
  have "\<exists>b. blit ([0x1a, 0x00, 0x10, 0x00] @ replicate 22 0) 4 (take (unat (hd buf)) buf) = Some b \<and> length b = 26"
    using n(1) by (simp add: blit_def)
  then obtain b where b: "blit ([0x1a, 0x00, 0x10, 0x00] @ replicate 22 0) 4 (take (unat (hd buf)) buf) = Some b" "length b = 26"
    by blast
  obtain r ps where c: "CPhidgetGPP_setConfigTable (\<lambda>_. True) out phid b 26 0 SET_DW_TABLE log = Some (r, log @ ps)"
    using setConfigTable_outcome [OF assms(1,2) refl assms(3), of 26 b "\<lambda>_. True" log out 0 SET_DW_TABLE] b(2) by auto
  let ?w = "(GENERAL_PACKET_FLAG OR packet_code WRITE_FLASH) # replicate (outputReportByteLength phid - 1) 0"
  have w: "cwrite (replicate (outputReportByteLength phid) 0) 0 (GENERAL_PACKET_FLAG OR packet_code WRITE_FLASH) = Some ?w"
    by (rule config_table_header(1) [OF assms(3)])
  have "length ?w = outputReportByteLength phid" using assms(3) by simp
  then obtain r' where "send_packet out phid ?w (log @ ps) = Some (r', (log @ ps) @ [?w])"
    using send_ready [OF assms(1)] by blast
  with w g have "CPhidgetGPP_writeFlash (\<lambda>_. True) out phid (log @ ps) = Some (r', (log @ ps) @ [?w])"
    by (simp add: CPhidgetGPP_writeFlash_def gpp_command_only_def gpp_command_def gpp_buffer_def)
  then show ?thesis
    using g n b c by (auto simp: CPhidgetGPP_setLabel_def cread_hd [OF ne] assms(4) CPhidgetGPP_setDeviceWideConfigTable_def not_le)
qed

text \<open>The device answers with descriptors that have a proper length byte.\<close>

definition proper_device :: "(label_io \<Rightarrow> label_read) \<Rightarrow> bool" where
  "proper_device rd \<longleftrightarrow> (\<forall>io bs. rd io = String bs \<longrightarrow> bs \<noteq> [] \<and> length bs \<le> 22 \<and> 2 \<le> sint (hd bs) \<and> sint (hd bs) \<le> 22)"

lemma refresh_outcome:
  assumes "proper_device rd" and "iconv8_ok to8" and "length (label phid) = 41"
  shows "\<exists>r l. CUSBRefreshLabelString to8 rd io phid = Some (r, phid\<lparr>label := l\<rparr>) \<and> length l = 41 \<and> (r = EPHIDGET_OK \<longrightarrow> 0 \<in> set l)"
proof (cases "rd io")
  case (String bs)
  then have bs: "bs \<noteq> []" "length bs \<le> 22" "2 \<le> sint (hd bs)" "sint (hd bs) \<le> 22" using assms(1) by (auto simp: proper_device_def)
  let ?buf = "bs @ replicate (22 - length bs) 0"
  have b: "blit (replicate 22 0) 0 bs = Some ?buf" using bs by (simp add: blit_def)
  have "length ?buf = 22" "hd ?buf = hd bs" using bs by auto
  then obtain r l where "decodeLabelString to8 ?buf (label phid) (serialNumber phid) = Some (r, l)" "length l = 41" "0 \<in> set l"
    using decode_outcome [OF assms(2), of ?buf "label phid" "serialNumber phid"] bs assms(3) by auto
  then show ?thesis using String b by (auto simp: CUSBRefreshLabelString_def getLabelString_def)
next
  case Desc_failed
  then show ?thesis using assms(3) by (intro exI [of _ EPHIDGET_UNEXPECTED] exI [of _ "label phid"])
      (simp add: CUSBRefreshLabelString_def getLabelString_def)
next
  case No_serial_string
  have "label phid \<noteq> []" using assms(3) by auto
  then show ?thesis using assms(3) No_serial_string cwrite_0 [of "label phid" 0]
    by (auto simp: CUSBRefreshLabelString_def getLabelString_def)
next
  case String_failed
  have "label phid \<noteq> []" using assms(3) by auto
  then show ?thesis using assms(3) String_failed cwrite_0 [of "label phid" 0]
    by (auto simp: CUSBRefreshLabelString_def getLabelString_def)
qed

definition usable :: "cphidget \<Rightarrow> bool" where
  "usable phid \<longleftrightarrow> ready phid \<and> (deviceSupportsGeneralUSBProtocol phid \<longrightarrow> 2 \<le> outputReportByteLength phid)"

lemma CUSBSetLabel_outcome:
  assumes "usable phid" and "length buf = 22" and "2 \<le> sint (hd buf)" and "sint (hd buf) \<le> 22"
  shows "\<exists>r io'. CUSBSetLabel out ctl phid buf io = Some (r, io') \<and>
    (\<not> deviceSupportsGeneralUSBProtocol phid \<longrightarrow> descriptors io' = descriptors io @ [take (nat (sint (hd buf))) buf])"
proof (cases "deviceSupportsGeneralUSBProtocol phid")
  case True
  then show ?thesis using gpp_setLabel_outcome [of phid buf out "packets io"] assms by (auto simp: CUSBSetLabel_def usable_def)
next
  case False
  have "buf \<noteq> []" using assms(2) by auto
  then show ?thesis using False assms by (auto simp: CUSBSetLabel_def usable_def ready_def cread_hd Let_def)
qed

lemma clear_label_outcome:
  assumes "usable phid"
  shows "\<exists>io'. clear_label out ctl phid io = Some io' \<and>
    (\<not> deviceSupportsGeneralUSBProtocol phid \<longrightarrow> descriptors io' = descriptors io @ [[2, 3]])"
  using CUSBSetLabel_outcome [OF assms, of "[2, 3] @ replicate 20 0" out ctl io] by (auto simp: clear_label_def)

lemma attached_set_label_outcome:
  "\<forall>d \<in> set ds. length (label d) = 41 \<Longrightarrow> length s \<le> 40 \<Longrightarrow> \<exists>ds'. attached_set_label phid s ds = Some ds'"
  by (induction ds) (auto simp: blit_def)

lemma usable_label [simp]: "usable (phid\<lparr>label := l\<rparr>) = usable phid"
  "deviceSupportsGeneralUSBProtocol (phid\<lparr>label := l\<rparr>) = deviceSupportsGeneralUSBProtocol phid"
  by (simp_all add: usable_def ready_def deviceSupportsGeneralUSBProtocol_def)

text \<open>What the device answers now is decoded to the label \<open>l\<close> of the handle.\<close>

definition read_back :: "(u8 list \<Rightarrow> nat \<Rightarrow> iconv_ret) \<Rightarrow> (label_io \<Rightarrow> label_read) \<Rightarrow> label_io \<Rightarrow> cphidget \<Rightarrow> u8 list \<Rightarrow> bool" where
  "read_back to8 rd io phid l \<longleftrightarrow>
     (\<exists>l0. length l0 = 41 \<and> getLabelString to8 (rd io) (phid\<lparr>label := l0\<rparr>) = Some (EPHIDGET_OK, phid\<lparr>label := l\<rparr>))"

lemma read_back_label [simp]: "read_back to8 rd io (phid\<lparr>label := l0\<rparr>) = read_back to8 rd io phid"
  by (simp add: read_back_def fun_eq_iff)

text \<open>One pass from \<^verbatim>\<open>refresh\<close>, in full for a label that was not retried yet; \<open>rb\<close> says what was
  read back.\<close>

definition label_result :: "(label_io \<Rightarrow> u8 list \<Rightarrow> bool) \<Rightarrow> u8 list \<Rightarrow> nat \<Rightarrow> cphidget \<Rightarrow> label_io \<Rightarrow> cphidget list \<Rightarrow>
    (ephidget \<times> cphidget \<times> cphidget list \<times> label_io) option \<Rightarrow> bool" where
  "label_result rb buffer k phid io attached res \<longleftrightarrow> (\<exists>ret l attached' io'. res = Some (ret, phid\<lparr>label := l\<rparr>, attached', io') \<and>
     (ret = EPHIDGET_OK \<longrightarrow> rb io' l \<and> cstring l = cstring buffer \<and>
        attached_set_label (phid\<lparr>label := l\<rparr>) (cstring buffer) attached = Some attached') \<and>
     (ret \<noteq> EPHIDGET_OK \<longrightarrow> attached' = attached) \<and>
     (\<not> deviceSupportsGeneralUSBProtocol phid \<longrightarrow> (\<exists>ds. descriptors io' = descriptors io @ ds \<and> length ds \<le> k \<and>
        (ret \<noteq> EPHIDGET_OK \<longrightarrow> ds \<noteq> [] \<and> last ds = [2, 3]))))"

lemma take_length_takeWhile: "take (length (takeWhile P s)) s = takeWhile P s"
  by (metis takeWhile_eq_take)

lemma strlen_cstring: "strlen s = Some n \<Longrightarrow> take n s = cstring s \<and> 0 \<in> set s \<and> length (cstring s) = n"
  by (auto simp: strlen_def cstring_def take_length_takeWhile split: if_splits)

lemma label_result_clear:
  assumes "usable phid" and "ret \<noteq> EPHIDGET_OK" and "1 \<le> k"
  shows "label_result rb buffer k phid io attached
    (Option.bind (clear_label out ctl (phid\<lparr>label := l\<rparr>) io) (\<lambda>io. Some (ret, phid\<lparr>label := l\<rparr>, attached, io)))"
proof -
  obtain io' where "clear_label out ctl (phid\<lparr>label := l\<rparr>) io = Some io'"
    "\<not> deviceSupportsGeneralUSBProtocol phid \<longrightarrow> descriptors io' = descriptors io @ [[2, 3]]"
    using clear_label_outcome [of "phid\<lparr>label := l\<rparr>" out ctl io] assms(1) by auto
  then show ?thesis using assms(2,3) unfolding label_result_def by (intro exI [of _ ret] exI [of _ l] exI [of _ attached] exI [of _ io']) auto
qed

lemma label_result_ok:
  assumes "cstring l = cstring buffer" and "rb io l" and "0 \<in> set l" and "length l = 41" and "\<forall>d \<in> set attached. length (label d) = 41"
  shows "label_result rb buffer k phid io attached
    (Option.bind (attached_set_label (phid\<lparr>label := l\<rparr>) (cstring buffer) attached)
      (\<lambda>attached. Some (EPHIDGET_OK, phid\<lparr>label := l\<rparr>, attached, io)))"
proof -
  have "strlen l = Some (length (cstring l))" using assms(3) by (simp add: strlen_def cstring_def)
  then have "length (cstring l) < length l" by (rule strlen_lt)
  then have "length (cstring buffer) \<le> 40" using assms(1,4) by simp
  then obtain a where "attached_set_label (phid\<lparr>label := l\<rparr>) (cstring buffer) attached = Some a"
    using attached_set_label_outcome [OF assms(5)] by blast
  then show ?thesis using assms(1,2) unfolding label_result_def by auto
qed

lemma label_result_trans:
  assumes "label_result rb buffer k (phid\<lparr>label := l\<rparr>) io' attached res"
    and "\<not> deviceSupportsGeneralUSBProtocol phid \<longrightarrow> descriptors io' = descriptors io @ [d]"
  shows "label_result rb buffer (Suc k) phid io attached res"
proof -
  obtain ret l' attached' io'' where r: "res = Some (ret, phid\<lparr>label := l'\<rparr>, attached', io'')"
    and ok: "ret = EPHIDGET_OK \<longrightarrow> rb io'' l' \<and> cstring l' = cstring buffer \<and> attached_set_label (phid\<lparr>label := l'\<rparr>) (cstring buffer) attached = Some attached'"
    and e: "ret \<noteq> EPHIDGET_OK \<longrightarrow> attached' = attached"
    and d: "\<not> deviceSupportsGeneralUSBProtocol phid \<longrightarrow> (\<exists>ds. descriptors io'' = descriptors io' @ ds \<and> length ds \<le> k \<and>
        (ret \<noteq> EPHIDGET_OK \<longrightarrow> ds \<noteq> [] \<and> last ds = [2, 3]))"
    using assms(1) [unfolded label_result_def, simplified] by (elim exE conjE) (rule that)
  have "\<exists>ds. descriptors io'' = descriptors io @ ds \<and> length ds \<le> Suc k \<and> (ret \<noteq> EPHIDGET_OK \<longrightarrow> ds \<noteq> [] \<and> last ds = [2, 3])"
    if g: "\<not> deviceSupportsGeneralUSBProtocol phid"
  proof -
    obtain ds where "descriptors io'' = descriptors io' @ ds" "length ds \<le> k" "ret \<noteq> EPHIDGET_OK \<longrightarrow> ds \<noteq> [] \<and> last ds = [2, 3]"
      using d g by blast
    then show ?thesis using assms(2) g by (intro exI [of _ "d # ds"]) simp
  qed
  then show ?thesis unfolding label_result_def using r ok e by blast
qed

lemma label_refresh_outcome:
  assumes "usable phid" and "proper_device rd" and "iconv8_ok to8" and "0 \<in> set buffer" and "length (label phid) = 41"
    and "\<forall>d \<in> set attached. length (label d) = 41" and "length buffer2 = 22"
  shows "label_result (\<lambda>io. read_back to8 rd io phid) buffer (if tried then 1 else 2) phid io attached
    (label_refresh to8 out ctl rd buffer tried buffer2 phid attached io)"
  using assms(1,5,7)
proof (induction "if tried then 0 else 1 :: nat" arbitrary: tried buffer2 phid io rule: less_induct)
  case less
  let ?k = "if tried then 1 else 2 :: nat"
  obtain ret l where r: "CUSBRefreshLabelString to8 rd io phid = Some (ret, phid\<lparr>label := l\<rparr>)" "length l = 41"
    "ret = EPHIDGET_OK \<longrightarrow> 0 \<in> set l"
    using refresh_outcome [OF assms(2,3) less.prems(2)] by blast
  have rb: "read_back to8 rd io phid l" if "ret = EPHIDGET_OK"
    using r(1) that less.prems(2) unfolding read_back_def CUSBRefreshLabelString_def by (intro exI [of _ "label phid"]) simp
  note u = label_refresh.simps [of to8 out ctl rd buffer tried buffer2 phid attached io]
  have k: "1 \<le> ?k" by simp
  note clear = label_result_clear [OF less.prems(1) _ k, where rb = "\<lambda>io. read_back to8 rd io phid" and buffer = buffer and attached = attached and out = out and ctl = ctl]
  show ?case
  proof (cases "ret = EPHIDGET_OK")
    case False
    then show ?thesis using clear [OF False, of io l] r by (simp add: u)
  next
    case ok: True
    obtain c where c: "strcmp buffer l = Some c" "c = 0 \<longleftrightarrow> cstring buffer = cstring l" using strcmp_eq_iff [OF assms(4)] r ok by blast
    obtain n where n: "strlen buffer = Some n" "take n buffer = cstring buffer" "length (cstring buffer) = n"
      using strlen_cstring [of buffer "length (cstring buffer)"] assms(4) by (simp add: strlen_def cstring_def)
    obtain c7 where c7: "strncmp 7 buffer l = Some c7" using strncmp_defined_nul [OF assms(4)] r ok by blast
    have b: "cread buffer2 0 = Some (hd buffer2)" using less.prems(3) by (intro cread_hd) auto
    show ?thesis
    proof (cases "c = 0")
      case True
      then show ?thesis using label_result_ok [of l buffer "\<lambda>io. read_back to8 rd io phid" io attached ?k phid] rb r ok c n assms(6) by (simp add: u)
    next
      case c0: False
      show ?thesis
      proof (cases "sint (hd buffer2) > 16 \<and> c7 = 0 \<and> \<not> tried")
        case False
        then show ?thesis using clear [of EPHIDGET_UNEXPECTED io l] r ok c c0 c7 n b
          by (simp add: u if_not_P [OF False])
      next
        case retry: True
        show ?thesis
        proof (cases "n \<le> 12")
          case False
          then show ?thesis using clear [of EPHIDGET_INVALIDARG io l] r ok c c0 c7 n b retry by (subst u) simp
        next
          case True
          have "\<exists>b1. blit buffer2 4 (cstring buffer @ [0]) = Some b1 \<and> length b1 = 22"
            using less.prems(3) True n by (simp add: blit_def)
          then obtain b1 where b1: "blit buffer2 4 (cstring buffer @ [0]) = Some b1" "length b1 = 22" by blast
          let ?b = "((b1[0 := of_nat (n + 4)])[2 := 0xff])[3 := 0xff]"
          have w: "cwrite b1 0 (of_nat (n + 4)) = Some (b1[0 := of_nat (n + 4)])"
            "cwrite (b1[0 := of_nat (n + 4)]) 2 0xff = Some ((b1[0 := of_nat (n + 4)])[2 := 0xff])"
            "cwrite ((b1[0 := of_nat (n + 4)])[2 := 0xff]) 3 0xff = Some ?b"
            using b1(2) by (simp_all add: cwrite_def)
          have lb: "length ?b = 22" "hd ?b = of_nat (n + 4)" using b1(2) by (simp, cases b1) (simp_all add: numeral_eq_Suc)
          have sb: "sint (hd ?b) = int (n + 4)" unfolding lb(2) using True by (intro sint_of_nat_u8) simp
          obtain ret' io' where st: "CUSBSetLabel out ctl (phid\<lparr>label := l\<rparr>) ?b io = Some (ret', io')"
            "\<not> deviceSupportsGeneralUSBProtocol phid \<longrightarrow> descriptors io' = descriptors io @ [take (nat (sint (hd ?b))) ?b]"
            using CUSBSetLabel_outcome [of "phid\<lparr>label := l\<rparr>" ?b out ctl io] less.prems(1) lb(1) sb True by auto
          show ?thesis
          proof (cases "ret' = EPHIDGET_OK")
            case True
            have "label_result (\<lambda>io. read_back to8 rd io phid) buffer 1 (phid\<lparr>label := l\<rparr>) io' attached
                (label_refresh to8 out ctl rd buffer True ?b (phid\<lparr>label := l\<rparr>) attached io')"
              using less.hyps [of True "phid\<lparr>label := l\<rparr>" ?b io'] retry less.prems(1) r(2) lb(1) by simp
            from label_result_trans [OF this st(2)]
            have "label_result (\<lambda>io. read_back to8 rd io phid) buffer 2 phid io attached (label_refresh to8 out ctl rd buffer True ?b (phid\<lparr>label := l\<rparr>) attached io')"
              by (simp add: numeral_2_eq_2)
            then show ?thesis
              using r ok c c0 c7 n b retry \<open>n \<le> 12\<close> b1 w st(1) True by (subst u) simp
          next
            case False
            have "label_result (\<lambda>io. read_back to8 rd io phid) buffer 1 (phid\<lparr>label := l\<rparr>) io' attached
               (Option.bind (clear_label out ctl (phid\<lparr>label := l\<rparr>) io') (\<lambda>io. Some (ret', phid\<lparr>label := l\<rparr>, attached, io)))"
              using label_result_clear [where phid = "phid\<lparr>label := l\<rparr>" and ret = ret' and k = 1 and l = l and rb = "\<lambda>io. read_back to8 rd io phid"] less.prems(1) False by simp
            from label_result_trans [OF this st(2)] show ?thesis
              using r ok c c0 c7 n b retry \<open>n \<le> 12\<close> b1 w st(1) False by (subst u) (simp add: numeral_2_eq_2)
          qed
        qed
      qed
    qed
  qed
qed

lemma encoded_buffer:
  assumes "length bs \<le> 20"
  shows "\<exists>b. blit (replicate (MAX_LABEL_SIZE * 2 + 2) 0) 2 bs = Some (0 # 0 # b) \<and> length b = 20 \<and>
    b = bs @ replicate (20 - length bs) (0::u8)"
  using assms by (auto simp: blit_def MAX_LABEL_SIZE_def numeral_2_eq_2)

text \<open>C21. \<^verbatim>\<open>CPhidget_setDeviceLabel\<close> is total and honest: for an attached device, an
  \<^verbatim>\<open>iconv\<close> that keeps to its buffer and a device that answers with proper descriptors (whatever
  their contents, and whatever the transfers return), it ends after at most two attempts.  Success
  means that what the device answers after the last transfer was decoded to the requested label, and that the
  record in the list of attached devices has it too.  After a failure the attached devices are unchanged, and for the
  older devices at most three descriptors were sent, the last one of several being the empty one.\<close>

theorem setDeviceLabel_verified:
  assumes "usable phid" and "proper_device rd" and "iconv16_ok to16" and "iconv8_ok to8" and "0 \<in> set buffer"
    and "length (label phid) = 41" and "\<forall>d \<in> set attached. length (label d) = 41"
  shows "\<exists>ret l attached' io'.
    CPhidget_setDeviceLabel to16 to8 out ctl rd phid buffer attached io = Some (ret, phid\<lparr>label := l\<rparr>, attached', io') \<and>
    (ret = EPHIDGET_OK \<longrightarrow>
       (\<exists>l0. length l0 = 41 \<and> getLabelString to8 (rd io') (phid\<lparr>label := l0\<rparr>) = Some (EPHIDGET_OK, phid\<lparr>label := l\<rparr>)) \<and>
       cstring l = cstring buffer \<and>
       attached_set_label (phid\<lparr>label := l\<rparr>) (cstring buffer) attached = Some attached') \<and>
    (ret \<noteq> EPHIDGET_OK \<longrightarrow> attached' = attached) \<and>
    (\<not> deviceSupportsGeneralUSBProtocol phid \<longrightarrow> (\<exists>ds. descriptors io' = descriptors io @ ds \<and> length ds \<le> 3 \<and>
       (ret \<noteq> EPHIDGET_OK \<and> 1 < length ds \<longrightarrow> last ds = [2, 3])))"
proof -
  let ?R = "CPhidget_setDeviceLabel to16 to8 out ctl rd phid buffer attached io"
  have stop: ?thesis if "?R = Some (ret, phid, attached, io')" "ret \<noteq> EPHIDGET_OK"
    "\<not> deviceSupportsGeneralUSBProtocol phid \<longrightarrow> (\<exists>d. descriptors io' = descriptors io @ d \<and> length d \<le> 1)" for ret io'
    using that by (intro exI [of _ ret] exI [of _ "label phid"] exI [of _ attached] exI [of _ io']) fastforce
  have att: "is_set phid PHIDGET_ATTACHED_FLAG" using assms(1) by (simp add: usable_def ready_def)
  obtain n where n: "strlen buffer = Some n" using assms(5) by (simp add: strlen_def)
  show ?thesis
  proof (cases "to16 (take n buffer) (MAX_LABEL_SIZE * 2)")
    case Open_failed
    then show ?thesis using att n by (intro stop [of EPHIDGET_UNEXPECTED io]) (simp_all add: CPhidget_setDeviceLabel_def encodeLabelString_def)
  next
    case (Iconv_failed e bs)
    then show ?thesis using att n
      by (intro stop [of "if e = EOTHER then EPHIDGET_UNEXPECTED else EPHIDGET_INVALIDARG" io])
        (simp_all add: CPhidget_setDeviceLabel_def encodeLabelString_def)
  next
    case (Converted bs)
    have lb: "length bs \<le> 20" using assms(3) Converted by (auto simp: iconv16_ok_def MAX_LABEL_SIZE_def)
    then obtain b where b: "blit (replicate (MAX_LABEL_SIZE * 2 + 2) 0) 2 bs = Some (0 # 0 # b)" "length b = 20"
      using encoded_buffer by blast
    define x :: u8 where "x = of_nat (length bs + 2)"
    have x2: "2 + of_nat (length bs) = x" by (simp add: x_def)
    let ?b = "x # 3 # b"
    have sb: "sint x = int (length bs + 2)" unfolding x_def using lb by (intro sint_of_nat_u8) simp
    have h: "length ?b = 22" "2 \<le> sint (hd ?b)" "sint (hd ?b) \<le> 22" unfolding list.sel sb using b lb by auto
    obtain w where w: "labelHasWrapError (serialNumber phid) ?b = Some w" using wrap_defined [OF h(1,3)] by blast
    have e: "encodeLabelString to16 buffer (Some (MAX_LABEL_SIZE * 2)) = Some (EPHIDGET_OK, Some bs)"
      using n Converted lb by (simp add: encodeLabelString_def MAX_LABEL_SIZE_def)
    have u: "?R = (if w then Some (EPHIDGET_INVALIDARG, phid, attached, io) else
        Option.bind (CUSBSetLabel out ctl phid ?b io) (\<lambda>(ret, io). if ret \<noteq> EPHIDGET_OK then Some (ret, phid, attached, io)
          else label_refresh to8 out ctl rd buffer False ?b phid attached io))"
      using att e b w by (simp add: CPhidget_setDeviceLabel_def cwrite_def x2)
    obtain ret io' where s: "CUSBSetLabel out ctl phid ?b io = Some (ret, io')"
      "\<not> deviceSupportsGeneralUSBProtocol phid \<longrightarrow> descriptors io' = descriptors io @ [take (nat (sint (hd ?b))) ?b]"
      using CUSBSetLabel_outcome [OF assms(1) h] by blast
    show ?thesis
    proof (cases "w \<or> ret \<noteq> EPHIDGET_OK")
      case True
      show ?thesis
      proof (cases w)
        case True
        then show ?thesis using u by (intro stop [of EPHIDGET_INVALIDARG io]) auto
      next
        case False
        then show ?thesis using u s True by (intro stop [of ret io']) auto
      qed
    next
      case False
      have "label_result (\<lambda>io. read_back to8 rd io phid) buffer 2 phid io' attached (label_refresh to8 out ctl rd buffer False ?b phid attached io')"
        using label_refresh_outcome [OF assms(1,2,4,5,6,7) h(1), of False io' out ctl] by simp
      with False u s(1) have "label_result (\<lambda>io. read_back to8 rd io phid) buffer 2 phid io' attached ?R" by simp
      then obtain ret l attached' io'' where r: "?R = Some (ret, phid\<lparr>label := l\<rparr>, attached', io'')"
        "ret = EPHIDGET_OK \<longrightarrow> read_back to8 rd io'' phid l \<and> cstring l = cstring buffer \<and>
          attached_set_label (phid\<lparr>label := l\<rparr>) (cstring buffer) attached = Some attached'"
        "ret \<noteq> EPHIDGET_OK \<longrightarrow> attached' = attached"
        "\<not> deviceSupportsGeneralUSBProtocol phid \<longrightarrow> (\<exists>ds. descriptors io'' = descriptors io' @ ds \<and> length ds \<le> 2 \<and>
          (ret \<noteq> EPHIDGET_OK \<longrightarrow> ds \<noteq> [] \<and> last ds = [2, 3]))" unfolding label_result_def by blast
      have "\<exists>ds. descriptors io'' = descriptors io @ ds \<and> length ds \<le> 3 \<and> (ret \<noteq> EPHIDGET_OK \<and> 1 < length ds \<longrightarrow> last ds = [2, 3])"
        if g: "\<not> deviceSupportsGeneralUSBProtocol phid"
      proof -
        obtain ds where "descriptors io'' = descriptors io' @ ds" "length ds \<le> 2" "ret \<noteq> EPHIDGET_OK \<longrightarrow> ds \<noteq> [] \<and> last ds = [2, 3]"
          using r(4) g by blast
        then show ?thesis using s(2) g by (intro exI [of _ "take (nat (sint (hd ?b))) ?b # ds"]) simp
      qed
      with r(1-3) show ?thesis unfolding read_back_def by blast
    qed
  qed
qed

subsection \<open>The repair of the wrap-around bug\<close>

text \<open>A device with the bug: a descriptor longer than 16 bytes runs into the one of the serial number.\<close>

definition wrap_store :: "int \<Rightarrow> label_io \<Rightarrow> label_read" where
  "wrap_store serial io = (let d = last (descriptors io) in
     String (if length d \<le> 16 then d else take 16 d @ take (length d - 16) (error_bytes serial)))"

lemma error_bytes_eq: "\<exists>a b c. error_bytes serial = [a, 3, b, 0, c, 0]"
  by (simp add: error_bytes_def Let_def)

lemma strncmp_same: "k \<le> length e \<Longrightarrow> strncmp k (take k e @ z) e = Some 0"
proof (induction k arbitrary: e)
  case (Suc k)
  then show ?case by (cases e) auto
qed simp

lemma widen_append: "widen (s @ t) = widen s @ widen t"
  by (induction s) auto

lemma eight_chars:
  assumes "length s = 7 + k"
  obtains c0 c1 c2 c3 c4 c5 c6 u where "s = [c0, c1, c2, c3, c4, c5, c6] @ u" and "length u = k"
proof -
  have "length s = Suc (Suc (Suc (Suc (Suc (Suc (Suc k))))))" using assms by simp
  then show ?thesis using that by (auto simp: length_Suc_conv)
qed

lemma ascii_never_wraps:
  assumes "length s = 7 + k" and "1 \<le> k" and "k \<le> 3" and "sint x = 2 * int k + 16" and "0 \<notin> set s"
  shows "labelHasWrapError serial (x # 3 # widen s @ replicate (6 - 2 * k) 0) = Some False"
proof -
  obtain c0 c1 c2 c3 c4 c5 c6 u where s: "s = [c0, c1, c2, c3, c4, c5, c6] @ u" "length u = k" by (rule eight_chars [OF assms(1)])
  obtain d u' where u: "u = d # u'" using s(2) assms(2) by (cases u) auto
  obtain a b c where e: "error_bytes serial = [a, 3, b, 0, c, 0]" using error_bytes_eq by blast
  have k: "nat (sint x - 16) = Suc (Suc (2 * (k - 1)))" using assms(2,4) by simp
  have x: "16 < sint x" using assms(2,4) by simp
  have "d \<noteq> 0" using assms(5) s(1) u by simp
  then show ?thesis unfolding labelHasWrapError_def using x by (simp add: s(1) u cread_def e k)
qed

lemma wrapped_readback:
  assumes "length s = 7 + k" and "1 \<le> k" and "k \<le> 3" and "sint x = 2 * int k + 16"
  shows "truncate_wrapped serial ((x # 3 # widen (take 7 s)) @ take (2 * k) (error_bytes serial) @ replicate (6 - 2 * k) 0) =
    Some (16 # 3 # widen (take 7 s) @ replicate 6 0)"
proof -
  obtain c0 c1 c2 c3 c4 c5 c6 u where s: "s = [c0, c1, c2, c3, c4, c5, c6] @ u" "length u = k" by (rule eight_chars [OF assms(1)])
  let ?buf = "(x # 3 # widen (take 7 s)) @ take (2 * k) (error_bytes serial) @ replicate (6 - 2 * k) 0"
  have x: "16 < sint x" "nat (sint x - 16) = 2 * k" "nat (sint x) = 16 + 2 * k" using assms(2,4) by simp_all
  have l: "length ?buf = 22" using s assms(3) by simp
  have a: "all_zero ?buf [3, 5, 7, 9, 11, 13, 15] = Some True" by (simp add: s(1) cread_def)
  have d: "drop 16 ?buf = take (2 * k) (error_bytes serial) @ replicate (6 - 2 * k) 0" by (simp add: s(1))
  have "strncmp (2 * k) (drop 16 ?buf) (error_bytes serial) = Some 0" unfolding d using assms(3) by (intro strncmp_same) simp
  then have w: "labelHasWrapError serial ?buf = Some True"
    using x a by (simp add: labelHasWrapError_def cread_def)
  have z: "cfor [16..<16 + 2 * k] (\<lambda>i buf. cwrite buf i 0) ?buf = Some (take 16 ?buf @ replicate (2 * k) 0 @ drop (16 + 2 * k) ?buf)"
    using zero_tail [of "16 + 2 * k" ?buf 16] l assms(3) by simp
  have t: "take 16 ?buf = x # 3 # widen (take 7 s)" by (simp add: s(1))
  have dd: "drop (16 + 2 * k) ?buf = replicate (6 - 2 * k) 0"
  proof -
    have "drop (16 + 2 * k) ?buf = drop (2 * k) (drop 16 ?buf)" by (simp only: drop_drop add.commute)
    then show ?thesis unfolding d using assms(3) by simp
  qed
  have "replicate (2 * k) (0::u8) @ replicate (6 - 2 * k) 0 = replicate 6 0" using assms(3) by (simp flip: replicate_add)
  then show ?thesis unfolding truncate_wrapped_def using w z x(3) unfolding t dd by (simp add: cread_def cwrite_def)
qed

lemma strncmp_prefix: "length p = k \<Longrightarrow> strncmp k (p @ a) (p @ b) = Some 0"
  by (induction p arbitrary: k) auto

lemma first_readback:
  assumes "length s = 7 + k" and "1 \<le> k" and "k \<le> 3" and "sint x = 2 * int k + 16" and "\<forall>c \<in> set s. c < 0x80"
    and "to8 (widen (take 7 s)) 41 = Converted (take 7 s)" and "length (label phid) = 41"
    and "last (descriptors io) = x # 3 # widen s"
  shows "CUSBRefreshLabelString to8 (wrap_store (serialNumber phid)) io phid =
    Some (EPHIDGET_OK, phid\<lparr>label := take 7 s @ replicate 34 0\<rparr>)"
proof -
  let ?e = "error_bytes (serialNumber phid)"
  let ?buf = "(x # 3 # widen (take 7 s)) @ take (2 * k) ?e @ replicate (6 - 2 * k) 0"
  have w: "widen s = widen (take 7 s) @ widen (drop 7 s)" using widen_append [of "take 7 s" "drop 7 s"] by simp
  have l7: "length (widen (take 7 s)) = 14" using assms(1) by simp
  have rd: "wrap_store (serialNumber phid) io = String ((x # 3 # widen (take 7 s)) @ take (2 * k) ?e)"
    unfolding wrap_store_def Let_def assms(8) using assms(1,2) l7 by (simp add: w)
  have b: "blit (replicate 22 0) 0 ((x # 3 # widen (take 7 s)) @ take (2 * k) ?e) = Some ?buf"
    using l7 assms(3) by (simp add: blit_def)
  have h: "hd (take 7 s) < 0x80" "take 7 s = hd (take 7 s) # tl (take 7 s)" using assms(1,5) by (cases s, auto)+
  have t: "label_text to8 (16 # 3 # widen (take 7 s) @ replicate 6 0) (replicate 41 0) = Some (EPHIDGET_OK, take 7 s @ replicate 34 0)"
  proof -
    have "widen (take 7 s) = hd (take 7 s) # 0 # widen (tl (take 7 s))" by (subst h(2)) simp
    then have ne: "cread (16 # 3 # widen (take 7 s) @ replicate 6 0) 2 = Some (hd (take 7 s))"
      "cread (16 # 3 # widen (take 7 s) @ replicate 6 0) 3 = Some 0" by (simp_all add: cread_def)
    have "hd (take 7 s) \<noteq> 0xff" using h(1) by auto
    moreover have "UTF16toUTF8 to8 (widen (take 7 s) @ replicate 6 0) 14 (replicate 41 0) = Some (EPHIDGET_OK, take 7 s @ replicate 34 0)"
      using l7 assms(1,6) by (simp add: UTF16toUTF8_def size_t_of_int_def MAX_LABEL_STORAGE_def blit_def)
    ultimately show ?thesis using ne by (simp add: label_text_def cread_Cons_0)
  qed
  have "blit (label phid) 0 (replicate MAX_LABEL_STORAGE 0) = Some (replicate 41 0)"
    using assms(7) by (simp add: blit_def MAX_LABEL_STORAGE_def)
  then show ?thesis using rd b t wrapped_readback [OF assms(1-4)]
    by (simp add: CUSBRefreshLabelString_def getLabelString_def decodeLabelString_def)
qed

lemma second_readback:
  assumes "length s \<le> 12" and "s \<noteq> []" and "sint y = int (length s) + 4" and "length (label phid) = 41"
    and "last (descriptors io) = [y, 3, 0xff, 0xff] @ s"
  shows "CUSBRefreshLabelString to8 (wrap_store (serialNumber phid)) io phid =
    Some (EPHIDGET_OK, phid\<lparr>label := s @ replicate (41 - length s) 0\<rparr>)"
proof -
  let ?d = "[y, 3, 0xff, 0xff] @ s"
  let ?buf = "?d @ replicate (18 - length s) 0"
  have rd: "wrap_store (serialNumber phid) io = String ?d"
    unfolding wrap_store_def Let_def assms(5) using assms(1) by simp
  have b: "blit (replicate 22 0) 0 ?d = Some ?buf" using assms(1) by (simp add: blit_def)
  have w: "labelHasWrapError (serialNumber phid) ?buf = Some False" using assms(1,3) by (intro wrap_short) auto
  have n: "nat (sint y) = length s + 4" "4 < sint y" using assms(2,3) by auto
  have "cwrite (s @ replicate (41 - length s) 0) (length s) 0 = Some (s @ replicate (41 - length s) 0)"
  proof -
    have "replicate (41 - length s) (0::u8) = 0 # replicate (40 - length s) 0" using assms(1) by (simp flip: replicate_Suc add: Suc_diff_le)
    then show ?thesis using cwrite_append [of s "length s" 0 "replicate (40 - length s) 0" 0] by simp
  qed
  then have "label_text to8 ?buf (replicate 41 0) = Some (EPHIDGET_OK, s @ replicate (41 - length s) 0)"
    using n assms(1) by (simp add: label_text_def cread_def blit_def)
  moreover have "blit (label phid) 0 (replicate MAX_LABEL_STORAGE 0) = Some (replicate 41 0)"
    using assms(4) by (simp add: blit_def MAX_LABEL_STORAGE_def)
  ultimately show ?thesis using rd b w
    by (simp add: CUSBRefreshLabelString_def getLabelString_def decodeLabelString_def truncate_wrapped_def)
qed

text \<open>The wrap-around repair works: a device whose long descriptors run into the serial
  number's, and that otherwise stores what it is sent, takes every ASCII label of 8 to 10 characters.
  The read-back shows only the first seven characters, the label is sent again as UTF-8 behind a
  \<^verbatim>\<open>0xFFFF\<close> mark, and \<^verbatim>\<open>CPhidget_setDeviceLabel\<close> succeeds with the label read back in full.\<close>

theorem wrapped_label_repaired:
  assumes "ready phid" and "\<not> deviceSupportsGeneralUSBProtocol phid"
    and "length s = 7 + k" and "1 \<le> k" and "k \<le> 3" and "\<forall>c \<in> set s. 0 < c \<and> c < 0x80" and "length (label phid) = 41"
    and "to16 s 20 = Converted (widen s)" and "to8 (widen (take 7 s)) 41 = Converted (take 7 s)"
  shows "CPhidget_setDeviceLabel to16 to8 out (\<lambda>_ d. int (length d)) (wrap_store (serialNumber phid)) phid (s @ 0 # t) [] io =
    Some (EPHIDGET_OK, phid\<lparr>label := s @ replicate (41 - length s) 0\<rparr>, [],
      io\<lparr>descriptors := descriptors io @ [of_nat (2 * length s + 2) # 3 # widen s, [of_nat (length s + 4), 3, 0xff, 0xff] @ s]\<rparr>)"
proof -
  let ?ser = "serialNumber phid" and ?n = "length s"
  define x :: u8 where "x = of_nat (2 * ?n + 2)"
  define y :: u8 where "y = of_nat (?n + 4)"
  have sx: "sint x = 2 * int k + 16" unfolding x_def using assms(3,5) by (subst sint_of_nat_u8) auto
  have sy: "sint y = int ?n + 4" unfolding y_def using assms(3,5) by (subst sint_of_nat_u8) auto
  have nz: "0 \<notin> set s" using assms(6) by auto
  have att: "is_set phid PHIDGET_ATTACHED_FLAG" "deviceHandle phid" using assms(1) by (simp_all add: ready_def)
  let ?b = "x # 3 # widen s @ replicate (6 - 2 * k) 0"
  have e: "encodeLabelString to16 (s @ 0 # t) (Some (MAX_LABEL_SIZE * 2)) = Some (EPHIDGET_OK, Some (widen s))"
    using nz assms(3,5,8) by (simp add: encodeLabelString_def MAX_LABEL_SIZE_def)
  have b: "blit (replicate (MAX_LABEL_SIZE * 2 + 2) 0) 2 (widen s) = Some (0 # 0 # widen s @ replicate (6 - 2 * k) 0)"
  proof -
    have "20 - length (widen s) = 6 - 2 * k" using assms(3,5) by simp
    then show ?thesis using encoded_buffer [of "widen s"] assms(3,5) by (simp del: length_widen) (simp)
  qed
  have w: "labelHasWrapError ?ser ?b = Some False" using ascii_never_wraps [OF assms(3-5) sx nz] .
  have st1: "CUSBSetLabel out (\<lambda>_ d. int (length d)) phid ?b io =
      Some (EPHIDGET_OK, io\<lparr>descriptors := descriptors io @ [x # 3 # widen s]\<rparr>)"
  proof -
    have "nat (2 * int k + 16) = 2 + length (widen s)" using assms(3) by simp
    then have "take (nat (2 * int k + 16)) ?b = x # 3 # widen s" by (simp del: length_widen)
    then show ?thesis using assms(2,3,5) att sx by (simp add: CUSBSetLabel_def cread_def Let_def)
  qed
  let ?io1 = "io\<lparr>descriptors := descriptors io @ [x # 3 # widen s]\<rparr>"
  have u: "CPhidget_setDeviceLabel to16 to8 out (\<lambda>_ d. int (length d)) (wrap_store ?ser) phid (s @ 0 # t) [] io =
      label_refresh to8 out (\<lambda>_ d. int (length d)) (wrap_store ?ser) (s @ 0 # t) False ?b phid [] ?io1"
  proof -
    have "of_nat (length (widen s) + 2) = x" by (simp add: x_def)
    then show ?thesis using att e b w st1 by (simp add: CPhidget_setDeviceLabel_def cwrite_def del: length_widen of_nat_add)
  qed
  let ?p1 = "phid\<lparr>label := take 7 s @ replicate 34 0\<rparr>"
  have r1: "CUSBRefreshLabelString to8 (wrap_store ?ser) ?io1 phid = Some (EPHIDGET_OK, ?p1)"
    using assms(6) by (intro first_readback [OF assms(3-5) sx, of to8] assms(9,7)) auto
  have s7: "s = take 7 s @ drop 7 s" "length (take 7 s) = 7" "0 \<notin> set (take 7 s)" using assms(3) nz by (auto dest: in_set_takeD)
  have rp: "replicate 34 (0::u8) = 0 # replicate 33 0" by (simp flip: replicate_Suc)
  obtain c where c: "strcmp (s @ 0 # t) (take 7 s @ replicate 34 0) = Some c" "c \<noteq> 0"
  proof -
    have "cstring (s @ 0 # t) = s" "cstring (take 7 s @ replicate 34 0) = take 7 s" unfolding rp using nz s7(3) by simp_all
    moreover have "s \<noteq> take 7 s" using assms(3,4) arg_cong [of s "take 7 s" length] s7(2) by linarith
    ultimately show ?thesis using strcmp_eq_iff [of "s @ 0 # t" "take 7 s @ replicate 34 0"] that by (auto simp: rp)
  qed
  have c7: "strncmp 7 (s @ 0 # t) (take 7 s @ replicate 34 0) = Some 0"
    using strncmp_prefix [OF s7(2), of "drop 7 s @ 0 # t" "replicate 34 0"] s7(1) by (metis append_assoc)
  define R where "R = drop (4 + length (s @ [0])) ?b"
  let ?b2 = "[y, 3, 0xff, 0xff] @ s @ 0 # R"
  have "4 + length (s @ [0]) \<le> length ?b" using assms(3,5) by simp
  then have b2: "blit ?b 4 (s @ [0]) = Some (take 4 ?b @ s @ 0 # R)" unfolding blit_def R_def by (simp only: if_True append_assoc append_Cons append_Nil)
  have t4: "\<exists>d e. take 4 ?b = [x, 3, d, e]" using assms(3) by (cases s) auto
  then obtain d e where t4: "take 4 ?b = [x, 3, d, e]" by blast
  have w2: "cwrite (take 4 ?b @ r) 0 y = Some (y # 3 # d # e # r)" "cwrite (y # 3 # d # e # r) 2 0xff = Some (y # 3 # 0xff # e # r)"
    "cwrite (y # 3 # 0xff # e # r) 3 0xff = Some (y # 3 # 0xff # 0xff # r)" for r
    unfolding t4 by (simp_all add: cwrite_def)
  have st2: "CUSBSetLabel out (\<lambda>_ d. int (length d)) ?p1 ?b2 ?io1 =
      Some (EPHIDGET_OK, io\<lparr>descriptors := descriptors io @ [x # 3 # widen s, [y, 3, 0xff, 0xff] @ s]\<rparr>)"
  proof -
    have tk: "take (length p) (p @ r) = p" for p r :: "u8 list" by simp
    have "nat (sint y) = length ([y, 3, 0xff, 0xff] @ s)" unfolding sy by simp
    then have "take (nat (sint y)) ?b2 = [y, 3, 0xff, 0xff] @ s" using tk [of "[y, 3, 0xff, 0xff] @ s" "0 # R"] by (simp only: append_assoc)
    then show ?thesis using assms(2,3,5) att sy by (simp add: CUSBSetLabel_def cread_def Let_def)
  qed
  let ?io2 = "io\<lparr>descriptors := descriptors io @ [x # 3 # widen s, [y, 3, 0xff, 0xff] @ s]\<rparr>"
  have r2: "CUSBRefreshLabelString to8 (wrap_store ?ser) ?io2 ?p1 = Some (EPHIDGET_OK, phid\<lparr>label := s @ replicate (41 - ?n) 0\<rparr>)"
  proof -
    have "s \<noteq> []" using assms(3) by auto
    then show ?thesis using second_readback [of s y ?p1 ?io2 to8] assms(3,5) sy s7(2) by auto
  qed
  have fin: "strcmp (s @ 0 # t) (s @ replicate (41 - ?n) 0) = Some 0"
  proof -
    have "replicate (41 - ?n) (0::u8) = 0 # replicate (40 - ?n) 0" using assms(3,5) by (simp flip: replicate_Suc add: Suc_diff_le)
    then show ?thesis using nz strcmp_eq_iff [of "s @ 0 # t" "s @ 0 # replicate (40 - ?n) 0"] by simp
  qed
  have n: "strlen (s @ 0 # t) = Some ?n" "take ?n (s @ 0 # t) = s" "?n \<le> 12" using nz assms(3,5) by simp_all
  have yn: "of_nat ?n + 4 = y" by (simp add: y_def)
  have hb: "cread ?b 0 = Some x" "16 < sint x" using sx assms(4) by (simp_all add: cread_def)
  have "label_refresh to8 out (\<lambda>_ d. int (length d)) (wrap_store ?ser) (s @ 0 # t) True ?b2 ?p1 [] ?io2 =
      Some (EPHIDGET_OK, phid\<lparr>label := s @ replicate (41 - ?n) 0\<rparr>, [], ?io2)"
    using r2 fin n by (simp add: label_refresh.simps [of to8 out _ _ _ True])
  then have "label_refresh to8 out (\<lambda>_ d. int (length d)) (wrap_store ?ser) (s @ 0 # t) False ?b phid [] ?io1 =
      Some (EPHIDGET_OK, phid\<lparr>label := s @ replicate (41 - ?n) 0\<rparr>, [], ?io2)"
    using r1 c c7 n hb b2 w2 st2 by (subst label_refresh.simps) (simp add: yn)
  then show ?thesis unfolding u by (simp add: x_def y_def)
qed

text \<open>Examples.\<close>

lemma demo_ready: "ready demo_handle" "\<not> deviceSupportsGeneralUSBProtocol demo_handle" "length (label demo_handle) = 41"
  by (simp_all add: ready_def deviceSupportsGeneralUSBProtocol_def demo_handle_def CPhidget_create_def MAX_LABEL_STORAGE_def
      set_flag_def CPhidget_setStatusFlag_def CPhidget_statusFlagIsSet_def flag_def)

theorem setDeviceLabel_verified_witness:
  "\<exists>l0 l attached' io'.
    CPhidget_setDeviceLabel ascii16 ascii8 (\<lambda>_. Bytes 8) (\<lambda>_ d. int (length d)) (\<lambda>_. String [6, 3, 0x41, 0, 0x42, 0])
      demo_handle [0x41, 0x42, 0] [demo_handle] \<lparr>packets = [], descriptors = []\<rparr> = Some (EPHIDGET_OK, demo_handle\<lparr>label := l\<rparr>, attached', io') \<and>
    getLabelString ascii8 (String [6, 3, 0x41, 0, 0x42, 0]) (demo_handle\<lparr>label := l0\<rparr>) = Some (EPHIDGET_OK, demo_handle\<lparr>label := l\<rparr>) \<and>
    cstring l = [0x41, 0x42]"
proof -
  let ?R = "CPhidget_setDeviceLabel ascii16 ascii8 (\<lambda>_. Bytes 8) (\<lambda>_ d. int (length d)) (\<lambda>_. String [6, 3, 0x41, 0, 0x42, 0])
      demo_handle [0x41, 0x42, 0] [demo_handle] \<lparr>packets = [], descriptors = []\<rparr>"
  have ok: "map_option fst ?R = Some EPHIDGET_OK" by code_simp
  have h: "usable demo_handle" "proper_device (\<lambda>_. String [6, 3, 0x41, 0, 0x42, 0])" "0 \<in> set [0x41, 0x42, 0 :: u8]"
    "\<forall>d \<in> set [demo_handle]. length (label d) = 41" using demo_ready by (simp_all add: usable_def proper_device_def)
  from setDeviceLabel_verified [OF h(1,2) ascii_ok h(3) demo_ready(3) h(4), of "\<lambda>_. Bytes 8" "\<lambda>_ d. int (length d)" "\<lparr>packets = [], descriptors = []\<rparr>"]
  obtain ret l attached' io' where r: "?R = Some (ret, demo_handle\<lparr>label := l\<rparr>, attached', io')"
    "ret = EPHIDGET_OK \<longrightarrow> (\<exists>l0. length l0 = 41 \<and> getLabelString ascii8 (String [6, 3, 0x41, 0, 0x42, 0]) (demo_handle\<lparr>label := l0\<rparr>) =
        Some (EPHIDGET_OK, demo_handle\<lparr>label := l\<rparr>)) \<and> cstring l = cstring [0x41, 0x42, 0]" by blast
  then have "ret = EPHIDGET_OK" using ok by simp
  with r show ?thesis by (auto simp: cstring_def)
qed

theorem wrapped_label_repaired_witness:
  "\<exists>phid io. CPhidget_setDeviceLabel ascii16 ascii8 (\<lambda>_. Bytes 8) (\<lambda>_ d. int (length d)) (wrap_store (serialNumber demo_handle))
      demo_handle ([0x41, 0x42, 0x43, 0x44, 0x45, 0x46, 0x47, 0x48, 0x49, 0x4a] @ 0 # []) [] \<lparr>packets = [], descriptors = []\<rparr> =
    Some (EPHIDGET_OK, phid, [], io) \<and> cstring (label phid) = [0x41, 0x42, 0x43, 0x44, 0x45, 0x46, 0x47, 0x48, 0x49, 0x4a] \<and>
    length (descriptors io) = 2"
proof -
  let ?s = "[0x41, 0x42, 0x43, 0x44, 0x45, 0x46, 0x47, 0x48, 0x49, 0x4a] :: u8 list"
  have "length ?s = 7 + 3" "(1::nat) \<le> 3" "(3::nat) \<le> 3" "\<forall>c \<in> set ?s. 0 < c \<and> c < 0x80" by simp_all
  moreover have "ascii16 ?s 20 = Converted (widen ?s)" "ascii8 (widen (take 7 ?s)) 41 = Converted (take 7 ?s)"
    by (simp_all add: ascii16_def ascii8_def)
  ultimately show ?thesis
    using wrapped_label_repaired [OF demo_ready(1,2), of ?s 3 ascii16 ascii8 "\<lambda>_. Bytes 8" "[]" "\<lparr>packets = [], descriptors = []\<rparr>"] demo_ready(3)
    by (simp add: cstring_def)
qed

text \<open>The test for a wrapped label stops at the fourth byte of the serial number descriptor, a NUL,
  so the last two bytes are never compared.\<close>

lemma wrap_test_ignores_second_digit:
  assumes "error_bytes serial = [a, 3, b, 0, c, 0]" and "length s7 = 7"
  shows "labelHasWrapError serial (22 # 3 # widen s7 @ [a, 3, b, 0, c', d']) = Some True"
proof -
  from assms(2) obtain c0 c1 c2 c3 c4 c5 c6 where s: "s7 = [c0, c1, c2, c3, c4, c5, c6]"
    by (auto simp: length_Suc_conv eval_nat_numeral)
  have "strncmp 6 [a, 3, b, 0, c', d'] [a, 3, b, 0, c, 0] = Some 0" by (simp add: eval_nat_numeral)
  then show ?thesis unfolding labelHasWrapError_def by (simp add: s cread_def assms(1))
qed

end
