(* ===== verification/Threads.thy ===== *)
theory Threads
  imports Gpp
begin

text \<open>
  The threads of an attached device: the read and write thread functions and the event they wait on
  (\<^verbatim>\<open>cthread.c\<close>), waiting for an attachment (\<^verbatim>\<open>cphidget.c\<close>), and the hand-over
  of output from the callers of a device class to the write thread (\<^verbatim>\<open>CPhidget_write\<close> and
  the macros of \<^verbatim>\<open>cphidgetmacros.h\<close>) as a transition system.  Its client lemmas are
  proved in the locale \<open>output_port\<close>, an interface that the packet buffer of the macros
  and the channels of the device classes provide.
\<close>

subsection \<open>Device classes\<close>

definition PHIDCLASS_ACCELEROMETER :: int where "PHIDCLASS_ACCELEROMETER = 2"
definition PHIDCLASS_ENCODER :: int where "PHIDCLASS_ENCODER = 4"
definition PHIDCLASS_INTERFACEKIT :: int where "PHIDCLASS_INTERFACEKIT = 7"
definition PHIDCLASS_LED :: int where "PHIDCLASS_LED = 8"
definition PHIDCLASS_PHSENSOR :: int where "PHIDCLASS_PHSENSOR = 10"
definition PHIDCLASS_RFID :: int where "PHIDCLASS_RFID = 11"
definition PHIDCLASS_SERVO :: int where "PHIDCLASS_SERVO = 12"
definition PHIDCLASS_TEMPERATURESENSOR :: int where "PHIDCLASS_TEMPERATURESENSOR = 14"
definition PHIDCLASS_TEXTLCD :: int where "PHIDCLASS_TEXTLCD = 15"
definition PHIDCLASS_TEXTLED :: int where "PHIDCLASS_TEXTLED = 16"
definition PHIDCLASS_WEIGHTSENSOR :: int where "PHIDCLASS_WEIGHTSENSOR = 17"
definition PHIDCLASS_GENERIC :: int where "PHIDCLASS_GENERIC = 18"

lemmas class_defs = PHIDCLASS_ACCELEROMETER_def PHIDCLASS_ENCODER_def PHIDCLASS_INTERFACEKIT_def PHIDCLASS_LED_def
  PHIDCLASS_PHSENSOR_def PHIDCLASS_RFID_def PHIDCLASS_SERVO_def PHIDCLASS_TEMPERATURESENSOR_def PHIDCLASS_TEXTLCD_def
  PHIDCLASS_TEXTLED_def PHIDCLASS_WEIGHTSENSOR_def PHIDCLASS_GENERIC_def

subsection \<open>The read thread\<close>

text \<open>The first \<^verbatim>\<open>switch\<close>: devices that never send.\<close>

definition read_not_needed :: "cphidget \<Rightarrow> bool" where
  "read_not_needed phid \<longleftrightarrow>
     deviceID phid = PHIDCLASS_SERVO \<and> deviceVersion phid < 313 \<or>
     deviceID phid = PHIDCLASS_INTERFACEKIT \<and> deviceIDSpec phid = 0x040 \<and> deviceVersion phid < 704 \<or>
     deviceID phid = PHIDCLASS_LED \<and> deviceIDSpec phid = 0x04A \<or>
     deviceID phid = PHIDCLASS_TEXTLCD \<and> deviceIDSpec phid \<noteq> 0x03D \<or>
     deviceID phid = PHIDCLASS_TEXTLED"

text \<open>Devices for which a time-out of the transfer is normal.\<close>

definition timeout_ok :: "cphidget \<Rightarrow> bool" where
  "timeout_ok phid \<longleftrightarrow>
     (if deviceID phid = PHIDCLASS_INTERFACEKIT then
        (if deviceIDSpec phid = 0x044 then \<not> deviceVersion phid \<ge> 601 else deviceIDSpec phid = 0x053)
      else if deviceID phid = PHIDCLASS_RFID then \<not> deviceVersion phid \<ge> 201
      else if deviceID phid = PHIDCLASS_ENCODER then deviceIDSpec phid \<noteq> 0x04F
      else deviceID phid = PHIDCLASS_GENERIC)"

text \<open>What one round of the loop meets: the attached flag was cleared, the traffic is paused, or a
  transfer into \<^verbatim>\<open>lastReadPacket\<close>.  \<open>None\<close> is undefined behaviour; the other
  result is the handle and, once the thread has ended, its result.\<close>

datatype read_round = Detached | Paused | Packet usb_ret "u8 list"

fun read_loop ::
    "(cphidget \<Rightarrow> u8 list \<Rightarrow> ephidget \<times> cphidget) option \<Rightarrow> ephidget \<Rightarrow> cphidget \<Rightarrow> read_round list \<Rightarrow>
       (cphidget \<times> ephidget option) option" where
  "read_loop on_data result phid [] = Some (phid, None)"
| "read_loop on_data result phid (Detached # rs) = Some (clear_flag PHIDGET_ATTACHED_FLAG phid, Some result)"
| "read_loop on_data result phid (Paused # rs) =
     (if is_set phid PHIDGET_ATTACHED_FLAG then read_loop on_data result phid rs else Some (phid, Some result))"
| "read_loop on_data result phid (Packet ret buf # rs) =
     (if is_set phid PHIDGET_ATTACHED_FLAG then do {
        (result, phid) \<leftarrow> CPhidget_read on_data phid ret buf;
        if result = EPHIDGET_OK \<or> result = EPHIDGET_TRYAGAIN then read_loop on_data result phid rs
        else if result = EPHIDGET_NOTATTACHED \<or> result = EPHIDGET_INTERRUPTED then Some (phid, Some result)
        else if result = EPHIDGET_TIMEOUT \<and> timeout_ok phid then read_loop on_data result phid rs
        else Some (set_flag PHIDGET_USB_ERROR_FLAG phid, Some result) }
      else Some (phid, Some result))"

definition ReadThreadFunction ::
    "(cphidget \<Rightarrow> u8 list \<Rightarrow> ephidget \<times> cphidget) option \<Rightarrow> cphidget \<Rightarrow> read_round list \<Rightarrow> (cphidget \<times> ephidget option) option" where
  "ReadThreadFunction on_data phid rs =
     (if read_not_needed phid then Some (phid, Some EPHIDGET_OK) else read_loop on_data EPHIDGET_OK phid rs)"

subsection \<open>The write thread\<close>

definition write_not_needed :: "cphidget \<Rightarrow> bool" where
  "write_not_needed phid \<longleftrightarrow>
     deviceID phid = PHIDCLASS_INTERFACEKIT \<and> deviceIDSpec phid \<in> {0x076, 0x077} \<or>
     deviceID phid = PHIDCLASS_RFID \<and> deviceIDSpec phid = 0x030 \<or>
     deviceID phid = PHIDCLASS_ENCODER \<and> deviceIDSpec phid \<in> {0x04B, 0x080} \<or>
     deviceID phid \<in> {PHIDCLASS_ACCELEROMETER, PHIDCLASS_TEMPERATURESENSOR, PHIDCLASS_PHSENSOR, PHIDCLASS_WEIGHTSENSOR}"

datatype wait_ret = WAIT_TIMEOUT | WAIT_OBJECT_0 | WAIT_FAILED

text \<open>A round: the flag was cleared, or what the wait returns, whether the stop flag has been set
  meanwhile, whether the traffic is paused, and the outcome of \<^verbatim>\<open>CPhidget_write\<close>.\<close>

datatype write_round = Write_detached | Woken wait_ret bool bool ephidget

text \<open>The loop; \<open>writes\<close> counts the calls of \<^verbatim>\<open>CPhidget_write\<close>.\<close>

fun write_loop :: "bool \<Rightarrow> ephidget \<Rightarrow> cphidget \<Rightarrow> nat \<Rightarrow> write_round list \<Rightarrow> cphidget \<times> nat \<times> ephidget option" where
  "write_loop awdc result phid writes [] = (phid, writes, None)"
| "write_loop awdc result phid writes (Write_detached # rs) = (clear_flag PHIDGET_ATTACHED_FLAG phid, writes, Some result)"
| "write_loop awdc result phid writes (Woken w stop paused r # rs) =
     (if \<not> is_set phid PHIDGET_ATTACHED_FLAG then (phid, writes, Some result)
      else let phid = phid\<lparr>writeStopFlag := writeStopFlag phid \<or> stop\<rparr> in
      if w = WAIT_TIMEOUT \<and> writeStopFlag phid then (phid, writes, Some result)
      else if w = WAIT_FAILED then (set_flag PHIDGET_USB_ERROR_FLAG phid, writes, Some EPHIDGET_UNEXPECTED)
      else if w = WAIT_TIMEOUT \<and> \<not> awdc \<or> paused then write_loop awdc result phid writes rs
      else if r = EPHIDGET_OK then write_loop awdc r phid (Suc writes) rs
      else if r = EPHIDGET_NOTATTACHED \<or> r = EPHIDGET_INTERRUPTED then (phid, Suc writes, Some r)
      else (set_flag PHIDGET_USB_ERROR_FLAG phid, Suc writes, Some r))"

definition WriteThreadFunction :: "bool \<Rightarrow> cphidget \<Rightarrow> write_round list \<Rightarrow> cphidget \<times> nat \<times> ephidget option" where
  "WriteThreadFunction awdc phid rs =
     (case if write_not_needed phid then (phid, 0, Some EPHIDGET_OK) else write_loop awdc EPHIDGET_OK phid 0 rs of
        (phid, n, Some r) \<Rightarrow> (phid\<lparr>writeStopFlag := False\<rparr>, n, Some r)
      | (phid, n, None) \<Rightarrow> (phid, n, None))"

subsection \<open>Events\<close>

text \<open>\<^verbatim>\<open>EVENT\<close>: \<^verbatim>\<open>ready_to_go\<close> is an argument.  The wait returns the error number
  that the condition variable gives, unless the event is set.\<close>

datatype cond_ret = Cond_signalled | Cond_timedout | Cond_error

definition CThread_wait_on_event :: "bool \<Rightarrow> cond_ret \<Rightarrow> wait_ret" where
  "CThread_wait_on_event ready_to_go retval =
     (if \<not> ready_to_go then
        (case retval of Cond_timedout \<Rightarrow> WAIT_TIMEOUT | Cond_signalled \<Rightarrow> WAIT_OBJECT_0 | Cond_error \<Rightarrow> WAIT_FAILED)
      else WAIT_OBJECT_0)"

text \<open>The absolute time of the wait, in seconds and nanoseconds, from the time of day in seconds and
  microseconds and the milliseconds to wait.\<close>

definition wait_deadline :: "int \<Rightarrow> int \<Rightarrow> int \<Rightarrow> int \<times> int" where
  "wait_deadline sec usec ms =
     (let tv_sec = sec + ms div 1000; tv_nsec = usec * 1000 + ms mod 1000 * 1000000 in
      if tv_nsec \<ge> 1000000000 then (tv_sec + 1, tv_nsec - 1000000000) else (tv_sec, tv_nsec))"

lemma wait_deadline_valid:
  assumes "0 \<le> usec" and "usec < 1000000" and "0 \<le> ms" and "wait_deadline sec usec ms = (s, ns)"
  shows "0 \<le> ns \<and> ns < 1000000000 \<and> s * 1000000000 + ns = sec * 1000000000 + usec * 1000 + ms * 1000000"
proof -
  have "ms = ms div 1000 * 1000 + ms mod 1000" by simp
  then have "ms * 1000000 = ms div 1000 * 1000000000 + ms mod 1000 * 1000000" by linarith
  moreover have "0 \<le> ms mod 1000" "ms mod 1000 < 1000" by simp_all
  ultimately show ?thesis using assms by (auto simp: wait_deadline_def Let_def split: if_splits)
qed

subsection \<open>Waiting for an attachment\<close>

text \<open>What the loop sees each time: the attached and opened flags and the milliseconds since the
  start; \<open>None\<close> when it has not returned yet.\<close>

fun CPhidget_waitForAttachment :: "int \<Rightarrow> (bool \<times> bool \<times> int) list \<Rightarrow> ephidget option" where
  "CPhidget_waitForAttachment milliseconds [] = None"
| "CPhidget_waitForAttachment milliseconds ((att, opened, duration) # rest) =
     (if att then Some EPHIDGET_OK
      else if \<not> opened then Some EPHIDGET_CLOSED
      else if milliseconds \<noteq> 0 \<and> duration > milliseconds then Some EPHIDGET_TIMEOUT
      else CPhidget_waitForAttachment milliseconds rest)"

subsection \<open>Handing output to the write thread\<close>

text \<open>
  A device class keeps its pending output in a queue of type \<open>'q\<close>.  A caller holds the
  write lock and offers a request to the queue under the output lock; the write thread takes a packet
  from it under the same lock.  \<open>offer\<close> is the part of the sending function between taking and
  releasing the output lock (undefined for a request outside its arrays), \<open>pick\<close> is \<^verbatim>\<open>getPacket\<close>: the packet, the queue, and
  whether it signals \<^verbatim>\<open>writeAvailableEvent\<close> itself.
\<close>

datatype 'q offered = Busy | Same | Queued 'q

datatype 'r caller = Idle | Checking 'r | Waiting 'r | Signalling

datatype 'p writer = W_waiting | W_resetting | W_packing | W_sending 'p | W_exited

record ('q, 'r, 'p) port_state =
  queue :: 'q
  writeAvailable :: bool
  written :: bool
  attached :: bool
  caller :: "'r caller"
  writer :: "'p writer"
  accepted :: "'r list"
  picked :: "'p list"
  sent :: "'p list"

text \<open>The steps.  \<open>spurious\<close> allows the condition variable to wake without a signal.\<close>

inductive port_step ::
    "bool \<Rightarrow> ('r \<Rightarrow> 'q \<Rightarrow> 'q offered option) \<Rightarrow> ('q \<Rightarrow> ('p \<times> 'q \<times> bool) option) \<Rightarrow>
       ('q, 'r, 'p) port_state \<Rightarrow> ('q, 'r, 'p) port_state \<Rightarrow> bool" for spurious offer pick where
  call: "caller s = Idle \<Longrightarrow> port_step spurious offer pick s (s\<lparr>caller := Checking r\<rparr>)"
| not_attached: "caller s = Checking r \<Longrightarrow> \<not> attached s \<Longrightarrow> port_step spurious offer pick s (s\<lparr>caller := Idle\<rparr>)"
| busy: "caller s = Checking r \<Longrightarrow> attached s \<Longrightarrow> offer r (queue s) = Some Busy \<Longrightarrow>
    port_step spurious offer pick s (s\<lparr>caller := Waiting r\<rparr>)"
| same: "caller s = Checking r \<Longrightarrow> attached s \<Longrightarrow> offer r (queue s) = Some Same \<Longrightarrow>
    port_step spurious offer pick s (s\<lparr>caller := Idle\<rparr>)"
| queued: "caller s = Checking r \<Longrightarrow> attached s \<Longrightarrow> offer r (queue s) = Some (Queued q) \<Longrightarrow>
    port_step spurious offer pick s (s\<lparr>caller := Signalling, queue := q, written := False, accepted := accepted s @ [r]\<rparr>)"
| signal: "caller s = Signalling \<Longrightarrow> port_step spurious offer pick s (s\<lparr>caller := Idle, writeAvailable := True\<rparr>)"
| again: "caller s = Waiting r \<Longrightarrow> written s \<or> spurious \<Longrightarrow> port_step spurious offer pick s (s\<lparr>caller := Checking r\<rparr>)"
| give_up: "caller s = Waiting r \<Longrightarrow> port_step spurious offer pick s (s\<lparr>caller := Idle\<rparr>)"
| wake: "writer s = W_waiting \<Longrightarrow> attached s \<Longrightarrow> writeAvailable s \<or> spurious \<Longrightarrow>
    port_step spurious offer pick s (s\<lparr>writer := W_resetting\<rparr>)"
| reset: "writer s = W_resetting \<Longrightarrow> port_step spurious offer pick s (s\<lparr>writer := W_packing, writeAvailable := False\<rparr>)"
| pack: "writer s = W_packing \<Longrightarrow> pick (queue s) = Some (p, q, signal) \<Longrightarrow>
    port_step spurious offer pick s
      (s\<lparr>writer := W_sending p, queue := q, writeAvailable := writeAvailable s \<or> signal, picked := picked s @ [p]\<rparr>)"
| send: "writer s = W_sending p \<Longrightarrow> attached s \<Longrightarrow>
    port_step spurious offer pick s (s\<lparr>writer := W_waiting, written := True, sent := sent s @ [p]\<rparr>)"
| fail: "writer s = W_sending p \<Longrightarrow> port_step spurious offer pick s (s\<lparr>writer := W_exited, written := True\<rparr>)"
| stop: "writer s = W_waiting \<Longrightarrow> port_step spurious offer pick s (s\<lparr>writer := W_exited\<rparr>)"
| detach: "port_step spurious offer pick s (s\<lparr>attached := False, writeAvailable := True\<rparr>)"

inductive_cases port_stepE: "port_step spurious offer pick s s'"

definition port_start :: "'q \<Rightarrow> ('q, 'r, 'p) port_state" where
  "port_start q = \<lparr>queue = q, writeAvailable = False, written = False, attached = True, caller = Idle, writer = W_waiting,
     accepted = [], picked = [], sent = []\<rparr>"

inductive port_reachable ::
    "bool \<Rightarrow> ('r \<Rightarrow> 'q \<Rightarrow> 'q offered option) \<Rightarrow> ('q \<Rightarrow> ('p \<times> 'q \<times> bool) option) \<Rightarrow> 'q \<Rightarrow> ('q, 'r, 'p) port_state \<Rightarrow> bool"
  for spurious offer pick q where
  start: "port_reachable spurious offer pick q (port_start q)"
| step: "port_reachable spurious offer pick q s \<Longrightarrow> port_step spurious offer pick s s' \<Longrightarrow> port_reachable spurious offer pick q s'"

text \<open>
  The contract of a queue: \<open>pending\<close> are its requests by channel, \<open>good\<close> its invariant.
  A request is busy only behind one of its own channel; accepting adds exactly the request; taking a
  packet removes some of them and signals if some are left.  Each packet lowers the \<open>load\<close>, and
  without load nothing is pending.
\<close>

locale output_port =
  fixes offer :: "'r \<Rightarrow> 'q \<Rightarrow> 'q offered option"
    and pick :: "'q \<Rightarrow> ('p \<times> 'q \<times> bool) option"
    and good :: "'q \<Rightarrow> bool"
    and load :: "'q \<Rightarrow> nat"
    and pending :: "'q \<Rightarrow> 'c \<Rightarrow> 'v option"
    and chan :: "'r \<Rightarrow> 'c"
    and val :: "'r \<Rightarrow> 'v"
  assumes busy_pending: "good q \<Longrightarrow> offer r q = Some Busy \<Longrightarrow> pending q (chan r) \<noteq> None"
    and offer_queued: "good q \<Longrightarrow> offer r q = Some (Queued q') \<Longrightarrow>
      good q' \<and> pending q (chan r) = None \<and> pending q' = (pending q)(chan r \<mapsto> val r)"
    and pick_good: "good q \<Longrightarrow> pick q = Some (p, q', signal) \<Longrightarrow> good q' \<and> pending q' \<subseteq>\<^sub>m pending q"
    and pick_signal: "good q \<Longrightarrow> pick q = Some (p, q', signal) \<Longrightarrow> pending q' \<noteq> Map.empty \<Longrightarrow> signal"
    and pick_load: "good q \<Longrightarrow> load q \<noteq> 0 \<Longrightarrow> \<exists>p q' signal. pick q = Some (p, q', signal) \<and> load q' < load q"
    and no_load: "good q \<Longrightarrow> load q = 0 \<Longrightarrow> pending q = Map.empty"
begin

text \<open>No update is lost: as long as something is pending and the write thread runs, it has been or is
  about to be signalled, or it is on its way to the queue.\<close>

definition awake :: "('q, 'r, 'p) port_state \<Rightarrow> bool" where
  "awake s \<longleftrightarrow> writeAvailable s \<or> caller s = Signalling \<or> writer s = W_resetting \<or> writer s = W_packing"

definition wakeups_ok :: "('q, 'r, 'p) port_state \<Rightarrow> bool" where
  "wakeups_ok s \<longleftrightarrow> good (queue s) \<and> (pending (queue s) \<noteq> Map.empty \<longrightarrow> awake s) \<and>
     (\<forall>r. caller s = Waiting r \<longrightarrow> written s \<or> pending (queue s) (chan r) \<noteq> None \<or> (\<exists>p. writer s = W_sending p))"

lemma wakeups_step: "port_step spurious offer pick s s' \<Longrightarrow> wakeups_ok s \<Longrightarrow> wakeups_ok s'"
proof (induction rule: port_step.induct)
  case (busy s r)
  then show ?case using busy_pending by (auto simp: wakeups_ok_def awake_def)
next
  case (queued s r q)
  then show ?case using offer_queued [of "queue s" r q] by (auto simp: wakeups_ok_def awake_def)
next
  case (pack s p q signal)
  then show ?case using pick_good [of "queue s" p q signal] pick_signal [of "queue s" p q signal]
    by (auto simp: wakeups_ok_def awake_def)
qed (auto simp: wakeups_ok_def awake_def)

lemma wakeups_reachable:
  assumes "port_reachable spurious offer pick q s" and "good q" and "pending q = Map.empty"
  shows "wakeups_ok s"
  using assms(1)
proof (induction rule: port_reachable.induct)
  case start
  then show ?case using assms(2,3) by (simp add: port_start_def wakeups_ok_def)
next
  case (step s s')
  then show ?case using wakeups_step by blast
qed

text \<open>Taking packets until nothing is pending ends.\<close>

lemma drain: "good q \<Longrightarrow> \<exists>q'. (\<lambda>q q'. \<exists>p signal. pick q = Some (p, q', signal))\<^sup>*\<^sup>* q q' \<and> good q' \<and> pending q' = Map.empty"
proof (induction "load q" arbitrary: q rule: less_induct)
  case less
  show ?case
  proof (cases "load q = 0")
    case True
    then show ?thesis using no_load less.prems by blast
  next
    case False
    then obtain p q' signal where p: "pick q = Some (p, q', signal)" "load q' < load q" using pick_load less.prems by blast
    then have "good q'" using pick_good less.prems by blast
    from less.hyps [OF p(2) this] p(1) show ?thesis by (metis (mono_tags, lifting) converse_rtranclp_into_rtranclp)
  qed
qed

end

subsection \<open>The packet buffer of the macros\<close>

text \<open>\<^verbatim>\<open>CSENDPACKET_BUF\<close> and \<^verbatim>\<open>CGETPACKET_BUF\<close>: one packet of the report
  length \<open>n\<close>.  The packet that goes to libusb is the first \<open>n\<close> bytes of the zeroed
  buffer of \<^verbatim>\<open>CPhidget_write\<close>.\<close>

record packet_buf =
  outputPacket :: "u8 list"
  outputPacketLen :: nat

definition buf_offer :: "nat \<Rightarrow> u8 list \<Rightarrow> packet_buf \<Rightarrow> packet_buf offered option" where
  "buf_offer n buf q = (if outputPacketLen q \<noteq> 0 then Some Busy
     else if length buf < n then None
     else do { b \<leftarrow> blit (outputPacket q) 0 (take n buf); Some (Queued (q\<lparr>outputPacket := b, outputPacketLen := n\<rparr>)) })"

definition buf_pick :: "nat \<Rightarrow> packet_buf \<Rightarrow> (u8 list \<times> packet_buf \<times> bool) option" where
  "buf_pick n q = (let len = outputPacketLen q in
     if MAX_OUT_PACKET_SIZE < len \<or> length (outputPacket q) < len then None
     else Some (take n (take len (outputPacket q) @ replicate (MAX_OUT_PACKET_SIZE - len) 0), q\<lparr>outputPacketLen := 0\<rparr>, False))"

definition buf_good :: "nat \<Rightarrow> packet_buf \<Rightarrow> bool" where
  "buf_good n q \<longleftrightarrow> 0 < n \<and> n \<le> MAX_OUT_PACKET_SIZE \<and> n \<le> length (outputPacket q) \<and> outputPacketLen q \<in> {0, n}"

definition buf_pending :: "nat \<Rightarrow> packet_buf \<Rightarrow> unit \<Rightarrow> u8 list option" where
  "buf_pending n q c = (if outputPacketLen q = 0 then None else Some (take n (outputPacket q)))"

definition buf_load :: "packet_buf \<Rightarrow> nat" where
  "buf_load q = (if outputPacketLen q = 0 then 0 else 1)"

interpretation buf: output_port "buf_offer n" "buf_pick n" "buf_good n" buf_load "buf_pending n" "\<lambda>_. ()" "take n"
proof
  fix q r q' p signal
  assume g: "buf_good n q"
  show "buf_pending n q () \<noteq> None" if "buf_offer n r q = Some Busy"
    using that by (auto simp: buf_offer_def buf_pending_def split: if_splits bind_splits)
  show "buf_good n q' \<and> buf_pending n q () = None \<and> buf_pending n q' = (buf_pending n q)(() \<mapsto> take n r)"
    if "buf_offer n r q = Some (Queued q')"
    using that g by (auto simp: buf_offer_def buf_pending_def buf_good_def blit_def fun_eq_iff split: if_splits bind_splits)
  show "buf_good n q' \<and> buf_pending n q' \<subseteq>\<^sub>m buf_pending n q" if "buf_pick n q = Some (p, q', signal)"
    using that g by (auto simp: buf_pick_def buf_pending_def buf_good_def map_le_def Let_def split: if_splits)
  show signal if "buf_pick n q = Some (p, q', signal)" and "buf_pending n q' \<noteq> Map.empty"
    using that by (auto simp: buf_pick_def buf_pending_def Let_def fun_eq_iff split: if_splits)
  show "\<exists>p q' signal. buf_pick n q = Some (p, q', signal) \<and> buf_load q' < buf_load q" if "buf_load q \<noteq> 0"
    using that g by (auto simp: buf_pick_def buf_load_def buf_good_def Let_def split: if_splits)
  show "buf_pending n q = Map.empty" if "buf_load q = 0"
    using that by (auto simp: buf_load_def buf_pending_def split: if_splits)
qed

text \<open>Without spurious wake-ups every packet that is sent is a request: each wake-up of the write
  thread belongs to one accepted request.\<close>

definition in_flight :: "'p writer \<Rightarrow> 'p list" where
  "in_flight w = (case w of W_sending p \<Rightarrow> [p] | _ \<Rightarrow> [])"

definition buf_exact :: "nat \<Rightarrow> (packet_buf, u8 list, u8 list) port_state \<Rightarrow> bool" where
  "buf_exact n s \<longleftrightarrow> (let full = outputPacketLen (queue s) \<noteq> 0 in
     buf_good n (queue s) \<and>
     map (take n) (accepted s) = picked s @ (if full then [take n (outputPacket (queue s))] else []) \<and>
     (if writer s = W_exited then \<exists>ps. picked s = sent s @ ps else picked s = sent s @ in_flight (writer s)) \<and>
     (writeAvailable s \<or> writer s = W_resetting \<or> writer s = W_packing \<longrightarrow> full) \<and>
     (writer s = W_packing \<longrightarrow> \<not> writeAvailable s) \<and>
     (caller s = Signalling \<longrightarrow> full \<and> \<not> writeAvailable s \<and> writer s \<noteq> W_resetting \<and> writer s \<noteq> W_packing))"

definition buf_inv :: "nat \<Rightarrow> (packet_buf, u8 list, u8 list) port_state \<Rightarrow> bool" where
  "buf_inv n s \<longleftrightarrow> (attached s \<longrightarrow> buf_exact n s) \<and> (\<exists>ps. map (take n) (accepted s) = sent s @ ps)"

lemma buf_exact_prefix: "buf_exact n s \<Longrightarrow> \<exists>ps. map (take n) (accepted s) = sent s @ ps"
  by (auto simp: buf_exact_def Let_def split: if_splits)

lemma buf_inv_step:
  assumes "port_step False (buf_offer n) (buf_pick n) s s'" and "buf_inv n s" and "buf_good n (queue s)"
  shows "buf_inv n s'"
proof (cases "attached s'")
  case False
  from assms(1,2) show ?thesis
    by (cases rule: port_step.cases) (use False in \<open>auto simp: buf_inv_def\<close>)
next
  case True
  with assms(1) have att: "attached s" by (cases rule: port_step.cases) auto
  then have e: "buf_exact n s" using assms(2) by (simp add: buf_inv_def)
  from assms(1) have "buf_exact n s'"
  proof (cases rule: port_step.cases)
    case (queued r q)
    then show ?thesis using e assms(3)
      by (auto simp: buf_exact_def buf_offer_def buf_good_def Let_def blit_def split: if_splits bind_splits)
  next
    case (pack p q signal)
    then show ?thesis using e assms(3)
      by (auto simp: buf_exact_def buf_pick_def buf_good_def Let_def in_flight_def split: if_splits)
  qed (use e True in \<open>auto simp: buf_exact_def Let_def in_flight_def split: if_splits\<close>)
  then show ?thesis using buf_exact_prefix by (simp add: buf_inv_def)
qed

lemma buf_reachable:
  assumes "port_reachable False (buf_offer n) (buf_pick n) q s" and "buf_good n q" and "outputPacketLen q = 0"
  shows "buf_inv n s \<and> buf_good n (queue s)"
  using assms(1)
proof (induction rule: port_reachable.induct)
  case start
  then show ?case using assms(2,3) by (simp add: port_start_def buf_inv_def buf_exact_def in_flight_def)
next
  case (step s s')
  moreover have "buf.wakeups_ok n s'"
    using buf.wakeups_reachable [OF port_reachable.step [OF step(1,2)] assms(2)] assms(3) by (auto simp: buf_pending_def fun_eq_iff)
  ultimately show ?case using buf_inv_step by (auto simp: buf.wakeups_ok_def)
qed


text \<open>The run of one request.\<close>

lemma port_step_eq: "port_step sp offer pick s t \<Longrightarrow> t = t' \<Longrightarrow> port_step sp offer pick s t'"
  by simp

lemma port_run1:
  assumes "offer r q = Some (Queued q1)" and "pick q1 = Some (p, q2, False)"
  shows "port_reachable sp offer pick q \<lparr>queue = q2, writeAvailable = False, written = True, attached = True, caller = Idle,
     writer = W_waiting, accepted = [r], picked = [p], sent = [p]\<rparr>"
proof -
  let ?st = "\<lambda>q w wr c t a pk sn. \<lparr>queue = q, writeAvailable = w, written = wr, attached = True, caller = c, writer = t,
     accepted = a, picked = pk, sent = sn\<rparr>"
  note go = port_reachable.step [of sp offer pick q]
  have "port_reachable sp offer pick q (?st q False False Idle W_waiting [] [] [])"
    using port_reachable.start [of sp offer pick q] by (simp add: port_start_def)
  then have "port_reachable sp offer pick q (?st q False False (Checking r) W_waiting [] [] [])"
    by (rule go) (rule port_step_eq [OF port_step.call]; simp)
  then have "port_reachable sp offer pick q (?st q1 False False Signalling W_waiting [r] [] [])"
    by (rule go) (rule port_step_eq [OF port_step.queued [where r = r and q = q1]]; simp add: assms)
  then have "port_reachable sp offer pick q (?st q1 True False Idle W_waiting [r] [] [])"
    by (rule go) (rule port_step_eq [OF port_step.signal]; simp)
  then have "port_reachable sp offer pick q (?st q1 True False Idle W_resetting [r] [] [])"
    by (rule go) (rule port_step_eq [OF port_step.wake]; simp)
  then have "port_reachable sp offer pick q (?st q1 False False Idle W_packing [r] [] [])"
    by (rule go) (rule port_step_eq [OF port_step.reset]; simp)
  then have "port_reachable sp offer pick q (?st q2 False False Idle (W_sending p) [r] [p] [])"
    by (rule go) (rule port_step_eq [OF port_step.pack [where p = p and q = q2 and signal = False]]; simp add: assms)
  then show ?thesis
    by (rule go) (rule port_step_eq [OF port_step.send]; simp)
qed


text \<open>The wait tests its predicate once instead of in a loop, so the wake-up without a signal that
  POSIX allows makes the write thread send a packet of zeros to the device although nothing was asked.\<close>

theorem spurious_wakeup_sends_zeros:
  assumes "n \<le> MAX_OUT_PACKET_SIZE"
  shows "\<exists>s. port_reachable True (buf_offer n) (buf_pick n) \<lparr>outputPacket = pkt, outputPacketLen = 0\<rparr> s \<and>
    attached s \<and> accepted s = [] \<and> sent s = [replicate n 0]"
proof -
  let ?q = "\<lparr>outputPacket = pkt, outputPacketLen = 0\<rparr>"
  let ?st = "\<lambda>wr t pk sn. \<lparr>queue = ?q, writeAvailable = False, written = wr, attached = True, caller = Idle, writer = t,
     accepted = [], picked = pk, sent = sn\<rparr>"
  have p: "buf_pick n ?q = Some (replicate n 0, ?q, False)" using assms by (simp add: buf_pick_def)
  note go = port_reachable.step [of True "buf_offer n" "buf_pick n" ?q]
  have "port_reachable True (buf_offer n) (buf_pick n) ?q (?st False W_waiting [] [])"
    using port_reachable.start [of True "buf_offer n" "buf_pick n" ?q] by (simp add: port_start_def)
  then have "port_reachable True (buf_offer n) (buf_pick n) ?q (?st False W_resetting [] [])"
    by (rule go) (rule port_step_eq [OF port_step.wake]; simp)
  then have "port_reachable True (buf_offer n) (buf_pick n) ?q (?st False W_packing [] [])"
    by (rule go) (rule port_step_eq [OF port_step.reset]; simp)
  then have "port_reachable True (buf_offer n) (buf_pick n) ?q (?st False (W_sending (replicate n 0)) [replicate n 0] [])"
    by (rule go) (rule port_step_eq [OF port_step.pack [where p = "replicate n 0" and q = ?q and signal = False]]; simp add: p)
  then have "port_reachable True (buf_offer n) (buf_pick n) ?q (?st True W_waiting [replicate n 0] [replicate n 0])"
    by (rule go) (rule port_step_eq [OF port_step.send]; simp)
  then show ?thesis by fastforce
qed

theorem spurious_wakeup_sends_zeros_witness:
  "\<exists>s. port_reachable True (buf_offer 8) (buf_pick 8) \<lparr>outputPacket = replicate 8 1, outputPacketLen = 0\<rparr> s \<and>
    attached s \<and> accepted s = [] \<and> sent s = [replicate 8 0]"
  by (rule spurious_wakeup_sends_zeros) (simp add: MAX_OUT_PACKET_SIZE_def)

subsection \<open>When the threads end\<close>

lemma read_loop_unusable:
  assumes "is_set phid PHIDGET_ATTACHED_FLAG" and "deviceHandle phid" and "\<forall>x \<in> set xs. unusable phid x"
    and "tryAgainCounter phid + int (length xs) \<le> 30" and "xs \<noteq> []"
  shows "read_loop on_data result phid (map (\<lambda>x. Packet x buf) xs @ rest) =
    read_loop on_data EPHIDGET_TRYAGAIN (phid\<lparr>tryAgainCounter := tryAgainCounter phid + int (length xs)\<rparr>) rest"
  using assms
proof (induction xs arbitrary: phid result)
  case (Cons x xs)
  let ?p = "phid\<lparr>tryAgainCounter := tryAgainCounter phid + 1\<rparr>"
  have "CUSBReadPacket phid x = (EPHIDGET_TRYAGAIN, ?p)"
    using Cons.prems by (auto simp: CUSBReadPacket_def read_tryagain_def unusable_def Let_def split: usb_ret.split)
  then have u: "read_loop on_data result phid (map (\<lambda>x. Packet x buf) (x # xs) @ rest) =
      read_loop on_data EPHIDGET_TRYAGAIN ?p (map (\<lambda>x. Packet x buf) xs @ rest)"
    using Cons.prems(1) by (simp add: CPhidget_read_def)
  show ?case
  proof (cases "xs = []")
    case True
    then show ?thesis using u by simp
  next
    case False
    have "\<forall>x \<in> set xs. unusable ?p x" using Cons.prems(3) by (simp add: unusable_def)
    then have "read_loop on_data EPHIDGET_TRYAGAIN ?p (map (\<lambda>x. Packet x buf) xs @ rest) =
        read_loop on_data EPHIDGET_TRYAGAIN (?p\<lparr>tryAgainCounter := tryAgainCounter ?p + int (length xs)\<rparr>) rest"
      using Cons.prems False by (intro Cons.IH) (auto simp: unusable_def)
    then show ?thesis using u by (simp add: add.assoc)
  qed
qed simp

text \<open>C29. The read thread of a device that only gives unusable transfers ends after exactly 31 of
  them, with \<^verbatim>\<open>EPHIDGET_UNEXPECTED\<close> and the USB error flag set; with one transfer fewer it is still running and the flag is not set.\<close>

theorem read_thread_gives_up:
  assumes "is_set phid PHIDGET_ATTACHED_FLAG" and "deviceHandle phid" and "tryAgainCounter phid = 0"
    and "\<not> read_not_needed phid" and "length xs = 30" and "\<forall>x \<in> set (xs @ [x]). unusable phid x"
  shows "ReadThreadFunction on_data phid (map (\<lambda>x. Packet x buf) (xs @ [x]) @ rest) =
      Some (set_flag PHIDGET_USB_ERROR_FLAG phid, Some EPHIDGET_UNEXPECTED) \<and>
    ReadThreadFunction on_data phid (map (\<lambda>x. Packet x buf) xs) = Some (phid\<lparr>tryAgainCounter := 30\<rparr>, None)"
proof -
  let ?p = "phid\<lparr>tryAgainCounter := 30\<rparr>"
  have ne: "xs \<noteq> []" using assms(5) by auto
  have u: "read_loop on_data EPHIDGET_OK phid (map (\<lambda>x. Packet x buf) xs @ rs) = read_loop on_data EPHIDGET_TRYAGAIN ?p rs" for rs
    using read_loop_unusable [OF assms(1,2) _ _ ne, of on_data EPHIDGET_OK buf rs] assms(3,5,6) by simp
  have "unusable ?p x" using assms(6) by (simp add: unusable_def)
  then have "CUSBReadPacket ?p x = (EPHIDGET_UNEXPECTED, ?p\<lparr>tryAgainCounter := 0\<rparr>)"
    using assms(1,2) by (auto simp: CUSBReadPacket_def read_tryagain_def unusable_def Let_def split: usb_ret.split)
  moreover have "?p\<lparr>tryAgainCounter := 0\<rparr> = phid" using assms(3) by simp
  ultimately have "CPhidget_read on_data ?p x buf = Some (EPHIDGET_UNEXPECTED, phid)"
    using assms(1) by (simp add: CPhidget_read_def)
  then show ?thesis using assms(1,4) u u [of "[]"] by (simp add: ReadThreadFunction_def)
qed

theorem read_thread_gives_up_witness:
  "ReadThreadFunction None demo_handle (map (\<lambda>x. Packet x []) (replicate 30 LIBUSB_ERROR_OTHER @ [Bytes 3]) @ []) =
     Some (set_flag PHIDGET_USB_ERROR_FLAG demo_handle, Some EPHIDGET_UNEXPECTED)"
proof -
  have "is_set demo_handle PHIDGET_ATTACHED_FLAG" "deviceHandle demo_handle" "tryAgainCounter demo_handle = 0"
    "\<not> read_not_needed demo_handle" "length (replicate 30 LIBUSB_ERROR_OTHER) = 30"
    "\<forall>x \<in> set (replicate 30 LIBUSB_ERROR_OTHER @ [Bytes 3]). unusable demo_handle x"
    by (simp_all add: demo_handle_def CPhidget_create_def unusable_def set_flag_def clear_flag_def CPhidget_setStatusFlag_def
        CPhidget_clearStatusFlag_def CPhidget_statusFlagIsSet_def flag_def read_not_needed_def class_defs)
  from read_thread_gives_up [OF this, of None "[]" "[]"] show ?thesis by blast
qed

text \<open>The write thread: a set stop flag is honoured only when no output is waiting.\<close>

lemma write_before_stop:
  assumes "is_set phid PHIDGET_ATTACHED_FLAG"
  shows "write_loop awdc result (phid\<lparr>writeStopFlag := True\<rparr>) k (Woken WAIT_OBJECT_0 stop False EPHIDGET_OK # Woken WAIT_TIMEOUT stop' paused r # rs) =
    (phid\<lparr>writeStopFlag := True\<rparr>, Suc k, Some EPHIDGET_OK)"
  using assms by (simp add: Let_def)

end
