(* ===== verification/Led.thy ===== *)
theory Led
  imports Threads Complex_Main
begin

text \<open>
  The LED controllers (\<^verbatim>\<open>cphidgetled.c\<close>): the LED 64, its advanced version and the
  advanced version on the newer processor.  Powers and current limits are C doubles, here the rational
  numbers they denote; the one composite floating-point operation of the file, a division followed by a
  multiplication, is a parameter \<open>fdm x d m\<close> for \<open>(x / d) * m\<close> as computed.
\<close>

subsection \<open>State\<close>

type_synonym dbl = rat

definition PUNK_DBL :: dbl where "PUNK_DBL = 10 ^ 300"
definition PUNI_DBL :: dbl where "PUNI_DBL = 10 ^ 250"

definition LED_MAXLEDS :: nat where "LED_MAXLEDS = 64"

definition PHIDUID_LED_64 :: int where "PHIDUID_LED_64 = 39"
definition PHIDUID_LED_64_ADV :: int where "PHIDUID_LED_64_ADV = 40"
definition PHIDUID_LED_64_ADV_M3 :: int where "PHIDUID_LED_64_ADV_M3 = 41"
definition PHIDID_LED_64_ADV :: int where "PHIDID_LED_64_ADV = 0x4C"

lemmas uid_defs = PHIDUID_LED_64_def PHIDUID_LED_64_ADV_def PHIDUID_LED_64_ADV_M3_def PHIDID_LED_64_ADV_def

text \<open>\<^verbatim>\<open>CPhidgetLED_CurrentLimit\<close> is 1 to 4 for 20, 40, 60 and 80 mA,
  \<^verbatim>\<open>CPhidgetLED_Voltage\<close> is 1 to 4 for 1.7, 2.75, 3.9 and 5 V.\<close>

record led =
  phid :: cphidget
  numLEDs :: nat
  LED_Power :: "dbl list"
  LED_CurrentLimit :: "dbl list"
  voltage :: int
  currentLimit :: int
  nextLED_Power :: "dbl list"
  lastLED_Power :: "dbl list"
  changedLED_Power :: "int list"
  changeRequests :: u8
  LED_PowerEcho :: "dbl list"
  LED_CurrentLimitEcho :: "dbl list"
  outputEnabledEcho :: "int list"
  ledOpenDetectEcho :: "int list"
  powerGoodEcho :: int
  outputEnableEcho :: int
  faultEcho :: int
  voltageEcho :: int
  currentLimitEcho :: int
  TSDCount :: "u8 list"
  TSDClearCount :: "u8 list"
  TWarnCount :: "u8 list"
  TWarnClearCount :: "u8 list"
  PGoodErrState :: int
  controlPacketWaiting :: int
  lastOutputPacket :: int

text \<open>Assignment to an element of an array that is known to be long enough is a list update; the
  index expressions that depend on input are checked.\<close>

subsection \<open>Attaching\<close>

definition CPhidgetLED_clearVars :: "led \<Rightarrow> led" where
  "CPhidgetLED_clearVars d = d\<lparr>
     changeRequests := 2,
     changedLED_Power := replicate LED_MAXLEDS 2, LED_Power := replicate LED_MAXLEDS PUNI_DBL,
     LED_CurrentLimit := replicate LED_MAXLEDS PUNI_DBL, nextLED_Power := replicate LED_MAXLEDS PUNK_DBL,
     LED_PowerEcho := replicate LED_MAXLEDS PUNK_DBL, LED_CurrentLimitEcho := replicate LED_MAXLEDS PUNK_DBL,
     outputEnabledEcho := replicate LED_MAXLEDS 2, ledOpenDetectEcho := replicate LED_MAXLEDS 2,
     lastLED_Power := replicate LED_MAXLEDS PUNK_DBL,
     voltage := 2, currentLimit := 1, faultEcho := 2, TSDCount := replicate 4 0, TWarnCount := replicate 4 0,
     PGoodErrState := 0, powerGoodEcho := 2, outputEnableEcho := 2, currentLimitEcho := - 1, voltageEcho := - 1\<rparr>"

text \<open>The first \<open>n\<close> elements of an array set to a value.\<close>

definition fill_to :: "nat \<Rightarrow> 'a \<Rightarrow> 'a list \<Rightarrow> 'a list" where
  "fill_to n x xs = replicate (min n (length xs)) x @ drop n xs"

definition led_reset_queue :: "led \<Rightarrow> led" where
  "led_reset_queue d = d\<lparr>changedLED_Power := fill_to (numLEDs d) 0 (changedLED_Power d),
     LED_Power := fill_to (numLEDs d) PUNK_DBL (LED_Power d), nextLED_Power := fill_to (numLEDs d) PUNK_DBL (nextLED_Power d)\<rparr>"

text \<open>The first half of \<^verbatim>\<open>CPhidgetLED_initAfterOpen\<close>, before the reads.\<close>

definition led_init :: "led \<Rightarrow> led option" where
  "led_init d =
     (let u = deviceUID (phid d); n = numLEDs d in
      if u = PHIDUID_LED_64 then Some ((led_reset_queue d)\<lparr>changeRequests := 0, controlPacketWaiting := 0\<rparr>)
      else if u = PHIDUID_LED_64_ADV \<or> u = PHIDUID_LED_64_ADV_M3 then
        Some ((led_reset_queue d)\<lparr>
          LED_CurrentLimit := fill_to n PUNK_DBL (LED_CurrentLimit d),
          LED_PowerEcho := fill_to n PUNK_DBL (LED_PowerEcho d),
          LED_CurrentLimitEcho := fill_to n PUNK_DBL (LED_CurrentLimitEcho d),
          outputEnabledEcho := fill_to n 2 (outputEnabledEcho d), ledOpenDetectEcho := fill_to n 2 (ledOpenDetectEcho d),
          lastLED_Power := fill_to n PUNK_DBL (lastLED_Power d),
          voltage := 2, currentLimit := 1, faultEcho := 2, powerGoodEcho := 2, PGoodErrState := 0, outputEnableEcho := 2,
          voltageEcho := 0, currentLimitEcho := 0,
          TSDCount := replicate 4 0, TSDClearCount := replicate 4 0, TWarnCount := replicate 4 0, TWarnClearCount := replicate 4 0,
          lastOutputPacket := 0, changeRequests := 0, controlPacketWaiting := 0\<rparr>)
      else None)"

text \<open>The second half, after the packets have been read in.\<close>

definition led_take_echo :: "led \<Rightarrow> led" where
  "led_take_echo d =
     (let u = deviceUID (phid d) in
      if u = PHIDUID_LED_64_ADV then
        let d = d\<lparr>
          LED_Power := map (\<lambda>i. if i < numLEDs d then if outputEnabledEcho d ! i = 1 then LED_PowerEcho d ! i else 0 else LED_Power d ! i)
            [0..<length (LED_Power d)],
          lastLED_Power := map (\<lambda>i. if i < numLEDs d then LED_PowerEcho d ! i else lastLED_Power d ! i) [0..<length (lastLED_Power d)]\<rparr> in
        let d = (if voltageEcho d > 0 then d\<lparr>voltage := voltageEcho d\<rparr> else d) in
        (if currentLimitEcho d > 0 then d\<lparr>currentLimit := currentLimitEcho d\<rparr> else d)
      else if u = PHIDUID_LED_64_ADV_M3 then
        let d = d\<lparr>
          LED_Power := map (\<lambda>i. if i < numLEDs d then LED_PowerEcho d ! i else LED_Power d ! i) [0..<length (LED_Power d)],
          LED_CurrentLimit := map (\<lambda>i. if i < numLEDs d then LED_CurrentLimitEcho d ! i else LED_CurrentLimit d ! i)
            [0..<length (LED_CurrentLimit d)]\<rparr> in
        (if voltageEcho d > 0 then d\<lparr>voltage := voltageEcho d\<rparr> else d)
      else d)"

subsection \<open>Incoming packets\<close>

text \<open>The error events that the handler gets: code and which chip.\<close>

datatype led_event = EEPHIDGET_OVERTEMP "nat option" bool | EEPHIDGET_BADPOWER | EEPHIDGET_OK_POWER | EEPHIDGET_OK_TEMP nat bool

definition current_echo :: "u8 \<Rightarrow> int" where
  "current_echo b = (if b AND 0x02 \<noteq> 0 then if b AND 0x04 \<noteq> 0 then 4 else 2 else if b AND 0x04 \<noteq> 0 then 3 else 1)"

definition voltage_echo :: "u8 \<Rightarrow> int" where
  "voltage_echo b = (if b AND 0x08 \<noteq> 0 then if b AND 0x10 \<noteq> 0 then 4 else 2 else if b AND 0x10 \<noteq> 0 then 3 else 1)"

text \<open>The supervision of the advanced LED 64: thermal shutdown is guessed from the fault flag.\<close>

definition adv_fault :: "led \<Rightarrow> led \<times> led_event list" where
  "adv_fault d =
     (if faultEcho d \<noteq> 0 then
        let d = d\<lparr>TSDCount := (TSDCount d)[0 := TSDCount d ! 0 + 1], TSDClearCount := (TSDClearCount d)[0 := 30]\<rparr>;
            d = (if \<exists>i \<in> set [0..<numLEDs d]. ledOpenDetectEcho d ! i \<noteq> 0 then d\<lparr>TSDCount := (TSDCount d)[0 := 0]\<rparr> else d) in
        (if TSDCount d ! 0 = 3 \<or> TSDCount d ! 0 < 3 \<and> outputEnableEcho d = 0
         then (d\<lparr>TSDCount := (TSDCount d)[0 := 3]\<rparr>, [EEPHIDGET_OVERTEMP None True]) else (d, []))
      else if TSDClearCount d ! 0 > 0 then (d\<lparr>TSDClearCount := (TSDClearCount d)[0 := TSDClearCount d ! 0 - 1]\<rparr>, [])
      else (d\<lparr>TSDCount := (TSDCount d)[0 := 0]\<rparr>, []))"

definition power_check :: "led \<Rightarrow> led \<times> led_event list" where
  "power_check d = (if powerGoodEcho d = 0 \<and> PGoodErrState d = 0 then (d\<lparr>PGoodErrState := 1\<rparr>, [EEPHIDGET_BADPOWER]) else (d, []))"

definition led_bits :: "u8 list \<Rightarrow> nat \<Rightarrow> nat \<Rightarrow> int list" where
  "led_bits buffer off n = map (\<lambda>i. if bit (buffer ! (i div 8 + off)) (i mod 8) then 1 else 0) [0..<n]"

definition adv_low_packet :: "(dbl \<Rightarrow> dbl \<Rightarrow> dbl \<Rightarrow> dbl) \<Rightarrow> led \<Rightarrow> u8 list \<Rightarrow> led \<times> led_event list" where
  "adv_low_packet fdm d buffer =
     (let b = buffer ! 0; n = numLEDs d;
          d = (if b AND 0x01 \<noteq> 0 then d\<lparr>PGoodErrState := 0, powerGoodEcho := 1\<rparr> else d\<lparr>powerGoodEcho := 0\<rparr>);
          d = d\<lparr>outputEnableEcho := (if b AND 0x40 \<noteq> 0 then 1 else 0), faultEcho := (if b AND 0x20 \<noteq> 0 then 1 else 0),
                currentLimitEcho := current_echo b, voltageEcho := voltage_echo b,
                outputEnabledEcho := led_bits buffer 1 n @ drop n (outputEnabledEcho d),
                ledOpenDetectEcho := led_bits buffer 9 n @ drop n (ledOpenDetectEcho d),
                LED_PowerEcho := map (\<lambda>i. fdm (of_nat (unat (buffer ! (i + 17)))) 127 100) [0..<24] @ drop 24 (LED_PowerEcho d)\<rparr> in
      case adv_fault d of (d, es) \<Rightarrow> case power_check d of (d, es') \<Rightarrow> (d, es @ es'))"

definition adv_high_packet :: "(dbl \<Rightarrow> dbl \<Rightarrow> dbl \<Rightarrow> dbl) \<Rightarrow> led \<Rightarrow> u8 list \<Rightarrow> led" where
  "adv_high_packet fdm d buffer = d\<lparr>LED_PowerEcho := take 24 (LED_PowerEcho d) @
     map (\<lambda>i. fdm (of_nat (unat (buffer ! (i - 23)))) 127 100) [24..<numLEDs d] @ drop (numLEDs d) (LED_PowerEcho d)\<rparr>"

text \<open>The M3: one temperature counter of one chip; \<open>err\<close> tells errors from warnings.\<close>

definition temp_step :: "bool \<Rightarrow> bool \<Rightarrow> nat \<Rightarrow> u8 \<Rightarrow> u8 \<Rightarrow> u8 \<times> u8 \<times> led_event list" where
  "temp_step err fault i count clear =
     (if fault then let count = count + 1 in
        if count = 10 then (count, 20, [EEPHIDGET_OVERTEMP (Some i) err])
        else if count > 10 then (count - 1, 20, []) else (count, 20, [])
      else if clear > 0 then (count, clear - 1, [])
      else (0, clear, if count \<ge> 10 then [EEPHIDGET_OK_TEMP i err] else []))"

fun warn_loop :: "u8 \<Rightarrow> nat list \<Rightarrow> led \<Rightarrow> led \<times> led_event list" where
  "warn_loop b [] d = (d, [])"
| "warn_loop b (i # is) d = (case temp_step False (bit b i) i (TWarnCount d ! i) (TWarnClearCount d ! i) of (c, cl, es) \<Rightarrow>
     case warn_loop b is (d\<lparr>TWarnCount := (TWarnCount d)[i := c], TWarnClearCount := (TWarnClearCount d)[i := cl]\<rparr>) of
       (d, es') \<Rightarrow> (d, es @ es'))"

fun tsd_loop :: "u8 \<Rightarrow> nat list \<Rightarrow> led \<Rightarrow> led \<times> led_event list" where
  "tsd_loop b [] d = (d, [])"
| "tsd_loop b (i # is) d = (case temp_step True (bit b (i + 4)) i (TSDCount d ! i) (TSDClearCount d ! i) of (c, cl, es) \<Rightarrow>
     case tsd_loop b is (d\<lparr>TSDCount := (TSDCount d)[i := c], TSDClearCount := (TSDClearCount d)[i := cl]\<rparr>) of
       (d, es') \<Rightarrow> (d, es @ es'))"

text \<open>The 6-bit current limits and 12-bit powers of the M3, packed without gaps.\<close>

definition unpack6 :: "u8 list \<Rightarrow> nat \<Rightarrow> nat \<Rightarrow> nat" where
  "unpack6 buffer off i = (let k = i * 6 div 8 + off; b = buffer ! k; b' = buffer ! (k + 1) in
     if i mod 4 = 0 then unat (b AND 0x3f)
     else if i mod 4 = 1 then unat (drop_bit 6 b AND 0x03) + unat (push_bit 2 b' AND 0x3c)
     else if i mod 4 = 2 then unat (drop_bit 4 b AND 0x0f) + unat (push_bit 4 b' AND 0x30)
     else unat (drop_bit 2 b AND 0x3f))"

definition unpack12 :: "u8 list \<Rightarrow> nat \<Rightarrow> nat \<Rightarrow> nat" where
  "unpack12 buffer off i = (let k = i * 12 div 8 + off; b = buffer ! k; b' = buffer ! (k + 1) in
     if i mod 2 = 0 then unat b + 256 * unat (b' AND 0x0f)
     else unat (drop_bit 4 (b AND 0xf0)) + 16 * unat b')"

definition LED64_M3_CURRENTLIMIT :: dbl where "LED64_M3_CURRENTLIMIT = 80"

definition m3_misc_packet :: "(dbl \<Rightarrow> dbl \<Rightarrow> dbl \<Rightarrow> dbl) \<Rightarrow> led \<Rightarrow> u8 list \<Rightarrow> led \<times> led_event list" where
  "m3_misc_packet fdm d buffer =
     (let b = buffer ! 0;
          es0 = (if b AND 0x01 \<noteq> 0 \<and> PGoodErrState d \<noteq> 0 then [EEPHIDGET_OK_POWER] else []);
          d = (if b AND 0x01 \<noteq> 0 then d\<lparr>PGoodErrState := 0, powerGoodEcho := 1\<rparr> else d\<lparr>powerGoodEcho := 0\<rparr>);
          d = d\<lparr>voltageEcho := voltage_echo b\<rparr> in
      case power_check d of (d, es1) \<Rightarrow>
      case warn_loop (buffer ! 1) [0, 1, 2, 3] d of (d, es2) \<Rightarrow>
      case tsd_loop (buffer ! 1) [0, 1, 2, 3] d of (d, es3) \<Rightarrow>
        (d\<lparr>LED_CurrentLimitEcho := map (\<lambda>i. fdm (of_nat (unpack6 buffer 2 i)) 63 LED64_M3_CURRENTLIMIT) [0..<64]\<rparr>,
         es0 @ es1 @ es2 @ es3))"

text \<open>The divisor 4097 is the source's.\<close>

definition m3_low_packet :: "(dbl \<Rightarrow> dbl \<Rightarrow> dbl \<Rightarrow> dbl) \<Rightarrow> led \<Rightarrow> u8 list \<Rightarrow> led" where
  "m3_low_packet fdm d buffer = d\<lparr>LED_PowerEcho :=
     map (\<lambda>i. fdm (of_nat (unpack12 buffer 9 i)) 4097 100) [0..<32] @ drop 32 (LED_PowerEcho d)\<rparr>"

definition m3_high_packet :: "(dbl \<Rightarrow> dbl \<Rightarrow> dbl \<Rightarrow> dbl) \<Rightarrow> led \<Rightarrow> u8 list \<Rightarrow> led" where
  "m3_high_packet fdm d buffer = d\<lparr>LED_PowerEcho := take 32 (LED_PowerEcho d) @
     map (\<lambda>i. fdm (of_nat (unpack12 buffer 9 i)) 4097 100) [0..<32]\<rparr>"

text \<open>\<^verbatim>\<open>CPhidgetLED_dataInput\<close>: \<open>None\<close> if the buffer is shorter than what is read.\<close>

definition CPhidgetLED_dataInput ::
    "(dbl \<Rightarrow> dbl \<Rightarrow> dbl \<Rightarrow> dbl) \<Rightarrow> led \<Rightarrow> u8 list \<Rightarrow> int \<Rightarrow> (ephidget \<times> led \<times> led_event list) option" where
  "CPhidgetLED_dataInput fdm d buffer len =
     (let u = deviceUID (phid d) in
      if len < 0 then Some (EPHIDGET_INVALIDARG, d, [])
      else if u = PHIDUID_LED_64_ADV then do {
        b \<leftarrow> cread buffer 0;
        if length buffer < 41 then None
        else if b AND 0x80 = 0 then (case adv_low_packet fdm d buffer of (d, es) \<Rightarrow> Some (EPHIDGET_OK, d, es))
        else Some (EPHIDGET_OK, adv_high_packet fdm d buffer, []) }
      else if u = PHIDUID_LED_64_ADV_M3 then do {
        b \<leftarrow> cread buffer 0;
        if length buffer < 57 then None
        else if b AND 0x60 = 0x40 then (case m3_misc_packet fdm d buffer of (d, es) \<Rightarrow> Some (EPHIDGET_OK, d, es))
        else if b AND 0x60 = 0x00 then Some (EPHIDGET_OK, m3_low_packet fdm d buffer, [])
        else if b AND 0x60 = 0x20 then Some (EPHIDGET_OK, m3_high_packet fdm d buffer, [])
        else Some (EPHIDGET_OK, d, []) }
      else Some (EPHIDGET_UNEXPECTED, d, []))"

subsection \<open>Outgoing packets\<close>

text \<open>C's \<^verbatim>\<open>round\<close>, away from zero, and the byte of a power.\<close>

definition c_round :: "dbl \<Rightarrow> int" where
  "c_round x = (if x \<ge> 0 then \<lfloor>x + 1 / 2\<rfloor> else - \<lfloor>1 / 2 - x\<rfloor>)"

definition led_byte :: "(dbl \<Rightarrow> dbl \<Rightarrow> dbl \<Rightarrow> dbl) \<Rightarrow> dbl \<Rightarrow> dbl \<Rightarrow> u8" where
  "led_byte fdm m x = word_of_int (c_round (fdm x 100 m))"

text \<open>A request leaves the queue.\<close>

definition take_request :: "nat \<Rightarrow> led \<Rightarrow> led" where
  "take_request i d = d\<lparr>LED_Power := (LED_Power d)[i := nextLED_Power d ! i], changedLED_Power := (changedLED_Power d)[i := 0],
     nextLED_Power := (nextLED_Power d)[i := PUNK_DBL], changeRequests := changeRequests d - 1\<rparr>"

text \<open>Up to four settings in one packet; the state of the loop is the record, the buffer and
  \<^verbatim>\<open>numLeds\<close>.\<close>

definition led64_set :: "(dbl \<Rightarrow> dbl \<Rightarrow> dbl \<Rightarrow> dbl) \<Rightarrow> nat \<Rightarrow> led \<times> u8 list \<times> nat \<Rightarrow> (led \<times> u8 list \<times> nat) option" where
  "led64_set fdm i st = (case st of (d, buf, k) \<Rightarrow>
     if changedLED_Power d ! i \<noteq> 0 \<and> k < 4 then do {
       let d = take_request i d;
       buf \<leftarrow> cwrite buf (k * 2) (of_nat i);
       buf \<leftarrow> cwrite buf (k * 2 + 1) (led_byte fdm 63 (LED_Power d ! i));
       Some (d, buf, k + 1) }
     else Some (d, buf, k))"

definition adv_set :: "(dbl \<Rightarrow> dbl \<Rightarrow> dbl \<Rightarrow> dbl) \<Rightarrow> nat \<Rightarrow> led \<times> u8 list \<times> nat \<Rightarrow> (led \<times> u8 list \<times> nat) option" where
  "adv_set fdm i st = (case st of (d, buf, k) \<Rightarrow>
     if changedLED_Power d ! i \<noteq> 0 \<and> k < 4 \<and> nextLED_Power d ! i \<noteq> 0 then do {
       let d = take_request i (d\<lparr>lastLED_Power := (lastLED_Power d)[i := nextLED_Power d ! i]\<rparr>);
       let v = led_byte fdm 127 (LED_Power d ! i);
       buf \<leftarrow> cwrite buf (k * 2) (of_nat i);
       buf \<leftarrow> cwrite buf (k * 2 + 1) (if v \<noteq> 0 then v OR 0x80 else v);
       Some (d, buf, k + 1) }
     else Some (d, buf, k))"

text \<open>Filling up with copies of the last setting; without one the read is in front of the buffer.\<close>

definition led_repeat :: "nat \<Rightarrow> u8 list \<Rightarrow> u8 list option" where
  "led_repeat k buf = cfor [k..<4] (\<lambda>k buf. if k = 0 then None else do {
     a \<leftarrow> cread buf ((k - 1) * 2);
     b \<leftarrow> cread buf ((k - 1) * 2 + 1);
     buf \<leftarrow> cwrite buf (k * 2) a;
     cwrite buf (k * 2 + 1) b }) buf"

definition led64_packet :: "(dbl \<Rightarrow> dbl \<Rightarrow> dbl \<Rightarrow> dbl) \<Rightarrow> led \<Rightarrow> u8 list \<Rightarrow> (u8 list \<times> led) option" where
  "led64_packet fdm d buf = do {
     (d, buf, k) \<leftarrow> cfor [0..<numLEDs d] (led64_set fdm) (d, buf, 0);
     buf \<leftarrow> led_repeat k buf;
     Some (buf, d) }"

definition voltage_flags :: "int \<Rightarrow> u8" where
  "voltage_flags v = (if v = 2 then 0x08 else if v = 3 then 0x10 else if v = 4 then 0x18 else 0)"

definition current_flags :: "int \<Rightarrow> u8" where
  "current_flags c = (if c = 2 then 0x02 else if c = 3 then 0x04 else if c = 4 then 0x06 else 0)"

definition adv_control_packet :: "led \<Rightarrow> u8 list \<Rightarrow> (u8 list \<times> led) option" where
  "adv_control_packet d buf = do {
     buf \<leftarrow> cwrite buf 0 0x40;
     buf \<leftarrow> cwrite buf 1 (current_flags (currentLimit d) OR voltage_flags (voltage d));
     Some (buf, d\<lparr>controlPacketWaiting := 0\<rparr>) }"

text \<open>The first loop: is a brightness packet needed, and are there changes in either half.\<close>

definition bright_change :: "led \<Rightarrow> nat \<Rightarrow> bool" where
  "bright_change d i \<longleftrightarrow> changedLED_Power d ! i \<noteq> 0 \<and> nextLED_Power d ! i \<noteq> lastLED_Power d ! i \<and> nextLED_Power d ! i \<noteq> 0"

definition adv_bright :: "led \<Rightarrow> bool" where
  "adv_bright d \<longleftrightarrow> (\<exists>i \<in> set [0..<numLEDs d]. bright_change d i)"

definition adv_lower :: "led \<Rightarrow> bool" where
  "adv_lower d \<longleftrightarrow> (\<exists>i \<in> set [0..<numLEDs d]. changedLED_Power d ! i \<noteq> 0 \<and> \<not> bright_change d i \<and> i < 32)"

definition adv_upper :: "led \<Rightarrow> bool" where
  "adv_upper d \<longleftrightarrow> (\<exists>i \<in> set [0..<numLEDs d]. changedLED_Power d ! i \<noteq> 0 \<and> \<not> bright_change d i \<and> \<not> i < 32)"

text \<open>One output of a packet that switches 32 outputs on or off; \<open>off\<close> is the distance from
  \<^verbatim>\<open>i/8\<close> to the byte.\<close>

definition output_bit :: "int \<Rightarrow> nat \<Rightarrow> led \<times> u8 list \<Rightarrow> (led \<times> u8 list) option" where
  "output_bit off i st = (case st of (d, buf) \<Rightarrow> do {
     let d = (if changedLED_Power d ! i \<noteq> 0 then take_request i d else d);
     if LED_Power d ! i > 0 then do {
       let k = nat (int (i div 8) + off);
       b \<leftarrow> cread buf k;
       buf \<leftarrow> cwrite buf k (b OR push_bit (i mod 8) 1);
       Some (d, buf) }
     else Some (d, buf) })"

definition adv_output_packet :: "led \<Rightarrow> u8 list \<Rightarrow> (u8 list \<times> led) option" where
  "adv_output_packet d buf =
     (if lastOutputPacket d = 0 \<and> adv_lower d \<or> lastOutputPacket d \<noteq> 0 \<and> \<not> adv_upper d then do {
        buf \<leftarrow> cwrite buf 0 0x80;
        (d, buf) \<leftarrow> cfor [0..<32] (output_bit 1) (d, buf);
        Some (buf, d\<lparr>lastOutputPacket := 1\<rparr>) }
      else do {
        buf \<leftarrow> cwrite buf 0 0xc0;
        (d, buf) \<leftarrow> cfor [32..<64] (output_bit (- 3)) (d, buf);
        Some (buf, d\<lparr>lastOutputPacket := 0\<rparr>) })"

definition adv_packet :: "(dbl \<Rightarrow> dbl \<Rightarrow> dbl \<Rightarrow> dbl) \<Rightarrow> led \<Rightarrow> u8 list \<Rightarrow> (u8 list \<times> led) option" where
  "adv_packet fdm d buf =
     (if controlPacketWaiting d \<noteq> 0 then adv_control_packet d buf
      else if adv_bright d then do {
        (d, buf, k) \<leftarrow> cfor [0..<numLEDs d] (adv_set fdm) (d, buf, 0);
        buf \<leftarrow> led_repeat k buf;
        Some (buf, d) }
      else adv_output_packet d buf)"

text \<open>The packing of the M3: \<open>value\<close> into the buffer at the place of the \<open>i\<close>-th.\<close>

definition or_byte :: "nat \<Rightarrow> int \<Rightarrow> u8 list \<Rightarrow> u8 list option" where
  "or_byte k v buf = do { b \<leftarrow> cread buf k; cwrite buf k (b OR word_of_int v) }"

definition pack6 :: "nat \<Rightarrow> int \<Rightarrow> u8 list \<Rightarrow> u8 list option" where
  "pack6 i v buf = (let k = i * 6 div 8 + 1 in
     if i mod 4 = 0 then or_byte k (v AND 0x3f) buf
     else if i mod 4 = 1 then do { buf \<leftarrow> or_byte k (push_bit 6 v AND 0xc0) buf; or_byte (k + 1) (drop_bit 2 v AND 0x0f) buf }
     else if i mod 4 = 2 then do { buf \<leftarrow> or_byte k (push_bit 4 v AND 0xf0) buf; or_byte (k + 1) (drop_bit 4 v AND 0x03) buf }
     else or_byte k (push_bit 2 v AND 0xfc) buf)"

definition pack12 :: "nat \<Rightarrow> int \<Rightarrow> u8 list \<Rightarrow> u8 list option" where
  "pack12 i v buf = (let k = i * 12 div 8 + 1 in
     if i mod 2 = 0 then do { buf \<leftarrow> or_byte k (v AND 0xff) buf; or_byte (k + 1) (drop_bit 8 v AND 0x0f) buf }
     else do { buf \<leftarrow> or_byte k (push_bit 4 v AND 0xf0) buf; or_byte (k + 1) (drop_bit 4 v AND 0xff) buf })"

definition m3_limit :: "(dbl \<Rightarrow> dbl \<Rightarrow> dbl \<Rightarrow> dbl) \<Rightarrow> nat \<Rightarrow> led \<times> u8 list \<Rightarrow> (led \<times> u8 list) option" where
  "m3_limit fdm i st = (case st of (d, buf) \<Rightarrow> do {
     let d = (if LED_CurrentLimit d ! i = PUNK_DBL then d\<lparr>LED_CurrentLimit := (LED_CurrentLimit d)[i := 20]\<rparr> else d);
     buf \<leftarrow> pack6 i (c_round (fdm (LED_CurrentLimit d ! i) LED64_M3_CURRENTLIMIT 63)) buf;
     Some (d, buf) })"

definition m3_control_packet :: "(dbl \<Rightarrow> dbl \<Rightarrow> dbl \<Rightarrow> dbl) \<Rightarrow> led \<Rightarrow> u8 list \<Rightarrow> (u8 list \<times> led) option" where
  "m3_control_packet fdm d buf = do {
     buf \<leftarrow> cwrite buf 0 (0x40 OR voltage_flags (voltage d));
     (d, buf) \<leftarrow> cfor [0..<64] (m3_limit fdm) (d, buf);
     Some (buf, d\<lparr>controlPacketWaiting := 0\<rparr>) }"

definition m3_power :: "(dbl \<Rightarrow> dbl \<Rightarrow> dbl \<Rightarrow> dbl) \<Rightarrow> nat \<Rightarrow> nat \<Rightarrow> led \<times> u8 list \<Rightarrow> (led \<times> u8 list) option" where
  "m3_power fdm start i st = (case st of (d, buf) \<Rightarrow> do {
     let d = (if changedLED_Power d ! i \<noteq> 0 then take_request i d else d);
     let d = (if LED_Power d ! i = PUNK_DBL then d\<lparr>LED_Power := (LED_Power d)[i := 0]\<rparr> else d);
     buf \<leftarrow> pack12 (i - start) (c_round (fdm (LED_Power d ! i) 100 4095)) buf;
     Some (d, buf) })"

definition m3_lower :: "led \<Rightarrow> bool" where
  "m3_lower d \<longleftrightarrow> (\<exists>i \<in> set [0..<numLEDs d]. changedLED_Power d ! i \<noteq> 0 \<and> i < 32)"

definition m3_upper :: "led \<Rightarrow> bool" where
  "m3_upper d \<longleftrightarrow> (\<exists>i \<in> set [0..<numLEDs d]. changedLED_Power d ! i \<noteq> 0 \<and> \<not> i < 32)"

definition m3_packet :: "(dbl \<Rightarrow> dbl \<Rightarrow> dbl \<Rightarrow> dbl) \<Rightarrow> led \<Rightarrow> u8 list \<Rightarrow> (u8 list \<times> led) option" where
  "m3_packet fdm d buf =
     (if controlPacketWaiting d \<noteq> 0 then m3_control_packet fdm d buf
      else if lastOutputPacket d = 0 \<and> m3_lower d \<or> lastOutputPacket d \<noteq> 0 \<and> \<not> m3_upper d then do {
        buf \<leftarrow> cwrite buf 0 0x00;
        (d, buf) \<leftarrow> cfor [0..<32] (m3_power fdm 0) (d\<lparr>lastOutputPacket := 1\<rparr>, buf);
        Some (buf, d) }
      else do {
        buf \<leftarrow> cwrite buf 0 0x20;
        (d, buf) \<leftarrow> cfor [32..<64] (m3_power fdm 32) (d\<lparr>lastOutputPacket := 0\<rparr>, buf);
        Some (buf, d) })"

text \<open>\<^verbatim>\<open>CPhidgetLED_getPacket\<close>: the result, the buffer, the record, and whether
  \<^verbatim>\<open>writeAvailableEvent\<close> is set.\<close>

definition CPhidgetLED_getPacket ::
    "(dbl \<Rightarrow> dbl \<Rightarrow> dbl \<Rightarrow> dbl) \<Rightarrow> led \<Rightarrow> u8 list \<Rightarrow> nat \<Rightarrow> (ephidget \<times> u8 list \<times> led \<times> bool) option" where
  "CPhidgetLED_getPacket fdm d buf lenp =
     (let u = deviceUID (phid d) in
      if lenp < outputReportByteLength (phid d) then Some (EPHIDGET_INVALIDARG, buf, d, False)
      else if u = PHIDUID_LED_64 \<or> u = PHIDUID_LED_64_ADV \<or> u = PHIDUID_LED_64_ADV_M3 then do {
        (buf, d) \<leftarrow> (if u = PHIDUID_LED_64 then led64_packet fdm d buf
                      else if u = PHIDUID_LED_64_ADV then adv_packet fdm d buf else m3_packet fdm d buf);
        Some (EPHIDGET_OK, buf, d, changeRequests d \<noteq> 0) }
      else Some (EPHIDGET_UNEXPECTED, buf, d, False))"

text \<open>\<^verbatim>\<open>CPhidgetLED_sendpacket\<close> between taking and releasing the output lock.\<close>

definition led_offer :: "nat \<times> dbl \<Rightarrow> led \<Rightarrow> led offered option" where
  "led_offer r d = (case r of (i, v) \<Rightarrow>
     if \<not> i < length (changedLED_Power d) then None
     else Some (if changedLED_Power d ! i \<noteq> 0 then if nextLED_Power d ! i \<noteq> v then Busy else Same
       else if LED_Power d ! i \<noteq> v
       then Queued (d\<lparr>changeRequests := changeRequests d + 1, changedLED_Power := (changedLED_Power d)[i := 1],
              nextLED_Power := (nextLED_Power d)[i := v]\<rparr>)
       else Same))"

text \<open>What the write thread hands to libusb: the packet of the report length.\<close>

definition led_pick :: "(dbl \<Rightarrow> dbl \<Rightarrow> dbl \<Rightarrow> dbl) \<Rightarrow> led \<Rightarrow> (u8 list \<times> led \<times> bool) option" where
  "led_pick fdm d = (case CPhidgetLED_getPacket fdm d (replicate MAX_OUT_PACKET_SIZE 0) MAX_OUT_PACKET_SIZE of
     Some (EPHIDGET_OK, buf, d, signal) \<Rightarrow> Some (take (outputReportByteLength (phid d)) buf, d, signal)
   | _ \<Rightarrow> None)"

subsection \<open>The interface\<close>

definition led_checks :: "led \<Rightarrow> ephidget" where
  "led_checks d = (if deviceID (phid d) \<noteq> PHIDCLASS_LED then EPHIDGET_WRONGDEVICE
     else if \<not> is_set (phid d) PHIDGET_ATTACHED_FLAG then EPHIDGET_NOTATTACHED else EPHIDGET_OK)"

definition led_index_ok :: "led \<Rightarrow> int \<Rightarrow> bool" where
  "led_index_ok d Index \<longleftrightarrow> \<not> (Index \<ge> int (numLEDs d) \<or> Index < 0)"

definition CPhidgetLED_getLEDCount :: "led \<Rightarrow> ephidget \<times> nat option" where
  "CPhidgetLED_getLEDCount d = (if led_checks d \<noteq> EPHIDGET_OK then (led_checks d, None) else (EPHIDGET_OK, Some (numLEDs d)))"

definition CPhidgetLED_getBrightness :: "led \<Rightarrow> int \<Rightarrow> ephidget \<times> dbl option" where
  "CPhidgetLED_getBrightness d Index =
     (if led_checks d \<noteq> EPHIDGET_OK then (led_checks d, None)
      else if \<not> led_index_ok d Index then (EPHIDGET_OUTOFBOUNDS, None)
      else if LED_Power d ! nat Index = PUNK_DBL then (EPHIDGET_UNKNOWNVAL, Some PUNK_DBL)
      else (EPHIDGET_OK, Some (LED_Power d ! nat Index)))"

text \<open>\<^verbatim>\<open>CPhidgetLED_setBrightness\<close> up to the call of \<^verbatim>\<open>CPhidgetLED_sendpacket\<close>.\<close>

definition setBrightness_checks :: "led \<Rightarrow> int \<Rightarrow> dbl \<Rightarrow> ephidget" where
  "setBrightness_checks d Index newVal =
     (if led_checks d \<noteq> EPHIDGET_OK then led_checks d
      else if \<not> led_index_ok d Index then EPHIDGET_OUTOFBOUNDS
      else if newVal < 0 \<or> newVal > 100 then EPHIDGET_INVALIDARG else EPHIDGET_OK)"

definition CPhidgetLED_getCurrentLimitIndexed :: "led \<Rightarrow> int \<Rightarrow> ephidget \<times> dbl option" where
  "CPhidgetLED_getCurrentLimitIndexed d Index =
     (if led_checks d \<noteq> EPHIDGET_OK then (led_checks d, None)
      else if \<not> led_index_ok d Index then (EPHIDGET_OUTOFBOUNDS, None)
      else if deviceUID (phid d) \<noteq> PHIDUID_LED_64_ADV_M3 then (EPHIDGET_UNSUPPORTED, None)
      else if LED_CurrentLimit d ! nat Index = PUNK_DBL then (EPHIDGET_UNKNOWNVAL, Some PUNK_DBL)
      else (EPHIDGET_OK, Some (LED_CurrentLimit d ! nat Index)))"

text \<open>The setters of a device on this machine; the write thread is signalled when they succeed.\<close>

definition CPhidgetLED_setCurrentLimitIndexed :: "led \<Rightarrow> int \<Rightarrow> dbl \<Rightarrow> ephidget \<times> led" where
  "CPhidgetLED_setCurrentLimitIndexed d Index newVal =
     (if led_checks d \<noteq> EPHIDGET_OK then (led_checks d, d)
      else if \<not> led_index_ok d Index then (EPHIDGET_OUTOFBOUNDS, d)
      else if deviceUID (phid d) \<noteq> PHIDUID_LED_64_ADV_M3 then (EPHIDGET_UNSUPPORTED, d)
      else if newVal < 0 \<or> newVal > LED64_M3_CURRENTLIMIT then (EPHIDGET_INVALIDARG, d)
      else (EPHIDGET_OK, d\<lparr>LED_CurrentLimit := (LED_CurrentLimit d)[nat Index := newVal], controlPacketWaiting := 1\<rparr>))"

definition CPhidgetLED_getCurrentLimit :: "led \<Rightarrow> ephidget \<times> int option" where
  "CPhidgetLED_getCurrentLimit d =
     (if led_checks d \<noteq> EPHIDGET_OK then (led_checks d, None)
      else if deviceUID (phid d) = PHIDUID_LED_64_ADV then (EPHIDGET_OK, Some (currentLimitEcho d))
      else (EPHIDGET_UNSUPPORTED, None))"

definition CPhidgetLED_setCurrentLimit :: "led \<Rightarrow> int \<Rightarrow> ephidget \<times> led" where
  "CPhidgetLED_setCurrentLimit d newVal =
     (if led_checks d \<noteq> EPHIDGET_OK then (led_checks d, d)
      else if deviceUID (phid d) = PHIDUID_LED_64_ADV then
        if newVal < 1 \<or> newVal > 4 then (EPHIDGET_INVALIDARG, d)
        else (EPHIDGET_OK, d\<lparr>currentLimit := newVal, controlPacketWaiting := 1\<rparr>)
      else if deviceUID (phid d) = PHIDUID_LED_64_ADV_M3 then
        if newVal < 1 \<or> newVal > 4 then (EPHIDGET_INVALIDARG, d)
        else (EPHIDGET_OK, d\<lparr>LED_CurrentLimit := fill_to (numLEDs d) (of_int (20 * newVal)) (LED_CurrentLimit d),
               controlPacketWaiting := 1\<rparr>)
      else (EPHIDGET_UNSUPPORTED, d))"

definition CPhidgetLED_getVoltage :: "led \<Rightarrow> ephidget \<times> int option" where
  "CPhidgetLED_getVoltage d =
     (if led_checks d \<noteq> EPHIDGET_OK then (led_checks d, None)
      else if deviceIDSpec (phid d) = PHIDID_LED_64_ADV then (EPHIDGET_OK, Some (voltageEcho d))
      else (EPHIDGET_UNSUPPORTED, None))"

definition CPhidgetLED_setVoltage :: "led \<Rightarrow> int \<Rightarrow> ephidget \<times> led" where
  "CPhidgetLED_setVoltage d newVal =
     (if led_checks d \<noteq> EPHIDGET_OK then (led_checks d, d)
      else if deviceIDSpec (phid d) \<noteq> PHIDID_LED_64_ADV then (EPHIDGET_UNSUPPORTED, d)
      else if newVal < 1 \<or> newVal > 4 then (EPHIDGET_INVALIDARG, d)
      else (EPHIDGET_OK, d\<lparr>voltage := newVal, controlPacketWaiting := 1\<rparr>))"

text \<open>\<^verbatim>\<open>CPhidgetLED_setBrightness\<close> as a request to the queue: one that fails the
  checks leaves it alone.\<close>

definition led_set :: "int \<times> dbl \<Rightarrow> led \<Rightarrow> led offered option" where
  "led_set r d = (if setBrightness_checks d (fst r) (snd r) \<noteq> EPHIDGET_OK then Some Same else led_offer (nat (fst r), snd r) d)"

subsection \<open>The device\<close>

text \<open>What the advanced LED 64 does with the packets, by the comments of the source: a setting stores a
  brightness and, if its top bit is set, switches the LED on; an output packet switches 32 LEDs.\<close>

record adv_device =
  brightness :: "nat \<Rightarrow> u8"
  lit :: "nat \<Rightarrow> bool"

definition adv_setting :: "u8 list \<Rightarrow> nat \<Rightarrow> adv_device \<Rightarrow> adv_device" where
  "adv_setting p k dev = (let i = unat (p ! (k * 2)); v = p ! (k * 2 + 1) in
     dev\<lparr>brightness := (brightness dev)(i := v AND 0x7f), lit := (if bit v 7 then (lit dev)(i := True) else lit dev)\<rparr>)"

definition adv_apply :: "u8 list \<Rightarrow> adv_device \<Rightarrow> adv_device" where
  "adv_apply p dev =
     (if p ! 0 AND 0xc0 = 0x80 then dev\<lparr>lit := \<lambda>i. if i < 32 then bit (p ! (i div 8 + 1)) (i mod 8) else lit dev i\<rparr>
      else if p ! 0 AND 0xc0 = 0xc0 then
        dev\<lparr>lit := \<lambda>i. if 32 \<le> i \<and> i < 64 then bit (p ! (i div 8 - 3)) (i mod 8) else lit dev i\<rparr>
      else if p ! 0 AND 0xc0 = 0x40 then dev
      else fold (adv_setting p) [0..<4] dev)"

definition shown :: "adv_device \<Rightarrow> nat \<Rightarrow> u8" where
  "shown dev i = (if lit dev i then brightness dev i else 0)"

subsection \<open>Lemmas on the queue\<close>

definition led_pending :: "led \<Rightarrow> nat \<Rightarrow> dbl option" where
  "led_pending d i = (if i < 64 \<and> changedLED_Power d ! i \<noteq> 0 then Some (nextLED_Power d ! i) else None)"

definition changes :: "led \<Rightarrow> nat set" where
  "changes d = {i. i < 64 \<and> changedLED_Power d ! i \<noteq> 0}"

definition led_lengths :: "led \<Rightarrow> bool" where
  "led_lengths d \<longleftrightarrow> numLEDs d = 64 \<and> length (LED_Power d) = 64 \<and> length (nextLED_Power d) = 64 \<and>
     length (lastLED_Power d) = 64 \<and> length (changedLED_Power d) = 64"

definition led_good :: "int \<Rightarrow> led \<Rightarrow> bool" where
  "led_good u d \<longleftrightarrow> deviceUID (phid d) = u \<and> led_lengths d \<and> changeRequests d = of_nat (card (changes d)) \<and>
     8 \<le> outputReportByteLength (phid d) \<and> outputReportByteLength (phid d) \<le> MAX_OUT_PACKET_SIZE \<and>
     (\<forall>i < 64. changedLED_Power d ! i \<noteq> 0 \<longrightarrow> 0 \<le> nextLED_Power d ! i \<and> nextLED_Power d ! i \<le> 100) \<and>
     (\<forall>i < 64. 0 \<le> LED_Power d ! i \<and> (LED_Power d ! i = 0 \<or> lastLED_Power d ! i = LED_Power d ! i))"

lemma finite_changes [simp]: "finite (changes d)" and card_changes: "card (changes d) \<le> 64"
proof -
  have s: "changes d \<subseteq> {..<64}" by (auto simp: changes_def)
  then show "finite (changes d)" by (rule finite_subset) simp
  from card_mono [OF _ s] show "card (changes d) \<le> 64" by simp
qed

lemma changes_zero_iff: "card (changes d) = 0 \<longleftrightarrow> led_pending d = Map.empty"
  by (auto simp: changes_def led_pending_def fun_eq_iff)

text \<open>Taking a request, by fields.\<close>

lemma take_request_fields [simp]:
  "numLEDs (take_request i d) = numLEDs d" "phid (take_request i d) = phid d"
  "lastLED_Power (take_request i d) = lastLED_Power d" "lastOutputPacket (take_request i d) = lastOutputPacket d"
  "controlPacketWaiting (take_request i d) = controlPacketWaiting d"
  "LED_Power (take_request i d) = (LED_Power d)[i := nextLED_Power d ! i]"
  "nextLED_Power (take_request i d) = (nextLED_Power d)[i := PUNK_DBL]"
  "changedLED_Power (take_request i d) = (changedLED_Power d)[i := 0]"
  "changeRequests (take_request i d) = changeRequests d - 1"
  by (simp_all add: take_request_def)

lemma led_lengths_take [simp]: "led_lengths (take_request i d) = led_lengths d"
  by (simp add: led_lengths_def)

lemma changes_take: "led_lengths d \<Longrightarrow> i < 64 \<Longrightarrow> changes (take_request i d) = changes d - {i}"
  by (auto simp: changes_def led_lengths_def nth_list_update)

lemma requests_take:
  assumes "led_lengths d" and "i \<in> changes d" and "changeRequests d = of_nat (card (changes d))"
  shows "changeRequests (take_request i d) = of_nat (card (changes (take_request i d)))"
proof -
  have "i < 64" using assms(2) by (simp add: changes_def)
  then have "card (changes d) = Suc (card (changes (take_request i d)))"
    using changes_take [OF assms(1)] card.remove [OF finite_changes assms(2)] by simp
  then show ?thesis using assms(3) by simp
qed

text \<open>Several requests leave in one packet, with (\<open>adv_take\<close>) or without the
  brightness being remembered.\<close>

definition adv_take :: "nat \<Rightarrow> led \<Rightarrow> led" where
  "adv_take i d = take_request i (d\<lparr>lastLED_Power := (lastLED_Power d)[i := nextLED_Power d ! i]\<rparr>)"

lemma adv_take_fields [simp]:
  "numLEDs (adv_take i d) = numLEDs d" "phid (adv_take i d) = phid d" "lastOutputPacket (adv_take i d) = lastOutputPacket d"
  "controlPacketWaiting (adv_take i d) = controlPacketWaiting d"
  "lastLED_Power (adv_take i d) = (lastLED_Power d)[i := nextLED_Power d ! i]"
  "LED_Power (adv_take i d) = (LED_Power d)[i := nextLED_Power d ! i]"
  "nextLED_Power (adv_take i d) = (nextLED_Power d)[i := PUNK_DBL]"
  "changedLED_Power (adv_take i d) = (changedLED_Power d)[i := 0]"
  "changeRequests (adv_take i d) = changeRequests d - 1"
  by (simp_all add: adv_take_def)

lemma adv_take_more [simp]: "led_lengths (adv_take i d) = led_lengths d"
  "changes (adv_take i d) = changes (take_request i d)"
  by (simp_all add: led_lengths_def changes_def)

lemma fold_adv_take:
  assumes "led_lengths d" and "distinct ts" and "set ts \<subseteq> changes d"
  shows "led_lengths (fold adv_take ts d) \<and> phid (fold adv_take ts d) = phid d \<and>
    lastOutputPacket (fold adv_take ts d) = lastOutputPacket d \<and> controlPacketWaiting (fold adv_take ts d) = controlPacketWaiting d \<and>
    changes (fold adv_take ts d) = changes d - set ts \<and>
    (changeRequests d = of_nat (card (changes d)) \<longrightarrow>
      changeRequests (fold adv_take ts d) = of_nat (card (changes (fold adv_take ts d)))) \<and>
    (\<forall>i < 64. LED_Power (fold adv_take ts d) ! i = (if i \<in> set ts then nextLED_Power d ! i else LED_Power d ! i) \<and>
      lastLED_Power (fold adv_take ts d) ! i = (if i \<in> set ts then nextLED_Power d ! i else lastLED_Power d ! i) \<and>
      changedLED_Power (fold adv_take ts d) ! i = (if i \<in> set ts then 0 else changedLED_Power d ! i) \<and>
      (i \<notin> set ts \<longrightarrow> nextLED_Power (fold adv_take ts d) ! i = nextLED_Power d ! i))"
  using assms
proof (induction ts arbitrary: d)
  case (Cons t ts)
  let ?d = "adv_take t d"
  have t: "t < 64" "t \<in> changes d" using Cons.prems(3) by (auto simp: changes_def)
  have l: "led_lengths ?d" using Cons.prems(1) by simp
  have c: "changes ?d = changes d - {t}" using changes_take [OF Cons.prems(1) t(1)] by simp
  have r: "changeRequests d = of_nat (card (changes d)) \<longrightarrow> changeRequests ?d = of_nat (card (changes ?d))"
    using requests_take [OF Cons.prems(1) t(2)] by simp
  have n: "LED_Power ?d ! i = (if i = t then nextLED_Power d ! t else LED_Power d ! i)"
    "lastLED_Power ?d ! i = (if i = t then nextLED_Power d ! t else lastLED_Power d ! i)"
    "changedLED_Power ?d ! i = (if i = t then 0 else changedLED_Power d ! i)"
    "i \<noteq> t \<longrightarrow> nextLED_Power ?d ! i = nextLED_Power d ! i" if "i < 64" for i
    using that Cons.prems(1) by (simp_all add: led_lengths_def nth_list_update)
  have tn: "t \<notin> set ts" "distinct ts" using Cons.prems(2) by auto
  have "set ts \<subseteq> changes ?d" unfolding c using Cons.prems(3) tn(1) by auto
  note IH = Cons.IH [OF l tn(2) this]
  have "LED_Power (fold adv_take ts ?d) ! i = (if i \<in> set (t # ts) then nextLED_Power d ! i else LED_Power d ! i) \<and>
      lastLED_Power (fold adv_take ts ?d) ! i = (if i \<in> set (t # ts) then nextLED_Power d ! i else lastLED_Power d ! i) \<and>
      changedLED_Power (fold adv_take ts ?d) ! i = (if i \<in> set (t # ts) then 0 else changedLED_Power d ! i) \<and>
      (i \<notin> set (t # ts) \<longrightarrow> nextLED_Power (fold adv_take ts ?d) ! i = nextLED_Power d ! i)" if "i < 64" for i
    using IH n [OF that] that tn(1) by (cases "i = t") auto
  moreover have "changes (fold adv_take ts ?d) = changes d - set (t # ts)" using IH c by auto
  ultimately show ?case using IH r by (simp add: c)
qed simp

text \<open>The brightness packet.\<close>

definition setting_bytes :: "(dbl \<Rightarrow> dbl \<Rightarrow> dbl \<Rightarrow> dbl) \<Rightarrow> led \<Rightarrow> nat \<Rightarrow> u8 list" where
  "setting_bytes fdm d i = (let v = led_byte fdm 127 (nextLED_Power d ! i) in [of_nat i, if v \<noteq> 0 then v OR 0x80 else v])"

definition settable :: "led \<Rightarrow> nat set" where
  "settable d = {i \<in> changes d. nextLED_Power d ! i \<noteq> 0}"

lemma length_settings: "length (concat (map (setting_bytes fdm d) ts)) = 2 * length ts"
  by (induction ts) (auto simp: setting_bytes_def Let_def)

lemma adv_set_loop:
  assumes "led_lengths d"
  shows "m \<le> 64 \<Longrightarrow> \<exists>ts. cfor [0..<m] (adv_set fdm) (d, replicate 64 0, 0) =
      Some (fold adv_take ts d, concat (map (setting_bytes fdm d) ts) @ replicate (64 - 2 * length ts) 0, length ts) \<and>
    length ts \<le> 4 \<and> distinct ts \<and> set ts \<subseteq> settable d \<inter> {..<m} \<and> (length ts < 4 \<longrightarrow> settable d \<inter> {..<m} \<subseteq> set ts)"
proof (induction m)
  case 0
  show ?case by (intro exI [of _ "[]"]) simp
next
  case (Suc m)
  then obtain ts where ts: "cfor [0..<m] (adv_set fdm) (d, replicate 64 0, 0) =
      Some (fold adv_take ts d, concat (map (setting_bytes fdm d) ts) @ replicate (64 - 2 * length ts) 0, length ts)"
    "length ts \<le> 4" "distinct ts" "set ts \<subseteq> settable d \<inter> {..<m}" "length ts < 4 \<longrightarrow> settable d \<inter> {..<m} \<subseteq> set ts" by auto
  let ?d = "fold adv_take ts d" and ?p = "concat (map (setting_bytes fdm d) ts)"
  have m: "m < 64" "m \<notin> set ts" using Suc.prems ts(4) by auto
  have sub: "set ts \<subseteq> changes d" using ts(4) by (auto simp: settable_def)
  have f: "changedLED_Power ?d ! m = changedLED_Power d ! m" "nextLED_Power ?d ! m = nextLED_Power d ! m"
    "LED_Power (adv_take m ?d) ! m = nextLED_Power d ! m"
    using fold_adv_take [OF assms ts(3) sub] m by (auto simp: led_lengths_def)
  show ?case
  proof (cases "m \<in> settable d \<and> length ts < 4")
    case True
    have lp: "length ?p = 2 * length ts" by (rule length_settings)
    have z: "replicate (64 - 2 * length ts) (0::u8) = 0 # 0 # replicate (64 - 2 * length (ts @ [m])) 0"
    proof -
      have "64 - 2 * length ts = Suc (Suc (64 - 2 * length (ts @ [m])))" using True by (simp, arith)
      then show ?thesis by (simp only: replicate_Suc)
    qed
    let ?v = "led_byte fdm 127 (nextLED_Power d ! m)"
    let ?r = "replicate (64 - 2 * length (ts @ [m])) (0::u8)"
    have w: "cwrite (?p @ replicate (64 - 2 * length ts) 0) (length ts * 2) (of_nat m) = Some (?p @ of_nat m # 0 # ?r)"
      "cwrite (?p @ of_nat m # 0 # ?r) (length ts * 2 + 1) x = Some (?p @ of_nat m # x # ?r)" for x
      using cwrite_append [of ?p "length ts * 2" 0 "0 # ?r" "of_nat m"]
        cwrite_append [of "?p @ [of_nat m]" "length ts * 2 + 1" 0 ?r x] lp unfolding z by simp_all
    have "adv_set fdm m (?d, ?p @ replicate (64 - 2 * length ts) 0, length ts) =
        Some (adv_take m ?d, concat (map (setting_bytes fdm d) (ts @ [m])) @ ?r, length (ts @ [m]))"
      using True f w
      by (simp add: adv_set_def settable_def changes_def setting_bytes_def Let_def adv_take_def)
    then show ?thesis using ts True m by (intro exI [of _ "ts @ [m]"]) (auto simp: cfor_snoc)
  next
    case False
    have "adv_set fdm m (?d, ?p @ replicate (64 - 2 * length ts) 0, length ts) =
        Some (?d, ?p @ replicate (64 - 2 * length ts) 0, length ts)"
      using False f m by (auto simp: adv_set_def settable_def changes_def)
    then show ?thesis using ts False by (intro exI [of _ ts]) (auto simp: cfor_snoc less_Suc_eq)
  qed
qed

lemma led_repeat_eq:
  assumes "ts \<noteq> []" and "length ts \<le> 4"
  shows "led_repeat (length ts) (concat (map (setting_bytes fdm d) ts) @ replicate (64 - 2 * length ts) 0) =
    Some (concat (map (setting_bytes fdm d) (ts @ replicate (4 - length ts) (last ts))) @ replicate 56 0)"
  using assms
proof (induction "4 - length ts" arbitrary: ts)
  case 0
  then have "length ts = 4" by simp
  then show ?case by (simp add: led_repeat_def)
next
  case (Suc n)
  let ?sb = "setting_bytes fdm d" and ?k = "length ts"
  let ?P = "concat (map ?sb ts)"
  have k: "?k < 4" "0 < ?k" using Suc.hyps(2) Suc.prems(1) by auto
  obtain ts0 l where ts: "ts = ts0 @ [l]" using Suc.prems(1) by (cases ts rule: rev_cases) auto
  obtain a b where ab: "?sb l = [a, b]" by (simp add: setting_bytes_def Let_def)
  let ?r = "replicate (64 - 2 * length (ts @ [l])) (0::u8)"
  have z: "replicate (64 - 2 * ?k) (0::u8) = 0 # 0 # ?r"
  proof -
    have "64 - 2 * ?k = Suc (Suc (64 - 2 * length (ts @ [l])))" using k by ((simp, arith) | simp)
    then show ?thesis by (simp only: replicate_Suc)
  qed
  have lp: "length ?P = 2 * ?k" "length (concat (map ?sb ts0)) = 2 * length ts0" by (rule length_settings)+
  have rd: "cread (?P @ 0 # 0 # ?r) ((?k - 1) * 2) = Some a" "cread (?P @ 0 # 0 # ?r) ((?k - 1) * 2 + 1) = Some b"
    using lp(2) by (simp_all add: ts ab cread_def nth_append)
  have wr: "cwrite (?P @ 0 # 0 # ?r) (?k * 2) a = Some (?P @ a # 0 # ?r)"
    "cwrite (?P @ a # 0 # ?r) (?k * 2 + 1) b = Some (?P @ a # b # ?r)"
    using cwrite_append [of ?P "?k * 2" 0 "0 # ?r" a] cwrite_append [of "?P @ [a]" "?k * 2 + 1" 0 ?r b] lp(1) by simp_all
  have "concat (map ?sb (ts @ [l])) @ ?r = ?P @ a # b # ?r" by (simp add: ab)
  moreover have "n = 4 - length (ts @ [l])" "ts @ [l] \<noteq> []" "length (ts @ [l]) \<le> 4" using Suc.hyps(2) k by auto
  ultimately have IH: "led_repeat (Suc ?k) (?P @ a # b # ?r) =
      Some (concat (map ?sb ((ts @ [l]) @ replicate (4 - length (ts @ [l])) (last (ts @ [l])))) @ replicate 56 0)"
    using Suc.hyps(1) [of "ts @ [l]"] by simp
  have "[?k..<4] = ?k # [Suc ?k..<4]" using k(1) by (rule upt_conv_Cons)
  then have "led_repeat ?k (?P @ 0 # 0 # ?r) = led_repeat (Suc ?k) (?P @ a # b # ?r)"
    using k rd wr by (simp add: led_repeat_def)
  also have "(ts @ [l]) @ replicate (4 - length (ts @ [l])) (last (ts @ [l])) = ts @ replicate (4 - ?k) (last ts)"
    using Suc.hyps(2) by (simp add: ts flip: replicate_Suc)
  ultimately show ?case unfolding z using IH by simp
qed

text \<open>The device's reading of a brightness packet.\<close>

definition fdm_ok :: "(dbl \<Rightarrow> dbl \<Rightarrow> dbl \<Rightarrow> dbl) \<Rightarrow> bool" where
  "fdm_ok fdm \<longleftrightarrow> led_byte fdm 127 0 = 0 \<and> (\<forall>x. 0 \<le> x \<and> x \<le> 100 \<longrightarrow> led_byte fdm 127 x < 0x80)"

definition set_one :: "(nat \<Rightarrow> u8) \<Rightarrow> nat \<Rightarrow> adv_device \<Rightarrow> adv_device" where
  "set_one v i dev = dev\<lparr>brightness := (brightness dev)(i := v i), lit := (if v i \<noteq> 0 then (lit dev)(i := True) else lit dev)\<rparr>"

lemma fold_set_one:
  "brightness (fold (set_one v) us dev) i = (if i \<in> set us then v i else brightness dev i)"
  "lit (fold (set_one v) us dev) i = (if i \<in> set us \<and> v i \<noteq> 0 then True else lit dev i)"
  by (induction us arbitrary: dev) (auto simp: set_one_def)

lemma small_byte_bits: "v < 0x80 \<Longrightarrow> (v OR 0x80) AND 0x7f = (v :: u8)" "v < 0x80 \<Longrightarrow> v AND 0x7f = (v :: u8)"
  "v < 0x80 \<Longrightarrow> bit (v OR 0x80) 7" "v < 0x80 \<Longrightarrow> \<not> bit (v :: u8) 7"
proof -
  assume v: "v < 0x80"
  have m: "v AND 0x7f = v"
  proof -
    have "unat v < 128" using v by (simp add: word_less_nat_alt)
    then have "unat (v mod 2 ^ 7) = unat v" by (simp add: unat_mod)
    then have "take_bit 7 v = v" by (simp add: take_bit_eq_mod word_unat_eq_iff)
    moreover have "(0x7f :: u8) = mask 7" by (simp add: mask_eq_exp_minus_1)
    ultimately show ?thesis by (simp only: take_bit_eq_mask)
  qed
  then show "v AND 0x7f = v" .
  have "(v OR 0x80) AND 0x7f = (v AND 0x7f) OR (0x80 AND 0x7f)" by (rule bit.conj_disj_distrib2)
  then show "(v OR 0x80) AND 0x7f = v" using m by simp
  have "bit (0x80 :: u8) 7" by simp
  then show "bit (v OR 0x80) 7" by (simp add: bit_or_iff)
  have "\<not> bit (v AND 0x7f) 7" by (simp add: bit_and_iff)
  then show "\<not> bit v 7" using m by simp
qed

lemma index_byte: "i < 64 \<Longrightarrow> (of_nat i :: u8) AND 0xc0 = 0" "i < 64 \<Longrightarrow> unat (of_nat i :: u8) = i"
proof -
  assume i: "i < 64"
  then show u: "unat (of_nat i :: u8) = i" by (simp add: unat_of_nat)
  have "unat ((of_nat i :: u8) mod 2 ^ 6) = unat (of_nat i :: u8)" using i u by (simp add: unat_mod)
  then have "take_bit 6 (of_nat i :: u8) = of_nat i" by (simp add: take_bit_eq_mod word_unat_eq_iff)
  moreover have "(0x3f :: u8) = mask 6" by (simp add: mask_eq_exp_minus_1)
  ultimately have m: "(of_nat i :: u8) AND 0x3f = of_nat i" by (simp only: take_bit_eq_mask)
  have "(of_nat i AND 0x3f) AND (0xc0 :: u8) = of_nat i AND (0x3f AND 0xc0)" by (rule and.assoc)
  then show "(of_nat i :: u8) AND 0xc0 = 0" using m by simp
qed

lemma adv_apply_brightness:
  assumes "length us = 4" and "set us \<subseteq> {..<64}" and "8 \<le> n" and "\<forall>i \<in> set us. led_byte fdm 127 (nextLED_Power d ! i) < 0x80"
  shows "adv_apply (take n (concat (map (setting_bytes fdm d) us) @ z)) dev =
    fold (set_one (\<lambda>i. led_byte fdm 127 (nextLED_Power d ! i))) us dev"
proof -
  let ?v = "\<lambda>i. led_byte fdm 127 (nextLED_Power d ! i)" and ?w = "\<lambda>i. if led_byte fdm 127 (nextLED_Power d ! i) \<noteq> 0
    then led_byte fdm 127 (nextLED_Power d ! i) OR 0x80 else led_byte fdm 127 (nextLED_Power d ! i)"
  obtain a b c e where us: "us = [a, b, c, e]" using assms(1) by (auto simp: length_Suc_conv eval_nat_numeral)
  have i: "a < 64" "b < 64" "c < 64" "e < 64" using assms(2) us by auto
  let ?p = "take n (concat (map (setting_bytes fdm d) us) @ z)"
  have p: "?p = [of_nat a, ?w a, of_nat b, ?w b, of_nat c, ?w c, of_nat e, ?w e] @ take (n - 8) z"
  proof -
    have g: "length xs \<le> n \<Longrightarrow> take n (xs @ z) = xs @ take (n - length xs) z" for xs :: "u8 list" by simp
    have c: "concat (map (setting_bytes fdm d) us) = [of_nat a, ?w a, of_nat b, ?w b, of_nat c, ?w c, of_nat e, ?w e]"
      unfolding us by (simp only: list.map concat.simps setting_bytes_def Let_def append_Cons append_Nil)
    show ?thesis unfolding c by (subst g) (simp_all only: list.size assms(3) add_0 plus_1_eq_Suc One_nat_def add_Suc_right, use assms(3) in \<open>simp_all add: eval_nat_numeral\<close>)
  qed
  define q where "q = ?p"
  have q: "q ! 0 = of_nat a" "q ! 1 = ?w a" "q ! 2 = of_nat b" "q ! 3 = ?w b" "q ! 4 = of_nat c" "q ! 5 = ?w c"
    "q ! 6 = of_nat e" "q ! 7 = ?w e"
    unfolding q_def p by simp_all
  have s: "adv_setting q k dev = set_one ?v i dev"
    if "q ! (k * 2) = of_nat i" "q ! (k * 2 + 1) = ?w i" "i < 64" "i \<in> set us" for k i dev
  proof -
    have "?v i < 0x80" using assms(4) that(4) by blast
    then show ?thesis using that(1,2) index_byte(2) [OF that(3)] small_byte_bits [of "?v i"]
      by (auto simp: adv_setting_def set_one_def Let_def)
  qed
  have s0: "adv_setting q 0 dv = set_one ?v a dv" "adv_setting q 1 dv = set_one ?v b dv"
    "adv_setting q 2 dv = set_one ?v c dv" "adv_setting q 3 dv = set_one ?v e dv" for dv
    by (rule s; use q i us in simp)+
  have t: "q ! 0 AND 0xc0 = 0" using q(1) index_byte(1) [OF i(1)] by simp
  have f: "[0..<4] = [0, 1, 2, 3 :: nat]" by (simp add: upt_rec)
  have "fold (adv_setting q) [0..<4] dev = fold (set_one ?v) us dev"
    unfolding f us by (simp only: fold_simps comp_apply id_apply s0)
  then show ?thesis unfolding adv_apply_def q_def [symmetric] using t by simp
qed

text \<open>Output packets.\<close>

definition out_take :: "nat \<Rightarrow> led \<Rightarrow> led" where
  "out_take i d = (if changedLED_Power d ! i \<noteq> 0 then take_request i d else d)"

lemma fold_out_take:
  assumes "led_lengths d" and "m \<le> 64"
  shows "led_lengths (fold out_take [b..<m] d) \<and> phid (fold out_take [b..<m] d) = phid d \<and>
    lastOutputPacket (fold out_take [b..<m] d) = lastOutputPacket d \<and> lastLED_Power (fold out_take [b..<m] d) = lastLED_Power d \<and>
    controlPacketWaiting (fold out_take [b..<m] d) = controlPacketWaiting d \<and>
    changes (fold out_take [b..<m] d) = changes d - {b..<m} \<and>
    (changeRequests d = of_nat (card (changes d)) \<longrightarrow>
      changeRequests (fold out_take [b..<m] d) = of_nat (card (changes (fold out_take [b..<m] d)))) \<and>
    (\<forall>i < 64. LED_Power (fold out_take [b..<m] d) ! i =
        (if i \<in> {b..<m} \<and> i \<in> changes d then nextLED_Power d ! i else LED_Power d ! i) \<and>
      changedLED_Power (fold out_take [b..<m] d) ! i = (if i \<in> {b..<m} then 0 else changedLED_Power d ! i) \<and>
      (i \<notin> {b..<m} \<longrightarrow> nextLED_Power (fold out_take [b..<m] d) ! i = nextLED_Power d ! i))"
  using assms(2)
proof (induction m)
  case 0
  then show ?case using assms(1) by simp
next
  case (Suc m)
  show ?case
  proof (cases "b \<le> m")
    case False
    then show ?thesis using assms(1) by simp
  next
    case True
    let ?d = "fold out_take [b..<m] d"
    have e: "fold out_take [b..<Suc m] d = out_take m ?d" using True by simp
    have m: "m < 64" "m \<le> 64" using Suc.prems by auto
    note IH = Suc.IH [OF m(2)]
    have at: "changedLED_Power ?d ! m = changedLED_Power d ! m" "nextLED_Power ?d ! m = nextLED_Power d ! m"
      "LED_Power ?d ! m = LED_Power d ! m" using IH m(1) by auto
    have i: "{b..<Suc m} = insert m {b..<m}" using True by auto
    show ?thesis
    proof (cases "changedLED_Power d ! m = 0")
      case no: True
      then have "out_take m ?d = ?d" using at by (simp add: out_take_def)
      moreover have "m \<notin> changes d" using no by (simp add: changes_def)
      ultimately show ?thesis unfolding e i using IH no at m by auto
    next
      case yes: False
      have o: "out_take m ?d = take_request m ?d" using at yes by (simp add: out_take_def)
      have l: "led_lengths ?d" using IH by blast
      have mc: "m \<in> changes ?d" "m \<in> changes d" using IH m yes by (auto simp: changes_def)
      have n: "LED_Power (take_request m ?d) ! i = (if i = m then nextLED_Power d ! m else LED_Power ?d ! i)"
        "changedLED_Power (take_request m ?d) ! i = (if i = m then 0 else changedLED_Power ?d ! i)"
        "i \<noteq> m \<longrightarrow> nextLED_Power (take_request m ?d) ! i = nextLED_Power ?d ! i" if "i < 64" for i
        using that l at by (simp_all add: led_lengths_def nth_list_update)
      have "changes (take_request m ?d) = changes d - {b..<Suc m}" using changes_take [OF l m(1)] IH i by auto
      moreover have "changeRequests d = of_nat (card (changes d)) \<longrightarrow>
          changeRequests (take_request m ?d) = of_nat (card (changes (take_request m ?d)))"
        using requests_take [OF l mc(1)] IH by blast
      moreover have "LED_Power (take_request m ?d) ! j =
          (if j \<in> {b..<Suc m} \<and> j \<in> changes d then nextLED_Power d ! j else LED_Power d ! j) \<and>
        changedLED_Power (take_request m ?d) ! j = (if j \<in> {b..<Suc m} then 0 else changedLED_Power d ! j) \<and>
        (j \<notin> {b..<Suc m} \<longrightarrow> nextLED_Power (take_request m ?d) ! j = nextLED_Power d ! j)" if "j < 64" for j
        using n [OF that] IH that mc True by (cases "j = m") auto
      ultimately show ?thesis unfolding e o using IH by simp
    qed
  qed
qed

definition next_power :: "led \<Rightarrow> nat \<Rightarrow> dbl" where
  "next_power d i = (if changedLED_Power d ! i \<noteq> 0 then nextLED_Power d ! i else LED_Power d ! i)"

lemma bit_single: "n < 8 \<Longrightarrow> bit (2 ^ n :: u8) m \<longleftrightarrow> m = n"
  by (auto simp: bit_exp_iff)

lemma output_bit_eq: "output_bit off i (d, buf) =
    (if LED_Power (out_take i d) ! i > 0 then do {
       b \<leftarrow> cread buf (nat (int (i div 8) + off));
       buf \<leftarrow> cwrite buf (nat (int (i div 8) + off)) (b OR 2 ^ (i mod 8));
       Some (out_take i d, buf) }
     else Some (out_take i d, buf))"
  by (simp add: output_bit_def out_take_def Let_def)

lemma output_loop:
  assumes "led_lengths d" and b: "b = 0 \<and> off = 1 \<or> b = 32 \<and> off = - 3"
  shows "m \<le> 32 \<Longrightarrow> \<exists>buf. cfor [b..<b + m] (output_bit off) (d, t # replicate 63 0) = Some (fold out_take [b..<b + m] d, buf) \<and>
    length buf = 64 \<and> buf ! 0 = t \<and>
    (\<forall>i \<in> {b..<b + 32}. bit (buf ! (i div 8 - b div 8 + 1)) (i mod 8) \<longleftrightarrow> i < b + m \<and> 0 < next_power d i)"
proof (induction m)
  case 0
  have "(t # replicate 63 (0::u8)) ! (i div 8 - b div 8 + 1) = 0" if "i \<in> {b..<b + 32}" for i
  proof -
    have "i div 8 - b div 8 < 63" using that b by auto
    then show ?thesis by simp
  qed
  then show ?case by (intro exI [of _ "t # replicate 63 0"]) simp
next
  case (Suc m)
  let ?j = "b + m" and ?d = "fold out_take [b..<b + m] d" and ?d' = "fold out_take [b..<Suc (b + m)] d"
  obtain buf where IH: "cfor [b..<b + m] (output_bit off) (d, t # replicate 63 0) = Some (?d, buf)" "length buf = 64" "buf ! 0 = t"
    "\<forall>i \<in> {b..<b + 32}. bit (buf ! (i div 8 - b div 8 + 1)) (i mod 8) \<longleftrightarrow> i < b + m \<and> 0 < next_power d i"
    using Suc by auto
  have j: "?j < 64" "?j \<le> 64" "Suc ?j \<le> 64" using Suc.prems b by auto
  define k where "k = ?j div 8 - b div 8 + 1"
  have k: "nat (int (?j div 8) + off) = k" "0 < k" "k < 64" using b Suc.prems by (auto simp: k_def)
  have d': "?d' = out_take ?j ?d" by simp
  have at: "changedLED_Power ?d ! ?j = changedLED_Power d ! ?j" using fold_out_take [OF assms(1) j(2), of b] j(1) by auto
  have pw: "LED_Power ?d' ! ?j = next_power d ?j"
    using fold_out_take [OF assms(1) j(3), of b] j(1) by (auto simp: next_power_def changes_def)
  have snoc: "[b..<b + Suc m] = [b..<b + m] @ [?j]" by simp
  have "output_bit off ?j (?d, buf) = (if next_power d ?j > 0 then Some (?d', buf[k := buf ! k OR 2 ^ (?j mod 8)]) else Some (?d', buf))"
    using pw unfolding d' output_bit_eq by (simp add: k IH(2) cread_def cwrite_def)
  then have c: "cfor [b..<b + Suc m] (output_bit off) (d, t # replicate 63 0) =
      Some (?d', if next_power d ?j > 0 then buf[k := buf ! k OR 2 ^ (?j mod 8)] else buf)"
    unfolding snoc cfor_snoc IH(1) by simp
  let ?buf = "if next_power d ?j > 0 then buf[k := buf ! k OR 2 ^ (?j mod 8)] else buf"
  have "bit (?buf ! (i div 8 - b div 8 + 1)) (i mod 8) \<longleftrightarrow> i < b + Suc m \<and> 0 < next_power d i" if i: "i \<in> {b..<b + 32}" for i
  proof -
    have ij: "i div 8 - b div 8 + 1 = k \<and> i mod 8 = ?j mod 8 \<longleftrightarrow> i = ?j"
    proof
      assume a: "i div 8 - b div 8 + 1 = k \<and> i mod 8 = ?j mod 8"
      have "b div 8 \<le> i div 8" "b div 8 \<le> ?j div 8" using i by (auto intro: div_le_mono)
      then have "i div 8 = ?j div 8" using a unfolding k_def by linarith
      then show "i = ?j" using a by (metis div_mult_mod_eq)
    qed (simp add: k_def)
    show ?thesis
    proof (cases "i = ?j")
      case True
      have "bit (buf ! k OR 2 ^ (?j mod 8)) (?j mod 8)" by (simp add: bit_or_iff bit_single)
      moreover have "\<not> bit (buf ! k) (?j mod 8)" using IH(4) i True by (auto simp: k_def)
      ultimately show ?thesis using True k(3) IH(2) by (simp add: k_def)
    next
      case False
      have "bit (?buf ! (i div 8 - b div 8 + 1)) (i mod 8) \<longleftrightarrow> bit (buf ! (i div 8 - b div 8 + 1)) (i mod 8)"
      proof (cases "i div 8 - b div 8 + 1 = k")
        case True
        then have "i mod 8 \<noteq> ?j mod 8" using ij False by blast
        then have "bit (buf ! k OR 2 ^ (?j mod 8)) (i mod 8) \<longleftrightarrow> bit (buf ! k) (i mod 8)"
          by (simp add: bit_or_iff bit_single)
        then show ?thesis unfolding True using k(3) IH(2) by simp
      next
        case False
        then show ?thesis by simp
      qed
      then show ?thesis using IH(4) i False by auto
    qed
  qed
  moreover have "length ?buf = 64" "?buf ! 0 = t" using IH(2,3) k(2) by auto
  ultimately show ?case using c by (intro exI [of _ ?buf]) simp
qed

subsection \<open>The advanced LED 64\<close>

definition led_load :: "led \<Rightarrow> nat" where
  "led_load d = card (changes d) + (if controlPacketWaiting d \<noteq> 0 then 1 else 0)"

definition led_shows :: "(dbl \<Rightarrow> dbl \<Rightarrow> dbl \<Rightarrow> dbl) \<Rightarrow> led \<Rightarrow> adv_device \<Rightarrow> bool" where
  "led_shows fdm d dev \<longleftrightarrow> (\<forall>i < 64. shown dev i = led_byte fdm 127 (LED_Power d ! i) \<and>
     brightness dev i = led_byte fdm 127 (lastLED_Power d ! i))"

text \<open>What taking a packet must do: the record stays good, some requests leave, no requested power
  changes, and a device that showed the powers before shows them after the packet.\<close>

definition packet_ok :: "(dbl \<Rightarrow> dbl \<Rightarrow> dbl \<Rightarrow> dbl) \<Rightarrow> led \<Rightarrow> u8 list \<Rightarrow> led \<Rightarrow> bool" where
  "packet_ok fdm d buf d' \<longleftrightarrow> length buf = 64 \<and> phid d' = phid d \<and> led_good PHIDUID_LED_64_ADV d' \<and> changes d' \<subseteq> changes d \<and>
     (\<forall>i < 64. next_power d' i = next_power d i) \<and> (led_load d \<noteq> 0 \<longrightarrow> led_load d' < led_load d) \<and>
     (\<forall>dev. led_shows fdm d dev \<longrightarrow> led_shows fdm d' (adv_apply (take (outputReportByteLength (phid d)) buf) dev))"

lemma led_goodD:
  assumes "led_good u d"
  shows "led_lengths d" and "changeRequests d = of_nat (card (changes d))" and "numLEDs d = 64"
    and "8 \<le> outputReportByteLength (phid d)" and "outputReportByteLength (phid d) \<le> 64"
    and "i \<in> changes d \<Longrightarrow> 0 \<le> nextLED_Power d ! i \<and> nextLED_Power d ! i \<le> 100"
    and "i < 64 \<Longrightarrow> 0 \<le> LED_Power d ! i" and "i < 64 \<Longrightarrow> LED_Power d ! i = 0 \<or> lastLED_Power d ! i = LED_Power d ! i"
  using assms by (auto simp: led_good_def led_lengths_def changes_def MAX_OUT_PACKET_SIZE_def)

lemma control_packet_ok:
  assumes "led_good PHIDUID_LED_64_ADV d" and "controlPacketWaiting d \<noteq> 0"
  shows "\<exists>buf d'. adv_packet fdm d (replicate 64 0) = Some (buf, d') \<and> packet_ok fdm d buf d'"
proof -
  let ?b = "[0x40, current_flags (currentLimit d) OR voltage_flags (voltage d)] @ replicate 62 0"
  let ?d = "d\<lparr>controlPacketWaiting := 0\<rparr>"
  have "replicate 64 (0::u8) = 0 # 0 # replicate 62 0" by (simp flip: replicate_Suc)
  then have "adv_packet fdm d (replicate 64 0) = Some (?b, ?d)"
    using assms(2) by (simp add: adv_packet_def adv_control_packet_def cwrite_def)
  moreover have c: "changes ?d = changes d" "next_power ?d i = next_power d i" for i by (simp_all add: changes_def next_power_def)
  have "led_good PHIDUID_LED_64_ADV ?d" using assms(1) c by (simp add: led_good_def led_lengths_def)
  moreover have "adv_apply (take (outputReportByteLength (phid d)) ?b) dev = dev" for dev
  proof -
    have "take (outputReportByteLength (phid d)) ?b ! 0 = 0x40" using led_goodD(4) [OF assms(1)] by simp
    then show ?thesis by (simp add: adv_apply_def del: take_append)
  qed
  ultimately show ?thesis using assms(2) c by (intro exI [of _ ?b] exI [of _ ?d]) (simp add: packet_ok_def led_load_def led_shows_def)
qed

lemma bright_packet_ok:
  assumes "led_good PHIDUID_LED_64_ADV d" and "fdm_ok fdm" and "controlPacketWaiting d = 0" and "adv_bright d"
  shows "\<exists>buf d'. adv_packet fdm d (replicate 64 0) = Some (buf, d') \<and> packet_ok fdm d buf d'"
proof -
  note g = led_goodD [OF assms(1)]
  obtain ts where ts: "cfor [0..<64] (adv_set fdm) (d, replicate 64 0, 0) =
      Some (fold adv_take ts d, concat (map (setting_bytes fdm d) ts) @ replicate (64 - 2 * length ts) 0, length ts)"
    "length ts \<le> 4" "distinct ts" "set ts \<subseteq> settable d \<inter> {..<64}" "length ts < 4 \<longrightarrow> settable d \<inter> {..<64} \<subseteq> set ts"
    using adv_set_loop [OF g(1), of 64 fdm] by auto
  obtain i where "i < 64" "bright_change d i" using assms(4) g(3) by (auto simp: adv_bright_def)
  then have "i \<in> settable d \<inter> {..<64}" by (simp add: bright_change_def settable_def changes_def)
  then have ne: "ts \<noteq> []" using ts(5) by (cases "length ts < 4") auto
  have sub: "set ts \<subseteq> changes d" using ts(4) by (auto simp: settable_def)
  let ?us = "ts @ replicate (4 - length ts) (last ts)"
  let ?buf = "concat (map (setting_bytes fdm d) ?us) @ replicate 56 0" and ?d = "fold adv_take ts d"
  have us: "length ?us = 4" "set ?us = set ts" using ne ts(2) by (auto simp: last_in_set)
  have p: "adv_packet fdm d (replicate 64 0) = Some (?buf, ?d)"
    using assms(3,4) ts(1) led_repeat_eq [OF ne ts(2)] by (simp add: adv_packet_def g(3))
  have l: "length ?buf = 64" using us(1) by (simp only: length_append length_settings length_replicate)
  note F = fold_adv_take [OF g(1) ts(3) sub]
  have small: "led_byte fdm 127 (nextLED_Power d ! i) < 0x80" if "i \<in> set ts" for i
    using that sub g(6) assms(2) unfolding fdm_ok_def by blast
  have c: "changes ?d = changes d - set ts" using F by blast
  have good: "led_good PHIDUID_LED_64_ADV ?d"
    unfolding led_good_def
  proof (intro conjI allI impI)
    show "changeRequests ?d = of_nat (card (changes ?d))" using F g(2) by blast
    show "led_lengths ?d" using F by blast
    show "deviceUID (phid ?d) = PHIDUID_LED_64_ADV" "8 \<le> outputReportByteLength (phid ?d)"
      "outputReportByteLength (phid ?d) \<le> MAX_OUT_PACKET_SIZE"
      using F assms(1) by (simp_all add: led_good_def)
    fix i :: nat assume i: "i < 64"
    have sc: "i \<in> changes d" if "i \<in> set ts" using sub that by blast
    show "0 \<le> LED_Power ?d ! i" using F i g(6,7) sc by auto
    show "LED_Power ?d ! i = 0 \<or> lastLED_Power ?d ! i = LED_Power ?d ! i" using F i g(8) by auto
    show "0 \<le> nextLED_Power ?d ! i" "nextLED_Power ?d ! i \<le> 100" if "changedLED_Power ?d ! i \<noteq> 0"
    proof -
      have "i \<in> changes ?d" using that i by (simp add: changes_def)
      then have "i \<in> changes d" "i \<notin> set ts" using c by auto
      then show "0 \<le> nextLED_Power ?d ! i" "nextLED_Power ?d ! i \<le> 100" using F i g(6) by auto
    qed
  qed
  have "card (changes ?d) < card (changes d)"
    unfolding c using ne sub by (intro psubset_card_mono) (auto simp: neq_Nil_conv)
  then have load: "led_load ?d < led_load d" using F assms(3) by (simp add: led_load_def)
  have np: "next_power ?d i = next_power d i" if "i < 64" for i
    using F that sub by (auto simp: next_power_def changes_def)
  have shw: "led_shows fdm ?d (adv_apply (take (outputReportByteLength (phid d)) ?buf) dev)" if R: "led_shows fdm d dev" for dev
  proof -
    have a: "adv_apply (take (outputReportByteLength (phid d)) ?buf) dev = fold (set_one (\<lambda>i. led_byte fdm 127 (nextLED_Power d ! i))) ?us dev"
      using us sub small g(4) by (intro adv_apply_brightness) (auto simp: changes_def)
    show ?thesis unfolding led_shows_def a
    proof (intro allI impI)
      fix i :: nat assume i: "i < 64"
      show "shown (fold (set_one (\<lambda>i. led_byte fdm 127 (nextLED_Power d ! i))) ?us dev) i = led_byte fdm 127 (LED_Power ?d ! i) \<and>
        brightness (fold (set_one (\<lambda>i. led_byte fdm 127 (nextLED_Power d ! i))) ?us dev) i = led_byte fdm 127 (lastLED_Power ?d ! i)"
        using F i R unfolding shown_def fold_set_one us(2) by (auto simp: led_shows_def shown_def)
    qed
  qed
  show ?thesis using p l F good c load np shw by (intro exI [of _ ?buf] exI [of _ ?d]) (simp add: packet_ok_def)
qed

text \<open>An output packet for the half that begins at \<open>b\<close>.\<close>

lemma output_half_ok:
  assumes "led_good PHIDUID_LED_64_ADV d" and "fdm_ok fdm" and "controlPacketWaiting d = 0" and nb: "\<not> adv_bright d"
    and b: "b = 0 \<and> off = 1 \<and> t = 0x80 \<or> b = 32 \<and> off = - 3 \<and> t = 0xc0"
    and some: "changes d \<noteq> {} \<Longrightarrow> \<exists>i \<in> changes d. b \<le> i \<and> i < b + 32"
  shows "\<exists>buf. cfor [b..<b + 32] (output_bit off) (d, t # replicate 63 0) = Some (fold out_take [b..<b + 32] d, buf) \<and>
    packet_ok fdm d buf ((fold out_take [b..<b + 32] d)\<lparr>lastOutputPacket := l\<rparr>)"
proof -
  note g = led_goodD [OF assms(1)]
  let ?d = "(fold out_take [b..<b + 32] d)\<lparr>lastOutputPacket := l\<rparr>"
  obtain buf where buf: "cfor [b..<b + 32] (output_bit off) (d, t # replicate 63 0) = Some (fold out_take [b..<b + 32] d, buf)"
    "length buf = 64" "buf ! 0 = t"
    "\<forall>i \<in> {b..<b + 32}. bit (buf ! (i div 8 - b div 8 + 1)) (i mod 8) \<longleftrightarrow> i < b + 32 \<and> 0 < next_power d i"
    using output_loop [OF g(1), of b off 32 t] b by auto
  have b64: "b + 32 \<le> 64" using b by auto
  note F = fold_out_take [OF g(1) b64, of b]
  have f: "phid ?d = phid d" "led_lengths ?d" "changes ?d = changes d - {b..<b + 32}" "lastLED_Power ?d = lastLED_Power d"
    "controlPacketWaiting ?d = controlPacketWaiting d" "changeRequests ?d = of_nat (card (changes ?d))"
    using F g(2) by (auto simp: led_lengths_def changes_def)
  have fi: "LED_Power ?d ! i = (if i \<in> {b..<b + 32} \<and> i \<in> changes d then nextLED_Power d ! i else LED_Power d ! i)"
    "changedLED_Power ?d ! i = (if i \<in> {b..<b + 32} then 0 else changedLED_Power d ! i)"
    "i \<notin> {b..<b + 32} \<longrightarrow> nextLED_Power ?d ! i = nextLED_Power d ! i" if "i < 64" for i
    using F that by auto
  have same: "nextLED_Power d ! i = 0 \<or> nextLED_Power d ! i = lastLED_Power d ! i" if "i \<in> changes d" for i
    using nb that g(3) by (auto simp: adv_bright_def bright_change_def changes_def)
  have good: "led_good PHIDUID_LED_64_ADV ?d"
    unfolding led_good_def
  proof (intro conjI allI impI)
    show "deviceUID (phid ?d) = PHIDUID_LED_64_ADV" "8 \<le> outputReportByteLength (phid ?d)"
      "outputReportByteLength (phid ?d) \<le> MAX_OUT_PACKET_SIZE" using f(1) assms(1) by (simp_all add: led_good_def)
    show "led_lengths ?d" by (rule f)
    show "changeRequests ?d = of_nat (card (changes ?d))" by (rule f)
    fix i :: nat assume i: "i < 64"
    show "0 \<le> LED_Power ?d ! i" using fi [OF i] g(6,7) i by auto
    show "LED_Power ?d ! i = 0 \<or> lastLED_Power ?d ! i = LED_Power ?d ! i"
    proof (cases "i \<in> {b..<b + 32} \<and> i \<in> changes d")
      case True
      then have "LED_Power ?d ! i = nextLED_Power d ! i" using fi(1) [OF i] by auto
      then show ?thesis using same [of i] True f(4) by metis
    next
      case False
      then have "LED_Power ?d ! i = LED_Power d ! i" using fi(1) [OF i] by auto
      then show ?thesis using g(8) [OF i] f(4) by metis
    qed
    show "0 \<le> nextLED_Power ?d ! i" "nextLED_Power ?d ! i \<le> 100" if "changedLED_Power ?d ! i \<noteq> 0"
      using fi [OF i] that i g(6) [of i] by (auto simp: changes_def split: if_splits)
  qed
  have np: "next_power ?d i = next_power d i" if "i < 64" for i
    using fi [OF that] that by (auto simp: next_power_def changes_def)
  have load: "led_load ?d < led_load d" if "led_load d \<noteq> 0"
  proof -
    have "changes d \<noteq> {}" using that assms(3) by (auto simp: led_load_def)
    then obtain i where "i \<in> changes d" "i \<in> {b..<b + 32}" using some by auto
    then have "card (changes ?d) < card (changes d)" unfolding f(3) by (intro psubset_card_mono) auto
    then show ?thesis using f(5) assms(3) by (simp add: led_load_def)
  qed
  have shw: "led_shows fdm ?d (adv_apply (take (outputReportByteLength (phid d)) buf) dev)" if R: "led_shows fdm d dev" for dev
  proof -
    let ?p = "take (outputReportByteLength (phid d)) buf"
    have pn: "?p ! k = buf ! k" if "k < 8" for k using that g(4) by simp
    have lit: "lit (adv_apply ?p dev) i = (if i \<in> {b..<b + 32} then 0 < next_power d i else lit dev i)" if i: "i < 64" for i
    proof (cases "i \<in> {b..<b + 32}")
      case True
      have k: "i div 8 - b div 8 + 1 < 8" "b \<noteq> 0 \<longrightarrow> i div 8 - b div 8 + 1 = i div 8 - 3" using True b by auto
      have "bit (buf ! (i div 8 - b div 8 + 1)) (i mod 8) \<longleftrightarrow> 0 < next_power d i" using buf(4) True by auto
      then show ?thesis using True b pn [of 0] pn [OF k(1)] k(2) buf(3) by (auto simp: adv_apply_def)
    next
      case False
      then show ?thesis using b pn [of 0] buf(3) i by (auto simp: adv_apply_def)
    qed
    have br: "brightness (adv_apply ?p dev) = brightness dev" using b pn [of 0] buf(3) by (auto simp: adv_apply_def)
    show ?thesis unfolding led_shows_def
    proof (intro allI impI conjI)
      fix i :: nat assume i: "i < 64"
      have Ri: "shown dev i = led_byte fdm 127 (LED_Power d ! i)" "brightness dev i = led_byte fdm 127 (lastLED_Power d ! i)"
        using R i by (auto simp: led_shows_def)
      show "brightness (adv_apply ?p dev) i = led_byte fdm 127 (lastLED_Power ?d ! i)" using br Ri f(4) by simp
      have z: "led_byte fdm 127 0 = 0" using assms(2) by (simp add: fdm_ok_def)
      show "shown (adv_apply ?p dev) i = led_byte fdm 127 (LED_Power ?d ! i)"
      proof (cases "i \<in> {b..<b + 32}")
        case True
        have P: "LED_Power ?d ! i = next_power d i" using fi(1) [OF i] True i by (auto simp: next_power_def changes_def)
        have "0 \<le> next_power d i" using g(6,7) i by (auto simp: next_power_def changes_def)
        moreover have "next_power d i = 0 \<or> next_power d i = lastLED_Power d ! i"
          using same [of i] g(8) [OF i] i by (auto simp: next_power_def changes_def)
        ultimately show ?thesis unfolding P shown_def lit [OF i] br using True Ri z by auto
      next
        case False
        then have "LED_Power ?d ! i = LED_Power d ! i" using fi(1) [OF i] by auto
        then show ?thesis using Ri lit [OF i] br False by (auto simp: shown_def)
      qed
    qed
  qed
  show ?thesis using buf(1,2) f(1,3) good np load shw by (intro exI [of _ buf]) (auto simp: packet_ok_def)
qed

lemma output_packet_ok:
  assumes "led_good PHIDUID_LED_64_ADV d" and "fdm_ok fdm" and "controlPacketWaiting d = 0" and "\<not> adv_bright d"
  shows "\<exists>buf d'. adv_packet fdm d (replicate 64 0) = Some (buf, d') \<and> packet_ok fdm d buf d'"
proof -
  note g = led_goodD [OF assms(1)]
  have nb: "\<not> bright_change d i" if "i < 64" for i using assms(4) that g(3) by (auto simp: adv_bright_def)
  have lo: "adv_lower d \<longleftrightarrow> (\<exists>i \<in> changes d. i < 32)" and up: "adv_upper d \<longleftrightarrow> (\<exists>i \<in> changes d. \<not> i < 32)"
    unfolding adv_lower_def adv_upper_def changes_def g(3) using nb by (force, force)
  have z: "cwrite (replicate 64 0) 0 x = Some (x # replicate 63 (0::u8))" for x
    using cwrite_0 [of "replicate 64 0" x] by simp
  show ?thesis
  proof (cases "lastOutputPacket d = 0 \<and> adv_lower d \<or> lastOutputPacket d \<noteq> 0 \<and> \<not> adv_upper d")
    case True
    have "\<exists>i \<in> changes d. 0 \<le> i \<and> i < 0 + 32" if "changes d \<noteq> {}" using that True lo up by auto
    from output_half_ok [OF assms, where b = 0 and off = 1 and t = "0x80" and l = 1, OF _ this] obtain buf where
      "cfor [0..<32] (output_bit 1) (d, 0x80 # replicate 63 0) = Some (fold out_take [0..<32] d, buf)"
      "packet_ok fdm d buf ((fold out_take [0..<32] d)\<lparr>lastOutputPacket := 1\<rparr>)" by (auto simp del: upt_rec_numeral)
    then show ?thesis using True assms(3,4) z by (auto simp: adv_packet_def adv_output_packet_def simp del: upt_rec_numeral)
  next
    case False
    have "\<exists>i \<in> changes d. 32 \<le> i \<and> i < 32 + 32" if "changes d \<noteq> {}"
      using that False lo up by (force simp: changes_def)
    from output_half_ok [OF assms, where b = 32 and off = "- 3" and t = "0xc0" and l = 0, OF _ this] obtain buf where
      "cfor [32..<64] (output_bit (- 3)) (d, 0xc0 # replicate 63 0) = Some (fold out_take [32..<64] d, buf)"
      "packet_ok fdm d buf ((fold out_take [32..<64] d)\<lparr>lastOutputPacket := 0\<rparr>)" by (auto simp del: upt_rec_numeral)
    then show ?thesis using False assms(3,4) z by (auto simp: adv_packet_def adv_output_packet_def simp del: upt_rec_numeral)
  qed
qed

lemma adv_packet_ok:
  assumes "led_good PHIDUID_LED_64_ADV d" and "fdm_ok fdm"
  shows "\<exists>buf d'. adv_packet fdm d (replicate 64 0) = Some (buf, d') \<and> packet_ok fdm d buf d'"
  using control_packet_ok bright_packet_ok output_packet_ok assms by metis


lemma led_pick_ok:
  assumes "led_good PHIDUID_LED_64_ADV d" and "fdm_ok fdm"
  shows "\<exists>buf d'. led_pick fdm d = Some (take (outputReportByteLength (phid d)) buf, d', changeRequests d' \<noteq> 0) \<and>
    packet_ok fdm d buf d'"
proof -
  obtain buf d' where p: "adv_packet fdm d (replicate 64 0) = Some (buf, d')" "packet_ok fdm d buf d'"
    using adv_packet_ok [OF assms] by blast
  have u: "deviceUID (phid d) = PHIDUID_LED_64_ADV" "\<not> MAX_OUT_PACKET_SIZE < outputReportByteLength (phid d)"
    using assms(1) by (simp_all add: led_good_def)
  have "phid d' = phid d" using p(2) by (simp add: packet_ok_def)
  then have "led_pick fdm d = Some (take (outputReportByteLength (phid d)) buf, d', changeRequests d' \<noteq> 0)"
    using p(1) u by (simp add: led_pick_def CPhidgetLED_getPacket_def MAX_OUT_PACKET_SIZE_def uid_defs)
  then show ?thesis using p(2) by blast
qed

lemma led_pick_Some:
  assumes "led_good PHIDUID_LED_64_ADV d" and "fdm_ok fdm" and "led_pick fdm d = Some (p, d', signal)"
  obtains buf where "p = take (outputReportByteLength (phid d)) buf" "signal = (changeRequests d' \<noteq> 0)" "packet_ok fdm d buf d'"
  using led_pick_ok [OF assms(1,2)] assms(3) by auto

text \<open>What a request does.\<close>

lemma led_set_Queued:
  assumes "led_lengths d" and "led_set r d = Some (Queued d')"
  shows "nat (fst r) < 64" and "changedLED_Power d ! nat (fst r) = 0" and "led_lengths d'"
    and "changes d' = insert (nat (fst r)) (changes d)" and "0 \<le> snd r" and "snd r \<le> 100"
    and "phid d' = phid d" and "LED_Power d' = LED_Power d" and "lastLED_Power d' = lastLED_Power d"
    and "j < 64 \<Longrightarrow> changedLED_Power d' ! j = (if j = nat (fst r) then 1 else changedLED_Power d ! j)"
    and "j < 64 \<Longrightarrow> nextLED_Power d' ! j = (if j = nat (fst r) then snd r else nextLED_Power d ! j)"
    and "changeRequests d = of_nat (card (changes d)) \<Longrightarrow> changeRequests d' = of_nat (card (changes d'))"
    and "controlPacketWaiting d' = controlPacketWaiting d" and "lastOutputPacket d' = lastOutputPacket d"
proof -
  let ?i = "nat (fst r)"
  have c: "setBrightness_checks d (fst r) (snd r) = EPHIDGET_OK" "led_offer (?i, snd r) d = Some (Queued d')"
    using assms(2) by (auto simp: led_set_def split: if_splits)
  show v: "0 \<le> snd r" "snd r \<le> 100" using c(1) by (auto simp: setBrightness_checks_def split: if_splits)
  have o: "?i < length (changedLED_Power d)" "changedLED_Power d ! ?i = 0" and
    d': "d' = d\<lparr>changeRequests := changeRequests d + 1, changedLED_Power := (changedLED_Power d)[?i := 1],
      nextLED_Power := (nextLED_Power d)[?i := snd r]\<rparr>"
    using c(2) by (auto simp: led_offer_def split: if_splits)
  show i: "?i < 64" using o(1) assms(1) by (simp add: led_lengths_def)
  show n: "changedLED_Power d ! ?i = 0" by (rule o)
  show k: "changes d' = insert ?i (changes d)"
    using assms(1) i by (auto simp: changes_def d' led_lengths_def nth_list_update split: if_splits)
  show "phid d' = phid d" "LED_Power d' = LED_Power d" "lastLED_Power d' = lastLED_Power d"
    "controlPacketWaiting d' = controlPacketWaiting d" "lastOutputPacket d' = lastOutputPacket d" by (simp_all add: d')
  show "j < 64 \<Longrightarrow> changedLED_Power d' ! j = (if j = ?i then 1 else changedLED_Power d ! j)"
    "j < 64 \<Longrightarrow> nextLED_Power d' ! j = (if j = ?i then snd r else nextLED_Power d ! j)"
    using assms(1) i by (auto simp: d' led_lengths_def nth_list_update)
  have "?i \<notin> changes d" using n by (simp add: changes_def)
  then show "changeRequests d = of_nat (card (changes d)) \<Longrightarrow> changeRequests d' = of_nat (card (changes d'))"
    unfolding k by (simp add: d')
  show "led_lengths d'" using assms(1) by (simp add: d' led_lengths_def)
qed

lemma led_set_good: "led_good u d \<Longrightarrow> led_set r d = Some (Queued d') \<Longrightarrow> led_good u d'"
proof -
  assume g: "led_good u d" and q: "led_set r d = Some (Queued d')"
  note L = led_set_Queued [OF led_goodD(1) [OF g] q]
  show ?thesis using g L(3,5-12) unfolding led_good_def by auto
qed

lemma led_set_Busy: "led_good u d \<Longrightarrow> led_set r d = Some Busy \<Longrightarrow> led_pending d (nat (fst r)) \<noteq> None"
  by (auto simp: led_set_def led_offer_def led_good_def led_lengths_def led_pending_def split: if_splits)

interpretation adv: output_port led_set "led_pick fdm" "\<lambda>d. fdm_ok fdm \<and> led_good PHIDUID_LED_64_ADV d" led_load led_pending
  "\<lambda>r. nat (fst r)" snd
proof (unfold_locales, goal_cases)
  case (1 q r)
  then show ?case using led_set_Busy by blast
next
  case (2 q r q')
  note L = led_set_Queued [OF led_goodD(1) [OF conjunct2 [OF 2(1)]] 2(2)]
  have "led_pending q' = (led_pending q)(nat (fst r) \<mapsto> snd r)"
    using L(1,10,11) by (auto simp: led_pending_def fun_eq_iff split: if_splits)
  moreover have "led_pending q (nat (fst r)) = None" using L(2) by (simp add: led_pending_def)
  ultimately show ?case using led_set_good [OF _ 2(2)] 2(1) by blast
next
  case (3 q p q' signal)
  then obtain buf where k: "packet_ok fdm q buf q'" using led_pick_Some by blast
  have "led_pending q i = Some x" if "led_pending q' i = Some x" for i x
  proof -
    have i: "i < 64" "i \<in> changes q'" "nextLED_Power q' ! i = x"
      using that by (auto simp: led_pending_def changes_def split: if_splits)
    then have "i \<in> changes q" "next_power q' i = next_power q i" using k by (auto simp: packet_ok_def)
    then show ?thesis using i by (auto simp: led_pending_def changes_def next_power_def)
  qed
  then show ?case using k 3(1) by (auto simp: packet_ok_def map_le_def)
next
  case (4 q p q' signal)
  then obtain buf where k: "packet_ok fdm q buf q'" "signal = (changeRequests q' \<noteq> 0)" using led_pick_Some by blast
  have "card (changes q') \<noteq> 0" using 4(3) by (simp only: changes_zero_iff not_False_eq_True)
  moreover have "changeRequests q' = of_nat (card (changes q'))" using k(1) led_goodD(2) by (auto simp: packet_ok_def)
  moreover have "of_nat n \<noteq> (0::u8)" if "n \<noteq> 0" "n \<le> 64" for n
    using that by (simp add: word_unat_eq_iff unat_of_nat)
  ultimately have "changeRequests q' \<noteq> 0" using card_changes [of q'] by metis
  then show ?case using k(2) by simp
next
  case (5 q)
  then show ?case using led_pick_ok [of q fdm] by (auto simp: packet_ok_def)
next
  case (6 q)
  then have "card (changes q) = 0" by (auto simp: led_load_def split: if_splits)
  then show ?case by (simp only: changes_zero_iff)
qed


text \<open>The last accepted power of an LED.\<close>

definition last_power :: "(int \<times> dbl) list \<Rightarrow> nat \<Rightarrow> dbl \<Rightarrow> dbl" where
  "last_power rs i x = foldl (\<lambda>x r. if nat (fst r) = i then snd r else x) x rs"

lemma last_power_simps [simp]: "last_power [] i x = x"
  "last_power (rs @ [r]) i x = (if nat (fst r) = i then snd r else last_power rs i x)"
  by (simp_all add: last_power_def)

definition adv_inv :: "(dbl \<Rightarrow> dbl \<Rightarrow> dbl \<Rightarrow> dbl) \<Rightarrow> led \<Rightarrow> adv_device \<Rightarrow> (led, int \<times> dbl, u8 list) port_state \<Rightarrow> bool" where
  "adv_inv fdm d0 dev0 s \<longleftrightarrow>
     (\<forall>i < 64. next_power (queue s) i = last_power (accepted s) i (LED_Power d0 ! i)) \<and>
     led_shows fdm (queue s) (fold adv_apply (picked s) dev0) \<and>
     (writer s \<noteq> W_exited \<longrightarrow> picked s = sent s @ in_flight (writer s))"

lemma adv_inv_step:
  assumes "port_step sp led_set (led_pick fdm) s s'" and "adv_inv fdm d0 dev0 s" and "fdm_ok fdm"
    and "led_good PHIDUID_LED_64_ADV (queue s)"
  shows "adv_inv fdm d0 dev0 s'"
  using assms(1)
proof (cases rule: port_step.cases)
  case (queued r q)
  note L = led_set_Queued [OF led_goodD(1) [OF assms(4)] queued(4)]
  have "next_power q i = (if i = nat (fst r) then snd r else next_power (queue s) i)" if "i < 64" for i
    using L(8,10,11) that by (simp add: next_power_def)
  moreover have "led_shows fdm q dev = led_shows fdm (queue s) dev" for dev using L(8,9) by (simp add: led_shows_def)
  ultimately show ?thesis using assms(2) queued by (auto simp: adv_inv_def)
next
  case (pack p q signal)
  obtain buf where k: "p = take (outputReportByteLength (phid (queue s))) buf" "packet_ok fdm (queue s) buf q"
    using led_pick_Some [OF assms(4,3) pack(3)] by blast
  then show ?thesis using assms(2) pack by (auto simp: adv_inv_def packet_ok_def in_flight_def)
qed (use assms(2) in \<open>auto simp: adv_inv_def in_flight_def\<close>)

lemma adv_inv_reachable:
  assumes "port_reachable sp led_set (led_pick fdm) d0 s" and "fdm_ok fdm" and "led_good PHIDUID_LED_64_ADV d0"
    and "led_pending d0 = Map.empty" and "led_shows fdm d0 dev0"
  shows "adv_inv fdm d0 dev0 s \<and> adv.wakeups_ok fdm s"
  using assms(1)
proof (induction rule: port_reachable.induct)
  case start
  have "changes d0 = {}" using assms(4) card_changes changes_zero_iff [of d0] by simp
  then have "next_power d0 i = LED_Power d0 ! i" if "i < 64" for i using that by (auto simp: next_power_def changes_def)
  moreover have "adv.wakeups_ok fdm (port_start d0)"
    using adv.wakeups_reachable [OF port_reachable.start] assms(2-4) by blast
  ultimately show ?case using assms(5) by (simp add: port_start_def adv_inv_def in_flight_def)
next
  case (step s s')
  have "adv.wakeups_ok fdm s'" using adv.wakeups_step [OF step(2)] step by blast
  moreover have "led_good PHIDUID_LED_64_ADV (queue s)" using step by (simp add: adv.wakeups_ok_def)
  ultimately show ?case using adv_inv_step [OF step(2)] step assms(2) by blast
qed

text \<open>A request found to be already made is for the power that the LED has or will have.\<close>

lemma led_set_Same:
  assumes "led_set r d = Some Same" and "setBrightness_checks d (fst r) (snd r) = EPHIDGET_OK"
  shows "next_power d (nat (fst r)) = snd r"
  using assms by (auto simp: led_set_def led_offer_def next_power_def split: if_splits)

text \<open>C3. Whatever the interleaving of the callers of
  \<^verbatim>\<open>CPhidgetLED_setBrightness\<close> with the write thread, with spurious wake-ups and time-outs:
  when no call is at work and the write thread waits unsignalled, each LED of an advanced LED 64 shines with
  the last power that was accepted for it.  The brightness packets, the packets that switch 32 outputs, the
  order in which requests are packed and the bookkeeping of the brightness that the device remembers make
  no difference.\<close>

theorem leds_show_last_power:
  assumes "port_reachable spurious led_set (led_pick fdm) d0 s" and "fdm_ok fdm"
    and "led_good PHIDUID_LED_64_ADV d0" and "led_pending d0 = Map.empty" and "led_shows fdm d0 dev0"
    and "attached s" and "caller s = Idle" and "writer s = W_waiting" and "\<not> writeAvailable s" and "i < 64"
  shows "shown (fold adv_apply (sent s) dev0) i = led_byte fdm 127 (last_power (accepted s) i (LED_Power d0 ! i))"
proof -
  have I: "adv_inv fdm d0 dev0 s" "adv.wakeups_ok fdm s" using adv_inv_reachable [OF assms(1-5)] by auto
  have "\<not> adv.awake s" using assms(7-9) by (simp add: adv.awake_def)
  then have "led_pending (queue s) = Map.empty" using I(2) by (auto simp: adv.wakeups_ok_def)
  then have "led_pending (queue s) i = None" by simp
  then have "next_power (queue s) i = LED_Power (queue s) ! i"
    using assms(10) by (auto simp: led_pending_def next_power_def split: if_splits)
  moreover have "picked s = sent s" using I(1) assms(8) by (simp add: adv_inv_def in_flight_def)
  ultimately show ?thesis using I(1) assms(10) by (auto simp: adv_inv_def led_shows_def)
qed


text \<open>Exact arithmetic satisfies the hypothesis.\<close>

definition fdm_exact :: "dbl \<Rightarrow> dbl \<Rightarrow> dbl \<Rightarrow> dbl" where
  "fdm_exact x d m = x / d * m"

lemma fdm_exact_ok: "fdm_ok fdm_exact"
proof -
  have "led_byte fdm_exact 127 x < 0x80" if x: "0 \<le> x" "x \<le> 100" for x
  proof -
    have r: "0 \<le> x / 100 * 127" "x / 100 * 127 \<le> 127" using x by simp_all
    then have "0 \<le> \<lfloor>x / 100 * 127 + 1 / 2\<rfloor>" "\<lfloor>x / 100 * 127 + 1 / 2\<rfloor> < 128" by linarith+
    moreover have "unat (word_of_int k :: u8) < 128" if "0 \<le> k" "k < 128" for k
      using that by (simp add: unat_eq_nat_uint uint_word_of_int)
    ultimately show ?thesis using r(1) by (simp add: led_byte_def fdm_exact_def c_round_def word_less_nat_alt)
  qed
  moreover have "\<lfloor>1 / 2 :: rat\<rfloor> = 0" by (simp add: floor_eq_iff)
  then have "led_byte fdm_exact 127 0 = 0" by (simp add: led_byte_def fdm_exact_def c_round_def)
  ultimately show ?thesis by (simp add: fdm_ok_def)
qed


lemma c_round_of_nat: "c_round (of_nat n) = int n"
proof -
  have "\<lfloor>of_nat n + 1 / 2 :: rat\<rfloor> = int n" by (simp add: floor_eq_iff)
  then show ?thesis by (simp add: c_round_def)
qed

lemma led_byte_exact: "led_byte fdm_exact 127 (fdm_exact (of_nat n) 127 100) = of_nat n"
  by (simp add: led_byte_def fdm_exact_def c_round_of_nat)

text \<open>Attaching: the reset, the packets that the reads bring, and the use of what they said.\<close>

definition led_attach :: "(dbl \<Rightarrow> dbl \<Rightarrow> dbl \<Rightarrow> dbl) \<Rightarrow> u8 list list \<Rightarrow> led \<Rightarrow> led option" where
  "led_attach fdm packets d = do {
     d \<leftarrow> led_init d;
     d \<leftarrow> cfor packets (\<lambda>p d. do { (r, d, es) \<leftarrow> CPhidgetLED_dataInput fdm d p (int (length p)); Some d }) d;
     Some (led_take_echo d) }"

text \<open>The two packets by which an advanced LED 64 tells its state.\<close>

definition adv_low_report :: "adv_device \<Rightarrow> u8 list \<Rightarrow> bool" where
  "adv_low_report dev p \<longleftrightarrow> 41 \<le> length p \<and> p ! 0 AND 0x80 = 0 \<and>
     (\<forall>i < 64. bit (p ! (i div 8 + 1)) (i mod 8) = lit dev i) \<and> (\<forall>i < 24. p ! (i + 17) = brightness dev i)"

definition adv_high_report :: "adv_device \<Rightarrow> u8 list \<Rightarrow> bool" where
  "adv_high_report dev p \<longleftrightarrow> 41 \<le> length p \<and> p ! 0 AND 0x80 \<noteq> 0 \<and> (\<forall>i \<in> {24..<64}. p ! (i - 23) = brightness dev i)"

definition led_arrays :: "led \<Rightarrow> bool" where
  "led_arrays d \<longleftrightarrow> led_lengths d \<and> length (LED_PowerEcho d) = 64 \<and> length (outputEnabledEcho d) = 64"

lemma adv_fault_fields: "phid (fst (adv_fault d)) = phid d \<and> numLEDs (fst (adv_fault d)) = numLEDs d \<and>
    LED_Power (fst (adv_fault d)) = LED_Power d \<and> nextLED_Power (fst (adv_fault d)) = nextLED_Power d \<and>
    lastLED_Power (fst (adv_fault d)) = lastLED_Power d \<and> changedLED_Power (fst (adv_fault d)) = changedLED_Power d \<and>
    changeRequests (fst (adv_fault d)) = changeRequests d \<and> LED_PowerEcho (fst (adv_fault d)) = LED_PowerEcho d \<and>
    outputEnabledEcho (fst (adv_fault d)) = outputEnabledEcho d"
  by (simp add: adv_fault_def Let_def)

lemma power_check_fields: "phid (fst (power_check d)) = phid d \<and> numLEDs (fst (power_check d)) = numLEDs d \<and>
    LED_Power (fst (power_check d)) = LED_Power d \<and> nextLED_Power (fst (power_check d)) = nextLED_Power d \<and>
    lastLED_Power (fst (power_check d)) = lastLED_Power d \<and> changedLED_Power (fst (power_check d)) = changedLED_Power d \<and>
    changeRequests (fst (power_check d)) = changeRequests d \<and> LED_PowerEcho (fst (power_check d)) = LED_PowerEcho d \<and>
    outputEnabledEcho (fst (power_check d)) = outputEnabledEcho d"
  by (simp add: power_check_def)

definition echo_of :: "u8 \<Rightarrow> dbl" where "echo_of b = fdm_exact (of_nat (unat b)) 127 100"

text \<open>What a packet leaves of the record, as far as the outputs are concerned.\<close>

lemma adv_low_fields:
  assumes "adv_low_report dev p" and "led_arrays d" and "deviceUID (phid d) = PHIDUID_LED_64_ADV"
  obtains d' es where "CPhidgetLED_dataInput fdm_exact d p (int (length p)) = Some (EPHIDGET_OK, d', es)"
    "phid d' = phid d" "numLEDs d' = numLEDs d" "LED_Power d' = LED_Power d" "nextLED_Power d' = nextLED_Power d"
    "lastLED_Power d' = lastLED_Power d" "changedLED_Power d' = changedLED_Power d" "changeRequests d' = changeRequests d"
    "length (LED_PowerEcho d') = 64" "length (outputEnabledEcho d') = 64"
    "\<And>i. i < 64 \<Longrightarrow> LED_PowerEcho d' ! i = (if i < 24 then echo_of (brightness dev i) else LED_PowerEcho d ! i)"
    "\<And>i. i < 64 \<Longrightarrow> outputEnabledEcho d' ! i = (if lit dev i then 1 else 0)"
proof -
  obtain d' es where r: "adv_low_packet fdm_exact d p = (d', es)" by fastforce
  have d': "d' = fst (adv_low_packet fdm_exact d p)" using r by simp
  have n: "numLEDs d = 64" using assms(2) by (simp add: led_arrays_def led_lengths_def)
  have len: "length (LED_PowerEcho d) = 64" "length (outputEnabledEcho d) = 64" using assms(2) by (simp_all add: led_arrays_def)
  have e: "LED_PowerEcho d' = map (\<lambda>i. echo_of (p ! (i + 17))) [0..<24] @ drop 24 (LED_PowerEcho d)"
    "outputEnabledEcho d' = led_bits p 1 64 @ drop 64 (outputEnabledEcho d)" and
    f: "phid d' = phid d" "numLEDs d' = numLEDs d" "LED_Power d' = LED_Power d" "nextLED_Power d' = nextLED_Power d"
    "lastLED_Power d' = lastLED_Power d" "changedLED_Power d' = changedLED_Power d" "changeRequests d' = changeRequests d"
    unfolding d' using n
    by (simp_all add: adv_low_packet_def Let_def adv_fault_fields power_check_fields split_beta echo_of_def
        del: upt_rec_numeral)
  have "p \<noteq> []" "41 \<le> length p" "p ! 0 AND 0x80 = 0" using assms(1) by (auto simp: adv_low_report_def)
  then have "CPhidgetLED_dataInput fdm_exact d p (int (length p)) = Some (EPHIDGET_OK, d', es)"
    using assms(3) r by (simp add: CPhidgetLED_dataInput_def cread_def hd_conv_nth uid_defs)
  moreover have "length (LED_PowerEcho d') = 64" "length (outputEnabledEcho d') = 64"
    using len by (simp_all add: e led_bits_def del: upt_rec_numeral)
  moreover have "LED_PowerEcho d' ! i = (if i < 24 then echo_of (brightness dev i) else LED_PowerEcho d ! i)" if "i < 64" for i
    using assms(1) that len by (auto simp: e nth_append adv_low_report_def simp del: upt_rec_numeral)
  moreover have "outputEnabledEcho d' ! i = (if lit dev i then 1 else 0)" if "i < 64" for i
    using assms(1) that by (simp add: e led_bits_def nth_append adv_low_report_def del: upt_rec_numeral)
  ultimately show ?thesis using that f by blast
qed


lemma adv_high_fields:
  assumes "adv_high_report dev p" and "led_arrays d" and "deviceUID (phid d) = PHIDUID_LED_64_ADV"
  shows "CPhidgetLED_dataInput fdm_exact d p (int (length p)) = Some (EPHIDGET_OK, adv_high_packet fdm_exact d p, [])"
    and "i < 64 \<Longrightarrow> LED_PowerEcho (adv_high_packet fdm_exact d p) ! i =
      (if i < 24 then LED_PowerEcho d ! i else echo_of (brightness dev i))"
    and "length (LED_PowerEcho (adv_high_packet fdm_exact d p)) = 64"
proof -
  have "p \<noteq> []" "41 \<le> length p" "p ! 0 AND 0x80 \<noteq> 0" using assms(1) by (auto simp: adv_high_report_def)
  then show "CPhidgetLED_dataInput fdm_exact d p (int (length p)) = Some (EPHIDGET_OK, adv_high_packet fdm_exact d p, [])"
    using assms(3) by (simp add: CPhidgetLED_dataInput_def cread_def hd_conv_nth uid_defs)
  have n: "numLEDs d = 64" "length (LED_PowerEcho d) = 64" using assms(2) by (simp_all add: led_arrays_def led_lengths_def)
  then show "length (LED_PowerEcho (adv_high_packet fdm_exact d p)) = 64" by (simp add: adv_high_packet_def del: upt_rec_numeral)
  assume i: "i < 64"
  show "LED_PowerEcho (adv_high_packet fdm_exact d p) ! i = (if i < 24 then LED_PowerEcho d ! i else echo_of (brightness dev i))"
  proof (cases "i < 24")
    case False
    then have "p ! (i - 23) = brightness dev i" using assms(1) i by (simp add: adv_high_report_def)
    moreover have "[24..<64] ! (i - 24) = i" using i False nth_upt [of 24 "i - 24" 64] by simp
    ultimately show ?thesis using n i False by (simp add: adv_high_packet_def nth_append echo_of_def del: upt_rec_numeral)
  qed (use n i in \<open>simp add: adv_high_packet_def nth_append del: upt_rec_numeral\<close>)
qed

lemma fill_to_all: "length xs = 64 \<Longrightarrow> fill_to 64 x xs = replicate 64 x"
  by (simp add: fill_to_def)

text \<open>The record after attaching, from the two reports in either order.\<close>

definition adv_attached :: "adv_device \<Rightarrow> led \<Rightarrow> led \<Rightarrow> bool" where
  "adv_attached dev d d' \<longleftrightarrow> phid d' = phid d \<and> led_lengths d' \<and> changedLED_Power d' = replicate 64 0 \<and> changeRequests d' = 0 \<and>
     (\<forall>i < 64. lastLED_Power d' ! i = echo_of (brightness dev i) \<and>
       LED_Power d' ! i = (if lit dev i then echo_of (brightness dev i) else 0))"

text \<open>In between: which reports have been read.\<close>

definition adv_read :: "adv_device \<Rightarrow> led \<Rightarrow> bool \<Rightarrow> bool \<Rightarrow> led \<Rightarrow> bool" where
  "adv_read dev d0 low high d \<longleftrightarrow> phid d = phid d0 \<and> led_arrays d \<and> changedLED_Power d = replicate 64 0 \<and> changeRequests d = 0 \<and>
     (\<forall>i < 64. (if i < 24 then low else high) \<longrightarrow> LED_PowerEcho d ! i = echo_of (brightness dev i)) \<and>
     (low \<longrightarrow> (\<forall>i < 64. outputEnabledEcho d ! i = (if lit dev i then 1 else 0)))"

lemma adv_read_low:
  assumes "adv_read dev d0 low high d" and "adv_low_report dev p" and "deviceUID (phid d0) = PHIDUID_LED_64_ADV"
  shows "\<exists>d' es. CPhidgetLED_dataInput fdm_exact d p (int (length p)) = Some (EPHIDGET_OK, d', es) \<and> adv_read dev d0 True high d'"
proof -
  have a: "led_arrays d" "deviceUID (phid d) = PHIDUID_LED_64_ADV" using assms by (simp_all add: adv_read_def)
  show ?thesis
    by (rule adv_low_fields [OF assms(2) a])
      (use assms(1) in \<open>auto simp: adv_read_def led_arrays_def led_lengths_def split: if_splits\<close>)
qed

lemma adv_read_high:
  assumes "adv_read dev d0 low high d" and "adv_high_report dev p" and "deviceUID (phid d0) = PHIDUID_LED_64_ADV"
  shows "\<exists>d' es. CPhidgetLED_dataInput fdm_exact d p (int (length p)) = Some (EPHIDGET_OK, d', es) \<and> adv_read dev d0 low True d'"
proof -
  have a: "led_arrays d" "deviceUID (phid d) = PHIDUID_LED_64_ADV" using assms by (simp_all add: adv_read_def)
  note H = adv_high_fields [OF assms(2) a]
  let ?d = "adv_high_packet fdm_exact d p"
  have "adv_read dev d0 low True ?d"
    using assms(1) H(2,3) by (auto simp: adv_read_def led_arrays_def led_lengths_def adv_high_packet_def simp del: upt_rec_numeral)
  then show ?thesis using H(1) by blast
qed

lemma adv_read_both:
  assumes "adv_read dev d0 True True d" and "deviceUID (phid d0) = PHIDUID_LED_64_ADV"
  shows "adv_attached dev d0 (led_take_echo d)"
  using assms by (simp add: adv_attached_def adv_read_def led_take_echo_def Let_def led_arrays_def led_lengths_def uid_defs del: upt_rec_numeral)

lemma led_attach_eq:
  assumes "led_arrays d" and "deviceUID (phid d) = PHIDUID_LED_64_ADV"
    and "adv_low_report dev low" and "adv_high_report dev high"
    and "packets = [low, high] \<or> packets = [high, low]"
  shows "\<exists>d'. led_attach fdm_exact packets d = Some d' \<and> adv_attached dev d d'"
proof -
  obtain d1 where d1: "led_init d = Some d1" by (cases "led_init d") (use assms(2) in \<open>auto simp: led_init_def Let_def uid_defs\<close>)
  have n: "numLEDs d = 64" using assms(1) by (simp add: led_arrays_def led_lengths_def)
  have f: "adv_read dev d False False d1"
    using d1 assms(1,2) n
    by (auto simp: led_init_def Let_def led_reset_queue_def fill_to_all led_arrays_def led_lengths_def uid_defs adv_read_def)
  have e: "adv_low_report dev p1 \<and> adv_high_report dev p2 \<or> adv_high_report dev p1 \<and> adv_low_report dev p2 \<Longrightarrow>
      \<exists>d2 d3 es es'. CPhidgetLED_dataInput fdm_exact d1 p1 (int (length p1)) = Some (EPHIDGET_OK, d2, es) \<and>
        CPhidgetLED_dataInput fdm_exact d2 p2 (int (length p2)) = Some (EPHIDGET_OK, d3, es') \<and> adv_read dev d True True d3" for p1 p2
    using f adv_read_low adv_read_high assms(2) by meson
  obtain p1 p2 where p: "packets = [p1, p2]" "adv_low_report dev p1 \<and> adv_high_report dev p2 \<or> adv_high_report dev p1 \<and> adv_low_report dev p2"
    using assms(3-5) by blast
  from e [OF p(2)] adv_read_both [OF _ assms(2)] show ?thesis unfolding p(1) by (auto simp: led_attach_def d1)
qed

text \<open>C28. Attaching an advanced LED 64, in whatever order its two reports arrive, leaves a record
  that agrees with the device: the queue is empty and consistent, every LED has as power what the device
  shows, and re-encoding the power gives the device's byte.  It is the hypothesis of the previous property.\<close>

theorem adv_attach_agrees:
  assumes "led_arrays d" and "deviceUID (phid d) = PHIDUID_LED_64_ADV"
    and "8 \<le> outputReportByteLength (phid d)" and "outputReportByteLength (phid d) \<le> MAX_OUT_PACKET_SIZE"
    and "adv_low_report dev low" and "adv_high_report dev high"
    and "packets = [low, high] \<or> packets = [high, low]"
  shows "\<exists>d'. led_attach fdm_exact packets d = Some d' \<and> led_good PHIDUID_LED_64_ADV d' \<and> led_pending d' = Map.empty \<and>
    led_shows fdm_exact d' dev"
proof -
  obtain d' where d': "led_attach fdm_exact packets d = Some d'" "adv_attached dev d d'"
    using led_attach_eq [OF assms(1,2,5,6,7)] by blast
  have c: "changes d' = {}" "led_pending d' = Map.empty"
    using d'(2) by (auto simp: adv_attached_def changes_def led_pending_def)
  have e: "0 \<le> echo_of b" "led_byte fdm_exact 127 (echo_of b) = b" for b
    using led_byte_exact [of "unat b"] of_nat_0_le_iff [of "unat b", where 'a = rat] by (simp_all add: echo_of_def fdm_exact_def)
  have z: "led_byte fdm_exact 127 0 = 0" using fdm_exact_ok by (simp add: fdm_ok_def)
  have "led_good PHIDUID_LED_64_ADV d'" using d'(2) assms(2-4) c e by (simp add: led_good_def adv_attached_def)
  moreover have "led_shows fdm_exact d' dev" using d'(2) e z by (simp add: led_shows_def adv_attached_def shown_def)
  ultimately show ?thesis using d'(1) c(2) by blast
qed


subsection \<open>Concrete devices\<close>

definition demo_led :: led where
  "demo_led = \<lparr>phid = demo_handle\<lparr>deviceID := PHIDCLASS_LED, deviceIDSpec := PHIDID_LED_64_ADV, deviceUID := PHIDUID_LED_64_ADV,
       outputReportByteLength := 8\<rparr>, numLEDs = 64,
     LED_Power = replicate 64 0, LED_CurrentLimit = replicate 64 0, voltage = 2, currentLimit = 1,
     nextLED_Power = replicate 64 PUNK_DBL, lastLED_Power = replicate 64 0, changedLED_Power = replicate 64 0, changeRequests = 0,
     LED_PowerEcho = replicate 64 0, LED_CurrentLimitEcho = replicate 64 0, outputEnabledEcho = replicate 64 2,
     ledOpenDetectEcho = replicate 64 0, powerGoodEcho = 2, outputEnableEcho = 2, faultEcho = 2, voltageEcho = 0, currentLimitEcho = 0,
     TSDCount = replicate 4 0, TSDClearCount = replicate 4 0, TWarnCount = replicate 4 0, TWarnClearCount = replicate 4 0,
     PGoodErrState = 0, controlPacketWaiting = 0, lastOutputPacket = 0\<rparr>"

lemma demo_led_changes: "changes demo_led = {}"
  by (auto simp: changes_def demo_led_def)

lemma demo_led_good: "led_good PHIDUID_LED_64_ADV demo_led" "led_pending demo_led = Map.empty" "led_checks demo_led = EPHIDGET_OK"
  using demo_led_changes
  by (simp_all add: led_good_def demo_led_def led_lengths_def led_pending_def led_checks_def MAX_OUT_PACKET_SIZE_def
      demo_handle_def CPhidget_create_def set_flag_def clear_flag_def CPhidget_setStatusFlag_def CPhidget_clearStatusFlag_def
      CPhidget_statusFlagIsSet_def flag_def fun_eq_iff)

theorem adv_attach_agrees_witness:
  "\<exists>d'. led_attach fdm_exact [0x80 # replicate 40 5, replicate 17 0 @ replicate 24 5] demo_led = Some d' \<and>
     led_good PHIDUID_LED_64_ADV d' \<and> led_pending d' = Map.empty \<and> led_shows fdm_exact d' \<lparr>brightness = \<lambda>i. 5, lit = \<lambda>i. False\<rparr>"
proof (rule adv_attach_agrees)
  let ?dev = "\<lparr>brightness = \<lambda>i. 5, lit = \<lambda>i. False\<rparr>"
  show "led_arrays demo_led" "deviceUID (phid demo_led) = PHIDUID_LED_64_ADV" "8 \<le> outputReportByteLength (phid demo_led)"
    "outputReportByteLength (phid demo_led) \<le> MAX_OUT_PACKET_SIZE"
    by (simp_all add: led_arrays_def led_lengths_def demo_led_def MAX_OUT_PACKET_SIZE_def)
  have "(replicate 17 0 @ replicate 24 5) ! (i div 8 + 1) = (0::u8)" if "i < 64" for i
  proof -
    have "i div 8 + 1 < 17" using that by simp
    then show ?thesis by (simp only: nth_append length_replicate if_True nth_replicate)
  qed
  then show "adv_low_report ?dev (replicate 17 0 @ replicate 24 5)" by (simp add: adv_low_report_def nth_append)
  have "(0x80 # replicate 40 5) ! (i - 23) = (5::u8)" if "i \<in> {24..<64}" for i
    using that by (cases "i - 23") auto
  then show "adv_high_report ?dev (0x80 # replicate 40 5)" by (simp add: adv_high_report_def)
qed simp

theorem leds_show_last_power_witness:
  "\<exists>s. port_reachable False led_set (led_pick fdm_exact) demo_led s \<and> accepted s = [(3, 50)] \<and>
     shown (fold adv_apply (sent s) \<lparr>brightness = \<lambda>i. 0, lit = \<lambda>i. False\<rparr>) 3 = 64"
proof -
  let ?dev = "\<lparr>brightness = \<lambda>i. 0, lit = \<lambda>i. False\<rparr>"
  obtain q1 where q1: "led_set (3, 50) demo_led = Some (Queued q1)"
    using demo_led_good(3) by (auto simp: led_set_def setBrightness_checks_def led_index_ok_def led_offer_def demo_led_def)
  note L = led_set_Queued [OF led_goodD(1) [OF demo_led_good(1)] q1] and G = led_set_good [OF demo_led_good(1) q1]
  obtain buf q2 where q2: "led_pick fdm_exact q1 = Some (take (outputReportByteLength (phid q1)) buf, q2, changeRequests q2 \<noteq> 0)"
    "packet_ok fdm_exact q1 buf q2" using led_pick_ok [OF G fdm_exact_ok] by blast
  have c1: "changes q1 = {3}" using L(4) demo_led_changes by simp
  have "controlPacketWaiting q1 = 0"
    using q1 by (auto simp: led_set_def led_offer_def demo_led_def split: if_splits)
  then have "led_load q2 < 1" using q2(2) c1 by (auto simp: packet_ok_def led_load_def)
  then have "card (changes q2) = 0" by (simp only: led_load_def less_one add_is_0)
  moreover have "changeRequests q2 = of_nat (card (changes q2))" using q2(2) led_goodD(2) by (auto simp: packet_ok_def)
  ultimately have "changeRequests q2 = 0" by simp
  then have p: "led_pick fdm_exact q1 = Some (take (outputReportByteLength (phid q1)) buf, q2, False)" using q2(1) by simp
  let ?s = "\<lparr>queue = q2, writeAvailable = False, written = True, attached = True, caller = Idle, writer = W_waiting,
    accepted = [(3, 50)], picked = [take (outputReportByteLength (phid q1)) buf], sent = [take (outputReportByteLength (phid q1)) buf]\<rparr>"
  have r: "port_reachable False led_set (led_pick fdm_exact) demo_led ?s" by (rule port_run1) (rule q1 p)+
  have z: "led_byte fdm_exact 127 0 = 0" using fdm_exact_ok by (simp add: fdm_ok_def)
  have "led_shows fdm_exact demo_led ?dev" using z by (simp add: led_shows_def shown_def demo_led_def)
  from leds_show_last_power [OF r fdm_exact_ok demo_led_good(1,2) this, of 3]
  have "shown (fold adv_apply (sent ?s) ?dev) 3 = led_byte fdm_exact 127 50" by (simp add: last_power_def)
  moreover have "led_byte fdm_exact 127 50 = 64"
  proof -
    have "\<lfloor>64 :: rat\<rfloor> = 64" by simp
    then show ?thesis by (simp add: led_byte_def fdm_exact_def c_round_def)
  qed
  ultimately show ?thesis using r by (intro exI [of _ ?s]) simp
qed

end
