(* ===== verification/Led64.thy ===== *)
theory Led64
  imports Led
begin

text \<open>
  The first LED 64 (\<^verbatim>\<open>case PHIDUID_LED_64\<close> of \<^verbatim>\<open>CPhidgetLED_getPacket\<close>):
  up to four settings in a packet, and what happens when there is none.
\<close>

lemma fold_take_request:
  assumes "led_lengths d" and "distinct ts" and "set ts \<subseteq> changes d"
  shows "led_lengths (fold take_request ts d) \<and> phid (fold take_request ts d) = phid d \<and>
    changes (fold take_request ts d) = changes d - set ts \<and>
    (changeRequests d = of_nat (card (changes d)) \<longrightarrow>
      changeRequests (fold take_request ts d) = of_nat (card (changes (fold take_request ts d))))"
  using assms
proof (induction ts arbitrary: d)
  case (Cons t ts)
  have t: "t < 64" "t \<in> changes d" using Cons.prems(3) by (auto simp: changes_def)
  have c: "changes (take_request t d) = changes d - {t}" by (rule changes_take [OF Cons.prems(1) t(1)])
  have "set ts \<subseteq> changes (take_request t d)" unfolding c using Cons.prems(2,3) by auto
  moreover have "led_lengths (take_request t d)" "distinct ts" using Cons.prems(1,2) by auto
  ultimately show ?case using Cons.IH [of "take_request t d"] requests_take [OF Cons.prems(1) t(2)] c by auto
qed simp

text \<open>The LEDs whose requests leave: the first four.\<close>

definition led64_chosen :: "led \<Rightarrow> nat \<Rightarrow> nat list" where
  "led64_chosen d m = take 4 (filter (\<lambda>i. changedLED_Power d ! i \<noteq> 0) [0..<m])"

lemma led64_loop:
  assumes "led_lengths d"
  shows "m \<le> 64 \<Longrightarrow> \<exists>buf. cfor [0..<m] (led64_set fdm) (d, replicate 64 0, 0) =
      Some (fold take_request (led64_chosen d m) d, buf, length (led64_chosen d m)) \<and> length buf = 64"
proof (induction m)
  case 0
  show ?case by (simp add: led64_chosen_def)
next
  case (Suc m)
  then obtain buf where IH: "cfor [0..<m] (led64_set fdm) (d, replicate 64 0, 0) =
      Some (fold take_request (led64_chosen d m) d, buf, length (led64_chosen d m))" "length buf = 64" by auto
  let ?ts = "led64_chosen d m" and ?F = "filter (\<lambda>i. changedLED_Power d ! i \<noteq> 0)"
  let ?d = "fold take_request ?ts d"
  have ts: "set ?ts \<subseteq> changes d" "m \<notin> set ?ts" "distinct ?ts" "length ?ts \<le> 4"
    using Suc.prems by (auto simp: led64_chosen_def changes_def distinct_take dest!: in_set_takeD)
  have m: "m < 64" using Suc.prems by simp
  have "m \<in> changes ?d \<longleftrightarrow> m \<in> changes d" using fold_take_request [OF assms ts(3,1)] ts(2) by auto
  then have ch: "changedLED_Power ?d ! m \<noteq> 0 \<longleftrightarrow> changedLED_Power d ! m \<noteq> 0" using m by (simp add: changes_def)
  have u: "[0..<Suc m] = [0..<m] @ [m]" by simp
  show ?case
  proof (cases "changedLED_Power d ! m \<noteq> 0 \<and> length ?ts < 4")
    case True
    then have "length (?F [0..<m]) < 4" unfolding led64_chosen_def length_take by linarith
    then have e: "led64_chosen d (Suc m) = ?ts @ [m]" using True by (simp add: led64_chosen_def)
    let ?k = "length ?ts"
    have "?k * 2 + 1 < 64" using True by simp
    then have "led64_set fdm m (?d, buf, ?k) = Some (take_request m ?d,
        buf[?k * 2 := of_nat m, ?k * 2 + 1 := led_byte fdm 63 (LED_Power (take_request m ?d) ! m)], ?k + 1)"
      using True ch IH(2) by (simp add: led64_set_def cwrite_def)
    then show ?thesis unfolding e u cfor_snoc IH(1) using IH(2) by simp
  next
    case False
    have "led64_chosen d (Suc m) = ?ts"
    proof (cases "changedLED_Power d ! m \<noteq> 0")
      case True
      then have "4 \<le> length (?F [0..<m])" using False by (simp add: led64_chosen_def)
      then show ?thesis by (simp add: led64_chosen_def)
    qed (simp add: led64_chosen_def)
    moreover have "led64_set fdm m (?d, buf, length ?ts) = Some (?d, buf, length ?ts)"
      using False ch by (auto simp: led64_set_def)
    ultimately show ?thesis unfolding u cfor_snoc IH(1) using IH(2) by simp
  qed
qed

lemma led_repeat_total: "length buf = 64 \<Longrightarrow> 0 < k \<Longrightarrow> \<exists>b. led_repeat k buf = Some b \<and> length b = 64"
proof (induction "4 - k" arbitrary: k buf)
  case (Suc n)
  have k: "k < 4" using Suc.hyps(2) by simp
  have u: "[k..<4] = k # [Suc k..<4]" by (rule upt_conv_Cons [OF k])
  obtain b where b: "length b = 64" "led_repeat k buf = led_repeat (Suc k) b"
  proof
    let ?b = "buf[k * 2 := buf ! ((k - 1) * 2), k * 2 + 1 := buf ! ((k - 1) * 2 + 1)]"
    show "length ?b = 64" using Suc.prems by simp
    show "led_repeat k buf = led_repeat (Suc k) ?b"
      using k Suc.prems unfolding led_repeat_def u by (simp add: cread_def cwrite_def)
  qed
  have "n = 4 - Suc k" "0 < Suc k" using Suc.hyps(2) by simp_all
  from Suc.hyps(1) [OF this(1) b(1) this(2)] b(2) show ?case by simp
qed (auto simp: led_repeat_def)

text \<open>With requests for at most four LEDs one packet takes them all; with none, the filling loop
  reads in front of the buffer.\<close>

lemma led64_pick:
  assumes "led_lengths d" and "deviceUID (phid d) = PHIDUID_LED_64" and "outputReportByteLength (phid d) \<le> MAX_OUT_PACKET_SIZE"
    and "changeRequests d = of_nat (card (changes d))" and "card (changes d) \<le> 4" and "changes d \<noteq> {}"
  shows "\<exists>p d'. led_pick fdm d = Some (p, d', False) \<and> led_lengths d' \<and> phid d' = phid d \<and> changes d' = {}"
proof -
  let ?ts = "led64_chosen d 64"
  obtain buf where L: "cfor [0..<64] (led64_set fdm) (d, replicate 64 0, 0) = Some (fold take_request ?ts d, buf, length ?ts)"
    "length buf = 64" using led64_loop [OF assms(1), of 64 fdm] by auto
  have s: "set (filter (\<lambda>i. changedLED_Power d ! i \<noteq> 0) [0..<64]) = changes d" by (auto simp: changes_def)
  have "length (filter (\<lambda>i. changedLED_Power d ! i \<noteq> 0) [0..<64]) = card (changes d)"
    unfolding s [symmetric] by (rule distinct_card [symmetric]) (rule distinct_filter [OF distinct_upt])
  then have t: "?ts = filter (\<lambda>i. changedLED_Power d ! i \<noteq> 0) [0..<64]" using assms(5) by (simp add: led64_chosen_def del: upt_rec_numeral)
  have c: "set ?ts = changes d" "distinct ?ts" unfolding t by (rule s) (rule distinct_filter [OF distinct_upt])
  have F: "led_lengths (fold take_request ?ts d)" "phid (fold take_request ?ts d) = phid d" "changes (fold take_request ?ts d) = {}"
    "changeRequests (fold take_request ?ts d) = 0"
    using fold_take_request [OF assms(1) c(2)] c(1) assms(4) by auto
  have "0 < length ?ts" using c(1) assms(6) by (cases ?ts) auto
  from led_repeat_total [OF L(2) this] obtain b where b: "led_repeat (length ?ts) buf = Some b" by blast
  have n: "numLEDs d = 64" using assms(1) by (simp add: led_lengths_def)
  have "led64_packet fdm d (replicate 64 0) = Some (b, fold take_request ?ts d)"
    unfolding led64_packet_def n L(1) using b by simp
  then have "led_pick fdm d = Some (take (outputReportByteLength (phid d)) b, fold take_request ?ts d, False)"
    using assms(2,3) F(2,4) by (simp add: led_pick_def CPhidgetLED_getPacket_def MAX_OUT_PACKET_SIZE_def)
  then show ?thesis using F(1-3) by blast
qed

lemma led64_pick_none:
  assumes "led_lengths d" and "deviceUID (phid d) = PHIDUID_LED_64" and "outputReportByteLength (phid d) \<le> MAX_OUT_PACKET_SIZE"
    and "changes d = {}"
  shows "led_pick fdm d = None"
proof -
  have "changedLED_Power d ! i = 0" if "i < 64" for i using that assms(4) by (auto simp: changes_def)
  then have "led64_chosen d 64 = []" by (auto simp: led64_chosen_def filter_empty_conv simp del: upt_rec_numeral)
  then obtain buf where L: "cfor [0..<64] (led64_set fdm) (d, replicate 64 0, 0) = Some (d, buf, 0)"
    using led64_loop [OF assms(1), of 64 fdm] by auto
  have n: "numLEDs d = 64" using assms(1) by (simp add: led_lengths_def)
  have "led64_packet fdm d (replicate 64 0) = None"
    unfolding led64_packet_def n L by (simp add: led_repeat_def upt_conv_Cons)
  then show ?thesis using assms(2,3) by (simp add: led_pick_def CPhidgetLED_getPacket_def MAX_OUT_PACKET_SIZE_def)
qed

text \<open>C36. The caller signals the write thread after it has released the output lock.  On a first
  LED 64 with no output pending, two changes suffice: the packet that takes the second one is taken before
  its signal comes, the late signal wakes the write thread with nothing to send, and
  \<^verbatim>\<open>getPacket\<close>, which fills up the packet with copies of the last setting, reads two bytes
  in front of the packet buffer.\<close>

theorem led64_late_signal_reads_before_buffer:
  assumes "led_lengths d" and "deviceUID (phid d) = PHIDUID_LED_64" and "outputReportByteLength (phid d) \<le> MAX_OUT_PACKET_SIZE"
    and "changes d = {}" and "changeRequests d = 0"
    and "led_set r1 d = Some (Queued d1)" and "led_set r2 d1 = Some (Queued d2)"
  shows "\<exists>s. port_reachable False led_set (led_pick fdm) d s \<and> attached s \<and> accepted s = [r1, r2] \<and> writer s = W_packing \<and>
    led_pick fdm (queue s) = None"
proof -
  note L1 = led_set_Queued [OF assms(1,6)]
  note L2 = led_set_Queued [OF L1(3) assms(7)]
  have "card (changes d2) \<le> 4" "changes d2 \<noteq> {}" using L1(4) L2(4) assms(4) card_insert_le_m1 by (auto simp: card_insert_if)
  moreover have "changeRequests d2 = of_nat (card (changes d2))" using L1(12) L2(12) assms(4,5) by simp
  ultimately obtain p d3 where p: "led_pick fdm d2 = Some (p, d3, False)" "led_lengths d3" "phid d3 = phid d2" "changes d3 = {}"
    using led64_pick [OF L2(3), of fdm] L1(7) L2(7) assms(2,3) by auto
  have n: "led_pick fdm d3 = None" using led64_pick_none [OF p(2)] p(3,4) L1(7) L2(7) assms(2,3) by simp
  let ?st = "\<lambda>q w wr c t a pk sn. \<lparr>queue = q, writeAvailable = w, written = wr, attached = True, caller = c, writer = t,
     accepted = a, picked = pk, sent = sn\<rparr>"
  note go = port_reachable.step [of False led_set "led_pick fdm" d]
  have "port_reachable False led_set (led_pick fdm) d (?st d False False Idle W_waiting [] [] [])"
    using port_reachable.start [of False led_set "led_pick fdm" d] by (simp add: port_start_def)
  then have "port_reachable False led_set (led_pick fdm) d (?st d False False (Checking r1) W_waiting [] [] [])"
    by (rule go) (rule port_step_eq [OF port_step.call]; simp)
  then have "port_reachable False led_set (led_pick fdm) d (?st d1 False False Signalling W_waiting [r1] [] [])"
    by (rule go) (rule port_step_eq [OF port_step.queued [where r = r1 and q = d1]]; simp add: assms)
  then have "port_reachable False led_set (led_pick fdm) d (?st d1 True False Idle W_waiting [r1] [] [])"
    by (rule go) (rule port_step_eq [OF port_step.signal]; simp)
  then have "port_reachable False led_set (led_pick fdm) d (?st d1 True False Idle W_resetting [r1] [] [])"
    by (rule go) (rule port_step_eq [OF port_step.wake]; simp)
  then have "port_reachable False led_set (led_pick fdm) d (?st d1 False False Idle W_packing [r1] [] [])"
    by (rule go) (rule port_step_eq [OF port_step.reset]; simp)
  then have "port_reachable False led_set (led_pick fdm) d (?st d1 False False (Checking r2) W_packing [r1] [] [])"
    by (rule go) (rule port_step_eq [OF port_step.call]; simp)
  then have "port_reachable False led_set (led_pick fdm) d (?st d2 False False Signalling W_packing [r1, r2] [] [])"
    by (rule go) (rule port_step_eq [OF port_step.queued [where r = r2 and q = d2]]; simp add: assms)
  then have "port_reachable False led_set (led_pick fdm) d (?st d3 False False Signalling (W_sending p) [r1, r2] [p] [])"
    by (rule go) (rule port_step_eq [OF port_step.pack [where p = p and q = d3 and signal = False]]; simp add: p)
  then have "port_reachable False led_set (led_pick fdm) d (?st d3 False True Signalling W_waiting [r1, r2] [p] [p])"
    by (rule go) (rule port_step_eq [OF port_step.send]; simp)
  then have "port_reachable False led_set (led_pick fdm) d (?st d3 True True Idle W_waiting [r1, r2] [p] [p])"
    by (rule go) (rule port_step_eq [OF port_step.signal]; simp)
  then have "port_reachable False led_set (led_pick fdm) d (?st d3 True True Idle W_resetting [r1, r2] [p] [p])"
    by (rule go) (rule port_step_eq [OF port_step.wake]; simp)
  then have "port_reachable False led_set (led_pick fdm) d (?st d3 False True Idle W_packing [r1, r2] [p] [p])"
    by (rule go) (rule port_step_eq [OF port_step.reset]; simp)
  then show ?thesis using n by fastforce
qed

definition demo_led64 :: led where
  "demo_led64 = demo_led\<lparr>phid := (phid demo_led)\<lparr>deviceUID := PHIDUID_LED_64\<rparr>\<rparr>"

theorem led64_late_signal_reads_before_buffer_witness:
  "\<exists>s. port_reachable False led_set (led_pick fdm_exact) demo_led64 s \<and> accepted s = [(3, 50), (4, 50)] \<and> writer s = W_packing \<and>
     led_pick fdm_exact (queue s) = None"
proof -
  have h: "led_lengths demo_led64" "deviceUID (phid demo_led64) = PHIDUID_LED_64"
    "outputReportByteLength (phid demo_led64) \<le> MAX_OUT_PACKET_SIZE" "changes demo_led64 = {}" "changeRequests demo_led64 = 0"
    using demo_led_changes by (simp_all add: led_lengths_def demo_led64_def demo_led_def MAX_OUT_PACKET_SIZE_def changes_def)
  have k: "led_checks demo_led64 = EPHIDGET_OK" using demo_led_good(3) by (simp add: led_checks_def demo_led64_def split: if_splits)
  obtain d1 where d1: "led_set (3, 50) demo_led64 = Some (Queued d1)"
    using k by (auto simp: led_set_def setBrightness_checks_def led_index_ok_def led_offer_def demo_led64_def demo_led_def)
  note L = led_set_Queued [OF h(1) d1]
  have "led_checks d1 = EPHIDGET_OK" "changedLED_Power d1 ! 4 = 0" "LED_Power d1 ! 4 \<noteq> 50"
    using k L(7,8) L(10) [of 4] by (simp_all add: led_checks_def demo_led64_def demo_led_def)
  then obtain d2 where d2: "led_set (4, 50) d1 = Some (Queued d2)"
    using L(3) by (auto simp: led_set_def setBrightness_checks_def led_index_ok_def led_offer_def led_lengths_def)
  from led64_late_signal_reads_before_buffer [OF h d1 d2, of fdm_exact] show ?thesis by blast
qed

end
