(* ===== verification/Led_M3.thy ===== *)
theory Led_M3
  imports Led
begin

text \<open>
  The advanced LED 64 on the newer processor (M3): the 12-bit powers and 6-bit current limits of its
  packets, written by \<^verbatim>\<open>CPhidgetLED_getPacket\<close> and read by
  \<^verbatim>\<open>CPhidgetLED_dataInput\<close>.
\<close>

subsection \<open>Bytes\<close>

lemma int_masks: "(k::int) AND 0x0f = k mod 16" "k AND 0xff = k mod 256"
proof -
  have "(0x0f :: int) = mask 4" "(0xff :: int) = mask 8" by (simp_all add: mask_eq_exp_minus_1)
  then show "k AND 0x0f = k mod 16" "k AND 0xff = k mod 256" by (simp_all only: take_bit_eq_mask [symmetric] take_bit_eq_mod, simp_all)
qed

definition enc12 :: "int \<Rightarrow> int \<Rightarrow> u8 list" where
  "enc12 a b = [word_of_int (a AND 0xff), word_of_int (drop_bit 8 a AND 0x0f) OR word_of_int (push_bit 4 b AND 0xf0),
     word_of_int (drop_bit 4 b AND 0xff)]"

lemma nibbles:
  "(word_of_int (x AND 0x0f) OR word_of_int (push_bit 4 y AND 0xf0) :: u8) AND 0x0f = word_of_int (x AND 0x0f)" (is ?lo)
  "drop_bit 4 ((word_of_int (x AND 0x0f) OR word_of_int (push_bit 4 y AND 0xf0) :: u8) AND 0xf0) = word_of_int (y AND 0x0f)" (is ?hi)
proof -
  have m: "(0x0f :: int) = mask 4" "(0xf0 :: int) = push_bit 4 (mask 4)" "(0x0f :: u8) = mask 4" "(0xf0 :: u8) = push_bit 4 (mask 4)"
    by (simp_all add: mask_eq_exp_minus_1 push_bit_eq_mult)
  show ?lo unfolding m by (rule bit_eqI) (auto simp: bit_simps)
  show ?hi unfolding m by (rule bit_eqI) (auto simp: bit_simps)
qed

lemma enc12_dec:
  assumes "0 \<le> a" and "a < 4096" and "0 \<le> b" and "b < 4096" and "enc12 a b = [x, y, z]"
  shows "int (unat x + 256 * unat (y AND 0x0f)) = a" and "int (unat (drop_bit 4 (y AND 0xf0)) + 16 * unat z) = b"
proof -
  have e: "x = word_of_int (a AND 0xff)" "y = word_of_int (drop_bit 8 a AND 0x0f) OR word_of_int (push_bit 4 b AND 0xf0)"
    "z = word_of_int (drop_bit 4 b AND 0xff)" using assms(5) by (simp_all add: enc12_def)
  have u: "int (unat (word_of_int k :: u8)) = k" if "0 \<le> k" "k < 256" for k
    using that by (simp add: uint_word_of_int)
  have "int (unat x) = a mod 256" unfolding e int_masks by (rule u) simp_all
  moreover have "int (unat (y AND 0x0f)) = a div 256"
  proof -
    have "drop_bit 8 a AND 0x0f = a div 256" using assms(1,2) by (simp add: int_masks drop_bit_eq_div)
    moreover have "a div 256 < 256" "0 \<le> a div 256" using assms(1,2) by simp_all
    ultimately show ?thesis unfolding e nibbles using u by simp
  qed
  ultimately show "int (unat x + 256 * unat (y AND 0x0f)) = a" by simp
  have "int (unat (drop_bit 4 (y AND 0xf0))) = b mod 16" unfolding e nibbles unfolding int_masks by (rule u) simp_all
  moreover have "int (unat z) = b div 16"
  proof -
    have "drop_bit 4 b AND 0xff = b div 16" using assms(3,4) by (simp add: int_masks drop_bit_eq_div)
    moreover have "b div 16 < 256" "0 \<le> b div 16" using assms(3,4) by simp_all
    ultimately show ?thesis unfolding e using u by simp
  qed
  ultimately show "int (unat (drop_bit 4 (y AND 0xf0)) + 16 * unat z) = b" by simp
qed

subsection \<open>Powers\<close>

text \<open>Without the requests, the packing of the values \<open>v\<close>.\<close>

lemma or_byte_zero: "length p = k \<Longrightarrow> or_byte k v (p @ 0 # r) = Some (p @ word_of_int v # r)"
  using cwrite_append [of p k 0 r "word_of_int v"] by (simp add: or_byte_def cread_def nth_append)

lemma chunk_index: "2 * m * 12 div 8 = 3 * (m :: nat)" "(2 * m + 1) * 12 div 8 = 3 * m + 1" "(12 + 24 * m) div 8 = 3 * m + 1"
proof -
  have "24 * m = 8 * (3 * m)" by simp
  then have d: "(24 * m + k) div 8 = 3 * m + k div 8" for k by (simp only: div_mult_self4 [OF _ , of 8] zero_neq_numeral not_False_eq_True)
  show "2 * m * 12 div 8 = 3 * m" "(2 * m + 1) * 12 div 8 = 3 * m + 1" "(12 + 24 * m) div 8 = 3 * m + 1"
    using d [of 0] d [of 12] by (simp_all add: algebra_simps)
qed

lemma pack12_pair:
  assumes "length p = 3 * m + 1"
  shows "Option.bind (pack12 (2 * m) a (p @ 0 # 0 # 0 # r)) (pack12 (2 * m + 1) b) = Some (p @ enc12 a b @ r)"
proof -
  note k = chunk_index(1,3) [of m]
  have "pack12 (2 * m) a (p @ 0 # 0 # 0 # r) = Some (p @ word_of_int (a AND 0xff) # word_of_int (drop_bit 8 a AND 0x0f) # 0 # r)"
    using or_byte_zero [of p "3 * m + 1" "a AND 0xff" "0 # 0 # r"]
      or_byte_zero [of "p @ [word_of_int (a AND 0xff)]" "3 * m + 1 + 1" "drop_bit 8 a AND 0x0f" "0 # r"] assms
    by (simp add: pack12_def Let_def k del: bit_push_bit_iff)
  moreover have "pack12 (2 * m + 1) b (p @ x # y # 0 # r) =
      Some (p @ x # (y OR word_of_int (push_bit 4 b AND 0xf0)) # word_of_int (drop_bit 4 b AND 0xff) # r)" for x y
    using cwrite_append [of "p @ [x]" "3 * m + 1 + 1" y "0 # r"]
      or_byte_zero [of "p @ [x, y OR word_of_int (push_bit 4 b AND 0xf0)]" "3 * m + 1 + 1 + 1" "drop_bit 4 b AND 0xff" r] assms
    by (simp add: pack12_def Let_def k or_byte_def cread_def nth_append)
  ultimately show ?thesis by (simp add: enc12_def)
qed


text \<open>Chunks of three bytes after the type byte.\<close>

lemma nth_concat_chunks:
  assumes "\<And>j. length (f j) = c" and "m < n" and "k < c"
  shows "concat (map f [0..<n]) ! (c * m + k) = f m ! k"
  using assms(2)
proof (induction n)
  case (Suc n)
  have l: "length (concat (map f [0..<n])) = c * n" for n
    using assms(1) by (induction n) (simp_all add: add.commute)
  have "c * m + k < c * n" if "m < n"
  proof -
    have "c * m + c \<le> c * n" using that by (metis Suc_leI mult_Suc_right add.commute mult_le_mono2)
    then show ?thesis using assms(3) by simp
  qed
  then show ?case using Suc l [of n] by (cases "m < n") (auto simp: nth_append less_Suc_eq)
qed simp

lemma enc12_length: "length (enc12 a b) = 3" and enc12_lengths: "length (concat (map (\<lambda>j. enc12 (f j) (g j)) [0..<m])) = 3 * m"
  by (simp add: enc12_def) (induction m; simp add: enc12_def)

text \<open>A request taken, with 0 for an unknown power.\<close>

definition m3_take :: "nat \<Rightarrow> led \<Rightarrow> led" where
  "m3_take i d = (let d = (if changedLED_Power d ! i \<noteq> 0 then take_request i d else d) in
     if LED_Power d ! i = PUNK_DBL then d\<lparr>LED_Power := (LED_Power d)[i := 0]\<rparr> else d)"

definition m3_value :: "led \<Rightarrow> nat \<Rightarrow> dbl" where
  "m3_value d i = (if next_power d i = PUNK_DBL then 0 else next_power d i)"

definition m3_code :: "(dbl \<Rightarrow> dbl \<Rightarrow> dbl \<Rightarrow> dbl) \<Rightarrow> led \<Rightarrow> nat \<Rightarrow> int" where
  "m3_code fdm d i = c_round (fdm (m3_value d i) 100 4095)"

lemma m3_take_fields:
  assumes "led_lengths d" and "i < 64"
  shows "led_lengths (m3_take i d) \<and> phid (m3_take i d) = phid d \<and> LED_Power (m3_take i d) ! i = m3_value d i \<and>
    changes (m3_take i d) = changes d - {i} \<and>
    (changeRequests d = of_nat (card (changes d)) \<longrightarrow> changeRequests (m3_take i d) = of_nat (card (changes (m3_take i d)))) \<and>
    (\<forall>j < 64. j \<noteq> i \<longrightarrow> LED_Power (m3_take i d) ! j = LED_Power d ! j \<and> next_power (m3_take i d) j = next_power d j)"
proof -
  have "changes (m3_take i d) = changes d - {i}"
    using assms by (auto simp: m3_take_def Let_def led_lengths_def changes_def nth_list_update)
  moreover have "changeRequests (m3_take i d) = of_nat (card (changes (m3_take i d)))" if "changeRequests d = of_nat (card (changes d))"
  proof (cases "i \<in> changes d")
    case True
    have "changes (m3_take i d) = changes (take_request i d)" "changeRequests (m3_take i d) = changeRequests (take_request i d)"
      using True by (auto simp: m3_take_def Let_def changes_def)
    then show ?thesis using requests_take [OF assms(1) True that] by simp
  next
    case False
    then have "changes (m3_take i d) = changes d" "changeRequests (m3_take i d) = changeRequests d"
      using assms(2) by (auto simp: m3_take_def Let_def changes_def)
    then show ?thesis using that by simp
  qed
  ultimately show ?thesis using assms
    by (auto simp: m3_take_def Let_def led_lengths_def m3_value_def next_power_def nth_list_update)
qed

lemma fold_m3_take:
  assumes "led_lengths d" and "s + n \<le> 64"
  shows "led_lengths (fold m3_take [s..<s + n] d) \<and> phid (fold m3_take [s..<s + n] d) = phid d \<and>
    changes (fold m3_take [s..<s + n] d) = changes d - {s..<s + n} \<and>
    (changeRequests d = of_nat (card (changes d)) \<longrightarrow>
      changeRequests (fold m3_take [s..<s + n] d) = of_nat (card (changes (fold m3_take [s..<s + n] d)))) \<and>
    (\<forall>j < 64. if j \<in> {s..<s + n} then LED_Power (fold m3_take [s..<s + n] d) ! j = m3_value d j
      else LED_Power (fold m3_take [s..<s + n] d) ! j = LED_Power d ! j \<and> next_power (fold m3_take [s..<s + n] d) j = next_power d j)"
  using assms(2)
proof (induction n)
  case (Suc n)
  let ?d = "fold m3_take [s..<s + n] d"
  have IH: "led_lengths ?d" "phid ?d = phid d" "changes ?d = changes d - {s..<s + n}"
    "changeRequests d = of_nat (card (changes d)) \<longrightarrow> changeRequests ?d = of_nat (card (changes ?d))"
    "\<And>j. j < 64 \<Longrightarrow> if j \<in> {s..<s + n} then LED_Power ?d ! j = m3_value d j
      else LED_Power ?d ! j = LED_Power d ! j \<and> next_power ?d j = next_power d j"
    using Suc by auto
  have i: "s + n < 64" using Suc.prems by simp
  note T = m3_take_fields [OF IH(1) i]
  have "next_power ?d (s + n) = next_power d (s + n)" using IH(5) [OF i] by simp
  then have v: "m3_value ?d (s + n) = m3_value d (s + n)" by (simp add: m3_value_def)
  have e: "fold m3_take [s..<s + Suc n] d = m3_take (s + n) ?d" "{s..<s + Suc n} = insert (s + n) {s..<s + n}" by auto
  have "if j \<in> {s..<s + Suc n} then LED_Power (m3_take (s + n) ?d) ! j = m3_value d j
      else LED_Power (m3_take (s + n) ?d) ! j = LED_Power d ! j \<and> next_power (m3_take (s + n) ?d) j = next_power d j" if "j < 64" for j
    using T IH(5) [OF that] v that unfolding e(2) by (cases "j = s + n") auto
  moreover have "changes (m3_take (s + n) ?d) = changes d - {s..<s + Suc n}" unfolding e(2) using T IH(3) by auto
  ultimately show ?case unfolding e(1) using T IH(2,4) by auto
qed (use assms(1) in simp)

lemma m3_power_eq:
  "m3_power fdm s i (d, buf) = Option.bind (pack12 (i - s) (c_round (fdm (LED_Power (m3_take i d) ! i) 100 4095)) buf)
     (\<lambda>buf. Some (m3_take i d, buf))"
  by (simp add: m3_power_def m3_take_def Let_def)

lemma m3_power_loop:
  assumes "led_lengths d" and "s = 0 \<or> s = 32"
  shows "m \<le> 16 \<Longrightarrow> cfor [s..<s + 2 * m] (m3_power fdm s) (d, t # replicate 63 0) = Some (fold m3_take [s..<s + 2 * m] d,
    t # concat (map (\<lambda>j. enc12 (m3_code fdm d (s + 2 * j)) (m3_code fdm d (s + (2 * j + 1)))) [0..<m]) @ replicate (63 - 3 * m) 0)"
proof (induction m)
  case (Suc m)
  let ?e = "\<lambda>j. enc12 (m3_code fdm d (s + 2 * j)) (m3_code fdm d (s + (2 * j + 1)))"
  let ?p = "t # concat (map ?e [0..<m])" and ?r = "replicate (63 - 3 * Suc m) (0 :: u8)"
  let ?d = "fold m3_take [s..<s + 2 * m] d" and ?d' = "m3_take (s + 2 * m) (fold m3_take [s..<s + 2 * m] d)"
  have "length (concat (map ?e [0..<m])) = 3 * m" by (rule enc12_lengths)
  then have l: "length ?p = 3 * m + 1" by simp
  have "63 - 3 * m = Suc (Suc (Suc (63 - 3 * Suc m)))" using Suc.prems by simp
  then have z: "replicate (63 - 3 * m) (0::u8) = 0 # 0 # 0 # ?r" by (simp only: replicate_Suc)
  have i: "s + 2 * m < 64" "s + (2 * m + 1) < 64" "s + 2 * m \<le> 64" "s + (2 * m + 1) \<le> 64" using assms(2) Suc.prems by auto
  have d': "?d' = fold m3_take [s..<s + (2 * m + 1)] d" by simp
  have "LED_Power (fold m3_take [s..<s + (k + 1)] d) ! (s + k) = m3_value d (s + k)" if "s + k < 64" for k
    using fold_m3_take [OF assms(1), of s "k + 1"] that by auto
  from this [of "2 * m"] this [of "2 * m + 1"]
  have v: "LED_Power ?d' ! (s + 2 * m) = m3_value d (s + 2 * m)"
    "LED_Power (m3_take (s + (2 * m + 1)) ?d') ! (s + (2 * m + 1)) = m3_value d (s + (2 * m + 1))"
    using i by simp_all
  have u: "[s..<s + 2 * Suc m] = ([s..<s + 2 * m] @ [s + 2 * m]) @ [s + (2 * m + 1)]" by simp
  obtain b where b: "pack12 (2 * m) (m3_code fdm d (s + 2 * m)) (?p @ 0 # 0 # 0 # ?r) = Some b"
    "pack12 (2 * m + 1) (m3_code fdm d (s + (2 * m + 1))) b = Some (?p @ ?e m @ ?r)"
    using pack12_pair [OF l, of "m3_code fdm d (s + 2 * m)" ?r "m3_code fdm d (s + (2 * m + 1))"] by (auto split: bind_splits)
  have "cfor [s..<s + 2 * m] (m3_power fdm s) (d, t # replicate 63 0) = Some (?d, ?p @ 0 # 0 # 0 # ?r)"
    using Suc z by simp
  moreover have "m3_power fdm s (s + 2 * m) (?d, ?p @ 0 # 0 # 0 # ?r) = Some (?d', b)"
    unfolding m3_power_eq using b(1) v(1) by (simp add: m3_code_def)
  moreover have "m3_power fdm s (s + (2 * m + 1)) (?d', b) = Some (m3_take (s + (2 * m + 1)) ?d', ?p @ ?e m @ ?r)"
    unfolding m3_power_eq using b(2) v(2) by (simp add: m3_code_def)
  ultimately have "cfor [s..<s + 2 * Suc m] (m3_power fdm s) (d, t # replicate 63 0) =
      Some (m3_take (s + (2 * m + 1)) ?d', ?p @ ?e m @ ?r)"
    unfolding u cfor_snoc by (simp only: bind.simps)
  moreover have "fold m3_take [s..<s + 2 * Suc m] d = m3_take (s + (2 * m + 1)) ?d'" unfolding u by simp
  ultimately show ?case by simp
qed simp


lemma m3_unpack:
  assumes "i < 32" and "\<forall>i < 32. 0 \<le> v i \<and> v i < 4096"
  shows "int (unpack12 (t # concat (map (\<lambda>j. enc12 (v (2 * j)) (v (2 * j + 1))) [0..<16]) @ r) 1 i) = v i"
proof -
  let ?e = "\<lambda>j. enc12 (v (2 * j)) (v (2 * j + 1))"
  define m where "m = i div 2"
  have m: "m < 16" using assms(1) by (simp add: m_def)
  let ?p = "t # concat (map ?e [0..<16]) @ r"
  have len: "length (concat (map ?e [0..<16])) = 48" unfolding enc12_lengths by simp
  have nth: "?p ! (3 * m + k + 1) = ?e m ! k" if "k < 3" for k
  proof -
    have "3 * m + k < 48" using that m by simp
    then have "?p ! (3 * m + k + 1) = concat (map ?e [0..<16]) ! (3 * m + k)" using len
      by (simp add: nth_append del: upt_rec_numeral)
    also have "\<dots> = ?e m ! k" by (rule nth_concat_chunks [OF enc12_length m that])
    finally show ?thesis .
  qed
  have V: "0 \<le> v (2 * m)" "v (2 * m) < 4096" "0 \<le> v (2 * m + 1)" "v (2 * m + 1) < 4096" using m assms(2) by auto
  obtain x y z where e: "?e m = [x, y, z]" by (simp add: enc12_def)
  note D = enc12_dec [OF V e]
  have b: "?p ! (3 * m + 1) = x" "?p ! (3 * m + 2) = y" "?p ! (3 * m + 3) = z"
    using nth [of 0] nth [of 1] nth [of 2] unfolding e by (simp_all add: eval_nat_numeral)
  show ?thesis
  proof (cases "i mod 2 = 0")
    case True
    then have i: "i = 2 * m" using mult_div_mod_eq [of 2 i] by (simp add: m_def)
    have k: "i * 12 div 8 = 3 * m" unfolding i by (rule chunk_index)
    have "unpack12 ?p 1 i = unat x + 256 * unat (y AND 0x0f)"
      unfolding unpack12_def Let_def k using True b by (simp del: upt_rec_numeral)
    then show ?thesis using D(1) i by (simp only:)
  next
    case False
    then have i: "i = 2 * m + 1" using mult_div_mod_eq [of 2 i] by (simp add: m_def)
    have k: "i * 12 div 8 = 3 * m + 1" unfolding i by (rule chunk_index)
    have "unpack12 ?p 1 i = unat (drop_bit 4 (y AND 0xf0)) + 16 * unat z"
      unfolding unpack12_def Let_def k using False b by (simp add: numeral_3_eq_3 del: upt_rec_numeral)
    then show ?thesis using D(2) i by (simp only:)
  qed
qed

text \<open>The first of the 32 LEDs that the next packet is about.\<close>

definition m3_half :: "led \<Rightarrow> nat" where
  "m3_half d = (if lastOutputPacket d = 0 \<and> m3_lower d \<or> lastOutputPacket d \<noteq> 0 \<and> \<not> m3_upper d then 0 else 32)"

lemma m3_packet_outcome:
  assumes "led_lengths d" and "controlPacketWaiting d = 0" and "\<forall>i < 64. 0 \<le> m3_code fdm d i \<and> m3_code fdm d i < 4096"
  shows "\<exists>buf d'. m3_packet fdm d (replicate 64 0) = Some (buf, d') \<and> length buf = 64 \<and>
    buf ! 0 = (if m3_half d = 0 then 0 else 0x20) \<and> changes d' = changes d - {m3_half d..<m3_half d + 32} \<and>
    (changeRequests d = of_nat (card (changes d)) \<longrightarrow> changeRequests d' = of_nat (card (changes d'))) \<and> phid d' = phid d \<and>
    (\<forall>i < 32. int (unpack12 buf 1 i) = m3_code fdm d (m3_half d + i)) \<and>
    (\<forall>i < 32. LED_Power d' ! (m3_half d + i) = m3_value d (m3_half d + i))"
proof -
  define s l t where "s = m3_half d" and "l = (if m3_half d = 0 then 1 else 0 :: int)" and "t = (if m3_half d = 0 then 0 else 0x20 :: u8)"
  have s: "s = 0 \<or> s = 32" by (simp add: s_def m3_half_def)
  let ?d = "d\<lparr>lastOutputPacket := l\<rparr>" and ?v = "\<lambda>i. m3_code fdm d (s + i)"
  have len: "led_lengths ?d" using assms(1) by (simp add: led_lengths_def)
  have f: "m3_value ?d = m3_value d" "m3_code fdm ?d = m3_code fdm d" "changes ?d = changes d"
    by (simp_all add: fun_eq_iff m3_value_def m3_code_def next_power_def changes_def)
  let ?b = "t # concat (map (\<lambda>j. enc12 (?v (2 * j)) (?v (2 * j + 1))) [0..<16]) @ replicate 15 0"
  have c: "cfor [s..<s + 32] (m3_power fdm s) (?d, t # replicate 63 0) = Some (fold m3_take [s..<s + 32] ?d, ?b)"
    using m3_power_loop [OF len s, of 16 fdm t] by (simp add: f del: upt_rec_numeral)
  have z: "cwrite (replicate 64 0) 0 x = Some (x # replicate 63 (0::u8))" for x
    using cwrite_0 [of "replicate 64 0" x] by simp
  have p: "m3_packet fdm d (replicate 64 0) = Some (?b, fold m3_take [s..<s + 32] ?d)"
  proof (cases "s = 0")
    case True
    then have h: "lastOutputPacket d = 0 \<and> m3_lower d \<or> lastOutputPacket d \<noteq> 0 \<and> \<not> m3_upper d" "m3_half d = 0"
      by (auto simp: s_def m3_half_def split: if_splits)
    have "l = 1" "t = 0" using h(2) by (simp_all add: l_def t_def)
    with c True h(1) assms(2) show ?thesis
      unfolding m3_packet_def by (simp only: z if_True if_False not_True_eq_False bind.simps prod.case split_conv add_0 simp_thms)
  next
    case False
    then have h: "\<not> (lastOutputPacket d = 0 \<and> m3_lower d \<or> lastOutputPacket d \<noteq> 0 \<and> \<not> m3_upper d)" "m3_half d = 32" "s = 32"
      by (auto simp: s_def m3_half_def split: if_splits)
    have n: "[32..<64] = [32..<32 + 32 :: nat]" by (rule arg_cong2 [where f = upt]) simp_all
    have "l = 0" "t = 0x20" using h(2) by (simp_all add: l_def t_def)
    with c h assms(2) show ?thesis
      unfolding m3_packet_def n by (simp only: z if_True if_False not_True_eq_False bind.simps prod.case split_conv simp_thms)
  qed
  have "s + 32 \<le> 64" using s by auto
  define D where "D = fold m3_take [s..<s + 32] ?d"
  note F = fold_m3_take [OF len \<open>s + 32 \<le> 64\<close>, folded D_def]
  have u: "int (unpack12 ?b 1 i) = ?v i" if "i < 32" for i
    by (rule m3_unpack [OF that]) (use assms(3) s in auto)
  have w: "LED_Power D ! (s + i) = m3_value d (s + i)" if "i < 32" for i
    using F that s by (auto simp: f)
  have lb: "length ?b = 64" by (simp only: list.size length_append enc12_lengths length_replicate)
  have ch: "changes D = changes d - {s..<s + 32}" using F by (simp only: f)
  have rq: "changeRequests D = of_nat (card (changes D))" if "changeRequests d = of_nat (card (changes d))"
    using F that by (simp add: f)
  have ph: "phid D = phid d" using F by simp
  have hd: "?b ! 0 = (if s = 0 then 0 else 0x20)" by (simp add: t_def s_def)
  show ?thesis
    unfolding s_def [symmetric]
    by (rule exI [of _ ?b], rule exI [of _ D]) (intro conjI allI impI; (rule p [folded D_def] lb hd ch ph rq u w; assumption?))
qed


subsection \<open>The powers that the device reported\<close>

lemma unpack12_bound: "unpack12 p off i < 4096"
proof -
  have n: "unat (x AND 0x0f) < 16" "unat (drop_bit 4 (x AND 0xf0)) < 16" for x :: u8
  proof -
    have m: "(0x0f :: u8) = mask 4" "(0xf0 :: u8) = push_bit 4 (mask 4)" by (simp_all add: mask_eq_exp_minus_1)
    have "x AND 0x0f = take_bit 4 x" unfolding m take_bit_eq_mask ..
    moreover have "drop_bit 4 (x AND 0xf0) = take_bit 4 (drop_bit 4 x)"
      unfolding m by (rule bit_eqI) (auto simp: bit_simps)
    ultimately show "unat (x AND 0x0f) < 16" "unat (drop_bit 4 (x AND 0xf0)) < 16"
      by (simp_all add: unsigned_take_bit_eq take_bit_eq_mod unat_mod)
  qed
  have b: "unat x < 256" for x :: u8 by (rule order_less_le_trans [OF unsigned_less]) simp
  have "unat x + 256 * unat (y AND 0x0f) < 4096" "unat (drop_bit 4 (x AND 0xf0)) + 16 * unat y < 4096" for x y :: u8
    using b [of x] n(1) [of y] b [of y] n(2) [of x] by linarith+
  then show ?thesis by (auto simp: unpack12_def Let_def)
qed

text \<open>Re-encoding what was read: the divisors 4097 and 4095 differ.\<close>

definition redrift :: "int \<Rightarrow> int" where
  "redrift c = c - (if c \<le> 1024 then 0 else if c \<le> 3072 then 1 else 2)"

lemma re_encode:
  assumes "0 \<le> c" and "c < 4096"
  shows "c_round (fdm_exact (fdm_exact (of_int c) 4097 100) 100 4095) = redrift c"
proof -
  have "\<lfloor>of_int c / 4097 * 4095 + 1 / 2 :: rat\<rfloor> = redrift c"
    unfolding floor_eq_iff redrift_def using assms by (auto simp: field_simps simp flip: of_int_le_iff of_int_less_iff)
  then show ?thesis using assms(1) by (simp add: fdm_exact_def c_round_def)
qed


text \<open>What the three packets of the attachment leave.\<close>

definition same_outputs :: "led \<Rightarrow> led \<Rightarrow> bool" where
  "same_outputs d d' \<longleftrightarrow> phid d' = phid d \<and> numLEDs d' = numLEDs d \<and> LED_Power d' = LED_Power d \<and> nextLED_Power d' = nextLED_Power d \<and>
     lastLED_Power d' = lastLED_Power d \<and> changedLED_Power d' = changedLED_Power d \<and> changeRequests d' = changeRequests d \<and>
     controlPacketWaiting d' = controlPacketWaiting d \<and> lastOutputPacket d' = lastOutputPacket d"

lemma same_outputs_trans: "same_outputs a b \<Longrightarrow> same_outputs b c \<Longrightarrow> same_outputs a c"
  by (simp add: same_outputs_def)

lemma warn_loop_same: "same_outputs d (fst (warn_loop b is d))"
proof (induction "is" arbitrary: d)
  case (Cons i "is")
  then show ?case by (simp add: same_outputs_def split_beta)
qed (simp add: same_outputs_def)

lemma tsd_loop_same: "same_outputs d (fst (tsd_loop b is d))"
proof (induction "is" arbitrary: d)
  case (Cons i "is")
  then show ?case by (simp add: same_outputs_def split_beta)
qed (simp add: same_outputs_def)

lemma loops_echo: "LED_PowerEcho (fst (warn_loop b is d)) = LED_PowerEcho d" "LED_PowerEcho (fst (tsd_loop b is d)) = LED_PowerEcho d"
  by (induction "is" arbitrary: d) (simp_all add: split_beta)

lemma m3_misc_same: "same_outputs d (fst (m3_misc_packet fdm d p))" "LED_PowerEcho (fst (m3_misc_packet fdm d p)) = LED_PowerEcho d"
proof -
  define d0 where "d0 = (if p ! 0 AND 0x01 \<noteq> 0 then d\<lparr>PGoodErrState := 0, powerGoodEcho := 1\<rparr> else d\<lparr>powerGoodEcho := 0\<rparr>)
    \<lparr>voltageEcho := voltage_echo (p ! 0)\<rparr>"
  obtain d1 es1 d2 es2 d3 es3 where c: "power_check d0 = (d1, es1)" "warn_loop (p ! 1) [0, 1, 2, 3] d1 = (d2, es2)"
    "tsd_loop (p ! 1) [0, 1, 2, 3] d2 = (d3, es3)" by (metis surj_pair)
  have "same_outputs d d1"
    using arg_cong [OF c(1), of fst] by (auto simp: same_outputs_def power_check_def d0_def)
  moreover have "same_outputs d1 d2" "same_outputs d2 d3"
    using warn_loop_same [of d1] tsd_loop_same [of d2] c(2,3) by (metis fst_conv)+
  ultimately have s: "same_outputs d d3" using same_outputs_trans by blast
  have e: "LED_PowerEcho d3 = LED_PowerEcho d"
  proof -
    have "LED_PowerEcho d1 = LED_PowerEcho d" using arg_cong [OF c(1), of fst] by (auto simp: power_check_def d0_def)
    moreover have "LED_PowerEcho d2 = LED_PowerEcho d1" "LED_PowerEcho d3 = LED_PowerEcho d2"
      using loops_echo(1) [of "p ! 1" "[0, 1, 2, 3]" d1] loops_echo(2) [of "p ! 1" "[0, 1, 2, 3]" d2] unfolding c by simp_all
    ultimately show ?thesis by simp
  qed
  have "fst (m3_misc_packet fdm d p) =
      d3\<lparr>LED_CurrentLimitEcho := map (\<lambda>i. fdm (of_nat (unpack6 p 2 i)) 63 LED64_M3_CURRENTLIMIT) [0..<64]\<rparr>"
    unfolding m3_misc_packet_def Let_def d0_def [symmetric] c prod.case fst_conv ..
  then show "same_outputs d (fst (m3_misc_packet fdm d p))" "LED_PowerEcho (fst (m3_misc_packet fdm d p)) = LED_PowerEcho d"
    using s e by (simp_all add: same_outputs_def del: upt_rec_numeral)
qed

text \<open>The three reports.\<close>

definition m3_reports :: "u8 list \<Rightarrow> u8 list \<Rightarrow> u8 list \<Rightarrow> bool" where
  "m3_reports misc low high \<longleftrightarrow> 57 \<le> length misc \<and> 57 \<le> length low \<and> 57 \<le> length high \<and>
     misc ! 0 AND 0x60 = 0x40 \<and> low ! 0 AND 0x60 = 0x00 \<and> high ! 0 AND 0x60 = 0x20"

definition reported :: "u8 list \<Rightarrow> u8 list \<Rightarrow> nat \<Rightarrow> int" where
  "reported low high i = int (if i < 32 then unpack12 low 9 i else unpack12 high 9 (i - 32))"

text \<open>A record while the reports arrive: what it knows of the powers after the reports \<open>ps\<close>.\<close>

definition m3_heard :: "(dbl \<Rightarrow> dbl \<Rightarrow> dbl \<Rightarrow> dbl) \<Rightarrow> u8 list \<Rightarrow> u8 list \<Rightarrow> u8 list set \<Rightarrow> led \<Rightarrow> led \<Rightarrow> bool" where
  "m3_heard fdm low high ps d e \<longleftrightarrow> same_outputs d e \<and> length (LED_PowerEcho e) = 64 \<and>
     (low \<in> ps \<longrightarrow> (\<forall>i < 32. LED_PowerEcho e ! i = fdm (of_int (reported low high i)) 4097 100)) \<and>
     (high \<in> ps \<longrightarrow> (\<forall>i. 32 \<le> i \<and> i < 64 \<longrightarrow> LED_PowerEcho e ! i = fdm (of_int (reported low high i)) 4097 100))"

lemma m3_report:
  assumes "deviceUID (phid e) = PHIDUID_LED_64_ADV_M3" and "m3_reports misc low high"
  shows "CPhidgetLED_dataInput fdm e misc (int (length misc)) = (case m3_misc_packet fdm e misc of (e, es) \<Rightarrow> Some (EPHIDGET_OK, e, es))"
    "CPhidgetLED_dataInput fdm e low (int (length low)) = Some (EPHIDGET_OK, m3_low_packet fdm e low, [])"
    "CPhidgetLED_dataInput fdm e high (int (length high)) = Some (EPHIDGET_OK, m3_high_packet fdm e high, [])"
proof -
  have ne: "misc \<noteq> []" "low \<noteq> []" "high \<noteq> []" and l: "\<not> length misc < 57" "\<not> length low < 57" "\<not> length high < 57" and
    b: "misc ! 0 AND 0x60 = 0x40" "low ! 0 AND 0x60 = 0x00" "high ! 0 AND 0x60 = 0x20"
    using assms(2) by (auto simp: m3_reports_def)
  have c: "cread misc 0 = Some (misc ! 0)" "cread low 0 = Some (low ! 0)" "cread high 0 = Some (high ! 0)"
    using ne by (simp_all add: cread_def)
  show "CPhidgetLED_dataInput fdm e misc (int (length misc)) = (case m3_misc_packet fdm e misc of (e, es) \<Rightarrow> Some (EPHIDGET_OK, e, es))"
    "CPhidgetLED_dataInput fdm e low (int (length low)) = Some (EPHIDGET_OK, m3_low_packet fdm e low, [])"
    "CPhidgetLED_dataInput fdm e high (int (length high)) = Some (EPHIDGET_OK, m3_high_packet fdm e high, [])"
    using assms(1) l b c by (simp_all add: CPhidgetLED_dataInput_def uid_defs)
qed

lemma m3_reports_differ: "m3_reports misc low high \<Longrightarrow> misc \<noteq> low \<and> misc \<noteq> high \<and> low \<noteq> high"
  by (auto simp: m3_reports_def)

lemma m3_heard_step:
  assumes "m3_heard fdm low high ps d e" and "deviceUID (phid d) = PHIDUID_LED_64_ADV_M3" and "m3_reports misc low high"
    and "p \<in> {misc, low, high}"
  shows "\<exists>r e' es. CPhidgetLED_dataInput fdm e p (int (length p)) = Some (r, e', es) \<and> m3_heard fdm low high (insert p ps) d e'"
proof -
  have u: "deviceUID (phid e) = PHIDUID_LED_64_ADV_M3" using assms(1,2) by (simp add: m3_heard_def same_outputs_def)
  note r = m3_report [OF u assms(3), of fdm] and ne = m3_reports_differ [OF assms(3)]
  from assms(4) consider "p = misc" | "p = low" | "p = high" by blast
  then show ?thesis
  proof cases
    case 1
    obtain e' es where m: "m3_misc_packet fdm e misc = (e', es)" by fastforce
    have "same_outputs e e'" "LED_PowerEcho e' = LED_PowerEcho e" using m3_misc_same [where d = e and fdm = fdm and p = misc] unfolding m by simp_all
    then have "m3_heard fdm low high (insert misc ps) d e'"
      using assms(1) ne same_outputs_trans [of d e e'] by (auto simp: m3_heard_def)
    then show ?thesis using 1 m r(1) by simp
  next
    case 2
    have "m3_heard fdm low high (insert low ps) d (m3_low_packet fdm e low)"
      using assms(1) ne by (auto simp: m3_heard_def m3_low_packet_def same_outputs_def nth_append reported_def simp del: upt_rec_numeral)
    then show ?thesis using 2 r(2) by blast
  next
    case 3
    have "m3_heard fdm low high (insert high ps) d (m3_high_packet fdm e high)"
      using assms(1) ne by (auto simp: m3_heard_def m3_high_packet_def same_outputs_def nth_append reported_def simp del: upt_rec_numeral)
    then show ?thesis using 3 r(3) by blast
  qed
qed

lemma m3_heard_all:
  assumes "m3_heard fdm low high S d e" and "deviceUID (phid d) = PHIDUID_LED_64_ADV_M3" and "m3_reports misc low high"
    and "set ps \<subseteq> {misc, low, high}"
  shows "\<exists>e'. cfor ps (\<lambda>p d. do { (r, d, es) \<leftarrow> CPhidgetLED_dataInput fdm d p (int (length p)); Some d }) e = Some e' \<and>
    m3_heard fdm low high (set ps \<union> S) d e'"
  using assms(1,4)
proof (induction ps arbitrary: S e)
  case (Cons p ps)
  then obtain r e1 es where 1: "CPhidgetLED_dataInput fdm e p (int (length p)) = Some (r, e1, es)"
      "m3_heard fdm low high (insert p S) d e1" using m3_heard_step [OF _ assms(2,3), of fdm S e p] by auto
  from Cons.IH [OF 1(2)] Cons.prems(2) 1(1) show ?case by auto
qed simp

lemma m3_attach:
  assumes "led_lengths d" and "length (LED_PowerEcho d) = 64" and "deviceUID (phid d) = PHIDUID_LED_64_ADV_M3"
    and "m3_reports misc low high" and "set ps = {misc, low, high}"
  shows "\<exists>d'. led_attach fdm ps d = Some d' \<and>
    led_lengths d' \<and> phid d' = phid d \<and> changes d' = {} \<and> controlPacketWaiting d' = 0 \<and> lastOutputPacket d' = 0 \<and>
    changeRequests d' = 0 \<and> (\<forall>i < 64. LED_Power d' ! i = fdm (of_int (reported low high i)) 4097 100)"
proof -
  obtain d1 where d1: "led_init d = Some d1" by (cases "led_init d") (use assms(3) in \<open>auto simp: led_init_def Let_def uid_defs\<close>)
  have n: "numLEDs d = 64" using assms(1) by (simp add: led_lengths_def)
  have f: "phid d1 = phid d" "led_lengths d1" "changedLED_Power d1 = replicate 64 0" "changeRequests d1 = 0"
    "controlPacketWaiting d1 = 0" "lastOutputPacket d1 = 0" "length (LED_PowerEcho d1) = 64"
    using d1 assms(1-3) n by (auto simp: led_init_def Let_def led_reset_queue_def fill_to_all led_lengths_def uid_defs)
  have u: "deviceUID (phid d1) = PHIDUID_LED_64_ADV_M3" using f(1) assms(3) by simp
  have "m3_heard fdm low high {} d1 d1" using f(7) by (simp add: m3_heard_def same_outputs_def)
  from m3_heard_all [OF this u assms(4), of ps] obtain e where
    e: "cfor ps (\<lambda>p d. do { (r, d, es) \<leftarrow> CPhidgetLED_dataInput fdm d p (int (length p)); Some d }) d1 = Some e"
      "m3_heard fdm low high {misc, low, high} d1 e" unfolding assms(5) by auto
  have d': "led_attach fdm ps d = Some (led_take_echo e)" unfolding led_attach_def d1 by (simp add: e(1))
  have s: "same_outputs d1 e" using e(2) by (simp add: m3_heard_def)
  have p: "LED_PowerEcho e ! i = fdm (of_int (reported low high i)) 4097 100" if "i < 64" for i
    using e(2) that unfolding m3_heard_def by (simp, cases "i < 32") (simp_all add: not_less)
  have u': "deviceUID (phid e) = PHIDUID_LED_64_ADV_M3" using s u by (simp add: same_outputs_def)
  show ?thesis using d' s f p n u'
    by (intro exI [of _ "led_take_echo e"]) (auto simp: led_take_echo_def Let_def uid_defs same_outputs_def led_lengths_def changes_def simp del: upt_rec_numeral)
qed


lemma reported_bounds: "0 \<le> reported low high i" "reported low high i < 4096"
  using unpack12_bound [of low 9 i] unpack12_bound [of high 9 "i - 32"] by (auto simp: reported_def)

lemma m3_value_reported:
  assumes "LED_Power d ! i = fdm_exact (of_int (reported low high i)) 4097 100" and "changedLED_Power d ! i = 0"
  shows "m3_code fdm_exact d i = redrift (reported low high i)"
proof -
  have "rat_of_int (reported low high i) \<le> of_int 4096" unfolding of_int_le_iff using reported_bounds(2) [of low high i] by simp
  then have "fdm_exact (of_int (reported low high i)) 4097 100 \<le> 100" by (simp add: fdm_exact_def)
  then have "fdm_exact (of_int (reported low high i)) 4097 100 \<noteq> PUNK_DBL" by (auto simp: PUNK_DBL_def)
  then show ?thesis using assms re_encode [OF reported_bounds] by (simp add: m3_code_def m3_value_def next_power_def)
qed

lemma code_range:
  assumes "0 \<le> x" and "x \<le> 100"
  shows "0 \<le> c_round (fdm_exact x 100 4095)" and "c_round (fdm_exact x 100 4095) < 4096"
proof -
  have r: "0 \<le> fdm_exact x 100 4095" "fdm_exact x 100 4095 \<le> 4095" using assms by (simp_all add: fdm_exact_def)
  then show "0 \<le> c_round (fdm_exact x 100 4095)" "c_round (fdm_exact x 100 4095) < 4096"
    by (simp_all add: c_round_def, linarith?)
qed

text \<open>The half of the outputs that LED \<open>j\<close> is in, and the type byte of its packets.\<close>

definition half_of :: "nat \<Rightarrow> nat" where
  "half_of j = (if j < 32 then 0 else 32)"

definition half_type :: "nat \<Rightarrow> u8" where
  "half_type h = (if h = 0 then 0x00 else 0x20)"

lemma m3_drift:
  assumes "led_lengths d0" and "length (LED_PowerEcho d0) = 64" and "deviceUID (phid d0) = PHIDUID_LED_64_ADV_M3"
    and "outputReportByteLength (phid d0) \<le> 64"
    and "m3_reports misc low high" and "set ps = {misc, low, high}" and "led_attach fdm_exact ps d0 = Some d"
    and "led_set r d = Some (Queued d1)" and "h = half_of (nat (fst r))"
  shows "\<exists>buf d2. CPhidgetLED_getPacket fdm_exact d1 (replicate 64 0) 64 = Some (EPHIDGET_OK, buf, d2, False) \<and> buf ! 0 = half_type h \<and>
    int (unpack12 buf 1 (nat (fst r) - h)) = c_round (fdm_exact (snd r) 100 4095) \<and>
    (\<forall>i < 32. h + i \<noteq> nat (fst r) \<longrightarrow> int (unpack12 buf 1 i) = redrift (reported low high (h + i)))"
proof -
  have A: "led_lengths d" "phid d = phid d0" "changes d = {}" "controlPacketWaiting d = 0" "lastOutputPacket d = 0" "changeRequests d = 0"
    "\<And>i. i < 64 \<Longrightarrow> LED_Power d ! i = fdm_exact (of_int (reported low high i)) 4097 100"
    using m3_attach [OF assms(1-3,5,6), of fdm_exact] assms(7) by auto
  note L = led_set_Queued [OF A(1) assms(8)]
  let ?j = "nat (fst r)"
  have c1: "changes d1 = {?j}" using L(4) A(3) by simp
  have n: "numLEDs d1 = 64" using L(3) by (simp add: led_lengths_def)
  have "changedLED_Power d1 ! i = 0" if "i < 64" "i \<noteq> ?j" for i using c1 that by (auto simp: changes_def)
  then have code: "m3_code fdm_exact d1 i = redrift (reported low high i)" if "i < 64" "i \<noteq> ?j" for i
    by (intro m3_value_reported) (use that A(7) L(8) in simp_all)
  have "snd r \<noteq> PUNK_DBL" using L(6) by (auto simp: PUNK_DBL_def)
  then have codej: "m3_code fdm_exact d1 ?j = c_round (fdm_exact (snd r) 100 4095)"
    using L(1,10,11) by (simp add: m3_code_def m3_value_def next_power_def)
  have "0 \<le> m3_code fdm_exact d1 i \<and> m3_code fdm_exact d1 i < 4096" if "i < 64" for i
  proof (cases "i = ?j")
    case True
    then show ?thesis using codej code_range [OF L(5,6)] by simp
  next
    case False
    then show ?thesis using code [OF that False] reported_bounds [of low high i] by (auto simp: redrift_def)
  qed
  then obtain buf d2 where P: "m3_packet fdm_exact d1 (replicate 64 0) = Some (buf, d2)"
    "buf ! 0 = (if m3_half d1 = 0 then 0 else 0x20)" "changes d2 = changes d1 - {m3_half d1..<m3_half d1 + 32}"
    "changeRequests d1 = of_nat (card (changes d1)) \<longrightarrow> changeRequests d2 = of_nat (card (changes d2))"
    "\<forall>i < 32. int (unpack12 buf 1 i) = m3_code fdm_exact d1 (m3_half d1 + i)"
    using m3_packet_outcome [OF L(3), of fdm_exact] L(13) A(4) by auto
  have j: "?j \<in> changes d1" "?j < 64" using c1 by (simp, simp add: L(1))
  have h: "m3_half d1 = h"
  proof (cases "?j < 32")
    case True
    then have "m3_lower d1" using j n unfolding m3_lower_def changes_def by auto
    then show ?thesis using L(14) A(5) True by (simp add: m3_half_def assms(9) half_of_def)
  next
    case False
    have "i = ?j" if "i < 64" "changedLED_Power d1 ! i \<noteq> 0" for i using c1 that by (auto simp: changes_def)
    then have "\<not> m3_lower d1" using False n unfolding m3_lower_def by (auto simp: atLeast0LessThan)
    then show ?thesis using L(14) A(5) False by (simp add: m3_half_def assms(9) half_of_def)
  qed
  have jh: "h \<le> ?j" "?j < h + 32" using j(2) by (auto simp: assms(9) half_of_def)
  have "changes d2 = {}" using P(3) c1 jh unfolding h by simp
  moreover have "changeRequests d1 = of_nat (card (changes d1))" using L(12) A(3,6) by simp
  ultimately have "changeRequests d2 = 0" using P(4) by simp
  then have "CPhidgetLED_getPacket fdm_exact d1 (replicate 64 0) 64 = Some (EPHIDGET_OK, buf, d2, False)"
    using P(1) L(7) A(2) assms(3,4) by (simp add: CPhidgetLED_getPacket_def uid_defs)
  moreover have "int (unpack12 buf 1 i) = redrift (reported low high (h + i))" if "i < 32" "h + i \<noteq> ?j" for i
  proof -
    have "h + i < 64" using that(1) by (simp add: assms(9) half_of_def)
    then show ?thesis using P(5) that code [of "h + i"] unfolding h by simp
  qed
  moreover have "int (unpack12 buf 1 (?j - h)) = c_round (fdm_exact (snd r) 100 4095)"
  proof -
    have "?j - h < 32" "h + (?j - h) = ?j" using jh by simp_all
    then show ?thesis using P(5) codej unfolding h by metis
  qed
  moreover have "buf ! 0 = half_type h" using P(2) unfolding h by (simp add: half_type_def)
  ultimately show ?thesis by blast
qed

text \<open>C31. The packet of an M3 says the powers: its first byte says which half of the outputs it is about (0x00
  the LEDs 0 to 31, 0x20 the LEDs 32 to 63); the device's decoding of the 12-bit fields is the rounded power of each LED
  of this half, the requested one where there is a request; and exactly the requests of this half leave the queue, at
  least one when there are any.\<close>

theorem m3_packet_says_powers:
  assumes "led_lengths d" and "controlPacketWaiting d = 0" and "\<forall>i < 64. 0 \<le> m3_value d i \<and> m3_value d i \<le> 100"
  shows "\<exists>buf d' h. m3_packet fdm_exact d (replicate 64 0) = Some (buf, d') \<and> length buf = 64 \<and>
    (buf ! 0 = 0x00 \<and> h = 0 \<or> buf ! 0 = 0x20 \<and> h = 32) \<and>
    (\<forall>i < 32. int (unpack12 buf 1 i) = c_round (m3_value d (h + i) / 100 * 4095)) \<and>
    changes d' = changes d - {h..<h + 32} \<and> (changes d \<noteq> {} \<longrightarrow> changes d' \<subset> changes d)"
proof -
  have "\<forall>i < 64. 0 \<le> m3_code fdm_exact d i \<and> m3_code fdm_exact d i < 4096"
    using code_range assms(3) by (simp add: m3_code_def)
  from m3_packet_outcome [OF assms(1,2) this] obtain buf d' where
    P: "m3_packet fdm_exact d (replicate 64 0) = Some (buf, d')" "length buf = 64"
    "changes d' = changes d - {m3_half d..<m3_half d + 32}"
    "\<forall>i < 32. int (unpack12 buf 1 i) = m3_code fdm_exact d (m3_half d + i)" "buf ! 0 = (if m3_half d = 0 then 0 else 0x20)" by auto
  have "\<exists>i \<in> changes d. i \<in> {m3_half d..<m3_half d + 32}" if "changes d \<noteq> {}"
  proof -
    have lo: "m3_lower d \<longleftrightarrow> (\<exists>i \<in> changes d. i < 32)" and up: "m3_upper d \<longleftrightarrow> (\<exists>i \<in> changes d. \<not> i < 32)"
      using assms(1) unfolding m3_lower_def m3_upper_def changes_def led_lengths_def by (force, force)
    have b: "i < 64" if "i \<in> changes d" for i using that by (simp add: changes_def)
    have "(m3_half d = 0 \<and> (\<exists>i \<in> changes d. i < 32)) \<or> (m3_half d = 32 \<and> (\<exists>i \<in> changes d. \<not> i < 32))"
      using that unfolding m3_half_def lo up by auto
    then show ?thesis
    proof (elim disjE conjE bexE)
      fix i assume "m3_half d = 0" "i \<in> changes d" "i < 32"
      then show ?thesis by (intro bexI [of _ i]) simp_all
    next
      fix i assume "m3_half d = 32" "i \<in> changes d" "\<not> i < 32"
      then show ?thesis using b [of i] by (intro bexI [of _ i]) simp_all
    qed
  qed
  then have "changes d \<noteq> {} \<longrightarrow> changes d' \<subset> changes d" unfolding P(3) by blast
  moreover have "buf ! 0 = 0x00 \<and> m3_half d = 0 \<or> buf ! 0 = 0x20 \<and> m3_half d = 32"
    unfolding P(5) by (simp add: m3_half_def)
  ultimately show ?thesis using P by (intro exI [of _ buf] exI [of _ d'] exI [of _ "m3_half d"]) (simp add: m3_code_def fdm_exact_def)
qed

text \<open>C39. The powers that an M3 reports are divided by 4097 and re-encoded with 4095: after
  an attachment, in whatever order and however often its three reports arrive, the first change of one LED sends a packet
  that sets it and tells every other LED of its half to dim, by one step when it was brighter than a quarter and by two
  when it was brighter than three quarters.\<close>

theorem m3_dims_on_reattach:
  assumes "led_lengths d0" and "length (LED_PowerEcho d0) = 64" and "deviceUID (phid d0) = PHIDUID_LED_64_ADV_M3"
    and "outputReportByteLength (phid d0) \<le> 64"
    and "m3_reports misc low high" and "set ps = {misc, low, high}" and "led_attach fdm_exact ps d0 = Some d"
    and "led_set r d = Some (Queued d1)" and "h = half_of (nat (fst r))"
  shows "\<exists>buf d2. CPhidgetLED_getPacket fdm_exact d1 (replicate 64 0) 64 = Some (EPHIDGET_OK, buf, d2, False) \<and> buf ! 0 = half_type h \<and>
    int (unpack12 buf 1 (nat (fst r) - h)) = c_round (fdm_exact (snd r) 100 4095) \<and>
    (\<forall>i < 32. h + i \<noteq> nat (fst r) \<longrightarrow> int (unpack12 buf 1 i) =
       reported low high (h + i) - (if reported low high (h + i) \<le> 1024 then 0 else if reported low high (h + i) \<le> 3072 then 1 else 2))"
  using m3_drift [OF assms] by (simp add: redrift_def)

definition demo_m3 :: led where
  "demo_m3 = demo_led\<lparr>phid := (phid demo_led)\<lparr>deviceUID := PHIDUID_LED_64_ADV_M3, outputReportByteLength := 64\<rparr>\<rparr>"

theorem m3_packet_says_powers_witness:
  "\<exists>buf d'. m3_packet fdm_exact demo_m3 (replicate 64 0) = Some (buf, d') \<and> (\<forall>i < 32. int (unpack12 buf 1 i) = 0)"
proof -
  have v: "m3_value demo_m3 i = 0" if "i < 64" for i using that by (simp add: m3_value_def next_power_def demo_m3_def demo_led_def)
  have "led_lengths demo_m3" "controlPacketWaiting demo_m3 = 0" "\<forall>i < 64. 0 \<le> m3_value demo_m3 i \<and> m3_value demo_m3 i \<le> 100"
    using v by (simp_all add: led_lengths_def demo_m3_def demo_led_def)
  from m3_packet_says_powers [OF this] obtain buf d' h where P: "m3_packet fdm_exact demo_m3 (replicate 64 0) = Some (buf, d')"
    "h = 0 \<or> h = 32" "\<forall>i < 32. int (unpack12 buf 1 i) = c_round (m3_value demo_m3 (h + i) / 100 * 4095)" by blast
  have "c_round (m3_value demo_m3 (h + i) / 100 * 4095) = 0" if "i < 32" for i
  proof -
    have "h + i < 64" using that P(2) by auto
    then show ?thesis using v c_round_of_nat [of 0] by simp
  qed
  then show ?thesis using P by auto
qed

theorem m3_dims_on_reattach_witness:
  "\<exists>d d1 buf d2. led_attach fdm_exact [0x20 # replicate 63 255, 0x40 # replicate 63 0, 0 # replicate 63 255] demo_m3 = Some d \<and>
     led_set (35, 50) d = Some (Queued d1) \<and>
     CPhidgetLED_getPacket fdm_exact d1 (replicate 64 0) 64 = Some (EPHIDGET_OK, buf, d2, False) \<and>
     reported (0 # replicate 63 255) (0x20 # replicate 63 255) 32 = 4095 \<and> unpack12 buf 1 0 = 4093 \<and> buf ! 0 = 0x20"
proof -
  let ?m = "0x40 # replicate 63 0 :: u8 list" and ?l = "0 # replicate 63 255 :: u8 list" and ?h = "0x20 # replicate 63 255 :: u8 list"
  let ?ps = "[?h, ?m, ?l]"
  have h: "led_lengths demo_m3" "length (LED_PowerEcho demo_m3) = 64" "deviceUID (phid demo_m3) = PHIDUID_LED_64_ADV_M3"
    "outputReportByteLength (phid demo_m3) \<le> 64"
    by (simp_all add: led_lengths_def demo_m3_def demo_led_def)
  have r: "m3_reports ?m ?l ?h" by (simp add: m3_reports_def)
  have s: "set ?ps = {?m, ?l, ?h}" by (simp only: list.set) blast
  obtain d where d: "led_attach fdm_exact ?ps demo_m3 = Some d" "led_lengths d" "phid d = phid demo_m3" "changes d = {}"
    "\<forall>i < 64. LED_Power d ! i = fdm_exact (of_int (reported ?l ?h i)) 4097 100"
    using m3_attach [OF h(1-3) r s, of fdm_exact] by blast
  have u: "reported ?l ?h 35 = 4095" "reported ?l ?h 32 = 4095" by (simp_all add: reported_def unpack12_def)
  then have "LED_Power d ! 35 = fdm_exact 4095 4097 100" using d(5) by simp
  then have "LED_Power d ! 35 \<noteq> 50" by (simp add: fdm_exact_def)
  moreover have "changedLED_Power d ! 35 = 0" using d(4) by (auto simp: changes_def)
  moreover have "led_checks d = EPHIDGET_OK" using demo_led_good(3) d(3) by (simp add: led_checks_def demo_m3_def split: if_splits)
  ultimately obtain d1 where d1: "led_set (35, 50) d = Some (Queued d1)"
    using d(2) by (auto simp: led_set_def setBrightness_checks_def led_index_ok_def led_offer_def led_lengths_def)
  have half: "32 = half_of (nat (fst (35 :: int, 50 :: dbl)))" by (simp add: half_of_def)
  from m3_dims_on_reattach [OF h r s d(1) d1 half] obtain buf d2 where
    P: "CPhidgetLED_getPacket fdm_exact d1 (replicate 64 0) 64 = Some (EPHIDGET_OK, buf, d2, False)" "buf ! 0 = half_type 32"
    "\<forall>i < 32. 32 + i \<noteq> 35 \<longrightarrow> int (unpack12 buf 1 i) =
      reported ?l ?h (32 + i) - (if reported ?l ?h (32 + i) \<le> 1024 then 0 else if reported ?l ?h (32 + i) \<le> 3072 then 1 else 2)"
    by auto
  have "int (unpack12 buf 1 0) = 4093" using P(3) [rule_format, of 0] u(2) by simp
  then have "unpack12 buf 1 0 = 4093" by simp
  moreover have "buf ! 0 = 0x20" using P(2) by (simp add: half_type_def)
  ultimately show ?thesis using d(1) d1 P(1) u(2) by blast
qed

end
