(* ===== verification/Ir.thy ===== *)
theory Ir
  imports Led "HOL-Library.Signed_Division"
begin

text \<open>
  The infrared device (\<^verbatim>\<open>cphidgetir.c\<close>), transmitting side: the description of a
  code, the device record and its initialisation, the conversion of a code to a list of pulse and
  space times and to the bytes of the wire format, the packets, and the three transmit functions.

  A C \<^verbatim>\<open>int\<close> is an integer; where user data enters a sum the result is checked (\<open>ck\<close>), and
  \<open>None\<close> is signed overflow or an access outside an array.  A result \<open>Some (Inl e)\<close> is an early return
  of \<open>e\<close>.
\<close>

subsection \<open>Constants and codes\<close>

definition PHIDCLASS_IR :: int where "PHIDCLASS_IR = 19"
definition PHIDID_IR :: int where "PHIDID_IR = 0x4D"

definition IR_MAX_CODE_BIT_COUNT :: int where "IR_MAX_CODE_BIT_COUNT = 128"
definition IR_MAX_CODE_DATA_LENGTH :: nat where "IR_MAX_CODE_DATA_LENGTH = 16"
definition IR_MAX_REPEAT_LENGTH :: nat where "IR_MAX_REPEAT_LENGTH = 26"
definition IR_MAX_DATA_PER_PACKET :: nat where "IR_MAX_DATA_PER_PACKET = 31"
definition IR_DATA_ARRAY_SIZE :: nat where "IR_DATA_ARRAY_SIZE = 2048"
definition IR_MAX_DATA_us :: int where "IR_MAX_DATA_us = 327670"
definition IR_MAX_GAP_LENGTH :: int where "IR_MAX_GAP_LENGTH = 100000"
definition IR_MIN_GAP_LENGTH :: int where "IR_MIN_GAP_LENGTH = 20000"
definition IR_DEFINEDATA_PACKET :: u8 where "IR_DEFINEDATA_PACKET = 0"
definition IR_STOP_RX_WHILE_TX_FLAG :: u8 where "IR_STOP_RX_WHILE_TX_FLAG = 1"

lemmas ir_sizes = IR_MAX_CODE_BIT_COUNT_def IR_MAX_CODE_DATA_LENGTH_def IR_MAX_REPEAT_LENGTH_def
  IR_MAX_DATA_PER_PACKET_def IR_DATA_ARRAY_SIZE_def

lemmas ir_times = IR_MAX_DATA_us_def IR_MAX_GAP_LENGTH_def IR_MIN_GAP_LENGTH_def

text \<open>\<^verbatim>\<open>CPhidgetIR_Encoding\<close> and \<^verbatim>\<open>CPhidgetIR_Length\<close>, with the value 0 of a zeroed
  structure; every other value is treated as \<^verbatim>\<open>UNKNOWN\<close> is.\<close>

datatype ir_encoding = PHIDGET_IR_ENCODING_UNSET | PHIDGET_IR_ENCODING_UNKNOWN | PHIDGET_IR_ENCODING_SPACE
  | PHIDGET_IR_ENCODING_PULSE | PHIDGET_IR_ENCODING_BIPHASE | PHIDGET_IR_ENCODING_RC5 | PHIDGET_IR_ENCODING_RC6

datatype ir_length = PHIDGET_IR_LENGTH_UNSET | PHIDGET_IR_LENGTH_UNKNOWN | PHIDGET_IR_LENGTH_CONSTANT
  | PHIDGET_IR_LENGTH_VARIABLE

text \<open>\<^verbatim>\<open>struct _CPhidgetIR_CodeInfo\<close>; the arrays of two times are pairs, pulse first.\<close>

record code_info =
  bitCount :: int
  encoding :: ir_encoding
  length_kind :: ir_length
  gap :: int
  trail :: int
  header :: "int \<times> int"
  one_time :: "int \<times> int"
  zero_time :: "int \<times> int"
  repeat_code :: "int list"
  min_repeat :: int
  toggle_mask :: "u8 list"
  carrierFrequency :: int
  dutyCycle :: int

definition code_info_zero :: code_info where
  "code_info_zero = \<lparr>bitCount = 0, encoding = PHIDGET_IR_ENCODING_UNSET, length_kind = PHIDGET_IR_LENGTH_UNSET,
     gap = 0, trail = 0, header = (0, 0), one_time = (0, 0), zero_time = (0, 0),
     repeat_code = replicate IR_MAX_REPEAT_LENGTH 0, min_repeat = 0,
     toggle_mask = replicate IR_MAX_CODE_DATA_LENGTH 0, carrierFrequency = 0, dutyCycle = 0\<rparr>"

subsection \<open>The device\<close>

text \<open>\<^verbatim>\<open>struct _CPhidgetIR\<close>.  The four pointers are only ever advanced under the mask
  \<^verbatim>\<open>0x7ff\<close>, so they are 11-bit words.\<close>

type_synonym ring_ptr = "11 word"

record ir =
  dev :: cphidget
  dataBuffer :: "int list"
  dataBufferNormalized :: "int list"
  dataReadPtr :: ring_ptr
  dataWritePtr :: ring_ptr
  userReadPtr :: ring_ptr
  learnReadPtr :: ring_ptr
  polarity :: u8
  lastCodeKnown :: bool
  lastCode :: "u8 list"
  lastCodeInfo :: code_info
  lastRepeat :: int
  lastGap :: int
  lastLearnedCodeKnown :: bool
  lastLearnedCode :: "u8 list"
  lastLearnedCodeInfo :: code_info
  lastSentCode :: "u8 list"
  lastSentCodeInfo :: code_info
  lastDataTime :: rat
  delayCode :: bool
  outbuf :: packet_buf

definition ir_reset :: "ir \<Rightarrow> ir" where
  "ir_reset d = d\<lparr>polarity := 2, lastCodeKnown := False, lastRepeat := PUNK_BOOL, lastLearnedCodeKnown := False,
     lastGap := PUNK_BOOL, lastCodeInfo := code_info_zero, lastLearnedCodeInfo := code_info_zero,
     dataReadPtr := 0, dataWritePtr := 0, userReadPtr := 0, learnReadPtr := 0\<rparr>"

definition CPhidgetIR_clearVars :: "ir \<Rightarrow> ephidget \<times> ir" where
  "CPhidgetIR_clearVars d = (EPHIDGET_OK, ir_reset d)"

text \<open>\<open>now\<close> is the time of day in seconds.\<close>

definition CPhidgetIR_initAfterOpen :: "rat \<Rightarrow> ir \<Rightarrow> ephidget \<times> ir" where
  "CPhidgetIR_initAfterOpen now d =
     (EPHIDGET_OK, (ir_reset (d\<lparr>outbuf := (outbuf d)\<lparr>outputPacketLen := 0\<rparr>\<rparr>))\<lparr>delayCode := True, lastDataTime := now\<rparr>)"

definition ir_checks :: "ir \<Rightarrow> ephidget" where
  "ir_checks d = (if deviceID (dev d) \<noteq> PHIDCLASS_IR then EPHIDGET_WRONGDEVICE
     else if \<not> is_set (dev d) PHIDGET_ATTACHED_FLAG then EPHIDGET_NOTATTACHED else EPHIDGET_OK)"

subsection \<open>Times as bytes\<close>

definition int_ok :: "int \<Rightarrow> bool" where
  "int_ok x \<longleftrightarrow> - (2 ^ 31) \<le> x \<and> x < 2 ^ 31"

definition ck :: "int \<Rightarrow> int option" where
  "ck x = (if int_ok x then Some x else None)"

text \<open>Sequencing of steps that can return early.\<close>

type_synonym 'a ret = "(ephidget + 'a) option"

definition ret_bind :: "'a ret \<Rightarrow> ('a \<Rightarrow> 'b ret) \<Rightarrow> 'b ret" where
  "ret_bind m f = (case m of None \<Rightarrow> None | Some (Inl e) \<Rightarrow> Some (Inl e) | Some (Inr a) \<Rightarrow> f a)"

fun ret_for :: "'i list \<Rightarrow> ('i \<Rightarrow> 's \<Rightarrow> 's ret) \<Rightarrow> 's \<Rightarrow> 's ret" where
  "ret_for [] f s = Some (Inr s)"
| "ret_for (i # is) f s = ret_bind (f i s) (ret_for is f)"

text \<open>The array \<^verbatim>\<open>rawData[IR_DATA_ARRAY_SIZE]\<close> up to the index \<^verbatim>\<open>i\<close>, and
  \<^verbatim>\<open>*time\<close>.\<close>

type_synonym raw = "int list \<times> int"

definition raw_push :: "int list \<Rightarrow> int \<Rightarrow> int list option" where
  "raw_push xs x = (if length xs < IR_DATA_ARRAY_SIZE then Some (xs @ [x]) else None)"

text \<open>\<^verbatim>\<open>TIME_TO_PACKET\<close>: \<open>len\<close> is the caller's length of the array, \<open>us\<close> the value
  of the macro's last argument; rounding the quotient of two integers changes nothing.\<close>

definition TIME_TO_PACKET :: "int \<Rightarrow> int option \<Rightarrow> raw \<Rightarrow> raw ret" where
  "TIME_TO_PACKET len us s = (case s of (xs, time) \<Rightarrow>
     if int (length xs) + 2 \<ge> len then Some (Inl EPHIDGET_NOMEMORY)
     else do {
       us \<leftarrow> us;
       if us > 327670 then Some (Inl EPHIDGET_INVALIDARG)
       else do {
         let v = us sdiv 10;
         xs \<leftarrow> (if us > 1270 then raw_push xs (drop_bit 8 v OR 0x80) else Some xs);
         xs \<leftarrow> raw_push xs (v AND 0xff);
         time \<leftarrow> ck (time + us);
         Some (Inr (xs, time)) } })"

definition RawTimeDataToRawData :: "int list \<Rightarrow> int \<Rightarrow> int \<Rightarrow> (ephidget + int list \<times> int) option" where
  "RawTimeDataToRawData rawTimeData len time =
     ret_for rawTimeData (\<lambda>us. TIME_TO_PACKET len (Some us)) ([], time)"

subsection \<open>Codes as times\<close>

text \<open>\<^verbatim>\<open>code[k/8] & (1 << (j % 8))\<close>\<close>

definition code_bit :: "u8 list \<Rightarrow> nat \<Rightarrow> nat \<Rightarrow> bool option" where
  "code_bit code k j = do { b \<leftarrow> cread code (k div 8); Some (bit b (j mod 8)) }"

definition put_pair :: "int \<Rightarrow> int \<times> int \<Rightarrow> raw \<Rightarrow> raw ret" where
  "put_pair len p s = ret_bind (TIME_TO_PACKET len (Some (fst p)) s) (TIME_TO_PACKET len (Some (snd p)))"

text \<open>The offset of the first bit: \<^verbatim>\<open>(8 - (bitCount % 8)) % 8\<close>.\<close>

definition first_bit :: "int \<Rightarrow> nat" where
  "first_bit n = nat ((8 - n smod 8) smod 8)"

definition put_bits :: "int \<Rightarrow> u8 list \<Rightarrow> code_info \<Rightarrow> raw \<Rightarrow> raw ret" where
  "put_bits len code ci = ret_for [0..<nat (bitCount ci)] (\<lambda>m s. do {
     b \<leftarrow> code_bit code (first_bit (bitCount ci) + m) (nat (bitCount ci) - 1 - m);
     put_pair len (if b then one_time ci else zero_time ci) s })"

text \<open>The removal of the last space of a pulse code: the index and the time after it.\<close>

definition drop_last_space :: "u8 list \<Rightarrow> code_info \<Rightarrow> raw \<Rightarrow> (int \<times> int) option" where
  "drop_last_space code ci s = (case s of (xs, time) \<Rightarrow> do {
     b \<leftarrow> cread code 0;
     let sp = (if bit b 0 then snd (one_time ci) else snd (zero_time ci));
     time \<leftarrow> ck (time - sp);
     Some (int (length xs) - (if sp > 1270 then 2 else 1), time) })"

text \<open>One round of the loop over the later bits of a bi-phase code: the second half of the last bit
  and the first half of this one; \<open>bitno\<close> is the number of this bit.\<close>

definition put_halves :: "int \<Rightarrow> code_info \<Rightarrow> nat \<Rightarrow> bool \<Rightarrow> bool \<Rightarrow> raw \<Rightarrow> raw ret" where
  "put_halves len ci bitno lastbit b s =
     (let rc6 = (encoding ci = PHIDGET_IR_ENCODING_RC6);
          half2 = (if lastbit then snd (one_time ci) else snd (zero_time ci));
          half1 = (if b then fst (one_time ci) else fst (zero_time ci));
          twice = (\<lambda>x. ck (x * 2));
          plus = (\<lambda>a b. do { a \<leftarrow> a; b \<leftarrow> b; ck (a + b) }) in
      if b = lastbit then
        ret_bind (TIME_TO_PACKET len (if rc6 \<and> bitno = 5 then twice half2 else Some half2) s)
          (TIME_TO_PACKET len (if rc6 \<and> bitno = 4 then twice half1 else Some half1))
      else
        TIME_TO_PACKET len
          (if rc6 \<and> bitno = 4 then plus (Some half2) (twice half1)
           else if rc6 \<and> bitno = 5 then plus (twice half2) (Some half1)
           else plus (Some half2) (Some half1)) s)"

definition put_biphase :: "int \<Rightarrow> u8 list \<Rightarrow> code_info \<Rightarrow> raw \<Rightarrow> raw ret" where
  "put_biphase len code ci s =
     (let n = bitCount ci; rc6 = (encoding ci = PHIDGET_IR_ENCODING_RC6); k0 = first_bit n in
      if (n - 1) smod 8 < 0 then None
      else do {
        b0 \<leftarrow> code_bit code k0 (nat ((n - 1) smod 8));
        ret_bind
          (ret_bind
            (if b0 then if rc6 then TIME_TO_PACKET len (Some (fst (one_time ci))) s else Some (Inr s)
             else if rc6 then Some (Inr s) else TIME_TO_PACKET len (Some (fst (zero_time ci))) s)
            (\<lambda>s. ret_for [1..<nat n] (\<lambda>m (s, lastbit). do {
               b \<leftarrow> code_bit code (k0 + m) (nat n - 1 - m);
               ret_bind (put_halves len ci m lastbit b s) (\<lambda>s. Some (Inr (s, b))) }) (s, b0)))
          (\<lambda>(s, lastbit).
            if lastbit \<and> \<not> rc6 then TIME_TO_PACKET len (Some (snd (one_time ci))) s
            else if \<not> lastbit \<and> rc6 then TIME_TO_PACKET len (Some (snd (zero_time ci))) s
            else Some (Inr s)) })"

text \<open>The special repeat code: times up to a zero; the array has 26 elements.\<close>

fun put_repeat :: "int \<Rightarrow> int list \<Rightarrow> raw \<Rightarrow> raw ret" where
  "put_repeat len [] s = None"
| "put_repeat len (t # ts) s = (if t = 0 then Some (Inr s)
     else if int (length (fst s)) \<ge> len then Some (Inl EPHIDGET_NOMEMORY)
     else ret_bind (TIME_TO_PACKET len (Some t) s) (put_repeat len ts))"

text \<open>The data, \<^verbatim>\<open>*rawDataLength\<close> and \<^verbatim>\<open>*time\<close>.\<close>

definition codeInfoToRawData :: "u8 list \<Rightarrow> code_info \<Rightarrow> int \<Rightarrow> bool \<Rightarrow> (ephidget + int list \<times> int \<times> int) option" where
  "codeInfoToRawData code ci len rep =
     (let whole = (\<lambda>(xs, time). Some (Inr (xs, int (length xs), time))) in
      if rep \<and> repeat_code ci ! 0 \<noteq> 0 then ret_bind (put_repeat len (repeat_code ci) ([], 0)) whole
      else ret_bind (if fst (header ci) \<noteq> 0 then put_pair len (header ci) ([], 0) else Some (Inr ([], 0))) (\<lambda>s.
        case encoding ci of
          PHIDGET_IR_ENCODING_SPACE \<Rightarrow>
            ret_bind (ret_bind (put_bits len code ci s) (TIME_TO_PACKET len (Some (trail ci)))) whole
        | PHIDGET_IR_ENCODING_PULSE \<Rightarrow>
            ret_bind (put_bits len code ci s) (\<lambda>s. do {
              (i, time) \<leftarrow> drop_last_space code ci s;
              Some (Inr (take (nat i) (fst s), i, time)) })
        | PHIDGET_IR_ENCODING_BIPHASE \<Rightarrow> ret_bind (put_biphase len code ci s) whole
        | PHIDGET_IR_ENCODING_RC5 \<Rightarrow> ret_bind (put_biphase len code ci s) whole
        | PHIDGET_IR_ENCODING_RC6 \<Rightarrow> ret_bind (put_biphase len code ci s) whole
        | _ \<Rightarrow> Some (Inl EPHIDGET_INVALIDARG)))"

subsection \<open>Packets\<close>

text \<open>\<^verbatim>\<open>sendRAWData\<close> with \<^verbatim>\<open>CPhidgetIR_sendpacket\<close> as an argument, on a state of the
  caller.  \<open>fdiv carrier duty\<close> is the floating-point computation of the bytes 3 and 4 before they are
  rounded, \<open>stack\<close> the two bytes of the local buffer that are never set.\<close>

fun send_data :: "('w \<Rightarrow> u8 list \<Rightarrow> 'w \<times> ephidget) \<Rightarrow> u8 list \<Rightarrow> nat \<Rightarrow> int list \<Rightarrow> 'w \<Rightarrow> 'w \<times> ephidget" where
  "send_data send buf i [] w = (w, EPHIDGET_OK)"
| "send_data send buf i (x # xs) w =
     (let j = i mod 8; buf = buf[j := word_of_int x] in
      if j = 7 \<or> xs = [] then
        (case send w buf of (w, r) \<Rightarrow> if r \<noteq> EPHIDGET_OK then (w, r) else send_data send buf (i + 1) xs w)
      else send_data send buf (i + 1) xs w)"

definition define_packet :: "(int \<Rightarrow> int \<Rightarrow> dbl \<times> dbl) \<Rightarrow> int \<Rightarrow> int \<Rightarrow> int \<Rightarrow> int \<Rightarrow> u8 list" where
  "define_packet fdiv len carrier duty gp =
     [IR_DEFINEDATA_PACKET, word_of_int (drop_bit 8 len), word_of_int len,
      word_of_int (c_round (fst (fdiv carrier duty))), word_of_int (c_round (snd (fdiv carrier duty))),
      word_of_int (drop_bit 8 (c_round (of_int gp / 10))), word_of_int (c_round (of_int gp / 10)), IR_STOP_RX_WHILE_TX_FLAG]"

definition sendRAWData ::
    "('w \<Rightarrow> u8 list \<Rightarrow> 'w \<times> ephidget) \<Rightarrow> (int \<Rightarrow> int \<Rightarrow> dbl \<times> dbl) \<Rightarrow> u8 list \<Rightarrow>
     int list \<Rightarrow> int \<Rightarrow> int \<Rightarrow> int \<Rightarrow> int \<Rightarrow> 'w \<Rightarrow> 'w \<times> ephidget" where
  "sendRAWData send fdiv stack data len carrier duty gp w =
     (if len > 0xff then (w, EPHIDGET_INVALIDARG)
      else let buffer = define_packet fdiv len carrier duty gp @ stack in
        (case send w buffer of (w, r) \<Rightarrow> if r \<noteq> EPHIDGET_OK then (w, r) else send_data send buffer 0 data w))"

subsection \<open>Transmitting\<close>

definition when0 :: "int \<Rightarrow> int \<Rightarrow> int" where
  "when0 x d = (if x = 0 then d else x)"

text \<open>The checks of the range of the numbers, the default encoding and the defaults of each encoding.\<close>

definition code_range_error :: "code_info \<Rightarrow> bool" where
  "code_range_error ci \<longleftrightarrow> (bitCount ci = 0 \<or> bitCount ci > IR_MAX_CODE_BIT_COUNT) \<or>
     (carrierFrequency ci \<noteq> 0 \<and> carrierFrequency ci < 10000 \<or> carrierFrequency ci > 1000000) \<or>
     (dutyCycle ci \<noteq> 0 \<and> dutyCycle ci < 10 \<or> dutyCycle ci > 50)"

definition default_kinds :: "code_info \<Rightarrow> code_info" where
  "default_kinds ci =
     (let ci = (if encoding ci = PHIDGET_IR_ENCODING_UNSET then ci\<lparr>encoding := PHIDGET_IR_ENCODING_SPACE\<rparr> else ci) in
      if length_kind ci = PHIDGET_IR_LENGTH_UNSET then ci\<lparr>length_kind := PHIDGET_IR_LENGTH_CONSTANT\<rparr> else ci)"

definition no_times :: "code_info \<Rightarrow> bool" where
  "no_times ci \<longleftrightarrow> fst (zero_time ci) = 0 \<and> fst (one_time ci) = 0"

definition default_header :: "int \<times> int \<Rightarrow> code_info \<Rightarrow> code_info" where
  "default_header h ci = (if fst (header ci) = 0 then ci\<lparr>header := h\<rparr> else ci)"

definition default_signal :: "int \<Rightarrow> int \<Rightarrow> code_info \<Rightarrow> code_info" where
  "default_signal g f ci = ci\<lparr>gap := when0 (gap ci) g, carrierFrequency := when0 (carrierFrequency ci) f\<rparr>"

text \<open>\<^verbatim>\<open>!codeInfo->repeat\<close> is the negation of the address of an array, so the branch
  that fills in the repeat code is never taken.\<close>

definition encoding_defaults :: "code_info \<Rightarrow> ephidget \<times> code_info" where
  "encoding_defaults ci = (case encoding ci of
     PHIDGET_IR_ENCODING_SPACE \<Rightarrow>
       (let ci = (if no_times ci then default_signal 110000 38000 (default_header (9000, 4500)
              (ci\<lparr>zero_time := (560, 560), one_time := (560, 1680), trail := when0 (trail ci) 560\<rparr>)) else ci) in
        (if trail ci = 0 then EPHIDGET_INVALIDARG else EPHIDGET_OK, ci))
   | PHIDGET_IR_ENCODING_PULSE \<Rightarrow>
       (EPHIDGET_OK, if no_times ci then default_signal 45000 40000 (default_header (2400, 600)
          (ci\<lparr>zero_time := (600, 600), one_time := (1200, 600)\<rparr>)) else ci)
   | PHIDGET_IR_ENCODING_BIPHASE \<Rightarrow> (EPHIDGET_OK, ci)
   | PHIDGET_IR_ENCODING_RC5 \<Rightarrow>
       (EPHIDGET_OK, if no_times ci then default_signal 114000 36000
          (ci\<lparr>zero_time := (889, 889), one_time := (889, 889)\<rparr>) else ci)
   | PHIDGET_IR_ENCODING_RC6 \<Rightarrow>
       (EPHIDGET_OK, if no_times ci then default_signal 105000 36000 (default_header (2666, 889)
          (ci\<lparr>zero_time := (444, 444), one_time := (444, 444)\<rparr>)) else ci)
   | _ \<Rightarrow> (EPHIDGET_INVALIDARG, ci))"

definition other_defaults :: "code_info \<Rightarrow> ephidget \<times> code_info" where
  "other_defaults ci =
     (let ci = ci\<lparr>carrierFrequency := when0 (carrierFrequency ci) 38000, dutyCycle := when0 (dutyCycle ci) 33,
        min_repeat := when0 (min_repeat ci) 1\<rparr> in
      (if fst (zero_time ci) = 0 \<or> fst (one_time ci) = 0 \<or> gap ci = 0 then EPHIDGET_INVALIDARG else EPHIDGET_OK, ci))"

definition prepare_code :: "code_info \<Rightarrow> ephidget \<times> code_info" where
  "prepare_code ci =
     (if code_range_error ci then (EPHIDGET_INVALIDARG, ci)
      else case encoding_defaults (default_kinds ci) of (r, ci) \<Rightarrow>
        if r \<noteq> EPHIDGET_OK then (r, ci) else other_defaults ci)"

definition data_size :: "int \<Rightarrow> int" where
  "data_size n = n sdiv 8 + (if n smod 8 \<noteq> 0 then 1 else 0)"

text \<open>\<^verbatim>\<open>dataBufferLength = IR_DATA_ARRAY_SIZE * sizeof(int)\<close>\<close>

definition raw_limit :: int where
  "raw_limit = int IR_DATA_ARRAY_SIZE * 4"

definition time_left :: "code_info \<Rightarrow> int \<Rightarrow> int option" where
  "time_left ci time = (if length_kind ci = PHIDGET_IR_LENGTH_CONSTANT then ck (gap ci - time) else Some (gap ci))"

definition toggle :: "nat \<Rightarrow> code_info \<Rightarrow> u8 list \<Rightarrow> u8 list" where
  "toggle n ci code = map2 (XOR) (take n code) (take n (toggle_mask ci)) @ drop n code"

text \<open>The loop over the repetitions: \<open>reps\<close> is the number of rounds left and \<open>wraps\<close> tells whether
  the counter started negative and so would overflow at the end.\<close>

fun transmit_loop ::
    "('w \<Rightarrow> u8 list \<Rightarrow> 'w \<times> ephidget) \<Rightarrow> (int \<Rightarrow> int \<Rightarrow> dbl \<times> dbl) \<Rightarrow> u8 list \<Rightarrow> code_info \<Rightarrow> nat \<Rightarrow> bool \<Rightarrow>
     nat \<Rightarrow> u8 list \<Rightarrow> ir \<Rightarrow> 'w \<Rightarrow> (ephidget \<times> ir \<times> 'w) option" where
  "transmit_loop send fdiv stack ci n wraps 0 code d w =
     (if wraps then None else Some (EPHIDGET_OK, d\<lparr>lastSentCodeInfo := ci\<rparr>, w))"
| "transmit_loop send fdiv stack ci n wraps (Suc reps) code d w = do {
     raw \<leftarrow> codeInfoToRawData code ci raw_limit False;
     case raw of
       Inl r \<Rightarrow> Some (r, d, w)
     | Inr (data, len, time) \<Rightarrow> do {
         left \<leftarrow> time_left ci time;
         case sendRAWData send fdiv stack data len (carrierFrequency ci) (dutyCycle ci) left w of (w, r) \<Rightarrow>
           if r \<noteq> EPHIDGET_OK then Some (r, d, w)
           else do {
             sent \<leftarrow> blit (lastSentCode d) 0 (take n code);
             transmit_loop send fdiv stack ci n wraps reps (toggle n ci code) (d\<lparr>lastSentCode := sent\<rparr>) w } } }"

text \<open>\<^verbatim>\<open>CPhidgetIR_Transmit\<close> for a device of this machine: the result, the changed
  \<^verbatim>\<open>*codeInfo\<close>, the record and the state of the sender.  \<open>tmp\<close> is what \<^verbatim>\<open>datatemp\<close> holds
  before it is filled.\<close>

definition CPhidgetIR_Transmit ::
    "('w \<Rightarrow> u8 list \<Rightarrow> 'w \<times> ephidget) \<Rightarrow> (int \<Rightarrow> int \<Rightarrow> dbl \<times> dbl) \<Rightarrow> u8 list \<Rightarrow> u8 list \<Rightarrow>
     ir \<Rightarrow> u8 list \<Rightarrow> code_info \<Rightarrow> 'w \<Rightarrow> (ephidget \<times> code_info \<times> ir \<times> 'w) option" where
  "CPhidgetIR_Transmit send fdiv stack tmp d data ci w =
     (if ir_checks d \<noteq> EPHIDGET_OK then Some (ir_checks d, ci, d, w)
      else case prepare_code ci of (r, ci) \<Rightarrow>
        if r \<noteq> EPHIDGET_OK then Some (r, ci, d, w)
        else let n = data_size (bitCount ci); reps = min_repeat ci in
          if n < 0 \<or> int (length data) < n then None
          else do {
            code \<leftarrow> blit tmp 0 (take (nat n) data);
            (r, d, w) \<leftarrow> transmit_loop send fdiv stack ci (nat n) (reps < 0)
              (nat (if reps < 0 then reps + 2 ^ 31 else reps)) code d w;
            Some (r, ci, d, w) })"

definition CPhidgetIR_TransmitRaw ::
    "('w \<Rightarrow> u8 list \<Rightarrow> 'w \<times> ephidget) \<Rightarrow> (int \<Rightarrow> int \<Rightarrow> dbl \<times> dbl) \<Rightarrow> u8 list \<Rightarrow>
     ir \<Rightarrow> int list \<Rightarrow> int \<Rightarrow> int \<Rightarrow> int \<Rightarrow> int \<Rightarrow> 'w \<Rightarrow> (ephidget \<times> 'w) option" where
  "CPhidgetIR_TransmitRaw send fdiv stack d data dataLength carrier duty gp w =
     (if ir_checks d \<noteq> EPHIDGET_OK then Some (ir_checks d, w)
      else if dataLength smod 2 \<noteq> 1 then Some (EPHIDGET_INVALIDARG, w)
      else if carrier \<noteq> 0 \<and> carrier < 10000 \<or> carrier > 1000000 then Some (EPHIDGET_INVALIDARG, w)
      else if duty \<noteq> 0 \<and> duty < 10 \<or> duty > 50 then Some (EPHIDGET_INVALIDARG, w)
      else if dataLength > 1000 div 5 then Some (EPHIDGET_INVALIDARG, w)
      else if int (length data) < dataLength then None
      else do {
        raw \<leftarrow> RawTimeDataToRawData (take (nat dataLength) data) (int IR_DATA_ARRAY_SIZE) 0;
        case raw of
          Inl r \<Rightarrow> Some (r, w)
        | Inr (xs, time) \<Rightarrow>
            (case sendRAWData send fdiv stack xs (int (length xs)) (when0 carrier 38000) (when0 duty 33) gp w of
               (w, r) \<Rightarrow> Some (r, w)) })"

definition CPhidgetIR_TransmitRepeat ::
    "('w \<Rightarrow> u8 list \<Rightarrow> 'w \<times> ephidget) \<Rightarrow> (int \<Rightarrow> int \<Rightarrow> dbl \<times> dbl) \<Rightarrow> u8 list \<Rightarrow> u8 list \<Rightarrow>
     ir \<Rightarrow> 'w \<Rightarrow> (ephidget \<times> ir \<times> 'w) option" where
  "CPhidgetIR_TransmitRepeat send fdiv stack tmp d w =
     (if ir_checks d \<noteq> EPHIDGET_OK then Some (ir_checks d, d, w)
      else let ci = lastSentCodeInfo d; n = data_size (bitCount ci) in
        if \<not> n > 0 then Some (EPHIDGET_UNKNOWNVAL, d, w)
        else do {
          tmp \<leftarrow> blit tmp 0 (take (nat n) (lastSentCode d));
          let code = toggle (nat n) ci tmp;
          raw \<leftarrow> codeInfoToRawData code ci raw_limit True;
          case raw of
            Inl r \<Rightarrow> Some (r, d, w)
          | Inr (data, len, time) \<Rightarrow> do {
              left \<leftarrow> time_left ci time;
              case sendRAWData send fdiv stack data len (carrierFrequency ci) (dutyCycle ci) left w of (w, r) \<Rightarrow>
                if r \<noteq> EPHIDGET_OK then Some (r, d, w)
                else do {
                  sent \<leftarrow> blit (lastSentCode d) 0 (take (nat n) code);
                  Some (EPHIDGET_OK, d\<lparr>lastSentCode := sent\<rparr>, w) } } })"

end
