(* ===== verification/Ir_Decode.thy ===== *)
theory Ir_Decode
  imports Ir
begin

text \<open>
  The decoder of the infrared device (\<^verbatim>\<open>cphidgetir.c\<close>): the relative difference of two
  times, the clustering of sorted times, and \<^verbatim>\<open>decode_data\<close>, which finds the encoding of a
  list of normalised times and the bits in it.

  Doubles are rational numbers, with \<open>None\<close> for the NaN of \<^verbatim>\<open>0/0\<close>.  The quotients of
  32-bit integers that are compared here with constants of one decimal are either equal to the constant or
  further from it than their rounding, so these comparisons are exact.
\<close>

subsection \<open>Differences\<close>

definition wrap32 :: "int \<Rightarrow> int" where
  "wrap32 x = (x + 2 ^ 31) mod 2 ^ 32 - 2 ^ 31"

text \<open>\<^verbatim>\<open>pdiff\<close> on doubles and on ints.  The sum of two ints wraps (only a time that is
  \<^verbatim>\<open>PUNK_INT\<close> is large enough); times are not negative, so the sum is 0 only if both are.\<close>

definition pdiffd :: "dbl \<Rightarrow> dbl \<Rightarrow> dbl option" where
  "pdiffd a b = (if a + b = 0 then None else Some (\<bar>a - b\<bar> / ((a + b) / 2)))"

definition pdiff :: "int \<Rightarrow> int \<Rightarrow> dbl option" where
  "pdiff a b = (let s = wrap32 (a + b) in
     if s = 0 then None else Some (of_int \<bar>wrap32 (a - b)\<bar> / (of_int s / 2)))"

definition below :: "dbl option \<Rightarrow> dbl \<Rightarrow> bool" where
  "below d c = (case d of None \<Rightarrow> False | Some x \<Rightarrow> x < c)"

definition above :: "dbl option \<Rightarrow> dbl \<Rightarrow> bool" where
  "above d c = (case d of None \<Rightarrow> False | Some x \<Rightarrow> x > c)"

definition dadd :: "dbl option \<Rightarrow> dbl option \<Rightarrow> dbl option" where
  "dadd a b = do { a \<leftarrow> a; b \<leftarrow> b; Some (a + b) }"

subsection \<open>Clusters of times\<close>

text \<open>The average of a section; \<open>nan\<close> is the integer that the conversion of a NaN gives, for an
  empty section.\<close>

definition section_time :: "int \<Rightarrow> int list \<Rightarrow> int" where
  "section_time nan ts = (if ts = [] then nan else c_round (of_int (sum_list ts) / of_nat (length ts)))"

text \<open>The loop of \<^verbatim>\<open>get_times\<close>: \<open>sect\<close> is the section from \<^verbatim>\<open>edge\<close> to
  \<^verbatim>\<open>i-1\<close> (in reverse), \<open>out\<close> the pairs of \<^verbatim>\<open>timesout\<close> and
  \<^verbatim>\<open>timesoutcount\<close>; the flag tells that the arrays are full.\<close>

definition boundary :: "dbl option \<Rightarrow> dbl option \<Rightarrow> bool" where
  "boundary avgDiff diff \<longleftrightarrow>
     (above avgDiff 0 \<and> (case avgDiff of None \<Rightarrow> False | Some a \<Rightarrow> above diff (a * 10)) \<and> above diff (1 / 10))
     \<or> above diff (2 / 10)"

fun get_times_loop :: "int \<Rightarrow> nat \<Rightarrow> int list \<Rightarrow> int list \<Rightarrow> dbl option \<Rightarrow> dbl option \<Rightarrow> (int \<times> nat) list \<Rightarrow>
    bool \<times> int list \<times> (int \<times> nat) list" where
  "get_times_loop nan cap [] sect avgDiff diffSum out = (False, sect, out)"
| "get_times_loop nan cap (t # ts) sect avgDiff diffSum out =
     (let diff = pdiff t (hd sect) in
      if boundary avgDiff diff then
        let out = out @ [(section_time nan (rev sect), length sect)] in
        if length out + 1 > cap then (True, sect, out)
        else get_times_loop nan cap ts [t] (Some 0) (Some 0) out
      else
        let diffSum = dadd diffSum diff in
        get_times_loop nan cap ts (t # sect) (map_option (\<lambda>x. x / of_nat (length sect)) diffSum) diffSum out)"

definition get_times :: "int \<Rightarrow> int list \<Rightarrow> nat \<Rightarrow> ephidget \<times> (int \<times> nat) list" where
  "get_times nan timesin cap =
     (case get_times_loop nan cap (tl timesin) (take 1 timesin) (Some 0) (Some 0) [] of (full, sect, out) \<Rightarrow>
        if full then (EPHIDGET_OUTOFBOUNDS, out)
        else (EPHIDGET_OK, out @ [(section_time nan (rev sect), length sect)]))"

subsection \<open>The times of a code\<close>

text \<open>\<^verbatim>\<open>COUNT_TIMES\<close>: the array of distinct times and how many of its elements are in use.
  (The counts per time are kept by the code but never used.)  \<open>None\<close> is \<^verbatim>\<open>goto errorexit\<close>.\<close>

type_synonym times = "int list \<times> nat"

definition COUNT_TIMES :: "int \<Rightarrow> times \<Rightarrow> times option" where
  "COUNT_TIMES x s = (case s of (hs, n) \<Rightarrow>
     case filter (\<lambda>k. hs ! k = x \<or> hs ! k = 0) [0..<4] of
       [] \<Rightarrow> None
     | k # _ \<Rightarrow> Some (hs[k := x], max n (k + 1)))"

fun count_all :: "bool \<Rightarrow> int list \<Rightarrow> times \<Rightarrow> times \<Rightarrow> (times \<times> times) option" where
  "count_all even_i [] hi lo = Some (hi, lo)"
| "count_all even_i (x # xs) hi lo =
     (if even_i then do { hi \<leftarrow> COUNT_TIMES x hi; count_all False xs hi lo }
      else do { lo \<leftarrow> COUNT_TIMES x lo; count_all True xs hi lo })"

definition ORDER_TIMES :: "nat \<Rightarrow> int list \<Rightarrow> int list" where
  "ORDER_TIMES k hs = (if hs ! (k + 1) \<noteq> 0 \<and> hs ! (k + 1) < hs ! k
     then hs[k := hs ! (k + 1), k + 1 := hs ! k] else hs)"

definition order_all :: "int list \<Rightarrow> int list" where
  "order_all hs = fold (\<lambda>_. fold ORDER_TIMES [0..<4]) [0..<5] hs"

subsection \<open>The bits\<close>

text \<open>\<^verbatim>\<open>decode_temp[bitcount/8] |= bit << (bitcount % 8)\<close>\<close>

definition or_bit :: "nat \<Rightarrow> bool \<Rightarrow> u8 list \<Rightarrow> u8 list option" where
  "or_bit n b temp = do {
     x \<leftarrow> cread temp (n div 8);
     cwrite temp (n div 8) (if b then x OR push_bit (n mod 8) 1 else x) }"

text \<open>The loop for pulse distance modulation, over pulses and spaces, and the one for pulse width
  modulation.\<close>

fun space_bits :: "int \<Rightarrow> int list \<Rightarrow> nat \<Rightarrow> u8 list \<Rightarrow> (nat \<times> u8 list) option" where
  "space_bits one (h # l # xs) n temp = do {
     temp \<leftarrow> (if l = one then or_bit n True temp else Some temp);
     space_bits one xs (n + 1) temp }"
| "space_bits one xs n temp = Some (n, temp)"

fun pulse_bits :: "int \<Rightarrow> int list \<Rightarrow> nat \<Rightarrow> u8 list \<Rightarrow> (nat \<times> u8 list) option" where
  "pulse_bits one [] n temp = Some (n, temp)"
| "pulse_bits one [h] n temp = do {
     temp \<leftarrow> (if h = one then or_bit n True temp else Some temp);
     Some (n + 1, temp) }"
| "pulse_bits one (h # l # xs) n temp = do {
     temp \<leftarrow> (if h = one then or_bit n True temp else Some temp);
     pulse_bits one xs (n + 1) temp }"

text \<open>The bi-phase loop.  \<open>Inl ()\<close> is \<^verbatim>\<open>goto notbiphase\<close>.\<close>

record biphase =
  decode_temp :: "u8 list"
  bits :: nat
  bit_now :: bool
  halfbit :: bool
  rc6temp :: bool
  is_rc6 :: bool

definition biphase_step :: "int \<Rightarrow> int \<Rightarrow> biphase \<Rightarrow> (unit + biphase) option" where
  "biphase_step pulse x s = do {
     t \<leftarrow> or_bit (bits s) (bit_now s) (decode_temp s);
     let s = s\<lparr>decode_temp := t\<rparr>;
     Some (
       if below (pdiffd (of_int x / 3) (of_int pulse)) (2 / 10) then
         if \<not> halfbit s \<or> bits s \<noteq> 3 \<and> bits s \<noteq> 4 then Inl ()
         else Inr (s\<lparr>rc6temp := \<not> rc6temp s, bit_now := \<not> bit_now s, bits := bits s + 1, is_rc6 := True\<rparr>)
       else if below (pdiffd (of_int x / 2) (of_int pulse)) (2 / 10) then
         if \<not> halfbit s then
           if bits s = 4 then Inr (s\<lparr>halfbit := True, rc6temp := True, is_rc6 := True\<rparr>) else Inl ()
         else if rc6temp s then Inr (s\<lparr>rc6temp := False, halfbit := False, bits := bits s + 1\<rparr>)
         else Inr (s\<lparr>bit_now := \<not> bit_now s, bits := bits s + 1\<rparr>)
       else Inr (s\<lparr>bits := (if halfbit s then bits s + 1 else bits s), halfbit := \<not> halfbit s\<rparr>)) }"

fun biphase_loop :: "int \<Rightarrow> int list \<Rightarrow> biphase \<Rightarrow> (unit + biphase) option" where
  "biphase_loop pulse [] s = Some (Inr s)"
| "biphase_loop pulse (x # xs) s = do {
     r \<leftarrow> biphase_step pulse x s;
     case r of Inl _ \<Rightarrow> Some (Inl ()) | Inr s \<Rightarrow> biphase_loop pulse xs s }"

text \<open>Whether there is an invisible space in front, from the first double pulse.\<close>

definition start_space :: "int \<Rightarrow> int list \<Rightarrow> bool" where
  "start_space pulse data =
     (case filter (\<lambda>i. below (pdiffd (of_int (data ! i) / 2) (of_int pulse)) (3 / 10)) [0..<length data] of
        [] \<Rightarrow> True | i # _ \<Rightarrow> even i)"

text \<open>The section \<^verbatim>\<open>biphase\<close>: the number of bits, the bits and the encoding; \<open>rc6\<close> tells that the times are
  those of an RC-6 code.\<close>

definition biphase_bits :: "bool \<Rightarrow> int \<Rightarrow> int list \<Rightarrow> (unit + nat \<times> u8 list \<times> ir_encoding) option" where
  "biphase_bits rc6 pulse data =
     (if above (pdiff (data ! 0) pulse) (3 / 10) then Some (Inl ())
      else let startspace = start_space pulse data in do {
        r \<leftarrow> biphase_loop pulse (if startspace then data else tl data)
          \<lparr>decode_temp = replicate IR_MAX_CODE_DATA_LENGTH 0, bits = 0, bit_now = True, halfbit = True, rc6temp = False, is_rc6 = rc6\<rparr>;
        case r of
          Inl _ \<Rightarrow> Some (Inl ())
        | Inr s \<Rightarrow> do {
            t \<leftarrow> or_bit (bits s) (bit_now s) (decode_temp s);
            Some (Inr (if halfbit s \<and> \<not> bit_now s \<or> \<not> startspace \<and> bit_now s then bits s + 1 else bits s, t,
              if is_rc6 s then PHIDGET_IR_ENCODING_RC6
              else if below (pdiff pulse 889) (2 / 10) \<and> startspace then PHIDGET_IR_ENCODING_RC5
              else PHIDGET_IR_ENCODING_BIPHASE)) } })"

subsection \<open>Decoding\<close>

text \<open>The two tests for bi-phase codes on the ordered times.\<close>

definition looks_biphase :: "int list \<Rightarrow> nat \<Rightarrow> int list \<Rightarrow> nat \<Rightarrow> bool" where
  "looks_biphase hs hc ls lc \<longleftrightarrow>
     (hc = 1 \<and> lc = 1 \<and> below (pdiff (hs ! 0) (ls ! 0)) (3 / 10)) \<or>
     (hc = 1 \<and> lc \<ge> 2 \<and> below (pdiff (hs ! 0) (ls ! 0)) (3 / 10) \<and>
        below (pdiffd (of_int (ls ! 1) / 2) (of_int (ls ! 0))) (1 / 10)) \<or>
     (hc \<ge> 2 \<and> lc = 1 \<and> below (pdiff (hs ! 0) (ls ! 0)) (3 / 10) \<and>
        below (pdiffd (of_int (hs ! 1) / 2) (of_int (hs ! 0))) (1 / 10)) \<or>
     (hc \<ge> 2 \<and> lc \<ge> 2 \<and> below (pdiff (hs ! 0) (ls ! 0)) (3 / 10) \<and> below (pdiff (hs ! 1) (ls ! 1)) (3 / 10) \<and>
        below (pdiffd (of_int (hs ! 1) / 2) (of_int (hs ! 0))) (1 / 10) \<and>
        below (pdiffd (of_int (ls ! 1) / 2) (of_int (ls ! 0))) (1 / 10))"

definition looks_rc6 :: "int list \<Rightarrow> nat \<Rightarrow> int list \<Rightarrow> nat \<Rightarrow> bool" where
  "looks_rc6 hs hc ls lc \<longleftrightarrow>
     (hc = 3 \<and> lc = 1 \<and> below (pdiff (hs ! 1) (ls ! 0)) (3 / 10) \<and>
        below (pdiffd (of_int (hs ! 2) / 3) (of_int (hs ! 0))) (1 / 10)) \<or>
     (hc = 2 \<and> lc = 3 \<and> below (pdiff (hs ! 0) (ls ! 0)) (3 / 10) \<and> below (pdiff (hs ! 1) (ls ! 2)) (3 / 10) \<and>
        below (pdiffd (of_int (ls ! 1) / 2) (of_int (ls ! 0))) (1 / 10) \<and>
        below (pdiffd (of_int (ls ! 2) / 3) (of_int (ls ! 0))) (1 / 10)) \<or>
     (hc = 3 \<and> lc = 2 \<and> below (pdiff (hs ! 2) (ls ! 1)) (3 / 10) \<and> below (pdiff (hs ! 1) (ls ! 0)) (3 / 10) \<and>
        below (pdiffd (of_int (hs ! 1) / 2) (of_int (hs ! 0))) (1 / 10) \<and>
        below (pdiffd (of_int (hs ! 2) / 2) (of_int (hs ! 1))) (1 / 10))"

text \<open>The short pulse width.\<close>

definition short_pulse :: "int \<Rightarrow> int \<Rightarrow> int" where
  "short_pulse h0 l0 = (if below (pdiff l0 h0) (3 / 10) then c_round (of_int (wrap32 (l0 + h0)) / 2)
     else if h0 < l0 then h0 else l0)"

definition byte_count :: "nat \<Rightarrow> nat" where
  "byte_count n = n div 8 + (if n mod 8 \<noteq> 0 then 1 else 0)"

text \<open>The last loop: from first bit in the lowest position to first bit in the highest.\<close>

definition flip_bits :: "nat \<Rightarrow> u8 list \<Rightarrow> u8 list option" where
  "flip_bits n temp = cfor [0..<n] (\<lambda>i out. do {
     x \<leftarrow> cread temp ((n - 1 - i) div 8);
     y \<leftarrow> cread out ((byte_count n * 8 - 1 - i) div 8);
     cwrite out ((byte_count n * 8 - 1 - i) div 8)
       (y OR (if bit x ((n - 1 - i) mod 8) then push_bit (i mod 8) 1 else 0)) }) (replicate (byte_count n) 0)"

text \<open>From the label \<^verbatim>\<open>done\<close> on.\<close>

definition finish_decode :: "nat \<Rightarrow> nat \<Rightarrow> u8 list \<Rightarrow> code_info \<Rightarrow> (ephidget \<times> u8 list \<times> code_info) option" where
  "finish_decode outlength n temp ci =
     (if outlength < byte_count n \<or> n < 4 then Some (EPHIDGET_UNEXPECTED, [], ci\<lparr>encoding := PHIDGET_IR_ENCODING_UNKNOWN\<rparr>)
      else do { out \<leftarrow> flip_bits n temp; Some (EPHIDGET_OK, out, ci\<lparr>bitCount := int n\<rparr>) })"

text \<open>The section \<^verbatim>\<open>notbiphase\<close>.\<close>

definition decode_modulated ::
    "int list \<Rightarrow> nat \<Rightarrow> int list \<Rightarrow> nat \<Rightarrow> int list \<Rightarrow> nat \<Rightarrow> code_info \<Rightarrow> (ephidget \<times> u8 list \<times> code_info) option" where
  "decode_modulated hs hc ls lc data outlength ci =
     (if hc = 1 \<and> lc = 2 then
        (let zero = (if ls ! 1 > ls ! 0 then ls ! 0 else ls ! 1); one = (if ls ! 1 > ls ! 0 then ls ! 1 else ls ! 0) in do {
          (n, temp) \<leftarrow> space_bits one data 0 (replicate IR_MAX_CODE_DATA_LENGTH 0);
          finish_decode outlength n temp (ci\<lparr>one_time := (hs ! 0, one), zero_time := (hs ! 0, zero),
            trail := last data, encoding := PHIDGET_IR_ENCODING_SPACE\<rparr>) })
      else if hc = 2 \<and> lc = 1 then
        (let zero = (if hs ! 1 > hs ! 0 then hs ! 0 else hs ! 1); one = (if hs ! 1 > hs ! 0 then hs ! 1 else hs ! 0) in do {
          (n, temp) \<leftarrow> pulse_bits one data 0 (replicate IR_MAX_CODE_DATA_LENGTH 0);
          finish_decode outlength n temp (ci\<lparr>one_time := (one, ls ! 0), zero_time := (zero, ls ! 0),
            encoding := PHIDGET_IR_ENCODING_PULSE\<rparr>) })
      else Some (EPHIDGET_UNEXPECTED, [], ci\<lparr>encoding := PHIDGET_IR_ENCODING_UNKNOWN\<rparr>))"

text \<open>The result, the decoded bytes (whose number is \<^verbatim>\<open>*outlength\<close>) and the code info.\<close>

definition decode_data :: "int list \<Rightarrow> nat \<Rightarrow> code_info \<Rightarrow> (ephidget \<times> u8 list \<times> code_info) option" where
  "decode_data data outlength ci =
     (case count_all True data (replicate 5 0, 0) (replicate 5 0, 0) of
        None \<Rightarrow> Some (EPHIDGET_UNEXPECTED, [], ci\<lparr>encoding := PHIDGET_IR_ENCODING_UNKNOWN\<rparr>)
      | Some ((hs, hc), (ls, lc)) \<Rightarrow>
          if lc = 0 \<or> hc = 0 then Some (EPHIDGET_UNEXPECTED, [], ci\<lparr>encoding := PHIDGET_IR_ENCODING_UNKNOWN\<rparr>)
          else let hs = order_all hs; ls = order_all ls in
            if \<not> looks_biphase hs hc ls lc \<and> \<not> looks_rc6 hs hc ls lc then decode_modulated hs hc ls lc data outlength ci
            else let pulse = short_pulse (hs ! 0) (ls ! 0);
                     ci = ci\<lparr>one_time := (pulse, pulse), zero_time := (pulse, pulse)\<rparr> in do {
              r \<leftarrow> biphase_bits (\<not> looks_biphase hs hc ls lc) pulse data;
              case r of
                Inl _ \<Rightarrow> decode_modulated hs hc ls lc data outlength ci
              | Inr (n, temp, enc) \<Rightarrow> finish_decode outlength n temp (ci\<lparr>encoding := enc\<rparr>) })"

end
