(* ===== verification/Ir_Bits.thy ===== *)
theory Ir_Bits
  imports Ir_Decode
begin

text \<open>
  The two bit orders of an infrared code: bytes with the last bit in the lowest position of the last byte, in
  which codes are given and reported, and bytes with the first bit in the lowest position of the first byte, in
  which the decoder collects them; and the conversion between them.
\<close>

lemma div_mod_eq8: "(m :: nat) = k \<longleftrightarrow> m div 8 = k div 8 \<and> m mod 8 = k mod 8"
  by (metis div_mult_mod_eq)

lemma byte_count_bounds: "n \<le> 8 * byte_count n" "8 * byte_count n < n + 8" "m < n \<Longrightarrow> m div 8 < byte_count n"
proof -
  have n: "n = 8 * (n div 8) + n mod 8" "n mod 8 < 8" by simp_all
  show a: "n \<le> 8 * byte_count n" and "8 * byte_count n < n + 8"
    unfolding byte_count_def using n by (cases "n mod 8 = 0"; simp; linarith)+
  show "m div 8 < byte_count n" if "m < n" using a that by (simp add: less_mult_imp_div_less)
qed

lemma byte_count_le: "n \<le> 8 * k \<longleftrightarrow> byte_count n \<le> k"
  using byte_count_bounds(1,2) [of n] by auto

lemma first_bit_eq: "first_bit (int n) + n = 8 * byte_count n"
proof -
  have m: "int n smod 8 = int (n mod 8)" by (cases "n = 0") (simp_all add: signed_modulo_int_def zmod_int)
  have "8 - int (n mod 8) = int (8 - n mod 8)" by (simp add: of_nat_diff)
  then have "(8 - int (n mod 8)) smod 8 = int ((8 - n mod 8) mod 8)"
    by (simp add: signed_modulo_int_def zmod_int del: mod_0_imp_dvd)
  then have "first_bit (int n) = (8 - n mod 8) mod 8" by (simp add: first_bit_def m)
  then have f: "first_bit (int n) = (if n mod 8 = 0 then 0 else 8 - n mod 8)" by simp
  have e: "8 * (n div 8) + n mod 8 = n" "n mod 8 < 8" by simp_all
  have "(if n mod 8 = 0 then 0 else 8 - n mod 8) + n = 8 * (n div 8 + (if n mod 8 \<noteq> 0 then 1 else 0))"
    by (simp split: if_split) (intro conjI impI; use e in linarith)
  then show ?thesis by (simp only: f byte_count_def)
qed

lemma data_size_eq: "data_size (int n) = int (byte_count n)"
proof -
  have "int n smod 8 = int (n mod 8)" "int n sdiv 8 = int (n div 8)"
    by (cases "n = 0"; simp add: signed_modulo_int_def signed_divide_int_def zmod_int zdiv_int)+
  then show ?thesis by (simp add: data_size_def byte_count_def)
qed

subsection \<open>First bit first\<close>

definition tbit :: "u8 list \<Rightarrow> nat \<Rightarrow> bool" where
  "tbit temp m = bit (temp ! (m div 8)) (m mod 8)"

lemma bit_or_single: "i < 8 \<Longrightarrow> bit (x OR 2 ^ j :: u8) i \<longleftrightarrow> bit x i \<or> i = j"
  by (auto simp: bit_or_iff bit_exp_iff)

lemma or_bit_ok:
  assumes "n < 8 * length temp"
  obtains temp' where "or_bit n b temp = Some temp'" "length temp' = length temp"
    "\<And>m. m < 8 * length temp \<Longrightarrow> tbit temp' m \<longleftrightarrow> tbit temp m \<or> b \<and> m = n"
proof
  let ?x = "temp ! (n div 8)"
  let ?t = "temp[n div 8 := if b then ?x OR 2 ^ (n mod 8) else ?x]"
  have l: "n div 8 < length temp" using assms by (simp add: less_mult_imp_div_less)
  then show "or_bit n b temp = Some ?t" by (simp add: or_bit_def cread_def cwrite_def)
  show "length ?t = length temp" by simp
  show "tbit ?t m \<longleftrightarrow> tbit temp m \<or> b \<and> m = n" if "m < 8 * length temp" for m
    using l by (auto simp: tbit_def nth_list_update bit_or_single div_mod_eq8 [of m n])
qed

lemma or_bit_out: "8 * length temp \<le> n \<Longrightarrow> or_bit n b temp = None"
  by (auto simp: or_bit_def cread_def)

text \<open>Sixteen bytes that hold a list of bits.\<close>

definition holds_bits :: "u8 list \<Rightarrow> bool list \<Rightarrow> bool" where
  "holds_bits temp bs \<longleftrightarrow> length temp = IR_MAX_CODE_DATA_LENGTH \<and> length bs \<le> 128 \<and>
     (\<forall>m < 128. tbit temp m \<longleftrightarrow> m < length bs \<and> bs ! m)"

lemma holds_bits_Nil: "holds_bits (replicate IR_MAX_CODE_DATA_LENGTH 0) []"
  by (auto simp: holds_bits_def tbit_def ir_sizes less_mult_imp_div_less)

lemma holds_bits_False: "holds_bits temp bs \<Longrightarrow> length bs < 128 \<Longrightarrow> holds_bits temp (bs @ [False])"
  by (auto simp: holds_bits_def nth_append less_Suc_eq)

lemma holds_bits_or:
  assumes "holds_bits temp bs" and "length bs < 128"
  obtains temp' where "or_bit (length bs) b temp = Some temp'" "holds_bits temp' (bs @ [b])"
proof -
  have l: "length bs < 8 * length temp" using assms by (simp add: holds_bits_def ir_sizes)
  obtain temp' where *: "or_bit (length bs) b temp = Some temp'" "length temp' = length temp"
    "\<And>m. m < 8 * length temp \<Longrightarrow> tbit temp' m \<longleftrightarrow> tbit temp m \<or> b \<and> m = length bs"
    using or_bit_ok [OF l] by metis
  moreover have "holds_bits temp' (bs @ [b])"
    using assms * by (auto simp: holds_bits_def ir_sizes nth_append less_Suc_eq)
  ultimately show thesis using that by blast
qed

subsection \<open>Last bit last\<close>

definition cbit :: "u8 list \<Rightarrow> nat \<Rightarrow> bool" where
  "cbit code q = bit (code ! (length code - 1 - q div 8)) (q mod 8)"

text \<open>The bits of a code in the order in which they are sent.\<close>

definition code_bits :: "nat \<Rightarrow> u8 list \<Rightarrow> bool list" where
  "code_bits n code = map (\<lambda>m. cbit code (n - 1 - m)) [0..<n]"

definition right_justified :: "nat \<Rightarrow> u8 list \<Rightarrow> bool" where
  "right_justified n code \<longleftrightarrow> length code = byte_count n \<and> (\<forall>q \<in> {n..<8 * length code}. \<not> cbit code q)"

lemma code_eqI:
  assumes "length xs = length ys" and "\<And>q. q < 8 * length xs \<Longrightarrow> cbit xs q = cbit ys q"
  shows "xs = ys"
proof (rule nth_equalityI [OF assms(1)])
  fix i assume i: "i < length xs"
  show "xs ! i = ys ! i"
  proof (rule bit_word_eqI)
    fix j assume "j < LENGTH(8)"
    then have j: "j < 8" by simp
    define q where "q = 8 * (length xs - 1 - i) + j"
    have "q div 8 = length xs - 1 - i" "q mod 8 = j" using j by (simp_all add: q_def)
    moreover have "q < 8 * length xs" using i j by (simp add: q_def)
    ultimately show "bit (xs ! i) j = bit (ys ! i) j" using assms(2) [of q] assms(1) i by (simp add: cbit_def)
  qed
qed

lemma code_bits_inj:
  assumes "right_justified n xs" and "right_justified n ys" and "code_bits n xs = code_bits n ys"
  shows "xs = ys"
proof (rule code_eqI)
  show "length xs = length ys" using assms by (simp add: right_justified_def)
  fix q assume q: "q < 8 * length xs"
  show "cbit xs q = cbit ys q"
  proof (cases "q < n")
    case True
    then have "code_bits n xs ! (n - 1 - q) = code_bits n ys ! (n - 1 - q)" using assms(3) by simp
    with True show ?thesis by (simp add: code_bits_def)
  next
    case False
    with q assms show ?thesis by (auto simp: right_justified_def)
  qed
qed

lemma length_code_bits [simp]: "length (code_bits n code) = n"
  by (simp add: code_bits_def)

lemma code_bit_eq:
  assumes "byte_count n \<le> length code" and "m < n" and "length code' = byte_count n" and "take (byte_count n) code = code'"
  shows "code_bit code (first_bit (int n) + m) (n - 1 - m) = Some (code_bits n code' ! m)"
proof -
  let ?q = "n - 1 - m"
  have "first_bit (int n) + m = 8 * byte_count n - 1 - ?q" using first_bit_eq [of n] assms(2) by simp
  moreover have "(8 * byte_count n - 1 - ?q) div 8 = byte_count n - 1 - ?q div 8"
    using byte_count_bounds(3) [of ?q n] assms(2) by (simp add: div_mult_self1 Suc_leI)
  ultimately have i: "(first_bit (int n) + m) div 8 = byte_count n - 1 - ?q div 8" by simp
  have "0 < byte_count n" using byte_count_bounds(3) [of m n] assms(2) by simp
  then show ?thesis using assms i by (auto simp: code_bit_def cread_def code_bits_def cbit_def)
qed

subsection \<open>From one to the other\<close>

lemma flip_bits_loop:
  assumes "n \<le> 128" and "length temp = IR_MAX_CODE_DATA_LENGTH" and "k \<le> n"
  shows "\<exists>out. cfor [0..<k] (\<lambda>i out. do {
     x \<leftarrow> cread temp ((n - 1 - i) div 8);
     y \<leftarrow> cread out ((byte_count n * 8 - 1 - i) div 8);
     cwrite out ((byte_count n * 8 - 1 - i) div 8)
       (y OR (if bit x ((n - 1 - i) mod 8) then push_bit (i mod 8) 1 else 0)) }) (replicate (byte_count n) 0) = Some out \<and>
     length out = byte_count n \<and> (\<forall>q < 8 * byte_count n. cbit out q \<longleftrightarrow> q < k \<and> tbit temp (n - 1 - q))"
  using assms(3)
proof (induction k)
  case 0
  then show ?case by (auto simp: cbit_def less_mult_imp_div_less)
next
  case (Suc k)
  let ?L = "byte_count n" and ?f = "\<lambda>i out. do {
     x \<leftarrow> cread temp ((n - 1 - i) div 8);
     y \<leftarrow> cread out ((byte_count n * 8 - 1 - i) div 8);
     cwrite out ((byte_count n * 8 - 1 - i) div 8)
       (y OR (if bit x ((n - 1 - i) mod 8) then push_bit (i mod 8) 1 else 0)) }"
  obtain out where o: "cfor [0..<k] ?f (replicate ?L 0) = Some out" "length out = ?L"
    "\<And>q. q < 8 * ?L \<Longrightarrow> cbit out q \<longleftrightarrow> q < k \<and> tbit temp (n - 1 - q)"
    using Suc by auto
  define j where "j = ?L - 1 - k div 8"
  have kd: "k div 8 < ?L" using byte_count_bounds(3) [of k n] Suc.prems by simp
  have j: "(?L * 8 - 1 - k) div 8 = j" "j < ?L" using kd by (auto simp: j_def mult.commute)
  have "(n - 1 - k) div 8 < length temp" using assms(1,2) Suc.prems by (auto simp: ir_sizes less_mult_imp_div_less)
  then have x: "cread temp ((n - 1 - k) div 8) = Some (temp ! ((n - 1 - k) div 8))" by (simp add: cread_def)
  define out' where "out' = out[j := out ! j OR (if tbit temp (n - 1 - k) then 2 ^ (k mod 8) else 0)]"
  have step: "?f k out = Some out'" using x o(2) j by (simp add: cread_def cwrite_def out'_def tbit_def)
  have "cbit out' q \<longleftrightarrow> q < Suc k \<and> tbit temp (n - 1 - q)" if q: "q < 8 * ?L" for q
  proof (cases "q div 8 = k div 8")
    case True
    then have "?L - 1 - q div 8 = j" by (simp add: j_def)
    then have "cbit out' q \<longleftrightarrow> cbit out q \<or> tbit temp (n - 1 - k) \<and> q = k"
      using o(2) j(2) True div_mod_eq8 [of q k] by (auto simp: cbit_def out'_def bit_or_single)
    then show ?thesis using o(3) [OF q] by (auto simp: less_Suc_eq)
  next
    case False
    have "q div 8 < ?L" using q by (simp add: less_mult_imp_div_less)
    then have "?L - 1 - q div 8 \<noteq> j" using False kd by (simp add: j_def)
    then have "cbit out' q = cbit out q" using o(2) by (simp add: cbit_def out'_def)
    moreover have "q \<noteq> k" using False by auto
    ultimately show ?thesis using o(3) [OF q] by (auto simp: less_Suc_eq)
  qed
  moreover have "cfor [0..<Suc k] ?f (replicate ?L 0) = Some out'" using o(1) step by (simp add: cfor_snoc)
  ultimately show ?case using o(2) by (intro exI [of _ out']) (simp add: out'_def)
qed

lemma flip_bits_ok:
  assumes "holds_bits temp (bs @ rest)" and "length bs = n"
  obtains out where "flip_bits n temp = Some out" "right_justified n out" "code_bits n out = bs"
proof -
  have t: "n \<le> 128" "length temp = IR_MAX_CODE_DATA_LENGTH" using assms by (auto simp: holds_bits_def)
  obtain out where o: "flip_bits n temp = Some out" "length out = byte_count n"
    "\<And>q. q < 8 * byte_count n \<Longrightarrow> cbit out q \<longleftrightarrow> q < n \<and> tbit temp (n - 1 - q)"
    using flip_bits_loop [OF t order_refl] unfolding flip_bits_def by blast
  have "right_justified n out" using o by (auto simp: right_justified_def)
  moreover have "code_bits n out = bs"
  proof (rule nth_equalityI)
    fix m assume "m < length (code_bits n out)"
    then have m: "m < n" by simp
    then have "cbit out (n - 1 - m) \<longleftrightarrow> tbit temp m" using o(3) [of "n - 1 - m"] byte_count_bounds(1) [of n] by simp
    also have "tbit temp m \<longleftrightarrow> bs ! m" using assms m t(1) by (auto simp: holds_bits_def nth_append)
    finally show "code_bits n out ! m = bs ! m" using m by (simp add: code_bits_def)
  qed (use assms in simp)
  ultimately show thesis using o(1) that by blast
qed

text \<open>So a decoder that has collected the bits of a right-justified code returns the code.\<close>

lemma flip_bits_code:
  assumes "holds_bits temp (code_bits n code @ rest)" and "right_justified n code"
  shows "flip_bits n temp = Some code"
  using flip_bits_ok [OF assms(1)] code_bits_inj [OF _ assms(2)] by (metis length_code_bits)

end
