(* ===== verification/Ir_Receive.thy ===== *)
theory Ir_Receive
  imports Ir_Decode
begin

text \<open>
  The receiving side of the infrared device (\<^verbatim>\<open>cphidgetir.c\<close>): the ring buffer that
  \<^verbatim>\<open>dataInput\<close> fills, the analysis for codes and for learning, and the functions that read
  the results.  The ring has 2048 elements and its pointers are 11-bit words, so no access leaves it.
  An event is logged when the device is attached.
\<close>

datatype ir_event = Code "u8 list" int bool | RawData "int list" | Learn "u8 list" code_info

definition FIRE :: "ir \<Rightarrow> ir_event \<Rightarrow> ir_event list" where
  "FIRE d e = (if is_set (dev d) PHIDGET_ATTACHED_FLAG then [e] else [])"

subsection \<open>The ring\<close>

lemma ring_step: "p \<noteq> q \<Longrightarrow> unat (q - (p + 1)) < unat (q - p)" for p q :: ring_ptr
  using measure_unat [of "q - p"] by (simp add: algebra_simps)

lemma ring_back: "p \<noteq> q \<Longrightarrow> unat (p - 1 - q) < unat (p - q)" for p q :: ring_ptr
  using measure_unat [of "p - q"] by (simp add: algebra_simps)

text \<open>The elements from one pointer up to another, as the copying loops read them.\<close>

function window :: "'a list \<Rightarrow> ring_ptr \<Rightarrow> ring_ptr \<Rightarrow> 'a list" where
  "window buf p q = (if p = q then [] else buf ! unat p # window buf (p + 1) q)"
  by pat_completeness auto
termination by (relation "measure (\<lambda>(buf, p, q). unat (q - p))") (auto intro: ring_step)

declare window.simps [simp del]

text \<open>The search for a time of at least \<open>limit\<close>: the pointer it stops at and whether it was found.\<close>

function seek_gap :: "int \<Rightarrow> int list \<Rightarrow> ring_ptr \<Rightarrow> ring_ptr \<Rightarrow> ring_ptr \<times> bool" where
  "seek_gap limit buf w r = (if buf ! unat r < limit
     then if r = w then (r, False) else seek_gap limit buf w (r + 1) else (r, True))"
  by pat_completeness auto
termination by (relation "measure (\<lambda>(limit, buf, w, r). unat (w - r))") (auto intro: ring_step)

declare seek_gap.simps [simp del]

text \<open>The nearest of the final times, at most 30 percent away.\<close>

definition nearest :: "int \<Rightarrow> (int \<times> nat) list \<Rightarrow> int" where
  "nearest x finals = fst (fold (\<lambda>(f, _) (newtime, best).
     case pdiff x f of None \<Rightarrow> (newtime, best)
     | Some diff \<Rightarrow> if diff \<le> 3 / 10 \<and> diff < best then (f, diff) else (newtime, best)) finals (fst (hd finals), 1))"

text \<open>\<^verbatim>\<open>dataTime\<close> and \<^verbatim>\<open>compareDataArrays\<close>.\<close>

definition dataTime :: "int list \<Rightarrow> ring_ptr \<Rightarrow> ring_ptr \<Rightarrow> int" where
  "dataTime data p e = sum_list (window data p e)"

definition compareDataArrays :: "int list \<Rightarrow> ring_ptr \<Rightarrow> ring_ptr \<Rightarrow> ring_ptr \<Rightarrow> ring_ptr \<Rightarrow> dbl \<Rightarrow> bool" where
  "compareDataArrays data ptr1 ptr2 endptr1 endptr2 maxpdiff =
     (if unat (endptr1 - ptr1) \<noteq> unat (endptr2 - ptr2) then False
      else list_all2 (\<lambda>x y. \<not> above (pdiff x y) maxpdiff) (window data ptr1 endptr1) (window data ptr2 endptr2))"

subsection \<open>Codes\<close>

text \<open>The loop that gets the data up to the next long space: where it stops, the pulses, the spaces,
  and whether there was such a space.\<close>

function collect :: "int list \<Rightarrow> ring_ptr \<Rightarrow> ring_ptr \<Rightarrow> bool \<Rightarrow> int list \<Rightarrow> int list \<Rightarrow>
    ring_ptr \<times> int list \<times> int list \<times> bool" where
  "collect buf w r high highs lows =
     (if r = w then (r, highs, lows, False)
      else let x = buf ! unat r in
        if x \<ge> IR_MIN_GAP_LENGTH \<and> \<not> high then (r, highs, lows, True)
        else if high then collect buf w (r + 1) False (highs @ [x]) lows
        else collect buf w (r + 1) True highs (lows @ [x]))"
  by pat_completeness auto
termination by (relation "measure (\<lambda>(buf, w, r, _). unat (w - r))") (auto intro: ring_step)

declare collect.simps [simp del]

text \<open>The loop that fills \<^verbatim>\<open>dataBufferNormalized\<close>.\<close>

function normalize :: "int list \<Rightarrow> (int \<times> nat) list \<Rightarrow> (int \<times> nat) list \<Rightarrow> ring_ptr \<Rightarrow> ring_ptr \<Rightarrow> bool \<Rightarrow> int list \<Rightarrow> int list" where
  "normalize buf hf lf p e high nrm =
     (if p = e then nrm
      else normalize buf hf lf (p + 1) e (\<not> high) (nrm[unat p := nearest (buf ! unat p) (if high then hf else lf)]))"
  by pat_completeness auto
termination by (relation "measure (\<lambda>(buf, hf, lf, p, e, _). unat (e - p))") (auto intro: ring_step)

declare normalize.simps [simp del]

definition skip_header :: "int list \<Rightarrow> (int \<times> nat) list \<Rightarrow> ring_ptr \<Rightarrow> ring_ptr" where
  "skip_header nrm hf r = fold (\<lambda>(f, n) p. if nrm ! unat p = f \<and> n = 1 then r + 3 else p) hf (r + 1)"

definition gap_in_range :: "int \<Rightarrow> bool" where
  "gap_in_range g \<longleftrightarrow> g \<le> IR_MAX_GAP_LENGTH \<and> g \<ge> IR_MIN_GAP_LENGTH"

definition code_decoded :: "u8 list \<Rightarrow> code_info \<Rightarrow> ir \<Rightarrow> ir \<times> ir_event list" where
  "code_decoded decoded ci d =
     (let rep = (take (length decoded) (lastCode d) = decoded \<and> gap_in_range (lastGap d) \<and>
            bitCount (lastCodeInfo d) = bitCount ci \<and> encoding (lastCodeInfo d) = encoding ci);
          info = (lastCodeInfo d)\<lparr>bitCount := bitCount ci, encoding := encoding ci\<rparr> in
      (d\<lparr>lastCode := decoded @ replicate (IR_MAX_CODE_DATA_LENGTH - length decoded) 0, lastCodeInfo := info,
         lastRepeat := (if rep then 1 else 0), lastCodeKnown := True\<rparr>,
       FIRE d (Code decoded (bitCount ci) rep)))"

definition analyze_code :: "ir \<Rightarrow> int list \<Rightarrow> (ephidget \<times> ir \<times> ir_event list) option" where
  "analyze_code d code_data = do {
     (r, decoded, ci) \<leftarrow> decode_data code_data IR_MAX_CODE_DATA_LENGTH code_info_zero;
     if r = EPHIDGET_OK then case code_decoded decoded ci d of (d, ev) \<Rightarrow> Some (EPHIDGET_OK, d, ev)
     else if (length code_data = 1 \<or> length code_data = 3) \<and> lastCodeKnown d \<and> gap_in_range (lastGap d) then
       Some (EPHIDGET_OK, d, FIRE d (Code (take (nat (data_size (bitCount (lastCodeInfo d)))) (lastCode d))
         (bitCount (lastCodeInfo d)) True))
     else Some (EPHIDGET_OK, d, []) }"

definition analyze_data :: "int \<Rightarrow> ir \<Rightarrow> bool \<Rightarrow> (ephidget \<times> ir \<times> ir_event list) option" where
  "analyze_data nan d trailgap_needed =
     (let buf = dataBuffer d; w = dataWritePtr d in
      case seek_gap IR_MIN_GAP_LENGTH buf w (dataReadPtr d) of (r, found) \<Rightarrow>
        let d = d\<lparr>dataReadPtr := r\<rparr> in
        if \<not> found \<or> r = w \<or> r + 1 = w then Some (EPHIDGET_OK, d, [])
        else case collect buf w (r + 1) True [] [] of (e, highs, lows, gap_found) \<Rightarrow>
          if \<not> gap_found \<and> trailgap_needed then Some (EPHIDGET_OK, d, [])
          else if highs = [] \<and> lows = [] then Some (EPHIDGET_OK, d, [])
          else let d = d\<lparr>lastGap := buf ! unat r\<rparr> in
            if int (length highs) - 1 \<noteq> int (length lows) then Some (EPHIDGET_UNEXPECTED, d, [])
            else let
              hf = snd (get_times nan (sort highs) 20);
              lf = snd (get_times nan (sort lows) 20);
              nrm = normalize buf hf lf (r + 1) e True (dataBufferNormalized d);
              code_data = window nrm (skip_header nrm hf r) e in
            analyze_code (d\<lparr>dataBufferNormalized := nrm, dataReadPtr := e\<rparr>) code_data)"

subsection \<open>Learning\<close>

definition learn_defaults :: code_info where
  "learn_defaults = code_info_zero\<lparr>carrierFrequency := 38000, encoding := PHIDGET_IR_ENCODING_UNKNOWN,
     length_kind := PHIDGET_IR_LENGTH_UNKNOWN, min_repeat := 1, dutyCycle := 50\<rparr>"

text \<open>The end of the data to look at: the next unmeasurably long time, or, when that is not there or is
  two seconds away, the last gap.  \<open>None\<close> means that there is nothing to analyse yet.\<close>

function back_up :: "int list \<Rightarrow> ring_ptr \<Rightarrow> ring_ptr \<Rightarrow> ring_ptr option" where
  "back_up buf start p = (if buf ! unat p < IR_MIN_GAP_LENGTH
     then if p = start then None else back_up buf start (p - 1) else Some p)"
  by pat_completeness auto
termination by (relation "measure (\<lambda>(buf, start, p). unat (p - start))") (auto intro: ring_back)

declare back_up.simps [simp del]

function learn_extent :: "int list \<Rightarrow> ring_ptr \<Rightarrow> ring_ptr \<Rightarrow> ring_ptr \<Rightarrow> int \<Rightarrow> ring_ptr option" where
  "learn_extent buf w start p timecounter =
     (if buf ! unat p = PUNK_INT then Some p
      else if p = w \<or> timecounter \<ge> 2000000 then back_up buf start p
      else learn_extent buf w start (p + 1) (timecounter + buf ! unat p))"
  by pat_completeness auto
termination by (relation "measure (\<lambda>(buf, w, start, p, t). unat (w - p))") (auto intro: ring_step)

declare learn_extent.simps [simp del]

text \<open>Pulses and spaces.\<close>

fun alternate :: "bool \<Rightarrow> int list \<Rightarrow> int list \<times> int list" where
  "alternate high [] = ([], [])"
| "alternate high (x # xs) = (case alternate (\<not> high) xs of (hs, ls) \<Rightarrow>
     if high then (x # hs, ls) else (hs, x # ls))"

text \<open>The starts of the packets: after each space that is a gap.  The array has 50 elements.\<close>

function find_packets :: "int list \<Rightarrow> ring_ptr \<Rightarrow> ring_ptr \<Rightarrow> bool \<Rightarrow> ring_ptr list \<Rightarrow> ring_ptr list option" where
  "find_packets nrm p e high dp =
     (if p = e then Some dp
      else if \<not> high \<and> nrm ! unat p \<ge> IR_MIN_GAP_LENGTH then
        if length dp < 50 then find_packets nrm (p + 1) e (\<not> high) (dp @ [p + 1]) else None
      else find_packets nrm (p + 1) e (\<not> high) dp)"
  by pat_completeness auto
termination by (relation "measure (\<lambda>(nrm, p, e, _). unat (e - p))") (auto intro: ring_step)

declare find_packets.simps [simp del]

text \<open>The header: every match moves the reader on by two.\<close>

definition learn_header :: "int list \<Rightarrow> (int \<times> nat) list \<Rightarrow> ring_ptr list \<Rightarrow> code_info \<Rightarrow> ring_ptr \<times> code_info" where
  "learn_header nrm hf dp ci = fold (\<lambda>(f, n) (p, ci).
     if nrm ! unat p = f \<and> (n = 1 \<or> n = length dp)
     then (p + 2, ci\<lparr>header := (nrm ! unat (dp ! 0), nrm ! unat (dp ! 0 + 1))\<rparr>) else (p, ci)) hf (dp ! 0, ci)"

text \<open>The gap.  The outer \<open>None\<close> is an index of \<^verbatim>\<open>-1\<close>, \<open>Some None\<close> is
  \<^verbatim>\<open>goto exit\<close>.\<close>

definition before_packet :: "int list \<Rightarrow> ring_ptr \<Rightarrow> int option" where
  "before_packet nrm p = (if p = 0 then None else Some (nrm ! unat (p - 1)))"

definition const_gap :: "int list \<Rightarrow> ring_ptr list \<Rightarrow> bool option" where
  "const_gap nrm dp = cfor [1..<length dp - 1] (\<lambda>i ok. do {
     a \<leftarrow> before_packet nrm (dp ! i);
     b \<leftarrow> before_packet nrm (dp ! (i + 1));
     Some (if a \<noteq> b then False else ok) }) True"

definition learn_gap :: "int list \<Rightarrow> ring_ptr list \<Rightarrow> code_info \<Rightarrow> code_info option option" where
  "learn_gap nrm dp ci =
     (let time1 = dataTime nrm (dp ! 0) (dp ! 1) in
      if list_all (\<lambda>i. \<not> above (pdiff time1 (dataTime nrm (dp ! i) (dp ! (i + 1)))) (3 / 10)) [1..<length dp - 1]
      then Some (Some (ci\<lparr>length_kind := PHIDGET_IR_LENGTH_CONSTANT, gap := time1\<rparr>))
      else do {
        c \<leftarrow> const_gap nrm dp;
        if c then do {
          g \<leftarrow> before_packet nrm (dp ! 1);
          Some (Some (ci\<lparr>length_kind := PHIDGET_IR_LENGTH_VARIABLE, gap := g\<rparr>)) }
        else Some None })"

text \<open>The repeat code or the toggle mask.\<close>

definition learn_repeat ::
    "int list \<Rightarrow> ring_ptr list \<Rightarrow> u8 list \<Rightarrow> code_info \<Rightarrow> code_info option option" where
  "learn_repeat nrm dp decoded ci =
     (let same = (\<lambda>a b a' b'. compareDataArrays nrm a b a' b' (3 / 10)) in
      if same (dp ! 0) (dp ! 1) (dp ! 1) (dp ! 2) then Some (Some ci)
      else if same (dp ! 1) (dp ! 2) (dp ! 2) (dp ! 3) then
        if fst (header ci) \<noteq> 0 \<and> same (dp ! 0 + 2) (dp ! 1) (dp ! 1 - 1) (dp ! 2 - 1)
        then Some (Some (ci\<lparr>repeat_code := (repeat_code ci)[0 := 0]\<rparr>))
        else let rep = window nrm (dp ! 1) (dp ! 2) in
          if length rep > IR_MAX_REPEAT_LENGTH then Some None
          else do {
            c \<leftarrow> blit (repeat_code ci) 0 (butlast rep @ [0]);
            Some (Some (ci\<lparr>repeat_code := c\<rparr>)) }
      else if same (dp ! 0) (dp ! 2) (dp ! 1) (dp ! 3) \<and> same (dp ! 1) (dp ! 3) (dp ! 2) (dp ! 4) then do {
        let start = (if fst (header ci) \<noteq> 0 then dp ! 1 + 2 else dp ! 1);
        (r, decoded2, ci2) \<leftarrow> decode_data (butlast (window nrm start (dp ! 2))) IR_MAX_CODE_DATA_LENGTH code_info_zero;
        if r \<noteq> EPHIDGET_OK then Some None
        else if encoding ci = encoding ci2 \<and> bitCount ci = bitCount ci2 \<and> length decoded = length decoded2 then do {
          m \<leftarrow> blit (toggle_mask ci) 0 (map2 (XOR) decoded decoded2);
          Some (Some (ci\<lparr>toggle_mask := m, min_repeat := 2\<rparr>)) }
        else Some None }
      else Some None)"

text \<open>From the normalised data to the event; \<open>None\<close> in the result means that no code was found.\<close>

definition learn_code ::
    "int list \<Rightarrow> (int \<times> nat) list \<Rightarrow> ring_ptr list \<Rightarrow> (u8 list \<times> code_info) option option" where
  "learn_code nrm hf dp =
     (case learn_header nrm hf dp learn_defaults of (start, ci) \<Rightarrow> do {
        (r, decoded, ci) \<leftarrow> decode_data (butlast (window nrm start (dp ! 1))) IR_MAX_CODE_DATA_LENGTH ci;
        if r \<noteq> EPHIDGET_OK then Some None
        else do {
          g \<leftarrow> learn_gap nrm dp ci;
          case g of None \<Rightarrow> Some None
          | Some ci \<Rightarrow> do {
              t \<leftarrow> learn_repeat nrm dp decoded ci;
              case t of None \<Rightarrow> Some None | Some ci \<Rightarrow> Some (Some (decoded, ci)) } } })"

definition learn_data :: "int \<Rightarrow> ir \<Rightarrow> (ir \<times> ir_event list) option" where
  "learn_data nan d =
     (let buf = dataBuffer d; w = dataWritePtr d in
      case seek_gap PUNK_INT buf w (learnReadPtr d) of (r, found) \<Rightarrow>
        let d = d\<lparr>learnReadPtr := r\<rparr> in
        if \<not> found \<or> r = w \<or> r + 1 = w then Some (d, [])
        else case learn_extent buf w (r + 1) (r + 1) 0 of
          None \<Rightarrow> Some (d, [])
        | Some e \<Rightarrow>
            let advance = (\<lambda>d. if buf ! unat e = PUNK_INT then d\<lparr>learnReadPtr := e\<rparr> else d) in
            case alternate True (window buf (r + 1) e) of (highs, lows) \<Rightarrow>
            if length highs + length lows < 10 then Some (advance d, [])
            else let
              hf = snd (get_times nan (sort highs) 20);
              lf = snd (get_times nan (sort lows) 20);
              nrm = normalize buf hf lf (r + 1) e True (dataBufferNormalized d);
              d = d\<lparr>dataBufferNormalized := nrm\<rparr> in do {
            dp \<leftarrow> find_packets nrm (r + 1) e True [r + 1];
            if length dp < 5 then Some (advance d, [])
            else do {
              c \<leftarrow> learn_code nrm hf dp;
              case c of
                None \<Rightarrow> Some (d\<lparr>learnReadPtr := e\<rparr>, [])
              | Some (decoded, ci) \<Rightarrow> do {
                  code \<leftarrow> blit (replicate IR_MAX_CODE_DATA_LENGTH 0) 0 decoded;
                  Some (d\<lparr>lastLearnedCode := code, lastLearnedCodeInfo := ci, lastLearnedCodeKnown := True,
                    learnReadPtr := e\<rparr>, FIRE d (Learn decoded ci)) } } })"

subsection \<open>Input\<close>

definition ring_put :: "int \<Rightarrow> ir \<Rightarrow> ir" where
  "ring_put x d = d\<lparr>dataBuffer := (dataBuffer d)[unat (dataWritePtr d) := x], dataWritePtr := dataWritePtr d + 1\<rparr>"

text \<open>One entry of a packet: two bytes, the first with the polarity in its highest bit.\<close>

definition entry_time :: "u8 \<Rightarrow> u8 \<Rightarrow> int" where
  "entry_time b1 b2 = (let us = (uint (b1 AND 0x7F) * 256 + uint b2) * 10 in if us \<ge> IR_MAX_DATA_us then PUNK_INT else us)"

definition input_polarity :: "u8 \<Rightarrow> int \<Rightarrow> ir \<Rightarrow> ir" where
  "input_polarity b1 us d =
     (if polarity d = 2 then
        let d = d\<lparr>polarity := b1 AND 0x80\<rparr> in if us \<noteq> PUNK_INT then ring_put PUNK_INT d else d
      else d\<lparr>polarity := polarity d XOR 0x80\<rparr>)"

definition input_entry :: "u8 \<Rightarrow> u8 \<Rightarrow> ir \<Rightarrow> ir" where
  "input_entry b1 b2 d =
     (let us = entry_time b1 b2;
          d = ring_put us (input_polarity b1 us d);
          d = (if dataWritePtr d = dataReadPtr d then d\<lparr>dataReadPtr := dataReadPtr d + 1\<rparr> else d) in
      if polarity d \<noteq> b1 AND 0x80 then
        d\<lparr>dataReadPtr := dataWritePtr d, userReadPtr := dataWritePtr d, polarity := polarity d XOR 0x80\<rparr>
      else d)"

text \<open>The loop over the entries, with the local array \<^verbatim>\<open>data[31]\<close>.\<close>

definition input_loop :: "u8 list \<Rightarrow> nat \<Rightarrow> ir \<Rightarrow> (ir \<times> int list) option" where
  "input_loop buffer n d = cfor [1..<n + 1] (\<lambda>i (d, data). do {
     b1 \<leftarrow> cread buffer (i * 2 - 1);
     b2 \<leftarrow> cread buffer (i * 2);
     if i - 1 < IR_MAX_DATA_PER_PACKET then Some (input_entry b1 b2 d, data @ [entry_time b1 b2]) else None }) (d, [])"

text \<open>\<^verbatim>\<open>CPhidgetIR_dataInput\<close>; the limit \<^verbatim>\<open>IR_MAX_GAP_LENGTH/1000000\<close> is a
  division of integers.\<close>

definition CPhidgetIR_dataInput :: "int \<Rightarrow> rat \<Rightarrow> ir \<Rightarrow> u8 list \<Rightarrow> int \<Rightarrow> (ephidget \<times> ir \<times> ir_event list) option" where
  "CPhidgetIR_dataInput nan now d buffer len =
     (if len < 0 then Some (EPHIDGET_INVALIDARG, d, [])
      else if deviceIDSpec (dev d) = PHIDID_IR \<and> 100 \<le> deviceVersion (dev d) \<and> deviceVersion (dev d) < 200 then do {
        n \<leftarrow> cread buffer 0;
        (d, data) \<leftarrow> input_loop buffer (unat n) d;
        if n > 0 then
          let d = d\<lparr>lastDataTime := now, delayCode := True\<rparr> in do {
          (r, d1, ev1) \<leftarrow> analyze_data nan d True;
          (d2, ev2) \<leftarrow> learn_data nan d1;
          Some (EPHIDGET_OK, d2, FIRE d (RawData data) @ ev1 @ ev2) }
        else
          let duration = now - lastDataTime d in do {
          (d1, ev1) \<leftarrow> (if duration > of_int (IR_MAX_GAP_LENGTH div 1000000) \<and> delayCode d
             then do { (r, d, ev) \<leftarrow> analyze_data nan d False; Some (d\<lparr>delayCode := False\<rparr>, ev) }
             else Some (d, []));
          (d2, ev2) \<leftarrow> (if duration > 3 / 10 then learn_data nan d1 else Some (d1, []));
          Some (EPHIDGET_OK, d2, ev1 @ ev2) } }
      else Some (EPHIDGET_UNEXPECTED, d, []))"

subsection \<open>The results\<close>

fun read_ring :: "int list \<Rightarrow> ring_ptr \<Rightarrow> nat \<Rightarrow> ring_ptr \<Rightarrow> int list \<Rightarrow> int list \<times> ring_ptr" where
  "read_ring buf w 0 r data = (data, r)"
| "read_ring buf w (Suc n) r data =
     (if r = w then (data, r) else read_ring buf w n (r + 1) (data @ [buf ! unat r]))"

text \<open>\<^verbatim>\<open>CPhidgetIR_getRawData\<close> into an array of at least \<^verbatim>\<open>*dataLength\<close> elements:
  the data, whose length is the new \<^verbatim>\<open>*dataLength\<close>.\<close>

definition CPhidgetIR_getRawData :: "ir \<Rightarrow> int \<Rightarrow> ephidget \<times> ir \<times> int list" where
  "CPhidgetIR_getRawData d dataLength =
     (if ir_checks d \<noteq> EPHIDGET_OK then (ir_checks d, d, [])
      else let n = (if dataLength smod 2 = 1 then dataLength - 1 else dataLength) in
        case read_ring (dataBuffer d) (dataWritePtr d) (nat n) (userReadPtr d) [] of (data, r) \<Rightarrow>
          if odd (length data) then (EPHIDGET_OK, d\<lparr>userReadPtr := r - 1\<rparr>, butlast data)
          else (EPHIDGET_OK, d\<lparr>userReadPtr := r\<rparr>, data))"

text \<open>The result, \<^verbatim>\<open>*dataLength\<close>, the data and \<^verbatim>\<open>*bitCount\<close>.\<close>

definition CPhidgetIR_getLastCode :: "ir \<Rightarrow> int \<Rightarrow> (ephidget \<times> int \<times> u8 list \<times> int option) option" where
  "CPhidgetIR_getLastCode d dataLength =
     (if ir_checks d \<noteq> EPHIDGET_OK then Some (ir_checks d, dataLength, [], None)
      else if \<not> lastCodeKnown d then Some (EPHIDGET_UNKNOWNVAL, dataLength, [], None)
      else let n = data_size (bitCount (lastCodeInfo d)) in
        if dataLength < n then Some (EPHIDGET_NOMEMORY, n, [], Some (bitCount (lastCodeInfo d)))
        else if n < 0 \<or> int (length (lastCode d)) < n then None
        else Some (EPHIDGET_OK, n, take (nat n) (lastCode d), Some (bitCount (lastCodeInfo d))))"

definition CPhidgetIR_getLastLearnedCode :: "ir \<Rightarrow> int \<Rightarrow> (ephidget \<times> int \<times> u8 list \<times> code_info option) option" where
  "CPhidgetIR_getLastLearnedCode d dataLength =
     (if ir_checks d \<noteq> EPHIDGET_OK then Some (ir_checks d, dataLength, [], None)
      else if \<not> lastLearnedCodeKnown d then Some (EPHIDGET_UNKNOWNVAL, dataLength, [], None)
      else let n = data_size (bitCount (lastLearnedCodeInfo d)) in
        if dataLength < n then Some (EPHIDGET_NOMEMORY, n, [], None)
        else if n < 0 \<or> int (length (lastLearnedCode d)) < n then None
        else Some (EPHIDGET_OK, n, take (nat n) (lastLearnedCode d), Some (lastLearnedCodeInfo d)))"

end
