(* ===== verification/Ir_Times.thy ===== *)
theory Ir_Times
  imports Ir_Receive
begin

text \<open>
  The clustering of received times.  Two times are near when they differ by at most 10 percent and far when they
  differ by more than 20 percent.  When every two times of a signal are near or far, \<^verbatim>\<open>get_times\<close> finds
  exactly the groups of times that are near each other, and the normalisation replaces each time by the average
  of its group.
\<close>

subsection \<open>Near and far\<close>

definition near :: "int \<Rightarrow> int \<Rightarrow> bool" where
  "near x y \<longleftrightarrow> 19 * x \<le> 21 * y \<and> 19 * y \<le> 21 * x"

definition far :: "int \<Rightarrow> int \<Rightarrow> bool" where
  "far x y \<longleftrightarrow> 9 * x > 11 * y \<or> 9 * y > 11 * x"

definition sane :: "int \<Rightarrow> bool" where
  "sane x \<longleftrightarrow> 0 < x \<and> x < IR_MAX_DATA_us"

lemma near_sym: "near x y \<longleftrightarrow> near y x" and far_sym: "far x y \<longleftrightarrow> far y x"
  by (auto simp: near_def far_def)

lemma near_refl: "0 < x \<Longrightarrow> near x x"
  by (simp add: near_def)

lemma near_not_far: "0 < x \<Longrightarrow> 0 < y \<Longrightarrow> near x y \<Longrightarrow> \<not> far x y"
  by (auto simp: near_def far_def)

lemma near_trans: "0 < x \<Longrightarrow> near x y \<Longrightarrow> near y z \<Longrightarrow> near x z \<or> far x z \<Longrightarrow> near x z"
  by (auto simp: near_def far_def)

lemma near_between: "near a b \<Longrightarrow> a \<le> x \<Longrightarrow> x \<le> b \<Longrightarrow> a \<le> y \<Longrightarrow> y \<le> b \<Longrightarrow> near x y"
  by (auto simp: near_def)

lemma far_between: "far x a \<Longrightarrow> far x b \<Longrightarrow> near a b \<Longrightarrow> 0 < x \<Longrightarrow> a \<le> y \<Longrightarrow> y \<le> b \<Longrightarrow> far x y"
  by (auto simp: near_def far_def)

lemma wrap32_id: "- (2 ^ 31) \<le> x \<Longrightarrow> x < 2 ^ 31 \<Longrightarrow> wrap32 x = x"
  by (simp add: wrap32_def)

lemma pdiff_sane:
  assumes "sane x" and "sane y"
  shows "pdiff x y = Some (2 * of_int \<bar>x - y\<bar> / of_int (x + y))"
proof -
  have "wrap32 (x + y) = x + y" "wrap32 (x - y) = x - y" "x + y \<noteq> 0"
    using assms by (simp_all add: sane_def ir_times wrap32_id)
  then show ?thesis by (simp add: pdiff_def Let_def)
qed

text \<open>Comparing the quotient with a number of tenths is a comparison of integers.\<close>

lemma frac_le:
  assumes "0 < s" and "0 < k"
  shows "2 * of_int a / of_int s \<le> (of_int c / of_int k :: rat) \<longleftrightarrow> 2 * a * k \<le> c * s"
proof -
  have "2 * of_int a / of_int s \<le> (of_int c / of_int k :: rat) \<longleftrightarrow> (of_int (2 * a * k) :: rat) \<le> of_int (c * s)"
    using assms by (simp add: field_simps)
  then show ?thesis by (simp only: of_int_le_iff)
qed

lemma pdiff_le:
  assumes "sane x" and "sane y" and "0 < k"
  shows "(case pdiff x y of None \<Rightarrow> False | Some d \<Rightarrow> d \<le> of_int c / of_int k) \<longleftrightarrow> 2 * \<bar>x - y\<bar> * k \<le> c * (x + y)"
    and "above (pdiff x y) (of_int c / of_int k) \<longleftrightarrow> \<not> 2 * \<bar>x - y\<bar> * k \<le> c * (x + y)"
  using frac_le [of "x + y" k "\<bar>x - y\<bar>" c] assms
  by (auto simp: pdiff_sane above_def sane_def not_le [symmetric] simp del: of_int_add of_int_abs)

lemma pdiff_near: "sane x \<Longrightarrow> sane y \<Longrightarrow> near x y \<longleftrightarrow> \<not> above (pdiff x y) (1 / 10)"
  using pdiff_le(2) [of x y 10 1] by (auto simp: near_def abs_if)

lemma pdiff_far: "sane x \<Longrightarrow> sane y \<Longrightarrow> far x y \<longleftrightarrow> above (pdiff x y) (2 / 10)"
  using pdiff_le(2) [of x y 10 2] by (auto simp: far_def abs_if)

lemma boundary_far:
  assumes "sane x" and "sane y" and "near x y \<or> far x y"
  shows "boundary avg (pdiff x y) \<longleftrightarrow> far x y"
proof (cases "far x y")
  case True
  then show ?thesis using assms by (simp add: boundary_def pdiff_far)
next
  case False
  then have "near x y" using assms by simp
  then show ?thesis using assms False by (simp add: boundary_def pdiff_near pdiff_far)
qed

subsection \<open>Groups\<close>

text \<open>A set of times of which every two are near or far.\<close>

definition banded :: "int set \<Rightarrow> bool" where
  "banded S \<longleftrightarrow> (\<forall>x \<in> S. sane x \<and> (\<forall>y \<in> S. near x y \<or> far x y))"

fun groups :: "int list \<Rightarrow> int list \<Rightarrow> int list list" where
  "groups sect [] = [rev sect]"
| "groups sect (t # ts) = (if far t (hd sect) then rev sect # groups [t] ts else groups (t # sect) ts)"

abbreviation summary :: "int \<Rightarrow> int list \<Rightarrow> int \<times> nat" where
  "summary nan c \<equiv> (section_time nan c, length c)"

lemma groups_not_Nil [simp]: "groups sect ts \<noteq> []"
  by (induction sect ts rule: groups.induct) auto

lemma get_times_loop_groups:
  assumes "sect \<noteq> []" and "banded (set (hd sect # ts))" and "length out + length (groups sect ts) \<le> cap"
  shows "\<exists>sect' out'. get_times_loop nan cap ts sect avg sm out = (False, sect', out') \<and>
    out' @ [summary nan (rev sect')] = out @ map (summary nan) (groups sect ts)"
  using assms
proof (induction ts arbitrary: sect avg sm out)
  case (Cons t ts)
  have b: "banded (set (t # ts))" using Cons.prems(2) by (auto simp: banded_def)
  have bd: "boundary avg (pdiff t (hd sect)) \<longleftrightarrow> far t (hd sect)"
    by (rule boundary_far) (use Cons.prems(2) in \<open>auto simp: banded_def\<close>)
  show ?case
  proof (cases "far t (hd sect)")
    case True
    let ?out = "out @ [summary nan (rev sect)]"
    have "length ?out + length (groups [t] ts) \<le> cap" using Cons.prems(3) True by simp
    moreover have "length (groups [t] ts) \<ge> 1" by (simp add: Suc_le_eq)
    ultimately show ?thesis using Cons.IH [of "[t]" ?out "Some 0" "Some 0"] b True bd by (simp add: Let_def)
  next
    case False
    have c: "length out + length (groups (t # sect) ts) \<le> cap" using Cons.prems(3) False by simp
    show ?thesis using Cons.IH [of "t # sect", OF _ _ c] b False bd by (simp add: Let_def)
  qed
qed simp

text \<open>The groups of a list.\<close>

definition times_groups :: "int list \<Rightarrow> int list list" where
  "times_groups ts = groups (take 1 ts) (tl ts)"

lemma get_times_groups:
  assumes "ts \<noteq> []" and "banded (set ts)" and "length (times_groups ts) \<le> cap"
  shows "get_times nan ts cap = (EPHIDGET_OK, map (summary nan) (times_groups ts))"
proof -
  obtain t us where ts: "ts = t # us" using assms(1) by (cases ts) auto
  have "length ([] :: (int \<times> nat) list) + length (groups [t] us) \<le> cap" using assms(3) by (simp add: ts times_groups_def)
  from get_times_loop_groups [OF _ _ this, of nan "Some 0" "Some 0"] assms(2)
  obtain sect' out' where "get_times_loop nan cap us [t] (Some 0) (Some 0) [] = (False, sect', out')"
    "out' @ [summary nan (rev sect')] = map (summary nan) (groups [t] us)" by (auto simp: ts)
  then show ?thesis by (simp add: get_times_def ts times_groups_def)
qed

lemma concat_groups: "concat (groups sect ts) = rev sect @ ts"
  by (induction sect ts rule: groups.induct) auto

text \<open>On a sorted list the groups are the classes of near times.\<close>

fun classes :: "int list list \<Rightarrow> bool" where
  "classes [] \<longleftrightarrow> True"
| "classes (c # cs) \<longleftrightarrow> c \<noteq> [] \<and> (\<forall>x \<in> set c. \<forall>y \<in> set c. near x y) \<and>
     (\<forall>x \<in> set c. \<forall>y \<in> set (concat cs). far x y) \<and> classes cs"

lemma groups_classes:
  assumes "sect \<noteq> []" and "sorted (rev sect @ ts)" and "banded (set (rev sect @ ts))"
    and "\<forall>x \<in> set sect. \<forall>y \<in> set sect. near x y"
  shows "classes (groups sect ts)"
  using assms
proof (induction sect ts rule: groups.induct)
  case (1 sect)
  then show ?case by simp
next
  case (2 sect t ts)
  have pos: "0 < x" if "x \<in> set sect \<union> set (t # ts)" for x using "2.prems"(3) that by (auto simp: banded_def sane_def)
  have h: "hd sect \<in> set sect" "\<forall>x \<in> set sect. x \<le> hd sect"
    using "2.prems"(1,2) by (cases sect; auto simp: sorted_append)+
  show ?case
  proof (cases "far t (hd sect)")
    case True
    have "far x y" if x: "x \<in> set sect" and y: "y \<in> set (t # ts)" for x y
    proof -
      have "hd sect \<le> t" "t \<le> y" "x \<le> hd sect" using "2.prems"(2) h x y by (auto simp: sorted_append)
      then show ?thesis using True pos x y by (auto simp: far_def)
    qed
    then have "\<forall>x \<in> set (rev sect). \<forall>y \<in> set (concat (groups [t] ts)). far x y" by (simp add: concat_groups)
    moreover have "classes (groups [t] ts)"
      by (rule "2.IH"(1) [OF True]) (use "2.prems" pos near_refl in \<open>auto simp: banded_def sorted_append\<close>)
    ultimately show ?thesis using True "2.prems"(1,4) by simp
  next
    case False
    have n: "near t (hd sect)" using False "2.prems"(3) h(1) by (auto simp: banded_def)
    have "near t x" if "x \<in> set sect" for x
      using near_trans [OF _ n, of x] "2.prems"(3,4) h(1) pos that by (auto simp: banded_def)
    then have "classes (groups (t # sect) ts)"
      by (intro "2.IH"(2) [OF False]) (use "2.prems" pos near_refl near_sym in \<open>auto\<close>)
    then show ?thesis using False by simp
  qed
qed

lemma times_groups_classes:
  assumes "ts \<noteq> []" and "sorted ts" and "banded (set ts)"
  shows "classes (times_groups ts)" and "concat (times_groups ts) = ts"
proof -
  obtain t us where ts: "ts = t # us" using assms(1) by (cases ts) auto
  show "classes (times_groups ts)" unfolding times_groups_def ts
    using assms by (intro groups_classes) (auto simp: ts banded_def sane_def near_refl)
  show "concat (times_groups ts) = ts" by (simp add: times_groups_def ts concat_groups)
qed

subsection \<open>Averages\<close>

lemma section_time_between:
  assumes "c \<noteq> []" and "\<forall>x \<in> set c. a \<le> x \<and> x \<le> b" and "0 \<le> a"
  shows "a \<le> section_time nan c \<and> section_time nan c \<le> b"
proof -
  let ?n = "length c"
  have "int ?n * a \<le> sum_list c \<and> sum_list c \<le> int ?n * b" using assms(2) by (induction c) (auto simp: algebra_simps)
  then have "(of_int (int ?n * a) :: rat) \<le> of_int (sum_list c)" "(of_int (sum_list c) :: rat) \<le> of_int (int ?n * b)"
    by (simp_all only: of_int_le_iff)
  then have q: "(of_int a :: rat) \<le> of_int (sum_list c) / of_nat ?n" "of_int (sum_list c) / of_nat ?n \<le> (of_int b :: rat)"
    using assms(1) by (simp_all add: field_simps)
  let ?q = "of_int (sum_list c) / of_nat ?n :: rat"
  have "0 \<le> ?q" using q(1) assms(3) by (meson of_int_0_le_iff order_trans)
  then have "section_time nan c = \<lfloor>?q + 1 / 2\<rfloor>" using assms(1) by (simp add: section_time_def c_round_def)
  moreover have "a \<le> \<lfloor>?q + 1 / 2\<rfloor>" using q(1) by (simp add: le_floor_iff)
  moreover have "\<lfloor>?q + 1 / 2\<rfloor> \<le> b" using q(2) by (simp add: floor_le_iff)
  ultimately show ?thesis by simp
qed

text \<open>So the average of a class belongs to the class.\<close>

lemma section_time_class:
  assumes "c \<noteq> []" and "\<forall>x \<in> set c. \<forall>y \<in> set c. near x y" and "\<forall>x \<in> set c. sane x"
  shows "sane (section_time nan c)" and "x \<in> set c \<Longrightarrow> near x (section_time nan c)"
    and "sane z \<Longrightarrow> \<forall>x \<in> set c. far z x \<Longrightarrow> far z (section_time nan c)"
proof -
  have m: "Min (set c) \<in> set c" "Max (set c) \<in> set c" using assms(1) by simp_all
  have b: "\<forall>x \<in> set c. Min (set c) \<le> x \<and> x \<le> Max (set c)" by simp
  have "0 \<le> Min (set c)" using assms(3) m(1) by (auto simp: sane_def)
  note t = section_time_between [OF assms(1) b this, of nan]
  show "sane (section_time nan c)" using assms(3) m t by (fastforce simp: sane_def)
  show "near x (section_time nan c)" if "x \<in> set c"
    using near_between [of "Min (set c)" "Max (set c)" x "section_time nan c"] assms(2) m b t that by simp
  show "far z (section_time nan c)" if "sane z" "\<forall>x \<in> set c. far z x"
    using far_between [of z "Min (set c)" "Max (set c)" "section_time nan c"] assms(2) m t that by (simp add: sane_def)
qed

subsection \<open>Normalisation\<close>

definition finals_ok :: "int \<Rightarrow> int \<Rightarrow> (int \<times> nat) list \<Rightarrow> bool" where
  "finals_ok x f finals \<longleftrightarrow> f \<in> fst ` set finals \<and> near x f \<and> sane x \<and>
     (\<forall>g \<in> fst ` set finals. sane g \<and> (g = f \<or> far x g))"

lemma nearest_eq:
  assumes "finals_ok x f finals"
  shows "nearest x finals = f"
proof -
  define step where "step = (\<lambda>(f, _ :: nat) (newtime, best).
     case pdiff x f of None \<Rightarrow> (newtime, best)
     | Some diff \<Rightarrow> if diff \<le> 3 / 10 \<and> diff < best then (f, diff) else (newtime, best))"
  have sf: "sane f" and sx: "sane x" and nf: "near x f" using assms by (auto simp: finals_ok_def)
  obtain d where d: "pdiff x f = Some d" using sx sf by (simp add: pdiff_sane)
  have d10: "d \<le> 1 / 10" using nf pdiff_near [OF sx sf] d by (simp add: above_def)
  have g10: "\<exists>e. pdiff x g = Some e \<and> e > 2 / 10" if "sane g" "far x g" for g
    using pdiff_far [OF sx that(1)] that by (auto simp: above_def split: option.splits)
  have one: "(newtime, best) = (f, d) \<or> best > 1 / 10 \<Longrightarrow> h \<in> set finals \<Longrightarrow>
      step h (newtime, best) = (f, d) \<or> fst h \<noteq> f \<and> snd (step h (newtime, best)) > 1 / 10" for h newtime best
  proof -
    assume i: "(newtime, best) = (f, d) \<or> best > 1 / 10" and h: "h \<in> set finals"
    obtain g n where [simp]: "h = (g, n)" by (cases h)
    show ?thesis
    proof (cases "g = f")
      case True
      with i d d10 show ?thesis by (auto simp: step_def)
    next
      case False
      with h assms have "sane g" "far x g" by (force simp: finals_ok_def)+
      then obtain e where e: "pdiff x g = Some e" "e > 2 / 10" using g10 by blast
      with i d10 False show ?thesis by (auto simp: step_def)
    qed
  qed
  have "fold step fs (newtime, best) = (f, d) \<or> f \<notin> fst ` set fs \<and> snd (fold step fs (newtime, best)) > 1 / 10"
    if "set fs \<subseteq> set finals" "(newtime, best) = (f, d) \<or> best > 1 / 10" for fs newtime best
    using that
  proof (induction fs arbitrary: newtime best)
    case (Cons h fs)
    obtain nt b where s: "step h (newtime, best) = (nt, b)" by (cases "step h (newtime, best)")
    have "h \<in> set finals" using Cons.prems(1) by simp
    from one [OF Cons.prems(2) this] have o: "(nt, b) = (f, d) \<or> fst h \<noteq> f \<and> b > 1 / 10" by (simp add: s)
    show ?case
    proof (cases "(nt, b) = (f, d)")
      case True
      have "fold step fs (f, d) = (f, d)"
        if "set fs \<subseteq> set finals" for fs
        using that
      proof (induction fs)
        case (Cons k fs)
        have k: "k \<in> set finals" using Cons.prems by simp
        have "step k (f, d) = (f, d)"
        proof (cases "fst k = f")
          case True
          then show ?thesis using d by (cases k) (simp add: step_def)
        next
          case False
          then have "sane (fst k)" "far x (fst k)" using k assms by (auto simp: finals_ok_def)
          then obtain e where "pdiff x (fst k) = Some e" "e > 2 / 10" using g10 by blast
          then show ?thesis using d10 by (cases k) (simp add: step_def)
        qed
        with Cons show ?case by simp
      qed simp
      then show ?thesis using Cons.prems(1) True s by simp
    next
      case False
      then have "fst h \<noteq> f" "b > 1 / 10" using o by auto
      then show ?thesis using Cons.IH [of nt b] Cons.prems(1) s by auto
    qed
  qed simp
  from this [of finals "fst (hd finals)" 1] assms
  have "fold step finals (fst (hd finals), 1) = (f, d)" by (auto simp: finals_ok_def)
  then show ?thesis by (simp add: nearest_def step_def)
qed

end
