(* ===== verification/Ir_Analyze.thy ===== *)
theory Ir_Analyze
  imports Ir_Times
begin

text \<open>
  From the ring buffer to the decoder: what \<^verbatim>\<open>analyze_data\<close> hands to \<^verbatim>\<open>decode_data\<close>
  when the ring holds a gap, a signal of pulses and spaces, and another gap.
\<close>

subsection \<open>Groups of a signal\<close>

text \<open>The normalised value of a time among the times \<open>ts\<close>.\<close>

definition finals :: "int \<Rightarrow> int list \<Rightarrow> (int \<times> nat) list" where
  "finals nan ts = snd (get_times nan (sort ts) 20)"

definition rep :: "int \<Rightarrow> int list \<Rightarrow> int \<Rightarrow> int" where
  "rep nan ts x = nearest x (finals nan ts)"

lemma sort_Nil_iff [simp]: "sort xs = [] \<longleftrightarrow> xs = []"
  by (metis length_0_conv length_sort)

lemma classes_card:
  assumes "classes cs" and "\<forall>x \<in> set (concat cs). 0 < x"
    and "\<And>x y. x \<in> set (concat cs) \<Longrightarrow> y \<in> set (concat cs) \<Longrightarrow> f x = f y \<Longrightarrow> near x y"
  shows "length cs \<le> card (f ` set (concat cs))"
  using assms
proof (induction cs)
  case (Cons c cs)
  obtain x where x: "x \<in> set c" using Cons.prems(1) by (cases c) auto
  have "f x \<notin> f ` set (concat cs)"
  proof
    assume "f x \<in> f ` set (concat cs)"
    then obtain y where y: "y \<in> set (concat cs)" "f x = f y" by auto
    have "near x y" by (rule Cons.prems(3)) (use x y in auto)
    moreover have "far x y" using Cons.prems(1) x y(1) by auto
    moreover have "0 < x" "0 < y" using Cons.prems(2) x y(1) by auto
    ultimately show False using near_not_far by blast
  qed
  then have "card (insert (f x) (f ` set (concat cs))) = Suc (card (f ` set (concat cs)))" by simp
  moreover have "insert (f x) (f ` set (concat cs)) \<subseteq> f ` set (concat (c # cs))" using x by auto
  then have "card (insert (f x) (f ` set (concat cs))) \<le> card (f ` set (concat (c # cs)))"
    by (rule card_mono [rotated]) simp
  moreover have "length cs \<le> card (f ` set (concat cs))" by (rule Cons.IH) (use Cons.prems in auto)
  ultimately show ?case by simp
qed simp

text \<open>A signal with at most 20 classes.\<close>

definition clear :: "int list \<Rightarrow> bool" where
  "clear ts \<longleftrightarrow> ts \<noteq> [] \<and> banded (set ts) \<and> length (times_groups (sort ts)) \<le> 20"

lemma clearI:
  assumes "ts \<noteq> []" and "banded (set ts)" and "\<And>x y. x \<in> set ts \<Longrightarrow> y \<in> set ts \<Longrightarrow> f x = f y \<Longrightarrow> near x y"
    and "card (f ` set ts) \<le> 20"
  shows "clear ts"
proof -
  have g: "classes (times_groups (sort ts))" "concat (times_groups (sort ts)) = sort ts"
    using times_groups_classes [of "sort ts"] assms(1,2) by auto
  have "length (times_groups (sort ts)) \<le> card (f ` set (concat (times_groups (sort ts))))"
    by (rule classes_card [OF g(1)]) (use g(2) assms in \<open>auto simp: banded_def sane_def\<close>)
  with g(2) assms show ?thesis by (simp add: clear_def)
qed

text \<open>The class of an element.\<close>

lemma classes_of:
  assumes "classes cs" and "x \<in> set (concat cs)" and "\<forall>x \<in> set (concat cs). sane x"
  obtains c where "c \<in> set cs" "x \<in> set c" "set c = {y \<in> set (concat cs). near x y}"
    "length c = length (filter (near x) (concat cs))" "\<And>c'. c' \<in> set cs \<Longrightarrow> c' = c \<or> (\<forall>y \<in> set c'. far x y)"
  using assms
proof (induction cs arbitrary: thesis)
  case (Cons c cs)
  have pos: "\<And>y. y \<in> set (concat (c # cs)) \<Longrightarrow> 0 < y" using Cons.prems(4) by (auto simp: sane_def)
  show ?case
  proof (cases "x \<in> set c")
    case True
    have f: "far x y" if "y \<in> set (concat cs)" for y using Cons.prems(2) True that by auto
    then have nf: "\<not> near x y" if "y \<in> set (concat cs)" for y
      using near_not_far [of x y] pos that True by auto
    have n: "\<forall>y \<in> set c. near x y" using Cons.prems(2) True by simp
    have "filter (near x) c = c" using n by simp
    moreover have "filter (near x) (concat cs) = []" using nf by (simp add: filter_empty_conv)
    ultimately have l: "length c = length (filter (near x) (concat (c # cs)))" by (simp del: filter_concat)
    have s: "set c = {y \<in> set (concat (c # cs)). near x y}" using n nf by auto
    have o: "c' = c \<or> (\<forall>y \<in> set c'. far x y)" if "c' \<in> set (c # cs)" for c' using that f by auto
    show ?thesis by (rule Cons.prems(1) [OF _ True s l o]) simp
  next
    case False
    then have x: "x \<in> set (concat cs)" using Cons.prems(3) by simp
    have f: "far x y" if "y \<in> set c" for y using Cons.prems(2) x that by (subst far_sym) auto
    then have nf: "\<not> near x y" if "y \<in> set c" for y using near_not_far [of x y] pos that x by auto
    have cs: "classes cs" "\<forall>x \<in> set (concat cs). sane x" using Cons.prems(2,4) by auto
    obtain c0 where c0: "c0 \<in> set cs" "x \<in> set c0" "set c0 = {y \<in> set (concat cs). near x y}"
      "length c0 = length (filter (near x) (concat cs))" "\<And>c'. c' \<in> set cs \<Longrightarrow> c' = c0 \<or> (\<forall>y \<in> set c'. far x y)"
      using Cons.IH [OF _ cs(1) x cs(2)] by blast
    have "filter (near x) c = []" using nf by (simp add: filter_empty_conv)
    then have l: "length c0 = length (filter (near x) (concat (c # cs)))" using c0(4) by (simp del: filter_concat)
    have s: "set c0 = {y \<in> set (concat (c # cs)). near x y}" using c0(3) nf by auto
    have o: "c' = c0 \<or> (\<forall>y \<in> set c'. far x y)" if "c' \<in> set (c # cs)" for c' using that f c0(5) by auto
    show ?thesis by (rule Cons.prems(1) [OF _ c0(2) s l o]) (simp add: c0(1))
  qed
qed simp

lemma classes_mem: "classes cs \<Longrightarrow> c \<in> set cs \<Longrightarrow> c \<noteq> [] \<and> (\<forall>x \<in> set c. \<forall>y \<in> set c. near x y)"
  by (induction cs) auto

lemma finals_groups: "clear ts \<Longrightarrow> finals nan ts = map (summary nan) (times_groups (sort ts))"
  using get_times_groups [of "sort ts" 20 nan] by (simp add: finals_def clear_def)

lemma rep_class:
  assumes "clear ts" and "x \<in> set ts"
  shows "\<exists>c \<in> set (times_groups (sort ts)). x \<in> set c \<and> set c = {y \<in> set ts. near x y} \<and>
    length c = length (filter (near x) ts) \<and> rep nan ts x = section_time nan c \<and>
    (\<forall>c' \<in> set (times_groups (sort ts)). c' = c \<or> (\<forall>y \<in> set c'. far x y))"
proof -
  let ?cs = "times_groups (sort ts)"
  have g: "classes ?cs" "concat ?cs = sort ts" "\<forall>x \<in> set ts. sane x"
    using times_groups_classes [of "sort ts"] assms(1) by (auto simp: clear_def banded_def)
  obtain c where c: "c \<in> set ?cs" "x \<in> set c" "set c = {y \<in> set ts. near x y}"
    "length c = length (filter (near x) (sort ts))" "\<And>c'. c' \<in> set ?cs \<Longrightarrow> c' = c \<or> (\<forall>y \<in> set c'. far x y)"
    using classes_of [OF g(1), of x] g(2,3) assms(2) by (auto simp: g(2))
  have cl: "c' \<noteq> [] \<and> (\<forall>x \<in> set c'. \<forall>y \<in> set c'. near x y) \<and> (\<forall>x \<in> set c'. sane x)" if "c' \<in> set ?cs" for c'
  proof -
    have "set c' \<subseteq> set ts" using g(2) that by (metis UN_upper set_concat set_sort)
    then show ?thesis using classes_mem [OF g(1) that] g(3) by auto
  qed
  note t = section_time_class [where nan = nan]
  have "finals_ok x (section_time nan c) (finals nan ts)"
    unfolding finals_ok_def finals_groups [OF assms(1)]
  proof (intro conjI ballI)
    show "section_time nan c \<in> fst ` set (map (summary nan) ?cs)" using c(1) by force
    show "near x (section_time nan c)" using t(2) cl [OF c(1)] c(2) by blast
    show "sane x" using g(3) assms(2) by simp
    fix s assume "s \<in> fst ` set (map (summary nan) ?cs)"
    then obtain c' where c': "c' \<in> set ?cs" "s = section_time nan c'" by auto
    show "sane s" using t(1) cl c' by blast
    show "s = section_time nan c \<or> far x s" using c(5) [OF c'(1)] t(3) [of c' x] cl [OF c'(1)] c'(2) \<open>sane x\<close> by auto
  qed
  then have "rep nan ts x = section_time nan c" by (simp add: rep_def nearest_eq)
  moreover have "length (filter (near x) (sort ts)) = length (filter (near x) ts)"
    by (simp add: filter_sort)
  ultimately show ?thesis using c by auto
qed

lemma clear_sane: "clear ts \<Longrightarrow> x \<in> set ts \<Longrightarrow> sane x"
  by (simp add: clear_def banded_def)

lemma rep_between:
  assumes "clear ts" and "x \<in> set ts"
  obtains a b where "a \<in> set ts" "near x a" "b \<in> set ts" "near x b" "a \<le> rep nan ts x" "rep nan ts x \<le> b"
proof -
  obtain c where c: "x \<in> set c" "set c = {y \<in> set ts. near x y}" "rep nan ts x = section_time nan c"
    using rep_class [OF assms, of nan] by blast
  then have n: "c \<noteq> []" by auto
  then have m: "Min (set c) \<in> set c" "Max (set c) \<in> set c" by simp_all
  have "0 \<le> y" if "y \<in> set c" for y using that c(2) clear_sane [OF assms(1), of y] by (simp add: sane_def)
  then have "0 \<le> Min (set c)" using m(1) .
  then have "Min (set c) \<le> section_time nan c \<and> section_time nan c \<le> Max (set c)"
    by (intro section_time_between [OF n]) simp_all
  with m c show thesis by (intro that [of "Min (set c)" "Max (set c)"]) auto
qed

lemma rep_near:
  assumes "clear ts" and "x \<in> set ts"
  shows "near x (rep nan ts x)" and "sane (rep nan ts x)"
proof -
  obtain a b where *: "a \<in> set ts" "near x a" "b \<in> set ts" "near x b" "a \<le> rep nan ts x" "rep nan ts x \<le> b"
    using rep_between [OF assms, of nan] by blast
  then show "near x (rep nan ts x)" by (simp add: near_def)
  show "sane (rep nan ts x)" using * clear_sane [OF assms(1)] by (force simp: sane_def)
qed

lemma rep_same:
  assumes "clear ts" and "x \<in> set ts" and "y \<in> set ts" and "near x y"
  shows "rep nan ts x = rep nan ts y"
proof -
  obtain c where c: "rep nan ts x = section_time nan c"
    "\<And>c'. c' \<in> set (times_groups (sort ts)) \<Longrightarrow> c' = c \<or> (\<forall>y \<in> set c'. far x y)"
    using rep_class [OF assms(1,2), of nan] by blast
  obtain c' where c': "c' \<in> set (times_groups (sort ts))" "y \<in> set c'" "rep nan ts y = section_time nan c'"
    using rep_class [OF assms(1,3), of nan] by blast
  have "\<not> far x y" using near_not_far [OF _ _ assms(4)] clear_sane [OF assms(1)] assms(2,3) by (simp add: sane_def)
  with c(2) c' have "c' = c" by blast
  with c c' show ?thesis by simp
qed

lemma rep_count:
  assumes "clear ts" and "x \<in> set ts"
  shows "(rep nan ts x, n) \<in> set (finals nan ts) \<longleftrightarrow> n = length (filter (near x) ts)"
proof -
  obtain c where c: "c \<in> set (times_groups (sort ts))" "length c = length (filter (near x) ts)"
    "rep nan ts x = section_time nan c"
    "\<And>c'. c' \<in> set (times_groups (sort ts)) \<Longrightarrow> c' = c \<or> (\<forall>y \<in> set c'. far x y)"
    using rep_class [OF assms, of nan] by blast
  have "c' = c" if c': "c' \<in> set (times_groups (sort ts))" "section_time nan c' = rep nan ts x" for c'
  proof (rule ccontr)
    assume "c' \<noteq> c"
    then have f: "\<forall>y \<in> set c'. far x y" using c(4) c'(1) by blast
    have g: "concat (times_groups (sort ts)) = sort ts" and k: "classes (times_groups (sort ts))"
      using times_groups_classes [of "sort ts"] assms(1) by (auto simp: clear_def)
    have "c' \<noteq> [] \<and> (\<forall>x \<in> set c'. \<forall>y \<in> set c'. near x y)"
      by (rule classes_mem [OF k c'(1)])
    moreover have "set c' \<subseteq> set ts" using g c'(1) by (metis UN_upper set_concat set_sort)
    ultimately have "far x (section_time nan c')"
      using section_time_class(3) [of c' x nan] f clear_sane [OF assms(1)] assms(2) by blast
    then have "far x (rep nan ts x)" using c'(2) by simp
    moreover have "0 < x" "0 < rep nan ts x" using clear_sane [OF assms] rep_near(2) [OF assms] by (auto simp: sane_def)
    ultimately show False using near_not_far rep_near(1) [OF assms] by blast
  qed
  then have u: "c' \<in> set (times_groups (sort ts)) \<and> section_time nan c' = rep nan ts x \<longleftrightarrow> c' = c" for c'
    using c(1,3) by metis
  have "(rep nan ts x, n) \<in> set (finals nan ts) \<longleftrightarrow>
      (\<exists>c'. (c' \<in> set (times_groups (sort ts)) \<and> section_time nan c' = rep nan ts x) \<and> length c' = n)"
    unfolding finals_groups [OF assms(1)] set_map image_iff Bex_def prod.inject by metis
  then show ?thesis unfolding u using c(2) by auto
qed

subsection \<open>Windows\<close>

lemma window_same [simp]: "window buf p p = []"
  by (subst window.simps) simp

lemma window_Cons: "window buf p q = x # xs \<longleftrightarrow> p \<noteq> q \<and> x = buf ! unat p \<and> window buf (p + 1) q = xs"
  by (subst window.simps) auto

lemma window_Nil: "window buf p q = [] \<longleftrightarrow> p = q"
  by (subst window.simps) simp

lemma window_append:
  assumes "window buf p q = xs @ ys"
  shows "window buf (p + of_nat (length xs)) q = ys" and "window buf p (p + of_nat (length xs)) = xs"
proof -
  have "window buf (p + of_nat (length xs)) q = ys \<and> window buf p (p + of_nat (length xs)) = xs"
    using assms
  proof (induction xs arbitrary: p)
    case (Cons x xs)
    then have p: "p \<noteq> q" "x = buf ! unat p" "window buf (p + 1) q = xs @ ys" by (simp_all add: window_Cons)
    have r: "window buf (p + 1 + of_nat (length xs)) q = ys" "window buf (p + 1) (p + 1 + of_nat (length xs)) = xs"
      using Cons.IH [OF p(3)] by auto
    have "p \<noteq> p + 1 + of_nat (length xs)"
    proof
      assume eq: "p = p + 1 + of_nat (length xs)"
      have "window buf p q = ys" using r(1) unfolding eq [symmetric] .
      with Cons.prems show False by (metis append_Cons append_eq_append_conv append_self_conv2 list.distinct(1) append.assoc append_same_eq)
    qed
    then show ?case using r p(2) by (simp add: window_Cons algebra_simps)
  qed simp
  then show "window buf (p + of_nat (length xs)) q = ys" and "window buf p (p + of_nat (length xs)) = xs" by auto
qed

fun alt_map :: "bool \<Rightarrow> (int \<Rightarrow> int) \<Rightarrow> (int \<Rightarrow> int) \<Rightarrow> int list \<Rightarrow> int list" where
  "alt_map high f g [] = []"
| "alt_map high f g (x # xs) = (if high then f x else g x) # alt_map (\<not> high) f g xs"

lemma normalize_frame:
  "unat (e - p) \<le> unat (q - p) \<Longrightarrow> length nrm = IR_DATA_ARRAY_SIZE \<Longrightarrow>
   normalize buf hf lf p e high nrm ! unat q = nrm ! unat q"
proof (induction buf hf lf p e high nrm rule: normalize.induct)
  case (1 buf hf lf p e high nrm)
  show ?case
  proof (cases "p = e")
    case True
    then show ?thesis by (subst normalize.simps) simp
  next
    case False
    have pq: "p \<noteq> q" using 1(2) False by (auto simp: unat_eq_0)
    have "unat (e - (p + 1)) \<le> unat (q - (p + 1))"
    proof -
      have "unat (e - p - 1) = unat (e - p) - 1" "unat (q - p - 1) = unat (q - p) - 1"
        using False pq by (simp_all add: unat_minus_one)
      then show ?thesis using 1(2) by (simp add: algebra_simps)
    qed
    moreover have "unat p \<noteq> unat q" using pq by (simp add: word_unat_eq_iff)
    ultimately show ?thesis using 1(1) [OF False] 1(3) False by (subst normalize.simps) simp
  qed
qed

lemma length_normalize [simp]: "length (normalize buf hf lf p e high nrm) = length nrm"
  by (induction buf hf lf p e high nrm rule: normalize.induct) (subst normalize.simps, simp)

lemma window_normalize:
  "length nrm = IR_DATA_ARRAY_SIZE \<Longrightarrow> window (normalize buf hf lf p e high nrm) p e =
     alt_map high (\<lambda>x. nearest x hf) (\<lambda>x. nearest x lf) (window buf p e)"
proof (induction buf hf lf p e high nrm rule: normalize.induct)
  case (1 buf hf lf p e high nrm)
  show ?case
  proof (cases "p = e")
    case False
    let ?x = "nearest (buf ! unat p) (if high then hf else lf)"
    let ?n = "normalize buf hf lf (p + 1) e (\<not> high) (nrm[unat p := ?x])"
    have n: "normalize buf hf lf p e high nrm = ?n" using False by (subst normalize.simps) simp
    have "unat (p - (p + 1)) = 2047" by (simp add: unsigned_minus_1_eq_mask mask_eq_exp_minus_1)
    moreover have "unat (e - (p + 1)) < 2048" using unsigned_less [of "e - (p + 1)", where ?'a = nat] by simp
    ultimately have "?n ! unat p = nrm[unat p := ?x] ! unat p"
      by (intro normalize_frame) (use 1(2) in simp_all)
    moreover have "unat p < length nrm" using 1(2) unsigned_less [of p, where ?'a = nat] by (simp add: ir_sizes)
    ultimately have "?n ! unat p = ?x" by simp
    then have "window ?n p e = ?x # window ?n (p + 1) e" using False by (simp add: window_Cons)
    moreover have "window buf p e = buf ! unat p # window buf (p + 1) e" using False by (simp add: window_Cons)
    ultimately show ?thesis using 1(1) [OF False] 1(2) by (simp add: n)
  qed simp
qed

text \<open>The data up to the next gap.\<close>

lemma collect_eq:
  assumes "window buf p w = xs @ g # rest" and "g \<ge> IR_MIN_GAP_LENGTH" and "\<forall>x \<in> set (snd (alternate high xs)). x < IR_MIN_GAP_LENGTH"
    and "high = odd (length xs)"
  shows "collect buf w p high hs ls = (p + of_nat (length xs), hs @ fst (alternate high xs), ls @ snd (alternate high xs), True)"
  using assms
proof (induction xs arbitrary: p high hs ls)
  case Nil
  then show ?case by (subst collect.simps) (auto simp: window_Cons)
next
  case (Cons x xs)
  have p: "p \<noteq> w" "x = buf ! unat p" "window buf (p + 1) w = xs @ g # rest" using Cons.prems(1) by (simp_all add: window_Cons)
  have l: "\<forall>x \<in> set (snd (alternate (\<not> high) xs)). x < IR_MIN_GAP_LENGTH" "(\<not> high) = odd (length xs)"
    using Cons.prems(3,4) by (auto simp: case_prod_beta split: if_splits)
  note ih = Cons.IH [OF p(3) Cons.prems(2) l]
  have x: "\<not> high \<Longrightarrow> x < IR_MIN_GAP_LENGTH" using Cons.prems(3) by (simp add: case_prod_beta)
  show ?case using ih p(1,2) x by (subst collect.simps) (auto simp: case_prod_beta algebra_simps Let_def)
qed

lemma skip_header_eq:
  "skip_header nrm hf r = (if (nrm ! unat (r + 1), 1) \<in> set hf then r + 3 else r + 1)"
proof -
  define step where "step = (\<lambda>(f, n) p. if nrm ! unat p = f \<and> n = (1 :: nat) then r + 3 else (p :: ring_ptr))"
  have "fold step hf (r + 3) = r + 3" for hf by (induction hf) (auto simp: step_def)
  then have "fold step hf (r + 1) = (if (nrm ! unat (r + 1), 1) \<in> set hf then r + 3 else r + 1)"
  proof (induction hf)
    case (Cons h hf)
    then show ?case by (cases "h = (nrm ! unat (r + 1), 1)") (auto simp: step_def case_prod_beta prod_eq_iff)
  qed simp
  then show ?thesis by (simp add: skip_header_def step_def)
qed

lemma alt_map_cong:
  "(\<And>x. x \<in> set (fst (alternate h xs)) \<Longrightarrow> f x = f' x) \<Longrightarrow> (\<And>x. x \<in> set (snd (alternate h xs)) \<Longrightarrow> g x = g' x) \<Longrightarrow>
   alt_map h f g xs = alt_map h f' g' xs"
  by (induction h xs rule: alternate.induct) (auto simp: case_prod_beta)

lemma alternate_length:
  "int (length (fst (alternate h xs))) - int (length (snd (alternate h xs))) = (if odd (length xs) then if h then 1 else - 1 else 0)"
  by (induction h xs rule: alternate.induct) (auto simp: case_prod_beta)

text \<open>A signal: pulses and spaces in turn, clear, the spaces shorter than a gap.\<close>

definition signal :: "int list \<Rightarrow> bool" where
  "signal xs \<longleftrightarrow> odd (length xs) \<and> clear (fst (alternate True xs)) \<and> clear (snd (alternate True xs)) \<and>
     (\<forall>x \<in> set (snd (alternate True xs)). x < IR_MIN_GAP_LENGTH)"

definition normal_form :: "int \<Rightarrow> int list \<Rightarrow> int list" where
  "normal_form nan xs = alt_map True (rep nan (fst (alternate True xs))) (rep nan (snd (alternate True xs))) xs"

text \<open>The header is dropped when the first pulse is the only one of its class.\<close>

definition has_header :: "int list \<Rightarrow> bool" where
  "has_header xs \<longleftrightarrow> length (filter (near (hd xs)) (fst (alternate True xs))) = 1"

definition between_gaps :: "ir \<Rightarrow> int \<Rightarrow> int list \<Rightarrow> bool" where
  "between_gaps d g xs \<longleftrightarrow> length (dataBufferNormalized d) = IR_DATA_ARRAY_SIZE \<and> g \<ge> IR_MIN_GAP_LENGTH \<and>
     (\<exists>g' rest. g' \<ge> IR_MIN_GAP_LENGTH \<and> window (dataBuffer d) (dataReadPtr d) (dataWritePtr d) = g # xs @ g' # rest)"

lemma analyze_outcome:
  assumes "between_gaps d g xs" and "signal xs"
  obtains nrm e where
    "analyze_data nan d needed = analyze_code (d\<lparr>lastGap := g, dataBufferNormalized := nrm, dataReadPtr := e\<rparr>)
       (if has_header xs then drop 2 (normal_form nan xs) else normal_form nan xs)"
    "length nrm = IR_DATA_ARRAY_SIZE" "dataBuffer d ! unat e \<ge> IR_MIN_GAP_LENGTH"
proof -
  let ?buf = "dataBuffer d" and ?w = "dataWritePtr d" and ?r = "dataReadPtr d"
  let ?hs = "fst (alternate True xs)" and ?ls = "snd (alternate True xs)"
  obtain g' rest where g: "g \<ge> IR_MIN_GAP_LENGTH" "g' \<ge> IR_MIN_GAP_LENGTH"
    and win: "window ?buf ?r ?w = g # xs @ g' # rest" and len: "length (dataBufferNormalized d) = IR_DATA_ARRAY_SIZE"
    using assms(1) by (auto simp: between_gaps_def)
  have r: "?r \<noteq> ?w" "g = ?buf ! unat ?r" "window ?buf (?r + 1) ?w = xs @ g' # rest" using win by (simp_all add: window_Cons)
  define e where "e = ?r + 1 + of_nat (length xs)"
  have we: "window ?buf (?r + 1) e = xs" "window ?buf e ?w = g' # rest"
    using window_append [OF r(3)] by (simp_all add: e_def)
  have n1: "?r + 1 \<noteq> ?w" using r(3) by (auto simp flip: window_Nil [of ?buf])
  have ne: "xs \<noteq> []" using assms(2) by (auto simp: signal_def)
  have seek: "seek_gap IR_MIN_GAP_LENGTH ?buf ?w ?r = (?r, True)" using g(1) r(2) by (subst seek_gap.simps) simp
  have "collect ?buf ?w (?r + 1) True [] [] = (e, [] @ ?hs, [] @ ?ls, True)"
    unfolding e_def by (rule collect_eq [OF r(3) g(2)]) (use assms(2) in \<open>auto simp: signal_def\<close>)
  then have col: "collect ?buf ?w (?r + 1) True [] [] = (e, ?hs, ?ls, True)" by simp
  have lens: "int (length ?hs) - 1 = int (length ?ls)" using assms(2) alternate_length [of True xs] by (simp add: signal_def)
  define nrm where "nrm = normalize ?buf (finals nan ?hs) (finals nan ?ls) (?r + 1) e True (dataBufferNormalized d)"
  have nf: "window nrm (?r + 1) e = normal_form nan xs"
    unfolding nrm_def window_normalize [OF len] we(1) by (simp add: normal_form_def rep_def [abs_def])
  obtain x xs' where xs: "xs = x # xs'" using ne by (cases xs) auto
  have first: "nrm ! unat (?r + 1) = rep nan ?hs x"
    using nf by (simp add: xs normal_form_def case_prod_beta window_Cons)
  have "x \<in> set ?hs" by (simp add: xs case_prod_beta)
  then have hs_ne: "?hs \<noteq> []" by auto
  from \<open>x \<in> set ?hs\<close> have "(nrm ! unat (?r + 1), 1) \<in> set (finals nan ?hs) \<longleftrightarrow> has_header xs"
    using rep_count [of ?hs x nan 1] assms(2) first by (auto simp: signal_def has_header_def xs)
  then have sk: "skip_header nrm (finals nan ?hs) ?r = (if has_header xs then ?r + 3 else ?r + 1)"
    by (simp add: skip_header_eq)
  have l3: "has_header xs \<Longrightarrow> 2 \<le> length xs"
    using assms(2) by (cases xs'; auto simp: xs signal_def clear_def)
  have code: "window nrm (skip_header nrm (finals nan ?hs) ?r) e = (if has_header xs then drop 2 (normal_form nan xs) else normal_form nan xs)"
  proof (cases "has_header xs")
    case True
    have lx: "length (normal_form nan xs) = length xs"
    proof -
      have "length (alt_map h f g ys) = length ys" for h f g ys by (induction h f g ys rule: alt_map.induct) auto
      then show ?thesis by (simp add: normal_form_def)
    qed
    have "window nrm (?r + 1) e = take 2 (normal_form nan xs) @ drop 2 (normal_form nan xs)" by (simp add: nf)
    from window_append(1) [OF this]
    have "window nrm (?r + 1 + of_nat (length (take 2 (normal_form nan xs)))) e = drop 2 (normal_form nan xs)" .
    moreover have "length (take 2 (normal_form nan xs)) = 2" using l3 [OF True] lx by simp
    moreover have "?r + 1 + of_nat 2 = ?r + 3" by simp
    ultimately show ?thesis using True by (simp only: sk if_True)
  qed (simp add: sk nf)
  have "analyze_data nan d needed = analyze_code (d\<lparr>lastGap := g, dataBufferNormalized := nrm, dataReadPtr := e\<rparr>)
       (if has_header xs then drop 2 (normal_form nan xs) else normal_form nan xs)"
    using r(1,2) n1 hs_ne lens code
    by (simp add: analyze_data_def seek col Let_def nrm_def [symmetric] finals_def [symmetric])
  moreover have "?buf ! unat e \<ge> IR_MIN_GAP_LENGTH" using we(2) g(2) by (simp add: window_Cons)
  ultimately show thesis using that len by (simp add: nrm_def)
qed

end
