(* ===== verification/Ir_Wire.thy ===== *)
theory Ir_Wire
  imports Ir_Bits
begin

text \<open>
  Properties of the transmitting side of the infrared device: the bytes of a list of times are read back
  by a reader of the wire format, the packets carry exactly these bytes, and a code becomes the times of
  its bits.
\<close>

subsection \<open>The wire format\<close>

text \<open>The reader: a byte below 128 is a time in units of 10 microseconds, a larger one is the high part of a
  15-bit time.\<close>

fun wire_times :: "int list \<Rightarrow> int list option" where
  "wire_times [] = Some []"
| "wire_times (b # bs) =
     (if b < 128 then map_option ((#) b) (wire_times bs)
      else case bs of [] \<Rightarrow> None | c # cs \<Rightarrow> map_option ((#) ((b - 128) * 256 + c)) (wire_times cs))"

definition time_bytes :: "int \<Rightarrow> int list" where
  "time_bytes t = (let v = t div 10 in if t > 1270 then [v div 256 + 128, v mod 256] else [v])"

definition wire :: "int list \<Rightarrow> int list" where
  "wire ts = concat (map time_bytes ts)"

definition time_ok :: "int \<Rightarrow> bool" where
  "time_ok t \<longleftrightarrow> 0 \<le> t \<and> t \<le> IR_MAX_DATA_us"

lemma wire_simps [simp]: "wire [] = []" "wire (t # ts) = time_bytes t @ wire ts" "wire (ts @ us) = wire ts @ wire us"
  by (simp_all add: wire_def)

lemma time_bytes_length: "length (time_bytes t) \<in> {1, 2}"
  by (simp add: time_bytes_def Let_def)

lemma wire_length: "length (wire ts) \<le> 2 * length ts"
proof (induction ts)
  case (Cons t ts)
  then show ?case using time_bytes_length [of t] by auto
qed simp

lemma time_units: "time_ok t \<Longrightarrow> 0 \<le> t div 10 \<and> t div 10 \<le> 32767 \<and> (t \<le> 1270 \<longrightarrow> t div 10 \<le> 127)"
  using zdiv_mono1 [of t 327670 10] zdiv_mono1 [of t 1270 10] by (auto simp: time_ok_def ir_times)

lemma wire_times_time: "time_ok t \<Longrightarrow> wire_times (time_bytes t @ bs) = map_option ((#) (t div 10)) (wire_times bs)"
proof -
  assume "time_ok t"
  then have u: "0 \<le> t div 10" "t \<le> 1270 \<longrightarrow> t div 10 < 128" using time_units by fastforce+
  show ?thesis
  proof (cases "t > 1270")
    case True
    have "\<not> t div 10 div 256 + 128 < 128" using u(1) pos_imp_zdiv_nonneg_iff [of 256 "t div 10"] by linarith
    with True show ?thesis by (simp add: time_bytes_def Let_def)
  next
    case False
    with u show ?thesis by (simp add: time_bytes_def Let_def)
  qed
qed

lemma wire_times_wire: "list_all time_ok ts \<Longrightarrow> wire_times (wire ts) = Some (map (\<lambda>t. t div 10) ts)"
  by (induction ts) (simp_all add: wire_times_time)

lemma time_bytes_range: "time_ok t \<Longrightarrow> b \<in> set (time_bytes t) \<Longrightarrow> 0 \<le> b \<and> b < 256"
proof -
  assume t: "time_ok t" and b: "b \<in> set (time_bytes t)"
  have "0 \<le> t div 10 div 256" "t div 10 div 256 \<le> 127"
    using time_units [OF t] zdiv_mono1 [of "t div 10" 32767 256] by (auto simp: pos_imp_zdiv_nonneg_iff)
  with b time_units [OF t] show ?thesis by (auto simp: time_bytes_def Let_def split: if_splits)
qed

lemma wire_bytes: "list_all time_ok ts \<Longrightarrow> b \<in> set (wire ts) \<Longrightarrow> 0 \<le> b \<and> b < 256"
  using time_bytes_range by (induction ts) auto

subsection \<open>Writing times\<close>

lemma ret_bind_simps [simp]:
  "ret_bind None f = None" "ret_bind (Some (Inl e)) f = Some (Inl e)" "ret_bind (Some (Inr a)) f = f a"
  by (simp_all add: ret_bind_def)

lemma ret_bind_assoc: "ret_bind (ret_bind m f) g = ret_bind m (\<lambda>x. ret_bind (f x) g)"
  by (simp add: ret_bind_def split: option.split sum.split)

lemma ret_for_append: "ret_for (xs @ ys) f s = ret_bind (ret_for xs f s) (ret_for ys f)"
  by (induction xs arbitrary: s) (auto simp: ret_bind_def split: option.split sum.split)

definition put_times :: "int \<Rightarrow> int list \<Rightarrow> raw \<Rightarrow> raw ret" where
  "put_times len ts = ret_for ts (\<lambda>t. TIME_TO_PACKET len (Some t))"

lemma put_times_append: "put_times len (ts @ us) s = ret_bind (put_times len ts s) (put_times len us)"
  by (simp add: put_times_def ret_for_append)

lemma sdiv_nonneg: "0 \<le> (a :: int) \<Longrightarrow> 0 < b \<Longrightarrow> a sdiv b = a div b"
  by (cases "a = 0") (simp_all add: signed_divide_int_def)

lemma smod_nonneg: "0 \<le> (a :: int) \<Longrightarrow> 0 < b \<Longrightarrow> a smod b = a mod b"
  by (cases "a = 0") (simp_all add: signed_modulo_int_def)

lemma high_byte: "0 \<le> v \<Longrightarrow> v \<le> 32767 \<Longrightarrow> drop_bit 8 (v :: int) OR 128 = v div 256 + 128"
proof -
  assume v: "0 \<le> v" "v \<le> 32767"
  have "0 \<le> v div 256" "v div 256 < 128" using v zdiv_mono1 [of v 32767 256] by (auto simp: pos_imp_zdiv_nonneg_iff)
  then have t: "take_bit 7 (v div 256) = v div 256" by (simp add: take_bit_int_eq_self_iff)
  show ?thesis using concat_bit_eq [of 7 "v div 256" 1] by (simp add: concat_bit_def t drop_bit_eq_div push_bit_eq_mult)
qed

lemma TIME_TO_PACKET_ok:
  assumes "time_ok t" and "int (length xs) + 2 < len" and "length xs + length (time_bytes t) \<le> IR_DATA_ARRAY_SIZE"
    and "int_ok (time + t)"
  shows "TIME_TO_PACKET len (Some t) (xs, time) = Some (Inr (xs @ time_bytes t, time + t))"
proof -
  have u: "0 \<le> t div 10" "t div 10 \<le> 32767" "t \<le> 1270 \<longrightarrow> t div 10 \<le> 127" using time_units [OF assms(1)] by auto
  have m: "t div 10 AND 255 = t div 10 mod 256" using take_bit_eq_mask [of 8 "t div 10"]
    by (simp add: take_bit_eq_mod mask_eq_exp_minus_1)
  show ?thesis
  proof (cases "t > 1270")
    case True
    with assms u m show ?thesis
      by (simp add: TIME_TO_PACKET_def time_ok_def ir_times sdiv_nonneg high_byte raw_push_def ck_def time_bytes_def Let_def)
  next
    case False
    with assms u m show ?thesis
      by (simp add: TIME_TO_PACKET_def time_ok_def ir_times sdiv_nonneg raw_push_def ck_def time_bytes_def Let_def)
  qed
qed

text \<open>What a list of times needs: its bytes fit into the array and below the caller's length, and the times
  add up to an int.\<close>

definition times_fit :: "int \<Rightarrow> int list \<Rightarrow> raw \<Rightarrow> bool" where
  "times_fit len ts s \<longleftrightarrow> list_all time_ok ts \<and> int (length (fst s) + length (wire ts)) + 1 < len \<and>
     length (fst s) + length (wire ts) \<le> IR_DATA_ARRAY_SIZE \<and> 0 \<le> snd s \<and> snd s + sum_list ts < 2 ^ 31"

lemma sum_list_times: "list_all time_ok ts \<Longrightarrow> 0 \<le> sum_list ts"
  by (induction ts) (auto simp: time_ok_def)

lemma put_times_ok:
  "times_fit len ts (xs, time) \<Longrightarrow> put_times len ts (xs, time) = Some (Inr (xs @ wire ts, time + sum_list ts))"
proof (induction ts arbitrary: xs time)
  case (Cons t ts)
  have s: "0 \<le> sum_list ts" using Cons.prems by (auto simp: times_fit_def intro: sum_list_times)
  have l: "length (time_bytes t) \<in> {1, 2}" by (rule time_bytes_length)
  have t: "0 \<le> t" using Cons.prems by (simp add: times_fit_def time_ok_def)
  have "TIME_TO_PACKET len (Some t) (xs, time) = Some (Inr (xs @ time_bytes t, time + t))"
    by (rule TIME_TO_PACKET_ok) (use Cons.prems s l t in \<open>auto simp: times_fit_def int_ok_def\<close>)
  moreover have "times_fit len ts (xs @ time_bytes t, time + t)" using Cons.prems t by (auto simp: times_fit_def)
  ultimately show ?case using Cons.IH by (simp add: put_times_def algebra_simps)
qed (simp add: put_times_def)

subsection \<open>Codes as times\<close>

definition pair_list :: "'a \<times> 'a \<Rightarrow> 'a list" where
  "pair_list p = [fst p, snd p]"

definition bit_pairs :: "code_info \<Rightarrow> bool list \<Rightarrow> int list" where
  "bit_pairs ci bs = concat (map (\<lambda>b. pair_list (if b then one_time ci else zero_time ci)) bs)"

definition header_times :: "code_info \<Rightarrow> int list" where
  "header_times ci = (if fst (header ci) \<noteq> 0 then pair_list (header ci) else [])"

lemma put_pair_eq: "put_pair len p = put_times len (pair_list p)"
  by (rule ext) (simp add: put_pair_def put_times_def pair_list_def ret_bind_def split: option.split sum.split)

lemma ret_for_cong: "(\<And>x s. x \<in> set xs \<Longrightarrow> f x s = g x s) \<Longrightarrow> ret_for xs f s = ret_for xs g s"
  by (induction xs arbitrary: s) (auto simp: ret_bind_def split: option.split sum.split)

lemma ret_for_concat: "ret_for xs (\<lambda>x. put_times len (g x)) s = put_times len (concat (map g xs)) s"
  by (induction xs arbitrary: s) (auto simp: put_times_append ret_bind_def put_times_def ret_for_append split: option.split sum.split)

text \<open>The array of the caller starts with the bytes of the code.\<close>

definition starts_with_code :: "nat \<Rightarrow> u8 list \<Rightarrow> u8 list \<Rightarrow> bool" where
  "starts_with_code n code tmp \<longleftrightarrow> length code = byte_count n \<and> (\<exists>rest. tmp = code @ rest)"

lemma code_bit_starts:
  "starts_with_code n code tmp \<Longrightarrow> m < n \<Longrightarrow> code_bit tmp (first_bit (int n) + m) (n - 1 - m) = Some (code_bits n code ! m)"
  using code_bit_eq [of n tmp m code] by (auto simp: starts_with_code_def)

lemma put_bits_eq:
  assumes "starts_with_code n code tmp" and "bitCount ci = int n"
  shows "put_bits len tmp ci s = put_times len (bit_pairs ci (code_bits n code)) s"
proof -
  let ?p = "\<lambda>b. pair_list (if b then one_time ci else zero_time ci)"
  have "put_bits len tmp ci s = ret_for [0..<n] (\<lambda>m. put_times len (?p (code_bits n code ! m))) s"
    unfolding put_bits_def assms(2) nat_int
    by (rule ret_for_cong) (use code_bit_starts [OF assms(1)] in \<open>simp add: put_pair_eq\<close>)
  also have "\<dots> = put_times len (concat (map (\<lambda>m. ?p (code_bits n code ! m)) [0..<n])) s" by (rule ret_for_concat)
  also have "map (\<lambda>m. ?p (code_bits n code ! m)) [0..<n] = map ?p (code_bits n code)"
    by (rule nth_equalityI) simp_all
  also have "concat \<dots> = bit_pairs ci (code_bits n code)" by (simp add: bit_pairs_def)
  finally show ?thesis .
qed

lemma put_header_eq:
  "(if fst (header ci) \<noteq> 0 then put_pair len (header ci) s else Some (Inr s)) = put_times len (header_times ci) s"
  by (simp add: header_times_def put_pair_eq put_times_def)

definition space_frame :: "code_info \<Rightarrow> bool list \<Rightarrow> int list" where
  "space_frame ci bs = header_times ci @ bit_pairs ci bs @ [trail ci]"

definition pulse_frame :: "code_info \<Rightarrow> bool list \<Rightarrow> int list" where
  "pulse_frame ci bs = header_times ci @ butlast (bit_pairs ci bs)"

lemma put_last: "put_times len (ts @ [t]) s = ret_bind (put_times len ts s) (TIME_TO_PACKET len (Some t))"
  by (simp add: put_times_append) (simp add: put_times_def ret_bind_def split: option.split sum.split)

lemma space_raw:
  assumes "starts_with_code n code tmp" and "bitCount ci = int n" and "encoding ci = PHIDGET_IR_ENCODING_SPACE"
    and "\<not> (rep \<and> repeat_code ci ! 0 \<noteq> 0)" and fit: "times_fit len (space_frame ci (code_bits n code)) ([], 0)"
  shows "codeInfoToRawData tmp ci len rep =
    (let ts = space_frame ci (code_bits n code) in Some (Inr (wire ts, int (length (wire ts)), sum_list ts)))"
proof -
  let ?ts = "space_frame ci (code_bits n code)"
  have "put_times len ?ts ([], 0) = ret_bind (put_times len (header_times ci) ([], 0))
      (\<lambda>s. ret_bind (put_bits len tmp ci s) (TIME_TO_PACKET len (Some (trail ci))))"
    by (simp add: space_frame_def put_times_append put_bits_eq [OF assms(1,2)] flip: put_last append_assoc)
      (simp add: put_times_append ret_bind_assoc put_last [symmetric] flip: append_assoc)
  then have p: "ret_bind (put_times len (header_times ci) ([], 0))
      (\<lambda>s. ret_bind (put_bits len tmp ci s) (TIME_TO_PACKET len (Some (trail ci)))) = Some (Inr (wire ?ts, sum_list ?ts))"
    using put_times_ok [OF fit] by simp
  show ?thesis
    using p assms(3) unfolding codeInfoToRawData_def if_not_P [OF assms(4)]
    by (simp add: put_header_eq Let_def ret_bind_assoc [symmetric])
qed

text \<open>For pulse codes the code takes the last space back.  Which of the two spaces that is, is read from the
  first byte of the code.\<close>

definition taken_back :: "code_info \<Rightarrow> u8 list \<Rightarrow> int" where
  "taken_back ci code = snd (if bit (code ! 0) 0 then one_time ci else zero_time ci)"

definition last_space :: "code_info \<Rightarrow> bool list \<Rightarrow> int" where
  "last_space ci bs = snd (if last bs then one_time ci else zero_time ci)"

lemma bit_pairs_last: "bs \<noteq> [] \<Longrightarrow> bit_pairs ci bs = butlast (bit_pairs ci bs) @ [last_space ci bs]"
  by (cases bs rule: rev_cases) (simp_all add: bit_pairs_def pair_list_def last_space_def butlast_append)

lemma code_bits_nonempty: "0 < n \<Longrightarrow> code_bits n code \<noteq> []"
  by (simp add: code_bits_def)

lemma wire_length_ge: "length ts \<le> length (wire ts)"
proof (induction ts)
  case (Cons t ts)
  then show ?case using time_bytes_length [of t] by auto
qed simp

lemma length_bit_pairs [simp]: "length (bit_pairs ci bs) = 2 * length bs"
  by (induction bs) (simp_all add: bit_pairs_def pair_list_def)

lemma pulse_raw:
  assumes "starts_with_code n code tmp" and "bitCount ci = int n" and "0 < n" and "encoding ci = PHIDGET_IR_ENCODING_PULSE"
    and "\<not> (rep \<and> repeat_code ci ! 0 \<noteq> 0)" and fit: "times_fit len (header_times ci @ bit_pairs ci (code_bits n code)) ([], 0)"
    and sp: "time_ok (taken_back ci code)"
  shows "codeInfoToRawData tmp ci len rep =
    (let ts = pulse_frame ci (code_bits n code); sp = taken_back ci code;
         xs = wire ts @ time_bytes (last_space ci (code_bits n code)); i = length xs - length (time_bytes sp) in
     Some (Inr (take i xs, int i, sum_list ts + last_space ci (code_bits n code) - sp)))"
proof -
  let ?bs = "code_bits n code" and ?sp = "taken_back ci code"
  define ls where "ls = last_space ci ?bs"
  define X where "X = wire (pulse_frame ci ?bs) @ time_bytes ls"
  define S where "S = sum_list (pulse_frame ci ?bs) + ls"
  have e: "header_times ci @ bit_pairs ci ?bs = pulse_frame ci ?bs @ [ls]"
    using bit_pairs_last [OF code_bits_nonempty, of n ci code] assms(3) by (simp add: pulse_frame_def ls_def)
  then have wX: "wire (header_times ci @ bit_pairs ci ?bs) = X" and sS: "sum_list (header_times ci @ bit_pairs ci ?bs) = S"
    by (simp_all add: e X_def S_def del: wire_simps(3) sum_list_append) (simp_all add: wire_def)
  then have p: "ret_bind (put_times len (header_times ci) ([], 0)) (put_bits len tmp ci) = Some (Inr (X, S))"
    using put_times_ok [OF fit] by (simp add: put_times_append put_bits_eq [OF assms(1,2), abs_def] del: wire_simps(3) sum_list_append)
  have "0 < byte_count n" using assms(3) byte_count_bounds(1) [of n] by (cases "byte_count n") auto
  then have c: "cread tmp 0 = Some (code ! 0)" using assms(1) by (auto simp: starts_with_code_def cread_def nth_append)
  have "0 \<le> S" "S < 2 ^ 31"
    using fit sum_list_times sS by (auto simp: times_fit_def simp del: sum_list_append)
  then have ok: "int_ok (S - ?sp)" using sp by (simp add: int_ok_def time_ok_def ir_times)
  have l: "length (time_bytes ?sp) = (if ?sp > 1270 then 2 else 1)" by (simp add: time_bytes_def Let_def)
  have "2 \<le> length X"
    using wire_length_ge [of "header_times ci @ bit_pairs ci ?bs"] assms(3) unfolding wX by simp
  then have l2: "length (time_bytes ?sp) \<le> length X" using l by simp
  have "snd (if bit (code ! 0) 0 then one_time ci else zero_time ci) = ?sp" by (simp add: taken_back_def)
  then have d: "drop_last_space tmp ci (X, S) = Some (int (length X - length (time_bytes ?sp)), S - ?sp)"
    using ok l2 by (simp add: drop_last_space_def c ck_def Let_def l of_nat_diff split: if_splits)
  have "codeInfoToRawData tmp ci len rep = Some (Inr (take (length X - length (time_bytes ?sp)) X, int (length X - length (time_bytes ?sp)), S - ?sp))"
    using p assms(4) unfolding codeInfoToRawData_def if_not_P [OF assms(5)]
    by (simp add: put_header_eq Let_def ret_bind_assoc [symmetric] d)
  then show ?thesis by (simp only: Let_def X_def S_def ls_def)
qed

subsection \<open>Packets\<close>

text \<open>A sender that keeps a log.  The report of the device is 8 bytes long, so of each buffer the first 8
  bytes are sent.\<close>

definition log_send :: "u8 list list \<Rightarrow> u8 list \<Rightarrow> u8 list list \<times> ephidget" where
  "log_send w buf = (w @ [take 8 buf], EPHIDGET_OK)"

lemma send_data_log:
  assumes "8 \<le> length buf" and "data \<noteq> []"
  shows "\<exists>ps rest. send_data log_send buf i data w = (w @ ps, EPHIDGET_OK) \<and>
    concat ps = take (i mod 8) buf @ map word_of_int data @ rest \<and> list_all (\<lambda>p. length p = 8) ps \<and> length rest < 8"
  using assms
proof (induction data arbitrary: buf i w)
  case (Cons x xs)
  define j where "j = i mod 8"
  have j: "j < 8" by (simp add: j_def)
  define b where "b = buf[j := word_of_int x]"
  have b: "8 \<le> length b" "take j b = take j buf" "take (Suc j) b = take j buf @ [word_of_int x]"
    using Cons.prems(1) j by (simp_all add: b_def take_Suc_conv_app_nth)
  have t8: "take 8 b = take (Suc j) b @ drop (Suc j) (take 8 b)"
    using append_take_drop_id [of "Suc j" "take 8 b"] j by (simp add: min_def)
  consider (last) "xs = []" | (full) "xs \<noteq> []" "j = 7" | (more) "xs \<noteq> []" "j \<noteq> 7" by blast
  then show ?case
  proof cases
    case last
    then have "send_data log_send buf i (x # xs) w = (w @ [take 8 b], EPHIDGET_OK)"
      by (simp add: Let_def log_send_def flip: j_def b_def)
    moreover have "concat [take 8 b] = take (i mod 8) buf @ map word_of_int (x # xs) @ drop (Suc j) (take 8 b)"
      using t8 b(3) last by (simp flip: j_def)
    ultimately show ?thesis using b(1)
      by (intro exI [of _ "[take 8 b]"] exI [of _ "drop (Suc j) (take 8 b)"]) simp
  next
    case full
    obtain ps rest where r: "send_data log_send b (i + 1) xs (w @ [take 8 b]) = ((w @ [take 8 b]) @ ps, EPHIDGET_OK)"
      "concat ps = take ((i + 1) mod 8) b @ map word_of_int xs @ rest" "list_all (\<lambda>p. length p = 8) ps" "length rest < 8"
      using Cons.IH [OF b(1) full(1)] by metis
    have "(i + 1) mod 8 = 0" using full(2) by (simp add: j_def mod_Suc)
    moreover have "take 8 b = take j buf @ [word_of_int x]" using b(3) full(2) by simp
    moreover have "send_data log_send buf i (x # xs) w = send_data log_send b (i + 1) xs (w @ [take 8 b])"
      using full by (simp add: Let_def log_send_def b_def flip: j_def)
    moreover have "min (length buf) j = 7" using full(2) Cons.prems(1) by simp
    ultimately show ?thesis using r b(1)
      by (intro exI [of _ "take 8 b # ps"] exI [of _ rest]) (simp flip: j_def)
  next
    case more
    then have "(i + 1) mod 8 = Suc j" using j by (simp add: j_def mod_Suc)
    moreover have "send_data log_send buf i (x # xs) w = send_data log_send b (i + 1) xs w"
      using more by (simp add: Let_def flip: j_def b_def)
    ultimately show ?thesis using Cons.IH [OF b(1) more(1), of "i + 1" w] b(3) by (simp flip: j_def)
  qed
qed simp

definition carries :: "u8 list list \<Rightarrow> int list \<Rightarrow> bool" where
  "carries ps data \<longleftrightarrow> list_all (\<lambda>p. length p = 8) ps \<and>
     (\<exists>rest. concat ps = map word_of_int data @ rest \<and> length rest < 8)"

lemma sendRAWData_log:
  assumes "length data \<le> 255"
  obtains ps where "sendRAWData log_send fdiv stack data (int (length data)) carrier duty gp w =
      (w @ define_packet fdiv (int (length data)) carrier duty gp # ps, EPHIDGET_OK)" "carries ps data"
proof (cases "data = []")
  case True
  then show thesis by (intro that [of "[]"]) (simp_all add: sendRAWData_def log_send_def define_packet_def carries_def)
next
  case False
  let ?b = "define_packet fdiv (int (length data)) carrier duty gp @ stack"
  have "8 \<le> length ?b" by (simp add: define_packet_def)
  from send_data_log [OF this False, of 0 "w @ [take 8 ?b]"]
  obtain ps rest where "send_data log_send ?b 0 data (w @ [take 8 ?b]) = ((w @ [take 8 ?b]) @ ps, EPHIDGET_OK)"
    "concat ps = map word_of_int data @ rest" "list_all (\<lambda>p. length p = 8) ps" "length rest < 8" by auto
  then show thesis using assms
    by (intro that [of ps]) (auto simp: sendRAWData_def log_send_def carries_def define_packet_def)
qed

text \<open>What the device reads: the announced number of bytes of the packets, as times.\<close>

definition payload_times :: "nat \<Rightarrow> u8 list list \<Rightarrow> int list option" where
  "payload_times n ps = wire_times (map uint (take n (concat ps)))"

lemma bytes_back: "(\<forall>b \<in> set data. 0 \<le> b \<and> b < 256) \<Longrightarrow> map (\<lambda>b. uint (word_of_int b :: u8)) data = data"
  by (rule map_idI) (simp add: uint_word_of_int)

lemma payload_wire:
  assumes "carries ps (wire ts)" and "list_all time_ok ts"
  shows "payload_times (length (wire ts)) ps = Some (map (\<lambda>t. t div 10) ts)"
proof -
  have "take (length (wire ts)) (concat ps) = map word_of_int (wire ts)" using assms(1) by (auto simp: carries_def)
  moreover have "map uint (map word_of_int (wire ts) :: u8 list) = wire ts"
    using bytes_back [of "wire ts"] wire_bytes [OF assms(2)] by (simp add: comp_def)
  ultimately show ?thesis by (simp add: payload_times_def wire_times_wire [OF assms(2)])
qed

end
