(* ===== verification/Ir_Space.thy ===== *)
theory Ir_Space
  imports Ir_Analyze Ir_Wire
begin

text \<open>
  Pulse distance codes: the decoder on a clean frame, and the reception of a frame whose times vary.
\<close>

subsection \<open>Distinct times\<close>

definition add_time :: "int \<Rightarrow> int list \<Rightarrow> int list" where
  "add_time x ds = (if x \<in> set ds then ds else ds @ [x])"

definition padded :: "int list \<Rightarrow> times" where
  "padded ds = (ds @ replicate (5 - length ds) 0, length ds)"

lemma COUNT_TIMES_padded:
  assumes "x \<noteq> 0" and "0 \<notin> set ds" and "length (add_time x ds) \<le> 4"
  shows "COUNT_TIMES x (padded ds) = Some (padded (add_time x ds))"
proof -
  have "length ds \<le> 4" using assms(3) by (simp add: add_time_def split: if_splits)
  then consider "ds = []" | a where "ds = [a]" | a b where "ds = [a, b]" | a b c where "ds = [a, b, c]"
    | a b c d where "ds = [a, b, c, d]"
    by (auto simp: le_Suc_eq length_Suc_conv numeral_eq_Suc)
  then show ?thesis
    using assms by cases (auto simp: COUNT_TIMES_def padded_def add_time_def upt_rec numeral_eq_Suc split: if_splits)
qed

lemma add_time_props:
  "set (fold add_time xs ds) = set ds \<union> set xs" "distinct ds \<Longrightarrow> distinct (fold add_time xs ds)"
  "length ds \<le> length (fold add_time xs ds)"
proof -
  have "set (fold add_time xs ds) = set ds \<union> set xs \<and> (distinct ds \<longrightarrow> distinct (fold add_time xs ds)) \<and>
      length ds \<le> length (fold add_time xs ds)"
  proof (induction xs arbitrary: ds)
    case (Cons x xs)
    have "length ds \<le> length (add_time x ds)" by (simp add: add_time_def)
    moreover have "set (add_time x ds) = insert x (set ds)" "distinct ds \<longrightarrow> distinct (add_time x ds)"
      by (auto simp: add_time_def)
    ultimately show ?case using Cons.IH [of "add_time x ds"] by auto
  qed simp
  then show "set (fold add_time xs ds) = set ds \<union> set xs" "distinct ds \<Longrightarrow> distinct (fold add_time xs ds)"
    "length ds \<le> length (fold add_time xs ds)" by auto
qed

lemma count_all_padded:
  assumes "0 \<notin> set xs \<union> set hs \<union> set ls" and "length (fold add_time (fst (alternate high xs)) hs) \<le> 4"
    and "length (fold add_time (snd (alternate high xs)) ls) \<le> 4"
  shows "count_all high xs (padded hs) (padded ls) =
    Some (padded (fold add_time (fst (alternate high xs)) hs), padded (fold add_time (snd (alternate high xs)) ls))"
  using assms
proof (induction xs arbitrary: high hs ls)
  case (Cons x xs)
  show ?case
  proof (cases high)
    case True
    have l: "length (add_time x hs) \<le> 4" using Cons.prems(2) True add_time_props(3) [of "add_time x hs"]
      by (simp add: case_prod_beta) (meson order_trans)
    have "0 \<notin> set xs \<union> set (add_time x hs) \<union> set ls" using Cons.prems(1) by (auto simp: add_time_def)
    from Cons.IH [OF this] COUNT_TIMES_padded [OF _ _ l] Cons.prems True show ?thesis by (simp add: case_prod_beta)
  next
    case False
    have l: "length (add_time x ls) \<le> 4" using Cons.prems(3) False add_time_props(3) [of "add_time x ls"]
      by (simp add: case_prod_beta) (meson order_trans)
    have "0 \<notin> set xs \<union> set hs \<union> set (add_time x ls)" using Cons.prems(1) by (auto simp: add_time_def)
    from Cons.IH [OF this] COUNT_TIMES_padded [OF _ _ l] Cons.prems False show ?thesis by (simp add: case_prod_beta)
  qed
qed simp

text \<open>The ordered times of a list with one or two different times.\<close>

lemma order_pass:
  "fold ORDER_TIMES [0..<4] [a, 0, 0, 0, 0] = [a, 0, 0, 0, 0]"
  "0 < a \<Longrightarrow> 0 < b \<Longrightarrow> fold ORDER_TIMES [0..<4] [a, b, 0, 0, 0] = [min a b, max a b, 0, 0, 0]"
  by (auto simp: ORDER_TIMES_def upt_rec numeral_eq_Suc)

lemma order_all_small:
  "order_all [a, 0, 0, 0, 0] = [a, 0, 0, 0, 0]"
  "0 < a \<Longrightarrow> 0 < b \<Longrightarrow> order_all [a, b, 0, 0, 0] = [min a b, max a b, 0, 0, 0]"
proof -
  have five: "[0..<5] = [0, 1, 2, 3, 4 :: nat]" by (simp add: upt_rec)
  show "order_all [a, 0, 0, 0, 0] = [a, 0, 0, 0, 0]" by (simp add: order_all_def five order_pass(1) del: upt_rec_numeral)
  show "order_all [a, b, 0, 0, 0] = [min a b, max a b, 0, 0, 0]" if "0 < a" "0 < b"
    using that by (simp add: order_all_def five order_pass(2) del: upt_rec_numeral)
qed

lemma padded_small: "padded [a] = ([a, 0, 0, 0, 0], 1)" "padded [a, b] = ([a, b, 0, 0, 0], 2)" "padded [] = (replicate 5 0, 0)"
  by (simp_all add: padded_def numeral_eq_Suc)

lemma one_time_list: "set xs = {a} \<Longrightarrow> fold add_time xs [] = [a]"
proof -
  assume "set xs = {a}"
  then have s: "set (fold add_time xs []) = {a}" "distinct (fold add_time xs [])"
    using add_time_props(1,2) [of "[]" xs] add_time_props(1) [of xs "[]"] by auto
  then have "length (fold add_time xs []) = 1" by (metis distinct_card card.empty card.insert empty_iff finite.emptyI One_nat_def)
  then obtain x where "fold add_time xs [] = [x]" by (auto simp: length_Suc_conv)
  with s show ?thesis by simp
qed

lemma two_times_list: "set xs = {a, b} \<Longrightarrow> a \<noteq> b \<Longrightarrow> fold add_time xs [] = [a, b] \<or> fold add_time xs [] = [b, a]"
proof -
  assume "set xs = {a, b}" and ab: "a \<noteq> b"
  then have s: "set (fold add_time xs []) = {a, b}" "distinct (fold add_time xs [])"
    using add_time_props(1,2) [of "[]" xs] add_time_props(1) [of xs "[]"] by auto
  then have "length (fold add_time xs []) = 2" using ab distinct_card [of "fold add_time xs []"] by simp
  then obtain x y where "fold add_time xs [] = [x, y]" by (auto simp: length_Suc_conv numeral_eq_Suc)
  with s show ?thesis by (auto simp: doubleton_eq_iff)
qed

subsection \<open>Clean frames\<close>

definition clean_frame :: "int \<Rightarrow> int \<Rightarrow> int \<Rightarrow> bool list \<Rightarrow> int list" where
  "clean_frame p z o1 bs = concat (map (\<lambda>b. [p, if b then o1 else z]) bs) @ [p]"

lemma clean_frame_simps:
  "clean_frame p z o1 [] = [p]" "clean_frame p z o1 (b # bs) = p # (if b then o1 else z) # clean_frame p z o1 bs"
  by (simp_all add: clean_frame_def)

lemma alternate_clean:
  "alternate True (clean_frame p z o1 bs) = (replicate (length bs + 1) p, map (\<lambda>b. if b then o1 else z) bs)"
  by (induction bs) (auto simp: clean_frame_simps)

lemma space_bits_clean:
  assumes "holds_bits temp bs0" and "length bs0 + length bs \<le> 128" and "z \<noteq> o1"
  shows "\<exists>temp'. space_bits o1 (clean_frame p z o1 (bs @ bs2)) (length bs0) temp =
      space_bits o1 (clean_frame p z o1 bs2) (length bs0 + length bs) temp' \<and> holds_bits temp' (bs0 @ bs)"
  using assms
proof (induction bs arbitrary: temp bs0)
  case (Cons b bs)
  have l: "length bs0 < 128" using Cons.prems(2) by simp
  obtain t where t: "(if b then or_bit (length bs0) True temp else Some temp) = Some t" "holds_bits t (bs0 @ [b])"
  proof (cases b)
    case True
    then show thesis using holds_bits_or [OF Cons.prems(1) l, of True] that by auto
  next
    case False
    then show thesis using holds_bits_False [OF Cons.prems(1) l] that by auto
  qed
  have eq: "(if b then o1 else z) = o1 \<longleftrightarrow> b" using Cons.prems(3) by auto
  obtain t' where "space_bits o1 (clean_frame p z o1 (bs @ bs2)) (length (bs0 @ [b])) t =
      space_bits o1 (clean_frame p z o1 bs2) (length (bs0 @ [b]) + length bs) t'"
    "holds_bits t' ((bs0 @ [b]) @ bs)"
    using Cons.IH [OF t(2)] Cons.prems(2,3) by auto
  then show ?case using t(1) eq by (auto simp: clean_frame_simps)
qed (auto simp: clean_frame_simps)

lemma space_bits_zeros: "z \<noteq> o1 \<Longrightarrow> True \<notin> set bs \<Longrightarrow> space_bits o1 (clean_frame p z o1 bs) k temp = Some (k + length bs, temp)"
  by (induction bs arbitrary: k) (auto simp: clean_frame_simps)

text \<open>Neither test for a bi-phase code succeeds on one pulse length and two spaces of a ratio of at least 9 to 4.\<close>

lemma not_biphase:
  assumes "0 < z" and "9 * z \<le> 4 * o1"
  shows "\<not> looks_biphase [p, 0, 0, 0, 0] 1 [z, o1, 0, 0, 0] 2" and "\<not> looks_rc6 [p, 0, 0, 0, 0] 1 [z, o1, 0, 0, 0] 2"
proof -
  have "of_int (9 * z) \<le> (of_int (4 * o1) :: rat)" using assms(2) by (simp only: of_int_le_iff)
  then have r: "9 * of_int z \<le> (4 * of_int o1 :: rat)" by simp
  have zp: "0 < (of_int z :: rat)" using assms(1) by simp
  define q where "q = (of_int o1 / 2 :: rat)"
  have q: "9 / 8 * of_int z \<le> q" using r by (simp add: q_def)
  have s: "0 < q + of_int z" using q zp by linarith
  have "\<bar>q - of_int z\<bar> = q - of_int z" using q zp by simp
  moreover have "(1 / 10) * ((q + of_int z) / 2) \<le> q - of_int z" using q zp by (simp add: field_simps)
  ultimately have "\<not> \<bar>q - of_int z\<bar> / ((q + of_int z) / 2) < 1 / 10" using s by (simp add: field_simps)
  then have "\<not> below (pdiffd q (of_int z)) (1 / 10)" using s by (simp add: below_def pdiffd_def)
  then show "\<not> looks_biphase [p, 0, 0, 0, 0] 1 [z, o1, 0, 0, 0] 2" by (simp add: looks_biphase_def q_def)
  show "\<not> looks_rc6 [p, 0, 0, 0, 0] 1 [z, o1, 0, 0, 0] 2" by (simp add: looks_rc6_def)
qed

definition space_info :: "int \<Rightarrow> int \<Rightarrow> int \<Rightarrow> nat \<Rightarrow> code_info \<Rightarrow> code_info" where
  "space_info p z o1 n ci = ci\<lparr>one_time := (p, o1), zero_time := (p, z), trail := p,
     encoding := PHIDGET_IR_ENCODING_SPACE, bitCount := int n\<rparr>"

lemma decode_head:
  assumes "0 < p" and "0 < z" and "9 * z \<le> 4 * o1" and "True \<in> set bs" and "False \<in> set bs"
  shows "decode_data (clean_frame p z o1 bs) n ci =
    decode_modulated [p, 0, 0, 0, 0] 1 [z, o1, 0, 0, 0] 2 (clean_frame p z o1 bs) n ci"
proof -
  let ?xs = "clean_frame p z o1 bs"
  have zo: "z < o1" using assms(2,3) by simp
  have h: "fold add_time (fst (alternate True ?xs)) [] = [p]" by (rule one_time_list) (auto simp: alternate_clean)
  have "set (snd (alternate True ?xs)) = {z, o1}" using assms(4,5) by (force simp: alternate_clean)
  then have l: "fold add_time (snd (alternate True ?xs)) [] = [z, o1] \<or> fold add_time (snd (alternate True ?xs)) [] = [o1, z]"
    using zo by (intro two_times_list) auto
  have nz: "0 \<notin> set ?xs \<union> set [] \<union> set []" using assms(1,2) zo by (auto simp: clean_frame_def)
  have c: "count_all True ?xs (replicate 5 0, 0) (replicate 5 0, 0) =
      Some (padded [p], padded (fold add_time (snd (alternate True ?xs)) []))"
    using count_all_padded [OF nz, of True] l unfolding h padded_small(3) by (auto simp: alternate_clean)
  from l show ?thesis
  proof
    assume "fold add_time (snd (alternate True ?xs)) [] = [z, o1]"
    then show ?thesis using zo assms(2) not_biphase [OF assms(2,3), of p] order_all_small(2) [of z o1]
      by (simp add: decode_data_def c padded_small order_all_small(1) min_def max_def)
  next
    assume "fold add_time (snd (alternate True ?xs)) [] = [o1, z]"
    then show ?thesis using zo assms(2) not_biphase [OF assms(2,3), of p] order_all_small(2) [of o1 z]
      by (simp add: decode_data_def c padded_small order_all_small(1) min_def max_def)
  qed
qed

lemma decode_clean:
  assumes "0 < p" and "0 < z" and "9 * z \<le> 4 * o1" and code: "right_justified n code" "code_bits n code = bs"
    and "True \<in> set bs" and "False \<in> set bs" and n: "4 \<le> n" "n \<le> 128"
  shows "decode_data (clean_frame p z o1 bs) IR_MAX_CODE_DATA_LENGTH ci = Some (EPHIDGET_OK, code, space_info p z o1 n ci)"
proof -
  have l: "length bs = n" using code(2) by auto
  have zo: "z < o1" using assms(2,3) by simp
  obtain temp where t: "space_bits o1 (clean_frame p z o1 bs) 0 (replicate IR_MAX_CODE_DATA_LENGTH 0) = Some (n, temp)"
    "holds_bits temp bs"
    using space_bits_clean [OF holds_bits_Nil, of bs z o1 p "[]"] n(2) l zo by (auto simp: clean_frame_simps(1))
  have "flip_bits n temp = Some code" using flip_bits_code [of temp n code "[]"] t(2) code by simp
  moreover have "byte_count n \<le> IR_MAX_CODE_DATA_LENGTH" using n(2) byte_count_le [of n 16] by (simp add: ir_sizes)
  moreover have "last (clean_frame p z o1 bs) = p" by (simp add: clean_frame_def)
  ultimately show ?thesis using n(1) zo
    by (simp add: decode_head [OF assms(1-3,6,7)] decode_modulated_def t(1) finish_decode_def space_info_def)
qed

text \<open>The decoder does not check how many bits it collects: it writes behind its 16 bytes when one of the bits
  after the first 128 is set.\<close>

lemma space_bits_out:
  assumes "z \<noteq> o1" and "length temp = 16" and "\<exists>m < length bs. 128 \<le> k + m \<and> bs ! m"
  shows "space_bits o1 (clean_frame p z o1 bs) k temp = None"
  using assms
proof (induction bs arbitrary: k temp)
  case (Cons b bs)
  show ?case
  proof (cases "128 \<le> k \<and> b")
    case True
    then show ?thesis using or_bit_out [of temp k True] Cons.prems(2) by (simp add: clean_frame_simps)
  next
    case False
    obtain m where m: "m < length (b # bs)" "128 \<le> k + m" "(b # bs) ! m" using Cons.prems(3) by auto
    then obtain m' where "m = Suc m'" using False by (cases m) auto
    then have e: "\<exists>m < length bs. 128 \<le> (k + 1) + m \<and> bs ! m" using m by auto
    show ?thesis
    proof (cases "(if (if b then o1 else z) = o1 then or_bit k True temp else Some temp)")
      case (Some t)
      then have "length t = 16" using Cons.prems(2)
        by (auto simp: or_bit_def cwrite_def split: if_splits bind_splits)
      from Cons.IH [OF Cons.prems(1) this e] Some show ?thesis by (simp add: clean_frame_simps)
    qed (simp add: clean_frame_simps)
  qed
qed simp

subsection \<open>Reception\<close>

text \<open>Received times: a header or none, a pulse and a space for each bit, and a last pulse.\<close>

definition received :: "int list \<Rightarrow> (int \<times> int) list \<Rightarrow> int \<Rightarrow> int list" where
  "received hdr pss tp = hdr @ concat (map pair_list pss) @ [tp]"

definition wide :: "int \<Rightarrow> int \<Rightarrow> bool" where
  "wide x y \<longleftrightarrow> 9 * x \<le> 4 * y \<or> 9 * y \<le> 4 * x"

definition header_spaces :: "int list \<Rightarrow> int list" where
  "header_spaces hdr = drop 1 hdr"

text \<open>The conditions: the pulses are near each other and the first pulse of a header is far from them; any two
  spaces are near or differ by a factor of at least 9/4; the spaces of equal bits are near, and those of one bits are
  the longer ones; both bits occur.\<close>

definition good_reception :: "bool list \<Rightarrow> int list \<Rightarrow> (int \<times> int) list \<Rightarrow> int \<Rightarrow> bool" where
  "good_reception bs hdr pss tp \<longleftrightarrow>
     (let ps = map fst pss @ [tp]; ss = map snd pss; ls = header_spaces hdr @ ss in
      length pss = length bs \<and> length hdr \<in> {0, 2} \<and> True \<in> set bs \<and> False \<in> set bs \<and>
      (\<forall>x \<in> set (take 1 hdr @ ps). sane x) \<and> (\<forall>x \<in> set ls. sane x \<and> x < IR_MIN_GAP_LENGTH) \<and>
      (\<forall>x \<in> set ps. \<forall>y \<in> set ps. near x y) \<and> (\<forall>h \<in> set (take 1 hdr). \<forall>x \<in> set ps. far h x) \<and>
      (\<forall>x \<in> set ls. \<forall>y \<in> set ls. near x y \<or> wide x y) \<and>
      (\<forall>(s, b) \<in> set (zip ss bs). \<forall>(s', b') \<in> set (zip ss bs).
         if b = b' then near s s' else if b then 9 * s' \<le> 4 * s else 9 * s \<le> 4 * s'))"

lemma wide_far: "0 < x \<Longrightarrow> 0 < y \<Longrightarrow> wide x y \<Longrightarrow> far x y"
  by (auto simp: wide_def far_def)

lemma alternate_pairs: "alternate True (concat (map pair_list pss) @ xs) =
    (map fst pss @ fst (alternate True xs), map snd pss @ snd (alternate True xs))"
  by (induction pss) (auto simp: pair_list_def case_prod_beta)

lemma alternate_received:
  assumes "length hdr \<in> {0, 2}"
  shows "alternate True (received hdr pss tp) = (take 1 hdr @ map fst pss @ [tp], header_spaces hdr @ map snd pss)"
proof -
  consider "hdr = []" | hp hs where "hdr = [hp, hs]" using assms by (auto simp: length_Suc_conv numeral_eq_Suc)
  then show ?thesis by cases (auto simp: received_def alternate_pairs header_spaces_def)
qed

lemma clear_reps:
  assumes "ts \<noteq> []" and b: "banded (set ts)" and R: "length R \<le> 20" "\<forall>x \<in> set ts. \<exists>r \<in> set R. near x r \<and> r \<in> set ts"
  shows "clear ts"
proof (rule clearI [OF assms(1,2), where f = "\<lambda>x. {y \<in> set ts. near x y}"])
  fix x y assume x: "x \<in> set ts" and y: "y \<in> set ts" and e: "{z \<in> set ts. near x z} = {z \<in> set ts. near y z}"
  have "near y y" using b y by (auto simp: banded_def sane_def near_refl)
  then have "y \<in> {z \<in> set ts. near x z}" unfolding e using y by simp
  then show "near x y" by simp
next
  have same: "{y \<in> set ts. near x y} = {y \<in> set ts. near r y}" if "x \<in> set ts" "r \<in> set ts" "near x r" for x r
  proof -
    have "near x z \<longleftrightarrow> near r z" if z: "z \<in> set ts" for z
    proof
      have p: "0 < x" "0 < r" "near r z \<or> far r z" "near x z \<or> far x z"
        using b \<open>x \<in> set ts\<close> \<open>r \<in> set ts\<close> z by (auto simp: banded_def sane_def)
      show "near r z" if "near x z" using near_trans [of r x z] \<open>near x r\<close> that p near_sym by blast
      show "near x z" if "near r z" using near_trans [of x r z] \<open>near x r\<close> that p by blast
    qed
    then show ?thesis by auto
  qed
  have "(\<lambda>x. {y \<in> set ts. near x y}) ` set ts \<subseteq> (\<lambda>x. {y \<in> set ts. near x y}) ` set R"
  proof (rule image_subsetI)
    fix x assume x: "x \<in> set ts"
    then obtain r where r: "r \<in> set R" "near x r" "r \<in> set ts" using R(2) by blast
    show "{y \<in> set ts. near x y} \<in> (\<lambda>x. {y \<in> set ts. near x y}) ` set R"
      using same [OF x r(3,2)] r(1) by (intro image_eqI [of _ _ r]) auto
  qed
  then have "card ((\<lambda>x. {y \<in> set ts. near x y}) ` set ts) \<le> card ((\<lambda>x. {y \<in> set ts. near x y}) ` set R)"
    by (rule card_mono [rotated]) simp
  also have "\<dots> \<le> length R" by (rule order_trans [OF card_image_le card_length]) simp
  finally show "card ((\<lambda>x. {y \<in> set ts. near x y}) ` set ts) \<le> 20" using R(1) by simp
qed

text \<open>The parts of the predicate.\<close>

lemma good_receptionD:
  assumes "good_reception bs hdr pss tp"
  shows "length pss = length bs" "length hdr \<in> {0, 2}" "True \<in> set bs" "False \<in> set bs"
    "\<And>x. x \<in> set (take 1 hdr @ map fst pss @ [tp]) \<Longrightarrow> sane x" "\<And>x. x \<in> set (header_spaces hdr @ map snd pss) \<Longrightarrow> sane x"
    "\<And>x. x \<in> set (header_spaces hdr @ map snd pss) \<Longrightarrow> x < IR_MIN_GAP_LENGTH"
    "\<And>x y. x \<in> set (map fst pss @ [tp]) \<Longrightarrow> y \<in> set (map fst pss @ [tp]) \<Longrightarrow> near x y"
    "\<And>h x. h \<in> set (take 1 hdr) \<Longrightarrow> x \<in> set (map fst pss @ [tp]) \<Longrightarrow> far h x"
    "\<And>x y. x \<in> set (header_spaces hdr @ map snd pss) \<Longrightarrow> y \<in> set (header_spaces hdr @ map snd pss) \<Longrightarrow> near x y \<or> wide x y"
    "\<And>s b s' b'. (s, b) \<in> set (zip (map snd pss) bs) \<Longrightarrow> (s', b') \<in> set (zip (map snd pss) bs) \<Longrightarrow>
       if b = b' then near s s' else if b then 9 * s' \<le> 4 * s else 9 * s \<le> 4 * s'"
  using assms unfolding good_reception_def Let_def by blast+

lemma zip_bit: "i < length bs \<Longrightarrow> length pss = length bs \<Longrightarrow> (snd (pss ! i), bs ! i) \<in> set (zip (map snd pss) bs)"
  by (auto simp: set_zip intro!: exI [of _ i])

lemma pulses_clear:
  assumes "good_reception bs hdr pss tp"
  shows "clear (take 1 hdr @ map fst pss @ [tp])"
proof -
  note g = good_receptionD [OF assms]
  let ?hs = "take 1 hdr @ map fst pss @ [tp]"
  obtain h where h: "take 1 hdr = [] \<or> take 1 hdr = [h]" by (cases hdr) auto
  have nf: "near x y \<or> far x y" if "x \<in> set ?hs" "y \<in> set ?hs" for x y
  proof (cases "x \<in> set (map fst pss @ [tp])"; cases "y \<in> set (map fst pss @ [tp])")
    assume "x \<notin> set (map fst pss @ [tp])" "y \<notin> set (map fst pss @ [tp])"
    then have "x = y" using that h by auto
    then show ?thesis using g(5) [OF that(1)] near_refl by (simp add: sane_def)
  next
    assume x: "x \<in> set (map fst pss @ [tp])" and "y \<notin> set (map fst pss @ [tp])"
    then have "y \<in> set (take 1 hdr)" using that by auto
    then show ?thesis using g(9) [of y x] x far_sym by blast
  qed (use g(8,9) that in auto)
  show ?thesis
  proof (rule clear_reps [where R = "take 1 hdr @ [tp]"])
    show "banded (set ?hs)" using nf g(5) by (simp add: banded_def)
    show "length (take 1 hdr @ [tp]) \<le> 20" by simp
    show "\<forall>x \<in> set ?hs. \<exists>r \<in> set (take 1 hdr @ [tp]). near x r \<and> r \<in> set ?hs"
    proof
      fix x assume x: "x \<in> set ?hs"
      have "near x x" using g(5) [OF x] near_refl by (simp add: sane_def)
      then show "\<exists>r \<in> set (take 1 hdr @ [tp]). near x r \<and> r \<in> set ?hs"
        using x g(8) [of x tp] by (cases "x \<in> set (take 1 hdr)") auto
    qed
  qed simp
qed

lemma spaces_of_bits:
  assumes "good_reception bs hdr pss tp"
  obtains s0 s1 where "(s0, False) \<in> set (zip (map snd pss) bs)" "(s1, True) \<in> set (zip (map snd pss) bs)"
proof -
  note g = good_receptionD [OF assms]
  obtain i j where "i < length bs" "bs ! i" "j < length bs" "\<not> bs ! j" using g(3,4) by (metis in_set_conv_nth)
  then show thesis using zip_bit [OF _ g(1)] that by metis
qed

lemma spaces_clear:
  assumes "good_reception bs hdr pss tp"
  shows "clear (header_spaces hdr @ map snd pss)"
proof -
  note g = good_receptionD [OF assms]
  let ?ls = "header_spaces hdr @ map snd pss"
  obtain s0 s1 where s: "(s0, False) \<in> set (zip (map snd pss) bs)" "(s1, True) \<in> set (zip (map snd pss) bs)"
    using spaces_of_bits [OF assms] by blast
  have mem: "s0 \<in> set (map snd pss)" "s1 \<in> set (map snd pss)" using s by (auto dest: set_zip_leftD)
  show ?thesis
  proof (rule clear_reps [where R = "header_spaces hdr @ [s0, s1]"])
    have "near x y \<or> far x y" if "x \<in> set ?ls" "y \<in> set ?ls" for x y
      using g(6) [OF that(1)] g(6) [OF that(2)] g(10) [OF that] wide_far by (auto simp: sane_def)
    then show "banded (set ?ls)" using g(6) by (simp add: banded_def)
    show "?ls \<noteq> []" using mem by auto
    show "length (header_spaces hdr @ [s0, s1]) \<le> 20" using g(2) by (auto simp: header_spaces_def)
    show "\<forall>x \<in> set ?ls. \<exists>r \<in> set (header_spaces hdr @ [s0, s1]). near x r \<and> r \<in> set ?ls"
    proof
      fix x assume x: "x \<in> set ?ls"
      show "\<exists>r \<in> set (header_spaces hdr @ [s0, s1]). near x r \<and> r \<in> set ?ls"
      proof (cases "x \<in> set (header_spaces hdr)")
        case True
        have "near x x" using g(6) [OF x] near_refl by (simp add: sane_def)
        with True x show ?thesis by auto
      next
        case False
        then obtain b where b: "(x, b) \<in> set (zip (map snd pss) bs)"
          using x g(1) zip_bit [OF _ g(1)] by (fastforce simp: in_set_conv_nth)
        have "near x (if b then s1 else s0)" using g(11) [OF b s(1)] g(11) [OF b s(2)] by (cases b) auto
        then show ?thesis using mem by (intro bexI [of _ "if b then s1 else s0"]) auto
      qed
    qed
  qed
qed

lemma received_signal:
  assumes "good_reception bs hdr pss tp"
  shows "signal (received hdr pss tp)"
proof -
  note g = good_receptionD [OF assms]
  have "length (concat (map pair_list pss)) = 2 * length pss" by (induction pss) (simp_all add: pair_list_def)
  then have "odd (length (received hdr pss tp))" using g(2) by (auto simp: received_def)
  then show ?thesis
    using pulses_clear [OF assms] spaces_clear [OF assms] g(7) by (simp add: signal_def alternate_received [OF g(2)])
qed

lemma received_header:
  assumes "good_reception bs hdr pss tp"
  shows "has_header (received hdr pss tp) \<longleftrightarrow> hdr \<noteq> []"
proof -
  note g = good_receptionD [OF assms]
  note alt = alternate_received [OF g(2), of pss tp]
  have pos: "0 < x" if "x \<in> set (take 1 hdr @ map fst pss @ [tp])" for x using g(5) [OF that] by (simp add: sane_def)
  show ?thesis
  proof (cases hdr)
    case Nil
    obtain p s pss' where pss: "pss = (p, s) # pss'" using g(1,3) by (cases pss) auto
    have "filter (near p) (map fst pss @ [tp]) = map fst pss @ [tp]" by (rule filter_True) (use g(8) pss in auto)
    moreover have "hd (received hdr pss tp) = p" by (simp add: received_def pss pair_list_def Nil)
    moreover have "fst (alternate True (received hdr pss tp)) = map fst pss @ [tp]" unfolding alt by (simp add: Nil)
    ultimately have "has_header (received hdr pss tp) \<longleftrightarrow> length (map fst pss @ [tp]) = 1" by (simp only: has_header_def)
    then show ?thesis using Nil pss by simp
  next
    case (Cons h t)
    have "\<not> near h x" if "x \<in> set (map fst pss @ [tp])" for x
      using g(9) [of h x] near_not_far [of h x] pos [of h] pos [of x] that Cons by auto
    then have "filter (near h) (map fst pss @ [tp]) = []" by (simp add: filter_empty_conv)
    moreover have "near h h" using pos [of h] near_refl Cons by simp
    ultimately have "filter (near h) (take 1 hdr @ map fst pss @ [tp]) = [h]" using Cons by simp
    moreover have "hd (received hdr pss tp) = h" by (simp add: received_def Cons)
    ultimately have "has_header (received hdr pss tp)" unfolding has_header_def alt by (simp only: fst_conv list.size)
    then show ?thesis using Cons by simp
  qed
qed

lemma alt_map_pairs:
  assumes "length pss = length bs" and "\<forall>x \<in> set (map fst pss @ [tp]). f x = p"
    and "\<forall>(s, b) \<in> set (zip (map snd pss) bs). g s = (if b then o1 else z)"
  shows "alt_map True f g (concat (map pair_list pss) @ [tp]) = clean_frame p z o1 bs"
  using assms by (induction pss bs rule: list_induct2) (auto simp: pair_list_def clean_frame_simps)

lemma received_normal:
  assumes "good_reception bs hdr pss tp"
  obtains p z o1 where "(if has_header (received hdr pss tp) then drop 2 (normal_form nan (received hdr pss tp))
      else normal_form nan (received hdr pss tp)) = clean_frame p z o1 bs" "0 < p" "0 < z" "9 * z \<le> 4 * o1"
proof -
  note g = good_receptionD [OF assms]
  let ?hs = "take 1 hdr @ map fst pss @ [tp]" and ?ls = "header_spaces hdr @ map snd pss"
  have ch: "clear ?hs" and cl: "clear ?ls" using pulses_clear spaces_clear assms by blast+
  obtain s0 s1 where s: "(s0, False) \<in> set (zip (map snd pss) bs)" "(s1, True) \<in> set (zip (map snd pss) bs)"
    using spaces_of_bits [OF assms] by blast
  have mem: "s0 \<in> set ?ls" "s1 \<in> set ?ls" using s by (auto dest: set_zip_leftD)
  define p z o1 where "p = rep nan ?hs tp" and "z = rep nan ?ls s0" and "o1 = rep nan ?ls s1"
  have "rep nan ?hs x = p" if "x \<in> set (map fst pss @ [tp])" for x
    unfolding p_def by (rule rep_same [OF ch]) (use that g(8) [OF that, of tp] in auto)
  moreover have "rep nan ?ls x = (if b then o1 else z)" if b: "(x, b) \<in> set (zip (map snd pss) bs)" for x b
  proof -
    have x: "x \<in> set ?ls" using b by (auto dest: set_zip_leftD)
    show ?thesis
      using rep_same [OF cl x mem(1)] rep_same [OF cl x mem(2)] g(11) [OF b s(1)] g(11) [OF b s(2)]
      by (cases b) (auto simp: z_def o1_def)
  qed
  ultimately have pairs: "alt_map True (rep nan ?hs) (rep nan ?ls) (concat (map pair_list pss) @ [tp]) = clean_frame p z o1 bs"
    by (intro alt_map_pairs [OF g(1)]) auto
  have raw: "normal_form nan (received hdr pss tp) =
      alt_map True (rep nan ?hs) (rep nan ?ls) (hdr @ concat (map pair_list pss) @ [tp])"
    by (simp add: normal_form_def alternate_received [OF g(2)]) (simp add: received_def)
  consider (none) "hdr = []" | (some) hp hq where "hdr = [hp, hq]" using g(2) by (auto simp: length_Suc_conv numeral_eq_Suc)
  then have nf: "(if has_header (received hdr pss tp) then drop 2 (normal_form nan (received hdr pss tp))
      else normal_form nan (received hdr pss tp)) = clean_frame p z o1 bs"
  proof cases
    case none
    then show ?thesis using raw pairs received_header [OF assms] by simp
  next
    case some
    then have "normal_form nan (received hdr pss tp) = [rep nan ?hs hp, rep nan ?ls hq] @ clean_frame p z o1 bs"
      using raw pairs by simp
    then show ?thesis using some received_header [OF assms] by simp
  qed
  have pz: "0 < p" "0 < z" using rep_near(2) [OF ch, of tp nan] rep_near(2) [OF cl mem(1), of nan]
    by (auto simp: p_def z_def sane_def)
  obtain b where b: "b \<in> set ?ls" "near s0 b" "z \<le> b" unfolding z_def by (rule rep_between [OF cl mem(1), of nan])
  obtain a where a: "a \<in> set ?ls" "near s1 a" "a \<le> o1" unfolding o1_def by (rule rep_between [OF cl mem(2), of nan])
  have pos: "0 < a" "0 < b" "0 < s0" using g(6) [OF a(1)] g(6) [OF b(1)] g(6) [OF mem(1)] by (auto simp: sane_def)
  have l: "9 * s0 \<le> 4 * s1" using g(11) [OF s(2) s(1)] by simp
  have "9 * b \<le> 4 * a" using g(10) [OF a(1) b(1)] a(2) b(2) l pos by (auto simp: near_def wide_def)
  then have "9 * z \<le> 4 * o1" using a(3) b(3) by simp
  with nf pz show thesis by (rule that)
qed

lemma space_code_outcome:
  assumes "good_reception (code_bits n code) hdr pss tp" and "right_justified n code" and n: "4 \<le> n" "n \<le> 128"
    and "between_gaps d g (received hdr pss tp)"
  obtains d' rep where "analyze_data nan d needed = Some (EPHIDGET_OK, d', FIRE d (Code code (int n) rep))"
    "rep \<longleftrightarrow> take (length code) (lastCode d) = code \<and> gap_in_range g \<and> bitCount (lastCodeInfo d) = int n \<and>
       encoding (lastCodeInfo d) = PHIDGET_IR_ENCODING_SPACE"
    "lastCode d' = code @ replicate (16 - length code) 0" "lastCodeKnown d'" "bitCount (lastCodeInfo d') = int n"
    "encoding (lastCodeInfo d') = PHIDGET_IR_ENCODING_SPACE" "dataBuffer d' = dataBuffer d"
    "dataBuffer d' ! unat (dataReadPtr d') \<ge> IR_MIN_GAP_LENGTH"
proof -
  obtain nrm e where a: "analyze_data nan d needed = analyze_code (d\<lparr>lastGap := g, dataBufferNormalized := nrm, dataReadPtr := e\<rparr>)
       (if has_header (received hdr pss tp) then drop 2 (normal_form nan (received hdr pss tp))
        else normal_form nan (received hdr pss tp))"
    and e: "dataBuffer d ! unat e \<ge> IR_MIN_GAP_LENGTH"
    using analyze_outcome [OF assms(5) received_signal [OF assms(1)]] by metis
  obtain p z o1 where c: "(if has_header (received hdr pss tp) then drop 2 (normal_form nan (received hdr pss tp))
      else normal_form nan (received hdr pss tp)) = clean_frame p z o1 (code_bits n code)" "0 < p" "0 < z" "9 * z \<le> 4 * o1"
    using received_normal [OF assms(1)] by metis
  have "decode_data (clean_frame p z o1 (code_bits n code)) IR_MAX_CODE_DATA_LENGTH code_info_zero =
      Some (EPHIDGET_OK, code, space_info p z o1 n code_info_zero)"
    using good_receptionD(3,4) [OF assms(1)] by (intro decode_clean [OF c(2-4) assms(2) refl _ _ n])
  then have "analyze_data nan d needed =
      (let d1 = d\<lparr>lastGap := g, dataBufferNormalized := nrm, dataReadPtr := e\<rparr>;
           r = code_decoded code (space_info p z o1 n code_info_zero) d1 in Some (EPHIDGET_OK, fst r, snd r))"
    unfolding a c(1) by (simp add: analyze_code_def Let_def split: prod.split)
  moreover have "lastCodeInfo (d\<lparr>lastGap := g, dataBufferNormalized := nrm, dataReadPtr := e\<rparr>) = lastCodeInfo d" by simp
  ultimately show thesis
    by (intro that [of "fst (code_decoded code (space_info p z o1 n code_info_zero)
          (d\<lparr>lastGap := g, dataBufferNormalized := nrm, dataReadPtr := e\<rparr>))"
        "take (length code) (lastCode d) = code \<and> gap_in_range g \<and> bitCount (lastCodeInfo d) = int n \<and>
          encoding (lastCodeInfo d) = PHIDGET_IR_ENCODING_SPACE"])
      (use e in \<open>simp_all add: code_decoded_def space_info_def FIRE_def Let_def ir_sizes\<close>)
qed

subsection \<open>Properties\<close>

text \<open>C10. A pulse distance code of 4 to 128 bits, in which both bit values occur, is recognised between two gaps as long
  as the pulses differ by at most 10 percent from each other and by more than 20 percent from the pulse of the header,
  if there is one; the spaces of equal bits differ by at most 10 percent, those of a one are at least 9/4 of those of a
  zero, and the header's space is equal to either in the same sense or differs from it by that factor; all times are
  measurable and the spaces shorter than a gap.  Then the analysis reports
  exactly the bytes of the code, the number of bits, and as a repetition only what follows the same code by at most
  100 ms; it stores the code and goes on at the next gap.\<close>

theorem space_code_received:
  assumes "good_reception (code_bits n code) hdr pss tp" and "right_justified n code" and "4 \<le> n" "n \<le> 128"
    and "between_gaps d g (received hdr pss tp)"
  shows "\<exists>d' rep. analyze_data nan d needed = Some (EPHIDGET_OK, d', FIRE d (Code code (int n) rep)) \<and>
    (rep \<longleftrightarrow> take (length code) (lastCode d) = code \<and> gap_in_range g \<and> bitCount (lastCodeInfo d) = int n \<and>
       encoding (lastCodeInfo d) = PHIDGET_IR_ENCODING_SPACE) \<and>
    lastCode d' = code @ replicate (16 - length code) 0 \<and> lastCodeKnown d' \<and> bitCount (lastCodeInfo d') = int n \<and>
    encoding (lastCodeInfo d') = PHIDGET_IR_ENCODING_SPACE \<and>
    dataBuffer d' ! unat (dataReadPtr d') \<ge> IR_MIN_GAP_LENGTH"
  by (rule space_code_outcome [OF assms]) blast

lemma ring_unat: "n < IR_DATA_ARRAY_SIZE \<Longrightarrow> unat (of_nat n :: ring_ptr) = n"
  by (simp add: unsigned_of_nat take_bit_nat_eq_self_iff ir_sizes)

lemma window_prefix:
  assumes "length (pre @ xs) < IR_DATA_ARRAY_SIZE"
  shows "window (pre @ xs @ rest) (of_nat (length pre)) (of_nat (length (pre @ xs))) = xs"
  using assms
proof (induction xs arbitrary: pre)
  case (Cons x xs)
  have u: "unat (of_nat (length pre) :: ring_ptr) = length pre" "unat (of_nat (length (pre @ x # xs)) :: ring_ptr) = length (pre @ x # xs)"
    by (rule ring_unat; use Cons.prems in simp)+
  then have "(of_nat (length pre) :: ring_ptr) \<noteq> of_nat (length (pre @ x # xs))" by (metis add_eq_self_zero length_0_conv length_append list.discI)
  moreover have "window ((pre @ [x]) @ xs @ rest) (of_nat (length (pre @ [x]))) (of_nat (length ((pre @ [x]) @ xs))) = xs"
    by (rule Cons.IH) (use Cons.prems in simp)
  ultimately show ?case using u(1) by (simp add: window_Cons nth_append algebra_simps)
qed simp

definition demo_ir :: ir where
  "demo_ir = \<lparr>dev = demo_handle\<lparr>deviceID := PHIDCLASS_IR, deviceIDSpec := PHIDID_IR, deviceVersion := 100\<rparr>,
     dataBuffer = replicate IR_DATA_ARRAY_SIZE 0, dataBufferNormalized = replicate IR_DATA_ARRAY_SIZE 0,
     dataReadPtr = 0, dataWritePtr = 0, userReadPtr = 0, learnReadPtr = 0, polarity = 2,
     lastCodeKnown = False, lastCode = replicate 16 0, lastCodeInfo = code_info_zero, lastRepeat = PUNK_BOOL, lastGap = PUNK_BOOL,
     lastLearnedCodeKnown = False, lastLearnedCode = replicate 16 0, lastLearnedCodeInfo = code_info_zero,
     lastSentCode = replicate 16 0, lastSentCodeInfo = code_info_zero, lastDataTime = 0, delayCode = True,
     outbuf = \<lparr>outputPacket = replicate 64 0, outputPacketLen = 0\<rparr>\<rparr>"

text \<open>A ring with given contents, not yet read.\<close>

definition ring_with :: "int list \<Rightarrow> ir" where
  "ring_with xs = demo_ir\<lparr>dataBuffer := xs @ replicate (IR_DATA_ARRAY_SIZE - length xs) 0, dataWritePtr := of_nat (length xs)\<rparr>"

lemma ring_with_window: "length xs < IR_DATA_ARRAY_SIZE \<Longrightarrow>
  window (dataBuffer (ring_with xs)) (dataReadPtr (ring_with xs)) (dataWritePtr (ring_with xs)) = xs"
  using window_prefix [of "[]" xs "replicate (IR_DATA_ARRAY_SIZE - length xs) 0"] by (simp add: ring_with_def demo_ir_def)

definition demo_pairs :: "(int \<times> int) list" where
  "demo_pairs = [(560, 570), (550, 1680), (570, 540), (560, 1700)]"

theorem space_code_received_witness:
  "\<exists>d' rep. analyze_data 0 (ring_with (PUNK_INT # received [9000, 4500] demo_pairs 560 @ [40000])) True =
      Some (EPHIDGET_OK, d', FIRE (ring_with (PUNK_INT # received [9000, 4500] demo_pairs 560 @ [40000])) (Code [5] 4 rep)) \<and> \<not> rep"
proof -
  let ?d = "ring_with (PUNK_INT # received [9000, 4500] demo_pairs 560 @ [40000])"
  have b: "code_bits 4 [5] = [False, True, False, True]" by code_simp
  have r: "right_justified 4 [5]" by code_simp
  have g: "good_reception (code_bits 4 [5]) [9000, 4500] demo_pairs 560"
    unfolding b by code_simp
  have "length (PUNK_INT # received [9000, 4500] demo_pairs 560 @ [40000]) < IR_DATA_ARRAY_SIZE" by code_simp
  from ring_with_window [OF this] have "between_gaps ?d PUNK_INT (received [9000, 4500] demo_pairs 560)"
    unfolding between_gaps_def
    by (intro conjI exI [of _ 40000] exI [of _ "[]"]) (simp_all add: ring_with_def demo_ir_def PUNK_INT_def ir_times)
  from space_code_received [OF g r _ _ this, of 0 True] show ?thesis
    by (auto simp: gap_in_range_def PUNK_INT_def ir_times)
qed

definition space_fields :: "int \<Rightarrow> int \<Rightarrow> int \<Rightarrow> int list \<Rightarrow> code_info \<Rightarrow> code_info" where
  "space_fields p z o1 data ci = ci\<lparr>one_time := (p, o1), zero_time := (p, z), trail := last data, encoding := PHIDGET_IR_ENCODING_SPACE\<rparr>"

text \<open>C37. The decoder does not check how many bits it collects into its 16 bytes.  Take a pulse distance signal without
  jitter, all pulses of one length and the space of a one at least 9/4 of that of a zero, in which a zero occurs and
  a one among the first 128 bits: the decoder writes behind the array exactly when a bit beyond the first 128 is set.\<close>

theorem long_code_overruns_decoder:
  assumes "0 < p" and "0 < z" and "9 * z \<le> 4 * o1" and "True \<in> set (take 128 bs)" and "False \<in> set bs"
  shows "decode_data (clean_frame p z o1 bs) IR_MAX_CODE_DATA_LENGTH ci = None \<longleftrightarrow> True \<in> set (drop 128 bs)"
proof -
  have t: "True \<in> set bs" using assms(4) by (auto dest: in_set_takeD)
  have zo: "z \<noteq> o1" "z < o1" using assms(2,3) by simp_all
  have h: "decode_data (clean_frame p z o1 bs) IR_MAX_CODE_DATA_LENGTH ci =
      decode_modulated [p, 0, 0, 0, 0] 1 [z, o1, 0, 0, 0] 2 (clean_frame p z o1 bs) IR_MAX_CODE_DATA_LENGTH ci"
    by (rule decode_head [OF assms(1-3) t assms(5)])
  show ?thesis
  proof
    assume "True \<in> set (drop 128 bs)"
    then obtain m where "m < length (drop 128 bs)" "drop 128 bs ! m" by (auto simp: in_set_conv_nth)
    then have "\<exists>m < length bs. 128 \<le> 0 + m \<and> bs ! m" by (intro exI [of _ "128 + m"]) auto
    then have "space_bits o1 (clean_frame p z o1 bs) 0 (replicate IR_MAX_CODE_DATA_LENGTH 0) = None"
      by (intro space_bits_out [OF zo(1)]) (simp_all add: ir_sizes)
    then show "decode_data (clean_frame p z o1 bs) IR_MAX_CODE_DATA_LENGTH ci = None"
      using assms(2,3) by (simp add: h decode_modulated_def)
  next
    assume n: "decode_data (clean_frame p z o1 bs) IR_MAX_CODE_DATA_LENGTH ci = None"
    show "True \<in> set (drop 128 bs)"
    proof (rule ccontr)
      assume f: "True \<notin> set (drop 128 bs)"
      have "length (take 128 bs) \<le> 128" by simp
      then obtain temp where t: "space_bits o1 (clean_frame p z o1 (take 128 bs @ drop 128 bs)) 0 (replicate IR_MAX_CODE_DATA_LENGTH 0) =
          space_bits o1 (clean_frame p z o1 (drop 128 bs)) (length (take 128 bs)) temp" "holds_bits temp (take 128 bs)"
        using space_bits_clean [OF holds_bits_Nil, of "take 128 bs" z o1 p "drop 128 bs"] zo by auto
      then have "space_bits o1 (clean_frame p z o1 bs) 0 (replicate IR_MAX_CODE_DATA_LENGTH 0) = Some (length bs, temp)"
        using space_bits_zeros [OF zo(1) f] by simp
      moreover have "finish_decode IR_MAX_CODE_DATA_LENGTH (length bs) temp (space_fields p z o1 (clean_frame p z o1 bs) ci) \<noteq> None"
      proof (cases "length bs \<le> 128")
        case True
        then have "holds_bits temp (bs @ [])" using t(2) by simp
        then obtain out where "flip_bits (length bs) temp = Some out" by (rule flip_bits_ok [OF _ refl])
        then show ?thesis by (simp add: finish_decode_def)
      next
        case False
        then have "IR_MAX_CODE_DATA_LENGTH < byte_count (length bs)" using byte_count_le [of "length bs" 16] by (simp add: ir_sizes)
        then show ?thesis by (simp add: finish_decode_def)
      qed
      ultimately show False using n assms(2,3) by (simp add: h decode_modulated_def space_fields_def)
    qed
  qed
qed

theorem long_code_overruns_decoder_witness:
  "decode_data (clean_frame 560 560 1680 ([True, False] @ replicate 127 True)) IR_MAX_CODE_DATA_LENGTH code_info_zero = None"
  by (subst long_code_overruns_decoder) auto

end
