(* ===== verification/Ir_Remote.thy ===== *)
theory Ir_Remote
  imports Ir_Space
begin

text \<open>
  From \<^verbatim>\<open>CPhidgetIR_Transmit\<close> of one device to the code event of another.
\<close>

subsection \<open>Transmitting a pulse distance code\<close>

text \<open>The codes that one call sends: the code of the caller, then each time the last one with the toggled bits.\<close>

fun sent_codes :: "nat \<Rightarrow> code_info \<Rightarrow> nat \<Rightarrow> u8 list \<Rightarrow> u8 list list" where
  "sent_codes n ci 0 code = []"
| "sent_codes n ci (Suc k) code = code # sent_codes n ci k (toggle n ci code)"

text \<open>A frame that fits into the 255 bytes of a transmission.\<close>

definition sendable :: "code_info \<Rightarrow> nat \<Rightarrow> u8 list \<Rightarrow> bool" where
  "sendable ci n code \<longleftrightarrow> (let ts = space_frame ci (code_bits n code) in
     list_all time_ok ts \<and> length (wire ts) \<le> 255 \<and> int_ok (gap ci - sum_list ts))"

text \<open>The packets of one frame: the announcement with the time left for the gap, and packets whose payload is the
  frame.\<close>

definition frame_gap :: "code_info \<Rightarrow> int list \<Rightarrow> int" where
  "frame_gap ci ts = (if length_kind ci = PHIDGET_IR_LENGTH_CONSTANT then gap ci - sum_list ts else gap ci)"

definition burst_of :: "(int \<Rightarrow> int \<Rightarrow> dbl \<times> dbl) \<Rightarrow> code_info \<Rightarrow> nat \<Rightarrow> u8 list \<Rightarrow> u8 list list \<Rightarrow> bool" where
  "burst_of fdiv ci n code burst \<longleftrightarrow> (let ts = space_frame ci (code_bits n code) in
     \<exists>len ps. len \<le> 255 \<and> burst = define_packet fdiv (int len) (carrierFrequency ci) (dutyCycle ci) (frame_gap ci ts) # ps \<and>
       payload_times len ps = Some (map (\<lambda>t. t div 10) ts))"

lemma sum_list_bound: "list_all time_ok ts \<Longrightarrow> sum_list ts \<le> int (length ts) * 327670"
  by (induction ts) (auto simp: time_ok_def ir_times algebra_simps)

lemma sendable_raw:
  assumes "starts_with_code n code tmp" and "bitCount ci = int n" and "encoding ci = PHIDGET_IR_ENCODING_SPACE"
    and "sendable ci n code"
  shows "codeInfoToRawData tmp ci raw_limit False =
    (let ts = space_frame ci (code_bits n code) in Some (Inr (wire ts, int (length (wire ts)), sum_list ts)))"
proof -
  let ?ts = "space_frame ci (code_bits n code)"
  have s: "list_all time_ok ?ts" "length (wire ?ts) \<le> 255" using assms(4) by (simp_all add: sendable_def Let_def)
  then have "length ?ts \<le> 255" using wire_length_ge [of ?ts] by simp
  then have "sum_list ?ts < 2 ^ 31" using sum_list_bound [OF s(1)] by simp
  with s have "times_fit raw_limit ?ts ([], 0)" by (simp add: times_fit_def raw_limit_def ir_sizes)
  then show ?thesis by (intro space_raw [OF assms(1-3)]) simp_all
qed

lemma toggle_starts:
  assumes "starts_with_code n code tmp" and "length (toggle_mask ci) = 16" and "n \<le> 128"
  shows "starts_with_code n (toggle (byte_count n) ci code) (toggle (byte_count n) ci tmp)"
proof -
  obtain rest where t: "tmp = code @ rest" "length code = byte_count n" using assms(1) by (auto simp: starts_with_code_def)
  have "byte_count n \<le> 16" using byte_count_le [of n 16] assms(3) by simp
  then show ?thesis using t assms(2) by (simp add: starts_with_code_def toggle_def)
qed

lemma transmit_loop_log:
  assumes "bitCount ci = int n" and "encoding ci = PHIDGET_IR_ENCODING_SPACE" and "n \<le> 128" and "length (toggle_mask ci) = 16"
    and "starts_with_code n code tmp" and "length (lastSentCode d) = 16"
    and "\<forall>c \<in> set (sent_codes (byte_count n) ci reps code). sendable ci n c"
  shows "\<exists>bursts d'. transmit_loop log_send fdiv stack ci (byte_count n) False reps tmp d w = Some (EPHIDGET_OK, d', w @ concat bursts) \<and>
    list_all2 (burst_of fdiv ci n) (sent_codes (byte_count n) ci reps code) bursts \<and> lastSentCodeInfo d' = ci \<and>
    (reps \<noteq> 0 \<longrightarrow> take (byte_count n) (lastSentCode d') = last (sent_codes (byte_count n) ci reps code)) \<and>
    (reps = 0 \<longrightarrow> lastSentCode d' = lastSentCode d)"
  using assms(5-7)
proof (induction reps arbitrary: code tmp d w)
  case 0
  then show ?case by (intro exI [of _ "[]"]) simp
next
  case (Suc reps)
  let ?L = "byte_count n" and ?ts = "space_frame ci (code_bits n code)"
  have send: "sendable ci n code" using Suc.prems(3) by simp
  then have s: "list_all time_ok ?ts" "length (wire ?ts) \<le> 255" "int_ok (gap ci - sum_list ?ts)"
    by (simp_all add: sendable_def Let_def)
  note raw = sendable_raw [OF Suc.prems(1) assms(1,2) send, unfolded Let_def]
  have left: "time_left ci (sum_list ?ts) = Some (frame_gap ci ?ts)" using s(3) by (simp add: time_left_def frame_gap_def ck_def)
  obtain ps where ps: "sendRAWData log_send fdiv stack (wire ?ts) (int (length (wire ?ts))) (carrierFrequency ci) (dutyCycle ci)
      (frame_gap ci ?ts) w = (w @ define_packet fdiv (int (length (wire ?ts))) (carrierFrequency ci) (dutyCycle ci) (frame_gap ci ?ts) # ps, EPHIDGET_OK)"
    "carries ps (wire ?ts)" by (rule sendRAWData_log [OF s(2)])
  define b where "b = define_packet fdiv (int (length (wire ?ts))) (carrierFrequency ci) (dutyCycle ci) (frame_gap ci ?ts) # ps"
  have bo: "burst_of fdiv ci n code b"
    unfolding burst_of_def Let_def b_def using payload_wire [OF ps(2) s(1)] s(2) by blast
  have L: "?L \<le> 16" using byte_count_le [of n 16] assms(3) by simp
  obtain rest where t: "tmp = code @ rest" "length code = ?L" using Suc.prems(1) by (auto simp: starts_with_code_def)
  define d1 where "d1 = d\<lparr>lastSentCode := code @ drop ?L (lastSentCode d)\<rparr>"
  have "blit (lastSentCode d) 0 (take ?L tmp) = Some (code @ drop ?L (lastSentCode d))"
    using t L Suc.prems(2) by (simp add: blit_def)
  then have step: "transmit_loop log_send fdiv stack ci ?L False (Suc reps) tmp d w =
      transmit_loop log_send fdiv stack ci ?L False reps (toggle ?L ci tmp) d1 (w @ b)"
    using raw left ps(1) by (simp add: d1_def b_def)
  obtain bursts d' where r: "transmit_loop log_send fdiv stack ci ?L False reps (toggle ?L ci tmp) d1 (w @ b) =
        Some (EPHIDGET_OK, d', (w @ b) @ concat bursts)"
      "list_all2 (burst_of fdiv ci n) (sent_codes ?L ci reps (toggle ?L ci code)) bursts" "lastSentCodeInfo d' = ci"
      "reps \<noteq> 0 \<longrightarrow> take ?L (lastSentCode d') = last (sent_codes ?L ci reps (toggle ?L ci code))"
      "reps = 0 \<longrightarrow> lastSentCode d' = lastSentCode d1"
    using Suc.IH [OF toggle_starts [OF Suc.prems(1) assms(4,3)], of d1 "w @ b"] Suc.prems(2,3) t L by (auto simp: d1_def)
  have "take ?L (lastSentCode d') = last (sent_codes ?L ci (Suc reps) code)"
    using r(4,5) t(2) by (cases reps) (auto simp: d1_def)
  then show ?case using step r(1-3) bo by (intro exI [of _ "b # bursts"] exI [of _ d']) simp
qed

lemma space_transmit_outcome:
  assumes "ir_checks d = EPHIDGET_OK" and "prepare_code ci0 = (EPHIDGET_OK, ci)" and "encoding ci = PHIDGET_IR_ENCODING_SPACE"
    and "bitCount ci = int n" and "n \<le> 128" and "length code = byte_count n" and "length tmp = 16" and "length (lastSentCode d) = 16"
    and "length (toggle_mask ci) = 16" and "0 < min_repeat ci"
    and "\<forall>c \<in> set (sent_codes (byte_count n) ci (nat (min_repeat ci)) code). sendable ci n c"
  shows "\<exists>bursts d'. CPhidgetIR_Transmit log_send fdiv stack tmp d (code @ beyond) ci0 w = Some (EPHIDGET_OK, ci, d', w @ concat bursts) \<and>
    list_all2 (burst_of fdiv ci n) (sent_codes (byte_count n) ci (nat (min_repeat ci)) code) bursts \<and>
    lastSentCodeInfo d' = ci \<and> take (byte_count n) (lastSentCode d') = last (sent_codes (byte_count n) ci (nat (min_repeat ci)) code)"
proof -
  have L: "byte_count n \<le> 16" using byte_count_le [of n 16] assms(5) by simp
  have b: "blit tmp 0 (take (byte_count n) (code @ beyond)) = Some (code @ drop (byte_count n) tmp)"
    using assms(6,7) L by (simp add: blit_def)
  have "starts_with_code n code (code @ drop (byte_count n) tmp)" using assms(6) by (auto simp: starts_with_code_def)
  from transmit_loop_log [OF assms(4,3,5,9) this assms(8,11), of fdiv stack w]
  obtain bursts d' where "transmit_loop log_send fdiv stack ci (byte_count n) False (nat (min_repeat ci)) (code @ drop (byte_count n) tmp) d w =
      Some (EPHIDGET_OK, d', w @ concat bursts)"
    "list_all2 (burst_of fdiv ci n) (sent_codes (byte_count n) ci (nat (min_repeat ci)) code) bursts" "lastSentCodeInfo d' = ci"
    "take (byte_count n) (lastSentCode d') = last (sent_codes (byte_count n) ci (nat (min_repeat ci)) code)"
    using assms(10) by auto
  then show ?thesis using assms(1,2,4,6,10) b
    by (intro exI [of _ bursts] exI [of _ d']) (simp add: CPhidgetIR_Transmit_def data_size_eq Let_def)
qed

subsection \<open>From transmitter to receiver\<close>

text \<open>The receiver measures in the units of 10 microseconds in which the transmitter was told the times.\<close>

definition quantised :: "int \<Rightarrow> int" where
  "quantised t = t div 10 * 10"

definition seen_pairs :: "code_info \<Rightarrow> bool list \<Rightarrow> (int \<times> int) list" where
  "seen_pairs ci bs = map (\<lambda>b. map_prod quantised quantised (if b then one_time ci else zero_time ci)) bs"

lemma seen_frame:
  "map (\<lambda>t. t div 10 * 10) (space_frame ci bs) = received (map quantised (header_times ci)) (seen_pairs ci bs) (quantised (trail ci))"
proof -
  have "map quantised (bit_pairs ci bs) = concat (map pair_list (seen_pairs ci bs))"
    by (induction bs) (simp_all add: bit_pairs_def seen_pairs_def pair_list_def)
  then show ?thesis by (simp add: space_frame_def received_def quantised_def [abs_def])
qed

definition heard_as :: "u8 list list \<Rightarrow> int list \<Rightarrow> bool" where
  "heard_as burst xs \<longleftrightarrow> (\<exists>p ps us. burst = p # ps \<and> payload_times (nat (uint (p ! 1) * 256 + uint (p ! 2))) ps = Some us \<and>
     xs = map (\<lambda>u. u * 10) us)"

lemma burst_is_heard:
  assumes "burst_of fdiv ci n code burst"
  shows "heard_as burst (map quantised (space_frame ci (code_bits n code)))"
proof -
  let ?ts = "space_frame ci (code_bits n code)"
  obtain len ps where b: "len \<le> 255" "burst = define_packet fdiv (int len) (carrierFrequency ci) (dutyCycle ci) (frame_gap ci ?ts) # ps"
    "payload_times len ps = Some (map (\<lambda>t. t div 10) ?ts)"
    using assms by (auto simp: burst_of_def Let_def)
  define p where "p = define_packet fdiv (int len) (carrierFrequency ci) (dutyCycle ci) (frame_gap ci ?ts)"
  have "drop_bit 8 (int len) = 0" using b(1) by (simp add: drop_bit_eq_div)
  then have "p ! 1 = 0" "uint (p ! 2) = int len"
    using b(1) by (simp_all add: p_def define_packet_def unsigned_of_int unsigned_of_nat take_bit_int_eq_self take_bit_nat_eq_self)
  then have "nat (uint (p ! 1) * 256 + uint (p ! 2)) = len" by simp
  then show ?thesis using b(2,3) by (simp add: heard_as_def quantised_def comp_def flip: p_def)
qed

lemma burst_heard:
  assumes "burst_of fdiv ci n code burst" and "heard_as burst xs"
  shows "xs = received (map quantised (header_times ci)) (seen_pairs ci (code_bits n code)) (quantised (trail ci))"
proof -
  have "xs = map quantised (space_frame ci (code_bits n code))"
    using burst_is_heard [OF assms(1)] assms(2) by (auto simp: heard_as_def)
  then show ?thesis using seen_frame [of ci "code_bits n code"] by (simp add: quantised_def [abs_def])
qed

subsection \<open>The default code\<close>

text \<open>The NEC code that \<^verbatim>\<open>CPhidgetIR_Transmit\<close> fills in.\<close>

definition nec :: "nat \<Rightarrow> code_info" where
  "nec n = code_info_zero\<lparr>bitCount := int n, encoding := PHIDGET_IR_ENCODING_SPACE, length_kind := PHIDGET_IR_LENGTH_CONSTANT,
     gap := 110000, trail := 560, header := (9000, 4500), one_time := (560, 1680), zero_time := (560, 560),
     min_repeat := 1, carrierFrequency := 38000, dutyCycle := 33\<rparr>"

lemma prepare_default: "0 < n \<Longrightarrow> n \<le> 128 \<Longrightarrow> prepare_code (code_info_zero\<lparr>bitCount := int n\<rparr>) = (EPHIDGET_OK, nec n)"
  by (simp add: prepare_code_def code_range_error_def ir_sizes default_kinds_def encoding_defaults_def no_times_def when0_def
      default_header_def default_signal_def other_defaults_def code_info_zero_def nec_def)

lemma nec_bit_pairs: "bit_pairs (nec n) bs = concat (map (\<lambda>b. [560, if b then 1680 else 560]) bs)"
  by (induction bs) (auto simp: bit_pairs_def pair_list_def nec_def)

lemma nec_wire: "length (wire (bit_pairs (nec n) bs)) \<le> 3 * length bs \<and> list_all time_ok (bit_pairs (nec n) bs)"
  unfolding nec_bit_pairs by (induction bs) (auto simp: time_bytes_def Let_def time_ok_def ir_times)

lemma nec_sendable: "n \<le> 83 \<Longrightarrow> sendable (nec n) n code"
proof -
  assume n: "n \<le> 83"
  let ?ts = "space_frame (nec n) (code_bits n code)"
  have h: "header_times (nec n) = [9000, 4500]" by (simp add: header_times_def nec_def pair_list_def)
  have ok: "list_all time_ok ?ts" using nec_wire by (auto simp: space_frame_def h) (simp_all add: time_ok_def ir_times nec_def)
  have "trail (nec n) = 560" by (simp add: nec_def)
  then have w: "length (wire ?ts) \<le> 255" using nec_wire [of n "code_bits n code"] n
    by (simp add: space_frame_def h) (simp add: time_bytes_def)
  have "length ?ts \<le> 255" using wire_length_ge [of ?ts] w by simp
  then have "sum_list ?ts \<le> 255 * 327670" using sum_list_bound [OF ok] by simp
  moreover have "0 \<le> sum_list ?ts" by (rule sum_list_times [OF ok])
  moreover have "gap (nec n) = 110000" by (simp add: nec_def)
  ultimately show ?thesis using ok w by (simp add: sendable_def Let_def int_ok_def)
qed

lemma nec_zip:
  "(s, b) \<in> set (zip (map (snd \<circ> (\<lambda>b. (560 :: int, if b then 1680 else 560 :: int))) bs) bs) \<Longrightarrow> s = (if b then 1680 else 560)"
  by (induction bs) auto

lemma nec_reception:
  assumes "True \<in> set bs" and "False \<in> set bs"
  shows "good_reception bs (map quantised (header_times (nec n))) (seen_pairs (nec n) bs) (quantised (trail (nec n)))"
proof -
  have s: "seen_pairs (nec n) bs = map (\<lambda>b. (560, if b then 1680 else 560)) bs"
    by (auto simp: seen_pairs_def nec_def quantised_def)
  have h: "map quantised (header_times (nec n)) = [9000, 4500]" "quantised (trail (nec n)) = 560"
    by (simp_all add: header_times_def nec_def pair_list_def quantised_def)
  show ?thesis
    unfolding good_reception_def Let_def s h header_spaces_def
    using assms by (auto simp: sane_def near_def far_def wide_def ir_times dest!: nec_zip)
qed

subsection \<open>Properties\<close>

text \<open>C18. A local device transmits a pulse distance code of up to 128 bits whose frames fit into a transmission: the call
  returns success, sends one burst for each repetition, the bits of the repetitions toggled by the mask, each burst an
  announcement and packets in which the device reads header, bits and trailing pulse of that repetition; the code of
  the last repetition is kept for \<^verbatim>\<open>CPhidgetIR_TransmitRepeat\<close>.\<close>

theorem space_transmit:
  assumes "ir_checks d = EPHIDGET_OK" and "prepare_code ci0 = (EPHIDGET_OK, ci)" and "encoding ci = PHIDGET_IR_ENCODING_SPACE"
    and "bitCount ci = int n" and "n \<le> 128" and "length code = byte_count n" and "length tmp = 16" and "length (lastSentCode d) = 16"
    and "length (toggle_mask ci) = 16" and "0 < min_repeat ci"
    and "\<forall>c \<in> set (sent_codes (byte_count n) ci (nat (min_repeat ci)) code). sendable ci n c"
  shows "\<exists>bursts d'. CPhidgetIR_Transmit log_send fdiv stack tmp d (code @ beyond) ci0 w = Some (EPHIDGET_OK, ci, d', w @ concat bursts) \<and>
    list_all2 (burst_of fdiv ci n) (sent_codes (byte_count n) ci (nat (min_repeat ci)) code) bursts \<and>
    lastSentCodeInfo d' = ci \<and> take (byte_count n) (lastSentCode d') = last (sent_codes (byte_count n) ci (nat (min_repeat ci)) code)"
  by (rule space_transmit_outcome [OF assms])

lemma demo_ir_checks: "ir_checks demo_ir = EPHIDGET_OK"
  by code_simp

text \<open>C30. A raw transmission: with good arguments the device receives one announcement of the length and then the times
  of the caller, each in full units of 10 microseconds.\<close>

theorem transmitRaw_read_back:
  assumes ok: "ir_checks d = EPHIDGET_OK" and odd: "odd (length ts)" and "length ts \<le> 200" and t: "list_all time_ok ts"
    and len: "length (wire ts) \<le> 255" and "carrier = 0 \<or> 10000 \<le> carrier \<and> carrier \<le> 1000000" and "duty = 0 \<or> 10 \<le> duty \<and> duty \<le> 50"
  shows "\<exists>n ps. CPhidgetIR_TransmitRaw log_send fdiv stack d ts (int (length ts)) carrier duty gp w =
      Some (EPHIDGET_OK, w @ define_packet fdiv (int n) (when0 carrier 38000) (when0 duty 33) gp # ps) \<and>
    n \<le> 255 \<and> payload_times n ps = Some (map (\<lambda>t. t div 10) ts)"
proof -
  have "sum_list ts \<le> int (length ts) * 327670" using t by (induction ts) (auto simp: time_ok_def ir_times algebra_simps)
  then have "times_fit (int IR_DATA_ARRAY_SIZE) ts ([], 0)" using assms by (simp add: times_fit_def ir_sizes)
  then have raw: "RawTimeDataToRawData ts (int IR_DATA_ARRAY_SIZE) 0 = Some (Inr (wire ts, sum_list ts))"
    using put_times_ok by (simp add: RawTimeDataToRawData_def flip: put_times_def)
  obtain ps where ps: "sendRAWData log_send fdiv stack (wire ts) (int (length (wire ts))) (when0 carrier 38000) (when0 duty 33) gp w =
      (w @ define_packet fdiv (int (length (wire ts))) (when0 carrier 38000) (when0 duty 33) gp # ps, EPHIDGET_OK)"
    and c: "carries ps (wire ts)" by (rule sendRAWData_log [OF len])
  have "int (length ts) smod 2 = int (length ts mod 2)" by (simp add: smod_nonneg zmod_int)
  then have "int (length ts) smod 2 = 1" using odd by (simp add: odd_iff_mod_2_eq_one)
  then have "CPhidgetIR_TransmitRaw log_send fdiv stack d ts (int (length ts)) carrier duty gp w =
      Some (EPHIDGET_OK, w @ define_packet fdiv (int (length (wire ts))) (when0 carrier 38000) (when0 duty 33) gp # ps)"
    using assms(1,3,6,7) raw ps by (auto simp: CPhidgetIR_TransmitRaw_def)
  then show ?thesis using len payload_wire [OF c t] by blast
qed

theorem transmitRaw_read_back_witness:
  "\<exists>n ps. CPhidgetIR_TransmitRaw log_send (\<lambda>_ _. (41, 14)) [0, 0] demo_ir [9000, 4505, 560] (int (length [9000, 4505, 560 :: int])) 0 0 50000 [] =
      Some (EPHIDGET_OK, [] @ define_packet (\<lambda>_ _. (41, 14)) (int n) (when0 0 38000) (when0 0 33) 50000 # ps) \<and>
    payload_times n ps = Some [900, 450, 56]"
proof -
  have "list_all time_ok [9000, 4505, 560]" "length (wire [9000, 4505, 560]) \<le> 255" by code_simp+
  from transmitRaw_read_back [OF demo_ir_checks _ _ this, of 0 0 "\<lambda>_ _. (41, 14)" "[0, 0]" 50000 "[]"]
  show ?thesis by auto
qed

text \<open>Two repetitions of the 8-bit code \<open>[0xA5]\<close> with toggling of its lowest bit.\<close>

definition toggling :: code_info where
  "toggling = (nec 8)\<lparr>min_repeat := 2, toggle_mask := 1 # replicate 15 0\<rparr>"

lemma toggling_sendable: "sendable toggling 8 code"
proof -
  have f: "one_time toggling = one_time (nec 8)" "zero_time toggling = zero_time (nec 8)" "header toggling = header (nec 8)"
    "trail toggling = trail (nec 8)" "gap toggling = gap (nec 8)" by (simp_all add: toggling_def)
  have "space_frame toggling bs = space_frame (nec 8) bs" for bs
    by (simp only: space_frame_def bit_pairs_def header_times_def f)
  then show ?thesis using nec_sendable [of 8 code] by (simp add: sendable_def f(5) Let_def)
qed

theorem space_transmit_witness:
  "\<exists>bursts d'. CPhidgetIR_Transmit log_send (\<lambda>_ _. (41, 14)) [0, 0] (replicate 16 0) demo_ir ([0xA5] @ []) toggling [] =
      Some (EPHIDGET_OK, toggling, d', [] @ concat bursts) \<and>
    list_all2 (burst_of (\<lambda>_ _. (41, 14)) toggling 8) [[0xA5], [0xA4]] bursts \<and> take 1 (lastSentCode d') = [0xA4]"
proof -
  have p: "prepare_code toggling = (EPHIDGET_OK, toggling)" by code_simp
  have c: "sent_codes (byte_count 8) toggling (nat (min_repeat toggling)) [0xA5] = [[0xA5], [0xA4]]" by code_simp
  have b: "byte_count 8 = 1" by code_simp
  have e: "encoding toggling = PHIDGET_IR_ENCODING_SPACE" "bitCount toggling = int 8" "length (toggle_mask toggling) = 16"
    "0 < min_repeat toggling" by code_simp+
  have l: "length (lastSentCode demo_ir) = 16" by (simp add: demo_ir_def)
  have "\<forall>c \<in> set (sent_codes (byte_count 8) toggling (nat (min_repeat toggling)) [0xA5]). sendable toggling 8 c"
    using toggling_sendable by blast
  from space_transmit [OF demo_ir_checks p e(1,2) _ _ _ l e(3,4) this, of "replicate 16 0" "\<lambda>_ _. (41, 14)" "[0, 0]" "[]" "[]"]
  show ?thesis unfolding c unfolding b by auto
qed

lemma default_transmit:
  assumes n: "4 \<le> n" "n \<le> 83" and code: "right_justified n code"
    and "ir_checks d = EPHIDGET_OK" and "length tmp = 16" and "length (lastSentCode d) = 16"
  obtains burst d' where "CPhidgetIR_Transmit log_send fdiv stack tmp d code (code_info_zero\<lparr>bitCount := int n\<rparr>) w =
      Some (EPHIDGET_OK, nec n, d', w @ burst)" "burst_of fdiv (nec n) n code burst"
proof -
  let ?ci = "nec n"
  have L: "length code = byte_count n" using code by (simp add: right_justified_def)
  have f: "encoding ?ci = PHIDGET_IR_ENCODING_SPACE" "bitCount ?ci = int n" "length (toggle_mask ?ci) = 16" "0 < min_repeat ?ci"
    "sent_codes (byte_count n) ?ci (nat (min_repeat ?ci)) code = [code]"
    by (simp_all add: nec_def code_info_zero_def ir_sizes numeral_eq_Suc)
  have "prepare_code (code_info_zero\<lparr>bitCount := int n\<rparr>) = (EPHIDGET_OK, ?ci)" using n by (intro prepare_default) simp_all
  then obtain bursts d' where t: "CPhidgetIR_Transmit log_send fdiv stack tmp d (code @ []) (code_info_zero\<lparr>bitCount := int n\<rparr>) w =
        Some (EPHIDGET_OK, ?ci, d', w @ concat bursts)"
      "list_all2 (burst_of fdiv ?ci n) [code] bursts"
    using space_transmit_outcome [OF assms(4) _ f(1,2) _ L assms(5,6) f(3,4), of "code_info_zero\<lparr>bitCount := int n\<rparr>" fdiv stack "[]" w]
      nec_sendable [OF n(2)] n(2) f(5) by auto
  then obtain burst where b: "bursts = [burst]" "burst_of fdiv ?ci n code burst" by (auto simp: list_all2_Cons1)
  have "CPhidgetIR_Transmit log_send fdiv stack tmp d code (code_info_zero\<lparr>bitCount := int n\<rparr>) w = Some (EPHIDGET_OK, ?ci, d', w @ burst)"
    using t(1) unfolding b(1) by (simp only: append_Nil2 concat.simps)
  from that [OF this b(2)] show thesis .
qed

text \<open>C9. A code sent with the default settings arrives: when the caller gives only the number of bits, 4 to 83, and a
  code in which both bit values occur (the analysis cannot tell the bits of a uniform code), the call sends one burst, and
  the analysis of any device that holds the times of this burst between two gaps reports the bytes and the number of
  bits that were given to the call.\<close>

theorem default_code_roundtrip:
  assumes n: "4 \<le> n" "n \<le> 83" and code: "right_justified n code" and both: "True \<in> set (code_bits n code)" "False \<in> set (code_bits n code)"
    and "ir_checks d = EPHIDGET_OK" and "length tmp = 16" and "length (lastSentCode d) = 16"
  shows "\<exists>burst ci d'. CPhidgetIR_Transmit log_send fdiv stack tmp d code (code_info_zero\<lparr>bitCount := int n\<rparr>) w =
      Some (EPHIDGET_OK, ci, d', w @ burst) \<and>
    (\<exists>xs. heard_as burst xs) \<and>
    (\<forall>xs r g. heard_as burst xs \<and> between_gaps r g xs \<longrightarrow>
       (\<exists>r' rep. analyze_data nan r needed = Some (EPHIDGET_OK, r', FIRE r (Code code (int n) rep))))"
proof -
  let ?ci = "nec n"
  obtain burst d' where sent: "CPhidgetIR_Transmit log_send fdiv stack tmp d code (code_info_zero\<lparr>bitCount := int n\<rparr>) w =
      Some (EPHIDGET_OK, ?ci, d', w @ burst)" and b: "burst_of fdiv ?ci n code burst"
    by (rule default_transmit [OF n code assms(6-8)])
  have heard: "xs = received (map quantised (header_times ?ci)) (seen_pairs ?ci (code_bits n code)) (quantised (trail ?ci))"
    if "heard_as burst xs" for xs by (rule burst_heard [OF b that])
  have good: "good_reception (code_bits n code) (map quantised (header_times ?ci)) (seen_pairs ?ci (code_bits n code)) (quantised (trail ?ci))"
    by (rule nec_reception [OF both])
  have rec: "\<exists>r' rep. analyze_data nan r needed = Some (EPHIDGET_OK, r', FIRE r (Code code (int n) rep))"
    if "heard_as burst xs" "between_gaps r g xs" for xs r g
  proof -
    have "n \<le> 128" using n(2) by simp
    from space_code_outcome [OF good code n(1) this that(2) [unfolded heard [OF that(1)]], of nan needed] show ?thesis by blast
  qed
  have heard_once: "\<exists>xs. heard_as burst xs" using burst_is_heard [OF b] by blast
  have "\<forall>xs r g. heard_as burst xs \<and> between_gaps r g xs \<longrightarrow>
      (\<exists>r' rep. analyze_data nan r needed = Some (EPHIDGET_OK, r', FIRE r (Code code (int n) rep)))"
    by (intro allI impI) (elim conjE, rule rec)
  with sent heard_once show ?thesis by blast
qed

text \<open>The times of the 12-bit code \<^verbatim>\<open>0xAC4\<close>, and a receiver that holds them between two silences.\<close>

definition demo_heard :: "int list" where
  "demo_heard = map quantised (space_frame (nec 12) (code_bits 12 [0x0A, 0xC4]))"

definition demo_receiver :: ir where
  "demo_receiver = ring_with (PUNK_INT # demo_heard @ [PUNK_INT])"

theorem default_code_roundtrip_witness:
  "\<exists>burst ci d' r'. CPhidgetIR_Transmit log_send (\<lambda>_ _. (41, 14)) [0, 0] (replicate 16 0) demo_ir [0x0A, 0xC4] (code_info_zero\<lparr>bitCount := int 12\<rparr>) [] =
      Some (EPHIDGET_OK, ci, d', [] @ burst) \<and> heard_as burst demo_heard \<and>
    (\<exists>rep. analyze_data 0 demo_receiver True = Some (EPHIDGET_OK, r', FIRE demo_receiver (Code [0x0A, 0xC4] (int 12) rep)))"
proof -
  have c: "right_justified 12 [0x0A, 0xC4]" "True \<in> set (code_bits 12 [0x0A, 0xC4])" "False \<in> set (code_bits 12 [0x0A, 0xC4])"
    by code_simp+
  have l: "length (replicate 16 (0 :: u8)) = 16" "length (lastSentCode demo_ir) = 16" by (simp_all add: demo_ir_def)
  have n: "(4 :: nat) \<le> 12" "(12 :: nat) \<le> 83" by simp_all
  let ?T = "CPhidgetIR_Transmit log_send (\<lambda>_ _. (41, 14)) [0, 0] (replicate 16 0) demo_ir [0x0A, 0xC4] (code_info_zero\<lparr>bitCount := int 12\<rparr>) []"
  obtain burst d' where b: "?T = Some (EPHIDGET_OK, nec 12, d', [] @ burst)" "burst_of (\<lambda>_ _. (41, 14)) (nec 12) 12 [0x0A, 0xC4] burst"
    by (rule default_transmit [OF n c(1) demo_ir_checks l])
  have h: "heard_as burst demo_heard" using burst_is_heard [OF b(2)] by (simp add: demo_heard_def)
  have "length (PUNK_INT # demo_heard @ [PUNK_INT]) < IR_DATA_ARRAY_SIZE" by code_simp
  from ring_with_window [OF this] have g: "between_gaps demo_receiver PUNK_INT demo_heard"
    unfolding between_gaps_def demo_receiver_def
    by (intro conjI exI [of _ PUNK_INT] exI [of _ "[]"]) (simp_all add: ring_with_def demo_ir_def PUNK_INT_def ir_times)
  obtain burst' ci d2 where t: "?T = Some (EPHIDGET_OK, ci, d2, [] @ burst')"
      "\<forall>xs r g. heard_as burst' xs \<and> between_gaps r g xs \<longrightarrow>
        (\<exists>r' rep. analyze_data 0 r True = Some (EPHIDGET_OK, r', FIRE r (Code [0x0A, 0xC4] (int 12) rep)))"
    using default_code_roundtrip [OF n c demo_ir_checks l, of "\<lambda>_ _. (41, 14)" "[0, 0]" "[]" 0 True] by blast
  have "burst' = burst" using b(1) t(1) by simp
  with t(2) g h have "\<exists>r' rep. analyze_data 0 demo_receiver True = Some (EPHIDGET_OK, r', FIRE demo_receiver (Code [0x0A, 0xC4] (int 12) rep))"
    by blast
  with b(1) h show ?thesis by blast
qed

end
