(* ===== verification/Ir_Ring.thy ===== *)
theory Ir_Ring
  imports Ir_Remote
begin

text \<open>
  The ring of the infrared device as queues: what a reader finds behind its pointer after the writer has
  put entries, for the pointer of the user (\<^verbatim>\<open>CPhidgetIR_getRawData\<close>), which is not moved when
  unread data is overwritten, and for that of the analysis, which is.
\<close>

subsection \<open>A ring whose writer ignores the reader\<close>

text \<open>The contract of one reader: putting one element behind the contents of a ring of \<open>cap\<close> places makes
  the ring look empty when the writer catches up with the reader.\<close>

locale wrapping_ring =
  fixes put :: "'a \<Rightarrow> 's \<Rightarrow> 's"
    and contents :: "'s \<Rightarrow> 'a list"
    and ok :: "'s \<Rightarrow> bool"
    and cap :: nat
  assumes put_ok: "ok s \<Longrightarrow> ok (put x s)"
    and contents_bound: "ok s \<Longrightarrow> length (contents s) < cap"
    and put_contents: "ok s \<Longrightarrow> contents (put x s) = (if length (contents s) + 1 = cap then [] else contents s @ [x])"
begin

lemma put_all_ok: "ok s \<Longrightarrow> ok (fold put xs s)"
  by (induction xs arbitrary: s) (auto intro: put_ok)

lemma put_all:
  assumes "ok s"
  shows "contents (fold put xs s) = (let u = contents s @ xs in drop (cap * (length u div cap)) u)"
  using assms
proof (induction xs arbitrary: s)
  case Nil
  then show ?case using contents_bound [of s] by simp
next
  case (Cons x xs)
  note ih = Cons.IH [OF put_ok [OF Cons.prems, of x]]
  show ?case
  proof (cases "length (contents s) + 1 = cap")
    case True
    then have c: "0 < cap" "length (contents s @ x # xs) = cap + length xs" by auto
    have d: "length (contents s @ x # xs) div cap = Suc (length xs div cap)" unfolding c(2) using c(1) by simp
    have "drop (cap * Suc m) (contents s @ x # xs) = drop (cap * m) xs" for m
    proof -
      have "cap * Suc m = cap * m + length (contents s @ [x])" using True by simp
      then have "drop (cap * Suc m) ((contents s @ [x]) @ xs) = drop (cap * m) xs" by (simp only: drop_drop [symmetric]) simp
      then show ?thesis by simp
    qed
    then have "drop (cap * (length (contents s @ x # xs) div cap)) (contents s @ x # xs) = drop (cap * (length xs div cap)) xs"
      by (simp only: d)
    moreover have "contents (fold put (x # xs) s) = drop (cap * (length xs div cap)) xs"
      using ih put_contents [OF Cons.prems, of x] True by (simp add: Let_def)
    ultimately show ?thesis unfolding Let_def by (simp only:)
  qed (use ih put_contents [OF Cons.prems, of x] in \<open>simp add: Let_def\<close>)
qed

lemma put_all_fits:
  assumes "ok s" and "length (contents s) + length xs < cap"
  shows "contents (fold put xs s) = contents s @ xs"
  using put_all [OF assms(1), of xs] assms(2) by (simp add: Let_def)

end

definition ring_ok :: "ir \<Rightarrow> bool" where
  "ring_ok d \<longleftrightarrow> length (dataBuffer d) = IR_DATA_ARRAY_SIZE \<and> length (dataBufferNormalized d) = IR_DATA_ARRAY_SIZE"

definition behind :: "(ir \<Rightarrow> ring_ptr) \<Rightarrow> ir \<Rightarrow> int list" where
  "behind ptr d = window (dataBuffer d) (ptr d) (dataWritePtr d)"

lemma length_window: "length (window buf p q) = unat (q - p)"
proof (induction buf p q rule: window.induct)
  case (1 buf p q)
  show ?case
  proof (cases "p = q")
    case False
    then have "q - p \<noteq> 0" by simp
    then have "unat (q - (p + 1)) = unat (q - p) - 1" "0 < unat (q - p)"
      by (simp_all add: diff_diff_eq [symmetric] unat_minus_one unat_gt_0)
    then show ?thesis using 1 False by (subst window.simps) simp
  qed simp
qed

lemma length_window_bound: "length (window buf p q) < IR_DATA_ARRAY_SIZE"
  using unsigned_less [of "q - p", where ?'a = nat] by (simp add: length_window ir_sizes)

lemma window_snoc: "p \<noteq> q + 1 \<Longrightarrow> window buf p (q + 1) = window buf p q @ [buf ! unat q]"
proof (induction buf p q rule: window.induct)
  case (1 buf p q)
  show ?case
  proof (cases "p = q")
    case True
    then show ?thesis by (subst window.simps) simp
  next
    case False
    then have "window buf (p + 1) (q + 1) = window buf (p + 1) q @ [buf ! unat q]" using 1 by simp
    then show ?thesis using 1(2) False by (subst (1 2) window.simps) simp
  qed
qed

lemma window_update: "unat (q - p) \<le> unat (r - p) \<Longrightarrow> window (buf[unat r := x]) p q = window buf p q"
proof (induction buf p q rule: window.induct)
  case (1 buf p q)
  show ?case
  proof (cases "p = q")
    case False
    have "p \<noteq> r" using 1(2) False by (auto simp: unat_eq_0)
    moreover have "unat (q - (p + 1)) \<le> unat (r - (p + 1))"
      using 1(2) False \<open>p \<noteq> r\<close> by (simp add: diff_diff_eq [symmetric] unat_minus_one)
    moreover have "unat p \<noteq> unat r" using \<open>p \<noteq> r\<close> by (simp add: word_unat_eq_iff)
    ultimately show ?thesis using 1(1) False by (subst (1 2) window.simps) simp
  qed simp
qed

lemma window_put:
  assumes "length buf = IR_DATA_ARRAY_SIZE"
  shows "window (buf[unat w := x]) p (w + 1) =
    (if length (window buf p w) + 1 = IR_DATA_ARRAY_SIZE then [] else window buf p w @ [x])"
proof (cases "p = w + 1")
  case True
  have "unat (w - (w + 1)) = 2047" by (simp add: unsigned_minus_1_eq_mask mask_eq_exp_minus_1)
  then show ?thesis using True by (simp add: length_window ir_sizes)
next
  case False
  have "w - p \<noteq> - 1"
  proof
    assume "w - p = - 1"
    then have "w + 1 = p" by (simp add: algebra_simps)
    with False show False by simp
  qed
  moreover have "unat (- 1 :: ring_ptr) = 2047" by (simp add: unsigned_minus_1_eq_mask mask_eq_exp_minus_1)
  ultimately have "unat (w - p) \<noteq> 2047" by (metis word_unat_eq_iff)
  moreover have "unat w < length buf" using assms unsigned_less [of w, where ?'a = nat] by (simp add: ir_sizes)
  ultimately show ?thesis
    using window_snoc [OF False, of "buf[unat w := x]"] window_update [of w p w buf x] by (simp add: length_window ir_sizes)
qed

lemma ring_put_ok: "ring_ok (ring_put x d) = ring_ok d"
  by (simp add: ring_ok_def ring_put_def)

interpretation user_ring: wrapping_ring ring_put "behind userReadPtr" ring_ok IR_DATA_ARRAY_SIZE
  by unfold_locales
    (simp_all add: ring_put_ok behind_def length_window_bound ring_put_def window_put ring_ok_def)

interpretation learn_ring: wrapping_ring ring_put "behind learnReadPtr" ring_ok IR_DATA_ARRAY_SIZE
  by unfold_locales
    (simp_all add: ring_put_ok behind_def length_window_bound ring_put_def window_put ring_ok_def)

interpretation analysis_ring: wrapping_ring ring_put "behind dataReadPtr" ring_ok IR_DATA_ARRAY_SIZE
  by unfold_locales
    (simp_all add: ring_put_ok behind_def length_window_bound ring_put_def window_put ring_ok_def)

subsection \<open>Reading\<close>

lemma read_ring_window:
  "read_ring buf w n r data = (data @ take n (window buf r w), r + of_nat (min n (length (window buf r w))))"
proof (induction buf w n r data rule: read_ring.induct)
  case (2 buf w n r data)
  show ?case
  proof (cases "r = w")
    case False
    then have "window buf r w = buf ! unat r # window buf (r + 1) w" by (simp add: window_Cons)
    then show ?thesis using 2 False by (simp add: algebra_simps)
  qed simp
qed simp

lemma window_drop: "n \<le> length (window buf p q) \<Longrightarrow> window buf (p + of_nat n) q = drop n (window buf p q)"
  using window_append(1) [of buf p q "take n (window buf p q)" "drop n (window buf p q)"] by simp

text \<open>\<^verbatim>\<open>CPhidgetIR_getRawData\<close> hands over an even number of entries and keeps the rest.\<close>

definition even_part :: "nat \<Rightarrow> nat" where
  "even_part n = 2 * (n div 2)"

lemma getRawData_outcome:
  fixes d :: ir and m :: int
  assumes "ir_checks d = EPHIDGET_OK"
  defines "k \<equiv> even_part (min (nat m) (length (behind userReadPtr d)))"
  shows "\<exists>p. CPhidgetIR_getRawData d m = (EPHIDGET_OK, d\<lparr>userReadPtr := p\<rparr>, take k (behind userReadPtr d)) \<and>
    behind userReadPtr (d\<lparr>userReadPtr := p\<rparr>) = drop k (behind userReadPtr d)"
proof -
  let ?u = "behind userReadPtr d"
  define n where "n = nat (if m smod 2 = 1 then m - 1 else m)"
  have n: "n = even_part (nat m)"
  proof (cases "0 \<le> m")
    case True
    then obtain j where j: "m = int j" by (metis nonneg_int_cases)
    have "int j smod 2 = int (j mod 2)" by (simp add: smod_nonneg zmod_int)
    then show ?thesis by (cases "odd j") (auto simp: n_def j even_part_def odd_iff_mod_2_eq_one elim!: oddE evenE)
  qed (simp add: n_def even_part_def)
  define q where "q = min n (length ?u)"
  have r: "read_ring (dataBuffer d) (dataWritePtr d) n (userReadPtr d) [] = (take n ?u, userReadPtr d + of_nat q)"
    by (simp add: read_ring_window behind_def q_def)
  have rest: "behind userReadPtr (d\<lparr>userReadPtr := userReadPtr d + of_nat j\<rparr>) = drop j ?u" if "j \<le> length ?u" for j
    using window_drop [of j "dataBuffer d" "userReadPtr d" "dataWritePtr d"] that by (simp add: behind_def)
  have l: "length (take n ?u) = q" by (simp add: q_def)
  show ?thesis
  proof (cases "odd q")
    case True
    have "odd (length ?u)" "length ?u < n" using True n by (auto simp: q_def even_part_def min_def split: if_splits)
    then have q: "q = Suc k" "take n ?u = ?u" "k \<le> length ?u" "length ?u = Suc k"
      using n by (auto simp: q_def k_def even_part_def min_def elim!: oddE split: if_splits)
    then have "butlast ?u = take k ?u" by (simp add: butlast_conv_take)
    moreover have "userReadPtr d + of_nat q - 1 = userReadPtr d + of_nat k" by (simp add: q(1))
    ultimately show ?thesis
      using assms(1) r True q rest [of k] by (intro exI [of _ "userReadPtr d + of_nat k"]) (simp add: CPhidgetIR_getRawData_def Let_def flip: n_def)
  next
    case False
    then have q: "q = k" using n by (auto simp: q_def k_def even_part_def min_def elim!: evenE split: if_splits)
    have t: "take n ?u = take k ?u" using q by (auto simp: q_def min_def split: if_splits)
    then show ?thesis
      using assms(1) r False q l rest [of k] by (intro exI [of _ "userReadPtr d + of_nat k"])
        (simp add: CPhidgetIR_getRawData_def Let_def q_def flip: n_def)
  qed
qed

subsection \<open>Incoming packets\<close>

text \<open>Entries whose polarity alternates, starting after one of polarity \<open>p\<close>, and the bytes of a packet of them.\<close>

fun alternating :: "u8 \<Rightarrow> (u8 \<times> u8) list \<Rightarrow> bool" where
  "alternating p [] = True"
| "alternating p ((b1, b2) # es) = (b1 AND 0x80 = p XOR 0x80 \<and> alternating (p XOR 0x80) es)"

definition packet_of :: "(u8 \<times> u8) list \<Rightarrow> u8 list" where
  "packet_of es = of_nat (length es) # concat (map (\<lambda>(b1, b2). [b1, b2]) es)"

definition times_of :: "(u8 \<times> u8) list \<Rightarrow> int list" where
  "times_of es = map (\<lambda>(b1, b2). entry_time b1 b2) es"

definition input_all :: "(u8 \<times> u8) list \<Rightarrow> ir \<Rightarrow> ir" where
  "input_all es d = fold (\<lambda>(b1, b2). input_entry b1 b2) es d"

lemma packet_entry:
  "i < length es \<Longrightarrow> cread (packet_of es @ rest) (Suc (2 * i)) = Some (fst (es ! i)) \<and> cread (packet_of es @ rest) (Suc (Suc (2 * i))) = Some (snd (es ! i))"
proof -
  have "i < length es \<Longrightarrow> concat (map (\<lambda>(b1, b2). [b1, b2]) es) ! (2 * i) = fst (es ! i) \<and>
      concat (map (\<lambda>(b1, b2). [b1, b2]) es) ! Suc (2 * i) = snd (es ! i)" for es :: "(u8 \<times> u8) list"
  proof (induction es arbitrary: i)
    case (Cons e es)
    then show ?case by (cases i) (auto simp: case_prod_beta)
  qed simp
  moreover have "length (concat (map (\<lambda>(b1, b2). [b1, b2]) es)) = 2 * length es" for es :: "(u8 \<times> u8) list"
    by (induction es) auto
  moreover assume "i < length es"
  ultimately show ?thesis by (simp add: cread_def packet_of_def nth_append)
qed

lemma input_loop_eq:
  assumes "length es \<le> IR_MAX_DATA_PER_PACKET"
  shows "input_loop (packet_of es @ rest) (length es) d = Some (input_all es d, times_of es)"
proof -
  let ?f = "\<lambda>i (d, data). do {
     b1 \<leftarrow> cread (packet_of es @ rest) (i * 2 - 1);
     b2 \<leftarrow> cread (packet_of es @ rest) (i * 2);
     if i - 1 < IR_MAX_DATA_PER_PACKET then Some (input_entry b1 b2 d, data @ [entry_time b1 b2]) else None }"
  have "k \<le> length es \<Longrightarrow> cfor [1..<k + 1] ?f (d, []) = Some (input_all (take k es) d, times_of (take k es))" for k
  proof (induction k)
    case 0
    then show ?case by (simp add: input_all_def times_of_def)
  next
    case (Suc k)
    have e: "cread (packet_of es @ rest) (Suc (2 * k)) = Some (fst (es ! k))"
      "cread (packet_of es @ rest) (Suc (Suc (2 * k))) = Some (snd (es ! k))" using packet_entry [of k es rest] Suc.prems by auto
    have t: "take (Suc k) es = take k es @ [es ! k]" using Suc.prems by (simp add: take_Suc_conv_app_nth)
    have "[1..<Suc k + 1] = [1..<k + 1] @ [k + 1]" by simp
    then have "cfor [1..<Suc k + 1] ?f (d, []) = (case cfor [1..<k + 1] ?f (d, []) of None \<Rightarrow> None | Some s \<Rightarrow> ?f (k + 1) s)"
      by (simp only: cfor_snoc) (auto split: option.splits)
    also have "\<dots> = ?f (k + 1) (input_all (take k es) d, times_of (take k es))" using Suc by simp
    also have "\<dots> = Some (input_all (take (Suc k) es) d, times_of (take (Suc k) es))"
      using assms Suc.prems e by (simp add: t input_all_def times_of_def case_prod_beta mult.commute)
    finally show ?case .
  qed
  from this [of "length es"] show ?thesis by (simp add: input_loop_def)
qed

text \<open>An entry in step adds one time behind each of the pointers; the analysis then forgets its oldest entry when the
  ring is full.\<close>

lemma ring_put_polarity: "ring_put x (d\<lparr>polarity := p\<rparr>) = (ring_put x d)\<lparr>polarity := p\<rparr>"
  by (simp add: ring_put_def)

lemma input_entry_in_step:
  assumes "polarity d \<noteq> 2" and "b1 AND 0x80 = polarity d XOR 0x80"
  shows "input_entry b1 b2 d = (let d' = ring_put (entry_time b1 b2) d\<lparr>polarity := b1 AND 0x80\<rparr> in
    if dataWritePtr d' = dataReadPtr d' then d'\<lparr>dataReadPtr := dataReadPtr d' + 1\<rparr> else d')"
  using assms by (simp add: input_entry_def input_polarity_def Let_def ring_put_def)

lemma behind_frame [simp]:
  "behind userReadPtr (d\<lparr>polarity := p\<rparr>) = behind userReadPtr d"
  "behind learnReadPtr (d\<lparr>polarity := p\<rparr>) = behind learnReadPtr d"
  "behind dataReadPtr (d\<lparr>polarity := p\<rparr>) = behind dataReadPtr d"
  "behind userReadPtr (d\<lparr>dataReadPtr := r\<rparr>) = behind userReadPtr d"
  "behind learnReadPtr (d\<lparr>dataReadPtr := r\<rparr>) = behind learnReadPtr d"
  "ring_ok (d\<lparr>polarity := p\<rparr>) = ring_ok d" "ring_ok (d\<lparr>dataReadPtr := r\<rparr>) = ring_ok d"
  by (simp_all add: behind_def ring_ok_def)

definition newest :: "'a list \<Rightarrow> 'a list" where
  "newest u = drop (length u - (IR_DATA_ARRAY_SIZE - 1)) u"

lemma input_entry_behind:
  assumes "ring_ok d" and "polarity d \<noteq> 2" and "b1 AND 0x80 = polarity d XOR 0x80"
  shows "ring_ok (input_entry b1 b2 d)" and "polarity (input_entry b1 b2 d) = b1 AND 0x80"
    and "behind userReadPtr (input_entry b1 b2 d) = behind userReadPtr (ring_put (entry_time b1 b2) d)"
    and "behind learnReadPtr (input_entry b1 b2 d) = behind learnReadPtr (ring_put (entry_time b1 b2) d)"
    and "behind dataReadPtr (input_entry b1 b2 d) = newest (behind dataReadPtr d @ [entry_time b1 b2])"
proof -
  let ?x = "entry_time b1 b2" and ?u = "behind dataReadPtr d"
  let ?d = "ring_put ?x d"
  note e = input_entry_in_step [OF assms(2,3), of b2, unfolded Let_def]
  show "ring_ok (input_entry b1 b2 d)" "polarity (input_entry b1 b2 d) = b1 AND 0x80"
    "behind userReadPtr (input_entry b1 b2 d) = behind userReadPtr ?d"
    "behind learnReadPtr (input_entry b1 b2 d) = behind learnReadPtr ?d"
    using assms(1) by (simp_all add: e ring_put_ok)
  have c: "behind dataReadPtr ?d = (if length ?u + 1 = IR_DATA_ARRAY_SIZE then [] else ?u @ [?x])"
    by (rule analysis_ring.put_contents [OF assms(1)])
  show "behind dataReadPtr (input_entry b1 b2 d) = newest (?u @ [?x])"
  proof (cases "length ?u + 1 = IR_DATA_ARRAY_SIZE")
    case True
    then have full: "dataWritePtr ?d = dataReadPtr ?d" using c by (simp add: behind_def window_Nil)
    obtain y u where u: "?u = y # u" using True by (cases "?u") (auto simp: ir_sizes)
    then have w: "window (dataBuffer d) (dataReadPtr d + 1) (dataWritePtr d) = u" by (simp add: behind_def window_Cons)
    have "length u + 1 \<noteq> IR_DATA_ARRAY_SIZE" using True u by simp
    then have "window (dataBuffer ?d) (dataReadPtr ?d + 1) (dataWritePtr ?d) = u @ [?x]"
      using window_put [of "dataBuffer d" "dataWritePtr d" ?x "dataReadPtr d + 1"] assms(1) w
      by (simp add: ring_put_def ring_ok_def)
    then show ?thesis using full u True by (simp add: e behind_def newest_def)
  next
    case False
    then have ne: "behind dataReadPtr ?d = ?u @ [?x]" using c by simp
    then have "dataWritePtr ?d \<noteq> dataReadPtr ?d" by (auto simp: behind_def)
    moreover have "length ?u < IR_DATA_ARRAY_SIZE" using length_window_bound by (simp add: behind_def)
    ultimately show ?thesis using ne False by (simp add: e newest_def ir_sizes)
  qed
qed

lemma newest_append: "newest (newest u @ v) = newest (u @ v)"
  by (cases "length u \<le> 2047") (simp_all add: newest_def ir_sizes add.commute)

lemma input_all_behind:
  assumes "ring_ok d" and "polarity d \<in> {0, 0x80}" and "alternating (polarity d) es"
  shows "ring_ok (input_all es d) \<and> polarity (input_all es d) \<in> {0, 0x80} \<and>
    behind userReadPtr (input_all es d) = behind userReadPtr (fold ring_put (times_of es) d) \<and>
    behind learnReadPtr (input_all es d) = behind learnReadPtr (fold ring_put (times_of es) d) \<and>
    behind dataReadPtr (input_all es d) = newest (behind dataReadPtr d @ times_of es)"
  using assms
proof (induction es arbitrary: d)
  case Nil
  have "length (behind dataReadPtr d) < IR_DATA_ARRAY_SIZE" by (simp add: behind_def length_window_bound)
  then show ?case using Nil by (auto simp: input_all_def times_of_def newest_def)
next
  case (Cons e es)
  obtain b1 b2 where b: "e = (b1, b2)" by (cases e)
  define x where "x = entry_time b1 b2"
  have p: "polarity d \<noteq> 2" "b1 AND 0x80 = polarity d XOR 0x80" "alternating (b1 AND 0x80) es" "polarity d XOR 0x80 \<in> {0, 0x80}"
    using Cons.prems(2,3) by (auto simp: b)
  let ?d = "input_entry b1 b2 d"
  note i = input_entry_behind [OF Cons.prems(1) p(1,2), of b2, folded x_def]
  have ih: "ring_ok (input_all es ?d)" "polarity (input_all es ?d) \<in> {0, 0x80}"
    "behind userReadPtr (input_all es ?d) = behind userReadPtr (fold ring_put (times_of es) ?d)"
    "behind learnReadPtr (input_all es ?d) = behind learnReadPtr (fold ring_put (times_of es) ?d)"
    "behind dataReadPtr (input_all es ?d) = newest (behind dataReadPtr ?d @ times_of es)"
    using Cons.IH [of ?d] i(1,2) p(2-4) by auto
  have s: "input_all (e # es) d = input_all es ?d" "times_of (e # es) = x # times_of es"
    by (simp_all add: input_all_def times_of_def b x_def)
  have r: "ring_ok (ring_put x d)" using Cons.prems(1) by (simp add: ring_put_ok)
  have "behind userReadPtr (fold ring_put (times_of es) ?d) = behind userReadPtr (fold ring_put (times_of es) (ring_put x d))"
    "behind learnReadPtr (fold ring_put (times_of es) ?d) = behind learnReadPtr (fold ring_put (times_of es) (ring_put x d))"
    by (simp_all only: user_ring.put_all [OF i(1)] user_ring.put_all [OF r] learn_ring.put_all [OF i(1)] learn_ring.put_all [OF r] i(3,4))
  then show ?case using ih i(5) newest_append [of "behind dataReadPtr d @ [x]" "times_of es"] by (simp add: s)
qed

subsection \<open>The analysis leaves the queue alone\<close>

text \<open>What neither \<^verbatim>\<open>analyze_data\<close> nor \<^verbatim>\<open>learn_data\<close> changes.\<close>

definition same_queue :: "ir \<Rightarrow> ir \<Rightarrow> bool" where
  "same_queue d d' \<longleftrightarrow> dev d' = dev d \<and> dataBuffer d' = dataBuffer d \<and> dataWritePtr d' = dataWritePtr d \<and>
     userReadPtr d' = userReadPtr d \<and> polarity d' = polarity d \<and> length (dataBufferNormalized d') = length (dataBufferNormalized d)"

lemma same_queue_refl [simp]: "same_queue d d"
  by (simp add: same_queue_def)

lemma same_queue_trans: "same_queue a b \<Longrightarrow> same_queue b c \<Longrightarrow> same_queue a c"
  by (simp add: same_queue_def)

lemma same_queueD:
  assumes "same_queue d d'"
  shows "behind userReadPtr d' = behind userReadPtr d" "ring_ok d' = ring_ok d" "ir_checks d' = ir_checks d"
    "polarity d' = polarity d" "dev d' = dev d"
  using assms by (simp_all add: same_queue_def behind_def ring_ok_def ir_checks_def)

lemma same_queue_update [simp]:
  "same_queue (d\<lparr>delayCode := b\<rparr>) d' = same_queue d d'" "same_queue d (d'\<lparr>delayCode := b\<rparr>) = same_queue d d'"
  "same_queue (d\<lparr>lastDataTime := t\<rparr>) d' = same_queue d d'"
  by (simp_all add: same_queue_def)

lemma analyze_code_queue: "analyze_code d xs = Some (r, d', ev) \<Longrightarrow> same_queue d d'"
  by (auto simp: analyze_code_def code_decoded_def Let_def same_queue_def split: bind_splits if_splits prod.splits)

lemma analyze_data_queue: "analyze_data nan d t = Some (r, d', ev) \<Longrightarrow> same_queue d d'"
  by (auto simp: analyze_data_def Let_def same_queue_def split: if_splits prod.splits dest!: analyze_code_queue)

lemma learn_data_queue: "learn_data nan d = Some (d', ev) \<Longrightarrow> same_queue d d'"
  by (auto simp: learn_data_def Let_def same_queue_def split: if_splits prod.splits option.splits bind_splits)

lemma dataInput_queue:
  assumes "ring_ok d" and "polarity d \<in> {0, 0x80}" and "alternating (polarity d) es" and "length es \<le> IR_MAX_DATA_PER_PACKET"
    and "CPhidgetIR_dataInput nan now d (packet_of es @ rest) len = Some (r, d', ev)" and "0 \<le> len"
    and "deviceIDSpec (dev d) = PHIDID_IR" and "100 \<le> deviceVersion (dev d)" and "deviceVersion (dev d) < 200"
  shows "r = EPHIDGET_OK" and "same_queue (input_all es d) d'"
proof -
  have c: "cread (packet_of es @ rest) 0 = Some (of_nat (length es))" by (simp add: packet_of_def cread_def)
  have n: "unat (of_nat (length es) :: u8) = length es"
    using assms(4) by (simp add: unsigned_of_nat take_bit_nat_eq_self_iff ir_sizes)
  note l = input_loop_eq [OF assms(4), of rest d]
  have "r = EPHIDGET_OK \<and> same_queue (input_all es d) d'"
    using assms(5-9)
    by (auto simp: CPhidgetIR_dataInput_def c n l Let_def split: if_splits bind_splits prod.splits
        dest!: analyze_data_queue learn_data_queue intro: same_queue_trans)
  then show "r = EPHIDGET_OK" "same_queue (input_all es d) d'" by auto
qed

subsection \<open>The queue of the user\<close>

text \<open>The calls that touch the queue, with what the device sends, and the queue they are meant to work on: 2048
  places of which reading takes an even number from the front, and which is lost when it fills up.\<close>

datatype ir_op = Packet "(u8 \<times> u8) list" rat | Read int

fun ir_run :: "int \<Rightarrow> ir_op list \<Rightarrow> ir \<Rightarrow> (int list \<times> ir) option" where
  "ir_run nan [] d = Some ([], d)"
| "ir_run nan (Packet es now # ops) d = do {
     (r, d, ev) \<leftarrow> CPhidgetIR_dataInput nan now d (packet_of es @ replicate (62 - 2 * length es) 0) 63;
     ir_run nan ops d }"
| "ir_run nan (Read m # ops) d = (case CPhidgetIR_getRawData d m of (r, d, data) \<Rightarrow> do {
     (out, d) \<leftarrow> ir_run nan ops d;
     Some (data @ out, d) })"

definition queue_in :: "int list \<Rightarrow> int list \<Rightarrow> int list" where
  "queue_in xs u = (let v = u @ xs in drop (IR_DATA_ARRAY_SIZE * (length v div IR_DATA_ARRAY_SIZE)) v)"

fun queue_run :: "ir_op list \<Rightarrow> int list \<Rightarrow> int list \<times> int list" where
  "queue_run [] u = ([], u)"
| "queue_run (Packet es now # ops) u = queue_run ops (queue_in (times_of es) u)"
| "queue_run (Read m # ops) u = (let k = even_part (min (nat m) (length u)) in
     case queue_run ops (drop k u) of (out, v) \<Rightarrow> (take k u @ out, v))"

text \<open>A device of this kind that has had its first packet, and what the device sends in step with it.\<close>

definition ir_ready :: "ir \<Rightarrow> bool" where
  "ir_ready d \<longleftrightarrow> ring_ok d \<and> ir_checks d = EPHIDGET_OK \<and> polarity d \<in> {0, 0x80} \<and>
     deviceIDSpec (dev d) = PHIDID_IR \<and> 100 \<le> deviceVersion (dev d) \<and> deviceVersion (dev d) < 200"

fun in_step :: "u8 \<Rightarrow> ir_op list \<Rightarrow> bool" where
  "in_step p [] = True"
| "in_step p (Packet es now # ops) \<longleftrightarrow> length es \<le> IR_MAX_DATA_PER_PACKET \<and> alternating p es \<and>
     in_step (if odd (length es) then p XOR 0x80 else p) ops"
| "in_step p (Read m # ops) \<longleftrightarrow> in_step p ops"

lemma input_all_polarity:
  "polarity d \<in> {0, 0x80} \<Longrightarrow> alternating (polarity d) es \<Longrightarrow> ring_ok d \<Longrightarrow>
   polarity (input_all es d) = (if odd (length es) then polarity d XOR 0x80 else polarity d)"
proof (induction es arbitrary: d)
  case (Cons e es)
  obtain b1 b2 where b: "e = (b1, b2)" by (cases e)
  have p: "polarity d \<noteq> 2" "b1 AND 0x80 = polarity d XOR 0x80" "alternating (polarity d XOR 0x80) es" "polarity d XOR 0x80 \<in> {0, 0x80}"
    using Cons.prems(1,2) by (auto simp: b)
  have "polarity (input_all es (input_entry b1 b2 d)) = (if odd (length es) then b1 AND 0x80 XOR 0x80 else b1 AND 0x80)"
    using Cons.IH [of "input_entry b1 b2 d"] input_entry_behind(1,2) [OF Cons.prems(3) p(1,2), of b2] p by simp
  then show ?case using p(2) by (simp add: input_all_def b xor.assoc)
qed (simp add: input_all_def)

lemma ir_ready_queue: "ir_ready d \<Longrightarrow> same_queue d d' \<Longrightarrow> ir_ready d'"
  using same_queueD [of d d'] by (simp add: ir_ready_def)

lemma dev_input_all: "dev (input_all es d) = dev d"
  by (induction es arbitrary: d)
    (auto simp: input_all_def input_entry_def input_polarity_def ring_put_def Let_def)

lemma packet_step:
  assumes "ir_ready d" and "alternating (polarity d) es" and "length es \<le> IR_MAX_DATA_PER_PACKET"
    and "CPhidgetIR_dataInput nan now d (packet_of es @ rest) 63 = Some (r, d', ev)"
  shows "r = EPHIDGET_OK" "ir_ready d'" "polarity d' = (if odd (length es) then polarity d XOR 0x80 else polarity d)"
    "behind userReadPtr d' = queue_in (times_of es) (behind userReadPtr d)"
proof -
  note rd = assms(1) [unfolded ir_ready_def]
  have q: "r = EPHIDGET_OK" "same_queue (input_all es d) d'"
    using dataInput_queue [of d es nan now rest 63 r d' ev] rd assms(2-4) by auto
  note i = input_all_behind [of d es]
  have "ir_checks (input_all es d) = ir_checks d" by (simp add: ir_checks_def dev_input_all)
  then have "ir_ready (input_all es d)" using rd i assms(2) by (simp add: ir_ready_def dev_input_all)
  with q show "r = EPHIDGET_OK" "ir_ready d'" by (auto intro: ir_ready_queue)
  show "polarity d' = (if odd (length es) then polarity d XOR 0x80 else polarity d)"
    using same_queueD(4) [OF q(2)] input_all_polarity [of d es] rd assms(2) by simp
  show "behind userReadPtr d' = queue_in (times_of es) (behind userReadPtr d)"
    using same_queueD(1) [OF q(2)] i rd assms(2) user_ring.put_all [of d "times_of es"] by (simp add: queue_in_def Let_def)
qed

text \<open>C25. What the user reads is what the device sent, in order and in even numbers.  Take an infrared device that has had
  its first packet (which puts an unmeasurably long time in front) and whose packets are in step: no packet is
  lost, so pulses and spaces alternate across them (a packet out of step would empty the queue).  In every run that is
  defined, that is, in which no analysis of a signal goes out of bounds, the packets and the calls of
  \<^verbatim>\<open>CPhidgetIR_getRawData\<close> act on the unread data exactly as on a queue from which reads take, and that
  is emptied when its 2048th entry arrives.\<close>

theorem raw_data_queue:
  assumes "ir_ready d" and "in_step (polarity d) ops" and "ir_run nan ops d = Some (out, d')"
  shows "queue_run ops (behind userReadPtr d) = (out, behind userReadPtr d')"
  using assms
proof (induction nan ops d arbitrary: out d' rule: ir_run.induct)
  case (2 nan es now ops d)
  obtain r d1 ev where p: "CPhidgetIR_dataInput nan now d (packet_of es @ replicate (62 - 2 * length es) 0) 63 = Some (r, d1, ev)"
    "ir_run nan ops d1 = Some (out, d')" using 2(4) by (auto split: bind_splits)
  have s: "alternating (polarity d) es" "length es \<le> IR_MAX_DATA_PER_PACKET" using 2(3) by auto
  note st = packet_step [OF 2(2) s p(1)]
  have "in_step (polarity d1) ops" using 2(3) st(3) by simp
  from 2(1) [OF p(1) refl refl st(2) this p(2)] show ?case by (simp add: st(4))
next
  case (3 nan m ops d)
  have c: "ir_checks d = EPHIDGET_OK" using 3(2) by (simp add: ir_ready_def)
  let ?u = "behind userReadPtr d"
  obtain q where g: "CPhidgetIR_getRawData d m = (EPHIDGET_OK, d\<lparr>userReadPtr := q\<rparr>, take (even_part (min (nat m) (length ?u))) ?u)"
    "behind userReadPtr (d\<lparr>userReadPtr := q\<rparr>) = drop (even_part (min (nat m) (length ?u))) ?u"
    using getRawData_outcome [OF c, of m] by blast
  obtain out1 where o: "ir_run nan ops (d\<lparr>userReadPtr := q\<rparr>) = Some (out1, d')"
    "out = take (even_part (min (nat m) (length ?u))) ?u @ out1" using 3(4) g(1) by (auto split: bind_splits)
  have "ir_checks (d\<lparr>userReadPtr := q\<rparr>) = ir_checks d" by (simp add: ir_checks_def)
  then have "ir_ready (d\<lparr>userReadPtr := q\<rparr>)" using 3(2) by (simp add: ir_ready_def ring_ok_def)
  from 3(1) [OF g(1) [symmetric] refl this _ o(1)] 3(3) show ?case by (simp add: g(2) o(2) Let_def)
qed simp

theorem raw_data_queue_witness:
  "\<exists>d'. ir_run 0 [Packet [(0x80, 56), (0, 57), (0x81, 0)] 1, Read 10, Packet [(1, 44)] 2, Read 3] (demo_ir\<lparr>polarity := 0\<rparr>) =
      Some ([560, 570, 2560, 3000], d') \<and> behind userReadPtr d' = []"
proof -
  let ?ops = "[Packet [(0x80, 56), (0, 57), (0x81, 0)] 1, Read 10, Packet [(1, 44)] 2, Read 3]" and ?d = "demo_ir\<lparr>polarity := 0\<rparr>"
  have "ir_run 0 ?ops ?d \<noteq> None" by code_simp
  then obtain out d' where r: "ir_run 0 ?ops ?d = Some (out, d')" by auto
  have "ir_ready ?d" by code_simp
  moreover have "in_step (polarity ?d) ?ops" by code_simp
  ultimately have "queue_run ?ops (behind userReadPtr ?d) = (out, behind userReadPtr d')" by (rule raw_data_queue [OF _ _ r])
  moreover have "behind userReadPtr ?d = []" by (simp add: behind_def demo_ir_def)
  moreover have "queue_run ?ops [] = ([560, 570, 2560, 3000], [])" by code_simp
  ultimately show ?thesis using r by simp
qed

text \<open>Unread data is lost: the pointer of the user is not moved on when the ring is full, so when 2048 times have
  arrived since the last call that read everything, \<^verbatim>\<open>CPhidgetIR_getRawData\<close> finds nothing.\<close>

lemma raw_data_lost:
  assumes "ir_ready d" and "behind userReadPtr d = []" and "alternating (polarity d) es" and "length es = IR_DATA_ARRAY_SIZE"
  shows "\<exists>d'. CPhidgetIR_getRawData (input_all es d) m = (EPHIDGET_OK, d', [])"
proof -
  have rd: "ring_ok d" "polarity d \<in> {0, 0x80}" "ir_checks d = EPHIDGET_OK" using assms(1) by (simp_all add: ir_ready_def)
  have "length (times_of es) = IR_DATA_ARRAY_SIZE" using assms(4) by (simp add: times_of_def)
  then have "behind userReadPtr (fold ring_put (times_of es) d) = []"
    using user_ring.put_all [OF rd(1), of "times_of es"] assms(2) by (simp add: Let_def ir_sizes)
  then have "behind userReadPtr (input_all es d) = []" using input_all_behind [OF rd(1,2) assms(3)] by simp
  moreover have "ir_checks (input_all es d) = ir_checks d" by (simp add: ir_checks_def dev_input_all)
  ultimately show ?thesis using getRawData_outcome [of "input_all es d" m] rd(3) by auto
qed

end
