(* ===== verification/Ir_Learn.thy ===== *)
theory Ir_Learn
  imports Ir_Ring
begin

text \<open>
  The limits of learning (\<^verbatim>\<open>learn_data\<close>): the array of packet starts has 50 elements.
\<close>

lemma find_packets_full:
  "length dp \<le> 50 \<Longrightarrow> find_packets nrm p e high dp = None \<longleftrightarrow>
     50 < length dp + length (filter (\<lambda>x. x \<ge> IR_MIN_GAP_LENGTH) (snd (alternate high (window nrm p e))))"
proof (induction nrm p e high dp rule: find_packets.induct)
  case (1 nrm p e high dp)
  show ?case
  proof (cases "p = e")
    case True
    then show ?thesis using 1(3) by (subst find_packets.simps) simp
  next
    case False
    then have w: "window nrm p e = nrm ! unat p # window nrm (p + 1) e" by (simp add: window_Cons)
    show ?thesis using 1 False by (subst find_packets.simps) (auto simp: w case_prod_beta)
  qed
qed

lemma learn_extent_eq:
  assumes "window buf p w = xs @ PUNK_INT # rest" and "\<forall>x \<in> set xs. 0 \<le> x \<and> x \<noteq> PUNK_INT" and "t + sum_list xs < 2000000"
  shows "learn_extent buf w start p t = Some (p + of_nat (length xs))"
  using assms
proof (induction xs arbitrary: p t)
  case Nil
  then show ?case by (subst learn_extent.simps) (auto simp: window_Cons)
next
  case (Cons x xs)
  have p: "p \<noteq> w" "x = buf ! unat p" "window buf (p + 1) w = xs @ PUNK_INT # rest" using Cons.prems(1) by (simp_all add: window_Cons)
  have "0 \<le> sum_list xs" using Cons.prems(2) by (intro sum_list_nonneg) auto
  then have "t < 2000000" using Cons.prems(2,3) by simp
  then show ?case using Cons.IH [OF p(3), of "t + x"] Cons.prems(2,3) p
    by (subst learn_extent.simps) (simp add: algebra_simps)
qed

lemma alternate_alt_map: "alternate h (alt_map h f g xs) = (map f (fst (alternate h xs)), map g (snd (alternate h xs)))"
  by (induction h xs rule: alternate.induct) (auto simp: case_prod_beta)

lemma alternate_total: "length (fst (alternate h xs)) + length (snd (alternate h xs)) = length xs"
  by (induction h xs rule: alternate.induct) (auto simp: case_prod_beta)

text \<open>What was received between two unmeasurably long times.\<close>

definition heard_between :: "ir \<Rightarrow> int list \<Rightarrow> bool" where
  "heard_between d xs \<longleftrightarrow> ring_ok d \<and>
     (\<exists>rest. window (dataBuffer d) (learnReadPtr d) (dataWritePtr d) = PUNK_INT # xs @ PUNK_INT # rest)"

lemma learn_outcome:
  assumes "heard_between d xs" and "\<forall>x \<in> set xs. 0 \<le> x \<and> x \<noteq> PUNK_INT" and "sum_list xs < 2000000" and "10 \<le> length xs"
    and dp: "50 < length [p] + length (filter (\<lambda>x. x \<ge> IR_MIN_GAP_LENGTH) (map (rep nan (snd (alternate True xs))) (snd (alternate True xs))))"
  shows "learn_data nan d = None"
proof -
  let ?buf = "dataBuffer d" and ?w = "dataWritePtr d" and ?r = "learnReadPtr d"
  let ?hs = "fst (alternate True xs)" and ?ls = "snd (alternate True xs)"
  obtain rest where win: "window ?buf ?r ?w = PUNK_INT # xs @ PUNK_INT # rest" and ok: "ring_ok d"
    using assms(1) by (auto simp: heard_between_def)
  have r: "?r \<noteq> ?w" "PUNK_INT = ?buf ! unat ?r" "window ?buf (?r + 1) ?w = xs @ PUNK_INT # rest" using win by (simp_all add: window_Cons)
  have seek: "seek_gap PUNK_INT ?buf ?w ?r = (?r, True)" using r(2) by (subst seek_gap.simps) simp
  define e where "e = ?r + 1 + of_nat (length xs)"
  have ext: "learn_extent ?buf ?w (?r + 1) (?r + 1) 0 = Some e"
    unfolding e_def by (rule learn_extent_eq [OF r(3) assms(2)]) (use assms(3) in simp)
  have we: "window ?buf (?r + 1) e = xs" using window_append(2) [OF r(3)] by (simp add: e_def)
  have n1: "?r + 1 \<noteq> ?w" using r(3) by (auto simp flip: window_Nil [of ?buf])
  define nrm where "nrm = normalize ?buf (finals nan ?hs) (finals nan ?ls) (?r + 1) e True (dataBufferNormalized d)"
  have "length (dataBufferNormalized d) = IR_DATA_ARRAY_SIZE" using ok by (simp add: ring_ok_def)
  from window_normalize [OF this, of ?buf "finals nan ?hs" "finals nan ?ls" "?r + 1" e True]
  have nw: "window nrm (?r + 1) e = alt_map True (rep nan ?hs) (rep nan ?ls) xs"
    by (simp add: nrm_def we rep_def [abs_def])
  have fp: "find_packets nrm (?r + 1) e True [?r + 1] = None"
    using dp by (simp add: find_packets_full nw alternate_alt_map)
  have "length ?hs + length ?ls = length xs" by (rule alternate_total)
  then have "\<not> length ?hs + length ?ls < 10" using assms(4) by simp
  then show ?thesis using r(1) n1
    by (simp add: learn_data_def seek ext we case_prod_beta Let_def fp flip: finals_def nrm_def)
qed


lemma ring_with_ok: "length xs < IR_DATA_ARRAY_SIZE \<Longrightarrow> ring_ok (ring_with xs)"
  by (simp add: ring_ok_def ring_with_def demo_ir_def)


end
