(* ===== verification/Rfid.thy ===== *)
theory Rfid
  imports Threads Utils Complex_Main "HOL-Library.Signed_Division"
begin

text \<open>
  The RFID readers (\<^verbatim>\<open>cphidgetrfid.c\<close>) as compiled for release (without
  \<^verbatim>\<open>DEBUG\<close>, so without HiTag support and raw data): the record, the output packets, the encoders of
  the three tag formats and the programming of T5577 tags.

  \<^verbatim>\<open>CPhidgetRFID_sendpacket\<close> is the argument \<open>send\<close> on a state of the caller.  A character array
  that is only used as a string is the string it holds.  64-bit integers are words.
\<close>

subsection \<open>Constants\<close>

definition PHIDUID_RFID_OLD :: int where "PHIDUID_RFID_OLD = 46"
definition PHIDUID_RFID :: int where "PHIDUID_RFID = 47"
definition PHIDUID_RFID_2OUTPUT_NO_ECHO :: int where "PHIDUID_RFID_2OUTPUT_NO_ECHO = 48"
definition PHIDUID_RFID_2OUTPUT :: int where "PHIDUID_RFID_2OUTPUT = 49"
definition PHIDUID_RFID_2OUTPUT_READ_WRITE :: int where "PHIDUID_RFID_2OUTPUT_READ_WRITE = 50"

lemmas rfid_uids = PHIDUID_RFID_OLD_def PHIDUID_RFID_def PHIDUID_RFID_2OUTPUT_NO_ECHO_def PHIDUID_RFID_2OUTPUT_def
  PHIDUID_RFID_2OUTPUT_READ_WRITE_def

definition RFID_DATA_ARRAY_SIZE :: nat where "RFID_DATA_ARRAY_SIZE = 1024"
definition RFID_LED_FLAG :: u8 where "RFID_LED_FLAG = 0x04"
definition RFID_ANTENNA_FLAG :: u8 where "RFID_ANTENNA_FLAG = 0x08"
definition RFID_LISTEN_DURING_EOF_FLAG :: u8 where "RFID_LISTEN_DURING_EOF_FLAG = 0x10"
definition RFID_CONTROL_OUT_PACKET :: u8 where "RFID_CONTROL_OUT_PACKET = 0x40"
definition RFID_4097_PowerDown :: int where "RFID_4097_PowerDown = 0"
definition RFID_4097_DefaultON :: int where "RFID_4097_DefaultON = 0x52"

definition RFID_T5577_StartGap :: int where "RFID_T5577_StartGap = 30"
definition RFID_T5577_WriteGap :: int where "RFID_T5577_WriteGap = 15"
definition RFID_T5577_EndGap :: int where "RFID_T5577_EndGap = 15"
definition RFID_T5577_Zero :: int where "RFID_T5577_Zero = 24"
definition RFID_T5577_One :: int where "RFID_T5577_One = 56"
definition RFID_T5577_EOF :: int where "RFID_T5577_EOF = 100"
definition RFID_T5577_PrePulse :: int where "RFID_T5577_PrePulse = 136 + RFID_T5577_Zero"

lemmas rfid_t5577 = RFID_T5577_StartGap_def RFID_T5577_WriteGap_def RFID_T5577_EndGap_def RFID_T5577_Zero_def
  RFID_T5577_One_def RFID_T5577_EOF_def RFID_T5577_PrePulse_def

subsection \<open>Tags and the device\<close>

text \<open>\<^verbatim>\<open>CPhidgetRFID_Protocol\<close>, with the value 0 of a zeroed structure.\<close>

datatype rfid_protocol = PHIDGET_RFID_PROTOCOL_UNSET | PHIDGET_RFID_PROTOCOL_EM4100
  | PHIDGET_RFID_PROTOCOL_ISO11785_FDX_B | PHIDGET_RFID_PROTOCOL_PHIDGETS

record rfid_tag =
  protocol :: rfid_protocol
  tagString :: "u8 list"
  tagData :: "u8 list"

definition rfid_no_tag :: rfid_tag where
  "rfid_no_tag = \<lparr>protocol = PHIDGET_RFID_PROTOCOL_UNSET, tagString = [], tagData = replicate 10 0\<rparr>"

text \<open>The ring buffers have 1024 elements and their pointers are only advanced under the mask
  \<^verbatim>\<open>0x3ff\<close>.\<close>

type_synonym rfid_ptr = "10 word"

record rfid =
  rdev :: cphidget
  numOutputs :: nat
  outputEchoState :: "u8 list"
  antennaEchoState :: u8
  ledEchoState :: u8
  spaceClocks :: int
  pregapClocks :: int
  postgapClocks :: int
  oneClocks :: int
  zeroClocks :: int
  prepulseClocks :: int
  eofpulseClocks :: int
  listenDuringEOF :: u8
  conf4097 :: int
  outputState :: "u8 list"
  antennaState :: u8
  ledState :: u8
  spaceClocksEcho :: int
  pregapClocksEcho :: int
  postgapClocksEcho :: int
  oneClocksEcho :: int
  zeroClocksEcho :: int
  prepulseClocksEcho :: int
  eofpulseClocksEcho :: int
  listenDuringEOFEcho :: u8
  conf4097Echo :: int
  fullStateEcho :: bool
  lastTag :: rfid_tag
  lastTagValid :: u8
  lastTagTime :: rat
  tagPresent :: u8
  pendingTag :: rfid_tag
  tagEventPending :: bool
  rdataBuffer :: "int list"
  rdataReadPtr :: rfid_ptr
  rdataWritePtr :: rfid_ptr
  shortClocks :: int
  longClocks :: int
  manBuffer :: "u8 list"
  manReadPtr :: rfid_ptr
  manWritePtr :: rfid_ptr
  manLockedIn :: bool
  manShortChange :: bool
  biphaseBuffer :: "u8 list"
  biphaseReadPtr :: rfid_ptr
  biphaseWritePtr :: rfid_ptr
  biphaseLockedIn :: bool
  biphaseShortChange :: bool
  routbuf :: packet_buf

text \<open>\<open>None\<close> of a handler is logged only while the device is attached.\<close>

datatype rfid_event = OutputChange nat u8 | Tag "u8 list" | Tag2 "u8 list" rfid_protocol
  | TagLost "u8 list" | TagLost2 "u8 list" rfid_protocol

definition rfid_fire :: "rfid \<Rightarrow> rfid_event \<Rightarrow> rfid_event list" where
  "rfid_fire d e = (if is_set (rdev d) PHIDGET_ATTACHED_FLAG then [e] else [])"

subsection \<open>Output packets\<close>

text \<open>The values that the user has not set are filled in.\<close>

definition unless_known :: "u8 \<Rightarrow> u8" where
  "unless_known x = (if x = 2 then 0 else x)"

definition default_clocks :: "int \<Rightarrow> int \<Rightarrow> int" where
  "default_clocks x c = (if x = PUNK_INT then c else x)"

definition default_outputs :: "rfid \<Rightarrow> rfid" where
  "default_outputs d = d\<lparr>outputState := map unless_known (take (numOutputs d) (outputState d)) @ drop (numOutputs d) (outputState d),
     antennaState := unless_known (antennaState d), ledState := unless_known (ledState d)\<rparr>"

definition output_byte :: "rfid \<Rightarrow> u8" where
  "output_byte d = fold (\<lambda>i b. if outputState d ! i \<noteq> 0 then b OR push_bit i 1 else b) [0..<numOutputs d] 0
     OR (if ledState d = 1 then RFID_LED_FLAG else 0) OR (if antennaState d = 1 then RFID_ANTENNA_FLAG else 0)"

definition default_timing :: "rfid \<Rightarrow> rfid" where
  "default_timing d = d\<lparr>pregapClocks := default_clocks (pregapClocks d) RFID_T5577_StartGap,
     prepulseClocks := default_clocks (prepulseClocks d) RFID_T5577_PrePulse,
     zeroClocks := default_clocks (zeroClocks d) RFID_T5577_Zero, oneClocks := default_clocks (oneClocks d) RFID_T5577_One,
     spaceClocks := default_clocks (spaceClocks d) RFID_T5577_WriteGap,
     postgapClocks := default_clocks (postgapClocks d) RFID_T5577_EndGap,
     eofpulseClocks := default_clocks (eofpulseClocks d) RFID_T5577_EOF, listenDuringEOF := unless_known (listenDuringEOF d)\<rparr>"

definition timing_bytes :: "rfid \<Rightarrow> u8 list" where
  "timing_bytes d = map word_of_int
     [(pregapClocks d - 1) AND 0x3F OR (push_bit 2 (postgapClocks d - 1) AND 0xC0),
      (postgapClocks d - 1) AND 0x0F OR (push_bit 2 (spaceClocks d - 1) AND 0xF0),
      (spaceClocks d - 1) AND 0x03 OR (push_bit 1 (zeroClocks d - 1) AND 0xFC),
      (zeroClocks d - 1) AND 0x01 OR (push_bit 1 (oneClocks d - 1) AND 0xFE),
      prepulseClocks d, eofpulseClocks d, conf4097 d]"

text \<open>\<^verbatim>\<open>CPhidgetRFID_makePacket\<close> into a zeroed buffer.\<close>

definition rfid_makePacket :: "rfid \<Rightarrow> u8 list \<Rightarrow> (ephidget \<times> rfid \<times> u8 list) option" where
  "rfid_makePacket d buffer =
     (if deviceUID (rdev d) = PHIDUID_RFID_2OUTPUT_NO_ECHO \<or> deviceUID (rdev d) = PHIDUID_RFID_2OUTPUT then
        let d = default_outputs d in do {
          b \<leftarrow> cread buffer 0;
          buffer \<leftarrow> cwrite buffer 0 (b OR output_byte d);
          Some (EPHIDGET_OK, d, buffer) }
      else if deviceUID (rdev d) = PHIDUID_RFID_2OUTPUT_READ_WRITE then
        let d = default_timing (default_outputs d);
            d = d\<lparr>conf4097 := (if antennaState d = 1 then RFID_4097_DefaultON else RFID_4097_PowerDown)\<rparr> in do {
          b \<leftarrow> cread buffer 0;
          buffer \<leftarrow> blit buffer 0 ((b OR output_byte d OR RFID_CONTROL_OUT_PACKET) # timing_bytes d);
          Some (EPHIDGET_OK, d, buffer) }
      else Some (EPHIDGET_UNEXPECTED, d, buffer))"

text \<open>\<^verbatim>\<open>SENDPACKET\<close> with the assignment of the new value; \<open>mem\<close> is the outcome of
  \<^verbatim>\<open>malloc\<close>.\<close>

definition rfid_SENDPACKET ::
    "bool \<Rightarrow> ('w \<Rightarrow> u8 list \<Rightarrow> 'w \<times> ephidget) \<Rightarrow> (rfid \<Rightarrow> rfid) \<Rightarrow> rfid \<Rightarrow> 'w \<Rightarrow> (ephidget \<times> rfid \<times> 'w) option" where
  "rfid_SENDPACKET mem send upd d w =
     (if \<not> mem then Some (EPHIDGET_NOMEMORY, d, w)
      else do {
        (r, d, buffer) \<leftarrow> rfid_makePacket (upd d) (replicate (outputReportByteLength (rdev d)) 0);
        if r \<noteq> EPHIDGET_OK then Some (r, d, w)
        else case send w buffer of (w, r) \<Rightarrow> Some (r, d, w) })"

text \<open>\<^verbatim>\<open>sendRAWData\<close>: bytes of data in packets of up to 7, each behind its number of bits.
  \<open>stack\<close> is what the local buffer of 10 bytes holds before it is filled.\<close>

fun rfid_send_bits ::
    "('w \<Rightarrow> u8 list \<Rightarrow> 'w \<times> ephidget) \<Rightarrow> u8 list \<Rightarrow> nat \<Rightarrow> int \<Rightarrow> int \<Rightarrow> u8 list \<Rightarrow> 'w \<Rightarrow> 'w \<times> ephidget" where
  "rfid_send_bits send buffer j bits bitlength [] w = (w, EPHIDGET_OK)"
| "rfid_send_bits send buffer j bits bitlength (x # xs) w =
     (let buffer = buffer[j := x];
          bits = bits + (if bitlength < 8 then bitlength else 8);
          bitlength = (if bitlength < 8 then 0 else bitlength - 8) in
      if j = 7 \<or> xs = [] then
        let buffer = buffer[0 := word_of_int bits] in
        (case send w buffer of (w, r) \<Rightarrow>
           if r \<noteq> EPHIDGET_OK then (w, r) else rfid_send_bits send buffer 1 0 bitlength xs w)
      else rfid_send_bits send buffer (j + 1) bits bitlength xs w)"

definition rfid_sendRAWData ::
    "('w \<Rightarrow> u8 list \<Rightarrow> 'w \<times> ephidget) \<Rightarrow> u8 list \<Rightarrow> u8 list \<Rightarrow> int \<Rightarrow> 'w \<Rightarrow> ('w \<times> ephidget) option" where
  "rfid_sendRAWData send stack data bitlength w =
     (let n = bitlength sdiv 8 + (if bitlength smod 8 \<noteq> 0 then 1 else 0) in
      if n > 0xff then Some (w, EPHIDGET_INVALIDARG)
      else if int (length data) < n then None
      else Some (rfid_send_bits send stack 1 0 bitlength (take (nat n) data) w))"

definition rfid_checks :: "rfid \<Rightarrow> ephidget" where
  "rfid_checks d = (if deviceID (rdev d) \<noteq> PHIDCLASS_RFID then EPHIDGET_WRONGDEVICE
     else if \<not> is_set (rdev d) PHIDGET_ATTACHED_FLAG then EPHIDGET_NOTATTACHED else EPHIDGET_OK)"

text \<open>The times of a raw transmission.\<close>

record raw_timing =
  t_pregap :: int
  t_space :: int
  t_postgap :: int
  t_zero :: int
  t_one :: int
  t_prepulse :: int
  t_eof :: int
  t_listen :: int

definition timing_ok :: "raw_timing \<Rightarrow> bool" where
  "timing_ok t \<longleftrightarrow> 2 \<le> t_pregap t \<and> t_pregap t \<le> 64 \<and> 2 \<le> t_space t \<and> t_space t \<le> 64 \<and> 2 \<le> t_postgap t \<and> t_postgap t \<le> 64 \<and>
     4 \<le> t_zero t \<and> t_zero t \<le> 128 \<and> 4 \<le> t_one t \<and> t_one t \<le> 128 \<and> 0 \<le> t_prepulse t \<and> t_prepulse t \<le> 255 \<and>
     0 \<le> t_eof t \<and> t_eof t \<le> 255 \<and> 0 \<le> t_listen t \<and> t_listen t \<le> 1"

definition set_timing :: "raw_timing \<Rightarrow> rfid \<Rightarrow> rfid" where
  "set_timing t d = d\<lparr>pregapClocks := t_pregap t, postgapClocks := t_postgap t, spaceClocks := t_space t, zeroClocks := t_zero t,
     oneClocks := t_one t, prepulseClocks := t_prepulse t, eofpulseClocks := t_eof t, listenDuringEOF := word_of_int (t_listen t)\<rparr>"

text \<open>\<^verbatim>\<open>CPhidgetRFID_writeRaw\<close> of a device on this machine.  The result of
  \<^verbatim>\<open>sendRAWData\<close> goes into a variable that is not looked at.\<close>

definition CPhidgetRFID_writeRaw ::
    "bool \<Rightarrow> ('w \<Rightarrow> u8 list \<Rightarrow> 'w \<times> ephidget) \<Rightarrow> u8 list \<Rightarrow> rfid \<Rightarrow> u8 list \<Rightarrow> int \<Rightarrow> raw_timing \<Rightarrow> 'w \<Rightarrow> (ephidget \<times> rfid \<times> 'w) option" where
  "CPhidgetRFID_writeRaw mem send stack d data bitlength t w =
     (if rfid_checks d \<noteq> EPHIDGET_OK then Some (rfid_checks d, d, w)
      else if deviceUID (rdev d) \<noteq> PHIDUID_RFID_2OUTPUT_READ_WRITE then Some (EPHIDGET_UNSUPPORTED, d, w)
      else if \<not> timing_ok t then Some (EPHIDGET_INVALIDARG, d, w)
      else do {
        (ret, d, w) \<leftarrow> rfid_SENDPACKET mem send (set_timing t) d w;
        if ret \<noteq> EPHIDGET_OK then Some (ret, d, w)
        else do {
          (w, retval) \<leftarrow> rfid_sendRAWData send stack data bitlength w;
          Some (EPHIDGET_OK, d, w) } })"

subsection \<open>Tag formats\<close>

text \<open>\<^verbatim>\<open>strtoll\<close> and \<^verbatim>\<open>strtoul\<close> of the C library, for texts too short to overflow.\<close>

definition digit_of :: "nat \<Rightarrow> u8 \<Rightarrow> int option" where
  "digit_of base c = (let v = (if 48 \<le> c \<and> c \<le> 57 then uint c - 48
     else if 97 \<le> c \<and> c \<le> 122 then uint c - 97 + 10 else if 65 \<le> c \<and> c \<le> 90 then uint c - 65 + 10 else 99) in
     if v < int base then Some v else None)"

fun parse_digits :: "nat \<Rightarrow> int \<Rightarrow> u8 list \<Rightarrow> int" where
  "parse_digits base x [] = x"
| "parse_digits base x (c # cs) = (case digit_of base c of None \<Rightarrow> x | Some v \<Rightarrow> parse_digits base (x * int base + v) cs)"

definition strtoll :: "nat \<Rightarrow> u8 list \<Rightarrow> int" where
  "strtoll base s =
     (let s = dropWhile (\<lambda>c. c = 32 \<or> 9 \<le> c \<and> c \<le> 13) s;
          neg = (case s of c # _ \<Rightarrow> c = 45 | [] \<Rightarrow> False);
          s = (case s of c # cs \<Rightarrow> if c = 45 \<or> c = 43 then cs else s | [] \<Rightarrow> []);
          s = (case s of c # x # cs \<Rightarrow> if base = 16 \<and> c = 48 \<and> (x = 120 \<or> x = 88) then cs else s | _ \<Rightarrow> s);
          v = parse_digits base 0 s in
      if neg then - v else v)"

text \<open>\<^verbatim>\<open>CRC_16_CCITT_update\<close>, the CRC of ISO 11785.\<close>

definition CRC_16_CCITT_update :: "u16 \<Rightarrow> u8 \<Rightarrow> u16" where
  "CRC_16_CCITT_update crc x =
     (let c = drop_bit 8 crc OR push_bit 8 crc;
          c = c XOR ucast x;
          c = c XOR drop_bit 4 (c AND 0xff);
          c = c XOR push_bit 12 c in
      c XOR push_bit 5 (c AND 0xff))"

text \<open>\<^verbatim>\<open>reverse\<close>\<close>

definition reverse64 :: "64 word \<Rightarrow> 64 word" where
  "reverse64 x =
     (let x = drop_bit 1 (x AND 0xaaaaaaaaaaaaaaaa) OR push_bit 1 (x AND 0x5555555555555555);
          x = drop_bit 2 (x AND 0xcccccccccccccccc) OR push_bit 2 (x AND 0x3333333333333333);
          x = drop_bit 4 (x AND 0xf0f0f0f0f0f0f0f0) OR push_bit 4 (x AND 0x0f0f0f0f0f0f0f0f);
          x = drop_bit 8 (x AND 0xff00ff00ff00ff00) OR push_bit 8 (x AND 0x00ff00ff00ff00ff);
          x = drop_bit 16 (x AND 0xffff0000ffff0000) OR push_bit 16 (x AND 0x0000ffff0000ffff) in
      drop_bit 32 x OR push_bit 32 x)"

text \<open>The two 32-bit blocks of a 64-bit number.\<close>

definition blocks64 :: "64 word \<Rightarrow> u32 list" where
  "blocks64 x = [ucast (drop_bit 32 x), ucast x]"

text \<open>\<^verbatim>\<open>encodeEM4100\<close>; \<open>n\<close> is \<^verbatim>\<open>*blockDataLen\<close>.\<close>

definition em4100_data :: "64 word \<Rightarrow> 64 word" where
  "em4100_data t = fold (\<lambda>i e. e OR (push_bit (15 - i) t AND drop_bit (5 * i) 0x0078000000000000)) [0..<10] 0xFF80000000000000"

definition em4100_parity :: "64 word \<Rightarrow> 64 word \<Rightarrow> 64 word" where
  "em4100_parity t e = fst (fold (\<lambda>i (e, t, row, col).
     let (row, col) = (if col > 4 then (row + 1, 1) else (row, col));
         e = e XOR push_bit col (t AND 1);
         e = e XOR push_bit (row * 5) (t AND 1) in
     (e, drop_bit 1 t, row, col + 1)) [0..<40] (e, t, 1 :: nat, 1 :: nat))"

definition encodeEM4100 :: "u8 list \<Rightarrow> nat \<Rightarrow> ephidget + u32 list" where
  "encodeEM4100 s n =
     (if n < 2 then Inl EPHIDGET_INVALIDARG
      else if length s \<noteq> 10 \<and> \<not> (length s = 12 \<and> s ! 0 = 48 \<and> s ! 1 = 120) then Inl EPHIDGET_INVALIDARG
      else let t = word_of_int (strtoll 16 s) in Inr (blocks64 (em4100_parity t (em4100_data t))))"

text \<open>\<^verbatim>\<open>encodeISO11785_FDX_B\<close>\<close>

definition fdxb_number :: "u8 list \<Rightarrow> 64 word" where
  "fdxb_number s = push_bit 38 (word_of_int (strtoll 10 (take 3 s))) OR word_of_int (strtoll 10 (drop 3 s)) OR 0x8000000000000000"

definition fdxb_crc :: "64 word \<Rightarrow> u16" where
  "fdxb_crc t = fold (\<lambda>i crc. CRC_16_CCITT_update crc (ucast (drop_bit (56 - 8 * i) t))) [0..<8] 0"

definition fdxb_high :: "64 word \<Rightarrow> 64 word" where
  "fdxb_high t = fold (\<lambda>i e. e OR (drop_bit (11 + i) t AND drop_bit (9 * i) 0x001FE00000000000)) [0..<6] 0x0020100804020100"

definition fdxb_low :: "64 word \<Rightarrow> u16 \<Rightarrow> 64 word" where
  "fdxb_low t crc = fold (\<lambda>i e. e OR (push_bit (47 - i) t AND drop_bit (9 * i) 0x7F80000000000000)) [0..<2] 0x8040201008040201
     OR (push_bit 29 (ucast crc) AND 0x00001FE000000000) OR (push_bit 28 (ucast crc) AND 0x0000000FF0000000)"

definition encodeISO11785_FDX_B :: "u8 list \<Rightarrow> nat \<Rightarrow> ephidget + u32 list" where
  "encodeISO11785_FDX_B s n =
     (if n < 4 \<or> length s \<noteq> 15 then Inl EPHIDGET_INVALIDARG
      else if (word_of_int (strtoll 10 (drop 3 s)) :: 64 word) > 0x3FFFFFFFFF then Inl EPHIDGET_INVALIDARG
      else let t = reverse64 (fdxb_number s) in Inr (blocks64 (fdxb_high t) @ blocks64 (fdxb_low t (fdxb_crc t))))"

text \<open>\<^verbatim>\<open>encodePHIDGETS_TAG\<close>; a \<^verbatim>\<open>char\<close> is signed.\<close>

definition encodePHIDGETS_TAG :: "u8 list \<Rightarrow> nat \<Rightarrow> ephidget + u32 list" where
  "encodePHIDGETS_TAG s n =
     (if n < 7 \<or> length s > 24 then Inl EPHIDGET_INVALIDARG
      else let data = s @ replicate (24 - length s) 0;
               crc = fold (\<lambda>c crc. CRC_16_CCITT_update crc c) data 0;
               block0 = 0x00040201 OR (push_bit 2 (ucast crc) AND 0x0003FC00) OR (push_bit 1 (ucast crc) AND 0x000001FE) in
      Inr (fold (\<lambda>i blocks. let block = i div 4 + 1; shift = (184 - 8 * i) mod 32 + 1 in
        blocks[block := blocks ! block OR push_bit shift (scast (data ! i))]) [0..<24] (block0 # replicate 6 0x01010101)))"

subsection \<open>Programming a T5577\<close>

definition t5577_timing :: raw_timing where
  "t5577_timing = \<lparr>t_pregap = RFID_T5577_StartGap, t_space = RFID_T5577_WriteGap, t_postgap = RFID_T5577_EndGap,
     t_zero = RFID_T5577_Zero, t_one = RFID_T5577_One, t_prepulse = RFID_T5577_PrePulse, t_eof = RFID_T5577_EOF, t_listen = 0\<rparr>"

definition t5577_command :: "nat \<Rightarrow> nat \<Rightarrow> u32 \<Rightarrow> bool \<Rightarrow> u8 list" where
  "t5577_command page block data lockpage =
     [push_bit 6 (0x02 OR (of_nat page AND 0x01)) OR (if lockpage then push_bit 5 1 else 0) OR (ucast (drop_bit 27 data) AND 0x1F),
      ucast (drop_bit 19 data), ucast (drop_bit 11 data), ucast (drop_bit 3 data),
      (ucast (push_bit 5 data) AND 0xE0) OR push_bit 2 (of_nat block AND 0x07)]"

definition T5577_WriteBlock ::
    "bool \<Rightarrow> ('w \<Rightarrow> u8 list \<Rightarrow> 'w \<times> ephidget) \<Rightarrow> u8 list \<Rightarrow> rfid \<Rightarrow> nat \<Rightarrow> nat \<Rightarrow> u32 \<Rightarrow> bool \<Rightarrow> 'w \<Rightarrow> (ephidget \<times> rfid \<times> 'w) option" where
  "T5577_WriteBlock mem send stack d page block data lockpage w =
     CPhidgetRFID_writeRaw mem send stack d (t5577_command page block data lockpage) 38 t5577_timing w"

definition T5577_Reset ::
    "bool \<Rightarrow> ('w \<Rightarrow> u8 list \<Rightarrow> 'w \<times> ephidget) \<Rightarrow> u8 list \<Rightarrow> rfid \<Rightarrow> 'w \<Rightarrow> (ephidget \<times> rfid \<times> 'w) option" where
  "T5577_Reset mem send stack d w = CPhidgetRFID_writeRaw mem send stack d [0] 2 t5577_timing w"

definition encode_tag :: "rfid_protocol \<Rightarrow> u8 list \<Rightarrow> ephidget + u32 list \<times> u32" where
  "encode_tag p s = (case p of
     PHIDGET_RFID_PROTOCOL_EM4100 \<Rightarrow> map_sum id (\<lambda>bs. (bs, 0x00148040)) (encodeEM4100 s 7)
   | PHIDGET_RFID_PROTOCOL_ISO11785_FDX_B \<Rightarrow> map_sum id (\<lambda>bs. (bs, 0x603F8080)) (encodeISO11785_FDX_B s 7)
   | PHIDGET_RFID_PROTOCOL_PHIDGETS \<Rightarrow> map_sum id (\<lambda>bs. (bs, 0x603F80E0)) (encodePHIDGETS_TAG s 7)
   | _ \<Rightarrow> Inl EPHIDGET_INVALIDARG)"

text \<open>The loop over the blocks.\<close>

fun write_blocks ::
    "bool \<Rightarrow> ('w \<Rightarrow> u8 list \<Rightarrow> 'w \<times> ephidget) \<Rightarrow> u8 list \<Rightarrow> bool \<Rightarrow> nat \<Rightarrow> u32 list \<Rightarrow> rfid \<Rightarrow> 'w \<Rightarrow> (ephidget \<times> rfid \<times> 'w) option" where
  "write_blocks mem send stack lock i [] d w = Some (EPHIDGET_OK, d, w)"
| "write_blocks mem send stack lock i (b # bs) d w = do {
     (r, d, w) \<leftarrow> T5577_WriteBlock mem send stack d 0 (i + 1) b lock w;
     if r \<noteq> EPHIDGET_OK then Some (r, d, w) else write_blocks mem send stack lock (i + 1) bs d w }"

definition T5577_WriteTag ::
    "bool \<Rightarrow> ('w \<Rightarrow> u8 list \<Rightarrow> 'w \<times> ephidget) \<Rightarrow> u8 list \<Rightarrow> rfid \<Rightarrow> rfid_protocol \<Rightarrow> u8 list \<Rightarrow> bool \<Rightarrow> 'w \<Rightarrow> (ephidget \<times> rfid \<times> 'w) option" where
  "T5577_WriteTag mem send stack d p s lock w =
     (case encode_tag p s of
        Inl r \<Rightarrow> Some (r, d, w)
      | Inr (blocks, config) \<Rightarrow> do {
          (r, d, w) \<leftarrow> write_blocks mem send stack lock 0 blocks d w;
          if r \<noteq> EPHIDGET_OK then Some (r, d, w)
          else do {
            (r, d, w) \<leftarrow> T5577_WriteBlock mem send stack d 0 0 config lock w;
            if r \<noteq> EPHIDGET_OK then Some (r, d, w) else T5577_Reset mem send stack d w } })"

text \<open>\<^verbatim>\<open>waitForTag\<close>: \<open>seen k\<close> is the text of the pending tag at the k-th look.\<close>

function waitForTag :: "u8 list \<Rightarrow> int \<Rightarrow> (nat \<Rightarrow> u8 list) \<Rightarrow> nat \<Rightarrow> ephidget" where
  "waitForTag s timeout seen k =
     (if timeout > 0 then if take 25 (seen k) = take 25 s then EPHIDGET_OK else waitForTag s (timeout - 50) seen (k + 1)
      else EPHIDGET_TIMEOUT)"
  by pat_completeness auto
termination by (relation "measure (\<lambda>(s, timeout, seen, k). nat timeout)") auto

declare waitForTag.simps [simp del]

definition CPhidgetRFID_write ::
    "bool \<Rightarrow> ('w \<Rightarrow> u8 list \<Rightarrow> 'w \<times> ephidget) \<Rightarrow> u8 list \<Rightarrow> (nat \<Rightarrow> u8 list) \<Rightarrow> rfid \<Rightarrow> u8 list \<Rightarrow> rfid_protocol \<Rightarrow> int \<Rightarrow> 'w \<Rightarrow> (ephidget \<times> rfid \<times> 'w) option" where
  "CPhidgetRFID_write mem send stack seen d s p lock w =
     (if rfid_checks d \<noteq> EPHIDGET_OK then Some (rfid_checks d, d, w)
      else if deviceUID (rdev d) \<noteq> PHIDUID_RFID_2OUTPUT_READ_WRITE then Some (EPHIDGET_UNSUPPORTED, d, w)
      else if p = PHIDGET_RFID_PROTOCOL_UNSET \<or> lock < 0 \<or> lock > 1 then Some (EPHIDGET_INVALIDARG, d, w)
      else do {
        (r, d, w) \<leftarrow> T5577_WriteTag mem send stack d p s (lock \<noteq> 0) w;
        if r \<noteq> EPHIDGET_OK then Some (r, d, w) else Some (waitForTag s 500 seen 0, d, w) })"

subsection \<open>The interface\<close>

definition rfid_range_ok :: "int \<Rightarrow> bool" where
  "rfid_range_ok x \<longleftrightarrow> 0 \<le> x \<and> x \<le> 1"

definition rfid_index_ok :: "rfid \<Rightarrow> int \<Rightarrow> bool" where
  "rfid_index_ok d i \<longleftrightarrow> 0 \<le> i \<and> i < int (numOutputs d)"

definition CPhidgetRFID_getOutputCount :: "rfid \<Rightarrow> ephidget \<times> nat option" where
  "CPhidgetRFID_getOutputCount d = (if rfid_checks d \<noteq> EPHIDGET_OK then (rfid_checks d, None) else (EPHIDGET_OK, Some (numOutputs d)))"

definition CPhidgetRFID_getOutputState :: "rfid \<Rightarrow> int \<Rightarrow> ephidget \<times> u8 option" where
  "CPhidgetRFID_getOutputState d i =
     (if rfid_checks d \<noteq> EPHIDGET_OK then (rfid_checks d, None)
      else if \<not> rfid_index_ok d i then (EPHIDGET_OUTOFBOUNDS, None)
      else let v = outputEchoState d ! nat i in (if v = 2 then EPHIDGET_UNKNOWNVAL else EPHIDGET_OK, Some v))"

definition CPhidgetRFID_setOutputState ::
    "bool \<Rightarrow> ('w \<Rightarrow> u8 list \<Rightarrow> 'w \<times> ephidget) \<Rightarrow> rfid \<Rightarrow> int \<Rightarrow> int \<Rightarrow> 'w \<Rightarrow> (ephidget \<times> rfid \<times> rfid_event list \<times> 'w) option" where
  "CPhidgetRFID_setOutputState mem send d i newVal w =
     (if rfid_checks d \<noteq> EPHIDGET_OK then Some (rfid_checks d, d, [], w)
      else if \<not> rfid_range_ok newVal then Some (EPHIDGET_INVALIDARG, d, [], w)
      else if \<not> rfid_index_ok d i then Some (EPHIDGET_OUTOFBOUNDS, d, [], w)
      else do {
        (ret, d, w) \<leftarrow> rfid_SENDPACKET mem send (\<lambda>d. d\<lparr>outputState := (outputState d)[nat i := word_of_int newVal]\<rparr>) d w;
        if ret \<noteq> EPHIDGET_OK then Some (ret, d, [], w)
        else if \<not> fullStateEcho d \<and> (outputEchoState d ! nat i = 2 \<or> outputEchoState d ! nat i \<noteq> word_of_int newVal) then
          let d = d\<lparr>outputEchoState := (outputEchoState d)[nat i := word_of_int newVal]\<rparr> in
          Some (EPHIDGET_OK, d, rfid_fire d (OutputChange (nat i) (word_of_int newVal)), w)
        else Some (EPHIDGET_OK, d, [], w) })"

definition CPhidgetRFID_getAntennaOn :: "rfid \<Rightarrow> ephidget \<times> u8 option" where
  "CPhidgetRFID_getAntennaOn d =
     (if rfid_checks d \<noteq> EPHIDGET_OK then (rfid_checks d, None)
      else (if antennaEchoState d = 2 then EPHIDGET_UNKNOWNVAL else EPHIDGET_OK, Some (antennaEchoState d)))"

definition has_outputs :: "rfid \<Rightarrow> bool" where
  "has_outputs d \<longleftrightarrow> deviceUID (rdev d) \<in> {PHIDUID_RFID_2OUTPUT_NO_ECHO, PHIDUID_RFID_2OUTPUT, PHIDUID_RFID_2OUTPUT_READ_WRITE}"

definition CPhidgetRFID_setAntennaOn ::
    "bool \<Rightarrow> ('w \<Rightarrow> u8 list \<Rightarrow> 'w \<times> ephidget) \<Rightarrow> rfid \<Rightarrow> int \<Rightarrow> 'w \<Rightarrow> (ephidget \<times> rfid \<times> 'w) option" where
  "CPhidgetRFID_setAntennaOn mem send d newVal w =
     (if rfid_checks d \<noteq> EPHIDGET_OK then Some (rfid_checks d, d, w)
      else if \<not> has_outputs d then Some (EPHIDGET_UNSUPPORTED, d, w)
      else if \<not> rfid_range_ok newVal then Some (EPHIDGET_INVALIDARG, d, w)
      else do {
        (ret, d, w) \<leftarrow> rfid_SENDPACKET mem send (\<lambda>d. d\<lparr>antennaState := word_of_int newVal\<rparr>) d w;
        if ret \<noteq> EPHIDGET_OK then Some (ret, d, w)
        else Some (EPHIDGET_OK, if fullStateEcho d then d else d\<lparr>antennaEchoState := word_of_int newVal\<rparr>, w) })"

definition CPhidgetRFID_getLEDOn :: "rfid \<Rightarrow> ephidget \<times> u8 option" where
  "CPhidgetRFID_getLEDOn d =
     (if rfid_checks d \<noteq> EPHIDGET_OK then (rfid_checks d, None)
      else if \<not> has_outputs d then (EPHIDGET_UNSUPPORTED, None)
      else (if ledEchoState d = 2 then EPHIDGET_UNKNOWNVAL else EPHIDGET_OK, Some (ledEchoState d)))"

definition CPhidgetRFID_setLEDOn ::
    "bool \<Rightarrow> ('w \<Rightarrow> u8 list \<Rightarrow> 'w \<times> ephidget) \<Rightarrow> rfid \<Rightarrow> int \<Rightarrow> 'w \<Rightarrow> (ephidget \<times> rfid \<times> 'w) option" where
  "CPhidgetRFID_setLEDOn mem send d newVal w =
     (if rfid_checks d \<noteq> EPHIDGET_OK then Some (rfid_checks d, d, w)
      else if \<not> has_outputs d then Some (EPHIDGET_UNSUPPORTED, d, w)
      else if \<not> rfid_range_ok newVal then Some (EPHIDGET_INVALIDARG, d, w)
      else do {
        (ret, d, w) \<leftarrow> rfid_SENDPACKET mem send (\<lambda>d. d\<lparr>ledState := word_of_int newVal\<rparr>) d w;
        if ret \<noteq> EPHIDGET_OK then Some (ret, d, w)
        else Some (EPHIDGET_OK, if fullStateEcho d then d else d\<lparr>ledEchoState := word_of_int newVal\<rparr>, w) })"

definition CPhidgetRFID_getLastTag2 :: "rfid \<Rightarrow> ephidget \<times> (u8 list \<times> rfid_protocol) option" where
  "CPhidgetRFID_getLastTag2 d =
     (if rfid_checks d \<noteq> EPHIDGET_OK then (rfid_checks d, None)
      else if lastTagValid d = 1 then (EPHIDGET_OK, Some (tagString (lastTag d), protocol (lastTag d)))
      else (EPHIDGET_UNKNOWNVAL, None))"

definition CPhidgetRFID_getTagStatus :: "rfid \<Rightarrow> ephidget \<times> u8 option" where
  "CPhidgetRFID_getTagStatus d =
     (if rfid_checks d \<noteq> EPHIDGET_OK then (rfid_checks d, None)
      else (if tagPresent d = 2 then EPHIDGET_UNKNOWNVAL else EPHIDGET_OK, Some (tagPresent d)))"

definition CPhidgetRFID_getLastTag :: "rfid \<Rightarrow> ephidget \<times> u8 list" where
  "CPhidgetRFID_getLastTag d =
     (if rfid_checks d \<noteq> EPHIDGET_OK then (rfid_checks d, [])
      else if lastTagValid d = 0 then (EPHIDGET_UNKNOWNVAL, [])
      else if protocol (lastTag d) = PHIDGET_RFID_PROTOCOL_EM4100 then (EPHIDGET_OK, take 5 (tagData (lastTag d)))
      else (EPHIDGET_UNSUPPORTED, []))"

end
