(* ===== verification/Rfid_Decode.thy ===== *)
theory Rfid_Decode
  imports Rfid
begin

text \<open>
  The receiving side of the RFID readers (\<^verbatim>\<open>cphidgetrfid.c\<close>): the decoders of the three tag
  formats on a ring of bits, the two line codes, the analysis of the pulses, incoming packets, and the
  start of a device.
\<close>

subsection \<open>Rings\<close>

definition ring_at :: "'a list \<Rightarrow> rfid_ptr \<Rightarrow> nat \<Rightarrow> 'a" where
  "ring_at data p i = data ! unat (p + of_nat i)"

text \<open>\<^verbatim>\<open>bytesInQueue\<close>\<close>

definition in_queue :: "rfid_ptr \<Rightarrow> rfid_ptr \<Rightarrow> nat" where
  "in_queue p e = unat (e - p)"

text \<open>The search for a start pattern, from \<open>p\<close> on, with at least \<open>need\<close> bits left: \<open>None\<close> is the
  result \<^verbatim>\<open>EPHIDGET_NOTFOUND\<close>.  When \<open>p\<close> is the end, the loop is left at once.\<close>

lemma rfid_ptr_step: "p \<noteq> e \<Longrightarrow> unat (e - (p + 1)) < unat (e - p)" for p e :: rfid_ptr
  using measure_unat [of "e - p"] by (simp add: algebra_simps)

function find_start :: "(rfid_ptr \<Rightarrow> bool) \<Rightarrow> nat \<Rightarrow> rfid_ptr \<Rightarrow> rfid_ptr \<Rightarrow> rfid_ptr option" where
  "find_start pattern need p e =
     (if p = e then Some p
      else if in_queue p e < need then None
      else if pattern p then Some p
      else find_start pattern need (p + 1) e)"
  by pat_completeness auto
termination by (relation "measure (\<lambda>(pattern, need, p, e). unat (e - p))") (auto intro: rfid_ptr_step)

declare find_start.simps [simp del]

text \<open>A decoder: search, try to decode behind the \<open>adv\<close> bits of the pattern, and on failure go on one bit
  further.  \<open>c\<close> is what a try leaves in the variables of the function for the next one.  The outer \<open>None\<close>
  is not returning, the inner one \<^verbatim>\<open>EPHIDGET_NOTFOUND\<close>.\<close>

partial_function (option) decode_loop ::
    "(rfid_ptr \<Rightarrow> bool) \<Rightarrow> nat \<Rightarrow> nat \<Rightarrow> ('c \<Rightarrow> rfid_ptr \<Rightarrow> 'c \<times> 'b option) \<Rightarrow> 'c \<Rightarrow> rfid_ptr \<Rightarrow> rfid_ptr \<Rightarrow> 'b option option" where
  "decode_loop pattern need adv try c p e =
     (case find_start pattern need p e of
        None \<Rightarrow> Some None
      | Some q \<Rightarrow> (case try c (q + of_nat adv) of
            (c, Some r) \<Rightarrow> Some (Some r)
          | (c, None) \<Rightarrow> decode_loop pattern need adv try c (q + of_nat adv + 1) e))"

subsection \<open>The formats\<close>

text \<open>\<^verbatim>\<open>snprintf\<close> with \<^verbatim>\<open>%02x\<close> and with \<^verbatim>\<open>%0<n>d\<close> for a number that is not
  negative.\<close>

definition hex2 :: "u8 \<Rightarrow> u8 list" where
  "hex2 b = [hexchar (b div 16), hexchar (b mod 16)]"

fun decimal :: "nat \<Rightarrow> u8 list" where
  "decimal n = (if n < 10 then [48 + of_nat n] else decimal (n div 10) @ [48 + of_nat (n mod 10)])"

declare decimal.simps [simp del]

definition dec_pad :: "nat \<Rightarrow> nat \<Rightarrow> u8 list" where
  "dec_pad w n = replicate (w - length (decimal n)) 48 @ decimal n"

text \<open>EM4100: 9 ones, 10 rows of 4 bits with even parity, 4 column parities, a zero.\<close>

definition em4100_start :: "u8 list \<Rightarrow> rfid_ptr \<Rightarrow> bool" where
  "em4100_start data p = list_all (\<lambda>i. ring_at data p i = 1) [0..<9]"

definition em4100_parities :: "(nat \<Rightarrow> u8) \<Rightarrow> bool" where
  "em4100_parities em \<longleftrightarrow> em 63 = 0 \<and>
     list_all (\<lambda>i. fold (\<lambda>k x. x XOR em (9 + i * 5 + k)) [0..<4] 0 = em (9 + i * 5 + 4)) [0..<10] \<and>
     list_all (\<lambda>i. fold (\<lambda>k x. x XOR em (9 + i + k * 5)) [0..<10] 0 = em (9 + i + 10 * 5)) [0..<4]"

definition em4100_bytes :: "(nat \<Rightarrow> u8) \<Rightarrow> u8 list" where
  "em4100_bytes em = map (\<lambda>i.
     fold (\<lambda>k x. x OR push_bit (7 - k) (em (9 + 10 * i + k))) [0..<4] 0 OR
     fold (\<lambda>k x. x OR push_bit (3 - k) (em (9 + 10 * i + 5 + k))) [0..<4] 0) [0..<5]"

definition em4100_at :: "u8 list \<Rightarrow> unit \<Rightarrow> rfid_ptr \<Rightarrow> unit \<times> u8 list option" where
  "em4100_at data c p = (let em = ring_at data p in (c, if em4100_parities em then Some (em4100_bytes em) else None))"

definition em4100_tag :: "u8 list \<Rightarrow> rfid_tag \<Rightarrow> rfid_tag" where
  "em4100_tag bs tag = tag\<lparr>tagString := concat (map hex2 bs), protocol := PHIDGET_RFID_PROTOCOL_EM4100,
     tagData := bs @ drop 5 (tagData tag)\<rparr>"

definition decodeEM4100 :: "u8 list \<Rightarrow> rfid_ptr \<Rightarrow> rfid_ptr \<Rightarrow> rfid_tag \<Rightarrow> (rfid_tag \<times> rfid_ptr) option option" where
  "decodeEM4100 data startPtr endPtr tag = do {
     r \<leftarrow> decode_loop (em4100_start data) 64 0 (em4100_at data) () startPtr endPtr;
     Some (map_option (\<lambda>bs. (em4100_tag bs tag, startPtr + 64)) r) }"

text \<open>FDX-B: 10 zeros and a one, then 8 bytes, the CRC and a trailer, with a one behind each byte.\<close>

definition fdxb_start :: "u8 list \<Rightarrow> rfid_ptr \<Rightarrow> bool" where
  "fdxb_start data p \<longleftrightarrow> list_all (\<lambda>i. ring_at data p i = 0) [0..<10] \<and> ring_at data p 10 = 1"

text \<open>The control bit in front of every group of eight but the first.\<close>

definition skip_control :: "u8 list \<Rightarrow> rfid_ptr \<Rightarrow> nat \<Rightarrow> nat \<Rightarrow> nat option" where
  "skip_control data p i k = (if i > 0 \<and> i mod 8 = 0 then if ring_at data p k \<noteq> 1 then None else Some (k + 1) else Some k)"

definition fdxb_bytes :: "u8 list \<Rightarrow> rfid_ptr \<Rightarrow> (nat \<times> u8 list \<times> u8 list) option" where
  "fdxb_bytes data p = cfor [0..<64] (\<lambda>i (k, bs, rs). do {
     k \<leftarrow> skip_control data p i k;
     let b = ring_at data p k;
     Some (k + 1, bs[i div 8 := bs ! (i div 8) OR push_bit (7 - i mod 8) b],
       rs[7 - i div 8 := rs ! (7 - i div 8) OR push_bit (i mod 8) b]) }) (0, replicate 8 0, replicate 8 0)"

text \<open>The 16 bits of the CRC, from \<open>k\<close> on, into \<open>c\<close>; without a position where a control bit is not set.\<close>

fun checksum_bits :: "u8 list \<Rightarrow> rfid_ptr \<Rightarrow> nat list \<Rightarrow> nat \<Rightarrow> u16 \<Rightarrow> u16 \<times> nat option" where
  "checksum_bits data p [] k c = (c, Some k)"
| "checksum_bits data p (i # is) k c = (case skip_control data p i k of
     None \<Rightarrow> (c, None)
   | Some k \<Rightarrow> checksum_bits data p is (k + 1) (c OR push_bit (15 - i) (ucast (ring_at data p k))))"

definition fdxb_text :: "u8 list \<Rightarrow> u8 list" where
  "fdxb_text rs =
     (let country = (push_bit 2 (ucast (rs ! 2)) OR drop_bit 6 (ucast (rs ! 3))) AND 0x3ff :: u16;
          uid = (push_bit 32 (ucast (rs ! 3)) + push_bit 24 (ucast (rs ! 4)) + push_bit 16 (ucast (rs ! 5)) +
            push_bit 8 (ucast (rs ! 6)) + ucast (rs ! 7)) AND 0x3FFFFFFFFF :: 64 word in
      dec_pad 3 (unat country) @ dec_pad 12 (unat uid))"

definition fdxb_at :: "u8 list \<Rightarrow> unit \<Rightarrow> rfid_ptr \<Rightarrow> unit \<times> u8 list option" where
  "fdxb_at data u p = (u, do {
     (k, bs, rs) \<leftarrow> fdxb_bytes data p;
     if ring_at data p k \<noteq> 1 then None
     else (case checksum_bits data p [0..<16] (k + 1) 0 of
         (checksum, None) \<Rightarrow> None
       | (checksum, Some k) \<Rightarrow>
           if ring_at data p k \<noteq> 1 then None
           else if fold (\<lambda>b crc. CRC_16_CCITT_update crc b) bs 0 \<noteq> checksum then None
           else Some (fdxb_text rs)) })"

definition decodeISO11785_FDX_B :: "u8 list \<Rightarrow> rfid_ptr \<Rightarrow> rfid_ptr \<Rightarrow> rfid_tag \<Rightarrow> (rfid_tag \<times> rfid_ptr) option option" where
  "decodeISO11785_FDX_B data startPtr endPtr tag = do {
     r \<leftarrow> decode_loop (fdxb_start data) 128 11 (fdxb_at data) () startPtr endPtr;
     Some (map_option (\<lambda>s. (tag\<lparr>tagString := s, protocol := PHIDGET_RFID_PROTOCOL_ISO11785_FDX_B\<rparr>, startPtr + 128)) r) }"

text \<open>The format of Phidgets: 13 zeros and a one, the CRC, and 24 characters of 7 bits and a one.\<close>

definition phidgets_start :: "u8 list \<Rightarrow> rfid_ptr \<Rightarrow> bool" where
  "phidgets_start data p \<longleftrightarrow> list_all (\<lambda>i. ring_at data p i = 0) [0..<13] \<and> ring_at data p 13 = 1"

definition phidgets_chars :: "u8 list \<Rightarrow> rfid_ptr \<Rightarrow> nat \<Rightarrow> u8 list option" where
  "phidgets_chars data p k = cfor [0..<192] (\<lambda>i cs.
     if (i + 1) mod 8 = 0 then if ring_at data p (k + i) \<noteq> 1 then None else Some cs
     else Some (cs[i div 8 := cs ! (i div 8) OR push_bit (6 - i mod 8) (ring_at data p (k + i))])) (replicate 24 0)"

text \<open>\<^verbatim>\<open>crcRead\<close> is set to 0 before the label that every try starts from.\<close>

definition phidgets_at :: "u8 list \<Rightarrow> u16 \<Rightarrow> rfid_ptr \<Rightarrow> u16 \<times> u8 list option" where
  "phidgets_at data c p = (case checksum_bits data p [0..<16] 0 c of
       (crcRead, None) \<Rightarrow> (crcRead, None)
     | (crcRead, Some k) \<Rightarrow> (crcRead,
         if ring_at data p k \<noteq> 1 then None
         else do {
           cs \<leftarrow> phidgets_chars data p (k + 1);
           if fold (\<lambda>c crc. CRC_16_CCITT_update crc c) cs 0 \<noteq> crcRead then None else Some cs }))"

definition decodePHIDGETS_TAG :: "u8 list \<Rightarrow> rfid_ptr \<Rightarrow> rfid_ptr \<Rightarrow> rfid_tag \<Rightarrow> (rfid_tag \<times> rfid_ptr) option option" where
  "decodePHIDGETS_TAG data startPtr endPtr tag = do {
     r \<leftarrow> decode_loop (phidgets_start data) 224 14 (phidgets_at data) 0 startPtr endPtr;
     Some (map_option (\<lambda>cs. (tag\<lparr>tagString := takeWhile (\<lambda>c. c \<noteq> 0) cs, protocol := PHIDGET_RFID_PROTOCOL_PHIDGETS\<rparr>, startPtr + 224)) r) }"

subsection \<open>The line codes\<close>

definition clocks_of :: "int \<Rightarrow> int" where
  "clocks_of x = x AND 0xFF"

definition polarity_of :: "int \<Rightarrow> bool" where
  "polarity_of x \<longleftrightarrow> x AND 0x100 \<noteq> 0"

definition put_biphase_bit :: "u8 \<Rightarrow> rfid \<Rightarrow> rfid" where
  "put_biphase_bit b d =
     (let d = d\<lparr>biphaseBuffer := (biphaseBuffer d)[unat (biphaseWritePtr d) := b], biphaseWritePtr := biphaseWritePtr d + 1\<rparr> in
      if biphaseWritePtr d = biphaseReadPtr d then d\<lparr>biphaseReadPtr := biphaseReadPtr d + 1\<rparr> else d)"

function add_biphase_data :: "rfid_ptr \<Rightarrow> rfid_ptr \<Rightarrow> rfid \<Rightarrow> ephidget \<times> rfid" where
  "add_biphase_data p e d =
     (if p = e then (EPHIDGET_OK, d)
      else let clocks = clocks_of (rdataBuffer d ! unat p) in
        if clocks = longClocks d then
          add_biphase_data (p + 1) e ((put_biphase_bit 1 d)\<lparr>biphaseLockedIn := True, biphaseShortChange := False\<rparr>)
        else if clocks = shortClocks d then
          if biphaseLockedIn d \<and> biphaseShortChange d then
            add_biphase_data (p + 1) e ((put_biphase_bit 0 d)\<lparr>biphaseShortChange := False\<rparr>)
          else add_biphase_data (p + 1) e (d\<lparr>biphaseShortChange := True\<rparr>)
        else (EPHIDGET_NOTFOUND, d\<lparr>biphaseLockedIn := False, biphaseReadPtr := biphaseWritePtr d\<rparr>))"
  by pat_completeness auto
termination by (relation "measure (\<lambda>(p, e, d). unat (e - p))") (auto intro: rfid_ptr_step)

declare add_biphase_data.simps [simp del]

definition put_man_bit :: "bool \<Rightarrow> rfid \<Rightarrow> rfid" where
  "put_man_bit b d =
     (let d = d\<lparr>manBuffer := (manBuffer d)[unat (manWritePtr d) := (if b then 1 else 0)], manWritePtr := manWritePtr d + 1\<rparr> in
      if manWritePtr d = manReadPtr d then d\<lparr>manReadPtr := manReadPtr d + 1\<rparr> else d)"

definition manchester_step :: "int \<Rightarrow> rfid \<Rightarrow> rfid" where
  "manchester_step x d =
     (if clocks_of x = longClocks d then
        let d = (if manShortChange d then d\<lparr>manReadPtr := manWritePtr d\<rparr> else d) in
        (put_man_bit (polarity_of x) d)\<lparr>manLockedIn := True, manShortChange := False\<rparr>
      else if \<not> manLockedIn d then
        if polarity_of x then d\<lparr>manShortChange := True, manLockedIn := True\<rparr> else d
      else if manShortChange d then (put_man_bit (polarity_of x) d)\<lparr>manShortChange := False\<rparr>
      else d\<lparr>manShortChange := True\<rparr>)"

function add_manchester_data :: "rfid_ptr \<Rightarrow> rfid_ptr \<Rightarrow> rfid \<Rightarrow> rfid" where
  "add_manchester_data p e d =
     (if p = e then d else add_manchester_data (p + 1) e (manchester_step (rdataBuffer d ! unat p) d))"
  by pat_completeness auto
termination by (relation "measure (\<lambda>(p, e, d). unat (e - p))") (auto intro: rfid_ptr_step)

declare add_manchester_data.simps [simp del]

subsection \<open>Analysis\<close>

definition resetValuesFromSpace :: "rfid \<Rightarrow> rfid" where
  "resetValuesFromSpace d = d\<lparr>shortClocks := 0, longClocks := 0, manLockedIn := False, manReadPtr := 0, manWritePtr := 0,
     biphaseReadPtr := 0, biphaseWritePtr := 0, manShortChange := False, biphaseShortChange := False, biphaseLockedIn := False\<rparr>"

function skip_spaces :: "rfid \<Rightarrow> rfid" where
  "skip_spaces d =
     (if rdataReadPtr d \<noteq> rdataWritePtr d \<and> rdataBuffer d ! unat (rdataReadPtr d) = PUNK_INT
      then skip_spaces (resetValuesFromSpace (d\<lparr>rdataReadPtr := rdataReadPtr d + 1\<rparr>)) else d)"
  by pat_completeness auto
termination by (relation "measure (\<lambda>d. unat (rdataWritePtr d - rdataReadPtr d))")
  (auto simp: resetValuesFromSpace_def intro: rfid_ptr_step)

declare skip_spaces.simps [simp del]

text \<open>The loop that finds the two clock lengths: \<open>None\<close> is a length that does not fit; otherwise where it stopped,
  the lengths and how many entries it has read.\<close>

definition see_clocks :: "int \<Rightarrow> int \<times> int \<Rightarrow> (int \<times> int) option" where
  "see_clocks clocks sl = (case sl of (s, l) \<Rightarrow>
     if s = 0 then Some (clocks, l)
     else if clocks \<noteq> s then
       if l = 0 then if s * 2 = clocks \<or> s div 2 = clocks then Some (s, clocks) else None
       else if clocks \<noteq> l then None else Some (s, l)
     else Some (s, l))"

function scan_clocks :: "int list \<Rightarrow> rfid_ptr \<Rightarrow> rfid_ptr \<Rightarrow> int \<times> int \<Rightarrow> nat \<Rightarrow> (rfid_ptr \<times> (int \<times> int) \<times> nat) option" where
  "scan_clocks buf p w sl n =
     (if p = w \<or> buf ! unat p = PUNK_INT then Some (p, sl, n)
      else case see_clocks (clocks_of (buf ! unat p)) sl of
        None \<Rightarrow> None | Some sl \<Rightarrow> scan_clocks buf (p + 1) w sl (n + 1))"
  by pat_completeness auto
termination by (relation "measure (\<lambda>(buf, p, w, sl, n). unat (w - p))") (auto intro: rfid_ptr_step)

declare scan_clocks.simps [simp del]

text \<open>The decoders on the new data; the tags that \<^verbatim>\<open>tagEvent\<close> is called with, in order.  That function
  changes other fields of the record than the analysis.\<close>

definition run_decoder ::
    "(rfid_tag \<times> rfid_ptr) option option \<Rightarrow> (rfid_ptr \<Rightarrow> rfid \<Rightarrow> rfid) \<Rightarrow> rfid \<times> rfid_tag \<times> rfid_tag list \<Rightarrow> (rfid \<times> rfid_tag \<times> rfid_tag list) option" where
  "run_decoder r upd s = do {
     r \<leftarrow> r;
     Some (case r of None \<Rightarrow> s | Some (tag, p) \<Rightarrow> (case s of (d, _, tags) \<Rightarrow> (upd p d, tag, tags @ [tag]))) }"

definition decode_new :: "rfid_ptr \<Rightarrow> rfid \<Rightarrow> (rfid \<times> rfid_tag list) option" where
  "decode_new e d = do {
     let d = add_manchester_data (rdataReadPtr d) e d;
     (d, tag, tags) \<leftarrow> run_decoder (decodeEM4100 (manBuffer d) (manReadPtr d) (manWritePtr d) rfid_no_tag)
       (\<lambda>p d. d\<lparr>manReadPtr := p\<rparr>) (d, rfid_no_tag, []);
     (case add_biphase_data (rdataReadPtr d) e d of (r, d) \<Rightarrow>
        if r \<noteq> EPHIDGET_OK then Some (d, tags)
        else do {
          (d, tag, tags) \<leftarrow> run_decoder (decodePHIDGETS_TAG (biphaseBuffer d) (biphaseReadPtr d) (biphaseWritePtr d) tag)
            (\<lambda>p d. d\<lparr>biphaseReadPtr := p\<rparr>) (d, tag, tags);
          (d, tag, tags) \<leftarrow> run_decoder (decodeISO11785_FDX_B (biphaseBuffer d) (biphaseReadPtr d) (biphaseWritePtr d) tag)
            (\<lambda>p d. d\<lparr>biphaseReadPtr := p\<rparr>) (d, tag, tags);
          Some (d, tags) }) }"

partial_function (option) rfid_analyze_data :: "rfid \<Rightarrow> (rfid \<times> rfid_tag list) option" where
  "rfid_analyze_data d0 =
     (let d = skip_spaces d0 in
      case scan_clocks (rdataBuffer d) (rdataReadPtr d) (rdataWritePtr d) (shortClocks d, longClocks d) 0 of
        None \<Rightarrow> rfid_analyze_data (resetValuesFromSpace (d\<lparr>rdataReadPtr := rdataReadPtr d + 1\<rparr>))
      | Some (p, (s, l), n) \<Rightarrow>
          if (s = 0 \<or> l = 0) \<and> n = in_queue (rdataReadPtr d) (rdataWritePtr d)
          then Some (d\<lparr>shortClocks := s, longClocks := l\<rparr>, [])
          else do {
            (d, tags) \<leftarrow> (if s = 0 \<or> l = 0 then Some (d\<lparr>shortClocks := s, longClocks := l\<rparr>, [])
              else decode_new p (d\<lparr>shortClocks := min s l, longClocks := max s l\<rparr>));
            let d = d\<lparr>rdataReadPtr := p\<rparr>;
            if rdataReadPtr d \<noteq> rdataWritePtr d then do {
              (d, tags') \<leftarrow> rfid_analyze_data d;
              Some (d, tags @ tags') }
            else Some (d, tags) })"

end
