(* ===== verification/Rfid_Stream.thy ===== *)
theory Rfid_Stream
  imports Rfid_Decode
begin

text \<open>
  Tags repeat their bits for as long as they are in the field.  A ring of bits that holds such a stream, from
  any place in the tag on; and the contract of a tag format under which the search of the decoders
  (\<^verbatim>\<open>cphidgetrfid.c\<close>) finds the tag in it.
\<close>

definition bit8 :: "bool \<Rightarrow> u8" where
  "bit8 b = (if b then 1 else 0)"

lemma bit8_simps [simp]: "bit8 b = 1 \<longleftrightarrow> b" "bit8 b = 0 \<longleftrightarrow> \<not> b" "bit8 b = bit8 c \<longleftrightarrow> b = c"
  by (simp_all add: bit8_def)

text \<open>\<open>n\<close> bits from \<open>p\<close> on are those of the tag \<open>bs\<close>, over and over, from its bit \<open>k\<close> on.\<close>

definition repeats :: "bool list \<Rightarrow> u8 list \<Rightarrow> rfid_ptr \<Rightarrow> nat \<Rightarrow> nat \<Rightarrow> bool" where
  "repeats bs data p k n \<longleftrightarrow> (\<forall>j < n. ring_at data p j = bit8 (bs ! ((k + j) mod length bs)))"

lemma ring_at_add: "ring_at data (p + of_nat i) j = ring_at data p (i + j)"
  by (simp add: ring_at_def add.assoc)

lemma ring_at_step: "ring_at data (p + 1) j = ring_at data p (Suc j)"
  using ring_at_add [of data p 1 j] by simp

lemma repeats_at: "repeats bs data p k n \<Longrightarrow> j < n \<Longrightarrow> ring_at data p j = bit8 (bs ! ((k + j) mod length bs))"
  by (simp add: repeats_def)

lemma repeats_step: "repeats bs data p k (Suc n) \<Longrightarrow> repeats bs data (p + 1) (Suc k) n"
  by (auto simp: repeats_def ring_at_step)

lemma repeats_less: "repeats bs data p k n \<Longrightarrow> m \<le> n \<Longrightarrow> repeats bs data p k m"
  by (simp add: repeats_def)

lemma repeats_wrap: "repeats bs data p (length bs) n = repeats bs data p 0 n"
  by (simp add: repeats_def)

lemma repeats_mod: "repeats bs data p (k mod length bs) n = repeats bs data p k n"
  by (simp add: repeats_def mod_add_left_eq)

lemma repeats_whole: "repeats bs data p 0 n \<Longrightarrow> length bs \<le> n \<Longrightarrow> j < length bs \<Longrightarrow> ring_at data p j = bit8 (bs ! j)"
  by (simp add: repeats_def)

text \<open>A whole ring of a tag.\<close>

definition tag_ring :: "bool list \<Rightarrow> u8 list" where
  "tag_ring bs = map (\<lambda>i. bit8 (bs ! (i mod length bs))) [0..<1024]"

lemma repeats_tag_ring:
  assumes "unat p + n \<le> 1024"
  shows "repeats bs (tag_ring bs) p (unat p) n"
  unfolding repeats_def
proof (intro allI impI)
  fix j assume "j < n"
  then have "unat (p + of_nat j) = unat p + j" "unat p + j < 1024" using assms
    by (simp_all add: unat_word_ariths unat_of_nat)
  then show "ring_at (tag_ring bs) p j = bit8 (bs ! ((unat p + j) mod length bs))"
    by (simp add: ring_at_def tag_ring_def del: upt_rec_numeral)
qed

text \<open>The bits of the blocks in the memory of a tag, in the order in which it sends them.\<close>

definition block_bits :: "u32 list \<Rightarrow> bool list" where
  "block_bits bs = concat (map (\<lambda>b. map (\<lambda>i. bit b (31 - i)) [0..<32]) bs)"

lemma block_bits_length: "length (block_bits bs) = 32 * length bs"
  by (induction bs) (simp_all add: block_bits_def)

lemma block_bits_nth: "i < 32 * length bs \<Longrightarrow> block_bits bs ! i \<longleftrightarrow> bit (bs ! (i div 32)) (31 - i mod 32)"
proof (induction bs arbitrary: i)
  case (Cons b bs)
  have c: "block_bits (b # bs) = map (\<lambda>i. bit b (31 - i)) [0..<32] @ block_bits bs" by (simp add: block_bits_def)
  show ?case
  proof (cases "i < 32")
    case False
    then have "i div 32 = Suc ((i - 32) div 32)" "i mod 32 = (i - 32) mod 32" by (simp_all add: le_div_geq le_mod_geq)
    then show ?thesis using False Cons by (simp add: c nth_append)
  qed (simp add: c nth_append)
qed simp

lemma block_bits64: "block_bits (blocks64 x) = map (\<lambda>i. bit x (63 - i)) [0..<64]"
proof (rule nth_equalityI)
  show "length (block_bits (blocks64 x)) = length (map (\<lambda>i. bit x (63 - i)) [0..<64])"
    by (simp add: block_bits_length blocks64_def)
  fix i assume "i < length (block_bits (blocks64 x))"
  then have i: "i < 64" by (simp add: block_bits_length blocks64_def)
  show "block_bits (blocks64 x) ! i = map (\<lambda>i. bit x (63 - i)) [0..<64] ! i"
  proof (cases "i < 32")
    case True
    then show ?thesis using i by (auto simp: block_bits_nth blocks64_def bit_ucast_iff bit_drop_bit_eq)
  next
    case False
    then have "i div 32 = 1" "i mod 32 = i - 32" using i by (simp_all add: le_div_geq le_mod_geq)
    then show ?thesis using False i by (auto simp: block_bits_nth blocks64_def bit_ucast_iff)
  qed
qed

text \<open>One step of the search.\<close>

lemma in_queue_step:
  assumes "0 < in_queue p e"
  shows "p \<noteq> e" and "in_queue (p + 1) e = in_queue p e - 1"
proof -
  show n: "p \<noteq> e" using assms by (auto simp: in_queue_def)
  have "e - (p + 1) = (e - p) - 1" by simp
  then show "in_queue (p + 1) e = in_queue p e - 1" unfolding in_queue_def using n unat_minus_one [of "e - p"] by (simp only: right_minus_eq not_False_eq_True)
qed

lemma in_queue_add: "m \<le> in_queue p e \<Longrightarrow> in_queue (p + of_nat m) e = in_queue p e - m"
proof (induction m)
  case (Suc m)
  then have "in_queue ((p + of_nat m) + 1) e = in_queue p e - m - 1" using in_queue_step(2) [of "p + of_nat m" e] by simp
  then show ?case by (simp add: algebra_simps)
qed simp

lemma repeats_add: "repeats bs data p k (m + n) \<Longrightarrow> repeats bs data (p + of_nat m) (k + m) n"
  by (auto simp: repeats_def ring_at_add add.assoc)

lemma decode_loop_found:
  assumes "0 < need" and "need \<le> in_queue p e" and "pattern p" and "try c (p + of_nat adv) = (c', Some r)"
  shows "decode_loop pattern need adv try c p e = Some (Some r)"
  using assms in_queue_step(1) [of p e]
  by (subst decode_loop.simps) (simp add: find_start.simps [of pattern need p e])

lemma decode_loop_skip:
  assumes "0 < need" and "need \<le> in_queue p e" and "pattern p \<Longrightarrow> adv = 0 \<and> try c p = (c, None)"
  shows "decode_loop pattern need adv try c p e = decode_loop pattern need adv try c (p + 1) e"
proof (cases "pattern p")
  case True
  then show ?thesis using assms in_queue_step(1) [of p e]
    by (subst decode_loop.simps) (simp add: find_start.simps [of pattern need p e])
next
  case False
  then have "find_start pattern need p e = find_start pattern need (p + 1) e" using assms in_queue_step(1) [of p e]
    by (simp add: find_start.simps [of pattern need p e])
  then show ?thesis by (subst (1 2) decode_loop.simps) simp
qed

text \<open>The contract of a format: the header is at the start of a tag, what is behind it decodes, and a header that
  appears elsewhere in the stream is one that the decoder leaves by a single bit.\<close>

locale tag_format =
  fixes start :: "u8 list \<Rightarrow> rfid_ptr \<Rightarrow> bool"
    and need :: nat
    and adv :: nat
    and decode :: "u8 list \<Rightarrow> 'c \<Rightarrow> rfid_ptr \<Rightarrow> 'c \<times> 'r option"
    and c :: 'c
    and bits :: "'t \<Rightarrow> bool list"
    and valid :: "'t \<Rightarrow> bool"
    and content :: "'t \<Rightarrow> 'r"
  assumes size: "valid t \<Longrightarrow> length (bits t) = need" "0 < need"
    and header: "valid t \<Longrightarrow> repeats (bits t) data p 0 need \<Longrightarrow> start data p"
    and body: "valid t \<Longrightarrow> repeats (bits t) data p 0 need \<Longrightarrow> snd (decode data c (p + of_nat adv)) = Some (content t)"
    and elsewhere: "valid t \<Longrightarrow> 0 < k \<Longrightarrow> k < need \<Longrightarrow> repeats (bits t) data p k need \<Longrightarrow> start data p \<Longrightarrow>
      adv = 0 \<and> decode data c p = (c, None)"
begin

lemma finds_after:
  assumes "valid t" and "d < need" and "need + d \<le> in_queue p e" and "repeats (bits t) data p (need - d) (need + d)"
  shows "decode_loop (start data) need adv (decode data) c p e = Some (Some (content t))"
  using assms(2-)
proof (induction d arbitrary: p)
  case 0
  have r: "repeats (bits t) data p 0 need" using 0 size(1) [OF assms(1)] repeats_wrap [of "bits t" data p need] by simp
  show ?case using 0 size(2) header [OF assms(1) r] body [OF assms(1) r]
    by (intro decode_loop_found [where c' = "fst (decode data c (p + of_nat adv))"]) (auto intro: prod_eqI)
next
  case (Suc d)
  have k: "0 < need - Suc d" "need - Suc d < need" "Suc (need - Suc d) = need - d" using Suc.prems by auto
  have r: "repeats (bits t) data p (need - Suc d) need" using Suc.prems by (auto elim: repeats_less)
  have n: "need \<le> in_queue p e" using Suc.prems by simp
  have "decode_loop (start data) need adv (decode data) c p e = decode_loop (start data) need adv (decode data) c (p + 1) e"
    using size(2) n elsewhere [OF assms(1) k(1,2) r] by (rule decode_loop_skip)
  also have "\<dots> = Some (Some (content t))"
  proof (rule Suc.IH)
    show "need + d \<le> in_queue (p + 1) e" using Suc.prems size(2) by (simp add: in_queue_step(2))
    have "need + Suc d = Suc (need + d)" by simp
    then show "repeats (bits t) data (p + 1) (need - d) (need + d)"
      using Suc.prems repeats_step k(3) by metis
  qed (use Suc.prems in simp)
  finally show ?case .
qed

text \<open>Wherever in the tag the stream begins, one bit less than two tags are enough.\<close>

lemma finds_anywhere:
  assumes "valid t" and "2 * need - 1 \<le> in_queue p e" and "repeats (bits t) data p k (2 * need - 1)"
  shows "decode_loop (start data) need adv (decode data) c p e = Some (Some (content t))"
proof -
  define d where "d = (need - k mod need) mod need"
  have d: "d < need" using size(2) by (simp add: d_def)
  have "(need - d) mod need = k mod need"
    using size(2) by (cases "k mod need = 0") (auto simp: d_def)
  then have "repeats (bits t) data p (need - d) (2 * need - 1)"
    using assms(3) size(1) [OF assms(1)] repeats_mod by metis
  then have "repeats (bits t) data p (need - d) (need + d)" using d by (auto elim: repeats_less)
  then show ?thesis using assms d by (intro finds_after) auto
qed

end

end
