(* ===== verification/Rfid_Em.thy ===== *)
theory Rfid_Em
  imports Rfid_Stream
begin

text \<open>
  EM4100 tags (\<^verbatim>\<open>cphidgetrfid.c\<close>): the bits that the encoder produces, and that the decoder reads them
  back wherever it starts in the stream of a tag that repeats them.
\<close>

subsection \<open>Parity\<close>

fun parity :: "bool list \<Rightarrow> bool" where
  "parity [] = False"
| "parity (b # bs) = (b \<noteq> parity bs)"

lemma parity_append: "parity (xs @ ys) = (parity xs \<noteq> parity ys)"
  by (induction xs) auto

lemma parity_rev: "parity (rev xs) = parity xs"
  by (induction xs) (auto simp: parity_append)

lemma fold_xor_bits: "fold (\<lambda>k x. x XOR bit8 (f k)) ks x = x XOR bit8 (parity (map f ks))"
  by (induction ks arbitrary: x) (auto simp: bit8_def xor.assoc)

subsection \<open>The encoder\<close>

lemma em_data_bit:
  assumes "k < 64"
  shows "bit (em4100_data t) k \<longleftrightarrow> 55 \<le> k \<or> 6 \<le> k \<and> k < 55 \<and> k mod 5 \<noteq> 0 \<and> bit t (k - 6 - (k - 6) div 5)"
proof -
  have "\<forall>k \<in> set [0..<64]. bit (em4100_data t) k \<longleftrightarrow> 55 \<le> k \<or> 6 \<le> k \<and> k < 55 \<and> k mod 5 \<noteq> 0 \<and> bit t (k - 6 - (k - 6) div 5)"
    unfolding em4100_data_def
    by (simp add: upt_conv_Cons bit_or_iff bit_and_iff bit_push_bit_iff)
  then show ?thesis using assms by simp
qed


definition parity_step :: "64 word \<times> 64 word \<times> nat \<times> nat \<Rightarrow> 64 word \<times> 64 word \<times> nat \<times> nat" where
  "parity_step = (\<lambda>(e, t, row, col).
     let (row, col) = (if col > 4 then (row + 1, 1) else (row, col));
         e = e XOR push_bit col (t AND 1);
         e = e XOR push_bit (row * 5) (t AND 1) in
     (e, drop_bit 1 t, row, col + 1))"

lemma parity_step_eq:
  assumes "(if col > 4 then (row + 1, 1) else (row, col)) = (row', col')"
  shows "parity_step (e, t, row, col) = ((e XOR push_bit col' (t AND 1)) XOR push_bit (row' * 5) (t AND 1), drop_bit 1 t, row', col' + 1)"
  unfolding parity_step_def prod.case assms Let_def by (rule refl)

text \<open>The parity bits at a place among the first \<open>m\<close> data bits.\<close>

definition parity_at :: "64 word \<Rightarrow> nat \<Rightarrow> nat \<Rightarrow> bool" where
  "parity_at t m k = parity (map (\<lambda>i. bit t i \<and> (i mod 4 + 1 = k \<or> (i div 4 + 1) * 5 = k)) [0..<m])"

lemma parity_loop:
  assumes "m \<le> 40"
  shows "\<exists>e'. fold (\<lambda>i. parity_step) [0..<m] (e, t, 1, 1) =
      (e', drop_bit m t, if m = 0 then 1 else (m - 1) div 4 + 1, if m = 0 then 1 else (m - 1) mod 4 + 2) \<and>
    (\<forall>k < 64. bit e' k \<longleftrightarrow> bit e k \<noteq> parity_at t m k)"
  using assms
proof (induction m)
  case 0
  then show ?case by (simp add: parity_at_def)
next
  case (Suc m)
  let ?row = "m div 4 + 1" and ?col = "m mod 4 + 1"
  obtain e' where e: "fold (\<lambda>i. parity_step) [0..<m] (e, t, 1, 1) =
      (e', drop_bit m t, if m = 0 then 1 else (m - 1) div 4 + 1, if m = 0 then 1 else (m - 1) mod 4 + 2)"
    and b: "\<forall>k < 64. bit e' k \<longleftrightarrow> bit e k \<noteq> parity_at t m k" using Suc by auto
  let ?R = "if m = 0 then 1 else (m - 1) div 4 + 1" and ?C = "if m = 0 then 1 else (m - 1) mod 4 + 2"
  have rc: "(if ?C > 4 then (?R + 1, 1) else (?R, ?C)) = (?row, ?col)"
  proof (cases m)
    case (Suc m')
    then show ?thesis by (cases "m' mod 4 = 3") (auto simp: mod_Suc div_Suc)
  qed simp
  define e2 where "e2 = (e' XOR push_bit ?col (drop_bit m t AND 1)) XOR push_bit (?row * 5) (drop_bit m t AND 1)"
  have "parity_step (e', drop_bit m t, ?R, ?C) = (e2, drop_bit (Suc m) t, ?row, ?col + 1)"
    unfolding parity_step_eq [OF rc] e2_def by (simp only: drop_bit_drop_bit) simp
  then have "fold (\<lambda>i. parity_step) [0..<Suc m] (e, t, 1, 1) = (e2, drop_bit (Suc m) t, ?row, ?col + 1)"
    by (simp only: upt_Suc_append [OF le0] fold_append comp_apply e fold.simps id_apply)
  moreover have "bit e2 k \<longleftrightarrow> bit e k \<noteq> parity_at t (Suc m) k" if "k < 64" for k
  proof -
    have one: "drop_bit m t AND 1 = (if bit t m then 1 else 0)"
      by (simp add: and_one_eq bit_iff_odd_drop_bit mod2_eq_if)
    have s: "bit (push_bit j (drop_bit m t AND 1)) k \<longleftrightarrow> j = k \<and> bit t m" for j
      unfolding one using that by (cases "bit t m") (auto simp: push_bit_of_1 bit_exp_iff)
    have "?col < 5" by simp
    also have "\<dots> \<le> ?row * 5" by simp
    finally have ne: "?col \<noteq> ?row * 5" by (rule less_imp_neq)
    have "bit e2 k \<longleftrightarrow> (bit e' k \<noteq> (?col = k \<and> bit t m)) \<noteq> (?row * 5 = k \<and> bit t m)"
      unfolding e2_def bit_xor_iff s by simp
    also have "\<dots> \<longleftrightarrow> bit e' k \<noteq> (bit t m \<and> (?col = k \<or> ?row * 5 = k))" using ne by auto
    finally show ?thesis using b that by (auto simp: parity_at_def parity_append)
  qed
  ultimately show ?case by (intro exI [of _ e2]) simp
qed

definition em_word :: "64 word \<Rightarrow> 64 word" where
  "em_word t = em4100_parity t (em4100_data t)"

lemma em_word_bit: "k < 64 \<Longrightarrow> bit (em_word t) k \<longleftrightarrow> bit (em4100_data t) k \<noteq> parity_at t 40 k"
proof -
  have "em4100_parity t e = fst (fold (\<lambda>i. parity_step) [0..<40] (e, t, 1, 1))" for e
    by (simp only: em4100_parity_def parity_step_def)
  then show "k < 64 \<Longrightarrow> ?thesis" using parity_loop [of 40 "em4100_data t" t] by (auto simp: em_word_def)
qed

text \<open>The bits in the order of transmission, highest first.\<close>

definition em_bits :: "64 word \<Rightarrow> bool list" where
  "em_bits t = map (\<lambda>i. bit (em_word t) (63 - i)) [0..<64]"

lemma em_bits_length: "length (em_bits t) = 64"
  by (simp add: em_bits_def)

lemma em_bits_nth: "i < 64 \<Longrightarrow> em_bits t ! i \<longleftrightarrow> bit (em_word t) (63 - i)"
  by (simp add: em_bits_def)

text \<open>Header, data and stop bit have no parity bits in them.\<close>

lemma parity_at_none:
  assumes "k = 0 \<or> 50 < k"
  shows "\<not> parity_at t 40 k"
proof -
  have "\<not> parity (map (\<lambda>i. bit t i \<and> (i mod 4 + 1 = k \<or> (i div 4 + 1) * 5 = k)) xs)" if "set xs \<subseteq> {..<40}" for xs
    using that
  proof (induction xs)
    case (Cons i xs)
    have "i < 40" using Cons.prems by simp
    then have "i div 4 \<le> 9" by simp
    moreover have "i mod 4 < 4" by simp
    ultimately have "i mod 4 + 1 \<noteq> k" "(i div 4 + 1) * 5 \<noteq> k"
      using assms by (cases "k = 0"; simp)+
    then show ?case using Cons by simp
  qed simp
  then show ?thesis unfolding parity_at_def by (simp only: set_upt atLeast0LessThan order_refl simp_thms)
qed

lemma em_header: "i < 9 \<Longrightarrow> em_bits t ! i"
  by (simp add: em_bits_nth em_word_bit em_data_bit parity_at_none)

lemma em_stop: "\<not> em_bits t ! 63"
  by (simp add: em_bits_nth em_word_bit em_data_bit parity_at_none)

lemma em_data:
  assumes "i < 10" and "k < 4"
  shows "em_bits t ! (9 + i * 5 + k) \<longleftrightarrow> bit t (39 - i * 4 - k)"
proof -
  have "\<forall>i \<in> set [0..<10]. \<forall>k \<in> set [0..<4]. em_bits t ! (9 + i * 5 + k) \<longleftrightarrow> bit t (39 - i * 4 - k)"
    by (simp add: em_bits_nth em_word_bit em_data_bit upt_conv_Cons parity_at_def)
  then show ?thesis using assms by simp
qed

lemma upt_lists: "[0..<4] = [0,1,2,3::nat]" "[0..<10] = [0,1,2,3,4,5,6,7,8,9::nat]" "[0..<40] = [0,1,2,3,4,5,6,7,8,9,10,11,12,13,14,15,16,17,18,19,20,21,22,23,24,25,26,27,28,29,30,31,32,33,34,35,36,37,38,39]"
  by code_simp+

lemma em_row_parity:
  assumes "i < 10"
  shows "em_bits t ! (9 + i * 5 + 4) \<longleftrightarrow> parity (map (\<lambda>k. em_bits t ! (9 + i * 5 + k)) [0..<4])"
proof -
  have "\<forall>i \<in> set [0..<10]. em_bits t ! (9 + i * 5 + 4) \<longleftrightarrow> parity (map (\<lambda>k. em_bits t ! (9 + i * 5 + k)) (rev [0..<4]))"
    by (simp add: em_bits_nth em_word_bit em_data_bit upt_lists parity_at_def del: upt.simps)
  then show ?thesis using assms parity_rev [of "map (\<lambda>k. em_bits t ! (9 + i * 5 + k)) [0..<4]"] by (simp add: rev_map)
qed

lemma em_column_parity:
  assumes "i < 4"
  shows "em_bits t ! (9 + i + 10 * 5) \<longleftrightarrow> parity (map (\<lambda>k. em_bits t ! (9 + i + k * 5)) [0..<10])"
proof -
  have "\<forall>i \<in> set [0..<4]. em_bits t ! (9 + i + 10 * 5) \<longleftrightarrow> parity (map (\<lambda>k. em_bits t ! (9 + i + k * 5)) (rev [0..<10]))"
    by (simp add: em_bits_nth em_word_bit em_data_bit upt_lists parity_at_def del: upt.simps)
  then show ?thesis using assms parity_rev [of "map (\<lambda>k. em_bits t ! (9 + i + k * 5)) [0..<10]"] by (simp add: rev_map)
qed

subsection \<open>The decoder\<close>

lemma em_parities_ok:
  assumes "\<And>j. j < 64 \<Longrightarrow> em j = bit8 (em_bits t ! j)"
  shows "em4100_parities em"
proof -
  have "fold (\<lambda>k x. x XOR em (9 + i * 5 + k)) [0..<4] 0 = em (9 + i * 5 + 4)" if "i < 10" for i
  proof -
    have "fold (\<lambda>k x. x XOR em (9 + i * 5 + k)) [0..<4] 0 = fold (\<lambda>k x. x XOR bit8 (em_bits t ! (9 + i * 5 + k))) [0..<4] 0"
      using that by (intro fold_cong refl ext) (simp add: assms)
    also have "\<dots> = bit8 (em_bits t ! (9 + i * 5 + 4))" unfolding fold_xor_bits em_row_parity [OF that] by simp
    finally show ?thesis using that by (simp add: assms)
  qed
  moreover have "fold (\<lambda>k x. x XOR em (9 + i + k * 5)) [0..<10] 0 = em (9 + i + 10 * 5)" if "i < 4" for i
  proof -
    have "fold (\<lambda>k x. x XOR em (9 + i + k * 5)) [0..<10] 0 = fold (\<lambda>k x. x XOR bit8 (em_bits t ! (9 + i + k * 5))) [0..<10] 0"
      using that by (intro fold_cong refl ext) (simp add: assms)
    also have "\<dots> = bit8 (em_bits t ! (9 + i + 10 * 5))" unfolding fold_xor_bits em_column_parity [OF that] by simp
    finally show ?thesis using that by (simp add: assms)
  qed
  ultimately show ?thesis using em_stop [of t] assms [of 63] by (simp add: em4100_parities_def list_all_iff del: upt.simps upt_rec_numeral)
qed

text \<open>The five bytes of a 40-bit number.\<close>

definition em_bytes :: "64 word \<Rightarrow> u8 list" where
  "em_bytes t = map (\<lambda>i. ucast (drop_bit (32 - 8 * i) t)) [0..<5]"

lemma em_bytes_length: "length (em_bytes t) = 5"
  by (simp add: em_bytes_def)

lemma bit_bit8 [simp]: "bit (bit8 b) n \<longleftrightarrow> b \<and> n = 0"
  by (simp add: bit8_def bit_1_iff)

lemma fold_or_bits:
  "n < 8 \<Longrightarrow> bit (fold (\<lambda>k x. x OR push_bit (h k) (bit8 (g k))) ks a) n \<longleftrightarrow> bit a n \<or> (\<exists>k \<in> set ks. h k = n \<and> g k)"
  by (induction ks arbitrary: a) (auto simp: bit_or_iff bit_push_bit_iff)

lemma nibbles_byte:
  fixes t :: "64 word"
  assumes "\<And>k. k < 4 \<Longrightarrow> f k = bit8 (bit t (7 - k))" and "\<And>k. k < 4 \<Longrightarrow> g k = bit8 (bit t (3 - k))"
  shows "fold (\<lambda>k x. x OR push_bit (7 - k) (f k)) [0..<4] 0 OR fold (\<lambda>k x. x OR push_bit (3 - k) (g k)) [0..<4] 0 =
    (ucast t :: u8)"
proof -
  have f: "fold (\<lambda>k x. x OR push_bit (7 - k) (f k)) [0..<4] 0 = fold (\<lambda>k x. x OR push_bit (7 - k) (bit8 (bit t (7 - k)))) [0..<4] 0"
    by (intro fold_cong refl ext) (simp add: assms)
  have g: "fold (\<lambda>k x. x OR push_bit (3 - k) (g k)) [0..<4] 0 = fold (\<lambda>k x. x OR push_bit (3 - k) (bit8 (bit t (3 - k)))) [0..<4] 0"
    by (intro fold_cong refl ext) (simp add: assms)
  show ?thesis unfolding f g
  proof (rule bit_word_eqI)
    fix n assume "n < LENGTH(8)"
    then have n: "n < 8" by simp
    have "(\<exists>k \<in> set [0..<4]. 7 - k = n \<and> bit t (7 - k)) \<longleftrightarrow> 4 \<le> n \<and> bit t n"
      using n by (auto simp del: upt_rec_numeral intro!: bexI [of _ "7 - n"])
    moreover have "(\<exists>k \<in> set [0..<4]. 3 - k = n \<and> bit t (3 - k)) \<longleftrightarrow> n < 4 \<and> bit t n"
      using n by (auto simp del: upt_rec_numeral intro!: bexI [of _ "3 - n"])
    ultimately show "bit (fold (\<lambda>k x. x OR push_bit (7 - k) (bit8 (bit t (7 - k)))) [0..<4] 0 OR
        fold (\<lambda>k x. x OR push_bit (3 - k) (bit8 (bit t (3 - k)))) [0..<4] 0) n = bit (ucast t :: u8) n"
      using n by (simp add: bit_or_iff fold_or_bits bit_ucast_iff del: upt_rec_numeral) linarith
  qed
qed

lemma em_bytes_read:
  assumes "\<And>j. j < 64 \<Longrightarrow> em j = bit8 (em_bits t ! j)"
  shows "em4100_bytes em = em_bytes t"
proof -
  have "fold (\<lambda>k x. x OR push_bit (7 - k) (em (9 + 10 * i + k))) [0..<4] 0 OR
      fold (\<lambda>k x. x OR push_bit (3 - k) (em (9 + 10 * i + 5 + k))) [0..<4] 0 = (ucast (drop_bit (32 - 8 * i) t) :: u8)"
    if i: "i < 5" for i
  proof (rule nibbles_byte)
    fix k :: nat assume k: "k < 4"
    have "em (9 + 10 * i + k) = bit8 (em_bits t ! (9 + (2 * i) * 5 + k))" using i k by (simp add: assms algebra_simps)
    also have "\<dots> = bit8 (bit t (39 - (2 * i) * 4 - k))" using i k em_data [of "2 * i" k t] by simp
    finally show "em (9 + 10 * i + k) = bit8 (bit (drop_bit (32 - 8 * i) t) (7 - k))" using i k by (simp add: bit_drop_bit_eq)
  next
    fix k :: nat assume k: "k < 4"
    have "em (9 + 10 * i + 5 + k) = bit8 (em_bits t ! (9 + (2 * i + 1) * 5 + k))" using i k by (simp add: assms algebra_simps)
    also have "\<dots> = bit8 (bit t (39 - (2 * i + 1) * 4 - k))" using i k em_data [of "2 * i + 1" k t] by simp
    finally show "em (9 + 10 * i + 5 + k) = bit8 (bit (drop_bit (32 - 8 * i) t) (3 - k))" using i k by (simp add: bit_drop_bit_eq)
  qed
  then show ?thesis by (simp add: em4100_bytes_def em_bytes_def del: upt.simps upt_rec_numeral)
qed

lemma em4100_start_nth: "em4100_start data p \<Longrightarrow> j < 9 \<Longrightarrow> ring_at data p j = 1"
  by (simp add: em4100_start_def list_all_iff del: upt.simps upt_rec_numeral)

text \<open>Nine ones elsewhere in the stream: none around the stop bit or with a whole row among them, and those that begin
  in the header have its first bits where the stop bit has to be.\<close>

lemma em_elsewhere:
  assumes k: "0 < k" "k < 64" and r: "repeats (em_bits t) data p k 64" and s: "em4100_start data p"
  shows "em4100_at data c p = (c, None)"
proof -
  have l: "length (em_bits t) = 64" by (simp add: em_bits_def)
  note at = repeats_at [OF r, unfolded l]
  have one: "em_bits t ! ((k + j) mod 64)" if "j < 9" for j
    using at [of j] em4100_start_nth [OF s that] that by simp
  have "k < 5"
  proof (rule ccontr)
    assume "\<not> k < 5"
    show False
    proof (cases "k < 55")
      case True
      define i where "i = (k - 5) div 5"
      have i: "i < 10" "k \<le> 9 + i * 5" "9 + i * 5 + 4 \<le> k + 8" using \<open>\<not> k < 5\<close> True by (auto simp: i_def)
      have "em_bits t ! (9 + i * 5 + m)" if "m < 5" for m
        using one [of "9 + i * 5 + m - k"] i that True by simp
      from this [of 0] this [of 1] this [of 2] this [of 3] this [of 4] show False
        using em_row_parity [OF i(1), of t] by (simp add: upt_lists del: upt.simps)
    next
      case False
      then have "63 - k < 9" by linarith
      then show False using one [of "63 - k"] k em_stop [of t] by simp
    qed
  qed
  then have "(k + 63) mod 64 = k - 1" using k by (simp add: mod_if)
  then have "ring_at data p 63 \<noteq> 0" using at [of 63] em_header [of "k - 1" t] \<open>k < 5\<close> by simp
  then show ?thesis by (simp add: em4100_at_def em4100_parities_def)
qed

interpretation em4100: tag_format em4100_start 64 0 em4100_at "()" em_bits "\<lambda>t. True" em_bytes
proof
  show "length (em_bits t) = 64" for t by (simp add: em_bits_def)
  then have at: "ring_at data p j = bit8 (em_bits t ! j)" if "repeats (em_bits t) data p 0 64" "j < 64" for t data p j
    using repeats_whole [OF that(1)] that(2) by simp
  show "em4100_start data p" if "repeats (em_bits t) data p 0 64" for t data p
    using at [OF that] by (simp add: em4100_start_def list_all_iff em_header del: upt.simps upt_rec_numeral)
  show "snd (em4100_at data () (p + of_nat 0)) = Some (em_bytes t)" if "repeats (em_bits t) data p 0 64" for t data p
    using em_parities_ok [OF at [OF that]] em_bytes_read [OF at [OF that]] by (simp add: em4100_at_def)
qed (use em_elsewhere in auto)

subsection \<open>From the text and back\<close>

lemma em_bits_blocks: "em_bits t = block_bits (blocks64 (em_word t))"
  by (simp add: em_bits_def block_bits64)

lemma encodeEM4100_outcome:
  "encodeEM4100 s n = Inr blocks \<Longrightarrow> block_bits blocks = em_bits (word_of_int (strtoll 16 s))"
  by (auto simp: encodeEM4100_def em_bits_blocks em_word_def Let_def split: if_splits)

text \<open>Lower-case hexadecimal digits.\<close>

definition hex_lower :: "u8 \<Rightarrow> bool" where
  "hex_lower c \<longleftrightarrow> (\<exists>v < 16. c = hexchar v)"

lemma list_all_16: "list_all P [0,1,2,3,4,5,6,7,8,9,10,11,12,13,14,15] \<Longrightarrow> v < 16 \<Longrightarrow> P v" for v :: u8
proof -
  assume l: "list_all P [0,1,2,3,4,5,6,7,8,9,10,11,12,13,14,15]" and "v < 16"
  then have n: "unat v < 16" by (simp add: word_less_nat_alt)
  have "list_all P (map of_nat [0..<16])" using l by (simp add: upt_conv_Cons)
  then have "P (of_nat n)" if "n < 16" for n using that by (simp add: list_all_iff del: upt_rec_numeral)
  from this [OF n] show "P v" by simp
qed

lemma digit_of_hexchar: "v < 16 \<Longrightarrow> digit_of 16 (hexchar v) = Some (uint v)"
  by (erule list_all_16 [rotated]) code_simp

lemma hexchar_no_prefix:
  "v < 16 \<Longrightarrow> hexchar v \<noteq> 32 \<and> \<not> hexchar v \<le> 13 \<and> hexchar v \<noteq> 45 \<and> hexchar v \<noteq> 43 \<and>
    hexchar v \<noteq> 120 \<and> hexchar v \<noteq> 88"
  by (erule list_all_16 [rotated]) code_simp

fun horner :: "int \<Rightarrow> u8 list \<Rightarrow> int" where
  "horner x [] = x"
| "horner x (v # vs) = horner (x * 16 + uint v) vs"

lemma horner_append: "horner x (vs @ ws) = horner (horner x vs) ws"
  by (induction vs arbitrary: x) auto

lemma parse_hex: "\<forall>v \<in> set vs. v < 16 \<Longrightarrow> parse_digits 16 x (map hexchar vs) = horner x vs"
  by (induction vs arbitrary: x) (auto simp: digit_of_hexchar)

lemma strtoll_hex:
  assumes "\<forall>v \<in> set vs. v < 16" and "2 \<le> length vs"
  shows "strtoll 16 (map hexchar vs) = horner 0 vs"
proof -
  obtain v w us where vs: "vs = v # w # us" using assms(2) by (metis Suc_le_length_iff numeral_2_eq_2)
  have "v < 16" "w < 16" using assms(1) vs by auto
  then show ?thesis using hexchar_no_prefix [of v] hexchar_no_prefix [of w] parse_hex [OF assms(1), of 0]
    unfolding strtoll_def vs by simp
qed

text \<open>The upper digits are those of the quotient.\<close>

lemma horner_bound: "\<forall>v \<in> set vs. v < 16 \<Longrightarrow> 0 \<le> x \<Longrightarrow> x < 16 ^ m \<Longrightarrow> 0 \<le> horner x vs \<and> horner x vs < 16 ^ (m + length vs)"
proof (induction vs arbitrary: x m)
  case (Cons v vs)
  have v: "0 \<le> uint v" "uint v < 16" using Cons.prems(1) by (simp_all add: word_less_def)
  then have "x * 16 + uint v < 16 ^ Suc m" using Cons.prems(3) by simp
  then have "0 \<le> horner (x * 16 + uint v) vs \<and> horner (x * 16 + uint v) vs < 16 ^ (Suc m + length vs)"
    using Cons.IH Cons.prems v by (metis add_nonneg_nonneg list.set_intros(2) mult_nonneg_nonneg zero_le_numeral)
  then show ?case by simp
qed simp

lemma horner_drop: "\<forall>v \<in> set ws. v < 16 \<Longrightarrow> horner x ws div 16 ^ length ws = x"
proof (induction ws arbitrary: x)
  case (Cons w ws)
  have "uint w < 16" using Cons.prems by (simp add: word_less_def)
  then have "(x * 16 + uint w) div 16 = x" by simp
  have "horner x (w # ws) div 16 ^ length (w # ws) = horner (x * 16 + uint w) ws div 16 ^ length ws div 16"
    by (simp only: horner.simps list.size add_0_right add_Suc_right power_Suc2) (simp add: zdiv_zmult2_eq)
  also have "\<dots> = x" using Cons \<open>(x * 16 + uint w) div 16 = x\<close> by simp
  finally show ?case .
qed simp

lemma ucast_drop_bit_of_int:
  "n \<le> 56 \<Longrightarrow> (ucast (drop_bit n (word_of_int x :: 64 word)) :: u8) = word_of_int (drop_bit n x)"
  by (rule bit_word_eqI) (auto simp: bit_ucast_iff bit_drop_bit_eq bit_word_of_int_iff)

lemma horner_byte:
  assumes "\<forall>v \<in> set ws. v < 16" and "4 * length ws \<le> 56"
  shows "ucast (drop_bit (4 * length ws) (word_of_int (horner x (v # w # ws)) :: 64 word)) = (v * 16 + w :: u8)"
proof -
  have "drop_bit (4 * length ws) (horner x (v # w # ws)) = horner ((x * 16 + uint v) * 16 + uint w) ws div 16 ^ length ws"
    by (simp add: drop_bit_eq_div power_mult)
  also have "\<dots> = (x * 16 + uint v) * 16 + uint w" by (rule horner_drop [OF assms(1)])
  finally have "ucast (drop_bit (4 * length ws) (word_of_int (horner x (v # w # ws)) :: 64 word)) =
    (word_of_int ((x * 16 + uint v) * 16 + uint w) :: u8)" using assms(2) by (simp add: ucast_drop_bit_of_int)
  also have "\<dots> = v * 16 + w"
  proof -
    have "(16 :: u8) * 16 = 0" by simp
    then have "y * 16 * 16 = 0" for y :: u8 by (metis mult.assoc mult_zero_right)
    then show ?thesis by (simp add: algebra_simps)
  qed
  finally show ?thesis .
qed

lemma hex2_pair: "v < 16 \<Longrightarrow> w < 16 \<Longrightarrow> hex2 (v * 16 + w) = [hexchar v, hexchar w]"
proof -
  assume "v < 16" "w < 16"
  then have "unat (v * 16 + w) = unat v * 16 + unat w"
    by (simp add: word_less_nat_alt unat_word_ariths)
  then have "(v * 16 + w) div 16 = v" "(v * 16 + w) mod 16 = w" using \<open>v < 16\<close> \<open>w < 16\<close>
    by (simp_all add: word_arith_nat_div word_arith_nat_mod word_less_nat_alt)
  then show ?thesis by (simp add: hex2_def)
qed

lemma hex_lower_map: "\<forall>c \<in> set s. hex_lower c \<Longrightarrow> \<exists>vs. s = map hexchar vs \<and> (\<forall>v \<in> set vs. v < 16)"
proof (induction s)
  case (Cons c s)
  then obtain v vs where "c = hexchar v" "v < 16" "s = map hexchar vs" "\<forall>v \<in> set vs. v < 16"
    by (auto simp: hex_lower_def)
  then show ?case by (intro exI [of _ "v # vs"]) simp
qed simp

lemma em_text_back:
  assumes "length s = 10" and "\<forall>c \<in> set s. hex_lower c"
  shows "concat (map hex2 (em_bytes (word_of_int (strtoll 16 s)))) = s"
proof -
  obtain vs where vs: "s = map hexchar vs" "\<forall>v \<in> set vs. v < 16"
    using hex_lower_map [OF assms(2)] by blast
  define a b c d e f g h i j where "a = vs ! 0" and "b = vs ! 1" and "c = vs ! 2" and "d = vs ! 3"
    and "e = vs ! 4" and "f = vs ! 5" and "g = vs ! 6" and "h = vs ! 7" and "i = vs ! 8" and "j = vs ! 9"
  have "length vs = 10" using vs assms(1) by simp
  then have "vs = map ((!) vs) [0..<10]" using map_nth [of vs] by simp
  also have "\<dots> = [a, b, c, d, e, f, g, h, i, j]"
    by (simp only: upt_lists list.map a_def b_def c_def d_def e_def f_def g_def h_def i_def j_def)
  finally have l: "vs = [a, b, c, d, e, f, g, h, i, j]" .
  define t where "t = (word_of_int (strtoll 16 s) :: 64 word)"
  have t: "t = word_of_int (horner 0 vs)" unfolding t_def vs(1)
    by (subst strtoll_hex [OF vs(2)]) (simp_all add: \<open>length vs = 10\<close>)
  have "ucast (drop_bit 32 t) = (a * 16 + b :: u8)" "ucast (drop_bit 24 t) = (c * 16 + d :: u8)"
    "ucast (drop_bit 16 t) = (e * 16 + f :: u8)" "ucast (drop_bit 8 t) = (g * 16 + h :: u8)"
    "ucast (drop_bit 0 t) = (i * 16 + j :: u8)"
    using vs(2) horner_byte [of "[c, d, e, f, g, h, i, j]" 0 a b] horner_byte [of "[e, f, g, h, i, j]" "horner 0 [a, b]" c d]
      horner_byte [of "[g, h, i, j]" "horner 0 [a, b, c, d]" e f] horner_byte [of "[i, j]" "horner 0 [a, b, c, d, e, f]" g h]
      horner_byte [of "[]" "horner 0 [a, b, c, d, e, f, g, h]" i j] unfolding t l by simp_all
  then have "em_bytes t = [a * 16 + b, c * 16 + d, e * 16 + f, g * 16 + h, i * 16 + j]"
    by (simp add: em_bytes_def upt_conv_Cons)
  then show ?thesis unfolding t_def [symmetric] using vs l by (simp add: hex2_pair)
qed

lemma decodeEM4100_outcome:
  assumes "encodeEM4100 s n = Inr blocks" and "127 \<le> in_queue p e" and "repeats (block_bits blocks) data p k 127"
  shows "decodeEM4100 data p e tag = Some (Some (em4100_tag (em_bytes (word_of_int (strtoll 16 s))) tag, p + 64))"
  using em4100.finds_anywhere [of p e "word_of_int (strtoll 16 s)" data k] assms encodeEM4100_outcome [OF assms(1)]
  by (simp add: decodeEM4100_def)

text \<open>C7. A tag that \<^verbatim>\<open>encodeEM4100\<close> has prepared for the text of ten lower-case hexadecimal digits is read back as
  this text: from wherever the tag is when the stream begins, 127 bits of it make \<^verbatim>\<open>decodeEM4100\<close> return
  with the text, the protocol and the five bytes, and move the read pointer by the length of a tag.\<close>

theorem em4100_written_and_read:
  assumes "encodeEM4100 s n = Inr blocks" and "length s = 10" and "\<forall>c \<in> set s. hex_lower c"
    and "127 \<le> in_queue p e" and "repeats (block_bits blocks) data p k 127"
  shows "decodeEM4100 data p e tag = Some (Some (tag\<lparr>tagString := s, protocol := PHIDGET_RFID_PROTOCOL_EM4100,
    tagData := em_bytes (word_of_int (strtoll 16 s)) @ drop 5 (tagData tag)\<rparr>, p + 64))"
  using decodeEM4100_outcome [OF assms(1,4,5)] em_text_back [OF assms(2,3)] by (simp add: em4100_tag_def)

definition em_example :: "u8 list" where
  "em_example = [48, 49, 48, 54, 57, 51, 97, 98, 101, 102]"

lemma hex_lower_list: "list_all (\<lambda>v. v < 16) vs \<Longrightarrow> \<forall>c \<in> set (map hexchar vs). hex_lower c"
  by (auto simp: hex_lower_def list_all_iff)

lemma em_example_ok: "length em_example = 10" "\<forall>c \<in> set em_example. hex_lower c"
proof -
  have "em_example = map hexchar [0, 1, 0, 6, 9, 3, 10, 11, 14, 15]" by code_simp
  moreover have "list_all (\<lambda>v. v < 16) [0, 1, 0, 6, 9, 3, 10, 11, 14, 15 :: u8]" by code_simp
  ultimately show "\<forall>c \<in> set em_example. hex_lower c" using hex_lower_list by metis
qed (simp add: em_example_def)

lemma em_example_encoded: "\<exists>blocks. encodeEM4100 em_example 7 = Inr blocks"
  using em_example_ok(1) by (simp add: encodeEM4100_def Let_def)

theorem em4100_written_and_read_witness:
  "\<exists>blocks. encodeEM4100 em_example 7 = Inr blocks \<and>
    decodeEM4100 (tag_ring (block_bits blocks)) 5 132 rfid_no_tag =
      Some (Some (rfid_no_tag\<lparr>tagString := em_example, protocol := PHIDGET_RFID_PROTOCOL_EM4100,
        tagData := em_bytes (word_of_int (strtoll 16 em_example)) @ drop 5 (tagData rfid_no_tag)\<rparr>, 69))"
proof -
  obtain blocks where b: "encodeEM4100 em_example 7 = Inr blocks" using em_example_encoded by blast
  have "in_queue 5 132 = 127" by code_simp
  moreover have "repeats (block_bits blocks) (tag_ring (block_bits blocks)) 5 5 127"
    using repeats_tag_ring [of 5 127 "block_bits blocks"] by simp
  ultimately show ?thesis using b em4100_written_and_read [OF b em_example_ok, of 5 132 "tag_ring (block_bits blocks)" 5 rfid_no_tag] by simp
qed

subsection \<open>Texts that are not read back\<close>

lemma em_text_lower: "\<forall>c \<in> set (concat (map hex2 bs)). hex_lower c" "length (concat (map hex2 bs)) = 2 * length bs"
proof -
  have "hex_lower (hexchar (b div 16))" "hex_lower (hexchar (b mod 16))" for b
    using u8_div_16_less [of b] u8_mod_16_less [of b] by (auto simp: hex_lower_def)
  then show "\<forall>c \<in> set (concat (map hex2 bs)). hex_lower c" by (auto simp: hex2_def)
  show "length (concat (map hex2 bs)) = 2 * length bs" by (induction bs) (simp_all add: hex2_def)
qed

lemma waitForTag_never: "(\<And>k. take 25 (seen k) \<noteq> take 25 s) \<Longrightarrow> waitForTag s timeout seen k = EPHIDGET_TIMEOUT"
  by (induction s timeout seen k rule: waitForTag.induct) (subst waitForTag.simps, simp)

text \<open>C17. For a text that \<^verbatim>\<open>encodeEM4100\<close> accepts but that is not ten lower-case digits (upper-case
  digits, or the prefix \<^verbatim>\<open>0x\<close> that it allows), the wait at the end of \<^verbatim>\<open>CPhidgetRFID_write\<close> ends with
  \<^verbatim>\<open>EPHIDGET_TIMEOUT\<close> although every text it looks at was decoded from the tag as it was written.\<close>

theorem em4100_write_times_out:
  assumes "encodeEM4100 s n = Inr blocks" and "length s = 12 \<or> (\<exists>c \<in> set s. \<not> hex_lower c)"
    and "\<And>i. \<exists>data p e k tag q. 127 \<le> in_queue p e \<and> repeats (block_bits blocks) data p k 127 \<and>
      decodeEM4100 data p e rfid_no_tag = Some (Some (tag, q)) \<and> seen i = tagString tag"
  shows "waitForTag s 500 seen 0 = EPHIDGET_TIMEOUT"
proof (rule waitForTag_never)
  fix i
  obtain data p e k tag q where "127 \<le> in_queue p e" "repeats (block_bits blocks) data p k 127"
    "decodeEM4100 data p e rfid_no_tag = Some (Some (tag, q))" "seen i = tagString tag"
    using assms(3) by meson
  then have "seen i = concat (map hex2 (em_bytes (word_of_int (strtoll 16 s))))"
    using decodeEM4100_outcome [OF assms(1)] by (auto simp: em4100_tag_def)
  then have "\<forall>c \<in> set (seen i). hex_lower c" "length (seen i) = 10"
    using em_text_lower [of "em_bytes (word_of_int (strtoll 16 s))"] by (simp_all add: em_bytes_length)
  moreover have "length s \<le> 12" using assms(1) by (auto simp: encodeEM4100_def split: if_splits)
  ultimately show "take 25 (seen i) \<noteq> take 25 s" using assms(2) by auto
qed

definition em_example_upper :: "u8 list" where
  "em_example_upper = [48, 49, 48, 54, 57, 51, 65, 66, 69, 70]"

theorem em4100_write_times_out_witness:
  "waitForTag em_example_upper 500 (\<lambda>i. em_example) 0 = EPHIDGET_TIMEOUT"
proof -
  have "hexchar v \<noteq> 65" if "v < 16" for v using that by (erule_tac list_all_16 [rotated]) code_simp
  then have "\<not> hex_lower 65" unfolding hex_lower_def by metis
  then have u: "\<exists>c \<in> set em_example_upper. \<not> hex_lower c" by (simp add: em_example_upper_def)
  obtain blocks where b: "encodeEM4100 em_example_upper 7 = Inr blocks"
    by (simp add: encodeEM4100_def Let_def em_example_upper_def)
  have "strtoll 16 em_example_upper = strtoll 16 em_example" by code_simp
  moreover have q: "127 \<le> in_queue 5 132" by code_simp
  moreover have r: "repeats (block_bits blocks) (tag_ring (block_bits blocks)) 5 5 127"
    using repeats_tag_ring [of 5 127 "block_bits blocks"] by simp
  ultimately have "decodeEM4100 (tag_ring (block_bits blocks)) 5 132 rfid_no_tag =
      Some (Some (em4100_tag (em_bytes (word_of_int (strtoll 16 em_example))) rfid_no_tag, 69))"
    using decodeEM4100_outcome [OF b q r, of rfid_no_tag] by simp
  moreover have "em_example = tagString (em4100_tag (em_bytes (word_of_int (strtoll 16 em_example))) rfid_no_tag)"
    using em_text_back [OF em_example_ok] by (simp add: em4100_tag_def)
  ultimately have "\<exists>data p e k tag q. 127 \<le> in_queue p e \<and> repeats (block_bits blocks) data p k 127 \<and>
      decodeEM4100 data p e rfid_no_tag = Some (Some (tag, q)) \<and> em_example = tagString tag"
    using q r by blast
  then show ?thesis using em4100_write_times_out [OF b disjI2 [OF u], of "\<lambda>i. em_example"] by blast
qed

end
