(* ===== verification/Rfid_Fdxb.thy ===== *)
theory Rfid_Fdxb
  imports Rfid_Stream
begin

text \<open>
  FDX-B tags of ISO 11785 (\<^verbatim>\<open>cphidgetrfid.c\<close>): the bits that the encoder produces, and that the
  decoder reads them back wherever it starts in the stream of a tag that repeats them.
\<close>

subsection \<open>Data with control bits\<close>

text \<open>From \<open>p\<close> on there are \<open>n\<close> bits \<open>f\<close> in groups of eight, with a one behind each group.\<close>

definition grouped :: "u8 list \<Rightarrow> rfid_ptr \<Rightarrow> nat \<Rightarrow> nat \<Rightarrow> (nat \<Rightarrow> bool) \<Rightarrow> bool" where
  "grouped data p k n f \<longleftrightarrow> (\<forall>i < n. ring_at data p (k + i + i div 8) = bit8 (f i)) \<and>
     (\<forall>i < n. i mod 8 = 7 \<longrightarrow> ring_at data p (k + i + i div 8 + 1) = 1)"

lemma grouped_data: "grouped data p k n f \<Longrightarrow> i < n \<Longrightarrow> ring_at data p (k + i + i div 8) = bit8 (f i)"
  by (simp add: grouped_def)

lemma grouped_control:
  assumes "grouped data p k n f" and "i < n" and "0 < i" and "i mod 8 = 0"
  shows "ring_at data p (k + (i + (i - 1) div 8)) = 1"
proof -
  obtain j where i: "i = 8 * Suc j" using assms(3,4) by (metis dvd_def mod_eq_0_iff_dvd mult_0_right neq0_conv not0_implies_Suc)
  then have "(i - 1) mod 8 = 7" "(i - 1) div 8 = j" "i - 1 < n" using assms(2) by (simp_all add: mod_Suc div_Suc)
  then show ?thesis using assms(1) i by (auto simp: grouped_def ac_simps dest!: spec [of _ "i - 1"])
qed

lemma skip_control_grouped:
  assumes "grouped data p k n f" and "i < n"
  shows "skip_control data p i (k + (i + (i - 1) div 8)) = Some (k + i + i div 8)"
proof (cases "0 < i \<and> i mod 8 = 0")
  case True
  then obtain j where i: "i = 8 * Suc j" by (metis dvd_def mod_eq_0_iff_dvd mult_0_right neq0_conv not0_implies_Suc)
  have "ring_at data p (k + (i + (i - 1) div 8)) = 1" using grouped_control [OF assms] True by simp
  then show ?thesis using True i by (simp add: skip_control_def div_Suc)
next
  case False
  then have "(i - 1) div 8 = i div 8" by (cases i) (auto simp: div_Suc)
  then show ?thesis using False by (auto simp: skip_control_def)
qed

text \<open>The loop that reads the checksum.\<close>

lemma checksum_loop:
  assumes g: "grouped data p k 16 f" and "i \<le> 16"
  shows "checksum_bits data p [i..<16] (k + (i + (i - 1) div 8)) c =
    (fold (\<lambda>i c. c OR push_bit (15 - i) (ucast (bit8 (f i)))) [i..<16] c, Some (k + 17))"
  using assms(2)
proof (induction "16 - i" arbitrary: i c)
  case 0
  then show ?case by simp
next
  case (Suc m)
  then have i: "i < 16" "[i..<16] = i # [Suc i..<16]" "m = 15 - i" by (simp_all add: upt_conv_Cons)
  have n: "k + i + i div 8 + 1 = k + (Suc i + (Suc i - 1) div 8)" by simp
  show ?case unfolding i(2)
    using Suc.hyps(1) [of "Suc i" "c OR push_bit (15 - i) (ucast (bit8 (f i)))"] Suc.hyps(2) i(1)
      skip_control_grouped [OF g i(1)] grouped_data [OF g i(1)] n
    by (simp add: i(3) add.assoc del: upt.simps upt_rec_numeral)
qed

lemma checksum_read:
  assumes "grouped data p k 16 (\<lambda>i. bit crc (15 - i))"
  shows "checksum_bits data p [0..<16] k a = (a OR crc, Some (k + 17))"
proof -
  have "fold (\<lambda>i c. c OR push_bit (15 - i) (ucast (bit8 (bit crc (15 - i))))) [0..<16] a = a OR crc"
  proof (rule bit_word_eqI)
    fix n assume n: "n < LENGTH(16)"
    have f: "bit (fold (\<lambda>i c. c OR push_bit (15 - i) (ucast (bit8 (g i)))) is a) n \<longleftrightarrow> bit a n \<or> (\<exists>i \<in> set is. 15 - i = n \<and> g i)"
      for a :: u16 and g and "is" :: "nat list"
      using n by (induction "is" arbitrary: a) (auto simp: bit_or_iff bit_push_bit_iff bit_ucast_iff bit8_def bit_1_iff)
    have "(\<exists>i \<in> set [0..<16]. 15 - i = n \<and> bit crc (15 - i)) \<longleftrightarrow> bit crc n"
      using n by (auto simp del: upt_rec_numeral intro!: bexI [of _ "15 - n"])
    then show "bit (fold (\<lambda>i c. c OR push_bit (15 - i) (ucast (bit8 (bit crc (15 - i))))) [0..<16] a) n = bit (a OR crc) n"
      using f [of "\<lambda>i. bit crc (15 - i)" "[0..<16]" a] by (simp add: bit_or_iff)
  qed
  then show ?thesis using checksum_loop [OF assms, of 0 a] by simp
qed

text \<open>The loop that reads the bytes, in both orders.\<close>

definition byte_fwd :: "(nat \<Rightarrow> bool) \<Rightarrow> nat \<Rightarrow> u8" where
  "byte_fwd f m = horner_sum of_bool 2 (map (\<lambda>b. f (8 * m + (7 - b))) [0..<8])"

definition byte_rev :: "(nat \<Rightarrow> bool) \<Rightarrow> nat \<Rightarrow> u8" where
  "byte_rev f m = horner_sum of_bool 2 (map (\<lambda>b. f (8 * (7 - m) + b)) [0..<8])"

lemma bit_byte_fwd: "bit (byte_fwd f m) b \<longleftrightarrow> b < 8 \<and> f (8 * m + (7 - b))"
  by (auto simp: byte_fwd_def bit_horner_sum_bit_word_iff simp del: upt_rec_numeral)

lemma bit_byte_rev: "bit (byte_rev f m) b \<longleftrightarrow> b < 8 \<and> f (8 * (7 - m) + b)"
  by (auto simp: byte_rev_def bit_horner_sum_bit_word_iff simp del: upt_rec_numeral)

definition upto_bit :: "(nat \<Rightarrow> bool) \<Rightarrow> nat \<Rightarrow> nat \<Rightarrow> bool" where
  "upto_bit f i n \<longleftrightarrow> n < i \<and> f n"

lemma byte_fwd_step:
  assumes "m < 8"
  shows "byte_fwd (upto_bit f (Suc i)) m =
    (if m = i div 8 then byte_fwd (upto_bit f i) m OR push_bit (7 - i mod 8) (bit8 (f i)) else byte_fwd (upto_bit f i) m)"
proof (rule bit_word_eqI)
  fix b assume "b < LENGTH(8)"
  then have b: "b < 8" by simp
  have "8 * m + (7 - b) = i \<longleftrightarrow> m = i div 8 \<and> 7 - i mod 8 = b"
  proof
    assume i: "8 * m + (7 - b) = i"
    define r where "r = 7 - b"
    have "i = 8 * m + r" "r < 8" using i by (auto simp: r_def)
    then have "i div 8 = m" "i mod 8 = r" by simp_all
    then show "m = i div 8 \<and> 7 - i mod 8 = b" using b by (simp add: r_def)
  next
    assume "m = i div 8 \<and> 7 - i mod 8 = b"
    moreover have "i mod 8 \<le> 7" using mod_less_divisor [of 8 i] by simp
    ultimately have "m = i div 8" "7 - b = i mod 8" by auto
    then show "8 * m + (7 - b) = i" by simp
  qed
  then show "bit (byte_fwd (upto_bit f (Suc i)) m) b = bit (if m = i div 8
      then byte_fwd (upto_bit f i) m OR push_bit (7 - i mod 8) (bit8 (f i)) else byte_fwd (upto_bit f i) m) b"
    using b by (auto simp: bit_byte_fwd upto_bit_def bit_or_iff bit_push_bit_iff bit8_def bit_1_iff less_Suc_eq)
qed

lemma byte_rev_step:
  assumes "m < 8" and "i < 64"
  shows "byte_rev (upto_bit f (Suc i)) m =
    (if m = 7 - i div 8 then byte_rev (upto_bit f i) m OR push_bit (i mod 8) (bit8 (f i)) else byte_rev (upto_bit f i) m)"
proof (rule bit_word_eqI)
  fix b assume "b < LENGTH(8)"
  then have b: "b < 8" by simp
  have "8 * (7 - m) + b = i \<longleftrightarrow> m = 7 - i div 8 \<and> i mod 8 = b"
  proof
    assume i: "8 * (7 - m) + b = i"
    then have "i div 8 = 7 - m" "i mod 8 = b" using b by auto
    then show "m = 7 - i div 8 \<and> i mod 8 = b" using assms(1) by simp
  next
    assume "m = 7 - i div 8 \<and> i mod 8 = b"
    moreover have "i div 8 < 8" using assms(2) by simp
    ultimately show "8 * (7 - m) + b = i" using div_mult_mod_eq [of i 8] by simp
  qed
  then show "bit (byte_rev (upto_bit f (Suc i)) m) b = bit (if m = 7 - i div 8
      then byte_rev (upto_bit f i) m OR push_bit (i mod 8) (bit8 (f i)) else byte_rev (upto_bit f i) m) b"
    using b by (auto simp: bit_byte_rev upto_bit_def bit_or_iff bit_push_bit_iff bit8_def bit_1_iff less_Suc_eq)
qed

lemma bytes_loop:
  assumes g: "grouped data p 0 64 f" and "i \<le> 64"
  shows "cfor [0..<i] (\<lambda>i (k, bs, rs). do {
     k \<leftarrow> skip_control data p i k;
     let b = ring_at data p k;
     Some (k + 1, bs[i div 8 := bs ! (i div 8) OR push_bit (7 - i mod 8) b],
       rs[7 - i div 8 := rs ! (7 - i div 8) OR push_bit (i mod 8) b]) }) (0, replicate 8 0, replicate 8 0) =
     Some (i + (i - 1) div 8, map (byte_fwd (upto_bit f i)) [0..<8], map (byte_rev (upto_bit f i)) [0..<8])"
  using assms(2)
proof (induction i)
  case 0
  have "byte_fwd (upto_bit f 0) m = 0" "byte_rev (upto_bit f 0) m = 0" for m
    by (rule bit_word_eqI; simp add: bit_byte_fwd bit_byte_rev upto_bit_def)+
  then show ?case by (simp add: map_replicate_const del: upt_rec_numeral)
next
  case (Suc i)
  then have i: "i < 64" by simp
  have fw: "map (byte_fwd (upto_bit f (Suc i))) [0..<8] = (map (byte_fwd (upto_bit f i)) [0..<8])
      [i div 8 := map (byte_fwd (upto_bit f i)) [0..<8] ! (i div 8) OR push_bit (7 - i mod 8) (bit8 (f i))]"
    using i by (auto simp: nth_list_update byte_fwd_step intro!: nth_equalityI simp del: upt_rec_numeral)
  have rv: "map (byte_rev (upto_bit f (Suc i))) [0..<8] = (map (byte_rev (upto_bit f i)) [0..<8])
      [7 - i div 8 := map (byte_rev (upto_bit f i)) [0..<8] ! (7 - i div 8) OR push_bit (i mod 8) (bit8 (f i))]"
    using i by (auto simp: nth_list_update byte_rev_step intro!: nth_equalityI simp del: upt_rec_numeral)
  show ?case
    using Suc i skip_control_grouped [OF g i] grouped_data [OF g i] unfolding fw rv
    by (simp add: cfor_snoc Let_def del: upt_rec_numeral)
qed

lemma fdxb_bytes_read:
  assumes "grouped data p 0 64 f"
  shows "fdxb_bytes data p = Some (71, map (byte_fwd f) [0..<8], map (byte_rev f) [0..<8])"
proof -
  have "byte_fwd (upto_bit f 64) m = byte_fwd f m" "byte_rev (upto_bit f 64) m = byte_rev f m" if "m < 8" for m
    using that by (auto intro!: bit_word_eqI simp: bit_byte_fwd bit_byte_rev upto_bit_def)
  then show ?thesis using bytes_loop [OF assms, of 64]
    by (simp add: fdxb_bytes_def cong: map_cong del: upt_rec_numeral)
qed

subsection \<open>Decimal numbers\<close>

fun value10 :: "nat \<Rightarrow> nat list \<Rightarrow> nat" where
  "value10 x [] = x"
| "value10 x (d # ds) = value10 (x * 10 + d) ds"

lemma value10_snoc: "value10 x (ds @ [d]) = value10 x ds * 10 + d"
  by (induction ds arbitrary: x) auto

lemma dec_pad_step:
  assumes "0 < w"
  shows "dec_pad (Suc w) n = dec_pad w (n div 10) @ [48 + of_nat (n mod 10)]"
proof (cases "n < 10")
  case True
  obtain w' where "w = Suc w'" using assms by (cases w) auto
  then show ?thesis using True by (simp add: dec_pad_def decimal.simps [of n] decimal.simps [of 0] replicate_append_same)
next
  case False
  then show ?thesis by (simp add: dec_pad_def decimal.simps [of n])
qed

lemma dec_pad_value:
  "ds \<noteq> [] \<Longrightarrow> \<forall>d \<in> set ds. d < 10 \<Longrightarrow> dec_pad (length ds) (value10 0 ds) = map (\<lambda>d. 48 + of_nat d) ds"
proof (induction ds rule: rev_induct)
  case (snoc d ds)
  then have d: "d < 10" by simp
  show ?case
  proof (cases "ds = []")
    case True
    then show ?thesis using d by (simp add: dec_pad_def decimal.simps [of d])
  next
    case False
    then show ?thesis using snoc d by (simp add: dec_pad_step value10_snoc)
  qed
qed simp

lemma digit_of_decimal: "d < 10 \<Longrightarrow> digit_of 10 (48 + of_nat d) = Some (int d)"
proof -
  assume "d < 10"
  moreover have "\<forall>d \<in> set [0..<10]. digit_of 10 (48 + of_nat d) = Some (int d)"
    by code_simp
  ultimately show ?thesis by (simp del: upt_rec_numeral)
qed

lemma parse_decimal: "\<forall>d \<in> set ds. d < 10 \<Longrightarrow> parse_digits 10 (int x) (map (\<lambda>d. 48 + of_nat d) ds) = int (value10 x ds)"
proof (induction ds arbitrary: x)
  case (Cons d ds)
  then have "digit_of 10 (48 + of_nat d) = Some (int d)" "int x * 10 + int d = int (x * 10 + d)"
    using digit_of_decimal by simp_all
  then show ?case using Cons.IH [of "x * 10 + d"] Cons.prems by simp
qed simp

lemma decimal_no_prefix:
  "d < 10 \<Longrightarrow> (48 :: u8) + of_nat d \<noteq> 32 \<and> \<not> (48 :: u8) + of_nat d \<le> 13 \<and> (48 :: u8) + of_nat d \<noteq> 45 \<and> (48 :: u8) + of_nat d \<noteq> 43"
proof -
  assume "d < 10"
  moreover have "\<forall>d \<in> set [0..<10]. (48 :: u8) + of_nat d \<noteq> 32 \<and> \<not> (48 :: u8) + of_nat d \<le> 13 \<and>
    (48 :: u8) + of_nat d \<noteq> 45 \<and> (48 :: u8) + of_nat d \<noteq> 43"
    by code_simp
  ultimately show ?thesis by (simp del: upt_rec_numeral)
qed

lemma strtoll_decimal:
  assumes "ds \<noteq> []" and "\<forall>d \<in> set ds. d < 10"
  shows "strtoll 10 (map (\<lambda>d. 48 + of_nat d) ds) = int (value10 0 ds)"
proof -
  obtain d es where ds: "ds = d # es" using assms(1) by (cases ds) auto
  then have "d < 10" using assms(2) by simp
  then show ?thesis using decimal_no_prefix [of d] parse_decimal [OF assms(2), of 0]
    by (cases es) (simp_all add: strtoll_def ds digit_of_decimal)
qed

subsection \<open>The encoder\<close>

text \<open>Every step of \<^verbatim>\<open>reverse\<close> exchanges neighbouring groups.\<close>

definition swapped :: "nat \<Rightarrow> nat \<Rightarrow> nat" where
  "swapped s k = (if odd (k div s) then k - s else k + s)"

lemma bit_exchange: "k < 64 \<Longrightarrow> bit (drop_bit s (x AND m) OR push_bit s (x AND m') :: 64 word) k \<longleftrightarrow>
    bit x (s + k) \<and> bit m (s + k) \<or> s \<le> k \<and> bit x (k - s) \<and> bit m' (k - s)"
  by (auto simp: bit_or_iff bit_and_iff bit_push_bit_iff bit_drop_bit_eq)

lemma swap1: "k < 64 \<Longrightarrow> bit (drop_bit 1 (x AND 0xaaaaaaaaaaaaaaaa) OR push_bit 1 (x AND 0x5555555555555555) :: 64 word) k \<longleftrightarrow> bit x (swapped 1 k)"
proof -
  assume "k < 64"
  moreover have "\<forall>k \<in> set [0..<64]. (bit x (1 + k) \<and> bit (0xaaaaaaaaaaaaaaaa :: 64 word) (1 + k) \<or> 1 \<le> k \<and> bit x (k - 1) \<and> bit (0x5555555555555555 :: 64 word) (k - 1)) \<longleftrightarrow>
      bit x (swapped 1 k)"
    by (simp add: upt_conv_Cons swapped_def)
  ultimately show ?thesis using bit_exchange [of k 1 x "0xaaaaaaaaaaaaaaaa" "0x5555555555555555"] by simp
qed

lemma swap2: "k < 64 \<Longrightarrow> bit (drop_bit 2 (x AND 0xcccccccccccccccc) OR push_bit 2 (x AND 0x3333333333333333) :: 64 word) k \<longleftrightarrow> bit x (swapped 2 k)"
proof -
  assume "k < 64"
  moreover have "\<forall>k \<in> set [0..<64]. (bit x (2 + k) \<and> bit (0xcccccccccccccccc :: 64 word) (2 + k) \<or> 2 \<le> k \<and> bit x (k - 2) \<and> bit (0x3333333333333333 :: 64 word) (k - 2)) \<longleftrightarrow>
      bit x (swapped 2 k)"
    by (simp add: upt_conv_Cons swapped_def)
  ultimately show ?thesis using bit_exchange [of k 2 x "0xcccccccccccccccc" "0x3333333333333333"] by simp
qed

lemma swap4: "k < 64 \<Longrightarrow> bit (drop_bit 4 (x AND 0xf0f0f0f0f0f0f0f0) OR push_bit 4 (x AND 0x0f0f0f0f0f0f0f0f) :: 64 word) k \<longleftrightarrow> bit x (swapped 4 k)"
proof -
  assume "k < 64"
  moreover have "\<forall>k \<in> set [0..<64]. (bit x (4 + k) \<and> bit (0xf0f0f0f0f0f0f0f0 :: 64 word) (4 + k) \<or> 4 \<le> k \<and> bit x (k - 4) \<and> bit (0x0f0f0f0f0f0f0f0f :: 64 word) (k - 4)) \<longleftrightarrow>
      bit x (swapped 4 k)"
    by (simp add: upt_conv_Cons swapped_def)
  ultimately show ?thesis using bit_exchange [of k 4 x "0xf0f0f0f0f0f0f0f0" "0x0f0f0f0f0f0f0f0f"] by simp
qed

lemma swap8: "k < 64 \<Longrightarrow> bit (drop_bit 8 (x AND 0xff00ff00ff00ff00) OR push_bit 8 (x AND 0x00ff00ff00ff00ff) :: 64 word) k \<longleftrightarrow> bit x (swapped 8 k)"
proof -
  assume "k < 64"
  moreover have "\<forall>k \<in> set [0..<64]. (bit x (8 + k) \<and> bit (0xff00ff00ff00ff00 :: 64 word) (8 + k) \<or> 8 \<le> k \<and> bit x (k - 8) \<and> bit (0x00ff00ff00ff00ff :: 64 word) (k - 8)) \<longleftrightarrow>
      bit x (swapped 8 k)"
    by (simp add: upt_conv_Cons swapped_def)
  ultimately show ?thesis using bit_exchange [of k 8 x "0xff00ff00ff00ff00" "0x00ff00ff00ff00ff"] by simp
qed

lemma swap16: "k < 64 \<Longrightarrow> bit (drop_bit 16 (x AND 0xffff0000ffff0000) OR push_bit 16 (x AND 0x0000ffff0000ffff) :: 64 word) k \<longleftrightarrow> bit x (swapped 16 k)"
proof -
  assume "k < 64"
  moreover have "\<forall>k \<in> set [0..<64]. (bit x (16 + k) \<and> bit (0xffff0000ffff0000 :: 64 word) (16 + k) \<or> 16 \<le> k \<and> bit x (k - 16) \<and> bit (0x0000ffff0000ffff :: 64 word) (k - 16)) \<longleftrightarrow>
      bit x (swapped 16 k)"
    by (simp add: upt_conv_Cons swapped_def)
  ultimately show ?thesis using bit_exchange [of k 16 x "0xffff0000ffff0000" "0x0000ffff0000ffff"] by simp
qed

lemma swapped_less: "k < 64 \<Longrightarrow> s \<in> {1, 2, 4, 8, 16} \<Longrightarrow> swapped s k < 64"
proof -
  assume "k < 64" "s \<in> {1, 2, 4, 8, 16}"
  moreover have "\<forall>s \<in> {1, 2, 4, 8, 16}. \<forall>k \<in> set [0..<64]. swapped s k < 64" by code_simp
  ultimately show ?thesis by (auto simp del: upt_rec_numeral)
qed

lemma bit_reverse64: "k < 64 \<Longrightarrow> bit (reverse64 x) k \<longleftrightarrow> bit x (63 - k)"
proof -
  assume k: "k < 64"
  define j where "j = (if k < 32 then 32 + k else k - 32)"
  have j: "j < 64" using k by (auto simp: j_def)
  have l: "[0..<64] = [0,1,2,3,4,5,6,7,8,9,10,11,12,13,14,15,16,17,18,19,20,21,22,23,24,25,26,27,28,29,30,31,32,33,34,35,36,37,38,39,40,41,42,43,44,45,46,47,48,49,50,51,52,53,54,55,56,57,58,59,60,61,62,63]" by code_simp
  have "list_all (\<lambda>k. swapped 1 (swapped 2 (swapped 4 (swapped 8 (swapped 16 (if k < 32 then 32 + k else k - 32))))) = 63 - k) [0..<64]"
    unfolding l list.pred_inject by (simp add: swapped_def)
  then have n: "swapped 1 (swapped 2 (swapped 4 (swapped 8 (swapped 16 j)))) = 63 - k"
    using k by (simp only: j_def list_all_iff set_upt Ball_def atLeastLessThan_iff le0 simp_thms)
  have last: "bit (drop_bit 32 y OR push_bit 32 y) k \<longleftrightarrow> bit y j" for y :: "64 word"
    using k by (auto simp: j_def bit_or_iff bit_drop_bit_eq bit_push_bit_iff dest: bit_imp_le_length)
  show ?thesis unfolding reverse64_def Let_def last
    by (simp only: swap1 swap2 swap4 swap8 swap16 swapped_less j insert_iff simp_thms n)
qed

text \<open>The bits of a tag with the reversed number \<open>t\<close>.\<close>

definition fdxb_bits :: "64 word \<Rightarrow> bool list" where
  "fdxb_bits t = block_bits (blocks64 (fdxb_high t) @ blocks64 (fdxb_low t (fdxb_crc t)))"

lemma fdxb_bits_length: "length (fdxb_bits t) = 128"
  by (simp add: fdxb_bits_def block_bits_length blocks64_def)

lemma fdxb_bits_nth: "j < 128 \<Longrightarrow> fdxb_bits t ! j \<longleftrightarrow> (if j < 64 then bit (fdxb_high t) (63 - j) else bit (fdxb_low t (fdxb_crc t)) (127 - j))"
proof -
  have "block_bits (bs @ cs) = block_bits bs @ block_bits cs" for bs cs by (simp add: block_bits_def)
  then show "j < 128 \<Longrightarrow> ?thesis"
    by (auto simp: fdxb_bits_def nth_append block_bits64 simp del: upt_rec_numeral)
qed

text \<open>What is sent at a place.\<close>

definition fdxb_plan :: "64 word \<Rightarrow> u16 \<Rightarrow> nat \<Rightarrow> bool" where
  "fdxb_plan t crc j = (if j < 10 then False else if (j - 10) mod 9 = 0 then True
     else let n = (j - 11) - (j - 11) div 9 in
       if n < 64 then bit t (63 - n) else if n < 80 then bit crc (79 - n) else False)"

lemma fdxb_high_plan: "j < 64 \<Longrightarrow> bit (fdxb_high t) (63 - j) \<longleftrightarrow> fdxb_plan t c j"
proof -
  assume "j < 64"
  moreover have "\<forall>j \<in> set [0..<64]. bit (fdxb_high t) (63 - j) \<longleftrightarrow> fdxb_plan t c j"
    unfolding fdxb_high_def fdxb_plan_def
    by (simp add: upt_conv_Cons bit_or_iff bit_and_iff bit_push_bit_iff bit_drop_bit_eq)
  ultimately show ?thesis by (simp del: upt_rec_numeral)
qed

lemma fdxb_low_plan: "j < 64 \<Longrightarrow> bit (fdxb_low t c) (63 - j) \<longleftrightarrow> fdxb_plan t c (64 + j)"
proof -
  assume "j < 64"
  moreover have "\<forall>j \<in> set [0..<64]. bit (fdxb_low t c) (63 - j) \<longleftrightarrow> fdxb_plan t c (64 + j)"
    unfolding fdxb_low_def fdxb_plan_def
    by (simp add: upt_conv_Cons bit_or_iff bit_and_iff bit_push_bit_iff bit_drop_bit_eq bit_ucast_iff)
  ultimately show ?thesis by (simp del: upt_rec_numeral)
qed

lemma fdxb_bits_plan: "j < 128 \<Longrightarrow> fdxb_bits t ! j \<longleftrightarrow> fdxb_plan t (fdxb_crc t) j"
  using fdxb_high_plan [of j t "fdxb_crc t"] fdxb_low_plan [of "j - 64" t "fdxb_crc t"]
  by (cases "j < 64") (simp_all add: fdxb_bits_nth less_imp_diff_less)

subsection \<open>The decoder\<close>

lemma plan_data:
  assumes "i < 80"
  shows "fdxb_plan t c (11 + i + i div 8) \<longleftrightarrow> (if i < 64 then bit t (63 - i) else bit c (79 - i))"
proof -
  define q r where "q = i div 8" and "r = i mod 8"
  have i: "i = 8 * q + r" "r < 8" by (simp_all add: q_def r_def)
  have "(11 + i + i div 8 - 10) mod 9 = Suc r" "(i + i div 8) div 9 = q" using i by simp_all
  moreover have "i + i div 8 - q = i" by (simp add: q_def)
  ultimately show ?thesis using assms by (simp add: fdxb_plan_def Let_def)
qed

lemma plan_control: "fdxb_plan t c (10 + 9 * q)"
  by (simp add: fdxb_plan_def)

text \<open>The data, the CRC and the control bits of a whole tag behind its header.\<close>

lemma fdxb_groups:
  assumes r: "\<And>j. j < 117 \<Longrightarrow> ring_at data p j = bit8 (fdxb_plan t c (11 + j))" and n: "8 * m + n \<le> 80"
  shows "grouped data p (9 * m) n (\<lambda>i. if 8 * m + i < 64 then bit t (63 - (8 * m + i)) else bit c (79 - (8 * m + i)))"
  unfolding grouped_def
proof (intro conjI allI impI)
  fix i assume i: "i < n"
  have pos: "9 * m + i + i div 8 = (8 * m + i) + (8 * m + i) div 8" by simp
  have less: "8 * m + i < 80" "(8 * m + i) + (8 * m + i) div 8 < 89" using i n by linarith+
  show "ring_at data p (9 * m + i + i div 8) =
      bit8 (if 8 * m + i < 64 then bit t (63 - (8 * m + i)) else bit c (79 - (8 * m + i)))"
    unfolding pos using r [of "(8 * m + i) + (8 * m + i) div 8"] less plan_data [OF less(1), of t c] by (simp add: add.assoc)
  assume "i mod 8 = 7"
  then obtain q where "i = 8 * q + 7" using div_mult_mod_eq [of i 8] by (metis mult.commute)
  then have "11 + (9 * m + i + i div 8 + 1) = 10 + 9 * (m + i div 8 + 1)" by simp
  then have "fdxb_plan t c (11 + (9 * m + i + i div 8 + 1))" using plan_control by metis
  then show "ring_at data p (9 * m + i + i div 8 + 1) = 1"
    using r [of "9 * m + i + i div 8 + 1"] less pos by (simp add: add.assoc)
qed

lemma byte_fwd_number: "m < 8 \<Longrightarrow> byte_fwd (\<lambda>i. bit t (63 - i)) m = ucast (drop_bit (56 - 8 * m) t)" for t :: "64 word"
proof (rule bit_word_eqI)
  fix b assume "m < 8" "b < LENGTH(8)"
  then have "63 - (8 * m + (7 - b)) = 56 - 8 * m + b" by simp
  then show "bit (byte_fwd (\<lambda>i. bit t (63 - i)) m) b = bit (ucast (drop_bit (56 - 8 * m) t) :: u8) b"
    using \<open>b < LENGTH(8)\<close> by (simp add: bit_byte_fwd bit_ucast_iff bit_drop_bit_eq)
qed

lemma fdxb_crc_bytes: "fold (\<lambda>b crc. CRC_16_CCITT_update crc b) (map (byte_fwd (\<lambda>i. bit t (63 - i))) [0..<8]) 0 = fdxb_crc t"
  unfolding fdxb_crc_def fold_map by (intro fold_cong refl ext) (simp add: byte_fwd_number)

definition fdxb_content :: "64 word \<Rightarrow> u8 list" where
  "fdxb_content t = fdxb_text (map (byte_rev (\<lambda>i. bit t (63 - i))) [0..<8])"

lemma fdxb_body:
  assumes r: "\<And>j. j < 117 \<Longrightarrow> ring_at data p j = bit8 (fdxb_plan t (fdxb_crc t) (11 + j))"
  shows "fdxb_at data u p = (u, Some (fdxb_content t))"
proof -
  have "grouped data p 0 64 (\<lambda>i. bit t (63 - i))"
    using fdxb_groups [OF r, of 0 64] by (auto simp: grouped_def)
  then have b: "fdxb_bytes data p = Some (71, map (byte_fwd (\<lambda>i. bit t (63 - i))) [0..<8], map (byte_rev (\<lambda>i. bit t (63 - i))) [0..<8])"
    by (rule fdxb_bytes_read)
  have "grouped data p 72 16 (\<lambda>i. bit (fdxb_crc t) (15 - i))"
    using fdxb_groups [OF r, of 8 16] by (auto simp: grouped_def)
  then have c: "checksum_bits data p [0..<16] 72 0 = (fdxb_crc t, Some 89)"
    by (drule_tac checksum_read [where a = 0]) simp
  have "ring_at data p 71 = 1" "ring_at data p 89 = 1"
    using r [of 71] plan_control [of t "fdxb_crc t" 8] r [of 89] plan_control [of t "fdxb_crc t" 10] by simp_all
  then show ?thesis using b c
    by (simp add: fdxb_at_def fdxb_crc_bytes fdxb_content_def del: upt_rec_numeral)
qed

lemma fdxb_only_start:
  assumes k: "0 < k" "k < 128" and r: "repeats (fdxb_bits t) data p k 128"
  shows "\<not> fdxb_start data p"
proof
  assume "fdxb_start data p"
  then have zero: "ring_at data p j = 0" if "j < 10" for j
    using that by (simp add: fdxb_start_def list_all_iff del: upt_rec_numeral)
  define pos where "pos = (if k < 10 then 10 else 10 + 9 * ((k - 2) div 9))"
  have q: "(k - 2) div 9 \<le> 13" using k div_le_mono [of "k - 2" 125 9] by simp
  have "k \<le> pos" "pos - k < 10" "pos < 128" "k + (pos - k) = pos"
    using k q by (auto simp: pos_def)
  moreover have "fdxb_plan t c pos" for c
    using plan_control [of t c 0] plan_control [of t c "(k - 2) div 9"] by (simp add: pos_def)
  ultimately show False using zero [of "pos - k"] repeats_at [OF r, of "pos - k"]
    by (simp add: fdxb_bits_length fdxb_bits_plan)
qed

interpretation fdxb: tag_format fdxb_start 128 11 fdxb_at "()" fdxb_bits "\<lambda>t. True" fdxb_content
proof
  show "length (fdxb_bits t) = 128" for t by (rule fdxb_bits_length)
  have at: "ring_at data p j = bit8 (fdxb_plan t (fdxb_crc t) j)" if "repeats (fdxb_bits t) data p 0 128" "j < 128" for t data p j
    using repeats_whole [OF that(1)] that(2) by (simp add: fdxb_bits_length fdxb_bits_plan)
  show "fdxb_start data p" if "repeats (fdxb_bits t) data p 0 128" for t data p
    using at [OF that] plan_control [of t "fdxb_crc t" 0]
    by (simp add: fdxb_start_def list_all_iff fdxb_plan_def del: upt_rec_numeral)
  show "snd (fdxb_at data () (p + of_nat 11)) = Some (fdxb_content t)" if "repeats (fdxb_bits t) data p 0 128" for t data p
  proof -
    have "ring_at data (p + of_nat 11) j = bit8 (fdxb_plan t (fdxb_crc t) (11 + j))" if "j < 117" for j
      unfolding ring_at_add using at [OF \<open>repeats (fdxb_bits t) data p 0 128\<close>] that by simp
    from fdxb_body [OF this] show ?thesis by simp
  qed
qed (use fdxb_only_start in auto)

subsection \<open>From the text and back\<close>

lemma byte_rev_number: "m < 8 \<Longrightarrow> byte_rev (\<lambda>i. bit (reverse64 x) (63 - i)) m = ucast (drop_bit (56 - 8 * m) x)"
proof (rule bit_word_eqI)
  fix b assume "m < 8" "b < LENGTH(8)"
  then have "8 * (7 - m) + b < 64" "56 - 8 * m + b = 8 * (7 - m) + b" by (simp_all add: diff_mult_distrib2)
  then show "bit (byte_rev (\<lambda>i. bit (reverse64 x) (63 - i)) m) b = bit (ucast (drop_bit (56 - 8 * m) x) :: u8) b"
    using \<open>b < LENGTH(8)\<close> by (simp add: bit_byte_rev bit_ucast_iff bit_drop_bit_eq bit_reverse64)
qed

lemma fdxb_content_number:
  "fdxb_content (reverse64 x) = dec_pad 3 (unat (drop_bit 38 x AND 0x3FF)) @ dec_pad 12 (unat (x AND 0x3FFFFFFFFF))"
proof -
  define b where "b m = (ucast (drop_bit (56 - 8 * m) x) :: u8)" for m
  have bit_b: "bit (b m) n \<longleftrightarrow> n < 8 \<and> bit x (56 - 8 * m + n)" for m n
    by (auto simp: b_def bit_ucast_iff bit_drop_bit_eq)
  have rs: "map (byte_rev (\<lambda>i. bit (reverse64 x) (63 - i))) [0..<8] = map b [0..<8]"
    by (auto simp: byte_rev_number b_def simp del: upt_rec_numeral)
  have c: "(push_bit 2 (ucast (b 2)) OR drop_bit 6 (ucast (b 3))) AND 0x3ff = (ucast (drop_bit 38 x AND 0x3FF) :: u16)"
  proof (rule bit_word_eqI)
    fix n assume n: "n < LENGTH(16)"
    have m: "bit (0x3FF :: u16) n \<longleftrightarrow> n < 10" "bit (0x3FF :: 64 word) n \<longleftrightarrow> n < 10"
      using bit_mask_iff [of 10 n, where 'a = "16 word"] bit_mask_iff [of 10 n, where 'a = "64 word"] n by (simp_all add: mask_eq_exp_minus_1)
    show "bit ((push_bit 2 (ucast (b 2)) OR drop_bit 6 (ucast (b 3))) AND 0x3ff :: u16) n = bit (ucast (drop_bit 38 x AND 0x3FF) :: u16) n"
      using n unfolding bit_and_iff bit_ucast_iff m
      by (cases "2 \<le> n") (auto simp: bit_and_iff bit_or_iff bit_push_bit_iff bit_drop_bit_eq bit_ucast_iff bit_b m)
  qed
  have u: "(push_bit 32 (ucast (b 3)) + push_bit 24 (ucast (b 4)) + push_bit 16 (ucast (b 5)) +
      push_bit 8 (ucast (b 6)) + ucast (b 7)) AND 0x3FFFFFFFFF = x AND 0x3FFFFFFFFF" (is "?s AND _ = _")
  proof -
    have bits: "bit (ucast (b m) :: 64 word) n \<longleftrightarrow> n < 8 \<and> bit x (56 - 8 * m + n)" for m n
      by (auto simp: bit_ucast_iff bit_b)
    have "?s = push_bit 32 (ucast (b 3)) OR push_bit 24 (ucast (b 4)) OR push_bit 16 (ucast (b 5)) OR
      push_bit 8 (ucast (b 6)) OR ucast (b 7)"
      by (subst disjunctive_add_eq_or, rule bit_eqI, force simp: bit_and_iff bit_or_iff bit_push_bit_iff bits)+ (simp add: or.assoc)
    moreover have "bit (\<dots> AND 0x3FFFFFFFFF) n \<longleftrightarrow> bit (x AND 0x3FFFFFFFFF) n" if n: "n < 64" for n
    proof -
      have m: "bit (0x3FFFFFFFFF :: 64 word) n \<longleftrightarrow> n < 38"
        using bit_mask_iff [of 38 n, where 'a = "64 word"] n by (simp add: mask_eq_exp_minus_1)
      consider "n < 8" | "8 \<le> n" "n < 16" | "16 \<le> n" "n < 24" | "24 \<le> n" "n < 32" | "32 \<le> n" "n < 38" | "38 \<le> n" by linarith
      then show ?thesis unfolding bit_and_iff m by cases (auto simp: bit_or_iff bit_push_bit_iff bits)
    qed
    ultimately show ?thesis by (intro bit_word_eqI) simp
  qed
  have "drop_bit 38 x AND 0x3FF = take_bit 10 (drop_bit 38 x)" by (simp add: take_bit_eq_mask mask_eq_exp_minus_1)
  then have v: "unat (ucast (drop_bit 38 x AND 0x3FF) :: u16) = unat (drop_bit 38 x AND 0x3FF)"
    by (simp add: unsigned_ucast_eq unsigned_take_bit_eq)
  have at: "map b [0..<8] ! 2 = b 2" "map b [0..<8] ! 3 = b 3" "map b [0..<8] ! 4 = b 4" "map b [0..<8] ! 5 = b 5"
    "map b [0..<8] ! 6 = b 6" "map b [0..<8] ! 7 = b 7" by (subst nth_map_upt; simp only: add_0; simp)+
  show ?thesis unfolding fdxb_content_def fdxb_text_def rs at Let_def c u v by (rule refl)
qed

lemma bit_int_bound: "0 \<le> c \<Longrightarrow> c < 2 ^ m \<Longrightarrow> bit c n \<Longrightarrow> n < m" for c :: int
  using bit_take_bit_iff [of m c n] by (simp add: take_bit_int_eq_self)

lemma fdxb_number_parts:
  fixes x :: "64 word"
  assumes "0 \<le> c" "c < 2 ^ 10" "0 \<le> u" "u < 2 ^ 38" and x: "x = push_bit 38 (word_of_int c) OR word_of_int u OR 0x8000000000000000"
  shows "unat (drop_bit 38 x AND 0x3FF) = nat c" "unat (x AND 0x3FFFFFFFFF) = nat u"
proof -
  have top: "bit (0x8000000000000000 :: 64 word) n \<longleftrightarrow> n = 63" for n
    using bit_exp_iff [of 63 n, where 'a = "64 word"] by auto
  have bits: "bit x n \<longleftrightarrow> 38 \<le> n \<and> n < 64 \<and> bit c (n - 38) \<or> n < 64 \<and> bit u n \<or> n = 63" for n
    unfolding x bit_or_iff bit_push_bit_iff bit_word_of_int_iff top by auto
  note less = bit_int_bound [OF assms(1,2)] bit_int_bound [OF assms(3,4)]
  have "drop_bit 38 x AND 0x3FF = word_of_int c"
  proof (rule bit_word_eqI)
    fix n assume n: "n < LENGTH(64)"
    have m: "bit (0x3FF :: 64 word) n \<longleftrightarrow> n < 10"
      using bit_mask_iff [of 10 n, where 'a = "64 word"] n by (simp add: mask_eq_exp_minus_1)
    have "\<not> bit u (38 + n)" using less(2) [of "38 + n"] by auto
    then show "bit (drop_bit 38 x AND 0x3FF) n = bit (word_of_int c :: 64 word) n"
      unfolding bit_and_iff m using n less(1) [of n] by (auto simp: bit_drop_bit_eq bits bit_word_of_int_iff)
  qed
  then show "unat (drop_bit 38 x AND 0x3FF) = nat c" using assms(1,2)
    by (simp add: unat_eq_nat_uint uint_word_of_int_eq take_bit_int_eq_self)
  have "x AND 0x3FFFFFFFFF = word_of_int u"
  proof (rule bit_word_eqI)
    fix n assume n: "n < LENGTH(64)"
    have m: "bit (0x3FFFFFFFFF :: 64 word) n \<longleftrightarrow> n < 38"
      using bit_mask_iff [of 38 n, where 'a = "64 word"] n by (simp add: mask_eq_exp_minus_1)
    show "bit (x AND 0x3FFFFFFFFF) n = bit (word_of_int u :: 64 word) n"
      unfolding bit_and_iff m using n less(2) [of n] by (auto simp: bits bit_word_of_int_iff)
  qed
  then show "unat (x AND 0x3FFFFFFFFF) = nat u" using assms(3,4)
    by (simp add: unat_eq_nat_uint uint_word_of_int_eq take_bit_int_eq_self)
qed

lemma value10_bound: "\<forall>d \<in> set ds. d < 10 \<Longrightarrow> value10 x ds < (x + 1) * 10 ^ length ds"
proof (induction ds arbitrary: x)
  case (Cons d ds)
  have "value10 x (d # ds) < (x * 10 + d + 1) * 10 ^ length ds" using Cons by simp
  also have "\<dots> \<le> ((x + 1) * 10) * 10 ^ length ds" using Cons.prems by (intro mult_right_mono) auto
  finally show ?case by (simp add: algebra_simps)
qed simp

text \<open>Decimal digits.\<close>

definition decimal_digit :: "u8 \<Rightarrow> bool" where
  "decimal_digit c \<longleftrightarrow> 48 \<le> c \<and> c \<le> 57"

lemma decimal_digits_map:
  "\<forall>c \<in> set s. decimal_digit c \<Longrightarrow> \<exists>ds. s = map (\<lambda>d. 48 + of_nat d) ds \<and> (\<forall>d \<in> set ds. d < 10)"
proof (induction s)
  case (Cons c s)
  have "unat c = 48 + (unat c - 48)" "unat c - 48 < 10" using Cons.prems by (auto simp: decimal_digit_def word_le_nat_alt)
  then have "c = 48 + of_nat (unat c - 48)" by (metis of_nat_add of_nat_numeral of_nat_unat ucast_id)
  moreover obtain ds where "s = map (\<lambda>d. 48 + of_nat d) ds" "\<forall>d \<in> set ds. d < 10" using Cons by auto
  ultimately show ?case using \<open>unat c - 48 < 10\<close> by (intro exI [of _ "(unat c - 48) # ds"]) simp
qed simp

lemma decimal_digits_dec_pad:
  assumes "\<forall>c \<in> set s. decimal_digit c" and "s \<noteq> []"
  shows "dec_pad (length s) (nat (strtoll 10 s)) = s" "0 \<le> strtoll 10 s" "strtoll 10 s < 10 ^ length s"
proof -
  obtain ds where ds: "s = map (\<lambda>d. 48 + of_nat d) ds" "\<forall>d \<in> set ds. d < 10" using decimal_digits_map [OF assms(1)] by blast
  then have "ds \<noteq> []" using assms(2) by auto
  then have v: "strtoll 10 s = int (value10 0 ds)" using strtoll_decimal ds by simp
  show "dec_pad (length s) (nat (strtoll 10 s)) = s" unfolding v nat_int
    using dec_pad_value [OF \<open>ds \<noteq> []\<close> ds(2)] by (simp add: ds(1))
  show "0 \<le> strtoll 10 s" by (simp add: v)
  have "int (value10 0 ds) < int ((0 + 1) * 10 ^ length ds)" using value10_bound [OF ds(2), of 0] by (simp only: of_nat_less_iff)
  then show "strtoll 10 s < 10 ^ length s" unfolding v by (simp add: ds(1))
qed

lemma encodeISO11785_outcome:
  "encodeISO11785_FDX_B s n = Inr blocks \<Longrightarrow> block_bits blocks = fdxb_bits (reverse64 (fdxb_number s))"
  by (auto simp: encodeISO11785_FDX_B_def fdxb_bits_def Let_def split: if_splits)

lemma fdxb_text_back:
  assumes "encodeISO11785_FDX_B s n = Inr blocks" and digits: "\<forall>c \<in> set s. decimal_digit c"
  shows "fdxb_content (reverse64 (fdxb_number s)) = s"
proof -
  have l: "length s = 15" and u: "(word_of_int (strtoll 10 (drop 3 s)) :: 64 word) \<le> 0x3FFFFFFFFF"
    using assms(1) by (auto simp: encodeISO11785_FDX_B_def split: if_splits)
  have dt: "\<forall>c \<in> set (take 3 s). decimal_digit c" "take 3 s \<noteq> []" "length (take 3 s) = 3"
    and dd: "\<forall>c \<in> set (drop 3 s). decimal_digit c" "drop 3 s \<noteq> []" "length (drop 3 s) = 12"
    using digits l by (auto dest: in_set_takeD in_set_dropD)
  note c = decimal_digits_dec_pad [OF dt(1,2), unfolded dt(3)] and v = decimal_digits_dec_pad [OF dd(1,2), unfolded dd(3)]
  have "uint (word_of_int (strtoll 10 (drop 3 s)) :: 64 word) = strtoll 10 (drop 3 s)"
    using v(2,3) by (simp add: uint_word_of_int_eq take_bit_int_eq_self)
  then have "strtoll 10 (drop 3 s) < 2 ^ 38" using u by (simp add: word_le_def)
  moreover have "strtoll 10 (take 3 s) < 2 ^ 10" using c(3) by simp
  ultimately have "fdxb_content (reverse64 (fdxb_number s)) = take 3 s @ drop 3 s"
    using fdxb_number_parts [OF c(2) _ v(2), of "fdxb_number s"] c(1) v(1) by (simp add: fdxb_content_number fdxb_number_def)
  then show ?thesis by simp
qed

text \<open>C6. A tag that \<^verbatim>\<open>encodeISO11785_FDX_B\<close> has prepared for 15 decimal digits is read back as these
  digits: from wherever the tag is when the stream begins, 255 bits of it make \<^verbatim>\<open>decodeISO11785_FDX_B\<close> accept the
  control bits and the CRC and return with the text and the protocol.\<close>

theorem fdxb_written_and_read:
  assumes "encodeISO11785_FDX_B s n = Inr blocks" and "\<forall>c \<in> set s. decimal_digit c"
    and "255 \<le> in_queue p e" and "repeats (block_bits blocks) data p k 255"
  shows "decodeISO11785_FDX_B data p e tag =
    Some (Some (tag\<lparr>tagString := s, protocol := PHIDGET_RFID_PROTOCOL_ISO11785_FDX_B\<rparr>, p + 128))"
  using fdxb.finds_anywhere [of p e "reverse64 (fdxb_number s)" data k] assms encodeISO11785_outcome [OF assms(1)]
    fdxb_text_back [OF assms(1,2)] by (simp add: decodeISO11785_FDX_B_def)

definition fdxb_example :: "u8 list" where
  "fdxb_example = [57, 48, 48, 48, 48, 48, 48, 49, 50, 51, 52, 53, 54, 55, 56]"

theorem fdxb_written_and_read_witness:
  "\<exists>blocks. encodeISO11785_FDX_B fdxb_example 7 = Inr blocks \<and>
    decodeISO11785_FDX_B (tag_ring (block_bits blocks)) 200 455 rfid_no_tag =
      Some (Some (rfid_no_tag\<lparr>tagString := fdxb_example, protocol := PHIDGET_RFID_PROTOCOL_ISO11785_FDX_B\<rparr>, 328))"
proof -
  have l: "length fdxb_example = 15" by (simp add: fdxb_example_def)
  have "\<not> (word_of_int (strtoll 10 (drop 3 fdxb_example)) :: 64 word) > 0x3FFFFFFFFF" by code_simp
  then obtain blocks where b: "encodeISO11785_FDX_B fdxb_example 7 = Inr blocks"
    using l by (simp add: encodeISO11785_FDX_B_def Let_def)
  have d: "\<forall>c \<in> set fdxb_example. decimal_digit c" by (simp add: fdxb_example_def decimal_digit_def)
  have "in_queue 200 455 = 255" by code_simp
  moreover have "repeats (block_bits blocks) (tag_ring (block_bits blocks)) 200 200 255"
    using repeats_tag_ring [of 200 255 "block_bits blocks"] by simp
  ultimately show ?thesis using b fdxb_written_and_read [OF b d, of 200 455 "tag_ring (block_bits blocks)" 200 rfid_no_tag] by simp
qed

end
