(* ===== verification/Rfid_Text.thy ===== *)
theory Rfid_Text
  imports Rfid_Fdxb
begin

text \<open>
  Tags in the format of Phidgets (\<^verbatim>\<open>cphidgetrfid.c\<close>), texts of up to 24 characters: the bits that the
  encoder produces, that the decoder reads them back wherever it starts in the stream, and that it misses a tag
  behind a header that was none.
\<close>

subsection \<open>The encoder\<close>

definition phid_crc :: "u8 list \<Rightarrow> u16" where
  "phid_crc d = fold (\<lambda>c crc. CRC_16_CCITT_update crc c) d 0"

definition phid_block0 :: "u16 \<Rightarrow> u32" where
  "phid_block0 crc = 0x00040201 OR (push_bit 2 (ucast crc) AND 0x0003FC00) OR (push_bit 1 (ucast crc) AND 0x000001FE)"

definition phid_blocks :: "u8 list \<Rightarrow> u32 list" where
  "phid_blocks d = fold (\<lambda>i blocks. blocks[i div 4 + 1 := blocks ! (i div 4 + 1) OR push_bit ((184 - 8 * i) mod 32 + 1) (scast (d ! i))])
     [0..<24] (phid_block0 (phid_crc d) # replicate 6 0x01010101)"

lemma encodePHIDGETS_outcome:
  "encodePHIDGETS_TAG s n = Inr blocks \<Longrightarrow> length s \<le> 24 \<and> blocks = phid_blocks (s @ replicate (24 - length s) 0)"
  by (auto simp: encodePHIDGETS_TAG_def phid_blocks_def phid_block0_def phid_crc_def Let_def split: if_splits)

lemma fold_blocks:
  "length (fold (\<lambda>i bl. bl[h i := bl ! (h i) OR w i]) is bl) = length bl"
  "b < length bl \<Longrightarrow> bit (fold (\<lambda>i bl. bl[h i := bl ! (h i) OR w i]) is bl ! b) n \<longleftrightarrow>
    bit (bl ! b :: u32) n \<or> (\<exists>i \<in> set is. h i = b \<and> bit (w i) n)"
proof (induction "is" arbitrary: bl)
  case (Cons i "is")
  { case 2
    then show ?case using Cons.IH(2) [of "bl[h i := bl ! (h i) OR w i]"] by (cases "h i = b") (auto simp: bit_or_iff)
  }
qed simp_all

lemma phid_blocks_length: "length (phid_blocks d) = 7"
  unfolding phid_blocks_def fold_blocks(1) by simp

definition ascii_text :: "u8 list \<Rightarrow> bool" where
  "ascii_text d \<longleftrightarrow> length d = 24 \<and> (\<forall>c \<in> set d. \<not> bit c 7)"

lemma bit_ascii: "ascii_text d \<Longrightarrow> i < 24 \<Longrightarrow> bit (scast (d ! i) :: u32) n \<longleftrightarrow> n < 7 \<and> bit (d ! i) n"
proof -
  assume a: "ascii_text d" "i < 24"
  then have "\<not> bit (d ! i) 7" by (simp add: ascii_text_def)
  moreover have "bit (d ! i) n \<Longrightarrow> n < 8" using bit_imp_le_length [of "d ! i" n] by simp
  ultimately show ?thesis by (cases "n \<le> 7") (auto simp: bit_signed_iff min_def le_less)
qed

lemma phid_shift: "i < 24 \<Longrightarrow> (184 - 8 * i) mod 32 + 1 = 25 - 8 * (i mod 4)" for i :: nat
proof -
  assume "i < 24"
  moreover have "\<forall>i \<in> set [0..<24]. (184 - 8 * i) mod 32 + 1 = 25 - 8 * (i mod 4)" by code_simp
  ultimately show ?thesis by (simp del: upt_rec_numeral)
qed

definition phid_bits :: "u8 list \<Rightarrow> bool list" where
  "phid_bits d = block_bits (phid_blocks d)"

lemma phid_bits_length: "length (phid_bits d) = 224"
  by (simp add: phid_bits_def block_bits_length phid_blocks_length)

lemma phid_bits_data:
  assumes "ascii_text d" and "i < 24" and "r < 8"
  shows "phid_bits d ! (32 + 8 * i + r) \<longleftrightarrow> r = 7 \<or> bit (d ! i) (6 - r) \<and> r \<noteq> 7"
proof -
  define n where "n = 31 - (8 * (i mod 4) + r)"
  have i4: "i mod 4 < 4" by simp
  have n32: "n < 32" by (simp add: n_def)
  have "i = 4 * a + b \<Longrightarrow> 32 + 8 * i + r = 32 * (a + 1) + (8 * b + r)" for a b by simp
  from this [of "i div 4" "i mod 4"] have "32 + 8 * i + r = 32 * (i div 4 + 1) + (8 * (i mod 4) + r)"
    using mult_div_mod_eq [of 4 i] by metis
  moreover have small: "8 * (i mod 4) + r < 32" using assms(3) i4 by linarith
  moreover have "c < 32 \<Longrightarrow> (32 * a + c) div 32 = a \<and> (32 * a + c) mod 32 = c" for a c :: nat by simp
  ultimately have block: "(32 + 8 * i + r) div 32 = i div 4 + 1" "(32 + 8 * i + r) mod 32 = 8 * (i mod 4) + r"
    by metis+
  have "phid_bits d ! (32 + 8 * i + r) \<longleftrightarrow> bit (phid_blocks d ! (i div 4 + 1)) n"
    using assms by (simp add: phid_bits_def block_bits_nth phid_blocks_length n_def block del: One_nat_def add_Suc_right)
  also have "\<dots> \<longleftrightarrow> bit (0x01010101 :: u32) n \<or>
      (\<exists>j \<in> set [0..<24]. j div 4 + 1 = i div 4 + 1 \<and> bit (push_bit ((184 - 8 * j) mod 32 + 1) (scast (d ! j)) :: u32) n)"
    using assms unfolding phid_blocks_def by (subst fold_blocks(2)) simp_all
  also have "bit (0x01010101 :: u32) n \<longleftrightarrow> r = 7"
  proof -
    have "list_all (\<lambda>b. list_all (\<lambda>r. bit (0x01010101 :: u32) (31 - (8 * b + r)) = (r = 7)) [0..<8]) [0..<4]" by code_simp
    then show ?thesis using assms(3) i4 by (simp add: list_all_iff n_def del: upt_rec_numeral)
  qed
  also have "(\<exists>j \<in> set [0..<24]. j div 4 + 1 = i div 4 + 1 \<and> bit (push_bit ((184 - 8 * j) mod 32 + 1) (scast (d ! j)) :: u32) n)
      \<longleftrightarrow> bit (d ! i) (6 - r) \<and> r \<noteq> 7"
  proof -
    have one: "j div 4 + 1 = i div 4 + 1 \<and> bit (push_bit ((184 - 8 * j) mod 32 + 1) (scast (d ! j)) :: u32) n \<longleftrightarrow>
        j = i \<and> r \<noteq> 7 \<and> bit (d ! j) (6 - r)" if j: "j < 24" for j
    proof -
      have "bit (push_bit ((184 - 8 * j) mod 32 + 1) (scast (d ! j)) :: u32) n \<longleftrightarrow>
          25 - 8 * (j mod 4) \<le> n \<and> n - (25 - 8 * (j mod 4)) < 7 \<and> bit (d ! j) (n - (25 - 8 * (j mod 4)))"
        unfolding phid_shift [OF j] bit_push_bit_iff bit_ascii [OF assms(1) j] using n32 by auto
      also have "\<dots> \<longleftrightarrow> j mod 4 = i mod 4 \<and> r \<noteq> 7 \<and> bit (d ! j) (6 - r)"
      proof -
        have "25 - 8 * (j mod 4) \<le> n \<and> n - (25 - 8 * (j mod 4)) < 7 \<longleftrightarrow> j mod 4 = i mod 4 \<and> r \<noteq> 7"
        proof -
          obtain a b where ab: "a = j mod 4" "b = i mod 4" "a < 4" "b < 4" by simp
          then consider "a < b" | "a = b" | "b < a" by linarith
          then show ?thesis unfolding n_def ab(1,2) [symmetric] using ab(3,4) assms(3) by cases auto
        qed
        moreover have "j mod 4 = i mod 4 \<Longrightarrow> n - (25 - 8 * (j mod 4)) = 6 - r" using i4 by (simp add: n_def)
        ultimately show ?thesis by auto
      qed
      finally have "bit (push_bit ((184 - 8 * j) mod 32 + 1) (scast (d ! j)) :: u32) n \<longleftrightarrow>
          j mod 4 = i mod 4 \<and> r \<noteq> 7 \<and> bit (d ! j) (6 - r)" .
      moreover have "j div 4 = i div 4 \<and> j mod 4 = i mod 4 \<longleftrightarrow> j = i" by (metis div_mult_mod_eq)
      ultimately show ?thesis by auto
    qed
    show ?thesis using one assms(2) by (auto simp del: upt_rec_numeral One_nat_def)
  qed
  finally show ?thesis .
qed

text \<open>The header, the CRC and their control bits.\<close>

lemma phid_bits_block0:
  "i < 32 \<Longrightarrow> phid_bits d ! i \<longleftrightarrow> bit (phid_block0 (phid_crc d)) (31 - i)"
proof -
  assume i: "i < 32"
  have "bit (phid_blocks d ! 0) n \<longleftrightarrow> bit (phid_block0 (phid_crc d)) n" for n
    unfolding phid_blocks_def by (subst fold_blocks(2)) simp_all
  then show ?thesis using i by (simp add: phid_bits_def block_bits_nth phid_blocks_length)
qed

lemma phid_block0_bits:
  "i < 13 \<Longrightarrow> \<not> bit (phid_block0 c) (31 - i)"
  "bit (phid_block0 c) 18" "bit (phid_block0 c) 9" "bit (phid_block0 c) 0"
  "i < 16 \<Longrightarrow> bit (phid_block0 c) (31 - (14 + i + i div 8)) \<longleftrightarrow> bit c (15 - i)"
proof -
  have "list_all (\<lambda>i. \<not> bit (phid_block0 c) (31 - i)) [0,1,2,3,4,5,6,7,8,9,10,11,12]"
    by (simp add: phid_block0_def bit_or_iff bit_and_iff bit_push_bit_iff)
  moreover have "[0..<13] = [0,1,2,3,4,5,6,7,8,9,10,11,12::nat]" by code_simp
  ultimately have "list_all (\<lambda>i. \<not> bit (phid_block0 c) (31 - i)) [0..<13]" by (simp only:)
  then show "i < 13 \<Longrightarrow> \<not> bit (phid_block0 c) (31 - i)" by (simp add: list_all_iff del: upt_rec_numeral)
  show "bit (phid_block0 c) 18" "bit (phid_block0 c) 9" "bit (phid_block0 c) 0"
    by (simp_all add: phid_block0_def bit_or_iff bit_and_iff bit_push_bit_iff)
  have "list_all (\<lambda>i. bit (phid_block0 c) (31 - (14 + i + i div 8)) \<longleftrightarrow> bit c (15 - i)) [0,1,2,3,4,5,6,7,8,9,10,11,12,13,14,15]"
    unfolding phid_block0_def bit_or_iff bit_and_iff bit_push_bit_iff bit_ucast_iff by simp
  moreover have "[0..<16] = [0,1,2,3,4,5,6,7,8,9,10,11,12,13,14,15::nat]" by code_simp
  ultimately have "list_all (\<lambda>i. bit (phid_block0 c) (31 - (14 + i + i div 8)) \<longleftrightarrow> bit c (15 - i)) [0..<16]" by (simp only:)
  then show "i < 16 \<Longrightarrow> bit (phid_block0 c) (31 - (14 + i + i div 8)) \<longleftrightarrow> bit c (15 - i)"
    by (simp add: list_all_iff del: upt_rec_numeral)
qed

subsection \<open>The decoder\<close>

text \<open>The loop that reads the characters.\<close>

definition char7 :: "(nat \<Rightarrow> bool) \<Rightarrow> nat \<Rightarrow> u8" where
  "char7 f m = horner_sum of_bool 2 (map (\<lambda>b. f (8 * m + (6 - b))) [0..<7])"

lemma bit_char7: "bit (char7 f m) b \<longleftrightarrow> b < 7 \<and> f (8 * m + (6 - b))"
  by (auto simp: char7_def bit_horner_sum_bit_word_iff simp del: upt_rec_numeral)

lemma char7_step:
  "char7 (upto_bit f (Suc i)) m =
    (if m = i div 8 \<and> i mod 8 \<noteq> 7 then char7 (upto_bit f i) m OR push_bit (6 - i mod 8) (bit8 (f i)) else char7 (upto_bit f i) m)"
proof (rule bit_word_eqI)
  fix b assume "b < LENGTH(8)"
  then have b: "b < 8" by simp
  have "b < 7 \<and> 8 * m + (6 - b) = i \<longleftrightarrow> m = i div 8 \<and> i mod 8 \<noteq> 7 \<and> 6 - i mod 8 = b"
  proof
    assume i: "b < 7 \<and> 8 * m + (6 - b) = i"
    define r where "r = 6 - b"
    have "i = 8 * m + r" "r < 7" using i by (auto simp: r_def)
    then have "i div 8 = m" "i mod 8 = r" by simp_all
    then show "m = i div 8 \<and> i mod 8 \<noteq> 7 \<and> 6 - i mod 8 = b" using i by (simp add: r_def)
  next
    assume "m = i div 8 \<and> i mod 8 \<noteq> 7 \<and> 6 - i mod 8 = b"
    moreover have "i mod 8 \<le> 7" using mod_less_divisor [of 8 i] by simp
    ultimately have "m = i div 8" "6 - b = i mod 8" "b < 7" by auto
    then show "b < 7 \<and> 8 * m + (6 - b) = i" by simp
  qed
  then show "bit (char7 (upto_bit f (Suc i)) m) b = bit (if m = i div 8 \<and> i mod 8 \<noteq> 7
      then char7 (upto_bit f i) m OR push_bit (6 - i mod 8) (bit8 (f i)) else char7 (upto_bit f i) m) b"
    using b by (auto simp: bit_char7 upto_bit_def bit_or_iff bit_push_bit_iff bit8_def bit_1_iff less_Suc_eq)
qed

lemma chars_loop:
  assumes f: "\<And>i. i < 192 \<Longrightarrow> ring_at data p (k + i) = bit8 (f i)" and one: "\<And>i. i < 192 \<Longrightarrow> i mod 8 = 7 \<Longrightarrow> f i"
    and "i \<le> 192"
  shows "cfor [0..<i] (\<lambda>i cs.
     if (i + 1) mod 8 = 0 then if ring_at data p (k + i) \<noteq> 1 then None else Some cs
     else Some (cs[i div 8 := cs ! (i div 8) OR push_bit (6 - i mod 8) (ring_at data p (k + i))])) (replicate 24 0) =
     Some (map (char7 (upto_bit f i)) [0..<24])"
  using assms(3)
proof (induction i)
  case 0
  have "char7 (upto_bit f 0) m = 0" for m by (rule bit_word_eqI) (simp add: bit_char7 upto_bit_def)
  then show ?case by (simp add: map_replicate_const del: upt_rec_numeral)
next
  case (Suc i)
  then have i: "i < 192" by simp
  have m: "(i + 1) mod 8 = 0 \<longleftrightarrow> i mod 8 = 7" by (simp add: mod_Suc)
  have "map (char7 (upto_bit f (Suc i))) [0..<24] = (if i mod 8 = 7 then map (char7 (upto_bit f i)) [0..<24]
      else (map (char7 (upto_bit f i)) [0..<24])[i div 8 := map (char7 (upto_bit f i)) [0..<24] ! (i div 8) OR push_bit (6 - i mod 8) (bit8 (f i))])"
    using i by (auto simp: nth_list_update char7_step intro!: nth_equalityI simp del: upt_rec_numeral)
  then show ?case using Suc.IH i f [OF i] one [OF i] m by (simp add: cfor_snoc del: upt_rec_numeral)
qed

lemma phidgets_chars_read:
  assumes "\<And>i. i < 192 \<Longrightarrow> ring_at data p (k + i) = bit8 (f i)" and "\<And>i. i < 192 \<Longrightarrow> i mod 8 = 7 \<Longrightarrow> f i"
  shows "phidgets_chars data p k = Some (map (char7 f) [0..<24])"
proof -
  have "char7 (upto_bit f 192) m = char7 f m" if "m < 24" for m
  proof (rule bit_word_eqI)
    fix b show "bit (char7 (upto_bit f 192) m) b = bit (char7 f m) b" using that by (auto simp: bit_char7 upto_bit_def)
  qed
  then have "map (char7 (upto_bit f 192)) [0..<24] = map (char7 f) [0..<24]"
    by (intro map_cong refl) (simp only: set_upt atLeastLessThan_iff)
  then show ?thesis using chars_loop [OF assms order_refl] by (simp only: phidgets_chars_def)
qed

lemma phid_groups:
  assumes r: "\<And>j. j < 18 \<Longrightarrow> ring_at data p j = bit8 (bit (phid_block0 c) (17 - j))"
  shows "grouped data p 0 16 (\<lambda>i. bit c (15 - i))"
  unfolding grouped_def
proof (intro conjI allI impI)
  fix i :: nat assume i: "i < 16"
  have less: "i + i div 8 < 17" using i by linarith
  then have "17 - (i + i div 8) = 31 - (14 + i + i div 8)" by simp
  then show "ring_at data p (0 + i + i div 8) = bit8 (bit c (15 - i))"
    using r [of "i + i div 8"] less phid_block0_bits(5) [OF i, of c] by simp
  assume "i mod 8 = 7"
  then have "i = 7 \<or> i = 15" using i by (auto simp: mod_if split: if_splits)
  then show "ring_at data p (0 + i + i div 8 + 1) = 1" using r [of 8] r [of 17] phid_block0_bits(3,4) [of c] by auto
qed

lemma phid_body:
  assumes "ascii_text d" and r: "\<And>j. j < 210 \<Longrightarrow> ring_at data p j = bit8 (phid_bits d ! (14 + j))"
  shows "phidgets_at data a p = (a OR phid_crc d, if a OR phid_crc d = phid_crc d then Some d else None)"
proof -
  have b0: "ring_at data p j = bit8 (bit (phid_block0 (phid_crc d)) (17 - j))" if "j < 18" for j
    using r [of j] that by (simp add: phid_bits_block0)
  have c: "checksum_bits data p [0..<16] 0 a = (a OR phid_crc d, Some 17)"
    using checksum_read [OF phid_groups [OF b0]] by simp
  have one: "ring_at data p 17 = 1" using b0 [of 17] phid_block0_bits(4) by simp
  define f where "f i = phid_bits d ! (32 + i)" for i
  have f: "ring_at data p (18 + i) = bit8 (f i)" if "i < 192" for i
    using r [of "18 + i"] that by (simp add: f_def)
  have fd: "f (8 * m + k) \<longleftrightarrow> k = 7 \<or> bit (d ! m) (6 - k) \<and> k \<noteq> 7" if "m < 24" "k < 8" for m k
    using phid_bits_data [OF assms(1) that] by (simp add: f_def add.assoc)
  have "f i" if "i < 192" "i mod 8 = 7" for i
    using fd [of "i div 8" 7] that mult_div_mod_eq [of 8 i] by (simp add: less_mult_imp_div_less)
  then have chars: "phidgets_chars data p 18 = Some (map (char7 f) [0..<24])" using f by (intro phidgets_chars_read)
  have "char7 f m = d ! m" if m: "m < 24" for m
  proof (rule bit_word_eqI)
    fix b assume "b < LENGTH(8)"
    then have "b < 7 \<or> b = 7" by auto
    moreover have "\<not> bit (d ! m) 7" using assms(1) m by (simp add: ascii_text_def)
    ultimately show "bit (char7 f m) b = bit (d ! m) b" using fd [OF m, of "6 - b"] by (auto simp: bit_char7)
  qed
  then have "map (char7 f) [0..<24] = map ((!) d) [0..<24]" by (intro map_cong refl) (simp only: set_upt atLeastLessThan_iff)
  also have "\<dots> = d" using assms(1) map_nth [of d] by (simp only: ascii_text_def)
  finally have "map (char7 f) [0..<24] = d" .
  then show ?thesis using chars c one by (auto simp: phidgets_at_def phid_crc_def simp del: upt_rec_numeral)
qed

lemma phid_only_start:
  assumes "ascii_text d" and k: "0 < k" "k < 224" and r: "repeats (phid_bits d) data p k 224"
  shows "\<not> phidgets_start data p"
proof
  assume "phidgets_start data p"
  then have zero: "ring_at data p j = 0" if "j < 13" for j
    using that by (simp add: phidgets_start_def list_all_iff del: upt_rec_numeral)
  define pos where "pos = (if k < 14 then 13 else if k < 23 then 22 else if k < 32 then 31 else 32 + 8 * ((k - 32) div 8) + 7)"
  have d: "(k - 32) div 8 < 24" using k by (intro less_mult_imp_div_less) linarith
  have "k \<le> pos" "pos - k < 13" "pos < 224" using k d by (auto simp: pos_def)
  moreover have "phid_bits d ! pos"
    using phid_bits_block0 [of 13 d] phid_bits_block0 [of 22 d] phid_bits_block0 [of 31 d]
      phid_block0_bits(2-4) [of "phid_crc d"] phid_bits_data [OF assms(1) d, of 7] by (simp add: pos_def)
  ultimately show False using zero [of "pos - k"] repeats_at [OF r, of "pos - k"] by (simp add: phid_bits_length)
qed

interpretation phidgets: tag_format phidgets_start 224 14 phidgets_at "0" phid_bits ascii_text "\<lambda>d. d"
proof
  show "length (phid_bits d) = 224" for d by (rule phid_bits_length)
  have at: "ring_at data p j = bit8 (phid_bits d ! j)" if "repeats (phid_bits d) data p 0 224" "j < 224" for d data p j
    using repeats_whole [OF that(1)] that(2) by (simp add: phid_bits_length)
  show "phidgets_start data p" if "repeats (phid_bits d) data p 0 224" for d data p
    using at [OF that] phid_block0_bits(1) [of _ "phid_crc d"] phid_block0_bits(2) [of "phid_crc d"]
    by (simp add: phidgets_start_def list_all_iff phid_bits_block0 del: upt_rec_numeral)
  show "snd (phidgets_at data 0 (p + of_nat 14)) = Some d" if "ascii_text d" "repeats (phid_bits d) data p 0 224" for d data p
  proof -
    have "ring_at data (p + of_nat 14) j = bit8 (phid_bits d ! (14 + j))" if "j < 210" for j
      unfolding ring_at_add using at [OF \<open>repeats (phid_bits d) data p 0 224\<close>] that by simp
    from phid_body [OF that(1) this, of 0] show ?thesis by simp
  qed
qed (use phid_only_start in auto)

text \<open>The text of a tag: a C string, filled up with zeros.\<close>

definition tag_text :: "u8 list \<Rightarrow> bool" where
  "tag_text s \<longleftrightarrow> (\<forall>c \<in> set s. c \<noteq> 0 \<and> \<not> bit c 7)"

lemma tag_text_ascii: "tag_text s \<Longrightarrow> length s \<le> 24 \<Longrightarrow> ascii_text (s @ replicate (24 - length s) 0)"
  by (auto simp: tag_text_def ascii_text_def)

lemma tag_text_back: "tag_text s \<Longrightarrow> takeWhile (\<lambda>c. c \<noteq> 0) (s @ replicate n 0) = s"
proof -
  assume "tag_text s"
  then have "takeWhile (\<lambda>c. c \<noteq> 0) (s @ replicate n 0) = s @ takeWhile (\<lambda>c. c \<noteq> 0) (replicate n 0)"
    by (intro takeWhile_append2) (auto simp: tag_text_def)
  then show ?thesis by (cases n) simp_all
qed

text \<open>C14. A tag that \<^verbatim>\<open>encodePHIDGETS_TAG\<close> has prepared for a text of 7-bit characters is read back as this
  text: from wherever the tag is when the stream begins, 447 bits of it make \<^verbatim>\<open>decodePHIDGETS_TAG\<close> return with the
  text and the protocol.\<close>

theorem phidgets_written_and_read:
  assumes "encodePHIDGETS_TAG s n = Inr blocks" and "tag_text s"
    and "447 \<le> in_queue p e" and "repeats (block_bits blocks) data p k 447"
  shows "decodePHIDGETS_TAG data p e tag = Some (Some (tag\<lparr>tagString := s, protocol := PHIDGET_RFID_PROTOCOL_PHIDGETS\<rparr>, p + 224))"
proof -
  have s: "length s \<le> 24" "blocks = phid_blocks (s @ replicate (24 - length s) 0)"
    using encodePHIDGETS_outcome [OF assms(1)] by auto
  show ?thesis
    using phidgets.finds_anywhere [OF tag_text_ascii [OF assms(2) s(1)], of p e data k] assms(3,4) tag_text_back [OF assms(2)]
    by (simp add: decodePHIDGETS_TAG_def s(2) phid_bits_def)
qed

definition phid_example :: "u8 list" where
  "phid_example = [82, 70, 73, 68]"

lemma phid_example_text: "tag_text phid_example"
  by (simp add: tag_text_def phid_example_def)

lemma phid_example_encoded: "\<exists>blocks. encodePHIDGETS_TAG phid_example 7 = Inr blocks"
  by (simp add: encodePHIDGETS_TAG_def phid_example_def Let_def)

theorem phidgets_written_and_read_witness:
  "\<exists>blocks. encodePHIDGETS_TAG phid_example 7 = Inr blocks \<and>
    decodePHIDGETS_TAG (tag_ring (block_bits blocks)) 100 547 rfid_no_tag =
      Some (Some (rfid_no_tag\<lparr>tagString := phid_example, protocol := PHIDGET_RFID_PROTOCOL_PHIDGETS\<rparr>, 324))"
proof -
  obtain blocks where b: "encodePHIDGETS_TAG phid_example 7 = Inr blocks" using phid_example_encoded by blast
  have "in_queue 100 547 = 447" by code_simp
  moreover have "repeats (block_bits blocks) (tag_ring (block_bits blocks)) 100 100 447"
    using repeats_tag_ring [of 100 447 "block_bits blocks"] by simp
  ultimately show ?thesis
    using b phidgets_written_and_read [OF b phid_example_text, of 100 547 "tag_ring (block_bits blocks)" 100 rfid_no_tag] by simp
qed

subsection \<open>A header that was none\<close>

text \<open>With bits in \<^verbatim>\<open>crcRead\<close> that the CRC does not have, no tag of the stream is accepted.\<close>

lemma stale_crc_hides:
  assumes "ascii_text d" and "a OR phid_crc d \<noteq> phid_crc d" and "0 < in_queue p e" and "repeats (phid_bits d) data p k (in_queue p e)"
  shows "decode_loop (phidgets_start data) 224 14 (phidgets_at data) a p e = Some None"
  using assms(2-)
proof (induction "in_queue p e" arbitrary: a p k rule: less_induct)
  case less
  have pe: "p \<noteq> e" using in_queue_step(1) less.prems(2) by simp
  show ?case
  proof (cases "in_queue p e < 224")
    case True
    then show ?thesis using pe by (subst decode_loop.simps) (simp add: find_start.simps [of _ _ p e])
  next
    case False
    then have n: "224 \<le> in_queue p e" by simp
    show ?thesis
    proof (cases "phidgets_start data p")
      case True
      have r: "repeats (phid_bits d) data p k 224" using repeats_less [OF less.prems(3) n] .
      have "k mod 224 = 0"
      proof (rule ccontr)
        assume "k mod 224 \<noteq> 0"
        moreover have "repeats (phid_bits d) data p (k mod 224) 224"
          using r repeats_mod [of "phid_bits d" data p k] by (simp add: phid_bits_length)
        ultimately show False using phid_only_start [OF assms(1), of "k mod 224"] True by simp
      qed
      then have "repeats (phid_bits d) data p 0 224" using r repeats_mod [of "phid_bits d" data p k] by (simp add: phid_bits_length)
      then have "ring_at data (p + of_nat 14) j = bit8 (phid_bits d ! (14 + j))" if "j < 210" for j
        unfolding ring_at_add using that repeats_whole by (simp add: phid_bits_length)
      from phid_body [OF assms(1) this, of a] have at: "phidgets_at data a (p + 14) = (a OR phid_crc d, None)"
        using less.prems(1) by simp
      have q: "in_queue (p + 15) e = in_queue p e - 15" using in_queue_add [of 15 p e] n by simp
      have "repeats (phid_bits d) data (p + 15) (k + 15) (in_queue (p + 15) e)"
        using repeats_add [of "phid_bits d" data p k 15 "in_queue p e - 15"] less.prems(3) n q by simp
      then have "decode_loop (phidgets_start data) 224 14 (phidgets_at data) (a OR phid_crc d) (p + 15) e = Some None"
        using less.hyps [of "p + 15" "a OR phid_crc d" "k + 15"] less.prems(1) n q by (simp add: or.assoc)
      then show ?thesis using True pe n at
        by (subst decode_loop.simps) (simp add: find_start.simps [of _ _ p e] algebra_simps)
    next
      case False
      have q: "in_queue (p + 1) e = in_queue p e - 1" using in_queue_step(2) n by simp
      have "repeats (phid_bits d) data (p + 1) (Suc k) (in_queue (p + 1) e)"
        using repeats_step [of "phid_bits d" data p k "in_queue p e - 1"] less.prems(3) n q by simp
      then have "decode_loop (phidgets_start data) 224 14 (phidgets_at data) a (p + 1) e = Some None"
        using less.hyps [of "p + 1" a "Suc k"] less.prems(1) n q by simp
      then show ?thesis using decode_loop_skip [of 224 p e "phidgets_start data" 14 "phidgets_at data" a] n False by simp
    qed
  qed
qed

text \<open>C16. \<^verbatim>\<open>crcRead\<close> keeps the bits of a try that failed: after 13 zeros and two ones in front of a tag whose CRC
  begins with a zero, \<^verbatim>\<open>decodePHIDGETS_TAG\<close> finds nothing, however many whole tags follow, although it finds the
  first of them when it starts behind these 15 bits.\<close>

theorem phidgets_false_header_hides_tags:
  assumes "encodePHIDGETS_TAG s n = Inr blocks" and "tag_text s" and "\<not> block_bits blocks ! 14"
    and "in_queue p e = 15 + m" and "224 \<le> m"
    and "\<forall>j < 13. ring_at data p j = 0" and "ring_at data p 13 = 1" and "ring_at data p 14 = 1"
    and "repeats (block_bits blocks) data (p + 15) 0 m"
  shows "decodePHIDGETS_TAG data p e tag = Some None \<and>
    decodePHIDGETS_TAG data (p + 15) e tag =
      Some (Some (tag\<lparr>tagString := s, protocol := PHIDGET_RFID_PROTOCOL_PHIDGETS\<rparr>, p + 239))"
proof
  define d where "d = s @ replicate (24 - length s) 0"
  have d: "ascii_text d" "block_bits blocks = phid_bits d"
    using encodePHIDGETS_outcome [OF assms(1)] tag_text_ascii [OF assms(2)] by (auto simp: d_def phid_bits_def)
  have q: "in_queue (p + 15) e = m" using in_queue_add [of 15 p e] assms(4) by simp
  have r: "repeats (phid_bits d) data (p + 15) 0 m" using assms(9) d(2) by simp
  have "\<not> bit (phid_crc d) 15"
    using assms(3) phid_block0_bits(5) [of 0 "phid_crc d"] by (simp add: d(2) phid_bits_block0)
  then have stale: "0x8000 OR phid_crc d \<noteq> phid_crc d"
  proof -
    have "bit (0x8000 :: u16) 15" by simp
    then show ?thesis using \<open>\<not> bit (phid_crc d) 15\<close> by (metis bit_or_iff)
  qed
  have "ring_at data (p + 15) j = 0" if "j < 13" for j
    using repeats_at [OF r, of j] phid_block0_bits(1) [OF that, of "phid_crc d"] that assms(5)
    by (simp add: phid_bits_length phid_bits_block0)
  then have after: "ring_at data (p + 14) (Suc j) = 0" if "j < 13" for j
    using ring_at_step [of data "p + 14" j] that by (simp add: add.commute)
  have first: "ring_at data (p + 14) 0 = 1" using assms(8) ring_at_add [of data p 14 0] by simp
  have "checksum_bits data (p + 14) [0..<16] 0 0 = (0x8000, None)"
    using first by (simp add: upt_conv_Cons skip_control_def after)
  then have at: "phidgets_at data 0 (p + 14) = (0x8000, None)" by (simp add: phidgets_at_def del: upt_rec_numeral)
  have "phidgets_start data p" using assms(6,7) by (simp add: phidgets_start_def list_all_iff del: upt_rec_numeral)
  then have "decode_loop (phidgets_start data) 224 14 (phidgets_at data) 0 p e =
      decode_loop (phidgets_start data) 224 14 (phidgets_at data) 0x8000 (p + 15) e"
    using in_queue_step(1) [of p e] assms(4,5) at
    by (subst decode_loop.simps) (simp add: find_start.simps [of _ _ p e] algebra_simps)
  then show "decodePHIDGETS_TAG data p e tag = Some None"
    using stale_crc_hides [OF d(1) stale, of "p + 15" e data 0] q r assms(5) by (simp add: decodePHIDGETS_TAG_def)
  have "decode_loop (phidgets_start data) 224 14 (phidgets_at data) 0 (p + 15) e = Some (Some d)"
    using phidgets.finds_after [OF d(1), of 0 "p + 15" e data] q repeats_less [OF r assms(5)] assms(5) repeats_wrap [of "phid_bits d" data "p + 15" 224]
    by (simp add: phid_bits_length)
  then show "decodePHIDGETS_TAG data (p + 15) e tag =
      Some (Some (tag\<lparr>tagString := s, protocol := PHIDGET_RFID_PROTOCOL_PHIDGETS\<rparr>, p + 239))"
    using tag_text_back [OF assms(2)] by (simp add: decodePHIDGETS_TAG_def d_def)
qed

lemma phid_example_crc: "phid_crc (phid_example @ replicate 20 0) = 0x2a17"
proof -
  have z: "replicate 20 (0 :: u8) = [0,0,0,0,0,0,0,0,0,0,0,0,0,0,0,0,0,0,0,0]" by code_simp
  show ?thesis unfolding phid_crc_def phid_example_def z by (simp add: CRC_16_CCITT_update_def Let_def)
qed

text \<open>A ring with such 15 bits in front of a stream.\<close>

definition false_ring :: "bool list \<Rightarrow> u8 list" where
  "false_ring bs = map bit8 (replicate 13 False @ [True, True] @ map (\<lambda>i. bs ! (i mod length bs)) [0..<1009])"

lemma false_ring_at: "j < 1024 \<Longrightarrow> ring_at (false_ring bs) 0 j = bit8 (if j < 13 then False else if j < 15 then True else bs ! ((j - 15) mod length bs))"
proof -
  assume j: "j < 1024"
  then have "unat (0 + of_nat j :: rfid_ptr) = j" by (simp add: unat_of_nat)
  then show ?thesis using j by (simp add: ring_at_def false_ring_def nth_append nth_Cons' del: upt_rec_numeral)
qed

theorem phidgets_false_header_hides_tags_witness:
  "\<exists>blocks. encodePHIDGETS_TAG phid_example 7 = Inr blocks \<and>
    decodePHIDGETS_TAG (false_ring (block_bits blocks)) 0 1000 rfid_no_tag = Some None \<and>
    decodePHIDGETS_TAG (false_ring (block_bits blocks)) 15 1000 rfid_no_tag =
      Some (Some (rfid_no_tag\<lparr>tagString := phid_example, protocol := PHIDGET_RFID_PROTOCOL_PHIDGETS\<rparr>, 239))"
proof -
  obtain blocks where b: "encodePHIDGETS_TAG phid_example 7 = Inr blocks" using phid_example_encoded by blast
  have bits: "block_bits blocks = phid_bits (phid_example @ replicate 20 0)"
    using encodePHIDGETS_outcome [OF b] by (simp add: phid_bits_def phid_example_def)
  have "\<not> block_bits blocks ! 14"
    by (simp add: bits phid_bits_block0 phid_example_crc phid_block0_def bit_or_iff bit_and_iff bit_push_bit_iff)
  moreover have "in_queue 0 1000 = 15 + 985" by code_simp
  moreover have "repeats (block_bits blocks) (false_ring (block_bits blocks)) (0 + 15) 0 985"
    using false_ring_at ring_at_add [of "false_ring (block_bits blocks)" 0 15] by (simp add: repeats_def)
  ultimately show ?thesis
    using b phidgets_false_header_hides_tags [OF b phid_example_text, of 0 1000 985 "false_ring (block_bits blocks)" rfid_no_tag]
    by (simp add: false_ring_at)
qed

end
