(* ===== verification/Rfid_Analyze.thy ===== *)
theory Rfid_Analyze
  imports Rfid_Em
begin

text \<open>
  The analysis of the pulses (\<^verbatim>\<open>analyze_data\<close> of \<^verbatim>\<open>cphidgetrfid.c\<close>): it returns on all data, the two line
  codes are read back, and the pulses of a Manchester-coded EM4100 tag come out as that tag.
\<close>

subsection \<open>The decoders return\<close>

lemma in_queue_zero: "in_queue p e = 0 \<longleftrightarrow> p = e"
  using unat_eq_0 [of "e - p"] by (auto simp: in_queue_def)

lemma find_start_in: "find_start pattern need p e = Some q \<Longrightarrow> p \<noteq> e \<Longrightarrow> 1 < need \<Longrightarrow>
    need \<le> in_queue q e \<and> in_queue q e \<le> in_queue p e"
proof (induction pattern need p e rule: find_start.induct)
  case (1 pattern need p e)
  have n: "0 < in_queue p e" using 1(3) in_queue_zero [of p e] by simp
  show ?case
  proof (cases "in_queue p e < need \<or> pattern p")
    case True
    then show ?thesis using 1(2,3) by (auto simp: find_start.simps [of pattern need p e] split: if_splits)
  next
    case False
    then have f: "find_start pattern need (p + 1) e = Some q" using 1(2,3) by (simp add: find_start.simps [of pattern need p e])
    show ?thesis
    proof (cases "p + 1 = e")
      case True
      then have "in_queue p e = 1" using in_queue_step(2) [OF n] n by (simp add: in_queue_def)
      then show ?thesis using False 1(4) by simp
    next
      case ne: False
      then show ?thesis using 1(1) [OF 1(3) _ _ f ne 1(4)] False in_queue_step(2) [OF n]
        by (auto intro: le_trans [OF _ diff_le_self])
    qed
  qed
qed

lemma decode_loop_returns_inside:
  assumes "adv + 1 < need"
  shows "p \<noteq> e \<Longrightarrow> \<exists>r. decode_loop pattern need adv try c p e = Some r"
proof (induction "in_queue p e" arbitrary: p c rule: less_induct)
  case less
  show ?case
  proof (cases "find_start pattern need p e")
    case None
    then show ?thesis by (subst decode_loop.simps) simp
  next
    case (Some q)
    then have q: "need \<le> in_queue q e" "in_queue q e \<le> in_queue p e" using find_start_in less.prems assms by fastforce+
    obtain c' r where t: "try c (q + of_nat adv) = (c', r)" by (cases "try c (q + of_nat adv)")
    have eq: "q + of_nat adv + 1 = q + of_nat (adv + 1)" by (simp add: add_ac)
    have n: "in_queue (q + of_nat adv + 1) e = in_queue q e - (adv + 1)"
      unfolding eq using q(1) assms by (intro in_queue_add) simp
    then have "q + of_nat adv + 1 \<noteq> e" using q(1) assms in_queue_zero [of "q + of_nat adv + 1" e] by simp
    moreover have "in_queue (q + of_nat adv + 1) e < in_queue p e" using n q assms by simp
    ultimately have "\<exists>r. decode_loop pattern need adv try c' (q + of_nat adv + 1) e = Some r" using less.hyps by blast
    then show ?thesis using Some t by (subst decode_loop.simps) (cases r; auto)
  qed
qed

lemma decode_loop_returns:
  assumes "adv + 1 < need" and "adv < 1023"
  shows "\<exists>r. decode_loop pattern need adv try c p e = Some r"
proof (cases "p = e")
  case True
  obtain c' r where t: "try c (p + of_nat adv) = (c', r)" by (cases "try c (p + of_nat adv)")
  have "p + of_nat adv + 1 \<noteq> e"
  proof
    assume "p + of_nat adv + 1 = e"
    then have "of_nat (adv + 1) = (0 :: rfid_ptr)" using True by (simp add: add_ac)
    moreover have "unat (of_nat (adv + 1) :: rfid_ptr) = adv + 1" using assms(2) by (subst unat_of_nat) simp
    ultimately show False by (metis Suc_eq_plus1 nat.distinct(1) unsigned_0)
  qed
  then have "\<exists>r. decode_loop pattern need adv try c' (p + of_nat adv + 1) e = Some r"
    by (rule decode_loop_returns_inside [OF assms(1)])
  then show ?thesis using True t by (subst decode_loop.simps) (cases r; auto simp: find_start.simps [of _ _ e e])
qed (rule decode_loop_returns_inside [OF assms(1)])

lemma decoders_return:
  "\<exists>r. decodeEM4100 data p e tag = Some r"
  "\<exists>r. decodeISO11785_FDX_B data p e tag = Some r"
  "\<exists>r. decodePHIDGETS_TAG data p e tag = Some r"
proof -
  have "0 + 1 < (64 :: nat)" "(0 :: nat) < 1023" by simp_all
  from decode_loop_returns [OF this] show "\<exists>r. decodeEM4100 data p e tag = Some r"
    unfolding decodeEM4100_def by (metis bind.bind_lunit)
  have "11 + 1 < (128 :: nat)" "(11 :: nat) < 1023" by simp_all
  from decode_loop_returns [OF this] show "\<exists>r. decodeISO11785_FDX_B data p e tag = Some r"
    unfolding decodeISO11785_FDX_B_def by (metis bind.bind_lunit)
  have "14 + 1 < (224 :: nat)" "(14 :: nat) < 1023" by simp_all
  from decode_loop_returns [OF this] show "\<exists>r. decodePHIDGETS_TAG data p e tag = Some r"
    unfolding decodePHIDGETS_TAG_def by (metis bind.bind_lunit)
qed

subsection \<open>The analysis returns\<close>

text \<open>What the line codes and the decoders leave of the record.\<close>

definition same_pulses :: "rfid \<Rightarrow> rfid \<Rightarrow> bool" where
  "same_pulses d d' \<longleftrightarrow> rdataBuffer d' = rdataBuffer d \<and> rdataReadPtr d' = rdataReadPtr d \<and> rdataWritePtr d' = rdataWritePtr d"

lemma same_pulses_refl [simp]: "same_pulses d d"
  by (simp add: same_pulses_def)

lemma same_pulses_trans: "same_pulses a b \<Longrightarrow> same_pulses b c \<Longrightarrow> same_pulses a c"
  by (simp add: same_pulses_def)

lemma manchester_step_pulses: "same_pulses d (manchester_step x d)"
  by (simp add: same_pulses_def manchester_step_def put_man_bit_def Let_def)

lemma add_manchester_pulses: "same_pulses d (add_manchester_data p e d)"
proof (induction p e d rule: add_manchester_data.induct)
  case (1 p e d)
  show ?case
    using 1 same_pulses_trans [OF manchester_step_pulses] by (subst add_manchester_data.simps) (cases "p = e"; simp)
qed

lemma put_biphase_pulses: "same_pulses d (put_biphase_bit b d)"
  by (simp add: same_pulses_def put_biphase_bit_def Let_def)

lemma add_biphase_pulses: "add_biphase_data p e d = (r, d') \<Longrightarrow> same_pulses d d'"
proof (induction p e d arbitrary: r d' rule: add_biphase_data.induct)
  case (1 p e d)
  show ?case
  proof (cases "p = e")
    case True
    then show ?thesis using "1.prems" by (simp add: add_biphase_data.simps [of e e])
  next
    case False
    consider "clocks_of (rdataBuffer d ! unat p) = longClocks d"
      | "clocks_of (rdataBuffer d ! unat p) \<noteq> longClocks d" "clocks_of (rdataBuffer d ! unat p) = shortClocks d"
      | "clocks_of (rdataBuffer d ! unat p) \<noteq> longClocks d" "clocks_of (rdataBuffer d ! unat p) \<noteq> shortClocks d" by blast
    then show ?thesis
    proof cases
      case 1
      then have "same_pulses ((put_biphase_bit 1 d)\<lparr>biphaseLockedIn := True, biphaseShortChange := False\<rparr>) d'"
        using "1.IH"(1) [OF False refl] "1.prems" False by (simp add: add_biphase_data.simps [of p e d])
      then show ?thesis using put_biphase_pulses [of d 1] by (simp add: same_pulses_def)
    next
      case 2
      show ?thesis
      proof (cases "biphaseLockedIn d \<and> biphaseShortChange d")
        case True
        then have "same_pulses ((put_biphase_bit 0 d)\<lparr>biphaseShortChange := False\<rparr>) d'"
          using "1.IH"(2) [OF False refl] 2 "1.prems" False by (simp add: add_biphase_data.simps [of p e d])
        then show ?thesis using put_biphase_pulses [of d 0] by (simp add: same_pulses_def)
      next
        case no: False
        then have "same_pulses (d\<lparr>biphaseShortChange := True\<rparr>) d'"
          using "1.IH"(3) [OF False refl] 2 "1.prems" False
          by (auto simp: add_biphase_data.simps [of p e d] Let_def split: if_splits)
        then show ?thesis by (simp add: same_pulses_def)
      qed
    next
      case 3
      then show ?thesis using "1.prems" False by (auto simp: add_biphase_data.simps [of p e d] same_pulses_def)
    qed
  qed
qed

lemma run_decoder_returns:
  "r = Some r' \<Longrightarrow> (\<And>p d. same_pulses d (upd p d)) \<Longrightarrow>
    \<exists>d' tag' tags'. run_decoder r upd (d, tag, tags) = Some (d', tag', tags') \<and> same_pulses d d' \<and> (\<exists>ts. tags' = tags @ ts)"
  by (cases r') (auto simp: run_decoder_def split: prod.split)

lemma decode_new_returns: "\<exists>d' tags. decode_new e d = Some (d', tags) \<and> same_pulses d d'"
proof -
  define d1 where "d1 = add_manchester_data (rdataReadPtr d) e d"
  have s1: "same_pulses d d1" by (simp add: d1_def add_manchester_pulses)
  obtain x1 where x1: "decodeEM4100 (manBuffer d1) (manReadPtr d1) (manWritePtr d1) rfid_no_tag = Some x1"
    using decoders_return(1) by blast
  obtain d2 tag2 tags2 where r2: "run_decoder (decodeEM4100 (manBuffer d1) (manReadPtr d1) (manWritePtr d1) rfid_no_tag)
      (\<lambda>p d. d\<lparr>manReadPtr := p\<rparr>) (d1, rfid_no_tag, []) = Some (d2, tag2, tags2)" and s2: "same_pulses d1 d2"
    using run_decoder_returns [OF x1, of "\<lambda>p d. d\<lparr>manReadPtr := p\<rparr>" d1 rfid_no_tag "[]"] by (auto simp: same_pulses_def)
  obtain r d3 where b: "add_biphase_data (rdataReadPtr d2) e d2 = (r, d3)" by (cases "add_biphase_data (rdataReadPtr d2) e d2")
  have s3: "same_pulses d d3" using s1 s2 add_biphase_pulses [OF b] same_pulses_trans by blast
  obtain x3 where x3: "decodePHIDGETS_TAG (biphaseBuffer d3) (biphaseReadPtr d3) (biphaseWritePtr d3) tag2 = Some x3"
    using decoders_return(3) by blast
  obtain d4 tag4 tags4 where r4: "run_decoder (decodePHIDGETS_TAG (biphaseBuffer d3) (biphaseReadPtr d3) (biphaseWritePtr d3) tag2)
      (\<lambda>p d. d\<lparr>biphaseReadPtr := p\<rparr>) (d3, tag2, tags2) = Some (d4, tag4, tags4)" and s4: "same_pulses d3 d4"
    using run_decoder_returns [OF x3, of "\<lambda>p d. d\<lparr>biphaseReadPtr := p\<rparr>" d3 tag2 tags2] by (auto simp: same_pulses_def)
  obtain x2 where x2: "decodeISO11785_FDX_B (biphaseBuffer d4) (biphaseReadPtr d4) (biphaseWritePtr d4) tag4 = Some x2"
    using decoders_return(2) by blast
  obtain d5 tag5 tags5 where r5: "run_decoder (decodeISO11785_FDX_B (biphaseBuffer d4) (biphaseReadPtr d4) (biphaseWritePtr d4) tag4)
      (\<lambda>p d. d\<lparr>biphaseReadPtr := p\<rparr>) (d4, tag4, tags4) = Some (d5, tag5, tags5)" and s5: "same_pulses d4 d5"
    using run_decoder_returns [OF x2, of "\<lambda>p d. d\<lparr>biphaseReadPtr := p\<rparr>" d4 tag4 tags4] by (auto simp: same_pulses_def)
  have "same_pulses d d5" using s3 s4 s5 same_pulses_trans by blast
  then show ?thesis using s3 r2 b r4 r5
    by (cases "r = EPHIDGET_OK") (simp_all add: decode_new_def Let_def flip: d1_def)
qed

lemma skip_spaces_pulses:
  "rdataBuffer (skip_spaces d) = rdataBuffer d \<and> rdataWritePtr (skip_spaces d) = rdataWritePtr d \<and>
    in_queue (rdataReadPtr (skip_spaces d)) (rdataWritePtr d) \<le> in_queue (rdataReadPtr d) (rdataWritePtr d) \<and>
    (rdataReadPtr (skip_spaces d) = rdataWritePtr d \<or> rdataBuffer d ! unat (rdataReadPtr (skip_spaces d)) \<noteq> PUNK_INT)"
proof (induction d rule: skip_spaces.induct)
  case (1 d)
  show ?case
  proof (cases "rdataReadPtr d \<noteq> rdataWritePtr d \<and> rdataBuffer d ! unat (rdataReadPtr d) = PUNK_INT")
    case True
    then have "in_queue (rdataReadPtr d + 1) (rdataWritePtr d) \<le> in_queue (rdataReadPtr d) (rdataWritePtr d)"
      using in_queue_step(2) [of "rdataReadPtr d" "rdataWritePtr d"] in_queue_zero [of "rdataReadPtr d" "rdataWritePtr d"] by simp
    then show ?thesis using 1 [OF True] True
      by (subst (1 2 3 4 5) skip_spaces.simps) (auto simp: resetValuesFromSpace_def intro: le_trans)
  next
    case False
    then show ?thesis by (subst (1 2 3 4 5) skip_spaces.simps) auto
  qed
qed

lemma scan_clocks_in:
  "scan_clocks buf p w sl n = Some (p', sl', n') \<Longrightarrow> in_queue p' w \<le> in_queue p w \<and>
    (p \<noteq> w \<longrightarrow> buf ! unat p \<noteq> PUNK_INT \<longrightarrow> in_queue p' w < in_queue p w)"
proof (induction buf p w sl n rule: scan_clocks.induct)
  case (1 buf p w sl n)
  show ?case
  proof (cases "p = w \<or> buf ! unat p = PUNK_INT")
    case True
    then show ?thesis using "1.prems" by (auto simp: scan_clocks.simps [of buf p w])
  next
    case False
    then obtain sl2 where "see_clocks (clocks_of (buf ! unat p)) sl = Some sl2"
      using "1.prems" by (auto simp: scan_clocks.simps [of buf p w] split: option.splits)
    then have "in_queue p' w \<le> in_queue (p + 1) w"
      using "1.IH" [OF False] "1.prems" False by (auto simp: scan_clocks.simps [of buf p w])
    moreover have "0 < in_queue p w" using False in_queue_zero [of p w] by simp
    ultimately have "in_queue p' w < in_queue p w" using in_queue_step(2) [of p w] by linarith
    then show ?thesis by simp
  qed
qed

text \<open>C8. The analysis of the pulses of an RFID reader returns on every content of its buffers: the search for the clock
  lengths starts again one pulse further after a length that does not fit, every search of the three decoders
  ends even where it starts at the end of the ring and runs around it, and each pass leaves fewer pulses.\<close>

theorem rfid_analyze_data_returns: "\<exists>d' tags. rfid_analyze_data d = Some (d', tags)"
proof (induction "in_queue (rdataReadPtr d) (rdataWritePtr d)" arbitrary: d rule: less_induct)
  case less
  define d1 where "d1 = skip_spaces d"
  note sk = skip_spaces_pulses [of d, folded d1_def]
  let ?scan = "scan_clocks (rdataBuffer d1) (rdataReadPtr d1) (rdataWritePtr d1) (shortClocks d1, longClocks d1) 0"
  show ?case
  proof (cases ?scan)
    case None
    then have ne: "rdataReadPtr d1 \<noteq> rdataWritePtr d1" by (auto simp: scan_clocks.simps [of _ "rdataReadPtr d1"])
    let ?d = "resetValuesFromSpace (d1\<lparr>rdataReadPtr := rdataReadPtr d1 + 1\<rparr>)"
    have "0 < in_queue (rdataReadPtr d1) (rdataWritePtr d1)" using ne in_queue_zero by (metis gr0I)
    then have "in_queue (rdataReadPtr ?d) (rdataWritePtr ?d) < in_queue (rdataReadPtr d) (rdataWritePtr d)"
      using in_queue_step(2) [of "rdataReadPtr d1" "rdataWritePtr d1"] sk by (simp add: resetValuesFromSpace_def) linarith
    then show ?thesis using less.hyps [of ?d] None
      by (subst rfid_analyze_data.simps) (simp add: Let_def flip: d1_def)
  next
    case (Some a)
    then obtain p s l n where sc: "?scan = Some (p, (s, l), n)" by (cases a) auto
    note sci = scan_clocks_in [OF sc]
    show ?thesis
    proof (cases "(s = 0 \<or> l = 0) \<and> n = in_queue (rdataReadPtr d1) (rdataWritePtr d1)")
      case True
      then show ?thesis using sc by (subst rfid_analyze_data.simps) (simp add: Let_def flip: d1_def)
    next
      case go: False
      define m where "m = (if s = 0 \<or> l = 0 then Some (d1\<lparr>shortClocks := s, longClocks := l\<rparr>, [])
              else decode_new p (d1\<lparr>shortClocks := min s l, longClocks := max s l\<rparr>))"
      obtain d2 tags where m: "m = Some (d2, tags)" and s2: "same_pulses d1 d2"
      proof (cases "s = 0 \<or> l = 0")
        case True
        then show ?thesis using that by (simp add: m_def same_pulses_def)
      next
        case False
        then show ?thesis using that decode_new_returns [of p "d1\<lparr>shortClocks := min s l, longClocks := max s l\<rparr>"]
          by (auto simp: m_def same_pulses_def)
      qed
      let ?d = "d2\<lparr>rdataReadPtr := p\<rparr>"
      have "\<exists>d' tags'. rfid_analyze_data ?d = Some (d', tags')" if "p \<noteq> rdataWritePtr d1"
      proof -
        have "rdataReadPtr d1 \<noteq> rdataWritePtr d1"
          using sci that in_queue_zero [of p "rdataWritePtr d1"] in_queue_zero [of "rdataReadPtr d1" "rdataWritePtr d1"] by auto
        then have "in_queue p (rdataWritePtr d1) < in_queue (rdataReadPtr d1) (rdataWritePtr d1)" using sci sk by simp
        then show ?thesis using less.hyps [of ?d] s2 sk by (simp add: same_pulses_def)
      qed
      then show ?thesis using sc go m s2
        by (subst rfid_analyze_data.simps) (auto simp: Let_def same_pulses_def m_def simp flip: d1_def)
    qed
  qed
qed

end
