(* ===== verification/Rfid_Pulses.thy ===== *)
theory Rfid_Pulses
  imports Rfid_Analyze
begin

text \<open>
  From pulses to tags (\<^verbatim>\<open>cphidgetrfid.c\<close>): the pulses of a Manchester-coded EM4100 tag make
  \<^verbatim>\<open>analyze_data\<close> call \<^verbatim>\<open>tagEvent\<close> with the text that was written; the pulses of the biphase code give
  its bits.
\<close>

subsection \<open>Pulses in the ring\<close>

definition pulse :: "bool \<Rightarrow> int \<Rightarrow> int" where
  "pulse b c = (if b then 256 + c else c)"

lemma pulse_parts:
  assumes "0 \<le> c" "c < 256"
  shows "clocks_of (pulse b c) = c" "polarity_of (pulse b c) = b"
proof -
  have "x AND 0xFF = x mod 256" for x :: int using take_bit_eq_mask [of 8 x] by (simp add: mask_eq_exp_minus_1 take_bit_eq_mod)
  then show "clocks_of (pulse b c) = c" using assms by (simp add: clocks_of_def pulse_def)
  have "x AND 0x100 \<noteq> 0 \<longleftrightarrow> bit x 8" for x :: int using and_exp_eq_0_iff_not_bit [of x 8] by simp
  then have "polarity_of x \<longleftrightarrow> odd (x div 256)" for x :: int
    by (simp add: polarity_of_def bit_iff_odd)
  then show "polarity_of (pulse b c) = b" using assms by (simp add: pulse_def)
qed

definition holds :: "int list \<Rightarrow> rfid_ptr \<Rightarrow> int list \<Rightarrow> bool" where
  "holds buf p xs \<longleftrightarrow> (\<forall>j < length xs. ring_at buf p j = xs ! j)"

lemma holds_Cons: "holds buf p (x # xs) \<longleftrightarrow> buf ! unat p = x \<and> holds buf (p + 1) xs"
proof -
  have "holds buf p (x # xs) \<longleftrightarrow> ring_at buf p 0 = x \<and> holds buf (p + 1) xs"
    by (simp add: holds_def All_less_Suc2 ring_at_step del: of_nat_Suc)
  then show ?thesis by (simp add: ring_at_def)
qed

lemma ptr_not_end:
  fixes p :: rfid_ptr
  assumes "length (x # xs) \<le> 1023"
  shows "p \<noteq> p + of_nat (length (x # xs))"
proof
  assume "p = p + of_nat (length (x # xs))"
  then have zero: "of_nat (length (x # xs)) = (0 :: rfid_ptr)" by (simp only: add_cancel_right_right)
  have "length (x # xs) = unat (of_nat (length (x # xs)) :: rfid_ptr)"
    using assms by (simp only: unat_of_nat mod_less) simp
  also have "\<dots> = 0" unfolding zero by simp
  finally show False by simp
qed

lemma manchester_pulses:
  "holds (rdataBuffer d) p xs \<Longrightarrow> length xs \<le> 1023 \<Longrightarrow> add_manchester_data p (p + of_nat (length xs)) d = fold manchester_step xs d"
proof (induction xs arbitrary: p d)
  case Nil
  then show ?case by (simp add: add_manchester_data.simps [of p p])
next
  case (Cons x xs)
  have b: "rdataBuffer (manchester_step x d) = rdataBuffer d" using manchester_step_pulses [of d x] by (simp add: same_pulses_def)
  have "add_manchester_data p (p + of_nat (length (x # xs))) d =
      add_manchester_data (p + 1) (p + of_nat (length (x # xs))) (manchester_step x d)"
    using ptr_not_end [OF Cons.prems(2), of p] Cons.prems(1)
    by (subst add_manchester_data.simps) (simp add: holds_Cons del: of_nat_Suc)
  also have "p + of_nat (length (x # xs)) = (p + 1) + of_nat (length xs)" by (simp add: add.assoc)
  also have "add_manchester_data (p + 1) ((p + 1) + of_nat (length xs)) (manchester_step x d) = fold manchester_step xs (manchester_step x d)"
    using Cons by (intro Cons.IH) (simp_all add: holds_Cons b)
  finally show ?case by (simp add: add.assoc)
qed

subsection \<open>Manchester code\<close>

text \<open>A bit that repeats the last one has two short pulses, another bit one long pulse; a bit is the level that ends in its
  middle.\<close>

fun man_pulses :: "int \<Rightarrow> int \<Rightarrow> bool \<Rightarrow> bool list \<Rightarrow> int list" where
  "man_pulses s l q [] = []"
| "man_pulses s l q (b # bs) = (if b = q then [pulse (\<not> b) s, pulse b s] else [pulse b l]) @ man_pulses s l b bs"

definition clocks_ok :: "int \<Rightarrow> int \<Rightarrow> bool" where
  "clocks_ok s l \<longleftrightarrow> 0 < s \<and> l = 2 * s \<and> l < 256"

lemma man_pulses_length: "length (man_pulses s l q bs) \<le> 2 * length bs"
  by (induction bs arbitrary: q) (auto intro: le_SucI)

lemma man_pulses_more: "length bs \<le> length (man_pulses s l q bs)"
  by (induction bs arbitrary: q) (auto intro: le_SucI)

lemma put_man_bit_keeps:
  "longClocks (put_man_bit b d) = longClocks d" "manLockedIn (put_man_bit b d) = manLockedIn d"
  "manShortChange (put_man_bit b d) = manShortChange d"
  by (simp_all add: put_man_bit_def Let_def)

lemma put_man_bit_short: "put_man_bit b (d\<lparr>manShortChange := x\<rparr>) = (put_man_bit b d)\<lparr>manShortChange := x\<rparr>"
  by (simp add: put_man_bit_def Let_def)

lemma man_pulses_bits:
  assumes "clocks_ok s l"
  shows "longClocks d = l \<Longrightarrow> manLockedIn d \<Longrightarrow> \<not> manShortChange d \<Longrightarrow>
    fold manchester_step (man_pulses s l q bs) d = fold put_man_bit bs d"
proof (induction bs arbitrary: q d)
  case (Cons b bs)
  have c: "0 \<le> s" "s < 256" "0 \<le> l" "l < 256" "s \<noteq> l" using assms by (auto simp: clocks_ok_def)
  note parts = pulse_parts [OF c(1,2)] pulse_parts [OF c(3,4)]
  have keep: "d\<lparr>manShortChange := False\<rparr> = d" using Cons.prems by simp
  have "fold manchester_step (if b = q then [pulse (\<not> b) s, pulse b s] else [pulse b l]) d = put_man_bit b d"
  proof (cases "b = q")
    case True
    have "manchester_step (pulse b s) (d\<lparr>manShortChange := True\<rparr>) = (put_man_bit b d)\<lparr>manShortChange := False\<rparr>"
      using Cons.prems c by (simp add: manchester_step_def parts put_man_bit_short)
    also have "\<dots> = put_man_bit b d" using Cons.prems put_man_bit_keeps(3) [of b d] by simp
    finally have second: "manchester_step (pulse b s) (d\<lparr>manShortChange := True\<rparr>) = put_man_bit b d" .
    have "manchester_step (pulse (\<not> b) s) d = d\<lparr>manShortChange := True\<rparr>"
      using Cons.prems c by (simp add: manchester_step_def parts)
    then show ?thesis using True second by simp
  next
    case False
    have "(put_man_bit b d)\<lparr>manLockedIn := True, manShortChange := False\<rparr> = put_man_bit b d"
      using Cons.prems put_man_bit_keeps [of b d] by simp
    then show ?thesis using False Cons.prems c by (simp add: manchester_step_def parts)
  qed
  then show ?case using Cons put_man_bit_keeps [of b d] by simp
qed simp

text \<open>The pulses from any place in the tag on: \<open>q\<close> is the bit before \<open>bs\<close>, and with \<open>half\<close> the second
  half of its pair of short pulses is seen.\<close>

definition tag_pulses :: "int \<Rightarrow> int \<Rightarrow> bool \<Rightarrow> bool \<Rightarrow> bool list \<Rightarrow> int list" where
  "tag_pulses s l half q bs = (if half then [pulse q s] else []) @ man_pulses s l q bs"

text \<open>What the decoder recovers: a decoder that begins while 1 is repeated takes the wrong halves of the short pulses
  for a bit, until a long pulse tells it so.\<close>

definition recovered :: "bool \<Rightarrow> bool list \<Rightarrow> bool list" where
  "recovered q bs = (if q then dropWhile (\<lambda>b. b) bs else bs)"

definition unlocked :: "int \<Rightarrow> rfid \<Rightarrow> bool" where
  "unlocked l d \<longleftrightarrow> longClocks d = l \<and> \<not> manLockedIn d \<and> \<not> manShortChange d"

lemma first_short_ignored:
  assumes "clocks_ok s l" and "unlocked l d"
  shows "manchester_step (pulse False s) d = d"
    and "manchester_step (pulse True s) d = d\<lparr>manShortChange := True, manLockedIn := True\<rparr>"
    and "manchester_step (pulse b l) d = put_man_bit b (d\<lparr>manLockedIn := True\<rparr>)"
proof -
  have c: "0 \<le> s" "s < 256" "0 \<le> l" "l < 256" "s \<noteq> l" using assms by (auto simp: clocks_ok_def)
  note parts = pulse_parts [OF c(1,2)] pulse_parts [OF c(3,4)]
  show "manchester_step (pulse False s) d = d"
    and "manchester_step (pulse True s) d = d\<lparr>manShortChange := True, manLockedIn := True\<rparr>"
    using assms(2) c by (simp_all add: manchester_step_def parts unlocked_def)
  show "manchester_step (pulse b l) d = put_man_bit b (d\<lparr>manLockedIn := True\<rparr>)"
    using assms(2) c by (simp add: manchester_step_def parts unlocked_def put_man_bit_def Let_def)
qed

text \<open>Before a bit other than a repeated 1, the first pulses lock the decoder in step with the bits.\<close>

lemma locks_in_step:
  assumes c: "clocks_ok s l" and u: "unlocked l d" and bs: "bs = b # bs'" and b: "\<not> (q \<and> b)"
  shows "fold manchester_step (man_pulses s l q bs) d = fold put_man_bit bs (d\<lparr>manLockedIn := True\<rparr>)"
proof -
  have r: "0 \<le> s" "s < 256" "s \<noteq> l" using c by (auto simp: clocks_ok_def)
  have "fold manchester_step (if b = q then [pulse (\<not> b) s, pulse b s] else [pulse b l]) d = put_man_bit b (d\<lparr>manLockedIn := True\<rparr>)"
  proof (cases "b = q")
    case True
    then have "\<not> b" using b by simp
    moreover have "manchester_step (pulse False s) (d\<lparr>manShortChange := True, manLockedIn := True\<rparr>) = put_man_bit False (d\<lparr>manLockedIn := True\<rparr>)"
      using u r by (simp add: manchester_step_def pulse_parts unlocked_def put_man_bit_def Let_def)
    ultimately show ?thesis using True first_short_ignored [OF c u] by simp
  qed (simp add: first_short_ignored [OF c u])
  moreover have "fold manchester_step (man_pulses s l b bs') (put_man_bit b (d\<lparr>manLockedIn := True\<rparr>)) =
      fold put_man_bit bs' (put_man_bit b (d\<lparr>manLockedIn := True\<rparr>))"
    using u by (intro man_pulses_bits [OF c]) (simp_all add: put_man_bit_keeps unlocked_def)
  ultimately show ?thesis by (simp add: bs)
qed

text \<open>Out of step, every repeated 1 is taken for a 0; the first 0 comes with a long pulse, at which the decoder forgets them.\<close>

definition out_of_step :: "int \<Rightarrow> rfid \<Rightarrow> bool" where
  "out_of_step l d \<longleftrightarrow> longClocks d = l \<and> manLockedIn d \<and> manShortChange d"

lemma resynchronises:
  assumes c: "clocks_ok s l" and "out_of_step l d" and "length (manBuffer d) = 1024" and "False \<in> set bs"
  shows "\<exists>d'. fold manchester_step (man_pulses s l True bs) d = fold put_man_bit (dropWhile (\<lambda>b. b) bs) d' \<and>
    manReadPtr d' = manWritePtr d' \<and> length (manBuffer d') = 1024"
  using assms(2-)
proof (induction bs arbitrary: d)
  case (Cons b bs)
  have r: "0 \<le> s" "s < 256" "0 \<le> l" "l < 256" "s \<noteq> l" using c by (auto simp: clocks_ok_def)
  note parts = pulse_parts [OF r(1,2)] pulse_parts [OF r(3,4)]
  show ?case
  proof (cases b)
    case True
    let ?d = "put_man_bit False d"
    have keep: "?d\<lparr>manShortChange := True\<rparr> = ?d" using Cons.prems(1) put_man_bit_keeps(3) [of False d] by (simp add: out_of_step_def)
    have "fold manchester_step [pulse False s, pulse True s] d = ?d\<lparr>manShortChange := True\<rparr>"
      using Cons.prems(1) r by (simp add: manchester_step_def parts out_of_step_def put_man_bit_keeps)
    then have "fold manchester_step [pulse False s, pulse True s] d = ?d" unfolding keep .
    moreover have "out_of_step l ?d" "length (manBuffer ?d) = 1024"
      using Cons.prems by (simp_all add: out_of_step_def put_man_bit_keeps) (simp add: put_man_bit_def Let_def)
    ultimately show ?thesis using Cons.IH [of ?d] Cons.prems(3) True by simp
  next
    case False
    let ?d = "d\<lparr>manReadPtr := manWritePtr d, manShortChange := False\<rparr>"
    have "manchester_step (pulse False l) d = put_man_bit False ?d"
      using Cons.prems(1) r by (simp add: manchester_step_def parts out_of_step_def put_man_bit_def Let_def)
    moreover have "fold manchester_step (man_pulses s l False bs) (put_man_bit False ?d) = fold put_man_bit bs (put_man_bit False ?d)"
      using Cons.prems(1) by (intro man_pulses_bits [OF c]) (simp_all add: put_man_bit_keeps out_of_step_def)
    ultimately show ?thesis using False Cons.prems(2) by (intro exI [of _ ?d]) simp
  qed
qed simp

text \<open>From wherever the stream begins, the decoder ends in step with it.\<close>

lemma tag_pulses_bits:
  assumes c: "clocks_ok s l" and u: "unlocked l d" and l: "length (manBuffer d) = 1024" and e: "manReadPtr d = manWritePtr d"
    and bs: "(\<not> q) \<in> set bs"
  shows "\<exists>d'. fold manchester_step (tag_pulses s l half q bs) d = fold put_man_bit (recovered q bs) d' \<and>
    manReadPtr d' = manWritePtr d' \<and> length (manBuffer d') = 1024"
proof -
  obtain b bs' where b: "bs = b # bs'" using bs by (cases bs) auto
  let ?d = "d\<lparr>manShortChange := True, manLockedIn := True\<rparr>" and ?l = "d\<lparr>manLockedIn := True\<rparr>"
  have out: "out_of_step l ?d" "length (manBuffer ?d) = 1024" using u l by (simp_all add: out_of_step_def unlocked_def)
  have lk: "manReadPtr ?l = manWritePtr ?l \<and> length (manBuffer ?l) = 1024" using e l by simp
  consider "\<not> q" | "q" "half" | "q" "\<not> half" "b" | "q" "\<not> half" "\<not> b" by blast
  then show ?thesis
  proof cases
    case 1
    then have "fold manchester_step (tag_pulses s l half q bs) d = fold manchester_step (man_pulses s l q bs) d"
      using first_short_ignored(1) [OF c u] by (simp add: tag_pulses_def)
    also have "\<dots> = fold put_man_bit (recovered q bs) ?l" using 1 locks_in_step [OF c u b, of q] by (simp add: recovered_def)
    finally show ?thesis using lk by blast
  next
    case 2
    then have "fold manchester_step (tag_pulses s l half q bs) d = fold manchester_step (man_pulses s l True bs) ?d"
      using first_short_ignored(2) [OF c u] by (simp add: tag_pulses_def)
    then show ?thesis using resynchronises [OF c out, of bs] bs 2 by (simp add: recovered_def)
  next
    case 3
    then have "fold manchester_step (tag_pulses s l half q bs) d = fold manchester_step (man_pulses s l True bs') ?d"
      using first_short_ignored(1,2) [OF c u] by (simp add: tag_pulses_def b)
    then show ?thesis using resynchronises [OF c out, of bs'] bs 3 by (simp add: recovered_def b)
  next
    case 4
    then have "fold manchester_step (tag_pulses s l half q bs) d = fold put_man_bit (recovered q bs) ?l"
      using locks_in_step [OF c u b, of q] by (simp add: recovered_def tag_pulses_def b)
    then show ?thesis using lk by blast
  qed
qed

text \<open>The bits in the ring of the decoder, when it was empty.\<close>

lemma put_man_bits:
  assumes "length (manBuffer d) = 1024" and "manReadPtr d = manWritePtr d"
  shows "length bs \<le> 1023 \<Longrightarrow> length (manBuffer (fold put_man_bit bs d)) = 1024 \<and>
    manReadPtr (fold put_man_bit bs d) = manReadPtr d \<and>
    manWritePtr (fold put_man_bit bs d) = manReadPtr d + of_nat (length bs) \<and>
    (\<forall>j < length bs. ring_at (manBuffer (fold put_man_bit bs d)) (manReadPtr d) j = bit8 (bs ! j))"
proof (induction bs rule: rev_induct)
  case Nil
  then show ?case using assms by simp
next
  case (snoc b bs)
  let ?d = "fold put_man_bit bs d"
  have ih: "length (manBuffer ?d) = 1024" "manReadPtr ?d = manReadPtr d" "manWritePtr ?d = manReadPtr d + of_nat (length bs)"
    "\<And>j. j < length bs \<Longrightarrow> ring_at (manBuffer ?d) (manReadPtr d) j = bit8 (bs ! j)" using snoc by auto
  have "manReadPtr d + of_nat (length (b # bs)) \<noteq> manReadPtr d"
    using ptr_not_end [of b bs "manReadPtr d"] snoc.prems by (metis length_Cons length_append_singleton)
  then have ne: "manWritePtr ?d + 1 \<noteq> manReadPtr ?d" by (simp add: ih add_ac)
  have step: "put_man_bit b ?d = ?d\<lparr>manBuffer := (manBuffer ?d)[unat (manWritePtr ?d) := bit8 b], manWritePtr := manWritePtr ?d + 1\<rparr>"
    using ne by (simp add: put_man_bit_def bit8_def Let_def)
  have "ring_at ((manBuffer ?d)[unat (manWritePtr ?d) := bit8 b]) (manReadPtr d) j = bit8 ((bs @ [b]) ! j)" if "j < length (bs @ [b])" for j
  proof (cases "j = length bs")
    case True
    have "unat (manReadPtr d + of_nat (length bs)) < 1024" using unsigned_less [of "manReadPtr d + of_nat (length bs)"] by simp
    then show ?thesis using True ih by (simp add: ring_at_def)
  next
    case False
    then have j: "j < length bs" using that by simp
    have "unat (of_nat j :: rfid_ptr) = j" "unat (of_nat (length bs) :: rfid_ptr) = length bs"
      using j snoc.prems by (subst unat_of_nat; simp)+
    then have "(of_nat j :: rfid_ptr) \<noteq> of_nat (length bs)" using j by (metis nat_neq_iff)
    then have "unat (manReadPtr d + of_nat j) \<noteq> unat (manWritePtr ?d)" by (simp add: ih flip: word_unat_eq_iff)
    then show ?thesis using ih(4) [OF j] j by (simp add: ring_at_def nth_append)
  qed
  then show ?case using ih by (simp add: step add_ac)
qed

subsection \<open>The clock lengths\<close>

text \<open>What can have been seen of the clock lengths \<open>s\<close> and \<open>l\<close>.\<close>

definition seen_some :: "int \<Rightarrow> int \<Rightarrow> int \<times> int \<Rightarrow> bool" where
  "seen_some s l sl \<longleftrightarrow> sl \<in> {(0, 0), (s, 0), (l, 0), (s, l), (l, s)}"

lemma see_clocks_step:
  assumes "clocks_ok s l" and "seen_some s l sl" and "c \<in> {s, l}"
  shows "\<exists>sl'. see_clocks c sl = Some sl' \<and> seen_some s l sl' \<and> {fst sl', snd sl'} - {0} = insert c ({fst sl, snd sl} - {0})"
  using assms by (auto simp: clocks_ok_def seen_some_def see_clocks_def)

lemma scan_clocks_pulses:
  assumes "clocks_ok s l"
  shows "holds buf p xs \<Longrightarrow> length xs \<le> 1023 \<Longrightarrow> \<forall>x \<in> set xs. x \<noteq> PUNK_INT \<and> clocks_of x \<in> {s, l} \<Longrightarrow> seen_some s l sl \<Longrightarrow>
    \<exists>sl'. scan_clocks buf p (p + of_nat (length xs)) sl n = Some (p + of_nat (length xs), sl', n + length xs) \<and>
      seen_some s l sl' \<and> {fst sl', snd sl'} - {0} = clocks_of ` set xs \<union> ({fst sl, snd sl} - {0})"
proof (induction xs arbitrary: p sl n)
  case Nil
  then show ?case by (simp add: scan_clocks.simps [of buf p p])
next
  case (Cons x xs)
  obtain sl1 where s1: "see_clocks (clocks_of x) sl = Some sl1" "seen_some s l sl1"
    "{fst sl1, snd sl1} - {0} = insert (clocks_of x) ({fst sl, snd sl} - {0})"
    using see_clocks_step [OF assms Cons.prems(4), of "clocks_of x"] Cons.prems(3) by auto
  have eq: "p + of_nat (length (x # xs)) = (p + 1) + of_nat (length xs)" by (simp add: add.assoc)
  have "scan_clocks buf p (p + of_nat (length (x # xs))) sl n = scan_clocks buf (p + 1) (p + of_nat (length (x # xs))) sl1 (n + 1)"
    using ptr_not_end [OF Cons.prems(2), of p] Cons.prems(1,3) s1(1)
    by (subst scan_clocks.simps) (simp add: holds_Cons del: of_nat_Suc)
  moreover obtain sl2 where "scan_clocks buf (p + 1) ((p + 1) + of_nat (length xs)) sl1 (n + 1) =
      Some ((p + 1) + of_nat (length xs), sl2, n + 1 + length xs)" "seen_some s l sl2"
    "{fst sl2, snd sl2} - {0} = clocks_of ` set xs \<union> ({fst sl1, snd sl1} - {0})"
    using Cons.IH [of "p + 1" sl1 "n + 1"] Cons.prems s1(2) by (auto simp: holds_Cons)
  ultimately show ?case using s1(3) unfolding eq by auto
qed

lemma man_pulses_set: "x \<in> set (man_pulses s l q bs) \<Longrightarrow> \<exists>b. x = pulse b s \<or> x = pulse b l"
  by (induction bs arbitrary: q) (auto split: if_splits)

lemma man_pulses_clocks:
  assumes "clocks_ok s l" and "x \<in> set (man_pulses s l q bs)"
  shows "x \<noteq> PUNK_INT \<and> clocks_of x \<in> {s, l}"
proof -
  have c: "0 \<le> s" "s < 256" "0 \<le> l" "l < 256" using assms(1) by (auto simp: clocks_ok_def)
  obtain b where "x = pulse b s \<or> x = pulse b l" using man_pulses_set [OF assms(2)] by blast
  moreover have "pulse b s \<noteq> PUNK_INT" "pulse b l \<noteq> PUNK_INT" using c by (auto simp: pulse_def PUNK_INT_def)
  ultimately show ?thesis using pulse_parts(1) [OF c(1,2)] pulse_parts(1) [OF c(3,4)] by auto
qed

text \<open>A bit that differs gives a long pulse, one that repeats gives short ones.\<close>

lemma man_pulses_both:
  assumes "bs ! i = bs ! Suc i" and "Suc i < length bs"
  shows "pulse (bs ! i) s \<in> set (man_pulses s l q bs)"
  using assms
proof (induction bs arbitrary: i q)
  case (Cons b bs)
  then show ?case by (cases i; cases bs) auto
qed simp

subsection \<open>EM4100 tags\<close>

text \<open>A device whose analysis has just begun.\<close>

definition analysis_begins :: "rfid \<Rightarrow> bool" where
  "analysis_begins d \<longleftrightarrow> shortClocks d = 0 \<and> longClocks d = 0 \<and> \<not> manLockedIn d \<and> \<not> manShortChange d \<and>
     manReadPtr d = manWritePtr d \<and> length (manBuffer d) = 1024"

lemma run_decoder_keeps: "run_decoder r upd (d, tag, tags) = Some (d', tag', tags') \<Longrightarrow> \<exists>ts. tags' = tags @ ts"
  by (cases r) (auto simp: run_decoder_def split: option.splits prod.splits)

lemma decode_new_first:
  assumes "d1 = add_manchester_data (rdataReadPtr d) e d"
    and "decodeEM4100 (manBuffer d1) (manReadPtr d1) (manWritePtr d1) rfid_no_tag = Some (Some (tag, q))"
  shows "\<exists>d' tags. decode_new e d = Some (d', tag # tags) \<and> rdataWritePtr d' = rdataWritePtr d"
proof -
  obtain d' tags where r: "decode_new e d = Some (d', tags)" and s: "same_pulses d d'" using decode_new_returns by blast
  have "run_decoder (decodeEM4100 (manBuffer d1) (manReadPtr d1) (manWritePtr d1) rfid_no_tag)
      (\<lambda>p d. d\<lparr>manReadPtr := p\<rparr>) (d1, rfid_no_tag, []) = Some (d1\<lparr>manReadPtr := q\<rparr>, tag, [tag])"
    using assms(2) by (simp add: run_decoder_def)
  then have "\<exists>ts. tags = [tag] @ ts"
    using r unfolding decode_new_def Let_def assms(1) [symmetric]
    by (auto split: prod.splits if_splits bind_splits dest!: run_decoder_keeps)
  then show ?thesis using r s by (auto simp: same_pulses_def)
qed

lemma tag_pulses_clocks:
  assumes "clocks_ok s l" and "x \<in> set (tag_pulses s l half q bs)"
  shows "x \<noteq> PUNK_INT \<and> clocks_of x \<in> {s, l}"
proof (cases "x \<in> set (man_pulses s l q bs)")
  case False
  have c: "0 \<le> s" "s < 256" using assms(1) by (auto simp: clocks_ok_def)
  have "x = pulse q s" using assms(2) False by (auto simp: tag_pulses_def split: if_splits)
  moreover have "pulse q s \<noteq> PUNK_INT" using c by (auto simp: pulse_def PUNK_INT_def)
  ultimately show ?thesis using pulse_parts(1) [OF c] by simp
qed (rule man_pulses_clocks [OF assms(1)])

text \<open>Both lengths are among the pulses of bits of which one repeats and one does not.\<close>

lemma man_pulses_long:
  assumes "bs ! i \<noteq> bs ! Suc i" and "Suc i < length bs"
  shows "pulse (bs ! Suc i) l \<in> set (man_pulses s l q bs)"
  using assms
proof (induction bs arbitrary: i q)
  case (Cons b bs)
  then show ?case by (cases i; cases bs) auto
qed simp

lemma tag_pulses_both:
  assumes c: "clocks_ok s l" and i: "Suc i < length bs" "bs ! i = bs ! Suc i" and j: "Suc j < length bs" "bs ! j \<noteq> bs ! Suc j"
  shows "clocks_of ` set (tag_pulses s l half q bs) = {s, l}"
proof
  show "clocks_of ` set (tag_pulses s l half q bs) \<subseteq> {s, l}" using tag_pulses_clocks [OF c] by blast
  have r: "0 \<le> s" "s < 256" "0 \<le> l" "l < 256" using c by (auto simp: clocks_ok_def)
  have "pulse (bs ! i) s \<in> set (tag_pulses s l half q bs)" "pulse (bs ! Suc j) l \<in> set (tag_pulses s l half q bs)"
    using man_pulses_both [OF i(2,1)] man_pulses_long [OF j(2,1)] by (simp_all add: tag_pulses_def)
  then have "clocks_of (pulse (bs ! i) s) \<in> clocks_of ` set (tag_pulses s l half q bs)"
    "clocks_of (pulse (bs ! Suc j) l) \<in> clocks_of ` set (tag_pulses s l half q bs)" by blast+
  then show "{s, l} \<subseteq> clocks_of ` set (tag_pulses s l half q bs)"
    using pulse_parts(1) [OF r(1,2)] pulse_parts(1) [OF r(3,4)] by simp
qed

lemma scan_tag_pulses:
  assumes c: "clocks_ok s l" and both: "clocks_of ` set xs = {s, l}" and cl: "\<forall>y \<in> set xs. y \<noteq> PUNK_INT \<and> clocks_of y \<in> {s, l}"
    and x: "length xs \<le> 1023" and h: "holds buf p xs"
  shows "\<exists>sl. scan_clocks buf p (p + of_nat (length xs)) (0, 0) 0 = Some (p + of_nat (length xs), sl, length xs) \<and> (sl = (s, l) \<or> sl = (l, s))"
proof -
  have "seen_some s l (0, 0)" by (simp add: seen_some_def)
  then obtain sl where sc: "scan_clocks buf p (p + of_nat (length xs)) (0, 0) 0 = Some (p + of_nat (length xs), sl, length xs)"
    and sl: "seen_some s l sl" "{fst sl, snd sl} - {0} = {s, l}"
    using scan_clocks_pulses [OF c h x cl, of "(0, 0)" 0] unfolding both by auto
  have pos: "0 < s" "s < l" using c by (auto simp: clocks_ok_def)
  have "s \<in> {fst sl, snd sl} - {0}" "l \<in> {fst sl, snd sl} - {0}" unfolding sl(2) by simp_all
  then have "sl = (s, l) \<or> sl = (l, s)" using pos by (cases sl) auto
  then show ?thesis using sc by blast
qed

lemma recovered_length: "length (recovered q bs) \<le> length bs"
  by (simp add: recovered_def length_dropWhile_le)

lemma analyze_manchester:
  assumes c: "clocks_ok s l" and b: "analysis_begins d"
    and x: "xs = tag_pulses s l half q bs" and x1: "length xs \<le> 1023"
    and i: "Suc i < length bs" "bs ! i = bs ! Suc i" and j: "Suc j < length bs" "bs ! j \<noteq> bs ! Suc j"
    and h: "holds (rdataBuffer d) (rdataReadPtr d) xs" "rdataWritePtr d = rdataReadPtr d + of_nat (length xs)"
    and dec: "\<And>data p. (\<forall>j < length (recovered q bs). ring_at data p j = bit8 (recovered q bs ! j)) \<Longrightarrow>
      decodeEM4100 data p (p + of_nat (length (recovered q bs))) rfid_no_tag = Some (Some (tag, e p))"
  shows "\<exists>d' tags. rfid_analyze_data d = Some (d', tag # tags)"
proof -
  let ?e = "rdataWritePtr d" and ?r = "recovered q bs"
  have both: "clocks_of ` set xs = {s, l}" unfolding x by (rule tag_pulses_both [OF c i j])
  have cl: "\<forall>y \<in> set xs. y \<noteq> PUNK_INT \<and> clocks_of y \<in> {s, l}" using tag_pulses_clocks [OF c] x by blast
  obtain x0 xs' where xs: "xs = x0 # xs'" using both by (cases xs) auto
  have skip: "skip_spaces d = d" using cl h(1) by (subst skip_spaces.simps) (simp add: xs holds_Cons)
  have pos: "0 < s" "s < l" using c by (auto simp: clocks_ok_def)
  obtain sl where sc: "scan_clocks (rdataBuffer d) (rdataReadPtr d) ?e (0, 0) 0 = Some (?e, sl, length xs)"
    and sl: "sl = (s, l) \<or> sl = (l, s)"
    using scan_tag_pulses [OF c both cl x1 h(1)] h(2) by auto
  define d0 where "d0 = d\<lparr>shortClocks := s, longClocks := l\<rparr>"
  have "unlocked l d0" "length (manBuffer d0) = 1024" "manReadPtr d0 = manWritePtr d0"
    using b by (simp_all add: d0_def unlocked_def analysis_begins_def)
  moreover have "(\<not> q) \<in> set bs"
    using j nth_mem [OF j(1)] nth_mem [of j bs] by (cases "bs ! j"; cases q) auto
  ultimately obtain d2 where man: "fold manchester_step xs d0 = fold put_man_bit ?r d2"
    and d2: "manReadPtr d2 = manWritePtr d2" "length (manBuffer d2) = 1024"
    using tag_pulses_bits [OF c, of d0 q bs half] unfolding x by blast
  have add: "add_manchester_data (rdataReadPtr d0) ?e d0 = fold put_man_bit ?r d2"
    using h x1 manchester_pulses [of d0 "rdataReadPtr d0" xs] man by (simp add: d0_def)
  have "length bs \<le> 1023" using x1 man_pulses_more [of bs s l q] by (simp add: x tag_pulses_def)
  then have "length ?r \<le> 1023" using recovered_length [of q bs] by linarith
  then have "decodeEM4100 (manBuffer (fold put_man_bit ?r d2)) (manReadPtr (fold put_man_bit ?r d2)) (manWritePtr (fold put_man_bit ?r d2)) rfid_no_tag =
      Some (Some (tag, e (manReadPtr d2)))"
    using put_man_bits [OF d2(2,1), of ?r] dec [of "manBuffer (fold put_man_bit ?r d2)" "manReadPtr d2"] by simp
  then obtain d' tags where n: "decode_new ?e d0 = Some (d', tag # tags)" and w: "rdataWritePtr d' = ?e"
    using decode_new_first [OF refl, of d0 ?e tag "e (manReadPtr d2)"] add by (auto simp: d0_def)
  have sc': "scan_clocks (rdataBuffer d) (rdataReadPtr d) ?e (shortClocks d, longClocks d) 0 = Some (?e, sl, length xs)"
    using sc b by (simp add: analysis_begins_def)
  have "rfid_analyze_data d = Some (d'\<lparr>rdataReadPtr := ?e\<rparr>, tag # tags)"
    using sl pos n w by (subst rfid_analyze_data.simps) (auto simp: skip sc' Let_def simp flip: d0_def)
  then show ?thesis by blast
qed

text \<open>Among 64 bits of an EM4100 tag that is repeated is its stop bit 0, so at most 63 bits are lost before the decoder is in
  step, and none when the stream does not begin by repeating a 1.\<close>

lemma recovered_repeats:
  assumes bs: "bs = map (\<lambda>j. em_bits t ! ((k + j) mod 64)) [0..<m]" and m: "(if q \<and> bs ! 0 then 191 else 127) \<le> m"
  obtains c where "recovered q bs = map (\<lambda>j. em_bits t ! ((k + c + j) mod 64)) [0..<m - c]" and "127 \<le> m - c"
proof -
  define c where "c = (if q then length (takeWhile (\<lambda>b. b) bs) else 0)"
  have "recovered q bs = drop c bs" by (simp add: recovered_def c_def dropWhile_eq_drop)
  then have r: "recovered q bs = map (\<lambda>j. em_bits t ! ((k + c + j) mod 64)) [0..<m - c]"
    by (auto simp: bs intro!: nth_equalityI simp: add.assoc)
  have "127 \<le> m - c"
  proof (cases "q \<and> bs ! 0")
    case True
    define i where "i = 63 - k mod 64"
    have "(k + i) mod 64 = (k mod 64 + i) mod 64" by (simp add: mod_add_left_eq)
    also have "\<dots> = 63" by (simp add: i_def)
    finally have i: "i < 64" "(k + i) mod 64 = 63" by (simp_all add: i_def)
    have m: "191 \<le> m" using m True by simp
    then have no: "\<not> bs ! i" using i em_stop [of t] by (simp add: bs)
    have "c \<le> i"
    proof (rule ccontr)
      assume "\<not> c \<le> i"
      then have "i < length (takeWhile (\<lambda>b. b) bs)" using True by (simp add: c_def)
      then have "takeWhile (\<lambda>b. b) bs ! i \<in> set (takeWhile (\<lambda>b. b) bs)" by (rule nth_mem)
      moreover have "takeWhile (\<lambda>b. b) bs ! i = bs ! i" using \<open>i < length (takeWhile (\<lambda>b. b) bs)\<close> by (rule takeWhile_nth)
      ultimately have "bs ! i \<in> set (takeWhile (\<lambda>b. b) bs)" by simp
      then show False using no set_takeWhileD by metis
    qed
    then show ?thesis using m i by simp
  next
    case False
    then have "c = 0" by (cases bs) (auto simp: c_def)
    then show ?thesis using m False by simp
  qed
  then show ?thesis using r that by blast
qed

text \<open>C4. From the antenna to the event: when the pulses of an EM4100 tag in Manchester code are in the ring of an RFID
  reader that has just attached, \<^verbatim>\<open>analyze_data\<close> finds the two clock lengths, recovers the bits and calls
  \<^verbatim>\<open>tagEvent\<close> first of all with the text of ten digits from which the tag was programmed.  There
  are at most 1023 pulses, long ones twice as long as short ones.  They end with a bit and may begin
  anywhere in the tag, after a 0 or after a 1, with a whole bit or in the middle of one: 127 whole bits are enough, or 191 when
  the first of them repeats a 1, as the decoder may then take the wrong halves of the pulses for a bit, until a long pulse brings
  it in step and it starts anew.\<close>

theorem manchester_tag_analyzed:
  assumes "encodeEM4100 t n = Inr blocks" and "length t = 10" and "\<forall>c \<in> set t. hex_lower c"
    and "clocks_ok s l" and "analysis_begins d"
    and bs: "bs = map (\<lambda>j. block_bits blocks ! ((k + j) mod 64)) [0..<m]" and "(if q \<and> bs ! 0 then 191 else 127) \<le> m"
    and xs: "xs = tag_pulses s l half q bs" "length xs \<le> 1023"
    and "holds (rdataBuffer d) (rdataReadPtr d) xs" and "rdataWritePtr d = rdataReadPtr d + of_nat (length xs)"
  shows "\<exists>d' tags. rfid_analyze_data d = Some (d', rfid_no_tag\<lparr>tagString := t, protocol := PHIDGET_RFID_PROTOCOL_EM4100,
    tagData := em_bytes (word_of_int (strtoll 16 t)) @ drop 5 (tagData rfid_no_tag)\<rparr> # tags)"
proof -
  have bits: "block_bits blocks = em_bits (word_of_int (strtoll 16 t))" by (rule encodeEM4100_outcome [OF assms(1)])
  have l: "length bs = m" using bs by simp
  have m: "m \<le> 1023" using xs man_pulses_more [of bs s l q] l by (simp add: tag_pulses_def)
  have m127: "127 \<le> m" using assms(7) by (simp split: if_splits)
  have at: "\<exists>i < 64. (k + i) mod 64 = r" if "r < 64" for r
  proof (intro exI conjI)
    have "(k + (r + (64 - k mod 64)) mod 64) mod 64 = (k mod 64 + (r + (64 - k mod 64))) mod 64"
      by (simp only: mod_add_left_eq mod_add_right_eq)
    also have "k mod 64 + (r + (64 - k mod 64)) = r + 64" using mod_less_divisor [of 64 k] by linarith
    finally show "(k + (r + (64 - k mod 64)) mod 64) mod 64 = r" using that by simp
  qed simp
  obtain i where i: "i < 64" "(k + i) mod 64 = 0" using at [of 0] by auto
  obtain j where j: "j < 64" "(k + j) mod 64 = 63" using at [of 63] by auto
  have "(k + Suc i) mod 64 = 1" "(k + Suc j) mod 64 = 0" using i j by (simp_all add: mod_Suc)
  then have eq: "bs ! i = bs ! Suc i" and ne: "bs ! j \<noteq> bs ! Suc j"
    using i j m127 em_header [of 0] em_header [of 1] em_stop by (simp_all add: bs bits)
  obtain c where r: "recovered q bs = map (\<lambda>j. em_bits (word_of_int (strtoll 16 t)) ! ((k + c + j) mod 64)) [0..<m - c]"
    and mc: "127 \<le> m - c"
    using recovered_repeats [OF bs [unfolded bits] assms(7)] .
  have dec: "decodeEM4100 data p (p + of_nat (length (recovered q bs))) rfid_no_tag =
      Some (Some (em4100_tag (em_bytes (word_of_int (strtoll 16 t))) rfid_no_tag, p + 64))"
    if "\<forall>j < length (recovered q bs). ring_at data p j = bit8 (recovered q bs ! j)" for data p
  proof (rule decodeEM4100_outcome [OF assms(1)])
    have "unat (of_nat (m - c) :: rfid_ptr) = m - c" using m by (subst unat_of_nat) simp
    then show "127 \<le> in_queue p (p + of_nat (length (recovered q bs)))" using mc by (simp add: in_queue_def r)
    show "repeats (block_bits blocks) data p (k + c) 127"
      using that mc by (simp add: repeats_def bits em_bits_length r)
  qed
  have "Suc i < length bs" "Suc j < length bs" using i j m127 l by auto
  then show ?thesis
    using analyze_manchester [OF assms(4,5) xs _ eq _ ne assms(10,11) dec] em_text_back [OF assms(2,3)] by (simp add: em4100_tag_def)
qed

text \<open>Any device of which the analysis begins with these pulses.\<close>

definition with_pulses :: "int list \<Rightarrow> rfid \<Rightarrow> rfid" where
  "with_pulses xs d = d\<lparr>shortClocks := 0, longClocks := 0, manLockedIn := False, manShortChange := False, manReadPtr := 0,
     manWritePtr := 0, manBuffer := replicate 1024 0, rdataBuffer := xs, rdataReadPtr := 0, rdataWritePtr := of_nat (length xs)\<rparr>"

lemma with_pulses_ok:
  assumes "length xs \<le> 1023"
  shows "analysis_begins (with_pulses xs d)" "holds (rdataBuffer (with_pulses xs d)) (rdataReadPtr (with_pulses xs d)) xs"
    "rdataWritePtr (with_pulses xs d) = rdataReadPtr (with_pulses xs d) + of_nat (length xs)"
proof -
  have "unat (of_nat j :: rfid_ptr) = j" if "j < length xs" for j using that assms by (subst unat_of_nat) simp
  then show "holds (rdataBuffer (with_pulses xs d)) (rdataReadPtr (with_pulses xs d)) xs"
    by (simp add: holds_def with_pulses_def ring_at_def)
qed (simp_all add: with_pulses_def analysis_begins_def)

theorem manchester_tag_analyzed_witness:
  "\<exists>blocks xs. encodeEM4100 em_example 7 = Inr blocks \<and>
    xs = tag_pulses 32 64 True True (map (\<lambda>j. block_bits blocks ! ((3 + j) mod 64)) [0..<200]) \<and>
    (\<forall>d. \<exists>d' tags. rfid_analyze_data (with_pulses xs d) = Some (d', rfid_no_tag\<lparr>tagString := em_example,
      protocol := PHIDGET_RFID_PROTOCOL_EM4100, tagData := em_bytes (word_of_int (strtoll 16 em_example)) @ drop 5 (tagData rfid_no_tag)\<rparr> # tags))"
proof -
  obtain blocks where b: "encodeEM4100 em_example 7 = Inr blocks" using em_example_encoded by blast
  define bs where "bs = map (\<lambda>j. block_bits blocks ! ((3 + j) mod 64)) [0..<200]"
  define xs where "xs = tag_pulses 32 64 True True bs"
  have l: "length xs \<le> 1023" using man_pulses_length [of 32 64 True bs] by (simp add: xs_def bs_def tag_pulses_def)
  have c: "clocks_ok 32 64" by (simp add: clocks_ok_def)
  have r: "\<exists>d' tags. rfid_analyze_data (with_pulses xs d) = Some (d', rfid_no_tag\<lparr>tagString := em_example,
      protocol := PHIDGET_RFID_PROTOCOL_EM4100, tagData := em_bytes (word_of_int (strtoll 16 em_example)) @ drop 5 (tagData rfid_no_tag)\<rparr> # tags)" for d
    using manchester_tag_analyzed [OF b em_example_ok c with_pulses_ok(1) [OF l] bs_def _ xs_def l with_pulses_ok(2,3) [OF l]] by simp
  then show ?thesis unfolding xs_def bs_def using b by blast
qed

end
