(* ===== verification/Rfid_Input.thy ===== *)
theory Rfid_Input
  imports Rfid_Decode
begin

text \<open>
  The life of an RFID reader (\<^verbatim>\<open>cphidgetrfid.c\<close>): its variables at attach, incoming packets, and the
  two threads that turn decoded tags into events: the reading thread notes a tag (\<^verbatim>\<open>tagEvent\<close>), the thread
  \<^verbatim>\<open>tagTimerThreadFunction\<close> reports it and reports its loss after 200 ms without a sign of it.  The time of day
  \<^verbatim>\<open>now\<close> is in seconds.
\<close>

subsection \<open>Tags\<close>

text \<open>The test in \<^verbatim>\<open>tagEvent\<close>: no tag is present, or it has another text and the same protocol.\<close>

definition tag_is_new :: "rfid \<Rightarrow> rfid_tag \<Rightarrow> bool" where
  "tag_is_new d tag \<longleftrightarrow> tagPresent d \<noteq> 1 \<or>
     lastTagValid d \<noteq> 0 \<and> tagString (lastTag d) \<noteq> tagString tag \<and> protocol (lastTag d) = protocol tag"

text \<open>The part of \<^verbatim>\<open>tagEvent\<close> under the lock: \<open>None\<close> is to sleep and try again, while the event of
  another tag is pending; the time of the tag has been noted then.\<close>

definition note_time :: "rat \<Rightarrow> rfid \<Rightarrow> rfid" where
  "note_time now d = d\<lparr>lastTagTime := now\<rparr>"

definition try_tagEvent :: "rat \<Rightarrow> rfid_tag \<Rightarrow> rfid \<Rightarrow> rfid option" where
  "try_tagEvent now tag d0 =
     (let d = note_time now d0 in
      if tag_is_new d tag then
        if tagEventPending d then None
        else Some (d\<lparr>pendingTag := tag, tagEventPending := True, tagPresent := 1\<rparr>)
      else Some (d\<lparr>tagPresent := 1\<rparr>))"

text \<open>\<open>sleep\<close> is what the other threads and the clock do during \<^verbatim>\<open>SLEEP(10)\<close>; \<open>None\<close> is not
  returning.\<close>

partial_function (option) tagEvent :: "(rat \<times> rfid \<Rightarrow> rat \<times> rfid) \<Rightarrow> rfid_tag \<Rightarrow> rat \<Rightarrow> rfid \<Rightarrow> (rat \<times> rfid) option" where
  "tagEvent sleep tag now d =
     (case try_tagEvent now tag d of
        Some d \<Rightarrow> Some (now, d)
      | None \<Rightarrow> (case sleep (now, note_time now d) of (now, d) \<Rightarrow> tagEvent sleep tag now d))"

text \<open>A tag that comes as five bytes of a packet.\<close>

definition tag_of_bytes :: "u8 list \<Rightarrow> rfid_tag" where
  "tag_of_bytes bs = em4100_tag bs rfid_no_tag"

definition tagEvent_fromEM4100Data :: "(rat \<times> rfid \<Rightarrow> rat \<times> rfid) \<Rightarrow> u8 list \<Rightarrow> rat \<Rightarrow> rfid \<Rightarrow> (rat \<times> rfid) option" where
  "tagEvent_fromEM4100Data sleep bs now d = tagEvent sleep (tag_of_bytes bs) now d"

text \<open>One round of \<^verbatim>\<open>tagTimerThreadFunction\<close>, in the pieces between which the lock is free: firing the
  pending tag, storing it as the last one, looking for a loss, firing the loss.\<close>

definition fire_tag :: "rfid \<Rightarrow> rfid_event list" where
  "fire_tag d = (let t = pendingTag d in
     (if protocol t = PHIDGET_RFID_PROTOCOL_EM4100 then rfid_fire d (Tag (tagData t)) else []) @
     rfid_fire d (Tag2 (tagString t) (protocol t)))"

definition store_tag :: "rfid \<Rightarrow> rfid" where
  "store_tag d = d\<lparr>lastTag := pendingTag d, lastTagValid := 1, tagEventPending := False\<rparr>"

definition look_for_loss :: "rat \<Rightarrow> rfid \<Rightarrow> rfid \<times> bool" where
  "look_for_loss now d =
     (if tagPresent d \<noteq> 0 \<and> now - lastTagTime d > 1 / 5 then
        if tagPresent d = 1 then (d\<lparr>tagPresent := 0\<rparr>, True)
        else if antennaEchoState d = 1 then (d\<lparr>tagPresent := 0\<rparr>, False) else (d, False)
      else (d, False))"

definition fire_loss :: "rfid \<Rightarrow> rfid_event list" where
  "fire_loss d =
     (if protocol (pendingTag d) = PHIDGET_RFID_PROTOCOL_EM4100 then rfid_fire d (TagLost (tagData (lastTag d))) else []) @
     rfid_fire d (TagLost2 (tagString (lastTag d)) (protocol (lastTag d)))"

definition tagTimer_round :: "rat \<Rightarrow> rfid \<Rightarrow> rfid \<times> rfid_event list" where
  "tagTimer_round now d =
     (let (d, ev) = (if tagEventPending d then (store_tag d, fire_tag d) else (d, []));
          (d, lost) = look_for_loss now d in
      (d, ev @ (if lost then fire_loss d else [])))"

subsection \<open>Attaching\<close>

definition CPhidgetRFID_clearVars :: "rfid \<Rightarrow> ephidget \<times> rfid" where
  "CPhidgetRFID_clearVars d = (EPHIDGET_OK, d\<lparr>antennaEchoState := 3, ledEchoState := 3, tagPresent := 3, lastTagValid := 3,
     outputEchoState := replicate 2 3\<rparr>)"

definition rfid_full_echo :: "int \<Rightarrow> (bool \<times> u8) option" where
  "rfid_full_echo uid =
     (if uid = PHIDUID_RFID_OLD \<or> uid = PHIDUID_RFID then Some (False, 1)
      else if uid = PHIDUID_RFID_2OUTPUT_NO_ECHO then Some (False, 2)
      else if uid = PHIDUID_RFID_2OUTPUT \<or> uid = PHIDUID_RFID_2OUTPUT_READ_WRITE then Some (True, 2)
      else None)"

definition rfid_unknown :: "rfid \<Rightarrow> rfid" where
  "rfid_unknown d = d\<lparr>outputEchoState := replicate (numOutputs d) 2 @ drop (numOutputs d) (outputEchoState d),
     ledEchoState := 2, tagPresent := 2, lastTag := rfid_no_tag, pendingTag := rfid_no_tag, tagEventPending := False,
     lastTagValid := 0, pregapClocksEcho := PUNK_INT, prepulseClocksEcho := PUNK_INT, zeroClocksEcho := PUNK_INT,
     oneClocksEcho := PUNK_INT, spaceClocksEcho := PUNK_INT, postgapClocksEcho := PUNK_INT, eofpulseClocksEcho := PUNK_INT,
     listenDuringEOFEcho := 2, conf4097Echo := PUNK_INT, rdataReadPtr := 0, rdataWritePtr := 0, manReadPtr := 0,
     manWritePtr := 0, biphaseReadPtr := 0, biphaseWritePtr := 0, shortClocks := 0, longClocks := 0, manLockedIn := False,
     biphaseLockedIn := False, manShortChange := False, biphaseShortChange := False\<rparr>"

text \<open>\<^verbatim>\<open>while(readtries-- > 0) { CPhidget_read(phid); if(...) break; }\<close>\<close>

fun read_until :: "('w \<times> rfid \<Rightarrow> 'w \<times> rfid) \<Rightarrow> (rfid \<Rightarrow> bool) \<Rightarrow> nat \<Rightarrow> 'w \<times> rfid \<Rightarrow> 'w \<times> rfid" where
  "read_until read P 0 s = s"
| "read_until read P (Suc n) s = (let s = read s in if P (snd s) then s else read_until read P n s)"

definition keep_tag :: "rfid \<Rightarrow> rfid" where
  "keep_tag d0 =
     (let d = (if antennaEchoState d0 = 1 \<and> tagPresent d0 = 2 then d0\<lparr>tagPresent := 0\<rparr> else d0) in
      if tagPresent d = 1 then d\<lparr>lastTag := pendingTag d, lastTagValid := 1\<rparr> else d)"

definition recover_state :: "rfid \<Rightarrow> rfid" where
  "recover_state d = d\<lparr>outputState := take (numOutputs d) (outputEchoState d) @ drop (numOutputs d) (outputState d),
     antennaState := antennaEchoState d, ledState := ledEchoState d, pregapClocks := pregapClocksEcho d,
     postgapClocks := postgapClocksEcho d, zeroClocks := zeroClocksEcho d, oneClocks := oneClocksEcho d,
     spaceClocks := spaceClocksEcho d, eofpulseClocks := eofpulseClocksEcho d, prepulseClocks := prepulseClocksEcho d,
     listenDuringEOF := listenDuringEOFEcho d, conf4097 := conf4097Echo d\<rparr>"

text \<open>\<^verbatim>\<open>CPhidgetRFID_initAfterOpen\<close>, once the timer thread does not run; \<open>usb_send\<close> is
  \<^verbatim>\<open>CUSBSendPacket\<close> and \<open>read\<close> is \<^verbatim>\<open>CPhidget_read\<close>, which hands a packet to the function
  below.\<close>

definition CPhidgetRFID_initAfterOpen ::
    "('w \<Rightarrow> u8 list \<Rightarrow> 'w \<times> ephidget) \<Rightarrow> ('w \<times> rfid \<Rightarrow> 'w \<times> rfid) \<Rightarrow> rfid \<Rightarrow> 'w \<Rightarrow> ephidget \<times> rfid \<times> 'w" where
  "CPhidgetRFID_initAfterOpen usb_send read d0 w0 =
     (let d = d0\<lparr>routbuf := (routbuf d0)\<lparr>outputPacketLen := 0\<rparr>\<rparr> in
      case rfid_full_echo (deviceUID (rdev d)) of
        None \<Rightarrow> (EPHIDGET_UNEXPECTED, d, w0)
      | Some (full, antenna) \<Rightarrow>
          let d = rfid_unknown (d\<lparr>fullStateEcho := full, antennaEchoState := antenna\<rparr>);
              (w, r) = (if deviceUID (rdev d) = PHIDUID_RFID_OLD then usb_send w0 (replicate 8 0) else (w0, EPHIDGET_OK)) in
          if r \<noteq> EPHIDGET_OK then (r, d, w)
          else
            let (w, d) = (if fullStateEcho d then read (read_until read (\<lambda>d. outputEchoState d ! 0 \<noteq> 2) 16 (w, d)) else (w, d));
                (w, d) = (if deviceUID (rdev d) = PHIDUID_RFID_2OUTPUT_READ_WRITE \<and> rdataWritePtr d \<noteq> 0
                  then read_until read (\<lambda>d. tagPresent d \<noteq> 2) 30 (w, d) else (w, d)) in
            (EPHIDGET_OK, recover_state (keep_tag d), w))"

text \<open>The attached handler's events for a device on this machine; \<open>created\<close> is the outcome of the creation of the
  timer thread, the second component whether it runs.\<close>

definition CPhidgetRFID_eventsAfterOpen :: "bool \<Rightarrow> rfid \<Rightarrow> (ephidget \<times> bool) \<times> rfid_event list" where
  "CPhidgetRFID_eventsAfterOpen created d =
     (let ev = (if fullStateEcho d
          then concat (map (\<lambda>i. if outputEchoState d ! i \<noteq> 2 then rfid_fire d (OutputChange i (outputEchoState d ! i)) else []) [0..<numOutputs d])
          else []) in
      if is_set (rdev d) PHIDGET_ATTACHED_FLAG then
        if created then ((EPHIDGET_OK, True), ev) else ((EPHIDGET_UNEXPECTED, False), ev)
      else ((EPHIDGET_NOTATTACHED, False), ev))"

subsection \<open>Incoming packets\<close>

text \<open>The states in a byte of flags: outputs, LED and antenna.\<close>

definition rfid_flag :: "u8 \<Rightarrow> u8 \<Rightarrow> u8" where
  "rfid_flag b m = (if b AND m \<noteq> 0 then 1 else 0)"

definition echo_outputs :: "u8 \<Rightarrow> nat \<Rightarrow> u8 list" where
  "echo_outputs b n = map (\<lambda>i. rfid_flag b (push_bit i 1)) [0..<n]"

definition echo_timing :: "u8 list \<Rightarrow> rfid \<Rightarrow> rfid" where
  "echo_timing buf d = d\<lparr>pregapClocksEcho := uint (buf ! 2), prepulseClocksEcho := uint (buf ! 7), zeroClocksEcho := uint (buf ! 4),
     oneClocksEcho := uint (buf ! 5), spaceClocksEcho := uint (buf ! 6), postgapClocksEcho := uint (buf ! 3),
     eofpulseClocksEcho := uint (buf ! 8), listenDuringEOFEcho := rfid_flag (buf ! 9) RFID_LISTEN_DURING_EOF_FLAG,
     conf4097Echo := uint (buf ! 10)\<rparr>"

text \<open>A pulse: its polarity and length, snapped to the lengths that the line codes use.\<close>

definition snap_clocks :: "int \<Rightarrow> int option" where
  "snap_clocks c = (if 10 \<le> c \<and> c \<le> 22 then Some 16 else if 26 \<le> c \<and> c \<le> 40 then Some 32
     else if 42 \<le> c \<and> c \<le> 54 then Some 48 else if 56 \<le> c \<and> c \<le> 72 then Some 64
     else if 120 \<le> c \<and> c \<le> 136 then Some 128 else None)"

definition pulse_of :: "u8 \<Rightarrow> int" where
  "pulse_of b = (let x = push_bit 1 (uint b) in
     if x AND 0xFE = 0xFE then PUNK_INT
     else case snap_clocks (x AND 0xff) of None \<Rightarrow> PUNK_INT | Some c \<Rightarrow> (x AND 0x100) OR c)"

definition put_pulse :: "int \<Rightarrow> rfid \<Rightarrow> rfid" where
  "put_pulse x d =
     (let d = d\<lparr>rdataBuffer := (rdataBuffer d)[unat (rdataWritePtr d) := x], rdataWritePtr := rdataWritePtr d + 1\<rparr> in
      if rdataWritePtr d = rdataReadPtr d then d\<lparr>rdataReadPtr := rdataReadPtr d + 1\<rparr> else d)"

definition store_pulses :: "u8 list \<Rightarrow> nat \<Rightarrow> nat \<Rightarrow> rfid \<Rightarrow> rfid option" where
  "store_pulses buffer off n d = cfor [0..<n] (\<lambda>i d. do { b \<leftarrow> cread buffer (i + off); Some (put_pulse (pulse_of b) d) }) d"

text \<open>The calls of \<^verbatim>\<open>tagEvent\<close>, one after the other.\<close>

fun tagEvents :: "(rat \<times> rfid \<Rightarrow> rat \<times> rfid) \<Rightarrow> rfid_tag list \<Rightarrow> rat \<Rightarrow> rfid \<Rightarrow> (rat \<times> rfid) option" where
  "tagEvents sleep [] now d = Some (now, d)"
| "tagEvents sleep (t # ts) now d = do { (now, d) \<leftarrow> tagEvent sleep t now d; tagEvents sleep ts now d }"

text \<open>The new state of outputs, LED and antenna, and the events of the outputs that have changed.\<close>

definition take_state :: "u8 \<Rightarrow> rfid \<Rightarrow> rfid \<times> rfid_event list" where
  "take_state b d0 =
     (let outs = echo_outputs b (numOutputs d0);
          d = d0\<lparr>outputEchoState := outs @ drop (numOutputs d0) (outputEchoState d0),
            ledEchoState := rfid_flag b RFID_LED_FLAG, antennaEchoState := rfid_flag b RFID_ANTENNA_FLAG\<rparr> in
      (d, concat (map (\<lambda>i. if outputEchoState d0 ! i \<noteq> outputEchoState d ! i
            then rfid_fire d (OutputChange i (outputEchoState d ! i)) else []) [0..<numOutputs d])))"

definition CPhidgetRFID_dataInput ::
    "(rat \<times> rfid \<Rightarrow> rat \<times> rfid) \<Rightarrow> rat \<Rightarrow> rfid \<Rightarrow> u8 list \<Rightarrow> int \<Rightarrow> (ephidget \<times> rfid \<times> rfid_event list) option" where
  "CPhidgetRFID_dataInput sleep now d buffer len =
     (if len < 0 then Some (EPHIDGET_INVALIDARG, d, [])
      else if length buffer < 6 then None
      else if deviceUID (rdev d) = PHIDUID_RFID_OLD \<or> deviceUID (rdev d) = PHIDUID_RFID then do {
        (now, d) \<leftarrow> (if take 5 (drop 1 buffer) \<noteq> replicate 5 0 then tagEvent_fromEM4100Data sleep (take 5 (drop 1 buffer)) now d else Some (now, d));
        Some (EPHIDGET_OK, d, []) }
      else if deviceUID (rdev d) = PHIDUID_RFID_2OUTPUT_NO_ECHO \<or> deviceUID (rdev d) = PHIDUID_RFID_2OUTPUT then
        if buffer ! 0 = 0 then do {
          (now, d) \<leftarrow> (if take 5 (drop 1 buffer) \<noteq> replicate 5 0 then tagEvent_fromEM4100Data sleep (take 5 (drop 1 buffer)) now d else Some (now, d));
          Some (EPHIDGET_OK, d, []) }
        else if buffer ! 0 = 1 then
          if fullStateEcho d then case take_state (buffer ! 1) d of (d, ev) \<Rightarrow> Some (EPHIDGET_OK, d, ev)
          else Some (EPHIDGET_OK, d, [])
        else Some (EPHIDGET_UNEXPECTED, d, [])
      else if deviceUID (rdev d) = PHIDUID_RFID_2OUTPUT_READ_WRITE then
        let echo = (buffer ! 0 AND 0x40 \<noteq> 0); n = unat (buffer ! 0 AND 0x3F) in
        if echo \<and> length buffer < 11 then None
        else do {
        d \<leftarrow> store_pulses buffer (if echo then 11 else 1) n (if echo then echo_timing buffer d else d);
        (now, d) \<leftarrow> (if n \<noteq> 0 then do { (d, tags) \<leftarrow> rfid_analyze_data d; tagEvents sleep tags now d } else Some (now, d));
        (case (if echo then take_state (buffer ! 9) d else (d, [])) of (d, ev) \<Rightarrow> Some (EPHIDGET_OK, d, ev)) }
      else Some (EPHIDGET_UNEXPECTED, d, []))"

end
