(* ===== verification/Rfid_Tags.thy ===== *)
theory Rfid_Tags
  imports Rfid_Input
begin

text \<open>
  Tags and events (\<^verbatim>\<open>tagEvent\<close> and \<^verbatim>\<open>tagTimerThreadFunction\<close> of \<^verbatim>\<open>cphidgetrfid.c\<close>): what the user of an
  RFID reader sees of a tag that is read again and again, and the two threads as a relation of steps.
\<close>

subsection \<open>The events of a tag\<close>

definition tag_reported :: "rfid_tag \<Rightarrow> rfid_event list" where
  "tag_reported t = (if protocol t = PHIDGET_RFID_PROTOCOL_EM4100 then [Tag (tagData t)] else []) @ [Tag2 (tagString t) (protocol t)]"

definition tag_lost :: "rfid_tag \<Rightarrow> rfid_event list" where
  "tag_lost t = (if protocol t = PHIDGET_RFID_PROTOCOL_EM4100 then [TagLost (tagData t)] else []) @ [TagLost2 (tagString t) (protocol t)]"

definition attached :: "rfid \<Rightarrow> bool" where
  "attached d \<longleftrightarrow> is_set (rdev d) PHIDGET_ATTACHED_FLAG"

lemma fire_tag_attached: "attached d \<Longrightarrow> fire_tag d = tag_reported (pendingTag d)"
  by (simp add: fire_tag_def tag_reported_def rfid_fire_def attached_def Let_def)

lemma fire_loss_attached: "attached d \<Longrightarrow> pendingTag d = lastTag d \<Longrightarrow> fire_loss d = tag_lost (lastTag d)"
  by (simp add: fire_loss_def tag_lost_def rfid_fire_def attached_def)

text \<open>A tag that is seen at times, each time followed by a round of the timer thread: pairs of times.\<close>

fun watch :: "(rat \<times> rfid \<Rightarrow> rat \<times> rfid) \<Rightarrow> rfid_tag \<Rightarrow> (rat \<times> rat) list \<Rightarrow> rfid \<Rightarrow> (rfid \<times> rfid_event list) option" where
  "watch sleep tag [] d = Some (d, [])"
| "watch sleep tag ((t, u) # ts) d = do {
     (t, d) \<leftarrow> tagEvent sleep tag t d;
     (case tagTimer_round u d of (d, ev) \<Rightarrow> do { (d, ev') \<leftarrow> watch sleep tag ts d; Some (d, ev @ ev') }) }"

definition watched :: "rfid_tag \<Rightarrow> rat \<Rightarrow> rfid \<Rightarrow> bool" where
  "watched tag t d \<longleftrightarrow> attached d \<and> tagPresent d = 1 \<and> \<not> tagEventPending d \<and> lastTag d = tag \<and> pendingTag d = tag \<and>
     lastTagValid d = 1 \<and> lastTagTime d = t"

lemma watch_again: "watched tag t0 d \<Longrightarrow> \<forall>(t, u) \<in> set ts. u - t \<le> 1 / 5 \<Longrightarrow>
    \<exists>d'. watch sleep tag ts d = Some (d', []) \<and> watched tag (if ts = [] then t0 else fst (last ts)) d'"
proof (induction ts arbitrary: t0 d)
  case (Cons tu ts)
  obtain t u where tu: "tu = (t, u)" by (cases tu)
  have u: "u - t \<le> 1 / 5" using Cons.prems(2) tu by simp
  define d1 where "d1 = (note_time t d)\<lparr>tagPresent := 1\<rparr>"
  have "try_tagEvent t tag d = Some d1"
    using Cons.prems(1) by (simp add: try_tagEvent_def tag_is_new_def note_time_def watched_def d1_def Let_def)
  then have e: "tagEvent sleep tag t d = Some (t, d1)" by (subst tagEvent.simps) simp
  have w: "watched tag t d1" using Cons.prems(1) by (simp add: watched_def d1_def note_time_def attached_def)
  then have "tagTimer_round u d1 = (d1, [])" using u by (simp add: tagTimer_round_def look_for_loss_def watched_def)
  moreover obtain d' where "watch sleep tag ts d1 = Some (d', [])" "watched tag (if ts = [] then t else fst (last ts)) d'"
    using Cons.IH [OF w] Cons.prems(2) by auto
  ultimately show ?case using e tu by (auto simp: split: if_splits)
qed simp

lemma watched_lost:
  assumes "watched tag t d" and "v - t > 1 / 5"
  shows "\<exists>d'. tagTimer_round v d = (d', tag_lost tag) \<and> tagPresent d' = 0 \<and> (\<forall>w. tagTimer_round w d' = (d', []))"
proof -
  let ?d = "d\<lparr>tagPresent := 0\<rparr>"
  have "fire_loss ?d = tag_lost tag" using assms(1) fire_loss_attached [of ?d] by (simp add: watched_def attached_def)
  then have "tagTimer_round v d = (?d, tag_lost tag)"
    using assms by (simp add: tagTimer_round_def look_for_loss_def watched_def)
  moreover have "tagTimer_round w ?d = (?d, [])" for w
    using assms(1) by (simp add: tagTimer_round_def look_for_loss_def watched_def)
  ultimately show ?thesis by auto
qed

text \<open>C15. A tag that comes into the field of an RFID reader without a tag, and is read at times of which the timer thread
  takes notice within 200 ms, is reported exactly once, with the older event for an EM4100 tag before the
  general one, and is the last tag from then on; 200 ms after it was read last its loss is reported, once, and no
  round after that reports anything.\<close>

theorem tag_reported_once_and_lost:
  assumes "attached d" and "tagPresent d \<noteq> 1" and "\<not> tagEventPending d" and "ts \<noteq> []"
    and "\<forall>(t, u) \<in> set ts. u - t \<le> 1 / 5" and "v - fst (last ts) > 1 / 5"
  shows "\<exists>d1 d2. watch sleep tag ts d = Some (d1, tag_reported tag) \<and> lastTag d1 = tag \<and> tagPresent d1 = 1 \<and>
    tagTimer_round v d1 = (d2, tag_lost tag) \<and> tagPresent d2 = 0 \<and> (\<forall>w. tagTimer_round w d2 = (d2, []))"
proof -
  obtain t u us where ts: "ts = (t, u) # us" using assms(4) by (cases ts) auto
  have u: "u - t \<le> 1 / 5" using assms(5) ts by simp
  define d1 where "d1 = (note_time t d)\<lparr>pendingTag := tag, tagEventPending := True, tagPresent := 1\<rparr>"
  have "try_tagEvent t tag d = Some d1"
    using assms(2,3) by (simp add: try_tagEvent_def tag_is_new_def note_time_def d1_def Let_def)
  then have e: "tagEvent sleep tag t d = Some (t, d1)" by (subst tagEvent.simps) simp
  have w: "watched tag t (store_tag d1)" using assms(1) by (simp add: watched_def d1_def note_time_def store_tag_def attached_def)
  have "fire_tag d1 = tag_reported tag" using fire_tag_attached [of d1] assms(1) by (simp add: d1_def note_time_def attached_def)
  then have r: "tagTimer_round u d1 = (store_tag d1, tag_reported tag)"
    using u by (simp add: tagTimer_round_def look_for_loss_def d1_def note_time_def store_tag_def)
  obtain d' where "watch sleep tag us (store_tag d1) = Some (d', [])" "watched tag (fst (last ts)) d'"
    using watch_again [OF w, of us sleep] assms(5) ts by (auto split: if_splits)
  then show ?thesis using e r ts watched_lost [OF _ assms(6), of tag d'] by (auto simp: watched_def)
qed

text \<open>A device at the start, and a tag.\<close>

definition start_reader :: "rfid \<Rightarrow> rfid" where
  "start_reader d = d\<lparr>rdev := set_flag PHIDGET_ATTACHED_FLAG (rdev d), tagPresent := 0, lastTagValid := 0, tagEventPending := False\<rparr>"

lemma start_reader_ok: "attached (start_reader d)" "tagPresent (start_reader d) = 0" "lastTagValid (start_reader d) = 0"
  "\<not> tagEventPending (start_reader d)"
  by (simp_all add: start_reader_def attached_def)

definition tag_example :: rfid_tag where
  "tag_example = \<lparr>protocol = PHIDGET_RFID_PROTOCOL_EM4100, tagString = [49, 50], tagData = [18]\<rparr>"

lemma tag_example_events:
  "tag_reported tag_example = [Tag [18], Tag2 [49, 50] PHIDGET_RFID_PROTOCOL_EM4100]"
  "tag_lost tag_example = [TagLost [18], TagLost2 [49, 50] PHIDGET_RFID_PROTOCOL_EM4100]"
  by (simp_all add: tag_reported_def tag_lost_def tag_example_def)

theorem tag_reported_once_and_lost_witness:
  "\<forall>sleep d. \<exists>d1 d2. watch sleep tag_example [(1, 11 / 10), (23 / 20, 12 / 10)] (start_reader d) =
      Some (d1, [Tag [18], Tag2 [49, 50] PHIDGET_RFID_PROTOCOL_EM4100]) \<and>
    tagTimer_round 2 d1 = (d2, [TagLost [18], TagLost2 [49, 50] PHIDGET_RFID_PROTOCOL_EM4100])"
proof (intro allI)
  fix sleep d
  have ts: "[(1, 11 / 10), (23 / 20, 12 / 10)] \<noteq> ([] :: (rat \<times> rat) list)"
    "\<forall>(t, u) \<in> set [(1, 11 / 10), (23 / 20, 12 / 10)]. u - t \<le> (1 / 5 :: rat)"
    "(2 :: rat) - fst (last [(1, 11 / 10), (23 / 20, 12 / 10 :: rat)]) > 1 / 5" by simp_all
  have "tagPresent (start_reader d) \<noteq> 1" by (simp add: start_reader_ok)
  from tag_reported_once_and_lost [OF start_reader_ok(1) this start_reader_ok(4) ts, of sleep tag_example]
  show "\<exists>d1 d2. watch sleep tag_example [(1, 11 / 10), (23 / 20, 12 / 10)] (start_reader d) =
      Some (d1, [Tag [18], Tag2 [49, 50] PHIDGET_RFID_PROTOCOL_EM4100]) \<and>
    tagTimer_round 2 d1 = (d2, [TagLost [18], TagLost2 [49, 50] PHIDGET_RFID_PROTOCOL_EM4100])"
    unfolding tag_example_events by blast
qed

subsection \<open>The threads\<close>

text \<open>Where the timer thread is between its critical sections.  \<open>held\<close> says that
  \<^verbatim>\<open>CPhidgetRFID_write\<close> holds \<^verbatim>\<open>tagthreadlock\<close>, which it does for all of \<^verbatim>\<open>T5577_WriteTag\<close>
  with its sleeps of 50 ms.\<close>

datatype timer_at = Waiting | Firing | Storing | Looking | Losing

record tag_system =
  clock :: rat
  reader :: rfid
  timer :: timer_at
  held :: bool
  fired :: "rfid_event list"

text \<open>The steps: time passes at any moment; the reading thread sees a tag or waits with it, or changes the state of the
  antenna; a caller of \<^verbatim>\<open>CPhidgetRFID_write\<close> takes the lock and gives it back; the timer thread goes on by one of its
  sections.  The handlers run without the lock, everything else of \<^verbatim>\<open>tagEvent\<close> and of the timer thread needs it.\<close>

inductive tag_step :: "tag_system \<Rightarrow> tag_system \<Rightarrow> bool" where
  tick: "clock s \<le> now \<Longrightarrow> tag_step s (s\<lparr>clock := now\<rparr>)"
| lock_write: "\<not> held s \<Longrightarrow> tag_step s (s\<lparr>held := True\<rparr>)"
| unlock_write: "held s \<Longrightarrow> tag_step s (s\<lparr>held := False\<rparr>)"
| see: "\<not> held s \<Longrightarrow> try_tagEvent (clock s) tag (reader s) = Some d \<Longrightarrow> tag_step s (s\<lparr>reader := d\<rparr>)"
| see_wait: "\<not> held s \<Longrightarrow> try_tagEvent (clock s) tag (reader s) = None \<Longrightarrow>
    tag_step s (s\<lparr>reader := note_time (clock s) (reader s)\<rparr>)"
| antenna: "tag_step s (s\<lparr>reader := (reader s)\<lparr>antennaEchoState := a\<rparr>\<rparr>)"
| wake_pending: "timer s = Waiting \<Longrightarrow> \<not> held s \<Longrightarrow> tagEventPending (reader s) \<Longrightarrow> tag_step s (s\<lparr>timer := Firing\<rparr>)"
| wake: "timer s = Waiting \<Longrightarrow> \<not> held s \<Longrightarrow> \<not> tagEventPending (reader s) \<Longrightarrow> tag_step s (s\<lparr>timer := Looking\<rparr>)"
| fire: "timer s = Firing \<Longrightarrow> tag_step s (s\<lparr>timer := Storing, fired := fired s @ fire_tag (reader s)\<rparr>)"
| store: "timer s = Storing \<Longrightarrow> \<not> held s \<Longrightarrow> tag_step s (s\<lparr>timer := Looking, reader := store_tag (reader s)\<rparr>)"
| look: "timer s = Looking \<Longrightarrow> \<not> held s \<Longrightarrow> look_for_loss (clock s) (reader s) = (d, lost) \<Longrightarrow>
    tag_step s (s\<lparr>timer := (if lost then Losing else Waiting), reader := d\<rparr>)"
| lose: "timer s = Losing \<Longrightarrow> tag_step s (s\<lparr>timer := Waiting, fired := fired s @ fire_loss (reader s)\<rparr>)"

text \<open>An attached device before the first round of the timer thread.\<close>

definition tag_start :: "tag_system \<Rightarrow> bool" where
  "tag_start s \<longleftrightarrow> attached (reader s) \<and> timer s = Waiting \<and> fired s = []"

text \<open>The tag that the last report named, and that every loss names the tag of the last report.\<close>

fun last_report :: "u8 list \<times> rfid_protocol \<Rightarrow> rfid_event list \<Rightarrow> u8 list \<times> rfid_protocol" where
  "last_report r [] = r"
| "last_report r (Tag2 s p # es) = last_report (s, p) es"
| "last_report r (e # es) = last_report r es"

fun losses_named :: "u8 list \<times> rfid_protocol \<Rightarrow> rfid_event list \<Rightarrow> bool" where
  "losses_named r [] = True"
| "losses_named r (Tag2 s p # es) = losses_named (s, p) es"
| "losses_named r (TagLost2 s p # es) = (r = (s, p) \<and> losses_named r es)"
| "losses_named r (e # es) = losses_named r es"

lemma last_report_append: "last_report r (xs @ ys) = last_report (last_report r xs) ys"
  by (induction r xs rule: last_report.induct) auto

lemma losses_named_append: "losses_named r (xs @ ys) \<longleftrightarrow> losses_named r xs \<and> losses_named (last_report r xs) ys"
  by (induction r xs rule: losses_named.induct) auto

definition name_of :: "rfid_tag \<Rightarrow> u8 list \<times> rfid_protocol" where
  "name_of t = (tagString t, protocol t)"

lemma report_events:
  "attached d \<Longrightarrow> last_report r (fire_tag d) = name_of (pendingTag d)"
  "losses_named r (fire_tag d)"
  "last_report r (fire_loss d) = r"
  "r = name_of (lastTag d) \<Longrightarrow> losses_named r (fire_loss d)"
  by (simp_all add: fire_tag_def fire_loss_def rfid_fire_def attached_def name_of_def Let_def)

definition tag_inv :: "u8 list \<times> rfid_protocol \<Rightarrow> tag_system \<Rightarrow> bool" where
  "tag_inv r0 s \<longleftrightarrow> (let d = reader s; r = last_report r0 (fired s) in
     attached d \<and> losses_named r0 (fired s) \<and> (timer s \<in> {Firing, Storing} \<longrightarrow> tagEventPending d) \<and>
     r = name_of (if timer s = Storing then pendingTag d else lastTag d))"

lemma tag_start_inv: "tag_start s \<Longrightarrow> tag_inv (name_of (lastTag (reader s))) s"
  by (auto simp: tag_start_def tag_inv_def Let_def)

lemma try_cases:
  assumes "try_tagEvent now tag d = Some d'"
  shows "(\<not> tagEventPending d \<and> d' = (note_time now d)\<lparr>pendingTag := tag, tagEventPending := True, tagPresent := 1\<rparr>) \<or>
    (\<not> tag_is_new (note_time now d) tag \<and> d' = (note_time now d)\<lparr>tagPresent := 1\<rparr>)"
  using assms by (auto simp: try_tagEvent_def Let_def note_time_def split: if_splits)

lemma tag_step_inv:
  assumes "tag_step s s'" and i: "tag_inv r0 s"
  shows "tag_inv r0 s'"
  using assms(1)
proof cases
  case (see tag d)
  from try_cases [OF see(3)] show ?thesis
    using i see(1) by (elim disjE) (auto simp: tag_inv_def Let_def note_time_def attached_def)
next
  case fire
  then show ?thesis using i report_events(1,2) by (auto simp: tag_inv_def Let_def last_report_append losses_named_append)
next
  case (look d lost)
  then show ?thesis using i by (auto simp: tag_inv_def Let_def look_for_loss_def attached_def split: if_splits)
next
  case lose
  then show ?thesis using i report_events(3,4) by (auto simp: tag_inv_def Let_def last_report_append losses_named_append)
qed (use i in \<open>auto simp: tag_inv_def Let_def note_time_def store_tag_def attached_def\<close>)

text \<open>C5. While a reader stays attached, and whatever the interleaving of the reading thread, which sees tags in any
  order and waits with them, of callers that write tags and hold the lock meanwhile, and of the sections of the timer thread, and however much time passes between
  any two steps: every \<^verbatim>\<open>TagLost2\<close> event names the text and the protocol of the last \<^verbatim>\<open>Tag2\<close> event before it,
  and one that comes before any report names the last tag that the device had at the start (the empty one after
  attaching).\<close>

theorem losses_name_reported_tag:
  assumes "tag_step\<^sup>*\<^sup>* s s'" and "tag_start s"
  shows "losses_named (tagString (lastTag (reader s)), protocol (lastTag (reader s))) (fired s')"
proof -
  have "tag_inv (name_of (lastTag (reader s))) s'"
    using assms(1) tag_start_inv [OF assms(2)] by (induction rule: rtranclp_induct) (auto intro: tag_step_inv)
  then show ?thesis by (simp add: tag_inv_def Let_def name_of_def)
qed

text \<open>A run: a tag is seen and reported, then lost.\<close>

definition run_start :: "rfid \<Rightarrow> tag_system" where
  "run_start d = \<lparr>clock = 0, reader = start_reader d, timer = Waiting, held = False, fired = []\<rparr>"

definition run_seen :: "rfid \<Rightarrow> rfid" where
  "run_seen d = (note_time 0 (start_reader d))\<lparr>pendingTag := tag_example, tagEventPending := True, tagPresent := 1\<rparr>"

lemma run_seen_ok: "attached (run_seen d)" "tagEventPending (run_seen d)" "pendingTag (run_seen d) = tag_example"
  "tagPresent (run_seen d) = 1" "lastTagTime (run_seen d) = 0" "lastTag (run_seen d) = lastTag d"
  "try_tagEvent 0 tag_example (start_reader d) = Some (run_seen d)"
  by (simp_all add: run_seen_def note_time_def try_tagEvent_def tag_is_new_def start_reader_def attached_def Let_def)

lemma run_ends: "\<exists>d'. tag_step\<^sup>*\<^sup>* (run_start d)
    \<lparr>clock = 1, reader = d', timer = Waiting, held = False, fired = tag_reported tag_example @ tag_lost tag_example\<rparr>"
proof -
  let ?s = "\<lambda>t d a ev. \<lparr>clock = t, reader = d, timer = a, held = False, fired = ev\<rparr>"
  let ?d1 = "run_seen d" and ?d2 = "store_tag (run_seen d)" and ?r = "tag_reported tag_example"
  let ?d3 = "?d2\<lparr>tagPresent := 0\<rparr>"
  have f: "fire_tag ?d1 = ?r" using fire_tag_attached [of ?d1] by (simp add: run_seen_ok)
  have a3: "attached ?d3" using run_seen_ok(1) by (simp add: store_tag_def attached_def)
  have l: "fire_loss ?d3 = tag_lost tag_example" using fire_loss_attached [OF a3] by (simp add: store_tag_def run_seen_ok)
  have k0: "look_for_loss 0 ?d2 = (?d2, False)" by (simp add: look_for_loss_def store_tag_def run_seen_ok)
  have k1: "look_for_loss 1 ?d2 = (?d3, True)" by (simp add: look_for_loss_def store_tag_def run_seen_ok)
  have "tag_step (run_start d) (?s 0 ?d1 Waiting [])"
    using see [of "run_start d" tag_example ?d1] by (simp add: run_start_def run_seen_ok)
  also have "tag_step\<^sup>*\<^sup>* (?s 0 ?d1 Waiting []) (?s 0 ?d1 Firing [])" using wake_pending [of "?s 0 ?d1 Waiting []"] by (simp add: run_seen_ok)
  also have "tag_step\<^sup>*\<^sup>* (?s 0 ?d1 Firing []) (?s 0 ?d1 Storing ?r)" using fire [of "?s 0 ?d1 Firing []"] f by auto
  also have "tag_step\<^sup>*\<^sup>* (?s 0 ?d1 Storing ?r) (?s 0 ?d2 Looking ?r)" using store [of "?s 0 ?d1 Storing ?r"] by auto
  also have "tag_step\<^sup>*\<^sup>* (?s 0 ?d2 Looking ?r) (?s 0 ?d2 Waiting ?r)" using look [of "?s 0 ?d2 Looking ?r"] k0 by auto
  also have "tag_step\<^sup>*\<^sup>* (?s 0 ?d2 Waiting ?r) (?s 1 ?d2 Waiting ?r)" using tick [of "?s 0 ?d2 Waiting ?r" 1] by auto
  also have "tag_step\<^sup>*\<^sup>* (?s 1 ?d2 Waiting ?r) (?s 1 ?d2 Looking ?r)" using wake [of "?s 1 ?d2 Waiting ?r"] by (auto simp: store_tag_def)
  also have "tag_step\<^sup>*\<^sup>* (?s 1 ?d2 Looking ?r) (?s 1 ?d3 Losing ?r)" using look [of "?s 1 ?d2 Looking ?r"] k1 by auto
  also have "tag_step\<^sup>*\<^sup>* (?s 1 ?d3 Losing ?r) (?s 1 ?d3 Waiting (?r @ tag_lost tag_example))" using lose [of "?s 1 ?d3 Losing ?r"] l by auto
  finally show ?thesis by blast
qed

theorem losses_name_reported_tag_witness:
  "\<forall>d. \<exists>s'. tag_step\<^sup>*\<^sup>* (run_start d) s' \<and> fired s' = tag_reported tag_example @ tag_lost tag_example \<and>
     losses_named (tagString (lastTag d), protocol (lastTag d)) (fired s')"
proof
  fix d
  obtain d' where r: "tag_step\<^sup>*\<^sup>* (run_start d)
      \<lparr>clock = 1, reader = d', timer = Waiting, held = False, fired = tag_reported tag_example @ tag_lost tag_example\<rparr>"
    using run_ends by blast
  have "tag_start (run_start d)" by (simp add: tag_start_def run_start_def start_reader_ok)
  moreover have "lastTag (reader (run_start d)) = lastTag d" by (simp add: run_start_def start_reader_def)
  ultimately show "\<exists>s'. tag_step\<^sup>*\<^sup>* (run_start d) s' \<and> fired s' = tag_reported tag_example @ tag_lost tag_example \<and>
     losses_named (tagString (lastTag d), protocol (lastTag d)) (fired s')"
    using r losses_name_reported_tag [OF r] by auto
qed

text \<open>A loss before any report: the timer thread finds no pending tag and gives the lock back; a tag is seen; a
  caller of \<^verbatim>\<open>CPhidgetRFID_write\<close> holds the lock for more than 200 ms, so the reading thread cannot note the tag again;
  then the timer thread takes the tag for lost, before it has reported it, and tells the user that the previous tag is gone,
  the empty one on a device that had none.  The pending tag is reported afterwards.\<close>

theorem loss_before_report:
  assumes "timer s = Waiting" and "\<not> held s" and "attached (reader s)" and "tagPresent (reader s) \<noteq> 1" and "\<not> tagEventPending (reader s)"
    and "fired s = []" and "clock s + 1 / 5 < t" and "protocol tag \<noteq> PHIDGET_RFID_PROTOCOL_EM4100"
  shows "\<exists>s'. tag_step\<^sup>*\<^sup>* s s' \<and> tagPresent (reader s') = 0 \<and> pendingTag (reader s') = tag \<and> tagEventPending (reader s') \<and>
    fired s' = [TagLost2 (tagString (lastTag (reader s))) (protocol (lastTag (reader s)))]"
proof -
  define d1 where "d1 = (note_time (clock s) (reader s))\<lparr>pendingTag := tag, tagEventPending := True, tagPresent := 1\<rparr>"
  define d2 where "d2 = d1\<lparr>tagPresent := 0\<rparr>"
  define s1 where "s1 = s\<lparr>timer := Looking\<rparr>"
  define s2 where "s2 = s1\<lparr>reader := d1\<rparr>"
  define s3 where "s3 = s2\<lparr>held := True\<rparr>"
  define s4 where "s4 = s3\<lparr>clock := t\<rparr>"
  define s5 where "s5 = s4\<lparr>held := False\<rparr>"
  define s6 where "s6 = s5\<lparr>timer := Losing, reader := d2\<rparr>"
  define s7 where "s7 = s6\<lparr>timer := Waiting, fired := fired s6 @ fire_loss (reader s6)\<rparr>"
  note f = s1_def s2_def s3_def s4_def s5_def s6_def
  have l: "look_for_loss t d1 = (d2, True)" using assms(7) by (simp add: look_for_loss_def note_time_def d1_def d2_def)
  have e: "try_tagEvent (clock s1) tag (reader s1) = Some d1"
    using assms(4,5) by (simp add: try_tagEvent_def tag_is_new_def note_time_def Let_def d1_def s1_def)
  have "tag_step s s1" unfolding s1_def by (rule wake [OF assms(1,2,5)])
  moreover have "tag_step s1 s2" unfolding s2_def by (rule see [OF _ e]) (simp add: assms(2) s1_def)
  moreover have "tag_step s2 s3" unfolding s3_def by (rule lock_write) (simp add: assms(2) f)
  moreover have "tag_step s3 s4" unfolding s4_def by (rule tick) (use assms(7) in \<open>simp add: s1_def s2_def s3_def\<close>)
  moreover have "tag_step s4 s5" unfolding s5_def by (rule unlock_write) (simp add: s3_def s4_def)
  moreover have "tag_step s5 s6"
    using look [of s5 d2 True] l unfolding s6_def by (simp add: s1_def s2_def s3_def s4_def s5_def)
  moreover have "tag_step s6 s7" unfolding s7_def by (rule lose) (simp add: s6_def)
  ultimately have run: "tag_step\<^sup>*\<^sup>* s s7" by (meson rtranclp.rtrancl_into_rtrancl rtranclp.rtrancl_refl)
  have "fire_loss d2 = [TagLost2 (tagString (lastTag (reader s))) (protocol (lastTag (reader s)))]"
    using assms(3,8) by (simp add: fire_loss_def rfid_fire_def attached_def note_time_def d1_def d2_def)
  then have "fired s7 = [TagLost2 (tagString (lastTag (reader s))) (protocol (lastTag (reader s)))]" "reader s7 = d2"
    using assms(6) by (simp_all add: s7_def f)
  then show ?thesis using run by (intro exI [of _ s7]) (simp add: d2_def d1_def)
qed

theorem loss_before_report_witness:
  "\<forall>d. \<exists>s'. tag_step\<^sup>*\<^sup>* (run_start (d\<lparr>lastTag := rfid_no_tag\<rparr>)) s' \<and> fired s' = [TagLost2 (tagString rfid_no_tag) (protocol rfid_no_tag)]"
proof
  fix d
  let ?s = "run_start (d\<lparr>lastTag := rfid_no_tag\<rparr>)"
  have "timer ?s = Waiting" "\<not> held ?s" "attached (reader ?s)" "tagPresent (reader ?s) \<noteq> 1" "\<not> tagEventPending (reader ?s)"
    "fired ?s = []" "clock ?s + 1 / 5 < 1" "lastTag (reader ?s) = rfid_no_tag"
    by (simp_all add: run_start_def start_reader_ok) (simp add: start_reader_def)
  moreover have "protocol (tag_example\<lparr>protocol := PHIDGET_RFID_PROTOCOL_PHIDGETS\<rparr>) \<noteq> PHIDGET_RFID_PROTOCOL_EM4100" by simp
  ultimately show "\<exists>s'. tag_step\<^sup>*\<^sup>* ?s s' \<and> fired s' = [TagLost2 (tagString rfid_no_tag) (protocol rfid_no_tag)]"
    using loss_before_report [of ?s 1 "tag_example\<lparr>protocol := PHIDGET_RFID_PROTOCOL_PHIDGETS\<rparr>"] by metis
qed

end
