(* ===== verification/Spec2Isabelle.thy ===== *)
theory Spec2Isabelle
  imports Utils Netio Clist Plist Ptree Pdict Handle Devices Manager Hotplug Reachable Gpp Label Threads Led Led64 Led_M3
    Ir Ir_Decode Ir_Bits Ir_Receive Ir_Times Ir_Analyze Ir_Wire Ir_Space Ir_Remote Ir_Ring Ir_Learn
    Rfid Rfid_Decode Rfid_Stream Rfid_Em Rfid_Fdxb Rfid_Text Rfid_Analyze Rfid_Pulses Rfid_Input Rfid_Tags
begin

text \<open>
  A verification library for libphidget, the C library that lets a program use Phidget USB devices.
  All paths are relative to \<^verbatim>\<open>src/RXTXRobot_INSTALL/INSTALL/Linux/libs/libphidget/\<close>.

  \<^bold>\<open>The program.\<close>  A program creates handles and opens them for a serial number, a label or any
  device of a class.  A central thread scans the bus every 250 ms, compares the scan with the list of
  attached devices and gives each new device to a handle that was opened for it; the handle then has a read
  thread, which passes the device's packets to the code of the device class, and a write thread, which
  fetches packets from that code and sends them.  Beside this stand the utilities of the network service: a
  dictionary of keys with change listeners on a binary tree, circular lists, the escaping of texts, and the
  reading of lines from sockets.

  \<^bold>\<open>The theories.\<close>

  \<^item> \<open>Prelude_C\<close>: bounded C objects (\<open>cread\<close>, \<open>cwrite\<close>, \<open>blit\<close>; \<open>None\<close> is an access
    outside of the object), C strings, the return codes \<open>ephidget\<close>, counted loops (\<open>cfor\<close>), the
    interface \<open>text_codec\<close> of a coding with its decoding.
  \<^item> \<open>Utils\<close>: escaping and hexadecimal arrays (\<^verbatim>\<open>utils/utils.c\<close>), two
    interpretations of \<open>text_codec\<close>; \<open>Netio\<close>: \<^verbatim>\<open>pd_getline\<close>, \<^verbatim>\<open>pu_write\<close> and
    \<^verbatim>\<open>pu_read\<close> over a list of outcomes of \<^verbatim>\<open>read\<close> and \<^verbatim>\<open>write\<close>.
  \<^item> \<open>Clist\<close> (\<^verbatim>\<open>cphidgetlist.c\<close>) with the interface \<open>list_matcher\<close>, which the lists of
    handles, of devices and of managers interpret; \<open>Plist\<close> (\<^verbatim>\<open>utils/plist.c\<close>) on a heap
    of nodes with the interface \<open>keyed_list\<close>; \<open>Ptree\<close> (\<^verbatim>\<open>utils/ptree.c\<close>) on a heap of
    nodes with parent pointers, with the interface \<open>ordered_store\<close>, which every lawful comparison
    gives; \<open>Pdict\<close> (\<^verbatim>\<open>dict/pdict.c\<close>) on lists of entries, and its refinement to the tree.
  \<^item> \<open>Handle\<close>: the handle record, the status flags, the comparison of handles and the transfers of
    packets (\<^verbatim>\<open>cphidget.c\<close>, \<^verbatim>\<open>linux/cusblinux-1.0.c\<close>); \<open>Devices\<close>: registering, opening,
    closing, attaching and detaching; \<open>Manager\<close>: manager objects, the bus scan and the poll
    (\<^verbatim>\<open>cphidgetmanager.c\<close>); \<open>Hotplug\<close>: the transition system of the calls of a program and the
    rounds of the central thread, one after the other, with its invariant; \<open>Reachable\<close>: its reachable states, and
    the rules for programs (\<open>proper_call\<close>) under which a closed handle can be deleted.
  \<^item> \<open>Gpp\<close>: \<^verbatim>\<open>CPhidget_read\<close> and \<^verbatim>\<open>CPhidget_write\<close>, the general packet
    protocol (tables, firmware, commands and responses) and calibration; \<open>Label\<close>: device labels with the
    detection and the repair of wrapped descriptors.
  \<^item> \<open>Threads\<close>: \<^verbatim>\<open>ReadThreadFunction\<close>, \<^verbatim>\<open>WriteThreadFunction\<close> and the event
    wait (\<^verbatim>\<open>cthread.c\<close>), and the hand-over of output from callers to the write thread as a step
    relation \<open>port_step\<close> with the interface \<open>output_port\<close> of a queue of requests, which the packet
    buffer of \<^verbatim>\<open>cphidgetmacros.h\<close> interprets.
  \<^item> \<open>Led\<close>, \<open>Led64\<close>, \<open>Led_M3\<close>: the LED controllers (\<^verbatim>\<open>cphidgetled.c\<close>): record,
    attachment, incoming and outgoing packets, and the functions of the interface; the queue of the advanced
    LED 64 interprets \<open>output_port\<close>.
  \<^item> The infrared receiver and transmitter (\<^verbatim>\<open>cphidgetir.c\<close>): \<open>Ir\<close> has the record, the times as
    bytes and the transmit functions; \<open>Ir_Decode\<close> the decoding of pulse distance, pulse width and bi-phase codes;
    \<open>Ir_Receive\<close> the ring, \<^verbatim>\<open>analyze_data\<close>, \<^verbatim>\<open>learn_data\<close>, incoming packets and the functions
    that read results.  \<open>Ir_Bits\<close>, \<open>Ir_Times\<close>, \<open>Ir_Analyze\<close>, \<open>Ir_Wire\<close> and \<open>Ir_Space\<close>
    hold the lemmas that lead from the bits of a code over its times to what a receiver makes of them,
    \<open>Ir_Remote\<close> puts both directions together; \<open>Ir_Ring\<close> has the interface \<open>wrapping_ring\<close> of a ring
    that is read while it is filled, with its three readers as interpretations; \<open>Ir_Learn\<close> is about learning.
  \<^item> The RFID readers (\<^verbatim>\<open>cphidgetrfid.c\<close>): \<open>Rfid\<close> has the record, output packets, the encoders of
    the three tag formats, the programming of T5577 tags and the interface; \<open>Rfid_Decode\<close> the decoders, the line
    codes and the analysis of pulses; \<open>Rfid_Input\<close> attachment, incoming packets and the two threads that
    report tags.  \<open>Rfid_Stream\<close> has the interface \<open>tag_format\<close> of a format whose tags can be found in a
    stream that repeats them; \<open>Rfid_Em\<close>, \<open>Rfid_Fdxb\<close> and \<open>Rfid_Text\<close> interpret it with the decoders of
    EM4100, FDX-B and Phidgets tags on the output of their encoders.  \<open>Rfid_Analyze\<close> and \<open>Rfid_Pulses\<close>
    are about the analysis, \<open>Rfid_Tags\<close> about events, with the threads as a step relation \<open>tag_step\<close>.

  \<^bold>\<open>What is shown.\<close>

  \<^item> Hot plugging, for calls and rounds of the central thread that follow each other and do not overlap, and as long
    as no product string fails to be read while a handle is attached: a program that keeps the handles it has open
    at the same time apart (other classes, or other serial numbers) and deletes only handles that it has closed, or never opened,
    never makes the library read a freed handle, and keeps the invariant of the lists and flags; a poll makes the attached
    devices agree with the bus unless a thread has reported an error; a new device goes to the first handle that wants it.
    Ways in which it goes wrong: for a program that opens two handles for any device of a class, closing one takes
    the other out of the list, and deleting it leaves a freed handle there; a handle that waits hides the USB error of another; a
    failed open is taken for an open handle; a product string that cannot be read frees the program's handle.
  \<^item> Output: for an event wait that wakes up only when it is signalled, every interleaving of callers and write thread loses no
    request and makes none up (a spurious wake-up sends a packet of zeros); with spurious wake-ups too, an
    advanced LED 64 ends up showing the last power that was accepted for each LED, for a model of the device
    that follows the comments of the source; the attachment establishes the agreement that this starts
    from; the packets of an M3 name the half of the LEDs and its powers.  Two ways in which it goes wrong: a late signal makes
    the LED 64 read in front of its buffer, and an M3 dims its LEDs after being attached again.
  \<^item> Transfers: tables and firmware images arrive as sent for the device's reading of the packets,
    images of 64 KiB do not; waiting for a response is a bounded search, after which a later response can still hide the one that
    was found; a label is reported as set only when the device's answer decodes to it; the wrapped label is repaired; which
    length bytes of a label descriptor stay inside the arrays; a read thread ends after exactly 31 unusable transfers.
  \<^item> Infrared: a code with bits of both values sent with the defaults is received as the code; a pulse-distance
    code of any parameters that the receiver can tell apart is decoded; raw times are read back from the packets to their
    resolution; the ring gives its reader the times of packets in step in order until it is overtaken.  Ways in which it goes wrong: long
    codes overrun the array of the decoder, many gaps that of the learner.
  \<^item> RFID: a tag of each format is read back from wherever the stream begins, header search, parities and CRC included;
    the analysis returns on all data, and the pulses of a Manchester-coded EM4100 tag, from any place in the tag on, come out as
    the text that was written, the decoder getting in step at the first long pulse; a tag is reported once and lost once; and in
    every interleaving of the reading thread, the timer thread and callers that hold the lock of the tags, with any time between
    the steps, a loss names the tag that was reported last, or the one that the device had at the start.  Ways in which it goes
    wrong: a false header hides the tags behind it, a text with upper-case digits is written but not confirmed, and a tag
    that comes while a caller writes can be lost before it is reported.
  \<^item> Containers and codecs: the tree is an ordered map under insertion, removal and removal during a
    walk, and is freed completely; the lists keep their structure; the dictionary updates and notifies all
    or nothing, and its operations on entry lists are those on the tree; escaping and the hexadecimal
    arrays are read back and stay inside their buffers.

  \<^bold>\<open>Conventions.\<close>  A C function is a function of the same name that returns its result, the
  changed state and, where it matters, a log of what it sent.  \<open>None\<close> is undefined behaviour (and, for
  \<open>partial_function\<close>, not returning), so \<open>Some\<close> in a theorem says that the code returns and stays
  inside its objects.  What comes from outside is an argument: the outcomes of \<^verbatim>\<open>malloc\<close>, of
  each USB transfer, of \<^verbatim>\<open>iconv\<close>, of regular expressions and of the bus.  In the step relations of
  \<open>Threads\<close> and \<open>Rfid_Tags\<close> a section under a lock is one step.  A call of \<open>Hotplug\<close> and a round of the
  central thread is one step as a whole, which is more than the locks give: they are released between the parts of a poll.  Fixed-width integers that can wrap are words; lengths and indexes that cannot are natural
  numbers.  Doubles of the LED controllers are the rational numbers they denote; the one composite
  floating-point operation, a division followed by a multiplication, is the parameter \<open>fdm\<close>, with exact
  arithmetic (\<open>fdm_exact\<close>) in the theorems that depend on its value.  The registers of the infrared
  decoder are doubles as well: rational numbers, with \<open>None\<close> for the value that is not a number.  The pointers into
  rings of 2048 and 1024 elements, which the code masks, are words of 11 and 10 bits.  Random bits of
  uninitialised local buffers, the handing over of a packet and the reading of one are arguments (\<open>stack\<close>,
  \<open>send\<close>, \<open>read\<close>).  There is no fuel: loops are
  structural over their arrays or over the finite list of outcomes that a run has met, or carry a measure;
  the loops over heap nodes, packets and received data are \<open>partial_function\<close>s, for which the theorems prove
  that they return.

  \<^bold>\<open>Not modelled.\<close>  Of the infrared device the texts of codes for the network, of the RFID readers the
  parts for HiTag tags and raw data that only a debugging build has, and of both the registration of handlers.
  The other device classes, whose output goes through the packet buffer of
  \<open>Threads\<close>; the network service, its sockets and its threads (\<^verbatim>\<open>csocketopen.c\<close>,
  \<^verbatim>\<open>csocketevents.c\<close>, \<^verbatim>\<open>dict/pdictclient.c\<close>), and with it the branches for
  network handles in the modelled functions; service discovery; the bindings for Java and LabVIEW; logging;
  the alternative back end \<^verbatim>\<open>linux/cusblinux.c\<close>; the vendored \<^verbatim>\<open>utils/cvtutf.c\<close> and
  \<^verbatim>\<open>utils/md5.c\<close>.  Calls that overlap a round of the central thread or another call on the lists are not
  described, nor is a failing allocation in the packets that set a label.  User handlers do not call back into the library, the kernel driver handling
  of libusb is left out, and the tables of device names and texts are data.
\<close>

end
